(* ===== verification/Prelude.thy ===== *)
theory Prelude
  imports Main "HOL-Library.Word"
begin

unbundle bit_operations_syntax

text \<open>
  Shared vocabulary of the development: the machine-word types of the C sources, the
  outcome type of the modelled operations (an abort of the process, or a value), the
  sequencing operator for it, and the lemmas on words and bitmaps used by more than
  one component.
\<close>

section \<open>Types\<close>

type_synonym u64 = "64 word"
type_synonym u32 = "32 word"
type_synonym u16 = "16 word"
type_synonym u8 = "8 word"

text \<open>
  How a modelled operation can stop without a value. \<open>TableFull\<close> is the
  \<open>exit(1)\<close> of the unique table ("BDD Unique table full"); \<open>RehashFail\<close> is that of the
  collector ("not all nodes could be rehashed"); \<open>BadSize\<close> are the
  \<open>exit(1)\<close> calls of the constructors whose sizes are refused; \<open>AssertFail\<close> is a
  failed \<open>assert\<close>; \<open>NullDeref\<close> is a read or a call through a null pointer;
  \<open>DivZero\<close> is a trapping integer division; \<open>OutOfBounds\<close> is a read or write behind the
  end of an array; \<open>BadRead\<close> is a read of memory that is not mapped; \<open>OutOfFuel\<close> is
  not a behaviour of the code: it says that the bound given to a loop was too small,
  and every loop comes with a lemma that its bound is enough.
\<close>

datatype serror = TableFull | RehashFail | BadSize | AssertFail | NullDeref | DivZero | OutOfBounds | BadRead | OutOfFuel

text \<open>Sequencing of outcomes: an abort stops the rest.\<close>

definition bindE :: "'e + 'a \<Rightarrow> ('a \<Rightarrow> 'e + 'b) \<Rightarrow> 'e + 'b" where
  "bindE m f = (case m of Inl e \<Rightarrow> Inl e | Inr x \<Rightarrow> f x)"

lemma bindE_simps [simp]:
  "bindE (Inl e) f = Inl e"
  "bindE (Inr x) f = f x"
  by (simp_all add: bindE_def)

lemma bindE_eq_Inr: "bindE m f = Inr y \<longleftrightarrow> (\<exists>x. m = Inr x \<and> f x = Inr y)"
  by (cases m) auto

lemma bindE_eq_Inl: "bindE m f = Inl e \<longleftrightarrow> m = Inl e \<or> (\<exists>x. m = Inr x \<and> f x = Inl e)"
  by (cases m) auto

lemma bindE_assoc: "bindE (bindE m f) g = bindE m (\<lambda>x. bindE (f x) g)"
  by (cases m) auto

text \<open>Collections of facts that the components add to and share.\<close>

named_theorems word_masks \<open>the constants of the node encoding, as operations on bits\<close>
named_theorems frame \<open>fields that an operation does not write\<close>

section \<open>Words\<close>

lemma word_and_ff40: "(x :: u64) AND 0xffffffffff = take_bit 40 x"
  by (simp add: take_bit_eq_mask mask_eq_exp_minus_1)

lemma word_and_7: "(x :: u64) AND 7 = take_bit 3 x"
  by (simp add: take_bit_eq_mask mask_eq_exp_minus_1)

lemma word_and_63: "(x :: u64) AND 63 = take_bit 6 x"
  by (simp add: take_bit_eq_mask mask_eq_exp_minus_1)

lemma unat_take_bit: "unat (take_bit n (x :: 'a::len word)) = unat x mod 2 ^ n"
  by (simp flip: take_bit_eq_mod add: unsigned_take_bit_eq)

lemma unat_push_bit_64: "unat (push_bit n (x :: u64)) = (unat x * 2 ^ n) mod 2 ^ 64"
proof -
  have "push_bit n x = of_nat (unat x * 2 ^ n)"
    by (simp add: push_bit_eq_mult)
  then show ?thesis
    by (simp only: unat_of_nat) simp
qed

lemma unat_of_nat_64: "n < 2 ^ 64 \<Longrightarrow> unat (of_nat n :: u64) = n"
  by (simp add: unsigned_of_nat take_bit_nat_eq_self)

lemma word_of_nat_inj_64: "m < 2 ^ 64 \<Longrightarrow> n < 2 ^ 64 \<Longrightarrow> (of_nat m :: u64) = of_nat n \<longleftrightarrow> m = n"
  by (metis unat_of_nat_64)

section \<open>Masks of the node encoding\<close>

text \<open>
  A decision diagram is a word whose bits 40 to 62 are clear: an index and the complement bit.
\<close>

definition dd_word :: "u64 \<Rightarrow> bool" where
  "dd_word x \<longleftrightarrow> x AND 0x7fffff0000000000 = 0"

lemma mask_dd: "(0x7fffff0000000000 :: u64) = push_bit 40 (mask 23)"
  and mask_not_dd: "(0x800000ffffffffff :: u64) = NOT (push_bit 40 (mask 23))"
  and mask_fffff: "(0x00000000000fffff :: u64) = mask 20"
  and mask_fffff2: "(0x000000fffff00000 :: u64) = push_bit 20 (mask 20)"
  and mask_top: "(0x8000000000000000 :: u64) = push_bit 63 (mask 1)"
  and mask_62: "(0x4000000000000000 :: u64) = push_bit 62 (mask 1)"
  and mask_61: "(0x2000000000000000 :: u64) = push_bit 61 (mask 1)"
  and mask_60: "(0x1000000000000000 :: u64) = push_bit 60 (mask 1)"
  and mask_ff40: "(0x000000ffffffffff :: u64) = mask 40"
  and mask_ff32: "(0x00000000ffffffff :: u64) = mask 32"
  by (simp_all add: mask_eq_exp_minus_1 push_bit_eq_mult)

lemma bit_key_masks:
  "bit (0x7fffff0000000000 :: u64) n \<longleftrightarrow> 40 \<le> n \<and> n < 63"
  "bit (0x800000ffffffffff :: u64) n \<longleftrightarrow> n < 40 \<or> n = 63"
  "bit (0x00000000000fffff :: u64) n \<longleftrightarrow> n < 20"
  "bit (0x000000fffff00000 :: u64) n \<longleftrightarrow> 20 \<le> n \<and> n < 40"
  "bit (0x8000000000000000 :: u64) n \<longleftrightarrow> n = 63"
  "bit (0x4000000000000000 :: u64) n \<longleftrightarrow> n = 62"
  "bit (0x2000000000000000 :: u64) n \<longleftrightarrow> n = 61"
  "bit (0x1000000000000000 :: u64) n \<longleftrightarrow> n = 60"
  "bit (0x000000ffffffffff :: u64) n \<longleftrightarrow> n < 40"
  "bit (0x00000000ffffffff :: u64) n \<longleftrightarrow> n < 32"
  unfolding mask_dd mask_not_dd mask_fffff mask_fffff2 mask_top mask_62 mask_61 mask_60 mask_ff40 mask_ff32 bit_not_iff bit_push_bit_iff
    bit_mask_iff possible_bit_word by auto

lemma bit_u64_less: "bit (x :: u64) n \<Longrightarrow> n < 64"
  by (drule bit_imp_le_length) simp

lemma word_and_zero_iff: "(x :: u64) AND y = 0 \<longleftrightarrow> (\<forall>n. \<not> (bit x n \<and> bit y n))"
  unfolding bit_eq_iff bit_and_iff by (auto dest: bit_u64_less)

lemma dd_word_bits: "dd_word x \<longleftrightarrow> (\<forall>n. 40 \<le> n \<longrightarrow> n < 63 \<longrightarrow> \<not> bit x n)"
  unfolding dd_word_def word_and_zero_iff bit_key_masks by blast

lemma top_bit_test: "(x :: u64) AND 0x8000000000000000 \<noteq> 0 \<longleftrightarrow> bit x 63"
  unfolding word_and_zero_iff bit_key_masks by auto

lemma dd_word_range: "dd_word x \<Longrightarrow> bit x n \<Longrightarrow> n < 40 \<or> n = 63"
  unfolding dd_word_bits by (cases "n < 40"; cases "n < 63") (auto dest!: bit_u64_less)

section \<open>Bitmaps\<close>

text \<open>
  The C sources keep bitmaps in arrays of 64-bit words, bit number \<open>n\<close> in word
  \<open>n / 64\<close> under the mask \<open>0x8000000000000000 >> (n & 63)\<close>. An array is a function
  from indices: the memory behind it is a zero-filled mapping of the maximal size.
\<close>

definition bm_mask :: "nat \<Rightarrow> u64" where
  "bm_mask n = drop_bit (n mod 64) 0x8000000000000000"

definition bm_test :: "(nat \<Rightarrow> u64) \<Rightarrow> nat \<Rightarrow> bool" where
  "bm_test bm n = (bm (n div 64) AND bm_mask n \<noteq> 0)"

definition bm_set :: "(nat \<Rightarrow> u64) \<Rightarrow> nat \<Rightarrow> (nat \<Rightarrow> u64)" where
  "bm_set bm n = bm (n div 64 := bm (n div 64) OR bm_mask n)"

definition bm_clear :: "(nat \<Rightarrow> u64) \<Rightarrow> nat \<Rightarrow> (nat \<Rightarrow> u64)" where
  "bm_clear bm n = bm (n div 64 := bm (n div 64) AND NOT (bm_mask n))"

lemma bm_mask_eq: "bm_mask n = 2 ^ (63 - n mod 64)"
proof (rule bit_word_eqI)
  fix k assume "k < LENGTH(64)"
  have "bit (drop_bit (n mod 64) (2 ^ 63 :: u64)) k \<longleftrightarrow> n mod 64 + k = 63"
    unfolding bit_drop_bit_eq o_def bit_exp_iff by (auto simp: possible_bit_def)
  moreover have "bit (2 ^ (63 - n mod 64) :: u64) k \<longleftrightarrow> k = 63 - n mod 64"
    unfolding bit_exp_iff by (auto simp: possible_bit_def)
  moreover have "n mod 64 < 64" by simp
  ultimately show "bit (bm_mask n) k \<longleftrightarrow> bit (2 ^ (63 - n mod 64) :: u64) k"
    by (auto simp: bm_mask_def)
qed

lemma bit_bm_mask: "bit (bm_mask n) k \<longleftrightarrow> k = 63 - n mod 64"
  by (auto simp: bm_mask_eq bit_exp_iff possible_bit_def)

lemma bm_test_bit: "bm_test bm n \<longleftrightarrow> bit (bm (n div 64)) (63 - n mod 64)"
proof
  assume "bm_test bm n"
  then obtain k where "bit (bm (n div 64) AND bm_mask n) k"
    by (auto simp: bm_test_def bit_eq_iff)
  then show "bit (bm (n div 64)) (63 - n mod 64)"
    by (auto simp: bit_and_iff bit_bm_mask)
next
  assume "bit (bm (n div 64)) (63 - n mod 64)"
  then have "bit (bm (n div 64) AND bm_mask n) (63 - n mod 64)"
    by (simp add: bit_and_iff bit_bm_mask)
  then show "bm_test bm n"
    by (auto simp: bm_test_def)
qed

lemma bm_index_eq: "m div 64 = n div 64 \<Longrightarrow> 63 - m mod 64 = 63 - n mod 64 \<Longrightarrow> m = (n::nat)"
proof -
  assume 1: "m div 64 = n div 64" and 2: "63 - m mod 64 = 63 - n mod 64"
  have "m mod 64 < 64" "n mod 64 < 64" by simp_all
  with 2 have "m mod 64 = n mod 64" by arith
  with 1 show ?thesis by (metis div_mod_decomp)
qed

lemma bm_test_set [simp]: "bm_test (bm_set bm m) n \<longleftrightarrow> n = m \<or> bm_test bm n"
  by (auto simp: bm_test_bit bm_set_def bit_or_iff bit_bm_mask dest: bm_index_eq)

lemma bm_test_clear [simp]: "bm_test (bm_clear bm m) n \<longleftrightarrow> n \<noteq> m \<and> bm_test bm n"
  by (auto simp: bm_test_bit bm_clear_def bit_and_iff bit_not_iff bit_bm_mask possible_bit_def
      dest: bm_index_eq)

lemma bm_test_zero [simp]: "bm_test (\<lambda>_. 0) n \<longleftrightarrow> False"
  by (simp add: bm_test_def)

text \<open>\<open>__builtin_clzll\<close>: the number of leading zero bits (64 for zero, where C leaves it open).\<close>

definition clzll :: "u64 \<Rightarrow> nat" where
  "clzll x = length (takeWhile (\<lambda>j. \<not> bit x (63 - j)) [0..<64])"

lemma clzll_less: "x \<noteq> 0 \<Longrightarrow> clzll x < 64"
  and clzll_bit: "x \<noteq> 0 \<Longrightarrow> bit x (63 - clzll x)"
proof -
  assume "x \<noteq> 0"
  then obtain k where k: "bit x k" by (auto simp: bit_eq_iff)
  then have "k < 64" using bit_imp_le_length by fastforce
  with k have ex: "\<exists>j \<in> set [0..<64]. \<not> \<not> bit x (63 - j)"
    by (intro bexI [of _ "63 - k"]) auto
  let ?P = "\<lambda>j. \<not> bit x (63 - j)"
  have len: "length (takeWhile ?P [0..<64]) < length [0..<64]"
    by (rule ccontr) (metis ex length_takeWhile_le linorder_not_less nat_less_le takeWhile_eq_all_conv
        takeWhile_eq_take take_all)
  then show "clzll x < 64" by (simp add: clzll_def)
  have "\<not> ?P ([0..<64] ! length (takeWhile ?P [0..<64]))"
    using len by (rule nth_length_takeWhile)
  with len show "bit x (63 - clzll x)" by (simp add: clzll_def)
qed

text \<open>\<open>__builtin_popcountll\<close>.\<close>

definition popcountll :: "u64 \<Rightarrow> nat" where
  "popcountll x = length (filter (\<lambda>j. bit x j) [0..<64])"

end
