(* ===== verification/NodeTable.thy ===== *)
theory NodeTable
  imports SylvanHash
begin

text \<open>
  The unique table of \<open>sylvan_table.c\<close> and \<open>sylvan_table.h\<close>: an open-addressing hash
  table from pairs of words to the index of the data bucket that holds the pair. A probe
  sequence visits the eight slots of a cache line cyclically, then jumps to another line.
  Data buckets are claimed in regions of 512, recorded in three bitmaps. The model is the
  execution of one worker: every compare-and-swap sees the value just read.

  An array is a function from indices, since each of them is a zero-filled mapping of
  the maximal size; that the code stays inside the current size is a lemma, not an
  assumption. The thread-local \<open>my_region\<close> and \<open>my_worker_id\<close>, the global
  \<open>lace_n_workers_id\<close> and the global tabulation table are fields of the state.
\<close>

section \<open>State\<close>

record llmsset =
  table :: "nat \<Rightarrow> u64"
  data :: "nat \<Rightarrow> u64"
  bitmap1 :: "nat \<Rightarrow> u64"
  bitmap2 :: "nat \<Rightarrow> u64"
  bitmapc :: "nat \<Rightarrow> u64"
  max_size :: nat
  table_size :: nat
  size_mask :: u64
  hash_cb :: "(u64 \<Rightarrow> u64 \<Rightarrow> u64 \<Rightarrow> u64) option"
  equals_cb :: "(u64 \<Rightarrow> u64 \<Rightarrow> u64 \<Rightarrow> u64 \<Rightarrow> bool) option"
  create_cb :: "(u64 \<Rightarrow> u64 \<Rightarrow> u64 \<times> u64) option"
  destroy_cb :: bool
  destroyed :: "(u64 \<times> u64) list"
  threshold :: u16
  my_region :: u64
  my_worker_id :: nat
  lace_n_workers_id :: nat
  tabhash_table :: "nat \<Rightarrow> u64"

text \<open>
  The custom callbacks are pointers: \<open>None\<close> is \<open>NULL\<close>. \<open>destroy_cb\<close> says whether one is
  set; what it is called with is recorded in \<open>destroyed\<close>.
\<close>

definition dptr :: "llmsset \<Rightarrow> nat \<Rightarrow> u64 \<times> u64" where
  "dptr dbs i = (data dbs (2 * i), data dbs (2 * i + 1))"

definition write_data :: "llmsset \<Rightarrow> nat \<Rightarrow> u64 \<Rightarrow> u64 \<Rightarrow> llmsset" where
  "write_data dbs i a b = dbs\<lparr>data := (data dbs)(2 * i := a, 2 * i + 1 := b)\<rparr>"

section \<open>Data buckets\<close>

text \<open>
  The inner loop of \<open>claim_data_bucket\<close>: the first word of the region with a clear bit,
  and the number of its leading set bits.
\<close>

fun scan_region :: "llmsset \<Rightarrow> nat \<Rightarrow> nat \<Rightarrow> (nat \<times> nat) option" where
  "scan_region dbs 0 i = None"
| "scan_region dbs (Suc n) i =
    (let v = bitmap2 dbs (unat (my_region dbs) * 8 + i)
     in if v \<noteq> 0xffffffffffffffff then Some (i, clzll (NOT v))
        else scan_region dbs n (Suc i))"

text \<open>
  The second loop: move to the next region, wrapping at the end, until one is found that
  nobody has claimed, and claim it; give up after as many steps as there are regions.
\<close>

fun next_region :: "nat \<Rightarrow> llmsset \<Rightarrow> llmsset option" where
  "next_region 0 dbs = None"
| "next_region (Suc count) dbs =
    (let r = my_region dbs + 1;
         r = (if unat r \<ge> table_size dbs div 512 then 0 else r);
         dbs = dbs\<lparr>my_region := r\<rparr>
     in if bm_test (bitmap1 dbs) (unat r) then next_region count dbs
        else Some (dbs\<lparr>bitmap1 := bm_set (bitmap1 dbs) (unat r)\<rparr>))"

text \<open>
  The outer loop. Each round but the first has claimed one more region, so one round more
  than there are regions is enough (\<open>claim_loop_total\<close>). A failed claim returns
  \<open>-1\<close> and leaves the thread-local region as it was (\<open>SET_THREAD_LOCAL\<close> is not reached),
  which is why the region of the last successful round is passed along.
\<close>

fun claim_loop :: "nat \<Rightarrow> llmsset \<Rightarrow> serror + (u64 \<times> llmsset)" where
  "claim_loop 0 dbs = Inl OutOfFuel"
| "claim_loop (Suc fuel) dbs =
    (case (if my_region dbs \<noteq> -1 then scan_region dbs 8 0 else None) of
       Some (i, j) \<Rightarrow>
         let k = unat (my_region dbs) * 8 + i
         in Inr (of_nat ((8 * unat (my_region dbs) + i) * 64 + j),
                 dbs\<lparr>bitmap2 := (bitmap2 dbs)(k := bitmap2 dbs k OR drop_bit j 0x8000000000000000)\<rparr>)
     | None \<Rightarrow>
         if my_region dbs = -1 \<and> lace_n_workers_id dbs = 0 then Inl DivZero
         else
         let start = (if my_region dbs = -1
               then dbs\<lparr>my_region := my_region dbs +
                      of_nat ((my_worker_id dbs * (table_size dbs div 512)) div lace_n_workers_id dbs)\<rparr>
               else dbs)
         in (case next_region (table_size dbs div 512) start of
               None \<Rightarrow> Inr (-1, dbs)
             | Some dbs' \<Rightarrow> claim_loop fuel dbs'))"

definition claim_data_bucket :: "llmsset \<Rightarrow> serror + (u64 \<times> llmsset)" where
  "claim_data_bucket dbs = claim_loop (Suc (Suc (table_size dbs div 512))) dbs"

definition release_data_bucket :: "llmsset \<Rightarrow> nat \<Rightarrow> llmsset" where
  "release_data_bucket dbs index = dbs\<lparr>bitmap2 := bm_clear (bitmap2 dbs) index\<rparr>"

definition set_custom_bucket :: "llmsset \<Rightarrow> nat \<Rightarrow> bool \<Rightarrow> llmsset" where
  "set_custom_bucket dbs index on =
    dbs\<lparr>bitmapc := (if on then bm_set (bitmapc dbs) index else bm_clear (bitmapc dbs) index)\<rparr>"

definition is_custom_bucket :: "llmsset \<Rightarrow> nat \<Rightarrow> bool" where
  "is_custom_bucket dbs index = bm_test (bitmapc dbs) index"

section \<open>Lookup\<close>

definition CL_MASK :: u64 where "CL_MASK = NOT ((64 div 8) - 1)"
definition CL_MASK_R :: u64 where "CL_MASK_R = (64 div 8) - 1"
definition MASK_INDEX :: u64 where "MASK_INDEX = 0x000000ffffffffff"
definition MASK_HASH :: u64 where "MASK_HASH = 0xffffff0000000000"

definition hash_seed :: u64 where "hash_seed = 14695981039346656037"

text \<open>The hash of a pair; calling a \<open>NULL\<close> callback is undefined in C.\<close>

definition llmsset_hash :: "llmsset \<Rightarrow> u64 \<Rightarrow> u64 \<Rightarrow> bool \<Rightarrow> serror + u64" where
  "llmsset_hash dbs a b custom =
    (if custom then (case hash_cb dbs of None \<Rightarrow> Inl NullDeref | Some h \<Rightarrow> Inr (h a b hash_seed))
     else Inr (sylvan_tabhash16 (tabhash_table dbs) a b hash_seed))"

definition llmsset_step :: "u64 \<Rightarrow> u64" where
  "llmsset_step h = push_bit 3 (drop_bit 20 h OR 1)"

text \<open>The next index on the probe sequence, inside the current cache line.\<close>

definition next_slot :: "u64 \<Rightarrow> u64" where
  "next_slot idx = (idx AND CL_MASK) OR ((idx + 1) AND CL_MASK_R)"

text \<open>
  One visit of a slot by \<open>llmsset_lookup2\<close>: either the lookup returns (\<open>Ret\<close>, with the
  index and whether the bucket was created), or it goes on with the next slot (\<open>Next\<close>, with
  the claimed data bucket, if any, and the pair, which the \<open>create\<close> callback may have
  replaced). The compare-and-swap writes only if the slot still holds zero.
\<close>

datatype probe = Ret u64 bool llmsset | Next u64 u64 u64 llmsset

definition probe_match :: "llmsset \<Rightarrow> u64 \<Rightarrow> u64 \<Rightarrow> bool \<Rightarrow> u64 \<Rightarrow> u64 \<Rightarrow> u64 \<Rightarrow> serror + probe" where
  "probe_match dbs a b custom hash v cidx =
    (if hash = v AND MASK_HASH then
       let d_idx = v AND MASK_INDEX;
           (da, db) = dptr dbs (unat d_idx)
       in if custom then
            (case equals_cb dbs of None \<Rightarrow> Inl NullDeref | Some eq \<Rightarrow>
              if eq a b da db then
                (if cidx \<noteq> 0 then
                   (if destroy_cb dbs then
                      Inr (Ret d_idx False (release_data_bucket (dbs\<lparr>destroyed := destroyed dbs @ [(a, b)]\<rparr>) (unat cidx)))
                    else Inl NullDeref)
                 else Inr (Ret d_idx False dbs))
              else Inr (Next cidx a b dbs))
          else if da = a \<and> db = b then
            Inr (Ret d_idx False (if cidx \<noteq> 0 then release_data_bucket dbs (unat cidx) else dbs))
          else Inr (Next cidx a b dbs)
     else Inr (Next cidx a b dbs))"

definition claim_and_write :: "llmsset \<Rightarrow> u64 \<Rightarrow> u64 \<Rightarrow> bool \<Rightarrow> serror + (u64 \<times> u64 \<times> u64 \<times> llmsset)" where
  "claim_and_write dbs a b custom =
    bindE (claim_data_bucket dbs) (\<lambda>(cidx, dbs).
      if cidx = -1 then Inr (cidx, a, b, dbs)
      else if custom then
        (case create_cb dbs of None \<Rightarrow> Inl NullDeref | Some cr \<Rightarrow>
           let (a, b) = cr a b in Inr (cidx, a, b, write_data dbs (unat cidx) a b))
      else Inr (cidx, a, b, write_data dbs (unat cidx) a b))"

definition probe_slot :: "llmsset \<Rightarrow> u64 \<Rightarrow> u64 \<Rightarrow> bool \<Rightarrow> u64 \<Rightarrow> u64 \<Rightarrow> u64 \<Rightarrow> serror + probe" where
  "probe_slot dbs a b custom hash idx cidx =
    (let v = table dbs (unat idx)
     in if v = 0 then
          bindE (if cidx = 0 then claim_and_write dbs a b custom else Inr (cidx, a, b, dbs))
            (\<lambda>(cidx, a, b, dbs).
              if cidx = -1 then Inr (Ret 0 False dbs)
              else if table dbs (unat idx) = 0 then
                let dbs = dbs\<lparr>table := (table dbs)(unat idx := hash OR cidx)\<rparr>;
                    dbs = (if custom then set_custom_bucket dbs (unat cidx) custom else dbs)
                in Inr (Ret cidx True dbs)
              else probe_match dbs a b custom hash (table dbs (unat idx)) cidx)
        else probe_match dbs a b custom hash v cidx)"

text \<open>
  The probe loop. \<open>i\<close> counts cache lines; it is an \<open>int\<close> compared with the 16-bit
  signed \<open>threshold\<close>.
\<close>

fun lookup_loop :: "nat \<Rightarrow> llmsset \<Rightarrow> u64 \<Rightarrow> u64 \<Rightarrow> bool \<Rightarrow> u64 \<Rightarrow> u64 \<Rightarrow> u64 \<Rightarrow> u64 \<Rightarrow> u64 \<Rightarrow> int \<Rightarrow> u64
    \<Rightarrow> serror + (u64 \<times> bool \<times> llmsset)" where
  "lookup_loop 0 dbs a b custom hash step hash_rehash idx lst i cidx = Inl OutOfFuel"
| "lookup_loop (Suc fuel) dbs a b custom hash step hash_rehash idx lst i cidx =
    bindE (probe_slot dbs a b custom hash idx cidx) (\<lambda>p. case p of
      Ret r created dbs \<Rightarrow> Inr (r, created, dbs)
    | Next cidx a b dbs \<Rightarrow>
        let idx = next_slot idx
        in if idx = lst then
             if i + 1 = sint (threshold dbs) then Inr (0, False, dbs)
             else let hash_rehash = hash_rehash + step;
                      idx = hash_rehash AND size_mask dbs
                  in lookup_loop fuel dbs a b custom hash step hash_rehash idx idx (i + 1) cidx
           else lookup_loop fuel dbs a b custom hash step hash_rehash idx lst i cidx)"

text \<open>
  The probe sequence visits every slot of the table before it comes back to the first
  line, and the loop gives up when \<open>threshold\<close> lines have been visited. So it returns within
  the bound below, unless every slot is taken and the threshold is not positive
  (\<open>llmsset_lookup_outcome\<close>): in that one case the loop of the code does not end.
\<close>

definition llmsset_lookup2 :: "llmsset \<Rightarrow> u64 \<Rightarrow> u64 \<Rightarrow> bool \<Rightarrow> serror + (u64 \<times> bool \<times> llmsset)" where
  "llmsset_lookup2 dbs a b custom =
    bindE (llmsset_hash dbs a b custom) (\<lambda>h.
      let step = llmsset_step h;
          hash = h AND MASK_HASH;
          idx = h AND size_mask dbs
      in lookup_loop (Suc (table_size dbs + 8 * nat (sint (threshold dbs)))) dbs a b custom hash step h idx idx 0 0)"

definition llmsset_lookup :: "llmsset \<Rightarrow> u64 \<Rightarrow> u64 \<Rightarrow> serror + (u64 \<times> bool \<times> llmsset)" where
  "llmsset_lookup dbs a b = llmsset_lookup2 dbs a b False"

definition llmsset_lookupc :: "llmsset \<Rightarrow> u64 \<Rightarrow> u64 \<Rightarrow> serror + (u64 \<times> bool \<times> llmsset)" where
  "llmsset_lookupc dbs a b = llmsset_lookup2 dbs a b True"

section \<open>Creation, sizes, clearing\<close>

definition llmsset_set_size :: "llmsset \<Rightarrow> nat \<Rightarrow> llmsset" where
  "llmsset_set_size dbs size' =
    (if size' > 128 \<and> size' \<le> max_size dbs then
       dbs\<lparr>table_size := size', size_mask := of_nat size' - 1,
           threshold := of_nat (192 - 2 * clzll (of_nat size'))\<rparr>
     else dbs)"

definition llmsset_get_size :: "llmsset \<Rightarrow> nat" where
  "llmsset_get_size dbs = table_size dbs"

definition llmsset_get_max_size :: "llmsset \<Rightarrow> nat" where
  "llmsset_get_max_size dbs = max_size dbs"

text \<open>
  \<open>llmsset_create\<close>: fresh zero-filled arrays, indices 0 and 1 forbidden, no callbacks.
  The thread-local and global variables it does not set come from the state it runs in.
\<close>

definition llmsset_create :: "llmsset \<Rightarrow> nat \<Rightarrow> nat \<Rightarrow> serror + llmsset" where
  "llmsset_create env initial_size max_size' =
    (if popcountll (of_nat initial_size) \<noteq> 1 then Inl BadSize
     else if popcountll (of_nat max_size') \<noteq> 1 then Inl BadSize
     else if initial_size > max_size' then Inl BadSize
     else if initial_size < 512 then Inl BadSize
     else
       let dbs = env\<lparr>max_size := max_size'\<rparr>;
           dbs = llmsset_set_size dbs initial_size
       in Inr (dbs\<lparr>table := (\<lambda>_. 0), data := (\<lambda>_. 0), bitmap1 := (\<lambda>_. 0),
                  bitmap2 := (\<lambda>_. 0)(0 := 0xc000000000000000), bitmapc := (\<lambda>_. 0),
                  hash_cb := None, equals_cb := None, create_cb := None, destroy_cb := False,
                  tabhash_table := sylvan_init_hash (tabhash_table dbs)\<rparr>))"

definition llmsset_reset_region :: "llmsset \<Rightarrow> llmsset" where
  "llmsset_reset_region dbs = dbs\<lparr>my_region := -1\<rparr>"

definition llmsset_clear_data :: "llmsset \<Rightarrow> llmsset" where
  "llmsset_clear_data dbs =
    (let dbs = dbs\<lparr>bitmap1 := (\<lambda>_. 0)\<rparr>;
         dbs = dbs\<lparr>bitmap2 := (\<lambda>_. 0)\<rparr>;
         dbs = dbs\<lparr>bitmap2 := (bitmap2 dbs)(0 := 0xc000000000000000)\<rparr>
     in llmsset_reset_region dbs)"

definition llmsset_clear_hashes :: "llmsset \<Rightarrow> llmsset" where
  "llmsset_clear_hashes dbs = dbs\<lparr>table := (\<lambda>_. 0)\<rparr>"

definition llmsset_clear :: "llmsset \<Rightarrow> llmsset" where
  "llmsset_clear dbs = llmsset_clear_hashes (llmsset_clear_data dbs)"

section \<open>Marking and rehashing\<close>

definition llmsset_is_marked :: "llmsset \<Rightarrow> nat \<Rightarrow> bool" where
  "llmsset_is_marked dbs index = bm_test (bitmap2 dbs) index"

text \<open>\<open>llmsset_mark\<close> returns whether the bucket was unmarked before.\<close>

definition llmsset_mark :: "llmsset \<Rightarrow> nat \<Rightarrow> bool \<times> llmsset" where
  "llmsset_mark dbs index =
    (if bm_test (bitmap2 dbs) index then (False, dbs)
     else (True, dbs\<lparr>bitmap2 := bm_set (bitmap2 dbs) index\<rparr>))"

text \<open>
  The loop of \<open>llmsset_rehash_bucket\<close>. At the end of a line the counter is compared with
  the threshold, which grows by one (16-bit wrapping addition) when they meet.
\<close>

fun rehash_loop :: "nat \<Rightarrow> llmsset \<Rightarrow> u64 \<Rightarrow> u64 \<Rightarrow> u64 \<Rightarrow> u64 \<Rightarrow> u64 \<Rightarrow> int \<Rightarrow> serror + (nat \<times> llmsset)" where
  "rehash_loop 0 dbs new_v step hash_rehash idx lst i = Inl OutOfFuel"
| "rehash_loop (Suc fuel) dbs new_v step hash_rehash idx lst i =
    (if table dbs (unat idx) = 0 then
       Inr (1, dbs\<lparr>table := (table dbs)(unat idx := new_v)\<rparr>)
     else
       let idx = next_slot idx
       in if idx = lst then
            let dbs = (if i + 1 = sint (threshold dbs)
                       then dbs\<lparr>threshold := threshold dbs + 1\<rparr> else dbs);
                hash_rehash = hash_rehash + step;
                idx = hash_rehash AND size_mask dbs
            in rehash_loop fuel dbs new_v step hash_rehash idx idx (i + 1)
          else rehash_loop fuel dbs new_v step hash_rehash idx lst i)"

definition llmsset_rehash_bucket :: "llmsset \<Rightarrow> nat \<Rightarrow> serror + (nat \<times> llmsset)" where
  "llmsset_rehash_bucket dbs d_idx =
    (let (a, b) = dptr dbs d_idx in
     bindE (llmsset_hash dbs a b (is_custom_bucket dbs d_idx)) (\<lambda>h.
       let step = llmsset_step h;
           new_v = (h AND MASK_HASH) OR of_nat d_idx;
           idx = h AND size_mask dbs
       in rehash_loop (Suc (table_size dbs)) dbs new_v step h idx idx 0))"

text \<open>
  The leaf of \<open>llmsset_rehash_par\<close>: rehash the marked buckets among \<open>first, first + 1, \<dots>\<close>
  and count failures; and the divide and conquer over it. The first half is spawned and
  synchronised last, so a single worker runs the second half first.
\<close>

fun rehash_leaf :: "nat \<Rightarrow> llmsset \<Rightarrow> nat \<Rightarrow> nat \<Rightarrow> serror + (nat \<times> llmsset)" where
  "rehash_leaf 0 dbs k bad = Inr (bad, dbs)"
| "rehash_leaf (Suc n) dbs k bad =
    (if bm_test (bitmap2 dbs) k then
       bindE (llmsset_rehash_bucket dbs k) (\<lambda>(ok, dbs).
         rehash_leaf n dbs (Suc k) (if ok = 0 then Suc bad else bad))
     else rehash_leaf n dbs (Suc k) bad)"

function llmsset_rehash_par :: "llmsset \<Rightarrow> nat \<Rightarrow> nat \<Rightarrow> serror + (nat \<times> llmsset)" where
  "llmsset_rehash_par dbs first count =
    (if count > 512 then
       (case llmsset_rehash_par dbs (first + count div 2) (count - count div 2) of
          Inl e \<Rightarrow> Inl e
        | Inr (bad, dbs1) \<Rightarrow>
            (case llmsset_rehash_par dbs1 first (count div 2) of
               Inl e \<Rightarrow> Inl e
             | Inr (bad2, dbs2) \<Rightarrow> Inr (bad + bad2, dbs2)))
     else rehash_leaf count dbs first 0)"
  by pat_completeness auto
termination
  by (relation "measure (\<lambda>(dbs, first, count). count)") auto

declare llmsset_rehash_par.simps [simp del]

definition llmsset_rehash :: "llmsset \<Rightarrow> serror + (nat \<times> llmsset)" where
  "llmsset_rehash dbs = llmsset_rehash_par dbs 0 (table_size dbs)"

section \<open>Counting and destroying\<close>

fun count_leaf :: "llmsset \<Rightarrow> nat \<Rightarrow> nat \<Rightarrow> nat \<Rightarrow> nat" where
  "count_leaf dbs 0 k result = result"
| "count_leaf dbs (Suc n) k result =
    count_leaf dbs n (Suc k) (if bm_test (bitmap2 dbs) k then result + 1 else result)"

function llmsset_count_marked_par :: "llmsset \<Rightarrow> nat \<Rightarrow> nat \<Rightarrow> nat" where
  "llmsset_count_marked_par dbs first count =
    (if count > 512 then
       let split = count div 2;
           right = llmsset_count_marked_par dbs (first + split) (count - split);
           left = llmsset_count_marked_par dbs first split
       in left + right
     else if count = 512 then
       let p = first div 64
       in popcountll (bitmap2 dbs p) + popcountll (bitmap2 dbs (p + 1))
          + popcountll (bitmap2 dbs (p + 2)) + popcountll (bitmap2 dbs (p + 3))
          + popcountll (bitmap2 dbs (p + 4)) + popcountll (bitmap2 dbs (p + 5))
          + popcountll (bitmap2 dbs (p + 6)) + popcountll (bitmap2 dbs (p + 7))
     else count_leaf dbs count first 0)"
  by pat_completeness auto
termination
  by (relation "measure (\<lambda>(dbs, first, count). count)") auto

declare llmsset_count_marked_par.simps [simp del]

definition llmsset_count_marked :: "llmsset \<Rightarrow> nat" where
  "llmsset_count_marked dbs = llmsset_count_marked_par dbs 0 (table_size dbs)"

fun destroy_leaf :: "llmsset \<Rightarrow> nat \<Rightarrow> nat \<Rightarrow> llmsset" where
  "destroy_leaf dbs 0 k = dbs"
| "destroy_leaf dbs (Suc n) k =
    destroy_leaf
      (if \<not> bm_test (bitmap2 dbs) k \<and> bm_test (bitmapc dbs) k then
         dbs\<lparr>destroyed := destroyed dbs @ [dptr dbs k], bitmapc := bm_clear (bitmapc dbs) k\<rparr>
       else dbs) n (Suc k)"

function llmsset_destroy_par :: "llmsset \<Rightarrow> nat \<Rightarrow> nat \<Rightarrow> llmsset" where
  "llmsset_destroy_par dbs first count =
    (if count > 1024 then
       let split = count div 2;
           dbs = llmsset_destroy_par dbs (first + split) (count - split)
       in llmsset_destroy_par dbs first split
     else destroy_leaf dbs count first)"
  by pat_completeness auto
termination
  by (relation "measure (\<lambda>(dbs, first, count). count)") auto

declare llmsset_destroy_par.simps [simp del]

definition llmsset_destroy_unmarked :: "llmsset \<Rightarrow> llmsset" where
  "llmsset_destroy_unmarked dbs =
    (if \<not> destroy_cb dbs then dbs else llmsset_destroy_par dbs 0 (table_size dbs))"

definition llmsset_set_custom :: "llmsset \<Rightarrow> (u64 \<Rightarrow> u64 \<Rightarrow> u64 \<Rightarrow> u64) option \<Rightarrow>
    (u64 \<Rightarrow> u64 \<Rightarrow> u64 \<Rightarrow> u64 \<Rightarrow> bool) option \<Rightarrow> (u64 \<Rightarrow> u64 \<Rightarrow> u64 \<times> u64) option \<Rightarrow> bool \<Rightarrow> llmsset" where
  "llmsset_set_custom dbs h eq cr de =
    dbs\<lparr>hash_cb := h, equals_cb := eq, create_cb := cr, destroy_cb := de\<rparr>"

end
