(* ===== verification/NodeTableLoops.thy ===== *)
theory NodeTableLoops
  imports NodeTable
begin

text \<open>
  The loops of the unique table. The probe sequence of a hash is a function of the step
  number: \<open>probe_path\<close> says where the lookup and rehash loops are after \<open>k\<close> steps, and
  the first \<open>table_size\<close> steps visit every slot exactly once, because the jump between
  cache lines is an odd multiple of the line. Claiming a data bucket ends within as many
  rounds as there are regions, and sets one bit that was clear or changes nothing.
\<close>

lemma unat_eqI: "unat a = unat b \<Longrightarrow> a = (b :: 'a::len word)"
  by (rule unsigned_word_eqI)

section \<open>The probe sequence\<close>

definition probe_base :: "u64 \<Rightarrow> u64 \<Rightarrow> u64 \<Rightarrow> nat \<Rightarrow> u64" where
  "probe_base h step msk l = (h + of_nat l * step) AND msk"

definition probe_in_line :: "u64 \<Rightarrow> nat \<Rightarrow> u64" where
  "probe_in_line b j = (b AND CL_MASK) OR ((b + of_nat j) AND CL_MASK_R)"

definition probe_path :: "u64 \<Rightarrow> u64 \<Rightarrow> nat \<Rightarrow> u64" where
  "probe_path h msk k = probe_in_line (probe_base h (llmsset_step h) msk (k div 8)) (k mod 8)"

lemma CL_MASK_R_take: "x AND CL_MASK_R = take_bit 3 x"
  by (simp add: CL_MASK_R_def word_and_7)

lemma CL_MASK_not: "CL_MASK = NOT 7"
  by (simp add: CL_MASK_def)

lemma bit_CL_MASK: "bit (x AND CL_MASK) n \<longleftrightarrow> bit x n \<and> 3 \<le> n"
proof -
  have "bit (x AND NOT (mask 3)) n \<longleftrightarrow> bit x n \<and> 3 \<le> n"
    by (auto simp: bit_and_iff bit_not_iff bit_mask_iff possible_bit_def dest: bit_imp_le_length)
  moreover have "(mask 3 :: u64) = 7" by (simp add: mask_eq_exp_minus_1)
  ultimately show ?thesis by (simp add: CL_MASK_not)
qed

lemma bit_probe_in_line:
  "bit (probe_in_line b j) n \<longleftrightarrow> (if n < 3 then bit (b + of_nat j) n else bit b n)"
  by (auto simp: probe_in_line_def bit_or_iff bit_CL_MASK CL_MASK_R_take bit_take_bit_iff)

lemma probe_in_line_CL: "probe_in_line b j AND CL_MASK = b AND CL_MASK"
  by (rule bit_word_eqI) (auto simp: bit_CL_MASK bit_probe_in_line)

lemma probe_in_line_low: "take_bit 3 (probe_in_line b j) = take_bit 3 (b + of_nat j)"
  by (rule bit_word_eqI) (simp add: bit_take_bit_iff bit_probe_in_line)

lemma take_bit_add1: "take_bit 3 (take_bit 3 x + 1) = take_bit 3 (x + 1 :: u64)"
proof (rule unat_eqI)
  show "unat (take_bit 3 (take_bit 3 x + 1)) = unat (take_bit 3 (x + 1))"
    by (simp add: unat_take_bit unat_word_ariths mod_mod_cancel) (simp add: mod_simps)
qed

lemma next_slot_in_line: "next_slot (probe_in_line b j) = probe_in_line b (Suc j)"
proof -
  have "take_bit 3 (probe_in_line b j + 1) = take_bit 3 (take_bit 3 (b + of_nat j) + 1)"
    by (simp only: take_bit_add1 probe_in_line_low flip: take_bit_add1 [of "probe_in_line b j"])
  also have "\<dots> = take_bit 3 (b + of_nat (Suc j))"
    by (simp only: take_bit_add1) (simp add: ac_simps)
  finally have "take_bit 3 (probe_in_line b j + 1) = take_bit 3 (b + of_nat (Suc j))" .
  then show ?thesis
    unfolding next_slot_def probe_in_line_CL CL_MASK_R_take
    by (simp only:) (simp only: probe_in_line_def CL_MASK_R_take)
qed

lemma probe_in_line_unat: "unat (probe_in_line b j) = 8 * (unat b div 8) + (unat b + j) mod 8"
proof -
  let ?x = "probe_in_line b j"
  have "drop_bit 3 ?x = drop_bit 3 b"
    by (rule bit_word_eqI) (simp add: bit_drop_bit_eq bit_probe_in_line)
  then have "unat (drop_bit 3 ?x) = unat (drop_bit 3 b)" by simp
  then have 1: "unat ?x div 8 = unat b div 8"
    by (simp add: drop_bit_eq_div unat_div)
  have "unat (take_bit 3 ?x) = unat (take_bit 3 (b + of_nat j))"
    by (simp add: probe_in_line_low)
  then have "unat ?x mod 8 = unat (b + of_nat j) mod 8"
    by (simp add: unat_take_bit)
  also have "\<dots> = (unat b + j) mod 8"
  proof -
    have "(unat b + j mod 2 ^ 64) mod 2 ^ 64 mod 8 = (unat b + j) mod 8"
      by (simp add: mod_mod_cancel mod_add_right_eq)
    then show ?thesis
      by (simp add: unat_word_ariths unat_of_nat)
  qed
  finally have 2: "unat ?x mod 8 = (unat b + j) mod 8" .
  have "unat ?x = 8 * (unat ?x div 8) + unat ?x mod 8" by simp
  then show ?thesis unfolding 1 2 .
qed

lemma probe_in_line_start: "8 dvd j \<Longrightarrow> probe_in_line b j = b"
  by (rule unat_eqI) (auto simp: probe_in_line_unat elim!: dvdE)

lemma probe_in_line_start_iff: "probe_in_line b j = b \<longleftrightarrow> 8 dvd j"
proof
  assume "probe_in_line b j = b"
  then have "unat b = 8 * (unat b div 8) + (unat b + j) mod 8"
    by (metis probe_in_line_unat)
  moreover have "unat b = 8 * (unat b div 8) + unat b mod 8" by simp
  ultimately have "(unat b + j) mod 8 = unat b mod 8" by linarith
  then show "8 dvd j" by presburger
qed (rule probe_in_line_start)

section \<open>Coverage of the table by the probe sequence\<close>

lemma and_size_mask:
  assumes "m \<le> 64"
  shows "(x :: u64) AND (of_nat (2 ^ m) - 1) = take_bit m x"
  using assms by (simp add: take_bit_eq_mask mask_eq_exp_minus_1)

lemma odd_unat_or1: "odd (unat ((w :: u64) OR 1))"
proof -
  have "bit (unat (w OR 1)) 0"
    unfolding bit_unsigned_iff bit_or_iff bit_1_iff by simp
  then show ?thesis unfolding bit_0 .
qed

lemma unat_llmsset_step: "\<exists>r. odd r \<and> unat (llmsset_step h) = 8 * r mod 2 ^ 64"
proof (intro exI conjI)
  show "odd (unat (drop_bit 20 h OR 1))" by (rule odd_unat_or1)
  show "unat (llmsset_step h) = 8 * unat (drop_bit 20 h OR 1) mod 2 ^ 64"
    unfolding llmsset_step_def unat_push_bit_64 by (simp only: mult.commute [of 8]) simp
qed

lemma unat_probe_base:
  assumes "m \<le> 64"
  shows "unat (probe_base h st (of_nat (2 ^ m) - 1) l) = (unat h + l * unat st) mod 2 ^ m"
proof -
  have dvd: "(2::nat) ^ m dvd 2 ^ 64" using assms by (rule le_imp_power_dvd)
  have "unat (h + of_nat l * st) = (unat h + (l mod 2 ^ 64 * unat st) mod 2 ^ 64) mod 2 ^ 64"
    by (simp add: unat_word_ariths unat_of_nat)
  also have "\<dots> = (unat h + l * unat st) mod 2 ^ 64"
    by (simp only: mod_add_right_eq mod_mult_left_eq)
  finally show ?thesis
    using dvd by (simp only: probe_base_def and_size_mask [OF assms] unat_take_bit mod_mod_cancel)
qed

lemma probe_base_inj:
  assumes m: "m \<le> 64" and l: "8 * l < 2 ^ m" and l': "8 * l' < 2 ^ m"
    and eq: "(H + l * unat (llmsset_step h)) mod 2 ^ m = (H + l' * unat (llmsset_step h)) mod 2 ^ m"
  shows "l = l'"
proof -
  obtain r where r: "odd r" "unat (llmsset_step h) = 8 * r mod 2 ^ 64"
    using unat_llmsset_step by blast
  have dvd: "(2::nat) ^ m dvd 2 ^ 64" using m by (rule le_imp_power_dvd)
  have red: "(H + k * (8 * r mod 2 ^ 64)) mod 2 ^ m = (H + 8 * k * r) mod 2 ^ m" for k
  proof -
    have "(8 * r mod 2 ^ 64) mod 2 ^ m = 8 * r mod 2 ^ m"
      using dvd by (rule mod_mod_cancel)
    then have "k * (8 * r mod 2 ^ 64) mod 2 ^ m = k * (8 * r) mod 2 ^ m"
      by (metis mod_mult_right_eq)
    then show ?thesis
      by (metis mod_add_right_eq mult.assoc mult.left_commute)
  qed
  have *: "a = b" if ab: "a \<le> b" "8 * b < 2 ^ m"
      "(H + 8 * a * r) mod 2 ^ m = (H + 8 * b * r) mod 2 ^ m" for a b
  proof -
    from ab have "2 ^ m dvd (H + 8 * b * r) - (H + 8 * a * r)"
      by (metis mod_eq_dvd_iff_nat add_le_mono le_refl mult_le_mono)
    moreover have "(H + 8 * b * r) - (H + 8 * a * r) = (8 * (b - a)) * r"
      by (simp add: diff_mult_distrib diff_mult_distrib2)
    ultimately have "2 ^ m dvd (8 * (b - a)) * r" by simp
    moreover have "coprime (2 ^ m) r" using r(1) by simp
    ultimately have "2 ^ m dvd 8 * (b - a)"
      by (simp add: coprime_dvd_mult_left_iff)
    moreover have "8 * (b - a) < 2 ^ m" using ab by arith
    ultimately have "8 * (b - a) = 0"
      using nat_dvd_not_less by blast
    with ab show "a = b" by simp
  qed
  from eq have "(H + 8 * l * r) mod 2 ^ m = (H + 8 * l' * r) mod 2 ^ m"
    by (simp only: r(2) red)
  then show ?thesis
    using *[of l l'] *[of l' l] l l' by (metis nat_le_linear)
qed

lemma unat_probe_path:
  assumes "m \<le> 64"
  shows "unat (probe_path h (of_nat (2 ^ m) - 1) k) =
     (let b = (unat h + k div 8 * unat (llmsset_step h)) mod 2 ^ m
      in 8 * (b div 8) + (b + k mod 8) mod 8)"
  by (simp only: probe_path_def probe_in_line_unat unat_probe_base [OF assms] Let_def)

lemma line_bound: "8 * Suc x \<le> (N::nat) \<Longrightarrow> y < 8 \<Longrightarrow> 8 * x + y < N"
  by simp

lemma probe_path_less:
  assumes "3 \<le> m" "m \<le> 64"
  shows "unat (probe_path h (of_nat (2 ^ m) - 1) k) < 2 ^ m"
proof -
  define b where "b = (unat h + k div 8 * unat (llmsset_step h)) mod 2 ^ m"
  have "b < 2 ^ m" by (simp add: b_def)
  moreover have "(2::nat) ^ m = 8 * 2 ^ (m - 3)"
    using assms(1) power_add [of "2::nat" 3 "m - 3"] by simp
  ultimately have "b div 8 < 2 ^ (m - 3)" by (simp add: less_mult_imp_div_less mult.commute)
  then have "Suc (b div 8) \<le> 2 ^ (m - 3)" by simp
  then have "8 * Suc (b div 8) \<le> 2 ^ m"
    using \<open>(2::nat) ^ m = 8 * 2 ^ (m - 3)\<close> by simp
  moreover have "(b + k mod 8) mod 8 < 8" by simp
  ultimately have "8 * (b div 8) + (b + k mod 8) mod 8 < 2 ^ m" by (rule line_bound)
  then show ?thesis by (simp only: unat_probe_path [OF assms(2)] Let_def b_def)
qed

lemma mod8_add_cancel: "(a + i) mod 8 = (a + j) mod 8 \<Longrightarrow> i < 8 \<Longrightarrow> j < 8 \<Longrightarrow> i = (j::nat)"
proof (induction i j rule: linorder_wlog)
  case (le i j)
  then have "8 dvd (a + j) - (a + i)"
    by (metis mod_eq_dvd_iff_nat add_le_cancel_left)
  then have "8 dvd j - i" by simp
  moreover have "j - i < 8" using le by simp
  ultimately have "j - i = 0" by (meson gr_zeroI nat_dvd_not_less)
  with le show ?case by simp
qed (metis)

lemma div_mod8_unique: "8 * q + r = 8 * q' + r' \<Longrightarrow> r < 8 \<Longrightarrow> r' < 8 \<Longrightarrow> q = q' \<and> r = (r'::nat)"
  by (metis div_mult_self4 add_diff_cancel_left' div_less add_0_right zero_neq_numeral mult.commute)

lemma probe_path_inj:
  assumes m: "3 \<le> m" "m \<le> 64"
  shows "inj_on (\<lambda>k. unat (probe_path h (of_nat (2 ^ m) - 1) k)) {..<2 ^ m}"
proof (rule inj_onI)
  fix k k' :: nat
  let ?s = "unat (llmsset_step h)"
  let ?b = "\<lambda>k. (unat h + k div 8 * ?s) mod 2 ^ m"
  assume k: "k \<in> {..<2 ^ m}" "k' \<in> {..<2 ^ m}"
    and eq: "unat (probe_path h (of_nat (2 ^ m) - 1) k) = unat (probe_path h (of_nat (2 ^ m) - 1) k')"
  have eq': "8 * (?b k div 8) + (?b k + k mod 8) mod 8 = 8 * (?b k' div 8) + (?b k' + k' mod 8) mod 8"
    using eq by (simp only: unat_probe_path [OF m(2)] Let_def)
  obtain r where r: "unat (llmsset_step h) = 8 * r mod 2 ^ 64"
    using unat_llmsset_step by blast
  have d8: "(8::nat) dvd 2 ^ m"
    using le_imp_power_dvd [OF m(1), of "2::nat"] by simp
  have bm: "?b j mod 8 = unat h mod 8" for j
  proof -
    have "8 dvd ?s" by (simp add: r dvd_mod)
    then have "(unat h + j div 8 * ?s) mod 8 = unat h mod 8"
      by (metis dvd_mult mod_add_right_eq dvd_imp_mod_0 add_0_right)
    with d8 show ?thesis by (simp add: mod_mod_cancel)
  qed
  have 1: "?b k div 8 = ?b k' div 8" and 2: "(?b k + k mod 8) mod 8 = (?b k' + k' mod 8) mod 8"
    using div_mod8_unique [OF eq'] by simp_all
  from 1 bm [of k] bm [of k'] have bb: "?b k = ?b k'"
    by (metis mult_div_mod_eq)
  have kk: "k div 8 = k' div 8"
  proof (rule probe_base_inj [OF m(2) _ _ bb])
    show "8 * (k div 8) < 2 ^ m" "8 * (k' div 8) < 2 ^ m"
      using k by (auto intro: le_less_trans [OF times_div_less_eq_dividend])
  qed
  from 2 bb have "(?b k + k mod 8) mod 8 = (?b k + k' mod 8) mod 8" by simp
  then have "k mod 8 = k' mod 8" by (rule mod8_add_cancel) simp_all
  with kk show "k = k'" by (metis mult_div_mod_eq)
qed

text \<open>Every slot is on the probe sequence of every hash, within \<open>table_size\<close> steps.\<close>

lemma probe_path_surj:
  assumes m: "3 \<le> m" "m \<le> 64" and p: "p < 2 ^ m"
  shows "\<exists>k < 2 ^ m. unat (probe_path h (of_nat (2 ^ m) - 1) k) = p"
proof -
  let ?f = "\<lambda>k. unat (probe_path h (of_nat (2 ^ m) - 1) k)"
  have "?f ` {..<2 ^ m} \<subseteq> {..<2 ^ m}" using probe_path_less [OF m] by auto
  moreover have "card (?f ` {..<2 ^ m}) = card {..<2 ^ m :: nat}"
    by (rule card_image) (rule probe_path_inj [OF m])
  ultimately have "?f ` {..<2 ^ m} = {..<2 ^ m}"
    by (intro card_subset_eq) auto
  with p show ?thesis by (metis (no_types, lifting) imageE lessThan_iff)
qed

section \<open>The probe loop follows the probe sequence\<close>

definition probe_stops :: "llmsset \<Rightarrow> u64 \<Rightarrow> u64 \<Rightarrow> u64 \<Rightarrow> nat \<Rightarrow> bool" where
  "probe_stops dbs a b h k =
    (let v = table dbs (unat (probe_path h (size_mask dbs) k))
     in v = 0 \<or> (h AND MASK_HASH = v AND MASK_HASH \<and> dptr dbs (unat (v AND MASK_INDEX)) = (a, b)))"

lemma probe_slot_goes_on:
  "\<not> probe_stops dbs a b h k \<Longrightarrow>
   probe_slot dbs a b False (h AND MASK_HASH) (probe_path h (size_mask dbs) k) 0 = Inr (Next 0 a b dbs)"
  by (auto simp: probe_stops_def probe_slot_def probe_match_def Let_def split: prod.splits)

lemma next_slot_path:
  "next_slot (probe_path h msk k) =
     (if Suc (k mod 8) = 8 then probe_base h (llmsset_step h) msk (k div 8) else probe_path h msk (Suc k))"
proof (cases "Suc (k mod 8) = 8")
  case True
  then show ?thesis
    by (simp add: probe_path_def next_slot_in_line probe_in_line_start)
next
  case False
  then have "Suc k div 8 = k div 8" "Suc k mod 8 = Suc (k mod 8)"
    by (auto simp: div_Suc mod_Suc)
  with False show ?thesis
    by (simp add: probe_path_def next_slot_in_line)
qed

lemma next_slot_path_last:
  "next_slot (probe_path h msk k) = probe_base h (llmsset_step h) msk (k div 8) \<longleftrightarrow> Suc (k mod 8) = 8"
proof -
  have "k mod 8 < 8" by simp
  then have "8 dvd Suc (k mod 8) \<longleftrightarrow> Suc (k mod 8) = 8"
    by (metis Suc_leI dvd_imp_le dvd_refl le_antisym zero_less_Suc)
  then show ?thesis
    by (simp only: probe_path_def next_slot_in_line probe_in_line_start_iff)
qed

lemma probe_path_line: "8 dvd k \<Longrightarrow> probe_path h msk k = probe_base h (llmsset_step h) msk (k div 8)"
  by (simp add: probe_path_def probe_in_line_start dvd_imp_mod_0)

text \<open>
  If nothing stops the loop before step \<open>k0\<close> and the visit at \<open>k0\<close> returns, the loop
  returns that, unless the threshold of lines is met first.
\<close>

lemma lookup_loop_returns:
  assumes "k \<le> k0" and "\<And>j. k \<le> j \<Longrightarrow> j < k0 \<Longrightarrow> \<not> probe_stops dbs a b h j"
    and "\<not> (0 < sint (threshold dbs) \<and> 8 * sint (threshold dbs) \<le> int k0) \<Longrightarrow>
      probe_slot dbs a b False (h AND MASK_HASH) (probe_path h (size_mask dbs) k0) 0 = Inr (Ret r c d)"
    and "k0 - k < fuel" and "0 < sint (threshold dbs) \<longrightarrow> int (k div 8) < sint (threshold dbs)"
  shows "lookup_loop fuel dbs a b False (h AND MASK_HASH) (llmsset_step h)
           (h + of_nat (k div 8) * llmsset_step h) (probe_path h (size_mask dbs) k)
           (probe_base h (llmsset_step h) (size_mask dbs) (k div 8)) (int (k div 8)) 0 =
         (if 0 < sint (threshold dbs) \<and> 8 * sint (threshold dbs) \<le> int k0 then Inr (0, False, dbs)
          else Inr (r, c, d))"
  using assms
proof (induction fuel arbitrary: k)
  case (Suc fuel)
  let ?T = "sint (threshold dbs)"
  show ?case
  proof (cases "k = k0")
    case True
    then have "\<not> (0 < ?T \<and> 8 * ?T \<le> int k0)"
      using Suc.prems(5) by (auto simp: zdiv_int)
    from Suc.prems(3) [OF this] this show ?thesis using True by auto
  next
    case False
    with Suc.prems(1) have k: "k < k0" by simp
    then have ps: "probe_slot dbs a b False (h AND MASK_HASH) (probe_path h (size_mask dbs) k) 0 = Inr (Next 0 a b dbs)"
      using Suc.prems(2) by (intro probe_slot_goes_on) simp
    show ?thesis
    proof (cases "Suc (k mod 8) = 8")
      case eol: True
      then have s: "Suc k div 8 = Suc (k div 8)" "8 dvd Suc k"
        by (auto simp: div_Suc mod_Suc dvd_eq_mod_eq_0)
      have nl: "next_slot (probe_path h (size_mask dbs) k) = probe_base h (llmsset_step h) (size_mask dbs) (k div 8)"
        using eol by (simp add: next_slot_path)
      show ?thesis
      proof (cases "int (k div 8) + 1 = ?T")
        case True
        have "Suc k = 8 * (k div 8) + Suc (k mod 8)" by simp
        then have "Suc k = 8 * Suc (k div 8)" unfolding eol by simp
        then have "int k + 1 = 8 * (int (k div 8) + 1)"
          by (metis int_ops(2) of_nat_Suc of_nat_mult of_nat_numeral add.commute)
        then have "int k + 1 = 8 * ?T" unfolding True .
        then have "0 < ?T \<and> 8 * ?T \<le> int k0"
          using k by linarith
        then show ?thesis using ps nl True by (simp add: Let_def)
      next
        case nT: False
        have pp: "(h + of_nat (k div 8) * llmsset_step h + llmsset_step h) AND size_mask dbs = probe_path h (size_mask dbs) (Suc k)"
          "probe_path h (size_mask dbs) (Suc k) = probe_base h (llmsset_step h) (size_mask dbs) (Suc k div 8)"
          using s(2) by (simp_all add: probe_path_line s(1) probe_base_def algebra_simps)
        have IH: "lookup_loop fuel dbs a b False (h AND MASK_HASH) (llmsset_step h)
           (h + of_nat (Suc k div 8) * llmsset_step h) (probe_path h (size_mask dbs) (Suc k))
           (probe_base h (llmsset_step h) (size_mask dbs) (Suc k div 8)) (int (Suc k div 8)) 0 =
         (if 0 < ?T \<and> 8 * ?T \<le> int k0 then Inr (0, False, dbs) else Inr (r, c, d))"
        proof (rule Suc.IH)
          show "Suc k \<le> k0" "k0 - Suc k < fuel" using k Suc.prems(4) by auto
          show "\<not> probe_stops dbs a b h j" if "Suc k \<le> j" "j < k0" for j
            using Suc.prems(2) that by simp
          show "0 < ?T \<longrightarrow> int (Suc k div 8) < ?T" using Suc.prems(5) nT s(1) by auto
        qed (rule Suc.prems(3), assumption)
        have hr: "h + of_nat (Suc k div 8) * llmsset_step h = h + of_nat (k div 8) * llmsset_step h + llmsset_step h"
          by (simp add: s(1) algebra_simps)
        have ii: "int (Suc k div 8) = int (k div 8) + 1" by (simp add: s(1))
        show ?thesis using IH
          unfolding hr ii lookup_loop.simps(2) [of fuel] ps bindE_simps probe.case Let_def nl
          by (simp only: if_True simp_thms nT if_False pp(1) flip: pp(2))
      qed
    next
      case mid: False
      then have s: "Suc k div 8 = k div 8" by (auto simp: div_Suc mod_Suc)
      have nl: "next_slot (probe_path h (size_mask dbs) k) \<noteq> probe_base h (llmsset_step h) (size_mask dbs) (k div 8)"
        "next_slot (probe_path h (size_mask dbs) k) = probe_path h (size_mask dbs) (Suc k)"
        using mid next_slot_path_last [of h "size_mask dbs" k] next_slot_path [of h "size_mask dbs" k] by auto
      have IH: "lookup_loop fuel dbs a b False (h AND MASK_HASH) (llmsset_step h)
           (h + of_nat (Suc k div 8) * llmsset_step h) (probe_path h (size_mask dbs) (Suc k))
           (probe_base h (llmsset_step h) (size_mask dbs) (Suc k div 8)) (int (Suc k div 8)) 0 =
         (if 0 < ?T \<and> 8 * ?T \<le> int k0 then Inr (0, False, dbs) else Inr (r, c, d))"
      proof (rule Suc.IH)
        show "Suc k \<le> k0" "k0 - Suc k < fuel" using k Suc.prems(4) by auto
        show "\<not> probe_stops dbs a b h j" if "Suc k \<le> j" "j < k0" for j
          using Suc.prems(2) that by simp
        show "0 < ?T \<longrightarrow> int (Suc k div 8) < ?T" using Suc.prems(5) s by simp
      qed (rule Suc.prems(3), assumption)
      show ?thesis using IH
        unfolding s lookup_loop.simps(2) [of fuel] ps bindE_simps probe.case Let_def
        using nl by (simp only: if_False)
    qed
  qed
qed simp

text \<open>If nothing ever stops the loop and the threshold is not positive, it does not return.\<close>

lemma lookup_loop_stuck:
  assumes "\<And>j. \<not> probe_stops dbs a b h j" and "sint (threshold dbs) \<le> 0"
  shows "lookup_loop fuel dbs a b False (h AND MASK_HASH) (llmsset_step h)
           (h + of_nat (k div 8) * llmsset_step h) (probe_path h (size_mask dbs) k)
           (probe_base h (llmsset_step h) (size_mask dbs) (k div 8)) (int (k div 8)) 0 = Inl OutOfFuel"
proof (induction fuel arbitrary: k)
  case (Suc fuel)
  have ps: "probe_slot dbs a b False (h AND MASK_HASH) (probe_path h (size_mask dbs) k) 0 = Inr (Next 0 a b dbs)"
    by (rule probe_slot_goes_on) (rule assms(1))
  show ?case
  proof (cases "Suc (k mod 8) = 8")
    case True
    then have s: "Suc k div 8 = Suc (k div 8)" "8 dvd Suc k"
      by (auto simp: div_Suc mod_Suc dvd_eq_mod_eq_0)
    have nl: "next_slot (probe_path h (size_mask dbs) k) = probe_base h (llmsset_step h) (size_mask dbs) (k div 8)"
      using True by (simp add: next_slot_path)
    have pp: "(h + of_nat (k div 8) * llmsset_step h + llmsset_step h) AND size_mask dbs = probe_path h (size_mask dbs) (Suc k)"
      "probe_path h (size_mask dbs) (Suc k) = probe_base h (llmsset_step h) (size_mask dbs) (Suc k div 8)"
      using s(2) by (simp_all add: probe_path_line s(1) probe_base_def algebra_simps)
    have hr: "h + of_nat (Suc k div 8) * llmsset_step h = h + of_nat (k div 8) * llmsset_step h + llmsset_step h"
      by (simp add: s(1) algebra_simps)
    have ii: "int (Suc k div 8) = int (k div 8) + 1" by (simp add: s(1))
    have "(x + 1 = sint (threshold dbs)) = False" if "0 \<le> x" for x :: int using assms(2) that by auto
    then have nT: "(int (k div 8) + 1 = sint (threshold dbs)) = False" by simp
    show ?thesis using Suc.IH [of "Suc k"]
      unfolding hr ii lookup_loop.simps(2) [of fuel] ps bindE_simps probe.case Let_def nl
      by (simp only: if_True simp_thms nT if_False pp(1) flip: pp(2))
  next
    case False
    then have s: "Suc k div 8 = k div 8" by (auto simp: div_Suc mod_Suc)
    have nl: "next_slot (probe_path h (size_mask dbs) k) \<noteq> probe_base h (llmsset_step h) (size_mask dbs) (k div 8)"
      "next_slot (probe_path h (size_mask dbs) k) = probe_path h (size_mask dbs) (Suc k)"
      using False next_slot_path_last [of h "size_mask dbs" k] next_slot_path [of h "size_mask dbs" k] by auto
    show ?thesis using Suc.IH [of "Suc k"]
      unfolding s lookup_loop.simps(2) [of fuel] ps bindE_simps probe.case Let_def
      using nl by (simp only: if_False)
  qed
qed simp

section \<open>Claiming a data bucket\<close>

definition region_ok :: "llmsset \<Rightarrow> bool" where
  "region_ok dbs \<longleftrightarrow> 512 dvd table_size dbs \<and> 0 < table_size dbs \<and> table_size dbs \<le> 2 ^ 40 \<and>
     (my_region dbs = -1 \<or> unat (my_region dbs) < table_size dbs div 512) \<and> 0 < lace_n_workers_id dbs"

definition same_but_region :: "llmsset \<Rightarrow> llmsset \<Rightarrow> bool" where
  "same_but_region dbs dbs' \<longleftrightarrow>
     (\<exists>r b1. dbs' = dbs\<lparr>my_region := r, bitmap1 := b1\<rparr>)"

lemma same_but_region_refl [simp]: "same_but_region dbs dbs"
  unfolding same_but_region_def by (rule exI [of _ "my_region dbs"], rule exI [of _ "bitmap1 dbs"]) simp

lemma same_but_region_upd [simp]: "same_but_region dbs (dbs\<lparr>my_region := r\<rparr>)"
  unfolding same_but_region_def by (rule exI [of _ r], rule exI [of _ "bitmap1 dbs"]) simp

lemma same_but_region_trans: "same_but_region s t \<Longrightarrow> same_but_region t u \<Longrightarrow> same_but_region s u"
  unfolding same_but_region_def by (elim exE, intro exI) simp

lemma same_but_region_sel [frame]:
  assumes "same_but_region s t"
  shows "table t = table s" "data t = data s" "bitmap2 t = bitmap2 s" "bitmapc t = bitmapc s"
    "max_size t = max_size s" "table_size t = table_size s" "size_mask t = size_mask s"
    "threshold t = threshold s" "tabhash_table t = tabhash_table s" "hash_cb t = hash_cb s"
    "equals_cb t = equals_cb s" "create_cb t = create_cb s" "destroy_cb t = destroy_cb s"
    "destroyed t = destroyed s" "my_worker_id t = my_worker_id s"
    "lace_n_workers_id t = lace_n_workers_id s"
  using assms by (auto simp: same_but_region_def)

lemma next_region_Some:
  "next_region count dbs = Some dbs' \<Longrightarrow> 0 < table_size dbs div 512 \<Longrightarrow>
     same_but_region dbs dbs' \<and> unat (my_region dbs') < table_size dbs div 512 \<and>
     \<not> bm_test (bitmap1 dbs) (unat (my_region dbs')) \<and>
     bitmap1 dbs' = bm_set (bitmap1 dbs) (unat (my_region dbs'))"
proof (induction count arbitrary: dbs)
  case (Suc count)
  define r where "r = (if unat (my_region dbs + 1) \<ge> table_size dbs div 512 then 0 else my_region dbs + 1)"
  have r: "unat r < table_size dbs div 512"
    using Suc.prems(2) by (simp add: r_def)
  show ?case
  proof (cases "bm_test (bitmap1 dbs) (unat r)")
    case True
    with Suc.prems(1) have "next_region count (dbs\<lparr>my_region := r\<rparr>) = Some dbs'"
      by (simp add: r_def [symmetric] Let_def)
    from Suc.IH [OF this] Suc.prems(2) show ?thesis
      by (auto simp: same_but_region_def)
  next
    case False
    with Suc.prems(1) have "dbs' = dbs\<lparr>my_region := r, bitmap1 := bm_set (bitmap1 dbs) (unat r)\<rparr>"
      by (simp add: r_def [symmetric] Let_def)
    with r False show ?thesis by (auto simp: same_but_region_def)
  qed
qed simp

lemma scan_region_Some:
  "scan_region dbs n i = Some (i', j) \<Longrightarrow>
     i \<le> i' \<and> i' < i + n \<and> j < 64 \<and> \<not> bit (bitmap2 dbs (unat (my_region dbs) * 8 + i')) (63 - j)"
proof (induction n arbitrary: i)
  case (Suc n)
  let ?v = "bitmap2 dbs (unat (my_region dbs) * 8 + i)"
  show ?case
  proof (cases "?v \<noteq> 0xffffffffffffffff")
    case True
    with Suc.prems have e: "i' = i" "j = clzll (NOT ?v)" by (auto simp: Let_def)
    have nz: "NOT ?v \<noteq> 0"
    proof
      assume "NOT ?v = 0"
      then have "?v = NOT 0" by (metis bit.double_compl)
      with True show False by simp
    qed
    from clzll_less [OF nz] clzll_bit [OF nz] e show ?thesis
      by (auto simp: bit_not_iff)
  next
    case False
    with Suc.prems have "scan_region dbs n (Suc i) = Some (i', j)" by (simp add: Let_def)
    from Suc.IH [OF this] show ?thesis by auto
  qed
qed simp

lemma scan_region_None:
  "scan_region dbs n i = None \<Longrightarrow> i \<le> i' \<Longrightarrow> i' < i + n \<Longrightarrow>
     bitmap2 dbs (unat (my_region dbs) * 8 + i') = 0xffffffffffffffff"
proof (induction n arbitrary: i)
  case (Suc n)
  then have 1: "bitmap2 dbs (unat (my_region dbs) * 8 + i) = 0xffffffffffffffff"
    and 2: "scan_region dbs n (Suc i) = None"
    by (auto simp: Let_def split: if_splits)
  show ?case
  proof (cases "i' = i")
    case False
    with Suc.prems Suc.IH [OF 2] show ?thesis by simp
  qed (use 1 in simp)
qed simp

text \<open>What a claim does to the state: it either fails and touches the regions only, or sets
  the bit of a bucket of the table that was clear.\<close>

definition claims :: "llmsset \<Rightarrow> u64 \<Rightarrow> llmsset \<Rightarrow> bool" where
  "claims dbs c dbs' \<longleftrightarrow> region_ok dbs' \<and>
     (c = -1 \<and> same_but_region dbs dbs' \<or>
      (\<exists>n s. n < table_size dbs \<and> c = of_nat n \<and> \<not> bm_test (bitmap2 dbs) n \<and> same_but_region dbs s \<and>
           dbs' = s\<lparr>bitmap2 := bm_set (bitmap2 dbs) n\<rparr>))"

definition unclaimed :: "llmsset \<Rightarrow> nat set" where
  "unclaimed dbs = {r. r < table_size dbs div 512 \<and> \<not> bm_test (bitmap1 dbs) r}"

lemma finite_unclaimed [simp]: "finite (unclaimed dbs)"
  by (rule finite_subset [of _ "{..<table_size dbs div 512}"]) (auto simp: unclaimed_def)

lemma claims_from_region:
  assumes ok: "region_ok dbs" and r: "my_region dbs \<noteq> -1" and sc: "scan_region dbs 8 0 = Some (i, j)"
  defines "k \<equiv> unat (my_region dbs) * 8 + i"
  shows "claims dbs (of_nat ((8 * unat (my_region dbs) + i) * 64 + j))
           (dbs\<lparr>bitmap2 := (bitmap2 dbs)(k := bitmap2 dbs k OR drop_bit j 0x8000000000000000)\<rparr>)"
proof -
  define n where "n = (8 * unat (my_region dbs) + i) * 64 + j"
  from scan_region_Some [OF sc] have ij: "i < 8" "j < 64" "\<not> bit (bitmap2 dbs k) (63 - j)"
    by (auto simp: k_def)
  have "n = k * 64 + j" by (simp add: n_def k_def)
  then have n: "n div 64 = k" "n mod 64 = j"
    using ij(2) by simp_all
  have "n < 512 * Suc (unat (my_region dbs))" using ij by (simp add: n_def)
  also have "\<dots> \<le> 512 * (table_size dbs div 512)"
    using ok r by (intro mult_le_mono2) (auto simp: region_ok_def)
  finally have "n < table_size dbs" by simp
  moreover have "\<not> bm_test (bitmap2 dbs) n" using ij n by (simp add: bm_test_bit)
  moreover have "(bitmap2 dbs)(k := bitmap2 dbs k OR drop_bit j 0x8000000000000000) = bm_set (bitmap2 dbs) n"
    by (simp add: bm_set_def bm_mask_def n)
  ultimately show ?thesis
    using ok unfolding claims_def n_def [symmetric]
    by (auto simp: region_ok_def intro!: exI [of _ n] exI [of _ dbs])
qed

lemma claims_after_region:
  assumes "same_but_region dbs dbs1" and "claims dbs1 c dbs'"
  shows "claims dbs c dbs'"
  using assms unfolding claims_def
  by (auto simp: same_but_region_sel intro: same_but_region_trans)

lemma claim_loop_spec:
  "region_ok dbs \<Longrightarrow> card (unclaimed dbs) + 1 < fuel \<or> (card (unclaimed dbs) < fuel \<and> my_region dbs \<noteq> -1) \<Longrightarrow>
   \<exists>c dbs'. claim_loop fuel dbs = Inr (c, dbs') \<and> claims dbs c dbs'"
proof (induction fuel arbitrary: dbs)
  case (Suc fuel)
  let ?scan = "if my_region dbs \<noteq> -1 then scan_region dbs 8 0 else None"
  define start where "start = (if my_region dbs = -1
               then dbs\<lparr>my_region := my_region dbs +
                      of_nat ((my_worker_id dbs * (table_size dbs div 512)) div lace_n_workers_id dbs)\<rparr>
               else dbs)"
  have st: "same_but_region dbs start" "bitmap1 start = bitmap1 dbs"
    by (auto simp: start_def)
  have regs: "0 < table_size dbs div 512"
    using Suc.prems(1) by (auto simp: region_ok_def div_greater_zero_iff dvd_imp_le)
  have w: "lace_n_workers_id dbs \<noteq> 0" using Suc.prems(1) by (simp add: region_ok_def)
  show ?case
  proof (cases ?scan)
    case (Some p)
    then obtain i j where p: "p = (i, j)" "my_region dbs \<noteq> -1" "scan_region dbs 8 0 = Some (i, j)"
      by (cases p) (auto split: if_splits)
    have "claim_loop (Suc fuel) dbs = Inr (of_nat ((8 * unat (my_region dbs) + i) * 64 + j),
       dbs\<lparr>bitmap2 := (bitmap2 dbs)(unat (my_region dbs) * 8 + i :=
          bitmap2 dbs (unat (my_region dbs) * 8 + i) OR drop_bit j 0x8000000000000000)\<rparr>)"
      using p by (simp only: claim_loop.simps if_True option.case prod.case Let_def not_False_eq_True simp_thms)
    with claims_from_region [OF Suc.prems(1) p(2,3)] show ?thesis by blast
  next
    case None
    show ?thesis
    proof (cases "next_region (table_size dbs div 512) start")
      case nr: None
      then have "claim_loop (Suc fuel) dbs = Inr (-1, dbs)"
        unfolding claim_loop.simps None using w by (simp add: start_def)
      then show ?thesis using Suc.prems(1) by (auto simp: claims_def)
    next
      case (Some s1)
      from next_region_Some [OF this] st regs
      have s1: "same_but_region start s1" "unat (my_region s1) < table_size dbs div 512"
          "\<not> bm_test (bitmap1 dbs) (unat (my_region s1))" "bitmap1 s1 = bm_set (bitmap1 dbs) (unat (my_region s1))"
        by (auto simp: same_but_region_sel)
      have ss: "same_but_region dbs s1" using st(1) s1(1) by (rule same_but_region_trans)
      have ok: "region_ok s1"
        using Suc.prems(1) s1(2) ss by (auto simp: region_ok_def same_but_region_sel)
      have "unclaimed s1 = unclaimed dbs - {unat (my_region s1)}"
        using s1(4) same_but_region_sel(6) [OF ss] by (auto simp: unclaimed_def)
      moreover have "unat (my_region s1) \<in> unclaimed dbs" using s1 by (simp add: unclaimed_def)
      ultimately have "card (unclaimed s1) < card (unclaimed dbs)"
        by (metis card_Diff1_less finite_unclaimed)
      moreover have "my_region s1 \<noteq> -1"
      proof
        assume "my_region s1 = -1"
        with s1(2) have "2 ^ 64 - 1 < table_size dbs div 512"
          by (simp add: unsigned_minus_1_eq_mask mask_eq_exp_minus_1)
        then have "2 ^ 64 - 1 < (2::nat) ^ 40 div 512"
          using Suc.prems(1) unfolding region_ok_def by (meson div_le_mono less_le_trans)
        then show False by simp
      qed
      ultimately obtain c dbs' where c: "claim_loop fuel s1 = Inr (c, dbs')" "claims s1 c dbs'"
        using Suc.IH [OF ok] Suc.prems(2) by fastforce
      have "claim_loop (Suc fuel) dbs = claim_loop fuel s1"
        unfolding claim_loop.simps None using w Some by (simp add: start_def)
      with c claims_after_region [OF ss] show ?thesis by auto
    qed
  qed
qed simp

lemma claim_data_bucket_spec:
  assumes "region_ok dbs"
  shows "\<exists>c dbs'. claim_data_bucket dbs = Inr (c, dbs') \<and> claims dbs c dbs'"
  unfolding claim_data_bucket_def
proof (rule claim_loop_spec [OF assms])
  have "card (unclaimed dbs) \<le> card {..<table_size dbs div 512}"
    by (rule card_mono) (auto simp: unclaimed_def)
  then show "card (unclaimed dbs) + 1 < Suc (Suc (table_size dbs div 512)) \<or>
      (card (unclaimed dbs) < Suc (Suc (table_size dbs div 512)) \<and> my_region dbs \<noteq> -1)"
    by simp
qed

end
