(* ===== verification/NodeTableInv.thy ===== *)
theory NodeTableInv
  imports NodeTableLoops
begin

text \<open>
  The invariant of the unique table and what a lookup does under it. A data bucket is live
  when its bit of the second bitmap is set; \<open>table_ok\<close> says that the live buckets hold
  distinct pairs, that each is found by the probe sequence of its pair within the threshold,
  and that the hash array holds nothing else.
\<close>

section \<open>The invariant of the table\<close>

definition live :: "llmsset \<Rightarrow> nat \<Rightarrow> bool" where
  "live dbs d \<longleftrightarrow> 2 \<le> d \<and> bm_test (bitmap2 dbs) d"

definition hash_of :: "llmsset \<Rightarrow> u64 \<times> u64 \<Rightarrow> u64" where
  "hash_of dbs p = sylvan_tabhash16 (tabhash_table dbs) (fst p) (snd p) hash_seed"

definition entry :: "llmsset \<Rightarrow> nat \<Rightarrow> u64" where
  "entry dbs d = (hash_of dbs (dptr dbs d) AND MASK_HASH) OR of_nat d"

definition slot :: "llmsset \<Rightarrow> u64 \<times> u64 \<Rightarrow> nat \<Rightarrow> nat" where
  "slot dbs p k = unat (probe_path (hash_of dbs p) (size_mask dbs) k)"

definition shape_ok :: "llmsset \<Rightarrow> bool" where
  "shape_ok dbs \<longleftrightarrow> (\<exists>m. 9 \<le> m \<and> m \<le> 40 \<and> table_size dbs = 2 ^ m) \<and>
     size_mask dbs = of_nat (table_size dbs) - 1 \<and>
     bm_test (bitmap2 dbs) 0 \<and> bm_test (bitmap2 dbs) 1 \<and>
     (\<forall>n. bm_test (bitmap2 dbs) n \<longrightarrow> n < table_size dbs) \<and>
     (\<forall>n. \<not> bm_test (bitmapc dbs) n) \<and> region_ok dbs"

text \<open>
  Data bucket \<open>d\<close> sits at step \<open>k\<close> of its probe sequence: its entry is in that slot, no
  earlier slot is empty, and the step lies within the threshold of lines.
\<close>

definition sits_at :: "llmsset \<Rightarrow> nat \<Rightarrow> nat \<Rightarrow> bool" where
  "sits_at dbs d k \<longleftrightarrow> k < table_size dbs \<and> table dbs (slot dbs (dptr dbs d) k) = entry dbs d \<and>
     (\<forall>j < k. table dbs (slot dbs (dptr dbs d) j) \<noteq> 0) \<and>
     (0 < sint (threshold dbs) \<longrightarrow> int k < 8 * sint (threshold dbs))"

text \<open>
  The buckets of \<open>D\<close> are in the hash array, which holds nothing else. The two forbidden
  buckets 0 and 1 need not be found, but a rehash enters them as well, since their bits are
  always set.
\<close>

definition placed :: "llmsset \<Rightarrow> nat set \<Rightarrow> bool" where
  "placed dbs D \<longleftrightarrow> (\<exists>pos. (\<forall>d \<in> D. 2 \<le> d \<longrightarrow> sits_at dbs d (pos d)) \<and>
     (\<forall>p. table dbs p \<noteq> 0 \<longrightarrow>
        (\<exists>d \<in> D. p = slot dbs (dptr dbs d) (pos d) \<and> table dbs p = entry dbs d)))"

definition threshold_ok :: "llmsset \<Rightarrow> bool" where
  "threshold_ok dbs \<longleftrightarrow> table_size dbs \<le> max_size dbs \<and>
     (max_size dbs \<le> 2 ^ 17 \<longrightarrow> 0 < sint (threshold dbs) \<and> sint (threshold dbs) \<le> 2 ^ 14)"

definition table_ok :: "llmsset \<Rightarrow> bool" where
  "table_ok dbs \<longleftrightarrow> shape_ok dbs \<and> threshold_ok dbs \<and>
     dptr dbs 0 = (0, 0) \<and> dptr dbs 1 = (0, 0) \<and>
     (\<exists>D. placed dbs D \<and> {d. live dbs d} \<subseteq> D \<and> D \<subseteq> {d. live dbs d} \<union> {0, 1}) \<and>
     (\<forall>d d'. live dbs d \<longrightarrow> live dbs d' \<longrightarrow> dptr dbs d = dptr dbs d' \<longrightarrow> d = d')"

text \<open>Every slot of the hash array is taken.\<close>

definition full :: "llmsset \<Rightarrow> bool" where
  "full dbs \<longleftrightarrow> (\<forall>p < table_size dbs. table dbs p \<noteq> 0)"

section \<open>Shape\<close>

lemma shape_sizeE:
  assumes "shape_ok dbs"
  obtains m where "9 \<le> m" "m \<le> 40" "table_size dbs = 2 ^ m" "size_mask dbs = of_nat (2 ^ m) - 1"
  using assms unfolding shape_ok_def by auto

lemma shape_table_size: "shape_ok dbs \<Longrightarrow> 512 \<le> table_size dbs \<and> table_size dbs \<le> 2 ^ 40"
proof (elim shape_sizeE)
  fix m assume "9 \<le> m" "m \<le> 40" "table_size dbs = 2 ^ m"
  then show ?thesis
    using power_increasing [of 9 m "2::nat"] power_increasing [of m 40 "2::nat"] by simp
qed

lemma live_less: "shape_ok dbs \<Longrightarrow> live dbs d \<Longrightarrow> 2 \<le> d \<and> d < table_size dbs \<and> d < 2 ^ 40"
  using shape_table_size [of dbs] by (auto simp: shape_ok_def live_def dest!: spec [of _ d])

lemma finite_live: "shape_ok dbs \<Longrightarrow> finite {d. live dbs d}"
  by (rule finite_subset [of _ "{..<table_size dbs}"]) (auto dest: live_less)

lemma slot_less: "shape_ok dbs \<Longrightarrow> slot dbs p k < table_size dbs"
  by (elim shape_sizeE) (simp add: slot_def probe_path_less del: of_nat_power)

lemma slot_inj:
  assumes "shape_ok dbs" "slot dbs p k = slot dbs p k'" "k < table_size dbs" "k' < table_size dbs"
  shows "k = k'"
  using assms
  by (elim shape_sizeE) (auto simp: slot_def simp del: of_nat_power
      dest: probe_path_inj [THEN inj_onD, rotated 2])

lemma slot_surj:
  assumes "shape_ok dbs" "p < table_size dbs"
  shows "\<exists>k < table_size dbs. slot dbs q k = p"
  using assms probe_path_surj by (elim shape_sizeE) (simp add: slot_def del: of_nat_power)

section \<open>Entries\<close>

lemma MASK_INDEX_take: "x AND MASK_INDEX = take_bit 40 x"
  by (simp add: MASK_INDEX_def word_and_ff40)

lemma bit_MASK_HASH: "bit MASK_HASH n \<longleftrightarrow> 40 \<le> n \<and> n < 64"
proof -
  have "MASK_HASH = NOT (mask 40)"
    by (simp add: MASK_HASH_def mask_eq_exp_minus_1)
  then have "bit MASK_HASH n \<longleftrightarrow> bit (NOT (mask 40) :: u64) n" by (rule arg_cong)
  then show ?thesis
    by (auto simp: bit_not_iff bit_mask_iff possible_bit_def)
qed

lemma bit_small: "d < 2 ^ 40 \<Longrightarrow> bit (of_nat d :: u64) n \<Longrightarrow> n < 40"
  by (metis bit_take_bit_iff take_bit_nat_eq_self take_bit_of_nat)

lemma entry_index: "d < 2 ^ 40 \<Longrightarrow> entry dbs d AND MASK_INDEX = of_nat d"
  using bit_small [of d] unfolding MASK_INDEX_take entry_def
  by (intro bit_word_eqI)
    (fastforce simp: bit_take_bit_iff bit_or_iff bit_and_iff bit_MASK_HASH simp del: take_bit_or take_bit_and)

lemma entry_hash: "d < 2 ^ 40 \<Longrightarrow> entry dbs d AND MASK_HASH = hash_of dbs (dptr dbs d) AND MASK_HASH"
  using bit_small [of d]
  by (intro bit_word_eqI) (fastforce simp: entry_def bit_or_iff bit_and_iff bit_MASK_HASH)

lemma unat_index: "d < 2 ^ 40 \<Longrightarrow> unat (of_nat d :: u64) = d"
  by (simp add: unat_of_nat_64)

lemma entry_nonzero: "2 \<le> d \<Longrightarrow> d < 2 ^ 40 \<Longrightarrow> entry dbs d \<noteq> 0"
proof
  assume d: "2 \<le> d" "d < 2 ^ 40" and "entry dbs d = 0"
  with entry_index [OF d(2), of dbs] have "(of_nat d :: u64) = 0" by simp
  then have "unat (of_nat d :: u64) = 0" by simp
  with d show False by (simp add: unat_index)
qed

lemma entry_inj: "d < 2 ^ 40 \<Longrightarrow> d' < 2 ^ 40 \<Longrightarrow> entry dbs d = entry dbs d' \<Longrightarrow> d = d'"
  by (metis entry_index unat_index)

section \<open>Empty slots\<close>

text \<open>A table that holds fewer buckets than it has slots is not full.\<close>

lemma placed_not_full:
  assumes pl: "placed dbs D" and D: "D \<subset> {..<table_size dbs}"
  shows "\<not> full dbs"
proof
  assume full: "full dbs"
  obtain pos where pos: "\<And>p. table dbs p \<noteq> 0 \<Longrightarrow> \<exists>d \<in> D. p = slot dbs (dptr dbs d) (pos d)"
    using pl unfolding placed_def by metis
  have "{..<table_size dbs} \<subseteq> (\<lambda>d. slot dbs (dptr dbs d) (pos d)) ` D"
  proof
    fix p assume "p \<in> {..<table_size dbs}"
    with full have "table dbs p \<noteq> 0" by (auto simp: full_def)
    with pos show "p \<in> (\<lambda>d. slot dbs (dptr dbs d) (pos d)) ` D" by blast
  qed
  moreover have "finite D" using D finite_subset by blast
  ultimately have "card {..<table_size dbs} \<le> card D"
    by (rule surj_card_le [rotated])
  also have "\<dots> < card {..<table_size dbs}" using D by (intro psubset_card_mono) auto
  finally show False by simp
qed

lemma first_empty_on_path:
  assumes sh: "shape_ok dbs" and "\<not> full dbs"
  obtains k where "k < table_size dbs" "table dbs (slot dbs p k) = 0"
    "\<And>j. j < k \<Longrightarrow> table dbs (slot dbs p j) \<noteq> 0"
proof -
  obtain q where q: "q < table_size dbs" "table dbs q = 0"
    using assms(2) by (auto simp: full_def)
  obtain k1 where "k1 < table_size dbs" "slot dbs p k1 = q"
    using slot_surj [OF sh q(1)] by blast
  with q have ex: "k1 < table_size dbs \<and> table dbs (slot dbs p k1) = 0" by simp
  define k where "k = (LEAST k. k < table_size dbs \<and> table dbs (slot dbs p k) = 0)"
  have k: "k < table_size dbs \<and> table dbs (slot dbs p k) = 0"
    unfolding k_def by (rule LeastI) (rule ex)
  moreover have "table dbs (slot dbs p j) \<noteq> 0" if "j < k" for j
    using not_less_Least [of j "\<lambda>k. k < table_size dbs \<and> table dbs (slot dbs p k) = 0"] that k
    by (auto simp: k_def)
  ultimately show thesis using that by blast
qed

section \<open>Entering a bucket in the hash array\<close>

text \<open>\<open>placed\<close> and its parts depend on these fields only.\<close>

definition same_hash_env :: "llmsset \<Rightarrow> llmsset \<Rightarrow> bool" where
  "same_hash_env s t \<longleftrightarrow> table_size t = table_size s \<and> size_mask t = size_mask s \<and>
     tabhash_table t = tabhash_table s"

lemma hash_of_env: "same_hash_env s t \<Longrightarrow> hash_of t p = hash_of s p"
  and slot_env: "same_hash_env s t \<Longrightarrow> slot t p k = slot s p k"
  by (simp_all add: same_hash_env_def hash_of_def slot_def)

lemma placed_cong:
  assumes pl: "placed s D" and env: "same_hash_env s t" and tb: "table t = table s"
    and th: "0 < sint (threshold t) \<Longrightarrow> 0 < sint (threshold s) \<and> sint (threshold s) \<le> sint (threshold t)"
    and dp: "\<And>d. d \<in> D \<Longrightarrow> dptr t d = dptr s d"
  shows "placed t D"
proof -
  obtain pos where pos: "\<And>d. d \<in> D \<Longrightarrow> 2 \<le> d \<Longrightarrow> sits_at s d (pos d)"
    "\<And>p. table s p \<noteq> 0 \<Longrightarrow> \<exists>d \<in> D. p = slot s (dptr s d) (pos d) \<and> table s p = entry s d"
    using pl unfolding placed_def by metis
  have en: "entry t d = entry s d" if "d \<in> D" for d
    by (simp add: entry_def dp [OF that] hash_of_env [OF env])
  have "sits_at t d (pos d)" if "d \<in> D" "2 \<le> d" for d
    using pos(1) [OF that] dp [OF that(1)] en [OF that(1)] tb th env
    by (auto simp: sits_at_def slot_env [OF env] same_hash_env_def)
  moreover have "\<exists>d \<in> D. p = slot t (dptr t d) (pos d) \<and> table t p = entry t d" if "table t p \<noteq> 0" for p
    using pos(2) [of p] that tb dp en by (auto simp: slot_env [OF env])
  ultimately show ?thesis unfolding placed_def by blast
qed

lemma placed_insert:
  assumes pl: "placed dbs D" and n: "n < 2 ^ 40"
    and k: "k < table_size dbs" and free: "table dbs (slot dbs (dptr dbs n) k) = 0"
    and before: "\<And>j. j < k \<Longrightarrow> table dbs (slot dbs (dptr dbs n) j) \<noteq> 0"
    and th: "0 < sint (threshold dbs) \<Longrightarrow> int k < 8 * sint (threshold dbs)"
    and D: "D \<subseteq> {..<2 ^ 40}" "n \<notin> D"
  shows "placed (dbs\<lparr>table := (table dbs)(slot dbs (dptr dbs n) k := entry dbs n)\<rparr>) (insert n D)"
    (is "placed ?t _")
proof -
  obtain pos where pos: "\<And>d. d \<in> D \<Longrightarrow> 2 \<le> d \<Longrightarrow> sits_at dbs d (pos d)"
    "\<And>p. table dbs p \<noteq> 0 \<Longrightarrow> \<exists>d \<in> D. p = slot dbs (dptr dbs d) (pos d) \<and> table dbs p = entry dbs d"
    using pl unfolding placed_def by metis
  have env: "same_hash_env dbs ?t" by (simp add: same_hash_env_def)
  have dp: "dptr ?t d = dptr dbs d" for d
    by (simp add: dptr_def)
  have en: "entry ?t d = entry dbs d" for d
    by (metis entry_def dp hash_of_env [OF env])
  let ?pos = "pos(n := k)"
  have keep: "table ?t p = table dbs p" if "table dbs p \<noteq> 0" for p
    using that free by auto
  have "sits_at ?t d (?pos d)" if d: "d \<in> insert n D" "2 \<le> d" for d
  proof (cases "d = n")
    case True
    then show ?thesis
      using k before th keep free by (auto simp: sits_at_def slot_env [OF env] dp en)
  next
    case False
    with d have dD: "d \<in> D" by simp
    with D d have "entry dbs d \<noteq> 0" by (intro entry_nonzero) auto
    with pos(1) [OF dD d(2)] free have "slot dbs (dptr dbs d) (pos d) \<noteq> slot dbs (dptr dbs n) k"
      by (auto simp: sits_at_def)
    with pos(1) [OF dD d(2)] keep free False show ?thesis
      by (auto simp: sits_at_def slot_env [OF env] dp en)
  qed
  moreover have "\<exists>d \<in> insert n D. p = slot ?t (dptr ?t d) (?pos d) \<and> table ?t p = entry ?t d"
    if p: "table ?t p \<noteq> 0" for p
  proof (cases "p = slot dbs (dptr dbs n) k")
    case True
    then show ?thesis by (intro bexI [of _ n]) (simp_all add: slot_env [OF env] dp en)
  next
    case False
    with p have "table dbs p \<noteq> 0" by simp
    then obtain d where d: "d \<in> D" "p = slot dbs (dptr dbs d) (pos d)" "table dbs p = entry dbs d"
      using pos(2) by blast
    with D False show ?thesis by (intro bexI [of _ d]) (auto simp: slot_env [OF env] dp en)
  qed
  ultimately show ?thesis unfolding placed_def by blast
qed

lemma dptr_write_data [simp]:
  "dptr (write_data dbs n a b) d = (if d = n then (a, b) else dptr dbs d)"
  by (auto simp: dptr_def write_data_def)

lemma dptr_upd [simp]:
  "dptr (dbs\<lparr>table := x\<rparr>) d = dptr dbs d" "dptr (dbs\<lparr>bitmap2 := y\<rparr>) d = dptr dbs d"
  "dptr (dbs\<lparr>bitmap1 := y\<rparr>) d = dptr dbs d" "dptr (dbs\<lparr>my_region := r\<rparr>) d = dptr dbs d"
  "dptr (dbs\<lparr>threshold := w\<rparr>) d = dptr dbs d"
  by (simp_all add: dptr_def)

lemma write_data_sel [simp]:
  "table (write_data dbs n a b) = table dbs" "bitmap1 (write_data dbs n a b) = bitmap1 dbs"
  "bitmap2 (write_data dbs n a b) = bitmap2 dbs" "bitmapc (write_data dbs n a b) = bitmapc dbs"
  "table_size (write_data dbs n a b) = table_size dbs" "size_mask (write_data dbs n a b) = size_mask dbs"
  "threshold (write_data dbs n a b) = threshold dbs" "my_region (write_data dbs n a b) = my_region dbs"
  "lace_n_workers_id (write_data dbs n a b) = lace_n_workers_id dbs"
  "tabhash_table (write_data dbs n a b) = tabhash_table dbs"
  by (simp_all add: write_data_def)

section \<open>Lookup\<close>

text \<open>The outcome of a lookup that returns.\<close>

definition lookup_outcome :: "llmsset \<Rightarrow> u64 \<Rightarrow> u64 \<Rightarrow> u64 \<Rightarrow> bool \<Rightarrow> llmsset \<Rightarrow> bool" where
  "lookup_outcome dbs a b r created dbs' \<longleftrightarrow>
     (if \<exists>d. live dbs d \<and> dptr dbs d = (a, b) then
        (\<exists>d. live dbs d \<and> dptr dbs d = (a, b) \<and> r = of_nat d) \<and> \<not> created \<and> dbs' = dbs
      else r = 0 \<and> \<not> created \<and> same_but_region dbs dbs' \<or>
        (\<exists>n s k. 2 \<le> n \<and> n < table_size dbs \<and> \<not> live dbs n \<and> r = of_nat n \<and> created \<and>
           same_but_region dbs s \<and>
           dbs' = write_data (s\<lparr>bitmap2 := bm_set (bitmap2 dbs) n,
                    table := (table dbs)(slot dbs (a, b) k := (hash_of dbs (a, b) AND MASK_HASH) OR of_nat n)\<rparr>) n a b))"

definition dom_ok :: "llmsset \<Rightarrow> nat set \<Rightarrow> bool" where
  "dom_ok dbs D \<longleftrightarrow> placed dbs D \<and> {d. live dbs d} \<subseteq> D \<and> D \<subseteq> {d. live dbs d} \<union> {0, 1}"

lemma table_ok_dom: "table_ok dbs \<Longrightarrow> \<exists>D. dom_ok dbs D"
  and table_ok_shape: "table_ok dbs \<Longrightarrow> shape_ok dbs"
  and table_ok_blank: "table_ok dbs \<Longrightarrow> dptr dbs 0 = (0, 0) \<and> dptr dbs 1 = (0, 0)"
  unfolding table_ok_def dom_ok_def by blast+

lemma dom_okD:
  assumes D: "dom_ok dbs D" and ok: "table_ok dbs"
  shows "placed dbs D" "live dbs d \<Longrightarrow> d \<in> D" "d \<in> D \<Longrightarrow> d < 2 ^ 40"
    "d \<in> D \<Longrightarrow> dptr dbs d \<noteq> (0, 0) \<Longrightarrow> live dbs d" "D \<subseteq> {d. live dbs d} \<union> {0, 1}"
proof -
  show "d \<in> D \<Longrightarrow> d < 2 ^ 40"
    using D live_less [OF table_ok_shape [OF ok], of d] by (auto simp: dom_ok_def)
  show "d \<in> D \<Longrightarrow> dptr dbs d \<noteq> (0, 0) \<Longrightarrow> live dbs d"
    using D table_ok_blank [OF ok] by (auto simp: dom_ok_def)
qed (use D in \<open>auto simp: dom_ok_def\<close>)

lemma table_ok_unique:
  "table_ok dbs \<Longrightarrow> live dbs d \<Longrightarrow> live dbs d' \<Longrightarrow> dptr dbs d = dptr dbs d' \<Longrightarrow> d = d'"
  unfolding table_ok_def by blast

lemma placed_sits: "placed dbs D \<Longrightarrow> d \<in> D \<Longrightarrow> 2 \<le> d \<Longrightarrow> \<exists>k. sits_at dbs d k"
  unfolding placed_def by blast

lemma placed_entry:
  assumes "placed dbs D" "table dbs p \<noteq> 0"
  shows "\<exists>d \<in> D. table dbs p = entry dbs d"
  using assms unfolding placed_def by metis

lemma lookup_first_stop:
  assumes sh: "shape_ok dbs" and some: "\<exists>k. probe_stops dbs a b (hash_of dbs (a, b)) k"
  obtains k0 where "k0 < table_size dbs" "probe_stops dbs a b (hash_of dbs (a, b)) k0"
    "\<And>j. j < k0 \<Longrightarrow> \<not> probe_stops dbs a b (hash_of dbs (a, b)) j"
proof -
  let ?P = "\<lambda>k. probe_stops dbs a b (hash_of dbs (a, b)) k"
  obtain k where k: "?P k" using some by blast
  obtain k' where k': "k' < table_size dbs" "slot dbs (a, b) k' = slot dbs (a, b) k"
    using slot_surj [OF sh slot_less [OF sh]] by metis
  then have "?P k'" using k by (simp add: probe_stops_def slot_def)
  then have "?P (LEAST k. ?P k)" "(LEAST k. ?P k) \<le> k'" by (rule LeastI, rule Least_le)
  moreover have "\<not> ?P j" if "j < (LEAST k. ?P k)" for j
    using not_less_Least [OF that] .
  ultimately show thesis using k'(1) that by (meson le_less_trans)
qed

lemma stop_hit:
  assumes ok: "table_ok dbs" and ab: "(a, b) \<noteq> (0, 0)"
    and k: "probe_stops dbs a b (hash_of dbs (a, b)) k" and nz: "table dbs (slot dbs (a, b) k) \<noteq> 0"
  obtains d where "live dbs d" "dptr dbs d = (a, b)"
    "probe_slot dbs a b False (hash_of dbs (a, b) AND MASK_HASH)
       (probe_path (hash_of dbs (a, b)) (size_mask dbs) k) 0 = Inr (Ret (of_nat d) False dbs)"
proof -
  obtain D where D0: "dom_ok dbs D" using table_ok_dom [OF ok] by blast
  note D = dom_okD(1) [OF D0 ok] dom_okD(3,4) [OF D0 ok]
  obtain d where d: "d \<in> D" "table dbs (slot dbs (a, b) k) = entry dbs d"
    using placed_entry [OF D(1) nz] by auto
  note d40 = D(2) [OF d(1)]
  from k nz have m: "hash_of dbs (a, b) AND MASK_HASH = entry dbs d AND MASK_HASH"
      "dptr dbs (unat (entry dbs d AND MASK_INDEX)) = (a, b)"
    using d(2) by (auto simp: probe_stops_def slot_def Let_def)
  then have dp: "dptr dbs d = (a, b)"
    by (simp only: entry_index [OF d40] unat_index [OF d40])
  have "probe_slot dbs a b False (hash_of dbs (a, b) AND MASK_HASH)
       (probe_path (hash_of dbs (a, b)) (size_mask dbs) k) 0 = Inr (Ret (of_nat d) False dbs)"
    using nz d(2) m(1) dp
    by (simp add: probe_slot_def probe_match_def Let_def slot_def entry_index [OF d40] unat_index [OF d40])
  with D(3) [OF d(1)] dp ab show thesis using that by metis
qed

lemma minus_one_not_index: "shape_ok dbs \<Longrightarrow> n < table_size dbs \<Longrightarrow> (-1 :: u64) \<noteq> of_nat n"
proof
  assume sh: "shape_ok dbs" and n: "n < table_size dbs" and e: "(-1 :: u64) = of_nat n"
  have "n < 2 ^ 40" using shape_table_size [OF sh] n by linarith
  then have "unat (-1 :: u64) < 2 ^ 40" unfolding e by (subst unat_index) simp_all
  then show False by (simp add: unsigned_minus_1_eq_mask mask_eq_exp_minus_1)
qed

lemma stop_miss:
  assumes ok: "table_ok dbs" and z: "table dbs (slot dbs (a, b) k) = 0"
  shows "\<exists>r c dbs'. probe_slot dbs a b False (hash_of dbs (a, b) AND MASK_HASH)
       (probe_path (hash_of dbs (a, b)) (size_mask dbs) k) 0 = Inr (Ret r c dbs') \<and>
     (r = 0 \<and> \<not> c \<and> same_but_region dbs dbs' \<and> region_ok dbs' \<or>
        (\<exists>n s. 2 \<le> n \<and> n < table_size dbs \<and> \<not> live dbs n \<and> r = of_nat n \<and> c \<and>
           same_but_region dbs s \<and> region_ok s \<and>
           dbs' = write_data (s\<lparr>bitmap2 := bm_set (bitmap2 dbs) n,
                    table := (table dbs)(slot dbs (a, b) k := (hash_of dbs (a, b) AND MASK_HASH) OR of_nat n)\<rparr>) n a b))"
    (is "\<exists>r c dbs'. ?ps = _ \<and> _")
proof -
  have sh: "shape_ok dbs" using ok by (simp add: table_ok_def)
  then have "region_ok dbs" by (simp add: shape_ok_def)
  then obtain c s where c: "claim_data_bucket dbs = Inr (c, s)" "claims dbs c s"
    using claim_data_bucket_spec by blast
  have z': "table dbs (unat (probe_path (hash_of dbs (a, b)) (size_mask dbs) k)) = 0"
    using z by (simp add: slot_def)
  show ?thesis
  proof (cases "c = -1")
    case True
    then have "?ps = Inr (Ret 0 False s)"
      using z' c(1) by (simp add: probe_slot_def claim_and_write_def Let_def)
    moreover have "same_but_region dbs s \<and> region_ok s"
      using c(2) minus_one_not_index [OF sh] True by (auto simp: claims_def)
    ultimately show ?thesis by blast
  next
    case False
    then obtain n s1 where n: "n < table_size dbs" "c = of_nat n" "\<not> bm_test (bitmap2 dbs) n"
        "same_but_region dbs s1" "s = s1\<lparr>bitmap2 := bm_set (bitmap2 dbs) n\<rparr>"
      using c(2) unfolding claims_def by blast
    have "n \<noteq> 0" "n \<noteq> 1" using n(3) sh unfolding shape_ok_def by metis+
    then have n2: "2 \<le> n" by simp
    have u: "unat c = n" using n(1,2) shape_table_size [OF sh] by (simp add: unat_of_nat_64)
    have "?ps = Inr (Ret c True ((write_data s n a b)\<lparr>table := (table dbs)(slot dbs (a, b) k :=
         (hash_of dbs (a, b) AND MASK_HASH) OR c)\<rparr>))"
      using z' c(1) False n(4,5)
      by (simp add: probe_slot_def claim_and_write_def Let_def u slot_def same_but_region_sel)
    also have "(write_data s n a b)\<lparr>table := (table dbs)(slot dbs (a, b) k :=
         (hash_of dbs (a, b) AND MASK_HASH) OR c)\<rparr> =
         write_data (s1\<lparr>bitmap2 := bm_set (bitmap2 dbs) n,
            table := (table dbs)(slot dbs (a, b) k := (hash_of dbs (a, b) AND MASK_HASH) OR of_nat n)\<rparr>) n a b"
      by (simp add: write_data_def n)
    finally have "?ps = Inr (Ret c True (write_data (s1\<lparr>bitmap2 := bm_set (bitmap2 dbs) n,
            table := (table dbs)(slot dbs (a, b) k := (hash_of dbs (a, b) AND MASK_HASH) OR of_nat n)\<rparr>) n a b))" .
    moreover have "region_ok s1" "\<not> live dbs n"
      using c(2) n by (auto simp: claims_def region_ok_def live_def)
    ultimately show ?thesis using n n2 by blast
  qed
qed


lemma table_ok_same_but_region:
  assumes ok: "table_ok dbs" and s: "same_but_region dbs s" and r: "region_ok s"
  shows "table_ok s"
proof -
  note sel = same_but_region_sel [OF s]
  have env: "same_hash_env dbs s" by (simp add: same_hash_env_def sel)
  have dp: "dptr s d = dptr dbs d" and lv: "live s d = live dbs d" for d
    by (simp_all add: dptr_def live_def sel)
  have "placed s D" if "placed dbs D" for D
    by (rule placed_cong [OF that env]) (simp_all add: sel dp)
  then show ?thesis
    using ok r by (auto simp: table_ok_def shape_ok_def threshold_ok_def sel dp lv)
qed

lemma table_ok_created:
  assumes ok: "table_ok dbs" and s: "same_but_region dbs s" and r: "region_ok s"
    and n: "2 \<le> n" "n < table_size dbs" "\<not> live dbs n"
    and new: "\<And>d. live dbs d \<Longrightarrow> dptr dbs d \<noteq> (a, b)"
    and k: "k < table_size dbs" "table dbs (slot dbs (a, b) k) = 0"
      "\<And>j. j < k \<Longrightarrow> table dbs (slot dbs (a, b) j) \<noteq> 0"
      "0 < sint (threshold dbs) \<Longrightarrow> int k < 8 * sint (threshold dbs)"
  defines "t \<equiv> write_data (s\<lparr>bitmap2 := bm_set (bitmap2 dbs) n,
      table := (table dbs)(slot dbs (a, b) k := (hash_of dbs (a, b) AND MASK_HASH) OR of_nat n)\<rparr>) n a b"
  shows "table_ok t" "live t d \<longleftrightarrow> d = n \<or> live dbs d" "dptr t d = (if d = n then (a, b) else dptr dbs d)"
proof -
  note sel = same_but_region_sel [OF s]
  obtain D where D0: "dom_ok dbs D" using table_ok_dom [OF ok] by blast
  note sh = table_ok_shape [OF ok] and pl = dom_okD(1) [OF D0 ok] and D = dom_okD(2,3,5) [OF D0 ok]
  have nD: "n \<notin> D" using D(3) n by auto
  show lv: "live t d \<longleftrightarrow> d = n \<or> live dbs d" for d
    using n(1) by (auto simp: t_def live_def)
  show dp: "dptr t d = (if d = n then (a, b) else dptr dbs d)" for d
    by (simp add: t_def dptr_def sel write_data_def)
  define w where "w = (write_data s n a b)\<lparr>bitmap2 := bm_set (bitmap2 dbs) n\<rparr>"
  have env: "same_hash_env dbs w" by (simp add: w_def same_hash_env_def sel)
  have ws: "table w = table dbs" "threshold w = threshold dbs" "table_size w = table_size dbs"
    by (simp_all add: w_def sel)
  have dpw: "dptr w d = (if d = n then (a, b) else dptr dbs d)" for d
    by (simp add: w_def) (simp add: dptr_def sel)
  have "placed w D"
    by (rule placed_cong [OF pl env]) (use nD in \<open>auto simp: dpw ws\<close>)
  then have "placed (w\<lparr>table := (table w)(slot w (dptr w n) k := entry w n)\<rparr>) (insert n D)"
  proof (rule placed_insert)
    show "n < 2 ^ 40" using n(2) shape_table_size [OF sh] by linarith
    show "D \<subseteq> {..<2 ^ 40}" using D(2) by auto
  qed (use nD k in \<open>simp_all add: dpw slot_env [OF env] ws\<close>)
  also have "w\<lparr>table := (table w)(slot w (dptr w n) k := entry w n)\<rparr> = t"
    by (simp add: entry_def hash_of_env [OF env] slot_env [OF env] dpw) (simp add: w_def t_def write_data_def sel)
  finally have "placed t (insert n D)" .
  moreover have "{d. live t d} \<subseteq> insert n D" "insert n D \<subseteq> {d. live t d} \<union> {0, 1}"
    using D by (auto simp: lv)
  ultimately have "\<exists>D. placed t D \<and> {d. live t d} \<subseteq> D \<and> D \<subseteq> {d. live t d} \<union> {0, 1}" by blast
  moreover have "shape_ok t"
    using sh r n unfolding shape_ok_def
    by (auto simp: t_def sel region_ok_def)
  moreover have "threshold_ok t" "dptr t 0 = (0, 0)" "dptr t 1 = (0, 0)"
    using ok n(1) by (auto simp: table_ok_def threshold_ok_def dp) (auto simp: t_def sel write_data_def)
  moreover have "\<forall>d d'. live t d \<longrightarrow> live t d' \<longrightarrow> dptr t d = dptr t d' \<longrightarrow> d = d'"
  proof (intro allI impI)
    fix d d' assume "live t d" "live t d'" "dptr t d = dptr t d'"
    then show "d = d'"
      using table_ok_unique [OF ok, of d d'] new [of d] new [of d'] unfolding lv dp by (metis (full_types))
  qed
  ultimately show "table_ok t" unfolding table_ok_def by blast
qed

lemma sits_stops:
  assumes "sits_at dbs d k" "d < 2 ^ 40" "dptr dbs d = (a, b)"
  shows "probe_stops dbs a b (hash_of dbs (a, b)) k"
proof -
  have "table dbs (unat (probe_path (hash_of dbs (a, b)) (size_mask dbs) k)) = entry dbs d"
    using assms(1,3) by (simp add: sits_at_def slot_def)
  then show ?thesis
    using entry_hash [OF assms(2), of dbs] assms(3)
    by (simp add: probe_stops_def Let_def entry_index [OF assms(2)] unat_index [OF assms(2)])
qed

text \<open>
  What a lookup does: under the invariant it returns, unless the table is full and the
  threshold is not positive; it keeps the invariant, a pair that is in the table is found
  where it is, and a pair that is not is entered in a bucket that was free, or the table is
  left as it was. The pair \<open>(0, 0)\<close> is the content of the two forbidden buckets.
\<close>

lemma lookup_run:
  assumes "\<And>j. j < k0 \<Longrightarrow> \<not> probe_stops dbs a b (hash_of dbs (a, b)) j"
    and "k0 < Suc (table_size dbs + 8 * nat (sint (threshold dbs)))"
    and "\<not> (0 < sint (threshold dbs) \<and> 8 * sint (threshold dbs) \<le> int k0) \<Longrightarrow>
      probe_slot dbs a b False (hash_of dbs (a, b) AND MASK_HASH)
        (probe_path (hash_of dbs (a, b)) (size_mask dbs) k0) 0 = Inr (Ret r c d)"
  shows "llmsset_lookup dbs a b =
    (if 0 < sint (threshold dbs) \<and> 8 * sint (threshold dbs) \<le> int k0 then Inr (0, False, dbs) else Inr (r, c, d))"
  using lookup_loop_returns [of 0 k0 dbs a b "hash_of dbs (a, b)" r c d
      "Suc (table_size dbs + 8 * nat (sint (threshold dbs)))"] assms
  by (simp add: llmsset_lookup_def llmsset_lookup2_def llmsset_hash_def Let_def hash_of_def
      probe_path_line probe_base_def)

lemma llmsset_lookup_full:
  assumes "\<And>j. \<not> probe_stops dbs a b (hash_of dbs (a, b)) j"
  shows "llmsset_lookup dbs a b = (if 0 < sint (threshold dbs) then Inr (0, False, dbs) else Inl OutOfFuel)"
proof (cases "0 < sint (threshold dbs)")
  case True
  then show ?thesis
    using lookup_run [of "8 * nat (sint (threshold dbs))" dbs a b] assms by simp
next
  case False
  then show ?thesis
    using lookup_loop_stuck [of dbs a b "hash_of dbs (a, b)"
        "Suc (table_size dbs + 8 * nat (sint (threshold dbs)))" 0] assms
    by (simp add: llmsset_lookup_def llmsset_lookup2_def llmsset_hash_def Let_def hash_of_def
      probe_path_line probe_base_def del: lookup_loop.simps)
qed

lemma table_ok_miss:
  assumes ok: "table_ok dbs" and z: "table dbs (slot dbs (a, b) k0) = 0"
    and first: "\<And>j. j < k0 \<Longrightarrow> \<not> probe_stops dbs a b (hash_of dbs (a, b)) j"
  shows "\<not> (\<exists>d. live dbs d \<and> dptr dbs d = (a, b))"
proof
  assume "\<exists>d. live dbs d \<and> dptr dbs d = (a, b)"
  then obtain d where lv: "live dbs d" and dp: "dptr dbs d = (a, b)" by blast
  obtain D where D0: "dom_ok dbs D" using table_ok_dom [OF ok] by blast
  note sh = table_ok_shape [OF ok] and pl = dom_okD(1) [OF D0 ok] and dD = dom_okD(2) [OF D0 ok]
  have d: "2 \<le> d" "d < 2 ^ 40" using live_less [OF sh lv] by auto
  obtain k1 where k1: "sits_at dbs d k1" using placed_sits [OF pl dD [OF lv] d(1)] by blast
  have "table dbs (slot dbs (a, b) k1) \<noteq> 0"
    using k1 dp entry_nonzero [OF d] by (simp add: sits_at_def)
  moreover have "k1 \<le> k0" using k1 dp z by (auto simp: sits_at_def linorder_not_less [symmetric])
  ultimately have "k1 < k0" using z by (metis le_neq_implies_less)
  with first [of k1] sits_stops [OF k1 d(2) dp] show False by simp
qed

lemma llmsset_lookup_outcome:
  assumes ok: "table_ok dbs" and ab: "(a, b) \<noteq> (0, 0)"
  shows "(\<exists>r c dbs'. llmsset_lookup dbs a b = Inr (r, c, dbs') \<and> table_ok dbs' \<and>
      lookup_outcome dbs a b r c dbs') \<or>
    llmsset_lookup dbs a b = Inl OutOfFuel \<and> full dbs \<and> 2 ^ 17 < max_size dbs \<and>
      \<not> (\<exists>d. live dbs d \<and> dptr dbs d = (a, b))"
proof (cases "\<exists>k. probe_stops dbs a b (hash_of dbs (a, b)) k")
  case False
  obtain D where D0: "dom_ok dbs D" using table_ok_dom [OF ok] by blast
  note sh = table_ok_shape [OF ok] and pl = dom_okD(1) [OF D0 ok] and dD = dom_okD(2) [OF D0 ok]
  have "full dbs"
    unfolding full_def
  proof (intro allI impI)
    fix p assume "p < table_size dbs"
    then obtain k where "slot dbs (a, b) k = p" using slot_surj [OF sh] by blast
    moreover have "\<not> probe_stops dbs a b (hash_of dbs (a, b)) k" using False by blast
    ultimately show "table dbs p \<noteq> 0" by (auto simp: probe_stops_def slot_def)
  qed
  moreover have miss: "\<not> (\<exists>d. live dbs d \<and> dptr dbs d = (a, b))"
    using False sits_stops placed_sits [OF pl dD] live_less [OF sh] by metis
  moreover have "lookup_outcome dbs a b 0 False dbs"
    unfolding lookup_outcome_def if_not_P [OF miss] by simp
  moreover have "2 ^ 17 < max_size dbs" if "\<not> 0 < sint (threshold dbs)"
    using ok that by (auto simp: table_ok_def threshold_ok_def)
  ultimately show ?thesis
    using llmsset_lookup_full [of dbs a b] False ok by (cases "0 < sint (threshold dbs)") auto
next
  case True
  define h where "h = hash_of dbs (a, b)"
  have sh: "shape_ok dbs" using ok by (simp add: table_ok_def)
  obtain k0 where k0: "k0 < table_size dbs" "probe_stops dbs a b h k0"
    "\<And>j. j < k0 \<Longrightarrow> \<not> probe_stops dbs a b h j"
    using lookup_first_stop [OF sh True] unfolding h_def by blast
  let ?T = "sint (threshold dbs)"
  let ?late = "0 < ?T \<and> 8 * ?T \<le> int k0"
  have run: "llmsset_lookup dbs a b = (if ?late then Inr (0, False, dbs) else Inr (r, c, d))"
    if "probe_slot dbs a b False (h AND MASK_HASH) (probe_path h (size_mask dbs) k0) 0 = Inr (Ret r c d)" for r c d
    using lookup_run [of k0 dbs a b r c d] k0 that unfolding h_def by simp
  have before: "table dbs (slot dbs (a, b) j) \<noteq> 0" if "j < k0" for j
    using k0(3) [OF that] by (auto simp: probe_stops_def slot_def h_def Let_def)
  show ?thesis
  proof (cases "table dbs (slot dbs (a, b) k0) = 0")
    case False
    obtain d where d: "live dbs d" "dptr dbs d = (a, b)"
      and ps: "probe_slot dbs a b False (h AND MASK_HASH) (probe_path h (size_mask dbs) k0) 0 = Inr (Ret (of_nat d) False dbs)"
      using stop_hit [OF ok ab k0(2) [unfolded h_def] False] unfolding h_def by blast
    obtain k1 where k1: "sits_at dbs d k1"
      using table_ok_dom [OF ok] placed_sits dom_okD(1,2) [OF _ ok] live_less [OF sh d(1)] d(1) by metis
    have "k0 \<le> k1"
      using sits_stops [OF k1 _ d(2)] k0(3) [of k1] live_less [OF sh d(1)] unfolding h_def
      by (meson linorder_not_le)
    then have "\<not> ?late" using k1 by (auto simp: sits_at_def)
    then have "llmsset_lookup dbs a b = Inr (of_nat d, False, dbs)" unfolding run [OF ps] by (rule if_not_P)
    moreover have "lookup_outcome dbs a b (of_nat d) False dbs" using d by (auto simp: lookup_outcome_def)
    ultimately show ?thesis using ok by blast
  next
    case True
    have miss: "\<not> (\<exists>d. live dbs d \<and> dptr dbs d = (a, b))"
      using table_ok_miss [OF ok True] k0(3) unfolding h_def by blast
    then have new: "dptr dbs d \<noteq> (a, b)" if "live dbs d" for d using that by blast
    have stay: "lookup_outcome dbs a b 0 False dbs"
      unfolding lookup_outcome_def if_not_P [OF miss] by simp
    show ?thesis
    proof (cases ?late)
      case late: True
      then have "llmsset_lookup dbs a b = Inr (0, False, dbs)"
        using stop_miss [OF ok True] run unfolding h_def by auto
      with stay ok show ?thesis by blast
    next
      case soon: False
      obtain r c t where ps: "probe_slot dbs a b False (h AND MASK_HASH) (probe_path h (size_mask dbs) k0) 0 = Inr (Ret r c t)"
        and out: "r = 0 \<and> \<not> c \<and> same_but_region dbs t \<and> region_ok t \<or>
          (\<exists>n s. 2 \<le> n \<and> n < table_size dbs \<and> \<not> live dbs n \<and> r = of_nat n \<and> c \<and>
             same_but_region dbs s \<and> region_ok s \<and>
             t = write_data (s\<lparr>bitmap2 := bm_set (bitmap2 dbs) n,
                    table := (table dbs)(slot dbs (a, b) k0 := (hash_of dbs (a, b) AND MASK_HASH) OR of_nat n)\<rparr>) n a b)"
        using stop_miss [OF ok True] unfolding h_def by blast
      have "table_ok t"
        using out table_ok_same_but_region [OF ok] table_ok_created [OF ok _ _ _ _ _ new k0(1) True before]
          soon by (smt (verit, best))
      moreover have "lookup_outcome dbs a b r c t"
        unfolding lookup_outcome_def if_not_P [OF miss] using out by blast
      ultimately show ?thesis using run [OF ps] soon by auto
    qed
  qed
qed

end
