(* ===== verification/NodeTableGC.thy ===== *)
theory NodeTableGC
  imports NodeTableInv
begin

text \<open>
  The unique table under garbage collection: marking, clearing, resizing, rehashing,
  counting, and the constructor. After the bits are reset and the reachable buckets are
  marked again, a rehash enters every marked bucket, never fails, and establishes the
  invariant of the table for the buckets that were marked.
\<close>

section \<open>Rehashing\<close>

lemma sint_u16_inc:
  fixes w :: u16
  assumes "0 < sint w"
  shows "sint (w + 1) = (if sint w < 2 ^ 15 - 1 then sint w + 1 else - (2 ^ 15))"
proof -
  have r: "sint w < 2 ^ 15" using sint_lt [of w] by simp
  have e: "sint (w + 1) = signed_take_bit 15 (sint w + 1)"
    by (simp add: sint_word_ariths)
  show ?thesis
  proof (cases "sint w < 2 ^ 15 - 1")
    case True
    then show ?thesis
      unfolding e using assms by (simp add: signed_take_bit_int_eq_self)
  next
    case False
    with r have w: "sint w = 32767" by simp
    show ?thesis unfolding e w by simp
  qed
qed

text \<open>The threshold after a rehash of a bucket that needed \<open>k0\<close> steps.\<close>

definition threshold_grows :: "u16 \<Rightarrow> u16 \<Rightarrow> nat \<Rightarrow> bool" where
  "threshold_grows w w' k0 \<longleftrightarrow>
     (0 < sint w' \<longrightarrow> 0 < sint w \<and> sint w \<le> sint w' \<and> int k0 < 8 * sint w') \<and>
     (0 < sint w \<longrightarrow> sint w \<le> 2 ^ 14 \<longrightarrow> k0 < 2 ^ 17 \<longrightarrow> 0 < sint w' \<and> sint w' \<le> 2 ^ 14)"


lemma threshold_grows_refl: "(0 < sint w \<Longrightarrow> int k0 < 8 * sint w) \<Longrightarrow> threshold_grows w w k0"
  by (simp add: threshold_grows_def)

lemma threshold_grows_inc:
  assumes "0 < sint w" "8 * sint w \<le> int k0" "threshold_grows (w + 1) w' k0"
  shows "threshold_grows w w' k0"
  using assms sint_u16_inc [OF assms(1)] unfolding threshold_grows_def
  by (auto split: if_splits)

lemma rehash_loop_finds:
  assumes "k \<le> k0" and "\<And>j. k \<le> j \<Longrightarrow> j < k0 \<Longrightarrow> table dbs (unat (probe_path h (size_mask dbs) j)) \<noteq> 0"
    and "table dbs (unat (probe_path h (size_mask dbs) k0)) = 0"
    and "k0 - k < fuel" and "0 < sint (threshold dbs) \<longrightarrow> int (k div 8) < sint (threshold dbs)"
  shows "\<exists>w. rehash_loop fuel dbs v (llmsset_step h)
           (h + of_nat (k div 8) * llmsset_step h) (probe_path h (size_mask dbs) k)
           (probe_base h (llmsset_step h) (size_mask dbs) (k div 8)) (int (k div 8)) =
         Inr (1, dbs\<lparr>table := (table dbs)(unat (probe_path h (size_mask dbs) k0) := v), threshold := w\<rparr>) \<and>
       threshold_grows (threshold dbs) w k0"
  using assms
proof (induction fuel arbitrary: k dbs)
  case (Suc fuel)
  let ?T = "sint (threshold dbs)"
  show ?case
  proof (cases "k = k0")
    case True
    have "int k0 < 8 * ?T" if "0 < ?T"
      using Suc.prems(5) that True by (auto simp: zdiv_int)
    then have "threshold_grows (threshold dbs) (threshold dbs) k0" by (rule threshold_grows_refl)
    then show ?thesis using True Suc.prems(3) by (intro exI [of _ "threshold dbs"]) (simp add: fun_upd_def)
  next
    case False
    with Suc.prems(1) have k: "k < k0" by simp
    then have nz: "table dbs (unat (probe_path h (size_mask dbs) k)) \<noteq> 0"
      using Suc.prems(2) by simp
    show ?thesis
    proof (cases "Suc (k mod 8) = 8")
      case eol: True
      then have s: "Suc k div 8 = Suc (k div 8)" "8 dvd Suc k"
        by (auto simp: div_Suc mod_Suc dvd_eq_mod_eq_0)
      have nl: "next_slot (probe_path h (size_mask dbs) k) = probe_base h (llmsset_step h) (size_mask dbs) (k div 8)"
        using eol by (simp add: next_slot_path)
      have hr: "h + of_nat (Suc k div 8) * llmsset_step h = h + of_nat (k div 8) * llmsset_step h + llmsset_step h"
        by (simp add: s(1) algebra_simps)
      have ii: "int (Suc k div 8) = int (k div 8) + 1" by (simp add: s(1))
      have pp: "(h + of_nat (k div 8) * llmsset_step h + llmsset_step h) AND msk = probe_path h msk (Suc k)"
        "probe_path h msk (Suc k) = probe_base h (llmsset_step h) msk (Suc k div 8)" for msk
        using s(2) by (simp_all add: probe_path_line s(1) probe_base_def algebra_simps)
      define dbs1 where "dbs1 = (if int (k div 8) + 1 = ?T
                       then dbs\<lparr>threshold := threshold dbs + 1\<rparr> else dbs)"
      have d1: "table dbs1 = table dbs" "size_mask dbs1 = size_mask dbs" by (simp_all add: dbs1_def)
      have k8: "8 * (int (k div 8) + 1) \<le> int k0"
      proof -
        have "8 * Suc (k div 8) \<le> k0" using k s(2) unfolding s(1) [symmetric] by simp
        then show ?thesis by (metis int_ops(2) of_nat_Suc of_nat_mult of_nat_numeral of_nat_mono add.commute)
      qed
      have inT: "0 < sint (threshold dbs1) \<longrightarrow> int (Suc k div 8) < sint (threshold dbs1)"
      proof (cases "int (k div 8) + 1 = ?T")
        case True
        then have "0 < ?T" by (metis of_nat_0_le_iff zless_add1_eq order.order_iff_strict)
        with True show ?thesis using sint_u16_inc [of "threshold dbs"]
          by (auto simp: dbs1_def ii)
      next
        case F: False
        then show ?thesis using Suc.prems(5) by (auto simp: dbs1_def ii)
      qed
      have "\<exists>w. rehash_loop fuel dbs1 v (llmsset_step h)
           (h + of_nat (Suc k div 8) * llmsset_step h) (probe_path h (size_mask dbs1) (Suc k))
           (probe_base h (llmsset_step h) (size_mask dbs1) (Suc k div 8)) (int (Suc k div 8)) =
         Inr (1, dbs1\<lparr>table := (table dbs1)(unat (probe_path h (size_mask dbs1) k0) := v), threshold := w\<rparr>) \<and>
       threshold_grows (threshold dbs1) w k0"
        by (rule Suc.IH) (use k Suc.prems inT in \<open>auto simp: d1\<close>)
      then obtain w where w: "rehash_loop fuel dbs1 v (llmsset_step h)
           (h + of_nat (k div 8) * llmsset_step h + llmsset_step h) (probe_path h (size_mask dbs) (Suc k))
           (probe_path h (size_mask dbs) (Suc k)) (int (k div 8) + 1) =
         Inr (1, dbs\<lparr>table := (table dbs)(unat (probe_path h (size_mask dbs) k0) := v), threshold := w\<rparr>)"
         "threshold_grows (threshold dbs1) w k0"
        unfolding hr ii d1 pp(2) [symmetric] by (auto simp: dbs1_def)
      have "rehash_loop (Suc fuel) dbs v (llmsset_step h)
           (h + of_nat (k div 8) * llmsset_step h) (probe_path h (size_mask dbs) k)
           (probe_base h (llmsset_step h) (size_mask dbs) (k div 8)) (int (k div 8)) =
         rehash_loop fuel dbs1 v (llmsset_step h)
           (h + of_nat (k div 8) * llmsset_step h + llmsset_step h) (probe_path h (size_mask dbs) (Suc k))
           (probe_path h (size_mask dbs) (Suc k)) (int (k div 8) + 1)"
        unfolding rehash_loop.simps(2) [of fuel] Let_def nl
        by (simp only: nz if_False if_True simp_thms dbs1_def [symmetric] d1 pp(1))
      moreover have "threshold_grows (threshold dbs) w k0"
      proof (cases "int (k div 8) + 1 = ?T")
        case True
        then have "0 < ?T" by (metis of_nat_0_le_iff zless_add1_eq order.order_iff_strict)
        then show ?thesis
          using w(2) k8 True threshold_grows_inc [of "threshold dbs" k0 w] by (simp add: dbs1_def)
      next
        case F: False
        then show ?thesis using w(2) by (simp add: dbs1_def)
      qed
      ultimately show ?thesis using w(1) by metis
    next
      case mid: False
      then have s: "Suc k div 8 = k div 8" by (auto simp: div_Suc mod_Suc)
      have nl: "next_slot (probe_path h (size_mask dbs) k) \<noteq> probe_base h (llmsset_step h) (size_mask dbs) (k div 8)"
        "next_slot (probe_path h (size_mask dbs) k) = probe_path h (size_mask dbs) (Suc k)"
        using mid next_slot_path_last [of h "size_mask dbs" k] next_slot_path [of h "size_mask dbs" k] by auto
      have "\<exists>w. rehash_loop fuel dbs v (llmsset_step h)
           (h + of_nat (Suc k div 8) * llmsset_step h) (probe_path h (size_mask dbs) (Suc k))
           (probe_base h (llmsset_step h) (size_mask dbs) (Suc k div 8)) (int (Suc k div 8)) =
         Inr (1, dbs\<lparr>table := (table dbs)(unat (probe_path h (size_mask dbs) k0) := v), threshold := w\<rparr>) \<and>
       threshold_grows (threshold dbs) w k0"
        by (rule Suc.IH) (use k Suc.prems s in auto)
      then show ?thesis
        unfolding s rehash_loop.simps(2) [of fuel] Let_def
        using nl nz by (simp only: if_False simp_thms)
    qed
  qed
qed simp


text \<open>What a rehash needs of the state and keeps: everything but the hash array and the threshold.\<close>

definition rehash_ready :: "llmsset \<Rightarrow> nat set \<Rightarrow> bool" where
  "rehash_ready dbs D \<longleftrightarrow> shape_ok dbs \<and> threshold_ok dbs \<and> placed dbs D"

definition same_but_hashes :: "llmsset \<Rightarrow> llmsset \<Rightarrow> bool" where
  "same_but_hashes s t \<longleftrightarrow> (\<exists>tb w. t = s\<lparr>table := tb, threshold := w\<rparr>)"

lemma same_but_hashes_refl [simp]: "same_but_hashes s s"
  unfolding same_but_hashes_def by (rule exI [of _ "table s"], rule exI [of _ "threshold s"]) simp

lemma same_but_hashes_trans: "same_but_hashes s t \<Longrightarrow> same_but_hashes t u \<Longrightarrow> same_but_hashes s u"
  unfolding same_but_hashes_def by (elim exE, intro exI) simp

text \<open>
  The loops of the code reach every slot within \<open>table_size\<close> turns, whatever the hash: the rehash
  finds the only free slot, the lookup finds the only entry that matches.
\<close>

lemma probe_reaches:
  assumes "shape_ok dbs" "p < table_size dbs"
  shows "(table dbs p = 0 \<longrightarrow> (\<forall>q < table_size dbs. q \<noteq> p \<longrightarrow> table dbs q \<noteq> 0) \<longrightarrow>
      (\<exists>dbs'. rehash_loop (table_size dbs) dbs v (llmsset_step h) h (h AND size_mask dbs) (h AND size_mask dbs) 0 = Inr (1, dbs') \<and>
        same_but_hashes dbs dbs' \<and> table dbs' = (table dbs)(p := v))) \<and>
    (sint (threshold dbs) \<le> 0 \<or> int (table_size dbs) \<le> 8 * sint (threshold dbs) \<longrightarrow>
      (\<forall>q < table_size dbs. table dbs q \<noteq> 0 \<and>
        ((h AND MASK_HASH = table dbs q AND MASK_HASH \<and> dptr dbs (unat (table dbs q AND MASK_INDEX)) = (a, b)) \<longleftrightarrow> q = p)) \<longrightarrow>
      lookup_loop (table_size dbs) dbs a b False (h AND MASK_HASH) (llmsset_step h) h (h AND size_mask dbs) (h AND size_mask dbs) 0 0 =
        Inr (table dbs p AND MASK_INDEX, False, dbs))"
proof -
  let ?at = "\<lambda>k. unat (probe_path h (size_mask dbs) k)"
  obtain m where m: "9 \<le> m" "m \<le> 40" "table_size dbs = 2 ^ m" "size_mask dbs = of_nat (2 ^ m) - 1"
    using shape_sizeE [OF assms(1)] .
  have m': "3 \<le> m" "m \<le> 64" using m(1,2) by auto
  obtain k0 where k0: "k0 < table_size dbs" "?at k0 = p"
    using probe_path_surj [OF m', of p h] assms(2) unfolding m(3,4) by blast
  have other: "?at j < table_size dbs \<and> ?at j \<noteq> p" if "j < k0" for j
  proof
    show "?at j < table_size dbs" using probe_path_less [OF m', of h j] unfolding m(3,4) .
    have "inj_on ?at {..<table_size dbs}" using probe_path_inj [OF m', of h] unfolding m(3,4) .
    then show "?at j \<noteq> p" using that k0 by (auto dest: inj_onD)
  qed
  have start: "probe_path h msk 0 = h AND msk" "probe_base h s msk 0 = h AND msk" for msk s
    by (simp_all add: probe_path_line probe_base_def)
  show ?thesis
  proof (intro conjI impI)
    assume "table dbs p = 0" "\<forall>q < table_size dbs. q \<noteq> p \<longrightarrow> table dbs q \<noteq> 0"
    then obtain w where "rehash_loop (table_size dbs) dbs v (llmsset_step h) h (h AND size_mask dbs) (h AND size_mask dbs) 0 =
        Inr (1, dbs\<lparr>table := (table dbs)(p := v), threshold := w\<rparr>)"
      using rehash_loop_finds [of 0 k0 dbs h "table_size dbs" v] k0 other by (auto simp: start simp del: rehash_loop.simps)
    then show "\<exists>dbs'. rehash_loop (table_size dbs) dbs v (llmsset_step h) h (h AND size_mask dbs) (h AND size_mask dbs) 0 = Inr (1, dbs') \<and>
        same_but_hashes dbs dbs' \<and> table dbs' = (table dbs)(p := v)"
      by (intro exI [of _ "dbs\<lparr>table := (table dbs)(p := v), threshold := w\<rparr>"]) (auto simp: same_but_hashes_def)
  next
    assume T: "sint (threshold dbs) \<le> 0 \<or> int (table_size dbs) \<le> 8 * sint (threshold dbs)"
      and t: "\<forall>q < table_size dbs. table dbs q \<noteq> 0 \<and>
        ((h AND MASK_HASH = table dbs q AND MASK_HASH \<and> dptr dbs (unat (table dbs q AND MASK_INDEX)) = (a, b)) \<longleftrightarrow> q = p)"
    have "\<not> probe_stops dbs a b h j" if "j < k0" for j using other [OF that] t by (auto simp: probe_stops_def Let_def)
    moreover have "probe_slot dbs a b False (h AND MASK_HASH) (probe_path h (size_mask dbs) k0) 0 =
        Inr (Ret (table dbs p AND MASK_INDEX) False dbs)"
      using t [rule_format, OF assms(2)] k0(2) by (simp add: probe_slot_def probe_match_def Let_def)
    moreover have late: "\<not> (0 < sint (threshold dbs) \<and> 8 * sint (threshold dbs) \<le> int k0)" using T k0(1) by auto
    ultimately show "lookup_loop (table_size dbs) dbs a b False (h AND MASK_HASH) (llmsset_step h) h (h AND size_mask dbs) (h AND size_mask dbs) 0 0 =
        Inr (table dbs p AND MASK_INDEX, False, dbs)"
      using lookup_loop_returns [of 0 k0 dbs a b h "table dbs p AND MASK_INDEX" False dbs "table_size dbs"] k0(1)
      by (simp add: start if_not_P [OF late] del: lookup_loop.simps)
  qed
qed

lemma same_but_hashes_sel [frame]:
  assumes "same_but_hashes s t"
  shows "data t = data s" "bitmap1 t = bitmap1 s" "bitmap2 t = bitmap2 s" "bitmapc t = bitmapc s"
    "max_size t = max_size s" "table_size t = table_size s" "size_mask t = size_mask s"
    "tabhash_table t = tabhash_table s" "hash_cb t = hash_cb s" "my_region t = my_region s"
    "equals_cb t = equals_cb s" "create_cb t = create_cb s" "destroy_cb t = destroy_cb s"
    "destroyed t = destroyed s" "my_worker_id t = my_worker_id s"
    "lace_n_workers_id t = lace_n_workers_id s" "dptr t d = dptr s d" "live t d = live s d"
  using assms by (auto simp: same_but_hashes_def dptr_def live_def)

lemma llmsset_rehash_bucket_spec:
  assumes r: "rehash_ready dbs D" and D: "D \<subseteq> {..<table_size dbs}" and n: "n < table_size dbs" "n \<notin> D"
  shows "\<exists>dbs'. llmsset_rehash_bucket dbs n = Inr (1, dbs') \<and> same_but_hashes dbs dbs' \<and>
    rehash_ready dbs' (insert n D)"
proof -
  have sh: "shape_ok dbs" and th: "threshold_ok dbs" and pl: "placed dbs D"
    using r by (auto simp: rehash_ready_def)
  have sz: "table_size dbs \<le> 2 ^ 40" using shape_table_size [OF sh] by simp
  have "\<not> full dbs" by (rule placed_not_full [OF pl]) (use D n in auto)
  then obtain k0 where k0: "k0 < table_size dbs" "table dbs (slot dbs (dptr dbs n) k0) = 0"
    "\<And>j. j < k0 \<Longrightarrow> table dbs (slot dbs (dptr dbs n) j) \<noteq> 0"
    using first_empty_on_path [OF sh] by blast
  define h where "h = hash_of dbs (dptr dbs n)"
  have nc: "\<not> is_custom_bucket dbs n" using sh by (simp add: shape_ok_def is_custom_bucket_def)
  obtain w where w: "rehash_loop (Suc (table_size dbs)) dbs (entry dbs n) (llmsset_step h)
           (h + of_nat (0 div 8) * llmsset_step h) (probe_path h (size_mask dbs) 0)
           (probe_base h (llmsset_step h) (size_mask dbs) (0 div 8)) (int (0 div 8)) =
         Inr (1, dbs\<lparr>table := (table dbs)(unat (probe_path h (size_mask dbs) k0) := entry dbs n), threshold := w\<rparr>)"
       and g: "threshold_grows (threshold dbs) w k0"
    using rehash_loop_finds [of 0 k0 dbs h "Suc (table_size dbs)" "entry dbs n"] k0
    by (auto simp: slot_def h_def)
  define t where "t = dbs\<lparr>threshold := w\<rparr>"
  define u where "u = t\<lparr>table := (table t)(slot t (dptr t n) k0 := entry t n)\<rparr>"
  have env: "same_hash_env dbs t" by (simp add: same_hash_env_def t_def)
  have tt: "table t = table dbs" "dptr t d = dptr dbs d" "threshold t = w" "table_size t = table_size dbs" for d
    by (simp_all add: t_def)
  have te: "entry t n = entry dbs n" by (simp add: entry_def tt hash_of_env [OF env])
  have "llmsset_rehash_bucket dbs n = Inr (1, u)"
  proof -
    have "llmsset_rehash_bucket dbs n =
        rehash_loop (Suc (table_size dbs)) dbs (entry dbs n) (llmsset_step h) h (h AND size_mask dbs) (h AND size_mask dbs) 0"
      by (simp add: llmsset_rehash_bucket_def llmsset_hash_def nc Let_def h_def hash_of_def entry_def
          split: prod.splits del: rehash_loop.simps)
    also have "\<dots> = Inr (1, dbs\<lparr>table := (table dbs)(unat (probe_path h (size_mask dbs) k0) := entry dbs n), threshold := w\<rparr>)"
      using w by (simp add: probe_path_line probe_base_def del: rehash_loop.simps)
    also have "\<dots> = Inr (1, u)"
      by (simp add: u_def slot_env [OF env] te tt) (simp add: t_def slot_def h_def)
    finally show ?thesis .
  qed
  moreover have "same_but_hashes dbs u" 
    unfolding same_but_hashes_def by (intro exI [of _ "table u"] exI [of _ w]) (simp add: u_def t_def)
  moreover have "placed u (insert n D)"
    unfolding u_def
  proof (rule placed_insert)
    show "placed t D"
      by (rule placed_cong [OF pl env]) (use g in \<open>auto simp: tt threshold_grows_def\<close>)
    show "n < 2 ^ 40" using n(1) sz by simp
    show "D \<subseteq> {..<2 ^ 40}" using D sz by auto
  qed (use k0 n g in \<open>auto simp: tt slot_env [OF env] threshold_grows_def\<close>)
  moreover have "shape_ok u" using sh by (auto simp: shape_ok_def u_def t_def region_ok_def)
  moreover have "threshold_ok u"
    using th g k0(1) by (auto simp: threshold_ok_def u_def t_def threshold_grows_def)
  ultimately show ?thesis by (auto simp: rehash_ready_def)
qed

text \<open>The marked buckets of a range.\<close>

definition marked_in :: "llmsset \<Rightarrow> nat \<Rightarrow> nat \<Rightarrow> nat set" where
  "marked_in dbs first count = {d. first \<le> d \<and> d < first + count \<and> bm_test (bitmap2 dbs) d}"

lemma rehash_leaf_spec:
  assumes "rehash_ready dbs D" "D \<subseteq> {..<table_size dbs}" "k + n \<le> table_size dbs" "D \<inter> {k..<k + n} = {}"
  shows "\<exists>dbs'. rehash_leaf n dbs k bad = Inr (bad, dbs') \<and> same_but_hashes dbs dbs' \<and>
    rehash_ready dbs' (D \<union> marked_in dbs k n)"
  using assms
proof (induction n arbitrary: k D dbs)
  case 0
  have "marked_in dbs k 0 = {}" by (auto simp: marked_in_def)
  with 0 show ?case by simp
next
  case (Suc n)
  have m: "marked_in dbs k (Suc n) = (if bm_test (bitmap2 dbs) k then {k} else {}) \<union> marked_in dbs (Suc k) n"
    by (auto simp: marked_in_def not_less_eq_eq dest: le_neq_implies_less)
  show ?case
  proof (cases "bm_test (bitmap2 dbs) k")
    case True
    obtain t where t: "llmsset_rehash_bucket dbs k = Inr (1, t)" "same_but_hashes dbs t" "rehash_ready t (insert k D)"
    proof -
      have "k < table_size dbs" "k \<notin> D" using Suc.prems(3,4) by auto
      then show thesis using llmsset_rehash_bucket_spec [OF Suc.prems(1,2)] that by blast
    qed
    have "\<exists>dbs'. rehash_leaf n t (Suc k) bad = Inr (bad, dbs') \<and> same_but_hashes t dbs' \<and>
        rehash_ready dbs' (insert k D \<union> marked_in t (Suc k) n)"
      by (rule Suc.IH [OF t(3)]) (use Suc.prems same_but_hashes_sel [OF t(2)] in auto)
    moreover have "marked_in t (Suc k) n = marked_in dbs (Suc k) n"
      by (simp add: marked_in_def same_but_hashes_sel [OF t(2)])
    ultimately show ?thesis
      using t True m same_but_hashes_trans [OF t(2)] by auto
  next
    case False
    have "\<exists>dbs'. rehash_leaf n dbs (Suc k) bad = Inr (bad, dbs') \<and> same_but_hashes dbs dbs' \<and>
        rehash_ready dbs' (D \<union> marked_in dbs (Suc k) n)"
      by (rule Suc.IH [OF Suc.prems(1)]) (use Suc.prems in auto)
    then show ?thesis using False m by auto
  qed
qed

lemma llmsset_rehash_par_spec:
  assumes "rehash_ready dbs D" "D \<subseteq> {..<table_size dbs}" "first + count \<le> table_size dbs"
    "D \<inter> {first..<first + count} = {}"
  shows "\<exists>dbs'. llmsset_rehash_par dbs first count = Inr (0, dbs') \<and> same_but_hashes dbs dbs' \<and>
    rehash_ready dbs' (D \<union> marked_in dbs first count)"
  using assms
proof (induction count arbitrary: dbs first D rule: less_induct)
  case (less count)
  show ?case
  proof (cases "count > 512")
    case False
    then show ?thesis
      using rehash_leaf_spec [OF less.prems, of 0] by (simp add: llmsset_rehash_par.simps)
  next
    case True
    let ?h = "count div 2"
    have hc: "?h + (count - ?h) = count" "count - ?h < count" "?h < count" using True by auto
    have "\<exists>t. llmsset_rehash_par dbs (first + ?h) (count - ?h) = Inr (0, t) \<and> same_but_hashes dbs t \<and>
        rehash_ready t (D \<union> marked_in dbs (first + ?h) (count - ?h))"
      by (rule less.IH) (use hc less.prems in auto)
    then obtain t where t: "llmsset_rehash_par dbs (first + ?h) (count - ?h) = Inr (0, t)" "same_but_hashes dbs t"
        "rehash_ready t (D \<union> marked_in dbs (first + ?h) (count - ?h))" by blast
    note sel = same_but_hashes_sel [OF t(2)]
    have "\<exists>u. llmsset_rehash_par t first ?h = Inr (0, u) \<and> same_but_hashes t u \<and>
        rehash_ready u (D \<union> marked_in dbs (first + ?h) (count - ?h) \<union> marked_in t first ?h)"
    proof (rule less.IH [OF hc(3) t(3)])
      show "(D \<union> marked_in dbs (first + ?h) (count - ?h)) \<inter> {first..<first + ?h} = {}"
        using less.prems(4) by (auto simp: marked_in_def disjoint_iff)
    qed (use less.prems in \<open>auto simp: sel marked_in_def\<close>)
    moreover have "D \<union> marked_in dbs (first + ?h) (count - ?h) \<union> marked_in t first ?h = D \<union> marked_in dbs first count"
      using hc(1) by (auto simp: marked_in_def sel)
    ultimately show ?thesis
      using t(1) same_but_hashes_trans [OF t(2)] True
      by (subst llmsset_rehash_par.simps) fastforce
  qed
qed

lemma marked_in_all: "shape_ok dbs \<Longrightarrow> marked_in dbs 0 (table_size dbs) = {d. live dbs d} \<union> {0, 1}"
proof -
  assume sh: "shape_ok dbs"
  have "bm_test (bitmap2 dbs) d \<longleftrightarrow> live dbs d \<or> d = 0 \<or> d = 1" for d
    using sh by (auto simp: shape_ok_def live_def)
  then show ?thesis
    using sh by (auto simp: marked_in_def shape_ok_def live_def)
qed

text \<open>What the collector establishes before it rehashes.\<close>

definition rehashable :: "llmsset \<Rightarrow> bool" where
  "rehashable dbs \<longleftrightarrow> shape_ok dbs \<and> threshold_ok dbs \<and> dptr dbs 0 = (0, 0) \<and> dptr dbs 1 = (0, 0) \<and>
     (\<forall>d d'. live dbs d \<longrightarrow> live dbs d' \<longrightarrow> dptr dbs d = dptr dbs d' \<longrightarrow> d = d')"

lemma llmsset_rehash_spec:
  assumes r: "rehashable dbs"
  shows "\<exists>dbs'. llmsset_rehash (llmsset_clear_hashes dbs) = Inr (0, dbs') \<and> same_but_hashes dbs dbs' \<and>
    table_ok dbs'"
proof -
  define t where "t = llmsset_clear_hashes dbs"
  have st: "same_but_hashes dbs t" unfolding same_but_hashes_def t_def llmsset_clear_hashes_def
    by (rule exI [of _ "\<lambda>_. 0"], rule exI [of _ "threshold dbs"]) simp
  have "shape_ok t" "threshold_ok t" and tb: "table t p = 0" for p
    using r by (auto simp: rehashable_def t_def llmsset_clear_hashes_def shape_ok_def region_ok_def threshold_ok_def)
  then have rt: "rehash_ready t {}" by (simp add: rehash_ready_def placed_def)
  obtain u where u: "llmsset_rehash_par t 0 (table_size t) = Inr (0, u)" "same_but_hashes t u"
      "rehash_ready u ({} \<union> marked_in t 0 (table_size t))"
    using llmsset_rehash_par_spec [OF rt, of 0 "table_size t"] by auto
  have su: "same_but_hashes dbs u" using st u(2) by (rule same_but_hashes_trans)
  have "placed u ({d. live u d} \<union> {0, 1})"
    using u(3) marked_in_all [OF \<open>shape_ok t\<close>] same_but_hashes_sel(18) [OF u(2)] by (simp add: rehash_ready_def)
  then have "table_ok u"
    using r u(3) same_but_hashes_sel [OF su] unfolding table_ok_def rehash_ready_def rehashable_def by auto
  with u(1) su show ?thesis by (auto simp: llmsset_rehash_def t_def)
qed

section \<open>Clearing and marking\<close>

lemma bm_test_forbidden: "bm_test ((\<lambda>_. 0)(0 := 0xc000000000000000)) n \<longleftrightarrow> n = 0 \<or> n = 1"
proof (cases "n < 64")
  case True
  have b: "bit (0xc000000000000000 :: u64) k \<longleftrightarrow> k = 62 \<or> k = 63" for k
  proof -
    have "(0xc000000000000000 :: u64) = 2 ^ 63 OR 2 ^ 62" by simp
    then have "bit (0xc000000000000000 :: u64) k \<longleftrightarrow> bit (2 ^ 63 OR 2 ^ 62 :: u64) k" by (rule arg_cong)
    then show ?thesis unfolding bit_or_iff bit_exp_iff by (auto simp: possible_bit_def)
  qed
  have n: "n div 64 = 0" "n mod 64 = n" using True by simp_all
  show ?thesis unfolding bm_test_bit n fun_upd_same b using True by arith
next
  case False
  then have "n div 64 \<noteq> 0" by (simp add: div_eq_0_iff)
  then show ?thesis using False unfolding bm_test_bit by (simp add: fun_upd_other)
qed

lemma llmsset_clear_data_spec:
  "live (llmsset_clear_data dbs) d \<longleftrightarrow> False"
  "dptr (llmsset_clear_data dbs) d = dptr dbs d"
  "rehashable dbs \<Longrightarrow> rehashable (llmsset_clear_data dbs)"
proof -
  have b: "bm_test (bitmap2 (llmsset_clear_data dbs)) n \<longleftrightarrow> n = 0 \<or> n = 1" for n
    by (simp add: llmsset_clear_data_def llmsset_reset_region_def bm_test_forbidden Let_def del: fun_upd_apply)
  then show lv: "live (llmsset_clear_data dbs) d \<longleftrightarrow> False" for d by (simp add: live_def)
  show dp: "dptr (llmsset_clear_data dbs) d = dptr dbs d" for d
    by (simp add: llmsset_clear_data_def llmsset_reset_region_def dptr_def)
  assume r: "rehashable dbs"
  have "shape_ok (llmsset_clear_data dbs)"
    using r shape_table_size [of dbs] unfolding shape_ok_def b rehashable_def
    by (auto simp: llmsset_clear_data_def llmsset_reset_region_def region_ok_def)
  with r show "rehashable (llmsset_clear_data dbs)"
    by (simp add: rehashable_def lv dp)
      (simp add: threshold_ok_def llmsset_clear_data_def llmsset_reset_region_def)
qed

lemma llmsset_mark_spec:
  assumes "llmsset_mark dbs i = (fresh, dbs')"
  shows "fresh \<longleftrightarrow> \<not> llmsset_is_marked dbs i" "dbs' = dbs\<lparr>bitmap2 := bm_set (bitmap2 dbs) i\<rparr> \<or> dbs' = dbs"
    "llmsset_is_marked dbs' j \<longleftrightarrow> j = i \<or> llmsset_is_marked dbs j"
    "2 \<le> i \<Longrightarrow> live dbs' d \<longleftrightarrow> d = i \<or> live dbs d" "dptr dbs' d = dptr dbs d"
  using assms by (auto simp: llmsset_mark_def llmsset_is_marked_def live_def split: if_splits)


section \<open>Sizes\<close>

lemma bit_2_power: "bit (of_nat (2 ^ m) :: u64) k \<longleftrightarrow> k = m \<and> m < 64"
proof -
  have "(of_nat (2 ^ m) :: u64) = 2 ^ m" by simp
  then show ?thesis by (simp only: bit_exp_iff possible_bit_def) auto
qed

lemma power_word_nonzero: "m < 64 \<Longrightarrow> (of_nat (2 ^ m) :: u64) \<noteq> 0"
  using bit_2_power [of m m] by (metis bit_0_eq bot_apply bot_bool_def)

lemma clzll_power: "m < 64 \<Longrightarrow> clzll (of_nat (2 ^ m)) = 63 - m"
proof -
  assume m: "m < 64"
  define c where "c = clzll (of_nat (2 ^ m))"
  have "63 - c = m" using clzll_bit [OF power_word_nonzero [OF m]] unfolding c_def [symmetric] bit_2_power by simp
  moreover have "c < 64" using clzll_less [OF power_word_nonzero [OF m]] by (simp only: c_def)
  ultimately have "c = 63 - m" by arith
  then show ?thesis by (simp only: c_def)
qed

lemma popcountll_one:
  assumes "popcountll x = 1"
  obtains m where "m < 64" "x = of_nat (2 ^ m)"
proof -
  have "length (filter (bit x) [0..<64]) = 1" using assms by (simp add: popcountll_def)
  then have "card {j. j < 64 \<and> bit x j} = 1"
  proof -
    have "card (set (filter (bit x) [0..<64])) = length (filter (bit x) [0..<64])"
      by (rule distinct_card) simp
    moreover have "set (filter (bit x) [0..<64]) = {j. j < 64 \<and> bit x j}" by auto
    ultimately show ?thesis using \<open>length (filter (bit x) [0..<64]) = 1\<close> by (simp only:)
  qed
  then obtain m where m: "{j. j < 64 \<and> bit x j} = {m}" using card_1_singletonE by blast
  then have m64: "m < 64" by auto
  have "x = of_nat (2 ^ m)"
  proof (rule bit_word_eqI)
    fix k assume "k < LENGTH(64)"
    with m show "bit x k \<longleftrightarrow> bit (of_nat (2 ^ m) :: u64) k" unfolding bit_2_power by auto
  qed
  with m64 show thesis by (rule that)
qed

definition size_ok :: "nat \<Rightarrow> bool" where
  "size_ok n \<longleftrightarrow> (\<exists>m. 9 \<le> m \<and> m \<le> 40 \<and> n = 2 ^ m)"

lemma threshold_initial:
  assumes "m \<le> 40"
  shows "sint (of_nat (192 - 2 * clzll (of_nat (2 ^ m))) :: u16) = 66 + 2 * int m"
proof -
  have m64: "m < 64" using assms by simp
  have "192 - 2 * clzll (of_nat (2 ^ m)) = 66 + 2 * m"
    unfolding clzll_power [OF m64] using assms by simp
  moreover have "sint (of_nat (66 + 2 * m) :: u16) = 66 + 2 * int m"
    using assms by (simp add: signed_of_nat signed_take_bit_int_eq_self del: of_nat_add of_nat_mult)
  ultimately show ?thesis by simp
qed

lemma llmsset_set_size_spec:
  assumes r: "rehashable dbs" and n: "size_ok n" "n \<le> max_size dbs" "table_size dbs \<le> n"
  shows "rehashable (llmsset_set_size dbs n)" "table_size (llmsset_set_size dbs n) = n"
    "dptr (llmsset_set_size dbs n) d = dptr dbs d" "live (llmsset_set_size dbs n) d = live dbs d"
proof -
  obtain m where m: "9 \<le> m" "m \<le> 40" "n = 2 ^ m" using n(1) by (auto simp: size_ok_def)
  have big: "128 < n" using power_increasing [OF m(1), of "2::nat"] m(3) by simp
  have e: "llmsset_set_size dbs n = dbs\<lparr>table_size := n, size_mask := of_nat n - 1,
      threshold := of_nat (192 - 2 * clzll (of_nat n))\<rparr>"
    using big n(2) by (simp add: llmsset_set_size_def)
  show "table_size (llmsset_set_size dbs n) = n" by (simp add: e)
  show dp: "dptr (llmsset_set_size dbs n) d = dptr dbs d" and
    lv: "live (llmsset_set_size dbs n) d = live dbs d" for d by (simp_all add: e dptr_def live_def)
  have "512 dvd n" using le_imp_power_dvd [OF m(1), of "2::nat"] m(3) by simp
  moreover have "n \<le> 2 ^ 40" using power_increasing [OF m(2), of "2::nat"] m(3) by simp
  moreover have "table_size dbs div 512 \<le> n div 512" using n(3) by (rule div_le_mono)
  ultimately have reg: "region_ok (dbs\<lparr>table_size := n, size_mask := of_nat n - 1,
      threshold := of_nat (192 - 2 * clzll (of_nat n))\<rparr>)"
    using r big by (auto simp: rehashable_def shape_ok_def region_ok_def)
  have "k < n" if "bm_test (bitmap2 dbs) k" for k
    using r that n(3) unfolding rehashable_def shape_ok_def by (meson less_le_trans)
  then have "shape_ok (llmsset_set_size dbs n)"
    using r m reg unfolding e by (auto simp: rehashable_def shape_ok_def)
  moreover have "threshold_ok (llmsset_set_size dbs n)"
    using threshold_initial [OF m(2)] m(2) n(2) unfolding threshold_ok_def e by (simp add: m(3))
  ultimately show "rehashable (llmsset_set_size dbs n)"
    using r unfolding rehashable_def dp lv by blast
qed

text \<open>
  A table that was created with sizes that are not larger than the 40-bit indices of its
  entries satisfies the invariant and holds nothing.
\<close>

lemma llmsset_create_spec:
  assumes c: "llmsset_create env i m = Inr dbs" and m: "m \<le> 2 ^ 40"
    and env: "my_region env = -1" "0 < lace_n_workers_id env"
  shows "table_ok dbs" "size_ok i" "size_ok m" "i \<le> m" "table_size dbs = i" "max_size dbs = m" "\<not> live dbs d"
proof -
  from c have pc: "popcountll (of_nat i) = 1" "popcountll (of_nat m) = 1" and le: "i \<le> m" "512 \<le> i"
    by (auto simp: llmsset_create_def split: if_splits)
  have pow: "size_ok n" if pn: "popcountll (of_nat n) = 1" and n: "512 \<le> n" "n \<le> 2 ^ 40" for n
  proof -
    obtain k where k: "k < 64" "(of_nat n :: u64) = of_nat (2 ^ k)" using popcountll_one [OF pn] .
    have "n < 2 ^ 64" using n(2) by simp
    moreover have "(2::nat) ^ k < 2 ^ 64" using k(1) by (intro power_strict_increasing) simp_all
    ultimately have nk: "n = 2 ^ k" using k(2) by (simp only: word_of_nat_inj_64)
    have "2 ^ 9 \<le> (2::nat) ^ k" "(2::nat) ^ k \<le> 2 ^ 40" using n nk by simp_all
    then have "9 \<le> k" "k \<le> 40" by (simp_all only: power_increasing_iff one_less_numeral_iff semiring_norm)
    with nk show ?thesis by (auto simp: size_ok_def)
  qed
  show "size_ok i" "size_ok m" using pow pc le m by auto
  show "i \<le> m" by (rule le)
  define s where "s = llmsset_set_size (env\<lparr>max_size := m\<rparr>) i"
  have dbs: "dbs = s\<lparr>table := (\<lambda>_. 0), data := (\<lambda>_. 0), bitmap1 := (\<lambda>_. 0),
                  bitmap2 := (\<lambda>_. 0)(0 := 0xc000000000000000), bitmapc := (\<lambda>_. 0),
                  hash_cb := None, equals_cb := None, create_cb := None, destroy_cb := False,
                  tabhash_table := sylvan_init_hash (tabhash_table s)\<rparr>"
    using c by (auto simp: llmsset_create_def s_def Let_def split: if_splits)
  obtain k where k: "9 \<le> k" "k \<le> 40" "i = 2 ^ k" using \<open>size_ok i\<close> by (auto simp: size_ok_def)
  have big: "128 < i" using le by simp
  have s: "s = env\<lparr>max_size := m, table_size := i, size_mask := of_nat i - 1,
      threshold := of_nat (192 - 2 * clzll (of_nat i))\<rparr>"
    using big le by (simp add: s_def llmsset_set_size_def)
  show ts: "table_size dbs = i" "max_size dbs = m" by (simp_all add: dbs s)
  have b: "bm_test (bitmap2 dbs) n \<longleftrightarrow> n = 0 \<or> n = 1" for n
    unfolding dbs by (simp add: bm_test_forbidden del: fun_upd_apply)
  then show lv: "\<not> live dbs d" for d by (simp add: live_def)
  have "512 dvd i" using le_imp_power_dvd [OF k(1), of "2::nat"] k(3) by simp
  then have "region_ok dbs" using env le m unfolding region_ok_def dbs s by simp
  then have "shape_ok dbs"
    using k le unfolding shape_ok_def b by (auto simp: dbs s)
  moreover have "threshold_ok dbs"
    using threshold_initial [OF k(2)] k(2) le unfolding threshold_ok_def dbs s k(3) by simp
  moreover have "placed dbs {}" by (simp add: placed_def dbs)
  moreover have "dptr dbs d = (0, 0)" for d by (simp add: dptr_def dbs)
  ultimately show "table_ok dbs" using lv unfolding table_ok_def by auto
qed


section \<open>Counting\<close>

lemma popcountll_card: "popcountll x = card {j. j < 64 \<and> bit x j}"
proof -
  have "card (set (filter (bit x) [0..<64])) = length (filter (bit x) [0..<64])"
    by (rule distinct_card) simp
  moreover have "set (filter (bit x) [0..<64]) = {j. j < 64 \<and> bit x j}" by auto
  ultimately show ?thesis by (simp add: popcountll_def)
qed

lemma popcountll_bitmap: "popcountll (bitmap2 dbs p) = card (marked_in dbs (64 * p) 64)"
proof -
  have "bij_betw (\<lambda>j. 64 * p + (63 - j)) {j. j < 64 \<and> bit (bitmap2 dbs p) j} (marked_in dbs (64 * p) 64)"
  proof (rule bij_betw_byWitness [where f' = "\<lambda>d. 63 - d mod 64"])
    have m: "64 * p + (63 - j) < 64 * p + 64" "(64 * p + (63 - j)) div 64 = p" "(64 * p + (63 - j)) mod 64 = 63 - j" for j
      by simp_all
    show "\<forall>j \<in> {j. j < 64 \<and> bit (bitmap2 dbs p) j}. 63 - (64 * p + (63 - j)) mod 64 = j"
      unfolding m(3) by auto
    show "(\<lambda>j. 64 * p + (63 - j)) ` {j. j < 64 \<and> bit (bitmap2 dbs p) j} \<subseteq> marked_in dbs (64 * p) 64"
    proof (rule image_subsetI)
      fix j assume "j \<in> {j. j < 64 \<and> bit (bitmap2 dbs p) j}"
      then have j: "j < 64" and b: "bit (bitmap2 dbs p) j" by auto
      have "63 - (63 - j) = j" using j by simp
      with b m [of j] have "bm_test (bitmap2 dbs) (64 * p + (63 - j))" unfolding bm_test_bit by (simp only:)
      then show "64 * p + (63 - j) \<in> marked_in dbs (64 * p) 64"
        using m(1) by (simp add: marked_in_def)
    qed
    have d: "d div 64 = p \<and> d mod 64 < 64 \<and> d = 64 * p + d mod 64" if "64 * p \<le> d" "d < 64 * p + 64" for d
    proof -
      obtain r where "d = 64 * p + r" "r < 64" using \<open>64 * p \<le> d\<close> \<open>d < 64 * p + 64\<close>
        by (metis le_add_diff_inverse nat_add_left_cancel_less)
      then show ?thesis by simp
    qed
    show "\<forall>d \<in> marked_in dbs (64 * p) 64. 64 * p + (63 - (63 - d mod 64)) = d"
      using d by (auto simp: marked_in_def)
    show "(\<lambda>d. 63 - d mod 64) ` marked_in dbs (64 * p) 64 \<subseteq> {j. j < 64 \<and> bit (bitmap2 dbs p) j}"
      using d by (auto simp: marked_in_def bm_test_bit)
  qed
  then show ?thesis by (simp add: popcountll_card bij_betw_same_card)
qed

lemma finite_marked_in [simp]: "finite (marked_in dbs a n)"
  by (rule finite_subset [of _ "{..<a + n}"]) (auto simp: marked_in_def)

lemma card_marked_in_split: "card (marked_in dbs a (m + n)) = card (marked_in dbs a m) + card (marked_in dbs (a + m) n)"
proof -
  have "marked_in dbs a (m + n) = marked_in dbs a m \<union> marked_in dbs (a + m) n"
    by (auto simp: marked_in_def)
  moreover have "marked_in dbs a m \<inter> marked_in dbs (a + m) n = {}" by (auto simp: marked_in_def)
  ultimately show ?thesis by (simp add: card_Un_disjoint)
qed

lemma count_leaf_spec: "count_leaf dbs n k r = r + card (marked_in dbs k n)"
proof (induction n arbitrary: k r)
  case 0
  have "marked_in dbs k 0 = {}" by (auto simp: marked_in_def)
  then show ?case by simp
next
  case (Suc n)
  have "marked_in dbs k 1 = (if bm_test (bitmap2 dbs) k then {k} else {})"
    by (auto simp: marked_in_def less_Suc_eq_le dest: le_antisym)
  then have "card (marked_in dbs k (Suc n)) = (if bm_test (bitmap2 dbs) k then 1 else 0) + card (marked_in dbs (Suc k) n)"
    using card_marked_in_split [of dbs k 1 n] by simp
  then show ?case by (simp add: Suc.IH)
qed

lemma sum8: "(\<Sum>i<(8::nat). f i) = f 0 + f 1 + f 2 + f 3 + f 4 + f 5 + f 6 + (f 7 :: nat)"
  by (simp add: numeral_eq_Suc)

lemma llmsset_count_marked_par_spec:
  "count = 2 ^ m \<Longrightarrow> 9 \<le> m \<Longrightarrow> 512 dvd first \<Longrightarrow> llmsset_count_marked_par dbs first count = card (marked_in dbs first count)"
proof (induction m arbitrary: first count)
  case (Suc m)
  show ?case
  proof (cases "m = 8")
    case True
    then have c: "count = 512" using Suc.prems(1) by simp
    from Suc.prems(3) obtain q where q: "first = 512 * q" by (auto elim: dvdE)
    let ?p = "first div 64"
    have pp: "first = 64 * ?p" using q by simp
    have s: "card (marked_in dbs (64 * p) (64 * n)) = (\<Sum>i<n. popcountll (bitmap2 dbs (p + i)))" for p n
    proof (induction n)
      case 0
      have "marked_in dbs (64 * p) 0 = {}" by (auto simp: marked_in_def)
      then show ?case by simp
    next
      case (Suc n)
      have "card (marked_in dbs (64 * p) (64 * n + 64)) = card (marked_in dbs (64 * p) (64 * n)) + card (marked_in dbs (64 * (p + n)) 64)"
        using card_marked_in_split [of dbs "64 * p" "64 * n" 64] by (simp add: algebra_simps)
      with Suc show ?case by (simp add: popcountll_bitmap add.commute)
    qed
    have "card (marked_in dbs first 512) = (\<Sum>i<8. popcountll (bitmap2 dbs (?p + i)))"
      using s [of ?p 8] pp by simp
    also have "\<dots> = popcountll (bitmap2 dbs ?p) + popcountll (bitmap2 dbs (?p + 1))
          + popcountll (bitmap2 dbs (?p + 2)) + popcountll (bitmap2 dbs (?p + 3))
          + popcountll (bitmap2 dbs (?p + 4)) + popcountll (bitmap2 dbs (?p + 5))
          + popcountll (bitmap2 dbs (?p + 6)) + popcountll (bitmap2 dbs (?p + 7))"
      by (simp only: sum8 add_0_right)
    finally show ?thesis using c by (simp add: llmsset_count_marked_par.simps Let_def)
  next
    case False
    with Suc.prems(2) have m: "9 \<le> m" by simp
    then have big: "512 \<le> (2::nat) ^ m" using power_increasing [OF m, of "2::nat"] by simp
    have c: "count = 2 ^ m + 2 ^ m" "count div 2 = 2 ^ m" using Suc.prems(1) by simp_all
    have d: "512 dvd first + 2 ^ m"
      using Suc.prems(3) le_imp_power_dvd [OF m, of "2::nat"] by simp
    show ?thesis
      using Suc.IH [OF refl m Suc.prems(3)] Suc.IH [OF refl m d] big c
      by (subst llmsset_count_marked_par.simps) (simp add: Let_def card_marked_in_split)
  qed
qed simp

lemma llmsset_count_marked_spec:
  assumes "shape_ok dbs"
  shows "llmsset_count_marked dbs = card {d. live dbs d} + 2"
proof -
  obtain m where m: "9 \<le> m" "table_size dbs = 2 ^ m" using shape_sizeE [OF assms] by metis
  have "llmsset_count_marked dbs = card (marked_in dbs 0 (table_size dbs))"
    unfolding llmsset_count_marked_def by (rule llmsset_count_marked_par_spec [OF m(2,1)]) simp
  also have "\<dots> = card ({d. live dbs d} \<union> {0, 1})" by (simp only: marked_in_all [OF assms])
  also have "\<dots> = card {d. live dbs d} + card {0, 1::nat}"
    by (rule card_Un_disjoint) (simp_all add: finite_live [OF assms], simp_all add: live_def)
  finally show ?thesis by simp
qed

end
