(* ===== verification/UniqueTable.thy ===== *)
theory UniqueTable
  imports NodeTableGC
begin

text \<open>
  The contract of the unique table, as the node constructors use it: \<open>lv s d\<close> says that
  bucket \<open>d\<close> holds a pair, \<open>pair s d\<close> is that pair, \<open>look s a b\<close> finds or inserts.
  A result index of 0 is the report that there was no room. \<open>dvg s\<close> is the case in which
  a lookup of a pair that is not in the table does not return.
\<close>

locale unique_table =
  fixes inv :: "'s \<Rightarrow> bool"
    and lv :: "'s \<Rightarrow> nat \<Rightarrow> bool"
    and pair :: "'s \<Rightarrow> nat \<Rightarrow> u64 \<times> u64"
    and look :: "'s \<Rightarrow> u64 \<Rightarrow> u64 \<Rightarrow> serror + (u64 \<times> bool \<times> 's)"
    and dvg :: "'s \<Rightarrow> bool"
  assumes returns: "inv s \<Longrightarrow> (a, b) \<noteq> (0, 0) \<Longrightarrow>
      (\<exists>r c t. look s a b = Inr (r, c, t)) \<or> look s a b = Inl OutOfFuel \<and> dvg s"
    and returns_known: "inv s \<Longrightarrow> (a, b) \<noteq> (0, 0) \<Longrightarrow> lv s d \<Longrightarrow> pair s d = (a, b) \<Longrightarrow>
      look s a b = Inr (of_nat d, False, s)"
    and keeps_inv: "inv s \<Longrightarrow> (a, b) \<noteq> (0, 0) \<Longrightarrow> look s a b = Inr (r, c, t) \<Longrightarrow> inv t"
    and keeps_pairs: "inv s \<Longrightarrow> (a, b) \<noteq> (0, 0) \<Longrightarrow> look s a b = Inr (r, c, t) \<Longrightarrow> lv s d \<Longrightarrow>
      lv t d \<and> pair t d = pair s d"
    and adds_only: "inv s \<Longrightarrow> (a, b) \<noteq> (0, 0) \<Longrightarrow> look s a b = Inr (r, c, t) \<Longrightarrow> lv t d \<Longrightarrow>
      lv s d \<or> pair t d = (a, b)"
    and answers: "inv s \<Longrightarrow> (a, b) \<noteq> (0, 0) \<Longrightarrow> look s a b = Inr (r, c, t) \<Longrightarrow> r \<noteq> 0 \<Longrightarrow>
      \<exists>d. r = of_nat d \<and> lv t d \<and> pair t d = (a, b)"
    and index_range: "inv s \<Longrightarrow> lv s d \<Longrightarrow> 2 \<le> d \<and> d < 2 ^ 40"
begin

text \<open>No pair is held twice.\<close>

lemma unique:
  assumes "inv s" "lv s d" "lv s d'" "pair s d = pair s d'" "pair s d \<noteq> (0, 0)"
  shows "d = d'"
proof -
  obtain a b where ab: "pair s d = (a, b)" by (cases "pair s d")
  have "look s a b = Inr (of_nat d, False, s)" "look s a b = Inr (of_nat d', False, s)"
    using assms ab returns_known by metis+
  then have "(of_nat d :: u64) = of_nat d'" by simp
  moreover have "d < 2 ^ 64" "d' < 2 ^ 64" using index_range [OF assms(1)] assms(2,3) by fastforce+
  ultimately show ?thesis by (simp only: word_of_nat_inj_64)
qed

text \<open>A lookup that succeeded answers the same again, and changes nothing then.\<close>

lemma look_again:
  assumes "inv s" "(a, b) \<noteq> (0, 0)" "look s a b = Inr (r, c, t)" "r \<noteq> 0"
  shows "look t a b = Inr (r, False, t)"
  using answers [OF assms] keeps_inv [OF assms(1-3)] returns_known assms(2) by blast

text \<open>Two lookups that succeed, one after the other, answer the same index only for the same pair.\<close>

lemma look_inj:
  assumes "inv s" "(a, b) \<noteq> (0, 0)" "(a', b') \<noteq> (0, 0)"
    and "look s a b = Inr (r, c, t)" "r \<noteq> 0" "look t a' b' = Inr (r', c', u)" "r' \<noteq> 0"
  shows "r = r' \<longleftrightarrow> (a, b) = (a', b')"
proof
  have it: "inv t" using keeps_inv assms(1,2,4) by blast
  assume "r = r'"
  obtain d where d: "r = of_nat d" "lv t d" "pair t d = (a, b)"
    using answers [OF assms(1,2,4,5)] by blast
  obtain d' where d': "r' = of_nat d'" "lv u d'" "pair u d' = (a', b')"
    using answers [OF it assms(3,6,7)] by blast
  have du: "lv u d" "pair u d = (a, b)" using keeps_pairs [OF it assms(3,6) d(2)] d(3) by auto
  have iu: "inv u" using keeps_inv it assms(3,6) by blast
  have "d < 2 ^ 64" "d' < 2 ^ 64" using index_range [OF iu] du(1) d'(2) by fastforce+
  then have "d = d'" using \<open>r = r'\<close> d(1) d'(1) by (simp only: word_of_nat_inj_64)
  with du d' show "(a, b) = (a', b')" by simp
next
  assume "(a, b) = (a', b')"
  then show "r = r'" using look_again [OF assms(1,2,4,5)] assms(6) by simp
qed

end

lemma lookup_outcome_facts:
  assumes ok: "table_ok s" and ab: "(a, b) \<noteq> (0, 0)" and l: "llmsset_lookup s a b = Inr (r, c, t)"
  shows "table_ok t" "lookup_outcome s a b r c t"
    "live s d \<Longrightarrow> live t d \<and> dptr t d = dptr s d"
    "live t d \<Longrightarrow> live s d \<or> dptr t d = (a, b)"
    "r \<noteq> 0 \<Longrightarrow> \<exists>d. r = of_nat d \<and> live t d \<and> dptr t d = (a, b)"
proof -
  show "table_ok t" and out: "lookup_outcome s a b r c t"
    using llmsset_lookup_outcome [OF ok ab] l by auto
  show "live s d \<Longrightarrow> live t d \<and> dptr t d = dptr s d"
    "live t d \<Longrightarrow> live s d \<or> dptr t d = (a, b)"
    "r \<noteq> 0 \<Longrightarrow> \<exists>d. r = of_nat d \<and> live t d \<and> dptr t d = (a, b)"
    using out unfolding lookup_outcome_def
    by (auto simp: live_def same_but_region_def dptr_def write_data_def split: if_splits)
qed

text \<open>The table of \<open>sylvan_table.c\<close> keeps the contract.\<close>

interpretation ut: unique_table table_ok live dptr llmsset_lookup "\<lambda>s. full s \<and> 2 ^ 17 < max_size s"
proof unfold_locales
  fix s and a b :: u64 and d r c t
  assume ok: "table_ok s"
  show "live s d \<Longrightarrow> 2 \<le> d \<and> d < 2 ^ 40" using live_less [OF table_ok_shape [OF ok]] by blast
  assume ab: "(a, b) \<noteq> (0, 0)"
  show "(\<exists>r c t. llmsset_lookup s a b = Inr (r, c, t)) \<or>
      llmsset_lookup s a b = Inl OutOfFuel \<and> full s \<and> 2 ^ 17 < max_size s"
    using llmsset_lookup_outcome [OF ok ab] by auto
  show "llmsset_lookup s a b = Inr (of_nat d, False, s)" if d: "live s d" "dptr s d = (a, b)"
  proof -
    obtain r c t where l: "llmsset_lookup s a b = Inr (r, c, t)" "lookup_outcome s a b r c t"
      using llmsset_lookup_outcome [OF ok ab] d by blast
    from l(2) d obtain d' where "live s d'" "dptr s d' = (a, b)" "r = of_nat d'" "\<not> c" "t = s"
      unfolding lookup_outcome_def by (metis (full_types))
    with l(1) d table_ok_unique [OF ok, of d d'] show ?thesis by simp
  qed
  assume l: "llmsset_lookup s a b = Inr (r, c, t)"
  note f = lookup_outcome_facts [OF ok ab l]
  show "table_ok t" by (rule f(1))
  show "live s d \<Longrightarrow> live t d \<and> dptr t d = dptr s d" by (rule f(3))
  show "live t d \<Longrightarrow> live s d \<or> dptr t d = (a, b)" by (rule f(4))
  show "r \<noteq> 0 \<Longrightarrow> \<exists>d. r = of_nat d \<and> live t d \<and> dptr t d = (a, b)" by (rule f(5))
qed

end
