(* ===== verification/MtbddNode.thy ===== *)
theory MtbddNode
  imports UniqueTable
begin

text \<open>
  The encoding of decision diagrams of \<open>sylvan_mtbdd.h\<close> and \<open>sylvan_mtbdd_int.h\<close>. A
  diagram is a word: the low 40 bits are the index of a data bucket, the top bit is the
  complement mark. A bucket is a pair of words \<open>a\<close>, \<open>b\<close>:

    leaf:      a = bit 62, 32-bit type;  b = value
    node:      a = complement mark and index of the high edge;  b = 24-bit variable, index of the low edge
    map node:  a as for a node, and bit 60

  The lemmas give the fields of a bucket that was just made, and the marks of edges.
\<close>

section \<open>Diagrams\<close>

type_synonym node = "u64 \<times> u64"

definition mtbdd_complement :: u64 where "mtbdd_complement = 0x8000000000000000"
definition mtbdd_false :: u64 where "mtbdd_false = 0"
definition mtbdd_true :: u64 where "mtbdd_true = 0x8000000000000000"
definition mtbdd_invalid :: u64 where "mtbdd_invalid = 0xffffffffffffffff"

definition MTBDD_INDEX :: "u64 \<Rightarrow> nat" where
  "MTBDD_INDEX dd = unat (dd AND 0x000000ffffffffff)"

definition MTBDD_GETNODE :: "llmsset \<Rightarrow> u64 \<Rightarrow> node" where
  "MTBDD_GETNODE nodes dd = dptr nodes (MTBDD_INDEX dd)"

definition MTBDD_HASMARK :: "u64 \<Rightarrow> bool" where
  "MTBDD_HASMARK dd \<longleftrightarrow> dd AND mtbdd_complement \<noteq> 0"

definition MTBDD_TOGGLEMARK :: "u64 \<Rightarrow> u64" where
  "MTBDD_TOGGLEMARK dd = dd XOR mtbdd_complement"

definition MTBDD_STRIPMARK :: "u64 \<Rightarrow> u64" where
  "MTBDD_STRIPMARK dd = dd AND NOT mtbdd_complement"

definition MTBDD_TRANSFERMARK :: "u64 \<Rightarrow> u64 \<Rightarrow> u64" where
  "MTBDD_TRANSFERMARK from' to = to XOR (from' AND mtbdd_complement)"

definition MTBDD_EQUALM :: "u64 \<Rightarrow> u64 \<Rightarrow> bool" where
  "MTBDD_EQUALM a b \<longleftrightarrow> (a XOR b) AND NOT mtbdd_complement = 0"

definition mtbdd_hascomp :: "u64 \<Rightarrow> bool" where
  "mtbdd_hascomp dd \<longleftrightarrow> dd AND mtbdd_complement \<noteq> 0"

definition mtbdd_comp :: "u64 \<Rightarrow> u64" where
  "mtbdd_comp dd = dd XOR mtbdd_complement"

definition mtbdd_not :: "u64 \<Rightarrow> u64" where
  "mtbdd_not dd = dd XOR mtbdd_complement"

section \<open>Fields of a bucket\<close>

definition mtbddnode_isleaf :: "node \<Rightarrow> bool" where
  "mtbddnode_isleaf n \<longleftrightarrow> fst n AND 0x4000000000000000 \<noteq> 0"

definition mtbddnode_gettype :: "node \<Rightarrow> u32" where
  "mtbddnode_gettype n = ucast (fst n AND 0x00000000ffffffff)"

definition mtbddnode_getvalue :: "node \<Rightarrow> u64" where
  "mtbddnode_getvalue n = snd n"

definition mtbddnode_getcomp :: "node \<Rightarrow> bool" where
  "mtbddnode_getcomp n \<longleftrightarrow> fst n AND 0x8000000000000000 \<noteq> 0"

definition mtbddnode_getlow :: "node \<Rightarrow> u64" where
  "mtbddnode_getlow n = snd n AND 0x000000ffffffffff"

definition mtbddnode_gethigh :: "node \<Rightarrow> u64" where
  "mtbddnode_gethigh n = fst n AND 0x800000ffffffffff"

definition mtbddnode_getvariable :: "node \<Rightarrow> u32" where
  "mtbddnode_getvariable n = ucast (drop_bit 40 (snd n))"

definition mtbddnode_getmark :: "node \<Rightarrow> bool" where
  "mtbddnode_getmark n \<longleftrightarrow> fst n AND 0x2000000000000000 \<noteq> 0"

definition mtbddnode_setmark :: "node \<Rightarrow> bool \<Rightarrow> node" where
  "mtbddnode_setmark n mark =
    (if mark then (fst n OR 0x2000000000000000, snd n) else (fst n AND 0xdfffffffffffffff, snd n))"

definition mtbddnode_makeleaf :: "u32 \<Rightarrow> u64 \<Rightarrow> node" where
  "mtbddnode_makeleaf type value' = (0x4000000000000000 OR ucast type, value')"

definition mtbddnode_makenode :: "u32 \<Rightarrow> u64 \<Rightarrow> u64 \<Rightarrow> node" where
  "mtbddnode_makenode var low high = (high, push_bit 40 (ucast var) OR low)"

definition mtbddnode_makemapnode :: "u32 \<Rightarrow> u64 \<Rightarrow> u64 \<Rightarrow> node" where
  "mtbddnode_makemapnode var low high = (high OR 0x1000000000000000, push_bit 40 (ucast var) OR low)"

definition mtbddnode_ismapnode :: "node \<Rightarrow> bool" where
  "mtbddnode_ismapnode n \<longleftrightarrow> fst n AND 0x1000000000000000 \<noteq> 0"

definition mtbddnode_followlow :: "u64 \<Rightarrow> node \<Rightarrow> u64" where
  "mtbddnode_followlow dd n = MTBDD_TRANSFERMARK dd (mtbddnode_getlow n)"

definition mtbddnode_followhigh :: "u64 \<Rightarrow> node \<Rightarrow> u64" where
  "mtbddnode_followhigh dd n = MTBDD_TRANSFERMARK dd (mtbddnode_gethigh n)"

section \<open>Access to the diagrams of a table\<close>

definition mtbdd_isleaf :: "llmsset \<Rightarrow> u64 \<Rightarrow> bool" where
  "mtbdd_isleaf nodes bdd =
    (if bdd = mtbdd_true \<or> bdd = mtbdd_false then True else mtbddnode_isleaf (MTBDD_GETNODE nodes bdd))"

definition mtbdd_isnode :: "llmsset \<Rightarrow> u64 \<Rightarrow> bool" where
  "mtbdd_isnode nodes mtbdd = (if mtbdd_isleaf nodes mtbdd then False else True)"

definition mtbdd_getvar :: "llmsset \<Rightarrow> u64 \<Rightarrow> u32" where
  "mtbdd_getvar nodes node' = mtbddnode_getvariable (MTBDD_GETNODE nodes node')"

definition mtbdd_getlow :: "llmsset \<Rightarrow> u64 \<Rightarrow> u64" where
  "mtbdd_getlow nodes mtbdd = mtbddnode_followlow mtbdd (MTBDD_GETNODE nodes mtbdd)"

definition mtbdd_gethigh :: "llmsset \<Rightarrow> u64 \<Rightarrow> u64" where
  "mtbdd_gethigh nodes mtbdd = mtbddnode_followhigh mtbdd (MTBDD_GETNODE nodes mtbdd)"

definition mtbdd_gettype :: "llmsset \<Rightarrow> u64 \<Rightarrow> u32" where
  "mtbdd_gettype nodes leaf = mtbddnode_gettype (MTBDD_GETNODE nodes leaf)"

definition mtbdd_getvalue :: "llmsset \<Rightarrow> u64 \<Rightarrow> u64" where
  "mtbdd_getvalue nodes leaf = mtbddnode_getvalue (MTBDD_GETNODE nodes leaf)"

definition mtbdd_getint64 :: "llmsset \<Rightarrow> u64 \<Rightarrow> int" where
  "mtbdd_getint64 nodes leaf = sint (mtbdd_getvalue nodes leaf)"

section \<open>Index and mark\<close>

text \<open>A diagram is determined by its index and its mark; every operation on marks is read off these two.\<close>

named_theorems dd_simps \<open>index, mark and well-formedness of diagrams\<close>

lemma bit_complement: "bit mtbdd_complement n \<longleftrightarrow> n = 63"
  unfolding mtbdd_complement_def bit_key_masks ..

lemma HASMARK_bit: "MTBDD_HASMARK x \<longleftrightarrow> bit x 63"
  unfolding MTBDD_HASMARK_def mtbdd_complement_def by (rule top_bit_test)

lemma INDEX_take: "MTBDD_INDEX x = unat (take_bit 40 x)"
  unfolding MTBDD_INDEX_def by (simp add: word_and_ff40)

lemma bit_true: "bit mtbdd_true n \<longleftrightarrow> n = 63" and bit_false: "\<not> bit mtbdd_false n"
  unfolding mtbdd_true_def mtbdd_false_def bit_key_masks by simp_all

lemma INDEX_eqI: "(\<And>n. n < 40 \<Longrightarrow> bit x n = bit y n) \<Longrightarrow> MTBDD_INDEX x = MTBDD_INDEX y"
  unfolding INDEX_take by (rule arg_cong [where f = unat], rule bit_word_eqI) (auto simp: bit_take_bit_iff)

lemma INDEX_less [dd_simps]: "MTBDD_INDEX x < 2 ^ 40"
  unfolding INDEX_take unat_take_bit by simp

lemma bit_xor_complement: "bit (x XOR mtbdd_complement) n \<longleftrightarrow> bit x n \<noteq> (n = 63)"
  unfolding bit_xor_iff bit_complement ..

lemma not_fields [dd_simps]:
  "MTBDD_INDEX (mtbdd_not x) = MTBDD_INDEX x" "MTBDD_HASMARK (mtbdd_not x) \<longleftrightarrow> \<not> MTBDD_HASMARK x"
  "dd_word (mtbdd_not x) \<longleftrightarrow> dd_word x" "mtbdd_not (mtbdd_not x) = x"
proof -
  show "MTBDD_INDEX (mtbdd_not x) = MTBDD_INDEX x"
    by (rule INDEX_eqI) (simp add: mtbdd_not_def bit_xor_complement)
  show "MTBDD_HASMARK (mtbdd_not x) \<longleftrightarrow> \<not> MTBDD_HASMARK x"
    by (simp add: HASMARK_bit mtbdd_not_def bit_xor_complement)
  show "dd_word (mtbdd_not x) \<longleftrightarrow> dd_word x"
    by (auto simp: dd_word_bits mtbdd_not_def bit_xor_complement)
  show "mtbdd_not (mtbdd_not x) = x" by (rule bit_word_eqI) (auto simp: mtbdd_not_def bit_xor_complement)
qed

lemma toggle_not [dd_simps]: "MTBDD_TOGGLEMARK x = mtbdd_not x"
  and comp_not [dd_simps]: "mtbdd_comp x = mtbdd_not x"
  by (simp_all add: MTBDD_TOGGLEMARK_def mtbdd_not_def mtbdd_comp_def)

lemma transfer_not [dd_simps]: "MTBDD_TRANSFERMARK x y = (if MTBDD_HASMARK x then mtbdd_not y else y)"
proof (rule bit_word_eqI)
  fix n
  show "bit (MTBDD_TRANSFERMARK x y) n \<longleftrightarrow> bit (if MTBDD_HASMARK x then mtbdd_not y else y) n"
    by (auto simp: MTBDD_TRANSFERMARK_def bit_xor_iff bit_and_iff bit_complement HASMARK_bit mtbdd_not_def)
qed

lemma strip_fields [dd_simps]:
  "MTBDD_INDEX (MTBDD_STRIPMARK x) = MTBDD_INDEX x" "\<not> MTBDD_HASMARK (MTBDD_STRIPMARK x)"
  "dd_word x \<Longrightarrow> dd_word (MTBDD_STRIPMARK x)"
proof -
  have b: "bit (MTBDD_STRIPMARK x) n \<longleftrightarrow> bit x n \<and> n \<noteq> 63" for n
    unfolding MTBDD_STRIPMARK_def bit_and_iff bit_not_iff bit_complement
    by (auto simp: possible_bit_word dest: bit_u64_less)
  show "MTBDD_INDEX (MTBDD_STRIPMARK x) = MTBDD_INDEX x" by (rule INDEX_eqI) (simp add: b)
  show "\<not> MTBDD_HASMARK (MTBDD_STRIPMARK x)" by (simp add: HASMARK_bit b)
  show "dd_word x \<Longrightarrow> dd_word (MTBDD_STRIPMARK x)" by (simp add: dd_word_bits b)
qed

lemma dd_eq_iff: "dd_word x \<Longrightarrow> dd_word y \<Longrightarrow> x = y \<longleftrightarrow> MTBDD_INDEX x = MTBDD_INDEX y \<and> MTBDD_HASMARK x = MTBDD_HASMARK y"
proof
  assume d: "dd_word x" "dd_word y" and e: "MTBDD_INDEX x = MTBDD_INDEX y \<and> MTBDD_HASMARK x = MTBDD_HASMARK y"
  from e have t: "take_bit 40 x = take_bit 40 y" by (auto simp: INDEX_take intro: unsigned_word_eqI)
  show "x = y"
  proof (rule bit_word_eqI)
    fix n
    have "bit (take_bit 40 x) n = bit (take_bit 40 y) n" using t by simp
    then show "bit x n = bit y n"
      using e dd_word_range [OF d(1), of n] dd_word_range [OF d(2), of n]
      by (auto simp: bit_take_bit_iff HASMARK_bit)
  qed
qed simp

lemma const_fields [dd_simps]:
  "MTBDD_INDEX mtbdd_false = 0" "MTBDD_INDEX mtbdd_true = 0"
  "\<not> MTBDD_HASMARK mtbdd_false" "MTBDD_HASMARK mtbdd_true" "dd_word mtbdd_false" "dd_word mtbdd_true"
proof -
  show "MTBDD_INDEX mtbdd_false = 0" by (simp add: INDEX_take mtbdd_false_def)
  have "MTBDD_INDEX mtbdd_true = MTBDD_INDEX mtbdd_false"
    by (rule INDEX_eqI) (simp add: bit_true bit_false)
  then show "MTBDD_INDEX mtbdd_true = 0" by (simp add: INDEX_take mtbdd_false_def)
qed (simp_all add: HASMARK_bit bit_true bit_false dd_word_bits)

lemma not_const [dd_simps]: "mtbdd_not mtbdd_false = mtbdd_true" "mtbdd_not mtbdd_true = mtbdd_false"
  by (simp_all add: dd_eq_iff dd_simps)

lemma true_neq_false [dd_simps]: "mtbdd_true \<noteq> mtbdd_false" "mtbdd_false \<noteq> mtbdd_true"
  by (simp_all add: mtbdd_true_def mtbdd_false_def)

lemma not_inj [dd_simps]: "mtbdd_not x = mtbdd_not y \<longleftrightarrow> x = y"
  by (metis not_fields(4))

lemma const_iff: "dd_word x \<Longrightarrow> x = mtbdd_true \<or> x = mtbdd_false \<longleftrightarrow> MTBDD_INDEX x = 0"
  by (auto simp: dd_eq_iff dd_simps)

lemma bit_of_nat_small: "d < 2 ^ 40 \<Longrightarrow> bit (of_nat d :: u64) n \<Longrightarrow> n < 40"
  by (rule bit_small)

lemma index_fields [dd_simps]:
  assumes "d < 2 ^ 40"
  shows "MTBDD_INDEX (of_nat d) = d" "\<not> MTBDD_HASMARK (of_nat d)" "dd_word (of_nat d)"
    "of_nat d OR mtbdd_complement = mtbdd_not (of_nat d)"
proof -
  have b: "bit (of_nat d :: u64) n \<Longrightarrow> n < 40" for n using assms by (rule bit_of_nat_small)
  show "MTBDD_INDEX (of_nat d) = d"
    using assms by (simp add: INDEX_take unat_take_bit unat_of_nat_64)
  show "\<not> MTBDD_HASMARK (of_nat d)" "dd_word (of_nat d)"
    using b by (fastforce simp: HASMARK_bit dd_word_bits)+
  show "of_nat d OR mtbdd_complement = mtbdd_not (of_nat d)"
  proof (rule bit_word_eqI)
    fix n show "bit (of_nat d OR mtbdd_complement) n \<longleftrightarrow> bit (mtbdd_not (of_nat d)) n"
      using b [of n] by (auto simp: bit_or_iff bit_complement mtbdd_not_def bit_xor_iff)
  qed
qed

lemma EQUALM_iff: "dd_word a \<Longrightarrow> dd_word b \<Longrightarrow> MTBDD_EQUALM a b \<longleftrightarrow> MTBDD_INDEX a = MTBDD_INDEX b"
proof -
  assume d: "dd_word a" "dd_word b"
  have "MTBDD_EQUALM a b \<longleftrightarrow> (\<forall>n. n \<noteq> 63 \<longrightarrow> bit a n = bit b n)"
    unfolding MTBDD_EQUALM_def word_and_zero_iff bit_not_iff bit_complement bit_xor_iff
    by (auto simp: possible_bit_word dest: bit_u64_less)
  also have "\<dots> \<longleftrightarrow> take_bit 40 a = take_bit 40 b"
  proof
    assume "\<forall>n. n \<noteq> 63 \<longrightarrow> bit a n = bit b n"
    then show "take_bit 40 a = take_bit 40 b" by (intro bit_word_eqI) (auto simp: bit_take_bit_iff)
  next
    assume t: "take_bit 40 a = take_bit 40 b"
    show "\<forall>n. n \<noteq> 63 \<longrightarrow> bit a n = bit b n"
    proof (intro allI impI)
      fix n :: nat assume "n \<noteq> 63"
      moreover have "bit (take_bit 40 a) n = bit (take_bit 40 b) n" using t by simp
      ultimately show "bit a n = bit b n"
        using dd_word_range [OF d(1), of n] dd_word_range [OF d(2), of n] by (auto simp: bit_take_bit_iff)
    qed
  qed
  also have "\<dots> \<longleftrightarrow> MTBDD_INDEX a = MTBDD_INDEX b"
    by (auto simp: INDEX_take intro: unsigned_word_eqI)
  finally show ?thesis .
qed

section \<open>Buckets that were just made\<close>

lemma low_high_fields [dd_simps]:
  "dd_word (mtbddnode_getlow n)" "\<not> MTBDD_HASMARK (mtbddnode_getlow n)" "dd_word (mtbddnode_gethigh n)"
  unfolding dd_word_bits HASMARK_bit mtbddnode_getlow_def mtbddnode_gethigh_def bit_and_iff bit_key_masks
  by auto

lemma bit_makenode_b:
  assumes "dd_word low" "\<not> MTBDD_HASMARK low" "unat var < 2 ^ 24"
  shows "bit (push_bit 40 (ucast (var :: u32)) OR low) n \<longleftrightarrow> (if n < 40 then bit low n else n < 64 \<and> bit var (n - 40))"
  unfolding bit_or_iff bit_push_bit_iff bit_ucast_iff possible_bit_word
  using dd_word_range [OF assms(1), of n] assms(2) by (auto simp: HASMARK_bit)

lemma var_bits: "unat (var :: u32) < 2 ^ 24 \<Longrightarrow> bit var n \<Longrightarrow> n < 24"
  by (metis bit_take_bit_iff take_bit_nat_eq_self unsigned_take_bit_eq word_unat_eq_iff bit_unsigned_iff)

lemma makenode_fields:
  assumes "dd_word low" "\<not> MTBDD_HASMARK low" "dd_word high" "unat var < 2 ^ 24"
  shows "mtbddnode_getlow (mtbddnode_makenode var low high) = low"
    "mtbddnode_gethigh (mtbddnode_makenode var low high) = high"
    "mtbddnode_getvariable (mtbddnode_makenode var low high) = var"
    "\<not> mtbddnode_isleaf (mtbddnode_makenode var low high)"
    "\<not> mtbddnode_ismapnode (mtbddnode_makenode var low high)"
proof -
  note b = bit_makenode_b [OF assms(1,2,4)]
  show "mtbddnode_getlow (mtbddnode_makenode var low high) = low"
    by (rule bit_word_eqI, unfold mtbddnode_getlow_def mtbddnode_makenode_def snd_conv bit_and_iff b bit_key_masks)
      (use dd_word_range [OF assms(1)] assms(2) in \<open>auto simp: HASMARK_bit\<close>)
  show "mtbddnode_gethigh (mtbddnode_makenode var low high) = high"
    by (rule bit_word_eqI, unfold mtbddnode_gethigh_def mtbddnode_makenode_def fst_conv bit_and_iff bit_key_masks)
      (use dd_word_range [OF assms(3)] in auto)
  show "mtbddnode_getvariable (mtbddnode_makenode var low high) = var"
    by (rule bit_word_eqI, unfold mtbddnode_getvariable_def mtbddnode_makenode_def snd_conv bit_ucast_iff bit_drop_bit_eq o_def b)
      (use var_bits [OF assms(4)] in \<open>auto simp: possible_bit_word\<close>)
  show "\<not> mtbddnode_isleaf (mtbddnode_makenode var low high)" "\<not> mtbddnode_ismapnode (mtbddnode_makenode var low high)"
    unfolding mtbddnode_isleaf_def mtbddnode_ismapnode_def mtbddnode_makenode_def fst_conv word_and_zero_iff bit_key_masks
    using dd_word_range [OF assms(3), of 62] dd_word_range [OF assms(3), of 60] by auto
qed

lemma makenode_not_blank:
  assumes "dd_word low" "\<not> MTBDD_HASMARK low" "dd_word high" "unat var < 2 ^ 24" "low \<noteq> high"
  shows "mtbddnode_makenode var low high \<noteq> (0, 0)"
proof
  assume "mtbddnode_makenode var low high = (0, 0)"
  with makenode_fields(1,2) [OF assms(1-4)] have "low = 0" "high = 0"
    by (simp_all add: mtbddnode_getlow_def mtbddnode_gethigh_def)
  with assms(5) show False by simp
qed

lemma makemapnode_fields:
  assumes "dd_word low" "\<not> MTBDD_HASMARK low" "dd_word high" "unat var < 2 ^ 24"
  shows "mtbddnode_getlow (mtbddnode_makemapnode var low high) = low"
    "mtbddnode_gethigh (mtbddnode_makemapnode var low high) = high"
    "mtbddnode_getvariable (mtbddnode_makemapnode var low high) = var"
    "\<not> mtbddnode_isleaf (mtbddnode_makemapnode var low high)"
    "mtbddnode_ismapnode (mtbddnode_makemapnode var low high)"
    "mtbddnode_makemapnode var low high \<noteq> (0, 0)"
proof -
  have s: "snd (mtbddnode_makemapnode var low high) = snd (mtbddnode_makenode var low high)"
    by (simp add: mtbddnode_makemapnode_def mtbddnode_makenode_def)
  show "mtbddnode_getlow (mtbddnode_makemapnode var low high) = low"
    "mtbddnode_getvariable (mtbddnode_makemapnode var low high) = var"
    using makenode_fields(1,3) [OF assms]
    by (simp_all add: mtbddnode_getlow_def mtbddnode_getvariable_def s)
  note bits = dd_word_range [OF assms(3)]
  show "mtbddnode_gethigh (mtbddnode_makemapnode var low high) = high"
    by (rule bit_word_eqI, unfold mtbddnode_gethigh_def mtbddnode_makemapnode_def fst_conv bit_and_iff bit_or_iff bit_key_masks)
      (use bits in auto)
  show "\<not> mtbddnode_isleaf (mtbddnode_makemapnode var low high)"
    unfolding mtbddnode_isleaf_def mtbddnode_makemapnode_def fst_conv word_and_zero_iff bit_or_iff bit_key_masks
    using bits [of 62] by auto
  show m: "mtbddnode_ismapnode (mtbddnode_makemapnode var low high)"
    unfolding mtbddnode_ismapnode_def mtbddnode_makemapnode_def fst_conv word_and_zero_iff bit_or_iff bit_key_masks
    by auto
  then show "mtbddnode_makemapnode var low high \<noteq> (0, 0)" by (auto simp: mtbddnode_ismapnode_def)
qed

lemma makeleaf_fields:
  "mtbddnode_gettype (mtbddnode_makeleaf t v) = t" "mtbddnode_getvalue (mtbddnode_makeleaf t v) = v"
  "mtbddnode_isleaf (mtbddnode_makeleaf t v)" "mtbddnode_makeleaf t v \<noteq> (0, 0)"
proof -
  have b: "bit (0x4000000000000000 OR ucast t :: u64) n \<longleftrightarrow> n = 62 \<or> n < 32 \<and> bit t n" for n
    unfolding bit_or_iff bit_key_masks bit_ucast_iff possible_bit_word
    using bit_imp_le_length [of t n] by auto
  show "mtbddnode_gettype (mtbddnode_makeleaf t v) = t"
    by (rule bit_word_eqI, unfold mtbddnode_gettype_def mtbddnode_makeleaf_def fst_conv bit_ucast_iff bit_and_iff b bit_key_masks)
      (auto simp: possible_bit_word)
  show "mtbddnode_getvalue (mtbddnode_makeleaf t v) = v"
    by (simp add: mtbddnode_getvalue_def mtbddnode_makeleaf_def)
  show l: "mtbddnode_isleaf (mtbddnode_makeleaf t v)"
    unfolding mtbddnode_isleaf_def mtbddnode_makeleaf_def fst_conv word_and_zero_iff b bit_key_masks by auto
  then show "mtbddnode_makeleaf t v \<noteq> (0, 0)" by (auto simp: mtbddnode_isleaf_def)
qed

end
