(* ===== verification/SylvanMt.thy ===== *)
theory SylvanMt
  imports MtbddNode
begin

text \<open>
  The registry of custom leaf types of \<open>sylvan_mt.c\<close>. A callback is \<open>None\<close> when it is
  \<open>NULL\<close>. The first three types (integers, doubles, fractions) are taken. The unique table
  calls back into the registry through the four functions with an underscore; a leaf node
  that is in the table has a registered type, because \<open>sylvan_mt_has_custom_hash\<close> asserts
  it before the leaf is entered, so the lookup of the type in these functions is total.
\<close>

record customleaf =
  cl_hash_cb :: "(u64 \<Rightarrow> u64 \<Rightarrow> u64) option"
  cl_equals_cb :: "(u64 \<Rightarrow> u64 \<Rightarrow> bool) option"
  cl_create_cb :: "(u64 \<Rightarrow> u64) option"
  cl_destroy_cb :: bool

record cl_registry =
  cl_table :: "nat \<Rightarrow> customleaf"
  cl_registry_count :: nat
  cl_registry_size :: nat

definition blank_leaf :: customleaf where
  "blank_leaf = \<lparr>cl_hash_cb = None, cl_equals_cb = None, cl_create_cb = None, cl_destroy_cb = False\<rparr>"

definition sylvan_mt_from_node :: "cl_registry \<Rightarrow> u64 \<Rightarrow> u64 \<Rightarrow> customleaf" where
  "sylvan_mt_from_node reg a b = cl_table reg (unat (a AND 0xffffffff))"

definition sylvan_create_cb :: "cl_registry \<Rightarrow> u64 \<Rightarrow> u64 \<Rightarrow> u64 \<times> u64" where
  "sylvan_create_cb reg a b =
    (case cl_create_cb (sylvan_mt_from_node reg a b) of Some f \<Rightarrow> (a, f b) | None \<Rightarrow> (a, b))"

definition sylvan_hash_cb :: "cl_registry \<Rightarrow> (nat \<Rightarrow> u64) \<Rightarrow> u64 \<Rightarrow> u64 \<Rightarrow> u64 \<Rightarrow> u64" where
  "sylvan_hash_cb reg tab a b seed =
    (case cl_hash_cb (sylvan_mt_from_node reg a b) of
       Some h \<Rightarrow> h b (seed XOR a) | None \<Rightarrow> sylvan_tabhash16 tab a b seed)"

definition sylvan_equals_cb :: "cl_registry \<Rightarrow> u64 \<Rightarrow> u64 \<Rightarrow> u64 \<Rightarrow> u64 \<Rightarrow> bool" where
  "sylvan_equals_cb reg a b aa bb =
    (if a \<noteq> aa then False
     else (case cl_equals_cb (sylvan_mt_from_node reg a b) of
             Some eq \<Rightarrow> eq b bb | None \<Rightarrow> if b = bb then True else False))"

definition sylvan_mt_create_type :: "cl_registry \<Rightarrow> u32 \<times> cl_registry" where
  "sylvan_mt_create_type reg =
    (let reg = (if cl_registry_count reg = cl_registry_size reg then
           reg\<lparr>cl_registry_size := cl_registry_size reg + 8,
               cl_table := (\<lambda>i. if cl_registry_count reg \<le> i \<and> i < cl_registry_size reg + 8
                              then blank_leaf else cl_table reg i)\<rparr>
         else reg)
     in (of_nat (cl_registry_count reg), reg\<lparr>cl_registry_count := cl_registry_count reg + 1\<rparr>))"

definition sylvan_mt_set_hash :: "cl_registry \<Rightarrow> u32 \<Rightarrow> (u64 \<Rightarrow> u64 \<Rightarrow> u64) option \<Rightarrow> cl_registry" where
  "sylvan_mt_set_hash reg type h =
    reg\<lparr>cl_table := (cl_table reg)(unat type := (cl_table reg (unat type))\<lparr>cl_hash_cb := h\<rparr>)\<rparr>"

definition sylvan_mt_set_equals :: "cl_registry \<Rightarrow> u32 \<Rightarrow> (u64 \<Rightarrow> u64 \<Rightarrow> bool) option \<Rightarrow> cl_registry" where
  "sylvan_mt_set_equals reg type eq =
    reg\<lparr>cl_table := (cl_table reg)(unat type := (cl_table reg (unat type))\<lparr>cl_equals_cb := eq\<rparr>)\<rparr>"

definition sylvan_mt_set_create :: "cl_registry \<Rightarrow> u32 \<Rightarrow> (u64 \<Rightarrow> u64) option \<Rightarrow> cl_registry" where
  "sylvan_mt_set_create reg type cr =
    reg\<lparr>cl_table := (cl_table reg)(unat type := (cl_table reg (unat type))\<lparr>cl_create_cb := cr\<rparr>)\<rparr>"

definition sylvan_mt_set_destroy :: "cl_registry \<Rightarrow> u32 \<Rightarrow> bool \<Rightarrow> cl_registry" where
  "sylvan_mt_set_destroy reg type d =
    reg\<lparr>cl_table := (cl_table reg)(unat type := (cl_table reg (unat type))\<lparr>cl_destroy_cb := d\<rparr>)\<rparr>"

definition sylvan_mt_has_custom_hash :: "cl_registry \<Rightarrow> u32 \<Rightarrow> serror + bool" where
  "sylvan_mt_has_custom_hash reg type =
    (if unat type < cl_registry_count reg
     then Inr (case cl_hash_cb (cl_table reg (unat type)) of Some _ \<Rightarrow> True | None \<Rightarrow> False)
     else Inl AssertFail)"

definition sylvan_mt_hash :: "cl_registry \<Rightarrow> (nat \<Rightarrow> u64) \<Rightarrow> u32 \<Rightarrow> u64 \<Rightarrow> u64 \<Rightarrow> serror + u64" where
  "sylvan_mt_hash reg tab type value' seed =
    (if unat type < cl_registry_count reg
     then Inr (case cl_hash_cb (cl_table reg (unat type)) of
            Some h \<Rightarrow> h value' seed | None \<Rightarrow> sylvan_tabhash16 tab (ucast type) value' seed)
     else Inl AssertFail)"

text \<open>
  \<open>sylvan_init_mt\<close>: install the callbacks in the table and start the registry, unless there is
  one already (\<open>mt_initialized\<close> is that the argument is not \<open>None\<close>). The
  callbacks read the registry when they run; \<open>install_callbacks\<close> brings the copies that
  the table holds up to date, and the constructor of leaves calls it first.
\<close>

definition install_callbacks :: "cl_registry \<Rightarrow> llmsset \<Rightarrow> llmsset" where
  "install_callbacks reg dbs =
    llmsset_set_custom dbs (Some (sylvan_hash_cb reg (tabhash_table dbs))) (Some (sylvan_equals_cb reg))
      (Some (sylvan_create_cb reg)) True"

definition sylvan_init_mt :: "cl_registry option \<Rightarrow> llmsset \<Rightarrow> cl_registry \<times> llmsset" where
  "sylvan_init_mt mt dbs =
    (case mt of Some reg \<Rightarrow> (reg, dbs)
     | None \<Rightarrow>
        let reg = \<lparr>cl_table = (\<lambda>_. blank_leaf), cl_registry_count = 3, cl_registry_size = 8\<rparr>
        in (reg, install_callbacks reg dbs))"

end
