(* ===== verification/OpCache.thy ===== *)
theory OpCache
  imports Prelude
begin

text \<open>
  The operation cache of \<open>sylvan_cache.c\<close> and \<open>sylvan_cache.h\<close>: a direct-mapped, lossy
  table from triples of words to a word, with a status word per bucket (a lock bit, part of
  the hash, a counter of writes). Two neighbouring buckets can be used as one for six-word
  keys. The model is the execution of one worker, so the compare-and-swap on the status
  word sees the value just read, and the second read of the status word returns the first.
\<close>

section \<open>State\<close>

record cache_entry =
  ce_a :: u64
  ce_b :: u64
  ce_c :: u64
  ce_res :: u64

record opcache =
  cache_table :: "nat \<Rightarrow> cache_entry"
  cache_status :: "nat \<Rightarrow> u32"
  cache_size :: nat
  cache_max :: nat
  cache_mask :: u64
  next_opid :: u64

definition blank_entry :: cache_entry where
  "blank_entry = \<lparr>ce_a = 0, ce_b = 0, ce_c = 0, ce_res = 0\<rparr>"

definition cache_next_opid :: "opcache \<Rightarrow> u64 \<times> opcache" where
  "cache_next_opid cs = (next_opid cs, cs\<lparr>next_opid := next_opid cs + push_bit 40 1\<rparr>)"

section \<open>Hashes\<close>

definition cache_prime :: u64 where "cache_prime = 1099511628211"

definition cache_hash :: "u64 \<Rightarrow> u64 \<Rightarrow> u64 \<Rightarrow> u64" where
  "cache_hash a b c =
    (let hash = 14695981039346656037;
         hash = hash XOR drop_bit 32 a;
         hash = (hash XOR a) * cache_prime;
         hash = (hash XOR b) * cache_prime;
         hash = (hash XOR c) * cache_prime
     in hash)"

definition cache_hash6 :: "u64 \<Rightarrow> u64 \<Rightarrow> u64 \<Rightarrow> u64 \<Rightarrow> u64 \<Rightarrow> u64 \<Rightarrow> u64" where
  "cache_hash6 a b c d e f =
    (let hash = 14695981039346656037;
         hash = hash XOR drop_bit 32 a;
         hash = (hash XOR a) * cache_prime;
         hash = (hash XOR b) * cache_prime;
         hash = (hash XOR c) * cache_prime;
         hash = (hash XOR d) * cache_prime;
         hash = (hash XOR e) * cache_prime;
         hash = (hash XOR f) * cache_prime
     in hash)"

section \<open>Six-word keys\<close>

text \<open>
  The pair of status words of buckets \<open>2 i\<close> and \<open>2 i + 1\<close>, read as one 64-bit word
  (the first one is the low half), and written back.
\<close>

definition status_pair :: "opcache \<Rightarrow> nat \<Rightarrow> u64" where
  "status_pair cs i = ucast (cache_status cs (2 * i)) OR push_bit 32 (ucast (cache_status cs (2 * i + 1)))"

definition write_status_pair :: "opcache \<Rightarrow> nat \<Rightarrow> u64 \<Rightarrow> opcache" where
  "write_status_pair cs i s =
    cs\<lparr>cache_status := (cache_status cs)(2 * i := ucast s, 2 * i + 1 := ucast (drop_bit 32 s))\<rparr>"

definition status6 :: "u64 \<Rightarrow> u64" where
  "status6 hash = (let x = (drop_bit 32 hash AND 0x7fff0000) OR 0x04000000 in x OR push_bit 32 x)"

definition cache_get6 :: "opcache \<Rightarrow> u64 \<Rightarrow> u64 \<Rightarrow> u64 \<Rightarrow> u64 \<Rightarrow> u64 \<Rightarrow> u64 \<Rightarrow> (u64 \<times> u64) option" where
  "cache_get6 cs a b c d e f =
    (let hash = cache_hash6 a b c d e f;
         i = unat (hash AND cache_mask cs) div 2;
         lo = cache_table cs (2 * i);
         hi = cache_table cs (2 * i + 1);
         s = status_pair cs i
     in if s AND 0xffff0000ffff0000 \<noteq> status6 hash then None
        else if ce_a lo \<noteq> a \<or> ce_b lo \<noteq> b \<or> ce_c lo \<noteq> c then None
        else if ce_a hi \<noteq> d \<or> ce_b hi \<noteq> e \<or> ce_c hi \<noteq> f then None
        else Some (ce_res lo, ce_res hi))"

definition cache_put6 :: "opcache \<Rightarrow> u64 \<Rightarrow> u64 \<Rightarrow> u64 \<Rightarrow> u64 \<Rightarrow> u64 \<Rightarrow> u64 \<Rightarrow> u64 \<Rightarrow> u64 \<Rightarrow> bool \<times> opcache" where
  "cache_put6 cs a b c d e f res1 res2 =
    (let hash = cache_hash6 a b c d e f;
         i = unat (hash AND cache_mask cs) div 2;
         s = status_pair cs i
     in if s AND 0x8000000080000000 \<noteq> 0 then (False, cs)
        else
          let new_s = status6 hash;
              new_s = new_s OR push_bit 32 ((drop_bit 32 s + 1) AND 0xffff);
              new_s = new_s OR ((s + 1) AND 0xffff);
              cs = cs\<lparr>cache_table := (cache_table cs)(
                     2 * i := \<lparr>ce_a = a, ce_b = b, ce_c = c, ce_res = res1\<rparr>,
                     2 * i + 1 := \<lparr>ce_a = d, ce_b = e, ce_c = f, ce_res = res2\<rparr>)\<rparr>
          in (True, write_status_pair cs i new_s))"

section \<open>Three-word keys\<close>

definition cache_get :: "opcache \<Rightarrow> u64 \<Rightarrow> u64 \<Rightarrow> u64 \<Rightarrow> u64 option" where
  "cache_get cs a b c =
    (let hash = cache_hash a b c;
         i = unat (hash AND cache_mask cs);
         bucket = cache_table cs i;
         s = cache_status cs i
     in if s AND 0xc0000000 \<noteq> 0 then None
        else if (ucast s XOR drop_bit 32 hash) AND 0x3fff0000 \<noteq> 0 then None
        else if ce_a bucket \<noteq> a \<or> ce_b bucket \<noteq> b \<or> ce_c bucket \<noteq> c then None
        else Some (ce_res bucket))"

definition cache_put :: "opcache \<Rightarrow> u64 \<Rightarrow> u64 \<Rightarrow> u64 \<Rightarrow> u64 \<Rightarrow> bool \<times> opcache" where
  "cache_put cs a b c res =
    (let hash = cache_hash a b c;
         i = unat (hash AND cache_mask cs);
         s = cache_status cs i
     in if s AND 0x80000000 \<noteq> 0 then (False, cs)
        else
          let hash_mask = ucast (drop_bit 32 hash AND 0x3fff0000);
              new_s = ((s + 1) AND 0x0000ffff) OR hash_mask
          in (True, cs\<lparr>cache_table := (cache_table cs)(i := \<lparr>ce_a = a, ce_b = b, ce_c = c, ce_res = res\<rparr>),
                       cache_status := (cache_status cs)(i := new_s)\<rparr>))"

section \<open>Keys of the operations\<close>

definition cache_get3 :: "opcache \<Rightarrow> u64 \<Rightarrow> u64 \<Rightarrow> u64 \<Rightarrow> u64 \<Rightarrow> u64 option" where
  "cache_get3 cs opid dd d2 d3 = cache_get cs (dd OR opid) d2 d3"

definition cache_put3 :: "opcache \<Rightarrow> u64 \<Rightarrow> u64 \<Rightarrow> u64 \<Rightarrow> u64 \<Rightarrow> u64 \<Rightarrow> bool \<times> opcache" where
  "cache_put3 cs opid dd d2 d3 res = cache_put cs (dd OR opid) d2 d3 res"

definition pack_p2 :: "u64 \<Rightarrow> u64 \<Rightarrow> u64" where
  "pack_p2 dd2 dd4 =
    (let p2 = dd2 OR push_bit 40 (dd4 AND 0x00000000000fffff)
     in if dd4 AND 0x8000000000000000 \<noteq> 0 then p2 OR 0x4000000000000000 else p2)"

definition pack_p3 :: "u64 \<Rightarrow> u64 \<Rightarrow> u64" where
  "pack_p3 dd3 dd4 = dd3 OR push_bit 20 (dd4 AND 0x000000fffff00000)"

definition cache_get4 :: "opcache \<Rightarrow> u64 \<Rightarrow> u64 \<Rightarrow> u64 \<Rightarrow> u64 \<Rightarrow> u64 \<Rightarrow> u64 option" where
  "cache_get4 cs opid dd dd2 dd3 dd4 = cache_get3 cs opid dd (pack_p2 dd2 dd4) (pack_p3 dd3 dd4)"

definition cache_put4 :: "opcache \<Rightarrow> u64 \<Rightarrow> u64 \<Rightarrow> u64 \<Rightarrow> u64 \<Rightarrow> u64 \<Rightarrow> u64 \<Rightarrow> bool \<times> opcache" where
  "cache_put4 cs opid dd dd2 dd3 dd4 res =
    cache_put3 cs opid dd (pack_p2 dd2 dd4) (pack_p3 dd3 dd4) res"

text \<open>The numbers of the operations (\<open>sylvan_int.h\<close>).\<close>

definition CACHE_BDD_ITE :: u64 where "CACHE_BDD_ITE = push_bit 40 0"
definition CACHE_BDD_AND :: u64 where "CACHE_BDD_AND = push_bit 40 1"
definition CACHE_BDD_XOR :: u64 where "CACHE_BDD_XOR = push_bit 40 2"
definition CACHE_BDD_EXISTS :: u64 where "CACHE_BDD_EXISTS = push_bit 40 3"
definition CACHE_BDD_PROJECT :: u64 where "CACHE_BDD_PROJECT = push_bit 40 4"
definition CACHE_BDD_AND_EXISTS :: u64 where "CACHE_BDD_AND_EXISTS = push_bit 40 5"
definition CACHE_BDD_AND_PROJECT :: u64 where "CACHE_BDD_AND_PROJECT = push_bit 40 6"
definition CACHE_BDD_RELNEXT :: u64 where "CACHE_BDD_RELNEXT = push_bit 40 7"
definition CACHE_BDD_RELPREV :: u64 where "CACHE_BDD_RELPREV = push_bit 40 8"
definition CACHE_BDD_SATCOUNT :: u64 where "CACHE_BDD_SATCOUNT = push_bit 40 9"
definition CACHE_BDD_COMPOSE :: u64 where "CACHE_BDD_COMPOSE = push_bit 40 10"
definition CACHE_BDD_RESTRICT :: u64 where "CACHE_BDD_RESTRICT = push_bit 40 11"
definition CACHE_BDD_CONSTRAIN :: u64 where "CACHE_BDD_CONSTRAIN = push_bit 40 12"
definition CACHE_BDD_CLOSURE :: u64 where "CACHE_BDD_CLOSURE = push_bit 40 13"
definition CACHE_BDD_ISBDD :: u64 where "CACHE_BDD_ISBDD = push_bit 40 14"
definition CACHE_BDD_SUPPORT :: u64 where "CACHE_BDD_SUPPORT = push_bit 40 15"
definition CACHE_BDD_PATHCOUNT :: u64 where "CACHE_BDD_PATHCOUNT = push_bit 40 16"

lemmas op_defs = CACHE_BDD_ITE_def CACHE_BDD_AND_def CACHE_BDD_XOR_def CACHE_BDD_EXISTS_def
  CACHE_BDD_PROJECT_def CACHE_BDD_AND_EXISTS_def CACHE_BDD_AND_PROJECT_def CACHE_BDD_RELNEXT_def
  CACHE_BDD_RELPREV_def CACHE_BDD_SATCOUNT_def CACHE_BDD_COMPOSE_def CACHE_BDD_RESTRICT_def
  CACHE_BDD_CONSTRAIN_def CACHE_BDD_CLOSURE_def CACHE_BDD_ISBDD_def CACHE_BDD_SUPPORT_def
  CACHE_BDD_PATHCOUNT_def

section \<open>Management\<close>

text \<open>
  \<open>cache_create\<close> writes the sizes before it checks them; the process exits when a
  check fails. \<open>cache_free\<close> unmaps the arrays, and every caller in the cache creates
  them again at once.
\<close>

definition cache_create :: "nat \<Rightarrow> nat \<Rightarrow> serror + opcache" where
  "cache_create size' max' =
    (if popcountll (of_nat size') \<noteq> 1 \<or> popcountll (of_nat max') \<noteq> 1 then Inl BadSize
     else if size' > max' then Inl BadSize
     else Inr \<lparr>cache_table = (\<lambda>_. blank_entry), cache_status = (\<lambda>_. 0), cache_size = size',
               cache_max = max', cache_mask = of_nat size' - 1, next_opid = push_bit 40 512\<rparr>)"

definition cache_clear :: "opcache \<Rightarrow> serror + opcache" where
  "cache_clear cs = cache_create (cache_size cs) (cache_max cs)"

definition cache_setsize :: "opcache \<Rightarrow> nat \<Rightarrow> serror + opcache" where
  "cache_setsize cs n = cache_create n (cache_max cs)"

definition cache_getsize :: "opcache \<Rightarrow> nat" where
  "cache_getsize cs = cache_size cs"

definition cache_getmaxsize :: "opcache \<Rightarrow> nat" where
  "cache_getmaxsize cs = cache_max cs"

fun cache_used_loop :: "opcache \<Rightarrow> nat \<Rightarrow> nat \<Rightarrow> nat \<Rightarrow> nat" where
  "cache_used_loop cs 0 i result = result"
| "cache_used_loop cs (Suc n) i result =
    cache_used_loop cs n (Suc i) (if cache_status cs i \<noteq> 0 then result + 1 else result)"

definition cache_getused :: "opcache \<Rightarrow> nat" where
  "cache_getused cs = cache_used_loop cs (cache_size cs) 0 0"

section \<open>The contract of a lossy cache\<close>

text \<open>
  What the operations rely on: an answer is something that was put under the same key, a
  put does not change the answers for other keys except by forgetting them, and a fresh
  cache has no answers. \<open>good\<close> is the set of keys the operations use. A cache is sound for
  \<open>P\<close> when every answer for such a key satisfies \<open>P\<close>.
\<close>

definition answers_sound :: "('k \<Rightarrow> bool) \<Rightarrow> ('s \<Rightarrow> 'k \<Rightarrow> 'v option) \<Rightarrow> ('k \<Rightarrow> 'v \<Rightarrow> bool) \<Rightarrow> 's \<Rightarrow> bool" where
  "answers_sound good ask P s \<longleftrightarrow> (\<forall>k r. good k \<longrightarrow> ask s k = Some r \<longrightarrow> P k r)"

lemma answers_sound_mono:
  "answers_sound good ask P s \<Longrightarrow> (\<And>k r. good k \<Longrightarrow> P k r \<Longrightarrow> Q k r) \<Longrightarrow> answers_sound good ask Q s"
  by (auto simp: answers_sound_def)

locale lossy_cache =
  fixes inv :: "'s \<Rightarrow> bool"
    and good :: "'k \<Rightarrow> bool"
    and ask :: "'s \<Rightarrow> 'k \<Rightarrow> 'v option"
    and store :: "'s \<Rightarrow> 'k \<Rightarrow> 'v \<Rightarrow> 's"
    and fresh :: "'s \<Rightarrow> bool"
  assumes store_inv: "inv s \<Longrightarrow> inv (store s k v)"
    and find_store_same: "inv s \<Longrightarrow> ask (store s k v) k = Some v"
    and find_store_other: "inv s \<Longrightarrow> k' \<noteq> k \<Longrightarrow> ask (store s k v) k' = Some r \<Longrightarrow> ask s k' = Some r"
    and fresh_inv: "fresh s \<Longrightarrow> inv s"
    and fresh_empty: "fresh s \<Longrightarrow> good k \<Longrightarrow> ask s k = None"
begin

lemma sound_fresh: "fresh s \<Longrightarrow> answers_sound good ask P s"
  by (simp add: answers_sound_def fresh_empty)

lemma sound_store:
  "inv s \<Longrightarrow> answers_sound good ask P s \<Longrightarrow> (good k \<Longrightarrow> P k v) \<Longrightarrow> answers_sound good ask P (store s k v)"
  unfolding answers_sound_def by (metis find_store_other find_store_same option.inject)

text \<open>After any sequence of puts, an answer is the value of the last put under its key.\<close>

lemma find_after_stores:
  assumes "fresh s" "good k" "ask (fold (\<lambda>(k, v) s. store s k v) kvs s) k = Some r"
  shows "map_of (rev kvs) k = Some r"
  using assms(3)
proof (induction kvs rule: rev_induct)
  case Nil
  then show ?case using fresh_empty [OF assms(1,2)] by simp
next
  case (snoc kv kvs)
  obtain k' v where kv: "kv = (k', v)" by (cases kv)
  have "inv (fold (\<lambda>(k, v) s. store s k v) kvs s)"
    by (induction kvs rule: rev_induct) (auto simp: fresh_inv [OF assms(1)] store_inv split: prod.splits)
  then show ?case
    using snoc find_store_same find_store_other [of _ k k' v r] by (cases "k' = k") (auto simp: kv)
qed

end

section \<open>The cache keeps the contract\<close>

definition cache_unlocked :: "opcache \<Rightarrow> bool" where
  "cache_unlocked cs \<longleftrightarrow> (\<forall>i. cache_status cs i AND 0x80000000 = 0)"

definition cache_fresh :: "opcache \<Rightarrow> bool" where
  "cache_fresh cs \<longleftrightarrow> cache_table cs = (\<lambda>_. blank_entry) \<and> cache_status cs = (\<lambda>_. 0)"

definition find3 :: "opcache \<Rightarrow> u64 \<times> u64 \<times> u64 \<Rightarrow> u64 option" where
  "find3 cs k = cache_get cs (fst k) (fst (snd k)) (snd (snd k))"

definition store3 :: "opcache \<Rightarrow> u64 \<times> u64 \<times> u64 \<Rightarrow> u64 \<Rightarrow> opcache" where
  "store3 cs k r = snd (cache_put cs (fst k) (fst (snd k)) (snd (snd k)) r)"

definition good_key :: "u64 \<times> u64 \<times> u64 \<Rightarrow> bool" where
  "good_key k \<longleftrightarrow> fst k \<noteq> 0"

lemma mask_3fff0000: "(0x3fff0000 :: 'a::len word) = push_bit 16 (mask 14)"
  and mask_80000000: "(0x80000000 :: 'a::len word) = push_bit 31 (mask 1)"
  and mask_c0000000: "(0xc0000000 :: 'a::len word) = push_bit 30 (mask 2)"
  and mask_0000ffff: "(0x0000ffff :: 'a::len word) = mask 16"
  by (simp_all add: mask_eq_exp_minus_1 push_bit_eq_mult)

lemma bit_status_masks:
  "bit (0x3fff0000 :: 'a::len word) n \<longleftrightarrow> 16 \<le> n \<and> n < 30 \<and> n < LENGTH('a)"
  "bit (0x80000000 :: 'a::len word) n \<longleftrightarrow> n = 31 \<and> n < LENGTH('a)"
  "bit (0xc0000000 :: 'a::len word) n \<longleftrightarrow> (n = 30 \<or> n = 31) \<and> n < LENGTH('a)"
  "bit (0x0000ffff :: 'a::len word) n \<longleftrightarrow> n < 16 \<and> n < LENGTH('a)"
  unfolding mask_3fff0000 mask_80000000 mask_c0000000 mask_0000ffff bit_push_bit_iff bit_mask_iff possible_bit_word
  by auto

lemma bit_new_status:
  fixes hash :: u64 and s :: u32
  shows "bit (((s + 1) AND 0x0000ffff) OR ucast (drop_bit 32 hash AND 0x3fff0000)) n \<longleftrightarrow>
    (n < 16 \<and> bit (s + 1) n) \<or> (16 \<le> n \<and> n < 30 \<and> bit hash (32 + n))"
  unfolding bit_or_iff bit_and_iff bit_ucast_iff bit_drop_bit_eq bit_status_masks possible_bit_word
  by auto

lemma new_status_unlocked:
  fixes hash :: u64 and s :: u32
  defines "t \<equiv> ((s + 1) AND 0x0000ffff) OR ucast (drop_bit 32 hash AND 0x3fff0000)"
  shows "t AND 0x80000000 = 0" "t AND 0xc0000000 = 0"
    "(ucast t XOR drop_bit 32 hash) AND (0x3fff0000 :: u64) = 0"
proof -
  show "t AND 0x80000000 = 0" "t AND 0xc0000000 = 0"
    by (rule bit_word_eqI, unfold bit_and_iff t_def bit_new_status bit_status_masks, auto)+
  show "(ucast t XOR drop_bit 32 hash) AND (0x3fff0000 :: u64) = 0"
    by (rule bit_word_eqI)
      (unfold bit_and_iff bit_xor_iff bit_drop_bit_eq bit_ucast_iff t_def bit_new_status bit_status_masks o_def, auto)
qed

lemma cache_put_unlocked:
  assumes "cache_unlocked cs"
  defines "i \<equiv> \<lambda>a b c. unat (cache_hash a b c AND cache_mask cs)"
  shows "cache_put cs a b c r = (True, cs\<lparr>
     cache_table := (cache_table cs)(i a b c := \<lparr>ce_a = a, ce_b = b, ce_c = c, ce_res = r\<rparr>),
     cache_status := (cache_status cs)(i a b c := ((cache_status cs (i a b c) + 1) AND 0x0000ffff)
        OR ucast (drop_bit 32 (cache_hash a b c) AND 0x3fff0000))\<rparr>)"
  using assms(1) by (simp add: cache_put_def cache_unlocked_def i_def Let_def)

lemma cache_get_Some:
  "cache_get cs a b c = Some r \<longleftrightarrow>
    (let i = unat (cache_hash a b c AND cache_mask cs); s = cache_status cs i in
     s AND 0xc0000000 = 0 \<and> (ucast s XOR drop_bit 32 (cache_hash a b c)) AND 0x3fff0000 = 0 \<and>
     ce_a (cache_table cs i) = a \<and> ce_b (cache_table cs i) = b \<and> ce_c (cache_table cs i) = c \<and>
     ce_res (cache_table cs i) = r)"
  by (auto simp only: cache_get_def Let_def not_not de_Morgan_disj option.simps if_True if_False split: if_splits)

lemma find_store_other:
  assumes u: "cache_unlocked cs" and ne: "(a', b', c') \<noteq> (a, b, c)"
    and get: "cache_get (snd (cache_put cs a b c v)) a' b' c' = Some r"
  shows "cache_get cs a' b' c' = Some r"
proof (cases "unat (cache_hash a' b' c' AND cache_mask cs) = unat (cache_hash a b c AND cache_mask cs)")
  case True
  with get ne show ?thesis
    unfolding cache_put_unlocked [OF u] cache_get_Some Let_def by simp
next
  case False
  with get show ?thesis
    unfolding cache_put_unlocked [OF u] cache_get_Some Let_def by simp
qed

interpretation oc: lossy_cache cache_unlocked good_key find3 store3 cache_fresh
proof unfold_locales
  fix cs and k k' :: "u64 \<times> u64 \<times> u64" and v r
  obtain a b c where k: "k = (a, b, c)" by (cases k)
  obtain a' b' c' where k': "k' = (a', b', c')" by (cases k')
  { assume u: "cache_unlocked cs"
    show "cache_unlocked (store3 cs k v)"
      using u new_status_unlocked(1) unfolding store3_def k fst_conv snd_conv cache_put_unlocked [OF u]
      by (simp add: cache_unlocked_def)
    show "find3 (store3 cs k v) k = Some v"
      unfolding find3_def store3_def k fst_conv snd_conv cache_put_unlocked [OF u]
      by (simp add: cache_get_def Let_def new_status_unlocked(2,3))
    show "k' \<noteq> k \<Longrightarrow> find3 (store3 cs k v) k' = Some r \<Longrightarrow> find3 cs k' = Some r"
      using find_store_other [OF u] unfolding find3_def store3_def k k' fst_conv snd_conv by blast }
  { assume f: "cache_fresh cs"
    then show "cache_unlocked cs" by (simp add: cache_fresh_def cache_unlocked_def)
    show "good_key k \<Longrightarrow> find3 cs k = None"
      using f by (auto simp: find3_def k good_key_def cache_fresh_def cache_get_def blank_entry_def Let_def) }
qed

lemma cache_clear_fresh: "cache_clear cs = Inr cs' \<Longrightarrow> cache_fresh cs'"
  and cache_setsize_fresh: "cache_setsize cs n = Inr cs' \<Longrightarrow> cache_fresh cs'"
  and cache_create_fresh: "cache_create n m = Inr cs' \<Longrightarrow> cache_fresh cs'"
  by (auto simp: cache_clear_def cache_setsize_def cache_create_def cache_fresh_def split: if_splits)

section \<open>Keys of the operations are decodable\<close>

text \<open>The number of an operation lives in the bits that a decision diagram leaves clear.\<close>

definition op_word :: "u64 \<Rightarrow> bool" where
  "op_word x \<longleftrightarrow> x AND 0x800000ffffffffff = 0"

lemma op_word_bits: "op_word x \<longleftrightarrow> (\<forall>n. n < 40 \<or> n = 63 \<longrightarrow> \<not> bit x n)"
  unfolding op_word_def word_and_zero_iff bit_key_masks by blast

lemma bit_pack_p2:
  "dd_word dd2 \<Longrightarrow> bit (pack_p2 dd2 dd4) n \<longleftrightarrow>
    (if n < 40 then bit dd2 n else if n < 60 then bit dd4 (n - 40) else
     if n = 62 then bit dd4 63 else n = 63 \<and> bit dd2 63)"
  unfolding pack_p2_def Let_def top_bit_test if_distrib [where f = "\<lambda>x. bit x n"]
    bit_or_iff bit_push_bit_iff bit_and_iff bit_key_masks possible_bit_word
  using dd_word_range [of dd2 n] by auto

lemma bit_pack_p3:
  "dd_word dd3 \<Longrightarrow> bit (pack_p3 dd3 dd4) n \<longleftrightarrow>
    (if n < 40 then bit dd3 n else if n < 60 then bit dd4 (n - 20) else n = 63 \<and> bit dd3 63)"
  unfolding pack_p3_def bit_or_iff bit_push_bit_iff bit_and_iff bit_key_masks possible_bit_word
  using dd_word_range [of dd3 n] by auto

lemma op_words [simp]:
  "op_word CACHE_BDD_ITE" "op_word CACHE_BDD_AND" "op_word CACHE_BDD_XOR" "op_word CACHE_BDD_EXISTS"
  "op_word CACHE_BDD_PROJECT" "op_word CACHE_BDD_AND_EXISTS" "op_word CACHE_BDD_AND_PROJECT"
  "op_word CACHE_BDD_RELNEXT" "op_word CACHE_BDD_RELPREV" "op_word CACHE_BDD_SATCOUNT"
  "op_word CACHE_BDD_COMPOSE" "op_word CACHE_BDD_RESTRICT" "op_word CACHE_BDD_CONSTRAIN"
  "op_word CACHE_BDD_CLOSURE" "op_word CACHE_BDD_ISBDD" "op_word CACHE_BDD_SUPPORT"
  "op_word CACHE_BDD_PATHCOUNT"
  by (simp_all add: op_word_def op_defs push_bit_eq_mult)

lemma key_op_inj:
  assumes "dd_word d" "dd_word d'" "op_word p" "op_word p'" and e: "d OR p = d' OR p'"
  shows "d = d' \<and> p = p'"
proof -
  have b: "bit d n \<or> bit p n \<longleftrightarrow> bit d' n \<or> bit p' n" for n
    using arg_cong [OF e, of "\<lambda>x. bit x n"] by (simp only: bit_or_iff)
  have "bit d n = bit d' n \<and> bit p n = bit p' n" for n
    using b [of n] assms(1-4) unfolding dd_word_bits op_word_bits
    by (metis linorder_not_less bit_u64_less less_Suc_eq_le le_neq_implies_less numeral_eq_Suc pred_numeral_simps(3) dd_word_bits dd_word_range)
  then show ?thesis by (auto simp: bit_eq_iff)
qed

lemma key4_inj:
  assumes "dd_word d2" "dd_word d3" "dd_word d4" "dd_word d2'" "dd_word d3'" "dd_word d4'"
    and e2: "pack_p2 d2 d4 = pack_p2 d2' d4'" and e3: "pack_p3 d3 d4 = pack_p3 d3' d4'"
  shows "d2 = d2' \<and> d3 = d3' \<and> d4 = d4'"
proof -
  have b2: "bit (pack_p2 d2 d4) n = bit (pack_p2 d2' d4') n" and
    b3: "bit (pack_p3 d3 d4) n = bit (pack_p3 d3' d4') n" for n
    using e2 e3 by simp_all
  note b2 = b2 [unfolded bit_pack_p2 [OF assms(1)] bit_pack_p2 [OF assms(4)]]
  note b3 = b3 [unfolded bit_pack_p3 [OF assms(2)] bit_pack_p3 [OF assms(5)]]
  have "bit d2 n = bit d2' n" for n
  proof (cases "n < 40 \<or> n = 63")
    case True then show ?thesis using b2 [of n] by (auto split: if_splits)
  next
    case False then show ?thesis using dd_word_range assms by blast
  qed
  moreover have "bit d3 n = bit d3' n" for n
  proof (cases "n < 40 \<or> n = 63")
    case True then show ?thesis using b3 [of n] by (auto split: if_splits)
  next
    case False then show ?thesis using dd_word_range assms by blast
  qed
  moreover have "bit d4 n = bit d4' n" for n
  proof -
    consider "n < 20" | "20 \<le> n" "n < 40" | "n = 63" | "\<not> (n < 40 \<or> n = 63)" by linarith
    then show ?thesis
    proof cases
      case 1 then show ?thesis using b2 [of "n + 40"] by simp
    next
      case 2 then show ?thesis using b3 [of "n + 20"] by simp
    next
      case 3 then show ?thesis using b2 [of 62] by simp
    next
      case 4 then show ?thesis using dd_word_range assms by blast
    qed
  qed
  ultimately show ?thesis by (simp add: bit_eq_iff)
qed

end
