(* ===== verification/RefsTable.thy ===== *)
theory RefsTable
  imports SylvanHash
begin

text \<open>
  The external references of \<open>sylvan_refs.c\<close>: a hash table with linear probing (128
  attempts) and tombstones. The \<open>refs_\<close> functions keep a 40-bit key and a 23-bit count
  per bucket, the \<open>protect_\<close> functions keep 64-bit addresses, one bucket per call. The
  table doubles when a key finds no bucket and more than a quarter is in use; otherwise it
  is rebuilt at the same size, without its tombstones.

  The model is one worker: a compare-and-swap sees the value just read, the user counter
  in the low bits of \<open>refs_control\<close> is that of this worker alone, and a resize is carried
  out by the worker that starts it.
\<close>

section \<open>State\<close>

record refs_table =
  refs_arr :: "nat \<Rightarrow> u64"
  refs_size :: nat
  refs_control :: u32
  refs_resize_table :: "nat \<Rightarrow> u64"
  refs_resize_size :: nat
  refs_resize_part :: nat
  refs_resize_done :: nat

definition refs_ts :: u64 where "refs_ts = 0x7fffffffffffffff"

definition refs_key :: "u64 \<Rightarrow> u64" where "refs_key v = v AND 0x000000ffffffffff"

definition fnvhash8 :: "u64 \<Rightarrow> u64" where
  "fnvhash8 a = sylvan_fnvhash8 a 14695981039346656037"

definition next_bucket :: "nat \<Rightarrow> nat \<Rightarrow> nat" where
  "next_bucket size' b = (if Suc b = size' then 0 else Suc b)"

text \<open>\<open>refs_count\<close> and \<open>protect_count\<close>: buckets in use.\<close>

fun count_loop :: "(nat \<Rightarrow> u64) \<Rightarrow> nat \<Rightarrow> nat \<Rightarrow> nat \<Rightarrow> nat" where
  "count_loop arr 0 b count = count"
| "count_loop arr (Suc n) b count =
    count_loop arr n (Suc b) (if arr b \<noteq> 0 \<and> arr b \<noteq> refs_ts then count + 1 else count)"

definition refs_count :: "refs_table \<Rightarrow> nat" where
  "refs_count tbl = count_loop (refs_arr tbl) (refs_size tbl) 0 0"

definition protect_count :: "refs_table \<Rightarrow> nat" where
  "protect_count tbl = count_loop (refs_arr tbl) (refs_size tbl) 0 0"

section \<open>Rehashing and resizing\<close>

text \<open>
  The first empty bucket among the next \<open>n\<close>; \<open>None\<close> when there is none.
\<close>

fun probe_empty :: "nat \<Rightarrow> (nat \<Rightarrow> u64) \<Rightarrow> nat \<Rightarrow> nat \<Rightarrow> nat option" where
  "probe_empty 0 arr size' b = None"
| "probe_empty (Suc n) arr size' b =
    (if arr b = 0 then Some b else probe_empty n arr size' (next_bucket size' b))"

text \<open>A value for which the attempts run out is lost: the assertion there is commented out.\<close>

definition refs_rehash :: "refs_table \<Rightarrow> u64 \<Rightarrow> refs_table" where
  "refs_rehash tbl v =
    (if v = 0 then tbl
     else if v = refs_ts then tbl
     else (case probe_empty 128 (refs_arr tbl) (refs_size tbl)
                  (unat (fnvhash8 (refs_key v)) mod refs_size tbl) of
             None \<Rightarrow> tbl
           | Some b \<Rightarrow> tbl\<lparr>refs_arr := (refs_arr tbl)(b := v)\<rparr>))"

definition protect_rehash :: "refs_table \<Rightarrow> u64 \<Rightarrow> serror + refs_table" where
  "protect_rehash tbl v =
    (if v = 0 then Inr tbl
     else if v = refs_ts then Inr tbl
     else (case probe_empty 128 (refs_arr tbl) (refs_size tbl)
                  (unat (fnvhash8 v) mod refs_size tbl) of
             None \<Rightarrow> Inl AssertFail
           | Some b \<Rightarrow> Inr (tbl\<lparr>refs_arr := (refs_arr tbl)(b := v)\<rparr>)))"

text \<open>
  The two tables resize with the same code around their own rehash, which is the
  argument \<open>rh\<close>. One call of the helper rehashes one part of 128 buckets; it returns
  whether to call again.
\<close>

fun rehash_part :: "(refs_table \<Rightarrow> u64 \<Rightarrow> serror + refs_table) \<Rightarrow> nat \<Rightarrow> nat \<Rightarrow> refs_table \<Rightarrow> serror + refs_table" where
  "rehash_part rh 0 b tbl = Inr tbl"
| "rehash_part rh (Suc n) b tbl =
    bindE (rh tbl (refs_resize_table tbl b)) (rehash_part rh n (Suc b))"

definition resize_help :: "(refs_table \<Rightarrow> u64 \<Rightarrow> serror + refs_table) \<Rightarrow> refs_table \<Rightarrow> serror + (bool \<times> refs_table)" where
  "resize_help rh tbl =
    (if refs_control tbl AND 0xf0000000 = 0 then Inr (False, tbl)
     else if refs_control tbl AND 0x80000000 \<noteq> 0 then Inr (True, tbl)
     else if refs_resize_part tbl \<ge> refs_resize_size tbl div 128 then Inr (True, tbl)
     else
       let part = refs_resize_part tbl;
           tbl = tbl\<lparr>refs_resize_part := part + 1\<rparr>
       in if part \<ge> refs_resize_size tbl div 128 then Inr (True, tbl)
          else bindE (rehash_part rh 128 (part * 128) tbl) (\<lambda>tbl.
            Inr (True, tbl\<lparr>refs_resize_done := refs_resize_done tbl + 1\<rparr>)))"

fun resize_loop :: "(refs_table \<Rightarrow> u64 \<Rightarrow> serror + refs_table) \<Rightarrow> nat \<Rightarrow> refs_table \<Rightarrow> serror + refs_table" where
  "resize_loop rh 0 tbl = Inl OutOfFuel"
| "resize_loop rh (Suc fuel) tbl =
    (if refs_resize_done tbl \<noteq> refs_resize_size tbl div 128
     then bindE (resize_help rh tbl) (\<lambda>(_, tbl). resize_loop rh fuel tbl)
     else Inr tbl)"

text \<open>
  The wait for the users to leave does not end when the caller has not left itself
  (\<open>refs_control\<close> keeps its low bits); the callers leave first.
\<close>

definition resize_table :: "(refs_table \<Rightarrow> u64 \<Rightarrow> serror + refs_table) \<Rightarrow> refs_table \<Rightarrow> serror + refs_table" where
  "resize_table rh tbl =
    (if refs_control tbl AND 0xf0000000 \<noteq> 0 then Inl OutOfFuel
     else if 0x80000000 OR refs_control tbl \<noteq> 0x80000000 then Inl OutOfFuel
     else
       let tbl = tbl\<lparr>refs_control := 0x80000000\<rparr>;
           tbl = tbl\<lparr>refs_resize_table := refs_arr tbl, refs_resize_size := refs_size tbl,
                     refs_resize_part := 0, refs_resize_done := 0\<rparr>;
           count = refs_count tbl;
           new_size = (if count * 4 > refs_size tbl then refs_size tbl * 2 else refs_size tbl);
           tbl = tbl\<lparr>refs_arr := (\<lambda>_. 0), refs_size := new_size, refs_control := 0x40000000\<rparr>
       in bindE (resize_loop rh (Suc (refs_resize_size tbl div 128)) tbl) (\<lambda>tbl.
            Inr (tbl\<lparr>refs_control := 0\<rparr>)))"

definition refs_resize :: "refs_table \<Rightarrow> serror + refs_table" where
  "refs_resize tbl = resize_table (\<lambda>tbl v. Inr (refs_rehash tbl v)) tbl"

definition protect_resize :: "refs_table \<Rightarrow> serror + refs_table" where
  "protect_resize tbl = resize_table protect_rehash tbl"

section \<open>Reference counts\<close>

definition refs_enter :: "refs_table \<Rightarrow> refs_table" where
  "refs_enter tbl = tbl\<lparr>refs_control := refs_control tbl + 1\<rparr>"

definition refs_leave :: "refs_table \<Rightarrow> refs_table" where
  "refs_leave tbl = tbl\<lparr>refs_control := refs_control tbl - 1\<rparr>"

text \<open>
  The probe loop of \<open>refs_modify\<close>. It ends with a bucket to write and the new value
  (\<open>Write\<close>), with nothing to do (\<open>Exit\<close>), or with the table full (\<open>Full\<close>). The number
  is the result of the function. A count of \<open>0x7fffff\<close> is never changed again.
\<close>

datatype refs_act = Write nat u64 nat | Exit nat | Full

fun refs_probe :: "nat \<Rightarrow> (nat \<Rightarrow> u64) \<Rightarrow> nat \<Rightarrow> u64 \<Rightarrow> int \<Rightarrow> nat \<Rightarrow> nat option \<Rightarrow> refs_act" where
  "refs_probe 0 arr size' a dir bucket ts =
    (if dir < 0 then Exit 0
     else (case ts of Some t \<Rightarrow> Write t (a OR push_bit 40 1) 1 | None \<Rightarrow> Full))"
| "refs_probe (Suc i) arr size' a dir bucket ts =
    (let v = arr bucket
     in if v = refs_ts then
          refs_probe i arr size' a dir (next_bucket size' bucket) (if ts = None then Some bucket else ts)
        else if v = 0 then
          (if dir < 0 then Exit 0
           else Write (case ts of Some t \<Rightarrow> t | None \<Rightarrow> bucket) (a OR push_bit 40 1) 0)
        else if refs_key v = a then
          (let count = drop_bit 40 v
           in if count = 0x7fffff then Exit 1
              else let count = count + of_int dir
                   in if count = 0 then Write bucket refs_ts 1
                      else Write bucket (a OR push_bit 40 count) 1)
        else refs_probe i arr size' a dir (next_bucket size' bucket) ts)"

fun refs_modify :: "nat \<Rightarrow> refs_table \<Rightarrow> u64 \<Rightarrow> int \<Rightarrow> serror + (nat \<times> refs_table)" where
  "refs_modify 0 tbl a dir = Inl OutOfFuel"
| "refs_modify (Suc fuel) tbl a dir =
    (let tbl = refs_enter tbl in
     case refs_probe 128 (refs_arr tbl) (refs_size tbl) a dir
            (unat (fnvhash8 a AND (of_nat (refs_size tbl) - 1))) None of
       Write b v res \<Rightarrow> Inr (res, refs_leave (tbl\<lparr>refs_arr := (refs_arr tbl)(b := v)\<rparr>))
     | Exit res \<Rightarrow> Inr (res, refs_leave tbl)
     | Full \<Rightarrow> bindE (refs_resize (refs_leave tbl)) (\<lambda>tbl. refs_modify fuel tbl a dir))"

text \<open>
  Each resize that does not double the table removes its tombstones; \<open>refs_fuel\<close> bounds
  the number of resizes of one call.
\<close>

definition refs_fuel :: nat where "refs_fuel = 64"

definition refs_up :: "refs_table \<Rightarrow> u64 \<Rightarrow> serror + refs_table" where
  "refs_up tbl a = bindE (refs_modify refs_fuel tbl a 1) (\<lambda>(_, tbl). Inr tbl)"

text \<open>The assertion is that of a build without \<open>NDEBUG\<close>.\<close>

definition refs_down :: "refs_table \<Rightarrow> u64 \<Rightarrow> serror + refs_table" where
  "refs_down tbl a =
    bindE (refs_modify refs_fuel tbl a (-1)) (\<lambda>(res, tbl).
      if res \<noteq> 0 then Inr tbl else Inl AssertFail)"

section \<open>Iteration\<close>

text \<open>A bucket pointer is an index, \<open>None\<close> is \<open>NULL\<close>; the loops run from a bucket to \<open>end\<close>.\<close>

fun scan_used :: "nat \<Rightarrow> (nat \<Rightarrow> u64) \<Rightarrow> nat \<Rightarrow> nat option" where
  "scan_used 0 arr b = None"
| "scan_used (Suc n) arr b = (if arr b \<noteq> 0 \<and> arr b \<noteq> refs_ts then Some b else scan_used n arr (Suc b))"

definition refs_iter :: "refs_table \<Rightarrow> nat \<Rightarrow> nat \<Rightarrow> nat option" where
  "refs_iter tbl first lst = scan_used (lst - first) (refs_arr tbl) first"

definition refs_next :: "refs_table \<Rightarrow> nat \<Rightarrow> nat \<Rightarrow> u64 \<times> nat option" where
  "refs_next tbl b lst = (refs_key (refs_arr tbl b), scan_used (lst - Suc b) (refs_arr tbl) (Suc b))"

definition protect_iter :: "refs_table \<Rightarrow> nat \<Rightarrow> nat \<Rightarrow> nat option" where
  "protect_iter tbl first lst = scan_used (lst - first) (refs_arr tbl) first"

definition protect_next :: "refs_table \<Rightarrow> nat \<Rightarrow> nat \<Rightarrow> u64 \<times> nat option" where
  "protect_next tbl b lst = (refs_arr tbl b, scan_used (lst - Suc b) (refs_arr tbl) (Suc b))"

text \<open>A whole iteration, as the collector runs it: the values in the order they are returned.\<close>

fun iterate :: "(nat \<Rightarrow> u64 \<times> nat option) \<Rightarrow> nat \<Rightarrow> nat option \<Rightarrow> u64 list" where
  "iterate nxt fuel None = []"
| "iterate nxt 0 (Some b) = []"
| "iterate nxt (Suc fuel) (Some b) = (let (v, it) = nxt b in v # iterate nxt fuel it)"

definition refs_list :: "refs_table \<Rightarrow> u64 list" where
  "refs_list tbl = iterate (\<lambda>b. refs_next tbl b (refs_size tbl)) (refs_size tbl) (refs_iter tbl 0 (refs_size tbl))"

definition protect_list :: "refs_table \<Rightarrow> u64 list" where
  "protect_list tbl = iterate (\<lambda>b. protect_next tbl b (refs_size tbl)) (refs_size tbl) (protect_iter tbl 0 (refs_size tbl))"

section \<open>Creation\<close>

definition refs_create :: "nat \<Rightarrow> serror + refs_table" where
  "refs_create size' =
    (if popcountll (of_nat size') \<noteq> 1 then Inl BadSize
     else Inr \<lparr>refs_arr = (\<lambda>_. 0), refs_size = size', refs_control = 0, refs_resize_table = (\<lambda>_. 0),
               refs_resize_size = 0, refs_resize_part = 0, refs_resize_done = 0\<rparr>)"

definition protect_create :: "nat \<Rightarrow> serror + refs_table" where
  "protect_create size' = refs_create size'"

section \<open>Protected addresses\<close>

fun protect_probe :: "nat \<Rightarrow> (nat \<Rightarrow> u64) \<Rightarrow> nat \<Rightarrow> nat \<Rightarrow> nat option \<Rightarrow> nat option" where
  "protect_probe 0 arr size' bucket ts = ts"
| "protect_probe (Suc i) arr size' bucket ts =
    (let v = arr bucket
     in if v = refs_ts then
          protect_probe i arr size' (next_bucket size' bucket) (if ts = None then Some bucket else ts)
        else if v = 0 then Some (case ts of Some t \<Rightarrow> t | None \<Rightarrow> bucket)
        else protect_probe i arr size' (next_bucket size' bucket) ts)"

fun protect_up_loop :: "nat \<Rightarrow> refs_table \<Rightarrow> u64 \<Rightarrow> serror + refs_table" where
  "protect_up_loop 0 tbl a = Inl OutOfFuel"
| "protect_up_loop (Suc fuel) tbl a =
    (case protect_probe 128 (refs_arr tbl) (refs_size tbl)
            (unat (fnvhash8 a AND (of_nat (refs_size tbl) - 1))) None of
       Some b \<Rightarrow> Inr (refs_leave (tbl\<lparr>refs_arr := (refs_arr tbl)(b := a)\<rparr>))
     | None \<Rightarrow> bindE (protect_resize (refs_leave tbl)) (\<lambda>tbl. protect_up_loop fuel (refs_enter tbl) a))"

definition protect_up :: "refs_table \<Rightarrow> u64 \<Rightarrow> serror + refs_table" where
  "protect_up tbl a = protect_up_loop refs_fuel (refs_enter tbl) a"

fun protect_find :: "nat \<Rightarrow> (nat \<Rightarrow> u64) \<Rightarrow> nat \<Rightarrow> u64 \<Rightarrow> nat \<Rightarrow> nat option" where
  "protect_find 0 arr size' a bucket = None"
| "protect_find (Suc i) arr size' a bucket =
    (if arr bucket = a then Some bucket else protect_find i arr size' a (next_bucket size' bucket))"

definition protect_down :: "refs_table \<Rightarrow> u64 \<Rightarrow> serror + refs_table" where
  "protect_down tbl a =
    (let tbl = refs_enter tbl in
     case protect_find 128 (refs_arr tbl) (refs_size tbl) a
            (unat (fnvhash8 a AND (of_nat (refs_size tbl) - 1))) of
       Some b \<Rightarrow> Inr (refs_leave (tbl\<lparr>refs_arr := (refs_arr tbl)(b := refs_ts)\<rparr>))
     | None \<Rightarrow> Inl AssertFail)"

section \<open>Iteration returns what is in use\<close>

definition used_bucket :: "(nat \<Rightarrow> u64) \<Rightarrow> nat \<Rightarrow> bool" where
  "used_bucket arr b \<longleftrightarrow> arr b \<noteq> 0 \<and> arr b \<noteq> refs_ts"

lemma iterate_scan:
  "n \<le> fuel \<Longrightarrow> N = b + n \<Longrightarrow>
   iterate (\<lambda>b. (f (arr b), scan_used (N - Suc b) arr (Suc b))) fuel (scan_used n arr b) =
     map (f \<circ> arr) (filter (used_bucket arr) [b..<N])"
proof (induction n arbitrary: b fuel)
  case (Suc n)
  have u: "[b..<N] = b # [Suc b..<N]" using Suc.prems(2) by (simp add: upt_conv_Cons)
  have N: "N = Suc b + n" using Suc.prems(2) by simp
  show ?case
  proof (cases "used_bucket arr b")
    case True
    obtain fuel' where f: "fuel = Suc fuel'" using Suc.prems(1) by (cases fuel) auto
    have "N - Suc b = n" using N by simp
    have "n \<le> fuel'" using Suc.prems(1) f by simp
    from Suc.IH [OF this N] True u show ?thesis
      by (simp only: f scan_used.simps used_bucket_def [symmetric] if_True iterate.simps Let_def prod.case
          \<open>N - Suc b = n\<close> filter.simps list.map comp_apply)
  next
    case False
    have "n \<le> fuel" using Suc.prems(1) by simp
    from Suc.IH [OF this N] False u show ?thesis
      by (simp only: scan_used.simps used_bucket_def [symmetric] if_False filter.simps)
  qed
qed simp

lemma refs_list_eq:
  "refs_list tbl = map (refs_key \<circ> refs_arr tbl) (filter (used_bucket (refs_arr tbl)) [0..<refs_size tbl])"
  unfolding refs_list_def refs_next_def refs_iter_def
  by (subst iterate_scan [where b = 0]) simp_all

lemma protect_list_eq:
  "protect_list tbl = map (refs_arr tbl) (filter (used_bucket (refs_arr tbl)) [0..<refs_size tbl])"
  unfolding protect_list_def protect_next_def protect_iter_def
  using iterate_scan [of "refs_size tbl" "refs_size tbl" "refs_size tbl" 0 "\<lambda>x. x" "refs_arr tbl"]
  by (simp add: comp_def)

lemma count_loop_eq:
  "count_loop arr n b c = c + length (filter (used_bucket arr) [b..<b + n])"
  by (induction n arbitrary: b c) (simp_all add: used_bucket_def upt_conv_Cons del: upt_Suc)

text \<open>The two counters are the numbers of values that the two iterations return.\<close>

lemma refs_count_eq: "refs_count tbl = length (refs_list tbl)"
  and protect_count_eq: "protect_count tbl = length (protect_list tbl)"
  by (simp_all add: refs_count_def protect_count_def count_loop_eq refs_list_eq protect_list_eq)

end
