(* ===== verification/SylvanState.thy ===== *)
theory SylvanState
  imports SylvanMt OpCache RefsTable
begin

text \<open>
  The global state of Sylvan and its garbage collector (\<open>sylvan_common.c\<close>, and the
  references, the collector and the constructors of \<open>sylvan_mtbdd.c\<close>). The roots of a
  collection are the reference stacks of the worker (\<open>rstack\<close> holds diagrams, \<open>pstack\<close>
  addresses of diagrams; the top of a stack is the head of the list), the protected
  addresses and the counted references. One worker runs: no task is ever stolen, so the
  stack of spawned tasks marks nothing and \<open>mtbdd_refs_spawn\<close> and \<open>mtbdd_refs_sync\<close>
  change nothing that is read. No hook is registered before or after a collection.
\<close>

section \<open>State\<close>

datatype gc_hook = sylvan_gc_aggressive_resize | sylvan_gc_normal_resize

record sylvan =
  nodes :: llmsset
  ocache :: opcache
  gc_enabled :: bool
  main_hook :: gc_hook
  granularity :: int
  mtbdd_refs :: refs_table
  mtbdd_protected :: refs_table
  memory :: "u64 \<Rightarrow> u64"
  rstack :: "u64 list"
  pstack :: "u64 list"
  registry :: cl_registry

section \<open>References\<close>

definition mtbdd_refs_push :: "u64 \<Rightarrow> sylvan \<Rightarrow> sylvan" where
  "mtbdd_refs_push dd st = st\<lparr>rstack := dd # rstack st\<rparr>"

definition mtbdd_refs_pop :: "nat \<Rightarrow> sylvan \<Rightarrow> sylvan" where
  "mtbdd_refs_pop n st = st\<lparr>rstack := drop n (rstack st)\<rparr>"

definition mtbdd_refs_pushptr :: "u64 \<Rightarrow> sylvan \<Rightarrow> sylvan" where
  "mtbdd_refs_pushptr p st = st\<lparr>pstack := p # pstack st\<rparr>"

definition mtbdd_refs_popptr :: "nat \<Rightarrow> sylvan \<Rightarrow> sylvan" where
  "mtbdd_refs_popptr n st = st\<lparr>pstack := drop n (pstack st)\<rparr>"

definition mtbdd_ref :: "u64 \<Rightarrow> sylvan \<Rightarrow> serror + (u64 \<times> sylvan)" where
  "mtbdd_ref a st =
    (if a = mtbdd_true \<or> a = mtbdd_false then Inr (a, st)
     else bindE (refs_up (mtbdd_refs st) (MTBDD_STRIPMARK a)) (\<lambda>t. Inr (a, st\<lparr>mtbdd_refs := t\<rparr>)))"

definition mtbdd_deref :: "u64 \<Rightarrow> sylvan \<Rightarrow> serror + sylvan" where
  "mtbdd_deref a st =
    (if a = mtbdd_true \<or> a = mtbdd_false then Inr st
     else bindE (refs_down (mtbdd_refs st) (MTBDD_STRIPMARK a)) (\<lambda>t. Inr (st\<lparr>mtbdd_refs := t\<rparr>)))"

definition mtbdd_count_refs :: "sylvan \<Rightarrow> nat" where
  "mtbdd_count_refs st = refs_count (mtbdd_refs st)"

definition mtbdd_protect :: "u64 \<Rightarrow> sylvan \<Rightarrow> serror + sylvan" where
  "mtbdd_protect a st = bindE (protect_up (mtbdd_protected st) a) (\<lambda>t. Inr (st\<lparr>mtbdd_protected := t\<rparr>))"

definition mtbdd_unprotect :: "u64 \<Rightarrow> sylvan \<Rightarrow> serror + sylvan" where
  "mtbdd_unprotect a st = bindE (protect_down (mtbdd_protected st) a) (\<lambda>t. Inr (st\<lparr>mtbdd_protected := t\<rparr>))"

definition mtbdd_count_protected :: "sylvan \<Rightarrow> nat" where
  "mtbdd_count_protected st = protect_count (mtbdd_protected st)"

section \<open>Marking\<close>

text \<open>
  The recursion marks a bucket that was unmarked at every level but the last, so a depth
  of one more than the table has buckets is enough (\<open>mark_loop_total\<close>).
\<close>

fun mtbdd_gc_mark_rec :: "nat \<Rightarrow> llmsset \<Rightarrow> u64 \<Rightarrow> serror + llmsset" where
  "mtbdd_gc_mark_rec 0 dbs mtbdd = Inl OutOfFuel"
| "mtbdd_gc_mark_rec (Suc fuel) dbs mtbdd =
    (if mtbdd = mtbdd_true then Inr dbs
     else if mtbdd = mtbdd_false then Inr dbs
     else
       let (fresh, dbs) = llmsset_mark dbs (unat (MTBDD_STRIPMARK mtbdd))
       in if fresh then
            let n = MTBDD_GETNODE dbs mtbdd
            in if \<not> mtbddnode_isleaf n then
                 bindE (mtbdd_gc_mark_rec fuel dbs (mtbddnode_gethigh n)) (\<lambda>dbs.
                   mtbdd_gc_mark_rec fuel dbs (mtbddnode_getlow n))
               else Inr dbs
          else Inr dbs)"

definition mark_root :: "u64 \<Rightarrow> llmsset \<Rightarrow> serror + llmsset" where
  "mark_root dd dbs = mtbdd_gc_mark_rec (Suc (Suc (table_size dbs))) dbs dd"

fun mark_list :: "u64 list \<Rightarrow> llmsset \<Rightarrow> serror + llmsset" where
  "mark_list [] dbs = Inr dbs"
| "mark_list (x # xs) dbs = bindE (mark_root x dbs) (mark_list xs)"

text \<open>
  \<open>mtbdd_refs_mark_p_par\<close> and \<open>mtbdd_refs_mark_r_par\<close> over the values to mark; the first
  half is spawned and runs last.
\<close>

function mtbdd_refs_mark_par :: "u64 list \<Rightarrow> llmsset \<Rightarrow> serror + llmsset" where
  "mtbdd_refs_mark_par xs dbs =
    (if length xs < 32 then mark_list xs dbs
     else bindE (mtbdd_refs_mark_par (drop (length xs div 2) xs) dbs)
            (mtbdd_refs_mark_par (take (length xs div 2) xs)))"
  by pat_completeness auto
termination
  by (relation "measure (\<lambda>(xs, dbs). length xs)") auto

declare mtbdd_refs_mark_par.simps [simp del]

definition mtbdd_refs_mark :: "sylvan \<Rightarrow> llmsset \<Rightarrow> serror + llmsset" where
  "mtbdd_refs_mark st dbs =
    bindE (mtbdd_refs_mark_par (rev (rstack st)) dbs)
      (mtbdd_refs_mark_par (map (memory st) (rev (pstack st))))"

text \<open>A task is spawned for each value of the iteration; the last one runs first.\<close>

definition mtbdd_gc_mark_protected :: "sylvan \<Rightarrow> llmsset \<Rightarrow> serror + llmsset" where
  "mtbdd_gc_mark_protected st dbs = mark_list (rev (map (memory st) (protect_list (mtbdd_protected st)))) dbs"

definition mtbdd_gc_mark_external_refs :: "sylvan \<Rightarrow> llmsset \<Rightarrow> serror + llmsset" where
  "mtbdd_gc_mark_external_refs st dbs = mark_list (rev (refs_list (mtbdd_refs st))) dbs"

section \<open>Collection\<close>

definition sylvan_gc_enable :: "sylvan \<Rightarrow> sylvan" where
  "sylvan_gc_enable st = st\<lparr>gc_enabled := True\<rparr>"

definition sylvan_gc_disable :: "sylvan \<Rightarrow> sylvan" where
  "sylvan_gc_disable st = st\<lparr>gc_enabled := False\<rparr>"

definition sylvan_clear_cache :: "sylvan \<Rightarrow> serror + sylvan" where
  "sylvan_clear_cache st = bindE (cache_clear (ocache st)) (\<lambda>c. Inr (st\<lparr>ocache := c\<rparr>))"

text \<open>The marking callbacks are a stack: the one added last runs first.\<close>

definition sylvan_clear_and_mark :: "sylvan \<Rightarrow> serror + sylvan" where
  "sylvan_clear_and_mark st =
    bindE (mtbdd_refs_mark st (llmsset_clear_data (nodes st))) (\<lambda>dbs.
    bindE (mtbdd_gc_mark_protected st dbs) (\<lambda>dbs.
    bindE (mtbdd_gc_mark_external_refs st dbs) (\<lambda>dbs.
      Inr (st\<lparr>nodes := llmsset_destroy_unmarked dbs\<rparr>))))"

definition next_size :: "nat \<Rightarrow> nat" where
  "next_size current_size = current_size * 2"

definition grow_nodes :: "llmsset \<Rightarrow> llmsset" where
  "grow_nodes dbs =
    (let nodes_size = llmsset_get_size dbs; nodes_max = llmsset_get_max_size dbs
     in if nodes_size < nodes_max then
          let new_size = next_size nodes_size;
              new_size = (if new_size > nodes_max then nodes_max else new_size)
          in llmsset_set_size dbs new_size
        else dbs)"

definition grow_cache :: "opcache \<Rightarrow> serror + opcache" where
  "grow_cache cs =
    (let size' = cache_getsize cs; max' = cache_getmaxsize cs
     in if size' < max' then
          let new_size = next_size size';
              new_size = (if new_size > max' then max' else new_size)
          in cache_setsize cs new_size
        else Inr cs)"

definition run_main_hook :: "sylvan \<Rightarrow> serror + sylvan" where
  "run_main_hook st =
    (case main_hook st of
       sylvan_gc_aggressive_resize \<Rightarrow>
         bindE (grow_cache (ocache st)) (\<lambda>c. Inr (st\<lparr>nodes := grow_nodes (nodes st), ocache := c\<rparr>))
     | sylvan_gc_normal_resize \<Rightarrow>
         if llmsset_get_size (nodes st) < llmsset_get_max_size (nodes st)
            \<and> llmsset_count_marked (nodes st) * 2 > llmsset_get_size (nodes st)
         then bindE (grow_cache (ocache st)) (\<lambda>c. Inr (st\<lparr>nodes := grow_nodes (nodes st), ocache := c\<rparr>))
         else Inr st)"

definition sylvan_rehash_all :: "sylvan \<Rightarrow> serror + sylvan" where
  "sylvan_rehash_all st =
    bindE (llmsset_rehash (llmsset_clear_hashes (nodes st))) (\<lambda>(bad, dbs).
      if bad \<noteq> 0 then Inl RehashFail else Inr (st\<lparr>nodes := dbs\<rparr>))"

definition sylvan_gc_go :: "sylvan \<Rightarrow> serror + sylvan" where
  "sylvan_gc_go st =
    bindE (sylvan_clear_cache st) (\<lambda>st.
    bindE (sylvan_clear_and_mark st) (\<lambda>st.
    bindE (run_main_hook st) sylvan_rehash_all))"

definition sylvan_gc :: "sylvan \<Rightarrow> serror + sylvan" where
  "sylvan_gc st = (if gc_enabled st then sylvan_gc_go st else Inr st)"

section \<open>Sizes\<close>

record table_sizes =
  table_min :: nat
  table_max :: nat
  cache_min :: nat
  cache_max_size :: nat

definition is_power_of_two :: "u64 \<Rightarrow> bool" where
  "is_power_of_two size' \<longleftrightarrow> size' \<noteq> 0 \<and> size' AND (size' - 1) = 0"

definition sylvan_set_sizes :: "nat \<Rightarrow> nat \<Rightarrow> nat \<Rightarrow> nat \<Rightarrow> serror + table_sizes" where
  "sylvan_set_sizes min_tablesize max_tablesize min_cachesize max_cachesize =
    (let min_tablesize = (if min_tablesize > max_tablesize then max_tablesize else min_tablesize);
         min_cachesize = (if min_cachesize > max_cachesize then max_cachesize else min_cachesize)
     in if \<not> is_power_of_two (of_nat min_tablesize) \<or> \<not> is_power_of_two (of_nat max_tablesize) \<or>
           \<not> is_power_of_two (of_nat min_cachesize) \<or> \<not> is_power_of_two (of_nat max_cachesize) then Inl BadSize
        else if max_tablesize > 0x0000040000000000 then Inl BadSize
        else Inr \<lparr>table_min = min_tablesize, table_max = max_tablesize,
                  cache_min = min_cachesize, cache_max_size = max_cachesize\<rparr>)"

text \<open>
  The two loops of \<open>sylvan_set_limits\<close>. The first doubles \<open>max_t\<close> up to \<open>2^42\<close>, so it
  has at most 42 rounds from a \<open>max_t\<close> of at least 1; the second counts \<open>initial_ratio\<close> down.
\<close>

fun limits_grow :: "nat \<Rightarrow> u64 \<Rightarrow> u64 \<Rightarrow> u64 \<Rightarrow> u64 \<Rightarrow> u64 \<times> u64" where
  "limits_grow 0 memorycap cur max_t max_c = (max_t, max_c)"
| "limits_grow (Suc n) memorycap cur max_t max_c =
    (if 2 * cur < memorycap \<and> max_t < 0x0000040000000000
     then limits_grow n memorycap (cur * 2) (max_t * 2) (max_c * 2) else (max_t, max_c))"

fun limits_shrink :: "nat \<Rightarrow> u64 \<Rightarrow> u64 \<Rightarrow> u64 \<times> u64" where
  "limits_shrink 0 min_t min_c = (min_t, min_c)"
| "limits_shrink (Suc initial_ratio) min_t min_c =
    (if min_t > 0x1000 \<and> min_c > 0x1000
     then limits_shrink initial_ratio (drop_bit 1 min_t) (drop_bit 1 min_c) else (min_t, min_c))"

definition sylvan_set_limits :: "u64 \<Rightarrow> int \<Rightarrow> int \<Rightarrow> serror + table_sizes" where
  "sylvan_set_limits memorycap table_ratio initial_ratio =
    (if table_ratio < -10 \<or> table_ratio > 10 then Inl BadSize
     else
       let max_t = (if table_ratio > 0 then push_bit (nat table_ratio) 1 else 1);
           max_c = (if table_ratio > 0 then 1 else push_bit (nat (- table_ratio)) 1);
           (max_t, max_c) = limits_grow 43 memorycap (max_t * 24 + max_c * 36) max_t max_c
       in if initial_ratio < 0 then Inl BadSize
          else let (min_t, min_c) = limits_shrink (nat initial_ratio) max_t max_c
               in Inr \<lparr>table_min = unat min_t, table_max = unat max_t,
                       cache_min = unat min_c, cache_max_size = unat max_c\<rparr>)"

text \<open>
  \<open>sylvan_init_package\<close> and \<open>sylvan_init_mtbdd\<close>. \<open>env\<close> gives the variables they do not
  set: the worker's region and number, and the memory. Each is the first call, so that the
  guards \<open>mtbdd_initialized\<close> and \<open>mt_initialized\<close> do not hold.
\<close>

definition sylvan_init_package :: "llmsset \<Rightarrow> table_sizes \<Rightarrow> serror + (llmsset \<times> opcache)" where
  "sylvan_init_package env sz =
    (if table_max sz = 0 then Inl BadSize
     else bindE (llmsset_create env (table_min sz) (table_max sz)) (\<lambda>dbs.
          bindE (cache_create (cache_min sz) (cache_max_size sz)) (\<lambda>cs. Inr (dbs, cs))))"

definition sylvan_init_mtbdd :: "llmsset \<Rightarrow> opcache \<Rightarrow> (u64 \<Rightarrow> u64) \<Rightarrow> serror + sylvan" where
  "sylvan_init_mtbdd dbs cs mem =
    (let (reg, dbs) = sylvan_init_mt None dbs in
     bindE (refs_create 1024) (\<lambda>refs.
     bindE (protect_create 4096) (\<lambda>prot.
       Inr \<lparr>nodes = dbs, ocache = cs, gc_enabled = True, main_hook = sylvan_gc_aggressive_resize,
            granularity = 1, mtbdd_refs = refs, mtbdd_protected = prot, memory = mem,
            rstack = [], pstack = [], registry = reg\<rparr>)))"

section \<open>Constructors\<close>

definition lookup_leaf :: "bool \<Rightarrow> node \<Rightarrow> sylvan \<Rightarrow> serror + (u64 \<times> bool \<times> sylvan)" where
  "lookup_leaf custom n st =
    bindE (if custom then llmsset_lookupc (install_callbacks (registry st) (nodes st)) (fst n) (snd n)
           else llmsset_lookup (nodes st) (fst n) (snd n))
      (\<lambda>(index, created, dbs). Inr (index, created, st\<lparr>nodes := dbs\<rparr>))"

definition mtbdd_makeleaf :: "u32 \<Rightarrow> u64 \<Rightarrow> sylvan \<Rightarrow> serror + (u64 \<times> sylvan)" where
  "mtbdd_makeleaf type value' st =
    (let n = mtbddnode_makeleaf type value' in
     bindE (sylvan_mt_has_custom_hash (registry st) type) (\<lambda>custom.
     bindE (lookup_leaf custom n st) (\<lambda>(index, _, st).
       if index = 0 then
         bindE (sylvan_gc st) (\<lambda>st.
         bindE (lookup_leaf custom n st) (\<lambda>(index, _, st).
           if index = 0 then Inl TableFull else Inr (index, st)))
       else Inr (index, st))))"

definition lookup_node :: "node \<Rightarrow> sylvan \<Rightarrow> serror + (u64 \<times> sylvan)" where
  "lookup_node n st =
    bindE (llmsset_lookup (nodes st) (fst n) (snd n))
      (\<lambda>(index, _, dbs). Inr (index, st\<lparr>nodes := dbs\<rparr>))"

text \<open>The constructors for which \<open>low\<close> and \<open>high\<close> differ, and the inline ones around them.\<close>

definition mtbdd_makenode_nogc' :: "u32 \<Rightarrow> u64 \<Rightarrow> u64 \<Rightarrow> sylvan \<Rightarrow> serror + (u64 \<times> sylvan)" where
  "mtbdd_makenode_nogc' var low high st =
    (let mark = MTBDD_HASMARK low;
         (low, high) = (if mark then (MTBDD_TOGGLEMARK low, MTBDD_TOGGLEMARK high) else (low, high));
         n = mtbddnode_makenode var low high
     in bindE (lookup_node n st) (\<lambda>(index, st).
          if index = 0 then Inl TableFull
          else Inr (if mark then index OR mtbdd_complement else index, st)))"

definition mtbdd_makenode' :: "u32 \<Rightarrow> u64 \<Rightarrow> u64 \<Rightarrow> sylvan \<Rightarrow> serror + (u64 \<times> sylvan)" where
  "mtbdd_makenode' var low high st =
    (let mark = MTBDD_HASMARK low;
         (low, high) = (if mark then (MTBDD_TOGGLEMARK low, MTBDD_TOGGLEMARK high) else (low, high));
         n = mtbddnode_makenode var low high
     in bindE (lookup_node n st) (\<lambda>(index, st).
          if index = 0 then
            bindE (sylvan_gc (mtbdd_refs_push high (mtbdd_refs_push low st))) (\<lambda>st.
            bindE (lookup_node n (mtbdd_refs_pop 2 st)) (\<lambda>(index, st).
              if index = 0 then Inl TableFull
              else Inr (if mark then index OR mtbdd_complement else index, st)))
          else Inr (if mark then index OR mtbdd_complement else index, st)))"

definition mtbdd_makenode_nogc :: "u32 \<Rightarrow> u64 \<Rightarrow> u64 \<Rightarrow> sylvan \<Rightarrow> serror + (u64 \<times> sylvan)" where
  "mtbdd_makenode_nogc var low high st =
    (if low = high then Inr (low, st) else mtbdd_makenode_nogc' var low high st)"

definition mtbdd_makenode :: "u32 \<Rightarrow> u64 \<Rightarrow> u64 \<Rightarrow> sylvan \<Rightarrow> serror + (u64 \<times> sylvan)" where
  "mtbdd_makenode var low high st =
    (if low = high then Inr (low, st) else mtbdd_makenode' var low high st)"

definition mtbdd_makemapnode :: "u32 \<Rightarrow> u64 \<Rightarrow> u64 \<Rightarrow> sylvan \<Rightarrow> serror + (u64 \<times> sylvan)" where
  "mtbdd_makemapnode var low high st =
    (if MTBDD_HASMARK low then Inl AssertFail
     else
       let n = mtbddnode_makemapnode var low high
       in bindE (lookup_node n st) (\<lambda>(index, st).
            if index = 0 then
              bindE (sylvan_gc (mtbdd_refs_push high (mtbdd_refs_push low st))) (\<lambda>st.
              bindE (lookup_node n (mtbdd_refs_pop 2 st)) (\<lambda>(index, st).
                if index = 0 then Inl TableFull else Inr (index, st)))
            else Inr (index, st)))"

definition mtbdd_ithvar :: "u32 \<Rightarrow> sylvan \<Rightarrow> serror + (u64 \<times> sylvan)" where
  "mtbdd_ithvar var st = mtbdd_makenode var mtbdd_false mtbdd_true st"

definition mtbdd_int64 :: "int \<Rightarrow> sylvan \<Rightarrow> serror + (u64 \<times> sylvan)" where
  "mtbdd_int64 value' st = mtbdd_makeleaf 0 (of_int value') st"

end
