(* ===== verification/GcSpec.thy ===== *)
theory GcSpec
  imports SylvanState
begin

text \<open>
  What a collection does. Marking from a set of roots marks exactly the buckets that can be
  reached from them; after the collection the live buckets are the reachable ones, each with
  the pair it had, and the invariant of the state (\<open>state_ok\<close>) holds again. No step of it
  fails: not the rehash, not the resizing of the two tables.
\<close>

section \<open>Reachable buckets\<close>

definition lo_index :: "llmsset \<Rightarrow> nat \<Rightarrow> nat" where
  "lo_index n d = MTBDD_INDEX (mtbddnode_getlow (dptr n d))"

definition hi_index :: "llmsset \<Rightarrow> nat \<Rightarrow> nat" where
  "hi_index n d = MTBDD_INDEX (mtbddnode_gethigh (dptr n d))"

definition inner :: "llmsset \<Rightarrow> nat \<Rightarrow> bool" where
  "inner n d \<longleftrightarrow> \<not> mtbddnode_isleaf (dptr n d)"

inductive reach :: "llmsset \<Rightarrow> u64 set \<Rightarrow> nat \<Rightarrow> bool" for n S where
  reach_root: "x \<in> S \<Longrightarrow> MTBDD_INDEX x \<noteq> 0 \<Longrightarrow> reach n S (MTBDD_INDEX x)"
| reach_low: "reach n S d \<Longrightarrow> inner n d \<Longrightarrow> lo_index n d \<noteq> 0 \<Longrightarrow> reach n S (lo_index n d)"
| reach_high: "reach n S d \<Longrightarrow> inner n d \<Longrightarrow> hi_index n d \<noteq> 0 \<Longrightarrow> reach n S (hi_index n d)"

definition same_pairs :: "llmsset \<Rightarrow> llmsset \<Rightarrow> nat set \<Rightarrow> bool" where
  "same_pairs n n' D \<longleftrightarrow> (\<forall>d \<in> D. dptr n' d = dptr n d)"

lemma reach_cong:
  assumes "reach n S d" and same: "\<And>d. reach n S d \<Longrightarrow> dptr n' d = dptr n d" and sub: "S \<subseteq> S'"
  shows "reach n' S' d"
  using assms(1)
proof induction
  case (reach_root x)
  then show ?case using sub by (auto intro: reach.reach_root)
next
  case (reach_low d)
  from same [OF reach_low(1)] have "lo_index n' d = lo_index n d" "inner n' d = inner n d"
    by (simp_all add: lo_index_def inner_def)
  with reach_low show ?case by (metis reach.reach_low)
next
  case (reach_high d)
  from same [OF reach_high(1)] have "hi_index n' d = hi_index n d" "inner n' d = inner n d"
    by (simp_all add: hi_index_def inner_def)
  with reach_high show ?case by (metis reach.reach_high)
qed

lemma reach_trans:
  assumes "reach n S d" and "\<And>x. x \<in> S \<Longrightarrow> MTBDD_INDEX x \<noteq> 0 \<Longrightarrow> reach n T (MTBDD_INDEX x)"
  shows "reach n T d"
  using assms(1) by induction (auto intro: assms(2) reach.intros)

lemma reach_mono: "reach n S d \<Longrightarrow> S \<subseteq> T \<Longrightarrow> reach n T d"
  by (erule reach_trans) (auto intro: reach_root)

lemma reach_closed:
  assumes "reach n S d" and "\<And>x. x \<in> S \<Longrightarrow> MTBDD_INDEX x \<noteq> 0 \<Longrightarrow> P (MTBDD_INDEX x)"
    and "\<And>d. P d \<Longrightarrow> inner n d \<Longrightarrow> lo_index n d \<noteq> 0 \<Longrightarrow> P (lo_index n d)"
    and "\<And>d. P d \<Longrightarrow> inner n d \<Longrightarrow> hi_index n d \<noteq> 0 \<Longrightarrow> P (hi_index n d)"
  shows "P d"
  using assms(1) by induction (auto intro: assms(2-4))

section \<open>Marking\<close>

abbreviation marked :: "llmsset \<Rightarrow> nat \<Rightarrow> bool" where
  "marked n d \<equiv> bm_test (bitmap2 n) d"

definition unmarked :: "llmsset \<Rightarrow> nat set" where
  "unmarked n = {d. d < table_size n \<and> \<not> marked n d}"

definition same_but_marks :: "llmsset \<Rightarrow> llmsset \<Rightarrow> bool" where
  "same_but_marks n n' \<longleftrightarrow> (\<exists>b. n' = n\<lparr>bitmap2 := b\<rparr>)"

lemma same_but_marks_refl [simp]: "same_but_marks n n"
  unfolding same_but_marks_def by (rule exI [of _ "bitmap2 n"]) simp

lemma same_but_marks_trans: "same_but_marks s t \<Longrightarrow> same_but_marks t u \<Longrightarrow> same_but_marks s u"
  unfolding same_but_marks_def by (elim exE, intro exI) simp

lemma same_but_marks_sel:
  assumes "same_but_marks s t"
  shows "table t = table s" "data t = data s" "bitmapc t = bitmapc s" "max_size t = max_size s"
    "table_size t = table_size s" "size_mask t = size_mask s" "threshold t = threshold s"
    "my_region t = my_region s" "lace_n_workers_id t = lace_n_workers_id s"
    "tabhash_table t = tabhash_table s" "dptr t d = dptr s d" "lo_index t d = lo_index s d"
    "hi_index t d = hi_index s d" "inner t d = inner s d"
  using assms by (auto simp: same_but_marks_def lo_index_def hi_index_def inner_def)

lemma reach_same_but_marks: "same_but_marks n n' \<Longrightarrow> reach n' S d \<longleftrightarrow> reach n S d"
  using reach_cong [of n S d n' S] reach_cong [of n' S d n S]
  by (auto simp: same_but_marks_sel(11))

text \<open>
  A set of buckets that contains, with an inner node, its children: marking from a root
  in the set stays in the set.
\<close>

definition closed_set :: "llmsset \<Rightarrow> nat set \<Rightarrow> bool" where
  "closed_set n L \<longleftrightarrow> L \<subseteq> {2..<table_size n} \<and> (\<forall>d \<in> L. inner n d \<longrightarrow>
     (lo_index n d = 0 \<or> lo_index n d \<in> L) \<and> (hi_index n d = 0 \<or> hi_index n d \<in> L))"

definition root_in :: "nat set \<Rightarrow> u64 \<Rightarrow> bool" where
  "root_in L x \<longleftrightarrow> dd_word x \<and> (MTBDD_INDEX x = 0 \<or> MTBDD_INDEX x \<in> L)"

definition marks :: "nat set \<Rightarrow> llmsset \<Rightarrow> u64 set \<Rightarrow> llmsset \<Rightarrow> bool" where
  "marks L n S n' \<longleftrightarrow> same_but_marks n n' \<and> (\<forall>d. marked n d \<longrightarrow> marked n' d) \<and>
     (\<forall>x \<in> S. MTBDD_INDEX x = 0 \<or> marked n' (MTBDD_INDEX x)) \<and>
     (\<forall>d. marked n' d \<longrightarrow> \<not> marked n d \<longrightarrow> d \<in> L \<and> reach n S d \<and> (inner n d \<longrightarrow>
        (lo_index n d = 0 \<or> marked n' (lo_index n d)) \<and> (hi_index n d = 0 \<or> marked n' (hi_index n d))))"

lemma marks_nothing: "(\<And>x. x \<in> S \<Longrightarrow> MTBDD_INDEX x = 0 \<or> marked n (MTBDD_INDEX x)) \<Longrightarrow> marks L n S n"
  by (auto simp: marks_def)

lemma marks_trans:
  assumes 1: "marks L n S n1" and 2: "marks L n1 T n2"
  shows "marks L n (S \<union> T) n2"
proof -
  have s: "same_but_marks n n1" "same_but_marks n1 n2" using assms by (auto simp: marks_def)
  note sel = same_but_marks_sel [OF s(1)]
  have r: "reach n1 T d \<Longrightarrow> reach n (S \<union> T) d" "reach n S d \<Longrightarrow> reach n (S \<union> T) d" for d
    using reach_same_but_marks [OF s(1)] by (auto intro: reach_mono)
  show ?thesis
    using assms same_but_marks_trans [OF s] r
    unfolding marks_def sel by (metis Un_iff)
qed

lemma marks_closed_set: "same_but_marks n n' \<Longrightarrow> closed_set n' L \<longleftrightarrow> closed_set n L"
  by (simp add: closed_set_def same_but_marks_sel)

lemma strip_index: "dd_word x \<Longrightarrow> unat (MTBDD_STRIPMARK x) = MTBDD_INDEX x"
proof -
  assume d: "dd_word x"
  have "take_bit 40 (MTBDD_STRIPMARK x) = MTBDD_STRIPMARK x"
    using strip_fields(3) [OF d] strip_fields(2) [of x] dd_word_range [of "MTBDD_STRIPMARK x"]
    by (intro bit_word_eqI) (auto simp: bit_take_bit_iff HASMARK_bit)
  then show ?thesis using INDEX_take [of "MTBDD_STRIPMARK x"] strip_fields(1) [of x] by simp
qed

lemma finite_unmarked [simp]: "finite (unmarked n)"
  by (rule finite_subset [of _ "{..<table_size n}"]) (auto simp: unmarked_def)

lemma unmarked_mono: "marks L n S n' \<Longrightarrow> card (unmarked n') \<le> card (unmarked n)"
  by (rule card_mono) (auto simp: unmarked_def marks_def same_but_marks_sel)

lemma mark_rec_spec:
  assumes "closed_set n L" "root_in L x" "card (unmarked n) < fuel"
  shows "\<exists>n'. mtbdd_gc_mark_rec fuel n x = Inr n' \<and> marks L n {x} n'"
  using assms
proof (induction fuel arbitrary: n x)
  case (Suc fuel)
  have dd: "dd_word x" using Suc.prems(2) by (simp add: root_in_def)
  show ?case
  proof (cases "MTBDD_INDEX x = 0 \<or> marked n (MTBDD_INDEX x)")
    case True
    then have "mtbdd_gc_mark_rec (Suc fuel) n x = Inr n"
      using const_iff [OF dd] strip_index [OF dd] by (auto simp: llmsset_mark_def)
    with True show ?thesis by (auto intro: marks_nothing)
  next
    case False
    let ?d = "MTBDD_INDEX x"
    define n1 where "n1 = n\<lparr>bitmap2 := bm_set (bitmap2 n) ?d\<rparr>"
    have dL: "?d \<in> L" using Suc.prems(2) False by (simp add: root_in_def)
    have s1: "same_but_marks n n1" by (auto simp: same_but_marks_def n1_def)
    note sel1 = same_but_marks_sel [OF s1]
    have cl1: "closed_set n1 L" using Suc.prems(1) marks_closed_set [OF s1] by simp
    have mk1: "marked n1 d \<longleftrightarrow> d = ?d \<or> marked n d" for d by (simp add: n1_def)
    have nc: "x \<noteq> mtbdd_true" "x \<noteq> mtbdd_false" using False const_iff [OF dd] by auto
    let ?n = "MTBDD_GETNODE n1 x"
    have run: "mtbdd_gc_mark_rec (Suc fuel) n x = (if \<not> mtbddnode_isleaf ?n then
         bindE (mtbdd_gc_mark_rec fuel n1 (mtbddnode_gethigh ?n)) (\<lambda>dbs. mtbdd_gc_mark_rec fuel dbs (mtbddnode_getlow ?n))
         else Inr n1)"
      using False nc by (simp add: strip_index [OF dd] llmsset_mark_def n1_def Let_def)
    have inn: "inner n ?d \<longleftrightarrow> \<not> mtbddnode_isleaf ?n" "lo_index n ?d = MTBDD_INDEX (mtbddnode_getlow ?n)"
      "hi_index n ?d = MTBDD_INDEX (mtbddnode_gethigh ?n)"
      by (simp_all add: inner_def lo_index_def hi_index_def MTBDD_GETNODE_def sel1)
    have rx: "reach n {x} ?d" using False by (auto intro: reach_root)
    show ?thesis
    proof (cases "mtbddnode_isleaf ?n")
      case True
      have "marks L n {x} n1"
        using s1 dL rx inn(1) True by (auto simp: marks_def mk1)
      with run True show ?thesis by auto
    next
      case inner: False
      have ch: "root_in L (mtbddnode_gethigh ?n)" "root_in L (mtbddnode_getlow ?n)"
        using Suc.prems(1) dL inner inn unfolding closed_set_def root_in_def
        by (auto simp: low_high_fields)
      have "?d \<in> unmarked n" using False dL Suc.prems(1) by (auto simp: unmarked_def closed_set_def)
      moreover have "unmarked n1 = unmarked n - {?d}" by (auto simp: unmarked_def mk1 sel1)
      ultimately have "card (unmarked n1) < card (unmarked n)" by (metis card_Diff1_less finite_unmarked)
      then have f1: "card (unmarked n1) < fuel" using Suc.prems(3) by simp
      obtain n2 where n2: "mtbdd_gc_mark_rec fuel n1 (mtbddnode_gethigh ?n) = Inr n2" "marks L n1 {mtbddnode_gethigh ?n} n2"
        using Suc.IH [OF cl1 ch(1) f1] by blast
      have s2: "same_but_marks n1 n2" using n2(2) by (simp add: marks_def)
      have cl2: "closed_set n2 L" using cl1 marks_closed_set [OF s2] by simp
      obtain n3 where n3: "mtbdd_gc_mark_rec fuel n2 (mtbddnode_getlow ?n) = Inr n3" "marks L n2 {mtbddnode_getlow ?n} n3"
        using Suc.IH [OF cl2 ch(2)] unmarked_mono [OF n2(2)] f1 by force
      have m3: "marks L n1 {mtbddnode_gethigh ?n, mtbddnode_getlow ?n} n3"
        using marks_trans [OF n2(2) n3(2)] by (simp add: insert_commute)
      have rr: "reach n {x} d" if "reach n1 {mtbddnode_gethigh ?n, mtbddnode_getlow ?n} d" for d
      proof -
        have "reach n {mtbddnode_gethigh ?n, mtbddnode_getlow ?n} d"
          using that reach_same_but_marks [OF s1] by simp
        then show ?thesis
          by (rule reach_trans) (use rx inn inner reach_low [of n "{x}" ?d] reach_high [of n "{x}" ?d] in auto)
      qed
      have "marks L n {x} n3"
        using m3 s1 same_but_marks_trans [OF s1] dL rx inn rr unfolding marks_def mk1 sel1
        by (smt (verit) insertCI singletonD)
      with run inner n2(1) n3(1) show ?thesis by auto
    qed
  qed
qed simp


lemma mark_root_spec:
  assumes "closed_set n L" "root_in L x"
  shows "\<exists>n'. mark_root x n = Inr n' \<and> marks L n {x} n'"
  unfolding mark_root_def
proof (rule mark_rec_spec [OF assms])
  have "card (unmarked n) \<le> card {..<table_size n}" by (rule card_mono) (auto simp: unmarked_def)
  then show "card (unmarked n) < Suc (Suc (table_size n))" by simp
qed

lemma mark_list_spec:
  "closed_set n L \<Longrightarrow> \<forall>x \<in> set xs. root_in L x \<Longrightarrow> \<exists>n'. mark_list xs n = Inr n' \<and> marks L n (set xs) n'"
proof (induction xs arbitrary: n)
  case Nil
  then show ?case by (auto intro: marks_nothing)
next
  case (Cons x xs)
  obtain n1 where n1: "mark_root x n = Inr n1" "marks L n {x} n1"
    using mark_root_spec [OF Cons.prems(1)] Cons.prems(2) by auto
  then have "closed_set n1 L" using Cons.prems(1) marks_closed_set by (auto simp: marks_def)
  then obtain n2 where "mark_list xs n1 = Inr n2" "marks L n1 (set xs) n2"
    using Cons.IH Cons.prems(2) by auto
  with n1 marks_trans [OF n1(2)] show ?case by fastforce
qed

lemma mark_par_spec:
  "closed_set n L \<Longrightarrow> \<forall>x \<in> set xs. root_in L x \<Longrightarrow>
    \<exists>n'. mtbdd_refs_mark_par xs n = Inr n' \<and> marks L n (set xs) n'"
proof (induction "length xs" arbitrary: xs n rule: less_induct)
  case less
  show ?case
  proof (cases "length xs < 32")
    case True
    then show ?thesis using mark_list_spec [OF less.prems] by (simp add: mtbdd_refs_mark_par.simps)
  next
    case False
    let ?h = "length xs div 2"
    have "\<exists>n1. mtbdd_refs_mark_par (drop ?h xs) n = Inr n1 \<and> marks L n (set (drop ?h xs)) n1"
      by (rule less.hyps) (use False less.prems in \<open>auto dest: in_set_dropD\<close>)
    then obtain n1 where n1: "mtbdd_refs_mark_par (drop ?h xs) n = Inr n1" "marks L n (set (drop ?h xs)) n1" by blast
    then have cl: "closed_set n1 L" using less.prems(1) marks_closed_set by (auto simp: marks_def)
    have "\<exists>n2. mtbdd_refs_mark_par (take ?h xs) n1 = Inr n2 \<and> marks L n1 (set (take ?h xs)) n2"
      by (rule less.hyps) (use False less.prems cl in \<open>auto dest: in_set_takeD\<close>)
    then obtain n2 where n2: "mtbdd_refs_mark_par (take ?h xs) n1 = Inr n2" "marks L n1 (set (take ?h xs)) n2" by blast
    have "set (drop ?h xs) \<union> set (take ?h xs) = set xs"
      by (metis Un_commute append_take_drop_id set_append)
    with marks_trans [OF n1(2) n2(2)] have "marks L n (set xs) n2" by simp
    with n1 n2 False show ?thesis by (subst mtbdd_refs_mark_par.simps) simp
  qed
qed

section \<open>The invariant of the state\<close>

definition roots :: "sylvan \<Rightarrow> u64 set" where
  "roots st = set (rstack st) \<union> memory st ` set (pstack st) \<union>
     memory st ` set (protect_list (mtbdd_protected st)) \<union> set (refs_list (mtbdd_refs st))"

definition live_set :: "llmsset \<Rightarrow> nat set" where
  "live_set n = {d. live n d}"

definition power2 :: "nat \<Rightarrow> bool" where
  "power2 n \<longleftrightarrow> (\<exists>k < 64. n = 2 ^ k)"

definition cache_shape :: "opcache \<Rightarrow> bool" where
  "cache_shape cs \<longleftrightarrow> power2 (cache_size cs) \<and> power2 (cache_max cs) \<and> cache_size cs \<le> cache_max cs"

definition state_ok :: "sylvan \<Rightarrow> bool" where
  "state_ok st \<longleftrightarrow> table_ok (nodes st) \<and> size_ok (max_size (nodes st)) \<and>
     closed_set (nodes st) (live_set (nodes st)) \<and> (\<forall>x \<in> roots st. root_in (live_set (nodes st)) x) \<and>
     cache_shape (ocache st) \<and> cache_unlocked (ocache st)"

lemma popcountll_power2: "power2 n \<Longrightarrow> popcountll (of_nat n) = 1"
proof -
  assume "power2 n"
  then obtain k where k: "k < 64" "n = 2 ^ k" by (auto simp: power2_def)
  have "{j. j < 64 \<and> bit (of_nat n :: u64) j} = {k}"
    unfolding k(2) bit_2_power using k(1) by auto
  then show ?thesis by (simp add: popcountll_card)
qed

lemma cache_create_ok:
  "power2 n \<Longrightarrow> power2 m \<Longrightarrow> n \<le> m \<Longrightarrow> \<exists>cs. cache_create n m = Inr cs \<and> cache_fresh cs \<and> cache_shape cs"
  by (auto simp: cache_create_def popcountll_power2 cache_fresh_def cache_shape_def)

lemma power2_double: "power2 n \<Longrightarrow> power2 m \<Longrightarrow> n < m \<Longrightarrow> power2 (n * 2) \<and> n * 2 \<le> m"
proof -
  assume "power2 n" "power2 m" and less: "n < m"
  then obtain i j where ij: "n = 2 ^ i" "m = 2 ^ j" "i < 64" "j < 64" by (auto simp: power2_def)
  have "i < j" using less unfolding ij by (simp add: power_strict_increasing_iff)
  then have i: "Suc i \<le> j" by simp
  then have "(2::nat) ^ Suc i \<le> 2 ^ j" "Suc i < 64"
    using ij(4) power_increasing [OF i, of "2::nat"] by simp_all
  then show ?thesis using ij by (auto simp: power2_def intro!: exI [of _ "Suc i"])
qed

lemma grow_cache_ok:
  "cache_fresh cs \<Longrightarrow> cache_shape cs \<Longrightarrow> \<exists>cs'. grow_cache cs = Inr cs' \<and> cache_fresh cs' \<and> cache_shape cs'"
  using cache_create_ok [of "cache_size cs * 2" "cache_max cs"] power2_double [of "cache_size cs" "cache_max cs"]
  by (auto simp: grow_cache_def cache_shape_def cache_getsize_def cache_getmaxsize_def next_size_def
      cache_setsize_def Let_def)

lemma size_ok_power2: "size_ok n \<longleftrightarrow> power2 n \<and> 2 ^ 9 \<le> n \<and> n \<le> 2 ^ 40"
proof
  assume "size_ok n"
  then obtain m where "9 \<le> m" "m \<le> 40" "n = 2 ^ m" by (auto simp: size_ok_def)
  then show "power2 n \<and> 2 ^ 9 \<le> n \<and> n \<le> 2 ^ 40"
    by (auto simp: power2_def intro: power_increasing intro!: exI [of _ m] simp del: power_numeral)
next
  assume "power2 n \<and> 2 ^ 9 \<le> n \<and> n \<le> 2 ^ 40"
  then obtain k where "n = 2 ^ k" "(2::nat) ^ 9 \<le> 2 ^ k" "(2::nat) ^ k \<le> 2 ^ 40" by (auto simp: power2_def)
  then have "9 \<le> k" "k \<le> 40" by (simp_all only: power_increasing_iff one_less_numeral_iff semiring_norm)
  with \<open>n = 2 ^ k\<close> show "size_ok n" by (auto simp: size_ok_def)
qed

lemma grow_nodes_ok:
  assumes r: "rehashable n" and m: "size_ok (max_size n)" "size_ok (table_size n)"
  shows "rehashable (grow_nodes n)" "dptr (grow_nodes n) d = dptr n d" "live (grow_nodes n) d = live n d"
    "max_size (grow_nodes n) = max_size n"
proof -
  have "rehashable (grow_nodes n) \<and> dptr (grow_nodes n) d = dptr n d \<and> live (grow_nodes n) d = live n d"
  proof (cases "table_size n < max_size n")
    case True
    have s: "size_ok (table_size n * 2)" "table_size n * 2 \<le> max_size n"
      using m True power2_double [of "table_size n" "max_size n"] by (auto simp: size_ok_power2)
    have g: "grow_nodes n = llmsset_set_size n (table_size n * 2)"
      using True s(2) by (simp add: grow_nodes_def next_size_def llmsset_get_size_def llmsset_get_max_size_def Let_def)
    show ?thesis unfolding g using llmsset_set_size_spec [OF r s] by simp
  next
    case False
    then show ?thesis using r by (simp add: grow_nodes_def llmsset_get_size_def llmsset_get_max_size_def Let_def)
  qed
  then show "rehashable (grow_nodes n)" "dptr (grow_nodes n) d = dptr n d" "live (grow_nodes n) d = live n d"
    by auto
  show "max_size (grow_nodes n) = max_size n"
    by (simp add: grow_nodes_def llmsset_set_size_def Let_def)
qed


section \<open>Collection\<close>

lemma destroy_leaf_none: "(\<And>n. \<not> bm_test (bitmapc dbs) n) \<Longrightarrow> destroy_leaf dbs n k = dbs"
  by (induction n arbitrary: k) simp_all

lemma destroy_par_none: "(\<And>n. \<not> bm_test (bitmapc dbs) n) \<Longrightarrow> llmsset_destroy_par dbs first count = dbs"
proof (induction count arbitrary: first rule: less_induct)
  case (less count)
  then show ?case
    by (subst llmsset_destroy_par.simps) (auto simp: Let_def destroy_leaf_none)
qed

lemma destroy_unmarked_none: "(\<And>n. \<not> bm_test (bitmapc dbs) n) \<Longrightarrow> llmsset_destroy_unmarked dbs = dbs"
  by (simp add: llmsset_destroy_unmarked_def destroy_par_none)

lemma table_ok_rehashable: "table_ok n \<Longrightarrow> rehashable n"
  by (auto simp: table_ok_def rehashable_def)

lemma clear_data_sel:
  "table_size (llmsset_clear_data n) = table_size n" "max_size (llmsset_clear_data n) = max_size n"
  "inner (llmsset_clear_data n) d = inner n d" "lo_index (llmsset_clear_data n) d = lo_index n d"
  "hi_index (llmsset_clear_data n) d = hi_index n d"
  by (simp_all add: inner_def lo_index_def hi_index_def llmsset_clear_data_spec(2))
    (simp_all add: llmsset_clear_data_def llmsset_reset_region_def Let_def)

lemma marks_from_clear:
  assumes ok: "table_ok n" and cl: "closed_set n (live_set n)" and R: "\<forall>x \<in> R. root_in (live_set n) x"
    and m: "marks (live_set n) (llmsset_clear_data n) R n1"
  shows "rehashable n1" "live n1 d \<longleftrightarrow> reach n R d" "dptr n1 d = dptr n d"
    "table_size n1 = table_size n" "max_size n1 = max_size n"
proof -
  let ?n0 = "llmsset_clear_data n"
  have s: "same_but_marks ?n0 n1" using m by (simp add: marks_def)
  note sel = same_but_marks_sel [OF s]
  have r0: "rehashable ?n0" using table_ok_rehashable [OF ok] by (rule llmsset_clear_data_spec(3))
  have mk0: "marked ?n0 d \<longleftrightarrow> d = 0 \<or> d = 1" for d
    by (simp add: llmsset_clear_data_def llmsset_reset_region_def bm_test_forbidden Let_def del: fun_upd_apply)
  have L: "d \<in> live_set n \<Longrightarrow> 2 \<le> d \<and> d < table_size n" for d using cl by (auto simp: closed_set_def)
  show dp: "dptr n1 d = dptr n d" for d by (simp add: sel llmsset_clear_data_spec(2))
  show "table_size n1 = table_size n" "max_size n1 = max_size n" by (simp_all add: sel clear_data_sel)
  have new: "live n1 d \<Longrightarrow> d \<in> live_set n \<and> reach ?n0 R d" for d
    using m mk0 [of d] by (auto simp: marks_def live_def)
  have ch: "marked n1 d \<Longrightarrow> 2 \<le> d \<Longrightarrow> inner n d \<Longrightarrow>
      (lo_index n d = 0 \<or> marked n1 (lo_index n d)) \<and> (hi_index n d = 0 \<or> marked n1 (hi_index n d))" for d
    using m mk0 [of d] by (auto simp: marks_def clear_data_sel)
  have rr: "reach ?n0 R d \<longleftrightarrow> reach n R d" for d
    using reach_cong [of ?n0 R d n R] reach_cong [of n R d ?n0 R] by (auto simp: llmsset_clear_data_spec(2))
  show "live n1 d \<longleftrightarrow> reach n R d" for d
  proof
    assume "live n1 d" then show "reach n R d" using new rr by blast
  next
    assume "reach n R d"
    then have "live n1 d \<and> d \<in> live_set n"
    proof (rule reach_closed)
      fix x assume x: "x \<in> R" "MTBDD_INDEX x \<noteq> 0"
      with R have "MTBDD_INDEX x \<in> live_set n" by (auto simp: root_in_def)
      with x m L show "live n1 (MTBDD_INDEX x) \<and> MTBDD_INDEX x \<in> live_set n"
        by (auto simp: marks_def live_def)
    next
      fix d assume d: "live n1 d \<and> d \<in> live_set n" "inner n d"
      have c: "lo_index n d = 0 \<or> lo_index n d \<in> live_set n" "hi_index n d = 0 \<or> hi_index n d \<in> live_set n"
        using cl d by (auto simp: closed_set_def)
      show "live n1 (lo_index n d) \<and> lo_index n d \<in> live_set n" if "lo_index n d \<noteq> 0"
        using that c(1) ch [of d] d L [of "lo_index n d"] by (auto simp: live_def)
      show "live n1 (hi_index n d) \<and> hi_index n d \<in> live_set n" if "hi_index n d \<noteq> 0"
        using that c(2) ch [of d] d L [of "hi_index n d"] by (auto simp: live_def)
    qed
    then show "live n1 d" by simp
  qed
  have "shape_ok n1"
  proof -
    have "marked n1 d \<Longrightarrow> d < table_size n" for d
      using new [of d] L [of d] shape_table_size [OF table_ok_shape [OF ok]]
      by (cases "2 \<le> d") (auto simp: live_def)
    moreover have "marked n1 0" "marked n1 1" using m mk0 by (auto simp: marks_def)
    ultimately show ?thesis
      using r0 by (auto simp: rehashable_def shape_ok_def sel clear_data_sel region_ok_def)
  qed
  moreover have "d = d'" if "live n1 d" "live n1 d'" "dptr n1 d = dptr n1 d'" for d d'
    using that table_ok_unique [OF ok, of d d'] new [of d] new [of d'] by (simp add: dp live_set_def)
  moreover have "threshold_ok n1" "dptr n1 0 = (0, 0)" "dptr n1 1 = (0, 0)"
    using r0 ok by (auto simp: rehashable_def threshold_ok_def sel table_ok_def llmsset_clear_data_spec(2))
  ultimately show "rehashable n1" unfolding rehashable_def by blast
qed

lemma sylvan_clear_and_mark_ok:
  assumes ok: "table_ok (nodes st)" and cl: "closed_set (nodes st) (live_set (nodes st))"
    and R: "\<forall>x \<in> roots st. root_in (live_set (nodes st)) x"
  shows "\<exists>n1. sylvan_clear_and_mark st = Inr (st\<lparr>nodes := n1\<rparr>) \<and>
    marks (live_set (nodes st)) (llmsset_clear_data (nodes st)) (roots st) n1"
proof -
  let ?L = "live_set (nodes st)" and ?n0 = "llmsset_clear_data (nodes st)"
  have cl0: "closed_set ?n0 ?L" using cl by (simp add: closed_set_def clear_data_sel)
  have step: "closed_set n' ?L" if "marks ?L n S n'" "closed_set n ?L" for n S n'
    using that marks_closed_set by (auto simp: marks_def)
  obtain n1 where n1: "mtbdd_refs_mark_par (rev (rstack st)) ?n0 = Inr n1" "marks ?L ?n0 (set (rstack st)) n1"
    using mark_par_spec [OF cl0, of "rev (rstack st)"] R by (auto simp: roots_def)
  obtain n2 where n2: "mtbdd_refs_mark_par (map (memory st) (rev (pstack st))) n1 = Inr n2"
      "marks ?L n1 (memory st ` set (pstack st)) n2"
    using mark_par_spec [OF step [OF n1(2) cl0], of "map (memory st) (rev (pstack st))"] R by (auto simp: roots_def)
  note cl2 = step [OF n2(2) step [OF n1(2) cl0]]
  obtain n3 where n3: "mtbdd_gc_mark_protected st n2 = Inr n3"
      "marks ?L n2 (memory st ` set (protect_list (mtbdd_protected st))) n3"
    using mark_list_spec [OF cl2, of "rev (map (memory st) (protect_list (mtbdd_protected st)))"] R
    by (auto simp: roots_def mtbdd_gc_mark_protected_def)
  obtain n4 where n4: "mtbdd_gc_mark_external_refs st n3 = Inr n4" "marks ?L n3 (set (refs_list (mtbdd_refs st))) n4"
    using mark_list_spec [OF step [OF n3(2) cl2], of "rev (refs_list (mtbdd_refs st))"] R
    by (auto simp: roots_def mtbdd_gc_mark_external_refs_def)
  have m: "marks ?L ?n0 (roots st) n4"
    using marks_trans [OF marks_trans [OF marks_trans [OF n1(2) n2(2)] n3(2)] n4(2)]
    by (simp add: roots_def)
  have "same_but_marks ?n0 n4" using m by (simp add: marks_def)
  then have "bitmapc n4 = bitmapc (nodes st)"
    by (simp add: same_but_marks_sel llmsset_clear_data_def llmsset_reset_region_def)
  then have "llmsset_destroy_unmarked n4 = n4"
    using table_ok_shape [OF ok] by (intro destroy_unmarked_none) (simp add: shape_ok_def)
  with n1 n2 n3 n4 m show ?thesis
    by (intro exI [of _ n4]) (simp add: sylvan_clear_and_mark_def mtbdd_refs_mark_def)
qed

text \<open>
  A collection under the invariant always succeeds, keeps the invariant, leaves the pairs of
  the reachable buckets where they are, and frees everything else.
\<close>

definition same_but_tables :: "sylvan \<Rightarrow> sylvan \<Rightarrow> bool" where
  "same_but_tables s t \<longleftrightarrow> (\<exists>n c. t = s\<lparr>nodes := n, ocache := c\<rparr>)"

lemma same_but_tables_roots: "same_but_tables s t \<Longrightarrow> roots t = roots s"
  by (auto simp: same_but_tables_def roots_def)

lemma sylvan_gc_go_spec:
  assumes ok: "state_ok st"
  shows "\<exists>st'. sylvan_gc_go st = Inr st' \<and> state_ok st' \<and> same_but_tables st st' \<and>
    cache_fresh (ocache st') \<and> max_size (nodes st') = max_size (nodes st) \<and>
    (\<forall>d. live (nodes st') d \<longleftrightarrow> reach (nodes st) (roots st) d) \<and>
    (\<forall>d. dptr (nodes st') d = dptr (nodes st) d)"
proof -
  let ?n = "nodes st" and ?R = "roots st"
  have t: "table_ok ?n" and sz: "size_ok (max_size ?n)" and cl: "closed_set ?n (live_set ?n)"
    and R: "\<forall>x \<in> ?R. root_in (live_set ?n) x" and cs: "cache_shape (ocache st)"
    using ok by (auto simp: state_ok_def)
  obtain c1 where c1: "cache_clear (ocache st) = Inr c1" "cache_fresh c1" "cache_shape c1"
    using cs cache_create_ok by (auto simp: cache_clear_def cache_shape_def)
  define s1 where "s1 = st\<lparr>ocache := c1\<rparr>"
  have s1: "nodes s1 = ?n" "roots s1 = ?R" by (simp_all add: s1_def roots_def)
  obtain n1 where n1: "sylvan_clear_and_mark s1 = Inr (s1\<lparr>nodes := n1\<rparr>)"
      "marks (live_set ?n) (llmsset_clear_data ?n) ?R n1"
    using sylvan_clear_and_mark_ok [of s1] t cl R by (auto simp: s1)
  note mk = marks_from_clear [OF t cl R n1(2)]
  have ts: "size_ok (table_size n1)" using table_ok_shape [OF t] mk(4) by (auto simp: size_ok_def shape_ok_def)
  note gr = grow_nodes_ok [OF mk(1) sz [folded mk(5)] ts]
  obtain n2 c2 where h: "run_main_hook (s1\<lparr>nodes := n1\<rparr>) = Inr (s1\<lparr>nodes := n2, ocache := c2\<rparr>)"
    and n2: "rehashable n2" "\<And>d. dptr n2 d = dptr n1 d" "\<And>d. live n2 d = live n1 d" "max_size n2 = max_size n1"
    and c2: "cache_fresh c2" "cache_shape c2"
  proof -
    obtain c3 where c3: "grow_cache c1 = Inr c3" "cache_fresh c3" "cache_shape c3"
      using grow_cache_ok c1(2,3) by blast
    show thesis
    proof (cases "run_main_hook (s1\<lparr>nodes := n1\<rparr>) = Inr (s1\<lparr>nodes := n1\<rparr>)")
      case True
      then show thesis using that [of c1 n1] mk(1) c1 by (simp add: s1_def)
    next
      case False
      then have "run_main_hook (s1\<lparr>nodes := n1\<rparr>) = Inr (s1\<lparr>nodes := grow_nodes n1, ocache := c3\<rparr>)"
        using c3(1) by (auto simp: run_main_hook_def s1_def split: gc_hook.splits)
      then show thesis using that gr c3(2,3) by blast
    qed
  qed
  obtain n3 where n3: "llmsset_rehash (llmsset_clear_hashes n2) = Inr (0, n3)" "same_but_hashes n2 n3" "table_ok n3"
    using llmsset_rehash_spec [OF n2(1)] by blast
  note sh = same_but_hashes_sel [OF n3(2)]
  define st' where "st' = st\<lparr>nodes := n3, ocache := c2\<rparr>"
  have run: "sylvan_gc_go st = Inr st'"
    using c1(1) n1(1) h n3(1)
    by (simp add: sylvan_gc_go_def sylvan_clear_cache_def sylvan_rehash_all_def s1_def st'_def)
  have dp: "dptr n3 d = dptr ?n d" and lv: "live n3 d \<longleftrightarrow> reach ?n ?R d" for d
    using mk n2 by (simp_all add: sh)
  have same: "same_but_tables st st'" unfolding same_but_tables_def st'_def by blast
  have R': "roots st' = ?R" using same by (rule same_but_tables_roots)
  have lvn: "reach ?n ?R d \<Longrightarrow> 2 \<le> d \<and> d < table_size n3" for d
    using live_less [OF table_ok_shape [OF n3(3)], of d] lv by auto
  have "closed_set n3 (live_set n3)"
    unfolding closed_set_def live_set_def lv inner_def lo_index_def hi_index_def dp
    using lvn reach_low [of ?n ?R] reach_high [of ?n ?R]
    by (auto simp: inner_def lo_index_def hi_index_def)
  moreover have "\<forall>x \<in> ?R. root_in (live_set n3) x"
    using R by (auto simp: root_in_def live_set_def lv intro: reach_root)
  moreover have "cache_unlocked c2" using c2(1) by (rule oc.fresh_inv)
  moreover have "max_size n3 = max_size ?n" using n2(4) mk(5) by (simp add: sh)
  ultimately have "state_ok st'"
    using n3(3) sz c2 R' by (auto simp: state_ok_def st'_def)
  with run same dp lv c2(1) n2(4) mk(5) show ?thesis
    by (auto simp: st'_def sh)
qed

end
