(* ===== verification/BddSem.thy ===== *)
theory BddSem
  imports GcSpec
begin

text \<open>
  The meaning of Boolean diagrams. \<open>bdd\<close> relates a word of a table to a function of
  assignments; under the invariant of the table the relation is one to one
  (\<open>bdd_canonical\<close>, \<open>bdd_fun\<close>), so that equality of functions is equality of words,
  and the level of a diagram is a property of its function (\<open>bdd_level\<close>). A diagram
  keeps its function in every table that keeps the pairs it reaches (\<open>bdd_transfer\<close>).
\<close>

section \<open>Diagrams and their functions\<close>

type_synonym bfun = "(nat \<Rightarrow> bool) \<Rightarrow> bool"

text \<open>
  \<open>bdd n v x f\<close>: in table \<open>n\<close> the word \<open>x\<close> is a reduced, ordered Boolean diagram over
  variables from \<open>v\<close> on, in the normal form of the complement edges (no mark on low edges),
  and its function is \<open>f\<close>.
\<close>

inductive bdd :: "llmsset \<Rightarrow> nat \<Rightarrow> u64 \<Rightarrow> bfun \<Rightarrow> bool" for n where
  bdd_false: "bdd n v mtbdd_false (\<lambda>_. False)"
| bdd_true: "bdd n v mtbdd_true (\<lambda>_. True)"
| bdd_node: "dd_word x \<Longrightarrow> live n (MTBDD_INDEX x) \<Longrightarrow> dptr n (MTBDD_INDEX x) = mtbddnode_makenode var low high \<Longrightarrow>
    v \<le> unat var \<Longrightarrow> unat var < 2 ^ 24 \<Longrightarrow> \<not> MTBDD_HASMARK low \<Longrightarrow> low \<noteq> high \<Longrightarrow>
    bdd n (Suc (unat var)) low fl \<Longrightarrow> bdd n (Suc (unat var)) high fh \<Longrightarrow>
    bdd n v x (\<lambda>\<sigma>. MTBDD_HASMARK x \<noteq> (if \<sigma> (unat var) then fh \<sigma> else fl \<sigma>))"

definition indep :: "nat \<Rightarrow> bfun \<Rightarrow> bool" where
  "indep v f \<longleftrightarrow> (\<forall>\<sigma> \<tau>. (\<forall>i \<ge> v. \<sigma> i = \<tau> i) \<longrightarrow> f \<sigma> = f \<tau>)"

definition cof :: "bfun \<Rightarrow> nat \<Rightarrow> bool \<Rightarrow> bfun" where
  "cof f i b = (\<lambda>\<sigma>. f (\<sigma>(i := b)))"

lemma indepD: "indep v f \<Longrightarrow> (\<And>i. v \<le> i \<Longrightarrow> \<sigma> i = \<tau> i) \<Longrightarrow> f \<sigma> = f \<tau>"
  by (auto simp: indep_def)

lemma indep_mono: "indep v f \<Longrightarrow> u \<le> v \<Longrightarrow> indep u f"
  by (auto simp: indep_def)

lemma indep_const [simp]: "indep v (\<lambda>_. b)"
  by (simp add: indep_def)

lemma indep_not: "indep v f \<Longrightarrow> indep v (\<lambda>\<sigma>. \<not> f \<sigma>)"
  by (auto simp: indep_def)

lemma indep_and: "indep v f \<Longrightarrow> indep v g \<Longrightarrow> indep v (\<lambda>\<sigma>. f \<sigma> \<and> g \<sigma>)"
  by (auto simp: indep_def)

lemma indep_xor: "indep v f \<Longrightarrow> indep v g \<Longrightarrow> indep v (\<lambda>\<sigma>. f \<sigma> \<noteq> g \<sigma>)"
  by (auto simp: indep_def)

lemma indep_ite: "indep v f \<Longrightarrow> indep v g \<Longrightarrow> indep v h \<Longrightarrow> indep v (\<lambda>\<sigma>. if f \<sigma> then g \<sigma> else h \<sigma>)"
  by (auto simp: indep_def)

lemma indep_if: "indep (Suc i) f \<Longrightarrow> indep (Suc i) g \<Longrightarrow> v \<le> i \<Longrightarrow> indep v (\<lambda>\<sigma>. if \<sigma> i then f \<sigma> else g \<sigma>)"
  by (auto simp: indep_def)

lemma indep_cof: "indep v f \<Longrightarrow> indep v (cof f i b)"
proof (subst indep_def, intro allI impI)
  fix \<sigma> \<tau> :: "nat \<Rightarrow> bool" assume f: "indep v f" and "\<forall>j \<ge> v. \<sigma> j = \<tau> j"
  then show "cof f i b \<sigma> = cof f i b \<tau>" unfolding cof_def by (intro indepD [OF f]) auto
qed

lemma indep_cof_Suc: "indep i f \<Longrightarrow> indep (Suc i) (cof f i b)"
proof (subst indep_def, intro allI impI)
  fix \<sigma> \<tau> :: "nat \<Rightarrow> bool" assume f: "indep i f" and "\<forall>j \<ge> Suc i. \<sigma> j = \<tau> j"
  then show "cof f i b \<sigma> = cof f i b \<tau>" unfolding cof_def by (intro indepD [OF f]) (auto simp: Suc_le_eq)
qed

lemma cof_indep: "indep (Suc i) f \<Longrightarrow> cof f i b = f"
  unfolding cof_def by (rule ext, erule indepD) auto

lemma shannon: "(\<lambda>\<sigma>. if \<sigma> i then cof f i True \<sigma> else cof f i False \<sigma>) = f"
  by (rule ext) (auto simp: cof_def fun_upd_idem)

text \<open>The function depends on the given variables only.\<close>

definition depends_on :: "bfun \<Rightarrow> nat set \<Rightarrow> bool" where
  "depends_on f S \<longleftrightarrow> (\<forall>\<sigma> \<tau>. (\<forall>i \<in> S. \<sigma> i = \<tau> i) \<longrightarrow> f \<sigma> = f \<tau>)"

lemma depends_onD: "depends_on f S \<Longrightarrow> (\<And>i. i \<in> S \<Longrightarrow> \<sigma> i = \<tau> i) \<Longrightarrow> f \<sigma> = f \<tau>"
  by (simp add: depends_on_def)

lemma depends_cof: "depends_on f (insert v S) \<Longrightarrow> depends_on (cof f v b) S"
  by (auto simp: depends_on_def cof_def)

lemma depends_none: "depends_on f {} \<Longrightarrow> f = (\<lambda>_. f (\<lambda>_. False))"
  unfolding depends_on_def fun_eq_iff by blast

lemma bdd_dd_word: "bdd n v x f \<Longrightarrow> dd_word x"
  by (induction rule: bdd.induct) (simp_all add: dd_simps)

lemma bdd_mono: "bdd n v x f \<Longrightarrow> u \<le> v \<Longrightarrow> bdd n u x f"
proof (induction rule: bdd.induct)
  case (bdd_node x var low high v fl fh)
  then have "u \<le> unat var" by simp
  with bdd_node.hyps show ?case by (intro bdd.bdd_node)
qed (auto intro: bdd.intros)

lemma bdd_indep: "bdd n v x f \<Longrightarrow> indep v f"
proof (induction rule: bdd.induct)
  case (bdd_node x var low high v fl fh)
  then show ?case
    using indep_xor [OF indep_const indep_if [OF bdd_node.IH(2,1)]] by blast
qed simp_all

lemma bdd_root: "bdd n v x f \<Longrightarrow> MTBDD_INDEX x = 0 \<or> live n (MTBDD_INDEX x)"
  by (erule bdd.cases) (auto simp: dd_simps)

lemma bdd_not: "bdd n v x f \<Longrightarrow> bdd n v (mtbdd_not x) (\<lambda>\<sigma>. \<not> f \<sigma>)"
proof (erule bdd.cases)
  show "x = mtbdd_false \<Longrightarrow> f = (\<lambda>_. False) \<Longrightarrow> ?thesis" for v'
    using bdd_true by (simp add: dd_simps)
  show "x = mtbdd_true \<Longrightarrow> f = (\<lambda>_. True) \<Longrightarrow> ?thesis" for v'
    using bdd_false by (simp add: dd_simps)
next
  fix y var low high u fl fh
  assume *: "v = u" "x = y" "f = (\<lambda>\<sigma>. MTBDD_HASMARK y \<noteq> (if \<sigma> (unat var) then fh \<sigma> else fl \<sigma>))"
    "dd_word y" "live n (MTBDD_INDEX y)" "dptr n (MTBDD_INDEX y) = mtbddnode_makenode var low high"
    "u \<le> unat var" "unat var < 2 ^ 24" "\<not> MTBDD_HASMARK low" "low \<noteq> high"
    "bdd n (Suc (unat var)) low fl" "bdd n (Suc (unat var)) high fh"
  have "bdd n v (mtbdd_not x) (\<lambda>\<sigma>. MTBDD_HASMARK (mtbdd_not x) \<noteq> (if \<sigma> (unat var) then fh \<sigma> else fl \<sigma>))"
    by (rule bdd.bdd_node [of "mtbdd_not x" n var low high]) (use * in \<open>simp_all add: dd_simps\<close>)
  then show ?thesis using * by (simp add: dd_simps)
qed

lemma bdd_zero: "bdd n v x f \<Longrightarrow> f (\<lambda>_. False) = MTBDD_HASMARK x"
  by (induction rule: bdd.induct) (simp_all add: dd_simps)

text \<open>The node of a diagram that is not constant, and its cofactors.\<close>

lemma bdd_inner:
  assumes b: "bdd n v x f" and nc: "MTBDD_INDEX x \<noteq> 0"
  defines "nd \<equiv> MTBDD_GETNODE n x"
  defines "i \<equiv> unat (mtbddnode_getvariable nd)"
  shows "v \<le> i" "i < 2 ^ 24" "\<not> mtbddnode_isleaf nd" "live n (MTBDD_INDEX x)"
    "bdd n (Suc i) (mtbddnode_followlow x nd) (cof f i False)"
    "bdd n (Suc i) (mtbddnode_followhigh x nd) (cof f i True)"
    "mtbddnode_getlow nd \<noteq> mtbddnode_gethigh nd"
    "nd = mtbddnode_makenode (mtbddnode_getvariable nd) (mtbddnode_getlow nd) (mtbddnode_gethigh nd)"
proof -
  have "v \<le> i \<and> i < 2 ^ 24 \<and> \<not> mtbddnode_isleaf nd \<and> live n (MTBDD_INDEX x) \<and>
    bdd n (Suc i) (mtbddnode_followlow x nd) (cof f i False) \<and>
    bdd n (Suc i) (mtbddnode_followhigh x nd) (cof f i True) \<and>
    mtbddnode_getlow nd \<noteq> mtbddnode_gethigh nd \<and>
    nd = mtbddnode_makenode (mtbddnode_getvariable nd) (mtbddnode_getlow nd) (mtbddnode_gethigh nd)"
  using b
proof (cases rule: bdd.cases)
  case (bdd_node var low high fl fh)
  note d = bdd_dd_word [OF bdd_node(9)] bdd_dd_word [OF bdd_node(10)]
  note mf = makenode_fields [OF d(1) bdd_node(7) d(2) bdd_node(6)]
  have nd: "nd = mtbddnode_makenode var low high" by (simp add: nd_def MTBDD_GETNODE_def bdd_node(4))
  have i: "i = unat var" by (simp add: i_def nd mf)
  have cl: "cof f i False = (\<lambda>\<sigma>. MTBDD_HASMARK x \<noteq> fl \<sigma>)" "cof f i True = (\<lambda>\<sigma>. MTBDD_HASMARK x \<noteq> fh \<sigma>)"
    using cof_indep [OF bdd_indep [OF bdd_node(9)], of False] cof_indep [OF bdd_indep [OF bdd_node(10)], of True]
    by (auto simp: bdd_node(1) cof_def i fun_eq_iff)
  have "bdd n (Suc i) (mtbddnode_followlow x nd) (cof f i False)"
    "bdd n (Suc i) (mtbddnode_followhigh x nd) (cof f i True)"
    using bdd_not [OF bdd_node(9)] bdd_not [OF bdd_node(10)] bdd_node(9,10)
    unfolding cl by (simp_all add: mtbddnode_followlow_def mtbddnode_followhigh_def nd mf dd_simps i)
  then show ?thesis
    using bdd_node i by (simp add: nd mf)
qed (use nc in \<open>simp_all add: dd_simps\<close>)
  then show "v \<le> i" "i < 2 ^ 24" "\<not> mtbddnode_isleaf nd" "live n (MTBDD_INDEX x)"
    "bdd n (Suc i) (mtbddnode_followlow x nd) (cof f i False)"
    "bdd n (Suc i) (mtbddnode_followhigh x nd) (cof f i True)"
    "mtbddnode_getlow nd \<noteq> mtbddnode_gethigh nd"
    "nd = mtbddnode_makenode (mtbddnode_getvariable nd) (mtbddnode_getlow nd) (mtbddnode_gethigh nd)"
    by blast+
qed

lemma bdd_const_fun: "bdd n v x f \<Longrightarrow> MTBDD_INDEX x = 0 \<Longrightarrow> (x = mtbdd_true \<and> f = (\<lambda>_. True)) \<or> (x = mtbdd_false \<and> f = (\<lambda>_. False))"
  by (erule bdd.cases) (auto simp: live_def)

lemma bdd_true_iff: "bdd n v mtbdd_true f \<longleftrightarrow> f = (\<lambda>_. True)"
  and bdd_false_iff: "bdd n v mtbdd_false f \<longleftrightarrow> f = (\<lambda>_. False)"
  using bdd_const_fun [of n v mtbdd_true f] bdd_const_fun [of n v mtbdd_false f]
  by (auto simp: dd_simps intro: bdd.intros)

lemma bdd_fun: "bdd n v x f \<Longrightarrow> bdd n u x g \<Longrightarrow> f = g"
proof (induction arbitrary: u g rule: bdd.induct)
  case (bdd_node x var low high v fl fh)
  have nc: "MTBDD_INDEX x \<noteq> 0" using bdd_node.hyps(2) by (auto simp: live_def)
  have b: "bdd n v x (\<lambda>\<sigma>. MTBDD_HASMARK x \<noteq> (if \<sigma> (unat var) then fh \<sigma> else fl \<sigma>))"
    using bdd_node.hyps by (rule bdd.bdd_node)
  have d: "dd_word low" "dd_word high" using bdd_node.hyps(8,9) by (auto dest: bdd_dd_word)
  note mf = makenode_fields [OF d(1) bdd_node.hyps(6) d(2) bdd_node.hyps(5)]
  have gn: "MTBDD_GETNODE n x = mtbddnode_makenode var low high"
    by (simp add: MTBDD_GETNODE_def bdd_node.hyps(3))
  have m: "bdd n w (MTBDD_TRANSFERMARK x y) h \<Longrightarrow> bdd n w y (\<lambda>\<sigma>. MTBDD_HASMARK x \<noteq> h \<sigma>)" for w y h
    using bdd_not [of n w "mtbdd_not y" h] by (auto simp: dd_simps split: if_splits)
  have "fl = (\<lambda>\<sigma>. MTBDD_HASMARK x \<noteq> cof g (unat var) False \<sigma>)"
    using bdd_node.IH(1) [OF m] bdd_inner(5) [OF bdd_node.prems nc]
    by (simp add: gn mf mtbddnode_followlow_def)
  moreover have "fh = (\<lambda>\<sigma>. MTBDD_HASMARK x \<noteq> cof g (unat var) True \<sigma>)"
    using bdd_node.IH(2) [OF m] bdd_inner(6) [OF bdd_node.prems nc]
    by (simp add: gn mf mtbddnode_followhigh_def)
  ultimately show ?case
    by (subst shannon [of "unat var" g, symmetric]) (auto simp: fun_eq_iff)
qed (auto simp: bdd_true_iff bdd_false_iff)


section \<open>Canonicity\<close>

definition top_var :: "llmsset \<Rightarrow> u64 \<Rightarrow> nat" where
  "top_var n x = unat (mtbdd_getvar n x)"

lemma top_var_node: "unat (mtbddnode_getvariable (MTBDD_GETNODE n x)) = top_var n x"
  by (simp add: top_var_def mtbdd_getvar_def)

lemma bdd_raise:
  assumes "bdd n v x f" "MTBDD_INDEX x = 0 \<or> u \<le> top_var n x"
  shows "bdd n u x f"
  using assms(1)
proof (cases rule: bdd.cases)
  case (bdd_node var low high fl fh)
  then have nc: "MTBDD_INDEX x \<noteq> 0" by (auto simp: live_def)
  note d = bdd_dd_word [OF bdd_node(9)] bdd_dd_word [OF bdd_node(10)]
  have "top_var n x = unat var"
    using makenode_fields(3) [OF d(1) bdd_node(7) d(2) bdd_node(6)]
    by (simp add: top_var_def mtbdd_getvar_def MTBDD_GETNODE_def bdd_node(4))
  then have "u \<le> unat var" using assms(2) nc by simp
  then show ?thesis unfolding bdd_node(1) using bdd_node(2-4,6-10) by (intro bdd.bdd_node)
qed (auto intro: bdd.intros)

lemma transfer_inj: "MTBDD_TRANSFERMARK x y = MTBDD_TRANSFERMARK x z \<longleftrightarrow> y = z"
  by (simp add: dd_simps)

lemma follow_eq:
  "mtbddnode_followlow x n = mtbddnode_followhigh x n \<longleftrightarrow> mtbddnode_getlow n = mtbddnode_gethigh n"
  by (simp add: mtbddnode_followlow_def mtbddnode_followhigh_def transfer_inj)

lemma bdd_canonical_aux:
  assumes ok: "table_ok n"
  shows "2 ^ 24 \<le> v + k \<Longrightarrow> bdd n v x f \<Longrightarrow> bdd n v y f \<Longrightarrow> x = y"
proof (induction k arbitrary: v x y f)
  case 0
  have "MTBDD_INDEX z = 0" if "bdd n v z f" for z
    using bdd_inner(1,2) [OF that] 0(1) by (rule_tac ccontr) auto
  with 0 have "MTBDD_INDEX x = 0" "MTBDD_INDEX y = 0" by auto
  from bdd_const_fun [OF 0(2) this(1)] bdd_const_fun [OF 0(3) this(2)] show ?case
    by (metis (full_types))
next
  case (Suc k)
  have IH: "bdd n (Suc v) x f \<Longrightarrow> bdd n (Suc v) y f \<Longrightarrow> x = y" for x y f
    by (rule Suc.IH [of "Suc v"]) (use Suc.prems(1) in auto)
  let ?at = "\<lambda>z. MTBDD_INDEX z \<noteq> 0 \<and> top_var n z = v"
  have skip: "bdd n (Suc v) z f" if z: "bdd n v z f" "\<not> ?at z" for z
  proof (rule bdd_raise [OF z(1)])
    show "MTBDD_INDEX z = 0 \<or> Suc v \<le> top_var n z"
    proof (cases "MTBDD_INDEX z = 0")
      case False
      then have "v \<le> top_var n z" using bdd_inner(1) [OF z(1)] by (simp add: top_var_node)
      with z(2) False show ?thesis by auto
    qed simp
  qed
  have dep: False if z: "bdd n v z f" "?at z" and w: "bdd n v w f" "\<not> ?at w" for z w
  proof -
    have "indep (Suc v) f" using bdd_indep [OF skip [OF w]] .
    then have "cof f v False = f" "cof f v True = f" by (simp_all add: cof_indep)
    then have "mtbddnode_followlow z (MTBDD_GETNODE n z) = mtbddnode_followhigh z (MTBDD_GETNODE n z)"
      using bdd_inner(5,6) [OF z(1)] z(2) IH by (simp add: top_var_node)
    then show False using bdd_inner(7) [OF z(1)] z(2) by (simp add: follow_eq)
  qed
  show ?case
  proof (cases "?at x")
    case False
    then have "\<not> ?at y" using dep [OF Suc.prems(3) _ Suc.prems(2)] by blast
    with False show ?thesis using IH skip Suc.prems(2,3) by blast
  next
    case True
    then have y: "?at y" using dep [OF Suc.prems(2) _ Suc.prems(3)] by blast
    have xc: "MTBDD_INDEX x \<noteq> 0" and yc: "MTBDD_INDEX y \<noteq> 0" using True y by auto
    note bx = bdd_inner [OF Suc.prems(2) xc, unfolded top_var_node]
      and by' = bdd_inner [OF Suc.prems(3) yc, unfolded top_var_node]
    let ?nx = "MTBDD_GETNODE n x" and ?ny = "MTBDD_GETNODE n y"
    have fl: "mtbddnode_followlow x ?nx = mtbddnode_followlow y ?ny"
      and fh: "mtbddnode_followhigh x ?nx = mtbddnode_followhigh y ?ny"
      using IH bx(5,6) by'(5,6) True y by auto
    have mk: "MTBDD_HASMARK x = MTBDD_HASMARK y"
      using bdd_zero [OF Suc.prems(2)] bdd_zero [OF Suc.prems(3)] by simp
    have "mtbddnode_getlow ?nx = mtbddnode_getlow ?ny" "mtbddnode_gethigh ?nx = mtbddnode_gethigh ?ny"
      using fl fh mk by (auto simp: mtbddnode_followlow_def mtbddnode_followhigh_def dd_simps split: if_splits)
    moreover have "mtbddnode_getvariable ?nx = mtbddnode_getvariable ?ny"
      using True y by (intro unat_eqI) (simp add: top_var_def mtbdd_getvar_def)
    ultimately have "?nx = ?ny" using bx(8) by'(8) by metis
    then have "MTBDD_INDEX x = MTBDD_INDEX y"
      using table_ok_unique [OF ok bx(4) by'(4)] by (simp add: MTBDD_GETNODE_def)
    with mk show ?thesis
      using dd_eq_iff [OF bdd_dd_word [OF Suc.prems(2)] bdd_dd_word [OF Suc.prems(3)]] by simp
  qed
qed

text \<open>Two diagrams with the same function are the same word, and conversely.\<close>

lemma bdd_canonical: "table_ok n \<Longrightarrow> bdd n v x f \<Longrightarrow> bdd n u y f \<Longrightarrow> x = y"
proof -
  assume ok: "table_ok n" and b: "bdd n v x f" "bdd n u y f"
  have "bdd n 0 x f" "bdd n 0 y f" using b by (auto intro: bdd_mono)
  then show "x = y" by (rule bdd_canonical_aux [OF ok, of 0 "2 ^ 24", rotated]) simp
qed

lemma bdd_eq_iff: "table_ok n \<Longrightarrow> bdd n v x f \<Longrightarrow> bdd n u y g \<Longrightarrow> x = y \<longleftrightarrow> f = g"
  using bdd_canonical bdd_fun by metis

text \<open>The level of a diagram is a property of its function.\<close>

lemma bdd_level:
  assumes ok: "table_ok n" and b: "bdd n u x f" and i: "indep v f"
  shows "bdd n v x f"
proof (rule bdd_raise [OF b], rule disjCI, rule ccontr)
  assume nc: "MTBDD_INDEX x \<noteq> 0" and "\<not> v \<le> top_var n x"
  note bi = bdd_inner [OF b nc, unfolded top_var_node]
  have "indep (Suc (top_var n x)) f" using i \<open>\<not> v \<le> top_var n x\<close> by (intro indep_mono [OF i]) simp
  then have "cof f (top_var n x) False = cof f (top_var n x) True" by (simp add: cof_indep)
  then have "mtbddnode_followlow x (MTBDD_GETNODE n x) = mtbddnode_followhigh x (MTBDD_GETNODE n x)"
    using bdd_canonical [OF ok bi(5)] bi(6) by simp
  with bi(7) show False by (simp add: follow_eq)
qed

section \<open>Tables that keep what they hold\<close>

lemma bdd_transfer:
  assumes "bdd n v x f" and "\<And>d. reach n {x} d \<Longrightarrow> live n d \<Longrightarrow> live n' d \<and> dptr n' d = dptr n d"
  shows "bdd n' v x f"
  using assms
proof (induction rule: bdd.induct)
  case (bdd_node x var low high v fl fh)
  have d: "dd_word low" "dd_word high" using bdd_node.hyps(8,9) by (auto dest: bdd_dd_word)
  note mf = makenode_fields [OF d(1) bdd_node.hyps(6) d(2) bdd_node.hyps(5)]
  have nc: "MTBDD_INDEX x \<noteq> 0" using bdd_node.hyps(2) by (auto simp: live_def)
  have rx: "reach n {x} (MTBDD_INDEX x)" using nc by (auto intro: reach_root)
  have rl: "reach n {x} d" if "reach n {low} d" for d
    using that by (rule reach_trans) (use reach_low [OF rx] bdd_node.hyps(3) in \<open>auto simp: inner_def lo_index_def mf\<close>)
  have rh: "reach n {x} d" if "reach n {high} d" for d
    using that by (rule reach_trans) (use reach_high [OF rx] bdd_node.hyps(3) in \<open>auto simp: inner_def hi_index_def mf\<close>)
  show ?case
    by (rule bdd.bdd_node)
      (use bdd_node rx rl rh in auto)
qed (auto intro: bdd.intros)

definition extends :: "llmsset \<Rightarrow> llmsset \<Rightarrow> bool" where
  "extends n n' \<longleftrightarrow> (\<forall>d. live n d \<longrightarrow> live n' d \<and> dptr n' d = dptr n d)"

lemma extends_refl [simp]: "extends n n"
  by (simp add: extends_def)

lemma extends_trans: "extends n n' \<Longrightarrow> extends n' n'' \<Longrightarrow> extends n n''"
  by (auto simp: extends_def)

lemma bdd_extends: "bdd n v x f \<Longrightarrow> extends n n' \<Longrightarrow> bdd n' v x f"
  by (erule bdd_transfer) (simp add: extends_def)

lemma reach_const: "MTBDD_INDEX x = 0 \<Longrightarrow> \<not> reach n {x} d"
  by (rule notI, erule reach.induct) auto

text \<open>What a diagram reaches is live.\<close>

lemma bdd_reach_live: "bdd n v x f \<Longrightarrow> reach n {x} d \<Longrightarrow> live n d"
proof (induction arbitrary: d rule: bdd.induct)
  case (bdd_node x var low high v fl fh)
  have d: "dd_word low" "dd_word high" using bdd_node.hyps(8,9) by (auto dest: bdd_dd_word)
  note mf = makenode_fields [OF d(1) bdd_node.hyps(6) d(2) bdd_node.hyps(5)]
  let ?P = "\<lambda>d. d = MTBDD_INDEX x \<or> reach n {low} d \<or> reach n {high} d"
  have "?P d"
    using bdd_node.prems
    by (rule reach_closed [where P = ?P])
      (auto simp: lo_index_def hi_index_def bdd_node.hyps(3) mf
        intro: reach_root reach_low [unfolded lo_index_def] reach_high [unfolded hi_index_def])
  then show ?case using bdd_node by blast
qed (simp_all add: reach_const dd_simps)

section \<open>Maps from variables to diagrams\<close>

text \<open>
  A map is a chain of low edges in ascending order of the variables; the high edge of a node
  is the diagram that its variable is mapped to. The end of the chain is \<open>mtbdd_false\<close>.
\<close>

inductive bdd_map :: "llmsset \<Rightarrow> nat \<Rightarrow> u64 \<Rightarrow> (nat \<rightharpoonup> bfun) \<Rightarrow> bool" for n where
  map_empty: "bdd_map n v mtbdd_false Map.empty"
| map_node: "dd_word x \<Longrightarrow> \<not> MTBDD_HASMARK x \<Longrightarrow> live n (MTBDD_INDEX x) \<Longrightarrow>
    dptr n (MTBDD_INDEX x) = mtbddnode_makemapnode var low high \<Longrightarrow> v \<le> unat var \<Longrightarrow> unat var < 2 ^ 24 \<Longrightarrow>
    bdd_map n (Suc (unat var)) low m \<Longrightarrow> bdd n 0 high g \<Longrightarrow> bdd_map n v x (m(unat var \<mapsto> g))"

lemma bdd_map_word: "bdd_map n v x m \<Longrightarrow> dd_word x \<and> \<not> MTBDD_HASMARK x"
  by (erule bdd_map.cases) (simp_all add: dd_simps)

lemma bdd_map_mono: "bdd_map n v x m \<Longrightarrow> u \<le> v \<Longrightarrow> bdd_map n u x m"
  by (erule bdd_map.cases) (auto intro: bdd_map.intros)

lemma bdd_map_root: "bdd_map n v x m \<Longrightarrow> MTBDD_INDEX x = 0 \<or> live n (MTBDD_INDEX x)"
  by (erule bdd_map.cases) (auto simp: dd_simps)

lemma bdd_map_dom: "bdd_map n v x m \<Longrightarrow> i \<in> dom m \<Longrightarrow> v \<le> i \<and> i < 2 ^ 24"
proof (induction rule: bdd_map.induct)
  case (map_node x var low high v m g)
  from map_node.prems have "i = unat var \<or> i \<in> dom m" by (auto split: if_splits)
  then show ?case using map_node.hyps(5,6) map_node.IH by linarith
qed simp

lemma bdd_map_empty: "bdd_map n v x m \<Longrightarrow> x = mtbdd_false \<longleftrightarrow> m = Map.empty"
  by (erule bdd_map.cases) (auto simp: dd_simps live_def)

text \<open>The first node of a map.\<close>

lemma bdd_map_inner:
  assumes b: "bdd_map n v x m" and nc: "x \<noteq> mtbdd_false"
  defines "nd \<equiv> MTBDD_GETNODE n x"
  defines "i \<equiv> unat (mtbddnode_getvariable nd)"
  shows "MTBDD_INDEX x \<noteq> 0 \<and> v \<le> i \<and> i < 2 ^ 24 \<and> inner n (MTBDD_INDEX x) \<and>
    mtbddnode_followlow x nd = mtbddnode_getlow nd \<and> mtbddnode_followhigh x nd = mtbddnode_gethigh nd \<and>
    (\<exists>m' g. m = m'(i \<mapsto> g) \<and> bdd_map n (Suc i) (mtbddnode_getlow nd) m' \<and> bdd n 0 (mtbddnode_gethigh nd) g)"
  using b
proof (cases rule: bdd_map.cases)
  case (map_node var low high m' g)
  note d = bdd_map_word [OF map_node(8)] bdd_dd_word [OF map_node(9)]
  have mf: "\<not> mtbddnode_isleaf (mtbddnode_makemapnode var low high)"
    "mtbddnode_getvariable (mtbddnode_makemapnode var low high) = var"
    "mtbddnode_getlow (mtbddnode_makemapnode var low high) = low" "mtbddnode_gethigh (mtbddnode_makemapnode var low high) = high"
    using makemapnode_fields [of low high var] d map_node(7) by simp_all
  have nd: "nd = mtbddnode_makemapnode var low high" by (simp add: nd_def MTBDD_GETNODE_def map_node(5))
  have i: "i = unat var" by (simp add: i_def nd mf)
  have "MTBDD_INDEX x \<noteq> 0" using map_node(4) by (auto simp: live_def)
  then show ?thesis
    using map_node mf by (auto simp: nd i inner_def mtbddnode_followlow_def mtbddnode_followhigh_def dd_simps)
qed (use nc in simp)

lemma bdd_map_fun: "bdd_map n v x m \<Longrightarrow> bdd_map n u x m' \<Longrightarrow> m = m'"
proof (induction arbitrary: u m' rule: bdd_map.induct)
  case (map_empty v)
  then show ?case using bdd_map_empty by blast
next
  case (map_node x var low high v m g)
  have b: "bdd_map n v x (m(unat var \<mapsto> g))" using map_node.hyps by (rule bdd_map.map_node)
  have nc: "x \<noteq> mtbdd_false" using map_node.hyps(3) by (auto simp: live_def dd_simps)
  note d = bdd_map_word [OF map_node.hyps(7)] bdd_dd_word [OF map_node.hyps(8)]
  have gn: "MTBDD_GETNODE n x = mtbddnode_makemapnode var low high" by (simp add: MTBDD_GETNODE_def map_node.hyps(4))
  have mf: "mtbddnode_getvariable (mtbddnode_makemapnode var low high) = var"
    "mtbddnode_getlow (mtbddnode_makemapnode var low high) = low" "mtbddnode_gethigh (mtbddnode_makemapnode var low high) = high"
    using makemapnode_fields [of low high var] d map_node.hyps(6) by simp_all
  obtain m2 g2 where "m' = m2(unat var \<mapsto> g2)" "bdd_map n (Suc (unat var)) low m2" "bdd n 0 high g2"
    using bdd_map_inner [OF map_node.prems nc] by (auto simp: gn mf)
  then show ?case using map_node.IH bdd_fun map_node.hyps(8) by metis
qed

lemma bdd_map_transfer:
  assumes "bdd_map n v x m" and "\<And>d. reach n {x} d \<Longrightarrow> live n d \<Longrightarrow> live n' d \<and> dptr n' d = dptr n d"
  shows "bdd_map n' v x m"
  using assms
proof (induction rule: bdd_map.induct)
  case (map_node x var low high v m g)
  have nc: "x \<noteq> mtbdd_false" using map_node.hyps(3) by (auto simp: live_def dd_simps)
  note d = bdd_map_word [OF map_node.hyps(7)] bdd_dd_word [OF map_node.hyps(8)]
  have mf: "\<not> mtbddnode_isleaf (mtbddnode_makemapnode var low high)"
    "mtbddnode_getlow (mtbddnode_makemapnode var low high) = low" "mtbddnode_gethigh (mtbddnode_makemapnode var low high) = high"
    using makemapnode_fields [of low high var] d map_node.hyps(6) by simp_all
  have nz: "MTBDD_INDEX x \<noteq> 0" using map_node.hyps(3) by (auto simp: live_def)
  have rx: "reach n {x} (MTBDD_INDEX x)" using nz by (auto intro: reach_root)
  have rl: "reach n {x} d" if "reach n {low} d" for d
    using that by (rule reach_trans) (use reach_low [OF rx] map_node.hyps(4) in \<open>auto simp: inner_def lo_index_def mf\<close>)
  have rh: "reach n {x} d" if "reach n {high} d" for d
    using that by (rule reach_trans) (use reach_high [OF rx] map_node.hyps(4) in \<open>auto simp: inner_def hi_index_def mf\<close>)
  have "bdd n' 0 high g" by (rule bdd_transfer [OF map_node.hyps(8)]) (use map_node.prems rh in blast)
  moreover have "bdd_map n' (Suc (unat var)) low m" by (rule map_node.IH) (use map_node.prems rl in blast)
  moreover have "live n' (MTBDD_INDEX x)" "dptr n' (MTBDD_INDEX x) = mtbddnode_makemapnode var low high"
    using map_node.prems [OF rx] map_node.hyps(3,4) by simp_all
  ultimately show ?case using map_node.hyps(1,2,5,6) by (intro bdd_map.map_node)
qed (rule bdd_map.map_empty)

lemma bdd_map_extends: "bdd_map n v x m \<Longrightarrow> extends n n' \<Longrightarrow> bdd_map n' v x m"
  by (erule bdd_map_transfer) (simp add: extends_def)

end
