(* ===== verification/BddStore.thy ===== *)
theory BddStore
  imports BddSem
begin

text \<open>
  The contract of the operations on diagrams. An operation may run a collection at any
  constructor, so it promises of the state only that what is safe, reachable from the
  roots, stays where it is (\<open>keep\<close>). \<open>results st m f\<close> says that \<open>m\<close> stops for lack of
  room, or returns a diagram of \<open>f\<close> in a state that is well-formed and keeps what was safe.
  The constructors satisfy it, with and without a collection.
\<close>

section \<open>Safe diagrams\<close>

text \<open>A diagram is safe when a collection keeps it: it is constant or reachable from the roots.\<close>

definition safe :: "sylvan \<Rightarrow> u64 \<Rightarrow> bool" where
  "safe st x \<longleftrightarrow> dd_word x \<and> (MTBDD_INDEX x = 0 \<or> reach (nodes st) (roots st) (MTBDD_INDEX x))"

text \<open>
  What an operation promises of the rest of the state: it writes the two tables only, and
  what is safe stays where it is.
\<close>

definition keep :: "sylvan \<Rightarrow> sylvan \<Rightarrow> bool" where
  "keep st st' \<longleftrightarrow> same_but_tables st st' \<and> max_size (nodes st') = max_size (nodes st) \<and>
     (\<forall>d. reach (nodes st) (roots st) d \<longrightarrow> live (nodes st') d \<and> dptr (nodes st') d = dptr (nodes st) d)"

lemma same_but_tables_refl [simp]: "same_but_tables s s"
  unfolding same_but_tables_def by (rule exI [of _ "nodes s"], rule exI [of _ "ocache s"]) simp

lemma same_but_tables_trans: "same_but_tables s t \<Longrightarrow> same_but_tables t u \<Longrightarrow> same_but_tables s u"
  unfolding same_but_tables_def by (elim exE, intro exI) simp

lemma same_but_tables_sel:
  assumes "same_but_tables s t"
  shows "gc_enabled t = gc_enabled s" "main_hook t = main_hook s" "granularity t = granularity s"
    "mtbdd_refs t = mtbdd_refs s" "mtbdd_protected t = mtbdd_protected s" "memory t = memory s"
    "rstack t = rstack s" "pstack t = pstack s" "registry t = registry s"
  using assms by (auto simp: same_but_tables_def)

lemma reach_live: "state_ok st \<Longrightarrow> reach (nodes st) (roots st) d \<Longrightarrow> live (nodes st) d"
proof -
  assume ok: "state_ok st" and r: "reach (nodes st) (roots st) d"
  from r show "live (nodes st) d"
    by (rule reach_closed) (use ok in \<open>auto simp: state_ok_def root_in_def closed_set_def live_set_def\<close>)
qed

lemma keep_refl: "state_ok st \<Longrightarrow> keep st st"
  by (auto simp: keep_def reach_live)

lemma keep_roots: "keep s t \<Longrightarrow> roots t = roots s"
  by (simp add: keep_def same_but_tables_roots)

lemma keep_reach: "keep s t \<Longrightarrow> reach (nodes s) (roots s) d \<Longrightarrow> reach (nodes t) (roots t) d"
  using reach_cong [of "nodes s" "roots s" d "nodes t" "roots t"] keep_roots [of s t]
  by (auto simp: keep_def)

lemma keep_trans:
  assumes st: "keep s t" and tu: "keep t u"
  shows "keep s u"
proof -
  have "live (nodes u) d \<and> dptr (nodes u) d = dptr (nodes s) d" if "reach (nodes s) (roots s) d" for d
    using st tu keep_reach [OF st that] that by (simp add: keep_def)
  then show ?thesis using st tu same_but_tables_trans [of s t u] by (simp add: keep_def)
qed

lemma keep_safe: "keep s t \<Longrightarrow> safe s x \<Longrightarrow> safe t x"
  by (auto simp: safe_def keep_reach)

lemma keep_below:
  assumes k: "keep s t" and s: "safe s x" and d: "reach (nodes s) {x} d"
  shows "live (nodes t) d \<and> dptr (nodes t) d = dptr (nodes s) d"
proof -
  have "MTBDD_INDEX x \<noteq> 0" using d reach_const by blast
  then have "reach (nodes s) (roots s) (MTBDD_INDEX x)" using s by (simp add: safe_def)
  then have "reach (nodes s) (roots s) d" using d by (auto intro: reach_trans)
  then show ?thesis using k by (simp add: keep_def)
qed

lemma keep_bdd: "keep s t \<Longrightarrow> safe s x \<Longrightarrow> bdd (nodes s) v x f \<Longrightarrow> bdd (nodes t) v x f"
  by (erule bdd_transfer) (rule keep_below)

lemma keep_map: "keep s t \<Longrightarrow> safe s x \<Longrightarrow> bdd_map (nodes s) v x m \<Longrightarrow> bdd_map (nodes t) v x m"
  by (erule bdd_map_transfer) (rule keep_below)

lemma extends_keep:
  "state_ok s \<Longrightarrow> same_but_tables s t \<Longrightarrow> max_size (nodes t) = max_size (nodes s) \<Longrightarrow>
   extends (nodes s) (nodes t) \<Longrightarrow> keep s t"
  by (auto simp: keep_def extends_def dest: reach_live)

lemma safe_const [simp]: "safe st mtbdd_true" "safe st mtbdd_false"
  by (simp_all add: safe_def dd_simps)

lemma safe_not: "safe st x \<Longrightarrow> safe st (mtbdd_not x)"
  by (simp add: safe_def dd_simps)

lemma safe_follow:
  assumes s: "safe st x" and b: "bdd (nodes st) v x f" and nc: "MTBDD_INDEX x \<noteq> 0"
  shows "safe st (mtbddnode_followlow x (MTBDD_GETNODE (nodes st) x))"
    "safe st (mtbddnode_followhigh x (MTBDD_GETNODE (nodes st) x))"
proof -
  let ?n = "nodes st" and ?nd = "MTBDD_GETNODE (nodes st) x"
  have r: "reach ?n (roots st) (MTBDD_INDEX x)" using s nc by (simp add: safe_def)
  have i: "inner ?n (MTBDD_INDEX x)" using bdd_inner(3) [OF b nc] by (simp add: inner_def MTBDD_GETNODE_def)
  have "safe st (mtbddnode_getlow ?nd)" "safe st (mtbddnode_gethigh ?nd)"
    using reach_low [OF r i] reach_high [OF r i]
    by (auto simp: safe_def low_high_fields lo_index_def hi_index_def MTBDD_GETNODE_def)
  then show "safe st (mtbddnode_followlow x ?nd)" "safe st (mtbddnode_followhigh x ?nd)"
    by (simp_all add: mtbddnode_followlow_def mtbddnode_followhigh_def transfer_not safe_not)
qed

section \<open>Pushing and popping references\<close>

definition valid :: "sylvan \<Rightarrow> u64 \<Rightarrow> bool" where
  "valid st x \<longleftrightarrow> root_in (live_set (nodes st)) x"

lemma bdd_valid: "bdd (nodes st) v x f \<Longrightarrow> valid st x"
  using bdd_root bdd_dd_word by (auto simp: valid_def root_in_def live_set_def)

lemma push_sel [simp]:
  "nodes (mtbdd_refs_push x st) = nodes st" "ocache (mtbdd_refs_push x st) = ocache st"
  "granularity (mtbdd_refs_push x st) = granularity st" "gc_enabled (mtbdd_refs_push x st) = gc_enabled st"
  "roots (mtbdd_refs_push x st) = insert x (roots st)"
  by (auto simp: mtbdd_refs_push_def roots_def)

lemma pop_sel [simp]:
  "nodes (mtbdd_refs_pop k st) = nodes st" "ocache (mtbdd_refs_pop k st) = ocache st"
  "granularity (mtbdd_refs_pop k st) = granularity st" "gc_enabled (mtbdd_refs_pop k st) = gc_enabled st"
  by (simp_all add: mtbdd_refs_pop_def)

lemma push_ok: "state_ok st \<Longrightarrow> valid st x \<Longrightarrow> state_ok (mtbdd_refs_push x st)"
  by (simp add: state_ok_def valid_def)

lemma push_safe: "safe st y \<Longrightarrow> safe (mtbdd_refs_push x st) y"
  by (auto simp: safe_def intro: reach_mono)

lemma push_safe_new: "dd_word x \<Longrightarrow> safe (mtbdd_refs_push x st) x"
  by (auto simp: safe_def intro: reach_root)

lemma pop_ok: "state_ok st \<Longrightarrow> state_ok (mtbdd_refs_pop k st)"
proof -
  have "roots (mtbdd_refs_pop k st) \<subseteq> roots st"
    by (auto simp: mtbdd_refs_pop_def roots_def dest: in_set_dropD)
  then show "state_ok st \<Longrightarrow> state_ok (mtbdd_refs_pop k st)" by (auto simp: state_ok_def)
qed

lemma pop_push: "same_but_tables (mtbdd_refs_push x st) t \<Longrightarrow> same_but_tables st (mtbdd_refs_pop 1 t)"
proof -
  assume "same_but_tables (mtbdd_refs_push x st) t"
  then obtain n c where "t = (mtbdd_refs_push x st)\<lparr>nodes := n, ocache := c\<rparr>"
    unfolding same_but_tables_def by blast
  then have "mtbdd_refs_pop 1 t = st\<lparr>nodes := n, ocache := c\<rparr>"
    by (simp add: mtbdd_refs_push_def mtbdd_refs_pop_def)
  then show "same_but_tables st (mtbdd_refs_pop 1 t)" unfolding same_but_tables_def by blast
qed

lemma keep_pop_push:
  assumes "keep (mtbdd_refs_push x st) t"
  shows "keep st (mtbdd_refs_pop 1 t)"
  using assms pop_push [of x st t] reach_mono [of "nodes st" "roots st" _ "insert x (roots st)"]
  unfolding keep_def by auto

lemma pop2: "mtbdd_refs_pop 2 t = mtbdd_refs_pop 1 (mtbdd_refs_pop 1 t)"
  by (simp add: mtbdd_refs_pop_def drop_Suc numeral_2_eq_2 flip: drop_drop)

section \<open>Outcomes\<close>

text \<open>
  How an operation may stop: with the message that the table is full, or, for tables of more
  than \<open>2^17\<close> buckets, by not returning from a lookup in a table whose every slot is taken.
\<close>

definition stops :: "sylvan \<Rightarrow> serror \<Rightarrow> bool" where
  "stops st e \<longleftrightarrow> e = TableFull \<or> e = OutOfFuel \<and> 2 ^ 17 < max_size (nodes st)"

definition yields :: "sylvan \<Rightarrow> serror + ('a \<times> sylvan) \<Rightarrow> ('a \<Rightarrow> sylvan \<Rightarrow> bool) \<Rightarrow> bool" where
  "yields st m Q \<longleftrightarrow> (case m of Inl e \<Rightarrow> stops st e | Inr (r, st') \<Rightarrow> Q r st')"

lemma yields_Inr [simp]: "yields st (Inr (r, t)) Q \<longleftrightarrow> Q r t"
  by (simp add: yields_def)

lemma yields_Inl [simp]: "yields st (Inl e) Q \<longleftrightarrow> stops st e"
  by (simp add: yields_def)

lemma stops_TableFull [simp]: "stops st TableFull"
  by (simp add: stops_def)

lemma stops_cong: "max_size (nodes s) = max_size (nodes t) \<Longrightarrow> stops s e \<longleftrightarrow> stops t e"
  by (simp add: stops_def)

lemma yields_cong: "max_size (nodes s) = max_size (nodes t) \<Longrightarrow> yields s m Q \<longleftrightarrow> yields t m Q"
  by (auto simp: yields_def stops_def split: sum.splits)

lemma yields_bind:
  assumes "yields st m P" "\<And>r t. m = Inr (r, t) \<Longrightarrow> P r t \<Longrightarrow> yields st (f (r, t)) Q"
  shows "yields st (bindE m f) Q"
  using assms by (cases m) auto

lemma yields_mono: "yields st m P \<Longrightarrow> (\<And>r t. P r t \<Longrightarrow> Q r t) \<Longrightarrow> yields st m Q"
  by (auto simp: yields_def split: sum.splits)


section \<open>What the cache holds\<close>

definition ex_quant :: "nat set \<Rightarrow> bfun \<Rightarrow> bfun" where
  "ex_quant S f = (\<lambda>\<sigma>. \<exists>\<tau>. (\<forall>i. i \<notin> S \<longrightarrow> \<tau> i = \<sigma> i) \<and> f \<tau>)"

definition cube_fun :: "nat set \<Rightarrow> bfun" where
  "cube_fun S = (\<lambda>\<sigma>. \<forall>i \<in> S. \<sigma> i)"

text \<open>
  The meaning of a cached result, by the number of the operation. \<open>bin_sem\<close> is that of an
  operation on two diagrams.
\<close>

definition bin_sem :: "(bool \<Rightarrow> bool \<Rightarrow> bool) \<Rightarrow> llmsset \<Rightarrow> u64 \<Rightarrow> u64 \<Rightarrow> u64 \<Rightarrow> bool" where
  "bin_sem F n a b r \<longleftrightarrow> (\<exists>f g. bdd n 0 a f \<and> bdd n 0 b g \<and> bdd n 0 r (\<lambda>\<sigma>. F (f \<sigma>) (g \<sigma>)))"

definition ite_sem :: "llmsset \<Rightarrow> u64 \<Rightarrow> u64 \<Rightarrow> u64 \<Rightarrow> u64 \<Rightarrow> bool" where
  "ite_sem n a b c r \<longleftrightarrow> (\<exists>f g h. bdd n 0 a f \<and> bdd n 0 b g \<and> bdd n 0 c h \<and>
     bdd n 0 r (\<lambda>\<sigma>. if f \<sigma> then g \<sigma> else h \<sigma>))"

definition exists_sem :: "llmsset \<Rightarrow> u64 \<Rightarrow> u64 \<Rightarrow> u64 \<Rightarrow> bool" where
  "exists_sem n a b r \<longleftrightarrow> (\<exists>f S. bdd n 0 a f \<and> finite S \<and> bdd n 0 b (cube_fun S) \<and> bdd n 0 r (ex_quant S f))"

definition and_exists_sem :: "llmsset \<Rightarrow> u64 \<Rightarrow> u64 \<Rightarrow> u64 \<Rightarrow> u64 \<Rightarrow> bool" where
  "and_exists_sem n a b c r \<longleftrightarrow> (\<exists>f g S. bdd n 0 a f \<and> bdd n 0 b g \<and> finite S \<and> bdd n 0 c (cube_fun S) \<and>
     bdd n 0 r (ex_quant S (\<lambda>\<sigma>. f \<sigma> \<and> g \<sigma>)))"

definition project_sem :: "llmsset \<Rightarrow> u64 \<Rightarrow> u64 \<Rightarrow> u64 \<Rightarrow> bool" where
  "project_sem n a c r \<longleftrightarrow> (\<exists>f S. bdd n 0 a f \<and> finite S \<and> bdd n 0 c (cube_fun S) \<and> bdd n 0 r (ex_quant (- S) f))"

text \<open>
  The projection of a conjunction is only approximated from above (\<open>covers\<close>). A result under a
  care function \<open>c\<close> agrees where the function holds; \<open>constrain\<close> and \<open>restrict\<close> differ in the
  variables that it may depend on.
\<close>

definition covers :: "nat set \<Rightarrow> bfun \<Rightarrow> bfun \<Rightarrow> bfun \<Rightarrow> bool" where
  "covers S f g h \<longleftrightarrow> (\<forall>\<sigma>. ex_quant (- S) (\<lambda>\<sigma>. f \<sigma> \<and> g \<sigma>) \<sigma> \<longrightarrow> h \<sigma>) \<and> depends_on h S \<and>
     (\<forall>v. indep v f \<longrightarrow> indep v g \<longrightarrow> indep v h)"

definition and_project_sem :: "llmsset \<Rightarrow> u64 \<Rightarrow> u64 \<Rightarrow> u64 \<Rightarrow> u64 \<Rightarrow> bool" where
  "and_project_sem n a b c r \<longleftrightarrow> (\<exists>f g S h. bdd n 0 a f \<and> bdd n 0 b g \<and> finite S \<and> bdd n 0 c (cube_fun S) \<and>
     bdd n 0 r h \<and> covers S f g h)"

definition constrained :: "bfun \<Rightarrow> bfun \<Rightarrow> bfun \<Rightarrow> bool" where
  "constrained f c h \<longleftrightarrow> (\<forall>\<sigma>. c \<sigma> \<longrightarrow> h \<sigma> = f \<sigma>) \<and> (\<forall>v. indep v f \<longrightarrow> indep v c \<longrightarrow> indep v h)"

definition restricted :: "bfun \<Rightarrow> bfun \<Rightarrow> bfun \<Rightarrow> bool" where
  "restricted f c h \<longleftrightarrow> (\<forall>\<sigma>. c \<sigma> \<longrightarrow> h \<sigma> = f \<sigma>) \<and> (\<forall>S. depends_on f S \<longrightarrow> depends_on h S)"

definition care_sem :: "(bfun \<Rightarrow> bfun \<Rightarrow> bfun \<Rightarrow> bool) \<Rightarrow> llmsset \<Rightarrow> u64 \<Rightarrow> u64 \<Rightarrow> u64 \<Rightarrow> bool" where
  "care_sem R n a b r \<longleftrightarrow> (\<exists>f c h. bdd n 0 a f \<and> bdd n 0 b c \<and> bdd n 0 r h \<and> R f c h)"

definition compose_fun :: "(nat \<rightharpoonup> bfun) \<Rightarrow> bfun \<Rightarrow> bfun" where
  "compose_fun m f = (\<lambda>\<sigma>. f (\<lambda>i. case m i of None \<Rightarrow> \<sigma> i | Some g \<Rightarrow> g \<sigma>))"

definition compose_sem :: "llmsset \<Rightarrow> u64 \<Rightarrow> u64 \<Rightarrow> u64 \<Rightarrow> bool" where
  "compose_sem n a b r \<longleftrightarrow> (\<exists>f m. bdd n 0 a f \<and> bdd_map n 0 b m \<and> bdd n 0 r (compose_fun m f))"

text \<open>
  Relations have their states in pairs of variables: an even \<open>s\<close> is the source and \<open>s + 1\<close>
  the target. The word for the variables is \<open>mtbdd_false\<close> for all of them, or a set that has a
  variable of each pair; \<open>S\<close> are the source variables of the pairs.
\<close>

definition rel_vars :: "llmsset \<Rightarrow> u64 \<Rightarrow> nat set \<Rightarrow> bool" where
  "rel_vars n x S \<longleftrightarrow> x = mtbdd_false \<and> S = {i. even i} \<or>
     (\<exists>V. finite V \<and> bdd n 0 x (cube_fun V) \<and> S = (\<lambda>i. i - i mod 2) ` V)"

definition rel_next :: "nat set \<Rightarrow> bfun \<Rightarrow> bfun \<Rightarrow> bfun" where
  "rel_next S f g = (\<lambda>\<sigma>. \<exists>\<rho>. f (\<lambda>i. if i \<in> S then \<rho> i else \<sigma> i) \<and>
     g (\<lambda>i. if odd i \<and> i - 1 \<in> S then \<sigma> (i - 1) else \<rho> i))"

definition rel_prev :: "nat set \<Rightarrow> bfun \<Rightarrow> bfun \<Rightarrow> bfun" where
  "rel_prev S f g = (\<lambda>\<sigma>. \<exists>\<rho>. f (\<lambda>i. if i \<in> S then \<sigma> i else \<rho> i) \<and>
     g (\<lambda>i. if i \<in> S then \<rho> (i + 1) else \<sigma> i))"

definition rel_sem :: "(nat set \<Rightarrow> bfun \<Rightarrow> bfun \<Rightarrow> bfun) \<Rightarrow> llmsset \<Rightarrow> u64 \<Rightarrow> u64 \<Rightarrow> u64 \<Rightarrow> u64 \<Rightarrow> bool" where
  "rel_sem R n a b c r \<longleftrightarrow> (\<exists>f g S. bdd n 0 a f \<and> bdd n 0 b g \<and> rel_vars n c S \<and> bdd n 0 r (R S f g))"

text \<open>
  The closure is that of a reflexive relation; \<open>states\<close> reads a function as a relation between
  the states in the source and in the target variables.
\<close>

definition states :: "bfun \<Rightarrow> (nat \<Rightarrow> bool) \<Rightarrow> (nat \<Rightarrow> bool) \<Rightarrow> bool" where
  "states f x y = f (\<lambda>i. if even i then x (i div 2) else y (i div 2))"

definition closed :: "bfun \<Rightarrow> bfun \<Rightarrow> bool" where
  "closed f h \<longleftrightarrow> (reflp (states f) \<longrightarrow> states h = (states f)\<^sup>+\<^sup>+) \<and> (\<forall>v. even v \<longrightarrow> indep v f \<longrightarrow> indep v h)"

definition closure_sem :: "llmsset \<Rightarrow> u64 \<Rightarrow> u64 \<Rightarrow> bool" where
  "closure_sem n a r \<longleftrightarrow> (\<exists>f h. bdd n 0 a f \<and> bdd n 0 r h \<and> closed f h)"

definition op_sem :: "u64 \<Rightarrow> llmsset \<Rightarrow> u64 \<Rightarrow> u64 \<Rightarrow> u64 \<Rightarrow> u64 \<Rightarrow> bool" where
  "op_sem op n a b c r \<longleftrightarrow>
    (op = CACHE_BDD_AND \<longrightarrow> bin_sem (\<and>) n a b r) \<and>
    (op = CACHE_BDD_XOR \<longrightarrow> bin_sem (\<noteq>) n a b r) \<and>
    (op = CACHE_BDD_ITE \<longrightarrow> ite_sem n a b c r) \<and>
    (op = CACHE_BDD_EXISTS \<longrightarrow> exists_sem n a b r) \<and>
    (op = CACHE_BDD_PROJECT \<longrightarrow> project_sem n a c r) \<and>
    (op = CACHE_BDD_AND_EXISTS \<longrightarrow> and_exists_sem n a b c r) \<and>
    (op = CACHE_BDD_AND_PROJECT \<longrightarrow> and_project_sem n a b c r) \<and>
    (op = CACHE_BDD_CONSTRAIN \<longrightarrow> care_sem constrained n a b r) \<and>
    (op = CACHE_BDD_RESTRICT \<longrightarrow> care_sem restricted n a b r) \<and>
    (op = CACHE_BDD_COMPOSE \<longrightarrow> compose_sem n a b r) \<and>
    (op = CACHE_BDD_RELNEXT \<longrightarrow> rel_sem rel_next n a b c r) \<and>
    (op = CACHE_BDD_RELPREV \<longrightarrow> rel_sem rel_prev n a b c r) \<and>
    (op = CACHE_BDD_CLOSURE \<longrightarrow> closure_sem n a r)"

lemma sem_extends:
  "extends n n' \<Longrightarrow> bin_sem F n a b r \<Longrightarrow> bin_sem F n' a b r"
  "extends n n' \<Longrightarrow> ite_sem n a b c r \<Longrightarrow> ite_sem n' a b c r"
  "extends n n' \<Longrightarrow> exists_sem n a b r \<Longrightarrow> exists_sem n' a b r"
  "extends n n' \<Longrightarrow> project_sem n a c r \<Longrightarrow> project_sem n' a c r"
  "extends n n' \<Longrightarrow> and_exists_sem n a b c r \<Longrightarrow> and_exists_sem n' a b c r"
  "extends n n' \<Longrightarrow> and_project_sem n a b c r \<Longrightarrow> and_project_sem n' a b c r"
  "extends n n' \<Longrightarrow> care_sem R n a b r \<Longrightarrow> care_sem R n' a b r"
  "extends n n' \<Longrightarrow> compose_sem n a b r \<Longrightarrow> compose_sem n' a b r"
  "extends n n' \<Longrightarrow> closure_sem n a r \<Longrightarrow> closure_sem n' a r"
  unfolding bin_sem_def ite_sem_def exists_sem_def project_sem_def and_exists_sem_def and_project_sem_def
    care_sem_def compose_sem_def closure_sem_def
  by (blast intro: bdd_extends bdd_map_extends)+

lemma rel_sem_extends: "extends n n' \<Longrightarrow> rel_sem R' n a b c r \<Longrightarrow> rel_sem R' n' a b c r"
proof -
  assume e: "extends n n'" and s: "rel_sem R' n a b c r"
  have "rel_vars n c S \<Longrightarrow> rel_vars n' c S" for S using e unfolding rel_vars_def by (blast intro: bdd_extends)
  with s e show "rel_sem R' n' a b c r" unfolding rel_sem_def by (blast intro: bdd_extends)
qed

lemma op_sem_extends: "op_sem op n a b c r \<Longrightarrow> extends n n' \<Longrightarrow> op_sem op n' a b c r"
  by (simp add: op_sem_def sem_extends rel_sem_extends)

definition entry_sem :: "llmsset \<Rightarrow> u64 \<times> u64 \<times> u64 \<Rightarrow> u64 \<Rightarrow> bool" where
  "entry_sem n k r \<longleftrightarrow> (\<forall>op dd. dd_word dd \<longrightarrow> op_word op \<longrightarrow> fst k = dd OR op \<longrightarrow>
     op_sem op n dd (fst (snd k)) (snd (snd k)) r)"

lemma entry_sem_key:
  assumes "dd_word a" "op_word op"
  shows "entry_sem n (a OR op, b, c) r \<longleftrightarrow> op_sem op n a b c r"
  using assms key_op_inj unfolding entry_sem_def by (metis fst_conv snd_conv)

definition cache_sound :: "llmsset \<Rightarrow> opcache \<Rightarrow> bool" where
  "cache_sound n cs \<longleftrightarrow> answers_sound good_key find3 (entry_sem n) cs"

definition bdd_ok :: "sylvan \<Rightarrow> bool" where
  "bdd_ok st \<longleftrightarrow> state_ok st \<and> cache_sound (nodes st) (ocache st)"

lemma cache_sound_extends: "cache_sound n cs \<Longrightarrow> extends n n' \<Longrightarrow> cache_sound n' cs"
  unfolding cache_sound_def
  by (erule answers_sound_mono) (auto simp: entry_sem_def intro: op_sem_extends)

lemma cache_sound_fresh: "cache_fresh cs \<Longrightarrow> cache_sound n cs"
  unfolding cache_sound_def by (rule oc.sound_fresh)

lemma bdd_ok_state: "bdd_ok st \<Longrightarrow> state_ok st"
  by (simp add: bdd_ok_def)

lemma bdd_ok_table: "bdd_ok st \<Longrightarrow> table_ok (nodes st)"
  by (simp add: bdd_ok_def state_ok_def)

lemma push_bdd_ok: "bdd_ok st \<Longrightarrow> valid st x \<Longrightarrow> bdd_ok (mtbdd_refs_push x st)"
  by (simp add: bdd_ok_def push_ok)

lemma pop_bdd_ok: "bdd_ok st \<Longrightarrow> bdd_ok (mtbdd_refs_pop k st)"
  by (simp add: bdd_ok_def pop_ok)

section \<open>Entering a node\<close>

lemma lookup_max_size: "lookup_outcome s a b r c t \<Longrightarrow> max_size t = max_size s"
  by (auto simp: lookup_outcome_def same_but_region_sel write_data_def split: if_splits)

text \<open>A lookup of an inner node whose children are valid.\<close>

lemma lookup_node_yields:
  assumes ok: "bdd_ok st" and p: "(a, b) \<noteq> (0, 0)"
    and ch: "\<not> mtbddnode_isleaf (a, b) \<Longrightarrow> root_in (live_set (nodes st)) (mtbddnode_getlow (a, b)) \<and>
      root_in (live_set (nodes st)) (mtbddnode_gethigh (a, b))"
  shows "yields st (lookup_node (a, b) st) (\<lambda>index t. bdd_ok t \<and> same_but_tables st t \<and>
    max_size (nodes t) = max_size (nodes st) \<and> extends (nodes st) (nodes t) \<and>
    (index \<noteq> 0 \<longrightarrow> (\<exists>d. index = of_nat d \<and> live (nodes t) d \<and> dptr (nodes t) d = (a, b))))"
proof -
  have tb: "table_ok (nodes st)" and st: "state_ok st" and cs: "cache_sound (nodes st) (ocache st)"
    using ok by (auto simp: bdd_ok_def state_ok_def)
  from ut.returns [OF tb p] show ?thesis
  proof
    assume "llmsset_lookup (nodes st) a b = Inl OutOfFuel \<and> full (nodes st) \<and> 2 ^ 17 < max_size (nodes st)"
    then show ?thesis by (simp add: lookup_node_def stops_def)
  next
    assume "\<exists>r c t. llmsset_lookup (nodes st) a b = Inr (r, c, t)"
    then obtain r c n where l: "llmsset_lookup (nodes st) a b = Inr (r, c, n)" by blast
    have mx: "max_size n = max_size (nodes st)"
      using lookup_max_size lookup_outcome_facts(2) [OF tb p l] by blast
    have ext: "extends (nodes st) n" using ut.keeps_pairs [OF tb p l] by (simp add: extends_def)
    have new: "live n d \<Longrightarrow> live (nodes st) d \<or> dptr n d = (a, b)" for d using ut.adds_only [OF tb p l] .
    have tn: "table_ok n" using ut.keeps_inv [OF tb p l] .
    have cl: "closed_set (nodes st) (live_set (nodes st))" using st by (simp add: state_ok_def)
    have "closed_set n (live_set n)"
      unfolding closed_set_def
    proof (intro conjI ballI impI)
      show "live_set n \<subseteq> {2..<table_size n}"
        using live_less [OF table_ok_shape [OF tn]] by (auto simp: live_set_def)
      fix d assume d: "d \<in> live_set n" and i: "inner n d"
      show "lo_index n d = 0 \<or> lo_index n d \<in> live_set n" "hi_index n d = 0 \<or> hi_index n d \<in> live_set n"
      proof (atomize (full), cases "live (nodes st) d")
        case True
        then have "dptr n d = dptr (nodes st) d" using ext by (simp add: extends_def)
        then show "(lo_index n d = 0 \<or> lo_index n d \<in> live_set n) \<and> (hi_index n d = 0 \<or> hi_index n d \<in> live_set n)"
          using cl True i ext by (auto simp: closed_set_def live_set_def inner_def lo_index_def hi_index_def extends_def)
      next
        case False
        then have "dptr n d = (a, b)" using new d by (auto simp: live_set_def)
        then show "(lo_index n d = 0 \<or> lo_index n d \<in> live_set n) \<and> (hi_index n d = 0 \<or> hi_index n d \<in> live_set n)"
          using ch i ext by (auto simp: inner_def lo_index_def hi_index_def root_in_def live_set_def extends_def)
      qed
    qed
    moreover have "\<forall>x \<in> roots st. root_in (live_set n) x"
      using st ext by (auto simp: state_ok_def root_in_def live_set_def extends_def)
    ultimately have "state_ok (st\<lparr>nodes := n\<rparr>)"
      using st tn mx by (simp add: state_ok_def roots_def)
    then have "bdd_ok (st\<lparr>nodes := n\<rparr>)" using cache_sound_extends [OF cs ext] by (simp add: bdd_ok_def)
    moreover have "same_but_tables st (st\<lparr>nodes := n\<rparr>)"
      unfolding same_but_tables_def by (rule exI [of _ n], rule exI [of _ "ocache st"]) simp
    ultimately show ?thesis
      using l mx ext ut.answers [OF tb p l] by (simp add: lookup_node_def)
  qed
qed

lemma sylvan_gc_yields:
  assumes ok: "bdd_ok st"
  shows "\<exists>st'. sylvan_gc st = Inr st' \<and> bdd_ok st' \<and> keep st st'"
proof (cases "gc_enabled st")
  case True
  obtain st' where "sylvan_gc_go st = Inr st'" "state_ok st'" "same_but_tables st st'" "cache_fresh (ocache st')"
    "max_size (nodes st') = max_size (nodes st)" "\<forall>d. live (nodes st') d \<longleftrightarrow> reach (nodes st) (roots st) d"
    "\<forall>d. dptr (nodes st') d = dptr (nodes st) d"
    using sylvan_gc_go_spec [OF bdd_ok_state [OF ok]] by blast
  then show ?thesis using True by (simp add: sylvan_gc_def bdd_ok_def keep_def cache_sound_fresh)
next
  case False
  then show ?thesis using ok keep_refl [OF bdd_ok_state] by (simp add: sylvan_gc_def)
qed


text \<open>
  The constructor, after normalisation: \<open>low\<close> has no mark. Its result is valid, its
  function is the decision on \<open>var\<close>, and everything that was safe is kept.
\<close>

definition results :: "sylvan \<Rightarrow> serror + (u64 \<times> sylvan) \<Rightarrow> bfun \<Rightarrow> bool" where
  "results st m f \<longleftrightarrow> yields st m (\<lambda>r t. bdd_ok t \<and> keep st t \<and> bdd (nodes t) 0 r f)"

definition branch :: "nat \<Rightarrow> bfun \<Rightarrow> bfun \<Rightarrow> bfun" where
  "branch i fl fh = (\<lambda>\<sigma>. if \<sigma> i then fh \<sigma> else fl \<sigma>)"

text \<open>From the index of a node that was entered to its diagram.\<close>

lemma bdd_of_index:
  assumes lv: "live n d" "dptr n d = mtbddnode_makenode var low high" and tb: "table_ok n"
    and v: "unat var < 2 ^ 24" and m: "\<not> MTBDD_HASMARK low" "low \<noteq> high"
    and b: "bdd n (Suc (unat var)) low fl" "bdd n (Suc (unat var)) high fh"
  shows "bdd n 0 (of_nat d) (branch (unat var) fl fh)"
    "bdd n 0 (mtbdd_not (of_nat d)) (branch (unat var) (\<lambda>\<sigma>. \<not> fl \<sigma>) (\<lambda>\<sigma>. \<not> fh \<sigma>))"
proof -
  have d: "d < 2 ^ 40" using live_less [OF table_ok_shape [OF tb] lv(1)] by simp
  note i = index_fields [OF d]
  have "bdd n 0 (of_nat d) (\<lambda>\<sigma>. MTBDD_HASMARK (of_nat d) \<noteq> (if \<sigma> (unat var) then fh \<sigma> else fl \<sigma>))"
    by (rule bdd.bdd_node [OF i(3) _ _ _ v m b]) (simp_all add: i lv)
  then show 1: "bdd n 0 (of_nat d) (branch (unat var) fl fh)" by (simp add: i(2) branch_def)
  from bdd_not [OF 1]
  show "bdd n 0 (mtbdd_not (of_nat d)) (branch (unat var) (\<lambda>\<sigma>. \<not> fl \<sigma>) (\<lambda>\<sigma>. \<not> fh \<sigma>))"
    by (simp add: branch_def if_distrib cong: if_cong)
qed

lemma finish_index:
  assumes "live n d" "dptr n d = mtbddnode_makenode var low high" "table_ok n"
    "unat var < 2 ^ 24" "\<not> MTBDD_HASMARK low" "low \<noteq> high"
    "bdd n (Suc (unat var)) low (\<lambda>\<sigma>. mk \<noteq> fl \<sigma>)" "bdd n (Suc (unat var)) high (\<lambda>\<sigma>. mk \<noteq> fh \<sigma>)"
  shows "bdd n 0 (if mk then of_nat d OR mtbdd_complement else of_nat d) (branch (unat var) fl fh)"
proof -
  have d: "d < 2 ^ 40" using live_less [OF table_ok_shape [OF assms(3)] assms(1)] by simp
  show ?thesis using bdd_of_index [OF assms] index_fields(4) [OF d] by (cases mk) simp_all
qed

lemma normal_children:
  assumes ok: "bdd_ok st" and b: "bdd (nodes st) 0 low fl" "bdd (nodes st) 0 high fh" and ne: "low \<noteq> high"
    and i: "indep (Suc (unat var)) fl" "indep (Suc (unat var)) fh"
  defines "mk \<equiv> MTBDD_HASMARK low"
  defines "l \<equiv> (if mk then mtbdd_not low else low)" and "h \<equiv> (if mk then mtbdd_not high else high)"
  shows "\<not> MTBDD_HASMARK l" "l \<noteq> h" "bdd (nodes st) (Suc (unat var)) l (\<lambda>\<sigma>. mk \<noteq> fl \<sigma>)"
    "bdd (nodes st) (Suc (unat var)) h (\<lambda>\<sigma>. mk \<noteq> fh \<sigma>)"
proof -
  note lv = bdd_level [OF bdd_ok_table [OF ok] b(1) i(1)] bdd_level [OF bdd_ok_table [OF ok] b(2) i(2)]
  show "\<not> MTBDD_HASMARK l" by (simp add: l_def mk_def dd_simps)
  show "l \<noteq> h" using ne by (simp add: l_def h_def dd_simps)
  show "bdd (nodes st) (Suc (unat var)) l (\<lambda>\<sigma>. mk \<noteq> fl \<sigma>)" using bdd_not [OF lv(1)] lv(1) by (simp add: l_def)
  show "bdd (nodes st) (Suc (unat var)) h (\<lambda>\<sigma>. mk \<noteq> fh \<sigma>)" using bdd_not [OF lv(2)] lv(2) by (simp add: h_def)
qed

text \<open>One lookup of a node with normal children.\<close>

lemma lookup_normal:
  assumes ok: "bdd_ok st" and l: "bdd (nodes st) v low fl" "\<not> MTBDD_HASMARK low"
    and h: "bdd (nodes st) v high fh" and ne: "low \<noteq> high" and v: "unat var < 2 ^ 24"
  shows "yields st (lookup_node (mtbddnode_makenode var low high) st) (\<lambda>index t. bdd_ok t \<and> same_but_tables st t \<and>
    max_size (nodes t) = max_size (nodes st) \<and> extends (nodes st) (nodes t) \<and>
    (index \<noteq> 0 \<longrightarrow> (\<exists>d. index = of_nat d \<and> live (nodes t) d \<and> dptr (nodes t) d = mtbddnode_makenode var low high)))"
proof -
  note d = bdd_dd_word [OF l(1)] bdd_dd_word [OF h]
  note mf = makenode_fields [OF d(1) l(2) d(2) v]
  obtain a b where ab: "mtbddnode_makenode var low high = (a, b)" by (cases "mtbddnode_makenode var low high")
  have "(a, b) \<noteq> (0, 0)" using makenode_not_blank [OF d(1) l(2) d(2) v ne] ab by simp
  then show ?thesis
    unfolding ab by (rule lookup_node_yields [OF ok])
      (use mf bdd_valid [OF l(1)] bdd_valid [OF h] in \<open>simp_all add: ab valid_def\<close>)
qed

lemma mtbdd_makenode'_results:
  assumes ok: "bdd_ok st" and b: "bdd (nodes st) 0 low fl" "bdd (nodes st) 0 high fh" and ne: "low \<noteq> high"
    and i: "indep (Suc (unat var)) fl" "indep (Suc (unat var)) fh" and v: "unat var < 2 ^ 24"
  shows "results st (mtbdd_makenode' var low high st) (branch (unat var) fl fh)"
proof -
  define mk where "mk = MTBDD_HASMARK low"
  define l where "l = (if mk then mtbdd_not low else low)"
  define h where "h = (if mk then mtbdd_not high else high)"
  note nc = normal_children [OF ok b ne i, folded mk_def, folded l_def h_def]
  let ?nd = "mtbddnode_makenode var l h"
  have run: "mtbdd_makenode' var low high st = bindE (lookup_node ?nd st) (\<lambda>(index, st).
          if index = 0 then
            bindE (sylvan_gc (mtbdd_refs_push h (mtbdd_refs_push l st))) (\<lambda>st.
            bindE (lookup_node ?nd (mtbdd_refs_pop 2 st)) (\<lambda>(index, st).
              if index = 0 then Inl TableFull
              else Inr (if mk then index OR mtbdd_complement else index, st)))
          else Inr (if mk then index OR mtbdd_complement else index, st))"
    by (cases mk) (simp_all add: mtbdd_makenode'_def mk_def l_def h_def toggle_not Let_def cong: if_cong)
  show ?thesis
    unfolding results_def run
  proof (rule yields_bind [OF lookup_normal [OF ok nc(3,1,4,2) v]], goal_cases)
    case (1 index t)
    then have t: "bdd_ok t" "keep st t" "extends (nodes st) (nodes t)" "max_size (nodes t) = max_size (nodes st)"
      using extends_keep [OF bdd_ok_state [OF ok]] by auto
    note lt = bdd_extends [OF nc(3) t(3)] and ht = bdd_extends [OF nc(4) t(3)]
    show ?case
    proof (cases "index = 0")
      case False
      then obtain d where d: "index = of_nat d" "live (nodes t) d" "dptr (nodes t) d = ?nd" using 1 by blast
      from finish_index [OF d(2,3) bdd_ok_table [OF t(1)] v nc(1,2) lt ht] t False
      show ?thesis by (simp add: d(1))
    next
      case True
      define p where "p = mtbdd_refs_push h (mtbdd_refs_push l t)"
      have pok: "bdd_ok p"
        unfolding p_def by (intro push_bdd_ok t(1)) (use lt ht in \<open>auto intro: bdd_valid simp: valid_def dest: bdd_valid\<close>)
      obtain u where u: "sylvan_gc p = Inr u" "bdd_ok u" "keep p u" using sylvan_gc_yields [OF pok] by blast
      have sl: "safe p l" "safe p h"
        unfolding p_def using bdd_dd_word [OF lt] bdd_dd_word [OF ht] by (auto intro: push_safe push_safe_new)
      have bu: "bdd (nodes u) (Suc (unat var)) l (\<lambda>\<sigma>. mk \<noteq> fl \<sigma>)" "bdd (nodes u) (Suc (unat var)) h (\<lambda>\<sigma>. mk \<noteq> fh \<sigma>)"
        using keep_bdd [OF u(3) sl(1)] keep_bdd [OF u(3) sl(2)] lt ht by (simp_all add: p_def)
      let ?w = "mtbdd_refs_pop 2 u"
      have bw: "bdd (nodes ?w) (Suc (unat var)) l (\<lambda>\<sigma>. mk \<noteq> fl \<sigma>)" "bdd (nodes ?w) (Suc (unat var)) h (\<lambda>\<sigma>. mk \<noteq> fh \<sigma>)"
        using bu by simp_all
      have w: "bdd_ok ?w" "keep st ?w" "max_size (nodes ?w) = max_size (nodes st)"
      proof -
        show "bdd_ok ?w" by (rule pop_bdd_ok [OF u(2)])
        have "keep t ?w"
          unfolding pop2 by (rule keep_pop_push, rule keep_pop_push) (use u(3) in \<open>simp only: p_def\<close>)
        then show k: "keep st ?w" using t(2) keep_trans by blast
        then show "max_size (nodes ?w) = max_size (nodes st)" by (simp add: keep_def)
      qed
      have "yields ?w (bindE (lookup_node ?nd ?w) (\<lambda>(index, st). if index = 0 then Inl TableFull
              else Inr (if mk then index OR mtbdd_complement else index, st)))
          (\<lambda>r t. bdd_ok t \<and> keep st t \<and> bdd (nodes t) 0 r (branch (unat var) fl fh))"
      proof (rule yields_bind [OF lookup_normal [OF w(1) bw(1) nc(1) bw(2) nc(2) v]], goal_cases)
        case (1 index x)
        show ?case
        proof (cases "index = 0")
          case False
          then obtain d where d: "index = of_nat d" "live (nodes x) d" "dptr (nodes x) d = ?nd" using 1 by blast
          have x: "bdd_ok x" "keep ?w x" "extends (nodes ?w) (nodes x)"
            using 1 extends_keep [OF bdd_ok_state [OF w(1)]] by auto
          have "bdd (nodes x) (Suc (unat var)) l (\<lambda>\<sigma>. mk \<noteq> fl \<sigma>)" "bdd (nodes x) (Suc (unat var)) h (\<lambda>\<sigma>. mk \<noteq> fh \<sigma>)"
            using bdd_extends [OF _ x(3)] bu by simp_all
          from finish_index [OF d(2,3) bdd_ok_table [OF x(1)] v nc(1,2) this] x keep_trans [OF w(2) x(2)] False
          show ?thesis by (simp add: d(1))
        qed simp
      qed
      then have "yields st (bindE (lookup_node ?nd ?w) (\<lambda>(index, st). if index = 0 then Inl TableFull
              else Inr (if mk then index OR mtbdd_complement else index, st)))
          (\<lambda>r t. bdd_ok t \<and> keep st t \<and> bdd (nodes t) 0 r (branch (unat var) fl fh))"
        using yields_cong [OF w(3)] by blast
      with True u(1) show ?thesis by (simp add: p_def)
    qed
  qed
qed

lemma mtbdd_makenode_results:
  assumes ok: "bdd_ok st" and b: "bdd (nodes st) 0 low fl" "bdd (nodes st) 0 high fh"
    and i: "indep (Suc (unat var)) fl" "indep (Suc (unat var)) fh" and v: "unat var < 2 ^ 24"
  shows "results st (mtbdd_makenode var low high st) (branch (unat var) fl fh)"
proof (cases "low = high")
  case True
  have "fl = fh" using bdd_fun b True by blast
  then have "branch (unat var) fl fh = fl" by (auto simp: branch_def)
  then show ?thesis using True ok b keep_refl [OF bdd_ok_state [OF ok]]
    by (simp add: results_def mtbdd_makenode_def)
next
  case False
  then show ?thesis using mtbdd_makenode'_results [OF assms(1-3) False i v] by (simp add: mtbdd_makenode_def)
qed

lemma mtbdd_makenode_nogc_results:
  assumes ok: "bdd_ok st" and b: "bdd (nodes st) 0 low fl" "bdd (nodes st) 0 high fh"
    and i: "indep (Suc (unat var)) fl" "indep (Suc (unat var)) fh" and v: "unat var < 2 ^ 24"
  shows "yields st (mtbdd_makenode_nogc var low high st) (\<lambda>r t. bdd_ok t \<and> same_but_tables st t \<and>
    max_size (nodes t) = max_size (nodes st) \<and> extends (nodes st) (nodes t) \<and>
    bdd (nodes t) 0 r (branch (unat var) fl fh))"
proof (cases "low = high")
  case True
  have "fl = fh" using bdd_fun b True by blast
  then have "branch (unat var) fl fh = fl" by (auto simp: branch_def)
  then show ?thesis using True ok b by (simp add: mtbdd_makenode_nogc_def)
next
  case False
  define mk where "mk = MTBDD_HASMARK low"
  define l where "l = (if mk then mtbdd_not low else low)"
  define h where "h = (if mk then mtbdd_not high else high)"
  note nc = normal_children [OF ok b False i, folded mk_def, folded l_def h_def]
  have run: "mtbdd_makenode_nogc var low high st = bindE (lookup_node (mtbddnode_makenode var l h) st) (\<lambda>(index, st).
          if index = 0 then Inl TableFull
          else Inr (if mk then index OR mtbdd_complement else index, st))"
    using False
    by (cases mk) (simp_all add: mtbdd_makenode_nogc_def mtbdd_makenode_nogc'_def mk_def l_def h_def toggle_not Let_def cong: if_cong)
  show ?thesis
    unfolding run
  proof (rule yields_bind [OF lookup_normal [OF ok nc(3,1,4,2) v]], goal_cases)
    case (1 index t)
    show ?case
    proof (cases "index = 0")
      case F: False
      then obtain d where d: "index = of_nat d" "live (nodes t) d" "dptr (nodes t) d = mtbddnode_makenode var l h"
        using 1 by blast
      have t: "bdd_ok t" "extends (nodes st) (nodes t)" using 1 by auto
      note lt = bdd_extends [OF nc(3) t(2)] and ht = bdd_extends [OF nc(4) t(2)]
      from finish_index [OF d(2,3) bdd_ok_table [OF t(1)] v nc(1,2) lt ht] 1 F
      show ?thesis by (simp add: d(1))
    qed simp
  qed
qed

end
