(* ===== verification/BddOps.thy ===== *)
theory BddOps
  imports BddStore
begin

text \<open>
  What the recursive operations on diagrams share: when they use the cache, how they take
  cofactors, and how the contract of a call follows from those of its branches. There are
  two worlds: with collection, where what is reachable from the roots stays, and without,
  where everything stays. The locale \<open>store_world\<close> states what an operation needs of
  either, and its lemmas are used by every operation.
\<close>

section \<open>Parts that the operations share\<close>

text \<open>Whether the cache is used between these levels.\<close>

definition cachenow :: "sylvan \<Rightarrow> u32 \<Rightarrow> u32 \<Rightarrow> bool" where
  "cachenow st prev_level level =
    (if granularity st < 2 \<or> prev_level = 0 then True
     else uint prev_level div granularity st \<noteq> uint level div granularity st)"

text \<open>The cofactors of \<open>x\<close> at \<open>level\<close>, which is not below its variable.\<close>

definition cofactors :: "sylvan \<Rightarrow> u32 \<Rightarrow> u64 \<Rightarrow> u64 \<times> u64" where
  "cofactors st level x =
    (let n = MTBDD_GETNODE (nodes st) x
     in if level = mtbddnode_getvariable n then (mtbddnode_followlow x n, mtbddnode_followhigh x n) else (x, x))"

definition min_level :: "u32 \<Rightarrow> u32 \<Rightarrow> u32" where
  "min_level va vb = (if va < vb then va else vb)"

definition getvar :: "sylvan \<Rightarrow> u64 \<Rightarrow> u32" where
  "getvar st x = mtbddnode_getvariable (MTBDD_GETNODE (nodes st) x)"

definition try_cache :: "sylvan \<Rightarrow> bool \<Rightarrow> u64 \<Rightarrow> u64 \<Rightarrow> u64 \<Rightarrow> u64 \<Rightarrow> u64 option" where
  "try_cache st cn op a b c = (if cn then cache_get3 (ocache st) op a b c else None)"

definition put_cache :: "bool \<Rightarrow> u64 \<Rightarrow> u64 \<Rightarrow> u64 \<Rightarrow> u64 \<Rightarrow> u64 \<Rightarrow> sylvan \<Rightarrow> sylvan" where
  "put_cache cn op a b c r st = (if cn then st\<lparr>ocache := snd (cache_put3 (ocache st) op a b c r)\<rparr> else st)"

definition mark_result :: "bool \<Rightarrow> u64 \<Rightarrow> u64" where
  "mark_result mark r = (if mark then mtbdd_not r else r)"

lemma strip_unmarked: "\<not> MTBDD_HASMARK x \<Longrightarrow> MTBDD_STRIPMARK x = x"
  and strip_marked: "MTBDD_HASMARK x \<Longrightarrow> MTBDD_STRIPMARK x = mtbdd_not x"
  by (auto intro!: bit_word_eqI simp: MTBDD_STRIPMARK_def HASMARK_bit bit_and_iff bit_not_iff bit_complement
      mtbdd_not_def bit_xor_iff possible_bit_word dest: bit_u64_less)

lemma const_distinct [simp]: "mtbdd_true \<noteq> mtbdd_false" "mtbdd_false \<noteq> mtbdd_true"
  by (simp_all add: mtbdd_true_def mtbdd_false_def)

lemma not_const_iff [simp]:
  "mtbdd_not x = mtbdd_true \<longleftrightarrow> x = mtbdd_false" "mtbdd_not x = mtbdd_false \<longleftrightarrow> x = mtbdd_true"
  using not_fields(4) [of x] not_const by metis+

section \<open>Contracts\<close>

text \<open>
  \<open>gives R st m P\<close>: the computation \<open>m\<close>, started in \<open>st\<close>, stops for lack of room or
  returns a diagram whose function satisfies \<open>P\<close>, in a well-formed state that is related
  to \<open>st\<close> by \<open>R\<close>. \<open>gives_with\<close> also keeps the diagram \<open>x\<close> of \<open>fx\<close>.
\<close>

definition gives :: "(sylvan \<Rightarrow> sylvan \<Rightarrow> bool) \<Rightarrow> sylvan \<Rightarrow> serror + (u64 \<times> sylvan) \<Rightarrow> (bfun \<Rightarrow> bool) \<Rightarrow> bool" where
  "gives R st m P \<longleftrightarrow> yields st m (\<lambda>r t. bdd_ok t \<and> R st t \<and> (\<exists>f. P f \<and> bdd (nodes t) 0 r f))"

definition gives_with :: "(sylvan \<Rightarrow> sylvan \<Rightarrow> bool) \<Rightarrow> sylvan \<Rightarrow> serror + (u64 \<times> sylvan) \<Rightarrow>
    u64 \<Rightarrow> bfun \<Rightarrow> (bfun \<Rightarrow> bool) \<Rightarrow> bool" where
  "gives_with R st m x fx P \<longleftrightarrow> yields st m (\<lambda>r t. bdd_ok t \<and> R st t \<and> bdd (nodes t) 0 x fx \<and>
     (\<exists>f. P f \<and> bdd (nodes t) 0 r f))"

lemma results_gives: "results st m f \<longleftrightarrow> gives keep st m (\<lambda>g. g = f)"
  by (simp add: results_def gives_def)

definition grows :: "sylvan \<Rightarrow> sylvan \<Rightarrow> bool" where
  "grows st t \<longleftrightarrow> same_but_tables st t \<and> max_size (nodes t) = max_size (nodes st) \<and>
     extends (nodes st) (nodes t)"

lemma gives_Inr: "bdd_ok st \<Longrightarrow> R st st \<Longrightarrow> bdd (nodes st) 0 r f \<Longrightarrow> P f \<Longrightarrow> gives R st (Inr (r, st)) P"
  by (auto simp: gives_def)

lemma gives_mono: "gives R st m P \<Longrightarrow> (\<And>f. P f \<Longrightarrow> Q f) \<Longrightarrow> gives R st m Q"
  unfolding gives_def by (erule yields_mono) auto

lemma gives_stop: "stops st e \<Longrightarrow> gives R st (Inl e) P"
  by (simp add: gives_def)

lemma gives_mark:
  assumes "gives R st m P"
  shows "gives R st (bindE m (\<lambda>(r, t). Inr (mark_result mk r, t))) (\<lambda>f. P (\<lambda>\<sigma>. mk \<noteq> f \<sigma>))"
proof -
  have eq: "(\<lambda>\<sigma>. mk \<noteq> (mk \<noteq> f \<sigma>)) = f" for f :: bfun by auto
  show ?thesis
    unfolding gives_def
  proof (rule yields_bind [OF assms [unfolded gives_def]], goal_cases)
    case (1 r t)
    then obtain f where f: "P f" "bdd (nodes t) 0 r f" by blast
    have "bdd (nodes t) 0 (mark_result mk r) (\<lambda>\<sigma>. mk \<noteq> f \<sigma>)"
      using f(2) bdd_not [OF f(2)] by (simp add: mark_result_def)
    moreover have "P (\<lambda>\<sigma>. mk \<noteq> (mk \<noteq> f \<sigma>))" using f(1) unfolding eq .
    ultimately show ?case unfolding prod.case yields_Inr using 1 by (intro conjI exI [of _ "\<lambda>\<sigma>. mk \<noteq> f \<sigma>"]) auto
  qed
qed

section \<open>The cache\<close>

lemma try_cache_sem:
  assumes ok: "bdd_ok st" and a: "dd_word a" "op_word op" and nz: "a OR op \<noteq> 0"
    and t: "try_cache st cn op a b c = Some r"
  shows "op_sem op (nodes st) a b c r"
proof -
  have "find3 (ocache st) (a OR op, b, c) = Some r"
    using t by (simp add: try_cache_def find3_def cache_get3_def split: if_splits)
  moreover have "good_key (a OR op, b, c)" using nz by (simp add: good_key_def)
  ultimately have "entry_sem (nodes st) (a OR op, b, c) r"
    using ok by (auto simp: bdd_ok_def cache_sound_def answers_sound_def)
  then show ?thesis using entry_sem_key [OF a] by simp
qed

lemma put_cache_ok:
  assumes ok: "bdd_ok st" and a: "dd_word a" "op_word op" and s: "op_sem op (nodes st) a b c r"
  shows "bdd_ok (put_cache cn op a b c r st)"
proof (cases cn)
  case True
  let ?cs = "store3 (ocache st) (a OR op, b, c) r"
  have st: "state_ok st" "cache_sound (nodes st) (ocache st)" using ok by (auto simp: bdd_ok_def)
  then have u: "cache_unlocked (ocache st)" by (simp add: state_ok_def)
  have "cache_sound (nodes st) ?cs"
    unfolding cache_sound_def
    by (rule oc.sound_store [OF u st(2) [unfolded cache_sound_def]]) (use s entry_sem_key [OF a] in simp)
  moreover have "cache_unlocked ?cs" by (rule oc.store_inv [OF u])
  moreover have "cache_shape ?cs"
    using st by (simp add: state_ok_def cache_shape_def store3_def cache_put_unlocked [OF u])
  ultimately show ?thesis
    using st(1) True by (simp add: bdd_ok_def put_cache_def state_ok_def roots_def store3_def cache_put3_def)
next
  case False
  then show ?thesis using ok by (simp add: put_cache_def)
qed

lemma put_cache_sel [simp]: "nodes (put_cache cn op a b c r st) = nodes st"
  by (simp add: put_cache_def)

section \<open>Cofactors and levels\<close>

lemma bdd_nonconst: "bdd n v x f \<Longrightarrow> x \<noteq> mtbdd_true \<Longrightarrow> x \<noteq> mtbdd_false \<Longrightarrow> MTBDD_INDEX x \<noteq> 0"
  using bdd_const_fun by blast

lemma index_nonzero: "MTBDD_INDEX x \<noteq> 0 \<Longrightarrow> x \<noteq> 0"
  by (auto simp: MTBDD_INDEX_def)

lemma bdd_getvar:
  assumes "bdd (nodes st) v x f" "MTBDD_INDEX x \<noteq> 0"
  shows "v \<le> unat (getvar st x)" "unat (getvar st x) < 2 ^ 24" "indep (unat (getvar st x)) f"
proof -
  have "getvar st x = mtbddnode_getvariable (MTBDD_GETNODE (nodes st) x)" by (simp add: getvar_def)
  with bdd_inner(1,2) [OF assms] show "v \<le> unat (getvar st x)" "unat (getvar st x) < 2 ^ 24" by simp_all
  have "bdd (nodes st) (unat (getvar st x)) x f"
    by (rule bdd_raise [OF assms(1)]) (simp add: top_var_node [symmetric] getvar_def)
  then show "indep (unat (getvar st x)) f" by (rule bdd_indep)
qed

lemma cofactors_bdd:
  assumes b: "bdd (nodes st) v x f" and nc: "MTBDD_INDEX x \<noteq> 0" and i: "indep (unat level) f"
    and tb: "table_ok (nodes st)"
  shows "bdd (nodes st) (Suc (unat level)) (fst (cofactors st level x)) (cof f (unat level) False)"
    "bdd (nodes st) (Suc (unat level)) (snd (cofactors st level x)) (cof f (unat level) True)"
proof -
  let ?nd = "MTBDD_GETNODE (nodes st) x" and ?l = "unat level"
  have bi: "bdd (nodes st) ?l x f" by (rule bdd_level [OF tb b i])
  have "bdd (nodes st) (Suc ?l) (fst (cofactors st level x)) (cof f ?l False) \<and>
    bdd (nodes st) (Suc ?l) (snd (cofactors st level x)) (cof f ?l True)"
  proof (cases "level = mtbddnode_getvariable ?nd")
    case True
    then show ?thesis using bdd_inner(5,6) [OF b nc] by (simp add: cofactors_def Let_def)
  next
    case False
    then have "?l \<noteq> top_var (nodes st) x" by (simp add: top_var_node [symmetric] word_unat_eq_iff)
    moreover have "?l \<le> top_var (nodes st) x" using bdd_inner(1) [OF bi nc] by (simp add: top_var_node)
    ultimately have bs: "bdd (nodes st) (Suc ?l) x f" by (intro bdd_raise [OF b]) simp
    then show ?thesis using False by (simp add: cofactors_def Let_def cof_indep [OF bdd_indep [OF bs]])
  qed
  then show "bdd (nodes st) (Suc ?l) (fst (cofactors st level x)) (cof f ?l False)"
    "bdd (nodes st) (Suc ?l) (snd (cofactors st level x)) (cof f ?l True)" by auto
qed

lemma min_level_facts:
  assumes "bdd (nodes st) v a f" "MTBDD_INDEX a \<noteq> 0" "bdd (nodes st) v b g" "MTBDD_INDEX b \<noteq> 0"
  defines "l \<equiv> min_level (getvar st a) (getvar st b)"
  shows "v \<le> unat l" "unat l < 2 ^ 24" "indep (unat l) f" "indep (unat l) g"
proof -
  note ga = bdd_getvar [OF assms(1,2)] and gb = bdd_getvar [OF assms(3,4)]
  have "unat l = min (unat (getvar st a)) (unat (getvar st b))"
    by (simp add: l_def min_level_def word_less_nat_alt min_def)
  then show "v \<le> unat l" "unat l < 2 ^ 24" "indep (unat l) f" "indep (unat l) g"
    using ga gb by (auto intro: indep_mono)
qed

lemma bin_sem_bdd: "bin_sem F n a b r \<Longrightarrow> bdd n v a f \<Longrightarrow> bdd n u b g \<Longrightarrow> bdd n 0 r (\<lambda>\<sigma>. F (f \<sigma>) (g \<sigma>))"
  unfolding bin_sem_def using bdd_fun by metis

lemma branch_cof: "branch i (cof f i False) (cof f i True) = f"
  unfolding branch_def by (rule shannon)

section \<open>Two worlds\<close>

text \<open>
  What an operation needs of its store: \<open>held\<close> says that a diagram stays while the
  operation runs, \<open>evolves\<close> is what the state may become, and \<open>mk\<close> is the constructor.
\<close>

locale store_world =
  fixes held :: "sylvan \<Rightarrow> u64 \<Rightarrow> bool"
    and evolves :: "sylvan \<Rightarrow> sylvan \<Rightarrow> bool"
    and mk :: "u32 \<Rightarrow> u64 \<Rightarrow> u64 \<Rightarrow> sylvan \<Rightarrow> serror + (u64 \<times> sylvan)"
  assumes evolves_refl: "bdd_ok s \<Longrightarrow> evolves s s"
    and evolves_trans: "evolves s t \<Longrightarrow> evolves t u \<Longrightarrow> evolves s u"
    and evolves_room: "evolves s t \<Longrightarrow> max_size (nodes t) = max_size (nodes s)"
    and evolves_cache: "evolves s t \<Longrightarrow> evolves s (t\<lparr>ocache := c\<rparr>)"
    and held_evolves: "evolves s t \<Longrightarrow> held s x \<Longrightarrow> held t x"
    and bdd_evolves: "evolves s t \<Longrightarrow> held s x \<Longrightarrow> bdd (nodes s) v x f \<Longrightarrow> bdd (nodes t) v x f"
    and held_const: "held s mtbdd_true" "held s mtbdd_false"
    and held_not: "held s x \<Longrightarrow> held s (mtbdd_not x)"
    and held_follow: "held s x \<Longrightarrow> bdd (nodes s) v x f \<Longrightarrow> MTBDD_INDEX x \<noteq> 0 \<Longrightarrow>
      held s (mtbddnode_followlow x (MTBDD_GETNODE (nodes s) x)) \<and>
      held s (mtbddnode_followhigh x (MTBDD_GETNODE (nodes s) x))"
    and mk_gives: "bdd_ok s \<Longrightarrow> bdd (nodes s) 0 low fl \<Longrightarrow> bdd (nodes s) 0 high fh \<Longrightarrow>
      indep (Suc (unat var)) fl \<Longrightarrow> indep (Suc (unat var)) fh \<Longrightarrow> unat var < 2 ^ 24 \<Longrightarrow>
      gives evolves s (mk var low high s) (\<lambda>f. f = branch (unat var) fl fh)"
begin

lemma gives_now: "bdd_ok s \<Longrightarrow> bdd (nodes s) v r f \<Longrightarrow> P f \<Longrightarrow> gives evolves s (Inr (r, s)) P"
  by (rule gives_Inr) (auto intro: evolves_refl bdd_mono)

lemma evolves_put: "evolves s t \<Longrightarrow> evolves s (put_cache cn op a b c r t)"
  by (simp add: put_cache_def evolves_cache)

lemma held_cofactors:
  assumes "held s x" "bdd (nodes s) v x f" "MTBDD_INDEX x \<noteq> 0"
  shows "held s (fst (cofactors s level x))" "held s (snd (cofactors s level x))"
  using held_follow [OF assms] assms(1) by (simp_all add: cofactors_def Let_def)

lemma level_cofactors:
  assumes "bdd_ok s" "held s x" "bdd (nodes s) v x f" "MTBDD_INDEX x \<noteq> 0" "indep (unat level) f"
    and c: "(l, h) = cofactors s level x"
  shows "bdd (nodes s) (Suc (unat level)) l (cof f (unat level) False)" "held s l"
    "bdd (nodes s) (Suc (unat level)) h (cof f (unat level) True)" "held s h"
  using cofactors_bdd [OF assms(3-5) bdd_ok_table [OF assms(1)]] held_cofactors [OF assms(2-4), of level]
  by (simp_all flip: c)

lemma bdd_later: "evolves s t \<Longrightarrow> held s x \<Longrightarrow> bdd (nodes s) v x f \<Longrightarrow> bdd (nodes t) 0 x f"
  by (rule bdd_mono [OF bdd_evolves]) auto

text \<open>A step after a computation.\<close>

lemma gives_from: "evolves s t \<Longrightarrow> gives evolves t m P \<Longrightarrow> gives evolves s m P"
proof -
  assume st: "evolves s t" and m: "gives evolves t m P"
  from m show ?thesis
    unfolding gives_def yields_cong [OF evolves_room [OF st]]
    by (rule yields_mono) (use evolves_trans [OF st] in blast)
qed

lemma gives_bind:
  assumes m: "gives evolves s m P"
    and k: "\<And>r t f. bdd_ok t \<Longrightarrow> evolves s t \<Longrightarrow> P f \<Longrightarrow> bdd (nodes t) 0 r f \<Longrightarrow> gives evolves t (k (r, t)) Q"
  shows "gives evolves s (bindE m k) Q"
proof (cases m)
  case (Inl e)
  then show ?thesis using m by (simp add: gives_def)
next
  case (Inr rt)
  obtain r t where rt: "rt = (r, t)" by (cases rt)
  from m obtain f where f: "bdd_ok t" "evolves s t" "P f" "bdd (nodes t) 0 r f"
    unfolding Inr rt gives_def yields_Inr by blast
  from gives_from [OF f(2) k [OF f]] show ?thesis by (simp add: Inr rt)
qed

lemma gives_with_bind:
  assumes m: "gives_with evolves s m x fx P"
    and k: "\<And>r t f. bdd_ok t \<Longrightarrow> evolves s t \<Longrightarrow> bdd (nodes t) 0 x fx \<Longrightarrow> P f \<Longrightarrow> bdd (nodes t) 0 r f \<Longrightarrow>
      gives evolves t (k (r, t)) Q"
  shows "gives evolves s (bindE m k) Q"
proof (cases m)
  case (Inl e)
  then show ?thesis using m by (simp add: gives_with_def gives_def)
next
  case (Inr rt)
  obtain r t where rt: "rt = (r, t)" by (cases rt)
  from m obtain f where f: "bdd_ok t" "evolves s t" "bdd (nodes t) 0 x fx" "P f" "bdd (nodes t) 0 r f"
    unfolding Inr rt gives_with_def yields_Inr by blast
  from gives_from [OF f(2) k [OF f]] show ?thesis by (simp add: Inr rt)
qed

lemma gives_with_held:
  assumes "gives evolves s m P" "held s x" "bdd (nodes s) 0 x fx"
  shows "gives_with evolves s m x fx P"
  unfolding gives_with_def
  by (rule yields_mono [OF assms(1) [unfolded gives_def]]) (use assms(2,3) bdd_evolves in blast)

lemma gives_with_now:
  "bdd_ok s \<Longrightarrow> bdd (nodes s) v r f \<Longrightarrow> P f \<Longrightarrow> bdd (nodes s) 0 x fx \<Longrightarrow> gives_with evolves s (Inr (r, s)) x fx P"
  by (auto simp: gives_with_def intro: evolves_refl bdd_mono)

text \<open>The end of an operation: the node is made and the result is put into the cache.\<close>

lemma gives_put:
  assumes m: "gives evolves s m P" and a: "dd_word a" "op_word op"
    and sem: "\<And>t r f. bdd_ok t \<Longrightarrow> evolves s t \<Longrightarrow> P f \<Longrightarrow> bdd (nodes t) 0 r f \<Longrightarrow> op_sem op (nodes t) a b c r"
  shows "gives evolves s (bindE m (\<lambda>(r, t). Inr (r, put_cache cn op a b c r t))) P"
proof (rule gives_bind [OF m], goal_cases)
  case (1 r t f)
  note ok = put_cache_ok [OF 1(1) a sem [OF 1]]
  have "evolves t (put_cache cn op a b c r t)" by (rule evolves_put [OF evolves_refl [OF 1(1)]])
  then show ?case using ok 1 by (auto simp: gives_def)
qed

lemma finish_gives:
  assumes ok: "bdd_ok s" and b: "bdd (nodes s) 0 low fl" "bdd (nodes s) 0 high fh"
    and i: "indep (Suc (unat level)) fl" "indep (Suc (unat level)) fh" and l: "unat level < 2 ^ 24"
    and P: "P (branch (unat level) fl fh)" and a: "dd_word a" "op_word op"
    and sem: "\<And>t r f. bdd_ok t \<Longrightarrow> evolves s t \<Longrightarrow> P f \<Longrightarrow> bdd (nodes t) 0 r f \<Longrightarrow> op_sem op (nodes t) a b c r"
  shows "gives evolves s (bindE (mk level low high s) (\<lambda>(r, t). Inr (r, put_cache cn op a b c r t))) P"
  by (rule gives_put [OF gives_mono [OF mk_gives [OF ok b i l]] a sem]) (use P in auto)

text \<open>Both branches and the end, in the two orders the operations use.\<close>

lemma low_then_high:
  assumes low: "gives evolves s ml P0"
    and high: "\<And>t low f. bdd_ok t \<Longrightarrow> evolves s t \<Longrightarrow> P0 f \<Longrightarrow> bdd (nodes t) 0 low f \<Longrightarrow>
      gives_with evolves t (mh low t) low f P1"
    and i: "\<And>f. P0 f \<Longrightarrow> indep (Suc (unat level)) f" "\<And>f. P1 f \<Longrightarrow> indep (Suc (unat level)) f"
    and l: "unat level < 2 ^ 24" and P: "\<And>f g. P0 f \<Longrightarrow> P1 g \<Longrightarrow> P (branch (unat level) f g)"
    and a: "dd_word a" "op_word op"
    and sem: "\<And>t r f. bdd_ok t \<Longrightarrow> evolves s t \<Longrightarrow> P f \<Longrightarrow> bdd (nodes t) 0 r f \<Longrightarrow> op_sem op (nodes t) a b c r"
  shows "gives evolves s (bindE ml (\<lambda>(low, t). bindE (mh low t) (\<lambda>(high, t).
    bindE (mk level low high t) (\<lambda>(r, t). Inr (r, put_cache cn op a b c r t))))) P"
proof (rule gives_bind [OF low], goal_cases)
  case L: (1 low t f)
  show ?case
    unfolding prod.case
  proof (rule gives_with_bind [OF high [OF L]], goal_cases)
    case (1 high u g)
    show ?case
      unfolding prod.case
      by (rule finish_gives [where P = P, OF 1(1,3,5) i(1) [OF L(3)] i(2) [OF 1(4)] l P [OF L(3) 1(4)] a])
        (use sem evolves_trans L(2) 1(2) in blast)
  qed
qed

lemma high_then_low:
  assumes high: "gives evolves s mh P1"
    and low: "\<And>t high f. bdd_ok t \<Longrightarrow> evolves s t \<Longrightarrow> P1 f \<Longrightarrow> bdd (nodes t) 0 high f \<Longrightarrow>
      gives_with evolves t (ml high t) high f P0"
    and i: "\<And>f. P0 f \<Longrightarrow> indep (Suc (unat level)) f" "\<And>f. P1 f \<Longrightarrow> indep (Suc (unat level)) f"
    and l: "unat level < 2 ^ 24" and P: "\<And>f g. P0 f \<Longrightarrow> P1 g \<Longrightarrow> P (branch (unat level) f g)"
    and a: "dd_word a" "op_word op"
    and sem: "\<And>t r f. bdd_ok t \<Longrightarrow> evolves s t \<Longrightarrow> P f \<Longrightarrow> bdd (nodes t) 0 r f \<Longrightarrow> op_sem op (nodes t) a b c r"
  shows "gives evolves s (bindE mh (\<lambda>(high, t). bindE (ml high t) (\<lambda>(low, t).
    bindE (mk level low high t) (\<lambda>(r, t). Inr (r, put_cache cn op a b c r t))))) P"
proof (rule gives_bind [OF high], goal_cases)
  case L: (1 high t f)
  show ?case
    unfolding prod.case
  proof (rule gives_with_bind [OF low [OF L]], goal_cases)
    case (1 low u g)
    show ?case
      unfolding prod.case
      by (rule finish_gives [where P = P, OF 1(1,5,3) i(1) [OF 1(4)] i(2) [OF L(3)] l P [OF 1(4) L(3)] a])
        (use sem evolves_trans L(2) 1(2) in blast)
  qed
qed

text \<open>The same for a result that is one function.\<close>

lemma low_then_high_exact:
  assumes low: "gives evolves s ml (\<lambda>h. h = cof H (unat level) False)"
    and high: "\<And>t low f. bdd_ok t \<Longrightarrow> evolves s t \<Longrightarrow> bdd (nodes t) 0 low f \<Longrightarrow>
      gives_with evolves t (mh low t) low f (\<lambda>h. h = cof H (unat level) True)"
    and i: "indep (unat level) H" and l: "unat level < 2 ^ 24" and a: "dd_word a" "op_word op"
    and sem: "\<And>t r. bdd_ok t \<Longrightarrow> evolves s t \<Longrightarrow> bdd (nodes t) 0 r H \<Longrightarrow> op_sem op (nodes t) a b c r"
  shows "gives evolves s (bindE ml (\<lambda>(low, t). bindE (mh low t) (\<lambda>(high, t).
    bindE (mk level low high t) (\<lambda>(r, t). Inr (r, put_cache cn op a b c r t))))) (\<lambda>h. h = H)"
  by (rule low_then_high [OF low high _ _ l _ a sem]) (auto simp: branch_cof indep_cof_Suc [OF i])

lemma high_then_low_exact:
  assumes high: "gives evolves s mh (\<lambda>h. h = cof H (unat level) True)"
    and low: "\<And>t high f. bdd_ok t \<Longrightarrow> evolves s t \<Longrightarrow> bdd (nodes t) 0 high f \<Longrightarrow>
      gives_with evolves t (ml high t) high f (\<lambda>h. h = cof H (unat level) False)"
    and i: "indep (unat level) H" and l: "unat level < 2 ^ 24" and a: "dd_word a" "op_word op"
    and sem: "\<And>t r. bdd_ok t \<Longrightarrow> evolves s t \<Longrightarrow> bdd (nodes t) 0 r H \<Longrightarrow> op_sem op (nodes t) a b c r"
  shows "gives evolves s (bindE mh (\<lambda>(high, t). bindE (ml high t) (\<lambda>(low, t).
    bindE (mk level low high t) (\<lambda>(r, t). Inr (r, put_cache cn op a b c r t))))) (\<lambda>h. h = H)"
  by (rule high_then_low [OF high low _ _ l _ a sem]) (auto simp: branch_cof indep_cof_Suc [OF i])

end

section \<open>The world with collection and the world without\<close>

lemma keep_cache: "keep s t \<Longrightarrow> keep s (t\<lparr>ocache := c\<rparr>)"
proof -
  assume k: "keep s t"
  then obtain n d where "t = s\<lparr>nodes := n, ocache := d\<rparr>" by (auto simp: keep_def same_but_tables_def)
  then have "same_but_tables s (t\<lparr>ocache := c\<rparr>)"
    unfolding same_but_tables_def by (intro exI [of _ n] exI [of _ c]) simp
  then show "keep s (t\<lparr>ocache := c\<rparr>)" using k by (simp add: keep_def)
qed

lemma grows_cache: "grows s t \<Longrightarrow> grows s (t\<lparr>ocache := c\<rparr>)"
proof -
  assume k: "grows s t"
  then obtain n d where "t = s\<lparr>nodes := n, ocache := d\<rparr>" by (auto simp: grows_def same_but_tables_def)
  then have "same_but_tables s (t\<lparr>ocache := c\<rparr>)"
    unfolding same_but_tables_def by (intro exI [of _ n] exI [of _ c]) simp
  then show "grows s (t\<lparr>ocache := c\<rparr>)" using k by (simp add: grows_def)
qed

interpretation gc: store_world safe keep mtbdd_makenode
proof unfold_locales
  show "gives keep s (mtbdd_makenode var low high s) (\<lambda>f. f = branch (unat var) fl fh)"
    if "bdd_ok s" "bdd (nodes s) 0 low fl" "bdd (nodes s) 0 high fh" "indep (Suc (unat var)) fl"
      "indep (Suc (unat var)) fh" "unat var < 2 ^ 24" for s low high fl fh var
    using mtbdd_makenode_results [OF that] by (simp add: results_gives)
  show "max_size (nodes t) = max_size (nodes s)" if "keep s t" for s t
    using that by (simp add: keep_def)
qed (auto intro: keep_refl [OF bdd_ok_state] keep_trans keep_cache keep_safe keep_bdd safe_not
    dest: safe_follow)

interpretation nogc: store_world "\<lambda>_ _. True" grows mtbdd_makenode_nogc
proof unfold_locales
  show "gives grows s (mtbdd_makenode_nogc var low high s) (\<lambda>f. f = branch (unat var) fl fh)"
    if "bdd_ok s" "bdd (nodes s) 0 low fl" "bdd (nodes s) 0 high fh" "indep (Suc (unat var)) fl"
      "indep (Suc (unat var)) fh" "unat var < 2 ^ 24" for s low high fl fh var
    unfolding gives_def
    by (rule yields_mono [OF mtbdd_makenode_nogc_results [OF that]]) (auto simp: grows_def)
  show "grows s u" if "grows s t" "grows t u" for s t u
    using that by (auto simp: grows_def intro: extends_trans same_but_tables_trans)
  show "bdd (nodes t) v x f" if "grows s t" "bdd (nodes s) v x f" for s t v x f
    using that by (auto simp: grows_def intro: bdd_extends)
  show "max_size (nodes t) = max_size (nodes s)" if "grows s t" for s t
    using that by (simp add: grows_def)
  show "grows s s" for s by (simp add: grows_def)
qed (auto intro: grows_cache)

text \<open>A call under a pushed reference.\<close>

lemma gives_push:
  assumes ok: "bdd_ok s" and x: "bdd (nodes s) 0 x fx"
    and m: "bdd_ok (mtbdd_refs_push x s) \<Longrightarrow> (\<And>y. safe s y \<Longrightarrow> safe (mtbdd_refs_push x s) y) \<Longrightarrow>
      gives keep (mtbdd_refs_push x s) m P"
  shows "gives_with keep s (bindE m (\<lambda>(r, t). Inr (r, mtbdd_refs_pop 1 t))) x fx P"
proof -
  let ?p = "mtbdd_refs_push x s"
  have p: "bdd_ok ?p" by (rule push_bdd_ok [OF ok bdd_valid [OF x]])
  have m: "gives keep ?p m P" by (rule m [OF p]) (rule push_safe)
  show ?thesis
  proof (cases m)
    case (Inl e)
    then show ?thesis using m stops_cong [of ?p s e] by (simp add: gives_def gives_with_def)
  next
    case (Inr rt)
    obtain r t where rt: "rt = (r, t)" by (cases rt)
    from m obtain f where f: "bdd_ok t" "keep ?p t" "P f" "bdd (nodes t) 0 r f"
      unfolding Inr rt gives_def yields_Inr by blast
    have "bdd (nodes t) 0 x fx"
      by (rule keep_bdd [OF f(2) push_safe_new [OF bdd_dd_word [OF x]]]) (use x in simp)
    then show ?thesis
      using f pop_bdd_ok [OF f(1)] keep_pop_push [OF f(2)] by (auto simp: Inr rt gives_with_def)
  qed
qed

end
