(* ===== verification/BddAnd.thy ===== *)
theory BddAnd
  imports BddOps
begin

text \<open>
  The conjunction of \<open>sylvan_bdd.c\<close>, in the five forms the taint engine calls: with and
  without collection, as a task that spawns its high branch or alone in its worker, and
  with a counter. One worker runs, so a spawned branch runs when it is synchronised.
\<close>

section \<open>Terminal cases and normalisation\<close>

text \<open>The terminal cases, the order of the arguments, and the branches that need no call.\<close>

definition and_terminal :: "u64 \<Rightarrow> u64 \<Rightarrow> u64 option" where
  "and_terminal a b =
    (if a = mtbdd_true then Some b
     else if b = mtbdd_true then Some a
     else if a = mtbdd_false then Some mtbdd_false
     else if b = mtbdd_false then Some mtbdd_false
     else if a = b then Some a
     else if a = MTBDD_TOGGLEMARK b then Some mtbdd_false
     else None)"

definition order_args :: "u64 \<Rightarrow> u64 \<Rightarrow> u64 \<times> u64" where
  "order_args a b = (if MTBDD_STRIPMARK a > MTBDD_STRIPMARK b then (b, a) else (a, b))"

definition and_branch :: "u64 \<Rightarrow> u64 \<Rightarrow> u64 option" where
  "and_branch a b =
    (if a = mtbdd_true then Some b
     else if a = mtbdd_false \<or> b = mtbdd_false then Some mtbdd_false
     else if b = mtbdd_true then Some a
     else None)"

section \<open>The five conjunctions\<close>

fun sylvan_and :: "nat \<Rightarrow> u64 \<Rightarrow> u64 \<Rightarrow> u32 \<Rightarrow> sylvan \<Rightarrow> serror + (u64 \<times> sylvan)" where
  "sylvan_and 0 a b prev_level st = Inl OutOfFuel"
| "sylvan_and (Suc fuel) a b prev_level st =
    (case and_terminal a b of Some r \<Rightarrow> Inr (r, st) | None \<Rightarrow>
     let (a, b) = order_args a b;
         level = min_level (getvar st a) (getvar st b);
         cn = cachenow st prev_level level
     in case try_cache st cn CACHE_BDD_AND a b mtbdd_false of Some r \<Rightarrow> Inr (r, st) | None \<Rightarrow>
        let (aLow, aHigh) = cofactors st level a;
            (bLow, bHigh) = cofactors st level b
        in bindE (case and_branch aLow bLow of
                    Some r \<Rightarrow> Inr (r, st)
                  | None \<Rightarrow> sylvan_and fuel aLow bLow level st) (\<lambda>(low, st).
           bindE (case and_branch aHigh bHigh of
                    Some r \<Rightarrow> Inr (r, st)
                  | None \<Rightarrow> bindE (sylvan_and fuel aHigh bHigh level (mtbdd_refs_push low st))
                                (\<lambda>(high, st). Inr (high, mtbdd_refs_pop 1 st))) (\<lambda>(high, st).
           bindE (mtbdd_makenode level low high st) (\<lambda>(result, st).
             Inr (result, put_cache cn CACHE_BDD_AND a b mtbdd_false result st)))))"

fun sylvan_and_nogc :: "nat \<Rightarrow> u64 \<Rightarrow> u64 \<Rightarrow> u32 \<Rightarrow> sylvan \<Rightarrow> serror + (u64 \<times> sylvan)" where
  "sylvan_and_nogc 0 a b prev_level st = Inl OutOfFuel"
| "sylvan_and_nogc (Suc fuel) a b prev_level st =
    (case and_terminal a b of Some r \<Rightarrow> Inr (r, st) | None \<Rightarrow>
     let (a, b) = order_args a b;
         level = min_level (getvar st a) (getvar st b);
         cn = cachenow st prev_level level
     in case try_cache st cn CACHE_BDD_AND a b mtbdd_false of Some r \<Rightarrow> Inr (r, st) | None \<Rightarrow>
        let (aLow, aHigh) = cofactors st level a;
            (bLow, bHigh) = cofactors st level b
        in bindE (case and_branch aLow bLow of
                    Some r \<Rightarrow> Inr (r, st)
                  | None \<Rightarrow> sylvan_and_nogc fuel aLow bLow level st) (\<lambda>(low, st).
           bindE (case and_branch aHigh bHigh of
                    Some r \<Rightarrow> Inr (r, st)
                  | None \<Rightarrow> sylvan_and_nogc fuel aHigh bHigh level st) (\<lambda>(high, st).
           bindE (mtbdd_makenode_nogc level low high st) (\<lambda>(result, st).
             Inr (result, put_cache cn CACHE_BDD_AND a b mtbdd_false result st)))))"

fun sylvan_and_nogc_alone :: "nat \<Rightarrow> u64 \<Rightarrow> u64 \<Rightarrow> u32 \<Rightarrow> sylvan \<Rightarrow> serror + (u64 \<times> sylvan)" where
  "sylvan_and_nogc_alone 0 a b prev_level st = Inl OutOfFuel"
| "sylvan_and_nogc_alone (Suc fuel) a b prev_level st =
    (case and_terminal a b of Some r \<Rightarrow> Inr (r, st) | None \<Rightarrow>
     let (a, b) = order_args a b;
         level = min_level (getvar st a) (getvar st b);
         cn = cachenow st prev_level level
     in case try_cache st cn CACHE_BDD_AND a b mtbdd_false of Some r \<Rightarrow> Inr (r, st) | None \<Rightarrow>
        let (aLow, aHigh) = cofactors st level a;
            (bLow, bHigh) = cofactors st level b
        in bindE (case and_branch aHigh bHigh of
                    Some r \<Rightarrow> Inr (r, st)
                  | None \<Rightarrow> sylvan_and_nogc_alone fuel aHigh bHigh level st) (\<lambda>(high, st).
           bindE (case and_branch aLow bLow of
                    Some r \<Rightarrow> Inr (r, st)
                  | None \<Rightarrow> sylvan_and_nogc_alone fuel aLow bLow level st) (\<lambda>(low, st).
           bindE (mtbdd_makenode_nogc level low high st) (\<lambda>(result, st).
             Inr (result, put_cache cn CACHE_BDD_AND a b mtbdd_false result st)))))"

fun sylvan_and_alone :: "nat \<Rightarrow> u64 \<Rightarrow> u64 \<Rightarrow> u32 \<Rightarrow> sylvan \<Rightarrow> serror + (u64 \<times> sylvan)" where
  "sylvan_and_alone 0 a b prev_level st = Inl OutOfFuel"
| "sylvan_and_alone (Suc fuel) a b prev_level st =
    (case and_terminal a b of Some r \<Rightarrow> Inr (r, st) | None \<Rightarrow>
     let (a, b) = order_args a b;
         level = min_level (getvar st a) (getvar st b);
         cn = cachenow st prev_level level
     in case try_cache st cn CACHE_BDD_AND a b mtbdd_false of Some r \<Rightarrow> Inr (r, st) | None \<Rightarrow>
        let (aLow, aHigh) = cofactors st level a;
            (bLow, bHigh) = cofactors st level b;
            n = (and_branch aHigh bHigh = None)
        in bindE (case and_branch aHigh bHigh of
                    Some r \<Rightarrow> Inr (r, st)
                  | None \<Rightarrow> sylvan_and_alone fuel aHigh bHigh level st) (\<lambda>(high, st).
           bindE (case and_branch aLow bLow of
                    Some r \<Rightarrow> Inr (r, st)
                  | None \<Rightarrow>
                      if n then bindE (sylvan_and_alone fuel aLow bLow level (mtbdd_refs_push high st))
                                  (\<lambda>(low, st). Inr (low, mtbdd_refs_pop 1 st))
                      else sylvan_and_alone fuel aLow bLow level st) (\<lambda>(low, st).
           bindE (mtbdd_makenode level low high st) (\<lambda>(result, st).
             Inr (result, put_cache cn CACHE_BDD_AND a b mtbdd_false result st)))))"

text \<open>The form with a counter of its calls: the counter is the first part of the result.\<close>

fun sylvan_and_alone_profile :: "nat \<Rightarrow> u64 \<Rightarrow> u64 \<Rightarrow> u32 \<Rightarrow> u64 \<Rightarrow> sylvan
    \<Rightarrow> serror + ((u64 \<times> u64) \<times> sylvan)" where
  "sylvan_and_alone_profile 0 a b prev_level cnt st = Inl OutOfFuel"
| "sylvan_and_alone_profile (Suc fuel) a b prev_level cnt st =
    (let cnt = cnt + 1 in
     case and_terminal a b of Some r \<Rightarrow> Inr ((cnt, r), st) | None \<Rightarrow>
     let (a, b) = order_args a b;
         level = min_level (getvar st a) (getvar st b);
         cn = cachenow st prev_level level
     in case try_cache st cn CACHE_BDD_AND a b mtbdd_false of Some r \<Rightarrow> Inr ((cnt, r), st) | None \<Rightarrow>
        let (aLow, aHigh) = cofactors st level a;
            (bLow, bHigh) = cofactors st level b;
            n = (and_branch aHigh bHigh = None)
        in bindE (case and_branch aHigh bHigh of
                    Some r \<Rightarrow> Inr ((cnt, r), st)
                  | None \<Rightarrow> sylvan_and_alone_profile fuel aHigh bHigh level cnt st) (\<lambda>((cnt, high), st).
           bindE (case and_branch aLow bLow of
                    Some r \<Rightarrow> Inr ((cnt, r), st)
                  | None \<Rightarrow>
                      if n then bindE (sylvan_and_alone_profile fuel aLow bLow level cnt (mtbdd_refs_push high st))
                                  (\<lambda>(r, st). Inr (r, mtbdd_refs_pop 1 st))
                      else sylvan_and_alone_profile fuel aLow bLow level cnt st) (\<lambda>((cnt, low), st).
           bindE (mtbdd_makenode level low high st) (\<lambda>(result, st).
             Inr ((cnt, result), put_cache cn CACHE_BDD_AND a b mtbdd_false result st)))))"

section \<open>The local steps\<close>

lemma and_comm: "(\<lambda>\<sigma>. f \<sigma> \<and> g \<sigma>) = (\<lambda>\<sigma>. g \<sigma> \<and> f \<sigma>)" for f g :: bfun
  by auto

lemma and_terminal_Some:
  assumes "and_terminal a b = Some r" "bdd n 0 a f" "bdd n 0 b g"
  shows "bdd n 0 r (\<lambda>\<sigma>. f \<sigma> \<and> g \<sigma>)"
proof -
  note t = bdd_true_iff [THEN iffD1] bdd_false_iff [THEN iffD1]
  consider "a = mtbdd_true" "r = b" | "b = mtbdd_true" "r = a"
    | "a = mtbdd_false \<or> b = mtbdd_false" "r = mtbdd_false"
    | "a = b" "r = a" | "a = mtbdd_not b" "r = mtbdd_false"
    using assms(1) by (auto simp: and_terminal_def toggle_not split: if_splits)
  then show ?thesis
  proof cases
    case 1 then show ?thesis using assms(2,3) by (auto simp: bdd_true_iff)
  next
    case 2 then show ?thesis using assms(2,3) by (auto simp: bdd_true_iff)
  next
    case 3 then show ?thesis using assms(2,3) by (auto simp: bdd_false_iff)
  next
    case 4 then show ?thesis using bdd_fun [OF assms(2)] assms(2,3) by auto
  next
    case 5
    then have "f = (\<lambda>\<sigma>. \<not> g \<sigma>)" using bdd_fun [OF assms(2)] bdd_not [OF assms(3)] by blast
    then show ?thesis using 5 by (simp add: bdd_false_iff)
  qed
qed

lemma and_terminal_None:
  assumes "and_terminal a b = None"
  shows "a \<noteq> mtbdd_true" "a \<noteq> mtbdd_false" "b \<noteq> mtbdd_true" "b \<noteq> mtbdd_false" "a \<noteq> b" "a \<noteq> mtbdd_not b"
  using assms by (auto simp: and_terminal_def toggle_not split: if_splits)

lemma and_branch_Some:
  "and_branch a b = Some r \<Longrightarrow> bdd n v a f \<Longrightarrow> bdd n v b g \<Longrightarrow> bdd n v r (\<lambda>\<sigma>. f \<sigma> \<and> g \<sigma>)"
  by (auto simp: and_branch_def bdd_true_iff bdd_false_iff split: if_splits)

lemma order_args_cases: "order_args a b = (a', b') \<Longrightarrow> (a' = a \<and> b' = b) \<or> (a' = b \<and> b' = a)"
  by (auto simp: order_args_def split: if_splits)

lemma op_sem_AND: "op_sem CACHE_BDD_AND n a b c r \<longleftrightarrow> bin_sem (\<and>) n a b r"
  by (simp add: op_sem_def op_defs push_bit_eq_mult)

lemma cof_and: "cof (\<lambda>\<sigma>. f \<sigma> \<and> g \<sigma>) i b = (\<lambda>\<sigma>. cof f i b \<sigma> \<and> cof g i b \<sigma>)"
  by (simp add: cof_def)

text \<open>What holds of one level, after the terminal cases and the ordering of the arguments.\<close>

lemma and_level:
  assumes ok: "bdd_ok st" and b: "bdd (nodes st) 0 a f" "bdd (nodes st) 0 b g"
    and i: "indep v f" "indep v g" and nt: "and_terminal a b = None"
    and o: "order_args a b = (a', b')"
  obtains f' g' where "(\<lambda>\<sigma>. f \<sigma> \<and> g \<sigma>) = (\<lambda>\<sigma>. f' \<sigma> \<and> g' \<sigma>)"
    "bdd (nodes st) v a' f'" "MTBDD_INDEX a' \<noteq> 0" "bdd (nodes st) v b' g'" "MTBDD_INDEX b' \<noteq> 0"
proof -
  have nc: "MTBDD_INDEX a \<noteq> 0" "MTBDD_INDEX b \<noteq> 0"
    using and_terminal_None [OF nt] bdd_nonconst b by auto
  note bv = bdd_level [OF bdd_ok_table [OF ok] b(1) i(1)] bdd_level [OF bdd_ok_table [OF ok] b(2) i(2)]
  from order_args_cases [OF o] show ?thesis
    using that [of f g] that [of g f] nc bv and_comm [of f g] by auto
qed

lemma and_entry:
  assumes "bdd_ok st" "MTBDD_INDEX a \<noteq> 0" "bdd (nodes st) v a f" "bdd (nodes st) u b g"
    "try_cache st cn CACHE_BDD_AND a b c = Some r"
  shows "bdd (nodes st) 0 r (\<lambda>\<sigma>. f \<sigma> \<and> g \<sigma>)"
proof -
  have "a OR CACHE_BDD_AND \<noteq> 0" using index_nonzero [OF assms(2)] by (simp add: or_eq_0_iff)
  from try_cache_sem [OF assms(1) bdd_dd_word [OF assms(3)] _ this assms(5)]
  show ?thesis using bin_sem_bdd [OF _ assms(3,4)] by (simp add: op_sem_AND)
qed

context store_world
begin

lemma and_put_sem:
  assumes "held s a" "held s b" "bdd (nodes s) v a f" "bdd (nodes s) u b g"
    "evolves s t" "bdd (nodes t) 0 r (\<lambda>\<sigma>. f \<sigma> \<and> g \<sigma>)"
  shows "op_sem CACHE_BDD_AND (nodes t) a b c r"
proof -
  have "bdd (nodes t) 0 a f" "bdd (nodes t) 0 b g"
    using bdd_evolves [OF assms(5,1,3)] bdd_evolves [OF assms(5,2,4)] by (auto intro: bdd_mono)
  then show ?thesis unfolding op_sem_AND bin_sem_def using assms(6) by blast
qed

lemma and_branch_gives:
  assumes "bdd_ok s" "bdd (nodes s) v a f" "bdd (nodes s) v b g"
    and "gives evolves s m (\<lambda>h. h = (\<lambda>\<sigma>. f \<sigma> \<and> g \<sigma>))"
  shows "gives evolves s (case and_branch a b of Some r \<Rightarrow> Inr (r, s) | None \<Rightarrow> m) (\<lambda>h. h = (\<lambda>\<sigma>. f \<sigma> \<and> g \<sigma>))"
  using gives_now [OF assms(1) and_branch_Some [OF _ assms(2,3)]] assms(4) by (auto split: option.split)

lemma and_branch_gives_with:
  assumes "bdd_ok s" "bdd (nodes s) v a f" "bdd (nodes s) v b g" "bdd (nodes s) 0 x fx"
    and "and_branch a b = None \<Longrightarrow> gives_with evolves s m x fx (\<lambda>h. h = (\<lambda>\<sigma>. f \<sigma> \<and> g \<sigma>))"
  shows "gives_with evolves s (case and_branch a b of Some r \<Rightarrow> Inr (r, s) | None \<Rightarrow> m) x fx
    (\<lambda>h. h = (\<lambda>\<sigma>. f \<sigma> \<and> g \<sigma>))"
  using gives_with_now [OF assms(1) and_branch_Some [OF _ assms(2,3)] _ assms(4)] assms(5) by (auto split: option.split)

text \<open>
  One level: \<open>contract t m a b i\<close> is what the recursive call promises of the conjunction of
  \<open>a\<close> and \<open>b\<close>, whose variables are from \<open>i\<close> on.
\<close>

definition and_contract :: "nat \<Rightarrow> (u64 \<Rightarrow> u64 \<Rightarrow> sylvan \<Rightarrow> serror + (u64 \<times> sylvan)) \<Rightarrow> bool" where
  "and_contract i rec \<longleftrightarrow> (\<forall>t a b f g. bdd_ok t \<longrightarrow> held t a \<longrightarrow> held t b \<longrightarrow> bdd (nodes t) 0 a f \<longrightarrow>
     bdd (nodes t) 0 b g \<longrightarrow> indep i f \<longrightarrow> indep i g \<longrightarrow> gives evolves t (rec a b t) (\<lambda>h. h = (\<lambda>\<sigma>. f \<sigma> \<and> g \<sigma>)))"

definition keeps_other :: "(u64 \<Rightarrow> sylvan \<Rightarrow> (sylvan \<Rightarrow> serror + (u64 \<times> sylvan)) \<Rightarrow> serror + (u64 \<times> sylvan)) \<Rightarrow> bool" where
  "keeps_other call \<longleftrightarrow> (\<forall>t x fx m P. bdd_ok t \<longrightarrow> bdd (nodes t) 0 x fx \<longrightarrow>
     (\<forall>u. bdd_ok u \<longrightarrow> nodes u = nodes t \<longrightarrow> (\<forall>y. held t y \<longrightarrow> held u y) \<longrightarrow> gives evolves u (m u) P) \<longrightarrow>
     gives_with evolves t (call x t m) x fx P)"

lemma and_contractD:
  "and_contract i rec \<Longrightarrow> bdd_ok t \<Longrightarrow> held t a \<Longrightarrow> held t b \<Longrightarrow> bdd (nodes t) (v::nat) a f \<Longrightarrow> bdd (nodes t) v b g \<Longrightarrow>
   indep i f \<Longrightarrow> indep i g \<Longrightarrow> gives evolves t (rec a b t) (\<lambda>h. h = (\<lambda>\<sigma>. f \<sigma> \<and> g \<sigma>))"
  unfolding and_contract_def by (blast intro: bdd_mono [OF _ le0])

lemma keeps_otherD:
  "keeps_other call \<Longrightarrow> bdd_ok t \<Longrightarrow> bdd (nodes t) 0 x fx \<Longrightarrow>
   (\<And>u. bdd_ok u \<Longrightarrow> nodes u = nodes t \<Longrightarrow> (\<And>y. held t y \<Longrightarrow> held u y) \<Longrightarrow> gives evolves u (m u) P) \<Longrightarrow>
   gives_with evolves t (call x t m) x fx P"
  unfolding keeps_other_def by blast

lemma and_call:
  assumes "and_contract i rec" "keeps_other call" "bdd_ok t" "held t a" "held t b"
    "bdd (nodes t) v a f" "bdd (nodes t) v b g" "indep i f" "indep i g" "bdd (nodes t) 0 x fx"
  shows "gives_with evolves t (call x t (rec a b)) x fx (\<lambda>h. h = (\<lambda>\<sigma>. f \<sigma> \<and> g \<sigma>))"
  by (rule keeps_otherD [OF assms(2,3,10)], rule and_contractD [OF assms(1), where v = v]) (use assms in auto)

lemma and_low_first:
  assumes ok: "bdd_ok s" and h: "held s a" "held s b"
    and a: "bdd (nodes s) v a f" "MTBDD_INDEX a \<noteq> 0" and b: "bdd (nodes s) v b g" "MTBDD_INDEX b \<noteq> 0"
    and l: "level = min_level (getvar s a) (getvar s b)"
    and c: "(al, ah) = cofactors s level a" "(bl, bh) = cofactors s level b"
    and rec: "and_contract (Suc (unat level)) rec" and call: "keeps_other call"
  shows "gives evolves s (bindE (case and_branch al bl of Some r \<Rightarrow> Inr (r, s) | None \<Rightarrow> rec al bl s) (\<lambda>(low, t).
    bindE (case and_branch ah bh of Some r \<Rightarrow> Inr (r, t) | None \<Rightarrow> call low t (rec ah bh)) (\<lambda>(high, t).
    bindE (mk level low high t) (\<lambda>(r, t). Inr (r, put_cache cn CACHE_BDD_AND a b d r t))))) (\<lambda>h. h = (\<lambda>\<sigma>. f \<sigma> \<and> g \<sigma>))"
proof -
  let ?i = "unat level"
  note lv = min_level_facts [OF a b, folded l]
  note ca = level_cofactors [OF ok h(1) a lv(3) c(1)] and cb = level_cofactors [OF ok h(2) b lv(4) c(2)]
  note ic = bdd_indep [OF ca(1)] bdd_indep [OF ca(3)] bdd_indep [OF cb(1)] bdd_indep [OF cb(3)]
  show ?thesis
  proof (rule low_then_high [where ?P0.0 = "\<lambda>h. h = (\<lambda>\<sigma>. cof f ?i False \<sigma> \<and> cof g ?i False \<sigma>)" and
        ?P1.0 = "\<lambda>h. h = (\<lambda>\<sigma>. cof f ?i True \<sigma> \<and> cof g ?i True \<sigma>)"])
    show "gives evolves s (case and_branch al bl of Some r \<Rightarrow> Inr (r, s) | None \<Rightarrow> rec al bl s)
      (\<lambda>h. h = (\<lambda>\<sigma>. cof f ?i False \<sigma> \<and> cof g ?i False \<sigma>))"
      by (rule and_branch_gives [OF ok ca(1) cb(1) and_contractD [OF rec ok ca(2) cb(2) ca(1) cb(1) ic(1,3)]])
    show "gives_with evolves t (case and_branch ah bh of Some r \<Rightarrow> Inr (r, t) | None \<Rightarrow> call x t (rec ah bh)) x fx
      (\<lambda>h. h = (\<lambda>\<sigma>. cof f ?i True \<sigma> \<and> cof g ?i True \<sigma>))"
      if t: "bdd_ok t" "evolves s t" "bdd (nodes t) 0 x fx" for t x fx
    proof -
      note ha = bdd_evolves [OF t(2) ca(4,3)] and hb = bdd_evolves [OF t(2) cb(4,3)]
      note hh = held_evolves [OF t(2) ca(4)] held_evolves [OF t(2) cb(4)]
      show ?thesis
        by (rule and_branch_gives_with [OF t(1) ha hb t(3) and_call [OF rec call t(1) hh ha hb ic(2,4) t(3)]])
    qed
    show "op_sem CACHE_BDD_AND (nodes t) a b d r"
      if "evolves s t" "h = (\<lambda>\<sigma>. f \<sigma> \<and> g \<sigma>)" "bdd (nodes t) 0 r h" for t r h
      using and_put_sem [OF h a(1) b(1) that(1)] that(2,3) by simp
  qed (use ic lv bdd_dd_word [OF a(1)] in \<open>auto simp: branch_cof indep_and indep_cof_Suc simp flip: cof_and\<close>)
qed

lemma and_high_first:
  assumes ok: "bdd_ok s" and h: "held s a" "held s b"
    and a: "bdd (nodes s) v a f" "MTBDD_INDEX a \<noteq> 0" and b: "bdd (nodes s) v b g" "MTBDD_INDEX b \<noteq> 0"
    and l: "level = min_level (getvar s a) (getvar s b)"
    and c: "(al, ah) = cofactors s level a" "(bl, bh) = cofactors s level b"
    and rec: "and_contract (Suc (unat level)) rec" and call: "keeps_other call"
  shows "gives evolves s (bindE (case and_branch ah bh of Some r \<Rightarrow> Inr (r, s) | None \<Rightarrow> rec ah bh s) (\<lambda>(high, t).
    bindE (case and_branch al bl of Some r \<Rightarrow> Inr (r, t) | None \<Rightarrow>
        if and_branch ah bh = None then call high t (rec al bl) else rec al bl t) (\<lambda>(low, t).
    bindE (mk level low high t) (\<lambda>(r, t). Inr (r, put_cache cn CACHE_BDD_AND a b d r t))))) (\<lambda>h. h = (\<lambda>\<sigma>. f \<sigma> \<and> g \<sigma>))"
proof -
  let ?i = "unat level"
  note lv = min_level_facts [OF a b, folded l]
  note ca = level_cofactors [OF ok h(1) a lv(3) c(1)] and cb = level_cofactors [OF ok h(2) b lv(4) c(2)]
  note ic = bdd_indep [OF ca(1)] bdd_indep [OF ca(3)] bdd_indep [OF cb(1)] bdd_indep [OF cb(3)]
  let ?H = "\<lambda>h. h = (\<lambda>\<sigma>. cof f ?i True \<sigma> \<and> cof g ?i True \<sigma>)"
  let ?m = "\<lambda>t. case and_branch ah bh of Some r \<Rightarrow> Inr (r, t) | None \<Rightarrow> rec ah bh t"
  have hi: "gives evolves s (?m s) ?H"
    by (rule and_branch_gives [OF ok ca(3) cb(3) and_contractD [OF rec ok ca(4) cb(4) ca(3) cb(3) ic(2,4)]])
  show ?thesis
  proof (cases "and_branch ah bh")
    case None
    show ?thesis
    proof (rule high_then_low [where ?P0.0 = "\<lambda>h. h = (\<lambda>\<sigma>. cof f ?i False \<sigma> \<and> cof g ?i False \<sigma>)", OF hi])
      show "gives_with evolves t (case and_branch al bl of Some r \<Rightarrow> Inr (r, t) | None \<Rightarrow>
          if and_branch ah bh = None then call x t (rec al bl) else rec al bl t) x fx
        (\<lambda>h. h = (\<lambda>\<sigma>. cof f ?i False \<sigma> \<and> cof g ?i False \<sigma>))"
        if t: "bdd_ok t" "evolves s t" "bdd (nodes t) 0 x fx" for t x fx
      proof -
        note ha = bdd_evolves [OF t(2) ca(2,1)] and hb = bdd_evolves [OF t(2) cb(2,1)]
        note hh = held_evolves [OF t(2) ca(2)] held_evolves [OF t(2) cb(2)]
        show ?thesis
          using and_branch_gives_with [OF t(1) ha hb t(3) and_call [OF rec call t(1) hh ha hb ic(1,3) t(3)]] None
          by simp
      qed
      show "op_sem CACHE_BDD_AND (nodes t) a b d r"
        if "evolves s t" "h = (\<lambda>\<sigma>. f \<sigma> \<and> g \<sigma>)" "bdd (nodes t) 0 r h" for t r h
        using and_put_sem [OF h a(1) b(1) that(1)] that(2,3) by simp
    qed (use ic lv bdd_dd_word [OF a(1)] in \<open>auto simp: branch_cof indep_and indep_cof_Suc simp flip: cof_and\<close>)
  next
    case (Some hi)
    have hb: "bdd (nodes s) (Suc ?i) hi (\<lambda>\<sigma>. cof f ?i True \<sigma> \<and> cof g ?i True \<sigma>)"
      by (rule and_branch_Some [OF Some ca(3) cb(3)])
    have "hi \<in> {mtbdd_false, ah, bh}" using Some by (auto simp: and_branch_def split: if_splits)
    then have hh: "held s hi" using ca(4) cb(4) held_const by auto
    have "gives evolves s (bindE (case and_branch al bl of Some r \<Rightarrow> Inr (r, s) | None \<Rightarrow> rec al bl s) (\<lambda>(low, t).
      bindE (Inr (hi, t)) (\<lambda>(high, t).
      bindE (mk level low high t) (\<lambda>(r, t). Inr (r, put_cache cn CACHE_BDD_AND a b d r t))))) (\<lambda>h. h = (\<lambda>\<sigma>. f \<sigma> \<and> g \<sigma>))"
    proof (rule low_then_high [where ?P0.0 = "\<lambda>h. h = (\<lambda>\<sigma>. cof f ?i False \<sigma> \<and> cof g ?i False \<sigma>)" and ?P1.0 = ?H])
      show "gives evolves s (case and_branch al bl of Some r \<Rightarrow> Inr (r, s) | None \<Rightarrow> rec al bl s)
        (\<lambda>h. h = (\<lambda>\<sigma>. cof f ?i False \<sigma> \<and> cof g ?i False \<sigma>))"
        by (rule and_branch_gives [OF ok ca(1) cb(1) and_contractD [OF rec ok ca(2) cb(2) ca(1) cb(1) ic(1,3)]])
      show "gives_with evolves t (Inr (hi, t)) x fx ?H"
        if "bdd_ok t" "evolves s t" "bdd (nodes t) 0 x fx" for t x fx
        using gives_with_now [OF that(1) bdd_evolves [OF that(2) hh hb] _ that(3)] by simp
      show "op_sem CACHE_BDD_AND (nodes t) a b d r"
        if "evolves s t" "h = (\<lambda>\<sigma>. f \<sigma> \<and> g \<sigma>)" "bdd (nodes t) 0 r h" for t r h
        using and_put_sem [OF h a(1) b(1) that(1)] that(2,3) by simp
    qed (use ic lv bdd_dd_word [OF a(1)] in \<open>auto simp: branch_cof indep_and indep_cof_Suc simp flip: cof_and\<close>)
    then show ?thesis using Some by simp
  qed
qed

end

text \<open>The ways a call keeps the other result in the two worlds.\<close>

lemma push_keeps: "gc.keeps_other (\<lambda>x t m. bindE (m (mtbdd_refs_push x t)) (\<lambda>(r, t). Inr (r, mtbdd_refs_pop 1 t)))"
  unfolding gc.keeps_other_def by (blast intro: gives_push push_sel)

lemma plain_keeps: "nogc.keeps_other (\<lambda>x t m. m t)"
  unfolding nogc.keeps_other_def by (blast intro: nogc.gives_with_held)

section \<open>The operations\<close>

text \<open>
  One level of an operation, up to its branches: \<open>body\<close> is what it does after the cache did
  not answer.
\<close>

context store_world
begin

lemma and_operation:
  assumes ok: "bdd_ok s" and h: "held s a" "held s b" and b: "bdd (nodes s) 0 a f" "bdd (nodes s) 0 b g"
    and i: "indep v f" "indep v g"
    and body: "\<And>x y f' g' level. held s x \<Longrightarrow> held s y \<Longrightarrow> bdd (nodes s) v x f' \<Longrightarrow> MTBDD_INDEX x \<noteq> 0 \<Longrightarrow>
      bdd (nodes s) v y g' \<Longrightarrow> MTBDD_INDEX y \<noteq> 0 \<Longrightarrow> level = min_level (getvar s x) (getvar s y) \<Longrightarrow> v \<le> unat level \<Longrightarrow> unat level < 2 ^ 24 \<Longrightarrow>
      gives evolves s (run x y level (cachenow s p level)) (\<lambda>h. h = (\<lambda>\<sigma>. f' \<sigma> \<and> g' \<sigma>))"
  shows "gives evolves s (case and_terminal a b of Some r \<Rightarrow> Inr (r, s) | None \<Rightarrow>
     let (a, b) = order_args a b;
         level = min_level (getvar s a) (getvar s b);
         cn = cachenow s p level
     in case try_cache s cn CACHE_BDD_AND a b mtbdd_false of Some r \<Rightarrow> Inr (r, s) | None \<Rightarrow> run a b level cn)
    (\<lambda>h. h = (\<lambda>\<sigma>. f \<sigma> \<and> g \<sigma>))"
proof (cases "and_terminal a b")
  case (Some r)
  then show ?thesis using gives_now [OF ok and_terminal_Some [OF Some b]] by simp
next
  case None
  obtain x y where o: "order_args a b = (x, y)" by (cases "order_args a b")
  obtain f' g' where e: "(\<lambda>\<sigma>. f \<sigma> \<and> g \<sigma>) = (\<lambda>\<sigma>. f' \<sigma> \<and> g' \<sigma>)"
    and x: "bdd (nodes s) v x f'" "MTBDD_INDEX x \<noteq> 0" and y: "bdd (nodes s) v y g'" "MTBDD_INDEX y \<noteq> 0"
    by (rule and_level [OF ok b i None o])
  have hh: "held s x" "held s y" using order_args_cases [OF o] h by auto
  show ?thesis
  proof (cases "try_cache s (cachenow s p (min_level (getvar s x) (getvar s y))) CACHE_BDD_AND x y mtbdd_false")
    case N: None
    then show ?thesis
      using None o e body [OF hh x y refl min_level_facts(1,2) [OF x y]] by (simp add: Let_def)
  next
    case (Some r)
    then show ?thesis
      using None o e gives_now [OF ok and_entry [OF ok x(2) x(1) y(1) Some]] by (simp add: Let_def)
  qed
qed

end

lemma sylvan_and_gives:
  "bdd_ok st \<Longrightarrow> safe st a \<Longrightarrow> safe st b \<Longrightarrow> bdd (nodes st) 0 a f \<Longrightarrow> bdd (nodes st) 0 b g \<Longrightarrow>
   indep v f \<Longrightarrow> indep v g \<Longrightarrow> v \<le> 2 ^ 24 \<Longrightarrow> 2 ^ 24 < v + fuel \<Longrightarrow>
   gives keep st (sylvan_and fuel a b p st) (\<lambda>h. h = (\<lambda>\<sigma>. f \<sigma> \<and> g \<sigma>))"
proof (induction fuel arbitrary: st a b f g v p)
  case (Suc fuel)
  show ?case
    unfolding sylvan_and.simps
  proof (rule gc.and_operation [OF Suc.prems(1-7)], goal_cases)
    case (1 x y f' g' level)
    obtain al ah bl bh where c: "(al, ah) = cofactors st level x" "(bl, bh) = cofactors st level y"
      by (metis surj_pair)
    have rec: "gc.and_contract (Suc (unat level)) (\<lambda>a b. sylvan_and fuel a b level)"
      unfolding gc.and_contract_def using Suc.IH Suc.prems(9) 1(8,9) by auto
    show ?case
      using gc.and_low_first [OF Suc.prems(1) 1(1-7) c rec push_keeps] by (simp flip: c)
  qed
qed simp

lemma sylvan_and_nogc_gives:
  "bdd_ok st \<Longrightarrow> bdd (nodes st) 0 a f \<Longrightarrow> bdd (nodes st) 0 b g \<Longrightarrow>
   indep v f \<Longrightarrow> indep v g \<Longrightarrow> v \<le> 2 ^ 24 \<Longrightarrow> 2 ^ 24 < v + fuel \<Longrightarrow>
   gives grows st (sylvan_and_nogc fuel a b p st) (\<lambda>h. h = (\<lambda>\<sigma>. f \<sigma> \<and> g \<sigma>))"
proof (induction fuel arbitrary: st a b f g v p)
  case (Suc fuel)
  show ?case
    unfolding sylvan_and_nogc.simps
  proof (rule nogc.and_operation [OF Suc.prems(1) TrueI TrueI Suc.prems(2-5)], goal_cases)
    case (1 x y f' g' level)
    obtain al ah bl bh where c: "(al, ah) = cofactors st level x" "(bl, bh) = cofactors st level y"
      by (metis surj_pair)
    have rec: "nogc.and_contract (Suc (unat level)) (\<lambda>a b. sylvan_and_nogc fuel a b level)"
      unfolding nogc.and_contract_def using Suc.IH Suc.prems(7) 1(8,9) by auto
    show ?case
      using nogc.and_low_first [OF Suc.prems(1) 1(1-7) c rec plain_keeps] by (simp flip: c)
  qed
qed simp

lemma sylvan_and_nogc_alone_gives:
  "bdd_ok st \<Longrightarrow> bdd (nodes st) 0 a f \<Longrightarrow> bdd (nodes st) 0 b g \<Longrightarrow>
   indep v f \<Longrightarrow> indep v g \<Longrightarrow> v \<le> 2 ^ 24 \<Longrightarrow> 2 ^ 24 < v + fuel \<Longrightarrow>
   gives grows st (sylvan_and_nogc_alone fuel a b p st) (\<lambda>h. h = (\<lambda>\<sigma>. f \<sigma> \<and> g \<sigma>))"
proof (induction fuel arbitrary: st a b f g v p)
  case (Suc fuel)
  show ?case
    unfolding sylvan_and_nogc_alone.simps
  proof (rule nogc.and_operation [OF Suc.prems(1) TrueI TrueI Suc.prems(2-5)], goal_cases)
    case (1 x y f' g' level)
    obtain al ah bl bh where c: "(al, ah) = cofactors st level x" "(bl, bh) = cofactors st level y"
      by (metis surj_pair)
    have rec: "nogc.and_contract (Suc (unat level)) (\<lambda>a b. sylvan_and_nogc_alone fuel a b level)"
      unfolding nogc.and_contract_def using Suc.IH Suc.prems(7) 1(8,9) by auto
    show ?case
      using nogc.and_high_first [OF Suc.prems(1) 1(1-7) c rec plain_keeps, unfolded if_cancel] by (simp flip: c)
  qed
qed simp

lemma sylvan_and_alone_gives:
  "bdd_ok st \<Longrightarrow> safe st a \<Longrightarrow> safe st b \<Longrightarrow> bdd (nodes st) 0 a f \<Longrightarrow> bdd (nodes st) 0 b g \<Longrightarrow>
   indep v f \<Longrightarrow> indep v g \<Longrightarrow> v \<le> 2 ^ 24 \<Longrightarrow> 2 ^ 24 < v + fuel \<Longrightarrow>
   gives keep st (sylvan_and_alone fuel a b p st) (\<lambda>h. h = (\<lambda>\<sigma>. f \<sigma> \<and> g \<sigma>))"
proof (induction fuel arbitrary: st a b f g v p)
  case (Suc fuel)
  show ?case
    unfolding sylvan_and_alone.simps
  proof (rule gc.and_operation [OF Suc.prems(1-7)], goal_cases)
    case (1 x y f' g' level)
    obtain al ah bl bh where c: "(al, ah) = cofactors st level x" "(bl, bh) = cofactors st level y"
      by (metis surj_pair)
    have rec: "gc.and_contract (Suc (unat level)) (\<lambda>a b. sylvan_and_alone fuel a b level)"
      unfolding gc.and_contract_def using Suc.IH Suc.prems(9) 1(8,9) by auto
    show ?case
      using gc.and_high_first [OF Suc.prems(1) 1(1-7) c rec push_keeps] by (simp flip: c)
  qed
qed simp

text \<open>The form with a counter computes the same, and counts every call of itself.\<close>

lemma sylvan_and_alone_profile_eq:
  "sylvan_and_alone fuel a b p st =
    bindE (sylvan_and_alone_profile fuel a b p cnt st) (\<lambda>((c, r), t). Inr (r, t))"
proof (induction fuel arbitrary: a b p st cnt)
  case (Suc fuel)
  obtain x y where o: "order_args a b = (x, y)" by (cases "order_args a b")
  let ?l = "min_level (getvar st x) (getvar st y)"
  obtain al ah where ca: "cofactors st ?l x = (al, ah)" by (cases "cofactors st ?l x")
  obtain bl bh where cb: "cofactors st ?l y = (bl, bh)" by (cases "cofactors st ?l y")
  note hi = Suc.IH [of ah bh ?l st "cnt + 1"]
  show ?case
  proof (cases "and_branch ah bh")
    case (Some h)
    then show ?thesis
      using Suc.IH [of al bl ?l st "cnt + 1"]
      by (simp add: o ca cb Let_def bindE_assoc split_def split: option.split)
  next
    case None
    show ?thesis
    proof (cases "sylvan_and_alone_profile fuel ah bh ?l (cnt + 1) st")
      case (Inl e)
      then show ?thesis using None hi by (simp add: o ca cb Let_def split: option.split)
    next
      case (Inr z)
      obtain c h t where z: "z = ((c, h), t)" by (metis surj_pair)
      show ?thesis
        using None hi Inr Suc.IH [of al bl ?l "mtbdd_refs_push h t" c]
        by (simp add: z o ca cb Let_def bindE_assoc split_def split: option.split)
    qed
  qed
qed simp

declare sylvan_and.simps(2) [simp del]
declare sylvan_and_nogc.simps(2) [simp del]
declare sylvan_and_nogc_alone.simps(2) [simp del]
declare sylvan_and_alone.simps(2) [simp del]
declare sylvan_and_alone_profile.simps(2) [simp del]

end
