(* ===== verification/BddIte.thy ===== *)
theory BddIte
  imports BddAnd
begin

text \<open>
  Exclusive or and if-then-else of \<open>sylvan_bdd.c\<close>, and the operators that the header
  derives from them.
\<close>

section \<open>A pushed call, and two recursive calls in a row\<close>

text \<open>The computation \<open>m\<close> while \<open>x\<close> is on the stack of references.\<close>

definition pushed :: "u64 \<Rightarrow> (sylvan \<Rightarrow> serror + (u64 \<times> sylvan)) \<Rightarrow> sylvan \<Rightarrow> serror + (u64 \<times> sylvan)" where
  "pushed x m st = bindE (m (mtbdd_refs_push x st)) (\<lambda>(r, t). Inr (r, mtbdd_refs_pop 1 t))"

lemma pushed_gives:
  assumes "bdd_ok s" "bdd (nodes s) v x fx"
    and "\<And>u. bdd_ok u \<Longrightarrow> nodes u = nodes s \<Longrightarrow> (\<And>y. safe s y \<Longrightarrow> safe u y) \<Longrightarrow> safe u x \<Longrightarrow> gives keep u (m u) P"
  shows "gives_with keep s (pushed x m s) x fx P"
  unfolding pushed_def
  by (rule gives_push [OF assms(1) bdd_mono [OF assms(2) le0] assms(3)])
    (use push_safe_new [OF bdd_dd_word [OF assms(2)]] in auto)

lemma gives_not:
  assumes "gives R st m P"
  shows "gives R st (bindE m (\<lambda>(r, t). Inr (mtbdd_not r, t))) (\<lambda>f. P (\<lambda>\<sigma>. \<not> f \<sigma>))"
  using gives_mark [OF assms, of True] by (simp add: mark_result_def)

section \<open>Exclusive or\<close>

definition xor_terminal :: "u64 \<Rightarrow> u64 \<Rightarrow> u64 option" where
  "xor_terminal a b =
    (if a = mtbdd_false then Some b
     else if b = mtbdd_false then Some a
     else if a = mtbdd_true then Some (mtbdd_not b)
     else if b = mtbdd_true then Some (mtbdd_not a)
     else if a = b then Some mtbdd_false
     else if a = mtbdd_not b then Some mtbdd_true
     else None)"

definition xor_args :: "u64 \<Rightarrow> u64 \<Rightarrow> u64 \<times> u64" where
  "xor_args a b =
    (let (a, b) = order_args a b
     in if MTBDD_HASMARK a then (MTBDD_STRIPMARK a, mtbdd_not b) else (a, b))"

fun sylvan_xor :: "nat \<Rightarrow> u64 \<Rightarrow> u64 \<Rightarrow> u32 \<Rightarrow> sylvan \<Rightarrow> serror + (u64 \<times> sylvan)" where
  "sylvan_xor 0 a b prev_level st = Inl OutOfFuel"
| "sylvan_xor (Suc fuel) a b prev_level st =
    (case xor_terminal a b of Some r \<Rightarrow> Inr (r, st) | None \<Rightarrow>
     let (a, b) = xor_args a b;
         level = min_level (getvar st a) (getvar st b);
         cn = cachenow st prev_level level
     in case try_cache st cn CACHE_BDD_XOR a b mtbdd_false of Some r \<Rightarrow> Inr (r, st) | None \<Rightarrow>
        let (aLow, aHigh) = cofactors st level a;
            (bLow, bHigh) = cofactors st level b
        in bindE (sylvan_xor fuel aLow bLow level st) (\<lambda>(low, st).
           bindE (pushed low (sylvan_xor fuel aHigh bHigh level) st) (\<lambda>(high, st).
           bindE (mtbdd_makenode level low high st) (\<lambda>(result, st).
             Inr (result, put_cache cn CACHE_BDD_XOR a b mtbdd_false result st)))))"

section \<open>If-then-else\<close>

text \<open>The cases in which an argument is replaced by a constant.\<close>

definition ite_args :: "u64 \<Rightarrow> u64 \<Rightarrow> u64 \<Rightarrow> u64 \<times> u64" where
  "ite_args a b c =
    (let b = (if a = b then mtbdd_true else b);
         b = (if a = mtbdd_not b then mtbdd_false else b);
         c = (if a = c then mtbdd_false else c);
         c = (if a = mtbdd_not c then mtbdd_true else c)
     in (b, c))"

text \<open>The form that is used for the cache, and whether its result is negated.\<close>

definition ite_canonical :: "u64 \<Rightarrow> u64 \<Rightarrow> u64 \<Rightarrow> u64 \<times> u64 \<times> u64 \<times> bool" where
  "ite_canonical a b c =
    (let (a, b, c) = (if MTBDD_HASMARK a then (MTBDD_STRIPMARK a, c, b) else (a, b, c))
     in if MTBDD_HASMARK b then (a, mtbdd_not b, mtbdd_not c, True) else (a, b, c, False))"

definition ite_branch :: "u64 \<Rightarrow> u64 \<Rightarrow> u64 \<Rightarrow> u64 option" where
  "ite_branch a b c = (if a = mtbdd_true then Some b else if a = mtbdd_false then Some c else None)"

fun sylvan_ite :: "nat \<Rightarrow> u64 \<Rightarrow> u64 \<Rightarrow> u64 \<Rightarrow> u32 \<Rightarrow> sylvan \<Rightarrow> serror + (u64 \<times> sylvan)" where
  "sylvan_ite 0 a b c prev_level st = Inl OutOfFuel"
| "sylvan_ite (Suc fuel) a b c prev_level st =
    (if a = mtbdd_true then Inr (b, st)
     else if a = mtbdd_false then Inr (c, st)
     else
     let (b, c) = ite_args a b c
     in if b = c then Inr (b, st)
     else if b = mtbdd_true \<and> c = mtbdd_false then Inr (a, st)
     else if b = mtbdd_false \<and> c = mtbdd_true then Inr (mtbdd_not a, st)
     else if c = mtbdd_false then sylvan_and (Suc fuel) a b prev_level st
     else if b = mtbdd_true then
       bindE (sylvan_and (Suc fuel) (mtbdd_not a) (mtbdd_not c) prev_level st) (\<lambda>(r, st). Inr (mtbdd_not r, st))
     else if b = mtbdd_false then sylvan_and (Suc fuel) (mtbdd_not a) c prev_level st
     else if c = mtbdd_true then
       bindE (sylvan_and (Suc fuel) a (mtbdd_not b) prev_level st) (\<lambda>(r, st). Inr (mtbdd_not r, st))
     else if b = mtbdd_not c then sylvan_xor (Suc fuel) a c 0 st
     else
     let (a, b, c, mark) = ite_canonical a b c;
         na = MTBDD_GETNODE (nodes st) a;
         va = getvar st a;
         level = min_level (getvar st b) (getvar st c)
     in if va < level \<and> mtbddnode_followlow a na = mtbdd_false \<and> mtbddnode_followhigh a na = mtbdd_true then
          bindE (mtbdd_makenode va c b st) (\<lambda>(result, st). Inr (mark_result mark result, st))
        else
        let level = min_level va level;
            cn = cachenow st prev_level level
        in case try_cache st cn CACHE_BDD_ITE a b c of Some result \<Rightarrow> Inr (mark_result mark result, st) | None \<Rightarrow>
           let (aLow, aHigh) = cofactors st level a;
               (bLow, bHigh) = cofactors st level b;
               (cLow, cHigh) = cofactors st level c
           in bindE (case ite_branch aLow bLow cLow of
                       Some r \<Rightarrow> Inr (r, st)
                     | None \<Rightarrow> sylvan_ite fuel aLow bLow cLow level st) (\<lambda>(low, st).
              bindE (case ite_branch aHigh bHigh cHigh of
                       Some r \<Rightarrow> Inr (r, st)
                     | None \<Rightarrow> pushed low (sylvan_ite fuel aHigh bHigh cHigh level) st) (\<lambda>(high, st).
              bindE (mtbdd_makenode level low high st) (\<lambda>(result, st).
                Inr (mark_result mark result, put_cache cn CACHE_BDD_ITE a b c result st)))))"

section \<open>Derived operators\<close>

text \<open>The macros of \<open>sylvan_bdd.h\<close>: they run a task with previous level 0.\<close>

definition run_and :: "nat \<Rightarrow> u64 \<Rightarrow> u64 \<Rightarrow> sylvan \<Rightarrow> serror + (u64 \<times> sylvan)" where
  "run_and fuel a b = sylvan_and fuel a b 0"

definition run_not :: "(sylvan \<Rightarrow> serror + (u64 \<times> sylvan)) \<Rightarrow> sylvan \<Rightarrow> serror + (u64 \<times> sylvan)" where
  "run_not m st = bindE (m st) (\<lambda>(r, st). Inr (mtbdd_not r, st))"

definition sylvan_equiv :: "nat \<Rightarrow> u64 \<Rightarrow> u64 \<Rightarrow> sylvan \<Rightarrow> serror + (u64 \<times> sylvan)" where
  "sylvan_equiv fuel a b = run_not (sylvan_xor fuel a b 0)"

definition sylvan_or :: "nat \<Rightarrow> u64 \<Rightarrow> u64 \<Rightarrow> sylvan \<Rightarrow> serror + (u64 \<times> sylvan)" where
  "sylvan_or fuel a b = run_not (run_and fuel (mtbdd_not a) (mtbdd_not b))"

definition sylvan_nand :: "nat \<Rightarrow> u64 \<Rightarrow> u64 \<Rightarrow> sylvan \<Rightarrow> serror + (u64 \<times> sylvan)" where
  "sylvan_nand fuel a b = run_not (run_and fuel a b)"

definition sylvan_nor :: "nat \<Rightarrow> u64 \<Rightarrow> u64 \<Rightarrow> sylvan \<Rightarrow> serror + (u64 \<times> sylvan)" where
  "sylvan_nor fuel a b = run_not (sylvan_or fuel a b)"

definition sylvan_imp :: "nat \<Rightarrow> u64 \<Rightarrow> u64 \<Rightarrow> sylvan \<Rightarrow> serror + (u64 \<times> sylvan)" where
  "sylvan_imp fuel a b = run_not (run_and fuel a (mtbdd_not b))"

definition sylvan_invimp :: "nat \<Rightarrow> u64 \<Rightarrow> u64 \<Rightarrow> sylvan \<Rightarrow> serror + (u64 \<times> sylvan)" where
  "sylvan_invimp fuel a b = run_not (run_and fuel (mtbdd_not a) b)"

definition sylvan_diff :: "nat \<Rightarrow> u64 \<Rightarrow> u64 \<Rightarrow> sylvan \<Rightarrow> serror + (u64 \<times> sylvan)" where
  "sylvan_diff fuel a b = run_and fuel a (mtbdd_not b)"

definition sylvan_less :: "nat \<Rightarrow> u64 \<Rightarrow> u64 \<Rightarrow> sylvan \<Rightarrow> serror + (u64 \<times> sylvan)" where
  "sylvan_less fuel a b = run_and fuel (mtbdd_not a) b"

section \<open>Exclusive or: proofs\<close>

lemma xor_terminal_Some:
  assumes "xor_terminal a b = Some r" "bdd n 0 a f" "bdd n 0 b g"
  shows "bdd n 0 r (\<lambda>\<sigma>. f \<sigma> \<noteq> g \<sigma>)"
proof -
  consider "a = mtbdd_false" "r = b" | "b = mtbdd_false" "r = a"
    | "a = mtbdd_true" "r = mtbdd_not b" | "b = mtbdd_true" "r = mtbdd_not a"
    | "a = b" "r = mtbdd_false" | "a = mtbdd_not b" "r = mtbdd_true"
    using assms(1) by (auto simp: xor_terminal_def split: if_splits)
  then show ?thesis
  proof cases
    case 1 then show ?thesis using assms(2,3) by (auto simp: bdd_false_iff)
  next
    case 2 then show ?thesis using assms(2,3) by (auto simp: bdd_false_iff)
  next
    case 3 then show ?thesis using assms(2) bdd_not [OF assms(3)] by (auto simp: bdd_true_iff)
  next
    case 4 then show ?thesis using assms(3) bdd_not [OF assms(2)] by (auto simp: bdd_true_iff)
  next
    case 5 then show ?thesis using bdd_fun [OF assms(2)] assms(3) by (auto simp: bdd_false_iff)
  next
    case 6
    then have "f = (\<lambda>\<sigma>. \<not> g \<sigma>)" using bdd_fun [OF assms(2)] bdd_not [OF assms(3)] by blast
    then show ?thesis using 6 by (simp add: bdd_true_iff)
  qed
qed

lemma not_index [simp]: "MTBDD_INDEX (mtbdd_not x) = MTBDD_INDEX x"
  by (simp add: dd_simps)

text \<open>The arguments after normalisation.\<close>

lemma xor_level:
  assumes ok: "bdd_ok st" and h: "safe st a" "safe st b" and b: "bdd (nodes st) 0 a f" "bdd (nodes st) 0 b g"
    and i: "indep v f" "indep v g" and nt: "xor_terminal a b = None" and o: "xor_args a b = (x, y)"
  obtains f' g' where "(\<lambda>\<sigma>. f \<sigma> \<noteq> g \<sigma>) = (\<lambda>\<sigma>. f' \<sigma> \<noteq> g' \<sigma>)" "safe st x" "safe st y"
    "bdd (nodes st) v x f'" "MTBDD_INDEX x \<noteq> 0" "bdd (nodes st) v y g'" "MTBDD_INDEX y \<noteq> 0"
proof -
  have nc: "MTBDD_INDEX a \<noteq> 0" "MTBDD_INDEX b \<noteq> 0"
    using nt bdd_nonconst [OF b(1)] bdd_nonconst [OF b(2)] by (auto simp: xor_terminal_def split: if_splits)
  note bv = bdd_level [OF bdd_ok_table [OF ok] b(1) i(1)] bdd_level [OF bdd_ok_table [OF ok] b(2) i(2)]
  obtain c d where cd: "order_args a b = (c, d)" by (cases "order_args a b")
  obtain p q where p: "safe st c" "safe st d" "bdd (nodes st) v c p" "MTBDD_INDEX c \<noteq> 0" "bdd (nodes st) v d q"
    "MTBDD_INDEX d \<noteq> 0" "(\<lambda>\<sigma>. f \<sigma> \<noteq> g \<sigma>) = (\<lambda>\<sigma>. p \<sigma> \<noteq> q \<sigma>)"
    using order_args_cases [OF cd]
  proof
    assume "c = a \<and> d = b"
    then show thesis using that [of f g] h bv nc by simp
  next
    assume "c = b \<and> d = a"
    moreover have "(\<lambda>\<sigma>. f \<sigma> \<noteq> g \<sigma>) = (\<lambda>\<sigma>. g \<sigma> \<noteq> f \<sigma>)" by auto
    ultimately show thesis using that [of g f] h bv nc by simp
  qed
  show ?thesis
  proof (cases "MTBDD_HASMARK c")
    case True
    note strip_marked [OF this]
    then have "x = mtbdd_not c" "y = mtbdd_not d" using o True by (simp_all add: xor_args_def cd)
    moreover have "(\<lambda>\<sigma>. p \<sigma> \<noteq> q \<sigma>) = (\<lambda>\<sigma>. (\<not> p \<sigma>) \<noteq> (\<not> q \<sigma>))" by auto
    ultimately show ?thesis
      using that [of "\<lambda>\<sigma>. \<not> p \<sigma>" "\<lambda>\<sigma>. \<not> q \<sigma>"] p bdd_not [OF p(3)] bdd_not [OF p(5)] safe_not by simp
  next
    case False
    then show ?thesis using that [of p q] o p by (simp add: xor_args_def cd)
  qed
qed

lemma op_sem_XOR: "op_sem CACHE_BDD_XOR n a b c r \<longleftrightarrow> bin_sem (\<noteq>) n a b r"
  by (simp add: op_sem_def op_defs push_bit_eq_mult)

lemma key_nonzero: "MTBDD_INDEX a \<noteq> 0 \<Longrightarrow> a OR op \<noteq> 0"
  using index_nonzero by (auto simp: or_eq_0_iff)

lemma sylvan_xor_gives:
  "bdd_ok st \<Longrightarrow> safe st a \<Longrightarrow> safe st b \<Longrightarrow> bdd (nodes st) 0 a f \<Longrightarrow> bdd (nodes st) 0 b g \<Longrightarrow>
   indep v f \<Longrightarrow> indep v g \<Longrightarrow> v \<le> 2 ^ 24 \<Longrightarrow> 2 ^ 24 < v + fuel \<Longrightarrow>
   gives keep st (sylvan_xor fuel a b p st) (\<lambda>h. h = (\<lambda>\<sigma>. f \<sigma> \<noteq> g \<sigma>))"
proof (induction fuel arbitrary: st a b f g v p)
  case (Suc fuel)
  note ok = Suc.prems(1)
  show ?case
  proof (cases "xor_terminal a b")
    case (Some r)
    then show ?thesis using gc.gives_now [OF ok xor_terminal_Some [OF Some Suc.prems(4,5)]] by simp
  next
    case None
    obtain x y where o: "xor_args a b = (x, y)" by (cases "xor_args a b")
    obtain f' g' where e: "(\<lambda>\<sigma>. f \<sigma> \<noteq> g \<sigma>) = (\<lambda>\<sigma>. f' \<sigma> \<noteq> g' \<sigma>)" and h: "safe st x" "safe st y"
      and x: "bdd (nodes st) v x f'" "MTBDD_INDEX x \<noteq> 0" and y: "bdd (nodes st) v y g'" "MTBDD_INDEX y \<noteq> 0"
      by (rule xor_level [OF Suc.prems(1-7) None o])
    define l where "l = min_level (getvar st x) (getvar st y)"
    let ?i = "unat l" and ?cn = "cachenow st p l"
    note lv = min_level_facts [OF x y, folded l_def]
    show ?thesis
    proof (cases "try_cache st ?cn CACHE_BDD_XOR x y mtbdd_false")
      case (Some r)
      have "bdd (nodes st) 0 r (\<lambda>\<sigma>. f' \<sigma> \<noteq> g' \<sigma>)"
        using try_cache_sem [OF ok bdd_dd_word [OF x(1)] _ key_nonzero [OF x(2)] Some] bin_sem_bdd [OF _ x(1) y(1)]
        by (simp add: op_sem_XOR)
      then show ?thesis using None o e Some gc.gives_now [OF ok] by (simp add: Let_def l_def)
    next
      case N: None
      obtain al ah bl bh where c: "(al, ah) = cofactors st l x" "(bl, bh) = cofactors st l y" by (metis surj_pair)
      note ca = gc.level_cofactors [OF ok h(1) x lv(3) c(1)] and cb = gc.level_cofactors [OF ok h(2) y lv(4) c(2)]
      note ic = bdd_indep [OF ca(1)] bdd_indep [OF ca(3)] bdd_indep [OF cb(1)] bdd_indep [OF cb(3)]
      have f: "Suc ?i \<le> 2 ^ 24" "2 ^ 24 < Suc ?i + fuel" using lv(1,2) Suc.prems(9) by auto
      define H where "H = (\<lambda>\<sigma>. f' \<sigma> \<noteq> g' \<sigma>)"
      have cH: "cof H ?i b = (\<lambda>\<sigma>. cof f' ?i b \<sigma> \<noteq> cof g' ?i b \<sigma>)" for b by (simp add: H_def cof_def)
      have iH: "indep ?i H" unfolding H_def by (rule indep_xor [OF lv(3,4)])
      have "gives keep st (bindE (sylvan_xor fuel al bl l st) (\<lambda>(low, t).
          bindE (pushed low (sylvan_xor fuel ah bh l) t) (\<lambda>(high, t).
          bindE (mtbdd_makenode l low high t) (\<lambda>(r, t). Inr (r, put_cache ?cn CACHE_BDD_XOR x y mtbdd_false r t)))))
        (\<lambda>h. h = H)"
      proof (rule gc.low_then_high_exact)
        show "gives keep st (sylvan_xor fuel al bl l st) (\<lambda>h. h = cof H ?i False)"
          unfolding cH by (rule Suc.IH [OF ok ca(2) cb(2) bdd_mono [OF ca(1) le0] bdd_mono [OF cb(1) le0] ic(1,3) f])
        show "gives_with keep t (pushed z (sylvan_xor fuel ah bh l) t) z fz (\<lambda>h. h = cof H ?i True)"
          if t: "bdd_ok t" "keep st t" "bdd (nodes t) 0 z fz" for t z fz
        proof (rule pushed_gives [OF t(1,3)])
          fix u assume u: "bdd_ok u" "nodes u = nodes t" "\<And>y. safe t y \<Longrightarrow> safe u y"
          show "gives keep u (sylvan_xor fuel ah bh l u) (\<lambda>h. h = cof H ?i True)"
            unfolding cH by (rule Suc.IH [OF u(1) u(3) u(3) _ _ ic(2,4) f])
              (use gc.bdd_later [OF t(2) ca(4,3)] gc.bdd_later [OF t(2) cb(4,3)] keep_safe [OF t(2)] ca(4) cb(4) u(2) in auto)
        qed
        show "op_sem CACHE_BDD_XOR (nodes t) x y mtbdd_false r"
          if "keep st t" "bdd (nodes t) 0 r H" for t r
          using that gc.bdd_later [OF that(1) h(1) x(1)] gc.bdd_later [OF that(1) h(2) y(1)]
          unfolding op_sem_XOR bin_sem_def H_def by blast
      qed (use iH lv bdd_dd_word [OF x(1)] in auto)
      then show ?thesis using None o N unfolding e H_def by (simp add: Let_def l_def flip: c [unfolded l_def])
    qed
  qed
qed simp

section \<open>If-then-else: proofs\<close>

declare sylvan_xor.simps(2) [simp del]

definition ite_fun :: "bfun \<Rightarrow> bfun \<Rightarrow> bfun \<Rightarrow> bfun" where
  "ite_fun f g h = (\<lambda>\<sigma>. if f \<sigma> then g \<sigma> else h \<sigma>)"

lemma indep_ite_fun: "indep v f \<Longrightarrow> indep v g \<Longrightarrow> indep v h \<Longrightarrow> indep v (ite_fun f g h)"
  unfolding ite_fun_def by (rule indep_ite)

lemma cof_ite: "cof (ite_fun f g h) i b = ite_fun (cof f i b) (cof g i b) (cof h i b)"
  by (simp add: cof_def ite_fun_def)

lemma ite_args_cases:
  assumes "ite_args a b c = (b', c')"
  shows "(a = b \<and> a \<noteq> mtbdd_false \<and> b' = mtbdd_true) \<or> ((a = mtbdd_not b \<or> a = mtbdd_false) \<and> b' = mtbdd_false) \<or> b' = b"
    "(a = c \<and> a \<noteq> mtbdd_true \<and> c' = mtbdd_false) \<or> ((a = mtbdd_not c \<or> a = mtbdd_true) \<and> c' = mtbdd_true) \<or> c' = c"
proof -
  have e: "b' = (let b = (if a = b then mtbdd_true else b) in if a = mtbdd_not b then mtbdd_false else b)"
    "c' = (let c = (if a = c then mtbdd_false else c) in if a = mtbdd_not c then mtbdd_true else c)"
    using assms unfolding ite_args_def Let_def prod.inject by (blast, blast)
  show "(a = b \<and> a \<noteq> mtbdd_false \<and> b' = mtbdd_true) \<or> ((a = mtbdd_not b \<or> a = mtbdd_false) \<and> b' = mtbdd_false) \<or> b' = b"
    unfolding e Let_def by (cases "a = b") (simp_all add: not_const)
  show "(a = c \<and> a \<noteq> mtbdd_true \<and> c' = mtbdd_false) \<or> ((a = mtbdd_not c \<or> a = mtbdd_true) \<and> c' = mtbdd_true) \<or> c' = c"
    unfolding e Let_def by (cases "a = c") (simp_all add: not_const)
qed

lemma ite_args_ok:
  assumes a: "bdd n 0 a f" and b: "bdd n 0 b g" and c: "bdd n 0 c h" and i: "indep v g" "indep v h"
    and o: "ite_args a b c = (b', c')"
  obtains g' h' where "ite_fun f g h = ite_fun f g' h'" "bdd n 0 b' g'" "bdd n 0 c' h'" "indep v g'" "indep v h'"
    "b' = b \<or> MTBDD_INDEX b' = 0" "c' = c \<or> MTBDD_INDEX c' = 0"
proof -
  have 1: "\<exists>g'. (\<forall>\<sigma>. f \<sigma> \<longrightarrow> g' \<sigma> = g \<sigma>) \<and> bdd n 0 b' g' \<and> indep v g'" "b' = b \<or> MTBDD_INDEX b' = 0"
  proof -
    consider "a = b" "b' = mtbdd_true" | "a = mtbdd_not b" "b' = mtbdd_false" | "b' = b" | "b' = mtbdd_false" "a = mtbdd_false"
      using ite_args_cases(1) [OF o] by blast
    then have "(\<exists>g'. (\<forall>\<sigma>. f \<sigma> \<longrightarrow> g' \<sigma> = g \<sigma>) \<and> bdd n 0 b' g' \<and> indep v g') \<and> (b' = b \<or> MTBDD_INDEX b' = 0)"
    proof cases
      case 1
      then have "f = g" using bdd_fun a b by blast
      then show ?thesis using 1 by (intro conjI exI [of _ "\<lambda>_. True"]) (auto simp: bdd_true_iff dd_simps)
    next
      case 2
      then have "f = (\<lambda>\<sigma>. \<not> g \<sigma>)" using bdd_fun a bdd_not [OF b] by blast
      then show ?thesis using 2 by (intro conjI exI [of _ "\<lambda>_. False"]) (auto simp: bdd_false_iff dd_simps)
    next
      case 3 then show ?thesis using b i by auto
    next
      case 4
      then have "f = (\<lambda>_. False)" using a by (simp add: bdd_false_iff)
      then show ?thesis using 4 by (intro conjI exI [of _ "\<lambda>_. False"]) (auto simp: bdd_false_iff dd_simps)
    qed
    then show "\<exists>g'. (\<forall>\<sigma>. f \<sigma> \<longrightarrow> g' \<sigma> = g \<sigma>) \<and> bdd n 0 b' g' \<and> indep v g'" "b' = b \<or> MTBDD_INDEX b' = 0" by auto
  qed
  have 2: "(\<exists>h'. (\<forall>\<sigma>. \<not> f \<sigma> \<longrightarrow> h' \<sigma> = h \<sigma>) \<and> bdd n 0 c' h' \<and> indep v h') \<and> (c' = c \<or> MTBDD_INDEX c' = 0)"
  proof -
    consider "a = c" "c' = mtbdd_false" | "a = mtbdd_not c" "c' = mtbdd_true" | "c' = c" | "c' = mtbdd_true" "a = mtbdd_true"
      using ite_args_cases(2) [OF o] by blast
    then show ?thesis
    proof cases
      case 1
      then have "f = h" using bdd_fun a c by blast
      then show ?thesis using 1 by (intro conjI exI [of _ "\<lambda>_. False"]) (auto simp: bdd_false_iff dd_simps)
    next
      case 2
      then have "f = (\<lambda>\<sigma>. \<not> h \<sigma>)" using bdd_fun a bdd_not [OF c] by blast
      then show ?thesis using 2 by (intro conjI exI [of _ "\<lambda>_. True"]) (auto simp: bdd_true_iff dd_simps)
    next
      case 3 then show ?thesis using c i by auto
    next
      case 4
      then have "f = (\<lambda>_. True)" using a by (simp add: bdd_true_iff)
      then show ?thesis using 4 by (intro conjI exI [of _ "\<lambda>_. True"]) (auto simp: bdd_true_iff dd_simps)
    qed
  qed
  from 1(1) obtain g' where g: "\<forall>\<sigma>. f \<sigma> \<longrightarrow> g' \<sigma> = g \<sigma>" "bdd n 0 b' g'" "indep v g'" by blast
  from 2 obtain h' where h: "\<forall>\<sigma>. \<not> f \<sigma> \<longrightarrow> h' \<sigma> = h \<sigma>" "bdd n 0 c' h'" "indep v h'" by blast
  have "ite_fun f g h = ite_fun f g' h'" using g(1) h(1) by (auto simp: ite_fun_def)
  then show ?thesis using g h 1(2) conjunct2 [OF 2] by (intro that [of g' h']) simp_all
qed

lemma ite_canonical_ok:
  assumes a: "bdd n v a f" and b: "bdd n v b g" and c: "bdd n v c h"
    and o: "ite_canonical a b c = (a', b', c', mark)"
  obtains f' g' h' where "ite_fun f g h = (\<lambda>\<sigma>. mark \<noteq> ite_fun f' g' h' \<sigma>)" "bdd n v a' f'" "bdd n v b' g'" "bdd n v c' h'"
    "a' \<in> {a, mtbdd_not a}" "b' \<in> {b, c, mtbdd_not b, mtbdd_not c}" "c' \<in> {b, c, mtbdd_not b, mtbdd_not c}"
proof -
  obtain d x y p q r where d: "(if MTBDD_HASMARK a then (MTBDD_STRIPMARK a, c, b) else (a, b, c)) = (d, x, y)"
    "ite_fun f g h = ite_fun p q r" "bdd n v d p" "bdd n v x q" "bdd n v y r"
    "d \<in> {a, mtbdd_not a}" "x \<in> {b, c}" "y \<in> {b, c}"
  proof (cases "MTBDD_HASMARK a")
    case True
    show ?thesis
    proof (rule that)
      show "(if MTBDD_HASMARK a then (MTBDD_STRIPMARK a, c, b) else (a, b, c)) = (mtbdd_not a, c, b)"
        using True strip_marked by simp
      show "ite_fun f g h = ite_fun (\<lambda>\<sigma>. \<not> f \<sigma>) h g" by (auto simp: ite_fun_def)
    qed (use bdd_not [OF a] b c in auto)
  next
    case False
    show ?thesis
      by (rule that [of a b c f g h]) (use False a b c in auto)
  qed
  show ?thesis
  proof (cases "MTBDD_HASMARK x")
    case True
    have "ite_fun p q r = (\<lambda>\<sigma>. True \<noteq> ite_fun p (\<lambda>\<sigma>. \<not> q \<sigma>) (\<lambda>\<sigma>. \<not> r \<sigma>) \<sigma>)" by (auto simp: ite_fun_def)
    moreover have "a' = d \<and> b' = mtbdd_not x \<and> c' = mtbdd_not y \<and> mark = True"
      using o True unfolding ite_canonical_def d(1) by simp
    ultimately show ?thesis
      using d bdd_not [OF d(4)] bdd_not [OF d(5)] by (intro that [of p "\<lambda>\<sigma>. \<not> q \<sigma>" "\<lambda>\<sigma>. \<not> r \<sigma>"]) auto
  next
    case False
    then have "a' = d \<and> b' = x \<and> c' = y \<and> mark = False"
      using o unfolding ite_canonical_def d(1) by simp
    then show ?thesis using d by (intro that [of p q r]) auto
  qed
qed

lemma ite_branch_Some:
  "ite_branch a b c = Some r \<Longrightarrow> bdd n v a f \<Longrightarrow> bdd n v b g \<Longrightarrow> bdd n v c h \<Longrightarrow> bdd n v r (ite_fun f g h)"
  by (auto simp: ite_branch_def bdd_true_iff bdd_false_iff ite_fun_def split: if_splits)

lemma op_sem_ITE: "op_sem CACHE_BDD_ITE n a b c r \<longleftrightarrow> ite_sem n a b c r"
  by (simp add: op_sem_def op_defs push_bit_eq_mult)

lemma ite_sem_bdd:
  "ite_sem n a b c r \<Longrightarrow> bdd n v a f \<Longrightarrow> bdd n v b g \<Longrightarrow> bdd n v c h \<Longrightarrow> bdd n 0 r (ite_fun f g h)"
  unfolding ite_sem_def ite_fun_def using bdd_fun by metis

lemma unat_min_level: "unat (min_level x y) = min (unat x) (unat y)"
  by (simp add: min_level_def word_less_nat_alt min_def)

definition ite_contract :: "nat \<Rightarrow> (u64 \<Rightarrow> u64 \<Rightarrow> u64 \<Rightarrow> sylvan \<Rightarrow> serror + (u64 \<times> sylvan)) \<Rightarrow> bool" where
  "ite_contract i rec \<longleftrightarrow> (\<forall>t a b c f g h. bdd_ok t \<longrightarrow> safe t a \<longrightarrow> safe t b \<longrightarrow> safe t c \<longrightarrow> bdd (nodes t) 0 a f \<longrightarrow>
     bdd (nodes t) 0 b g \<longrightarrow> bdd (nodes t) 0 c h \<longrightarrow> indep i f \<longrightarrow> indep i g \<longrightarrow> indep i h \<longrightarrow>
     gives keep t (rec a b c t) (\<lambda>k. k = ite_fun f g h))"

lemma ite_contractD:
  "ite_contract i rec \<Longrightarrow> bdd_ok t \<Longrightarrow> safe t a \<Longrightarrow> safe t b \<Longrightarrow> safe t c \<Longrightarrow> bdd (nodes t) (v::nat) a f \<Longrightarrow>
   bdd (nodes t) v b g \<Longrightarrow> bdd (nodes t) v c h \<Longrightarrow> indep i f \<Longrightarrow> indep i g \<Longrightarrow> indep i h \<Longrightarrow>
   gives keep t (rec a b c t) (\<lambda>k. k = ite_fun f g h)"
  unfolding ite_contract_def by (blast intro: bdd_mono [OF _ le0])

lemma ite_level:
  assumes ok: "bdd_ok s" and sf: "safe s a" "safe s b" "safe s c"
    and a: "bdd (nodes s) v a f" "MTBDD_INDEX a \<noteq> 0" and b: "bdd (nodes s) v b g" "MTBDD_INDEX b \<noteq> 0"
    and c: "bdd (nodes s) v c h" "MTBDD_INDEX c \<noteq> 0"
    and l: "level = min_level (getvar s a) (min_level (getvar s b) (getvar s c))"
    and cs: "(al, ah) = cofactors s level a" "(bl, bh) = cofactors s level b" "(cl, ch) = cofactors s level c"
    and rec: "ite_contract (Suc (unat level)) rec"
  shows "gives keep s (bindE (case ite_branch al bl cl of Some r \<Rightarrow> Inr (r, s) | None \<Rightarrow> rec al bl cl s) (\<lambda>(low, t).
    bindE (case ite_branch ah bh ch of Some r \<Rightarrow> Inr (r, t) | None \<Rightarrow> pushed low (rec ah bh ch) t) (\<lambda>(high, t).
    bindE (mtbdd_makenode level low high t) (\<lambda>(r, t). Inr (r, put_cache cn CACHE_BDD_ITE a b c r t)))))
    (\<lambda>k. k = ite_fun f g h)"
proof -
  let ?i = "unat level"
  have i: "indep ?i f" "indep ?i g" "indep ?i h" and lv: "?i < 2 ^ 24"
    using bdd_getvar [OF a] bdd_getvar [OF b] bdd_getvar [OF c] by (auto simp: l unat_min_level intro: indep_mono)
  note ca = gc.level_cofactors [OF ok sf(1) a i(1) cs(1)] and cb = gc.level_cofactors [OF ok sf(2) b i(2) cs(2)]
    and cc = gc.level_cofactors [OF ok sf(3) c i(3) cs(3)]
  note il = bdd_indep [OF ca(1)] bdd_indep [OF cb(1)] bdd_indep [OF cc(1)]
    and ih = bdd_indep [OF ca(3)] bdd_indep [OF cb(3)] bdd_indep [OF cc(3)]
  define H where "H = ite_fun f g h"
  have cH: "cof H ?i x = ite_fun (cof f ?i x) (cof g ?i x) (cof h ?i x)" for x by (simp add: H_def cof_ite)
  show ?thesis
    unfolding H_def [symmetric]
  proof (rule gc.low_then_high_exact)
    show "gives keep s (case ite_branch al bl cl of Some r \<Rightarrow> Inr (r, s) | None \<Rightarrow> rec al bl cl s) (\<lambda>k. k = cof H ?i False)"
      unfolding cH
      using ite_contractD [OF rec ok ca(2) cb(2) cc(2) ca(1) cb(1) cc(1) il]
        gc.gives_now [OF ok ite_branch_Some [OF _ ca(1) cb(1) cc(1)]]
      by (auto split: option.split)
    show "gives_with keep t (case ite_branch ah bh ch of Some r \<Rightarrow> Inr (r, t) | None \<Rightarrow> pushed x (rec ah bh ch) t) x fx
      (\<lambda>k. k = cof H ?i True)"
      if t: "bdd_ok t" "keep s t" "bdd (nodes t) 0 x fx" for t x fx
    proof -
      note hb = gc.bdd_evolves [OF t(2) ca(4,3)] gc.bdd_evolves [OF t(2) cb(4,3)] gc.bdd_evolves [OF t(2) cc(4,3)]
      note hs = keep_safe [OF t(2) ca(4)] keep_safe [OF t(2) cb(4)] keep_safe [OF t(2) cc(4)]
      have "gives_with keep t (pushed x (rec ah bh ch) t) x fx (\<lambda>k. k = cof H ?i True)"
        unfolding cH
        by (rule pushed_gives [OF t(1,3)], rule ite_contractD [OF rec, where v = "Suc ?i"])
          (use hb hs ih in auto)
      then show ?thesis
        unfolding cH using gc.gives_with_now [OF t(1) ite_branch_Some [OF _ hb] _ t(3)] by (auto split: option.split)
    qed
    show "op_sem CACHE_BDD_ITE (nodes t) a b c r" if "keep s t" "bdd (nodes t) 0 r H" for t r
      using gc.bdd_later [OF that(1) sf(1) a(1)] gc.bdd_later [OF that(1) sf(2) b(1)]
        gc.bdd_later [OF that(1) sf(3) c(1)] that(2)
      unfolding op_sem_ITE ite_sem_def H_def ite_fun_def by blast
  qed (use lv bdd_dd_word [OF a(1)] indep_ite_fun [OF i] in \<open>auto simp: H_def\<close>)
qed

text \<open>The fast case: \<open>a\<close> is the variable at its level, above those of \<open>b\<close> and \<open>c\<close>.\<close>

lemma ite_fast:
  assumes ok: "bdd_ok s" and a: "bdd (nodes s) v a f" "MTBDD_INDEX a \<noteq> 0"
    and b: "bdd (nodes s) v b g" "MTBDD_INDEX b \<noteq> 0" and c: "bdd (nodes s) v c h" "MTBDD_INDEX c \<noteq> 0"
    and l: "getvar s a < min_level (getvar s b) (getvar s c)"
    and lh: "mtbddnode_followlow a (MTBDD_GETNODE (nodes s) a) = mtbdd_false"
      "mtbddnode_followhigh a (MTBDD_GETNODE (nodes s) a) = mtbdd_true"
  shows "gives keep s (mtbdd_makenode (getvar s a) c b s) (\<lambda>k. k = ite_fun f g h)"
proof -
  let ?i = "unat (getvar s a)"
  note ga = bdd_getvar [OF a]
  have "cof f ?i False = (\<lambda>_. False)" "cof f ?i True = (\<lambda>_. True)"
    using bdd_inner(5,6) [OF a] lh by (simp_all add: getvar_def bdd_false_iff bdd_true_iff)
  then have "f = (\<lambda>\<sigma>. \<sigma> ?i)" using branch_cof [of ?i f] by (auto simp: branch_def)
  then have e: "branch ?i h g = ite_fun f g h" by (simp add: branch_def ite_fun_def)
  have "?i < unat (min_level (getvar s b) (getvar s c))" using l by (simp add: word_less_nat_alt)
  then have "indep (Suc ?i) g" "indep (Suc ?i) h"
    using indep_mono [OF bdd_getvar(3) [OF b]] indep_mono [OF bdd_getvar(3) [OF c]] by (simp_all add: unat_min_level)
  from gc.mk_gives [OF ok bdd_mono [OF c(1) le0] bdd_mono [OF b(1) le0] this(2,1) ga(2)]
  show ?thesis unfolding e .
qed

lemma sylvan_ite_gives:
  "bdd_ok st \<Longrightarrow> safe st a \<Longrightarrow> safe st b \<Longrightarrow> safe st c \<Longrightarrow> bdd (nodes st) 0 a f \<Longrightarrow> bdd (nodes st) 0 b g \<Longrightarrow>
   bdd (nodes st) 0 c h \<Longrightarrow> indep v f \<Longrightarrow> indep v g \<Longrightarrow> indep v h \<Longrightarrow> v \<le> 2 ^ 24 \<Longrightarrow> 2 ^ 24 < v + fuel \<Longrightarrow>
   gives keep st (sylvan_ite fuel a b c p st) (\<lambda>k. k = ite_fun f g h)"
proof (induction fuel arbitrary: st a b c f g h v p)
  case (Suc fuel)
  note ok = Suc.prems(1) and now = gc.gives_now [OF Suc.prems(1)]
  show ?case
  proof (cases "a = mtbdd_true \<or> a = mtbdd_false")
    case True
    then have "bdd (nodes st) 0 (if a = mtbdd_true then b else c) (ite_fun f g h)"
      using Suc.prems(5-7) by (auto simp: bdd_true_iff bdd_false_iff ite_fun_def)
    then have "gives keep st (Inr (if a = mtbdd_true then b else c, st)) (\<lambda>k. k = ite_fun f g h)" by (rule now) simp
    then show ?thesis using True by (cases "a = mtbdd_true") simp_all
  next
    case False
    then have anc: "MTBDD_INDEX a \<noteq> 0" using bdd_nonconst [OF Suc.prems(5)] by auto
    obtain b' c' where o: "ite_args a b c = (b', c')" by (cases "ite_args a b c")
    obtain g' h' where e: "ite_fun f g h = ite_fun f g' h'" and b: "bdd (nodes st) 0 b' g'" and c: "bdd (nodes st) 0 c' h'"
      and i: "indep v g'" "indep v h'" and w: "b' = b \<or> MTBDD_INDEX b' = 0" "c' = c \<or> MTBDD_INDEX c' = 0"
      by (rule ite_args_ok [OF Suc.prems(5-7,9,10) o])
    have sf: "safe st a" "safe st b'" "safe st c'"
      using Suc.prems(2-4) w bdd_dd_word [OF b] bdd_dd_word [OF c] by (auto simp: safe_def)
    note na = bdd_not [OF Suc.prems(5)] and nb = bdd_not [OF b] and nc = bdd_not [OF c]
    note fu = Suc.prems(11,12)
    note AND = sylvan_and_gives [OF ok _ _ _ _ _ _ fu]
    note ins = indep_not [OF Suc.prems(8)] indep_not [OF i(1)] indep_not [OF i(2)]
    consider "b' = c'" | "b' \<noteq> c'" "c' = mtbdd_false" | "b' \<noteq> c'" "c' \<noteq> mtbdd_false" "b' = mtbdd_true"
      | "b' \<noteq> c'" "c' \<noteq> mtbdd_false" "b' = mtbdd_false" | "c' = mtbdd_true" "b' \<noteq> mtbdd_true" "b' \<noteq> mtbdd_false"
      | "b' = mtbdd_not c'" "b' \<noteq> mtbdd_true" "b' \<noteq> mtbdd_false" "c' \<noteq> mtbdd_true" "c' \<noteq> mtbdd_false" "b' \<noteq> c'"
      | "b' \<noteq> mtbdd_not c'" "b' \<noteq> mtbdd_true" "b' \<noteq> mtbdd_false" "c' \<noteq> mtbdd_true" "c' \<noteq> mtbdd_false" "b' \<noteq> c'"
      by blast
    then show ?thesis
    proof cases
      case 1
      then have "ite_fun f g' h' = g'" using bdd_fun [OF b] c by (auto simp: ite_fun_def)
      then show ?thesis using 1 False o now [OF b] by (simp add: e)
    next
      case 2
      then have h0: "h' = (\<lambda>_. False)" using c by (simp add: bdd_false_iff)
      have "ite_fun f g' h' = (\<lambda>\<sigma>. f \<sigma> \<and> g' \<sigma>)" by (auto simp: ite_fun_def h0)
      moreover have "b' = mtbdd_true \<Longrightarrow> ite_fun f g' h' = f"
        using b by (auto simp: ite_fun_def h0 bdd_true_iff)
      ultimately show ?thesis
        using 2 False o now [OF Suc.prems(5)] AND [OF sf(1,2) Suc.prems(5) b Suc.prems(8) i(1)] by (simp add: e)
    next
      case 3
      then have g1: "g' = (\<lambda>_. True)" using b by (simp add: bdd_true_iff)
      have "ite_fun f g' h' = (\<lambda>\<sigma>. \<not> (\<not> f \<sigma> \<and> \<not> h' \<sigma>))" by (auto simp: ite_fun_def g1)
      moreover have "c' = mtbdd_false \<Longrightarrow> ite_fun f g' h' = f"
        using c by (auto simp: ite_fun_def g1 bdd_false_iff)
      moreover note gives_not [OF AND [OF safe_not [OF sf(1)] safe_not [OF sf(3)] na nc ins(1,3)], of p]
      ultimately show ?thesis
        using 3 False o by (simp add: e) (erule gives_mono, auto simp: fun_eq_iff)
    next
      case 4
      then have g0: "g' = (\<lambda>_. False)" using b by (simp add: bdd_false_iff)
      have "ite_fun f g' h' = (\<lambda>\<sigma>. \<not> f \<sigma> \<and> h' \<sigma>)" by (auto simp: ite_fun_def g0)
      moreover have "c' = mtbdd_true \<Longrightarrow> ite_fun f g' h' = (\<lambda>\<sigma>. \<not> f \<sigma>)"
        using c by (auto simp: ite_fun_def g0 bdd_true_iff)
      ultimately show ?thesis
        using 4 False o now [OF na] AND [OF safe_not [OF sf(1)] sf(3) na c ins(1) i(2)] by (simp add: e)
    next
      case 5
      then have h1: "h' = (\<lambda>_. True)" using c by (simp add: bdd_true_iff)
      have "ite_fun f g' h' = (\<lambda>\<sigma>. \<not> (f \<sigma> \<and> \<not> g' \<sigma>))" by (auto simp: ite_fun_def h1)
      moreover note gives_not [OF AND [OF sf(1) safe_not [OF sf(2)] Suc.prems(5) nb Suc.prems(8) ins(2)], of p]
      moreover have "mtbdd_true \<noteq> mtbdd_false" by (simp add: mtbdd_true_def mtbdd_false_def)
      ultimately show ?thesis
        using 5 False o by (simp add: e) (erule gives_mono, auto simp: fun_eq_iff)
    next
      case 6
      then have "g' = (\<lambda>\<sigma>. \<not> h' \<sigma>)" using bdd_fun [OF b] nc by blast
      then have "ite_fun f g' h' = (\<lambda>\<sigma>. f \<sigma> \<noteq> h' \<sigma>)" by (auto simp: ite_fun_def)
      then show ?thesis
        using 6 False o sylvan_xor_gives [OF ok sf(1,3) Suc.prems(5) c Suc.prems(8) i(2) fu] by (simp add: e)
    next
      case 7
      have bv: "bdd (nodes st) v a f" "bdd (nodes st) v b' g'" "bdd (nodes st) v c' h'"
        using bdd_level [OF bdd_ok_table [OF ok] Suc.prems(5) Suc.prems(8)] bdd_level [OF bdd_ok_table [OF ok] b i(1)]
          bdd_level [OF bdd_ok_table [OF ok] c i(2)] by auto
      obtain x y z m where can: "ite_canonical a b' c' = (x, y, z, m)" by (metis surj_pair)
      obtain p1 q1 r1 where q: "ite_fun f g' h' = (\<lambda>\<sigma>. m \<noteq> ite_fun p1 q1 r1 \<sigma>)" and x: "bdd (nodes st) v x p1"
        and y: "bdd (nodes st) v y q1" and z: "bdd (nodes st) v z r1" and xyz: "x \<in> {a, mtbdd_not a}"
        "y \<in> {b', c', mtbdd_not b', mtbdd_not c'}" "z \<in> {b', c', mtbdd_not b', mtbdd_not c'}"
        by (rule ite_canonical_ok [OF bv can])
      have nn: "MTBDD_INDEX x \<noteq> 0" "MTBDD_INDEX y \<noteq> 0" "MTBDD_INDEX z \<noteq> 0"
        using xyz anc bdd_nonconst [OF b] bdd_nonconst [OF c] 7 by auto
      have sx: "safe st x" "safe st y" "safe st z" using xyz sf safe_not by auto
      define H where "H = ite_fun p1 q1 r1"
      have mk: "gives keep st (bindE M (\<lambda>(r, t). Inr (mark_result m r, t))) (\<lambda>k. k = ite_fun f g h)"
        if "gives keep st M (\<lambda>k. k = H)" for M
        by (rule gives_mono [OF gives_mark [OF that]]) (auto simp: e q H_def fun_eq_iff)
      let ?va = "getvar st x" and ?l = "min_level (getvar st y) (getvar st z)"
      show ?thesis
      proof (cases "?va < ?l \<and> mtbddnode_followlow x (MTBDD_GETNODE (nodes st) x) = mtbdd_false \<and>
          mtbddnode_followhigh x (MTBDD_GETNODE (nodes st) x) = mtbdd_true")
        case True
        then have "gives keep st (mtbdd_makenode ?va z y st) (\<lambda>k. k = H)"
          unfolding H_def by (intro ite_fast [OF ok x nn(1) y nn(2) z nn(3)]) auto
        from mk [OF this] show ?thesis using 7 False o can True by (simp add: Let_def)
      next
        case slow: False
        define l where "l = min_level ?va ?l"
        show ?thesis
        proof (cases "try_cache st (cachenow st p l) CACHE_BDD_ITE x y z")
          case (Some r)
          have "bdd (nodes st) 0 r H"
            unfolding H_def using try_cache_sem [OF ok bdd_dd_word [OF x] _ key_nonzero [OF nn(1)] Some] ite_sem_bdd [OF _ x y z]
            by (simp add: op_sem_ITE)
          then have "gives keep st (Inr (r, st)) (\<lambda>k. k = H)" by (rule now) simp
          from mk [OF this] show ?thesis
            using 7 False o can Some by (simp add: Let_def l_def if_not_P [OF slow])
        next
          case None
          obtain al ah bl bh cl ch where cs: "(al, ah) = cofactors st l x" "(bl, bh) = cofactors st l y" "(cl, ch) = cofactors st l z"
            by (metis surj_pair)
          have "v \<le> unat l" "unat l < 2 ^ 24"
            using bdd_getvar [OF x nn(1)] bdd_getvar [OF y nn(2)] bdd_getvar [OF z nn(3)] by (auto simp: l_def unat_min_level)
          then have rec: "ite_contract (Suc (unat l)) (\<lambda>a b c. sylvan_ite fuel a b c l)"
            unfolding ite_contract_def using Suc.IH fu(2) by auto
          note L = ite_level [OF ok sx x nn(1) y nn(2) z nn(3) l_def cs rec, of "cachenow st p l"]
          from mk [OF L [folded H_def]] show ?thesis
            using 7 False o can None
            by (simp add: Let_def if_not_P [OF slow] bindE_assoc split_def flip: l_def cs cong: option.case_cong)
        qed
      qed
    qed
  qed
qed simp

declare sylvan_ite.simps(2) [simp del]

section \<open>Derived operators: proofs\<close>

text \<open>Every derived operator computes its connective.\<close>

lemma run_and_gives:
  assumes "bdd_ok st" "safe st a" "safe st b" "bdd (nodes st) 0 a f" "bdd (nodes st) 0 b g" "2 ^ 24 < fuel"
  shows "gives keep st (run_and fuel a b st) (\<lambda>h. h = (\<lambda>\<sigma>. f \<sigma> \<and> g \<sigma>))"
  unfolding run_and_def using assms
  by (intro sylvan_and_gives [where v = 0]) (auto intro: bdd_indep)

lemma run_not_gives:
  fixes m :: "sylvan \<Rightarrow> serror + (u64 \<times> sylvan)"
  assumes "gives R st (m st) (\<lambda>h. h = f)"
  shows "gives R st (run_not m st) (\<lambda>h. h = (\<lambda>\<sigma>. \<not> f \<sigma>))"
  unfolding run_not_def by (rule gives_mono [OF gives_not [OF assms]]) (auto simp: fun_eq_iff)

lemma derived_gives:
  assumes ok: "bdd_ok st" and s: "safe st a" "safe st b" and b: "bdd (nodes st) 0 a f" "bdd (nodes st) 0 b g"
    and fu: "2 ^ 24 < fuel"
  shows "results st (sylvan_equiv fuel a b st) (\<lambda>\<sigma>. f \<sigma> = g \<sigma>)"
    "results st (sylvan_or fuel a b st) (\<lambda>\<sigma>. f \<sigma> \<or> g \<sigma>)"
    "results st (sylvan_nand fuel a b st) (\<lambda>\<sigma>. \<not> (f \<sigma> \<and> g \<sigma>))"
    "results st (sylvan_nor fuel a b st) (\<lambda>\<sigma>. \<not> (f \<sigma> \<or> g \<sigma>))"
    "results st (sylvan_imp fuel a b st) (\<lambda>\<sigma>. f \<sigma> \<longrightarrow> g \<sigma>)"
    "results st (sylvan_invimp fuel a b st) (\<lambda>\<sigma>. g \<sigma> \<longrightarrow> f \<sigma>)"
    "results st (sylvan_diff fuel a b st) (\<lambda>\<sigma>. f \<sigma> \<and> \<not> g \<sigma>)"
    "results st (sylvan_less fuel a b st) (\<lambda>\<sigma>. \<not> f \<sigma> \<and> g \<sigma>)"
proof -
  note n = safe_not [OF s(1)] safe_not [OF s(2)] and bn = bdd_not [OF b(1)] bdd_not [OF b(2)]
  note AND = run_and_gives [OF ok _ _ _ _ fu]
  have x: "gives keep st (sylvan_xor fuel a b 0 st) (\<lambda>h. h = (\<lambda>\<sigma>. f \<sigma> \<noteq> g \<sigma>))"
    by (rule sylvan_xor_gives [OF ok s b bdd_indep [OF b(1)] bdd_indep [OF b(2)]]) (use fu in auto)
  have or_eq: "(\<lambda>\<sigma>. \<not> (\<not> f \<sigma> \<and> \<not> g \<sigma>)) = (\<lambda>\<sigma>. f \<sigma> \<or> g \<sigma>)" by auto
  show "results st (sylvan_equiv fuel a b st) (\<lambda>\<sigma>. f \<sigma> = g \<sigma>)"
    using run_not_gives [where m = "sylvan_xor fuel a b 0", OF x] by (simp add: results_gives sylvan_equiv_def)
  show o: "results st (sylvan_or fuel a b st) (\<lambda>\<sigma>. f \<sigma> \<or> g \<sigma>)"
    using run_not_gives [where m = "run_and fuel (mtbdd_not a) (mtbdd_not b)", OF AND [OF n bn]] by (simp add: results_gives sylvan_or_def or_eq)
  show "results st (sylvan_nand fuel a b st) (\<lambda>\<sigma>. \<not> (f \<sigma> \<and> g \<sigma>))"
    using run_not_gives [where m = "run_and fuel a b", OF AND [OF s b]] by (simp add: results_gives sylvan_nand_def)
  show "results st (sylvan_nor fuel a b st) (\<lambda>\<sigma>. \<not> (f \<sigma> \<or> g \<sigma>))"
    using run_not_gives [where m = "sylvan_or fuel a b", OF o [unfolded results_gives]] by (simp add: results_gives sylvan_nor_def)
  show "results st (sylvan_imp fuel a b st) (\<lambda>\<sigma>. f \<sigma> \<longrightarrow> g \<sigma>)"
    using run_not_gives [where m = "run_and fuel a (mtbdd_not b)", OF AND [OF s(1) n(2) b(1) bn(2)]] by (simp add: results_gives sylvan_imp_def)
  show "results st (sylvan_invimp fuel a b st) (\<lambda>\<sigma>. g \<sigma> \<longrightarrow> f \<sigma>)"
    using run_not_gives [where m = "run_and fuel (mtbdd_not a) b", OF AND [OF n(1) s(2) bn(1) b(2)]]
    by (simp add: results_gives sylvan_invimp_def imp_conv_disj disj_commute)
  show "results st (sylvan_diff fuel a b st) (\<lambda>\<sigma>. f \<sigma> \<and> \<not> g \<sigma>)"
    using AND [OF s(1) n(2) b(1) bn(2)] by (simp add: results_gives sylvan_diff_def)
  show "results st (sylvan_less fuel a b st) (\<lambda>\<sigma>. \<not> f \<sigma> \<and> g \<sigma>)"
    using AND [OF n(1) s(2) bn(1) b(2)] by (simp add: results_gives sylvan_less_def)
qed

end
