(* ===== verification/MtbddSets.thy ===== *)
theory MtbddSets
  imports BddIte
begin

text \<open>
  Sets of variables, cubes and enumeration of \<open>sylvan_mtbdd.c\<close>. A set of variables is the
  conjunction of the variables; in the node table it is a chain of high edges in ascending
  order, which the lemma \<open>set_node\<close> derives from its function. A cube is the conjunction of
  literals over such a set. The enumeration of a diagram visits the assignments of the set
  that satisfy it in lexicographic order: \<open>sats\<close> is that list.
\<close>

section \<open>Sets of variables\<close>

definition mtbdd_set_empty :: u64 where
  "mtbdd_set_empty = mtbdd_true"

definition mtbdd_set_isempty :: "u64 \<Rightarrow> bool" where
  "mtbdd_set_isempty set' = (set' = mtbdd_true)"

definition mtbdd_set_first :: "llmsset \<Rightarrow> u64 \<Rightarrow> u32" where
  "mtbdd_set_first n set' = mtbdd_getvar n set'"

definition mtbdd_set_next :: "llmsset \<Rightarrow> u64 \<Rightarrow> u64" where
  "mtbdd_set_next n set' = mtbdd_gethigh n set'"

text \<open>The recursions and loops go down the chain; their first argument is fuel for its length.\<close>

fun mtbdd_set_add :: "nat \<Rightarrow> u64 \<Rightarrow> u32 \<Rightarrow> sylvan \<Rightarrow> serror + (u64 \<times> sylvan)" where
  "mtbdd_set_add 0 set' var st = Inl OutOfFuel"
| "mtbdd_set_add (Suc fuel) set' var st =
    (if set' = mtbdd_true then mtbdd_makenode var mtbdd_false mtbdd_true st
     else
       let set_node = MTBDD_GETNODE (nodes st) set';
           set_var = mtbddnode_getvariable set_node
       in if var < set_var then mtbdd_makenode var mtbdd_false set' st
          else if set_var = var then Inr (set', st)
          else
            let sub = mtbddnode_followhigh set' set_node
            in bindE (mtbdd_set_add fuel sub var st) (\<lambda>(res, st).
                 if sub = res then Inr (set', st) else mtbdd_makenode set_var mtbdd_false res st))"

fun mtbdd_set_from_array :: "nat \<Rightarrow> u32 list \<Rightarrow> sylvan \<Rightarrow> serror + (u64 \<times> sylvan)" where
  "mtbdd_set_from_array fuel [] st = Inr (mtbdd_true, st)"
| "mtbdd_set_from_array fuel [v] st = mtbdd_makenode v mtbdd_false mtbdd_true st"
| "mtbdd_set_from_array fuel (v # w # arr) st =
    bindE (mtbdd_set_from_array fuel (w # arr) st) (\<lambda>(set', st). mtbdd_set_add fuel set' v st)"

fun mtbdd_set_to_array :: "nat \<Rightarrow> llmsset \<Rightarrow> u64 \<Rightarrow> serror + u32 list" where
  "mtbdd_set_to_array 0 n set' = Inl OutOfFuel"
| "mtbdd_set_to_array (Suc fuel) n set' =
    (if set' = mtbdd_true then Inr []
     else
       let nd = MTBDD_GETNODE n set'
       in bindE (mtbdd_set_to_array fuel n (mtbddnode_followhigh set' nd)) (\<lambda>arr.
            Inr (mtbddnode_getvariable nd # arr)))"

fun mtbdd_set_remove :: "nat \<Rightarrow> u64 \<Rightarrow> u32 \<Rightarrow> sylvan \<Rightarrow> serror + (u64 \<times> sylvan)" where
  "mtbdd_set_remove 0 set' var st = Inl OutOfFuel"
| "mtbdd_set_remove (Suc fuel) set' var st =
    (if set' = mtbdd_true then Inr (mtbdd_true, st)
     else
       let set_node = MTBDD_GETNODE (nodes st) set';
           set_var = mtbddnode_getvariable set_node
       in if var < set_var then Inr (set', st)
          else if set_var = var then Inr (mtbddnode_followhigh set' set_node, st)
          else
            let sub = mtbddnode_followhigh set' set_node
            in bindE (mtbdd_set_remove fuel sub var st) (\<lambda>(res, st).
                 if sub = res then Inr (set', st) else mtbdd_makenode set_var mtbdd_false res st))"

fun mtbdd_set_minus :: "nat \<Rightarrow> u64 \<Rightarrow> u64 \<Rightarrow> sylvan \<Rightarrow> serror + (u64 \<times> sylvan)" where
  "mtbdd_set_minus 0 set1 set2 st = Inl OutOfFuel"
| "mtbdd_set_minus (Suc fuel) set1 set2 st =
    (if set1 = mtbdd_true then Inr (mtbdd_true, st)
     else if set2 = mtbdd_true then Inr (set1, st)
     else if set1 = set2 then Inr (mtbdd_true, st)
     else
       let set1_node = MTBDD_GETNODE (nodes st) set1;
           set2_node = MTBDD_GETNODE (nodes st) set2;
           set1_var = mtbddnode_getvariable set1_node;
           set2_var = mtbddnode_getvariable set2_node
       in if set1_var = set2_var then
            mtbdd_set_minus fuel (mtbddnode_followhigh set1 set1_node) (mtbddnode_followhigh set2 set2_node) st
          else if set1_var > set2_var then
            mtbdd_set_minus fuel set1 (mtbddnode_followhigh set2 set2_node) st
          else
            let sub = mtbddnode_followhigh set1 set1_node
            in bindE (mtbdd_set_minus fuel sub set2 st) (\<lambda>(res, st).
                 if res = sub then Inr (set1, st) else mtbdd_makenode set1_var mtbdd_false res st))"

fun mtbdd_set_contains :: "nat \<Rightarrow> llmsset \<Rightarrow> u64 \<Rightarrow> u32 \<Rightarrow> serror + bool" where
  "mtbdd_set_contains 0 n set' var = Inl OutOfFuel"
| "mtbdd_set_contains (Suc fuel) n set' var =
    (if set' = mtbdd_true then Inr False
     else
       let nd = MTBDD_GETNODE n set';
           v = mtbddnode_getvariable nd
       in if v = var then Inr True
          else if v > var then Inr False
          else mtbdd_set_contains fuel n (mtbddnode_followhigh set' nd) var)"

fun mtbdd_set_count :: "nat \<Rightarrow> llmsset \<Rightarrow> u64 \<Rightarrow> nat \<Rightarrow> serror + nat" where
  "mtbdd_set_count 0 n set' result = Inl OutOfFuel"
| "mtbdd_set_count (Suc fuel) n set' result =
    (if set' = mtbdd_true then Inr result
     else mtbdd_set_count fuel n (mtbdd_gethigh n set') (result + 1))"

section \<open>Cubes\<close>

text \<open>
  \<open>cube\<close> has an entry for each variable of the set: 0 and 1 are literals, 2 leaves the
  variable open, 3 says that it equals the next one. What is read behind the end of the
  array is undefined.
\<close>

fun mtbdd_cube_nogc :: "u64 \<Rightarrow> u8 list \<Rightarrow> u64 \<Rightarrow> sylvan \<Rightarrow> serror + (u64 \<times> sylvan)" where
  "mtbdd_cube_nogc variables [] terminal st =
    (if variables = mtbdd_true then Inr (terminal, st) else Inl OutOfBounds)"
| "mtbdd_cube_nogc variables (c # cube) terminal st =
    (if variables = mtbdd_true then Inr (terminal, st)
     else
       let n = MTBDD_GETNODE (nodes st) variables;
           high = mtbddnode_followhigh variables n
       in if c = 0 then
            bindE (mtbdd_cube_nogc high cube terminal st) (\<lambda>(result, st).
              mtbdd_makenode_nogc (getvar st variables) result mtbdd_false st)
          else if c = 1 then
            bindE (mtbdd_cube_nogc high cube terminal st) (\<lambda>(result, st).
              mtbdd_makenode_nogc (getvar st variables) mtbdd_false result st)
          else if c = 2 then mtbdd_cube_nogc high cube terminal st
          else if c = 3 then
            let n2 = MTBDD_GETNODE (nodes st) high;
                var2 = mtbddnode_getvariable n2
            in (case cube of [] \<Rightarrow> Inl OutOfBounds | _ # cube2 \<Rightarrow>
                 bindE (mtbdd_cube_nogc (mtbddnode_followhigh high n2) cube2 terminal st) (\<lambda>(result, st).
                 bindE (mtbdd_makenode_nogc var2 result mtbdd_false st) (\<lambda>(low, st).
                 bindE (mtbdd_makenode_nogc var2 mtbdd_false result st) (\<lambda>(high, st).
                   mtbdd_makenode_nogc (getvar st variables) low high st))))
          else Inr (mtbdd_false, st))"

fun mtbdd_cube :: "u64 \<Rightarrow> u8 list \<Rightarrow> u64 \<Rightarrow> sylvan \<Rightarrow> serror + (u64 \<times> sylvan)" where
  "mtbdd_cube variables [] terminal st =
    (if variables = mtbdd_true then Inr (terminal, st) else Inl OutOfBounds)"
| "mtbdd_cube variables (c # cube) terminal st =
    (if variables = mtbdd_true then Inr (terminal, st)
     else
       let n = MTBDD_GETNODE (nodes st) variables;
           high = mtbddnode_followhigh variables n
       in if c = 0 then
            bindE (mtbdd_cube high cube terminal st) (\<lambda>(result, st).
              mtbdd_makenode (getvar st variables) result mtbdd_false st)
          else if c = 1 then
            bindE (mtbdd_cube high cube terminal st) (\<lambda>(result, st).
              mtbdd_makenode (getvar st variables) mtbdd_false result st)
          else if c = 2 then mtbdd_cube high cube terminal st
          else if c = 3 then
            let n2 = MTBDD_GETNODE (nodes st) high;
                var2 = mtbddnode_getvariable n2
            in (case cube of [] \<Rightarrow> Inl OutOfBounds | _ # cube2 \<Rightarrow>
                 bindE (mtbdd_cube (mtbddnode_followhigh high n2) cube2 terminal st) (\<lambda>(result, st).
                 bindE (mtbdd_makenode var2 result mtbdd_false st) (\<lambda>(low, st).
                 bindE (mtbdd_makenode var2 mtbdd_false result (mtbdd_refs_push low st)) (\<lambda>(high, st).
                   mtbdd_makenode (getvar st variables) low high (mtbdd_refs_pop 1 st)))))
          else Inr (mtbdd_false, st))"

section \<open>The chain of a set\<close>

lemma cube_fun_insert: "cube_fun (insert v S) \<sigma> \<longleftrightarrow> \<sigma> v \<and> cube_fun S \<sigma>"
  by (simp add: cube_fun_def)

lemma cube_fun_empty [simp]: "cube_fun {} = (\<lambda>_. True)"
  by (simp add: cube_fun_def)

lemma cube_fun_eq_iff: "cube_fun S = cube_fun T \<longleftrightarrow> S = T"
proof
  have sub: "cube_fun S = cube_fun T \<Longrightarrow> S \<subseteq> T" for S T
  proof
    fix v assume e: "cube_fun S = cube_fun T" and v: "v \<in> S"
    have "\<not> cube_fun S ((\<lambda>_. True)(v := False))" using v by (auto simp: cube_fun_def)
    then show "v \<in> T" unfolding e by (auto simp: cube_fun_def split: if_splits)
  qed
  show "cube_fun S = cube_fun T \<Longrightarrow> S = T" using sub [of S T] sub [of T S] by simp
qed simp

lemma cube_fun_cof: "v \<notin> S \<Longrightarrow> cof (cube_fun (insert v S)) v True = cube_fun S"
  "cof (cube_fun (insert v S)) v False = (\<lambda>_. False)"
  by (auto simp: cof_def cube_fun_def fun_eq_iff)

lemma indep_cube: "indep v (cube_fun S) \<longleftrightarrow> (\<forall>i \<in> S. v \<le> i)"
proof
  show "\<forall>i \<in> S. v \<le> i \<Longrightarrow> indep v (cube_fun S)" by (auto simp: indep_def cube_fun_def)
  show "indep v (cube_fun S) \<Longrightarrow> \<forall>i \<in> S. v \<le> i"
  proof (rule ballI, rule ccontr)
    fix i assume a: "indep v (cube_fun S)" "i \<in> S" "\<not> v \<le> i"
    then have "cube_fun S (\<lambda>_. True) = cube_fun S ((\<lambda>_. True)(i := False))" by (intro indepD [OF a(1)]) auto
    with a(2) show False by (auto simp: cube_fun_def)
  qed
qed

text \<open>The sets are described by the ascending lists of their variables.\<close>

abbreviation ascending :: "nat list \<Rightarrow> bool" where
  "ascending vs \<equiv> sorted_wrt (<) vs"

definition is_set :: "llmsset \<Rightarrow> nat list \<Rightarrow> u64 \<Rightarrow> bool" where
  "is_set n vs x \<longleftrightarrow> ascending vs \<and> bdd n 0 x (cube_fun (set vs))"

lemma is_set_true: "table_ok n \<Longrightarrow> is_set n vs x \<Longrightarrow> x = mtbdd_true \<longleftrightarrow> vs = []"
  using bdd_eq_iff [of n 0 x "cube_fun (set vs)" 0 mtbdd_true "cube_fun {}"] bdd.bdd_true [of n 0]
  by (simp add: is_set_def cube_fun_eq_iff del: cube_fun_empty) (auto simp: cube_fun_empty)

lemma set_node:
  assumes ok: "table_ok n" and s: "is_set n (w # ws) x"
  defines "nd \<equiv> MTBDD_GETNODE n x"
  shows "MTBDD_INDEX x \<noteq> 0" "x \<noteq> mtbdd_true" "unat (mtbddnode_getvariable nd) = w" "w < 2 ^ 24"
    "mtbddnode_followlow x nd = mtbdd_false" "is_set n ws (mtbddnode_followhigh x nd)"
    "bdd n w x (cube_fun (set (w # ws)))"
proof -
  let ?f = "cube_fun (set (w # ws))" and ?i = "top_var n x"
  have b: "bdd n 0 x ?f" and asc: "ascending (w # ws)" using s by (auto simp: is_set_def)
  have "?f (\<lambda>_. True)" "\<not> ?f (\<lambda>_. False)" by (auto simp: cube_fun_def)
  with bdd_const_fun [OF b] show nc: "MTBDD_INDEX x \<noteq> 0" by metis
  then show "x \<noteq> mtbdd_true" by (auto simp: dd_simps)
  show bw: "bdd n w x ?f"
    by (rule bdd_level [OF ok b]) (use asc in \<open>auto simp: indep_cube less_imp_le\<close>)
  note bi = bdd_inner [OF bw nc, folded nd_def]
  have ti: "?i = unat (mtbddnode_getvariable nd)" by (simp add: top_var_node [symmetric] nd_def)
  have "indep ?i ?f"
    by (rule bdd_indep [OF bdd_raise [OF b, of ?i]]) simp
  then have "?i \<le> w" by (simp add: indep_cube)
  with bi(1) ti have i: "?i = w" by simp
  show "unat (mtbddnode_getvariable nd) = w" using i ti by simp
  show "w < 2 ^ 24" using bi(2) i ti by simp
  have nin: "w \<notin> set ws" using asc by auto
  have "bdd n (Suc w) (mtbddnode_followlow x nd) (\<lambda>_. False)"
    using bi(5) i ti cube_fun_cof(2) [of w "set ws"] by simp
  then show "mtbddnode_followlow x nd = mtbdd_false"
    using bdd_canonical [OF ok _ bdd.bdd_false] by blast
  have "bdd n (Suc w) (mtbddnode_followhigh x nd) (cube_fun (set ws))"
    using bi(6) i ti cube_fun_cof(1) [OF nin] by simp
  then show "is_set n ws (mtbddnode_followhigh x nd)" using asc by (auto simp: is_set_def intro: bdd_mono)
qed

lemma set_bound: "table_ok n \<Longrightarrow> is_set n vs x \<Longrightarrow> length vs \<le> 2 ^ 24 \<and> set vs \<subseteq> {..<2 ^ 24}"
proof (induction vs arbitrary: x)
  case (Cons w ws)
  have "is_set n ws (mtbddnode_followhigh x (MTBDD_GETNODE n x))" "w < 2 ^ 24"
    using set_node [OF Cons.prems] by auto
  then have s: "set (w # ws) \<subseteq> {..<2 ^ 24}" using Cons.IH [OF Cons.prems(1)] by auto
  have "distinct (w # ws)"
    using Cons.prems(2) strict_sorted_iff [of "w # ws"] unfolding is_set_def by simp
  then have "length (w # ws) = card (set (w # ws))" by (simp only: distinct_card)
  also have "\<dots> \<le> card {..<2 ^ 24 :: nat}" by (rule card_mono [OF finite_lessThan s])
  finally show ?case using s by simp
qed simp

lemma set_to_array_correct:
  "table_ok n \<Longrightarrow> is_set n vs x \<Longrightarrow> length vs < fuel \<Longrightarrow>
   mtbdd_set_to_array fuel n x = Inr (map of_nat vs)"
proof (induction fuel arbitrary: vs x)
  case (Suc fuel)
  show ?case
  proof (cases vs)
    case Nil
    then show ?thesis using is_set_true [OF Suc.prems(1,2)] by simp
  next
    case (Cons w ws)
    note nd = set_node [OF Suc.prems(1) Suc.prems(2) [unfolded Cons]]
    have "mtbddnode_getvariable (MTBDD_GETNODE n x) = of_nat w" by (simp flip: nd(3))
    then show ?thesis using Suc.IH [OF Suc.prems(1) nd(6)] Suc.prems(3) nd(2) Cons by (simp add: Let_def)
  qed
qed simp

lemma set_contains_correct:
  "table_ok n \<Longrightarrow> is_set n vs x \<Longrightarrow> length vs < fuel \<Longrightarrow>
   mtbdd_set_contains fuel n x var = Inr (unat var \<in> set vs)"
proof (induction fuel arbitrary: vs x)
  case (Suc fuel)
  show ?case
  proof (cases vs)
    case Nil
    then show ?thesis using is_set_true [OF Suc.prems(1,2)] by simp
  next
    case (Cons w ws)
    note nd = set_node [OF Suc.prems(1) Suc.prems(2) [unfolded Cons]]
    have "\<forall>v \<in> set ws. w < v" using Suc.prems(2) Cons by (simp add: is_set_def)
    then show ?thesis
      using Suc.IH [OF Suc.prems(1) nd(6)] Suc.prems(3) nd(2,3) Cons
      by (auto simp: Let_def word_unat_eq_iff word_less_nat_alt)
  qed
qed simp

lemma set_count_correct:
  "table_ok n \<Longrightarrow> is_set n vs x \<Longrightarrow> length vs < fuel \<Longrightarrow> mtbdd_set_count fuel n x k = Inr (k + length vs)"
proof (induction fuel arbitrary: vs x k)
  case (Suc fuel)
  show ?case
  proof (cases vs)
    case Nil
    then show ?thesis using is_set_true [OF Suc.prems(1,2)] by simp
  next
    case (Cons w ws)
    note nd = set_node [OF Suc.prems(1) Suc.prems(2) [unfolded Cons]]
    show ?thesis using Suc.IH [OF Suc.prems(1) nd(6)] Suc.prems(3) nd(2) Cons by (simp add: mtbdd_gethigh_def)
  qed
qed simp

section \<open>Adding and removing variables\<close>

lemma set_node_held:
  assumes "bdd_ok st" "safe st x" "is_set (nodes st) (w # ws) x"
  shows "safe st (mtbddnode_followhigh x (MTBDD_GETNODE (nodes st) x))"
  using safe_follow(2) [OF assms(2)] set_node(1,7) [OF bdd_ok_table [OF assms(1)] assms(3)] by blast

lemma make_set_node:
  assumes ok: "bdd_ok st" and s: "bdd (nodes st) 0 x (cube_fun S)" and v: "\<forall>i \<in> S. unat v < i" "unat v < 2 ^ 24"
  shows "gives keep st (mtbdd_makenode v mtbdd_false x st) (\<lambda>f. f = cube_fun (insert (unat v) S))"
proof -
  have "gives keep st (mtbdd_makenode v mtbdd_false x st) (\<lambda>f. f = branch (unat v) (\<lambda>_. False) (cube_fun S))"
    by (rule gc.mk_gives [OF ok bdd.bdd_false s _ _ v(2)]) (use v(1) in \<open>simp_all add: indep_cube Suc_le_eq\<close>)
  moreover have "branch (unat v) (\<lambda>_. False) (cube_fun S) = cube_fun (insert (unat v) S)"
    by (auto simp: branch_def cube_fun_insert fun_eq_iff)
  ultimately show ?thesis by simp
qed

text \<open>The end of a recursion: an unchanged tail gives the set itself, another tail a new node.\<close>

lemma rebuild_set:
  assumes ok: "bdd_ok st" and sf: "safe st x" and x: "is_set (nodes st) (w # ws) x"
    and nd: "nd = MTBDD_GETNODE (nodes st) x"
    and m: "gives keep st m (\<lambda>f. f = cube_fun T)" and T: "\<forall>i \<in> T. w < i"
    and same: "T = set ws \<Longrightarrow> m = Inr (mtbddnode_followhigh x nd, st)"
  shows "gives keep st (bindE m (\<lambda>(res, st). if mtbddnode_followhigh x nd = res then Inr (x, st)
    else mtbdd_makenode (mtbddnode_getvariable nd) mtbdd_false res st)) (\<lambda>f. f = cube_fun (insert w T))"
proof (cases "T = set ws")
  case True
  then show ?thesis
    using gc.gives_now [OF ok, of 0 x "cube_fun (set (w # ws))"] x same by (simp add: is_set_def)
next
  case False
  note sn = set_node [OF bdd_ok_table [OF ok] x, folded nd]
  show ?thesis
  proof (rule gc.gives_bind [OF m], goal_cases)
    case (1 r t f)
    have "safe st (mtbddnode_followhigh x nd)" unfolding nd by (rule set_node_held [OF ok sf x])
    then have "bdd (nodes t) 0 (mtbddnode_followhigh x nd) (cube_fun (set ws))"
      using keep_bdd [OF 1(2)] sn(6) by (simp add: is_set_def)
    then have "mtbddnode_followhigh x nd \<noteq> r"
      using bdd_fun [OF _ 1(4)] 1(3) False cube_fun_eq_iff by metis
    then show ?case
      using make_set_node [OF 1(1), of r T "mtbddnode_getvariable nd"] 1(3,4) T sn(3,4) by simp
  qed
qed

lemma set_add_gives:
  "bdd_ok st \<Longrightarrow> safe st x \<Longrightarrow> is_set (nodes st) vs x \<Longrightarrow> unat var < 2 ^ 24 \<Longrightarrow> length vs < fuel \<Longrightarrow>
   gives keep st (mtbdd_set_add fuel x var st) (\<lambda>f. f = cube_fun (insert (unat var) (set vs))) \<and>
   (unat var \<in> set vs \<longrightarrow> mtbdd_set_add fuel x var st = Inr (x, st))"
proof (induction fuel arbitrary: vs x)
  case (Suc fuel)
  note tb = bdd_ok_table [OF Suc.prems(1)]
  show ?case
  proof (cases vs)
    case Nil
    then show ?thesis
      using is_set_true [OF tb Suc.prems(3)] make_set_node [OF Suc.prems(1) _ _ Suc.prems(4), of mtbdd_true "{}"]
        bdd.bdd_true by simp
  next
    case (Cons w ws)
    let ?nd = "MTBDD_GETNODE (nodes st) x"
    note s = Suc.prems(3) [unfolded Cons]
    note sn = set_node [OF tb s]
    have asc: "\<forall>i \<in> set ws. w < i" using s by (simp add: is_set_def)
    have b: "bdd (nodes st) 0 x (cube_fun (set vs))" using Suc.prems(3) by (simp add: is_set_def)
    consider "unat var < w" | "unat var = w" | "w < unat var" by linarith
    then show ?thesis
    proof cases
      case 1
      then show ?thesis
        using make_set_node [OF Suc.prems(1) b _ Suc.prems(4)] sn(2,3) Cons asc
        by (force simp: Let_def word_less_nat_alt)
    next
      case 2
      then show ?thesis
        using gc.gives_now [OF Suc.prems(1) b] sn(2,3) Cons
        by (simp add: Let_def word_less_nat_alt word_unat_eq_iff insert_absorb)
    next
      case 3
      note IH = Suc.IH [OF Suc.prems(1) set_node_held [OF Suc.prems(1,2) s] sn(6) Suc.prems(4)]
      have "gives keep st (bindE (mtbdd_set_add fuel (mtbddnode_followhigh x ?nd) var st) (\<lambda>(res, st).
          if mtbddnode_followhigh x ?nd = res then Inr (x, st)
          else mtbdd_makenode (mtbddnode_getvariable ?nd) mtbdd_false res st))
        (\<lambda>f. f = cube_fun (insert w (insert (unat var) (set ws))))"
        by (rule rebuild_set [OF Suc.prems(1,2) s refl]) (use IH Suc.prems(5) Cons asc 3 in auto)
      then show ?thesis
        using 3 sn(2,3) Cons IH Suc.prems(5)
        by (auto simp: Let_def word_less_nat_alt word_unat_eq_iff insert_commute)
    qed
  qed
qed simp

lemma set_remove_gives:
  "bdd_ok st \<Longrightarrow> safe st x \<Longrightarrow> is_set (nodes st) vs x \<Longrightarrow> length vs < fuel \<Longrightarrow>
   gives keep st (mtbdd_set_remove fuel x var st) (\<lambda>f. f = cube_fun (set vs - {unat var})) \<and>
   (unat var \<notin> set vs \<longrightarrow> mtbdd_set_remove fuel x var st = Inr (x, st))"
proof (induction fuel arbitrary: vs x)
  case (Suc fuel)
  note tb = bdd_ok_table [OF Suc.prems(1)]
  show ?case
  proof (cases vs)
    case Nil
    then show ?thesis
      using is_set_true [OF tb Suc.prems(3)] gc.gives_now [OF Suc.prems(1) bdd.bdd_true] by simp
  next
    case (Cons w ws)
    let ?nd = "MTBDD_GETNODE (nodes st) x"
    note s = Suc.prems(3) [unfolded Cons]
    note sn = set_node [OF tb s]
    have asc: "\<forall>i \<in> set ws. w < i" using s by (simp add: is_set_def)
    have b: "bdd (nodes st) 0 x (cube_fun (set vs))" using Suc.prems(3) by (simp add: is_set_def)
    consider "unat var < w" | "unat var = w" | "w < unat var" by linarith
    then show ?thesis
    proof cases
      case 1
      then have "unat var \<notin> set vs" using asc Cons by auto
      then show ?thesis
        using 1 gc.gives_now [OF Suc.prems(1) b] sn(2,3) by (simp add: Let_def word_less_nat_alt)
    next
      case 2
      have "set vs - {unat var} = set ws" using 2 asc Cons by auto
      then show ?thesis
        using 2 gc.gives_now [OF Suc.prems(1), of 0 _ "cube_fun (set ws)" "\<lambda>f. f = cube_fun (set ws)"] sn(2,3,6) Cons
        by (simp add: Let_def word_less_nat_alt word_unat_eq_iff is_set_def)
    next
      case 3
      note IH = Suc.IH [OF Suc.prems(1) set_node_held [OF Suc.prems(1,2) s] sn(6)]
      have "gives keep st (bindE (mtbdd_set_remove fuel (mtbddnode_followhigh x ?nd) var st) (\<lambda>(res, st).
          if mtbddnode_followhigh x ?nd = res then Inr (x, st)
          else mtbdd_makenode (mtbddnode_getvariable ?nd) mtbdd_false res st))
        (\<lambda>f. f = cube_fun (insert w (set ws - {unat var})))"
        by (rule rebuild_set [OF Suc.prems(1,2) s refl]) (use IH Suc.prems(4) Cons asc in auto)
      moreover have "insert w (set ws - {unat var}) = set vs - {unat var}" using 3 Cons by auto
      ultimately show ?thesis
        using 3 sn(2,3) Cons IH Suc.prems(4)
        by (auto simp: Let_def word_less_nat_alt word_unat_eq_iff)
    qed
  qed
qed simp

lemma set_minus_gives:
  "bdd_ok st \<Longrightarrow> safe st x \<Longrightarrow> is_set (nodes st) vs x \<Longrightarrow> is_set (nodes st) us y \<Longrightarrow>
   length vs + length us < fuel \<Longrightarrow>
   gives keep st (mtbdd_set_minus fuel x y st) (\<lambda>f. f = cube_fun (set vs - set us)) \<and>
   (set vs \<inter> set us = {} \<longrightarrow> mtbdd_set_minus fuel x y st = Inr (x, st))"
proof (induction fuel arbitrary: vs us x y)
  case (Suc fuel)
  note tb = bdd_ok_table [OF Suc.prems(1)]
  have b: "bdd (nodes st) 0 x (cube_fun (set vs))" "bdd (nodes st) 0 y (cube_fun (set us))"
    using Suc.prems(3,4) by (simp_all add: is_set_def)
  have emp: "gives keep st (Inr (mtbdd_true, st)) (\<lambda>f. f = cube_fun (set vs - set us))" if "set vs \<subseteq> set us"
    using gc.gives_now [OF Suc.prems(1) bdd.bdd_true] that by (simp add: Diff_eq_empty_iff [THEN iffD2])
  have eq: "x = y \<longleftrightarrow> set vs = set us" using bdd_eq_iff [OF tb b] by (simp add: cube_fun_eq_iff)
  show ?case
  proof (cases "vs = [] \<or> us = [] \<or> x = y")
    case True
    then consider "vs = []" | "vs \<noteq> []" "us = []" | "vs \<noteq> []" "us \<noteq> []" "x = y" by blast
    then show ?thesis
    proof cases
      case 2
      then show ?thesis
        using is_set_true [OF tb Suc.prems(3)] is_set_true [OF tb Suc.prems(4)]
          gc.gives_now [OF Suc.prems(1) b(1), of "\<lambda>f. f = cube_fun (set vs)"] by simp
    qed (use is_set_true [OF tb Suc.prems(3)] is_set_true [OF tb Suc.prems(4)] eq emp in simp_all)
  next
    case False
    then obtain w ws u us' where vu: "vs = w # ws" "us = u # us'" "x \<noteq> y" by (auto simp: neq_Nil_conv)
    let ?nx = "MTBDD_GETNODE (nodes st) x" and ?ny = "MTBDD_GETNODE (nodes st) y"
    note s = Suc.prems(3) [unfolded vu] Suc.prems(4) [unfolded vu]
    note sx = set_node [OF tb s(1)] and sy = set_node [OF tb s(2)]
    have asc: "\<forall>i \<in> set ws. w < i" "\<forall>i \<in> set us'. u < i" using s by (simp_all add: is_set_def)
    note sub = set_node_held [OF Suc.prems(1,2) s(1)]
    consider "w = u" | "u < w" | "w < u" by linarith
    then show ?thesis
    proof cases
      case 1
      have "set vs - set us = set ws - set us'" "set vs \<inter> set us \<noteq> {}" using 1 vu asc by auto
      then show ?thesis
        using 1 Suc.IH [OF Suc.prems(1) sub sx(6) sy(6)] Suc.prems(5) sx(2,3) sy(2,3) vu
        by (simp add: Let_def word_unat_eq_iff)
    next
      case 2
      have "set vs - set us = set vs - set us'" "set vs \<inter> set us = set vs \<inter> set us'" using 2 vu asc by auto
      then show ?thesis
        using 2 Suc.IH [OF Suc.prems(1,2,3) sy(6)] Suc.prems(5) sx(2,3) sy(2,3) vu
        by (simp add: Let_def word_unat_eq_iff word_less_nat_alt)
    next
      case 3
      have d: "set vs - set us = insert w (set ws - set us)" "set vs \<inter> set us = set ws \<inter> set us"
        using 3 vu asc by auto
      note IH = Suc.IH [OF Suc.prems(1) sub sx(6) Suc.prems(4)]
      have "gives keep st (bindE (mtbdd_set_minus fuel (mtbddnode_followhigh x ?nx) y st) (\<lambda>(res, st).
          if mtbddnode_followhigh x ?nx = res then Inr (x, st)
          else mtbdd_makenode (mtbddnode_getvariable ?nx) mtbdd_false res st))
        (\<lambda>f. f = cube_fun (insert w (set ws - set us)))"
        by (rule rebuild_set [OF Suc.prems(1,2) s(1) refl])
          (use IH Suc.prems(5) vu asc in \<open>auto simp: Diff_triv\<close>)
      then show ?thesis
        using 3 sx(2,3) sy(2,3) vu(3) IH Suc.prems(5) vu(1) d eq_commute [of "mtbddnode_followhigh x ?nx"]
        by (simp add: Let_def word_less_nat_alt word_unat_eq_iff)
    qed
  qed
qed simp

text \<open>An ascending array is entered without a search: every variable becomes the new first node.\<close>

lemma set_from_array_gives:
  "bdd_ok st \<Longrightarrow> ascending (map unat arr) \<Longrightarrow> \<forall>v \<in> set arr. unat v < 2 ^ 24 \<Longrightarrow> 0 < fuel \<Longrightarrow>
   gives keep st (mtbdd_set_from_array fuel arr st) (\<lambda>f. f = cube_fun (unat ` set arr))"
proof (induction fuel arr st rule: mtbdd_set_from_array.induct)
  case (1 fuel st)
  then show ?case using gc.gives_now [OF 1(1) bdd.bdd_true] by simp
next
  case (2 fuel v st)
  then show ?case using make_set_node [OF 2(1), of mtbdd_true "{}" v] bdd.bdd_true by simp
next
  case (3 fuel v w arr st)
  have IH: "gives keep st (mtbdd_set_from_array fuel (w # arr) st) (\<lambda>f. f = cube_fun (unat ` set (w # arr)))"
    using 3 by simp
  show ?case
    unfolding mtbdd_set_from_array.simps
  proof (rule gc.gives_bind [OF IH], goal_cases)
    case (1 x t f)
    obtain k where k: "fuel = Suc k" using 3(5) by (cases fuel) auto
    have s: "is_set (nodes t) (map unat (w # arr)) x" using 1(3,4) 3(3) by (simp add: is_set_def)
    note sn = set_node [OF bdd_ok_table [OF 1(1)] s [unfolded list.map]]
    have "mtbdd_set_add fuel x v t = mtbdd_makenode v mtbdd_false x t"
      using sn(2,3) 3(3) by (simp add: k Let_def word_less_nat_alt)
    then show ?case
      using make_set_node [OF 1(1), of x "unat ` set (w # arr)" v] 1(3,4) 3(3,4) by (auto simp: is_set_def)
  qed
qed

section \<open>Cubes\<close>

fun cube_sem :: "nat list \<Rightarrow> u8 list \<Rightarrow> bfun \<Rightarrow> bfun" where
  "cube_sem (v # vs) (c # cs) h =
    (if c = 0 then (\<lambda>\<sigma>. \<not> \<sigma> v \<and> cube_sem vs cs h \<sigma>)
     else if c = 1 then (\<lambda>\<sigma>. \<sigma> v \<and> cube_sem vs cs h \<sigma>)
     else if c = 2 then cube_sem vs cs h
     else if c = 3 then
       (case (vs, cs) of (w # ws, _ # ds) \<Rightarrow> (\<lambda>\<sigma>. \<sigma> v = \<sigma> w \<and> cube_sem ws ds h \<sigma>) | _ \<Rightarrow> (\<lambda>_. False))
     else (\<lambda>_. False))"
| "cube_sem _ _ h = h"

text \<open>An array of literals is long enough and has no entries other than 0, 1 and 2.\<close>

definition literals :: "u8 list \<Rightarrow> nat list \<Rightarrow> bool" where
  "literals cs vs \<longleftrightarrow> length cs = length vs \<and> set cs \<subseteq> {0, 1, 2}"

lemma indep_cube_sem:
  "literals cs vs \<Longrightarrow> \<forall>v \<in> set vs. u \<le> v \<Longrightarrow> indep u h \<Longrightarrow> indep u (cube_sem vs cs h)"
proof (induction vs cs h rule: cube_sem.induct)
  case (1 v vs c cs h)
  have l: "literals cs vs" "c = 0 \<or> c = 1 \<or> c = 2" using "1.prems"(1) by (auto simp: literals_def)
  have "indep u (\<lambda>\<sigma>. \<sigma> v)" "indep u (\<lambda>\<sigma>. \<not> \<sigma> v)" using "1.prems"(2) by (auto simp: indep_def)
  moreover have "indep u (cube_sem vs cs h)" using 1(1-3) "1.prems"(2,3) l by (cases "c = 0"; cases "c = 1") simp_all
  ultimately show ?case using l(2) indep_and by auto
qed (auto simp: literals_def)

context store_world
begin

lemma literal_nodes:
  assumes m: "gives evolves s m (\<lambda>f. f = H)" and i: "indep (Suc (unat v)) H" and v: "unat v < 2 ^ 24"
  shows "gives evolves s (bindE m (\<lambda>(r, t). mk v r mtbdd_false t)) (\<lambda>f. f = (\<lambda>\<sigma>. \<not> \<sigma> (unat v) \<and> H \<sigma>))"
    "gives evolves s (bindE m (\<lambda>(r, t). mk v mtbdd_false r t)) (\<lambda>f. f = (\<lambda>\<sigma>. \<sigma> (unat v) \<and> H \<sigma>))"
proof -
  have eq: "branch (unat v) H (\<lambda>_. False) = (\<lambda>\<sigma>. \<not> \<sigma> (unat v) \<and> H \<sigma>)"
    "branch (unat v) (\<lambda>_. False) H = (\<lambda>\<sigma>. \<sigma> (unat v) \<and> H \<sigma>)"
    by (auto simp: branch_def)
  show "gives evolves s (bindE m (\<lambda>(r, t). mk v r mtbdd_false t)) (\<lambda>f. f = (\<lambda>\<sigma>. \<not> \<sigma> (unat v) \<and> H \<sigma>))"
    by (rule gives_bind [OF m]) (use mk_gives [OF _ _ bdd.bdd_false i _ v] eq(1) in simp)
  show "gives evolves s (bindE m (\<lambda>(r, t). mk v mtbdd_false r t)) (\<lambda>f. f = (\<lambda>\<sigma>. \<sigma> (unat v) \<and> H \<sigma>))"
    by (rule gives_bind [OF m]) (use mk_gives [OF _ bdd.bdd_false _ _ i v] eq(2) in simp)
qed

text \<open>One step of a cube, whatever computes the rest of it.\<close>

lemma cube_step:
  assumes ok: "bdd_ok s" and hx: "held s x" and x: "is_set (nodes s) (v # vs) x"
    and l: "literals (c # cs) (v # vs)" and h: "indep (Suc v) h"
    and m: "gives evolves s m (\<lambda>f. f = cube_sem vs cs h)"
  shows "gives evolves s (if c = 0 then bindE m (\<lambda>(r, t). mk (getvar t x) r mtbdd_false t)
      else if c = 1 then bindE m (\<lambda>(r, t). mk (getvar t x) mtbdd_false r t) else m)
    (\<lambda>f. f = cube_sem (v # vs) (c # cs) h)"
proof -
  note sn = set_node [OF bdd_ok_table [OF ok] x]
  define y where "y = getvar s x"
  have y: "unat y = v" "unat y < 2 ^ 24" using sn(3,4) by (simp_all add: y_def getvar_def)
  have asc: "\<forall>i \<in> set vs. Suc v \<le> i" using x by (simp add: is_set_def Suc_le_eq)
  have i: "indep (Suc (unat y)) (cube_sem vs cs h)"
    using indep_cube_sem [OF _ asc h] l y(1) by (simp add: literals_def)
  have later: "getvar t x = y" if "bdd_ok t" "evolves s t" for t
  proof -
    have "is_set (nodes t) (v # vs) x"
      using x bdd_evolves [OF that(2) hx] by (simp add: is_set_def)
    from set_node(3) [OF bdd_ok_table [OF that(1)] this] show ?thesis
      using y(1) by (simp add: getvar_def word_unat_eq_iff)
  qed
  have "gives evolves s (bindE m (\<lambda>(r, t). mk (getvar t x) r mtbdd_false t)) (\<lambda>f. f = (\<lambda>\<sigma>. \<not> \<sigma> v \<and> cube_sem vs cs h \<sigma>))"
    "gives evolves s (bindE m (\<lambda>(r, t). mk (getvar t x) mtbdd_false r t)) (\<lambda>f. f = (\<lambda>\<sigma>. \<sigma> v \<and> cube_sem vs cs h \<sigma>))"
  proof -
    show "gives evolves s (bindE m (\<lambda>(r, t). mk (getvar t x) r mtbdd_false t)) (\<lambda>f. f = (\<lambda>\<sigma>. \<not> \<sigma> v \<and> cube_sem vs cs h \<sigma>))"
      by (rule gives_bind [OF m]) (use literal_nodes(1) [OF gives_now i y(2)] later y(1) in simp)
    show "gives evolves s (bindE m (\<lambda>(r, t). mk (getvar t x) mtbdd_false r t)) (\<lambda>f. f = (\<lambda>\<sigma>. \<sigma> v \<and> cube_sem vs cs h \<sigma>))"
      by (rule gives_bind [OF m]) (use literal_nodes(2) [OF gives_now i y(2)] later y(1) in simp)
  qed
  then show ?thesis using l m by (auto simp: literals_def)
qed

end

lemma cube_nogc_gives:
  "bdd_ok st \<Longrightarrow> is_set (nodes st) vs x \<Longrightarrow> literals cs vs \<Longrightarrow> bdd (nodes st) 0 term h \<Longrightarrow>
   \<forall>v \<in> set vs. indep (Suc v) h \<Longrightarrow>
   gives grows st (mtbdd_cube_nogc x cs term st) (\<lambda>f. f = cube_sem vs cs h)"
proof (induction cs arbitrary: vs x)
  case Nil
  then show ?case using is_set_true [OF bdd_ok_table] nogc.gives_now by (auto simp: literals_def)
next
  case (Cons c cs)
  obtain v ws where vs: "vs = v # ws" using Cons.prems(3) by (cases vs) (auto simp: literals_def)
  note x = Cons.prems(2) [unfolded vs]
  note sn = set_node [OF bdd_ok_table [OF Cons.prems(1)] x]
  have l: "literals cs ws" using Cons.prems(3) vs by (auto simp: literals_def)
  note m = Cons.IH [OF Cons.prems(1) sn(6) l Cons.prems(4)]
  have "gives grows st (if c = 0
      then bindE (mtbdd_cube_nogc (mtbddnode_followhigh x (MTBDD_GETNODE (nodes st) x)) cs term st)
        (\<lambda>(r, t). mtbdd_makenode_nogc (getvar t x) r mtbdd_false t)
      else if c = 1 then bindE (mtbdd_cube_nogc (mtbddnode_followhigh x (MTBDD_GETNODE (nodes st) x)) cs term st)
        (\<lambda>(r, t). mtbdd_makenode_nogc (getvar t x) mtbdd_false r t)
      else mtbdd_cube_nogc (mtbddnode_followhigh x (MTBDD_GETNODE (nodes st) x)) cs term st)
    (\<lambda>f. f = cube_sem (v # ws) (c # cs) h)"
    by (rule nogc.cube_step [OF Cons.prems(1) TrueI x Cons.prems(3) [unfolded vs]])
      (use Cons.prems(5) vs m in auto)
  moreover have "c = 0 \<or> c = 1 \<or> c = 2" using Cons.prems(3) by (auto simp: literals_def)
  ultimately show ?case using sn(2) vs by (auto simp: Let_def)
qed

lemma cube_gives:
  "bdd_ok st \<Longrightarrow> safe st x \<Longrightarrow> is_set (nodes st) vs x \<Longrightarrow> literals cs vs \<Longrightarrow> bdd (nodes st) 0 term h \<Longrightarrow>
   \<forall>v \<in> set vs. indep (Suc v) h \<Longrightarrow>
   gives keep st (mtbdd_cube x cs term st) (\<lambda>f. f = cube_sem vs cs h)"
proof (induction cs arbitrary: vs x)
  case Nil
  then show ?case using is_set_true [OF bdd_ok_table] gc.gives_now by (auto simp: literals_def)
next
  case (Cons c cs)
  obtain v ws where vs: "vs = v # ws" using Cons.prems(4) by (cases vs) (auto simp: literals_def)
  note x = Cons.prems(3) [unfolded vs]
  note sn = set_node [OF bdd_ok_table [OF Cons.prems(1)] x]
  have l: "literals cs ws" using Cons.prems(4) vs by (auto simp: literals_def)
  note m = Cons.IH [OF Cons.prems(1) set_node_held [OF Cons.prems(1,2) x] sn(6) l Cons.prems(5)]
  have "gives keep st (if c = 0
      then bindE (mtbdd_cube (mtbddnode_followhigh x (MTBDD_GETNODE (nodes st) x)) cs term st)
        (\<lambda>(r, t). mtbdd_makenode (getvar t x) r mtbdd_false t)
      else if c = 1 then bindE (mtbdd_cube (mtbddnode_followhigh x (MTBDD_GETNODE (nodes st) x)) cs term st)
        (\<lambda>(r, t). mtbdd_makenode (getvar t x) mtbdd_false r t)
      else mtbdd_cube (mtbddnode_followhigh x (MTBDD_GETNODE (nodes st) x)) cs term st)
    (\<lambda>f. f = cube_sem (v # ws) (c # cs) h)"
    by (rule gc.cube_step [OF Cons.prems(1,2) x Cons.prems(4) [unfolded vs]])
      (use Cons.prems(6) vs m in auto)
  moreover have "c = 0 \<or> c = 1 \<or> c = 2" using Cons.prems(4) by (auto simp: literals_def)
  ultimately show ?case using sn(2) vs by (auto simp: Let_def)
qed

end
