(* ===== verification/BddQuant.thy ===== *)
theory BddQuant
  imports MtbddSets
begin

text \<open>
  Quantification in \<open>sylvan_bdd.c\<close>: existential quantification, projection, and both of a
  conjunction that is not built first. The variables are a set in the sense of \<open>is_set\<close>. The
  projection onto a set quantifies all other variables. The projection of a conjunction is
  too large when its second argument is true (\<open>and_project_true\<close>): it is shown to cover the
  projection.
\<close>

section \<open>Operations\<close>

text \<open>A set is a chain of at most \<open>2^24\<close> nodes.\<close>

definition set_fuel :: nat where
  "set_fuel = 2 ^ 24 + 1"

text \<open>The loop that drops the variables above a level.\<close>

fun skip_set :: "nat \<Rightarrow> llmsset \<Rightarrow> u64 \<Rightarrow> u32 \<Rightarrow> serror + u64" where
  "skip_set 0 n v level = Inl OutOfFuel"
| "skip_set (Suc k) n v level =
    (if mtbdd_set_isempty v then Inr v
     else
       let nv = MTBDD_GETNODE n v
       in if mtbddnode_getvariable nv < level then skip_set k n (mtbddnode_followhigh v nv) level else Inr v)"

primrec sylvan_exists :: "nat \<Rightarrow> u64 \<Rightarrow> u64 \<Rightarrow> u32 \<Rightarrow> sylvan \<Rightarrow> serror + (u64 \<times> sylvan)" where
  "sylvan_exists 0 a variables prev_level st = Inl OutOfFuel"
| "sylvan_exists (Suc fuel) a variables prev_level st =
    (if a = mtbdd_true then Inr (mtbdd_true, st)
     else if a = mtbdd_false then Inr (mtbdd_false, st)
     else if mtbdd_set_isempty variables then Inr (a, st)
     else
     let na = MTBDD_GETNODE (nodes st) a;
         level = mtbddnode_getvariable na
     in bindE (skip_set set_fuel (nodes st) variables level) (\<lambda>variables.
     if mtbdd_set_isempty variables then Inr (a, st)
     else
     let vv = getvar st variables;
         cn = cachenow st prev_level level
     in case try_cache st cn CACHE_BDD_EXISTS a variables 0 of Some r \<Rightarrow> Inr (r, st) | None \<Rightarrow>
        let aLow = mtbddnode_followlow a na;
            aHigh = mtbddnode_followhigh a na
        in bindE
          (if vv = level then
             (if aLow = mtbdd_true \<or> aHigh = mtbdd_true \<or> aLow = mtbdd_not aHigh then Inr (mtbdd_true, st)
              else
                let v' = mtbdd_set_next (nodes st) variables
                in bindE (sylvan_exists fuel aLow v' level st) (\<lambda>(low, st).
                   if low = mtbdd_true then Inr (mtbdd_true, st)
                   else pushed low (\<lambda>st. bindE (sylvan_exists fuel aHigh v' level st) (\<lambda>(high, st).
                     if high = mtbdd_true then Inr (mtbdd_true, st)
                     else if low = mtbdd_false \<and> high = mtbdd_false then Inr (mtbdd_false, st)
                     else pushed high (sylvan_or fuel low high) st)) st))
           else
             bindE (sylvan_exists fuel aLow variables level st) (\<lambda>(low, st).
             bindE (pushed low (sylvan_exists fuel aHigh variables level) st) (\<lambda>(high, st).
               mtbdd_makenode level low high st)))
          (\<lambda>(result, st). Inr (result, put_cache cn CACHE_BDD_EXISTS a variables 0 result st))))"

primrec sylvan_project :: "nat \<Rightarrow> u64 \<Rightarrow> u64 \<Rightarrow> sylvan \<Rightarrow> serror + (u64 \<times> sylvan)" where
  "sylvan_project 0 a v st = Inl OutOfFuel"
| "sylvan_project (Suc fuel) a v st =
    (if a = mtbdd_false then Inr (mtbdd_false, st)
     else if a = mtbdd_true then Inr (mtbdd_true, st)
     else if mtbdd_set_isempty v then Inr (mtbdd_true, st)
     else
     let a_node = MTBDD_GETNODE (nodes st) a;
         a_var = mtbddnode_getvariable a_node
     in bindE (skip_set set_fuel (nodes st) v a_var) (\<lambda>v.
     if mtbdd_set_isempty v then Inr (mtbdd_true, st)
     else
     case try_cache st True CACHE_BDD_PROJECT a 0 v of Some r \<Rightarrow> Inr (r, st) | None \<Rightarrow>
     let v_var = getvar st v;
         v_next = mtbdd_set_next (nodes st) v;
         a0 = mtbddnode_followlow a a_node;
         a1 = mtbddnode_followhigh a a_node
     in bindE
       (if v_var = a_var then
          bindE (sylvan_project fuel a1 v_next st) (\<lambda>(high, st).
          bindE (pushed high (sylvan_project fuel a0 v_next) st) (\<lambda>(low, st).
            mtbdd_makenode a_var low high st))
        else
          bindE (sylvan_project fuel a1 v st) (\<lambda>(high, st).
            pushed high (\<lambda>st. bindE (sylvan_project fuel a0 v st) (\<lambda>(low, st).
              pushed low (sylvan_or fuel low high) st)) st))
       (\<lambda>(result, st). Inr (result, put_cache True CACHE_BDD_PROJECT a 0 v result st))))"

text \<open>Cases that reduce to \<open>exists\<close> and \<open>and\<close> call them with previous level 0.\<close>

primrec sylvan_and_exists :: "nat \<Rightarrow> u64 \<Rightarrow> u64 \<Rightarrow> u64 \<Rightarrow> u32 \<Rightarrow> sylvan \<Rightarrow> serror + (u64 \<times> sylvan)" where
  "sylvan_and_exists 0 a b v prev_level st = Inl OutOfFuel"
| "sylvan_and_exists (Suc fuel) a b v prev_level st =
    (if a = mtbdd_false then Inr (mtbdd_false, st)
     else if b = mtbdd_false then Inr (mtbdd_false, st)
     else if a = mtbdd_not b then Inr (mtbdd_false, st)
     else if a = mtbdd_true \<and> b = mtbdd_true then Inr (mtbdd_true, st)
     else if a = mtbdd_true then sylvan_exists (Suc fuel) b v 0 st
     else if b = mtbdd_true then sylvan_exists (Suc fuel) a v 0 st
     else if a = b then sylvan_exists (Suc fuel) a v 0 st
     else if mtbdd_set_isempty v then run_and (Suc fuel) a b st
     else
     let (a, b) = order_args a b;
         va = getvar st a;
         vb = getvar st b;
         level = min_level va vb
     in bindE (skip_set set_fuel (nodes st) v level) (\<lambda>v.
     if mtbdd_set_isempty v then run_and (Suc fuel) a b st
     else
     let vv = getvar st v;
         cn = cachenow st prev_level level
     in case try_cache st cn CACHE_BDD_AND_EXISTS a b v of Some r \<Rightarrow> Inr (r, st) | None \<Rightarrow>
        let (aLow, aHigh) = cofactors st level a;
            (bLow, bHigh) = cofactors st level b
        in bindE
          (if level = vv then
             (let v' = mtbdd_set_next (nodes st) v
              in bindE (sylvan_and_exists fuel aLow bLow v' level st) (\<lambda>(low, st).
                 if low = mtbdd_true \<or> low = aHigh \<or> low = bHigh then Inr (low, st)
                 else pushed low (\<lambda>st. bindE
                   (if low = mtbdd_not aHigh then sylvan_exists fuel bHigh v' 0 st
                    else if low = mtbdd_not bHigh then sylvan_exists fuel aHigh v' 0 st
                    else sylvan_and_exists fuel aHigh bHigh v' level st) (\<lambda>(high, st).
                     if high = mtbdd_true then Inr (mtbdd_true, st)
                     else if high = mtbdd_false then Inr (low, st)
                     else if low = mtbdd_false then Inr (high, st)
                     else pushed high (sylvan_or fuel low high) st)) st))
           else
             bindE (sylvan_and_exists fuel aLow bLow v level st) (\<lambda>(low, st).
             bindE (pushed low (sylvan_and_exists fuel aHigh bHigh v level) st) (\<lambda>(high, st).
               mtbdd_makenode level low high st)))
          (\<lambda>(result, st). Inr (result, put_cache cn CACHE_BDD_AND_EXISTS a b v result st))))"

primrec sylvan_and_project :: "nat \<Rightarrow> u64 \<Rightarrow> u64 \<Rightarrow> u64 \<Rightarrow> sylvan \<Rightarrow> serror + (u64 \<times> sylvan)" where
  "sylvan_and_project 0 a b v st = Inl OutOfFuel"
| "sylvan_and_project (Suc fuel) a b v st =
    (if a = mtbdd_false then Inr (mtbdd_false, st)
     else if b = mtbdd_false then Inr (mtbdd_false, st)
     else if a = mtbdd_not b then Inr (mtbdd_false, st)
     else if a = mtbdd_true \<and> b = mtbdd_true then Inr (mtbdd_true, st)
     else if mtbdd_set_isempty v then Inr (mtbdd_true, st)
     else if a = mtbdd_true \<or> b = mtbdd_true \<or> a = b then sylvan_project (Suc fuel) b v st
     else
     let (a, b) = order_args a b;
         a_var = getvar st a;
         b_var = getvar st b;
         minvar = min_level a_var b_var
     in bindE (skip_set set_fuel (nodes st) v minvar) (\<lambda>v.
     if mtbdd_set_isempty v then Inr (mtbdd_true, st)
     else
     case try_cache st True CACHE_BDD_AND_PROJECT a b v of Some r \<Rightarrow> Inr (r, st) | None \<Rightarrow>
     let v_var = getvar st v;
         v_next = mtbdd_set_next (nodes st) v;
         (a0, a1) = cofactors st minvar a;
         (b0, b1) = cofactors st minvar b
     in bindE
       (if v_var = minvar then
          bindE (sylvan_and_project fuel a1 b1 v_next st) (\<lambda>(high, st).
          bindE (pushed high (sylvan_and_project fuel a0 b0 v_next) st) (\<lambda>(low, st).
            mtbdd_makenode minvar low high st))
        else
          bindE (sylvan_and_project fuel a1 b1 v st) (\<lambda>(high, st).
            pushed high (\<lambda>st. bindE (sylvan_and_project fuel a0 b0 v st) (\<lambda>(low, st).
              pushed low (sylvan_or fuel low high) st)) st))
       (\<lambda>(result, st). Inr (result, put_cache True CACHE_BDD_AND_PROJECT a b v result st))))"

section \<open>Quantified functions\<close>

lemma ex_quant_empty [simp]: "ex_quant {} f = f"
proof (rule ext)
  fix \<sigma> :: "nat \<Rightarrow> bool"
  have "(\<forall>i. \<tau> i = \<sigma> i) \<longleftrightarrow> \<tau> = \<sigma>" for \<tau> by auto
  then show "ex_quant {} f \<sigma> = f \<sigma>" by (simp add: ex_quant_def)
qed

lemma ex_quant_const [simp]: "ex_quant S (\<lambda>_. b) = (\<lambda>_. b)"
  by (auto simp: ex_quant_def)

lemma ex_quant_mono: "(\<And>\<sigma>. f \<sigma> \<Longrightarrow> g \<sigma>) \<Longrightarrow> ex_quant S f \<sigma> \<Longrightarrow> ex_quant S g \<sigma>"
  by (auto simp: ex_quant_def)

lemma ex_quantI: "f \<sigma> \<Longrightarrow> ex_quant S f \<sigma>"
  by (auto simp: ex_quant_def)

lemma ex_quant_agree: "(\<And>i. i \<notin> S \<Longrightarrow> \<sigma> i = \<tau> i) \<Longrightarrow> ex_quant S f \<sigma> = ex_quant S f \<tau>"
  by (simp add: ex_quant_def)

text \<open>Variables that the function does not depend on need not be quantified.\<close>

lemma ex_quant_indep:
  assumes "indep v f" "\<And>i. v \<le> i \<Longrightarrow> i \<in> S \<longleftrightarrow> i \<in> T"
  shows "ex_quant S f = ex_quant T f"
proof -
  have sub: "ex_quant S f \<sigma> \<Longrightarrow> ex_quant T f \<sigma>" if e: "\<And>i. v \<le> i \<Longrightarrow> i \<in> S \<longleftrightarrow> i \<in> T" for S T \<sigma>
  proof -
    assume "ex_quant S f \<sigma>"
    then obtain \<tau> where t: "\<forall>i. i \<notin> S \<longrightarrow> \<tau> i = \<sigma> i" "f \<tau>" by (auto simp: ex_quant_def)
    let ?u = "\<lambda>i. if i < v then \<sigma> i else \<tau> i"
    have "f ?u = f \<tau>" by (rule indepD [OF assms(1)]) simp
    then have u: "f ?u" using t(2) by (simp only:)
    have "\<forall>i. i \<notin> T \<longrightarrow> ?u i = \<sigma> i" using t(1) e by (metis not_le)
    then show "ex_quant T f \<sigma>" unfolding ex_quant_def using u by (intro exI [of _ ?u] conjI)
  qed
  have "ex_quant S f \<sigma> \<longleftrightarrow> ex_quant T f \<sigma>" for \<sigma>
    using sub [of S T \<sigma>, OF assms(2)] sub [of T S \<sigma>, OF assms(2) [symmetric]] by blast
  then show ?thesis by (rule ext)
qed

lemma indep_ex_quant: "indep v f \<Longrightarrow> indep v (ex_quant S f)"
proof (subst indep_def, intro allI impI)
  fix \<sigma> \<tau> :: "nat \<Rightarrow> bool" assume f: "indep v f" and e: "\<forall>i \<ge> v. \<sigma> i = \<tau> i"
  have "ex_quant S f = ex_quant (S \<union> {..<v}) f" by (rule ex_quant_indep [OF f]) auto
  moreover have "ex_quant (S \<union> {..<v}) f \<sigma> = ex_quant (S \<union> {..<v}) f \<tau>"
    by (rule ex_quant_agree) (use e in auto)
  ultimately show "ex_quant S f \<sigma> = ex_quant S f \<tau>" by metis
qed

text \<open>Quantification by the value of one variable.\<close>

lemma cof_ex_quant: "i \<notin> S \<Longrightarrow> cof (ex_quant S f) i b = ex_quant S (cof f i b)"
proof (rule ext)
  fix \<sigma> assume i: "i \<notin> S"
  show "cof (ex_quant S f) i b \<sigma> = ex_quant S (cof f i b) \<sigma>"
  proof
    assume "cof (ex_quant S f) i b \<sigma>"
    then obtain \<tau> where t: "\<forall>j. j \<notin> S \<longrightarrow> \<tau> j = (\<sigma>(i := b)) j" "f \<tau>" by (auto simp: cof_def ex_quant_def)
    then have "\<tau> i = b" using i by simp
    then have "f ((\<tau>(i := \<sigma> i))(i := b))" using t(2) by (simp add: fun_upd_idem)
    moreover have "\<forall>j. j \<notin> S \<longrightarrow> (\<tau>(i := \<sigma> i)) j = \<sigma> j" using t(1) by simp
    ultimately show "ex_quant S (cof f i b) \<sigma>" unfolding ex_quant_def cof_def by blast
  next
    assume "ex_quant S (cof f i b) \<sigma>"
    then obtain \<tau> where t: "\<forall>j. j \<notin> S \<longrightarrow> \<tau> j = \<sigma> j" "f (\<tau>(i := b))" by (auto simp: cof_def ex_quant_def)
    then have "\<forall>j. j \<notin> S \<longrightarrow> (\<tau>(i := b)) j = (\<sigma>(i := b)) j" by simp
    then show "cof (ex_quant S f) i b \<sigma>" using t(2) unfolding ex_quant_def cof_def by blast
  qed
qed

lemma ex_quant_split:
  assumes "i \<in> S"
  shows "ex_quant S f = (\<lambda>\<sigma>. ex_quant (S - {i}) (cof f i False) \<sigma> \<or> ex_quant (S - {i}) (cof f i True) \<sigma>)"
proof (rule ext)
  fix \<sigma>
  have "ex_quant S f \<sigma> \<longleftrightarrow> (\<exists>b. ex_quant (S - {i}) (cof f i b) \<sigma>)"
  proof
    assume "ex_quant S f \<sigma>"
    then obtain \<tau> where t: "\<forall>j. j \<notin> S \<longrightarrow> \<tau> j = \<sigma> j" "f \<tau>" by (auto simp: ex_quant_def)
    have "cof f i (\<tau> i) (\<tau>(i := \<sigma> i))" using t(2) by (simp add: cof_def fun_upd_idem)
    moreover have "\<forall>j. j \<notin> S - {i} \<longrightarrow> (\<tau>(i := \<sigma> i)) j = \<sigma> j" using t(1) by simp
    ultimately show "\<exists>b. ex_quant (S - {i}) (cof f i b) \<sigma>" unfolding ex_quant_def by blast
  next
    assume "\<exists>b. ex_quant (S - {i}) (cof f i b) \<sigma>"
    then obtain b \<tau> where t: "\<forall>j. j \<notin> S - {i} \<longrightarrow> \<tau> j = \<sigma> j" "f (\<tau>(i := b))" by (auto simp: cof_def ex_quant_def)
    then have "\<forall>j. j \<notin> S \<longrightarrow> (\<tau>(i := b)) j = \<sigma> j" using assms by auto
    then show "ex_quant S f \<sigma>" using t(2) unfolding ex_quant_def by blast
  qed
  also have "\<dots> \<longleftrightarrow> ex_quant (S - {i}) (cof f i False) \<sigma> \<or> ex_quant (S - {i}) (cof f i True) \<sigma>"
    by (metis (full_types))
  finally show "ex_quant S f \<sigma> = (ex_quant (S - {i}) (cof f i False) \<sigma> \<or> ex_quant (S - {i}) (cof f i True) \<sigma>)" .
qed

lemma ex_quant_idem: "ex_quant S (ex_quant S f) = ex_quant S f"
proof (rule ext)
  fix \<sigma>
  have "(\<exists>\<tau>. (\<forall>i. i \<notin> S \<longrightarrow> \<tau> i = \<sigma> i) \<and> ex_quant S f \<tau>) \<longleftrightarrow> (\<exists>\<tau>. (\<forall>i. i \<notin> S \<longrightarrow> \<tau> i = \<sigma> i) \<and> ex_quant S f \<sigma>)"
    using ex_quant_agree [of S _ \<sigma> f] by blast
  then show "ex_quant S (ex_quant S f) \<sigma> = ex_quant S f \<sigma>" by (auto simp: ex_quant_def [of S "ex_quant S f"])
qed

lemma ex_quant_pull:
  assumes "\<And>\<sigma> \<tau>. (\<forall>i. i \<notin> S \<longrightarrow> \<tau> i = \<sigma> i) \<Longrightarrow> h \<tau> = h \<sigma>"
  shows "ex_quant S (\<lambda>\<sigma>. h \<sigma> \<and> g \<sigma>) = (\<lambda>\<sigma>. h \<sigma> \<and> ex_quant S g \<sigma>)"
proof (rule ext)
  fix \<sigma>
  have "(\<forall>i. i \<notin> S \<longrightarrow> \<tau> i = \<sigma> i) \<and> h \<tau> \<and> g \<tau> \<longleftrightarrow> (\<forall>i. i \<notin> S \<longrightarrow> \<tau> i = \<sigma> i) \<and> h \<sigma> \<and> g \<tau>" for \<tau>
    using assms by blast
  then show "ex_quant S (\<lambda>\<sigma>. h \<sigma> \<and> g \<sigma>) \<sigma> = (h \<sigma> \<and> ex_quant S g \<sigma>)"
    unfolding ex_quant_def by (simp only:) blast
qed

lemma ex_quant_same: "(\<forall>i. i \<notin> S \<longrightarrow> \<tau> i = \<sigma> i) \<Longrightarrow> ex_quant S f \<tau> = ex_quant S f \<sigma>"
  by (rule ex_quant_agree) simp

lemma ex_quant_sat: "f \<sigma> \<Longrightarrow> ex_quant UNIV f = (\<lambda>_. True)"
  by (auto simp: ex_quant_def)

lemma depends_ex_quant: "depends_on (ex_quant (- S) f) S"
  unfolding depends_on_def
proof (intro allI impI)
  fix \<sigma> \<tau> :: "nat \<Rightarrow> bool" assume "\<forall>i \<in> S. \<sigma> i = \<tau> i"
  then show "ex_quant (- S) f \<sigma> = ex_quant (- S) f \<tau>" by (intro ex_quant_agree) simp
qed

section \<open>Dropping variables from a set\<close>

lemma skip_set_spec:
  "bdd_ok st \<Longrightarrow> safe st x \<Longrightarrow> is_set (nodes st) vs x \<Longrightarrow> length vs < k \<Longrightarrow>
   \<exists>y. skip_set k (nodes st) x level = Inr y \<and> safe st y \<and> is_set (nodes st) (filter (\<lambda>i. unat level \<le> i) vs) y"
proof (induction k arbitrary: vs x)
  case (Suc k)
  note tb = bdd_ok_table [OF Suc.prems(1)]
  show ?case
  proof (cases vs)
    case Nil
    then show ?thesis using is_set_true [OF tb Suc.prems(3)] Suc.prems(2,3) by (simp add: mtbdd_set_isempty_def)
  next
    case (Cons w ws)
    note s = Suc.prems(3) [unfolded Cons]
    note sn = set_node [OF tb s]
    have asc: "\<forall>i \<in> set ws. w < i" using s by (simp add: is_set_def)
    show ?thesis
    proof (cases "w < unat level")
      case True
      have "mtbddnode_getvariable (MTBDD_GETNODE (nodes st) x) < level" using True sn(3) by (simp add: word_less_nat_alt)
      moreover have "length ws < k" using Suc.prems(4) Cons by simp
      ultimately show ?thesis
        using Suc.IH [OF Suc.prems(1) set_node_held [OF Suc.prems(1,2) s] sn(6)] True sn(2) Cons
        by (simp add: mtbdd_set_isempty_def Let_def)
    next
      case False
      then have "\<not> mtbddnode_getvariable (MTBDD_GETNODE (nodes st) x) < level" using sn(3) by (simp add: word_less_nat_alt)
      moreover have "filter (\<lambda>i. unat level \<le> i) ws = ws" by (rule filter_True) (use asc False in auto)
      ultimately show ?thesis using False sn(2) Cons Suc.prems(2) s by (simp add: mtbdd_set_isempty_def Let_def)
    qed
  qed
qed simp

text \<open>What is left of a set at the level of a function that does not depend on what is above.\<close>

lemma skip_set_at:
  assumes ok: "bdd_ok st" and s: "safe st x" "is_set (nodes st) vs x"
  obtains y ws where "skip_set set_fuel (nodes st) x level = Inr y" "safe st y" "is_set (nodes st) ws y"
    "\<forall>i \<in> set ws. unat level \<le> i" "\<forall>i. unat level \<le> i \<longrightarrow> (i \<in> set vs \<longleftrightarrow> i \<in> set ws)"
    "mtbdd_set_isempty y \<longleftrightarrow> ws = []"
proof -
  have "length vs < set_fuel" using set_bound [OF bdd_ok_table [OF ok] s(2)] by (simp add: set_fuel_def)
  from skip_set_spec [OF ok s this, of level] obtain y
    where y: "skip_set set_fuel (nodes st) x level = Inr y" "safe st y" "is_set (nodes st) (filter (\<lambda>i. unat level \<le> i) vs) y"
    by blast
  have "mtbdd_set_isempty y \<longleftrightarrow> filter (\<lambda>i. unat level \<le> i) vs = []"
    using is_set_true [OF bdd_ok_table [OF ok] y(3)] by (simp add: mtbdd_set_isempty_def)
  with y show ?thesis by (intro that) auto
qed

text \<open>The first variable of the rest is the level itself, or the level is not in the set.\<close>

lemma set_at_level:
  assumes ok: "bdd_ok st" and s: "safe st y" "is_set (nodes st) ws y" and w: "\<forall>i \<in> set ws. unat level \<le> i" "ws \<noteq> []"
  shows "getvar st y = level \<longleftrightarrow> unat level \<in> set ws"
    "is_set (nodes st) (tl ws) (mtbdd_set_next (nodes st) y)" "safe st (mtbdd_set_next (nodes st) y)"
    "getvar st y = level \<Longrightarrow> set (tl ws) = set ws - {unat level}"
proof -
  obtain u us where ws: "ws = u # us" using w(2) by (cases ws) auto
  note sn = set_node [OF bdd_ok_table [OF ok] s(2) [unfolded ws]]
  have asc: "\<forall>i \<in> set us. u < i" using s(2) by (simp add: is_set_def ws)
  have e: "getvar st y = level \<longleftrightarrow> u = unat level" using sn(3) by (auto simp: getvar_def word_unat_eq_iff)
  show "getvar st y = level \<longleftrightarrow> unat level \<in> set ws" using e asc w(1) by (auto simp: ws)
  show "is_set (nodes st) (tl ws) (mtbdd_set_next (nodes st) y)" "safe st (mtbdd_set_next (nodes st) y)"
    using sn(6) set_node_held [OF ok s(1) s(2) [unfolded ws]] by (simp_all add: ws mtbdd_set_next_def mtbdd_gethigh_def)
  show "set (tl ws) = set ws - {unat level}" if "getvar st y = level" using e asc that by (auto simp: ws)
qed

section \<open>Parts of the proofs\<close>

lemma const_not_iff [simp]: "mtbdd_true = mtbdd_not x \<longleftrightarrow> x = mtbdd_false" "mtbdd_false = mtbdd_not x \<longleftrightarrow> x = mtbdd_true"
  using not_const_iff [of x] by metis+

lemma gives_with_gives: "gives_with R s m x fx P \<Longrightarrow> gives R s m P"
  unfolding gives_with_def gives_def by (erule yields_mono) blast

lemma or_gives:
  assumes "bdd_ok st" "safe st a" "safe st b" "bdd (nodes st) 0 a f" "bdd (nodes st) 0 b g"
    "indep v f" "indep v g" "v \<le> 2 ^ 24" "2 ^ 24 < v + fuel"
  shows "gives keep st (sylvan_or fuel a b st) (\<lambda>h. h = (\<lambda>\<sigma>. f \<sigma> \<or> g \<sigma>))"
proof -
  have "gives keep st (run_and fuel (mtbdd_not a) (mtbdd_not b) st) (\<lambda>h. h = (\<lambda>\<sigma>. \<not> f \<sigma> \<and> \<not> g \<sigma>))"
    unfolding run_and_def
    by (rule sylvan_and_gives [OF assms(1) safe_not [OF assms(2)] safe_not [OF assms(3)] bdd_not [OF assms(4)] bdd_not [OF assms(5)]
          indep_not [OF assms(6)] indep_not [OF assms(7)] assms(8,9)])
  from run_not_gives [where m = "run_and fuel (mtbdd_not a) (mtbdd_not b)", OF this] show ?thesis
    by (simp add: sylvan_or_def)
qed

text \<open>A diagram or a set that was safe, in a state further on in which another result is pushed.\<close>

definition onward :: "sylvan \<Rightarrow> sylvan \<Rightarrow> bool" where
  "onward s u \<longleftrightarrow> (\<forall>y. safe s y \<longrightarrow> safe u y) \<and> (\<forall>x v f. safe s x \<longrightarrow> bdd (nodes s) v x f \<longrightarrow> bdd (nodes u) v x f) \<and>
     (\<forall>x v m. safe s x \<longrightarrow> bdd_map (nodes s) v x m \<longrightarrow> bdd_map (nodes u) v x m)"

lemma onward_keep: "keep s t \<Longrightarrow> onward s t"
  using keep_safe keep_bdd keep_map by (auto simp: onward_def)

lemma onward_push: "keep s t \<Longrightarrow> nodes u = nodes t \<Longrightarrow> (\<And>y. safe t y \<Longrightarrow> safe u y) \<Longrightarrow> onward s u"
  using keep_safe keep_bdd keep_map by (auto simp: onward_def)

lemma onward_trans: "onward s t \<Longrightarrow> onward t u \<Longrightarrow> onward s u"
  by (auto simp: onward_def)

lemma onward_safe: "onward s u \<Longrightarrow> safe s x \<Longrightarrow> safe u x"
  by (simp add: onward_def)

lemma onward_bdd: "onward s u \<Longrightarrow> safe s x \<Longrightarrow> bdd (nodes s) v x f \<Longrightarrow> bdd (nodes u) 0 x f"
  using bdd_mono [OF _ le0] by (auto simp: onward_def)

lemma onward_map: "onward s u \<Longrightarrow> safe s x \<Longrightarrow> bdd_map (nodes s) v x m \<Longrightarrow> bdd_map (nodes u) v x m"
  by (auto simp: onward_def)

lemma onward_set: "onward s u \<Longrightarrow> safe s x \<Longrightarrow> is_set (nodes s) vs x \<Longrightarrow> is_set (nodes u) vs x"
  by (auto simp: onward_def is_set_def)

text \<open>A computation under a pushed result, with what it needs of the state before.\<close>

lemma pushed_onward:
  assumes "bdd_ok t" "keep s t" "bdd (nodes t) v x fx"
    and "\<And>u. bdd_ok u \<Longrightarrow> onward s u \<Longrightarrow> safe u x \<Longrightarrow> bdd (nodes u) v x fx \<Longrightarrow> gives keep u (m u) P"
  shows "gives_with keep t (pushed x m t) x fx P"
  by (rule pushed_gives [OF assms(1,3)]) (use assms(3,4) onward_push [OF assms(2)] in auto)

lemma is_set_cube: "is_set n vs x \<Longrightarrow> bdd n 0 x (cube_fun (set vs))"
  by (simp add: is_set_def)

lemma cube_set_eq: "bdd n v x (cube_fun S) \<Longrightarrow> is_set n vs x \<Longrightarrow> S = set vs"
  using bdd_fun is_set_cube cube_fun_eq_iff by blast

lemma node_cofactors:
  assumes ok: "bdd_ok st" and s: "safe st a" and b: "bdd (nodes st) v a f" and nc: "MTBDD_INDEX a \<noteq> 0"
  defines "na \<equiv> MTBDD_GETNODE (nodes st) a"
  defines "i \<equiv> unat (mtbddnode_getvariable na)"
  shows "bdd (nodes st) (Suc i) (mtbddnode_followlow a na) (cof f i False)" "safe st (mtbddnode_followlow a na)"
    "bdd (nodes st) (Suc i) (mtbddnode_followhigh a na) (cof f i True)" "safe st (mtbddnode_followhigh a na)"
    "v \<le> i" "i < 2 ^ 24" "indep i f"
  using bdd_inner(1,2,5,6) [OF b nc] safe_follow [OF s b nc] bdd_getvar(3) [OF b nc]
  by (simp_all add: na_def i_def getvar_def)

section \<open>Existential quantification\<close>

lemma op_sem_EXISTS: "op_sem CACHE_BDD_EXISTS n a b c r \<longleftrightarrow> exists_sem n a b r"
  by (simp add: op_sem_def op_defs push_bit_eq_mult)

lemma exists_sem_set:
  assumes "bdd n v a f" "is_set n vs x"
  shows "exists_sem n a x r \<longleftrightarrow> bdd n 0 r (ex_quant (set vs) f)"
proof
  assume "exists_sem n a x r"
  then obtain g S where g: "bdd n 0 a g" "bdd n 0 x (cube_fun S)" "bdd n 0 r (ex_quant S g)"
    unfolding exists_sem_def by blast
  then show "bdd n 0 r (ex_quant (set vs) f)" using bdd_fun [OF assms(1) g(1)] cube_set_eq [OF g(2) assms(2)] by simp
next
  assume "bdd n 0 r (ex_quant (set vs) f)"
  then show "exists_sem n a x r"
    unfolding exists_sem_def using bdd_mono [OF assms(1) le0] is_set_cube [OF assms(2)] by blast
qed

text \<open>The level is quantified: what is done with the results of the two branches.\<close>

lemma exists_branch_true:
  assumes i: "i \<in> S" and b: "bdd n v l (cof f i False)" "bdd n v h (cof f i True)"
    and t: "l = mtbdd_true \<or> h = mtbdd_true \<or> l = mtbdd_not h"
  shows "ex_quant S f = (\<lambda>_. True)"
proof -
  have "cof f i False \<sigma> \<or> cof f i True \<sigma>" for \<sigma>
  proof -
    from t consider "l = mtbdd_true" | "h = mtbdd_true" | "l = mtbdd_not h" by blast
    then show ?thesis
    proof cases
      case 3
      then have "cof f i False = (\<lambda>\<sigma>. \<not> cof f i True \<sigma>)" using bdd_fun b(1) bdd_not [OF b(2)] by blast
      then show ?thesis by simp
    qed (use b in \<open>auto simp: bdd_true_iff\<close>)
  qed
  then show ?thesis unfolding ex_quant_split [OF i] using ex_quantI by blast
qed

lemma exists_join:
  assumes ok: "bdd_ok u" and l: "safe u low" "bdd (nodes u) 0 low fl" "indep v fl"
    and m: "gives keep u m (\<lambda>h. h = fh)" "indep v fh" and v: "v \<le> 2 ^ 24" "2 ^ 24 < v + fuel"
  shows "gives keep u (bindE m (\<lambda>(high, st).
      if high = mtbdd_true then Inr (mtbdd_true, st)
      else if low = mtbdd_false \<and> high = mtbdd_false then Inr (mtbdd_false, st)
      else pushed high (sylvan_or fuel low high) st)) (\<lambda>h. h = (\<lambda>\<sigma>. fl \<sigma> \<or> fh \<sigma>))"
proof (rule gc.gives_bind [OF m(1)], goal_cases)
  case (1 high t f)
  have b: "bdd (nodes t) 0 low fl" "bdd (nodes t) 0 high fh" "safe t low"
    using keep_bdd [OF 1(2) l(1,2)] keep_safe [OF 1(2) l(1)] 1(3,4) by simp_all
  show ?case
    unfolding prod.case
  proof (cases "high = mtbdd_true", goal_cases)
    case T: 1
    then have "fh = (\<lambda>_. True)" using b(2) by (simp add: bdd_true_iff)
    then show ?case using T gc.gives_now [OF 1(1) bdd.bdd_true, of "\<lambda>h. h = (\<lambda>\<sigma>. fl \<sigma> \<or> fh \<sigma>)"] by simp
  next
    case N: 2
    have "gives keep t (pushed high (sylvan_or fuel low high) t) (\<lambda>h. h = (\<lambda>\<sigma>. fl \<sigma> \<or> fh \<sigma>))"
    proof (rule gives_with_gives [OF pushed_onward [OF 1(1) 1(2) b(2)]], goal_cases)
      case (1 u')
      show ?case
        by (rule or_gives [OF 1(1) onward_safe [OF 1(2) l(1)] 1(3) onward_bdd [OF 1(2) l(1,2)] 1(4) l(3) m(2) v])
    qed
    moreover have "low = mtbdd_false \<and> high = mtbdd_false \<Longrightarrow> (\<lambda>_. False) = (\<lambda>\<sigma>. fl \<sigma> \<or> fh \<sigma>)"
      using b(1,2) by (auto simp: bdd_false_iff)
    ultimately show ?case using N gc.gives_now [OF 1(1) bdd.bdd_false, of "\<lambda>h. h = (\<lambda>\<sigma>. fl \<sigma> \<or> fh \<sigma>)"] by simp
  qed
qed

text \<open>The level is kept: both branches and a node.\<close>

lemma keep_level:
  assumes ok: "bdd_ok s" and low: "gives keep s ml (\<lambda>h. h = cof H (unat level) False)"
    and high: "\<And>u. bdd_ok u \<Longrightarrow> onward s u \<Longrightarrow> gives keep u (mh u) (\<lambda>h. h = cof H (unat level) True)"
    and i: "indep (unat level) H" "unat level < 2 ^ 24"
  shows "gives keep s (bindE ml (\<lambda>(low, st). bindE (pushed low mh st) (\<lambda>(high, st).
    mtbdd_makenode level low high st))) (\<lambda>h. h = H)"
proof (rule gc.gives_bind [OF low], goal_cases)
  case (1 low t f)
  have "gives_with keep t (pushed low mh t) low (cof H (unat level) False) (\<lambda>h. h = cof H (unat level) True)"
    by (rule pushed_onward [OF 1(1,2)]) (use 1(3,4) high in auto)
  then show ?case
    unfolding prod.case
  proof (rule gc.gives_with_bind, goal_cases)
    case (1 high u g)
    then have b: "bdd (nodes u) 0 low (cof H (unat level) False)" "bdd (nodes u) 0 high (cof H (unat level) True)" by simp_all
    show ?case
      unfolding prod.case
      by (rule gives_mono [OF gc.mk_gives [OF 1(1) b indep_cof_Suc [OF i(1)] indep_cof_Suc [OF i(1)] i(2)]]) (simp add: branch_cof)
  qed
qed

lemma keep_level_rev:
  assumes ok: "bdd_ok s" and high: "gives keep s mh (\<lambda>h. h = cof H (unat level) True)"
    and low: "\<And>u. bdd_ok u \<Longrightarrow> onward s u \<Longrightarrow> gives keep u (ml u) (\<lambda>h. h = cof H (unat level) False)"
    and i: "indep (unat level) H" "unat level < 2 ^ 24"
  shows "gives keep s (bindE mh (\<lambda>(high, st). bindE (pushed high ml st) (\<lambda>(low, st).
    mtbdd_makenode level low high st))) (\<lambda>h. h = H)"
proof (rule gc.gives_bind [OF high], goal_cases)
  case (1 high t f)
  have "gives_with keep t (pushed high ml t) high (cof H (unat level) True) (\<lambda>h. h = cof H (unat level) False)"
    by (rule pushed_onward [OF 1(1,2)]) (use 1(3,4) low in auto)
  then show ?case
    unfolding prod.case
  proof (rule gc.gives_with_bind, goal_cases)
    case (1 low u g)
    then have b: "bdd (nodes u) 0 low (cof H (unat level) False)" "bdd (nodes u) 0 high (cof H (unat level) True)" by simp_all
    show ?case
      unfolding prod.case
      by (rule gives_mono [OF gc.mk_gives [OF 1(1) b indep_cof_Suc [OF i(1)] indep_cof_Suc [OF i(1)] i(2)]]) (simp add: branch_cof)
  qed
qed

text \<open>The two recursive calls under a quantified level.\<close>

lemma exists_calls:
  assumes ok: "bdd_ok s" and low: "gives keep s ml (\<lambda>h. h = fl)" "indep v fl"
    and high: "\<And>u. bdd_ok u \<Longrightarrow> onward s u \<Longrightarrow> gives keep u (mh u) (\<lambda>h. h = fh)" "indep v fh"
    and v: "v \<le> 2 ^ 24" "2 ^ 24 < v + fuel"
  shows "gives keep s (bindE ml (\<lambda>(low, st).
      if low = mtbdd_true then Inr (mtbdd_true, st)
      else pushed low (\<lambda>st. bindE (mh st) (\<lambda>(high, st).
        if high = mtbdd_true then Inr (mtbdd_true, st)
        else if low = mtbdd_false \<and> high = mtbdd_false then Inr (mtbdd_false, st)
        else pushed high (sylvan_or fuel low high) st)) st)) (\<lambda>h. h = (\<lambda>\<sigma>. fl \<sigma> \<or> fh \<sigma>))"
proof (rule gc.gives_bind [OF low(1)], goal_cases)
  case (1 low t f)
  then have b: "bdd (nodes t) 0 low fl" by simp
  show ?case
    unfolding prod.case
  proof (cases "low = mtbdd_true", goal_cases)
    case T: 1
    then have "fl = (\<lambda>_. True)" using b by (simp add: bdd_true_iff)
    then show ?case using T gc.gives_now [OF 1(1) bdd.bdd_true, of "\<lambda>h. h = (\<lambda>\<sigma>. fl \<sigma> \<or> fh \<sigma>)"] by simp
  next
    case N: 2
    have "gives keep t (pushed low (\<lambda>st. bindE (mh st) (\<lambda>(high, st).
        if high = mtbdd_true then Inr (mtbdd_true, st)
        else if low = mtbdd_false \<and> high = mtbdd_false then Inr (mtbdd_false, st)
        else pushed high (sylvan_or fuel low high) st)) t) (\<lambda>h. h = (\<lambda>\<sigma>. fl \<sigma> \<or> fh \<sigma>))"
      by (rule gives_with_gives [OF pushed_onward [OF 1(1,2) b]])
        (rule exists_join [where v = v], use low(2) high v in auto)
    then show ?case using N by simp
  qed
qed

text \<open>
  The function of the result is that of the quantification by the variables of the set that
  are left at the level; both branches of the code compute it.
\<close>

lemma sylvan_exists_gives:
  "bdd_ok st \<Longrightarrow> safe st a \<Longrightarrow> safe st x \<Longrightarrow> bdd (nodes st) 0 a f \<Longrightarrow> is_set (nodes st) vs x \<Longrightarrow>
   indep v f \<Longrightarrow> v \<le> 2 ^ 24 \<Longrightarrow> 2 ^ 24 < v + fuel \<Longrightarrow>
   gives keep st (sylvan_exists fuel a x p st) (\<lambda>h. h = ex_quant (set vs) f)"
proof (induction fuel arbitrary: st a x f vs v p)
  case (Suc fuel)
  note ok = Suc.prems(1) and now = gc.gives_now [OF Suc.prems(1)]
  consider "a = mtbdd_true" | "a = mtbdd_false" | "a \<noteq> mtbdd_true" "a \<noteq> mtbdd_false" by blast
  then show ?case
  proof cases
    case 1
    then show ?thesis using now [OF Suc.prems(4)] Suc.prems(4) by (simp add: bdd_true_iff)
  next
    case 2
    then show ?thesis using now [OF Suc.prems(4)] Suc.prems(4) by (simp add: bdd_false_iff)
  next
    case 3
    note nc = bdd_nonconst [OF Suc.prems(4) 3]
    have bv: "bdd (nodes st) v a f" by (rule bdd_level [OF bdd_ok_table [OF ok] Suc.prems(4,6)])
    define na where "na = MTBDD_GETNODE (nodes st) a"
    define l where "l = mtbddnode_getvariable na"
    let ?i = "unat l" and ?al = "mtbddnode_followlow a na" and ?ah = "mtbddnode_followhigh a na"
    note c = node_cofactors [OF ok Suc.prems(2) bv nc, folded na_def, folded l_def]
    obtain y ws where y: "skip_set set_fuel (nodes st) x l = Inr y" "safe st y" "is_set (nodes st) ws y"
      "\<forall>i \<in> set ws. ?i \<le> i" "\<forall>i. ?i \<le> i \<longrightarrow> (i \<in> set vs \<longleftrightarrow> i \<in> set ws)" "mtbdd_set_isempty y \<longleftrightarrow> ws = []"
      by (rule skip_set_at [OF ok Suc.prems(3,5), where level = l])
    have e: "ex_quant (set vs) f = ex_quant (set ws) f" by (rule ex_quant_indep [OF c(7)]) (use y(5) in blast)
    have fu: "Suc ?i \<le> 2 ^ 24" "2 ^ 24 < Suc ?i + fuel" using c(5,6) Suc.prems(8) by auto
    let ?cn = "cachenow st p l"
    show ?thesis
    proof (cases "mtbdd_set_isempty x \<or> ws = []")
      case True
      then have "ex_quant (set vs) f = f"
        using e is_set_true [OF bdd_ok_table [OF ok] Suc.prems(5)] by (auto simp: mtbdd_set_isempty_def)
      then show ?thesis
        using True 3 y(1,6) now [OF Suc.prems(4), of "\<lambda>h. h = f"] by (auto simp: Let_def simp flip: na_def l_def)
    next
      case False
      then have ne: "\<not> mtbdd_set_isempty x" "\<not> mtbdd_set_isempty y" "ws \<noteq> []" using y(6) by auto
      show ?thesis
      proof (cases "try_cache st ?cn CACHE_BDD_EXISTS a y 0")
        case (Some r)
        have "bdd (nodes st) 0 r (ex_quant (set vs) f)"
          using try_cache_sem [OF ok bdd_dd_word [OF bv] _ key_nonzero [OF nc] Some] exists_sem_set [OF bv y(3)]
          by (simp add: op_sem_EXISTS e)
        then show ?thesis using 3 y(1) ne Some now by (simp add: Let_def flip: na_def l_def)
      next
        case None
        define v' where "v' = mtbdd_set_next (nodes st) y"
        note sl = set_at_level [OF ok y(2,3,4) ne(3), folded v'_def]
        define ml where "ml = (if getvar st y = l then
             (if ?al = mtbdd_true \<or> ?ah = mtbdd_true \<or> ?al = mtbdd_not ?ah then Inr (mtbdd_true, st)
              else bindE (sylvan_exists fuel ?al v' l st) (\<lambda>(low, st).
                   if low = mtbdd_true then Inr (mtbdd_true, st)
                   else pushed low (\<lambda>st. bindE (sylvan_exists fuel ?ah v' l st) (\<lambda>(high, st).
                     if high = mtbdd_true then Inr (mtbdd_true, st)
                     else if low = mtbdd_false \<and> high = mtbdd_false then Inr (mtbdd_false, st)
                     else pushed high (sylvan_or fuel low high) st)) st))
           else
             bindE (sylvan_exists fuel ?al y l st) (\<lambda>(low, st).
             bindE (pushed low (sylvan_exists fuel ?ah y l) st) (\<lambda>(high, st).
               mtbdd_makenode l low high st)))"
        note al = c(2) bdd_mono [OF c(1) le0] bdd_indep [OF c(1)] and ah = c(4) bdd_mono [OF c(3) le0] bdd_indep [OF c(3)]
        have "gives keep st ml (\<lambda>h. h = ex_quant (set ws) f)"
        proof (cases "getvar st y = l")
          case True
          then have i: "?i \<in> set ws" and w: "set ws - {?i} = set (tl ws)" using sl(1,4) by simp_all
          note q = ex_quant_split [OF i, of f, unfolded w]
          show ?thesis
          proof (cases "?al = mtbdd_true \<or> ?ah = mtbdd_true \<or> ?al = mtbdd_not ?ah")
            case T: True
            have "gives keep st (Inr (mtbdd_true, st)) (\<lambda>h. h = ex_quant (set ws) f)"
              unfolding exists_branch_true [OF i c(1,3) T] by (rule now [OF bdd.bdd_true]) simp
            then show ?thesis unfolding ml_def if_P [OF True] if_P [OF T] .
          next
            case F: False
            have high: "gives keep u (sylvan_exists fuel ?ah v' l u) (\<lambda>h. h = ex_quant (set (tl ws)) (cof f ?i True))"
              if "bdd_ok u" "onward st u" for u
              by (rule Suc.IH [OF that(1) onward_safe [OF that(2) ah(1)] onward_safe [OF that(2) sl(3)]
                    onward_bdd [OF that(2) ah(1,2)] onward_set [OF that(2) sl(3,2)] ah(3) fu])
            show ?thesis
              unfolding ml_def if_P [OF True] if_not_P [OF F] q
              by (rule exists_calls [OF ok Suc.IH [OF ok al(1) sl(3) al(2) sl(2) al(3) fu] indep_ex_quant [OF al(3)]
                    high indep_ex_quant [OF ah(3)] fu])
          qed
        next
          case F: False
          then have cq: "cof (ex_quant (set ws) f) ?i b = ex_quant (set ws) (cof f ?i b)" for b
            using sl(1) by (simp add: cof_ex_quant)
          show ?thesis
            unfolding ml_def if_not_P [OF F]
          proof (rule keep_level [OF ok _ _ indep_ex_quant [OF c(7)] c(6)], goal_cases)
            case 1
            then show ?case unfolding cq by (rule Suc.IH [OF ok al(1) y(2) al(2) y(3) al(3) fu])
          next
            case (2 u)
            then show ?case
              unfolding cq by (intro Suc.IH [OF 2(1) onward_safe [OF 2(2) ah(1)] onward_safe [OF 2(2) y(2)]
                    onward_bdd [OF 2(2) ah(1,2)] onward_set [OF 2(2) y(2,3)] ah(3) fu])
          qed
        qed
        then have "gives keep st (bindE ml (\<lambda>(r, t). Inr (r, put_cache ?cn CACHE_BDD_EXISTS a y 0 r t)))
          (\<lambda>h. h = ex_quant (set ws) f)"
        proof (rule gc.gives_put)
          show "op_sem CACHE_BDD_EXISTS (nodes t) a y 0 r"
            if "keep st t" "h = ex_quant (set ws) f" "bdd (nodes t) 0 r h" for t r h
            using that exists_sem_set [OF onward_bdd [OF onward_keep [OF that(1)] Suc.prems(2,4)] onward_set [OF onward_keep [OF that(1)] y(2,3)]]
            by (simp add: op_sem_EXISTS)
        qed (use bdd_dd_word [OF bv] in auto)
        moreover have "sylvan_exists (Suc fuel) a x p st = bindE ml (\<lambda>(r, t). Inr (r, put_cache ?cn CACHE_BDD_EXISTS a y 0 r t))"
          using 3 y(1) ne None by (simp add: ml_def Let_def cong: if_cong flip: na_def l_def v'_def)
        ultimately show ?thesis unfolding e by (simp only:)
      qed
    qed
  qed
qed simp

declare sylvan_exists.simps(2) [simp del]

section \<open>Projection\<close>

text \<open>
  Two calls whose results satisfy predicates: joined by a node, or by a disjunction. The high
  branch runs first.
\<close>

lemma node_calls:
  assumes ok: "bdd_ok s" and high: "gives keep s mh P1"
    and low: "\<And>u. bdd_ok u \<Longrightarrow> onward s u \<Longrightarrow> gives keep u (ml u) P0"
    and i: "\<And>f. P0 f \<Longrightarrow> indep (Suc (unat level)) f" "\<And>f. P1 f \<Longrightarrow> indep (Suc (unat level)) f"
    and Q: "\<And>f g. P0 f \<Longrightarrow> P1 g \<Longrightarrow> Q (branch (unat level) f g)" and l: "unat level < 2 ^ 24"
  shows "gives keep s (bindE mh (\<lambda>(high, st). bindE (pushed high ml st) (\<lambda>(low, st).
    mtbdd_makenode level low high st))) Q"
proof (rule gc.gives_bind [OF high], goal_cases)
  case H: (1 high t f)
  have "gives_with keep t (pushed high ml t) high f P0"
    by (rule pushed_onward [OF H(1,2,4)]) (use low in auto)
  then show ?case
    unfolding prod.case
  proof (rule gc.gives_with_bind, goal_cases)
    case (1 low u g)
    show ?case
      unfolding prod.case
      by (rule gives_mono [OF gc.mk_gives [OF 1(1,5,3) i(1) [OF 1(4)] i(2) [OF H(3)] l]]) (use Q [OF 1(4) H(3)] in simp)
  qed
qed

lemma or_calls:
  assumes ok: "bdd_ok s" and high: "gives keep s mh P1"
    and low: "\<And>u. bdd_ok u \<Longrightarrow> onward s u \<Longrightarrow> gives keep u (ml u) P0"
    and i: "\<And>f. P0 f \<Longrightarrow> indep v f" "\<And>f. P1 f \<Longrightarrow> indep v f"
    and Q: "\<And>f g. P0 f \<Longrightarrow> P1 g \<Longrightarrow> Q (\<lambda>\<sigma>. f \<sigma> \<or> g \<sigma>)" and v: "v \<le> 2 ^ 24" "2 ^ 24 < v + fuel"
  shows "gives keep s (bindE mh (\<lambda>(high, st). pushed high (\<lambda>st. bindE (ml st) (\<lambda>(low, st).
    pushed low (sylvan_or fuel low high) st)) st)) Q"
proof (rule gc.gives_bind [OF high], goal_cases)
  case H: (1 high t f)
  show ?case
    unfolding prod.case
  proof (rule gives_with_gives [OF pushed_onward [OF H(1,2,4)]], goal_cases)
    case U: (1 u)
    show ?case
    proof (rule gc.gives_bind [OF low [OF U(1,2)]], goal_cases)
      case L: (1 low w g)
      show ?case
        unfolding prod.case
      proof (rule gives_with_gives [OF pushed_onward [OF L(1,2,4)]], goal_cases)
        case (1 x)
        have "gives keep x (sylvan_or fuel low high x) (\<lambda>h. h = (\<lambda>\<sigma>. g \<sigma> \<or> f \<sigma>))"
          by (rule or_gives [OF 1(1) 1(3) onward_safe [OF 1(2) U(3)] 1(4) onward_bdd [OF 1(2) U(3,4)] i(1) [OF L(3)] i(2) [OF H(3)] v])
        then show ?case by (rule gives_mono) (use Q [OF L(3) H(3)] in simp)
      qed
    qed
  qed
qed

lemma bdd_satisfiable: "table_ok n \<Longrightarrow> bdd n v x f \<Longrightarrow> x \<noteq> mtbdd_false \<Longrightarrow> \<exists>\<sigma>. f \<sigma>"
proof (rule ccontr)
  assume a: "table_ok n" "bdd n v x f" "x \<noteq> mtbdd_false" "\<nexists>\<sigma>. f \<sigma>"
  then have "f = (\<lambda>_. False)" by auto
  with a(2) have "bdd n v x (\<lambda>_. False)" by simp
  then show False using bdd_canonical [OF a(1) _ bdd.bdd_false] a(3) by blast
qed

lemma op_sem_PROJECT: "op_sem CACHE_BDD_PROJECT n a b c r \<longleftrightarrow> project_sem n a c r"
  by (simp add: op_sem_def op_defs push_bit_eq_mult)

lemma project_sem_set:
  assumes "bdd n v a f" "is_set n vs x"
  shows "project_sem n a x r \<longleftrightarrow> bdd n 0 r (ex_quant (- set vs) f)"
proof
  assume "project_sem n a x r"
  then obtain g S where g: "bdd n 0 a g" "bdd n 0 x (cube_fun S)" "bdd n 0 r (ex_quant (- S) g)"
    unfolding project_sem_def by blast
  then show "bdd n 0 r (ex_quant (- set vs) f)" using bdd_fun [OF assms(1) g(1)] cube_set_eq [OF g(2) assms(2)] by simp
next
  assume "bdd n 0 r (ex_quant (- set vs) f)"
  then show "project_sem n a x r"
    unfolding project_sem_def using bdd_mono [OF assms(1) le0] is_set_cube [OF assms(2)] by blast
qed

text \<open>The projection of a cofactor, for the set that the call gets.\<close>

lemma project_below:
  assumes "indep (Suc i) g" "T - {i} = S - {i}"
  shows "ex_quant (- T) g = ex_quant (- S) g"
proof (rule ex_quant_indep [OF assms(1)])
  fix j assume "Suc i \<le> j"
  then have "j \<in> T \<longleftrightarrow> j \<in> T - {i}" "j \<in> S \<longleftrightarrow> j \<in> S - {i}" by auto
  then show "j \<in> - T \<longleftrightarrow> j \<in> - S" by (simp only: assms(2) Compl_iff)
qed

lemma sylvan_project_gives:
  "bdd_ok st \<Longrightarrow> safe st a \<Longrightarrow> safe st x \<Longrightarrow> bdd (nodes st) 0 a f \<Longrightarrow> is_set (nodes st) vs x \<Longrightarrow>
   indep v f \<Longrightarrow> v \<le> 2 ^ 24 \<Longrightarrow> 2 ^ 24 < v + fuel \<Longrightarrow>
   gives keep st (sylvan_project fuel a x st) (\<lambda>h. h = ex_quant (- set vs) f)"
proof (induction fuel arbitrary: st a x f vs v)
  case (Suc fuel)
  note ok = Suc.prems(1) and now = gc.gives_now [OF Suc.prems(1)] and tb = bdd_ok_table [OF Suc.prems(1)]
  consider "a = mtbdd_true" | "a = mtbdd_false" | "a \<noteq> mtbdd_true" "a \<noteq> mtbdd_false" by blast
  then show ?case
  proof cases
    case 1
    then show ?thesis using now [OF Suc.prems(4)] Suc.prems(4) by (simp add: bdd_true_iff)
  next
    case 2
    then show ?thesis using now [OF Suc.prems(4)] Suc.prems(4) by (simp add: bdd_false_iff)
  next
    case 3
    note nc = bdd_nonconst [OF Suc.prems(4) 3]
    have bv: "bdd (nodes st) v a f" by (rule bdd_level [OF tb Suc.prems(4,6)])
    define na where "na = MTBDD_GETNODE (nodes st) a"
    define l where "l = mtbddnode_getvariable na"
    let ?i = "unat l" and ?al = "mtbddnode_followlow a na" and ?ah = "mtbddnode_followhigh a na"
    note c = node_cofactors [OF ok Suc.prems(2) bv nc, folded na_def, folded l_def]
    obtain y ws where y: "skip_set set_fuel (nodes st) x l = Inr y" "safe st y" "is_set (nodes st) ws y"
      "\<forall>i \<in> set ws. ?i \<le> i" "\<forall>i. ?i \<le> i \<longrightarrow> (i \<in> set vs \<longleftrightarrow> i \<in> set ws)" "mtbdd_set_isempty y \<longleftrightarrow> ws = []"
      by (rule skip_set_at [OF ok Suc.prems(3,5), where level = l])
    have e: "ex_quant (- set vs) f = ex_quant (- set ws) f" by (rule ex_quant_indep [OF c(7)]) (use y(5) in auto)
    have fu: "Suc ?i \<le> 2 ^ 24" "2 ^ 24 < Suc ?i + fuel" using c(5,6) Suc.prems(8) by auto
    show ?thesis
    proof (cases "mtbdd_set_isempty x \<or> ws = []")
      case True
      obtain \<sigma> where "f \<sigma>" using bdd_satisfiable [OF tb Suc.prems(4) 3(2)] by blast
      then have "ex_quant (- set vs) f = (\<lambda>_. True)"
        using True e is_set_true [OF tb Suc.prems(5)] ex_quant_sat by (auto simp: mtbdd_set_isempty_def)
      then show ?thesis
        using True 3 y(1,6) now [OF bdd.bdd_true, of "\<lambda>h. h = (\<lambda>_. True)"] by (auto simp: Let_def simp flip: na_def l_def)
    next
      case False
      then have ne: "\<not> mtbdd_set_isempty x" "\<not> mtbdd_set_isempty y" "ws \<noteq> []" using y(6) by auto
      show ?thesis
      proof (cases "try_cache st True CACHE_BDD_PROJECT a 0 y")
        case (Some r)
        have "bdd (nodes st) 0 r (ex_quant (- set vs) f)"
          using try_cache_sem [OF ok bdd_dd_word [OF bv] _ key_nonzero [OF nc] Some] project_sem_set [OF bv y(3)]
          by (simp add: op_sem_PROJECT e)
        then show ?thesis using 3 y(1) ne Some now by (simp add: Let_def flip: na_def l_def)
      next
        case None
        define v' where "v' = mtbdd_set_next (nodes st) y"
        note sl = set_at_level [OF ok y(2,3,4) ne(3), folded v'_def]
        define mr where "mr = (if getvar st y = l then
             bindE (sylvan_project fuel ?ah v' st) (\<lambda>(high, st).
             bindE (pushed high (sylvan_project fuel ?al v') st) (\<lambda>(low, st).
               mtbdd_makenode l low high st))
           else
             bindE (sylvan_project fuel ?ah y st) (\<lambda>(high, st).
               pushed high (\<lambda>st. bindE (sylvan_project fuel ?al y st) (\<lambda>(low, st).
                 pushed low (sylvan_or fuel low high) st)) st))"
        note al = c(2) bdd_mono [OF c(1) le0] bdd_indep [OF c(1)] and ah = c(4) bdd_mono [OF c(3) le0] bdd_indep [OF c(3)]
        have "gives keep st mr (\<lambda>h. h = ex_quant (- set ws) f)"
        proof (cases "getvar st y = l")
          case True
          then have i: "?i \<notin> - set ws" and w: "set (tl ws) = set ws - {?i}" using sl(1,4) by simp_all
          have pc: "ex_quant (- set (tl ws)) (cof f ?i b) = cof (ex_quant (- set ws) f) ?i b" for b
            unfolding cof_ex_quant [OF i] w by (rule project_below [OF indep_cof_Suc [OF c(7)]]) simp
          show ?thesis
            unfolding mr_def if_P [OF True]
          proof (rule keep_level_rev [OF ok _ _ indep_ex_quant [OF c(7)] c(6)], goal_cases)
            case 1
            show ?case using Suc.IH [OF ok ah(1) sl(3) ah(2) sl(2) ah(3) fu] unfolding pc .
          next
            case (2 u)
            show ?case
              using Suc.IH [OF 2(1) onward_safe [OF 2(2) al(1)] onward_safe [OF 2(2) sl(3)]
                    onward_bdd [OF 2(2) al(1,2)] onward_set [OF 2(2) sl(3,2)] al(3) fu] unfolding pc .
          qed
        next
          case F: False
          then have i: "?i \<in> - set ws" using sl(1) by simp
          have pc: "ex_quant (- set ws - {?i}) (cof f ?i b) = ex_quant (- set ws) (cof f ?i b)" for b
            by (rule ex_quant_indep [OF indep_cof_Suc [OF c(7)]]) auto
          show ?thesis
            unfolding mr_def if_not_P [OF F]
          proof (rule or_calls [where ?P1.0 = "\<lambda>h. h = ex_quant (- set ws) (cof f ?i True)" and
                  ?P0.0 = "\<lambda>h. h = ex_quant (- set ws) (cof f ?i False)" and v = "Suc ?i", OF ok], goal_cases)
            case 1
            show ?case by (rule Suc.IH [OF ok ah(1) y(2) ah(2) y(3) ah(3) fu])
          next
            case (2 u)
            show ?case by (rule Suc.IH [OF 2(1) onward_safe [OF 2(2) al(1)] onward_safe [OF 2(2) y(2)]
                    onward_bdd [OF 2(2) al(1,2)] onward_set [OF 2(2) y(2,3)] al(3) fu])
          next
            case (5 f g)
            then show ?case unfolding ex_quant_split [OF i] pc by simp
          qed (use fu indep_ex_quant [OF al(3)] indep_ex_quant [OF ah(3)] in auto)
        qed
        then have "gives keep st (bindE mr (\<lambda>(r, t). Inr (r, put_cache True CACHE_BDD_PROJECT a 0 y r t)))
          (\<lambda>h. h = ex_quant (- set ws) f)"
        proof (rule gc.gives_put)
          show "op_sem CACHE_BDD_PROJECT (nodes t) a 0 y r"
            if "keep st t" "h = ex_quant (- set ws) f" "bdd (nodes t) 0 r h" for t r h
            using that project_sem_set [OF onward_bdd [OF onward_keep [OF that(1)] Suc.prems(2,4)] onward_set [OF onward_keep [OF that(1)] y(2,3)]]
            by (simp add: op_sem_PROJECT)
        qed (use bdd_dd_word [OF bv] in auto)
        moreover have "sylvan_project (Suc fuel) a x st = bindE mr (\<lambda>(r, t). Inr (r, put_cache True CACHE_BDD_PROJECT a 0 y r t))"
          using 3 y(1) ne None by (simp add: mr_def Let_def cong: if_cong flip: na_def l_def v'_def)
        ultimately show ?thesis unfolding e by (simp only:)
      qed
    qed
  qed
qed simp

declare sylvan_project.simps(2) [simp del]

section \<open>Quantification of a conjunction\<close>

lemma and_exists_join:
  assumes ok: "bdd_ok u" and l: "safe u low" "bdd (nodes u) 0 low fl" "indep v fl"
    and m: "gives keep u m (\<lambda>h. h = fh)" "indep v fh" and v: "v \<le> 2 ^ 24" "2 ^ 24 < v + fuel"
  shows "gives keep u (bindE m (\<lambda>(high, st).
      if high = mtbdd_true then Inr (mtbdd_true, st)
      else if high = mtbdd_false then Inr (low, st)
      else if low = mtbdd_false then Inr (high, st)
      else pushed high (sylvan_or fuel low high) st)) (\<lambda>h. h = (\<lambda>\<sigma>. fl \<sigma> \<or> fh \<sigma>))"
proof (rule gc.gives_bind [OF m(1)], goal_cases)
  case (1 high t f)
  have b: "bdd (nodes t) 0 low fl" "bdd (nodes t) 0 high fh" "safe t low"
    using keep_bdd [OF 1(2) l(1,2)] keep_safe [OF 1(2) l(1)] 1(3,4) by simp_all
  let ?or = "\<lambda>\<sigma>. fl \<sigma> \<or> fh \<sigma>"
  have "gives keep t (pushed high (sylvan_or fuel low high) t) (\<lambda>h. h = ?or)"
  proof (rule gives_with_gives [OF pushed_onward [OF 1(1) 1(2) b(2)]], goal_cases)
    case (1 u')
    show ?case
      by (rule or_gives [OF 1(1) onward_safe [OF 1(2) l(1)] 1(3) onward_bdd [OF 1(2) l(1,2)] 1(4) l(3) m(2) v])
  qed
  moreover have "high = mtbdd_true \<Longrightarrow> ?or = (\<lambda>_. True)" using b(2) by (auto simp: bdd_true_iff)
  moreover have "high = mtbdd_false \<Longrightarrow> ?or = fl" using b(2) by (auto simp: bdd_false_iff)
  moreover have "low = mtbdd_false \<Longrightarrow> ?or = fh" using b(1) by (auto simp: bdd_false_iff)
  ultimately show ?case
    using gc.gives_now [OF 1(1) bdd.bdd_true, of "\<lambda>h. h = (\<lambda>_. True)"] gc.gives_now [OF 1(1) b(1), of "\<lambda>h. h = fl"]
      gc.gives_now [OF 1(1) b(2), of "\<lambda>h. h = fh"] by simp
qed

text \<open>What the shortcuts on the low result are worth.\<close>

lemma quant_absorb:
  "ex_quant W g \<sigma> \<or> ex_quant W (\<lambda>\<sigma>. ex_quant W g \<sigma> \<and> q \<sigma>) \<sigma> \<longleftrightarrow> ex_quant W g \<sigma>"
  "ex_quant W g \<sigma> \<or> ex_quant W (\<lambda>\<sigma>. \<not> ex_quant W g \<sigma> \<and> q \<sigma>) \<sigma> \<longleftrightarrow> ex_quant W g \<sigma> \<or> ex_quant W q \<sigma>"
proof -
  have "ex_quant W (\<lambda>\<sigma>. ex_quant W g \<sigma> \<and> q \<sigma>) = (\<lambda>\<sigma>. ex_quant W g \<sigma> \<and> ex_quant W q \<sigma>)"
    "ex_quant W (\<lambda>\<sigma>. \<not> ex_quant W g \<sigma> \<and> q \<sigma>) = (\<lambda>\<sigma>. \<not> ex_quant W g \<sigma> \<and> ex_quant W q \<sigma>)"
    by (rule ex_quant_pull, simp add: ex_quant_same)+
  then show "ex_quant W g \<sigma> \<or> ex_quant W (\<lambda>\<sigma>. ex_quant W g \<sigma> \<and> q \<sigma>) \<sigma> \<longleftrightarrow> ex_quant W g \<sigma>"
    "ex_quant W g \<sigma> \<or> ex_quant W (\<lambda>\<sigma>. \<not> ex_quant W g \<sigma> \<and> q \<sigma>) \<sigma> \<longleftrightarrow> ex_quant W g \<sigma> \<or> ex_quant W q \<sigma>"
    by auto
qed

lemma and_exists_calls:
  assumes ok: "bdd_ok s" and h: "safe s aHigh" "safe s bHigh" and b: "bdd (nodes s) 0 aHigh p" "bdd (nodes s) 0 bHigh q"
    and low: "gives keep s ml (\<lambda>h. h = ex_quant W g)" "indep v g"
    and e: "\<And>u. bdd_ok u \<Longrightarrow> onward s u \<Longrightarrow> gives keep u (e1 u) (\<lambda>h. h = ex_quant W q)"
      "\<And>u. bdd_ok u \<Longrightarrow> onward s u \<Longrightarrow> gives keep u (e2 u) (\<lambda>h. h = ex_quant W p)"
      "\<And>u. bdd_ok u \<Longrightarrow> onward s u \<Longrightarrow> gives keep u (e3 u) (\<lambda>h. h = ex_quant W (\<lambda>\<sigma>. p \<sigma> \<and> q \<sigma>))"
    and i: "indep v p" "indep v q" and v: "v \<le> 2 ^ 24" "2 ^ 24 < v + fuel"
  shows "gives keep s (bindE ml (\<lambda>(low, st).
      if low = mtbdd_true \<or> low = aHigh \<or> low = bHigh then Inr (low, st)
      else pushed low (\<lambda>st. bindE
        (if low = mtbdd_not aHigh then e1 st else if low = mtbdd_not bHigh then e2 st else e3 st) (\<lambda>(high, st).
          if high = mtbdd_true then Inr (mtbdd_true, st)
          else if high = mtbdd_false then Inr (low, st)
          else if low = mtbdd_false then Inr (high, st)
          else pushed high (sylvan_or fuel low high) st)) st))
    (\<lambda>h. h = (\<lambda>\<sigma>. ex_quant W g \<sigma> \<or> ex_quant W (\<lambda>\<sigma>. p \<sigma> \<and> q \<sigma>) \<sigma>))"
proof (rule gc.gives_bind [OF low(1)], goal_cases)
  case (1 low t f)
  let ?fl = "ex_quant W g" and ?H = "\<lambda>\<sigma>. ex_quant W g \<sigma> \<or> ex_quant W (\<lambda>\<sigma>. p \<sigma> \<and> q \<sigma>) \<sigma>"
  have bl: "bdd (nodes t) 0 low ?fl" using 1(3,4) by simp
  note bp = onward_bdd [OF onward_keep [OF 1(2)] h(1) b(1)] and bq = onward_bdd [OF onward_keep [OF 1(2)] h(2) b(2)]
  have comm: "(\<lambda>\<sigma>. p \<sigma> \<and> q \<sigma>) = (\<lambda>\<sigma>. q \<sigma> \<and> p \<sigma>)" by auto
  show ?case
    unfolding prod.case
  proof (cases "low = mtbdd_true \<or> low = aHigh \<or> low = bHigh", goal_cases)
    case T: 1
    then consider "low = mtbdd_true" | "low = aHigh" | "low = bHigh" by blast
    then have "?H = ?fl"
    proof cases
      case 1
      then have "?fl = (\<lambda>_. True)" using bl by (simp only: bdd_true_iff)
      then show ?thesis by simp
    next
      case 2
      then have "p = ?fl" using bdd_fun bl bp by blast
      then show ?thesis using quant_absorb(1) [of W g] by simp
    next
      case 3
      then have "q = ?fl" using bdd_fun bl bq by blast
      then show ?thesis unfolding comm using quant_absorb(1) [of W g] by simp
    qed
    then show ?case using T gc.gives_now [OF 1(1) bl, of "\<lambda>h. h = ?fl"] by simp
  next
    case N: 2
    have na: "low = mtbdd_not aHigh \<Longrightarrow> (\<lambda>\<sigma>. ?fl \<sigma> \<or> ex_quant W q \<sigma>) = ?H"
    proof -
      assume "low = mtbdd_not aHigh"
      then have "bdd (nodes t) 0 aHigh (\<lambda>\<sigma>. \<not> ?fl \<sigma>)" using bdd_not [OF bl] by (simp add: dd_simps)
      then have "p = (\<lambda>\<sigma>. \<not> ?fl \<sigma>)" using bdd_fun bp by blast
      then show ?thesis using quant_absorb(2) [of W g] by simp
    qed
    have nb: "low = mtbdd_not bHigh \<Longrightarrow> (\<lambda>\<sigma>. ?fl \<sigma> \<or> ex_quant W p \<sigma>) = ?H"
    proof -
      assume "low = mtbdd_not bHigh"
      then have "bdd (nodes t) 0 bHigh (\<lambda>\<sigma>. \<not> ?fl \<sigma>)" using bdd_not [OF bl] by (simp add: dd_simps)
      then have "q = (\<lambda>\<sigma>. \<not> ?fl \<sigma>)" using bdd_fun bq by blast
      then show ?thesis unfolding comm using quant_absorb(2) [of W g] by simp
    qed
    define fh where "fh = (if low = mtbdd_not aHigh then ex_quant W q else if low = mtbdd_not bHigh then ex_quant W p
      else ex_quant W (\<lambda>\<sigma>. p \<sigma> \<and> q \<sigma>))"
    have H: "(\<lambda>\<sigma>. ?fl \<sigma> \<or> fh \<sigma>) = ?H" using na nb by (simp add: fh_def)
    have ih: "indep v fh" using i by (simp add: fh_def indep_ex_quant indep_and)
    have "gives keep t (pushed low (\<lambda>st. bindE
        (if low = mtbdd_not aHigh then e1 st else if low = mtbdd_not bHigh then e2 st else e3 st) (\<lambda>(high, st).
          if high = mtbdd_true then Inr (mtbdd_true, st)
          else if high = mtbdd_false then Inr (low, st)
          else if low = mtbdd_false then Inr (high, st)
          else pushed high (sylvan_or fuel low high) st)) t) (\<lambda>h. h = ?H)"
    proof (rule gives_with_gives [OF pushed_onward [OF 1(1,2) bl]], goal_cases)
      case (1 u)
      show ?case
        unfolding H [symmetric]
        by (rule and_exists_join [OF 1(1) 1(3,4) indep_ex_quant [OF low(2)] _ ih v]) (use e 1(1,2) in \<open>simp add: fh_def\<close>)
    qed
    then show ?case using N by simp
  qed
qed

lemma op_sem_AND_EXISTS: "op_sem CACHE_BDD_AND_EXISTS n a b c r \<longleftrightarrow> and_exists_sem n a b c r"
  by (simp add: op_sem_def op_defs push_bit_eq_mult)

lemma and_exists_sem_set:
  assumes "bdd n v a f" "bdd n u b g" "is_set n vs x"
  shows "and_exists_sem n a b x r \<longleftrightarrow> bdd n 0 r (ex_quant (set vs) (\<lambda>\<sigma>. f \<sigma> \<and> g \<sigma>))"
proof
  assume "and_exists_sem n a b x r"
  then obtain p q S where g: "bdd n 0 a p" "bdd n 0 b q" "bdd n 0 x (cube_fun S)" "bdd n 0 r (ex_quant S (\<lambda>\<sigma>. p \<sigma> \<and> q \<sigma>))"
    unfolding and_exists_sem_def by blast
  then show "bdd n 0 r (ex_quant (set vs) (\<lambda>\<sigma>. f \<sigma> \<and> g \<sigma>))"
    using bdd_fun [OF assms(1) g(1)] bdd_fun [OF assms(2) g(2)] cube_set_eq [OF g(3) assms(3)] by simp
next
  assume "bdd n 0 r (ex_quant (set vs) (\<lambda>\<sigma>. f \<sigma> \<and> g \<sigma>))"
  then show "and_exists_sem n a b x r"
    unfolding and_exists_sem_def using bdd_mono [OF assms(1) le0] bdd_mono [OF assms(2) le0] is_set_cube [OF assms(3)] by blast
qed

text \<open>The arguments in the order for the cache.\<close>

lemma ordered_args:
  assumes ok: "bdd_ok st" and h: "safe st a" "safe st b" and b: "bdd (nodes st) 0 a f" "bdd (nodes st) 0 b g"
    and i: "indep v f" "indep v g" and c: "a \<noteq> mtbdd_true" "a \<noteq> mtbdd_false" "b \<noteq> mtbdd_true" "b \<noteq> mtbdd_false"
    and o: "order_args a b = (x, y)"
  obtains f' g' where "(\<lambda>\<sigma>. f \<sigma> \<and> g \<sigma>) = (\<lambda>\<sigma>. f' \<sigma> \<and> g' \<sigma>)" "safe st x" "safe st y"
    "bdd (nodes st) v x f'" "MTBDD_INDEX x \<noteq> 0" "bdd (nodes st) v y g'" "MTBDD_INDEX y \<noteq> 0"
    "\<And>P. P f \<Longrightarrow> P g \<Longrightarrow> P f' \<and> P g'"
proof -
  note bv = bdd_level [OF bdd_ok_table [OF ok] b(1) i(1)] bdd_level [OF bdd_ok_table [OF ok] b(2) i(2)]
  note nc = bdd_nonconst [OF b(1) c(1,2)] bdd_nonconst [OF b(2) c(3,4)]
  from order_args_cases [OF o] show ?thesis
    using that [of f g] that [of g f] nc bv h by (auto simp: conj_commute)
qed

lemma sylvan_and_exists_gives:
  "bdd_ok st \<Longrightarrow> safe st a \<Longrightarrow> safe st b \<Longrightarrow> safe st z \<Longrightarrow> bdd (nodes st) 0 a f \<Longrightarrow> bdd (nodes st) 0 b g \<Longrightarrow>
   is_set (nodes st) vs z \<Longrightarrow> indep v f \<Longrightarrow> indep v g \<Longrightarrow> v \<le> 2 ^ 24 \<Longrightarrow> 2 ^ 24 < v + fuel \<Longrightarrow>
   gives keep st (sylvan_and_exists fuel a b z p st) (\<lambda>h. h = ex_quant (set vs) (\<lambda>\<sigma>. f \<sigma> \<and> g \<sigma>))"
proof (induction fuel arbitrary: st a b z f g vs v p)
  case (Suc fuel)
  note ok = Suc.prems(1) and now = gc.gives_now [OF Suc.prems(1)] and tb = bdd_ok_table [OF Suc.prems(1)]
  note ba = Suc.prems(5) and bb = Suc.prems(6) and fu = Suc.prems(10,11)
  let ?Q = "ex_quant (set vs) (\<lambda>\<sigma>. f \<sigma> \<and> g \<sigma>)"
  note ex = sylvan_exists_gives [OF ok _ Suc.prems(4) _ Suc.prems(7) _ fu]
  consider "a = mtbdd_false \<or> b = mtbdd_false \<or> a = mtbdd_not b" | "a = mtbdd_true" "b = mtbdd_true"
    | "a = mtbdd_true" "b \<noteq> mtbdd_true" "b \<noteq> mtbdd_false" | "b = mtbdd_true" "a \<noteq> mtbdd_true" "a \<noteq> mtbdd_false"
    | "a = b" "a \<noteq> mtbdd_true" "a \<noteq> mtbdd_false"
    | "a \<noteq> b" "a \<noteq> mtbdd_not b" "a \<noteq> mtbdd_true" "a \<noteq> mtbdd_false" "b \<noteq> mtbdd_true" "b \<noteq> mtbdd_false" by blast
  then show ?case
  proof cases
    case 1
    have "a = mtbdd_not b \<Longrightarrow> f = (\<lambda>\<sigma>. \<not> g \<sigma>)" using bdd_fun ba bdd_not [OF bb] by blast
    then have "?Q = (\<lambda>_. False)" using 1 ba bb by (auto simp: bdd_false_iff)
    then show ?thesis using 1 now [OF bdd.bdd_false, of "\<lambda>h. h = (\<lambda>_. False)"] by auto
  next
    case 2
    then show ?thesis using ba bb now [OF bdd.bdd_true, of "\<lambda>h. h = (\<lambda>_. True)"] by (simp add: bdd_true_iff dd_simps)
  next
    case 3
    then show ?thesis using ba ex [OF Suc.prems(3) bb Suc.prems(9)] by (auto simp: bdd_true_iff dd_simps)
  next
    case 4
    then show ?thesis using bb ex [OF Suc.prems(2) ba Suc.prems(8)] by (auto simp: bdd_true_iff dd_simps)
  next
    case 5
    then have "f = g" using bdd_fun ba bb by blast
    moreover have "a \<noteq> mtbdd_not a" using bdd_zero [OF ba] bdd_zero [OF bdd_not [OF ba]] by auto
    ultimately show ?thesis using 5 ex [OF Suc.prems(2) ba Suc.prems(8)] by simp
  next
    case 6
    obtain x y where o: "order_args a b = (x, y)" by (cases "order_args a b")
    obtain f' g' where e: "(\<lambda>\<sigma>. f \<sigma> \<and> g \<sigma>) = (\<lambda>\<sigma>. f' \<sigma> \<and> g' \<sigma>)" and s: "safe st x" "safe st y"
      and x: "bdd (nodes st) v x f'" "MTBDD_INDEX x \<noteq> 0" and y: "bdd (nodes st) v y g'" "MTBDD_INDEX y \<noteq> 0"
      by (rule ordered_args [OF Suc.prems(1-3,5,6,8,9) 6(3-6) o])
    have conj: "gives keep st (run_and (Suc fuel) c d st) (\<lambda>h. h = (\<lambda>\<sigma>. f' \<sigma> \<and> g' \<sigma>))"
      if "(c, d) = (a, b) \<or> (c, d) = (x, y)" for c d
      using that sylvan_and_gives [OF Suc.prems(1-3,5,6,8-11), of 0]
        sylvan_and_gives [OF ok s bdd_mono [OF x(1) le0] bdd_mono [OF y(1) le0] bdd_indep [OF x(1)] bdd_indep [OF y(1)] fu, of 0]
      by (auto simp: run_and_def e)
    define l where "l = min_level (getvar st x) (getvar st y)"
    let ?i = "unat l" and ?cn = "cachenow st p l" and ?c = "\<lambda>\<sigma>. f' \<sigma> \<and> g' \<sigma>"
    note lv = min_level_facts [OF x y, folded l_def]
    note ic = indep_and [OF lv(3,4)]
    obtain w ws where w: "skip_set set_fuel (nodes st) z l = Inr w" "safe st w" "is_set (nodes st) ws w"
      "\<forall>i \<in> set ws. ?i \<le> i" "\<forall>i. ?i \<le> i \<longrightarrow> (i \<in> set vs \<longleftrightarrow> i \<in> set ws)" "mtbdd_set_isempty w \<longleftrightarrow> ws = []"
      by (rule skip_set_at [OF ok Suc.prems(4,7), where level = l])
    have eq: "?Q = ex_quant (set ws) ?c" unfolding e by (rule ex_quant_indep [OF ic]) (use w(5) in blast)
    have f: "Suc ?i \<le> 2 ^ 24" "2 ^ 24 < Suc ?i + fuel" using lv(1,2) Suc.prems(11) by auto
    show ?thesis
    proof (cases "mtbdd_set_isempty z \<or> ws = []")
      case True
      then have "?Q = ?c"
        using eq e is_set_true [OF tb Suc.prems(7)] by (auto simp: mtbdd_set_isempty_def)
      then show ?thesis using True 6 w(1,6) conj [of a b] conj [of x y] o by (auto simp: Let_def simp flip: l_def)
    next
      case False
      then have ne: "\<not> mtbdd_set_isempty z" "\<not> mtbdd_set_isempty w" "ws \<noteq> []" using w(6) by auto
      show ?thesis
      proof (cases "try_cache st ?cn CACHE_BDD_AND_EXISTS x y w")
        case (Some r)
        have "bdd (nodes st) 0 r ?Q"
          using try_cache_sem [OF ok bdd_dd_word [OF x(1)] _ key_nonzero [OF x(2)] Some] and_exists_sem_set [OF x(1) y(1) w(3)]
          by (simp add: op_sem_AND_EXISTS eq)
        then show ?thesis using 6 o w(1) ne Some now by (simp add: Let_def flip: l_def)
      next
        case None
        obtain al ah bl bh where c: "(al, ah) = cofactors st l x" "(bl, bh) = cofactors st l y" by (metis surj_pair)
        note ca = gc.level_cofactors [OF ok s(1) x lv(3) c(1)] and cb = gc.level_cofactors [OF ok s(2) y lv(4) c(2)]
        note z0 = bdd_mono [OF ca(1) le0] bdd_mono [OF ca(3) le0] bdd_mono [OF cb(1) le0] bdd_mono [OF cb(3) le0]
        note ix = bdd_indep [OF ca(1)] bdd_indep [OF ca(3)] bdd_indep [OF cb(1)] bdd_indep [OF cb(3)]
        have cc: "cof ?c ?i t = (\<lambda>\<sigma>. cof f' ?i t \<sigma> \<and> cof g' ?i t \<sigma>)" for t by (rule cof_and)
        define v' where "v' = mtbdd_set_next (nodes st) w"
        note sl = set_at_level [OF ok w(2,3,4) ne(3), folded v'_def]
        define mr where "mr = (if l = getvar st w then
             bindE (sylvan_and_exists fuel al bl v' l st) (\<lambda>(low, st).
                 if low = mtbdd_true \<or> low = ah \<or> low = bh then Inr (low, st)
                 else pushed low (\<lambda>st. bindE
                   (if low = mtbdd_not ah then sylvan_exists fuel bh v' 0 st
                    else if low = mtbdd_not bh then sylvan_exists fuel ah v' 0 st
                    else sylvan_and_exists fuel ah bh v' l st) (\<lambda>(high, st).
                     if high = mtbdd_true then Inr (mtbdd_true, st)
                     else if high = mtbdd_false then Inr (low, st)
                     else if low = mtbdd_false then Inr (high, st)
                     else pushed high (sylvan_or fuel low high) st)) st)
           else
             bindE (sylvan_and_exists fuel al bl w l st) (\<lambda>(low, st).
             bindE (pushed low (sylvan_and_exists fuel ah bh w l) st) (\<lambda>(high, st).
               mtbdd_makenode l low high st)))"
        have "gives keep st mr (\<lambda>h. h = ex_quant (set ws) ?c)"
        proof (cases "l = getvar st w")
          case True
          then have i: "?i \<in> set ws" and wt: "set ws - {?i} = set (tl ws)" using sl(1,4) by auto
          note q = ex_quant_split [OF i, of ?c, unfolded wt cc]
          show ?thesis
            unfolding mr_def if_P [OF True] q
          proof (rule and_exists_calls [OF ok ca(4) cb(4) z0(2,4) _ _ _ _ _ ix(2,4) f], goal_cases)
            case 1
            show ?case by (rule Suc.IH [OF ok ca(2) cb(2) sl(3) z0(1,3) sl(2) ix(1,3) f])
          next
            case 2
            show ?case by (rule indep_and [OF ix(1,3)])
          next
            case (3 u)
            show ?case by (rule sylvan_exists_gives [OF 3(1) onward_safe [OF 3(2) cb(4)] onward_safe [OF 3(2) sl(3)]
                  onward_bdd [OF 3(2) cb(4) z0(4)] onward_set [OF 3(2) sl(3,2)] ix(4) f])
          next
            case (4 u)
            show ?case by (rule sylvan_exists_gives [OF 4(1) onward_safe [OF 4(2) ca(4)] onward_safe [OF 4(2) sl(3)]
                  onward_bdd [OF 4(2) ca(4) z0(2)] onward_set [OF 4(2) sl(3,2)] ix(2) f])
          next
            case (5 u)
            show ?case by (rule Suc.IH [OF 5(1) onward_safe [OF 5(2) ca(4)] onward_safe [OF 5(2) cb(4)] onward_safe [OF 5(2) sl(3)]
                  onward_bdd [OF 5(2) ca(4) z0(2)] onward_bdd [OF 5(2) cb(4) z0(4)] onward_set [OF 5(2) sl(3,2)] ix(2,4) f])
          qed
        next
          case F: False
          then have cq: "cof (ex_quant (set ws) ?c) ?i t = ex_quant (set ws) (\<lambda>\<sigma>. cof f' ?i t \<sigma> \<and> cof g' ?i t \<sigma>)" for t
            using sl(1) by (simp add: cof_ex_quant cc)
          show ?thesis
            unfolding mr_def if_not_P [OF F]
          proof (rule keep_level [OF ok _ _ indep_ex_quant [OF ic] lv(2)], goal_cases)
            case 1
            show ?case unfolding cq by (rule Suc.IH [OF ok ca(2) cb(2) w(2) z0(1,3) w(3) ix(1,3) f])
          next
            case (2 u)
            show ?case
              unfolding cq by (rule Suc.IH [OF 2(1) onward_safe [OF 2(2) ca(4)] onward_safe [OF 2(2) cb(4)] onward_safe [OF 2(2) w(2)]
                    onward_bdd [OF 2(2) ca(4) z0(2)] onward_bdd [OF 2(2) cb(4) z0(4)] onward_set [OF 2(2) w(2,3)] ix(2,4) f])
          qed
        qed
        then have "gives keep st (bindE mr (\<lambda>(r, t). Inr (r, put_cache ?cn CACHE_BDD_AND_EXISTS x y w r t)))
          (\<lambda>h. h = ex_quant (set ws) ?c)"
        proof (rule gc.gives_put)
          show "op_sem CACHE_BDD_AND_EXISTS (nodes t) x y w r"
            if "keep st t" "h = ex_quant (set ws) ?c" "bdd (nodes t) 0 r h" for t r h
            using that and_exists_sem_set [OF onward_bdd [OF onward_keep [OF that(1)] s(1) x(1)]
                onward_bdd [OF onward_keep [OF that(1)] s(2) y(1)] onward_set [OF onward_keep [OF that(1)] w(2,3)]]
            by (simp add: op_sem_AND_EXISTS)
        qed (use bdd_dd_word [OF x(1)] in auto)
        moreover have "sylvan_and_exists (Suc fuel) a b z p st =
            bindE mr (\<lambda>(r, t). Inr (r, put_cache ?cn CACHE_BDD_AND_EXISTS x y w r t))"
          using 6 o w(1) ne None by (simp add: mr_def Let_def cong: if_cong flip: l_def v'_def c)
        ultimately show ?thesis unfolding eq by (simp only:)
      qed
    qed
  qed
qed simp

declare sylvan_and_exists.simps(2) [simp del]

section \<open>Projection of a conjunction\<close>

lemma op_sem_AND_PROJECT: "op_sem CACHE_BDD_AND_PROJECT n a b c r \<longleftrightarrow> and_project_sem n a b c r"
  by (simp add: op_sem_def op_defs push_bit_eq_mult)

lemma and_project_sem_set:
  assumes "bdd n v a f" "bdd n u b g" "is_set n vs x"
  shows "and_project_sem n a b x r \<longleftrightarrow> (\<exists>h. bdd n 0 r h \<and> covers (set vs) f g h)"
proof
  assume "and_project_sem n a b x r"
  then obtain p q S h where g: "bdd n 0 a p" "bdd n 0 b q" "bdd n 0 x (cube_fun S)" "bdd n 0 r h" "covers S p q h"
    unfolding and_project_sem_def by blast
  then show "\<exists>h. bdd n 0 r h \<and> covers (set vs) f g h"
    using bdd_fun [OF assms(1) g(1)] bdd_fun [OF assms(2) g(2)] cube_set_eq [OF g(3) assms(3)] by auto
next
  assume "\<exists>h. bdd n 0 r h \<and> covers (set vs) f g h"
  then show "and_project_sem n a b x r"
    unfolding and_project_sem_def using bdd_mono [OF assms(1) le0] bdd_mono [OF assms(2) le0] is_set_cube [OF assms(3)] by blast
qed

lemma covers_true: "covers S f g (\<lambda>_. True)"
  by (simp add: covers_def depends_on_def)

lemma covers_false: "(\<And>\<sigma>. \<not> (f \<sigma> \<and> g \<sigma>)) \<Longrightarrow> covers S f g (\<lambda>_. False)"
proof -
  assume n: "\<And>\<sigma>. \<not> (f \<sigma> \<and> g \<sigma>)"
  then have "(\<lambda>\<sigma>. f \<sigma> \<and> g \<sigma>) = (\<lambda>_. False)" by auto
  then show ?thesis by (simp add: covers_def depends_on_def)
qed

lemma covers_project: "covers S f g (ex_quant (- S) g)"
  unfolding covers_def using depends_ex_quant indep_ex_quant by (auto elim: ex_quant_mono [rotated])

lemma covers_comm: "covers S f g h \<Longrightarrow> covers S g f h"
  by (auto simp: covers_def conj_commute)

lemma depends_on_mono: "depends_on h T \<Longrightarrow> T \<subseteq> S \<Longrightarrow> depends_on h S"
  by (simp add: depends_on_def subset_eq)

lemma covers_wider:
  assumes "covers T f g h" "indep v f" "indep v g" "T \<subseteq> S" "\<And>i. v \<le> i \<Longrightarrow> i \<in> S \<longleftrightarrow> i \<in> T"
  shows "covers S f g h"
proof -
  have "ex_quant (- S) (\<lambda>\<sigma>. f \<sigma> \<and> g \<sigma>) = ex_quant (- T) (\<lambda>\<sigma>. f \<sigma> \<and> g \<sigma>)"
    by (rule ex_quant_indep [OF indep_and [OF assms(2,3)]]) (simp add: assms(5))
  moreover have "depends_on h S" by (rule depends_on_mono [OF _ assms(4)]) (use assms(1) in \<open>simp add: covers_def\<close>)
  ultimately show ?thesis using assms(1) by (simp add: covers_def)
qed

text \<open>
  The results of the two branches, at the first level \<open>i\<close> of the functions.
\<close>

lemma covers_branch:
  assumes h: "covers (S - {i}) (cof f i False) (cof g i False) h0" "covers (S - {i}) (cof f i True) (cof g i True) h1"
    and i: "i \<in> S" "indep i f" "indep i g" and top: "\<And>v. indep v f \<Longrightarrow> indep v g \<Longrightarrow> v \<le> i"
  shows "covers S f g (branch i h0 h1)"
  unfolding covers_def
proof (intro conjI allI impI)
  fix \<sigma> assume q: "ex_quant (- S) (\<lambda>\<sigma>. f \<sigma> \<and> g \<sigma>) \<sigma>"
  have e: "ex_quant (- S) (\<lambda>\<sigma>. f \<sigma> \<and> g \<sigma>) \<sigma> = ex_quant (- (S - {i})) (\<lambda>\<sigma>. cof f i t \<sigma> \<and> cof g i t \<sigma>) \<sigma>" if "\<sigma> i = t" for t
  proof -
    have "ex_quant (- S) (\<lambda>\<sigma>. f \<sigma> \<and> g \<sigma>) \<sigma> = cof (ex_quant (- S) (\<lambda>\<sigma>. f \<sigma> \<and> g \<sigma>)) i t \<sigma>"
      using that by (simp add: cof_def fun_upd_idem)
    also have "\<dots> = ex_quant (- S) (\<lambda>\<sigma>. cof f i t \<sigma> \<and> cof g i t \<sigma>) \<sigma>" using i(1) by (simp add: cof_ex_quant cof_and)
    also have "\<dots> = ex_quant (- (S - {i})) (\<lambda>\<sigma>. cof f i t \<sigma> \<and> cof g i t \<sigma>) \<sigma>"
      by (rule fun_cong [OF project_below [OF indep_and [OF indep_cof_Suc [OF i(2)] indep_cof_Suc [OF i(3)]]]]) simp
    finally show ?thesis .
  qed
  show "branch i h0 h1 \<sigma>" using q e [of "\<sigma> i"] h by (cases "\<sigma> i") (simp_all add: branch_def covers_def)
next
  show "depends_on (branch i h0 h1) S"
    using h i(1) unfolding covers_def depends_on_def branch_def by (metis DiffD1)
next
  fix v assume v: "indep v f" "indep v g"
  then have "indep v h0" "indep v h1" using h indep_cof unfolding covers_def by blast+
  then show "indep v (branch i h0 h1)" using top [OF v] unfolding branch_def indep_def by metis
qed

lemma covers_or:
  assumes h: "covers S (cof f i False) (cof g i False) h0" "covers S (cof f i True) (cof g i True) h1"
    and i: "i \<notin> S" "indep i f" "indep i g"
  shows "covers S f g (\<lambda>\<sigma>. h0 \<sigma> \<or> h1 \<sigma>)"
  unfolding covers_def
proof (intro conjI allI impI)
  fix \<sigma> assume q: "ex_quant (- S) (\<lambda>\<sigma>. f \<sigma> \<and> g \<sigma>) \<sigma>"
  have "ex_quant (- S - {i}) (\<lambda>\<sigma>. cof f i t \<sigma> \<and> cof g i t \<sigma>) = ex_quant (- S) (\<lambda>\<sigma>. cof f i t \<sigma> \<and> cof g i t \<sigma>)" for t
    by (rule ex_quant_indep [OF indep_and [OF indep_cof_Suc [OF i(2)] indep_cof_Suc [OF i(3)]]]) auto
  then show "h0 \<sigma> \<or> h1 \<sigma>" using q h i(1) ex_quant_split [of i "- S" "\<lambda>\<sigma>. f \<sigma> \<and> g \<sigma>"] by (auto simp: covers_def cof_and)
next
  show "depends_on (\<lambda>\<sigma>. h0 \<sigma> \<or> h1 \<sigma>) S" using h unfolding covers_def depends_on_def by metis
next
  fix v assume v: "indep v f" "indep v g"
  then have "indep v h0" "indep v h1" using h indep_cof unfolding covers_def by blast+
  then show "indep v (\<lambda>\<sigma>. h0 \<sigma> \<or> h1 \<sigma>)" unfolding indep_def by metis
qed

lemma min_level_top:
  assumes tb: "table_ok (nodes st)" and x: "bdd (nodes st) v x f" "MTBDD_INDEX x \<noteq> 0"
    and y: "bdd (nodes st) w y g" "MTBDD_INDEX y \<noteq> 0" and i: "indep u f" "indep u g"
  shows "u \<le> unat (min_level (getvar st x) (getvar st y))"
  by (rule min_level_facts(1) [OF bdd_level [OF tb x(1) i(1)] x(2) bdd_level [OF tb y(1) i(2)] y(2)])

lemma sylvan_and_project_gives:
  "bdd_ok st \<Longrightarrow> safe st a \<Longrightarrow> safe st b \<Longrightarrow> safe st z \<Longrightarrow> bdd (nodes st) 0 a f \<Longrightarrow> bdd (nodes st) 0 b g \<Longrightarrow>
   is_set (nodes st) vs z \<Longrightarrow> indep v f \<Longrightarrow> indep v g \<Longrightarrow> v \<le> 2 ^ 24 \<Longrightarrow> 2 ^ 24 < v + fuel \<Longrightarrow>
   gives keep st (sylvan_and_project fuel a b z st) (covers (set vs) f g)"
proof (induction fuel arbitrary: st a b z f g vs v)
  case (Suc fuel)
  note ok = Suc.prems(1) and now = gc.gives_now [OF Suc.prems(1)] and tb = bdd_ok_table [OF Suc.prems(1)]
  note ba = Suc.prems(5) and bb = Suc.prems(6) and fu = Suc.prems(10,11)
  note tr = now [OF bdd.bdd_true, of "covers (set vs) f g", OF covers_true]
  consider "a = mtbdd_false \<or> b = mtbdd_false \<or> a = mtbdd_not b" | "a = mtbdd_true" "b = mtbdd_true"
    | "\<not> (a = mtbdd_false \<or> b = mtbdd_false \<or> a = mtbdd_not b)" "\<not> (a = mtbdd_true \<and> b = mtbdd_true)" "mtbdd_set_isempty z"
    | "\<not> (a = mtbdd_false \<or> b = mtbdd_false \<or> a = mtbdd_not b)" "\<not> (a = mtbdd_true \<and> b = mtbdd_true)" "\<not> mtbdd_set_isempty z"
      "a = mtbdd_true \<or> b = mtbdd_true \<or> a = b"
    | "a \<noteq> b" "a \<noteq> mtbdd_not b" "a \<noteq> mtbdd_true" "a \<noteq> mtbdd_false" "b \<noteq> mtbdd_true" "b \<noteq> mtbdd_false" "\<not> mtbdd_set_isempty z"
    by blast
  then show ?case
  proof cases
    case 1
    have "a = mtbdd_not b \<Longrightarrow> f = (\<lambda>\<sigma>. \<not> g \<sigma>)" using bdd_fun ba bdd_not [OF bb] by blast
    then have "covers (set vs) f g (\<lambda>_. False)" using 1 ba bb by (intro covers_false) (auto simp: bdd_false_iff)
    then show ?thesis using 1 now [OF bdd.bdd_false, of "covers (set vs) f g"] by auto
  next
    case 2
    then show ?thesis using tr by (simp add: dd_simps)
  next
    case 3
    then show ?thesis using tr by auto
  next
    case 4
    have "gives keep st (sylvan_project (Suc fuel) b z st) (covers (set vs) f g)"
      by (rule gives_mono [OF sylvan_project_gives [OF ok Suc.prems(3,4) bb Suc.prems(7,9) fu]]) (simp add: covers_project)
    then show ?thesis using 4 by auto
  next
    case 5
    obtain x y where o: "order_args a b = (x, y)" by (cases "order_args a b")
    obtain f' g' where e: "covers (set vs) f' g' h \<Longrightarrow> covers (set vs) f g h" and s: "safe st x" "safe st y"
      and x: "bdd (nodes st) v x f'" "MTBDD_INDEX x \<noteq> 0" and y: "bdd (nodes st) v y g'" "MTBDD_INDEX y \<noteq> 0" for h
    proof -
      note bv = bdd_level [OF tb ba Suc.prems(8)] bdd_level [OF tb bb Suc.prems(9)]
      note nc = bdd_nonconst [OF ba 5(3,4)] bdd_nonconst [OF bb 5(5,6)]
      from order_args_cases [OF o] show ?thesis
        using that [of f g] that [of g f] nc bv Suc.prems(2,3) covers_comm by metis
    qed
    define l where "l = min_level (getvar st x) (getvar st y)"
    let ?i = "unat l"
    note lv = min_level_facts [OF x y, folded l_def]
    obtain w ws where w: "skip_set set_fuel (nodes st) z l = Inr w" "safe st w" "is_set (nodes st) ws w"
      "\<forall>i \<in> set ws. ?i \<le> i" "\<forall>i. ?i \<le> i \<longrightarrow> (i \<in> set vs \<longleftrightarrow> i \<in> set ws)" "mtbdd_set_isempty w \<longleftrightarrow> ws = []"
      by (rule skip_set_at [OF ok Suc.prems(4,7), where level = l])
    have sub: "set ws \<subseteq> set vs" using w(4,5) by blast
    have eq: "covers (set vs) f g h" if "covers (set ws) f' g' h" for h
      by (rule e, rule covers_wider [OF that lv(3,4) sub]) (use w(5) in blast)
    have f: "Suc ?i \<le> 2 ^ 24" "2 ^ 24 < Suc ?i + fuel" using lv(1,2) Suc.prems(11) by auto
    show ?thesis
    proof (cases "ws = []")
      case True
      then show ?thesis using 5 o w(1,6) tr by (simp add: Let_def flip: l_def)
    next
      case ne: False
      show ?thesis
      proof (cases "try_cache st True CACHE_BDD_AND_PROJECT x y w")
        case (Some r)
        have "and_project_sem (nodes st) x y w r"
          using try_cache_sem [OF ok bdd_dd_word [OF x(1)] _ key_nonzero [OF x(2)] Some] by (simp add: op_sem_AND_PROJECT)
        then obtain h where h: "bdd (nodes st) 0 r h" "covers (set ws) f' g' h"
          unfolding and_project_sem_set [OF x(1) y(1) w(3)] by blast
        have "gives keep st (Inr (r, st)) (covers (set vs) f g)"
          by (rule now [where P = "covers (set vs) f g", OF h(1) eq [OF h(2)]])
        then show ?thesis using 5 o w(1,6) ne Some by (simp add: Let_def flip: l_def)
      next
        case None
        obtain al ah bl bh where c: "(al, ah) = cofactors st l x" "(bl, bh) = cofactors st l y" by (metis surj_pair)
        note ca = gc.level_cofactors [OF ok s(1) x lv(3) c(1)] and cb = gc.level_cofactors [OF ok s(2) y lv(4) c(2)]
        note z0 = bdd_mono [OF ca(1) le0] bdd_mono [OF ca(3) le0] bdd_mono [OF cb(1) le0] bdd_mono [OF cb(3) le0]
        note ix = bdd_indep [OF ca(1)] bdd_indep [OF ca(3)] bdd_indep [OF cb(1)] bdd_indep [OF cb(3)]
        define v' where "v' = mtbdd_set_next (nodes st) w"
        note sl = set_at_level [OF ok w(2,3,4) ne, folded v'_def]
        define mr where "mr = (if getvar st w = l then
             bindE (sylvan_and_project fuel ah bh v' st) (\<lambda>(high, st).
             bindE (pushed high (sylvan_and_project fuel al bl v') st) (\<lambda>(low, st).
               mtbdd_makenode l low high st))
           else
             bindE (sylvan_and_project fuel ah bh w st) (\<lambda>(high, st).
               pushed high (\<lambda>st. bindE (sylvan_and_project fuel al bl w st) (\<lambda>(low, st).
                 pushed low (sylvan_or fuel low high) st)) st))"
        have calls: "gives keep st (sylvan_and_project fuel ah bh q st) (covers (set us) (cof f' ?i True) (cof g' ?i True))"
          "bdd_ok u \<Longrightarrow> onward st u \<Longrightarrow> gives keep u (sylvan_and_project fuel al bl q u) (covers (set us) (cof f' ?i False) (cof g' ?i False))"
          if q: "safe st q" "is_set (nodes st) us q" for q us u
        proof -
          show "gives keep st (sylvan_and_project fuel ah bh q st) (covers (set us) (cof f' ?i True) (cof g' ?i True))"
            by (rule Suc.IH [OF ok ca(4) cb(4) q(1) z0(2,4) q(2) ix(2,4) f])
          show "gives keep u (sylvan_and_project fuel al bl q u) (covers (set us) (cof f' ?i False) (cof g' ?i False))"
            if u: "bdd_ok u" "onward st u"
            by (rule Suc.IH [OF u(1) onward_safe [OF u(2) ca(2)] onward_safe [OF u(2) cb(2)] onward_safe [OF u(2) q(1)]
                  onward_bdd [OF u(2) ca(2) z0(1)] onward_bdd [OF u(2) cb(2) z0(3)] onward_set [OF u(2) q] ix(1,3) f])
        qed
        have ind: "indep (Suc ?i) h" if "covers T (cof f' ?i t) (cof g' ?i t) h" for T t h
          using that indep_cof_Suc [OF lv(3)] indep_cof_Suc [OF lv(4)] unfolding covers_def by blast
        have "gives keep st mr (covers (set ws) f' g')"
        proof (cases "getvar st w = l")
          case True
          then have i: "?i \<in> set ws" and wt: "set (tl ws) = set ws - {?i}" using sl(1,4) by auto
          note calls = calls [OF sl(3,2), unfolded wt]
          show ?thesis
            unfolding mr_def if_P [OF True]
          proof (rule node_calls [OF ok calls(1) calls(2) ind ind _ lv(2)], assumption+)
            fix h0 h1
            assume "covers (set ws - {?i}) (cof f' ?i False) (cof g' ?i False) h0"
              "covers (set ws - {?i}) (cof f' ?i True) (cof g' ?i True) h1"
            then show "covers (set ws) f' g' (branch ?i h0 h1)"
              by (rule covers_branch [OF _ _ i lv(3,4)]) (unfold l_def, rule min_level_top [OF tb x y])
          qed
        next
          case F: False
          then have i: "?i \<notin> set ws" using sl(1) by simp
          note calls = calls [OF w(2,3)]
          show ?thesis
            unfolding mr_def if_not_P [OF F]
            by (rule or_calls [OF ok calls(1) calls(2) ind ind _ f], assumption+)
              (rule covers_or [OF _ _ i lv(3,4)], assumption+)
        qed
        then have "gives keep st (bindE mr (\<lambda>(r, t). Inr (r, put_cache True CACHE_BDD_AND_PROJECT x y w r t)))
          (covers (set ws) f' g')"
        proof (rule gc.gives_put)
          show "op_sem CACHE_BDD_AND_PROJECT (nodes t) x y w r"
            if "keep st t" "covers (set ws) f' g' h" "bdd (nodes t) 0 r h" for t r h
            using that and_project_sem_set [OF onward_bdd [OF onward_keep [OF that(1)] s(1) x(1)]
                onward_bdd [OF onward_keep [OF that(1)] s(2) y(1)] onward_set [OF onward_keep [OF that(1)] w(2,3)]]
            by (auto simp: op_sem_AND_PROJECT)
        qed (use bdd_dd_word [OF x(1)] in auto)
        then have "gives keep st (bindE mr (\<lambda>(r, t). Inr (r, put_cache True CACHE_BDD_AND_PROJECT x y w r t)))
          (covers (set vs) f g)" by (rule gives_mono) (rule eq)
        moreover have "sylvan_and_project (Suc fuel) a b z st =
            bindE mr (\<lambda>(r, t). Inr (r, put_cache True CACHE_BDD_AND_PROJECT x y w r t))"
          using 5 o w(1,6) ne None by (simp add: mr_def Let_def cong: if_cong flip: l_def v'_def c)
        ultimately show ?thesis by (simp only:)
      qed
    qed
  qed
qed simp

text \<open>
  With \<open>true\<close> as the second argument the result is \<open>true\<close>, whatever the first argument, while
  its projection onto the set need not be.
\<close>

lemma and_project_true:
  assumes "a \<noteq> mtbdd_false" "a \<noteq> mtbdd_true" "\<not> mtbdd_set_isempty z"
  shows "sylvan_and_project (Suc fuel) a mtbdd_true z st = Inr (mtbdd_true, st)"
proof -
  have "a \<noteq> mtbdd_not mtbdd_true" using assms(1) by (simp add: dd_simps)
  moreover have "sylvan_project (Suc fuel) mtbdd_true z st = Inr (mtbdd_true, st)"
    by (simp add: sylvan_project.simps(2))
  ultimately show ?thesis using assms by simp
qed

declare sylvan_and_project.simps(2) [simp del]

end
