(* ===== verification/BddCare.thy ===== *)
theory BddCare
  imports BddQuant
begin

text \<open>
  Simplification under a care function in \<open>sylvan_bdd.c\<close>: \<open>constrain\<close> and \<open>restrict\<close>. Both
  results agree with the function where the care function holds (\<open>constrained\<close>, \<open>restricted\<close>);
  that of \<open>restrict\<close> depends on no variable that the function does not depend on.
\<close>

section \<open>Operations\<close>

definition sylvan_isconst :: "u64 \<Rightarrow> bool" where
  "sylvan_isconst x = (x = mtbdd_true \<or> x = mtbdd_false)"

text \<open>The cases that both begin with.\<close>

definition care_terminal :: "u64 \<Rightarrow> u64 \<Rightarrow> u64 option" where
  "care_terminal f c =
    (if c = mtbdd_true then Some f
     else if c = mtbdd_false then Some mtbdd_false
     else if sylvan_isconst f then Some f
     else if f = c then Some mtbdd_true
     else if f = mtbdd_not c then Some mtbdd_false
     else None)"

primrec sylvan_constrain :: "nat \<Rightarrow> u64 \<Rightarrow> u64 \<Rightarrow> u32 \<Rightarrow> sylvan \<Rightarrow> serror + (u64 \<times> sylvan)" where
  "sylvan_constrain 0 f c prev_level st = Inl OutOfFuel"
| "sylvan_constrain (Suc fuel) f c prev_level st =
    (case care_terminal f c of Some r \<Rightarrow> Inr (r, st) | None \<Rightarrow>
     let vf = getvar st f;
         vc = getvar st c;
         level = min_level vf vc;
         mark = MTBDD_HASMARK f;
         f = MTBDD_STRIPMARK f;
         cn = cachenow st prev_level level
     in case try_cache st cn CACHE_BDD_CONSTRAIN f c 0 of Some r \<Rightarrow> Inr (mark_result mark r, st) | None \<Rightarrow>
        let (fLow, fHigh) = cofactors st level f;
            (cLow, cHigh) = cofactors st level c
        in bindE
          (if cLow = mtbdd_false then
             (if cHigh = mtbdd_true then Inr (fHigh, st) else sylvan_constrain fuel fHigh cHigh level st)
           else if cHigh = mtbdd_false then
             (if cLow = mtbdd_true then Inr (fLow, st) else sylvan_constrain fuel fLow cLow level st)
           else if cLow = mtbdd_true then
             bindE (sylvan_constrain fuel fHigh cHigh level st) (\<lambda>(high, st). mtbdd_makenode level fLow high st)
           else if cHigh = mtbdd_true then
             bindE (sylvan_constrain fuel fLow cLow level st) (\<lambda>(low, st). mtbdd_makenode level low fHigh st)
           else
             bindE (sylvan_constrain fuel fHigh cHigh level st) (\<lambda>(high, st).
             bindE (pushed high (sylvan_constrain fuel fLow cLow level) st) (\<lambda>(low, st).
               mtbdd_makenode level low high st)))
          (\<lambda>(result, st). Inr (mark_result mark result, put_cache cn CACHE_BDD_CONSTRAIN f c 0 result st)))"

primrec sylvan_restrict :: "nat \<Rightarrow> u64 \<Rightarrow> u64 \<Rightarrow> u32 \<Rightarrow> sylvan \<Rightarrow> serror + (u64 \<times> sylvan)" where
  "sylvan_restrict 0 f c prev_level st = Inl OutOfFuel"
| "sylvan_restrict (Suc fuel) f c prev_level st =
    (case care_terminal f c of Some r \<Rightarrow> Inr (r, st) | None \<Rightarrow>
     let vf = getvar st f;
         vc = getvar st c;
         level = min_level vf vc;
         mark = MTBDD_HASMARK f;
         f = MTBDD_STRIPMARK f;
         cn = cachenow st prev_level level
     in case try_cache st cn CACHE_BDD_RESTRICT f c 0 of Some r \<Rightarrow> Inr (mark_result mark r, st) | None \<Rightarrow>
        bindE
          (if vc < vf then
             let nc = MTBDD_GETNODE (nodes st) c
             in bindE (sylvan_or fuel (mtbddnode_followlow c nc) (mtbddnode_followhigh c nc) st) (\<lambda>(new_c, st).
                  pushed new_c (sylvan_restrict fuel f new_c level) st)
           else
             let nf = MTBDD_GETNODE (nodes st) f;
                 fLow = mtbddnode_followlow f nf;
                 fHigh = mtbddnode_followhigh f nf;
                 (cLow, cHigh) = cofactors st vf c
             in if cLow = mtbdd_false then sylvan_restrict fuel fHigh cHigh level st
                else if cHigh = mtbdd_false then sylvan_restrict fuel fLow cLow level st
                else
                  bindE (sylvan_restrict fuel fHigh cHigh level st) (\<lambda>(high, st).
                  bindE (pushed high (sylvan_restrict fuel fLow cLow level) st) (\<lambda>(low, st).
                    mtbdd_makenode level low high st)))
          (\<lambda>(result, st). Inr (mark_result mark result, put_cache cn CACHE_BDD_RESTRICT f c 0 result st)))"

section \<open>What the two have in common\<close>

lemma care_terminal_None:
  "care_terminal f c = None \<Longrightarrow> f \<noteq> mtbdd_true \<and> f \<noteq> mtbdd_false \<and> c \<noteq> mtbdd_true \<and> c \<noteq> mtbdd_false"
  by (auto simp: care_terminal_def sylvan_isconst_def split: if_splits)

text \<open>The result of a terminal case.\<close>

lemma care_terminal_Some:
  assumes t: "care_terminal x y = Some r" and b: "bdd n 0 x f" "bdd n 0 y c"
  obtains h where "bdd n 0 r h" "\<forall>\<sigma>. c \<sigma> \<longrightarrow> h \<sigma> = f \<sigma>" "h = f \<or> h = (\<lambda>_. True) \<or> h = (\<lambda>_. False)"
proof -
  consider "y = mtbdd_true \<or> sylvan_isconst x" "r = x" | "y = mtbdd_false" "r = mtbdd_false" | "x = y" "r = mtbdd_true"
    | "x = mtbdd_not y" "r = mtbdd_false"
    using t by (auto simp: care_terminal_def split: if_splits)
  then show ?thesis
  proof cases
    case 1
    then show ?thesis using that [of f] b by simp
  next
    case 2
    then show ?thesis using that [of "\<lambda>_. False"] b bdd.bdd_false by (auto simp: bdd_false_iff)
  next
    case 3
    then have "f = c" using bdd_fun b by blast
    then show ?thesis using that [of "\<lambda>_. True"] 3 bdd.bdd_true by auto
  next
    case 4
    then have "f = (\<lambda>\<sigma>. \<not> c \<sigma>)" using bdd_fun [OF b(1)] bdd_not [OF b(2)] by blast
    then show ?thesis using that [of "\<lambda>_. False"] 4 bdd.bdd_false by auto
  qed
qed

text \<open>The function without its mark.\<close>

lemma strip_bdd:
  assumes "safe st x" "bdd (nodes st) v x f" "MTBDD_INDEX x \<noteq> 0"
  obtains g where "f = (\<lambda>\<sigma>. MTBDD_HASMARK x \<noteq> g \<sigma>)" "safe st (MTBDD_STRIPMARK x)" "bdd (nodes st) v (MTBDD_STRIPMARK x) g"
    "MTBDD_INDEX (MTBDD_STRIPMARK x) \<noteq> 0" "getvar st (MTBDD_STRIPMARK x) = getvar st x"
proof (cases "MTBDD_HASMARK x")
  case True
  have "getvar st (mtbdd_not x) = getvar st x" by (simp add: getvar_def MTBDD_GETNODE_def)
  then show ?thesis
    using that [of "\<lambda>\<sigma>. \<not> f \<sigma>"] True strip_marked [OF True] safe_not [OF assms(1)] bdd_not [OF assms(2)] assms(3) by simp
next
  case False
  then show ?thesis using that [of f] strip_unmarked [OF False] assms by simp
qed

lemma indep_mark: "indep v (\<lambda>\<sigma>. m \<noteq> g \<sigma>) \<longleftrightarrow> indep v g"
  by (auto simp: indep_def)

lemma indep_depends: "indep v f \<longleftrightarrow> depends_on f {v..}"
  by (simp add: indep_def depends_on_def Ball_def)

lemma depends_mark: "depends_on (\<lambda>\<sigma>. m \<noteq> g \<sigma>) S \<longleftrightarrow> depends_on g S"
  by (auto simp: depends_on_def)

lemma depends_cof_same: "depends_on f S \<Longrightarrow> depends_on (cof f i b) S"
  by (auto simp: depends_on_def cof_def)

text \<open>
  The end of both operations: the result without the mark is put into the cache, and marked.
\<close>

lemma care_finish:
  assumes m: "gives keep st m (R g c)" and a: "dd_word x" "op_word op"
    and sem: "\<And>t r. keep st t \<Longrightarrow> care_sem R (nodes t) x y r \<Longrightarrow> op_sem op (nodes t) x y 0 r"
    and s: "safe st x" "safe st y" and b: "bdd (nodes st) u x g" "bdd (nodes st) v y c"
    and R: "\<And>h. R g c h \<Longrightarrow> R f c (\<lambda>\<sigma>. mk \<noteq> h \<sigma>)"
  shows "gives keep st (bindE m (\<lambda>(r, t). Inr (mark_result mk r, put_cache cn op x y 0 r t))) (R f c)"
proof -
  have P: "gives keep st (bindE m (\<lambda>(r, t). Inr (r, put_cache cn op x y 0 r t))) (R g c)"
  proof (rule gc.gives_put [OF m a])
    fix t r h assume t: "keep st t" "R g c h" "bdd (nodes t) 0 r h"
    show "op_sem op (nodes t) x y 0 r"
      by (rule sem [OF t(1)])
        (use onward_bdd [OF onward_keep [OF t(1)] s(1) b(1)] onward_bdd [OF onward_keep [OF t(1)] s(2) b(2)] t(2,3)
          in \<open>auto simp: care_sem_def\<close>)
  qed
  have "gives keep st (bindE (bindE m (\<lambda>(r, t). Inr (r, put_cache cn op x y 0 r t))) (\<lambda>(r, t). Inr (mark_result mk r, t))) (R f c)"
  proof (rule gives_mono [OF gives_mark [OF P]])
    fix h assume "R g c (\<lambda>\<sigma>. mk \<noteq> h \<sigma>)"
    from R [OF this] have "R f c (\<lambda>\<sigma>. mk \<noteq> (mk \<noteq> h \<sigma>))" .
    moreover have "(\<lambda>\<sigma>. mk \<noteq> (mk \<noteq> h \<sigma>)) = h" by auto
    ultimately show "R f c h" by (simp only:)
  qed
  then show ?thesis by (simp add: bindE_assoc split_def)
qed

section \<open>Constrain\<close>

lemma op_sem_CONSTRAIN: "op_sem CACHE_BDD_CONSTRAIN n a b c r \<longleftrightarrow> care_sem constrained n a b r"
  by (simp add: op_sem_def op_defs push_bit_eq_mult)

lemma care_sem_fun: "care_sem R n a b r \<Longrightarrow> bdd n v a f \<Longrightarrow> bdd n u b c \<Longrightarrow> \<exists>h. bdd n 0 r h \<and> R f c h"
  unfolding care_sem_def using bdd_fun by metis

lemma constrained_true: "constrained f (\<lambda>_. True) f"
  by (simp add: constrained_def)

lemma constrained_terminal:
  "\<forall>\<sigma>. c \<sigma> \<longrightarrow> h \<sigma> = f \<sigma> \<Longrightarrow> h = f \<or> h = (\<lambda>_. True) \<or> h = (\<lambda>_. False) \<Longrightarrow> constrained f c h"
  by (auto simp: constrained_def)

lemma constrained_mark: "constrained g c h \<Longrightarrow> constrained (\<lambda>\<sigma>. m \<noteq> g \<sigma>) c (\<lambda>\<sigma>. m \<noteq> h \<sigma>)"
  unfolding constrained_def indep_mark by simp

lemma constrained_branch:
  assumes "constrained (cof f i False) (cof c i False) h0" "constrained (cof f i True) (cof c i True) h1"
    and top: "\<And>v. indep v f \<Longrightarrow> indep v c \<Longrightarrow> v \<le> i"
  shows "constrained f c (branch i h0 h1)"
  unfolding constrained_def
proof (intro conjI allI impI)
  fix \<sigma> assume c: "c \<sigma>"
  have e: "cof g i (\<sigma> i) \<sigma> = g \<sigma>" for g :: bfun by (simp add: cof_def fun_upd_idem)
  show "branch i h0 h1 \<sigma> = f \<sigma>"
    using c assms(1,2) e [of f] e [of c] by (cases "\<sigma> i") (simp_all add: branch_def constrained_def)
next
  fix v assume v: "indep v f" "indep v c"
  then have "indep v h0" "indep v h1" using assms(1,2) indep_cof unfolding constrained_def by blast+
  then show "indep v (branch i h0 h1)" using top [OF v] unfolding branch_def indep_def by metis
qed

text \<open>When the care function is false on one side, the result is that of the other.\<close>

lemma constrained_sibling:
  assumes "cof c i (\<not> t) = (\<lambda>_. False)" "constrained (cof f i t) (cof c i t) h"
  shows "constrained f c h"
  unfolding constrained_def
proof (intro conjI allI impI)
  fix \<sigma> assume c: "c \<sigma>"
  have e: "cof g i (\<sigma> i) \<sigma> = g \<sigma>" for g :: bfun by (simp add: cof_def fun_upd_idem)
  have "\<sigma> i = t" using c assms(1) e [of c] by (metis (full_types))
  then show "h \<sigma> = f \<sigma>" using c assms(2) e [of c] e [of f] by (simp add: constrained_def)
next
  fix v assume "indep v f" "indep v c"
  then show "indep v h" using assms(2) indep_cof unfolding constrained_def by blast
qed

lemma sylvan_constrain_gives:
  "bdd_ok st \<Longrightarrow> safe st x \<Longrightarrow> safe st y \<Longrightarrow> bdd (nodes st) 0 x f \<Longrightarrow> bdd (nodes st) 0 y c \<Longrightarrow>
   indep v f \<Longrightarrow> indep v c \<Longrightarrow> v \<le> 2 ^ 24 \<Longrightarrow> 2 ^ 24 < v + fuel \<Longrightarrow>
   gives keep st (sylvan_constrain fuel x y p st) (constrained f c)"
proof (induction fuel arbitrary: st x y f c v p)
  case (Suc fuel)
  note ok = Suc.prems(1) and now = gc.gives_now [OF Suc.prems(1)] and tb = bdd_ok_table [OF Suc.prems(1)]
  show ?case
  proof (cases "care_terminal x y")
    case (Some r)
    obtain h where h: "bdd (nodes st) 0 r h" "\<forall>\<sigma>. c \<sigma> \<longrightarrow> h \<sigma> = f \<sigma>" "h = f \<or> h = (\<lambda>_. True) \<or> h = (\<lambda>_. False)"
      by (rule care_terminal_Some [OF Some Suc.prems(4,5)])
    have "gives keep st (Inr (r, st)) (constrained f c)"
      by (rule now [where P = "constrained f c", OF h(1) constrained_terminal [OF h(2,3)]])
    then show ?thesis using Some by simp
  next
    case nt: None
    note t = care_terminal_None [OF nt]
    have nc: "MTBDD_INDEX x \<noteq> 0" "MTBDD_INDEX y \<noteq> 0" using bdd_nonconst [OF Suc.prems(4)] bdd_nonconst [OF Suc.prems(5)] t by auto
    note bx = bdd_level [OF tb Suc.prems(4,6)] and bv = bdd_level [OF tb Suc.prems(5,7)]
    define z where "z = MTBDD_STRIPMARK x"
    obtain g where g: "f = (\<lambda>\<sigma>. MTBDD_HASMARK x \<noteq> g \<sigma>)" "safe st z" "bdd (nodes st) v z g" "MTBDD_INDEX z \<noteq> 0"
      "getvar st z = getvar st x"
      using strip_bdd [OF Suc.prems(2) bx nc(1)] unfolding z_def by blast
    define l where "l = min_level (getvar st z) (getvar st y)"
    let ?i = "unat l" and ?cn = "cachenow st p l"
    have lx: "min_level (getvar st x) (getvar st y) = l" by (simp add: l_def g(5))
    note lv = min_level_facts [OF g(3,4) bv nc(2), folded l_def]
    have f: "Suc ?i \<le> 2 ^ 24" "2 ^ 24 < Suc ?i + fuel" using lv(1,2) Suc.prems(9) by auto
    have top: "u \<le> ?i" if "indep u g" "indep u c" for u
      unfolding l_def by (rule min_level_top [OF tb g(3,4) bv nc(2) that])
    have mk: "constrained g c h \<Longrightarrow> constrained f c (\<lambda>\<sigma>. MTBDD_HASMARK x \<noteq> h \<sigma>)" for h
      unfolding g(1) by (rule constrained_mark)
    show ?thesis
    proof (cases "try_cache st ?cn CACHE_BDD_CONSTRAIN z y 0")
      case (Some r)
      have "care_sem constrained (nodes st) z y r"
        using try_cache_sem [OF ok bdd_dd_word [OF g(3)] _ key_nonzero [OF g(4)] Some] by (simp add: op_sem_CONSTRAIN)
      then obtain h where h: "bdd (nodes st) 0 r h" "constrained g c h" using care_sem_fun [OF _ g(3) bv] by blast
      have "bdd (nodes st) 0 (mark_result (MTBDD_HASMARK x) r) (\<lambda>\<sigma>. MTBDD_HASMARK x \<noteq> h \<sigma>)"
        using h(1) bdd_not [OF h(1)] by (simp add: mark_result_def)
      then have "gives keep st (Inr (mark_result (MTBDD_HASMARK x) r, st)) (constrained f c)"
        by (rule now [where P = "constrained f c"]) (rule mk [OF h(2)])
      then show ?thesis using nt Some by (simp add: Let_def lx flip: z_def)
    next
      case None
      obtain al ah bl bh where cs: "(al, ah) = cofactors st l z" "(bl, bh) = cofactors st l y" by (metis surj_pair)
      note ca = gc.level_cofactors [OF ok g(2,3,4) lv(3) cs(1)] and cb = gc.level_cofactors [OF ok Suc.prems(3) bv nc(2) lv(4) cs(2)]
      note z0 = bdd_mono [OF ca(1) le0] bdd_mono [OF ca(3) le0] bdd_mono [OF cb(1) le0] bdd_mono [OF cb(3) le0]
      note ix = bdd_indep [OF ca(1)] bdd_indep [OF ca(3)] bdd_indep [OF cb(1)] bdd_indep [OF cb(3)]
      let ?m = "if bl = mtbdd_false then
             (if bh = mtbdd_true then Inr (ah, st) else sylvan_constrain fuel ah bh l st)
           else if bh = mtbdd_false then
             (if bl = mtbdd_true then Inr (al, st) else sylvan_constrain fuel al bl l st)
           else if bl = mtbdd_true then
             bindE (sylvan_constrain fuel ah bh l st) (\<lambda>(high, st). mtbdd_makenode l al high st)
           else if bh = mtbdd_true then
             bindE (sylvan_constrain fuel al bl l st) (\<lambda>(low, st). mtbdd_makenode l low ah st)
           else
             bindE (sylvan_constrain fuel ah bh l st) (\<lambda>(high, st).
             bindE (pushed high (sylvan_constrain fuel al bl l) st) (\<lambda>(low, st).
               mtbdd_makenode l low high st))"
      let ?P0 = "constrained (cof g ?i False) (cof c ?i False)" and ?P1 = "constrained (cof g ?i True) (cof c ?i True)"
      have low: "gives keep u (sylvan_constrain fuel al bl l u) ?P0" if "bdd_ok u" "onward st u" for u
        by (rule Suc.IH [OF that(1) onward_safe [OF that(2) ca(2)] onward_safe [OF that(2) cb(2)]
              onward_bdd [OF that(2) ca(2) z0(1)] onward_bdd [OF that(2) cb(2) z0(3)] ix(1,3) f])
      have high: "gives keep st (sylvan_constrain fuel ah bh l st) ?P1"
        by (rule Suc.IH [OF ok ca(4) cb(4) z0(2,4) ix(2,4) f])
      have on: "onward st st" by (rule onward_keep [OF keep_refl [OF bdd_ok_state [OF ok]]])
      have ind: "indep (Suc ?i) h" if "constrained (cof g ?i t) (cof c ?i t) h" for t h
        using that indep_cof_Suc [OF lv(3)] indep_cof_Suc [OF lv(4)] unfolding constrained_def by blast
      note node = gc.mk_gives [OF _ _ _ _ _ lv(2)]
      have "gives keep st ?m (constrained g c)"
      proof -
        consider "bl = mtbdd_false" | "bl \<noteq> mtbdd_false" "bh = mtbdd_false"
          | "bl = mtbdd_true" "bh \<noteq> mtbdd_false" | "bl \<noteq> mtbdd_false" "bl \<noteq> mtbdd_true" "bh = mtbdd_true"
          | "bl \<noteq> mtbdd_false" "bl \<noteq> mtbdd_true" "bh \<noteq> mtbdd_false" "bh \<noteq> mtbdd_true" by blast
        then show ?thesis
        proof cases
          case 1
          then have "cof c ?i (\<not> True) = (\<lambda>_. False)" using z0(3) by (simp add: bdd_false_iff)
          note sib = constrained_sibling [where t = True, OF this]
          have "bh = mtbdd_true \<Longrightarrow> ?P1 (cof g ?i True)" using z0(4) by (simp add: bdd_true_iff constrained_true)
          then show ?thesis using 1 now [OF z0(2), of "constrained g c"] gives_mono [OF high sib] sib by auto
        next
          case 2
          then have "cof c ?i (\<not> False) = (\<lambda>_. False)" using z0(4) by (simp add: bdd_false_iff)
          note sib = constrained_sibling [where t = False, OF this]
          have "bl = mtbdd_true \<Longrightarrow> ?P0 (cof g ?i False)" using z0(3) by (simp add: bdd_true_iff constrained_true)
          then show ?thesis using 2 now [OF z0(1), of "constrained g c"] gives_mono [OF low [OF ok on] sib] sib by auto
        next
          case 3
          then have "?P0 (cof g ?i False)" using z0(3) by (simp add: bdd_true_iff constrained_true)
          note br = constrained_branch [OF this _ top]
          have "gives keep st (bindE (sylvan_constrain fuel ah bh l st) (\<lambda>(high, st). mtbdd_makenode l al high st)) (constrained g c)"
          proof (rule gc.gives_bind [OF high], goal_cases)
            case (1 r t h)
            show ?case
              unfolding prod.case
              by (rule gives_mono [OF node [OF 1(1) onward_bdd [OF onward_keep [OF 1(2)] ca(2) z0(1)] 1(4) ix(1) ind [OF 1(3)]]])
                (use br [OF 1(3)] in simp)
          qed
          then show ?thesis using 3 by simp
        next
          case 4
          then have "?P1 (cof g ?i True)" using z0(4) by (simp add: bdd_true_iff constrained_true)
          note br = constrained_branch [OF _ this top]
          have "gives keep st (bindE (sylvan_constrain fuel al bl l st) (\<lambda>(low, st). mtbdd_makenode l low ah st)) (constrained g c)"
          proof (rule gc.gives_bind [OF low [OF ok on]], goal_cases)
            case (1 r t h)
            show ?case
              unfolding prod.case
              by (rule gives_mono [OF node [OF 1(1) 1(4) onward_bdd [OF onward_keep [OF 1(2)] ca(4) z0(2)] ind [OF 1(3)] ix(2)]])
                (use br [OF 1(3)] in simp)
          qed
          then show ?thesis using 4 by simp
        next
          case 5
          have "gives keep st (bindE (sylvan_constrain fuel ah bh l st) (\<lambda>(high, st).
             bindE (pushed high (sylvan_constrain fuel al bl l) st) (\<lambda>(low, st).
               mtbdd_makenode l low high st))) (constrained g c)"
            by (rule node_calls [OF ok high low ind ind _ lv(2)], assumption+)
              (rule constrained_branch [OF _ _ top], assumption+)
          then show ?thesis using 5 by simp
        qed
      qed
      from care_finish [where R = constrained and op = CACHE_BDD_CONSTRAIN and cn = ?cn and mk = "MTBDD_HASMARK x" and f = f,
          OF this bdd_dd_word [OF g(3)] _ _ g(2) Suc.prems(3) g(3) bv mk]
      have "gives keep st (bindE ?m (\<lambda>(r, t). Inr (mark_result (MTBDD_HASMARK x) r, put_cache ?cn CACHE_BDD_CONSTRAIN z y 0 r t)))
        (constrained f c)" unfolding op_sem_CONSTRAIN by simp
      moreover have "sylvan_constrain (Suc fuel) x y p st =
          bindE ?m (\<lambda>(r, t). Inr (mark_result (MTBDD_HASMARK x) r, put_cache ?cn CACHE_BDD_CONSTRAIN z y 0 r t))"
        using nt None by (simp add: Let_def lx cong: if_cong flip: z_def cs)
      ultimately show ?thesis by (simp only:)
    qed
  qed
qed simp

declare sylvan_constrain.simps(2) [simp del]

section \<open>Restrict\<close>

lemma op_sem_RESTRICT: "op_sem CACHE_BDD_RESTRICT n a b c r \<longleftrightarrow> care_sem restricted n a b r"
  by (simp add: op_sem_def op_defs push_bit_eq_mult)

lemma depends_constant [simp]: "depends_on (\<lambda>_. b) S"
  by (simp add: depends_on_def)

lemma restricted_terminal:
  "\<forall>\<sigma>. c \<sigma> \<longrightarrow> h \<sigma> = f \<sigma> \<Longrightarrow> h = f \<or> h = (\<lambda>_. True) \<or> h = (\<lambda>_. False) \<Longrightarrow> restricted f c h"
  by (auto simp: restricted_def)

lemma restricted_mark: "restricted g c h \<Longrightarrow> restricted (\<lambda>\<sigma>. m \<noteq> g \<sigma>) c (\<lambda>\<sigma>. m \<noteq> h \<sigma>)"
  unfolding restricted_def depends_mark by simp

text \<open>A weaker care function.\<close>

lemma restricted_weaken: "restricted f c' h \<Longrightarrow> (\<And>\<sigma>. c \<sigma> \<Longrightarrow> c' \<sigma>) \<Longrightarrow> restricted f c h"
  by (auto simp: restricted_def)

lemma restricted_sibling:
  assumes "cof c i (\<not> t) = (\<lambda>_. False)" "restricted (cof f i t) (cof c i t) h"
  shows "restricted f c h"
  unfolding restricted_def
proof (intro conjI allI impI)
  fix \<sigma> assume c: "c \<sigma>"
  have e: "cof g i (\<sigma> i) \<sigma> = g \<sigma>" for g :: bfun by (simp add: cof_def fun_upd_idem)
  have "\<sigma> i = t" using c assms(1) e [of c] by (metis (full_types))
  then show "h \<sigma> = f \<sigma>" using c assms(2) e [of c] e [of f] by (simp add: restricted_def)
next
  fix S assume "depends_on f S"
  then show "depends_on h S" using assms(2) depends_cof_same unfolding restricted_def by blast
qed

text \<open>A node at a variable that the function depends on.\<close>

lemma depends_at: "depends_on f S \<Longrightarrow> i \<notin> S \<Longrightarrow> cof f i False = cof f i True"
  unfolding cof_def by (rule ext, erule depends_onD) auto

lemma restricted_branch:
  assumes "restricted (cof f i False) (cof c i False) h0" "restricted (cof f i True) (cof c i True) h1"
    and ne: "cof f i False \<noteq> cof f i True"
  shows "restricted f c (branch i h0 h1)"
  unfolding restricted_def
proof (intro conjI allI impI)
  fix \<sigma> assume c: "c \<sigma>"
  have e: "cof g i (\<sigma> i) \<sigma> = g \<sigma>" for g :: bfun by (simp add: cof_def fun_upd_idem)
  show "branch i h0 h1 \<sigma> = f \<sigma>"
    using c assms(1,2) e [of f] e [of c] by (cases "\<sigma> i") (simp_all add: branch_def restricted_def)
next
  fix S assume d: "depends_on f S"
  then have "i \<in> S" using depends_at ne by blast
  moreover have "depends_on h0 S" "depends_on h1 S" using assms(1,2) depends_cof_same [OF d] unfolding restricted_def by blast+
  ultimately show "depends_on (branch i h0 h1) S" unfolding branch_def depends_on_def by metis
qed

text \<open>In a reduced diagram the branches are different functions.\<close>

lemma bdd_branches_differ:
  assumes "table_ok n" "bdd n v x f" "MTBDD_INDEX x \<noteq> 0"
  shows "cof f (unat (mtbddnode_getvariable (MTBDD_GETNODE n x))) False \<noteq> cof f (unat (mtbddnode_getvariable (MTBDD_GETNODE n x))) True"
proof
  assume e: "cof f (unat (mtbddnode_getvariable (MTBDD_GETNODE n x))) False = cof f (unat (mtbddnode_getvariable (MTBDD_GETNODE n x))) True"
  note bi = bdd_inner [OF assms(2,3)]
  have "mtbddnode_followlow x (MTBDD_GETNODE n x) = mtbddnode_followhigh x (MTBDD_GETNODE n x)"
    using bdd_canonical [OF assms(1) bi(5)] bi(6) e by simp
  then show False using bi(7) by (simp add: follow_eq)
qed

lemma restricted_indep: "restricted f c h \<Longrightarrow> indep v f \<Longrightarrow> indep v h"
  by (simp add: restricted_def indep_depends)

lemma sylvan_restrict_gives:
  "bdd_ok st \<Longrightarrow> safe st x \<Longrightarrow> safe st y \<Longrightarrow> bdd (nodes st) 0 x f \<Longrightarrow> bdd (nodes st) 0 y c \<Longrightarrow>
   indep v f \<Longrightarrow> indep v c \<Longrightarrow> v \<le> 2 ^ 24 \<Longrightarrow> 2 ^ 24 < v + fuel \<Longrightarrow>
   gives keep st (sylvan_restrict fuel x y p st) (restricted f c)"
proof (induction fuel arbitrary: st x y f c v p)
  case (Suc fuel)
  note ok = Suc.prems(1) and now = gc.gives_now [OF Suc.prems(1)] and tb = bdd_ok_table [OF Suc.prems(1)]
  show ?case
  proof (cases "care_terminal x y")
    case (Some r)
    obtain h where h: "bdd (nodes st) 0 r h" "\<forall>\<sigma>. c \<sigma> \<longrightarrow> h \<sigma> = f \<sigma>" "h = f \<or> h = (\<lambda>_. True) \<or> h = (\<lambda>_. False)"
      by (rule care_terminal_Some [OF Some Suc.prems(4,5)])
    have "gives keep st (Inr (r, st)) (restricted f c)"
      by (rule now [where P = "restricted f c", OF h(1) restricted_terminal [OF h(2,3)]])
    then show ?thesis using Some by simp
  next
    case nt: None
    note t = care_terminal_None [OF nt]
    have nc: "MTBDD_INDEX x \<noteq> 0" "MTBDD_INDEX y \<noteq> 0" using bdd_nonconst [OF Suc.prems(4)] bdd_nonconst [OF Suc.prems(5)] t by auto
    note bx = bdd_level [OF tb Suc.prems(4,6)] and bv = bdd_level [OF tb Suc.prems(5,7)]
    define z where "z = MTBDD_STRIPMARK x"
    obtain g where g: "f = (\<lambda>\<sigma>. MTBDD_HASMARK x \<noteq> g \<sigma>)" "safe st z" "bdd (nodes st) v z g" "MTBDD_INDEX z \<noteq> 0"
      "getvar st z = getvar st x"
      using strip_bdd [OF Suc.prems(2) bx nc(1)] unfolding z_def by blast
    define l where "l = min_level (getvar st z) (getvar st y)"
    let ?i = "unat l" and ?cn = "cachenow st p l"
    have lx: "min_level (getvar st x) (getvar st y) = l" by (simp add: l_def g(5))
    note lv = min_level_facts [OF g(3,4) bv nc(2), folded l_def]
    have f: "Suc ?i \<le> 2 ^ 24" "2 ^ 24 < Suc ?i + fuel" using lv(1,2) Suc.prems(9) by auto
    have mk: "restricted g c h \<Longrightarrow> restricted f c (\<lambda>\<sigma>. MTBDD_HASMARK x \<noteq> h \<sigma>)" for h
      unfolding g(1) by (rule restricted_mark)
    show ?thesis
    proof (cases "try_cache st ?cn CACHE_BDD_RESTRICT z y 0")
      case (Some r)
      have "care_sem restricted (nodes st) z y r"
        using try_cache_sem [OF ok bdd_dd_word [OF g(3)] _ key_nonzero [OF g(4)] Some] by (simp add: op_sem_RESTRICT)
      then obtain h where h: "bdd (nodes st) 0 r h" "restricted g c h" using care_sem_fun [OF _ g(3) bv] by blast
      have "bdd (nodes st) 0 (mark_result (MTBDD_HASMARK x) r) (\<lambda>\<sigma>. MTBDD_HASMARK x \<noteq> h \<sigma>)"
        using h(1) bdd_not [OF h(1)] by (simp add: mark_result_def)
      then have "gives keep st (Inr (mark_result (MTBDD_HASMARK x) r, st)) (restricted f c)"
        by (rule now [where P = "restricted f c"]) (rule mk [OF h(2)])
      then show ?thesis using nt Some g(5) by (simp add: Let_def lx flip: z_def)
    next
      case None
      have on: "onward st st" by (rule onward_keep [OF keep_refl [OF bdd_ok_state [OF ok]]])
      let ?ny = "MTBDD_GETNODE (nodes st) y" and ?nz = "MTBDD_GETNODE (nodes st) z"
      let ?yl = "mtbddnode_followlow y ?ny" and ?yh = "mtbddnode_followhigh y ?ny"
      let ?zl = "mtbddnode_followlow z ?nz" and ?zh = "mtbddnode_followhigh z ?nz"
      obtain bl bh where cs: "(bl, bh) = cofactors st (getvar st x) y" by (metis surj_pair)
      let ?m1 = "bindE (sylvan_or fuel ?yl ?yh st) (\<lambda>(new_c, st). pushed new_c (sylvan_restrict fuel z new_c l) st)"
      let ?m2 = "if bl = mtbdd_false then sylvan_restrict fuel ?zh bh l st
                else if bh = mtbdd_false then sylvan_restrict fuel ?zl bl l st
                else
                  bindE (sylvan_restrict fuel ?zh bh l st) (\<lambda>(high, st).
                  bindE (pushed high (sylvan_restrict fuel ?zl bl l) st) (\<lambda>(low, st).
                    mtbdd_makenode l low high st))"
      have "gives keep st (if getvar st y < getvar st x then ?m1 else ?m2) (restricted g c)"
      proof (cases "getvar st y < getvar st x")
        case True
        then have l: "l = getvar st y" by (auto simp: l_def min_level_def g(5))
        note cy = node_cofactors [OF ok Suc.prems(3) bv nc(2), folded getvar_def, folded l]
        note ix = bdd_indep [OF cy(1)] bdd_indep [OF cy(3)]
        have "Suc ?i \<le> unat (getvar st z)" using True by (simp add: l g(5) word_less_nat_alt)
        then have ig: "indep (Suc ?i) g" by (rule indep_mono [OF bdd_getvar(3) [OF g(3,4)]])
        let ?c' = "\<lambda>\<sigma>. cof c ?i False \<sigma> \<or> cof c ?i True \<sigma>"
        have ic: "indep (Suc ?i) ?c'" using ix by (auto simp: indep_def)
        have w: "c \<sigma> \<Longrightarrow> ?c' \<sigma>" for \<sigma> by (cases "\<sigma> ?i") (simp_all add: cof_def fun_upd_idem)
        have "gives keep st ?m1 (restricted g c)"
        proof (rule gc.gives_bind [OF or_gives [OF ok cy(2,4) bdd_mono [OF cy(1) le0] bdd_mono [OF cy(3) le0] ix f]], goal_cases)
          case (1 r t h)
          then have b: "bdd (nodes t) 0 r ?c'" by simp
          show ?case
            unfolding prod.case
          proof (rule gives_with_gives [OF pushed_onward [OF 1(1,2) b]], goal_cases)
            case (1 u)
            show ?case
              by (rule gives_mono [OF Suc.IH [OF 1(1) onward_safe [OF 1(2) g(2)] 1(3) onward_bdd [OF 1(2) g(2,3)] 1(4) ig ic f]])
                (erule restricted_weaken, rule w)
          qed
        qed
        then show ?thesis using True by simp
      next
        case False
        then have l: "l = getvar st x" by (auto simp: l_def min_level_def g(5))
        note cz = node_cofactors [OF ok g(2,3,4), folded getvar_def, unfolded g(5), folded l]
        note cb = gc.level_cofactors [OF ok Suc.prems(3) bv nc(2) lv(4) cs [folded l]]
        note z0 = bdd_mono [OF cz(1) le0] bdd_mono [OF cz(3) le0] bdd_mono [OF cb(1) le0] bdd_mono [OF cb(3) le0]
        note ix = bdd_indep [OF cz(1)] bdd_indep [OF cz(3)] bdd_indep [OF cb(1)] bdd_indep [OF cb(3)]
        have ne: "cof g ?i False \<noteq> cof g ?i True"
          using bdd_branches_differ [OF tb g(3,4)] unfolding getvar_def [symmetric] g(5) l .
        have low: "gives keep u (sylvan_restrict fuel ?zl bl l u) (restricted (cof g ?i False) (cof c ?i False))"
          if "bdd_ok u" "onward st u" for u
          by (rule Suc.IH [OF that(1) onward_safe [OF that(2) cz(2)] onward_safe [OF that(2) cb(2)]
                onward_bdd [OF that(2) cz(2) z0(1)] onward_bdd [OF that(2) cb(2) z0(3)] ix(1,3) f])
        have high: "gives keep st (sylvan_restrict fuel ?zh bh l st) (restricted (cof g ?i True) (cof c ?i True))"
          by (rule Suc.IH [OF ok cz(4) cb(4) z0(2,4) ix(2,4) f])
        have ind: "indep (Suc ?i) h" if "restricted (cof g ?i t) (cof c ?i t) h" for t h
          by (rule restricted_indep [OF that indep_cof_Suc [OF lv(3)]])
        consider "bl = mtbdd_false" | "bl \<noteq> mtbdd_false" "bh = mtbdd_false" | "bl \<noteq> mtbdd_false" "bh \<noteq> mtbdd_false" by blast
        then have "gives keep st ?m2 (restricted g c)"
        proof cases
          case 1
          then have "cof c ?i (\<not> True) = (\<lambda>_. False)" using z0(3) by (simp add: bdd_false_iff)
          from gives_mono [OF high restricted_sibling [where t = True, OF this]] show ?thesis using 1 by simp
        next
          case 2
          then have "cof c ?i (\<not> False) = (\<lambda>_. False)" using z0(4) by (simp add: bdd_false_iff)
          from gives_mono [OF low [OF ok on] restricted_sibling [where t = False, OF this]] show ?thesis using 2 by simp
        next
          case 3
          have "gives keep st (bindE (sylvan_restrict fuel ?zh bh l st) (\<lambda>(high, st).
                  bindE (pushed high (sylvan_restrict fuel ?zl bl l) st) (\<lambda>(low, st).
                    mtbdd_makenode l low high st))) (restricted g c)"
            by (rule node_calls [OF ok high low ind ind _ lv(2)], assumption+)
              (rule restricted_branch [OF _ _ ne], assumption+)
          then show ?thesis using 3 by simp
        qed
        then show ?thesis using False by simp
      qed
      from care_finish [where R = restricted and op = CACHE_BDD_RESTRICT and cn = ?cn and mk = "MTBDD_HASMARK x" and f = f,
          OF this bdd_dd_word [OF g(3)] _ _ g(2) Suc.prems(3) g(3) bv mk]
      have "gives keep st (bindE (if getvar st y < getvar st x then ?m1 else ?m2)
        (\<lambda>(r, t). Inr (mark_result (MTBDD_HASMARK x) r, put_cache ?cn CACHE_BDD_RESTRICT z y 0 r t)))
        (restricted f c)" unfolding op_sem_RESTRICT by simp
      moreover have "sylvan_restrict (Suc fuel) x y p st = bindE (if getvar st y < getvar st x then ?m1 else ?m2)
          (\<lambda>(r, t). Inr (mark_result (MTBDD_HASMARK x) r, put_cache ?cn CACHE_BDD_RESTRICT z y 0 r t))"
        using nt None by (simp add: Let_def lx cong: if_cong flip: z_def cs)
      ultimately show ?thesis by (simp only:)
    qed
  qed
qed simp

declare sylvan_restrict.simps(2) [simp del]

end
