(* ===== verification/MtbddEnum.thy ===== *)
theory MtbddEnum
  imports MtbddSets
begin

text \<open>
  The enumeration of the assignments that satisfy a diagram (\<open>mtbdd_enum_all_first\<close> and
  \<open>mtbdd_enum_all_next\<close> of \<open>sylvan_mtbdd.c\<close>), by which the taint engine prints a tag. The
  array that the code updates is a list; a filter that is a null pointer is \<open>None\<close>. A call writes
  to the array only when it returns a leaf, so that a second search starts with the array
  that the first one got. The list
  \<open>sats f vs\<close> has the satisfying assignments of the variables \<open>vs\<close> in lexicographic order; the
  first operation finds its head, the second one the successor of an element.
\<close>

definition filtered :: "(u64 \<Rightarrow> bool) option \<Rightarrow> u64 \<Rightarrow> bool" where
  "filtered filter_cb dd = (case filter_cb of None \<Rightarrow> False | Some cb \<Rightarrow> \<not> cb dd)"

fun enum_fill :: "llmsset \<Rightarrow> u64 \<Rightarrow> u8 list \<Rightarrow> serror + u8 list" where
  "enum_fill n variables [] = (if variables = mtbdd_true then Inr [] else Inl OutOfBounds)"
| "enum_fill n variables (a # arr) =
    (if variables = mtbdd_true then Inr (a # arr)
     else bindE (enum_fill n (mtbdd_gethigh n variables) arr) (\<lambda>arr. Inr (0 # arr)))"

definition enum_cofactors :: "llmsset \<Rightarrow> u64 \<Rightarrow> u64 \<Rightarrow> u64 \<times> u64" where
  "enum_cofactors n dd variables =
    (let nv = MTBDD_GETNODE n variables; ndd = MTBDD_GETNODE n dd
     in if mtbddnode_getvariable ndd = mtbddnode_getvariable nv
        then (mtbddnode_followlow dd ndd, mtbddnode_followhigh dd ndd) else (dd, dd))"

fun mtbdd_enum_all_first ::
  "llmsset \<Rightarrow> (u64 \<Rightarrow> bool) option \<Rightarrow> u64 \<Rightarrow> u64 \<Rightarrow> u8 list \<Rightarrow> serror + (u64 \<times> u8 list)" where
  "mtbdd_enum_all_first n filter_cb dd variables [] =
    (if dd = mtbdd_false then Inr (mtbdd_false, [])
     else if variables = mtbdd_true then
       if mtbdd_isleaf n dd then Inr (dd, []) else Inl AssertFail
     else if mtbdd_isleaf n dd \<and> filtered filter_cb dd then Inr (mtbdd_false, [])
     else Inl OutOfBounds)"
| "mtbdd_enum_all_first n filter_cb dd variables (a # arr) =
    (if dd = mtbdd_false then Inr (mtbdd_false, a # arr)
     else if variables = mtbdd_true then
       if mtbdd_isleaf n dd then Inr (dd, a # arr) else Inl AssertFail
     else if mtbdd_isleaf n dd then
       if filtered filter_cb dd then Inr (mtbdd_false, a # arr)
       else bindE (enum_fill n variables (a # arr)) (\<lambda>arr. Inr (dd, arr))
     else
       let (low, high) = enum_cofactors n dd variables;
           variables = mtbddnode_followhigh variables (MTBDD_GETNODE n variables)
       in bindE (mtbdd_enum_all_first n filter_cb low variables arr) (\<lambda>(res, arr0).
            if res \<noteq> mtbdd_false then Inr (res, 0 # arr0)
            else bindE (mtbdd_enum_all_first n filter_cb high variables arr) (\<lambda>(res, arr1).
              if res \<noteq> mtbdd_false then Inr (res, 1 # arr1) else Inr (mtbdd_false, a # arr))))"

fun mtbdd_enum_all_next ::
  "llmsset \<Rightarrow> (u64 \<Rightarrow> bool) option \<Rightarrow> u64 \<Rightarrow> u64 \<Rightarrow> u8 list \<Rightarrow> serror + (u64 \<times> u8 list)" where
  "mtbdd_enum_all_next n filter_cb dd variables [] =
    (if dd = mtbdd_false then Inr (mtbdd_false, [])
     else if variables = mtbdd_true then
       if mtbdd_isleaf n dd then Inr (mtbdd_false, []) else Inl AssertFail
     else if mtbdd_isleaf n dd \<and> filtered filter_cb dd then Inr (mtbdd_false, [])
     else Inl OutOfBounds)"
| "mtbdd_enum_all_next n filter_cb dd variables (a # arr) =
    (if dd = mtbdd_false then Inr (mtbdd_false, a # arr)
     else if variables = mtbdd_true then
       if mtbdd_isleaf n dd then Inr (mtbdd_false, a # arr) else Inl AssertFail
     else if mtbdd_isleaf n dd \<and> filtered filter_cb dd then Inr (mtbdd_false, a # arr)
     else
       let (low, high) = (if mtbdd_isleaf n dd then (dd, dd) else enum_cofactors n dd variables);
           variables = mtbddnode_followhigh variables (MTBDD_GETNODE n variables)
       in if a = 0 then
            bindE (mtbdd_enum_all_next n filter_cb low variables arr) (\<lambda>(res, arr0).
              if res \<noteq> mtbdd_false then Inr (res, a # arr0)
              else bindE (mtbdd_enum_all_first n filter_cb high variables arr) (\<lambda>(res, arr1).
                if res = mtbdd_false then Inr (mtbdd_false, a # arr) else Inr (res, 1 # arr1)))
          else if a = 1 then
            bindE (mtbdd_enum_all_next n filter_cb high variables arr) (\<lambda>(res, arr). Inr (res, a # arr))
          else Inl AssertFail)"

section \<open>The satisfying assignments in order\<close>

fun sats :: "bfun \<Rightarrow> nat list \<Rightarrow> u8 list list" where
  "sats f [] = (if f (\<lambda>_. False) then [[]] else [])"
| "sats f (v # vs) = map ((#) 0) (sats (cof f v False) vs) @ map ((#) 1) (sats (cof f v True) vs)"

definition assign :: "nat list \<Rightarrow> u8 list \<Rightarrow> nat \<Rightarrow> bool" where
  "assign vs a i \<longleftrightarrow> (i, 1) \<in> set (zip vs a)"

lemma length_sats: "a \<in> set (sats f vs) \<Longrightarrow> length a = length vs"
  by (induction vs arbitrary: f a) (auto split: if_splits)

lemma distinct_sats: "distinct (sats f vs)"
  by (induction vs arbitrary: f) (auto simp: distinct_map)

lemma sats_false [simp]: "sats (\<lambda>_. False) vs = []"
  by (induction vs) (auto simp: cof_def)

lemma sats_Nil_iff: "depends_on f (set vs) \<Longrightarrow> sats f vs = [] \<longleftrightarrow> f = (\<lambda>_. False)"
proof (induction vs arbitrary: f)
  case Nil
  then have "f = (\<lambda>_. f (\<lambda>_. False))" by (intro depends_none) simp
  then show ?case by (auto split: if_splits)
next
  case (Cons v vs)
  have d: "depends_on (cof f v b) (set vs)" for b using Cons.prems by (auto intro: depends_cof)
  have "cof f v True = (\<lambda>_. False) \<and> cof f v False = (\<lambda>_. False) \<longleftrightarrow> f = (\<lambda>_. False)"
  proof
    assume "cof f v True = (\<lambda>_. False) \<and> cof f v False = (\<lambda>_. False)"
    then have "(\<lambda>\<sigma>. if \<sigma> v then cof f v True \<sigma> else cof f v False \<sigma>) = (\<lambda>_. False)" by simp
    then show "f = (\<lambda>_. False)" unfolding shannon .
  qed (simp add: cof_def)
  then show ?case using Cons.IH [OF d] by auto
qed

lemma sats_true: "\<exists>ys. sats (\<lambda>_. True) vs = replicate (length vs) 0 # ys"
proof (induction vs)
  case (Cons v vs)
  moreover have "cof (\<lambda>_. True) v b = (\<lambda>_. True)" for b by (simp add: cof_def)
  ultimately show ?case by auto
qed simp

lemma sats_iff:
  assumes "distinct vs" "depends_on f (set vs)"
  shows "a \<in> set (sats f vs) \<longleftrightarrow> length a = length vs \<and> set a \<subseteq> {0, 1} \<and> f (assign vs a)"
  using assms
proof (induction vs arbitrary: f a)
  case Nil
  then have e: "f (\<lambda>_. False) = f \<tau>" for \<tau> by (intro depends_onD [of f "{}"]) simp_all
  show ?case using e [of "assign [] a"] by (auto simp: assign_def)
next
  case (Cons v vs)
  have d: "depends_on (cof f v b) (set vs)" for b using Cons.prems(2) by (auto intro: depends_cof)
  have up: "cof f v (c = 1) (assign vs cs) = f (assign (v # vs) (c # cs))" if "c \<in> {0, 1}" for c cs
    unfolding cof_def
  proof (rule depends_onD [OF Cons.prems(2)])
    fix i assume "i \<in> set (v # vs)"
    show "((assign vs cs)(v := c = 1)) i = assign (v # vs) (c # cs) i"
      using that Cons.prems(1) by (auto simp: assign_def dest: set_zip_leftD)
  qed
  have IH: "cs \<in> set (sats (cof f v b) vs) \<longleftrightarrow>
      length cs = length vs \<and> set cs \<subseteq> {0, 1} \<and> cof f v b (assign vs cs)" for b cs
    using Cons.IH [OF _ d] Cons.prems(1) by simp
  show ?case
  proof (cases a)
    case (Cons c cs)
    show ?thesis using IH [of cs True] IH [of cs False] up [of 0 cs] up [of 1 cs] Cons by auto
  qed auto
qed

section \<open>The enumeration finds them\<close>

lemma isleaf_iff: "bdd n v x f \<Longrightarrow> mtbdd_isleaf n x \<longleftrightarrow> MTBDD_INDEX x = 0"
proof
  assume b: "bdd n v x f"
  show "MTBDD_INDEX x = 0 \<Longrightarrow> mtbdd_isleaf n x" using bdd_const_fun [OF b] by (auto simp: mtbdd_isleaf_def)
  show "mtbdd_isleaf n x \<Longrightarrow> MTBDD_INDEX x = 0"
    using bdd_inner(3) [OF b] by (auto simp: mtbdd_isleaf_def dd_simps split: if_splits)
qed

lemma fill_correct:
  "table_ok n \<Longrightarrow> is_set n vs x \<Longrightarrow> length arr = length vs \<Longrightarrow>
   enum_fill n x arr = Inr (replicate (length vs) 0)"
proof (induction vs arbitrary: x arr)
  case Nil
  then show ?case using is_set_true [OF Nil(1,2)] by simp
next
  case (Cons w ws)
  obtain a as where "arr = a # as" "length as = length ws" using Cons.prems(3) by (cases arr) auto
  then show ?case
    using Cons.IH [OF Cons.prems(1) set_node(6) [OF Cons.prems(1,2)]] set_node(2) [OF Cons.prems(1,2)]
    by (simp add: mtbdd_gethigh_def)
qed

lemma enum_cofactors_correct:
  assumes ok: "table_ok n" and x: "is_set n (v # vs) x" and b: "bdd n 0 dd f" and nc: "MTBDD_INDEX dd \<noteq> 0"
    and d: "depends_on f (set (v # vs))" and c: "enum_cofactors n dd x = (low, high)"
  shows "bdd n 0 low (cof f v False)" "bdd n 0 high (cof f v True)"
proof -
  let ?t = "top_var n dd"
  note sn = set_node [OF ok x]
  have same: "mtbddnode_getvariable (MTBDD_GETNODE n dd) = mtbddnode_getvariable (MTBDD_GETNODE n x) \<longleftrightarrow> ?t = v"
    using sn(3) by (simp add: word_unat_eq_iff top_var_node)
  have asc: "\<forall>i \<in> set vs. v < i" using x by (simp add: is_set_def)
  have "bdd n 0 low (cof f v False) \<and> bdd n 0 high (cof f v True)"
  proof (cases "?t = v")
    case True
    then have "bdd n 0 (mtbddnode_followlow dd (MTBDD_GETNODE n dd)) (cof f v False)"
      "bdd n 0 (mtbddnode_followhigh dd (MTBDD_GETNODE n dd)) (cof f v True)"
      using bdd_inner(5,6) [OF b nc, THEN bdd_mono, of 0] by (simp_all add: top_var_node)
    then show ?thesis using c same True by (simp add: enum_cofactors_def Let_def)
  next
    case False
    have "indep (Suc v) f"
      unfolding indep_def
    proof (intro allI impI)
      fix \<sigma> \<tau> :: "nat \<Rightarrow> bool" assume e: "\<forall>i \<ge> Suc v. \<sigma> i = \<tau> i"
      have "v < ?t"
      proof (rule ccontr)
        assume "\<not> v < ?t"
        then have t: "?t < v" using False by simp
        have "cof f ?t False = cof f ?t True"
        proof (rule ext)
          fix \<sigma> show "cof f ?t False \<sigma> = cof f ?t True \<sigma>"
            unfolding cof_def by (rule depends_onD [OF d]) (use t asc in auto)
        qed
        moreover have "bdd n (Suc ?t) (mtbddnode_followlow dd (MTBDD_GETNODE n dd)) (cof f ?t False)"
          "bdd n (Suc ?t) (mtbddnode_followhigh dd (MTBDD_GETNODE n dd)) (cof f ?t True)"
          using bdd_inner(5,6) [OF b nc] by (simp_all add: top_var_node)
        ultimately show False using bdd_canonical [OF ok] bdd_inner(7) [OF b nc] follow_eq by metis
      qed
      then have "indep (Suc v) f" by (intro bdd_indep [OF bdd_raise [OF b]]) simp
      from indepD [OF this, of \<sigma> \<tau>] show "f \<sigma> = f \<tau>" using e by simp
    qed
    then show ?thesis using False c same b cof_indep by (auto simp: enum_cofactors_def Let_def)
  qed
  then show "bdd n 0 low (cof f v False)" "bdd n 0 high (cof f v True)" by auto
qed

lemma bdd_false_fun: "table_ok n \<Longrightarrow> bdd n v dd f \<Longrightarrow> dd = mtbdd_false \<longleftrightarrow> f = (\<lambda>_. False)"
  using bdd_eq_iff [OF _ _ bdd.bdd_false] by blast

text \<open>The answer to a search: the first of a list of assignments, or that there is none.\<close>

definition answer :: "u8 list list \<Rightarrow> u8 list \<Rightarrow> u64 \<times> u8 list" where
  "answer as old = (case as of [] \<Rightarrow> (mtbdd_false, old) | a # _ \<Rightarrow> (mtbdd_true, a))"

lemma answer_simps [simp]: "answer [] old = (mtbdd_false, old)" "answer (a # as) old = (mtbdd_true, a)"
  by (simp_all add: answer_def)

lemma enum_first_correct:
  "table_ok n \<Longrightarrow> is_set n vs x \<Longrightarrow> bdd n 0 dd f \<Longrightarrow> depends_on f (set vs) \<Longrightarrow> length arr = length vs \<Longrightarrow>
   mtbdd_enum_all_first n None dd x arr = Inr (answer (sats f vs) arr)"
proof (induction vs arbitrary: x dd f arr)
  case Nil
  note ff = bdd_false_fun [OF Nil(1,3)]
  have "f = (\<lambda>_. f (\<lambda>_. False))" using Nil(4) by (intro depends_none) simp
  moreover have "dd = mtbdd_true" if "f = (\<lambda>_. True)" using bdd_canonical [OF Nil(1,3)] bdd.bdd_true that by blast
  moreover have "mtbdd_isleaf n mtbdd_true" by (simp add: mtbdd_isleaf_def)
  ultimately show ?case using Nil(5) is_set_true [OF Nil(1,2)] ff by (cases "f (\<lambda>_. False)") auto
next
  case (Cons v vs)
  obtain a as where arr: "arr = a # as" "length as = length vs" using Cons.prems(5) by (cases arr) auto
  note ff = bdd_false_fun [OF Cons.prems(1,3)] and sn = set_node [OF Cons.prems(1,2)]
  note leaf = isleaf_iff [OF Cons.prems(3)]
  show ?case
  proof (cases "MTBDD_INDEX dd = 0")
    case True
    obtain ys where ys: "sats (\<lambda>_. True) (v # vs) = replicate (length (v # vs)) 0 # ys" using sats_true by blast
    show ?thesis
      using bdd_const_fun [OF Cons.prems(3) True]
    proof
      assume t: "dd = mtbdd_true \<and> f = (\<lambda>_. True)"
      then show ?thesis
        using fill_correct [OF Cons.prems(1,2,5)] ys leaf True sn(2) arr
        by (simp add: filtered_def del: sats.simps enum_fill.simps)
    next
      assume "dd = mtbdd_false \<and> f = (\<lambda>_. False)"
      then show ?thesis using arr by (simp add: cof_def)
    qed
  next
    case False
    obtain low high where c: "enum_cofactors n dd x = (low, high)" by (metis surj_pair)
    note lh = enum_cofactors_correct [OF Cons.prems(1-3) False Cons.prems(4) c]
    have d: "depends_on (cof f v b) (set vs)" for b using Cons.prems(4) by (auto intro: depends_cof)
    note IH = Cons.IH [OF Cons.prems(1) sn(6) lh(1) d arr(2)] Cons.IH [OF Cons.prems(1) sn(6) lh(2) d arr(2)]
    have "dd \<noteq> mtbdd_false" using False by (auto simp: dd_simps)
    then show ?thesis
      using False leaf sn(2) c IH arr
      by (auto simp: Let_def answer_def split: list.split)
  qed
qed

lemma append_split:
  assumes "xs @ ys = as @ a # bs"
  shows "(\<exists>zs. xs = as @ a # zs \<and> bs = zs @ ys) \<or> (\<exists>zs. ys = zs @ a # bs \<and> as = xs @ zs)"
proof -
  from assms obtain us where "xs = as @ us \<and> us @ ys = a # bs \<or> xs @ us = as \<and> ys = us @ a # bs"
    unfolding append_eq_append_conv2 by blast
  then show ?thesis by (cases us) auto
qed

lemma enum_next_correct:
  "table_ok n \<Longrightarrow> is_set n vs x \<Longrightarrow> bdd n 0 dd f \<Longrightarrow> depends_on f (set vs) \<Longrightarrow>
   sats f vs = as @ arr # bs \<Longrightarrow> mtbdd_enum_all_next n None dd x arr = Inr (answer bs arr)"
proof (induction vs arbitrary: x dd f arr as bs)
  case Nil
  have s: "arr = []" "bs = []" "f (\<lambda>_. False)" using Nil(5) by (auto split: if_splits simp: Cons_eq_append_conv)
  have "dd = mtbdd_false \<or> mtbdd_isleaf n dd"
  proof -
    have "f = (\<lambda>_. True)" using depends_none [of f] Nil(4) s(3) by auto
    then have "dd = mtbdd_true" using bdd_canonical [OF Nil(1,3)] bdd.bdd_true by blast
    then show ?thesis by (simp add: mtbdd_isleaf_def)
  qed
  then show ?case using s is_set_true [OF Nil(1,2)] by auto
next
  case (Cons v vs)
  note ff = bdd_false_fun [OF Cons.prems(1,3)] and sn = set_node [OF Cons.prems(1,2)]
  note leaf = isleaf_iff [OF Cons.prems(3)]
  have nf: "dd \<noteq> mtbdd_false" using Cons.prems(5) ff sats_false [of "v # vs"] by (auto simp del: sats.simps)
  obtain low high where c: "(if mtbdd_isleaf n dd then (dd, dd) else enum_cofactors n dd x) = (low, high)"
    by (metis surj_pair)
  have lh: "bdd n 0 low (cof f v False)" "bdd n 0 high (cof f v True)"
  proof -
    have "bdd n 0 low (cof f v False) \<and> bdd n 0 high (cof f v True)"
    proof (cases "MTBDD_INDEX dd = 0")
      case True
      then have "f = (\<lambda>_. True)" using bdd_const_fun [OF Cons.prems(3) True] nf by blast
      then show ?thesis using True c leaf Cons.prems(3) by (auto simp: cof_def)
    next
      case False
      then show ?thesis
        using enum_cofactors_correct [OF Cons.prems(1-3) False Cons.prems(4)] c leaf by auto
    qed
    then show "bdd n 0 low (cof f v False)" "bdd n 0 high (cof f v True)" by auto
  qed
  have d: "depends_on (cof f v b) (set vs)" for b using Cons.prems(4) by (auto intro: depends_cof)
  have split: "map ((#) 0) (sats (cof f v False) vs) @ map ((#) 1) (sats (cof f v True) vs) = as @ arr # bs"
    using Cons.prems(5) by simp
  then consider (low) as' a bs' where "arr = 0 # a" "sats (cof f v False) vs = as' @ a # bs'"
      "bs = map ((#) 0) bs' @ map ((#) 1) (sats (cof f v True) vs)"
    | (high) as' a bs' where "arr = 1 # a" "sats (cof f v True) vs = as' @ a # bs'" "bs = map ((#) 1) bs'"
    using append_split [OF split] by (auto simp: map_eq_append_conv map_eq_Cons_conv)
  then show ?case
  proof cases
    case low
    have "length a = length vs" using length_sats [of a "cof f v False" vs] low(2) by simp
    note IH = Cons.IH [OF Cons.prems(1) sn(6) lh(1) d low(2)]
      enum_first_correct [OF Cons.prems(1) sn(6) lh(2) d this]
    show ?thesis
      using low IH nf sn(2) c by (auto simp: Let_def answer_def filtered_def split: list.split)
  next
    case high
    note IH = Cons.IH [OF Cons.prems(1) sn(6) lh(2) d high(2)]
    show ?thesis
      using high IH nf sn(2) c by (auto simp: Let_def answer_def filtered_def split: list.split)
  qed
qed

end
