(* ===== verification/MtbddMaps.thy ===== *)
theory MtbddMaps
  imports BddQuant
begin

text \<open>
  Maps from variables to diagrams (\<open>sylvan_mtbdd.h\<close>, \<open>sylvan_mtbdd.c\<close>): chains of low edges
  through nodes of a kind of their own. Every operation is shown to compute the map it should,
  in the sense of \<open>bdd_map\<close>, through the collections that its nodes may need.
\<close>

section \<open>Operations\<close>

definition mtbdd_map_empty :: u64 where
  "mtbdd_map_empty = mtbdd_false"

definition mtbdd_map_isempty :: "u64 \<Rightarrow> bool" where
  "mtbdd_map_isempty map' = (map' = mtbdd_false)"

definition mtbdd_map_key :: "llmsset \<Rightarrow> u64 \<Rightarrow> u32" where
  "mtbdd_map_key dbs map' = mtbdd_getvar dbs map'"

definition mtbdd_map_value :: "llmsset \<Rightarrow> u64 \<Rightarrow> u64" where
  "mtbdd_map_value dbs map' = mtbdd_gethigh dbs map'"

definition mtbdd_map_next :: "llmsset \<Rightarrow> u64 \<Rightarrow> u64" where
  "mtbdd_map_next dbs map' = mtbdd_getlow dbs map'"

primrec mtbdd_map_contains :: "nat \<Rightarrow> llmsset \<Rightarrow> u64 \<Rightarrow> u32 \<Rightarrow> serror + bool" where
  "mtbdd_map_contains 0 dbs map' key = Inl OutOfFuel"
| "mtbdd_map_contains (Suc fuel) dbs map' key =
    (if mtbdd_map_isempty map' then Inr False
     else
       let n = MTBDD_GETNODE dbs map';
           k = mtbddnode_getvariable n
       in if k = key then Inr True
          else if k > key then Inr False
          else mtbdd_map_contains fuel dbs (mtbddnode_followlow map' n) key)"

primrec mtbdd_map_count :: "nat \<Rightarrow> llmsset \<Rightarrow> u64 \<Rightarrow> nat \<Rightarrow> serror + nat" where
  "mtbdd_map_count 0 dbs map' r = Inl OutOfFuel"
| "mtbdd_map_count (Suc fuel) dbs map' r =
    (if mtbdd_map_isempty map' then Inr r
     else mtbdd_map_count fuel dbs (mtbdd_map_next dbs map') (r + 1))"

primrec mtbdd_map_add :: "nat \<Rightarrow> u64 \<Rightarrow> u32 \<Rightarrow> u64 \<Rightarrow> sylvan \<Rightarrow> serror + (u64 \<times> sylvan)" where
  "mtbdd_map_add 0 map' key value' st = Inl OutOfFuel"
| "mtbdd_map_add (Suc fuel) map' key value' st =
    (if mtbdd_map_isempty map' then mtbdd_makemapnode key mtbdd_map_empty value' st
     else
       let n = MTBDD_GETNODE (nodes st) map';
           k = mtbddnode_getvariable n
       in if k < key then
            bindE (mtbdd_map_add fuel (mtbddnode_followlow map' n) key value' st) (\<lambda>(low, st).
              mtbdd_makemapnode k low (mtbdd_gethigh (nodes st) map') st)
          else if k > key then mtbdd_makemapnode key map' value' st
          else mtbdd_makemapnode key (mtbddnode_followlow map' n) value' st)"

primrec mtbdd_map_update :: "nat \<Rightarrow> u64 \<Rightarrow> u64 \<Rightarrow> sylvan \<Rightarrow> serror + (u64 \<times> sylvan)" where
  "mtbdd_map_update 0 m1 m2 st = Inl OutOfFuel"
| "mtbdd_map_update (Suc fuel) m1 m2 st =
    (if mtbdd_map_isempty m1 then Inr (m2, st)
     else if mtbdd_map_isempty m2 then Inr (m1, st)
     else
       let n1 = MTBDD_GETNODE (nodes st) m1;
           n2 = MTBDD_GETNODE (nodes st) m2;
           k1 = mtbddnode_getvariable n1;
           k2 = mtbddnode_getvariable n2
       in if k1 < k2 then
            bindE (mtbdd_map_update fuel (mtbddnode_followlow m1 n1) m2 st) (\<lambda>(low, st).
              mtbdd_makemapnode k1 low (mtbdd_gethigh (nodes st) m1) st)
          else if k1 > k2 then
            bindE (mtbdd_map_update fuel m1 (mtbddnode_followlow m2 n2) st) (\<lambda>(low, st).
              mtbdd_makemapnode k2 low (mtbdd_gethigh (nodes st) m2) st)
          else
            bindE (mtbdd_map_update fuel (mtbddnode_followlow m1 n1) (mtbddnode_followlow m2 n2) st) (\<lambda>(low, st).
              mtbdd_makemapnode k2 low (mtbdd_gethigh (nodes st) m2) st))"

primrec mtbdd_map_remove :: "nat \<Rightarrow> u64 \<Rightarrow> u32 \<Rightarrow> sylvan \<Rightarrow> serror + (u64 \<times> sylvan)" where
  "mtbdd_map_remove 0 map' key st = Inl OutOfFuel"
| "mtbdd_map_remove (Suc fuel) map' key st =
    (if mtbdd_map_isempty map' then Inr (map', st)
     else
       let n = MTBDD_GETNODE (nodes st) map';
           k = mtbddnode_getvariable n
       in if k < key then
            bindE (mtbdd_map_remove fuel (mtbddnode_followlow map' n) key st) (\<lambda>(low, st).
              mtbdd_makemapnode k low (mtbdd_gethigh (nodes st) map') st)
          else if k > key then Inr (map', st)
          else Inr (mtbddnode_followlow map' n, st))"

primrec mtbdd_map_removeall :: "nat \<Rightarrow> u64 \<Rightarrow> u64 \<Rightarrow> sylvan \<Rightarrow> serror + (u64 \<times> sylvan)" where
  "mtbdd_map_removeall 0 map' variables st = Inl OutOfFuel"
| "mtbdd_map_removeall (Suc fuel) map' variables st =
    (if mtbdd_map_isempty map' then Inr (map', st)
     else if variables = mtbdd_true then Inr (map', st)
     else
       let n1 = MTBDD_GETNODE (nodes st) map';
           n2 = MTBDD_GETNODE (nodes st) variables;
           k1 = mtbddnode_getvariable n1;
           k2 = mtbddnode_getvariable n2
       in if k1 < k2 then
            bindE (mtbdd_map_removeall fuel (mtbddnode_followlow map' n1) variables st) (\<lambda>(low, st).
              mtbdd_makemapnode k1 low (mtbdd_gethigh (nodes st) map') st)
          else if k1 > k2 then mtbdd_map_removeall fuel map' (mtbddnode_followhigh variables n2) st
          else mtbdd_map_removeall fuel (mtbddnode_followlow map' n1) (mtbddnode_followhigh variables n2) st)"

section \<open>Maps in a state\<close>

lemma bdd_map_valid: "bdd_map (nodes st) v x m \<Longrightarrow> valid st x"
  using bdd_map_word bdd_map_root by (auto simp: valid_def root_in_def live_set_def)

lemma bdd_map_raise: "bdd_map n u x m \<Longrightarrow> (\<And>i. i \<in> dom m \<Longrightarrow> v \<le> i) \<Longrightarrow> bdd_map n v x m"
  by (erule bdd_map.cases) (auto intro!: bdd_map.intros)

text \<open>The first node of a map that is not empty.\<close>

lemma map_first:
  assumes ok: "bdd_ok st" and s: "safe st x" and b: "bdd_map (nodes st) v x m" and nc: "x \<noteq> mtbdd_false"
  defines "nd \<equiv> MTBDD_GETNODE (nodes st) x"
  defines "k \<equiv> unat (mtbddnode_getvariable nd)"
  obtains m' g where "m = m'(k \<mapsto> g)" "v \<le> k" "k < 2 ^ 24"
    "bdd_map (nodes st) (Suc k) (mtbddnode_followlow x nd) m'" "safe st (mtbddnode_followlow x nd)"
    "bdd (nodes st) 0 (mtbdd_gethigh (nodes st) x) g" "safe st (mtbdd_gethigh (nodes st) x)"
    "\<forall>i \<in> dom m'. k < i"
proof -
  note bi = bdd_map_inner [OF b nc, folded nd_def, folded k_def]
  then obtain m' g where m: "m = m'(k \<mapsto> g)" "bdd_map (nodes st) (Suc k) (mtbddnode_getlow nd) m'"
    "bdd (nodes st) 0 (mtbddnode_gethigh nd) g" by blast
  have r: "reach (nodes st) (roots st) (MTBDD_INDEX x)" using s bi by (simp add: safe_def)
  have sf: "safe st (mtbddnode_getlow nd)" "safe st (mtbddnode_gethigh nd)"
    using reach_low [OF r] reach_high [OF r] bi
    by (auto simp: safe_def low_high_fields lo_index_def hi_index_def MTBDD_GETNODE_def nd_def)
  have "mtbdd_gethigh (nodes st) x = mtbddnode_gethigh nd" using bi by (simp add: mtbdd_gethigh_def nd_def)
  moreover have "\<forall>i \<in> dom m'. k < i" using bdd_map_dom [OF m(2)] by (simp add: Suc_le_eq)
  ultimately show ?thesis using that m bi sf by simp
qed

section \<open>The loops that only read\<close>

lemma map_contains_correct:
  "bdd_ok st \<Longrightarrow> safe st x \<Longrightarrow> bdd_map (nodes st) v x m \<Longrightarrow> v \<le> 2 ^ 24 \<Longrightarrow> 2 ^ 24 < v + fuel \<Longrightarrow>
   mtbdd_map_contains fuel (nodes st) x key = Inr (unat key \<in> dom m)"
proof (induction fuel arbitrary: x v m)
  case (Suc fuel)
  show ?case
  proof (cases "x = mtbdd_false")
    case True
    then show ?thesis using bdd_map_empty [OF Suc.prems(3)] by (simp add: mtbdd_map_isempty_def)
  next
    case False
    let ?nd = "MTBDD_GETNODE (nodes st) x"
    let ?k = "unat (mtbddnode_getvariable ?nd)"
    obtain m' g where m: "m = m'(?k \<mapsto> g)" "v \<le> ?k" "?k < 2 ^ 24" "bdd_map (nodes st) (Suc ?k) (mtbddnode_followlow x ?nd) m'"
      "safe st (mtbddnode_followlow x ?nd)" "\<forall>i \<in> dom m'. ?k < i"
      by (rule map_first [OF Suc.prems(1-3) False])
    have r: "mtbdd_map_contains fuel (nodes st) (mtbddnode_followlow x ?nd) key = Inr (unat key \<in> dom m')"
      by (rule Suc.IH [OF Suc.prems(1) m(5,4)]) (use m(2,3) Suc.prems(5) in auto)
    have d: "unat key \<in> dom m \<longleftrightarrow> unat key = ?k \<or> unat key \<in> dom m'" by (simp add: m(1))
    have "unat key < ?k \<Longrightarrow> unat key \<notin> dom m'" using m(6) less_asym by blast
    then show ?thesis
      using False r unfolding d by (simp add: mtbdd_map_isempty_def Let_def word_less_nat_alt word_unat_eq_iff)
  qed
qed simp

lemma map_count_correct:
  "bdd_ok st \<Longrightarrow> safe st x \<Longrightarrow> bdd_map (nodes st) v x m \<Longrightarrow> v \<le> 2 ^ 24 \<Longrightarrow> 2 ^ 24 < v + fuel \<Longrightarrow>
   mtbdd_map_count fuel (nodes st) x r = Inr (r + card (dom m))"
proof (induction fuel arbitrary: x v m r)
  case (Suc fuel)
  show ?case
  proof (cases "x = mtbdd_false")
    case True
    then show ?thesis using bdd_map_empty [OF Suc.prems(3)] by (simp add: mtbdd_map_isempty_def)
  next
    case False
    let ?nd = "MTBDD_GETNODE (nodes st) x"
    let ?k = "unat (mtbddnode_getvariable ?nd)"
    obtain m' g where m: "m = m'(?k \<mapsto> g)" "v \<le> ?k" "?k < 2 ^ 24" "bdd_map (nodes st) (Suc ?k) (mtbddnode_followlow x ?nd) m'"
      "safe st (mtbddnode_followlow x ?nd)" "\<forall>i \<in> dom m'. ?k < i"
      by (rule map_first [OF Suc.prems(1-3) False])
    have "mtbdd_map_count fuel (nodes st) (mtbddnode_followlow x ?nd) (r + 1) = Inr (r + 1 + card (dom m'))"
      by (rule Suc.IH [OF Suc.prems(1) m(5,4)]) (use m(2,3) Suc.prems(5) in auto)
    moreover have "finite (dom m')"
      by (rule finite_subset [of _ "{..<2 ^ 24}"]) (use bdd_map_dom [OF m(4)] in auto)
    moreover have "?k \<notin> dom m'" using m(6) by blast
    moreover have "dom m = insert ?k (dom m')" by (auto simp: m(1))
    ultimately show ?thesis
      using False by (simp add: mtbdd_map_isempty_def mtbdd_map_next_def mtbdd_getlow_def)
  qed
qed simp

section \<open>Making a node\<close>

text \<open>\<open>map_gives st c m\<close>: the computation stops for lack of room or returns the map \<open>m\<close>.\<close>

definition map_gives :: "sylvan \<Rightarrow> serror + (u64 \<times> sylvan) \<Rightarrow> (nat \<rightharpoonup> bfun) \<Rightarrow> bool" where
  "map_gives st c m \<longleftrightarrow> yields st c (\<lambda>r t. bdd_ok t \<and> keep st t \<and> bdd_map (nodes t) 0 r m)"

lemma map_gives_now: "bdd_ok st \<Longrightarrow> bdd_map (nodes st) v x m \<Longrightarrow> map_gives st (Inr (x, st)) m"
  using keep_refl [OF bdd_ok_state] bdd_map_mono [OF _ le0] by (simp add: map_gives_def)

lemma map_gives_bind:
  assumes m: "map_gives s c m"
    and k: "\<And>r t. bdd_ok t \<Longrightarrow> keep s t \<Longrightarrow> bdd_map (nodes t) 0 r m \<Longrightarrow> map_gives t (f (r, t)) m'"
  shows "map_gives s (bindE c f) m'"
  unfolding map_gives_def
proof (rule yields_bind [OF m [unfolded map_gives_def]], goal_cases)
  case (1 r t)
  then have "yields t (f (r, t)) (\<lambda>r u. bdd_ok u \<and> keep t u \<and> bdd_map (nodes u) 0 r m')"
    using k unfolding map_gives_def by blast
  moreover have "max_size (nodes s) = max_size (nodes t)" using 1 by (simp add: keep_def)
  ultimately have "yields s (f (r, t)) (\<lambda>r u. bdd_ok u \<and> keep t u \<and> bdd_map (nodes u) 0 r m')"
    using yields_cong by blast
  then show ?case by (rule yields_mono) (use 1 keep_trans in blast)
qed

lemma lookup_map:
  assumes ok: "bdd_ok st" and l: "bdd_map (nodes st) (Suc (unat key)) low m" and h: "bdd (nodes st) 0 high g"
    and v: "unat key < 2 ^ 24"
  shows "yields st (lookup_node (mtbddnode_makemapnode key low high) st) (\<lambda>index t. bdd_ok t \<and> keep st t \<and>
    extends (nodes st) (nodes t) \<and> (index \<noteq> 0 \<longrightarrow> bdd_map (nodes t) 0 index (m(unat key \<mapsto> g))))"
proof -
  note d = bdd_map_word [OF l] bdd_dd_word [OF h]
  note mf = makemapnode_fields [OF conjunct1 [OF d(1)] conjunct2 [OF d(1)] d(2) v]
  obtain a b where ab: "mtbddnode_makemapnode key low high = (a, b)" by (cases "mtbddnode_makemapnode key low high")
  have "yields st (lookup_node (a, b) st) (\<lambda>index t. bdd_ok t \<and> same_but_tables st t \<and>
    max_size (nodes t) = max_size (nodes st) \<and> extends (nodes st) (nodes t) \<and>
    (index \<noteq> 0 \<longrightarrow> (\<exists>d. index = of_nat d \<and> live (nodes t) d \<and> dptr (nodes t) d = (a, b))))"
    by (rule lookup_node_yields [OF ok])
      (use mf bdd_map_valid [OF l] bdd_valid [OF h] in \<open>simp_all add: ab valid_def\<close>)
  then show ?thesis
    unfolding ab
  proof (rule yields_mono)
    fix index :: u64 and t
    assume t: "bdd_ok t \<and> same_but_tables st t \<and> max_size (nodes t) = max_size (nodes st) \<and> extends (nodes st) (nodes t) \<and>
      (index \<noteq> 0 \<longrightarrow> (\<exists>d. index = of_nat d \<and> live (nodes t) d \<and> dptr (nodes t) d = (a, b)))"
    then have e: "extends (nodes st) (nodes t)" by blast
    have "bdd_map (nodes t) 0 (of_nat d) (m(unat key \<mapsto> g))"
      if dl: "live (nodes t) d" "dptr (nodes t) d = (a, b)" for d
    proof -
      have "d < 2 ^ 40" using live_less [OF table_ok_shape [OF bdd_ok_table] dl(1)] t by simp
      note i = index_fields [OF this]
      show ?thesis
        by (rule bdd_map.map_node [OF _ _ _ _ _ v bdd_map_extends [OF l e] bdd_extends [OF h e]]) (simp_all add: i dl ab)
    qed
    then show "bdd_ok t \<and> keep st t \<and> extends (nodes st) (nodes t) \<and> (index \<noteq> 0 \<longrightarrow> bdd_map (nodes t) 0 index (m(unat key \<mapsto> g)))"
      using t extends_keep [OF bdd_ok_state [OF ok]] by auto
  qed
qed

lemma makemapnode_gives:
  assumes ok: "bdd_ok st" and l: "bdd_map (nodes st) (Suc (unat key)) low m" and h: "bdd (nodes st) 0 high g"
    and v: "unat key < 2 ^ 24"
  shows "map_gives st (mtbdd_makemapnode key low high st) (m(unat key \<mapsto> g))"
proof -
  let ?nd = "mtbddnode_makemapnode key low high"
  have run: "mtbdd_makemapnode key low high st = bindE (lookup_node ?nd st) (\<lambda>(index, st).
            if index = 0 then
              bindE (sylvan_gc (mtbdd_refs_push high (mtbdd_refs_push low st))) (\<lambda>st.
              bindE (lookup_node ?nd (mtbdd_refs_pop 2 st)) (\<lambda>(index, st).
                if index = 0 then Inl TableFull else Inr (index, st)))
            else Inr (index, st))"
    using bdd_map_word [OF l] by (simp add: mtbdd_makemapnode_def Let_def)
  show ?thesis
    unfolding map_gives_def run
  proof (rule yields_bind [OF lookup_map [OF assms]], goal_cases)
    case (1 index t)
    then have t: "bdd_ok t" "keep st t" "extends (nodes st) (nodes t)" by auto
    note lt = bdd_map_extends [OF l t(3)] and ht = bdd_extends [OF h t(3)]
    show ?case
    proof (cases "index = 0")
      case False
      then show ?thesis using 1 by simp
    next
      case True
      define p where "p = mtbdd_refs_push high (mtbdd_refs_push low t)"
      have vl: "valid (mtbdd_refs_push low t) high" using bdd_valid [OF ht] by (simp add: valid_def)
      have pok: "bdd_ok p"
        unfolding p_def by (intro push_bdd_ok t(1) bdd_map_valid [OF lt] vl)
      obtain u where u: "sylvan_gc p = Inr u" "bdd_ok u" "keep p u" using sylvan_gc_yields [OF pok] by blast
      have sl: "safe p low" "safe p high"
        unfolding p_def using bdd_map_word [OF lt] bdd_dd_word [OF ht] by (auto intro: push_safe push_safe_new)
      let ?w = "mtbdd_refs_pop 2 u"
      have bw: "bdd_map (nodes ?w) (Suc (unat key)) low m" "bdd (nodes ?w) 0 high g"
        using keep_map [OF u(3) sl(1)] keep_bdd [OF u(3) sl(2)] lt ht by (simp_all add: p_def)
      have w: "bdd_ok ?w" "keep st ?w"
      proof -
        show "bdd_ok ?w" by (rule pop_bdd_ok [OF u(2)])
        have "keep t ?w"
          unfolding pop2 by (rule keep_pop_push, rule keep_pop_push) (use u(3) in \<open>simp only: p_def\<close>)
        then show "keep st ?w" using t(2) keep_trans by blast
      qed
      have "yields ?w (bindE (lookup_node ?nd ?w) (\<lambda>(index, st). if index = 0 then Inl TableFull else Inr (index, st)))
          (\<lambda>r t. bdd_ok t \<and> keep st t \<and> bdd_map (nodes t) 0 r (m(unat key \<mapsto> g)))"
        by (rule yields_bind [OF lookup_map [OF w(1) bw v]]) (use keep_trans [OF w(2)] in auto)
      moreover have "max_size (nodes ?w) = max_size (nodes st)" using w(2) by (simp add: keep_def)
      ultimately have "yields st (bindE (lookup_node ?nd ?w) (\<lambda>(index, st). if index = 0 then Inl TableFull else Inr (index, st)))
          (\<lambda>r t. bdd_ok t \<and> keep st t \<and> bdd_map (nodes t) 0 r (m(unat key \<mapsto> g)))"
        using yields_cong by blast
      with True u(1) show ?thesis by (simp add: p_def)
    qed
  qed
qed

section \<open>Adding and removing\<close>

lemma keep_node:
  assumes "keep s t" "safe s x" "MTBDD_INDEX x \<noteq> 0"
  shows "MTBDD_GETNODE (nodes t) x = MTBDD_GETNODE (nodes s) x"
proof -
  have "reach (nodes s) {x} (MTBDD_INDEX x)" using assms(3) by (auto intro: reach_root)
  then show ?thesis using keep_below [OF assms(1,2)] by (simp add: MTBDD_GETNODE_def)
qed

text \<open>The end of a recursion: the first node again, over the result for the rest.\<close>

lemma rebuild_map:
  assumes ok: "bdd_ok st" and s: "safe st x" and x: "MTBDD_INDEX x \<noteq> 0" "unat k < 2 ^ 24"
    and h: "bdd (nodes st) 0 (mtbdd_gethigh (nodes st) x) g" "safe st (mtbdd_gethigh (nodes st) x)"
    and c: "map_gives st c m" and d: "\<forall>i \<in> dom m. unat k < i"
  shows "map_gives st (bindE c (\<lambda>(low, st). mtbdd_makemapnode k low (mtbdd_gethigh (nodes st) x) st)) (m(unat k \<mapsto> g))"
proof (rule map_gives_bind [OF c], goal_cases)
  case (1 low t)
  have e: "mtbdd_gethigh (nodes t) x = mtbdd_gethigh (nodes st) x"
    using keep_node [OF 1(2) s x(1)] by (simp add: mtbdd_gethigh_def)
  have l: "bdd_map (nodes t) (Suc (unat k)) low m"
    by (rule bdd_map_raise [OF 1(3)]) (use d in \<open>simp add: Suc_le_eq\<close>)
  show ?case
    unfolding prod.case e by (rule makemapnode_gives [OF 1(1) l keep_bdd [OF 1(2) h(2,1)] x(2)])
qed

lemma map_add_gives:
  "bdd_ok st \<Longrightarrow> safe st x \<Longrightarrow> bdd_map (nodes st) v x m \<Longrightarrow> bdd (nodes st) 0 y g \<Longrightarrow> unat key < 2 ^ 24 \<Longrightarrow>
   v \<le> 2 ^ 24 \<Longrightarrow> 2 ^ 24 < v + fuel \<Longrightarrow> map_gives st (mtbdd_map_add fuel x key y st) (m(unat key \<mapsto> g))"
proof (induction fuel arbitrary: x v m)
  case (Suc fuel)
  note ok = Suc.prems(1)
  show ?case
  proof (cases "x = mtbdd_false")
    case True
    then have e: "m = Map.empty" using bdd_map_empty [OF Suc.prems(3)] by simp
    show ?thesis
      using makemapnode_gives [OF ok bdd_map.map_empty Suc.prems(4,5)] True
      unfolding e by (simp only: mtbdd_map_add.simps mtbdd_map_isempty_def mtbdd_map_empty_def if_True simp_thms)
  next
    case False
    let ?nd = "MTBDD_GETNODE (nodes st) x"
    let ?k = "unat (mtbddnode_getvariable ?nd)"
    obtain m' g' where m: "m = m'(?k \<mapsto> g')" "v \<le> ?k" "?k < 2 ^ 24" "bdd_map (nodes st) (Suc ?k) (mtbddnode_followlow x ?nd) m'"
      "safe st (mtbddnode_followlow x ?nd)" "bdd (nodes st) 0 (mtbdd_gethigh (nodes st) x) g'"
      "safe st (mtbdd_gethigh (nodes st) x)" "\<forall>i \<in> dom m'. ?k < i"
      by (rule map_first [OF Suc.prems(1-3) False])
    have nc: "MTBDD_INDEX x \<noteq> 0" using bdd_map_inner [OF Suc.prems(3) False] by blast
    consider "?k < unat key" | "unat key < ?k" | "?k = unat key" by linarith
    then show ?thesis
    proof cases
      case 1
      have "map_gives st (mtbdd_map_add fuel (mtbddnode_followlow x ?nd) key y st) (m'(unat key \<mapsto> g))"
        by (rule Suc.IH [OF ok m(5,4) Suc.prems(4,5)]) (use m(2,3) Suc.prems(7) in auto)
      from rebuild_map [OF ok Suc.prems(2) nc m(3) m(6,7) this] m(8) 1
      have "map_gives st (bindE (mtbdd_map_add fuel (mtbddnode_followlow x ?nd) key y st) (\<lambda>(low, st).
          mtbdd_makemapnode (mtbddnode_getvariable ?nd) low (mtbdd_gethigh (nodes st) x) st)) (m'(unat key \<mapsto> g, ?k \<mapsto> g'))"
        by simp
      moreover have "m'(unat key \<mapsto> g, ?k \<mapsto> g') = m(unat key \<mapsto> g)" using 1 m(1) by (simp add: fun_upd_twist)
      ultimately show ?thesis
        using 1 False by (simp add: mtbdd_map_isempty_def Let_def word_less_nat_alt del: fun_upd_apply)
    next
      case 2
      have "\<forall>i \<in> dom m'. unat key < i" using m(8) 2 less_trans by blast
      then have "bdd_map (nodes st) (Suc (unat key)) x m"
        by (intro bdd_map_raise [OF Suc.prems(3)]) (use m(1) 2 in \<open>auto simp: Suc_le_eq split: if_splits\<close>)
      from makemapnode_gives [OF ok this Suc.prems(4,5)] show ?thesis
        using 2 False by (simp add: mtbdd_map_isempty_def Let_def word_less_nat_alt del: fun_upd_apply)
    next
      case 3
      have "m'(unat key \<mapsto> g) = m(unat key \<mapsto> g)" using 3 m(1) by simp
      moreover have "map_gives st (mtbdd_makemapnode key (mtbddnode_followlow x ?nd) y st) (m'(unat key \<mapsto> g))"
        by (rule makemapnode_gives [OF ok _ Suc.prems(4,5)]) (use m(4) 3 in simp)
      ultimately show ?thesis
        using 3 False by (simp add: mtbdd_map_isempty_def Let_def word_less_nat_alt del: fun_upd_apply)
    qed
  qed
qed simp

lemma map_update_gives:
  "bdd_ok st \<Longrightarrow> safe st x \<Longrightarrow> safe st y \<Longrightarrow> bdd_map (nodes st) v x m \<Longrightarrow> bdd_map (nodes st) v y m' \<Longrightarrow>
   v \<le> 2 ^ 24 \<Longrightarrow> 2 ^ 24 < v + fuel \<Longrightarrow> map_gives st (mtbdd_map_update fuel x y st) (m ++ m')"
proof (induction fuel arbitrary: x y v m m')
  case (Suc fuel)
  note ok = Suc.prems(1) and now = map_gives_now [OF Suc.prems(1)]
  consider "x = mtbdd_false" | "x \<noteq> mtbdd_false" "y = mtbdd_false" | "x \<noteq> mtbdd_false" "y \<noteq> mtbdd_false" by blast
  then show ?case
  proof cases
    case 1
    then show ?thesis
      using now [OF Suc.prems(5)] bdd_map_empty [OF Suc.prems(4)] by (simp add: mtbdd_map_isempty_def)
  next
    case 2
    then show ?thesis
      using now [OF Suc.prems(4)] bdd_map_empty [OF Suc.prems(5)] by (simp add: mtbdd_map_isempty_def)
  next
    case ne: 3
    let ?n1 = "MTBDD_GETNODE (nodes st) x" and ?n2 = "MTBDD_GETNODE (nodes st) y"
    let ?k1 = "unat (mtbddnode_getvariable ?n1)" and ?k2 = "unat (mtbddnode_getvariable ?n2)"
    obtain t1 g1 where a: "m = t1(?k1 \<mapsto> g1)" "v \<le> ?k1" "?k1 < 2 ^ 24" "bdd_map (nodes st) (Suc ?k1) (mtbddnode_followlow x ?n1) t1"
      "safe st (mtbddnode_followlow x ?n1)" "bdd (nodes st) 0 (mtbdd_gethigh (nodes st) x) g1"
      "safe st (mtbdd_gethigh (nodes st) x)" "\<forall>i \<in> dom t1. ?k1 < i"
      by (rule map_first [OF Suc.prems(1,2,4) ne(1)])
    obtain t2 g2 where b: "m' = t2(?k2 \<mapsto> g2)" "v \<le> ?k2" "?k2 < 2 ^ 24" "bdd_map (nodes st) (Suc ?k2) (mtbddnode_followlow y ?n2) t2"
      "safe st (mtbddnode_followlow y ?n2)" "bdd (nodes st) 0 (mtbdd_gethigh (nodes st) y) g2"
      "safe st (mtbdd_gethigh (nodes st) y)" "\<forall>i \<in> dom t2. ?k2 < i"
      by (rule map_first [OF Suc.prems(1,3,5) ne(2)])
    have nx: "MTBDD_INDEX x \<noteq> 0" and ny: "MTBDD_INDEX y \<noteq> 0"
      using bdd_map_inner [OF Suc.prems(4) ne(1)] bdd_map_inner [OF Suc.prems(5) ne(2)] by blast+
    consider "?k1 < ?k2" | "?k2 < ?k1" | "?k1 = ?k2" by linarith
    then show ?thesis
    proof cases
      case 1
      have d: "\<forall>i \<in> dom (t1 ++ m'). ?k1 < i"
      proof -
        have "\<forall>i \<in> dom t2. ?k1 < i" using b(8) 1 less_trans by blast
        then show ?thesis using a(8) 1 by (auto simp: b(1))
      qed
      have "bdd_map (nodes st) (Suc ?k1) y m'"
        by (rule bdd_map_raise [OF Suc.prems(5)]) (use d in \<open>auto simp: Suc_le_eq\<close>)
      then have "map_gives st (mtbdd_map_update fuel (mtbddnode_followlow x ?n1) y st) (t1 ++ m')"
        by (rule Suc.IH [OF ok a(5) Suc.prems(3) a(4)]) (use a(2,3) Suc.prems(7) in auto)
      note r = rebuild_map [OF ok Suc.prems(2) nx a(3) a(6,7) this d]
      have "?k1 \<notin> dom m'" using d by (metis UnI1 dom_map_add less_irrefl)
      then have "(t1 ++ m')(?k1 \<mapsto> g1) = m ++ m'" unfolding a(1) by (rule map_add_upd_left [symmetric])
      then show ?thesis using r 1 ne by (simp add: mtbdd_map_isempty_def Let_def word_less_nat_alt del: fun_upd_apply)
    next
      case 2
      have d: "\<forall>i \<in> dom (m ++ t2). ?k2 < i"
      proof -
        have "\<forall>i \<in> dom t1. ?k2 < i" using a(8) 2 less_trans by blast
        then show ?thesis using b(8) 2 by (auto simp: a(1))
      qed
      have "bdd_map (nodes st) (Suc ?k2) x m"
        by (rule bdd_map_raise [OF Suc.prems(4)]) (use d in \<open>auto simp: Suc_le_eq\<close>)
      then have "map_gives st (mtbdd_map_update fuel x (mtbddnode_followlow y ?n2) st) (m ++ t2)"
        by (rule Suc.IH [OF ok Suc.prems(2) b(5) _ b(4)]) (use b(2,3) Suc.prems(7) in auto)
      note r = rebuild_map [OF ok Suc.prems(3) ny b(3) b(6,7) this d]
      show ?thesis using r 2 ne b(1) by (simp add: mtbdd_map_isempty_def Let_def word_less_nat_alt del: fun_upd_apply)
    next
      case 3
      have d: "\<forall>i \<in> dom (t1 ++ t2). ?k2 < i" using a(8) b(8) 3 by auto
      have "map_gives st (mtbdd_map_update fuel (mtbddnode_followlow x ?n1) (mtbddnode_followlow y ?n2) st) (t1 ++ t2)"
        by (rule Suc.IH [OF ok a(5) b(5) _ b(4)]) (use a(4) b(2,3) Suc.prems(7) 3 in auto)
      note r = rebuild_map [OF ok Suc.prems(3) ny b(3) b(6,7) this d]
      have "?k2 \<notin> dom t2" using b(8) by blast
      then have "(t1 ++ t2)(?k2 \<mapsto> g2) = m ++ m'"
        by (simp only: a(1) b(1) 3 map_add_upd map_add_upd_left fun_upd_upd simp_thms)
      then show ?thesis using r 3 ne by (simp add: mtbdd_map_isempty_def Let_def word_less_nat_alt del: fun_upd_apply)
    qed
  qed
qed simp

lemma map_remove_gives:
  "bdd_ok st \<Longrightarrow> safe st x \<Longrightarrow> bdd_map (nodes st) v x m \<Longrightarrow> v \<le> 2 ^ 24 \<Longrightarrow> 2 ^ 24 < v + fuel \<Longrightarrow>
   map_gives st (mtbdd_map_remove fuel x key st) (m(unat key := None))"
proof (induction fuel arbitrary: x v m)
  case (Suc fuel)
  note ok = Suc.prems(1) and now = map_gives_now [OF Suc.prems(1)]
  show ?case
  proof (cases "x = mtbdd_false")
    case True
    then have e: "m = Map.empty" using bdd_map_empty [OF Suc.prems(3)] by simp
    have "Map.empty(unat key := None) = Map.empty" by auto
    then show ?thesis using now [OF bdd_map.map_empty] True unfolding e by (simp add: mtbdd_map_isempty_def del: fun_upd_apply)
  next
    case False
    let ?nd = "MTBDD_GETNODE (nodes st) x"
    let ?k = "unat (mtbddnode_getvariable ?nd)"
    obtain m' g' where m: "m = m'(?k \<mapsto> g')" "v \<le> ?k" "?k < 2 ^ 24" "bdd_map (nodes st) (Suc ?k) (mtbddnode_followlow x ?nd) m'"
      "safe st (mtbddnode_followlow x ?nd)" "bdd (nodes st) 0 (mtbdd_gethigh (nodes st) x) g'"
      "safe st (mtbdd_gethigh (nodes st) x)" "\<forall>i \<in> dom m'. ?k < i"
      by (rule map_first [OF Suc.prems(1-3) False])
    have nc: "MTBDD_INDEX x \<noteq> 0" using bdd_map_inner [OF Suc.prems(3) False] by blast
    have out: "i \<notin> dom m' \<Longrightarrow> m'(i := None) = m'" for i by (auto simp: fun_eq_iff)
    consider "?k < unat key" | "unat key < ?k" | "?k = unat key" by linarith
    then show ?thesis
    proof cases
      case 1
      have "map_gives st (mtbdd_map_remove fuel (mtbddnode_followlow x ?nd) key st) (m'(unat key := None))"
        by (rule Suc.IH [OF ok m(5,4)]) (use m(2,3) Suc.prems(5) in auto)
      note r = rebuild_map [OF ok Suc.prems(2) nc m(3) m(6,7) this]
      have d: "\<forall>i \<in> dom (m'(unat key := None)). ?k < i" using m(8) by auto
      have "m'(unat key := None, ?k \<mapsto> g') = m(unat key := None)" using 1 m(1) by (simp add: fun_upd_twist)
      then show ?thesis
        using r [OF d] 1 False by (simp add: mtbdd_map_isempty_def Let_def word_less_nat_alt del: fun_upd_apply)
    next
      case 2
      have "unat key \<notin> dom m'" using m(8) 2 less_asym by blast
      then have "m(unat key := None) = m" using 2 by (auto simp: m(1) fun_eq_iff)
      then show ?thesis
        using now [OF Suc.prems(3)] 2 False by (simp add: mtbdd_map_isempty_def Let_def word_less_nat_alt del: fun_upd_apply)
    next
      case 3
      have "unat key \<notin> dom m'" using m(8) 3 by auto
      then have "m(unat key := None) = m'" using 3 out by (simp add: m(1) del: fun_upd_apply)
      then show ?thesis
        using now [OF m(4)] 3 False by (simp add: mtbdd_map_isempty_def Let_def word_less_nat_alt del: fun_upd_apply)
    qed
  qed
qed simp

lemma map_removeall_gives:
  "bdd_ok st \<Longrightarrow> safe st x \<Longrightarrow> safe st y \<Longrightarrow> bdd_map (nodes st) v x m \<Longrightarrow> is_set (nodes st) vs y \<Longrightarrow>
   \<forall>i \<in> set vs. v \<le> i \<Longrightarrow> v \<le> 2 ^ 24 \<Longrightarrow> 2 ^ 24 < v + fuel \<Longrightarrow>
   map_gives st (mtbdd_map_removeall fuel x y st) (m |` (- set vs))"
proof (induction fuel arbitrary: x y v m vs)
  case (Suc fuel)
  note ok = Suc.prems(1) and now = map_gives_now [OF Suc.prems(1)] and tb = bdd_ok_table [OF Suc.prems(1)]
  consider "x = mtbdd_false" | "x \<noteq> mtbdd_false" "vs = []" | w ws where "x \<noteq> mtbdd_false" "vs = w # ws" by (cases vs) auto
  then show ?case
  proof cases
    case 1
    then show ?thesis
      using now [OF Suc.prems(4)] bdd_map_empty [OF Suc.prems(4)] by (simp add: mtbdd_map_isempty_def)
  next
    case 2
    then show ?thesis
      using now [OF Suc.prems(4)] is_set_true [OF tb Suc.prems(5)] by (simp add: mtbdd_map_isempty_def restrict_map_def)
  next
    case ne: 3
    let ?n1 = "MTBDD_GETNODE (nodes st) x" and ?n2 = "MTBDD_GETNODE (nodes st) y"
    let ?k1 = "unat (mtbddnode_getvariable ?n1)" and ?k2 = "unat (mtbddnode_getvariable ?n2)"
    obtain t1 g1 where a: "m = t1(?k1 \<mapsto> g1)" "v \<le> ?k1" "?k1 < 2 ^ 24" "bdd_map (nodes st) (Suc ?k1) (mtbddnode_followlow x ?n1) t1"
      "safe st (mtbddnode_followlow x ?n1)" "bdd (nodes st) 0 (mtbdd_gethigh (nodes st) x) g1"
      "safe st (mtbdd_gethigh (nodes st) x)" "\<forall>i \<in> dom t1. ?k1 < i"
      by (rule map_first [OF Suc.prems(1,2,4) ne(1)])
    have nx: "MTBDD_INDEX x \<noteq> 0" using bdd_map_inner [OF Suc.prems(4) ne(1)] by blast
    note s = Suc.prems(5) [unfolded ne(2)]
    note sn = set_node [OF tb s] and sh = set_node_held [OF ok Suc.prems(3) s]
    have asc: "\<forall>i \<in> set ws. ?k2 < i" using s sn(3) by (simp add: is_set_def)
    have vs: "set vs = insert ?k2 (set ws)" by (simp add: ne(2) sn(3))
    have v2: "v \<le> ?k2" using Suc.prems(6) vs by simp
    consider "?k1 < ?k2" | "?k2 < ?k1" | "?k1 = ?k2" by linarith
    then show ?thesis
    proof cases
      case 1
      have b: "\<forall>i \<in> set vs. Suc ?k1 \<le> i" using asc 1 vs by auto
      have "map_gives st (mtbdd_map_removeall fuel (mtbddnode_followlow x ?n1) y st) (t1 |` (- set vs))"
        by (rule Suc.IH [OF ok a(5) Suc.prems(3) a(4) Suc.prems(5) b]) (use a(2,3) Suc.prems(8) in auto)
      note r = rebuild_map [OF ok Suc.prems(2) nx a(3) a(6,7) this]
      have d: "\<forall>i \<in> dom (t1 |` (- set vs)). ?k1 < i" using a(8) by auto
      have "?k1 \<notin> set vs" using b by auto
      then have "(t1 |` (- set vs))(?k1 \<mapsto> g1) = m |` (- set vs)" by (auto simp: a(1) restrict_map_def fun_eq_iff)
      then show ?thesis
        using r [OF d] 1 ne(1) sn(2) by (simp add: mtbdd_map_isempty_def Let_def word_less_nat_alt)
    next
      case 2
      have b: "\<forall>i \<in> set ws. Suc ?k2 \<le> i" using asc by auto
      have lt: "\<forall>i \<in> dom t1. ?k2 < i" using a(8) 2 less_trans by blast
      have "bdd_map (nodes st) (Suc ?k2) x m"
        by (rule bdd_map_raise [OF Suc.prems(4)]) (use lt a(1) 2 in \<open>auto simp: Suc_le_eq split: if_splits\<close>)
      then have "map_gives st (mtbdd_map_removeall fuel x (mtbddnode_followhigh y ?n2) st) (m |` (- set ws))"
        by (rule Suc.IH [OF ok Suc.prems(2) sh _ sn(6) b]) (use sn(3,4) v2 Suc.prems(8) in auto)
      moreover have "m |` (- set ws) = m |` (- set vs)"
        using lt 2 unfolding vs a(1) by (auto simp: restrict_map_def fun_eq_iff)
      ultimately show ?thesis
        using 2 ne(1) sn(2) by (simp add: mtbdd_map_isempty_def Let_def word_less_nat_alt)
    next
      case 3
      have b: "\<forall>i \<in> set ws. Suc ?k1 \<le> i" using asc 3 by auto
      have "map_gives st (mtbdd_map_removeall fuel (mtbddnode_followlow x ?n1) (mtbddnode_followhigh y ?n2) st) (t1 |` (- set ws))"
        by (rule Suc.IH [OF ok a(5) sh a(4) sn(6) b]) (use a(2,3) Suc.prems(8) in auto)
      moreover have "t1 |` (- set ws) = m |` (- set vs)"
        using a(8) 3 unfolding vs a(1) by (auto simp: restrict_map_def fun_eq_iff)
      ultimately show ?thesis
        using 3 ne(1) sn(2) by (simp add: mtbdd_map_isempty_def Let_def word_less_nat_alt)
    qed
  qed
qed simp

end
