(* ===== verification/BddSat.thy ===== *)
theory BddSat
  imports MtbddEnum MtbddMaps
begin

text \<open>
  Satisfying assignments in \<open>sylvan_bdd.c\<close>: one of them as an array or as a diagram, all of
  them by a callback, cubes, and the union of a diagram with a cube. Lists of assignments are
  those of \<open>MtbddEnum\<close>. An array is a list, which the code enters from its start; a callback is
  a function of the arrays that it gets and of the state; what \<open>rand\<close> returns is an argument.
\<close>

section \<open>One assignment\<close>

text \<open>The loop of \<open>sylvan_sat_one\<close>, from the current position of the array on.\<close>

fun sat_one_loop :: "llmsset \<Rightarrow> u64 \<Rightarrow> u64 \<Rightarrow> u8 list \<Rightarrow> serror + u8 list" where
  "sat_one_loop n bdd' vars [] = Inl OutOfBounds"
| "sat_one_loop n bdd' vars (_ # str) =
    (let n_vars = MTBDD_GETNODE n vars;
         n_bdd = MTBDD_GETNODE n bdd';
         (c, bdd') =
          (if bdd' = mtbdd_true then (0, bdd')
           else if mtbddnode_getvariable n_bdd \<noteq> mtbddnode_getvariable n_vars then (0, bdd')
           else if mtbddnode_followlow bdd' n_bdd = mtbdd_false then (1, mtbddnode_followhigh bdd' n_bdd)
           else (0, mtbddnode_followlow bdd' n_bdd));
         vars = mtbddnode_followhigh vars n_vars
     in if mtbdd_set_isempty vars then Inr (c # str)
        else bindE (sat_one_loop n bdd' vars str) (\<lambda>str. Inr (c # str)))"

definition sylvan_sat_one :: "llmsset \<Rightarrow> u64 \<Rightarrow> u64 \<Rightarrow> u8 list option \<Rightarrow> serror + (nat \<times> u8 list option)" where
  "sylvan_sat_one n bdd' vars str =
    (if bdd' = mtbdd_false then Inr (0, str)
     else case str of None \<Rightarrow> Inr (0, str)
     | Some arr \<Rightarrow>
        if mtbdd_set_isempty vars then Inr (1, str)
        else bindE (sat_one_loop n bdd' vars arr) (\<lambda>arr. Inr (1, Some arr)))"

primrec sylvan_sat_single :: "nat \<Rightarrow> u64 \<Rightarrow> u64 \<Rightarrow> sylvan \<Rightarrow> serror + (u64 \<times> sylvan)" where
  "sylvan_sat_single 0 bdd' vars st = Inl OutOfFuel"
| "sylvan_sat_single (Suc fuel) bdd' vars st =
    (if bdd' = mtbdd_false then Inr (mtbdd_false, st)
     else if mtbdd_set_isempty vars then
       (if bdd' = mtbdd_true then Inr (mtbdd_true, st) else Inl AssertFail)
     else
     let n_vars = MTBDD_GETNODE (nodes st) vars;
         var = mtbddnode_getvariable n_vars;
         next_vars = mtbddnode_followhigh vars n_vars
     in if bdd' = mtbdd_true then
          bindE (sylvan_sat_single fuel bdd' next_vars st) (\<lambda>(res, st). mtbdd_makenode var res mtbdd_false st)
        else
        let n_bdd = MTBDD_GETNODE (nodes st) bdd'
        in if mtbddnode_getvariable n_bdd \<noteq> var then
             (if mtbddnode_getvariable n_bdd > var then
                bindE (sylvan_sat_single fuel bdd' next_vars st) (\<lambda>(res, st). mtbdd_makenode var res mtbdd_false st)
              else Inl AssertFail)
           else if mtbddnode_followhigh bdd' n_bdd = mtbdd_false then
             bindE (sylvan_sat_single fuel (mtbddnode_followlow bdd' n_bdd) next_vars st) (\<lambda>(res, st).
               mtbdd_makenode var res mtbdd_false st)
           else
             bindE (sylvan_sat_single fuel (mtbddnode_followhigh bdd' n_bdd) next_vars st) (\<lambda>(res, st).
               mtbdd_makenode var mtbdd_false res st))"

text \<open>\<open>rand k\<close> is what the \<open>k\<close>-th call of \<open>rand\<close> returns.\<close>

primrec sylvan_sat_one_bdd :: "nat \<Rightarrow> (nat \<Rightarrow> u32) \<Rightarrow> nat \<Rightarrow> u64 \<Rightarrow> sylvan \<Rightarrow> serror + (u64 \<times> sylvan)" where
  "sylvan_sat_one_bdd 0 rand k bdd' st = Inl OutOfFuel"
| "sylvan_sat_one_bdd (Suc fuel) rand k bdd' st =
    (if bdd' = mtbdd_false then Inr (mtbdd_false, st)
     else if bdd' = mtbdd_true then Inr (mtbdd_true, st)
     else
     let node = MTBDD_GETNODE (nodes st) bdd';
         low = mtbddnode_followlow bdd' node;
         high = mtbddnode_followhigh bdd' node;
         var = mtbddnode_getvariable node
     in if low = mtbdd_false then
          bindE (sylvan_sat_one_bdd fuel rand k high st) (\<lambda>(m, st). mtbdd_makenode var mtbdd_false m st)
        else if high = mtbdd_false then
          bindE (sylvan_sat_one_bdd fuel rand k low st) (\<lambda>(m, st). mtbdd_makenode var m mtbdd_false st)
        else if rand k AND 0x2000 \<noteq> 0 then
          bindE (sylvan_sat_one_bdd fuel rand (k + 1) low st) (\<lambda>(m, st). mtbdd_makenode var m mtbdd_false st)
        else
          bindE (sylvan_sat_one_bdd fuel rand (k + 1) high st) (\<lambda>(m, st). mtbdd_makenode var mtbdd_false m st))"

section \<open>Cubes\<close>

fun sylvan_cube :: "u64 \<Rightarrow> u8 list \<Rightarrow> sylvan \<Rightarrow> serror + (u64 \<times> sylvan)" where
  "sylvan_cube vars [] st = (if mtbdd_set_isempty vars then Inr (mtbdd_true, st) else Inl OutOfBounds)"
| "sylvan_cube vars (c # cube) st =
    (if mtbdd_set_isempty vars then Inr (mtbdd_true, st)
     else
       let n = MTBDD_GETNODE (nodes st) vars;
           v = mtbddnode_getvariable n
       in bindE (sylvan_cube (mtbddnode_followhigh vars n) cube st) (\<lambda>(result, st).
            if c = 0 then mtbdd_makenode v result mtbdd_false st
            else if c = 1 then mtbdd_makenode v mtbdd_false result st
            else Inr (result, st)))"

text \<open>The loop that drops the variables that the cube leaves open.\<close>

fun union_skip :: "llmsset \<Rightarrow> u64 \<Rightarrow> u8 list \<Rightarrow> serror + (u64 \<times> u8 list)" where
  "union_skip n vars [] = Inl OutOfBounds"
| "union_skip n vars (c # cube) =
    (if c = 0 \<or> c = 1 then Inr (vars, c # cube)
     else
       let vars = mtbddnode_followhigh vars (MTBDD_GETNODE n vars)
       in if mtbdd_set_isempty vars then Inr (vars, cube) else union_skip n vars cube)"

primrec sylvan_union_cube :: "nat \<Rightarrow> u64 \<Rightarrow> u64 \<Rightarrow> u8 list \<Rightarrow> sylvan \<Rightarrow> serror + (u64 \<times> sylvan)" where
  "sylvan_union_cube 0 bdd' vars cube st = Inl OutOfFuel"
| "sylvan_union_cube (Suc fuel) bdd' vars cube st =
    (if bdd' = mtbdd_true then Inr (mtbdd_true, st)
     else if bdd' = mtbdd_false then sylvan_cube vars cube st
     else if mtbdd_set_isempty vars then Inr (mtbdd_true, st)
     else bindE (union_skip (nodes st) vars cube) (\<lambda>(vars, cube).
     if mtbdd_set_isempty vars then Inr (mtbdd_true, st)
     else
     let nv = MTBDD_GETNODE (nodes st) vars;
         n = MTBDD_GETNODE (nodes st) bdd';
         v = mtbddnode_getvariable nv;
         n_level = mtbddnode_getvariable n;
         next_vars = mtbddnode_followhigh vars nv;
         high = mtbddnode_followhigh bdd' n;
         low = mtbddnode_followlow bdd' n
     in if v < n_level then
          bindE (sylvan_union_cube fuel bdd' next_vars (tl cube) st) (\<lambda>(result, st).
            if hd cube = 0 then mtbdd_makenode v result bdd' st else mtbdd_makenode v bdd' result st)
        else if v > n_level then
          bindE (sylvan_union_cube fuel low vars cube st) (\<lambda>(new_low, st).
          bindE (pushed new_low (sylvan_union_cube fuel high vars cube) st) (\<lambda>(new_high, st).
            if new_low \<noteq> low \<or> new_high \<noteq> high then mtbdd_makenode n_level new_low new_high st
            else Inr (bdd', st)))
        else if hd cube = 0 then
          bindE (sylvan_union_cube fuel low next_vars (tl cube) st) (\<lambda>(new_low, st).
            if new_low \<noteq> low then mtbdd_makenode n_level new_low high st else Inr (bdd', st))
        else
          bindE (sylvan_union_cube fuel high next_vars (tl cube) st) (\<lambda>(new_high, st).
            if new_high \<noteq> high then mtbdd_makenode n_level low new_high st else Inr (bdd', st))))"

section \<open>All assignments\<close>

text \<open>
  A path is the list of the variables and values from the current node up. The callback of
  \<open>sylvan_enum\<close> gets the variables, the values, and its context, and may change the state.
\<close>

type_synonym 'c enum_cb = "u32 list \<Rightarrow> u8 list \<Rightarrow> 'c \<times> sylvan \<Rightarrow> serror + ('c \<times> sylvan)"

definition enum_call :: "'c enum_cb \<Rightarrow> (u32 \<times> u8) list \<Rightarrow> 'c \<times> sylvan \<Rightarrow> serror + ('c \<times> sylvan)" where
  "enum_call cb path s = (if path = [] then Inr s else cb (rev (map fst path)) (rev (map snd path)) s)"

primrec sylvan_enum_do :: "nat \<Rightarrow> u64 \<Rightarrow> u64 \<Rightarrow> 'c enum_cb \<Rightarrow> (u32 \<times> u8) list \<Rightarrow> 'c \<times> sylvan \<Rightarrow> serror + ('c \<times> sylvan)" where
  "sylvan_enum_do 0 bdd' vars cb path s = Inl OutOfFuel"
| "sylvan_enum_do (Suc fuel) bdd' vars cb path s =
    (if bdd' = mtbdd_false then Inr s
     else if mtbdd_set_isempty vars then
       (if bdd' = mtbdd_true then enum_call cb path s else Inl AssertFail)
     else
     let var = mtbdd_getvar (nodes (snd s)) vars;
         vars = mtbdd_set_next (nodes (snd s)) vars;
         bdd_var = mtbdd_getvar (nodes (snd s)) bdd'
     in if bdd' = mtbdd_true \<or> var < bdd_var then
          bindE (sylvan_enum_do fuel bdd' vars cb ((var, 0) # path) s) (\<lambda>s.
            sylvan_enum_do fuel bdd' vars cb ((var, 1) # path) s)
        else if var = bdd_var then
          bindE (sylvan_enum_do fuel (mtbdd_getlow (nodes (snd s)) bdd') vars cb ((var, 0) # path) s) (\<lambda>s.
            sylvan_enum_do fuel (mtbdd_gethigh (nodes (snd s)) bdd') vars cb ((var, 1) # path) s)
        else Inl AssertFail)"

text \<open>The parallel form spawns the high branch and runs it last; it does not test for true.\<close>

primrec sylvan_enum_par_do :: "nat \<Rightarrow> u64 \<Rightarrow> u64 \<Rightarrow> 'c enum_cb \<Rightarrow> (u32 \<times> u8) list \<Rightarrow> 'c \<times> sylvan \<Rightarrow> serror + ('c \<times> sylvan)" where
  "sylvan_enum_par_do 0 bdd' vars cb path s = Inl OutOfFuel"
| "sylvan_enum_par_do (Suc fuel) bdd' vars cb path s =
    (if bdd' = mtbdd_false then Inr s
     else if mtbdd_set_isempty vars then
       (if bdd' = mtbdd_true then enum_call cb path s else Inl AssertFail)
     else
     let var = mtbdd_getvar (nodes (snd s)) vars;
         vars = mtbdd_set_next (nodes (snd s)) vars;
         bdd_var = mtbdd_getvar (nodes (snd s)) bdd'
     in if var < bdd_var then
          bindE (sylvan_enum_par_do fuel bdd' vars cb ((var, 0) # path) s) (\<lambda>s.
            sylvan_enum_par_do fuel bdd' vars cb ((var, 1) # path) s)
        else if var = bdd_var then
          let high = mtbdd_gethigh (nodes (snd s)) bdd'
          in bindE (sylvan_enum_par_do fuel (mtbdd_getlow (nodes (snd s)) bdd') vars cb ((var, 0) # path) s) (\<lambda>s.
               sylvan_enum_par_do fuel high vars cb ((var, 1) # path) s)
        else Inl AssertFail)"

definition sylvan_enum :: "nat \<Rightarrow> u64 \<Rightarrow> u64 \<Rightarrow> 'c enum_cb \<Rightarrow> 'c \<times> sylvan \<Rightarrow> serror + ('c \<times> sylvan)" where
  "sylvan_enum fuel bdd' vars cb s = sylvan_enum_do fuel bdd' vars cb [] s"

definition sylvan_enum_par :: "nat \<Rightarrow> u64 \<Rightarrow> u64 \<Rightarrow> 'c enum_cb \<Rightarrow> 'c \<times> sylvan \<Rightarrow> serror + ('c \<times> sylvan)" where
  "sylvan_enum_par fuel bdd' vars cb s = sylvan_enum_par_do fuel bdd' vars cb [] s"

text \<open>The callback of \<open>sylvan_collect\<close> gets the values and returns a diagram.\<close>

primrec sylvan_collect_do :: "nat \<Rightarrow> u64 \<Rightarrow> u64 \<Rightarrow> (u8 list \<Rightarrow> sylvan \<Rightarrow> serror + (u64 \<times> sylvan)) \<Rightarrow> (u32 \<times> u8) list \<Rightarrow>
    sylvan \<Rightarrow> serror + (u64 \<times> sylvan)" where
  "sylvan_collect_do 0 bdd' vars cb path st = Inl OutOfFuel"
| "sylvan_collect_do (Suc fuel) bdd' vars cb path st =
    (if bdd' = mtbdd_false then Inr (mtbdd_false, st)
     else if mtbdd_set_isempty vars then cb (rev (map snd path)) st
     else
     let dom_var = mtbdd_getvar (nodes st) vars;
         dom_next = mtbdd_set_next (nodes st) vars;
         bdd_var = mtbdd_getvar (nodes st) bdd'
     in if bdd' \<noteq> mtbdd_true \<and> \<not> dom_var \<le> bdd_var then Inl AssertFail
        else
        let (bdd0, bdd1) =
          (if bdd' = mtbdd_true \<or> dom_var < bdd_var then (bdd', bdd')
           else (mtbdd_getlow (nodes st) bdd', mtbdd_gethigh (nodes st) bdd'))
        in bindE (sylvan_collect_do fuel bdd0 dom_next cb ((dom_var, 0) # path) st) (\<lambda>(low, st).
             pushed low (\<lambda>st. bindE (sylvan_collect_do fuel bdd1 dom_next cb ((dom_var, 1) # path) st) (\<lambda>(high, st).
               pushed high (sylvan_or set_fuel low high) st)) st))"

definition sylvan_collect :: "nat \<Rightarrow> u64 \<Rightarrow> u64 \<Rightarrow> (u8 list \<Rightarrow> sylvan \<Rightarrow> serror + (u64 \<times> sylvan)) \<Rightarrow>
    sylvan \<Rightarrow> serror + (u64 \<times> sylvan)" where
  "sylvan_collect fuel bdd' vars cb st = sylvan_collect_do fuel bdd' vars cb [] st"

section \<open>A level of the search\<close>

lemma depends_indep: "depends_on f S \<Longrightarrow> \<forall>i \<in> S. v \<le> i \<Longrightarrow> indep v f"
  by (auto simp: depends_on_def indep_def)

text \<open>The diagram has the first variable of the set, or does not depend on it.\<close>

lemma sat_level:
  assumes tb: "table_ok n" and x: "is_set n (v # vs) x" and b: "bdd n 0 dd f" and d: "depends_on f (set (v # vs))"
    and nf: "dd \<noteq> mtbdd_false"
  shows "dd = mtbdd_true \<or> mtbdd_getvar n dd \<noteq> mtbdd_getvar n x \<Longrightarrow> cof f v t = f"
    "dd \<noteq> mtbdd_true \<Longrightarrow> mtbdd_getvar n dd \<noteq> mtbdd_getvar n x \<Longrightarrow> mtbdd_getvar n x < mtbdd_getvar n dd"
    "dd \<noteq> mtbdd_true \<Longrightarrow> mtbdd_getvar n dd = mtbdd_getvar n x \<Longrightarrow> bdd n 0 (mtbdd_getlow n dd) (cof f v False)"
    "dd \<noteq> mtbdd_true \<Longrightarrow> mtbdd_getvar n dd = mtbdd_getvar n x \<Longrightarrow> bdd n 0 (mtbdd_gethigh n dd) (cof f v True)"
    "dd \<noteq> mtbdd_true \<Longrightarrow> mtbdd_getvar n dd = mtbdd_getvar n x \<Longrightarrow> mtbdd_getlow n dd \<noteq> mtbdd_gethigh n dd"
proof -
  note sn = set_node [OF tb x]
  have nc: "dd \<noteq> mtbdd_true \<Longrightarrow> MTBDD_INDEX dd \<noteq> 0" using bdd_nonconst [OF b] nf by blast
  note ec = enum_cofactors_correct [OF tb x b nc d]
  have same: "dd \<noteq> mtbdd_true \<Longrightarrow> mtbdd_getvar n dd \<noteq> mtbdd_getvar n x \<Longrightarrow> cof f v t = f" for t
  proof -
    assume a: "dd \<noteq> mtbdd_true" "mtbdd_getvar n dd \<noteq> mtbdd_getvar n x"
    then have "enum_cofactors n dd x = (dd, dd)" by (simp add: enum_cofactors_def mtbdd_getvar_def)
    note ec = ec [OF a(1) this]
    show "cof f v t = f" using bdd_fun [OF ec(1) b] bdd_fun [OF ec(2) b] by (cases t) simp_all
  qed
  show "cof f v t = f" if "dd = mtbdd_true \<or> mtbdd_getvar n dd \<noteq> mtbdd_getvar n x"
  proof (cases "dd = mtbdd_true")
    case True
    then have "f = (\<lambda>_. True)" using b by (simp add: bdd_true_iff)
    then show ?thesis by (simp add: cof_def)
  qed (use that same in blast)
  show "mtbdd_getvar n x < mtbdd_getvar n dd" if a: "dd \<noteq> mtbdd_true" "mtbdd_getvar n dd \<noteq> mtbdd_getvar n x"
  proof -
    have "v \<notin> set vs" "\<forall>i \<in> set vs. Suc v \<le> i" using x by (auto simp: is_set_def Suc_le_eq)
    moreover have "depends_on (cof f v False) (set vs)" using d by (auto intro: depends_cof)
    ultimately have "indep (Suc v) f" using same [OF a, of False] depends_indep by metis
    from bdd_inner(1) [OF bdd_level [OF tb b this] nc [OF a(1)]]
    show ?thesis using sn(3) by (simp add: mtbdd_getvar_def top_var_node word_less_nat_alt)
  qed
  assume a: "dd \<noteq> mtbdd_true" "mtbdd_getvar n dd = mtbdd_getvar n x"
  then have e: "enum_cofactors n dd x = (mtbdd_getlow n dd, mtbdd_gethigh n dd)"
    by (simp add: enum_cofactors_def mtbdd_getvar_def mtbdd_getlow_def mtbdd_gethigh_def Let_def)
  from ec [OF a(1) e] show "bdd n 0 (mtbdd_getlow n dd) (cof f v False)" "bdd n 0 (mtbdd_gethigh n dd) (cof f v True)"
    by auto
  show "mtbdd_getlow n dd \<noteq> mtbdd_gethigh n dd"
    using bdd_inner(7) [OF b nc [OF a(1)]] by (simp add: mtbdd_getlow_def mtbdd_gethigh_def follow_eq)
qed

section \<open>The first assignment\<close>

lemma hd_sats:
  assumes "depends_on f (set (v # vs))"
  shows "hd (sats f (v # vs)) = (if cof f v False \<noteq> (\<lambda>_. False) then 0 # hd (sats (cof f v False) vs)
    else hd (map ((#) 1) (sats (cof f v True) vs)))"
proof -
  have "depends_on (cof f v False) (set vs)" using assms by (auto intro: depends_cof)
  from sats_Nil_iff [OF this] show ?thesis by (auto simp: hd_append hd_map)
qed

lemma sat_one_loop_correct:
  "table_ok n \<Longrightarrow> is_set n vs x \<Longrightarrow> bdd n 0 dd f \<Longrightarrow> depends_on f (set vs) \<Longrightarrow> dd \<noteq> mtbdd_false \<Longrightarrow> vs \<noteq> [] \<Longrightarrow>
   length vs \<le> length str \<Longrightarrow> sat_one_loop n dd x str = Inr (hd (sats f vs) @ drop (length vs) str)"
proof (induction vs arbitrary: x dd f str)
  case (Cons v vs)
  note tb = Cons.prems(1)
  obtain c cs where str: "str = c # cs" "length vs \<le> length cs" using Cons.prems(7) by (cases str) auto
  note sn = set_node [OF tb Cons.prems(2)]
  note sl = sat_level [OF tb Cons.prems(2,3,4,5)]
  have ff: "f \<noteq> (\<lambda>_. False)" using bdd_false_fun [OF tb Cons.prems(3)] Cons.prems(5) by blast
  have dep: "depends_on (cof f v b) (set vs)" for b using Cons.prems(4) by (auto intro: depends_cof)
  have ne: "mtbdd_set_isempty (mtbddnode_followhigh x (MTBDD_GETNODE n x)) \<longleftrightarrow> vs = []"
    using is_set_true [OF tb sn(6)] by (simp add: mtbdd_set_isempty_def)
  define pair where "pair = (if dd = mtbdd_true then (0 :: u8, dd)
      else if mtbdd_getvar n dd \<noteq> mtbdd_getvar n x then (0, dd)
      else if mtbdd_getlow n dd = mtbdd_false then (1, mtbdd_gethigh n dd) else (0, mtbdd_getlow n dd))"
  obtain e dd' where p: "pair = (e, dd')" by fastforce
  have run: "sat_one_loop n dd x str = (if mtbdd_set_isempty (mtbddnode_followhigh x (MTBDD_GETNODE n x)) then Inr (e # cs)
      else bindE (sat_one_loop n dd' (mtbddnode_followhigh x (MTBDD_GETNODE n x)) cs) (\<lambda>str. Inr (e # str)))"
    using p unfolding str pair_def mtbdd_getvar_def mtbdd_getlow_def mtbdd_gethigh_def by (simp add: Let_def)
  have st: "bdd n 0 dd' (cof f v (e = 1)) \<and> dd' \<noteq> mtbdd_false \<and> (e = 0 \<or> e = 1) \<and> (e = 1 \<longrightarrow> cof f v False = (\<lambda>_. False))"
  proof -
    consider "dd = mtbdd_true \<or> mtbdd_getvar n dd \<noteq> mtbdd_getvar n x"
      | "dd \<noteq> mtbdd_true" "mtbdd_getvar n dd = mtbdd_getvar n x" "mtbdd_getlow n dd = mtbdd_false"
      | "dd \<noteq> mtbdd_true" "mtbdd_getvar n dd = mtbdd_getvar n x" "mtbdd_getlow n dd \<noteq> mtbdd_false" by blast
    then show ?thesis
    proof cases
      case 1
      then have "pair = (0, dd)" by (auto simp: pair_def)
      then show ?thesis using p sl(1) [OF 1] Cons.prems(3,5) by simp
    next
      case 2
      then show ?thesis using p sl(4,5) bdd_false_fun [OF tb sl(3)] by (auto simp: pair_def)
    next
      case 3
      then show ?thesis using p sl(3) by (auto simp: pair_def)
    qed
  qed
  have c0: "cof f v (e = 1) \<noteq> (\<lambda>_. False)" using bdd_false_fun [OF tb] st by blast
  have nn: "sats (cof f v (e = 1)) vs \<noteq> []" using sats_Nil_iff [OF dep] c0 by blast
  have h: "hd (sats f (v # vs)) = e # hd (sats (cof f v (e = 1)) vs)"
    unfolding hd_sats [OF Cons.prems(4)] using st c0 nn by (auto simp: hd_map)
  show ?case
  proof (cases "vs = []")
    case True
    then have "sats (cof f v (e = 1)) vs = [[]]" using nn by (auto split: if_splits)
    then show ?thesis unfolding run h using ne True by (simp add: str(1))
  next
    case False
    have "sat_one_loop n dd' (mtbddnode_followhigh x (MTBDD_GETNODE n x)) cs = Inr (hd (sats (cof f v (e = 1)) vs) @ drop (length vs) cs)"
      by (rule Cons.IH [OF tb sn(6) _ dep _ False str(2)]) (use st in blast)+
    then show ?thesis unfolding run h using ne False by (simp add: str(1))
  qed
qed simp

lemma sat_one_correct:
  assumes "table_ok n" "is_set n vs x" "bdd n 0 dd f" "depends_on f (set vs)" "length vs \<le> length str"
  shows "sylvan_sat_one n dd x (Some str) =
    (if f = (\<lambda>_. False) then Inr (0, Some str) else Inr (1, Some (hd (sats f vs) @ drop (length vs) str)))"
proof (cases "vs = []")
  case True
  have "f = (\<lambda>_. f (\<lambda>_. False))" using assms(4) True by (intro depends_none) simp
  then show ?thesis
    using True is_set_true [OF assms(1,2)] bdd_false_fun [OF assms(1,3)]
    by (auto simp: sylvan_sat_one_def mtbdd_set_isempty_def fun_eq_iff)
next
  case False
  then show ?thesis
    using is_set_true [OF assms(1,2)] bdd_false_fun [OF assms(1,3)] sat_one_loop_correct [OF assms(1-4) _ False assms(5)]
    by (auto simp: sylvan_sat_one_def mtbdd_set_isempty_def)
qed

section \<open>A single assignment as a diagram\<close>

text \<open>The assignment that \<open>sylvan_sat_single\<close> takes: true where the function depends on the variable and can be true.\<close>

fun single :: "bfun \<Rightarrow> nat list \<Rightarrow> u8 list" where
  "single f [] = []"
| "single f (v # vs) =
    (if cof f v True \<noteq> cof f v False \<and> cof f v True \<noteq> (\<lambda>_. False) then 1 # single (cof f v True) vs
     else 0 # single (cof f v False) vs)"

lemma single_literals: "literals (single f vs) vs"
proof (induction vs arbitrary: f)
  case (Cons v vs)
  show ?case using Cons [of "cof f v True"] Cons [of "cof f v False"] by (auto simp: literals_def)
qed (simp add: literals_def)

lemma single_sat: "depends_on f (set vs) \<Longrightarrow> f \<noteq> (\<lambda>_. False) \<Longrightarrow> single f vs \<in> set (sats f vs)"
proof (induction vs arbitrary: f)
  case Nil
  then show ?case using depends_none [of f] by (auto simp: fun_eq_iff)
next
  case (Cons v vs)
  have d: "depends_on (cof f v b) (set vs)" for b using Cons.prems(1) by (auto intro: depends_cof)
  have "cof f v True \<noteq> (\<lambda>_. False) \<or> cof f v False \<noteq> (\<lambda>_. False)"
  proof (rule ccontr)
    assume "\<not> (cof f v True \<noteq> (\<lambda>_. False) \<or> cof f v False \<noteq> (\<lambda>_. False))"
    then have "(\<lambda>\<sigma>. if \<sigma> v then cof f v True \<sigma> else cof f v False \<sigma>) = (\<lambda>_. False)" by simp
    then show False using Cons.prems(2) unfolding shannon by contradiction
  qed
  then show ?case
    using Cons.IH [OF d, of True] Cons.IH [OF d, of False] by (cases "cof f v True = cof f v False") auto
qed

lemma single_node:
  assumes ok: "bdd_ok st" and x: "is_set (nodes st) (v # vs) x" and l: "literals a vs"
    and m: "gives keep st m (\<lambda>h. h = cube_sem vs a (\<lambda>_. True))"
  defines "var \<equiv> mtbddnode_getvariable (MTBDD_GETNODE (nodes st) x)"
  shows "gives keep st (bindE m (\<lambda>(res, st). mtbdd_makenode var res mtbdd_false st)) (\<lambda>h. h = cube_sem (v # vs) (0 # a) (\<lambda>_. True))"
    "gives keep st (bindE m (\<lambda>(res, st). mtbdd_makenode var mtbdd_false res st)) (\<lambda>h. h = cube_sem (v # vs) (1 # a) (\<lambda>_. True))"
proof -
  note sn = set_node [OF bdd_ok_table [OF ok] x, folded var_def]
  have "\<forall>i \<in> set vs. Suc v \<le> i" using x by (simp add: is_set_def Suc_le_eq)
  then have i: "indep (Suc (unat var)) (cube_sem vs a (\<lambda>_. True))" using indep_cube_sem [OF l] sn(3) by simp
  have "unat var < 2 ^ 24" using sn(3,4) by simp
  from gc.literal_nodes [OF m i this] sn(3)
  show "gives keep st (bindE m (\<lambda>(res, st). mtbdd_makenode var res mtbdd_false st)) (\<lambda>h. h = cube_sem (v # vs) (0 # a) (\<lambda>_. True))"
    "gives keep st (bindE m (\<lambda>(res, st). mtbdd_makenode var mtbdd_false res st)) (\<lambda>h. h = cube_sem (v # vs) (1 # a) (\<lambda>_. True))"
    by simp_all
qed

lemma safe_edges:
  "bdd_ok st \<Longrightarrow> safe st dd \<Longrightarrow> bdd (nodes st) v dd f \<Longrightarrow> dd \<noteq> mtbdd_true \<Longrightarrow> dd \<noteq> mtbdd_false \<Longrightarrow>
   safe st (mtbdd_getlow (nodes st) dd) \<and> safe st (mtbdd_gethigh (nodes st) dd)"
  using safe_follow bdd_nonconst by (simp add: mtbdd_getlow_def mtbdd_gethigh_def)

lemma sat_single_gives:
  "bdd_ok st \<Longrightarrow> safe st dd \<Longrightarrow> safe st x \<Longrightarrow> is_set (nodes st) vs x \<Longrightarrow> bdd (nodes st) 0 dd f \<Longrightarrow>
   depends_on f (set vs) \<Longrightarrow> dd \<noteq> mtbdd_false \<Longrightarrow> length vs < fuel \<Longrightarrow>
   gives keep st (sylvan_sat_single fuel dd x st) (\<lambda>h. h = cube_sem vs (single f vs) (\<lambda>_. True))"
proof (induction fuel arbitrary: dd x vs f)
  case (Suc fuel)
  note ok = Suc.prems(1) and now = gc.gives_now [OF Suc.prems(1)] and tb = bdd_ok_table [OF Suc.prems(1)]
  show ?case
  proof (cases vs)
    case Nil
    have "f = (\<lambda>_. f (\<lambda>_. False))" using Suc.prems(6) Nil by (intro depends_none) simp
    moreover have "f \<noteq> (\<lambda>_. False)" using bdd_false_fun [OF tb Suc.prems(5)] Suc.prems(7) by blast
    ultimately have "f = (\<lambda>_. True)" by (auto simp: fun_eq_iff)
    then have "dd = mtbdd_true" using bdd_canonical [OF tb Suc.prems(5)] bdd.bdd_true by blast
    then show ?thesis
      using Nil is_set_true [OF tb Suc.prems(4)] now [OF bdd.bdd_true] by (simp add: mtbdd_set_isempty_def)
  next
    case (Cons v ws)
    note s = Suc.prems(4) [unfolded Cons]
    note sn = set_node [OF tb s] and sh = set_node_held [OF ok Suc.prems(3) s]
    note dep = Suc.prems(6) [unfolded Cons]
    note sl = sat_level [OF tb s Suc.prems(5) dep Suc.prems(7), unfolded mtbdd_getvar_def mtbdd_getlow_def mtbdd_gethigh_def]
    note se = safe_edges [OF ok Suc.prems(2,5) _ Suc.prems(7), unfolded mtbdd_getlow_def mtbdd_gethigh_def]
    have d: "depends_on (cof f v b) (set ws)" for b using dep by (auto intro: depends_cof)
    have ne: "\<not> mtbdd_set_isempty x" using sn(2) by (simp add: mtbdd_set_isempty_def)
    have len: "length ws < fuel" using Suc.prems(8) Cons by simp
    note node = single_node [OF ok s single_literals]
    let ?nx = "mtbddnode_followhigh x (MTBDD_GETNODE (nodes st) x)"
    let ?vd = "mtbddnode_getvariable (MTBDD_GETNODE (nodes st) dd)" and ?vx = "mtbddnode_getvariable (MTBDD_GETNODE (nodes st) x)"
    let ?lo = "mtbddnode_followlow dd (MTBDD_GETNODE (nodes st) dd)" and ?hi = "mtbddnode_followhigh dd (MTBDD_GETNODE (nodes st) dd)"
    consider "dd = mtbdd_true \<or> ?vd \<noteq> ?vx" | "dd \<noteq> mtbdd_true" "?vd = ?vx" "?hi = mtbdd_false"
      | "dd \<noteq> mtbdd_true" "?vd = ?vx" "?hi \<noteq> mtbdd_false" by blast
    then show ?thesis
    proof cases
      case 1
      note c = sl(1) [OF 1]
      have "gives keep st (sylvan_sat_single fuel dd ?nx st) (\<lambda>h. h = cube_sem ws (single f ws) (\<lambda>_. True))"
        by (rule Suc.IH [OF ok Suc.prems(2) sh sn(6) Suc.prems(5) _ Suc.prems(7) len]) (use d c in metis)
      note node = node(1) [OF this]
      have "single f (v # ws) = 0 # single f ws" by (simp add: c)
      then show ?thesis
        using node ne 1 sl(2) Suc.prems(7) Cons by (auto simp: Let_def)
    next
      case 2
      note c = sl(3,4,5) [OF 2(1,2)] and se = se [OF 2(1)]
      have "gives keep st (sylvan_sat_single fuel ?lo ?nx st) (\<lambda>h. h = cube_sem ws (single (cof f v False) ws) (\<lambda>_. True))"
        by (rule Suc.IH [OF ok _ sh sn(6) c(1) d _ len]) (use se c(3) 2(3) in auto)
      note node = node(1) [OF this]
      have "cof f v True = (\<lambda>_. False)" using bdd_false_fun [OF tb c(2)] 2(3) by blast
      then have "single f (v # ws) = 0 # single (cof f v False) ws" by simp
      then show ?thesis using node ne 2 Suc.prems(7) Cons by (simp add: Let_def)
    next
      case 3
      note c = sl(3,4,5) [OF 3(1,2)] and se = se [OF 3(1)]
      have "gives keep st (sylvan_sat_single fuel ?hi ?nx st) (\<lambda>h. h = cube_sem ws (single (cof f v True) ws) (\<lambda>_. True))"
        by (rule Suc.IH [OF ok _ sh sn(6) c(2) d 3(3) len]) (use se in auto)
      note node = node(2) [OF this]
      have "cof f v True \<noteq> (\<lambda>_. False)" using bdd_false_fun [OF tb c(2)] 3(3) by blast
      moreover have "cof f v True \<noteq> cof f v False" using bdd_canonical [OF tb c(1), of 0 ?hi] c(2,3) by metis
      ultimately have "single f (v # ws) = 1 # single (cof f v True) ws" by simp
      then show ?thesis using node ne 3 Suc.prems(7) Cons by (simp add: Let_def)
    qed
  qed
qed simp

section \<open>Some assignment, chosen by \<open>rand\<close>\<close>

text \<open>\<open>h\<close> is a conjunction of literals that implies \<open>f\<close>.\<close>

definition implicant :: "bfun \<Rightarrow> bfun \<Rightarrow> bool" where
  "implicant f h \<longleftrightarrow> (\<exists>S t. finite S \<and> h = (\<lambda>\<sigma>. \<forall>i \<in> S. \<sigma> i = t i)) \<and> (\<forall>\<sigma>. h \<sigma> \<longrightarrow> f \<sigma>) \<and> (\<forall>v. indep v f \<longrightarrow> indep v h)"

lemma implicant_literal:
  assumes h: "implicant (cof f i b) h" and i: "indep (Suc i) h" and top: "\<And>v. indep v f \<Longrightarrow> v \<le> i"
  shows "implicant f (\<lambda>\<sigma>. \<sigma> i = b \<and> h \<sigma>)"
  unfolding implicant_def
proof (intro conjI allI impI)
  obtain S t where S: "finite S" "h = (\<lambda>\<sigma>. \<forall>i \<in> S. \<sigma> i = t i)" using h unfolding implicant_def by blast
  have flip: "h \<sigma> = h (\<sigma>(i := c))" for \<sigma> c by (rule indepD [OF i]) simp
  have "(\<sigma> i = b \<and> h \<sigma>) \<longleftrightarrow> (\<forall>j \<in> insert i (S - {i}). \<sigma> j = (t(i := b)) j)" for \<sigma>
  proof -
    have "(\<forall>j \<in> S. \<sigma> j = t j) \<longleftrightarrow> (\<forall>j \<in> S. (\<sigma>(i := t i)) j = t j)" using flip [of \<sigma> "t i"] unfolding S(2) .
    also have "\<dots> \<longleftrightarrow> (\<forall>j \<in> S - {i}. \<sigma> j = t j)" by auto
    finally show ?thesis unfolding S(2) by auto
  qed
  then show "\<exists>S t. finite S \<and> (\<lambda>\<sigma>. \<sigma> i = b \<and> h \<sigma>) = (\<lambda>\<sigma>. \<forall>i \<in> S. \<sigma> i = t i)"
    using S(1) by (intro exI [of _ "insert i (S - {i})"] exI [of _ "t(i := b)"]) (simp add: fun_eq_iff)
next
  fix \<sigma> assume s: "\<sigma> i = b \<and> h \<sigma>"
  then have "cof f i b \<sigma>" using h by (simp add: implicant_def)
  then show "f \<sigma>" using s by (simp add: cof_def fun_upd_idem)
next
  fix v assume v: "indep v f"
  then have "indep v h" using h indep_cof unfolding implicant_def by blast
  moreover have "v \<le> i" using top [OF v] .
  ultimately show "indep v (\<lambda>\<sigma>. \<sigma> i = b \<and> h \<sigma>)" unfolding indep_def by metis
qed

lemma sat_one_bdd_gives:
  "bdd_ok st \<Longrightarrow> safe st dd \<Longrightarrow> bdd (nodes st) v dd f \<Longrightarrow> dd \<noteq> mtbdd_false \<Longrightarrow> v \<le> 2 ^ 24 \<Longrightarrow> 2 ^ 24 < v + fuel \<Longrightarrow>
   gives keep st (sylvan_sat_one_bdd fuel rand k dd st) (implicant f)"
proof (induction fuel arbitrary: dd f v k)
  case (Suc fuel)
  note ok = Suc.prems(1) and now = gc.gives_now [OF Suc.prems(1)] and tb = bdd_ok_table [OF Suc.prems(1)]
  show ?case
  proof (cases "dd = mtbdd_true")
    case True
    have "implicant (\<lambda>_. True) (\<lambda>_. True)" unfolding implicant_def by (auto intro!: exI [of _ "{}"])
    then show ?thesis
      using now [OF Suc.prems(3), of "implicant f"] Suc.prems(3,4) True by (simp add: bdd_true_iff)
  next
    case False
    have nc: "MTBDD_INDEX dd \<noteq> 0" by (rule bdd_nonconst [OF Suc.prems(3) False Suc.prems(4)])
    define nd where "nd = MTBDD_GETNODE (nodes st) dd"
    define l where "l = mtbddnode_getvariable nd"
    note c = node_cofactors [OF ok Suc.prems(2,3) nc, folded nd_def, folded l_def]
    have top: "u \<le> unat l" if "indep u f" for u
      using bdd_inner(1) [OF bdd_level [OF tb Suc.prems(3) that] nc] by (simp add: l_def nd_def)
    have f: "Suc (unat l) \<le> 2 ^ 24" "2 ^ 24 < Suc (unat l) + fuel" using c(5,6) Suc.prems(6) by auto
    have rec: "gives keep st (bindE (sylvan_sat_one_bdd fuel rand k' (mtbddnode_followhigh dd nd) st)
          (\<lambda>(m, st). mtbdd_makenode l mtbdd_false m st)) (implicant f)" if "mtbddnode_followhigh dd nd \<noteq> mtbdd_false" for k'
    proof (rule gc.gives_bind [OF Suc.IH [OF ok c(4,3) that f]], goal_cases)
      case (1 r t h)
      have i: "indep (Suc (unat l)) h" using 1(3) bdd_indep [OF c(3)] by (simp add: implicant_def)
      have "branch (unat l) (\<lambda>_. False) h = (\<lambda>\<sigma>. \<sigma> (unat l) = True \<and> h \<sigma>)" by (auto simp: branch_def)
      then show ?case
        unfolding prod.case
        by (intro gives_mono [OF gc.mk_gives [OF 1(1) bdd.bdd_false 1(4) _ i c(6)]])
          (use implicant_literal [OF 1(3) i top] in auto)
    qed
    have rec': "gives keep st (bindE (sylvan_sat_one_bdd fuel rand k' (mtbddnode_followlow dd nd) st)
          (\<lambda>(m, st). mtbdd_makenode l m mtbdd_false st)) (implicant f)" if "mtbddnode_followlow dd nd \<noteq> mtbdd_false" for k'
    proof (rule gc.gives_bind [OF Suc.IH [OF ok c(2,1) that f]], goal_cases)
      case (1 r t h)
      have i: "indep (Suc (unat l)) h" using 1(3) bdd_indep [OF c(1)] by (simp add: implicant_def)
      have "branch (unat l) h (\<lambda>_. False) = (\<lambda>\<sigma>. \<sigma> (unat l) = False \<and> h \<sigma>)" by (auto simp: branch_def)
      then show ?case
        unfolding prod.case
        by (intro gives_mono [OF gc.mk_gives [OF 1(1,4) bdd.bdd_false i _ c(6)]])
          (use implicant_literal [OF 1(3) i top] in auto)
    qed
    have "mtbddnode_followlow dd nd \<noteq> mtbddnode_followhigh dd nd"
      using bdd_inner(7) [OF Suc.prems(3) nc] by (simp add: nd_def follow_eq)
    then show ?thesis
      using rec rec' False Suc.prems(4) by (simp add: Let_def flip: nd_def l_def)
  qed
qed simp

section \<open>Cubes and unions with cubes\<close>

lemma sylvan_cube_gives:
  "bdd_ok st \<Longrightarrow> safe st x \<Longrightarrow> is_set (nodes st) vs x \<Longrightarrow> literals cs vs \<Longrightarrow>
   gives keep st (sylvan_cube x cs st) (\<lambda>h. h = cube_sem vs cs (\<lambda>_. True))"
proof (induction cs arbitrary: vs x)
  case Nil
  then show ?case
    using is_set_true [OF bdd_ok_table] gc.gives_now [OF Nil(1) bdd.bdd_true] by (auto simp: literals_def mtbdd_set_isempty_def)
next
  case (Cons c cs)
  obtain v ws where vs: "vs = v # ws" using Cons.prems(4) by (cases vs) (auto simp: literals_def)
  note x = Cons.prems(3) [unfolded vs]
  note sn = set_node [OF bdd_ok_table [OF Cons.prems(1)] x]
  have l: "literals cs ws" "c = 0 \<or> c = 1 \<or> c = 2" using Cons.prems(4) vs by (auto simp: literals_def)
  note m = Cons.IH [OF Cons.prems(1) set_node_held [OF Cons.prems(1,2) x] sn(6) l(1)]
  note node = single_node [OF Cons.prems(1) x l(1) m]
  have e: "bindE c Inr = c" for c :: "serror + (u64 \<times> sylvan)" by (cases c) simp_all
  show ?case using l(2) node m sn(2) vs by (auto simp: Let_def mtbdd_set_isempty_def e)
qed

lemma union_skip_spec:
  "bdd_ok st \<Longrightarrow> safe st x \<Longrightarrow> is_set (nodes st) vs x \<Longrightarrow> literals cs vs \<Longrightarrow> vs \<noteq> [] \<Longrightarrow>
   \<exists>y ws ds. union_skip (nodes st) x cs = Inr (y, ds) \<and> safe st y \<and> is_set (nodes st) ws y \<and> literals ds ws \<and>
     cube_sem ws ds (\<lambda>_. True) = cube_sem vs cs (\<lambda>_. True) \<and> set ws \<subseteq> set vs \<and> (ws \<noteq> [] \<longrightarrow> hd ds = 0 \<or> hd ds = 1)"
proof (induction cs arbitrary: vs x)
  case (Cons c cs)
  obtain v ws where vs: "vs = v # ws" using Cons.prems(5) by (cases vs) auto
  note x = Cons.prems(3) [unfolded vs]
  note sn = set_node [OF bdd_ok_table [OF Cons.prems(1)] x]
  have l: "literals cs ws" "c = 0 \<or> c = 1 \<or> c = 2" using Cons.prems(4) vs by (auto simp: literals_def)
  let ?y = "mtbddnode_followhigh x (MTBDD_GETNODE (nodes st) x)"
  have e: "mtbdd_set_isempty ?y \<longleftrightarrow> ws = []"
    using is_set_true [OF bdd_ok_table [OF Cons.prems(1)] sn(6)] by (simp add: mtbdd_set_isempty_def)
  have sy: "safe st ?y" by (rule set_node_held [OF Cons.prems(1,2) x])
  consider "c = 0 \<or> c = 1" | "c = 2" "ws = []" | "c = 2" "ws \<noteq> []" using l(2) by blast
  then show ?case
  proof cases
    case 1
    then show ?thesis using Cons.prems by (intro exI [of _ x] exI [of _ vs] exI [of _ "c # cs"]) auto
  next
    case 2
    then show ?thesis
      using e sy sn(6) l(1) vs by (intro exI [of _ ?y] exI [of _ ws] exI [of _ cs]) (simp add: Let_def literals_def)
  next
    case 3
    obtain y zs ds where y: "union_skip (nodes st) ?y cs = Inr (y, ds)" "safe st y" "is_set (nodes st) zs y" "literals ds zs"
      "cube_sem zs ds (\<lambda>_. True) = cube_sem ws cs (\<lambda>_. True)" "set zs \<subseteq> set ws" "zs \<noteq> [] \<longrightarrow> hd ds = 0 \<or> hd ds = 1"
      using Cons.IH [OF Cons.prems(1) sy sn(6) l(1) 3(2)] by blast
    then show ?thesis
      using 3 e vs by (intro exI [of _ y] exI [of _ zs] exI [of _ ds]) (auto simp: Let_def)
  qed
qed (auto simp: literals_def)

text \<open>A node is made only when a branch has changed.\<close>

lemma keep_or_make:
  assumes ok: "bdd_ok t" and dd: "bdd (nodes t) 0 dd f"
    and old: "bdd (nodes t) 0 lo (cof f (unat l) False)" "bdd (nodes t) 0 hi (cof f (unat l) True)"
    and new: "bdd (nodes t) 0 nl F0" "bdd (nodes t) 0 nh F1" and i: "indep (Suc (unat l)) F0" "indep (Suc (unat l)) F1"
    and l: "unat l < 2 ^ 24"
  shows "gives keep t (if nl \<noteq> lo \<or> nh \<noteq> hi then mtbdd_makenode l nl nh t else Inr (dd, t)) (\<lambda>h. h = branch (unat l) F0 F1)"
proof (cases "nl \<noteq> lo \<or> nh \<noteq> hi")
  case True
  then show ?thesis using gc.mk_gives [OF ok new i l] by simp
next
  case False
  then have "F0 = cof f (unat l) False" "F1 = cof f (unat l) True" using bdd_fun old new by metis+
  then have "branch (unat l) F0 F1 = f" by (simp add: branch_cof)
  then show ?thesis using gc.gives_now [OF ok dd] False by simp
qed

lemma union_cube_gives:
  "bdd_ok st \<Longrightarrow> safe st dd \<Longrightarrow> safe st x \<Longrightarrow> bdd (nodes st) 0 dd f \<Longrightarrow> is_set (nodes st) vs x \<Longrightarrow> literals cs vs \<Longrightarrow>
   indep v f \<Longrightarrow> \<forall>i \<in> set vs. v \<le> i \<Longrightarrow> v \<le> 2 ^ 24 \<Longrightarrow> 2 ^ 24 < v + fuel \<Longrightarrow>
   gives keep st (sylvan_union_cube fuel dd x cs st) (\<lambda>h. h = (\<lambda>\<sigma>. f \<sigma> \<or> cube_sem vs cs (\<lambda>_. True) \<sigma>))"
proof (induction fuel arbitrary: st dd x f vs cs v)
  case (Suc fuel)
  note ok = Suc.prems(1) and now = gc.gives_now [OF Suc.prems(1)] and tb = bdd_ok_table [OF Suc.prems(1)]
  note tr = now [OF bdd.bdd_true, of "\<lambda>h. h = (\<lambda>_. True)"]
  consider "dd = mtbdd_true" | "dd = mtbdd_false" | "dd \<noteq> mtbdd_true" "dd \<noteq> mtbdd_false" "vs = []"
    | "dd \<noteq> mtbdd_true" "dd \<noteq> mtbdd_false" "vs \<noteq> []" by blast
  then show ?case
  proof cases
    case 1
    then show ?thesis using tr Suc.prems(4) by (simp add: bdd_true_iff)
  next
    case 2
    then show ?thesis using sylvan_cube_gives [OF ok Suc.prems(3,5,6)] Suc.prems(4) by (simp add: bdd_false_iff)
  next
    case 3
    then show ?thesis using tr is_set_true [OF tb Suc.prems(5)] by (simp add: mtbdd_set_isempty_def)
  next
    case 4
    have ne: "\<not> mtbdd_set_isempty x" using is_set_true [OF tb Suc.prems(5)] 4(3) by (simp add: mtbdd_set_isempty_def)
    obtain y us ds where y: "union_skip (nodes st) x cs = Inr (y, ds)" "safe st y" "is_set (nodes st) us y" "literals ds us"
      "cube_sem us ds (\<lambda>_. True) = cube_sem vs cs (\<lambda>_. True)" "set us \<subseteq> set vs" "us \<noteq> [] \<longrightarrow> hd ds = 0 \<or> hd ds = 1"
      using union_skip_spec [OF ok Suc.prems(3,5,6) 4(3)] by blast
    have e: "mtbdd_set_isempty y \<longleftrightarrow> us = []" using is_set_true [OF tb y(3)] by (simp add: mtbdd_set_isempty_def)
    show ?thesis
    proof (cases us)
      case Nil
      then have "cube_sem vs cs (\<lambda>_. True) = (\<lambda>_. True)" using y(5) by simp
      then show ?thesis using tr 4 ne y(1) e Nil by simp
    next
      case (Cons w ws)
      then obtain c es where ds: "ds = c # es" "literals es ws" "c = 0 \<or> c = 1"
        using y(4,7) by (cases ds) (auto simp: literals_def)
      note s = y(3) [unfolded Cons]
      note sn = set_node [OF tb s] and sh = set_node_held [OF ok y(2) s]
      have asc: "\<forall>i \<in> set ws. w < i" using s by (simp add: is_set_def)
      have vw: "v \<le> w" using y(6) Suc.prems(8) Cons by auto
      have nc: "MTBDD_INDEX dd \<noteq> 0" by (rule bdd_nonconst [OF Suc.prems(4) 4(1,2)])
      define nd where "nd = MTBDD_GETNODE (nodes st) dd"
      define l where "l = mtbddnode_getvariable nd"
      define kv where "kv = mtbddnode_getvariable (MTBDD_GETNODE (nodes st) y)"
      have kv: "unat kv = w" "unat kv < 2 ^ 24" using sn(3,4) by (simp_all add: kv_def)
      note c = node_cofactors [OF ok Suc.prems(2) bdd_level [OF tb Suc.prems(4,7)] nc, folded nd_def, folded l_def]
      let ?i = "unat l" and ?next = "mtbddnode_followhigh y (MTBDD_GETNODE (nodes st) y)"
      let ?lo = "mtbddnode_followlow dd nd" and ?hi = "mtbddnode_followhigh dd nd"
      define K where "K = cube_sem ws es (\<lambda>_. True)"
      have K: "indep (Suc w) K" unfolding K_def by (rule indep_cube_sem [OF ds(2)]) (use asc in \<open>auto simp: Suc_le_eq\<close>)
      have C: "cube_sem vs cs (\<lambda>_. True) = (\<lambda>\<sigma>. \<sigma> w = (c = 1) \<and> K \<sigma>)"
        unfolding y(5) [symmetric] using ds(1,3) Cons by (auto simp: K_def)
      have cof_or: "cof (\<lambda>\<sigma>. f \<sigma> \<or> g \<sigma>) i b = (\<lambda>\<sigma>. cof f i b \<sigma> \<or> cof g i b \<sigma>)" for f g :: bfun and i b by (simp add: cof_def)
      consider "w < ?i" | "?i < w" | "?i = w" by linarith
      then show ?thesis
      proof cases
        case 1
        have fi: "indep (Suc w) f" by (rule indep_mono [OF c(7)]) (use 1 in simp)
        have "gives keep st (sylvan_union_cube fuel dd ?next es st) (\<lambda>h. h = (\<lambda>\<sigma>. f \<sigma> \<or> K \<sigma>))"
          unfolding K_def by (rule Suc.IH [OF ok Suc.prems(2) sh Suc.prems(4) sn(6) ds(2) fi])
            (use asc kv vw Suc.prems(10) in \<open>auto simp: Suc_le_eq\<close>)
        then have "gives keep st (bindE (sylvan_union_cube fuel dd ?next es st) (\<lambda>(result, st).
            if c = 0 then mtbdd_makenode kv result dd st else mtbdd_makenode kv dd result st))
            (\<lambda>h. h = (\<lambda>\<sigma>. f \<sigma> \<or> \<sigma> w = (c = 1) \<and> K \<sigma>))"
        proof (rule gc.gives_bind, goal_cases)
          case (1 r t h)
          have b: "bdd (nodes t) 0 dd f" by (rule keep_bdd [OF 1(2) Suc.prems(2,4)])
          have h: "indep (Suc (unat kv)) h" "indep (Suc (unat kv)) f" using 1(3) fi K kv(1) by (simp_all add: indep_def) metis
          have "branch w h f = (\<lambda>\<sigma>. f \<sigma> \<or> \<sigma> w = False \<and> K \<sigma>)" "branch w f h = (\<lambda>\<sigma>. f \<sigma> \<or> \<sigma> w = True \<and> K \<sigma>)"
            using 1(3) by (auto simp: branch_def)
          then show ?case
            using gc.mk_gives [OF 1(1,4) b h kv(2)] gc.mk_gives [OF 1(1) b 1(4) h(2,1) kv(2)] ds(3) kv(1) by auto
        qed
        then show ?thesis
          using 4 ne y(1) e Cons 1 kv(1) ds(1) unfolding C
          by (simp add: Let_def word_less_nat_alt cong: if_cong flip: nd_def l_def kv_def)
      next
        case 2
        have i: "Suc ?i \<le> 2 ^ 24" "2 ^ 24 < Suc ?i + fuel" "\<forall>j \<in> set us. Suc ?i \<le> j" using c(5,6) Suc.prems(10) asc 2 Cons by auto
        define G where "G = (\<lambda>\<sigma>. \<sigma> w = (c = 1) \<and> K \<sigma>)"
        have eq: "cube_sem us ds (\<lambda>_. True) = G" unfolding y(5) C G_def ..
        have G: "indep (Suc ?i) G" unfolding eq [symmetric] by (rule indep_cube_sem [OF y(4) i(3)]) simp
        have "gives keep st (sylvan_union_cube fuel ?lo y ds st) (\<lambda>h. h = (\<lambda>\<sigma>. cof f ?i False \<sigma> \<or> G \<sigma>))"
          unfolding eq [symmetric]
          by (rule Suc.IH [OF ok c(2) y(2) bdd_mono [OF c(1) le0] y(3,4) bdd_indep [OF c(1)] i(3,1,2)])
        then have "gives keep st (bindE (sylvan_union_cube fuel ?lo y ds st) (\<lambda>(new_low, st).
          bindE (pushed new_low (sylvan_union_cube fuel ?hi y ds) st) (\<lambda>(new_high, st).
            if new_low \<noteq> ?lo \<or> new_high \<noteq> ?hi then mtbdd_makenode l new_low new_high st else Inr (dd, st))))
          (\<lambda>h. h = (\<lambda>\<sigma>. f \<sigma> \<or> G \<sigma>))"
        proof (rule gc.gives_bind, goal_cases)
          case L: (1 nl t h)
          have "gives_with keep t (pushed nl (sylvan_union_cube fuel ?hi y ds) t) nl h (\<lambda>h. h = (\<lambda>\<sigma>. cof f ?i True \<sigma> \<or> G \<sigma>))"
          proof (rule pushed_onward [OF L(1,2,4)])
            fix u assume u: "bdd_ok u" "onward st u"
            show "gives keep u (sylvan_union_cube fuel ?hi y ds u) (\<lambda>h. h = (\<lambda>\<sigma>. cof f ?i True \<sigma> \<or> G \<sigma>))"
              unfolding eq [symmetric]
              by (rule Suc.IH [OF u(1) onward_safe [OF u(2) c(4)] onward_safe [OF u(2) y(2)] onward_bdd [OF u(2) c(4,3)]
                    onward_set [OF u(2) y(2,3)] y(4) bdd_indep [OF c(3)] i(3,1,2)])
          qed
          then show ?case
            unfolding prod.case
          proof (rule gc.gives_with_bind, goal_cases)
            case (1 nh u k)
            have k: "keep st u" by (rule keep_trans [OF L(2) 1(2)])
            have ih: "indep (Suc ?i) h" "indep (Suc ?i) k"
              using L(3) 1(4) G bdd_indep [OF c(1)] bdd_indep [OF c(3)] by (simp_all add: indep_def) metis+
            have "branch ?i h k = (\<lambda>\<sigma>. f \<sigma> \<or> G \<sigma>)"
            proof -
              have "cof G ?i b = G" for b by (rule cof_indep [OF G])
              then have "h = cof (\<lambda>\<sigma>. f \<sigma> \<or> G \<sigma>) ?i False" "k = cof (\<lambda>\<sigma>. f \<sigma> \<or> G \<sigma>) ?i True"
                using L(3) 1(4) by (simp_all add: cof_or)
              then show ?thesis by (simp add: branch_cof)
            qed
            then show ?case
              unfolding prod.case
              using keep_or_make [OF 1(1) keep_bdd [OF k Suc.prems(2,4)] bdd_mono [OF keep_bdd [OF k c(2,1)] le0]
                  bdd_mono [OF keep_bdd [OF k c(4,3)] le0] 1(3,5) ih c(6)] by simp
          qed
        qed
        then show ?thesis
          using 4 ne y(1) e Cons 2 kv(1) unfolding C G_def
          by (simp add: Let_def word_less_nat_alt cong: if_cong flip: nd_def l_def kv_def)
      next
        case 3
        have i: "Suc ?i \<le> 2 ^ 24" "2 ^ 24 < Suc ?i + fuel" "\<forall>j \<in> set ws. Suc ?i \<le> j" using c(5,6) Suc.prems(10) asc 3 by auto
        have Ki: "indep (Suc ?i) K" using K 3 by simp
        have call: "gives keep st (sylvan_union_cube fuel z ?next es st) (\<lambda>h. h = (\<lambda>\<sigma>. g \<sigma> \<or> K \<sigma>))"
          if "safe st z" "bdd (nodes st) (Suc ?i) z g" for z g
          unfolding K_def
          by (rule Suc.IH [OF ok that(1) sh bdd_mono [OF that(2) le0] sn(6) ds(2) bdd_indep [OF that(2)] i(3,1,2)])
        have low: "gives keep st (bindE (sylvan_union_cube fuel ?lo ?next es st) (\<lambda>(new_low, st).
            if new_low \<noteq> ?lo then mtbdd_makenode l new_low ?hi st else Inr (dd, st))) (\<lambda>h. h = (\<lambda>\<sigma>. f \<sigma> \<or> \<sigma> w = False \<and> K \<sigma>))"
        proof (rule gc.gives_bind [OF call [OF c(2,1)]], goal_cases)
          case (1 nl t h)
          have ih: "indep (Suc ?i) h" using 1(3) Ki bdd_indep [OF c(1)] by (simp add: indep_def) metis
          have hi: "bdd (nodes t) 0 ?hi (cof f ?i True)" by (rule bdd_mono [OF keep_bdd [OF 1(2) c(4,3)] le0])
          have "branch ?i h (cof f ?i True) = (\<lambda>\<sigma>. f \<sigma> \<or> \<sigma> w = False \<and> K \<sigma>)"
            using 1(3) 3 by (auto simp: branch_def cof_def fun_upd_idem fun_eq_iff)
          then show ?case
            using keep_or_make [OF 1(1) keep_bdd [OF 1(2) Suc.prems(2,4)] bdd_mono [OF keep_bdd [OF 1(2) c(2,1)] le0]
                hi 1(4) hi ih bdd_indep [OF c(3)] c(6)] by simp
        qed
        have high: "gives keep st (bindE (sylvan_union_cube fuel ?hi ?next es st) (\<lambda>(new_high, st).
            if new_high \<noteq> ?hi then mtbdd_makenode l ?lo new_high st else Inr (dd, st))) (\<lambda>h. h = (\<lambda>\<sigma>. f \<sigma> \<or> \<sigma> w = True \<and> K \<sigma>))"
        proof (rule gc.gives_bind [OF call [OF c(4,3)]], goal_cases)
          case (1 nh t h)
          have ih: "indep (Suc ?i) h" using 1(3) Ki bdd_indep [OF c(3)] by (simp add: indep_def) metis
          have lo: "bdd (nodes t) 0 ?lo (cof f ?i False)" by (rule bdd_mono [OF keep_bdd [OF 1(2) c(2,1)] le0])
          have "branch ?i (cof f ?i False) h = (\<lambda>\<sigma>. f \<sigma> \<or> \<sigma> w = True \<and> K \<sigma>)"
            using 1(3) 3 by (auto simp: branch_def cof_def fun_upd_idem fun_eq_iff)
          then show ?case
            using keep_or_make [OF 1(1) keep_bdd [OF 1(2) Suc.prems(2,4)] lo
                bdd_mono [OF keep_bdd [OF 1(2) c(4,3)] le0] lo 1(4) bdd_indep [OF c(1)] ih c(6)] by simp
        qed
        from low high ds(3) show ?thesis
          using 4 ne y(1) e Cons 3 kv(1) ds(1) unfolding C
          by (auto simp: Let_def word_less_nat_alt cong: if_cong simp flip: nd_def l_def kv_def)
      qed
    qed
  qed
qed simp

section \<open>All assignments\<close>

text \<open>The calls of the callback, in order.\<close>

fun call_all :: "'c enum_cb \<Rightarrow> u32 list \<Rightarrow> u8 list list \<Rightarrow> 'c \<times> sylvan \<Rightarrow> serror + ('c \<times> sylvan)" where
  "call_all cb vars [] s = Inr s"
| "call_all cb vars (a # as) s = bindE (cb vars a s) (call_all cb vars as)"

lemma call_all_append: "call_all cb vars (as @ bs) s = bindE (call_all cb vars as s) (call_all cb vars bs)"
proof (induction as arbitrary: s)
  case (Cons a as)
  then have "call_all cb vars (as @ bs) = (\<lambda>x. bindE (call_all cb vars as x) (call_all cb vars bs))" by (rule ext)
  then show ?case by (simp add: bindE_assoc)
qed simp

text \<open>A callback may use the package, but must leave a well-formed state that keeps what is protected.\<close>

definition cb_keeps :: "'c enum_cb \<Rightarrow> bool" where
  "cb_keeps cb \<longleftrightarrow> (\<forall>vars a s s'. bdd_ok (snd s) \<longrightarrow> cb vars a s = Inr s' \<longrightarrow> bdd_ok (snd s') \<and> keep (snd s) (snd s'))"

lemma call_all_keeps:
  "cb_keeps cb \<Longrightarrow> bdd_ok (snd s) \<Longrightarrow> call_all cb vars as s = Inr s' \<Longrightarrow> bdd_ok (snd s') \<and> keep (snd s) (snd s')"
proof (induction as arbitrary: s)
  case Nil
  then show ?case using keep_refl [OF bdd_ok_state] by simp
next
  case (Cons a as)
  obtain t where t: "cb vars a s = Inr t" "call_all cb vars as t = Inr s'"
    using Cons.prems(3) by (cases "cb vars a s") auto
  have k: "bdd_ok (snd t) \<and> keep (snd s) (snd t)" using Cons.prems(1,2) t(1) unfolding cb_keeps_def by blast
  then show ?case using Cons.IH [OF Cons.prems(1) _ t(2)] keep_trans by blast
qed

lemma keep_set: "keep s t \<Longrightarrow> safe s x \<Longrightarrow> is_set (nodes s) vs x \<Longrightarrow> is_set (nodes t) vs x"
  using keep_bdd by (auto simp: is_set_def)

lemma enum_do_calls:
  "bdd_ok (snd s) \<Longrightarrow> safe (snd s) dd \<Longrightarrow> safe (snd s) x \<Longrightarrow> is_set (nodes (snd s)) vs x \<Longrightarrow> bdd (nodes (snd s)) 0 dd f \<Longrightarrow>
   depends_on f (set vs) \<Longrightarrow> cb_keeps cb \<Longrightarrow> path \<noteq> [] \<or> vs \<noteq> [] \<Longrightarrow> length vs < fuel \<Longrightarrow>
   sylvan_enum_do fuel dd x cb path s =
     call_all cb (rev (map fst path) @ map of_nat vs) (map ((@) (rev (map snd path))) (sats f vs)) s"
proof (induction fuel arbitrary: s dd x f vs path)
  case (Suc fuel)
  note ok = Suc.prems(1) and tb = bdd_ok_table [OF Suc.prems(1)] and cb = Suc.prems(7)
  show ?case
  proof (cases "dd = mtbdd_false")
    case True
    then have "f = (\<lambda>_. False)" using bdd_false_fun [OF tb Suc.prems(5)] by blast
    then show ?thesis using True by simp
  next
    case nf: False
    show ?thesis
    proof (cases vs)
      case Nil
      have "f = (\<lambda>_. f (\<lambda>_. False))" using Suc.prems(6) Nil by (intro depends_none) simp
      moreover have "f \<noteq> (\<lambda>_. False)" using bdd_false_fun [OF tb Suc.prems(5)] nf by blast
      ultimately have t: "f = (\<lambda>_. True)" by (auto simp: fun_eq_iff)
      then have "dd = mtbdd_true" using bdd_canonical [OF tb Suc.prems(5)] bdd.bdd_true by blast
      then have "sylvan_enum_do (Suc fuel) dd x cb path s = cb (rev (map fst path)) (rev (map snd path)) s"
        using Nil is_set_true [OF tb Suc.prems(4)] Suc.prems(8) by (simp add: mtbdd_set_isempty_def enum_call_def)
      moreover have "bindE c Inr = c" for c :: "serror + ('a \<times> sylvan)" by (cases c) simp_all
      moreover have "call_all cb vars [] = Inr" for vars by (rule ext) simp
      ultimately show ?thesis using Nil t by simp
    next
      case (Cons v ws)
      note s = Suc.prems(4) [unfolded Cons]
      note sn = set_node [OF tb s] and sh = set_node_held [OF ok Suc.prems(3) s]
      note dep = Suc.prems(6) [unfolded Cons]
      note sl = sat_level [OF tb s Suc.prems(5) dep nf]
      note se = safe_edges [OF ok Suc.prems(2,5) _ nf]
      define var where "var = mtbdd_getvar (nodes (snd s)) x"
      define y where "y = mtbdd_set_next (nodes (snd s)) x"
      have y: "is_set (nodes (snd s)) ws y" "safe (snd s) y"
        using sn(6) sh by (simp_all add: y_def mtbdd_set_next_def mtbdd_gethigh_def)
      have "unat var = v" using sn(3) by (simp add: var_def mtbdd_getvar_def)
      then have var: "of_nat v = var" by auto
      have ne: "\<not> mtbdd_set_isempty x" using sn(2) by (simp add: mtbdd_set_isempty_def)
      have d: "depends_on (cof f v b) (set ws)" for b using dep by (auto intro: depends_cof)
      have len: "length ws < fuel" using Suc.prems(9) Cons by simp
      define vars where "vars = rev (map fst path) @ map of_nat vs"
      define pre where "pre = rev (map snd path)"
      have part: "sylvan_enum_do fuel z y cb ((var, c) # path) t = call_all cb vars (map ((@) pre) (map ((#) c) (sats (cof f v b) ws))) t"
        if t: "bdd_ok (snd t)" "keep (snd s) (snd t)" and z: "safe (snd s) z" "bdd (nodes (snd s)) 0 z (cof f v b)" for z c b t
      proof -
        have "sylvan_enum_do fuel z y cb ((var, c) # path) t =
            call_all cb (rev (map fst ((var, c) # path)) @ map of_nat ws) (map ((@) (rev (map snd ((var, c) # path)))) (sats (cof f v b) ws)) t"
          by (rule Suc.IH [OF t(1) keep_safe [OF t(2) z(1)] keep_safe [OF t(2) y(2)] keep_set [OF t(2) y(2,1)]
                keep_bdd [OF t(2) z] d cb _ len]) simp
        moreover have "(@) (pre @ [c]) = (\<lambda>a. pre @ c # a)" by (rule ext) simp
        ultimately show ?thesis by (simp add: vars_def pre_def Cons var comp_def)
      qed
      have both: "bindE (sylvan_enum_do fuel z0 y cb ((var, 0) # path) s) (\<lambda>t. sylvan_enum_do fuel (z1 t) y cb ((var, 1) # path) t) =
          call_all cb vars (map ((@) pre) (sats f vs)) s"
        if z: "safe (snd s) z0" "bdd (nodes (snd s)) 0 z0 (cof f v False)" "safe (snd s) z" "bdd (nodes (snd s)) 0 z (cof f v True)"
          and e: "\<And>t. keep (snd s) (snd t) \<Longrightarrow> z1 t = z" for z0 z1 z
      proof -
        let ?low = "map ((@) pre) (map ((#) 0) (sats (cof f v False) ws))"
        note first = part [OF ok keep_refl [OF bdd_ok_state [OF ok]] z(1,2), of 0]
        have "sats f vs = map ((#) 0) (sats (cof f v False) ws) @ map ((#) 1) (sats (cof f v True) ws)" by (simp add: Cons)
        then show ?thesis
          unfolding first
        proof (cases "call_all cb vars ?low s")
          case (Inr t)
          note kt = call_all_keeps [OF cb ok Inr]
          then have "z1 t = z" by (intro e) blast
          then show "bindE (call_all cb vars ?low s) (\<lambda>t. sylvan_enum_do fuel (z1 t) y cb ((var, 1) # path) t) =
              call_all cb vars (map ((@) pre) (sats f vs)) s"
            using Inr part [of t z True 1] kt z(3,4) by (simp add: Cons call_all_append)
        qed (simp add: call_all_append)
      qed
      consider "dd = mtbdd_true \<or> mtbdd_getvar (nodes (snd s)) dd \<noteq> var" | "dd \<noteq> mtbdd_true" "mtbdd_getvar (nodes (snd s)) dd = var"
        by blast
      then show ?thesis
      proof cases
        case 1
        note c = sl(1) [OF 1 [unfolded var_def]]
        have "dd = mtbdd_true \<or> var < mtbdd_getvar (nodes (snd s)) dd" using 1 sl(2) by (auto simp: var_def)
        then show ?thesis
          using both [of dd dd "\<lambda>_. dd"] Suc.prems(2,5) c nf ne
          by (simp add: vars_def pre_def Let_def flip: var_def y_def)
      next
        case 2
        note c = sl(3,4) [OF 2 [unfolded var_def]] and se = se [OF 2(1)]
        have "mtbdd_gethigh (nodes (snd t)) dd = mtbdd_gethigh (nodes (snd s)) dd" if "keep (snd s) (snd t)" for t
          using keep_node [OF that Suc.prems(2) bdd_nonconst [OF Suc.prems(5) 2(1) nf]] by (simp add: mtbdd_gethigh_def)
        note both = both [of "mtbdd_getlow (nodes (snd s)) dd" _ "\<lambda>t. mtbdd_gethigh (nodes (snd t)) dd", OF _ c(1) _ c(2) this]
        show ?thesis using both se 2 nf ne by (simp add: vars_def pre_def Let_def flip: var_def y_def)
      qed
    qed
  qed
qed simp

text \<open>Where the parallel form returns, it has made the same calls.\<close>

lemma true_edges:
  assumes "table_ok n"
  shows "mtbdd_getvar n mtbdd_true = 0" "mtbdd_getlow n mtbdd_true = mtbdd_true" "mtbdd_gethigh n mtbdd_true = mtbdd_true"
proof -
  have "MTBDD_GETNODE n mtbdd_true = (0, 0)" using assms by (simp add: table_ok_def MTBDD_GETNODE_def dd_simps)
  then show "mtbdd_getvar n mtbdd_true = 0" "mtbdd_getlow n mtbdd_true = mtbdd_true" "mtbdd_gethigh n mtbdd_true = mtbdd_true"
    by (simp_all add: mtbdd_getvar_def mtbdd_getlow_def mtbdd_gethigh_def mtbddnode_getvariable_def mtbddnode_followlow_def
        mtbddnode_followhigh_def mtbddnode_getlow_def mtbddnode_gethigh_def transfer_not dd_simps not_const [unfolded mtbdd_false_def])
qed

text \<open>The diagram true with a variable left fails an assertion, as the variable of true is 0.\<close>

lemma enum_par_true:
  assumes "table_ok (nodes (snd s))" "\<not> mtbdd_set_isempty x" "mtbdd_getvar (nodes (snd s)) x \<noteq> 0"
  shows "sylvan_enum_par_do (Suc fuel) mtbdd_true x cb path s = Inl AssertFail"
  using assms true_edges(1) [OF assms(1)] by (simp add: Let_def)

lemma enum_par_keeps:
  "cb_keeps cb \<Longrightarrow> bdd_ok (snd s) \<Longrightarrow> sylvan_enum_par_do fuel dd x cb path s = Inr r \<Longrightarrow>
   bdd_ok (snd r) \<and> keep (snd s) (snd r)"
proof (induction fuel arbitrary: s dd x path r)
  case (Suc fuel)
  note cb = Suc.prems(1) and ok = Suc.prems(2)
  note refl = keep_refl [OF bdd_ok_state [OF ok]]
  have both: "bdd_ok (snd r) \<and> keep (snd s) (snd r)"
    if "bindE (sylvan_enum_par_do fuel z0 y cb p0 s) (\<lambda>t. sylvan_enum_par_do fuel z1 y cb p1 t) = Inr r" for z0 z1 y p0 p1
  proof -
    obtain t where t: "sylvan_enum_par_do fuel z0 y cb p0 s = Inr t" "sylvan_enum_par_do fuel z1 y cb p1 t = Inr r"
      using \<open>bindE (sylvan_enum_par_do fuel z0 y cb p0 s) _ = Inr r\<close> by (auto simp: bindE_eq_Inr)
    from Suc.IH [OF cb ok t(1)] Suc.IH [OF cb _ t(2)] show ?thesis using keep_trans by blast
  qed
  have call: "bdd_ok (snd r) \<and> keep (snd s) (snd r)" if "enum_call cb path s = Inr r"
  proof -
    have "cb vars a s = Inr r \<Longrightarrow> bdd_ok (snd r) \<and> keep (snd s) (snd r)" for vars a using cb ok unfolding cb_keeps_def by blast
    then show ?thesis using ok refl that by (auto simp only: enum_call_def sum.inject split: if_splits)
  qed
  show ?case
    using Suc.prems(3) both call ok refl by (auto simp: Let_def split: if_splits)
qed simp

lemma enum_par_same:
  "cb_keeps cb \<Longrightarrow> bdd_ok (snd s) \<Longrightarrow> safe (snd s) dd \<Longrightarrow> bdd (nodes (snd s)) v dd f \<Longrightarrow>
   sylvan_enum_par_do fuel dd x cb path s = Inr r \<Longrightarrow> sylvan_enum_do fuel dd x cb path s = Inr r"
proof (induction fuel arbitrary: s dd x path r v f)
  case (Suc fuel)
  note cb = Suc.prems(1) and ok = Suc.prems(2)
  note refl = keep_refl [OF bdd_ok_state [OF ok]]
  have both: "bindE (sylvan_enum_do fuel z0 y cb p0 s) (\<lambda>t. sylvan_enum_do fuel (z2 t) y cb p1 t) = Inr r"
    if r: "bindE (sylvan_enum_par_do fuel z0 y cb p0 s) (\<lambda>t. sylvan_enum_par_do fuel z1 y cb p1 t) = Inr r"
      and z: "safe (snd s) z0" "bdd (nodes (snd s)) u0 z0 f0" "safe (snd s) z1" "bdd (nodes (snd s)) u1 z1 f1"
      and e: "\<And>t. keep (snd s) (snd t) \<Longrightarrow> z2 t = z1" for z0 z1 z2 y p0 p1 u0 f0 u1 f1
  proof -
    obtain t where t: "sylvan_enum_par_do fuel z0 y cb p0 s = Inr t" "sylvan_enum_par_do fuel z1 y cb p1 t = Inr r"
      using r by (auto simp: bindE_eq_Inr)
    have k: "bdd_ok (snd t)" "keep (snd s) (snd t)" using enum_par_keeps [OF cb ok t(1)] by auto
    have "sylvan_enum_do fuel z0 y cb p0 s = Inr t" by (rule Suc.IH [OF cb ok z(1,2) t(1)])
    moreover have "sylvan_enum_do fuel z1 y cb p1 t = Inr r"
      by (rule Suc.IH [OF cb k(1) keep_safe [OF k(2) z(3)] keep_bdd [OF k(2) z(3,4)] t(2)])
    ultimately show ?thesis using e [OF k(2)] by simp
  qed
  let ?n = "nodes (snd s)"
  consider "dd = mtbdd_false \<or> mtbdd_set_isempty x" | "dd \<noteq> mtbdd_false" "\<not> mtbdd_set_isempty x" "mtbdd_getvar ?n x < mtbdd_getvar ?n dd"
    | "dd \<noteq> mtbdd_false" "\<not> mtbdd_set_isempty x" "mtbdd_getvar ?n x = mtbdd_getvar ?n dd" "dd = mtbdd_true"
    | "dd \<noteq> mtbdd_false" "\<not> mtbdd_set_isempty x" "mtbdd_getvar ?n x = mtbdd_getvar ?n dd" "dd \<noteq> mtbdd_true"
    using Suc.prems(5) by (fastforce simp: Let_def split: if_splits)
  then show ?case
  proof cases
    case 1
    then show ?thesis using Suc.prems(5) by (cases "dd = mtbdd_false"; cases "dd = mtbdd_true") simp_all
  next
    case 2
    then show ?thesis
      using Suc.prems(5) both [of dd "mtbdd_set_next ?n x" _ dd _ _ _ _ _ "\<lambda>_. dd", OF _ Suc.prems(3,4,3,4)] by (simp add: Let_def)
  next
    case 3
    note te = true_edges [OF bdd_ok_table [OF ok]]
    show ?thesis
      using Suc.prems(5) 3 te both [of dd "mtbdd_set_next ?n x" _ dd _ _ _ _ _ "\<lambda>_. dd", OF _ Suc.prems(3,4,3,4)] by (simp add: Let_def)
  next
    case 4
    have nc: "MTBDD_INDEX dd \<noteq> 0" by (rule bdd_nonconst [OF Suc.prems(4) 4(4,1)])
    note se = safe_edges [OF ok Suc.prems(3,4) 4(4,1)]
    note be = bdd_inner(5,6) [OF Suc.prems(4) nc, folded mtbdd_getlow_def mtbdd_gethigh_def]
    have e: "mtbdd_gethigh (nodes (snd t)) dd = mtbdd_gethigh ?n dd" if "keep (snd s) (snd t)" for t
      using keep_node [OF that Suc.prems(3) nc] by (simp add: mtbdd_gethigh_def)
    show ?thesis
      using Suc.prems(5) 4 both [OF _ conjunct1 [OF se] be(1) conjunct2 [OF se] be(2), of "mtbdd_set_next ?n x" _ _ "\<lambda>t. mtbdd_gethigh (nodes (snd t)) dd", OF _ e]
      by (simp add: Let_def)
  qed
qed simp

section \<open>Collecting the results of a callback\<close>

lemma collect_do_gives:
  assumes cb: "\<And>a u. bdd_ok u \<Longrightarrow> onward st0 u \<Longrightarrow> gives keep u (cb a u) (\<lambda>h. h = g a)"
  shows "bdd_ok st \<Longrightarrow> onward st0 st \<Longrightarrow> safe st dd \<Longrightarrow> safe st x \<Longrightarrow> is_set (nodes st) vs x \<Longrightarrow> bdd (nodes st) 0 dd f \<Longrightarrow>
   depends_on f (set vs) \<Longrightarrow> length vs < fuel \<Longrightarrow>
   gives keep st (sylvan_collect_do fuel dd x cb path st) (\<lambda>h. h = (\<lambda>\<sigma>. \<exists>a \<in> set (sats f vs). g (rev (map snd path) @ a) \<sigma>))"
proof (induction fuel arbitrary: st dd x f vs path)
  case (Suc fuel)
  note ok = Suc.prems(1) and tb = bdd_ok_table [OF Suc.prems(1)]
  show ?case
  proof (cases "dd = mtbdd_false")
    case True
    then have "f = (\<lambda>_. False)" using bdd_false_fun [OF tb Suc.prems(6)] by blast
    then show ?thesis using True gc.gives_now [OF ok bdd.bdd_false] by simp
  next
    case nf: False
    show ?thesis
    proof (cases vs)
      case Nil
      have "f = (\<lambda>_. f (\<lambda>_. False))" using Suc.prems(7) Nil by (intro depends_none) simp
      moreover have "f \<noteq> (\<lambda>_. False)" using bdd_false_fun [OF tb Suc.prems(6)] nf by blast
      ultimately have t: "f = (\<lambda>_. True)" by (auto simp: fun_eq_iff)
      then show ?thesis
        using Nil nf is_set_true [OF tb Suc.prems(5)] cb [OF ok Suc.prems(2)] by (simp add: mtbdd_set_isempty_def)
    next
      case (Cons v ws)
      note s = Suc.prems(5) [unfolded Cons]
      note sn = set_node [OF tb s] and sh = set_node_held [OF ok Suc.prems(4) s]
      note dep = Suc.prems(7) [unfolded Cons]
      note sl = sat_level [OF tb s Suc.prems(6) dep nf]
      note se = safe_edges [OF ok Suc.prems(3,6) _ nf]
      define var where "var = mtbdd_getvar (nodes st) x"
      define y where "y = mtbdd_set_next (nodes st) x"
      have y: "is_set (nodes st) ws y" "safe st y"
        using sn(6) sh by (simp_all add: y_def mtbdd_set_next_def mtbdd_gethigh_def)
      have ne: "\<not> mtbdd_set_isempty x" using sn(2) by (simp add: mtbdd_set_isempty_def)
      have d: "depends_on (cof f v b) (set ws)" for b using dep by (auto intro: depends_cof)
      have len: "length ws < fuel" using Suc.prems(8) Cons by simp
      define pre where "pre = rev (map snd path)"
      define part where "part = (\<lambda>c b \<sigma>. \<exists>a \<in> set (sats (cof f v b) ws). g (pre @ c # a) \<sigma>)"
      have all: "(\<lambda>\<sigma>. \<exists>a \<in> set (sats f vs). g (pre @ a) \<sigma>) = (\<lambda>\<sigma>. part 0 False \<sigma> \<or> part 1 True \<sigma>)"
        by (auto simp: Cons part_def)
      have call: "gives keep u (sylvan_collect_do fuel z y cb ((var, c) # path) u) (\<lambda>h. h = part c b)"
        if u: "bdd_ok u" "onward st u" and z: "safe st z" "bdd (nodes st) 0 z (cof f v b)" for u z c b
        using Suc.IH [OF u(1) onward_trans [OF Suc.prems(2) u(2)] onward_safe [OF u(2) z(1)] onward_safe [OF u(2) y(2)]
            onward_set [OF u(2) y(2,1)] onward_bdd [OF u(2) z] d len, of "(var, c) # path"]
        by (simp add: part_def pre_def)
      have both: "gives keep st (bindE (sylvan_collect_do fuel z0 y cb ((var, 0) # path) st) (\<lambda>(low, st).
             pushed low (\<lambda>st. bindE (sylvan_collect_do fuel z1 y cb ((var, 1) # path) st) (\<lambda>(high, st).
               pushed high (sylvan_or set_fuel low high) st)) st)) (\<lambda>h. h = (\<lambda>\<sigma>. \<exists>a \<in> set (sats f vs). g (pre @ a) \<sigma>))"
        if z: "safe st z0" "bdd (nodes st) 0 z0 (cof f v False)" "safe st z1" "bdd (nodes st) 0 z1 (cof f v True)" for z0 z1
        unfolding all
      proof (rule gc.gives_bind [OF call [OF ok onward_keep [OF keep_refl [OF bdd_ok_state [OF ok]]] z(1,2)]], goal_cases)
        case L: (1 low t h)
        show ?case
          unfolding prod.case
        proof (rule gives_with_gives [OF pushed_onward [OF L(1,2,4)]], goal_cases)
          case U: (1 u)
          show ?case
          proof (rule gc.gives_bind [OF call [OF U(1,2) z(3,4)]], goal_cases)
            case H: (1 high w k)
            show ?case
              unfolding prod.case
            proof (rule gives_with_gives [OF pushed_onward [OF H(1,2,4)]], goal_cases)
              case (1 q)
              have "gives keep q (sylvan_or set_fuel low high q) (\<lambda>x. x = (\<lambda>\<sigma>. h \<sigma> \<or> k \<sigma>))"
                by (rule or_gives [OF 1(1) onward_safe [OF 1(2) U(3)] 1(3) onward_bdd [OF 1(2) U(3,4)] bdd_mono [OF 1(4) le0], where v = 0])
                  (use bdd_indep [OF L(4)] bdd_indep [OF H(4)] in \<open>auto simp: set_fuel_def\<close>)
              then show ?case using L(3) H(3) by simp
            qed
          qed
        qed
      qed
      consider "dd = mtbdd_true \<or> mtbdd_getvar (nodes st) dd \<noteq> var" | "dd \<noteq> mtbdd_true" "mtbdd_getvar (nodes st) dd = var"
        by blast
      then show ?thesis
      proof cases
        case 1
        note c = sl(1) [OF 1 [unfolded var_def]]
        have "dd = mtbdd_true \<or> var < mtbdd_getvar (nodes st) dd" using 1 sl(2) by (auto simp: var_def)
        then show ?thesis
          using both [of dd dd] Suc.prems(3,6) c nf ne
          by (auto simp: pre_def Let_def simp flip: var_def y_def)
      next
        case 2
        note c = sl(3,4) [OF 2 [unfolded var_def]] and se = se [OF 2(1)]
        show ?thesis
          using both [OF conjunct1 [OF se] c(1) conjunct2 [OF se] c(2)] 2 nf ne by (simp add: pre_def Let_def flip: var_def y_def)
      qed
    qed
  qed
qed simp

end
