(* ===== verification/BddRel.thy ===== *)
theory BddRel
  imports BddSat BddCare MtbddMaps
begin

text \<open>
  Relational products in \<open>sylvan_bdd.c\<close>: the states reached from a set in one step of a
  relation (\<open>sylvan_relnext\<close>) and the product of a relation with a relation or a set
  (\<open>sylvan_relprev\<close>). A relation has the states before and after a step in pairs of
  variables, an even one and the next; the pairs are those of a set, or all of them.
\<close>

section \<open>Operations\<close>

text \<open>The variable of a diagram; that of a constant is below all others.\<close>

definition rel_var :: "sylvan \<Rightarrow> u64 \<Rightarrow> u32" where
  "rel_var st x = (if sylvan_isconst x then 0xffffffff else getvar st x)"

definition rel_cofactors :: "sylvan \<Rightarrow> u32 \<Rightarrow> u64 \<Rightarrow> u64 \<times> u64" where
  "rel_cofactors st level x =
    (if \<not> sylvan_isconst x \<and> getvar st x = level then
       (mtbddnode_followlow x (MTBDD_GETNODE (nodes st) x), mtbddnode_followhigh x (MTBDD_GETNODE (nodes st) x))
     else (x, x))"

text \<open>
  The loop that drops variables until the level is of the first pair or above it. The result
  says whether it is of the pair.
\<close>

primrec rel_skip :: "nat \<Rightarrow> llmsset \<Rightarrow> u64 \<Rightarrow> u32 \<Rightarrow> serror + (bool \<times> u64)" where
  "rel_skip 0 dbs vars level = Inl OutOfFuel"
| "rel_skip (Suc k) dbs vars level =
    (let nv = MTBDD_GETNODE dbs vars;
         vv = mtbddnode_getvariable nv
     in if level = vv \<or> level XOR 1 = vv then Inr (True, vars)
        else if level < vv then Inr (False, vars)
        else
          let vars = mtbddnode_followhigh vars nv
          in if mtbdd_set_isempty vars then Inr (False, vars) else rel_skip k dbs vars level)"

definition rel_pairs :: "llmsset \<Rightarrow> u64 \<Rightarrow> u32 \<Rightarrow> serror + (bool \<times> u64)" where
  "rel_pairs dbs vars level = (if vars = mtbdd_false then Inr (True, vars) else rel_skip set_fuel dbs vars level)"

text \<open>What is left of the variables after a pair; \<open>sylvan_relprev\<close> also drops a second variable of it.\<close>

definition rel_rest :: "llmsset \<Rightarrow> u64 \<Rightarrow> u64" where
  "rel_rest dbs vars = (if vars = mtbdd_false then mtbdd_false else mtbdd_set_next dbs vars)"

definition rel_rest_both :: "llmsset \<Rightarrow> u32 \<Rightarrow> u64 \<Rightarrow> u64" where
  "rel_rest_both dbs t vars =
    (if vars \<noteq> mtbdd_false then
       (let v = mtbdd_set_next dbs vars in if mtbdd_set_first dbs v = t then mtbdd_set_next dbs v else v)
     else mtbdd_false)"

text \<open>Four products, the disjunctions of the first two and of the last two, and a node.\<close>

definition rel_join ::
  "u32 \<Rightarrow> (sylvan \<Rightarrow> serror + (u64 \<times> sylvan)) \<Rightarrow> (sylvan \<Rightarrow> serror + (u64 \<times> sylvan)) \<Rightarrow>
   (sylvan \<Rightarrow> serror + (u64 \<times> sylvan)) \<Rightarrow> (sylvan \<Rightarrow> serror + (u64 \<times> sylvan)) \<Rightarrow> sylvan \<Rightarrow> serror + (u64 \<times> sylvan)" where
  "rel_join level mf me md mc st =
    bindE (mf st) (\<lambda>(f, st). bindE (me (mtbdd_refs_push f st)) (\<lambda>(e, st).
    bindE (md (mtbdd_refs_push e st)) (\<lambda>(d, st). bindE (mc (mtbdd_refs_push d st)) (\<lambda>(c, st).
    bindE (sylvan_ite set_fuel e mtbdd_true f 0 (mtbdd_refs_push c st)) (\<lambda>(r1, st).
    bindE (sylvan_ite set_fuel c mtbdd_true d 0 (mtbdd_refs_push r1 st)) (\<lambda>(r0, st).
      mtbdd_makenode level r0 r1 (mtbdd_refs_pop 5 st)))))))"

text \<open>Two products and a node.\<close>

definition rel_node ::
  "u32 \<Rightarrow> (sylvan \<Rightarrow> serror + (u64 \<times> sylvan)) \<Rightarrow> (sylvan \<Rightarrow> serror + (u64 \<times> sylvan)) \<Rightarrow> sylvan \<Rightarrow> serror + (u64 \<times> sylvan)" where
  "rel_node level mh ml st =
    bindE (mh st) (\<lambda>(r1, st). bindE (pushed r1 ml st) (\<lambda>(r0, st). mtbdd_makenode level r0 r1 st))"

primrec sylvan_relnext :: "nat \<Rightarrow> u64 \<Rightarrow> u64 \<Rightarrow> u64 \<Rightarrow> u32 \<Rightarrow> sylvan \<Rightarrow> serror + (u64 \<times> sylvan)" where
  "sylvan_relnext 0 a b vars prev_level st = Inl OutOfFuel"
| "sylvan_relnext (Suc fuel) a b vars prev_level st =
    (if a = mtbdd_true \<and> b = mtbdd_true then Inr (mtbdd_true, st)
     else if a = mtbdd_false then Inr (mtbdd_false, st)
     else if b = mtbdd_false then Inr (mtbdd_false, st)
     else if mtbdd_set_isempty vars then Inr (a, st)
     else
     let level = min_level (rel_var st a) (rel_var st b)
     in bindE (rel_pairs (nodes st) vars level) (\<lambda>(is_s_or_t, vars).
     if mtbdd_set_isempty vars then Inr (a, st)
     else
     let cn = cachenow st prev_level level
     in case try_cache st cn CACHE_BDD_RELNEXT a b vars of Some r \<Rightarrow> Inr (r, st) | None \<Rightarrow>
        bindE
          (if is_s_or_t then
             (let s = level AND NOT 1;
                  t = s + 1;
                  (a0, a1) = rel_cofactors st s a;
                  (b0, b1) = rel_cofactors st s b;
                  (b00, b01) = rel_cofactors st t b0;
                  (b10, b11) = rel_cofactors st t b1;
                  vars' = rel_rest (nodes st) vars
              in rel_join s (sylvan_relnext fuel a1 b11 vars' level) (sylvan_relnext fuel a0 b01 vars' level)
                   (sylvan_relnext fuel a1 b10 vars' level) (sylvan_relnext fuel a0 b00 vars' level) st)
           else
             (let (a0, a1) = rel_cofactors st level a;
                  (b0, b1) = rel_cofactors st level b
              in if b0 \<noteq> b1 then
                   (if a0 = a1 then
                      bindE (sylvan_relnext fuel a1 b1 vars level st) (\<lambda>(r1, st).
                      pushed r1 (\<lambda>st. bindE (sylvan_relnext fuel a0 b0 vars level st) (\<lambda>(r0, st).
                      pushed r0 (sylvan_or set_fuel r0 r1) st)) st)
                    else
                      rel_join level (sylvan_relnext fuel a1 b1 vars level) (sylvan_relnext fuel a1 b0 vars level)
                        (sylvan_relnext fuel a0 b1 vars level) (sylvan_relnext fuel a0 b0 vars level) st)
                 else
                   rel_node level (sylvan_relnext fuel a1 b1 vars level) (sylvan_relnext fuel a0 b0 vars level) st))
          (\<lambda>(result, st). Inr (result, put_cache cn CACHE_BDD_RELNEXT a b vars result st))))"

text \<open>
  The product of a cofactor of the relation with \<open>x\<close>, whose cofactors at the variable \<open>t\<close>
  are \<open>x0\<close> and \<open>x1\<close>.
\<close>

definition rel_half ::
  "(u64 \<Rightarrow> u64 \<Rightarrow> sylvan \<Rightarrow> serror + (u64 \<times> sylvan)) \<Rightarrow> u32 \<Rightarrow> u64 \<Rightarrow> u64 \<Rightarrow> u64 \<Rightarrow> u64 \<Rightarrow> sylvan \<Rightarrow> serror + (u64 \<times> sylvan)" where
  "rel_half call t a x x0 x1 st =
    (if x0 = x1 then call a x st
     else
       bindE (call a x1 st) (\<lambda>(r1, st).
       pushed r1 (\<lambda>st. bindE (call a x0 st) (\<lambda>(r0, st). pushed r0 (mtbdd_makenode t r0 r1) st)) st))"

text \<open>Four products, their two disjunctions by conjunctions of the complements, and a node.\<close>

definition rel_join_not ::
  "u32 \<Rightarrow> (sylvan \<Rightarrow> serror + (u64 \<times> sylvan)) \<Rightarrow> (sylvan \<Rightarrow> serror + (u64 \<times> sylvan)) \<Rightarrow>
   (sylvan \<Rightarrow> serror + (u64 \<times> sylvan)) \<Rightarrow> (sylvan \<Rightarrow> serror + (u64 \<times> sylvan)) \<Rightarrow> sylvan \<Rightarrow> serror + (u64 \<times> sylvan)" where
  "rel_join_not level m11 m01 m10 m00 st =
    bindE (m11 st) (\<lambda>(r11, st). bindE (m01 (mtbdd_refs_push r11 st)) (\<lambda>(r01, st).
    bindE (m10 (mtbdd_refs_push r01 st)) (\<lambda>(r10, st). bindE (m00 (mtbdd_refs_push r10 st)) (\<lambda>(r00, st).
    bindE (sylvan_and set_fuel (mtbdd_not r10) (mtbdd_not r11) 0 (mtbdd_refs_push r00 st)) (\<lambda>(n1, st).
    bindE (sylvan_and set_fuel (mtbdd_not r00) (mtbdd_not r01) 0 (mtbdd_refs_push n1 st)) (\<lambda>(n0, st).
      mtbdd_makenode level (mtbdd_not n0) (mtbdd_not n1) (mtbdd_refs_pop 5 st)))))))"

primrec sylvan_relprev :: "nat \<Rightarrow> u64 \<Rightarrow> u64 \<Rightarrow> u64 \<Rightarrow> u32 \<Rightarrow> sylvan \<Rightarrow> serror + (u64 \<times> sylvan)" where
  "sylvan_relprev 0 a b vars prev_level st = Inl OutOfFuel"
| "sylvan_relprev (Suc fuel) a b vars prev_level st =
    (if a = mtbdd_true \<and> b = mtbdd_true then Inr (mtbdd_true, st)
     else if a = mtbdd_false then Inr (mtbdd_false, st)
     else if b = mtbdd_false then Inr (mtbdd_false, st)
     else if mtbdd_set_isempty vars then Inr (b, st)
     else
     let level = min_level (rel_var st a) (rel_var st b)
     in bindE (rel_pairs (nodes st) vars level) (\<lambda>(is_s_or_t, vars).
     if mtbdd_set_isempty vars then Inr (b, st)
     else
     let cn = cachenow st prev_level level
     in case try_cache st cn CACHE_BDD_RELPREV a b vars of Some r \<Rightarrow> Inr (r, st) | None \<Rightarrow>
        bindE
          (if is_s_or_t then
             (let s = level AND NOT 1;
                  t = s + 1;
                  (a0, a1) = rel_cofactors st s a;
                  (b0, b1) = rel_cofactors st s b;
                  (a00, a01) = rel_cofactors st t a0;
                  (a10, a11) = rel_cofactors st t a1;
                  (b00, b01) = rel_cofactors st t b0;
                  (b10, b11) = rel_cofactors st t b1;
                  vars' = rel_rest_both (nodes st) t vars;
                  call = (\<lambda>x y. sylvan_relprev fuel x y vars' level)
              in rel_join_not s (rel_half call t a11 b1 b10 b11) (rel_half call t a01 b1 b10 b11)
                   (rel_half call t a10 b0 b00 b01) (rel_half call t a00 b0 b00 b01) st)
           else
             (let (a0, a1) = rel_cofactors st level a;
                  (b0, b1) = rel_cofactors st level b
              in if a0 \<noteq> a1 then
                   (if b0 = b1 then
                      bindE (sylvan_relprev fuel a1 b1 vars level st) (\<lambda>(r1, st).
                      pushed r1 (\<lambda>st. bindE (sylvan_relprev fuel a0 b0 vars level st) (\<lambda>(r0, st).
                      pushed r0 (sylvan_ite set_fuel r0 mtbdd_true r1 0) st)) st)
                    else
                      rel_join level (sylvan_relnext fuel a1 b1 vars level) (sylvan_relnext fuel a0 b1 vars level)
                        (sylvan_relnext fuel a1 b0 vars level) (sylvan_relnext fuel a0 b0 vars level) st)
                 else
                   rel_node level (sylvan_relprev fuel a1 b1 vars level) (sylvan_relprev fuel a0 b0 vars level) st))
          (\<lambda>(result, st). Inr (result, put_cache cn CACHE_BDD_RELPREV a b vars result st))))"

section \<open>Runs with pushed references\<close>

lemma keep_pop: "keep u t \<Longrightarrow> keep (mtbdd_refs_pop k u) (mtbdd_refs_pop k t)"
proof -
  assume k: "keep u t"
  then obtain n c where t: "t = u\<lparr>nodes := n, ocache := c\<rparr>" by (auto simp: keep_def same_but_tables_def)
  have "roots (mtbdd_refs_pop k u) \<subseteq> roots u" by (auto simp: mtbdd_refs_pop_def roots_def dest: in_set_dropD)
  then have "reach (nodes u) (roots (mtbdd_refs_pop k u)) d \<Longrightarrow> reach (nodes u) (roots u) d" for d by (rule reach_mono [rotated])
  moreover have "same_but_tables (mtbdd_refs_pop k u) (mtbdd_refs_pop k t)"
    unfolding same_but_tables_def by (intro exI [of _ n] exI [of _ c]) (simp add: t mtbdd_refs_pop_def)
  ultimately show "keep (mtbdd_refs_pop k u) (mtbdd_refs_pop k t)" using k unfolding keep_def by simp
qed

text \<open>
  \<open>u\<close> is a state reached from \<open>s\<close> with \<open>k\<close> references pushed, the last of which are the
  diagrams of \<open>xs\<close> with their functions.
\<close>

definition run_at :: "sylvan \<Rightarrow> nat \<Rightarrow> (u64 \<times> bfun) list \<Rightarrow> sylvan \<Rightarrow> bool" where
  "run_at s k xs u \<longleftrightarrow> bdd_ok u \<and> onward s u \<and> keep s (mtbdd_refs_pop k u) \<and>
     (\<forall>(x, f) \<in> set xs. safe u x \<and> bdd (nodes u) 0 x f)"

lemma run_start: "bdd_ok s \<Longrightarrow> run_at s 0 [] s"
  using keep_refl [OF bdd_ok_state] onward_keep [OF keep_refl [OF bdd_ok_state]]
  by (simp add: run_at_def mtbdd_refs_pop_def)

lemma run_ok: "run_at s k xs u \<Longrightarrow> bdd_ok u" "run_at s k xs u \<Longrightarrow> onward s u"
  by (simp_all add: run_at_def)

lemma run_has: "run_at s k xs u \<Longrightarrow> (x, f) \<in> set xs \<Longrightarrow> safe u x \<and> bdd (nodes u) 0 x f"
  by (auto simp: run_at_def)

lemma run_push: "run_at s k xs u \<Longrightarrow> bdd (nodes u) v x f \<Longrightarrow> run_at s (Suc k) ((x, f) # xs) (mtbdd_refs_push x u)"
proof -
  assume r: "run_at s k xs u" and b: "bdd (nodes u) v x f"
  have "mtbdd_refs_pop (Suc k) (mtbdd_refs_push x u) = mtbdd_refs_pop k u"
    by (simp add: mtbdd_refs_pop_def mtbdd_refs_push_def)
  moreover have "onward u (mtbdd_refs_push x u)" by (auto simp: onward_def push_safe)
  ultimately show "run_at s (Suc k) ((x, f) # xs) (mtbdd_refs_push x u)"
    using r push_bdd_ok [OF run_ok(1) [OF r] bdd_valid [OF b]] push_safe push_safe_new [OF bdd_dd_word [OF b]]
      bdd_mono [OF b le0] by (auto simp: run_at_def intro: onward_trans)
qed

lemma run_keep: "run_at s k xs u \<Longrightarrow> bdd_ok t \<Longrightarrow> keep u t \<Longrightarrow> run_at s k xs t"
  by (auto simp: run_at_def intro: keep_trans [OF _ keep_pop] onward_trans [OF _ onward_keep] keep_safe keep_bdd)

lemma run_room: "run_at s k xs u \<Longrightarrow> max_size (nodes u) = max_size (nodes s)"
  by (simp add: run_at_def keep_def)

lemma run_bind:
  assumes r: "run_at s k xs u" and m: "gives keep u m P"
    and K: "\<And>r t f. run_at s k xs t \<Longrightarrow> P f \<Longrightarrow> bdd (nodes t) 0 r f \<Longrightarrow> gives keep s (K (r, t)) Q"
  shows "gives keep s (bindE m K) Q"
proof (cases m)
  case (Inl e)
  then show ?thesis using m stops_cong [OF run_room [OF r]] by (simp add: gives_def)
next
  case (Inr rt)
  obtain r' t where rt: "rt = (r', t)" by (cases rt)
  from m obtain f where "bdd_ok t" "keep u t" "P f" "bdd (nodes t) 0 r' f"
    unfolding Inr rt gives_def yields_Inr by blast
  then show ?thesis using K run_keep [OF r] by (simp add: Inr rt)
qed

lemma run_pop: "run_at s k xs u \<Longrightarrow> gives keep (mtbdd_refs_pop k u) m P \<Longrightarrow> gives keep s m P"
  unfolding run_at_def by (elim conjE) (rule gc.gives_from)

lemma run_pop_ok: "run_at s k xs u \<Longrightarrow> bdd_ok (mtbdd_refs_pop k u)"
  using pop_bdd_ok run_ok(1) by blast

text \<open>The parts that the operations are made of.\<close>

lemma indep_zero [simp]: "indep 0 f"
proof -
  have "(\<forall>i. \<sigma> i = \<tau> i) \<longleftrightarrow> \<sigma> = \<tau>" for \<sigma> \<tau> :: "nat \<Rightarrow> bool" by auto
  then show ?thesis by (simp add: indep_def)
qed

lemma ite_or_gives:
  assumes "bdd_ok u" "safe u a \<and> bdd (nodes u) 0 a f" "safe u b \<and> bdd (nodes u) 0 b g"
  shows "gives keep u (sylvan_ite set_fuel a mtbdd_true b p u) (\<lambda>h. h = (\<lambda>\<sigma>. f \<sigma> \<or> g \<sigma>))"
proof -
  have "ite_fun f (\<lambda>_. True) g = (\<lambda>\<sigma>. f \<sigma> \<or> g \<sigma>)" by (auto simp: ite_fun_def)
  then show ?thesis
    using sylvan_ite_gives [OF assms(1) _ safe_const(1) _ _ bdd.bdd_true, of a b f g 0 set_fuel p] assms(2,3)
    by (simp add: set_fuel_def)
qed

lemma not_and_gives:
  assumes "bdd_ok u" "safe u a \<and> bdd (nodes u) 0 a f" "safe u b \<and> bdd (nodes u) 0 b g"
  shows "gives keep u (sylvan_and set_fuel (mtbdd_not a) (mtbdd_not b) p u) (\<lambda>h. h = (\<lambda>\<sigma>. True \<noteq> (f \<sigma> \<or> g \<sigma>)))"
  using sylvan_and_gives [OF assms(1) safe_not safe_not bdd_not bdd_not, of a b f g 0 set_fuel p] assms(2,3)
  by (simp add: set_fuel_def)

definition calls :: "sylvan \<Rightarrow> (sylvan \<Rightarrow> serror + (u64 \<times> sylvan)) \<Rightarrow> bfun \<Rightarrow> bool" where
  "calls s m f \<longleftrightarrow> (\<forall>u. bdd_ok u \<longrightarrow> onward s u \<longrightarrow> gives keep u (m u) (\<lambda>h. h = f))"

lemma callsD: "calls s m f \<Longrightarrow> run_at s k xs u \<Longrightarrow> gives keep u (m u) (\<lambda>h. h = f)"
  by (simp add: calls_def run_ok)

lemma calls_now: "calls s m f \<Longrightarrow> bdd_ok s \<Longrightarrow> gives keep s (m s) (\<lambda>h. h = f)"
  using callsD run_start by blast

lemma run_call:
  assumes r: "run_at s k xs u" and m: "calls s m F"
    and K: "\<And>x t. run_at s (Suc k) ((x, F) # xs) (mtbdd_refs_push x t) \<Longrightarrow> gives keep s (K (x, t)) Q"
  shows "gives keep s (bindE (m u) K) Q"
  by (rule run_bind [OF r callsD [OF m r]]) (use K run_push in blast)

text \<open>Four calls, each result pushed.\<close>

lemma run_four:
  assumes ok: "bdd_ok s" and m: "calls s mf F" "calls s me E" "calls s md D" "calls s mc C"
    and K: "\<And>f e d c u. run_at s 4 [(c, C), (d, D), (e, E), (f, F)] (mtbdd_refs_push c u) \<Longrightarrow> gives keep s (K f e d c u) Q"
  shows "gives keep s (bindE (mf s) (\<lambda>(f, st). bindE (me (mtbdd_refs_push f st)) (\<lambda>(e, st).
    bindE (md (mtbdd_refs_push e st)) (\<lambda>(d, st). bindE (mc (mtbdd_refs_push d st)) (\<lambda>(c, st). K f e d c st))))) Q"
  apply (rule run_call [OF run_start [OF ok] m(1)], unfold prod.case)
  apply (erule run_call [OF _ m(2)], unfold prod.case)
  apply (erule run_call [OF _ m(3)], unfold prod.case)
  apply (erule run_call [OF _ m(4)], unfold prod.case)
  apply (rule K, simp add: eval_nat_numeral)
  done

text \<open>Two disjunctions, the first of which is pushed, and a node.\<close>

lemma run_finish:
  assumes r: "run_at s 4 xs u" and m1: "gives keep u m1 (\<lambda>h. h = (\<lambda>\<sigma>. n \<noteq> G1 \<sigma>))"
    and m0: "\<And>x t. run_at s 5 ((x, \<lambda>\<sigma>. n \<noteq> G1 \<sigma>) # xs) t \<Longrightarrow> gives keep t (m0 t) (\<lambda>h. h = (\<lambda>\<sigma>. n \<noteq> G0 \<sigma>))"
    and i: "indep (Suc (unat level)) G0" "indep (Suc (unat level)) G1" and l: "unat level < 2 ^ 24"
  shows "gives keep s (bindE m1 (\<lambda>(r1, st). bindE (m0 (mtbdd_refs_push r1 st)) (\<lambda>(r0, st).
    mtbdd_makenode level (mark_result n r0) (mark_result n r1) (mtbdd_refs_pop 5 st)))) (\<lambda>h. h = branch (unat level) G0 G1)"
proof (rule run_bind [OF r m1], goal_cases)
  case (1 r1 t f)
  have p: "run_at s 5 ((r1, \<lambda>\<sigma>. n \<noteq> G1 \<sigma>) # xs) (mtbdd_refs_push r1 t)"
    using run_push [OF 1(1) 1(3)] 1(2) by (simp add: eval_nat_numeral)
  show ?case
    unfolding prod.case
  proof (rule run_bind [OF p m0 [OF p]], goal_cases)
    case (1 r0 v g)
    have nn: "(\<lambda>\<sigma>. \<not> (n \<noteq> h \<sigma>)) = h" if n for h :: bfun using that by auto
    have "bdd (nodes v) 0 (mark_result n r0) G0" "bdd (nodes v) 0 (mark_result n r1) G1"
      using 1(2,3) run_has [OF 1(1), of r1] bdd_not [of "nodes v" 0 r0 g] bdd_not [of "nodes v" 0 r1 "\<lambda>\<sigma>. n \<noteq> G1 \<sigma>"] nn
      by (auto simp: mark_result_def)
    then show ?case
      unfolding prod.case by (intro run_pop [OF 1(1) gc.mk_gives [OF run_pop_ok [OF 1(1)] _ _ i l]]) simp_all
  qed
qed

lemma indep_or: "indep v f \<Longrightarrow> indep v g \<Longrightarrow> indep v (\<lambda>\<sigma>. f \<sigma> \<or> g \<sigma>)"
  unfolding indep_def by metis

lemma rel_join_gives:
  assumes ok: "bdd_ok s" and m: "calls s mf F" "calls s me E" "calls s md D" "calls s mc C"
    and i: "indep (Suc (unat level)) F" "indep (Suc (unat level)) E" "indep (Suc (unat level)) D" "indep (Suc (unat level)) C"
    and l: "unat level < 2 ^ 24"
  shows "gives keep s (rel_join level mf me md mc s)
    (\<lambda>h. h = branch (unat level) (\<lambda>\<sigma>. C \<sigma> \<or> D \<sigma>) (\<lambda>\<sigma>. E \<sigma> \<or> F \<sigma>))"
  unfolding rel_join_def
proof (rule run_four [OF ok m], goal_cases)
  case (1 f e d c u)
  have o1: "gives keep (mtbdd_refs_push c u) (sylvan_ite set_fuel e mtbdd_true f 0 (mtbdd_refs_push c u)) (\<lambda>h. h = (\<lambda>\<sigma>. False \<noteq> (E \<sigma> \<or> F \<sigma>)))"
    using ite_or_gives [OF run_ok(1) [OF 1] run_has [OF 1, of e E] run_has [OF 1, of f F]] by simp
  have o0: "gives keep t (sylvan_ite set_fuel c mtbdd_true d 0 t) (\<lambda>h. h = (\<lambda>\<sigma>. False \<noteq> (C \<sigma> \<or> D \<sigma>)))"
    if r: "run_at s 5 ((x, \<lambda>\<sigma>. False \<noteq> (E \<sigma> \<or> F \<sigma>)) # [(c, C), (d, D), (e, E), (f, F)]) t" for x t
    using ite_or_gives [OF run_ok(1) [OF r] run_has [OF r, of c C] run_has [OF r, of d D]] by simp
  show ?case
    using run_finish [OF 1 o1 o0 indep_or [OF i(4,3)] indep_or [OF i(2,1)] l] by (simp add: mark_result_def)
qed

lemma rel_join_not_gives:
  assumes ok: "bdd_ok s" and m: "calls s m11 F" "calls s m01 E" "calls s m10 D" "calls s m00 C"
    and i: "indep (Suc (unat level)) F" "indep (Suc (unat level)) E" "indep (Suc (unat level)) D" "indep (Suc (unat level)) C"
    and l: "unat level < 2 ^ 24"
  shows "gives keep s (rel_join_not level m11 m01 m10 m00 s)
    (\<lambda>h. h = branch (unat level) (\<lambda>\<sigma>. C \<sigma> \<or> E \<sigma>) (\<lambda>\<sigma>. D \<sigma> \<or> F \<sigma>))"
  unfolding rel_join_not_def
proof (rule run_four [OF ok m], goal_cases)
  case (1 f e d c u)
  have o1: "gives keep (mtbdd_refs_push c u) (sylvan_and set_fuel (mtbdd_not d) (mtbdd_not f) 0 (mtbdd_refs_push c u)) (\<lambda>h. h = (\<lambda>\<sigma>. True \<noteq> (D \<sigma> \<or> F \<sigma>)))"
    by (rule not_and_gives [OF run_ok(1) [OF 1] run_has [OF 1] run_has [OF 1]]) simp_all
  have o0: "gives keep t (sylvan_and set_fuel (mtbdd_not c) (mtbdd_not e) 0 t) (\<lambda>h. h = (\<lambda>\<sigma>. True \<noteq> (C \<sigma> \<or> E \<sigma>)))"
    if r: "run_at s 5 ((x, \<lambda>\<sigma>. True \<noteq> (D \<sigma> \<or> F \<sigma>)) # [(c, C), (d, D), (e, E), (f, F)]) t" for x t
    by (rule not_and_gives [OF run_ok(1) [OF r] run_has [OF r] run_has [OF r]]) simp_all
  show ?case
    using run_finish [OF 1 o1 o0 indep_or [OF i(4,2)] indep_or [OF i(3,1)] l] by (simp add: mark_result_def)
qed

lemma rel_node_gives:
  assumes ok: "bdd_ok s" and m: "calls s mh (cof H (unat level) True)" "calls s ml (cof H (unat level) False)"
    and i: "indep (unat level) H" "unat level < 2 ^ 24"
  shows "gives keep s (rel_node level mh ml s) (\<lambda>h. h = H)"
  unfolding rel_node_def
  by (rule keep_level_rev [OF ok calls_now [OF m(1) ok] _ i]) (use m(2) in \<open>simp add: calls_def\<close>)

section \<open>Products of functions\<close>

text \<open>
  A product depends on a pair only as far as the arguments do, and splits by the values of
  the variables of a pair, or of a variable that is in no pair.
\<close>

lemma rel_next_cong:
  assumes "indep v f" "indep v g" "\<And>i. v \<le> Suc i \<Longrightarrow> i \<in> S \<longleftrightarrow> i \<in> T"
  shows "rel_next S f g = rel_next T f g"
proof -
  have "f (\<lambda>i. if i \<in> S then \<rho> i else \<sigma> i) = f (\<lambda>i. if i \<in> T then \<rho> i else \<sigma> i)" for \<rho> \<sigma>
    by (rule indepD [OF assms(1)]) (simp add: assms(3))
  moreover have "g (\<lambda>i. if odd i \<and> i - 1 \<in> S then \<sigma> (i - 1) else \<rho> i) = g (\<lambda>i. if odd i \<and> i - 1 \<in> T then \<sigma> (i - 1) else \<rho> i)" for \<rho> \<sigma>
    by (rule indepD [OF assms(2)]) (auto simp: assms(3) elim: oddE)
  ultimately show ?thesis by (simp add: rel_next_def)
qed

lemma rel_prev_cong:
  assumes "indep v f" "indep v g" "\<And>i. v \<le> i \<Longrightarrow> i \<in> S \<longleftrightarrow> i \<in> T"
  shows "rel_prev S f g = rel_prev T f g"
proof -
  have "f (\<lambda>i. if i \<in> S then \<sigma> i else \<rho> i) = f (\<lambda>i. if i \<in> T then \<sigma> i else \<rho> i)" for \<rho> \<sigma>
    by (rule indepD [OF assms(1)]) (simp add: assms(3))
  moreover have "g (\<lambda>i. if i \<in> S then \<rho> (i + 1) else \<sigma> i) = g (\<lambda>i. if i \<in> T then \<rho> (i + 1) else \<sigma> i)" for \<rho> \<sigma>
    by (rule indepD [OF assms(2)]) (simp add: assms(3))
  ultimately show ?thesis by (simp add: rel_prev_def)
qed

lemma indep_rel_next:
  assumes "indep v f" "indep v g" "odd v \<Longrightarrow> v - 1 \<notin> S"
  shows "indep v (rel_next S f g)"
  unfolding indep_def
proof (intro allI impI)
  fix \<sigma> \<tau> :: "nat \<Rightarrow> bool" assume e: "\<forall>i \<ge> v. \<sigma> i = \<tau> i"
  have "f (\<lambda>i. if i \<in> S then \<rho> i else \<sigma> i) = f (\<lambda>i. if i \<in> S then \<rho> i else \<tau> i)" for \<rho>
    by (rule indepD [OF assms(1)]) (simp add: e)
  moreover have "g (\<lambda>i. if odd i \<and> i - 1 \<in> S then \<sigma> (i - 1) else \<rho> i) = g (\<lambda>i. if odd i \<and> i - 1 \<in> S then \<tau> (i - 1) else \<rho> i)" for \<rho>
  proof (rule indepD [OF assms(2)])
    fix i assume "v \<le> i"
    then show "(if odd i \<and> i - 1 \<in> S then \<sigma> (i - 1) else \<rho> i) = (if odd i \<and> i - 1 \<in> S then \<tau> (i - 1) else \<rho> i)"
      using e assms(3) by (cases "i = v") auto
  qed
  ultimately show "rel_next S f g \<sigma> = rel_next S f g \<tau>" by (simp add: rel_next_def)
qed

lemma indep_rel_prev:
  assumes "indep v f" "indep v g"
  shows "indep v (rel_prev S f g)"
  unfolding indep_def
proof (intro allI impI)
  fix \<sigma> \<tau> :: "nat \<Rightarrow> bool" assume e: "\<forall>i \<ge> v. \<sigma> i = \<tau> i"
  have "f (\<lambda>i. if i \<in> S then \<sigma> i else \<rho> i) = f (\<lambda>i. if i \<in> S then \<tau> i else \<rho> i)" for \<rho>
    by (rule indepD [OF assms(1)]) (simp add: e)
  moreover have "g (\<lambda>i. if i \<in> S then \<rho> (i + 1) else \<sigma> i) = g (\<lambda>i. if i \<in> S then \<rho> (i + 1) else \<tau> i)" for \<rho>
    by (rule indepD [OF assms(2)]) (simp add: e)
  ultimately show "rel_prev S f g \<sigma> = rel_prev S f g \<tau>" by (simp add: rel_prev_def)
qed

lemma ex_split: "(\<exists>\<rho>. P \<rho>) \<longleftrightarrow> (\<exists>\<rho>. P (\<rho>(i := False))) \<or> (\<exists>\<rho>. P (\<rho>(i := True)))" for P :: "(nat \<Rightarrow> bool) \<Rightarrow> bool"
proof
  assume "\<exists>\<rho>. P \<rho>"
  then obtain \<rho> where "P \<rho>" ..
  then have "P (\<rho>(i := \<rho> i))" by simp
  then show "(\<exists>\<rho>. P (\<rho>(i := False))) \<or> (\<exists>\<rho>. P (\<rho>(i := True)))" by (cases "\<rho> i") auto
qed auto

text \<open>The successors, by the value of the source variable \<open>s\<close> of a pair.\<close>

lemma rel_next_pair:
  assumes s: "s \<in> S" "\<And>i. i \<in> S \<Longrightarrow> even i"
  shows "cof (rel_next S f g) s b =
    (\<lambda>\<sigma>. rel_next (S - {s}) (cof f s False) (cof (cof g s False) (Suc s) b) \<sigma> \<or>
      rel_next (S - {s}) (cof f s True) (cof (cof g s True) (Suc s) b) \<sigma>)"
proof (rule ext)
  fix \<sigma> :: "nat \<Rightarrow> bool"
  have p: "(\<lambda>i. if i \<in> S then (\<rho>(s := c)) i else (\<sigma>(s := b)) i) = (\<lambda>i. if i \<in> S - {s} then \<rho> i else \<sigma> i)(s := c)" for \<rho> c
    using s(1) by (auto simp: fun_eq_iff)
  have q: "(\<lambda>i. if odd i \<and> i - 1 \<in> S then (\<sigma>(s := b)) (i - 1) else (\<rho>(s := c)) i) =
      (\<lambda>i. if odd i \<and> i - 1 \<in> S - {s} then \<sigma> (i - 1) else \<rho> i)(Suc s := b, s := c)" for \<rho> c
    using s(1) s(2) [OF s(1)] by (auto simp: fun_eq_iff)
  have "cof (rel_next S f g) s b \<sigma> \<longleftrightarrow> (\<exists>\<rho>. f (\<lambda>i. if i \<in> S then \<rho> i else (\<sigma>(s := b)) i) \<and>
      g (\<lambda>i. if odd i \<and> i - 1 \<in> S then (\<sigma>(s := b)) (i - 1) else \<rho> i))"
    by (simp add: cof_def rel_next_def)
  also have "\<dots> \<longleftrightarrow> (\<exists>\<rho>. f ((\<lambda>i. if i \<in> S - {s} then \<rho> i else \<sigma> i)(s := False)) \<and>
        g ((\<lambda>i. if odd i \<and> i - 1 \<in> S - {s} then \<sigma> (i - 1) else \<rho> i)(Suc s := b, s := False))) \<or>
      (\<exists>\<rho>. f ((\<lambda>i. if i \<in> S - {s} then \<rho> i else \<sigma> i)(s := True)) \<and>
        g ((\<lambda>i. if odd i \<and> i - 1 \<in> S - {s} then \<sigma> (i - 1) else \<rho> i)(Suc s := b, s := True)))"
    by (subst ex_split [where i = s]) (simp only: p q)
  finally show "cof (rel_next S f g) s b \<sigma> = (rel_next (S - {s}) (cof f s False) (cof (cof g s False) (Suc s) b) \<sigma> \<or>
      rel_next (S - {s}) (cof f s True) (cof (cof g s True) (Suc s) b) \<sigma>)"
    by (simp add: cof_def rel_next_def)
qed

lemma rel_next_other:
  assumes l: "l \<notin> S" "odd l \<Longrightarrow> l - 1 \<notin> S"
  shows "cof (rel_next S f g) l b = (\<lambda>\<sigma>. rel_next S (cof f l b) (cof g l False) \<sigma> \<or> rel_next S (cof f l b) (cof g l True) \<sigma>)"
proof (rule ext)
  fix \<sigma> :: "nat \<Rightarrow> bool"
  have p: "(\<lambda>i. if i \<in> S then (\<rho>(l := c)) i else (\<sigma>(l := b)) i) = (\<lambda>i. if i \<in> S then \<rho> i else \<sigma> i)(l := b)" for \<rho> c
    using l(1) by (auto simp: fun_eq_iff)
  have q: "(\<lambda>i. if odd i \<and> i - 1 \<in> S then (\<sigma>(l := b)) (i - 1) else (\<rho>(l := c)) i) =
      (\<lambda>i. if odd i \<and> i - 1 \<in> S then \<sigma> (i - 1) else \<rho> i)(l := c)" for \<rho> c
    using l by (auto simp: fun_eq_iff)
  have "cof (rel_next S f g) l b \<sigma> \<longleftrightarrow> (\<exists>\<rho>. f (\<lambda>i. if i \<in> S then \<rho> i else (\<sigma>(l := b)) i) \<and>
      g (\<lambda>i. if odd i \<and> i - 1 \<in> S then (\<sigma>(l := b)) (i - 1) else \<rho> i))"
    by (simp add: cof_def rel_next_def)
  also have "\<dots> \<longleftrightarrow> (\<exists>\<rho>. f ((\<lambda>i. if i \<in> S then \<rho> i else \<sigma> i)(l := b)) \<and> g ((\<lambda>i. if odd i \<and> i - 1 \<in> S then \<sigma> (i - 1) else \<rho> i)(l := False))) \<or>
      (\<exists>\<rho>. f ((\<lambda>i. if i \<in> S then \<rho> i else \<sigma> i)(l := b)) \<and> g ((\<lambda>i. if odd i \<and> i - 1 \<in> S then \<sigma> (i - 1) else \<rho> i)(l := True)))"
    by (subst ex_split [where i = l]) (simp only: p q)
  finally show "cof (rel_next S f g) l b \<sigma> = (rel_next S (cof f l b) (cof g l False) \<sigma> \<or> rel_next S (cof f l b) (cof g l True) \<sigma>)"
    by (simp add: cof_def rel_next_def)
qed

text \<open>The product, by the value of the source variable, where the middle is the target variable.\<close>

lemma rel_prev_pair:
  assumes s: "s \<in> S" "\<And>i. i \<in> S \<Longrightarrow> even i"
  shows "cof (rel_prev S f g) s b =
    (\<lambda>\<sigma>. rel_prev (S - {s}) (cof (cof f s b) (Suc s) False) (cof g s False) \<sigma> \<or>
      rel_prev (S - {s}) (cof (cof f s b) (Suc s) True) (cof g s True) \<sigma>)"
proof (rule ext)
  fix \<sigma> :: "nat \<Rightarrow> bool"
  have p: "(\<lambda>i. if i \<in> S then (\<sigma>(s := b)) i else (\<rho>(Suc s := c)) i) =
      (\<lambda>i. if i \<in> S - {s} then \<sigma> i else \<rho> i)(Suc s := c, s := b)" for \<rho> c
    using s(1) s(2) [of "Suc s"] s(2) [OF s(1)] by (auto simp: fun_eq_iff)
  have q: "(\<lambda>i. if i \<in> S then (\<rho>(Suc s := c)) (i + 1) else (\<sigma>(s := b)) i) =
      (\<lambda>i. if i \<in> S - {s} then \<rho> (i + 1) else \<sigma> i)(s := c)" for \<rho> c
    using s(1) by (auto simp: fun_eq_iff)
  have "cof (rel_prev S f g) s b \<sigma> \<longleftrightarrow> (\<exists>\<rho>. f (\<lambda>i. if i \<in> S then (\<sigma>(s := b)) i else \<rho> i) \<and>
      g (\<lambda>i. if i \<in> S then \<rho> (i + 1) else (\<sigma>(s := b)) i))"
    by (simp add: cof_def rel_prev_def)
  also have "\<dots> \<longleftrightarrow> (\<exists>\<rho>. f ((\<lambda>i. if i \<in> S - {s} then \<sigma> i else \<rho> i)(Suc s := False, s := b)) \<and>
        g ((\<lambda>i. if i \<in> S - {s} then \<rho> (i + 1) else \<sigma> i)(s := False))) \<or>
      (\<exists>\<rho>. f ((\<lambda>i. if i \<in> S - {s} then \<sigma> i else \<rho> i)(Suc s := True, s := b)) \<and>
        g ((\<lambda>i. if i \<in> S - {s} then \<rho> (i + 1) else \<sigma> i)(s := True)))"
    by (subst ex_split [where i = "Suc s"]) (simp only: p q)
  finally show "cof (rel_prev S f g) s b \<sigma> = (rel_prev (S - {s}) (cof (cof f s b) (Suc s) False) (cof g s False) \<sigma> \<or>
      rel_prev (S - {s}) (cof (cof f s b) (Suc s) True) (cof g s True) \<sigma>)"
    by (simp add: cof_def rel_prev_def)
qed

lemma rel_prev_target:
  assumes "t \<notin> S" "\<And>i. t = Suc i \<Longrightarrow> i \<notin> S"
  shows "cof (rel_prev S f g) t b = rel_prev S f (cof g t b)"
proof (rule ext)
  fix \<sigma> :: "nat \<Rightarrow> bool"
  have p: "(\<lambda>i. if i \<in> S then (\<sigma>(t := b)) i else \<rho> i) = (\<lambda>i. if i \<in> S then \<sigma> i else \<rho> i)" for \<rho> :: "nat \<Rightarrow> bool"
    using assms(1) by (auto simp: fun_eq_iff)
  have q: "(\<lambda>i. if i \<in> S then \<rho> (i + 1) else (\<sigma>(t := b)) i) = (\<lambda>i. if i \<in> S then \<rho> (i + 1) else \<sigma> i)(t := b)" for \<rho>
    using assms(1) by (auto simp: fun_eq_iff)
  have "cof (rel_prev S f g) t b \<sigma> \<longleftrightarrow> (\<exists>\<rho>. f (\<lambda>i. if i \<in> S then (\<sigma>(t := b)) i else \<rho> i) \<and>
      g (\<lambda>i. if i \<in> S then \<rho> (i + 1) else (\<sigma>(t := b)) i))"
    by (simp add: cof_def rel_prev_def)
  then show "cof (rel_prev S f g) t b \<sigma> = rel_prev S f (cof g t b) \<sigma>"
    by (simp only: p q) (simp add: cof_def rel_prev_def)
qed

lemma rel_prev_free:
  assumes l: "l \<notin> S" "\<And>i. l = Suc i \<Longrightarrow> i \<notin> S"
  shows "rel_prev S f g = (\<lambda>\<sigma>. rel_prev S (cof f l False) g \<sigma> \<or> rel_prev S (cof f l True) g \<sigma>)"
proof (rule ext)
  fix \<sigma> :: "nat \<Rightarrow> bool"
  have p: "(\<lambda>i. if i \<in> S then \<sigma> i else (\<rho>(l := c)) i) = (\<lambda>i. if i \<in> S then \<sigma> i else \<rho> i)(l := c)" for \<rho> c
    using l(1) by (auto simp: fun_eq_iff)
  have q: "(\<lambda>i. if i \<in> S then (\<rho>(l := c)) (i + 1) else \<sigma> i) = (\<lambda>i. if i \<in> S then \<rho> (i + 1) else \<sigma> i)" for \<rho> c
    using l(2) by (auto simp: fun_eq_iff)
  have "rel_prev S f g \<sigma> \<longleftrightarrow> (\<exists>\<rho>. f (\<lambda>i. if i \<in> S then \<sigma> i else \<rho> i) \<and> g (\<lambda>i. if i \<in> S then \<rho> (i + 1) else \<sigma> i))"
    by (simp add: rel_prev_def)
  also have "\<dots> \<longleftrightarrow> (\<exists>\<rho>. f ((\<lambda>i. if i \<in> S then \<sigma> i else \<rho> i)(l := False)) \<and> g (\<lambda>i. if i \<in> S then \<rho> (i + 1) else \<sigma> i)) \<or>
      (\<exists>\<rho>. f ((\<lambda>i. if i \<in> S then \<sigma> i else \<rho> i)(l := True)) \<and> g (\<lambda>i. if i \<in> S then \<rho> (i + 1) else \<sigma> i))"
    by (subst ex_split [where i = l]) (simp only: p q)
  finally show "rel_prev S f g \<sigma> = (rel_prev S (cof f l False) g \<sigma> \<or> rel_prev S (cof f l True) g \<sigma>)"
    by (simp add: cof_def rel_prev_def)
qed

lemma rel_empty:
  "rel_next {} f g = (\<lambda>\<sigma>. f \<sigma> \<and> (\<exists>\<rho>. g \<rho>))" "rel_prev {} f g = (\<lambda>\<sigma>. g \<sigma> \<and> (\<exists>\<rho>. f \<rho>))"
  by (auto simp: rel_next_def rel_prev_def)

lemma rel_const:
  "rel_next S (\<lambda>_. True) (\<lambda>_. True) = (\<lambda>_. True)" "rel_next S (\<lambda>_. False) g = (\<lambda>_. False)" "rel_next S f (\<lambda>_. False) = (\<lambda>_. False)"
  "rel_prev S (\<lambda>_. True) (\<lambda>_. True) = (\<lambda>_. True)" "rel_prev S (\<lambda>_. False) g = (\<lambda>_. False)" "rel_prev S f (\<lambda>_. False) = (\<lambda>_. False)"
  by (auto simp: rel_next_def rel_prev_def)

section \<open>Pairs of variables\<close>

lemma even_unat: "even w \<longleftrightarrow> even (unat w)" for w :: u32
  by transfer (simp add: even_take_bit_eq even_nat_iff)

lemma unat_xor_one: "unat (w XOR 1) = (if even (unat w) then Suc (unat w) else unat w - 1)" for w :: u32
proof (cases "even (unat w)")
  case True
  then have "w XOR 1 = w + 1" using even_unat by (simp add: xor_one_eq)
  moreover have "w \<noteq> - 1" using True even_unat [of w] by auto
  ultimately show ?thesis using True by (metis unatSuc eq_neg_iff_add_eq_0 add.commute)
next
  case False
  then have "w XOR 1 = w - 1" using even_unat by (simp add: xor_one_eq)
  moreover have "w \<noteq> 0" using False by auto
  ultimately show ?thesis using False by (simp add: unat_minus_one)
qed

text \<open>The source variable of the pair of a variable.\<close>

abbreviation pair_src :: "nat \<Rightarrow> nat" where
  "pair_src i \<equiv> i - i mod 2"

lemma src_div: "pair_src i = 2 * (i div 2)"
  by (simp add: minus_mod_eq_mult_div)

lemma src_eq: "pair_src i = pair_src j \<longleftrightarrow> i div 2 = j div 2"
  by (simp add: src_div)

lemma src_step: "l = w \<or> (if even l then Suc l else l - 1) = w \<longleftrightarrow> pair_src l = pair_src w"
  unfolding src_eq by (cases "even l"; cases "even w"; auto elim!: evenE oddE; presburger)

lemma src_between: "l < w \<Longrightarrow> w \<le> i \<Longrightarrow> pair_src l = pair_src i \<Longrightarrow> pair_src l = pair_src w"
  unfolding src_eq using div_le_mono [of l w 2] div_le_mono [of w i 2] by simp

lemma src_below: "w \<le> l \<Longrightarrow> pair_src l \<noteq> pair_src w \<Longrightarrow> l \<le> Suc i \<Longrightarrow> i \<noteq> pair_src w"
  unfolding src_eq using div_le_mono [of w l 2] by (auto simp: src_div)

lemma unat_and_not_one: "unat (w AND NOT 1) = pair_src (unat w)" for w :: u32
proof -
  have "w AND NOT 1 = push_bit 1 (drop_bit 1 w)"
    by (rule bit_word_eqI)
      (auto simp only: bit_and_iff bit_not_iff bit_push_bit_iff bit_drop_bit_eq bit_1_iff comp_def possible_bit_word le_add_diff_inverse)
  also have "\<dots> = 2 * drop_bit 1 w" by (simp add: push_bit_eq_mult)
  finally have a: "w AND NOT 1 = 2 * drop_bit 1 w" .
  have d: "unat (drop_bit 1 w) = unat w div 2" by (simp add: drop_bit_eq_div unat_div)
  have "2 * (unat w div 2) < 2 ^ 32" using unsigned_less [of w, where ?'a = nat] by simp
  then have "unat (2 * drop_bit 1 w) = 2 * (unat w div 2)"
    by (subst unat_mult_lem [THEN iffD1]) (simp_all add: d [simplified])
  then show ?thesis using a by (simp add: minus_mod_eq_mult_div)
qed

lemma src_even: "even (pair_src i)"
  by presburger

lemma same_pair: "l = w \<or> l XOR 1 = w \<longleftrightarrow> pair_src (unat l) = pair_src (unat w)" for l w :: u32
  unfolding word_unat_eq_iff [where 'a = 32] unat_xor_one by (rule src_step)

lemma rel_vars_true: "rel_vars n mtbdd_false {i. even i}"
  by (simp add: rel_vars_def)

lemma rel_vars_set: "is_set n vs x \<Longrightarrow> rel_vars n x (pair_src ` set vs)"
  unfolding rel_vars_def is_set_def by blast

lemma rel_vars_cases:
  assumes "rel_vars n x S"
  obtains "x = mtbdd_false" "S = {i. even i}" | vs where "x \<noteq> mtbdd_false" "is_set n vs x" "S = pair_src ` set vs"
proof -
  from assms consider "x = mtbdd_false" "S = {i. even i}" | V where "finite V" "bdd n 0 x (cube_fun V)" "S = pair_src ` V"
    unfolding rel_vars_def by blast
  then show ?thesis
  proof cases
    case 2
    have "is_set n (sorted_list_of_set V) x" using 2 by (simp add: is_set_def)
    moreover have "x \<noteq> mtbdd_false"
    proof
      assume "x = mtbdd_false"
      then have "cube_fun V = (\<lambda>_. False)" using 2(2) by (simp add: bdd_false_iff)
      moreover have "cube_fun V (\<lambda>_. True)" by (simp add: cube_fun_def)
      ultimately show False by simp
    qed
    ultimately show ?thesis using that(2) 2 by simp
  qed (rule that(1))
qed

lemma rel_vars_even: "rel_vars n x S \<Longrightarrow> i \<in> S \<Longrightarrow> even i"
  by (auto simp: rel_vars_def src_even)

lemma rel_vars_fun: "rel_vars n x S \<Longrightarrow> rel_vars n x T \<Longrightarrow> S = T"
  by (elim rel_vars_cases) (use is_set_cube cube_set_eq in \<open>metis+\<close>)

lemma rel_vars_empty: "table_ok n \<Longrightarrow> rel_vars n x S \<Longrightarrow> mtbdd_set_isempty x \<longleftrightarrow> S = {}"
  by (erule rel_vars_cases) (auto simp: mtbdd_set_isempty_def is_set_true intro: exI [of _ "0 :: nat"])

lemma onward_rel_vars: "onward s u \<Longrightarrow> safe s x \<Longrightarrow> rel_vars (nodes s) x S \<Longrightarrow> rel_vars (nodes u) x S"
  unfolding rel_vars_def by (auto dest: onward_bdd)

text \<open>
  What is left of the variables at a level; \<open>q\<close> says whether the level is of a pair, which then
  is the first one.
\<close>

lemma rel_skip_spec:
  "bdd_ok st \<Longrightarrow> safe st x \<Longrightarrow> is_set (nodes st) vs x \<Longrightarrow> vs \<noteq> [] \<Longrightarrow> length vs < k \<Longrightarrow>
   \<exists>q y ws. rel_skip k (nodes st) x level = Inr (q, y) \<and> safe st y \<and> is_set (nodes st) ws y \<and>
     (\<forall>i. unat level \<le> Suc i \<longrightarrow> (i \<in> pair_src ` set vs \<longleftrightarrow> i \<in> pair_src ` set ws)) \<and>
     (q \<longleftrightarrow> pair_src (unat level) \<in> pair_src ` set ws) \<and> (q \<longrightarrow> pair_src (hd ws) = pair_src (unat level))"
proof (induction k arbitrary: vs x)
  case (Suc k)
  note tb = bdd_ok_table [OF Suc.prems(1)]
  obtain w ws where vs: "vs = w # ws" using Suc.prems(4) by (cases vs) auto
  note s = Suc.prems(3) [unfolded vs]
  note sn = set_node [OF tb s]
  define vv where "vv = mtbddnode_getvariable (MTBDD_GETNODE (nodes st) x)"
  have asc: "\<forall>i \<in> set ws. w < i" using s by (simp add: is_set_def)
  have w: "unat vv = w" using sn(3) by (simp add: vv_def)
  consider "level = vv \<or> level XOR 1 = vv" | "\<not> (level = vv \<or> level XOR 1 = vv)" "level < vv"
    | "\<not> (level = vv \<or> level XOR 1 = vv)" "\<not> level < vv" by blast
  then show ?case
  proof cases
    case 1
    then have "pair_src (unat level) = pair_src w" using same_pair [of level vv] w by simp
    then show ?thesis
      using 1 Suc.prems(2) s by (intro exI [of _ True] exI [of _ x] exI [of _ vs]) (simp add: vs Let_def flip: vv_def)
  next
    case 2
    have "pair_src (unat level) \<noteq> pair_src i" if "i \<in> set vs" for i
    proof
      assume e: "pair_src (unat level) = pair_src i"
      have "w \<le> i" using that asc by (auto simp: vs)
      moreover have "unat level < w" using 2(2) w by (simp add: word_less_nat_alt)
      moreover have "pair_src (unat level) \<noteq> pair_src w" using 2(1) same_pair [of level vv] w by simp
      ultimately show False using e src_between by blast
    qed
    then show ?thesis
      using 2 Suc.prems(2,3) by (intro exI [of _ False] exI [of _ x] exI [of _ vs]) (auto simp: Let_def simp flip: vv_def)
  next
    case 3
    have "pair_src (unat level) \<noteq> pair_src w" "w \<le> unat level"
      using 3 same_pair [of level vv] w by (auto simp: word_less_nat_alt)
    then have "i \<noteq> pair_src w" if "unat level \<le> Suc i" for i using that src_below by blast
    then have e: "\<forall>i. unat level \<le> Suc i \<longrightarrow> (i \<in> pair_src ` set vs \<longleftrightarrow> i \<in> pair_src ` set ws)" by (auto simp: vs)
    let ?y = "mtbddnode_followhigh x (MTBDD_GETNODE (nodes st) x)"
    have y: "safe st ?y" "is_set (nodes st) ws ?y" using set_node_held [OF Suc.prems(1,2) s] sn(6) by simp_all
    show ?thesis
    proof (cases "ws = []")
      case True
      then have "mtbdd_set_isempty ?y" using is_set_true [OF tb y(2)] by (simp add: mtbdd_set_isempty_def)
      then show ?thesis
        using 3 y e True by (intro exI [of _ False] exI [of _ ?y] exI [of _ ws]) (auto simp: Let_def simp flip: vv_def)
    next
      case False
      then have "\<not> mtbdd_set_isempty ?y" using is_set_true [OF tb y(2)] by (simp add: mtbdd_set_isempty_def)
      then have "rel_skip (Suc k) (nodes st) x level = rel_skip k (nodes st) ?y level"
        using 3 by (simp add: Let_def flip: vv_def)
      then show ?thesis using Suc.IH [OF Suc.prems(1) y False] Suc.prems(5) e by (simp add: vs)
    qed
  qed
qed simp

definition pair_first :: "llmsset \<Rightarrow> u64 \<Rightarrow> nat \<Rightarrow> bool" where
  "pair_first n y p \<longleftrightarrow> (\<forall>w ws. y \<noteq> mtbdd_false \<longrightarrow> is_set n (w # ws) y \<longrightarrow> pair_src w = p)"

lemma rel_pairs_at:
  assumes ok: "bdd_ok st" and s: "safe st x" "rel_vars (nodes st) x S" "\<not> mtbdd_set_isempty x"
  obtains q y T where "rel_pairs (nodes st) x level = Inr (q, y)" "safe st y" "rel_vars (nodes st) y T"
    "\<forall>i. unat level \<le> Suc i \<longrightarrow> (i \<in> S \<longleftrightarrow> i \<in> T)" "q \<longleftrightarrow> pair_src (unat level) \<in> T"
    "q \<longrightarrow> pair_first (nodes st) y (pair_src (unat level))"
  using s(2)
proof (cases rule: rel_vars_cases)
  case 1
  then show ?thesis using that [of True x S] s(1,2) by (simp add: rel_pairs_def src_even pair_first_def)
next
  case (2 vs)
  have "vs \<noteq> []" using is_set_true [OF bdd_ok_table [OF ok] 2(2)] s(3) by (auto simp: mtbdd_set_isempty_def)
  moreover have "length vs < set_fuel" using set_bound [OF bdd_ok_table [OF ok] 2(2)] by (simp add: set_fuel_def)
  ultimately obtain q y ws where y: "rel_skip set_fuel (nodes st) x level = Inr (q, y)" "safe st y" "is_set (nodes st) ws y"
    "\<forall>i. unat level \<le> Suc i \<longrightarrow> (i \<in> pair_src ` set vs \<longleftrightarrow> i \<in> pair_src ` set ws)"
    "q \<longleftrightarrow> pair_src (unat level) \<in> pair_src ` set ws" "q \<longrightarrow> pair_src (hd ws) = pair_src (unat level)"
    using rel_skip_spec [OF ok s(1) 2(2)] by blast
  have p: "rel_pairs (nodes st) x level = Inr (q, y)" using 2(1) y(1) by (simp add: rel_pairs_def)
  show ?thesis
  proof (rule that [OF p y(2) rel_vars_set [OF y(3)] _ y(5)])
    show "\<forall>i. unat level \<le> Suc i \<longrightarrow> (i \<in> S \<longleftrightarrow> i \<in> pair_src ` set ws)" using y(4) 2(3) by simp
    show "q \<longrightarrow> pair_first (nodes st) y (pair_src (unat level))"
      unfolding pair_first_def
    proof (intro impI allI)
      fix w us assume q: "q" "is_set (nodes st) (w # us) y"
      have "set (w # us) = set ws" by (rule cube_set_eq [OF is_set_cube [OF q(2)] y(3)])
      then have "ws = w # us" using y(3) q(2) strict_sorted_equal unfolding is_set_def by blast
      then show "pair_src w = pair_src (unat level)" using y(6) q(1) by simp
    qed
  qed
qed

section \<open>Levels and cofactors\<close>

lemma const_bdd:
  assumes "sylvan_isconst x" "bdd n v x f"
  shows "bdd n u x f" "indep u f" "cof f i b = f"
  using assms by (auto simp: sylvan_isconst_def bdd_true_iff bdd_false_iff cof_def indep_def intro: bdd.intros)

lemma nonconst_index: "\<not> sylvan_isconst x \<Longrightarrow> bdd n v x f \<Longrightarrow> MTBDD_INDEX x \<noteq> 0"
  unfolding sylvan_isconst_def using bdd_nonconst by blast

lemma rel_level:
  assumes tb: "table_ok (nodes st)" and b: "bdd (nodes st) 0 a f" "bdd (nodes st) 0 b g" and i: "indep v f" "indep v g"
    and t: "\<not> (a = mtbdd_true \<and> b = mtbdd_true)" "a \<noteq> mtbdd_false" "b \<noteq> mtbdd_false"
  defines "l \<equiv> min_level (rel_var st a) (rel_var st b)"
  shows "v \<le> unat l \<and> unat l < 2 ^ 24 \<and> indep (unat l) f \<and> indep (unat l) g"
proof -
  have at: "indep (unat (rel_var st x)) h \<and> (if sylvan_isconst x then rel_var st x = 0xffffffff
      else v \<le> unat (rel_var st x) \<and> unat (rel_var st x) < 2 ^ 24)"
    if x: "bdd (nodes st) 0 x h" "indep v h" for x h
  proof (cases "sylvan_isconst x")
    case True
    then show ?thesis using const_bdd [OF True x(1)] by (simp add: rel_var_def)
  next
    case False
    then show ?thesis
      using bdd_getvar [OF bdd_level [OF tb x] nonconst_index [OF False x(1)]] by (simp add: rel_var_def)
  qed
  have m: "unat l = min (unat (rel_var st a)) (unat (rel_var st b))"
    by (simp add: l_def min_level_def word_less_nat_alt min_def)
  have nc: "\<not> (sylvan_isconst a \<and> sylvan_isconst b)" using t by (auto simp: sylvan_isconst_def)
  have big: "x = 0xffffffff \<Longrightarrow> y < 2 ^ 24 \<Longrightarrow> y < unat x" for x :: u32 and y by simp
  have "indep (unat l) f" using indep_mono [OF conjunct1 [OF at [OF b(1) i(1)]]] m by simp
  moreover have "indep (unat l) g" using indep_mono [OF conjunct1 [OF at [OF b(2) i(2)]]] m by simp
  moreover have "v \<le> unat l \<and> unat l < 2 ^ 24"
    using conjunct2 [OF at [OF b(1) i(1)]] conjunct2 [OF at [OF b(2) i(2)]] nc big m by (auto split: if_splits)
  ultimately show ?thesis by simp
qed

lemma rel_cofactors_bdd:
  assumes ok: "bdd_ok st" and s: "safe st x" and b: "bdd (nodes st) v x f" and i: "indep (unat l) f"
    and c: "(lo, hi) = rel_cofactors st l x"
  shows "bdd (nodes st) (Suc (unat l)) lo (cof f (unat l) False)" "safe st lo"
    "bdd (nodes st) (Suc (unat l)) hi (cof f (unat l) True)" "safe st hi"
proof (atomize (full), cases "sylvan_isconst x")
  case True
  then have "lo = x" "hi = x" using c by (simp_all add: rel_cofactors_def)
  then show "(bdd (nodes st) (Suc (unat l)) lo (cof f (unat l) False) \<and> safe st lo) \<and>
      bdd (nodes st) (Suc (unat l)) hi (cof f (unat l) True) \<and> safe st hi"
    using const_bdd [OF True b] s by simp
next
  case False
  then have "rel_cofactors st l x = cofactors st l x"
    by (auto simp: rel_cofactors_def cofactors_def getvar_def Let_def)
  then show "(bdd (nodes st) (Suc (unat l)) lo (cof f (unat l) False) \<and> safe st lo) \<and>
      bdd (nodes st) (Suc (unat l)) hi (cof f (unat l) True) \<and> safe st hi"
    using gc.level_cofactors [OF ok s b nonconst_index [OF False b] i, of lo hi] c by simp
qed

text \<open>The numbers of the two variables of a pair at a level.\<close>

lemma pair_words:
  fixes l :: u32
  assumes "unat l < 2 ^ 24"
  shows "unat (l AND NOT 1) = pair_src (unat l)" "unat ((l AND NOT 1) + 1) = Suc (pair_src (unat l))"
    "pair_src (unat l) \<le> unat l" "unat l \<le> Suc (pair_src (unat l))" "Suc (pair_src (unat l)) < 2 ^ 24"
proof -
  show a: "unat (l AND NOT 1) = pair_src (unat l)" by (rule unat_and_not_one)
  show "pair_src (unat l) \<le> unat l" "unat l \<le> Suc (pair_src (unat l))" by presburger+
  show b: "Suc (pair_src (unat l)) < 2 ^ 24"
  proof -
    have "even (pair_src (unat l))" by (rule src_even)
    moreover have "pair_src (unat l) < 2 ^ 24" using assms by simp
    moreover have "even (2 ^ 24 :: nat)" by simp
    ultimately show ?thesis by (metis Suc_lessI even_Suc)
  qed
  then have "unat (l AND NOT 1) + unat (1 :: u32) < 2 ^ LENGTH(32)" unfolding a by simp
  from unat_add_lem [THEN iffD1, OF this] show "unat ((l AND NOT 1) + 1) = Suc (pair_src (unat l))"
    unfolding a by (simp only: unat_1 Suc_eq_plus1)
qed

lemma rel_rest_at:
  assumes ok: "bdd_ok st" and s: "safe st y" "rel_vars (nodes st) y T" "T \<noteq> {}"
    and h: "pair_first (nodes st) y p"
  obtains T' where "safe st (rel_rest (nodes st) y)" "rel_vars (nodes st) (rel_rest (nodes st) y) T'" "T' \<subseteq> T"
    "\<forall>i. Suc p \<le> i \<longrightarrow> (i \<in> T \<longleftrightarrow> i \<in> T')"
    "y \<noteq> mtbdd_false \<longrightarrow> (\<exists>vs. is_set (nodes st) vs (rel_rest (nodes st) y) \<and> T' = pair_src ` set vs \<and> (\<forall>i \<in> set vs. p < i))"
  using s(2)
proof (cases rule: rel_vars_cases)
  case 1
  then show ?thesis using that [of T] s(1,2) by (simp add: rel_rest_def)
next
  case (2 vs)
  then obtain w ws where vs: "vs = w # ws" using s(3) by (cases vs) auto
  note x = 2(2) [unfolded vs]
  note sn = set_node [OF bdd_ok_table [OF ok] x]
  have p: "pair_src w = p" using h 2(1) x unfolding pair_first_def by blast
  have e: "rel_rest (nodes st) y = mtbddnode_followhigh y (MTBDD_GETNODE (nodes st) y)"
    using 2(1) by (simp add: rel_rest_def mtbdd_set_next_def mtbdd_gethigh_def)
  have asc: "\<forall>i \<in> set ws. w < i" using x by (simp add: is_set_def)
  show ?thesis
  proof (rule that [of "pair_src ` set ws"])
    show "safe st (rel_rest (nodes st) y)" unfolding e by (rule set_node_held [OF ok s(1) x])
    show "rel_vars (nodes st) (rel_rest (nodes st) y) (pair_src ` set ws)" unfolding e by (rule rel_vars_set [OF sn(6)])
    show "pair_src ` set ws \<subseteq> T" using 2(3) vs by auto
    show "\<forall>i. Suc p \<le> i \<longrightarrow> (i \<in> T \<longleftrightarrow> i \<in> pair_src ` set ws)" using p by (auto simp: 2(3) vs)
    show "y \<noteq> mtbdd_false \<longrightarrow> (\<exists>vs. is_set (nodes st) vs (rel_rest (nodes st) y) \<and> pair_src ` set ws = pair_src ` set vs \<and> (\<forall>i \<in> set vs. p < i))"
      unfolding e using sn(6) asc p by (intro impI exI [of _ ws]) auto
  qed
qed

section \<open>The successors of a set of states\<close>

lemma depends_Int: "depends_on f X \<Longrightarrow> depends_on f Y \<Longrightarrow> depends_on f (X \<inter> Y)"
  unfolding depends_on_def
proof (intro allI impI)
  fix \<sigma> \<tau> :: "nat \<Rightarrow> bool"
  assume f: "\<forall>\<sigma> \<tau>. (\<forall>i \<in> X. \<sigma> i = \<tau> i) \<longrightarrow> f \<sigma> = f \<tau>" "\<forall>\<sigma> \<tau>. (\<forall>i \<in> Y. \<sigma> i = \<tau> i) \<longrightarrow> f \<sigma> = f \<tau>"
    and e: "\<forall>i \<in> X \<inter> Y. \<sigma> i = \<tau> i"
  let ?m = "\<lambda>i. if i \<in> X then \<sigma> i else \<tau> i"
  have "f \<sigma> = f ?m" using f(1) by simp
  also have "f ?m = f \<tau>" using f(2) e by auto
  finally show "f \<sigma> = f \<tau>" .
qed

lemma indep_skip: "indep v f \<Longrightarrow> depends_on f X \<Longrightarrow> v \<notin> X \<Longrightarrow> indep (Suc v) f"
  unfolding indep_depends by (drule (1) depends_Int, erule depends_on_mono) (auto simp: Suc_le_eq le_less)

lemma rel_both:
  assumes ok: "bdd_ok s" and m: "calls s m1 F1" "calls s m0 F0"
    and k: "\<And>u r0 r1. bdd_ok u \<Longrightarrow> safe u r0 \<and> bdd (nodes u) 0 r0 F0 \<Longrightarrow> safe u r1 \<and> bdd (nodes u) 0 r1 F1 \<Longrightarrow>
      gives keep u (c r0 r1 u) P"
  shows "gives keep s (bindE (m1 s) (\<lambda>(r1, st). pushed r1 (\<lambda>st. bindE (m0 st) (\<lambda>(r0, st). pushed r0 (c r0 r1) st)) st)) P"
proof (rule gc.gives_bind [OF calls_now [OF m(1) ok]], goal_cases)
  case A: (1 r1 t f)
  show ?case
    unfolding prod.case
  proof (rule gives_with_gives [OF pushed_onward [OF A(1,2,4)]], goal_cases)
    case B: (1 u)
    show ?case
    proof (rule gc.gives_bind [OF m(2) [unfolded calls_def, rule_format, OF B(1,2)]], goal_cases)
      case C: (1 r0 w g)
      show ?case
        unfolding prod.case
      proof (rule gives_with_gives [OF pushed_onward [OF C(1,2,4)]], goal_cases)
        case (1 z)
        then show ?case
          using k [OF 1(1), of r0 r1] C(3) A(3) onward_safe [OF 1(2) B(3)] onward_bdd [OF 1(2) B(3,4)] by simp
      qed
    qed
  qed
qed

lemma or_gives_at:
  assumes "bdd_ok u" "safe u a \<and> bdd (nodes u) 0 a f" "safe u b \<and> bdd (nodes u) 0 b g"
  shows "gives keep u (sylvan_or set_fuel a b u) (\<lambda>h. h = (\<lambda>\<sigma>. f \<sigma> \<or> g \<sigma>))"
  using or_gives [OF assms(1), of a b f g 0 set_fuel] assms(2,3) by (simp add: set_fuel_def)

lemma op_sem_REL:
  "op_sem CACHE_BDD_RELNEXT n a b c r \<longleftrightarrow> rel_sem rel_next n a b c r"
  "op_sem CACHE_BDD_RELPREV n a b c r \<longleftrightarrow> rel_sem rel_prev n a b c r"
  by (simp_all add: op_sem_def op_defs push_bit_eq_mult)

lemma rel_op_nonzero: "CACHE_BDD_RELNEXT \<noteq> 0" "CACHE_BDD_RELPREV \<noteq> 0" "CACHE_BDD_CLOSURE \<noteq> 0"
  by (simp_all add: op_defs)

lemma rel_sem_fun:
  "bdd n v a f \<Longrightarrow> bdd n u b g \<Longrightarrow> rel_vars n x S \<Longrightarrow> rel_sem R n a b x r \<longleftrightarrow> bdd n 0 r (R S f g)"
  unfolding rel_sem_def using bdd_fun rel_vars_fun bdd_mono [OF _ le0] by metis

text \<open>The frame of both operations: what the cache has, and what is put into it.\<close>

lemma rel_frame:
  assumes ok: "bdd_ok st" and s: "safe st a" "safe st b" "safe st y"
    and b: "bdd (nodes st) 0 a f" "bdd (nodes st) 0 b g" and y: "rel_vars (nodes st) y T"
    and op: "op_word op" "op \<noteq> 0" "\<And>n a b c r. op_sem op n a b c r \<longleftrightarrow> rel_sem R n a b c r"
    and m: "gives keep st m (\<lambda>h. h = R T f g)"
  shows "gives keep st (case try_cache st cn op a b y of Some r \<Rightarrow> Inr (r, st) | None \<Rightarrow>
    bindE m (\<lambda>(r, t). Inr (r, put_cache cn op a b y r t))) (\<lambda>h. h = R T f g)"
proof (cases "try_cache st cn op a b y")
  case (Some r)
  have "a OR op \<noteq> 0" using op(2) by (simp add: or_eq_0_iff)
  from try_cache_sem [OF ok bdd_dd_word [OF b(1)] op(1) this Some]
  have "bdd (nodes st) 0 r (R T f g)" unfolding op(3) rel_sem_fun [OF b y] .
  then show ?thesis using gc.gives_now [OF ok, of 0 r "R T f g"] Some by simp
next
  case None
  have "gives keep st (bindE m (\<lambda>(r, t). Inr (r, put_cache cn op a b y r t))) (\<lambda>h. h = R T f g)"
  proof (rule gc.gives_put [OF m bdd_dd_word [OF b(1)] op(1)])
    fix t r h assume t: "keep st t" "h = R T f g" "bdd (nodes t) 0 r h"
    note o = onward_keep [OF t(1)]
    show "op_sem op (nodes t) a b y r"
      unfolding op(3) rel_sem_fun [OF onward_bdd [OF o s(1) b(1)] onward_bdd [OF o s(2) b(2)] onward_rel_vars [OF o s(3) y]]
      using t(2,3) by simp
  qed
  then show ?thesis using None by simp
qed

text \<open>The call of the operation on cofactors, in a later state.\<close>

definition next_calls :: "sylvan \<Rightarrow> (u64 \<Rightarrow> u64 \<Rightarrow> sylvan \<Rightarrow> serror + (u64 \<times> sylvan)) \<Rightarrow> nat set \<Rightarrow> nat \<Rightarrow> bool" where
  "next_calls st m T u \<longleftrightarrow> (\<forall>a b f g. safe st a \<and> bdd (nodes st) u a f \<longrightarrow> safe st b \<and> bdd (nodes st) u b g \<longrightarrow>
     depends_on f (- Suc ` T) \<longrightarrow> calls st (m a b) (rel_next T f g))"

lemma next_callsD:
  "next_calls st m T u \<Longrightarrow> safe st a \<Longrightarrow> bdd (nodes st) u a f \<Longrightarrow> safe st b \<Longrightarrow> bdd (nodes st) u b g \<Longrightarrow>
   depends_on f (- Suc ` T) \<Longrightarrow> calls st (m a b) (rel_next T f g)"
  by (simp add: next_calls_def)

lemma next_pair_body:
  assumes ok: "bdd_ok st" and s: "safe st a" "safe st b" and b: "bdd (nodes st) 0 a f" "bdd (nodes st) 0 b g"
    and l: "unat l < 2 ^ 24" "indep (unat l) f" "indep (unat l) g" and d: "depends_on f (- Suc ` T)"
    and T: "pair_src (unat l) \<in> T" "\<And>i. i \<in> T \<Longrightarrow> even i" "T' \<subseteq> T" "\<forall>i. Suc (pair_src (unat l)) \<le> i \<longrightarrow> (i \<in> T \<longleftrightarrow> i \<in> T')"
    and m: "next_calls st m T' (Suc (Suc (pair_src (unat l))))"
    and c: "(a0, a1) = rel_cofactors st (l AND NOT 1) a" "(b0, b1) = rel_cofactors st (l AND NOT 1) b"
      "(b00, b01) = rel_cofactors st ((l AND NOT 1) + 1) b0" "(b10, b11) = rel_cofactors st ((l AND NOT 1) + 1) b1"
  shows "gives keep st (rel_join (l AND NOT 1) (m a1 b11) (m a0 b01) (m a1 b10) (m a0 b00) st) (\<lambda>h. h = rel_next T f g)"
proof -
  let ?s = "pair_src (unat l)"
  note w = pair_words [OF l(1)]
  note i = indep_mono [OF l(2) w(3)] indep_mono [OF l(3) w(3)]
  note ca = rel_cofactors_bdd [OF ok s(1) b(1) _ c(1), unfolded w(1), OF i(1)]
    and cb = rel_cofactors_bdd [OF ok s(2) b(2) _ c(2), unfolded w(1), OF i(2)]
  note cb0 = rel_cofactors_bdd [OF ok cb(2,1) _ c(3), unfolded w(2), OF bdd_indep [OF cb(1)]]
    and cb1 = rel_cofactors_bdd [OF ok cb(4,3) _ c(4), unfolded w(2), OF bdd_indep [OF cb(3)]]
  have df: "depends_on (cof f ?s t) (- Suc ` T)" "depends_on (cof f ?s t) (- Suc ` T')" for t
    using depends_cof_same [OF d] depends_on_mono [of _ "- Suc ` T" "- Suc ` T'"] T(3) by blast+
  have "Suc ?s \<notin> - Suc ` T" using T(1) by blast
  note sk = indep_skip [OF bdd_indep [OF ca(1)] df(1) this] indep_skip [OF bdd_indep [OF ca(3)] df(1) this]
  note a = bdd_level [OF bdd_ok_table [OF ok] ca(1) sk(1)] bdd_level [OF bdd_ok_table [OF ok] ca(3) sk(2)]
  let ?R = "\<lambda>t d. rel_next T' (cof f ?s t) (cof (cof g ?s t) (Suc ?s) d)"
  note call = next_callsD [OF m]
  note k = call [OF ca(4) a(2) cb1(4,3) df(2)] call [OF ca(2) a(1) cb0(4,3) df(2)]
    call [OF ca(4) a(2) cb1(2,1) df(2)] call [OF ca(2) a(1) cb0(2,1) df(2)]
  have e: "rel_next (T - {?s}) (cof f ?s t) (cof (cof g ?s t) (Suc ?s) d) = ?R t d" for t d
  proof (rule rel_next_cong)
    show "indep (Suc (Suc ?s)) (cof f ?s t)" using sk by (cases t) simp_all
    show "indep (Suc (Suc ?s)) (cof (cof g ?s t) (Suc ?s) d)"
      using bdd_indep [OF cb0(1)] bdd_indep [OF cb0(3)] bdd_indep [OF cb1(1)] bdd_indep [OF cb1(3)] by (cases t; cases d) simp_all
    show "j \<in> T - {?s} \<longleftrightarrow> j \<in> T'" if "Suc (Suc ?s) \<le> Suc j" for j using T(4) that by auto
  qed
  have ir: "indep (Suc (unat (l AND NOT 1))) (?R t d)" for t d
    unfolding w(1)
  proof (rule indep_mono [OF indep_rel_next [of "Suc (Suc ?s)"]])
    show "indep (Suc (Suc ?s)) (cof f ?s t)" using sk by (cases t) simp_all
    show "indep (Suc (Suc ?s)) (cof (cof g ?s t) (Suc ?s) d)"
      using bdd_indep [OF cb0(1)] bdd_indep [OF cb0(3)] bdd_indep [OF cb1(1)] bdd_indep [OF cb1(3)] by (cases t; cases d) simp_all
  qed (simp_all add: src_even)
  have p: "cof (rel_next T f g) ?s t = (\<lambda>\<sigma>. ?R False t \<sigma> \<or> ?R True t \<sigma>)" for t
    by (subst rel_next_pair [OF T(1,2)], assumption) (simp only: e)
  have wl: "unat (l AND NOT 1) < 2 ^ 24" using w(1,5) by linarith
  have "branch ?s (\<lambda>\<sigma>. ?R False False \<sigma> \<or> ?R True False \<sigma>) (\<lambda>\<sigma>. ?R False True \<sigma> \<or> ?R True True \<sigma>) = rel_next T f g"
    using branch_cof [of ?s "rel_next T f g"] unfolding p .
  then show ?thesis using rel_join_gives [OF ok k ir ir ir ir wl] unfolding w(1) by simp
qed

lemma next_other_body:
  assumes ok: "bdd_ok st" and s: "safe st a" "safe st b" and b: "bdd (nodes st) 0 a f" "bdd (nodes st) 0 b g"
    and l: "unat l < 2 ^ 24" "indep (unat l) f" "indep (unat l) g" and d: "depends_on f (- Suc ` T)"
    and T: "pair_src (unat l) \<notin> T" "\<And>i. i \<in> T \<Longrightarrow> even i"
    and m: "next_calls st m T (Suc (unat l))"
    and c: "(a0, a1) = rel_cofactors st l a" "(b0, b1) = rel_cofactors st l b"
  shows "gives keep st
    (if b0 \<noteq> b1 then
       (if a0 = a1 then bindE (m a1 b1 st) (\<lambda>(r1, st). pushed r1 (\<lambda>st. bindE (m a0 b0 st) (\<lambda>(r0, st).
          pushed r0 (sylvan_or set_fuel r0 r1) st)) st)
        else rel_join l (m a1 b1) (m a1 b0) (m a0 b1) (m a0 b0) st)
     else rel_node l (m a1 b1) (m a0 b0) st) (\<lambda>h. h = rel_next T f g)"
proof -
  let ?l = "unat l" and ?H = "rel_next T f g"
  note ca = rel_cofactors_bdd [OF ok s(1) b(1) l(2) c(1)] and cb = rel_cofactors_bdd [OF ok s(2) b(2) l(3) c(2)]
  have nl: "?l \<notin> T" "odd ?l \<Longrightarrow> ?l - 1 \<notin> T"
  proof -
    show "?l \<notin> T" using T(1) T(2) [of ?l] by auto
    show "?l - 1 \<notin> T" if "odd ?l" using T(1) that by (simp add: odd_iff_mod_2_eq_one)
  qed
  have df: "depends_on (cof f ?l t) (- Suc ` T)" for t by (rule depends_cof_same [OF d])
  let ?R = "\<lambda>t d. rel_next T (cof f ?l t) (cof g ?l d)"
  note call = next_callsD [OF m]
  note k11 = call [OF ca(4,3) cb(4,3) df] and k10 = call [OF ca(4,3) cb(2,1) df]
    and k01 = call [OF ca(2,1) cb(4,3) df] and k00 = call [OF ca(2,1) cb(2,1) df]
  have H: "cof ?H ?l t = (\<lambda>\<sigma>. ?R t False \<sigma> \<or> ?R t True \<sigma>)" for t by (rule rel_next_other [OF nl])
  have iH: "indep ?l ?H" by (rule indep_rel_next [OF l(2,3) nl(2)])
  have ir: "indep (Suc ?l) (?R t d)" for t d
    using indep_rel_next [of "Suc ?l" "cof f ?l t" "cof g ?l d" T] indep_cof_Suc [OF l(2)] indep_cof_Suc [OF l(3)] nl(1) by simp
  consider "b0 \<noteq> b1" "a0 = a1" | "b0 \<noteq> b1" "a0 \<noteq> a1" | "b0 = b1" by blast
  then show ?thesis
  proof cases
    case 1
    have e: "cof f ?l False = cof f ?l True" using bdd_fun ca(1,3) 1(2) by blast
    have "(\<lambda>\<sigma>. ?R False False \<sigma> \<or> ?R True True \<sigma>) = ?H"
      using branch_cof [of ?l ?H] unfolding H by (simp add: e branch_def)
    moreover have "gives keep st (bindE (m a1 b1 st) (\<lambda>(r1, st). pushed r1 (\<lambda>st. bindE (m a0 b0 st) (\<lambda>(r0, st).
        pushed r0 (sylvan_or set_fuel r0 r1) st)) st)) (\<lambda>h. h = (\<lambda>\<sigma>. ?R False False \<sigma> \<or> ?R True True \<sigma>))"
      by (rule rel_both [OF ok k11 k00]) (rule or_gives_at)
    ultimately show ?thesis using 1 by simp
  next
    case 2
    have "branch ?l (\<lambda>\<sigma>. ?R False False \<sigma> \<or> ?R False True \<sigma>) (\<lambda>\<sigma>. ?R True False \<sigma> \<or> ?R True True \<sigma>) = ?H"
      using branch_cof [of ?l ?H] unfolding H .
    then have "gives keep st (rel_join l (m a1 b1) (m a1 b0) (m a0 b1) (m a0 b0) st) (\<lambda>h. h = ?H)"
      using rel_join_gives [OF ok k11 k10 k01 k00 ir ir ir ir l(1)] by simp
    then show ?thesis using 2 by simp
  next
    case 3
    have e: "cof g ?l False = cof g ?l True" using bdd_fun cb(1,3) 3 by blast
    have H': "cof ?H ?l t = ?R t t" for t unfolding H using e by (cases t) simp_all
    have "gives keep st (rel_node l (m a1 b1) (m a0 b0) st) (\<lambda>h. h = ?H)"
      by (rule rel_node_gives [OF ok _ _ iH l(1)]) (use k11 k00 H' in simp_all)
    then show ?thesis using 3 by simp
  qed
qed

lemma rel_terminal:
  assumes "table_ok n" "bdd n 0 a f" "bdd n 0 b g" "a \<noteq> mtbdd_false" "b \<noteq> mtbdd_false"
  shows "rel_next {} f g = f" "rel_prev {} f g = g"
proof -
  have "f \<noteq> (\<lambda>_. False)" "g \<noteq> (\<lambda>_. False)" using assms bdd_canonical [OF assms(1) _ bdd.bdd_false] by auto
  then have "\<exists>\<rho>. f \<rho>" "\<exists>\<rho>. g \<rho>" by auto
  then show "rel_next {} f g = f" "rel_prev {} f g = g" by (simp_all add: rel_empty)
qed

text \<open>
  The set of states may not depend on target variables. No product is larger than its
  arguments: \<open>indep\<close> of all levels above is kept, which bounds the depth.
\<close>

lemma sylvan_relnext_gives:
  "bdd_ok st \<Longrightarrow> safe st a \<Longrightarrow> safe st b \<Longrightarrow> safe st x \<Longrightarrow> bdd (nodes st) 0 a f \<Longrightarrow> bdd (nodes st) 0 b g \<Longrightarrow>
   rel_vars (nodes st) x S \<Longrightarrow> depends_on f (- Suc ` S) \<Longrightarrow> indep v f \<Longrightarrow> indep v g \<Longrightarrow> v \<le> 2 ^ 24 \<Longrightarrow> 2 ^ 24 < v + fuel \<Longrightarrow>
   gives keep st (sylvan_relnext fuel a b x p st) (\<lambda>h. h = rel_next S f g)"
proof (induction fuel arbitrary: st a b x f g S v p)
  case (Suc fuel)
  note ok = Suc.prems(1) and now = gc.gives_now [OF Suc.prems(1)] and tb = bdd_ok_table [OF Suc.prems(1)]
    and s = Suc.prems(2,3) and b = Suc.prems(5,6)
  have TT: "gives keep st (Inr (mtbdd_true, st)) (\<lambda>h. h = rel_next S f g)" if "a = mtbdd_true" "b = mtbdd_true"
    by (rule now [OF bdd.bdd_true]) (use that b in \<open>simp add: bdd_true_iff rel_const\<close>)
  have FF: "gives keep st (Inr (mtbdd_false, st)) (\<lambda>h. h = rel_next S f g)" if "a = mtbdd_false \<or> b = mtbdd_false"
    by (rule now [OF bdd.bdd_false]) (use that b in \<open>auto simp: bdd_false_iff rel_const\<close>)
  have E: "gives keep st (Inr (a, st)) (\<lambda>h. h = rel_next {} f g)" if "a \<noteq> mtbdd_false" "b \<noteq> mtbdd_false"
    by (rule now [OF b(1)]) (use rel_terminal [OF tb b that] in simp)
  consider "a = mtbdd_true \<and> b = mtbdd_true" | "\<not> (a = mtbdd_true \<and> b = mtbdd_true)" "a = mtbdd_false \<or> b = mtbdd_false"
    | "\<not> (a = mtbdd_true \<and> b = mtbdd_true)" "a \<noteq> mtbdd_false" "b \<noteq> mtbdd_false" "mtbdd_set_isempty x"
    | (go) "\<not> (a = mtbdd_true \<and> b = mtbdd_true)" "a \<noteq> mtbdd_false" "b \<noteq> mtbdd_false" "\<not> mtbdd_set_isempty x" by blast
  then show ?case
  proof cases
    case go
    define l where "l = min_level (rel_var st a) (rel_var st b)"
    have lv: "v \<le> unat l" "unat l < 2 ^ 24" "indep (unat l) f" "indep (unat l) g"
      using rel_level [OF tb b Suc.prems(9,10) go(1-3)] by (simp_all add: l_def)
    obtain q y T where y: "rel_pairs (nodes st) x l = Inr (q, y)" "safe st y" "rel_vars (nodes st) y T"
      "\<forall>i. unat l \<le> Suc i \<longrightarrow> (i \<in> S \<longleftrightarrow> i \<in> T)" "q \<longleftrightarrow> pair_src (unat l) \<in> T"
      "q \<longrightarrow> pair_first (nodes st) y (pair_src (unat l))"
      by (rule rel_pairs_at [OF ok Suc.prems(4,7) go(4), where level = l])
    have same: "rel_next S f g = rel_next T f g" by (rule rel_next_cong [OF lv(3,4)]) (use y(4) in blast)
    note ev = rel_vars_even [OF y(3)]
    have d: "depends_on f (- Suc ` T)"
      by (rule depends_on_mono [OF depends_Int [OF Suc.prems(8) lv(3) [unfolded indep_depends]]]) (use y(4) in auto)
    have rec: "next_calls st (\<lambda>c d. sylvan_relnext fuel c d w l) U u"
      if "safe st w" "rel_vars (nodes st) w U" "unat l < u" "u \<le> 2 ^ 24" for w U u
      unfolding next_calls_def calls_def
    proof (intro allI impI, elim conjE)
      fix c d h k z
      assume c: "safe st c" "bdd (nodes st) u c h" "safe st d" "bdd (nodes st) u d k" "depends_on h (- Suc ` U)"
        and z: "bdd_ok z" "onward st z"
      show "gives keep z (sylvan_relnext fuel c d w l z) (\<lambda>r. r = rel_next U h k)"
        by (rule Suc.IH [OF z(1) onward_safe [OF z(2) c(1)] onward_safe [OF z(2) c(3)] onward_safe [OF z(2) that(1)]
              onward_bdd [OF z(2) c(1,2)] onward_bdd [OF z(2) c(3,4)] onward_rel_vars [OF z(2) that(1,2)] c(5)
              bdd_indep [OF c(2)] bdd_indep [OF c(4)] that(4)]) (use that(3) lv(1) Suc.prems(12) in linarith)
    qed
    show ?thesis
    proof (cases "T = {}")
      case True
      then show ?thesis
        using go y(1) E [OF go(2,3)] same rel_vars_empty [OF tb y(3)] by (auto simp: Let_def simp flip: l_def)
    next
      case False
      then have ne: "\<not> mtbdd_set_isempty y" using rel_vars_empty [OF tb y(3)] by simp
      obtain a0 a1 b0 b1 where c: "(a0, a1) = rel_cofactors st l a" "(b0, b1) = rel_cofactors st l b" by (metis surj_pair)
      let ?s = "l AND NOT 1"
      obtain c0 c1 d0 d1 where cs: "(c0, c1) = rel_cofactors st ?s a" "(d0, d1) = rel_cofactors st ?s b" by (metis surj_pair)
      obtain d00 d01 d10 d11 where ct: "(d00, d01) = rel_cofactors st (?s + 1) d0" "(d10, d11) = rel_cofactors st (?s + 1) d1"
        by (metis surj_pair)
      define z where "z = rel_rest (nodes st) y"
      define body where "body = (if q then
          rel_join ?s (sylvan_relnext fuel c1 d11 z l) (sylvan_relnext fuel c0 d01 z l)
            (sylvan_relnext fuel c1 d10 z l) (sylvan_relnext fuel c0 d00 z l) st
        else if b0 \<noteq> b1 then
          (if a0 = a1 then bindE (sylvan_relnext fuel a1 b1 y l st) (\<lambda>(r1, st). pushed r1 (\<lambda>st.
             bindE (sylvan_relnext fuel a0 b0 y l st) (\<lambda>(r0, st). pushed r0 (sylvan_or set_fuel r0 r1) st)) st)
           else rel_join l (sylvan_relnext fuel a1 b1 y l) (sylvan_relnext fuel a1 b0 y l)
             (sylvan_relnext fuel a0 b1 y l) (sylvan_relnext fuel a0 b0 y l) st)
        else rel_node l (sylvan_relnext fuel a1 b1 y l) (sylvan_relnext fuel a0 b0 y l) st)"
      have "gives keep st body (\<lambda>h. h = rel_next T f g)"
      proof (cases q)
        case True
        obtain T' where z: "safe st z" "rel_vars (nodes st) z T'" "T' \<subseteq> T"
          "\<forall>i. Suc (pair_src (unat l)) \<le> i \<longrightarrow> (i \<in> T \<longleftrightarrow> i \<in> T')"
          using rel_rest_at [OF ok y(2,3) False y(6) [rule_format, OF True]] unfolding z_def by metis
        note w = pair_words [OF lv(2)]
        have m: "next_calls st (\<lambda>c d. sylvan_relnext fuel c d z l) T' (Suc (Suc (pair_src (unat l))))"
          by (rule rec [OF z(1,2)]) (use w(4,5) in linarith)+
        show ?thesis
          using next_pair_body [OF ok s b lv(2-4) d y(5) [THEN iffD1, OF True] ev z(3,4) m cs ct] True by (simp add: body_def)
      next
        case F: False
        have m: "next_calls st (\<lambda>c d. sylvan_relnext fuel c d y l) T (Suc (unat l))"
          by (rule rec [OF y(2,3)]) (use lv(2) in auto)
        show ?thesis
          using next_other_body [OF ok s b lv(2-4) d _ ev m c] F y(5) by (simp add: body_def)
      qed
      then have "gives keep st (case try_cache st (cachenow st p l) CACHE_BDD_RELNEXT a b y of Some r \<Rightarrow> Inr (r, st) | None \<Rightarrow>
          bindE body (\<lambda>(r, t). Inr (r, put_cache (cachenow st p l) CACHE_BDD_RELNEXT a b y r t))) (\<lambda>h. h = rel_next S f g)"
        unfolding same by (rule rel_frame [OF ok s y(2) b y(3) op_words(8) rel_op_nonzero(1) op_sem_REL(1)])
      then show ?thesis
        unfolding sylvan_relnext.simps if_not_P [OF go(1)] if_not_P [OF go(2)] if_not_P [OF go(3)] if_not_P [OF go(4)]
          Let_def l_def [symmetric] y(1) bindE_simps prod.case if_not_P [OF ne] body_def z_def
          c [symmetric] cs [symmetric] ct [symmetric] .
    qed
  qed (use TT FF E rel_vars_empty [OF tb Suc.prems(7)] in auto)
qed simp

section \<open>The product of a relation with a relation or a set\<close>

lemma rel_rest_both_at:
  assumes ok: "bdd_ok st" and s: "safe st y" "rel_vars (nodes st) y T" "T \<noteq> {}"
    and h: "pair_first (nodes st) y p" "even p" "unat t = Suc p"
  obtains T' where "safe st (rel_rest_both (nodes st) t y)" "rel_vars (nodes st) (rel_rest_both (nodes st) t y) T'"
    "T' \<subseteq> T" "\<forall>i. Suc p \<le> i \<longrightarrow> (i \<in> T \<longleftrightarrow> i \<in> T')"
proof -
  let ?v = "rel_rest (nodes st) y" and ?z = "rel_rest_both (nodes st) t y"
  note tb = bdd_ok_table [OF ok]
  obtain T' where r: "safe st ?v" "rel_vars (nodes st) ?v T'" "T' \<subseteq> T" "\<forall>i. Suc p \<le> i \<longrightarrow> (i \<in> T \<longleftrightarrow> i \<in> T')"
    "y \<noteq> mtbdd_false \<longrightarrow> (\<exists>vs. is_set (nodes st) vs ?v \<and> T' = pair_src ` set vs \<and> (\<forall>i \<in> set vs. p < i))"
    by (rule rel_rest_at [OF ok s h(1)])
  show ?thesis
  proof (cases "y \<noteq> mtbdd_false \<and> mtbdd_set_first (nodes st) ?v = t")
    case False
    then have "?z = ?v" by (auto simp: rel_rest_def rel_rest_both_def Let_def)
    then show ?thesis using that [of T'] r by simp
  next
    case True
    then have z: "?z = mtbdd_set_next (nodes st) ?v" by (auto simp: rel_rest_def rel_rest_both_def Let_def)
    obtain vs where vs: "is_set (nodes st) vs ?v" "T' = pair_src ` set vs" using r(5) True by blast
    obtain w ws where x: "vs = w # ws"
    proof (cases vs)
      case Nil
      then have "mtbdd_set_first (nodes st) ?v = 0"
        using is_set_true [OF tb vs(1)] true_edges(1) [OF tb] by (simp add: mtbdd_set_first_def)
      then show ?thesis using True h(3) by auto
    qed
    note sn = set_node [OF tb vs(1) [unfolded x]]
    have w: "w = Suc p" using sn(3) True h(3) by (simp add: mtbdd_set_first_def mtbdd_getvar_def)
    have e: "?z = mtbddnode_followhigh ?v (MTBDD_GETNODE (nodes st) ?v)"
      by (simp add: z mtbdd_set_next_def mtbdd_gethigh_def)
    have "pair_src w = p" using w h(2) by presburger
    then have "i \<in> T' \<longleftrightarrow> i \<in> pair_src ` set ws" if "Suc p \<le> i" for i using that by (auto simp: vs(2) x)
    moreover have "pair_src ` set ws \<subseteq> T" using r(3) by (auto simp: vs(2) x)
    ultimately show ?thesis
      using that [of "pair_src ` set ws"] set_node_held [OF ok r(1) vs(1) [unfolded x]] rel_vars_set [OF sn(6)] r(4) unfolding e by blast
  qed
qed

text \<open>
  No variable outside the pairs is in both arguments: \<open>A\<close> are those of the first. The code is
  wrong where one is in both, as it then calls \<open>sylvan_relnext\<close>.
\<close>

definition prev_calls :: "sylvan \<Rightarrow> (u64 \<Rightarrow> u64 \<Rightarrow> sylvan \<Rightarrow> serror + (u64 \<times> sylvan)) \<Rightarrow> nat set \<Rightarrow> nat set \<Rightarrow> nat \<Rightarrow> bool" where
  "prev_calls st m T A u \<longleftrightarrow> (\<forall>a b f g. safe st a \<and> bdd (nodes st) u a f \<longrightarrow> safe st b \<and> bdd (nodes st) u b g \<longrightarrow>
     depends_on f (T \<union> Suc ` T \<union> A) \<longrightarrow> depends_on g (T \<union> Suc ` T \<union> - A) \<longrightarrow> calls st (m a b) (rel_prev T f g))"

lemma prev_callsD:
  "prev_calls st m T A u \<Longrightarrow> safe st a \<Longrightarrow> bdd (nodes st) u a f \<Longrightarrow> safe st b \<Longrightarrow> bdd (nodes st) u b g \<Longrightarrow>
   depends_on f (T \<union> Suc ` T \<union> A) \<Longrightarrow> depends_on g (T \<union> Suc ` T \<union> - A) \<Longrightarrow> calls st (m a b) (rel_prev T f g)"
  by (simp add: prev_calls_def)

lemma calls_onward: "calls s m f \<Longrightarrow> onward s u \<Longrightarrow> calls u m f"
  unfolding calls_def using onward_trans by blast

lemma same_cofactors: "cof h i False = cof h i True \<Longrightarrow> cof h i b = h"
  using branch_cof [of i h] by (cases b) (simp_all add: branch_def)

lemma rel_half_gives:
  assumes ok: "bdd_ok st" and m: "prev_calls st m T' A (Suc (Suc p))"
    and a: "safe st a" "bdd (nodes st) (Suc (Suc p)) a f" "depends_on f (T' \<union> Suc ` T' \<union> A)"
    and x: "safe st x" "bdd (nodes st) (Suc p) x h" "\<And>c. depends_on (cof h (Suc p) c) (T' \<union> Suc ` T' \<union> - A)"
    and c: "(x0, x1) = rel_cofactors st t x" and t: "unat t = Suc p" "unat t < 2 ^ 24"
    and U: "\<forall>i. Suc p \<le> i \<longrightarrow> (i \<in> T' \<longleftrightarrow> i \<in> U)" "p \<notin> U" "Suc p \<notin> U"
  shows "calls st (rel_half m t a x x0 x1) (rel_prev U f h)"
proof -
  note cx = rel_cofactors_bdd [OF ok x(1,2) _ c, unfolded t(1), OF bdd_indep [OF x(2)]]
  have cong: "rel_prev T' f k = rel_prev U f k" if "indep (Suc p) k" for k
    by (rule rel_prev_cong [OF indep_mono [OF bdd_indep [OF a(2)]] that]) (use U(1) in auto)
  show ?thesis
  proof (cases "x0 = x1")
    case True
    then have e: "cof h (Suc p) b = h" for b using bdd_fun cx(1,3) same_cofactors by metis
    have "indep (Suc (Suc p)) h" using bdd_indep [OF cx(1)] by (simp add: e)
    from prev_callsD [OF m a(1,2) x(1) bdd_level [OF bdd_ok_table [OF ok] x(2) this] a(3)] x(3)
    show ?thesis using True by (simp add: e rel_half_def calls_def cong [OF bdd_indep [OF x(2)]])
  next
    case False
    let ?H = "rel_prev U f h"
    have q: "cof ?H (Suc p) b = rel_prev U f (cof h (Suc p) b)" for b by (rule rel_prev_target) (use U(2,3) in auto)
    have ic: "indep (Suc (Suc p)) (cof h (Suc p) b)" for b using bdd_indep [OF cx(1)] bdd_indep [OF cx(3)] by (cases b) simp_all
    have k: "calls st (m a x1) (cof ?H (Suc p) True)" "calls st (m a x0) (cof ?H (Suc p) False)"
      using prev_callsD [OF m a(1,2) cx(4,3) a(3) x(3)] prev_callsD [OF m a(1,2) cx(2,1) a(3) x(3)]
        cong [OF indep_mono [OF ic]] by (simp_all add: q)
    have i: "indep (Suc (unat t)) (cof ?H (Suc p) b)" for b
      unfolding t(1) q by (rule indep_rel_prev [OF bdd_indep [OF a(2)] ic])
    have mk: "gives keep u (mtbdd_makenode t r0 r1 u) (\<lambda>h. h = ?H)"
      if "bdd_ok u" "safe u r0 \<and> bdd (nodes u) 0 r0 (cof ?H (Suc p) False)" "safe u r1 \<and> bdd (nodes u) 0 r1 (cof ?H (Suc p) True)" for u r0 r1
      using gc.mk_gives [OF that(1) conjunct2 [OF that(2)] conjunct2 [OF that(3)] i i t(2)] by (simp add: t(1) branch_cof)
    show ?thesis
      unfolding calls_def
    proof (intro allI impI)
      fix u assume u: "bdd_ok u" "onward st u"
      have "gives keep u (bindE (m a x1 u) (\<lambda>(r1, st). pushed r1 (\<lambda>st. bindE (m a x0 st) (\<lambda>(r0, st).
          pushed r0 (mtbdd_makenode t r0 r1) st)) st)) (\<lambda>h. h = ?H)"
        by (rule rel_both [OF u(1) calls_onward [OF k(1) u(2)] calls_onward [OF k(2) u(2)]]) (rule mk)
      then show "gives keep u (rel_half m t a x x0 x1 u) (\<lambda>h. h = ?H)" using False by (simp add: rel_half_def)
    qed
  qed
qed
lemma prev_pair_body:
  assumes ok: "bdd_ok st" and s: "safe st a" "safe st b" and b: "bdd (nodes st) 0 a f" "bdd (nodes st) 0 b g"
    and l: "unat l < 2 ^ 24" "indep (unat l) f" "indep (unat l) g"
    and d: "depends_on f (T \<union> Suc ` T \<union> A)" "depends_on g (T \<union> Suc ` T \<union> - A)"
    and T: "pair_src (unat l) \<in> T" "\<And>i. i \<in> T \<Longrightarrow> even i" "\<forall>i. Suc (pair_src (unat l)) \<le> i \<longrightarrow> (i \<in> T \<longleftrightarrow> i \<in> T')"
    and m: "prev_calls st m T' A (Suc (Suc (pair_src (unat l))))"
    and c: "(a0, a1) = rel_cofactors st (l AND NOT 1) a" "(b0, b1) = rel_cofactors st (l AND NOT 1) b"
      "(a00, a01) = rel_cofactors st ((l AND NOT 1) + 1) a0" "(a10, a11) = rel_cofactors st ((l AND NOT 1) + 1) a1"
      "(b00, b01) = rel_cofactors st ((l AND NOT 1) + 1) b0" "(b10, b11) = rel_cofactors st ((l AND NOT 1) + 1) b1"
  shows "gives keep st (rel_join_not (l AND NOT 1) (rel_half m ((l AND NOT 1) + 1) a11 b1 b10 b11)
    (rel_half m ((l AND NOT 1) + 1) a01 b1 b10 b11) (rel_half m ((l AND NOT 1) + 1) a10 b0 b00 b01)
    (rel_half m ((l AND NOT 1) + 1) a00 b0 b00 b01) st) (\<lambda>h. h = rel_prev T f g)"
proof -
  let ?s = "pair_src (unat l)" and ?t = "(l AND NOT 1) + 1"
  let ?U = "T - {?s}"
  note w = pair_words [OF l(1)]
  note i = indep_mono [OF l(2) w(3)] indep_mono [OF l(3) w(3)]
  note ca = rel_cofactors_bdd [OF ok s(1) b(1) _ c(1), unfolded w(1), OF i(1)]
    and cb = rel_cofactors_bdd [OF ok s(2) b(2) _ c(2), unfolded w(1), OF i(2)]
  note ca0 = rel_cofactors_bdd [OF ok ca(2,1) _ c(3), unfolded w(2), OF bdd_indep [OF ca(1)]]
    and ca1 = rel_cofactors_bdd [OF ok ca(4,3) _ c(4), unfolded w(2), OF bdd_indep [OF ca(3)]]
  have rest: "depends_on h (T' \<union> Suc ` T' \<union> B)" if h: "depends_on h (T \<union> Suc ` T \<union> B)" "indep (Suc (Suc ?s)) h" for h B
  proof (rule depends_on_mono [OF depends_Int [OF h(1) h(2) [unfolded indep_depends]]])
    show "(T \<union> Suc ` T \<union> B) \<inter> {Suc (Suc ?s)..} \<subseteq> T' \<union> Suc ` T' \<union> B" using T(3) by auto
  qed
  let ?f = "\<lambda>t d. cof (cof f ?s t) (Suc ?s) d" and ?g = "\<lambda>d. cof g ?s d"
  have df: "depends_on (?f t d) (T' \<union> Suc ` T' \<union> A)" for t d
    by (rule rest [OF depends_cof_same [OF depends_cof_same [OF d(1)]]])
      (use bdd_indep [OF ca0(1)] bdd_indep [OF ca0(3)] bdd_indep [OF ca1(1)] bdd_indep [OF ca1(3)] in \<open>cases t; cases d; simp\<close>)
  have ig: "indep (Suc ?s) (?g d)" for d using bdd_indep [OF cb(1)] bdd_indep [OF cb(3)] by (cases d) simp_all
  have dg: "depends_on (cof (?g d) (Suc ?s) e) (T' \<union> Suc ` T' \<union> - A)" for d e
    by (rule rest [OF depends_cof_same [OF depends_cof_same [OF d(2)]] indep_cof_Suc [OF ig]])
  have U: "\<forall>i. Suc ?s \<le> i \<longrightarrow> (i \<in> T' \<longleftrightarrow> i \<in> ?U)" "?s \<notin> ?U" "Suc ?s \<notin> ?U"
    using T(2) [of "Suc ?s"] T(3) src_even [of "unat l"] by auto
  have wt: "unat ?t < 2 ^ 24" using w(2,5) by linarith
  note half = rel_half_gives [OF ok m _ _ df _ _ dg _ w(2) wt U]
  note k = half [OF ca1(4,3) cb(4,3) c(6)] half [OF ca0(4,3) cb(4,3) c(6)]
    half [OF ca1(2,1) cb(2,1) c(5)] half [OF ca0(2,1) cb(2,1) c(5)]
  have p: "cof (rel_prev T f g) ?s t = (\<lambda>\<sigma>. rel_prev ?U (?f t False) (?g False) \<sigma> \<or> rel_prev ?U (?f t True) (?g True) \<sigma>)" for t
    by (rule rel_prev_pair [OF T(1,2)])
  have ir: "indep (Suc (unat (l AND NOT 1))) (rel_prev ?U (?f t d) (?g e))" for t d e
    unfolding w(1)
    by (rule indep_rel_prev [OF _ ig])
      (use bdd_indep [OF bdd_mono [OF ca0(1)]] bdd_indep [OF bdd_mono [OF ca0(3)]] bdd_indep [OF bdd_mono [OF ca1(1)]]
        bdd_indep [OF bdd_mono [OF ca1(3)]] in \<open>cases t; cases d; simp\<close>)
  have wl: "unat (l AND NOT 1) < 2 ^ 24" using w(1,5) by linarith
  have "branch ?s (\<lambda>\<sigma>. rel_prev ?U (?f False False) (?g False) \<sigma> \<or> rel_prev ?U (?f False True) (?g True) \<sigma>)
      (\<lambda>\<sigma>. rel_prev ?U (?f True False) (?g False) \<sigma> \<or> rel_prev ?U (?f True True) (?g True) \<sigma>) = rel_prev T f g"
    using branch_cof [of ?s "rel_prev T f g"] unfolding p .
  then show ?thesis using rel_join_not_gives [OF ok k ir ir ir ir wl] unfolding w(1) by simp
qed

lemma prev_other_body:
  assumes ok: "bdd_ok st" and s: "safe st a" "safe st b" and b: "bdd (nodes st) 0 a f" "bdd (nodes st) 0 b g"
    and l: "unat l < 2 ^ 24" "indep (unat l) f" "indep (unat l) g"
    and d: "depends_on f (T \<union> Suc ` T \<union> A)" "depends_on g (T \<union> Suc ` T \<union> - A)"
    and T: "pair_src (unat l) \<notin> T" "\<And>i. i \<in> T \<Longrightarrow> even i"
    and m: "prev_calls st m T A (Suc (unat l))"
    and c: "(a0, a1) = rel_cofactors st l a" "(b0, b1) = rel_cofactors st l b"
  shows "gives keep st
    (if a0 \<noteq> a1 then
       (if b0 = b1 then bindE (m a1 b1 st) (\<lambda>(r1, st). pushed r1 (\<lambda>st. bindE (m a0 b0 st) (\<lambda>(r0, st).
          pushed r0 (sylvan_ite set_fuel r0 mtbdd_true r1 0) st)) st)
        else J)
     else rel_node l (m a1 b1) (m a0 b0) st) (\<lambda>h. h = rel_prev T f g)"
proof -
  let ?l = "unat l" and ?H = "rel_prev T f g"
  note ca = rel_cofactors_bdd [OF ok s(1) b(1) l(2) c(1)] and cb = rel_cofactors_bdd [OF ok s(2) b(2) l(3) c(2)]
  have nl: "?l \<notin> T" "?l = Suc i \<Longrightarrow> i \<notin> T" for i
  proof -
    show "?l \<notin> T" using T(1) T(2) [of ?l] by auto
    show "i \<notin> T" if e: "?l = Suc i"
    proof
      assume i: "i \<in> T"
      then have "pair_src ?l = i" using T(2) [OF i] e by presburger
      then show False using T(1) i by simp
    qed
  qed
  note call = prev_callsD [OF m]
  note k1 = call [OF ca(4,3) cb(4,3) depends_cof_same [OF d(1)] depends_cof_same [OF d(2)]]
    and k0 = call [OF ca(2,1) cb(2,1) depends_cof_same [OF d(1)] depends_cof_same [OF d(2)]]
  have H: "cof ?H ?l t = rel_prev T f (cof g ?l t)" for t by (rule rel_prev_target [OF nl])
  have iH: "indep ?l ?H" by (rule indep_rel_prev [OF l(2,3)])
  show ?thesis
  proof (cases "a0 = a1")
    case True
    then have e: "cof f ?l t = f" for t using bdd_fun ca(1,3) same_cofactors by metis
    have "gives keep st (rel_node l (m a1 b1) (m a0 b0) st) (\<lambda>h. h = ?H)"
      by (rule rel_node_gives [OF ok _ _ iH l(1)]) (use k1 k0 in \<open>simp_all add: H e\<close>)
    then show ?thesis using True by simp
  next
    case False
    then have "cof f ?l False \<noteq> cof f ?l True" using bdd_canonical [OF bdd_ok_table [OF ok] ca(1)] ca(3) by metis
    then have "?l \<in> T \<union> Suc ` T \<union> A" using depends_at [OF d(1)] by blast
    then have "?l \<notin> T \<union> Suc ` T \<union> - A" using nl by auto
    then have "cof g ?l False = cof g ?l True" using depends_at [OF d(2)] by blast
    then have bb: "b0 = b1" and e: "cof g ?l t = g" for t
      using bdd_canonical [OF bdd_ok_table [OF ok] cb(1)] cb(3) same_cofactors by metis+
    have "?H = (\<lambda>\<sigma>. rel_prev T (cof f ?l False) g \<sigma> \<or> rel_prev T (cof f ?l True) g \<sigma>)" by (rule rel_prev_free [OF nl])
    moreover have "gives keep st (bindE (m a1 b1 st) (\<lambda>(r1, st). pushed r1 (\<lambda>st. bindE (m a0 b0 st) (\<lambda>(r0, st).
        pushed r0 (sylvan_ite set_fuel r0 mtbdd_true r1 0) st)) st))
        (\<lambda>h. h = (\<lambda>\<sigma>. rel_prev T (cof f ?l False) g \<sigma> \<or> rel_prev T (cof f ?l True) g \<sigma>))"
      by (rule rel_both [OF ok k1 k0, unfolded e]) (rule ite_or_gives)
    ultimately show ?thesis using False bb by simp
  qed
qed

text \<open>The contract of the product; its levels are bounded by those of the arguments.\<close>

lemma sylvan_relprev_gives:
  "bdd_ok st \<Longrightarrow> safe st a \<Longrightarrow> safe st b \<Longrightarrow> safe st x \<Longrightarrow> bdd (nodes st) 0 a f \<Longrightarrow> bdd (nodes st) 0 b g \<Longrightarrow>
   rel_vars (nodes st) x S \<Longrightarrow> depends_on f (S \<union> Suc ` S \<union> A) \<Longrightarrow>
   depends_on g (S \<union> Suc ` S \<union> - A) \<Longrightarrow> indep v f \<Longrightarrow> indep v g \<Longrightarrow> v \<le> 2 ^ 24 \<Longrightarrow> 2 ^ 24 < v + fuel \<Longrightarrow>
   gives keep st (sylvan_relprev fuel a b x p st) (\<lambda>h. h = rel_prev S f g)"
proof (induction fuel arbitrary: st a b x f g S v p)
  case (Suc fuel)
  note ok = Suc.prems(1) and now = gc.gives_now [OF Suc.prems(1)] and tb = bdd_ok_table [OF Suc.prems(1)]
    and s = Suc.prems(2,3) and b = Suc.prems(5,6)
  have TT: "gives keep st (Inr (mtbdd_true, st)) (\<lambda>h. h = rel_prev S f g)" if "a = mtbdd_true" "b = mtbdd_true"
    by (rule now [OF bdd.bdd_true]) (use that b in \<open>simp add: bdd_true_iff rel_const\<close>)
  have FF: "gives keep st (Inr (mtbdd_false, st)) (\<lambda>h. h = rel_prev S f g)" if "a = mtbdd_false \<or> b = mtbdd_false"
    by (rule now [OF bdd.bdd_false]) (use that b in \<open>auto simp: bdd_false_iff rel_const\<close>)
  have E: "gives keep st (Inr (b, st)) (\<lambda>h. h = rel_prev {} f g)" if "a \<noteq> mtbdd_false" "b \<noteq> mtbdd_false"
    by (rule now [OF b(2)]) (use rel_terminal [OF tb b that] in simp)
  consider "a = mtbdd_true \<and> b = mtbdd_true" | "\<not> (a = mtbdd_true \<and> b = mtbdd_true)" "a = mtbdd_false \<or> b = mtbdd_false"
    | "\<not> (a = mtbdd_true \<and> b = mtbdd_true)" "a \<noteq> mtbdd_false" "b \<noteq> mtbdd_false" "mtbdd_set_isempty x"
    | (go) "\<not> (a = mtbdd_true \<and> b = mtbdd_true)" "a \<noteq> mtbdd_false" "b \<noteq> mtbdd_false" "\<not> mtbdd_set_isempty x" by blast
  then show ?case
  proof cases
    case go
    define l where "l = min_level (rel_var st a) (rel_var st b)"
    have lv: "v \<le> unat l" "unat l < 2 ^ 24" "indep (unat l) f" "indep (unat l) g"
      using rel_level [OF tb b Suc.prems(10,11) go(1-3)] by (simp_all add: l_def)
    obtain q y T where y: "rel_pairs (nodes st) x l = Inr (q, y)" "safe st y" "rel_vars (nodes st) y T"
      "\<forall>i. unat l \<le> Suc i \<longrightarrow> (i \<in> S \<longleftrightarrow> i \<in> T)" "q \<longleftrightarrow> pair_src (unat l) \<in> T"
      "q \<longrightarrow> pair_first (nodes st) y (pair_src (unat l))"
      by (rule rel_pairs_at [OF ok Suc.prems(4,7) go(4), where level = l])
    have same: "rel_prev S f g = rel_prev T f g" by (rule rel_prev_cong [OF lv(3,4)]) (use y(4) in auto)
    note ev = rel_vars_even [OF y(3)]
    have d: "depends_on f (T \<union> Suc ` T \<union> A)" "depends_on g (T \<union> Suc ` T \<union> - A)"
      by (rule depends_on_mono [OF depends_Int [OF Suc.prems(8) lv(3) [unfolded indep_depends]]],
        use y(4) in auto)
        (rule depends_on_mono [OF depends_Int [OF Suc.prems(9) lv(4) [unfolded indep_depends]]], use y(4) in auto)
    have rec: "prev_calls st (\<lambda>c d. sylvan_relprev fuel c d w l) U A u"
      if "safe st w" "rel_vars (nodes st) w U" "unat l < u" "u \<le> 2 ^ 24" for w U u
      unfolding prev_calls_def calls_def
    proof (intro allI impI, elim conjE)
      fix c d h k z
      assume c: "safe st c" "bdd (nodes st) u c h" "safe st d" "bdd (nodes st) u d k" "depends_on h (U \<union> Suc ` U \<union> A)" "depends_on k (U \<union> Suc ` U \<union> - A)"
        and z: "bdd_ok z" "onward st z"
      show "gives keep z (sylvan_relprev fuel c d w l z) (\<lambda>r. r = rel_prev U h k)"
        by (rule Suc.IH [OF z(1) onward_safe [OF z(2) c(1)] onward_safe [OF z(2) c(3)] onward_safe [OF z(2) that(1)]
              onward_bdd [OF z(2) c(1,2)] onward_bdd [OF z(2) c(3,4)] onward_rel_vars [OF z(2) that(1,2)] c(5,6)
              bdd_indep [OF c(2)] bdd_indep [OF c(4)] that(4)]) (use that(3) lv(1) Suc.prems(13) in linarith)
    qed
    show ?thesis
    proof (cases "T = {}")
      case True
      then show ?thesis
        using go y(1) E [OF go(2,3)] same rel_vars_empty [OF tb y(3)] by (auto simp: Let_def simp flip: l_def)
    next
      case False
      then have ne: "\<not> mtbdd_set_isempty y" using rel_vars_empty [OF tb y(3)] by simp
      obtain a0 a1 b0 b1 where c: "(a0, a1) = rel_cofactors st l a" "(b0, b1) = rel_cofactors st l b" by (metis surj_pair)
      let ?s = "l AND NOT 1"
      obtain c0 c1 d0 d1 where cs: "(c0, c1) = rel_cofactors st ?s a" "(d0, d1) = rel_cofactors st ?s b" by (metis surj_pair)
      obtain c00 c01 c10 c11 where ct: "(c00, c01) = rel_cofactors st (?s + 1) c0" "(c10, c11) = rel_cofactors st (?s + 1) c1"
        by (metis surj_pair)
      obtain d00 d01 d10 d11 where dt: "(d00, d01) = rel_cofactors st (?s + 1) d0" "(d10, d11) = rel_cofactors st (?s + 1) d1"
        by (metis surj_pair)
      define z where "z = rel_rest_both (nodes st) (?s + 1) y"
      define body where "body = (if q then
          rel_join_not ?s (rel_half (\<lambda>x y. sylvan_relprev fuel x y z l) (?s + 1) c11 d1 d10 d11)
            (rel_half (\<lambda>x y. sylvan_relprev fuel x y z l) (?s + 1) c01 d1 d10 d11)
            (rel_half (\<lambda>x y. sylvan_relprev fuel x y z l) (?s + 1) c10 d0 d00 d01)
            (rel_half (\<lambda>x y. sylvan_relprev fuel x y z l) (?s + 1) c00 d0 d00 d01) st
        else if a0 \<noteq> a1 then
          (if b0 = b1 then bindE (sylvan_relprev fuel a1 b1 y l st) (\<lambda>(r1, st). pushed r1 (\<lambda>st.
             bindE (sylvan_relprev fuel a0 b0 y l st) (\<lambda>(r0, st). pushed r0 (sylvan_ite set_fuel r0 mtbdd_true r1 0) st)) st)
           else rel_join l (sylvan_relnext fuel a1 b1 y l) (sylvan_relnext fuel a0 b1 y l)
             (sylvan_relnext fuel a1 b0 y l) (sylvan_relnext fuel a0 b0 y l) st)
        else rel_node l (sylvan_relprev fuel a1 b1 y l) (sylvan_relprev fuel a0 b0 y l) st)"
      have "gives keep st body (\<lambda>h. h = rel_prev T f g)"
      proof (cases q)
        case True
        obtain T' where z: "safe st z" "rel_vars (nodes st) z T'" "T' \<subseteq> T"
          "\<forall>i. Suc (pair_src (unat l)) \<le> i \<longrightarrow> (i \<in> T \<longleftrightarrow> i \<in> T')"
          using rel_rest_both_at [OF ok y(2,3) False y(6) [rule_format, OF True] src_even pair_words(2) [OF lv(2)]]
          unfolding z_def by metis
        note w = pair_words [OF lv(2)]
        have m: "prev_calls st (\<lambda>c d. sylvan_relprev fuel c d z l) T' A (Suc (Suc (pair_src (unat l))))"
          by (rule rec [OF z(1,2)]) (use w(4,5) in linarith)+
        show ?thesis
          using prev_pair_body [OF ok s b lv(2-4) d y(5) [THEN iffD1, OF True] ev z(4) m cs ct dt] True by (simp add: body_def)
      next
        case F: False
        have m: "prev_calls st (\<lambda>c d. sylvan_relprev fuel c d y l) T A (Suc (unat l))"
          by (rule rec [OF y(2,3)]) (use lv(2) in auto)
        show ?thesis
          using prev_other_body [OF ok s b lv(2-4) d _ ev m c] F y(5) by (simp add: body_def)
      qed
      then have "gives keep st (case try_cache st (cachenow st p l) CACHE_BDD_RELPREV a b y of Some r \<Rightarrow> Inr (r, st) | None \<Rightarrow>
          bindE body (\<lambda>(r, t). Inr (r, put_cache (cachenow st p l) CACHE_BDD_RELPREV a b y r t))) (\<lambda>h. h = rel_prev S f g)"
        unfolding same by (rule rel_frame [OF ok s y(2) b y(3) op_words(9) rel_op_nonzero(2) op_sem_REL(2)])
      then show ?thesis
        unfolding sylvan_relprev.simps if_not_P [OF go(1)] if_not_P [OF go(2)] if_not_P [OF go(3)] if_not_P [OF go(4)]
          Let_def l_def [symmetric] y(1) bindE_simps prod.case if_not_P [OF ne] body_def z_def
          c [symmetric] cs [symmetric] ct [symmetric] dt [symmetric] .
    qed
  qed (use TT FF E rel_vars_empty [OF tb Suc.prems(7)] in auto)
qed simp

end
