(* ===== verification/BddClosure.thy ===== *)
theory BddClosure
  imports BddRel
begin

text \<open>
  The transitive closure of \<open>sylvan_bdd.c\<close>: the relation is split by the values of a pair of
  variables into four blocks, and the closure is put together from closures of blocks and
  products. The result is the closure of a reflexive relation; for others it is not
  (\<open>closure_not_reflexive\<close>).
\<close>

section \<open>The operation\<close>

text \<open>The union of \<open>c\<close> with the product of \<open>a\<close> and \<open>b\<close>.\<close>

definition closure_sum :: "u32 \<Rightarrow> u64 \<Rightarrow> u64 \<Rightarrow> u64 \<Rightarrow> sylvan \<Rightarrow> serror + (u64 \<times> sylvan)" where
  "closure_sum level c a b st =
    bindE (sylvan_relprev set_fuel a b mtbdd_false level st) (\<lambda>(e, st).
      pushed e (sylvan_ite set_fuel c mtbdd_true e level) st)"

primrec sylvan_closure :: "nat \<Rightarrow> u64 \<Rightarrow> u32 \<Rightarrow> sylvan \<Rightarrow> serror + (u64 \<times> sylvan)" where
  "sylvan_closure 0 a prev_level st = Inl OutOfFuel"
| "sylvan_closure (Suc fuel) a prev_level st =
    (if a = mtbdd_true then Inr (a, st)
     else if a = mtbdd_false then Inr (a, st)
     else
     let level = getvar st a;
         cn = cachenow st prev_level level
     in case try_cache st cn CACHE_BDD_CLOSURE a 0 0 of Some r \<Rightarrow> Inr (r, st) | None \<Rightarrow>
     let s = level AND NOT 1;
         t = s + 1;
         (a0, a1) = rel_cofactors st s a;
         (a00, a01) = rel_cofactors st t a0;
         (a10, a11) = rel_cofactors st t a1;
         mul = (\<lambda>x y. sylvan_relprev set_fuel x y mtbdd_false level)
     in bindE
       (bindE (sylvan_closure fuel a11 level st) (\<lambda>(u1, st).
        bindE (mul u1 a10 (mtbdd_refs_push u1 st)) (\<lambda>(u2, st).
        bindE (bindE (closure_sum level a00 a01 u2 (mtbdd_refs_push u2 st)) (\<lambda>(e, st).
                 pushed e (sylvan_closure fuel e level) st)) (\<lambda>(e, st).
        bindE (mul u2 e (mtbdd_refs_push e st)) (\<lambda>(g, st).
        bindE (mul a01 u1 (mtbdd_refs_push g st)) (\<lambda>(u3, st).
        bindE (mul e u3 (mtbdd_refs_push u3 st)) (\<lambda>(f, st).
        bindE (closure_sum level u1 u2 f (mtbdd_refs_push f st)) (\<lambda>(h, st).
        bindE (mtbdd_makenode t e f (mtbdd_refs_push h st)) (\<lambda>(r0, st).
        bindE (pushed r0 (mtbdd_makenode t g h) (mtbdd_refs_pop 7 st)) (\<lambda>(r1, st).
          mtbdd_makenode s r0 r1 st))))))))))
       (\<lambda>(result, st). Inr (result, put_cache cn CACHE_BDD_CLOSURE a 0 0 result st)))"

section \<open>Blocks of relations\<close>

definition rel_times :: "bfun \<Rightarrow> bfun \<Rightarrow> bfun" where
  "rel_times = rel_prev {i. even i}"

lemma states_times: "states (rel_times f g) = states f OO states g"
proof (intro ext iffI)
  fix x y assume "states (rel_times f g) x y"
  then obtain \<rho> where r: "f (\<lambda>i. if even i then if even i then x (i div 2) else y (i div 2) else \<rho> i)"
    "g (\<lambda>i. if even i then \<rho> (i + 1) else if even i then x (i div 2) else y (i div 2))"
    by (auto simp: states_def rel_times_def rel_prev_def)
  let ?z = "\<lambda>j. \<rho> (2 * j + 1)"
  have e: "(\<lambda>i. if even i then if even i then x (i div 2) else y (i div 2) else \<rho> i) = (\<lambda>i. if even i then x (i div 2) else ?z (i div 2))"
    "(\<lambda>i. if even i then \<rho> (i + 1) else if even i then x (i div 2) else y (i div 2)) = (\<lambda>i. if even i then ?z (i div 2) else y (i div 2))"
    by (auto simp: fun_eq_iff)
  have "states f x ?z" "states g ?z y" using r unfolding e states_def by this+
  then show "(states f OO states g) x y" by blast
next
  fix x y assume "(states f OO states g) x y"
  then obtain z where z: "states f x z" "states g z y" by blast
  let ?r = "\<lambda>i. z (i div 2)"
  have "(\<lambda>i. if even i then x (i div 2) else z (i div 2)) = (\<lambda>i. if even i then if even i then x (i div 2) else y (i div 2) else ?r i)"
    "(\<lambda>i. if even i then z (i div 2) else y (i div 2)) = (\<lambda>i. if even i then ?r (i + 1) else if even i then x (i div 2) else y (i div 2))"
    by (auto simp: fun_eq_iff)
  with z show "states (rel_times f g) x y"
    unfolding states_def rel_times_def rel_prev_def mem_Collect_eq by (intro exI [of _ ?r]) simp
qed

lemma states_or: "states (\<lambda>\<sigma>. f \<sigma> \<or> g \<sigma>) = (\<lambda>x y. states f x y \<or> states g x y)"
  by (simp add: states_def fun_eq_iff)

text \<open>The block of a relation for given values of a component of the two states.\<close>

definition rel_block :: "((nat \<Rightarrow> bool) \<Rightarrow> (nat \<Rightarrow> bool) \<Rightarrow> bool) \<Rightarrow> nat \<Rightarrow> bool \<Rightarrow> bool \<Rightarrow> (nat \<Rightarrow> bool) \<Rightarrow> (nat \<Rightarrow> bool) \<Rightarrow> bool" where
  "rel_block R k b d x y = R (x(k := b)) (y(k := d))"

lemma states_cof: "states (cof (cof f (2 * k) b) (Suc (2 * k)) d) = rel_block (states f) k b d"
proof (intro ext)
  fix x y :: "nat \<Rightarrow> bool"
  have "(\<lambda>i. if even i then x (i div 2) else y (i div 2))(Suc (2 * k) := d, 2 * k := b) =
      (\<lambda>i. if even i then (x(k := b)) (i div 2) else (y(k := d)) (i div 2))"
    by (auto simp: fun_eq_iff elim!: evenE oddE)
  then show "states (cof (cof f (2 * k) b) (Suc (2 * k)) d) x y = rel_block (states f) k b d x y"
    by (simp add: states_def cof_def rel_block_def)
qed

lemma states_branch:
  "states (branch (2 * k) (branch (Suc (2 * k)) e f) (branch (Suc (2 * k)) g h)) =
    (\<lambda>x y. if x k then if y k then states h x y else states g x y else if y k then states f x y else states e x y)"
  by (auto simp: states_def branch_def fun_eq_iff)

lemma block_self: "R x y \<Longrightarrow> rel_block R k (x k) (y k) x y"
  by (simp add: rel_block_def)

lemma block_compose: "transp Q \<Longrightarrow> rel_block Q k b c x z \<Longrightarrow> rel_block Q k c d z y \<Longrightarrow> rel_block Q k b d x y"
  unfolding rel_block_def by (erule transpD)

lemma closure_in_block:
  assumes "transp Q" "X\<^sup>+\<^sup>+ x y" "\<And>x y. X x y \<Longrightarrow> rel_block Q k b b x y"
  shows "rel_block Q k b b x y"
  using assms(2) by induction (auto intro: assms(3) block_compose [OF assms(1)])

lemma blocks_closure:
  fixes R :: "(nat \<Rightarrow> bool) \<Rightarrow> (nat \<Rightarrow> bool) \<Rightarrow> bool" and k :: nat
  assumes refl: "reflp R"
  defines "U1 \<equiv> (rel_block R k True True)\<^sup>+\<^sup>+"
  defines "U2 \<equiv> U1 OO rel_block R k True False"
  defines "E \<equiv> (\<lambda>x y. rel_block R k False False x y \<or> (rel_block R k False True OO U2) x y)\<^sup>+\<^sup>+"
  defines "F \<equiv> E OO rel_block R k False True OO U1"
  shows "(\<lambda>x y. if x k then if y k then U1 x y \<or> (U2 OO F) x y else (U2 OO E) x y else if y k then F x y else E x y) = R\<^sup>+\<^sup>+"
    (is "?M = _")
proof (intro ext iffI)
  fix x y
  let ?Q = "R\<^sup>+\<^sup>+"
  have Q: "transp ?Q" by (rule transpI) (rule tranclp_trans)
  note comp = block_compose [OF Q]
  have R: "rel_block R k b d u v \<Longrightarrow> rel_block ?Q k b d u v" for b d u v by (auto simp: rel_block_def)
  have u1: "U1 u v \<Longrightarrow> rel_block ?Q k True True u v" for u v
    unfolding U1_def by (erule closure_in_block [OF Q]) (rule R)
  have u2: "U2 u v \<Longrightarrow> rel_block ?Q k True False u v" for u v
    unfolding U2_def by (auto intro: comp u1 R)
  have e: "E u v \<Longrightarrow> rel_block ?Q k False False u v" for u v
    unfolding E_def by (erule closure_in_block [OF Q]) (auto intro: R comp u2)
  have f: "F u v \<Longrightarrow> rel_block ?Q k False True u v" for u v
    unfolding F_def by (elim relcomppE) (rule comp [OF e comp [OF R u1]])
  have out: "rel_block ?Q k (x k) (y k) x y \<Longrightarrow> ?Q x y" by (simp add: rel_block_def)
  assume "?M x y"
  then have "rel_block ?Q k (x k) (y k) x y"
    using u1 e f comp [OF u2 e] comp [OF u2 f] by (cases "x k"; cases "y k") auto
  then show "?Q x y" by (rule out)
next
  fix x y
  have r: "rel_block R k b b u u" for b u using refl by (simp add: rel_block_def reflp_def)
  have ru: "U1 u u" for u unfolding U1_def by (rule tranclp.r_into_trancl) (rule r)
  have re: "E u u" for u unfolding E_def by (rule tranclp.r_into_trancl) (use r in blast)
  have u1: "rel_block R k True True u v \<Longrightarrow> U1 u v" "U1 u w \<Longrightarrow> rel_block R k True True w v \<Longrightarrow> U1 u v" for u v w
    unfolding U1_def by (auto intro: tranclp.intros)
  have e: "rel_block R k False False u v \<Longrightarrow> E u v" "E u w \<Longrightarrow> rel_block R k False False w v \<Longrightarrow> E u v"
    "E u w \<Longrightarrow> rel_block R k False True w w' \<Longrightarrow> U2 w' v \<Longrightarrow> E u v" for u v w w'
    unfolding E_def by (auto intro: tranclp.intros)
  have u2: "U1 u w \<Longrightarrow> rel_block R k True False w v \<Longrightarrow> U2 u v" for u v w
    unfolding U2_def by blast
  have f: "E u w \<Longrightarrow> rel_block R k False True w w' \<Longrightarrow> U1 w' v \<Longrightarrow> F u v" for u v w w'
    unfolding F_def by blast
  have fe: "F u w \<Longrightarrow> rel_block R k True False w v \<Longrightarrow> E u v" for u v w
    unfolding F_def by (auto intro: e(3) u2)
  have ff: "F u w \<Longrightarrow> rel_block R k True True w v \<Longrightarrow> F u v" for u v w
    unfolding F_def by (auto intro: u1(2))
  have g: "(U2 OO E) u w \<Longrightarrow> rel_block R k False False w v \<Longrightarrow> (U2 OO E) u v"
    "(U2 OO E) u w \<Longrightarrow> rel_block R k False True w v \<Longrightarrow> (U2 OO F) u v"
    "(U2 OO F) u w \<Longrightarrow> rel_block R k True True w v \<Longrightarrow> (U2 OO F) u v"
    "(U2 OO F) u w \<Longrightarrow> rel_block R k True False w v \<Longrightarrow> (U2 OO E) u v"
    "U1 u w \<Longrightarrow> rel_block R k True False w v \<Longrightarrow> (U2 OO E) u v" for u v w
    by (elim relcomppE, rule relcomppI, assumption, erule (1) e(2),
        elim relcomppE, rule relcomppI, assumption, erule (1) f [OF _ _ ru],
        elim relcomppE, rule relcomppI, assumption, erule (1) ff,
        elim relcomppE, rule relcomppI, assumption, erule (1) fe,
        rule relcomppI, erule (1) u2, rule re)
  have one: "?M u v" if "R u v" for u v
    using block_self [of R u v k] that u1(1) e(1) f [OF re _ ru] g(5) [OF ru] by (cases "u k"; cases "v k") simp_all
  have more: "?M u v" if m: "?M u w" and "R w v" for u w v
  proof -
    have b: "rel_block R k (w k) (v k) w v" using that(2) by (rule block_self [of R])
    show ?thesis
      using m b u1(2) [of u w v] e(2) [of u w v] ff [of u w v] fe [of u w v] f [of u w v v, OF _ _ ru] g [of u w v]
      by (cases "u k"; cases "w k"; cases "v k"; simp only: if_True if_False; metis)
  qed
  assume "R\<^sup>+\<^sup>+ x y"
  then show "?M x y"
  proof (induction rule: tranclp_induct)
    case (base y)
    then show ?case by (rule one)
  next
    case (step y z)
    show ?case by (rule more [OF step.IH step.hyps(2)])
  qed
qed

section \<open>Closures of functions\<close>

lemma closed_states: "closed f h \<Longrightarrow> reflp (states f) \<Longrightarrow> states h = (states f)\<^sup>+\<^sup>+"
  by (simp add: closed_def)

lemma closed_indep: "closed f h \<Longrightarrow> even v \<Longrightarrow> indep v f \<Longrightarrow> indep v h"
  by (simp add: closed_def)

lemma closed_const: "closed (\<lambda>_. True) (\<lambda>_. True)" "closed (\<lambda>_. False) (\<lambda>_. False)"
proof -
  have "states (\<lambda>_. True) x y" for x y by (simp add: states_def)
  then have "(states (\<lambda>_. True))\<^sup>+\<^sup>+ = states (\<lambda>_. True)" by (auto simp: fun_eq_iff)
  then show "closed (\<lambda>_. True) (\<lambda>_. True)" by (simp add: closed_def)
  show "closed (\<lambda>_. False) (\<lambda>_. False)" by (auto simp: closed_def states_def reflp_def)
qed

lemma indep_branch: "indep (Suc i) f \<Longrightarrow> indep (Suc i) g \<Longrightarrow> indep i (branch i f g)"
  unfolding branch_def indep_def by (metis Suc_leD order_refl)

lemma indep_times: "indep v f \<Longrightarrow> indep v g \<Longrightarrow> indep v (rel_times f g)"
  unfolding rel_times_def by (rule indep_rel_prev)

text \<open>The closure of a relation from its blocks.\<close>

lemma closed_blocks:
  fixes f :: bfun and s :: nat
  assumes s: "even s"
  defines "b00 \<equiv> cof (cof f s False) (Suc s) False" and "b01 \<equiv> cof (cof f s False) (Suc s) True"
    and "b10 \<equiv> cof (cof f s True) (Suc s) False" and "b11 \<equiv> cof (cof f s True) (Suc s) True"
  assumes u1: "closed b11 u1" and e: "closed (\<lambda>\<sigma>. b00 \<sigma> \<or> rel_times b01 (rel_times u1 b10) \<sigma>) e"
    and i: "indep (Suc (Suc s)) b00" "indep (Suc (Suc s)) b01" "indep (Suc (Suc s)) b10" "indep (Suc (Suc s)) b11"
    and top: "\<And>v. indep v f \<Longrightarrow> even v \<Longrightarrow> v \<le> s"
  shows "closed f (branch s (branch (Suc s) e (rel_times e (rel_times b01 u1)))
    (branch (Suc s) (rel_times (rel_times u1 b10) e) (\<lambda>\<sigma>. u1 \<sigma> \<or> rel_times (rel_times u1 b10) (rel_times e (rel_times b01 u1)) \<sigma>)))"
    (is "closed f ?h")
  unfolding closed_def
proof (intro conjI impI allI)
  obtain k where k: "s = 2 * k" using s by (elim evenE)
  assume r: "reflp (states f)"
  note sb = states_cof [of f k, folded k]
  have b: "states b00 = rel_block (states f) k False False" "states b01 = rel_block (states f) k False True"
    "states b10 = rel_block (states f) k True False" "states b11 = rel_block (states f) k True True"
    unfolding b00_def b01_def b10_def b11_def by (rule sb)+
  have rb: "reflp (rel_block (states f) k d d)" for d using r by (simp add: reflp_def rel_block_def)
  have su: "states u1 = (rel_block (states f) k True True)\<^sup>+\<^sup>+" using closed_states [OF u1] rb b by simp
  have "reflp (states (\<lambda>\<sigma>. b00 \<sigma> \<or> rel_times b01 (rel_times u1 b10) \<sigma>))"
    using rb [of False] by (simp add: states_or b reflp_def)
  from closed_states [OF e this]
  have se: "states e = (\<lambda>x y. rel_block (states f) k False False x y \<or>
      (rel_block (states f) k False True OO (rel_block (states f) k True True)\<^sup>+\<^sup>+ OO rel_block (states f) k True False) x y)\<^sup>+\<^sup>+"
    by (simp add: states_or states_times b su)
  show "states ?h = (states f)\<^sup>+\<^sup>+"
    unfolding k states_branch states_or states_times su se b blocks_closure [OF r, of k, symmetric] ..
next
  fix v assume v: "even v" "indep v f"
  have ev: "even (Suc (Suc s))" using s by simp
  note iu = closed_indep [OF u1 ev i(4)]
  note ie = closed_indep [OF e ev indep_or [OF i(1) indep_times [OF i(2) indep_times [OF iu i(3)]]]]
  have "indep s ?h" by (intro indep_branch indep_or indep_times iu ie i)
  then show "indep v ?h" by (rule indep_mono) (rule top [OF v(2,1)])
qed

section \<open>Correctness\<close>

lemma op_sem_CLOSURE: "op_sem CACHE_BDD_CLOSURE n a b c r \<longleftrightarrow> closure_sem n a r"
  by (simp add: op_sem_def op_defs push_bit_eq_mult)

text \<open>A diagram that a later computation may use.\<close>

definition usable :: "sylvan \<Rightarrow> u64 \<Rightarrow> bfun \<Rightarrow> bool" where
  "usable u x f \<longleftrightarrow> safe u x \<and> bdd (nodes u) 0 x f"

lemma onward_at: "onward s u \<Longrightarrow> usable s x f \<Longrightarrow> usable u x f"
  unfolding usable_def using onward_safe onward_bdd by blast

lemma run_at_has: "run_at s k xs u \<Longrightarrow> (x, f) \<in> set xs \<Longrightarrow> usable u x f"
  unfolding usable_def by (rule run_has)

lemma run_at_base: "run_at s k xs u \<Longrightarrow> usable s x f \<Longrightarrow> usable u x f"
  using run_ok(2) onward_at by blast

lemma run_step:
  assumes r: "run_at s k xs u" and m: "gives keep u m P"
    and K: "\<And>x t f. run_at s (Suc k) ((x, f) # xs) (mtbdd_refs_push x t) \<Longrightarrow> P f \<Longrightarrow> gives keep s (K (x, t)) Q"
  shows "gives keep s (bindE m K) Q"
  by (rule run_bind [OF r m]) (use K run_push in blast)

lemma times_gives:
  assumes "bdd_ok u" "usable u a f" "usable u b g"
  shows "gives keep u (sylvan_relprev set_fuel a b mtbdd_false p u) (\<lambda>h. h = rel_times f g)"
  unfolding rel_times_def
proof (rule sylvan_relprev_gives [OF assms(1), where v = 0 and A = UNIV])
  have "{i :: nat. even i} \<union> Suc ` {i. even i} = UNIV"
  proof (intro equalityI subsetI)
    fix i :: nat
    show "i \<in> {i. even i} \<union> Suc ` {i. even i}" by (cases "even i"; cases i) auto
  qed simp
  moreover have "depends_on h UNIV" for h using indep_depends [of 0 h] by simp
  ultimately show "depends_on f ({i. even i} \<union> Suc ` {i. even i} \<union> UNIV)" "depends_on g ({i. even i} \<union> Suc ` {i. even i} \<union> - UNIV)"
    by simp_all
qed (use assms rel_vars_true in \<open>auto simp: usable_def set_fuel_def\<close>)

lemma sum_gives:
  assumes ok: "bdd_ok u" and a: "usable u a f" "usable u b g" "usable u c h"
  shows "gives keep u (closure_sum l c a b u) (\<lambda>k. k = (\<lambda>\<sigma>. h \<sigma> \<or> rel_times f g \<sigma>))"
  unfolding closure_sum_def
proof (rule gc.gives_bind [OF times_gives [OF ok a(1,2)]], goal_cases)
  case (1 e t k)
  show ?case
    unfolding prod.case
  proof (rule gives_with_gives [OF pushed_onward [OF 1(1,2,4)]], goal_cases)
    case (1 w)
    then show ?case
      using ite_or_gives [OF 1(1), of c h e "rel_times f g" l] onward_at [OF 1(2) a(3)] \<open>k = rel_times f g\<close> by (simp add: usable_def)
  qed
qed

text \<open>The closure of a rel_block, of a relation that is not yet pushed.\<close>

lemma closure_next:
  assumes ok: "bdd_ok u" and m: "gives keep u m (\<lambda>h. h = g)" and i: "indep v g"
    and C: "\<And>w x g. bdd_ok w \<Longrightarrow> usable w x g \<Longrightarrow> indep v g \<Longrightarrow> gives keep w (C x w) (closed g)"
  shows "gives keep u (bindE m (\<lambda>(e, st). pushed e (C e) st)) (closed g)"
proof (rule gc.gives_bind [OF m], goal_cases)
  case (1 e t k)
  show ?case
    unfolding prod.case
  proof (rule gives_with_gives [OF pushed_onward [OF 1(1,2,4)]], goal_cases)
    case (1 w)
    then show ?case using C [OF 1(1) _ i, of e] \<open>k = g\<close> by (simp add: usable_def)
  qed
qed

text \<open>The nodes for the four blocks.\<close>

lemma closure_nodes:
  assumes r: "run_at s 7 [(h, fh), (f, ff), (u3, f3), (g, fg), (e, fe), (u2, f2), (u1, f1)] u"
    and t: "unat t = Suc i" "unat w = i" "Suc i < 2 ^ 24"
    and ix: "indep (Suc (Suc i)) fe" "indep (Suc (Suc i)) ff" "indep (Suc (Suc i)) fg" "indep (Suc (Suc i)) fh"
  shows "gives keep s (bindE (mtbdd_makenode t e f u) (\<lambda>(r0, st). bindE (pushed r0 (mtbdd_makenode t g h) (mtbdd_refs_pop 7 st))
    (\<lambda>(r1, st). mtbdd_makenode w r0 r1 st))) (\<lambda>k. k = branch i (branch (Suc i) fe ff) (branch (Suc i) fg fh))"
proof -
  have b: "bdd (nodes x) 0 e fe" "bdd (nodes x) 0 f ff" "bdd (nodes x) 0 g fg" "bdd (nodes x) 0 h fh"
    if "run_at s 7 [(h, fh), (f, ff), (u3, f3), (g, fg), (e, fe), (u2, f2), (u1, f1)] x" for x
    using run_has [OF that, of e fe] run_has [OF that, of f ff] run_has [OF that, of g fg] run_has [OF that, of h fh] by simp_all
  have lt: "unat t < 2 ^ 24" "unat w < 2 ^ 24" using t by auto
  have m: "gives keep u (mtbdd_makenode t e f u) (\<lambda>k. k = branch (Suc i) fe ff)"
    using gc.mk_gives [OF run_ok(1) [OF r] b(1,2) [OF r] _ _ lt(1)] ix by (simp add: t)
  show ?thesis
  proof (rule run_bind [OF r m], goal_cases)
    case A: (1 r0 x k)
    let ?w = "mtbdd_refs_pop 7 x"
    have ok: "bdd_ok ?w" by (rule run_pop_ok [OF A(1)])
    have nb: "bdd (nodes ?w) 0 r0 (branch (Suc i) fe ff)" "bdd (nodes ?w) 0 g fg" "bdd (nodes ?w) 0 h fh"
      using A(2,3) b(3,4) [OF A(1)] by simp_all
    have "gives_with keep ?w (pushed r0 (mtbdd_makenode t g h) ?w) r0 (branch (Suc i) fe ff) (\<lambda>k. k = branch (Suc i) fg fh)"
    proof (rule pushed_gives [OF ok nb(1)], goal_cases)
      case (1 z)
      then show ?case
        using gc.mk_gives [OF 1(1) _ _ _ _ lt(1), of g fg h fh] nb(2,3) ix by (simp add: t)
    qed
    then have "gives keep ?w (bindE (pushed r0 (mtbdd_makenode t g h) ?w) (\<lambda>(r1, st). mtbdd_makenode w r0 r1 st))
        (\<lambda>k. k = branch i (branch (Suc i) fe ff) (branch (Suc i) fg fh))"
    proof (rule gc.gives_with_bind, goal_cases)
      case (1 r1 z k)
      then show ?case
        using gc.mk_gives [OF 1(1,3) 1(5) _ _ lt(2)] indep_branch [OF ix(1,2)] indep_branch [OF ix(3,4)] by (simp add: t)
    qed
    then show ?case unfolding prod.case by (rule run_pop [OF A(1)])
  qed
qed

text \<open>The computation from the blocks.\<close>

lemma closure_body:
  fixes i :: nat and l :: u32
  assumes ok: "bdd_ok st" and w: "unat t = Suc i" "unat s = i" "Suc i < 2 ^ 24" "even i"
    and a: "usable st a00 (cof (cof f i False) (Suc i) False)" "usable st a01 (cof (cof f i False) (Suc i) True)"
      "usable st a10 (cof (cof f i True) (Suc i) False)" "usable st a11 (cof (cof f i True) (Suc i) True)"
    and ix: "\<And>b d. indep (Suc (Suc i)) (cof (cof f i b) (Suc i) d)"
    and top: "\<And>v. indep v f \<Longrightarrow> even v \<Longrightarrow> v \<le> i"
    and C: "\<And>w x g. bdd_ok w \<Longrightarrow> usable w x g \<Longrightarrow> indep (Suc (Suc i)) g \<Longrightarrow> gives keep w (C x w) (closed g)"
  defines "mul \<equiv> \<lambda>x y. sylvan_relprev set_fuel x y mtbdd_false l"
  shows "gives keep st
     (bindE (C a11 st) (\<lambda>(u1, st).
      bindE (mul u1 a10 (mtbdd_refs_push u1 st)) (\<lambda>(u2, st).
      bindE (bindE (closure_sum l a00 a01 u2 (mtbdd_refs_push u2 st)) (\<lambda>(e, st). pushed e (C e) st)) (\<lambda>(e, st).
      bindE (mul u2 e (mtbdd_refs_push e st)) (\<lambda>(g, st).
      bindE (mul a01 u1 (mtbdd_refs_push g st)) (\<lambda>(u3, st).
      bindE (mul e u3 (mtbdd_refs_push u3 st)) (\<lambda>(f, st).
      bindE (closure_sum l u1 u2 f (mtbdd_refs_push f st)) (\<lambda>(h, st).
      bindE (mtbdd_makenode t e f (mtbdd_refs_push h st)) (\<lambda>(r0, st).
      bindE (pushed r0 (mtbdd_makenode t g h) (mtbdd_refs_pop 7 st)) (\<lambda>(r1, st).
        mtbdd_makenode s r0 r1 st)))))))))) (closed f)"
proof -
  let ?b = "\<lambda>b d. cof (cof f i b) (Suc i) d"
  have ev: "even (Suc (Suc i))" using w(4) by simp
  show ?thesis
  proof (rule run_step [OF run_start [OF ok] C [OF ok a(4) ix]], goal_cases)
    case (1 u1 t1 f1)
    note r = this(1) and f1 = this(2)
    have i1: "indep (Suc (Suc i)) f1" by (rule closed_indep [OF f1 ev ix])
    have m: "gives keep (mtbdd_refs_push u1 t1) (sylvan_relprev set_fuel u1 a10 mtbdd_false l (mtbdd_refs_push u1 t1)) (\<lambda>h. h = rel_times f1 (?b True False))"
      by (rule times_gives [OF run_ok(1) [OF r] run_at_has [OF r] run_at_base [OF r a(3)]]) simp
    show ?case
      unfolding prod.case mul_def
    proof (rule run_step [OF r m], goal_cases)
      case (1 u2 t2 f2)
      note r = this(1) and f2 = this(2)
      let ?e = "\<lambda>\<sigma>. ?b False False \<sigma> \<or> rel_times (?b False True) f2 \<sigma>"
      have i2: "indep (Suc (Suc i)) f2" unfolding f2 by (rule indep_times [OF i1 ix])
      have ie: "indep (Suc (Suc i)) ?e" by (intro indep_or indep_times ix i2)
      have m: "gives keep (mtbdd_refs_push u2 t2) (closure_sum l a00 a01 u2 (mtbdd_refs_push u2 t2)) (\<lambda>h. h = ?e)"
        by (rule sum_gives [OF run_ok(1) [OF r] run_at_base [OF r a(2)] run_at_has [OF r] run_at_base [OF r a(1)]]) simp
      have e: "gives keep (mtbdd_refs_push u2 t2) (bindE (closure_sum l a00 a01 u2 (mtbdd_refs_push u2 t2)) (\<lambda>(e, st). pushed e (C e) st)) (closed ?e)"
        by (rule closure_next [OF run_ok(1) [OF r] m ie]) (rule C)
      show ?case
        unfolding prod.case
      proof (rule run_step [OF r e], goal_cases)
        case (1 e t3 fe)
        note r = this(1) and fe = this(2)
        have ife: "indep (Suc (Suc i)) fe" by (rule closed_indep [OF fe ev ie])
        have m: "gives keep (mtbdd_refs_push e t3) (sylvan_relprev set_fuel u2 e mtbdd_false l (mtbdd_refs_push e t3)) (\<lambda>h. h = rel_times f2 fe)"
          by (rule times_gives [OF run_ok(1) [OF r] run_at_has [OF r] run_at_has [OF r]]) simp_all
        show ?case
          unfolding prod.case
        proof (rule run_step [OF r m], goal_cases)
          case (1 g t4 fg)
          note r = this(1) and fg = this(2)
          have m: "gives keep (mtbdd_refs_push g t4) (sylvan_relprev set_fuel a01 u1 mtbdd_false l (mtbdd_refs_push g t4)) (\<lambda>h. h = rel_times (?b False True) f1)"
            by (rule times_gives [OF run_ok(1) [OF r] run_at_base [OF r a(2)] run_at_has [OF r]]) simp
          show ?case
            unfolding prod.case
          proof (rule run_step [OF r m], goal_cases)
            case (1 u3 t5 f3)
            note r = this(1) and f3 = this(2)
            have m: "gives keep (mtbdd_refs_push u3 t5) (sylvan_relprev set_fuel e u3 mtbdd_false l (mtbdd_refs_push u3 t5)) (\<lambda>h. h = rel_times fe f3)"
              by (rule times_gives [OF run_ok(1) [OF r] run_at_has [OF r] run_at_has [OF r]]) simp_all
            show ?case
              unfolding prod.case
            proof (rule run_step [OF r m], goal_cases)
              case (1 f' t6 ff)
              note r = this(1) and ff = this(2)
              have m: "gives keep (mtbdd_refs_push f' t6) (closure_sum l u1 u2 f' (mtbdd_refs_push f' t6)) (\<lambda>h. h = (\<lambda>\<sigma>. f1 \<sigma> \<or> rel_times f2 ff \<sigma>))"
                by (rule sum_gives [OF run_ok(1) [OF r] run_at_has [OF r] run_at_has [OF r] run_at_has [OF r]]) simp_all
              show ?case
                unfolding prod.case
              proof (rule run_step [OF r m], goal_cases)
                case (1 h t7 fh)
                have iff: "indep (Suc (Suc i)) ff" unfolding ff f3 by (intro indep_times ife ix i1)
                have n: "closed f (branch i (branch (Suc i) fe ff) (branch (Suc i) fg fh))"
                  unfolding 1(2) fg ff f3 f2
                  by (rule closed_blocks [OF w(4) f1 fe [unfolded f2] ix ix ix ix top])
                have r7: "run_at st 7 [(h, fh), (f', ff), (u3, f3), (g, fg), (e, fe), (u2, f2), (u1, f1)] (mtbdd_refs_push h t7)"
                  using 1(1) by (simp add: eval_nat_numeral)
                have "indep (Suc (Suc i)) fg" "indep (Suc (Suc i)) fh"
                  unfolding fg 1(2) by (intro indep_times indep_or i2 ife iff i1)+
                from gives_mono [OF closure_nodes [OF r7 w(1-3) ife iff this]] n show ?case by simp
              qed
            qed
          qed
        qed
      qed
    qed
  qed
qed

lemma closure_top:
  assumes tb: "table_ok (nodes st)" and b: "bdd (nodes st) 0 a f" and nc: "MTBDD_INDEX a \<noteq> 0" and v: "indep v f"
  shows "v \<le> unat (getvar st a)"
  using bdd_getvar(1) [OF bdd_level [OF tb b v] nc] .

lemma sylvan_closure_gives:
  "bdd_ok st \<Longrightarrow> safe st a \<Longrightarrow> bdd (nodes st) 0 a f \<Longrightarrow> indep v f \<Longrightarrow> v \<le> 2 ^ 24 \<Longrightarrow> 2 ^ 24 < v + fuel \<Longrightarrow>
   gives keep st (sylvan_closure fuel a p st) (closed f)"
proof (induction fuel arbitrary: st a f v p)
  case (Suc fuel)
  note ok = Suc.prems(1) and now = gc.gives_now [OF Suc.prems(1)] and tb = bdd_ok_table [OF Suc.prems(1)] and b = Suc.prems(3)
  consider "a = mtbdd_true" | "a = mtbdd_false" | (go) "a \<noteq> mtbdd_true" "a \<noteq> mtbdd_false" by blast
  then show ?case
  proof cases
    case 1
    then have "f = (\<lambda>_. True)" using b by (simp add: bdd_true_iff)
    then show ?thesis using 1 now [OF b, of "closed f"] closed_const by simp
  next
    case 2
    then have "f = (\<lambda>_. False)" using b by (simp add: bdd_false_iff)
    then show ?thesis using 2 now [OF b, of "closed f"] closed_const by simp
  next
    case go
    have nc: "MTBDD_INDEX a \<noteq> 0" by (rule bdd_nonconst [OF b go])
    define l where "l = getvar st a"
    note lv = bdd_getvar [OF bdd_level [OF tb b Suc.prems(4)] nc, folded l_def]
    let ?cn = "cachenow st p l" and ?s = "l AND NOT 1" and ?i = "pair_src (unat l)"
    note w = pair_words [OF lv(2)]
    show ?thesis
    proof (cases "try_cache st ?cn CACHE_BDD_CLOSURE a 0 0")
      case (Some r)
      have "closure_sem (nodes st) a r"
        using try_cache_sem [OF ok bdd_dd_word [OF b] op_words(14) key_nonzero [OF nc] Some] by (simp add: op_sem_CLOSURE)
      then obtain g h where g: "bdd (nodes st) 0 a g" "bdd (nodes st) 0 r h" "closed g h" unfolding closure_sem_def by blast
      have "g = f" by (rule bdd_fun [OF g(1) b])
      then have "gives keep st (Inr (r, st)) (closed f)" using now [where P = "closed f", OF g(2)] g(3) by simp
      then show ?thesis
        unfolding sylvan_closure.simps if_not_P [OF go(1)] if_not_P [OF go(2)] l_def [symmetric] Let_def Some option.case .
    next
      case None
      obtain a0 a1 where c: "(a0, a1) = rel_cofactors st ?s a" by (metis surj_pair)
      obtain a00 a01 a10 a11 where ct: "(a00, a01) = rel_cofactors st (?s + 1) a0" "(a10, a11) = rel_cofactors st (?s + 1) a1"
        by (metis surj_pair)
      note ca = rel_cofactors_bdd [OF ok Suc.prems(2) b _ c, unfolded w(1), OF indep_mono [OF lv(3) w(3)]]
      note ca0 = rel_cofactors_bdd [OF ok ca(2,1) _ ct(1), unfolded w(2), OF bdd_indep [OF ca(1)]]
        and ca1 = rel_cofactors_bdd [OF ok ca(4,3) _ ct(2), unfolded w(2), OF bdd_indep [OF ca(3)]]
      have a: "usable st a00 (cof (cof f ?i False) (Suc ?i) False)" "usable st a01 (cof (cof f ?i False) (Suc ?i) True)"
        "usable st a10 (cof (cof f ?i True) (Suc ?i) False)" "usable st a11 (cof (cof f ?i True) (Suc ?i) True)"
        using ca0 ca1 bdd_mono [OF _ le0] by (auto simp: usable_def)
      have ix: "indep (Suc (Suc ?i)) (cof (cof f ?i b) (Suc ?i) d)" for b d
        using bdd_indep [OF ca0(1)] bdd_indep [OF ca0(3)] bdd_indep [OF ca1(1)] bdd_indep [OF ca1(3)] by (cases b; cases d) simp_all
      have top: "u \<le> ?i" if "indep u f" "even u" for u
      proof -
        have "u \<le> unat l" using closure_top [OF tb b nc that(1)] by (simp add: l_def)
        then show ?thesis using that(2) div_le_mono [of u "unat l" 2] by (simp add: src_div dvd_div_eq_mult) (metis dvd_mult_div_cancel mult_le_mono2)
      qed
      have C: "gives keep z (sylvan_closure fuel x l z) (closed g)" if "bdd_ok z" "usable z x g" "indep (Suc (Suc ?i)) g" for z x g
      proof (rule Suc.IH [OF that(1) _ _ that(3)])
        show "safe z x" "bdd (nodes z) 0 x g" using that(2) by (simp_all add: usable_def)
        show "Suc (Suc ?i) \<le> 2 ^ 24" "2 ^ 24 < Suc (Suc ?i) + fuel" using w(4,5) lv(1) Suc.prems(6) by linarith+
      qed
      have sem: "op_sem CACHE_BDD_CLOSURE (nodes t) a 0 0 r" if "keep st t" "closed f h" "bdd (nodes t) 0 r h" for t r h
        unfolding op_sem_CLOSURE closure_sem_def using that onward_bdd [OF onward_keep [OF that(1)] Suc.prems(2) b] by blast
      show ?thesis
        unfolding sylvan_closure.simps if_not_P [OF go(1)] if_not_P [OF go(2)] l_def [symmetric] Let_def None option.case prod.case
          c [symmetric] ct [symmetric]
      proof (rule gc.gives_put [OF _ bdd_dd_word [OF b] op_words(14)])
        show "op_sem CACHE_BDD_CLOSURE (nodes t) a 0 0 r" if "keep st t" "closed f h" "bdd (nodes t) 0 r h" for t r h
          by (rule sem [OF that])
      qed (rule closure_body [where C = "\<lambda>x. sylvan_closure fuel x l", OF ok w(2,1,5) src_even a ix], erule (1) top, erule (2) C)
    qed
  qed
qed simp

text \<open>
  For a relation that is not reflexive the result need not even have its pairs: the closure of
  the relation that inverts one bit is empty, although it should hold everywhere.
\<close>

lemma set_fuel_Suc: "\<exists>k. set_fuel = Suc k"
  by (simp add: set_fuel_def)

lemma relprev_false: "a = mtbdd_false \<or> b = mtbdd_false \<Longrightarrow> sylvan_relprev set_fuel a b x p st = Inr (mtbdd_false, st)"
proof -
  obtain k where k: "set_fuel = Suc k" using set_fuel_Suc by blast
  assume "a = mtbdd_false \<or> b = mtbdd_false"
  then show "sylvan_relprev set_fuel a b x p st = Inr (mtbdd_false, st)" unfolding k by auto
qed

lemma sum_false:
  "a = mtbdd_false \<or> b = mtbdd_false \<Longrightarrow>
    closure_sum l mtbdd_false a b st = Inr (mtbdd_false, mtbdd_refs_pop 1 (mtbdd_refs_push mtbdd_false st))"
proof -
  obtain k where k: "set_fuel = Suc k" using set_fuel_Suc by blast
  assume "a = mtbdd_false \<or> b = mtbdd_false"
  then have r: "sylvan_relprev set_fuel a b mtbdd_false l st = Inr (mtbdd_false, st)" by (rule relprev_false)
  have "sylvan_ite set_fuel mtbdd_false mtbdd_true mtbdd_false l t = Inr (mtbdd_false, t)" for t
    unfolding k sylvan_ite.simps(2) by simp
  then show "closure_sum l mtbdd_false a b st = Inr (mtbdd_false, mtbdd_refs_pop 1 (mtbdd_refs_push mtbdd_false st))"
    by (simp add: closure_sum_def pushed_def r)
qed

lemma closure_not_reflexive:
  assumes ok: "bdd_ok st" and s: "safe st a" and b: "bdd (nodes st) 0 a (\<lambda>\<sigma>. \<sigma> 0 \<noteq> \<sigma> 1)"
    and fresh: "cache_get3 (ocache st) CACHE_BDD_CLOSURE a 0 0 = None"
  shows "\<exists>t. sylvan_closure (Suc (Suc fuel)) a p st = Inr (mtbdd_false, t)"
proof -
  let ?f = "\<lambda>\<sigma> :: nat \<Rightarrow> bool. \<sigma> 0 \<noteq> \<sigma> 1"
  note tb = bdd_ok_table [OF ok]
  have ne: "?f (\<lambda>i. i = 0)" "\<not> ?f (\<lambda>_. True)" by simp_all
  have go: "a \<noteq> mtbdd_true" "a \<noteq> mtbdd_false" using b ne by (auto simp: bdd_true_iff bdd_false_iff dest: fun_cong)
  have nc: "MTBDD_INDEX a \<noteq> 0" by (rule bdd_nonconst [OF b go])
  have "\<not> indep 1 ?f"
    unfolding indep_def by (intro notI) (drule spec [of _ "\<lambda>i. i = 0"], drule spec [of _ "\<lambda>_. False"], simp)
  moreover have "indep (unat (getvar st a)) ?f" by (rule bdd_getvar(3) [OF b nc])
  ultimately have "\<not> 1 \<le> unat (getvar st a)" using indep_mono by blast
  then have "unat (getvar st a) = 0" by simp
  then have l: "getvar st a = 0" by (simp only: unat_eq_0)
  have w: "unat (0 AND NOT 1 :: u32) = 0" "unat ((0 AND NOT 1 :: u32) + 1) = 1" by simp_all
  obtain a0 a1 where c: "(a0, a1) = rel_cofactors st (0 AND NOT 1) a" by (metis surj_pair)
  obtain a00 a01 a10 a11 where ct: "(a00, a01) = rel_cofactors st ((0 AND NOT 1) + 1) a0" "(a10, a11) = rel_cofactors st ((0 AND NOT 1) + 1) a1"
    by (metis surj_pair)
  note ca = rel_cofactors_bdd [OF ok s b _ c, unfolded w(1), OF indep_zero]
  note ca0 = rel_cofactors_bdd [OF ok ca(2,1) _ ct(1), unfolded w(2), OF bdd_indep [OF ca(1), folded One_nat_def]]
    and ca1 = rel_cofactors_bdd [OF ok ca(4,3) _ ct(2), unfolded w(2), OF bdd_indep [OF ca(3), folded One_nat_def]]
  have v: "a00 = mtbdd_false" "a11 = mtbdd_false"
  proof -
    have "cof (cof ?f 0 d) 1 d = (\<lambda>_. False)" for d by (simp add: cof_def)
    then have "bdd (nodes st) (Suc 1) a00 (\<lambda>_. False)" "bdd (nodes st) (Suc 1) a11 (\<lambda>_. False)" using ca0(1) ca1(3) by metis+
    then show "a00 = mtbdd_false" "a11 = mtbdd_false" using bdd_canonical [OF tb _ bdd.bdd_false] by blast+
  qed
  have n: "try_cache st q CACHE_BDD_CLOSURE a 0 0 = None" for q using fresh by (simp add: try_cache_def)
  show ?thesis
    unfolding sylvan_closure.simps(2) [of "Suc fuel"] if_not_P [OF go(1)] if_not_P [OF go(2)] l Let_def n option.case prod.case c [symmetric] ct [symmetric] v
    by (simp add: relprev_false sum_false pushed_def mtbdd_makenode_def)
qed

end
