(* ===== verification/BddCompose.thy ===== *)
theory BddCompose
  imports MtbddMaps
begin

text \<open>
  Composition in \<open>sylvan_bdd.c\<close>: every variable of a diagram that is a key of a map is replaced
  by the diagram the map has for it, all at once (\<open>compose_fun\<close>).
\<close>

section \<open>The operation\<close>

text \<open>The loop that drops the keys above a level.\<close>

primrec skip_map :: "nat \<Rightarrow> llmsset \<Rightarrow> u64 \<Rightarrow> u32 \<Rightarrow> serror + u64" where
  "skip_map 0 dbs map' level = Inl OutOfFuel"
| "skip_map (Suc k) dbs map' level =
    (let map_node = MTBDD_GETNODE dbs map';
         map_var = mtbddnode_getvariable map_node
     in if map_var < level then
          (let map' = mtbddnode_followlow map' map_node
           in if mtbdd_map_isempty map' then Inr map' else skip_map k dbs map' level)
        else Inr map')"

text \<open>
  The high branch runs first, then the spawned low branch, each result pushed. The
  if-then-else at the end starts at level 0, as the diagrams of the map may have any variable.
\<close>

primrec sylvan_compose :: "nat \<Rightarrow> u64 \<Rightarrow> u64 \<Rightarrow> u32 \<Rightarrow> sylvan \<Rightarrow> serror + (u64 \<times> sylvan)" where
  "sylvan_compose 0 a map' prev_level st = Inl OutOfFuel"
| "sylvan_compose (Suc fuel) a map' prev_level st =
    (if a = mtbdd_false \<or> a = mtbdd_true then Inr (a, st)
     else if mtbdd_map_isempty map' then Inr (a, st)
     else
     let n = MTBDD_GETNODE (nodes st) a;
         level = mtbddnode_getvariable n
     in bindE (skip_map set_fuel (nodes st) map' level) (\<lambda>map'.
     if mtbdd_map_isempty map' then Inr (a, st)
     else
     let map_var = getvar st map';
         cn = cachenow st prev_level level
     in case try_cache st cn CACHE_BDD_COMPOSE a map' 0 of Some r \<Rightarrow> Inr (r, st) | None \<Rightarrow>
        bindE
          (bindE (sylvan_compose fuel (mtbddnode_followhigh a n) map' level st) (\<lambda>(high, st).
             pushed high (\<lambda>st. bindE (sylvan_compose fuel (mtbddnode_followlow a n) map' level st) (\<lambda>(low, st).
               pushed low (\<lambda>st. bindE
                 (if map_var = level then Inr (mtbdd_gethigh (nodes st) map', st) else mtbdd_ithvar level st) (\<lambda>(root, st).
                   pushed root (sylvan_ite set_fuel root high low 0) st)) st)) st))
          (\<lambda>(result, st). Inr (result, put_cache cn CACHE_BDD_COMPOSE a map' 0 result st))))"

section \<open>Composed functions\<close>

lemma compose_empty [simp]: "compose_fun Map.empty f = f"
  by (simp add: compose_fun_def)

lemma compose_const [simp]: "compose_fun m (\<lambda>_. b) = (\<lambda>_. b)"
  by (simp add: compose_fun_def)

lemma compose_indep:
  assumes "indep v f" "\<And>i. v \<le> i \<Longrightarrow> m i = m' i"
  shows "compose_fun m f = compose_fun m' f"
  unfolding compose_fun_def by (rule ext) (rule indepD [OF assms(1)], simp add: assms(2))

definition root_fun :: "(nat \<rightharpoonup> bfun) \<Rightarrow> nat \<Rightarrow> bfun" where
  "root_fun m i = (case m i of None \<Rightarrow> \<lambda>\<sigma>. \<sigma> i | Some g \<Rightarrow> g)"

lemma compose_split:
  "compose_fun m f = ite_fun (root_fun m i) (compose_fun m (cof f i True)) (compose_fun m (cof f i False))"
proof (rule ext)
  fix \<sigma>
  define \<tau> where "\<tau> = (\<lambda>j. case m j of None \<Rightarrow> \<sigma> j | Some g \<Rightarrow> g \<sigma>)"
  have c: "compose_fun m h \<sigma> = h \<tau>" for h by (simp add: compose_fun_def \<tau>_def)
  have r: "root_fun m i \<sigma> = \<tau> i" by (simp add: root_fun_def \<tau>_def split: option.split)
  have "f \<tau> = cof f i (\<tau> i) \<tau>" by (simp add: cof_def fun_upd_idem)
  then show "compose_fun m f \<sigma> = ite_fun (root_fun m i) (compose_fun m (cof f i True)) (compose_fun m (cof f i False)) \<sigma>"
    unfolding ite_fun_def c r by (cases "\<tau> i") simp_all
qed

section \<open>Dropping keys from a map\<close>

lemma skip_map_spec:
  "bdd_ok st \<Longrightarrow> safe st x \<Longrightarrow> bdd_map (nodes st) v x m \<Longrightarrow> x \<noteq> mtbdd_false \<Longrightarrow> v \<le> 2 ^ 24 \<Longrightarrow> 2 ^ 24 < v + k \<Longrightarrow>
   \<exists>y m'. skip_map k (nodes st) x level = Inr y \<and> safe st y \<and> bdd_map (nodes st) 0 y m' \<and>
     (\<forall>i \<in> dom m'. unat level \<le> i) \<and> (\<forall>i. unat level \<le> i \<longrightarrow> m i = m' i)"
proof (induction k arbitrary: v x m)
  case (Suc k)
  let ?nd = "MTBDD_GETNODE (nodes st) x"
  let ?k = "unat (mtbddnode_getvariable ?nd)"
  obtain t g where m: "m = t(?k \<mapsto> g)" "v \<le> ?k" "?k < 2 ^ 24" "bdd_map (nodes st) (Suc ?k) (mtbddnode_followlow x ?nd) t"
    "safe st (mtbddnode_followlow x ?nd)" "\<forall>i \<in> dom t. ?k < i"
    by (rule map_first [OF Suc.prems(1-4)])
  show ?case
  proof (cases "?k < unat level")
    case True
    then have e: "\<forall>i. unat level \<le> i \<longrightarrow> m i = t i" by (simp add: m(1))
    show ?thesis
    proof (cases "mtbddnode_followlow x ?nd = mtbdd_false")
      case F: True
      then have "t = Map.empty" using bdd_map_empty [OF m(4)] by simp
      then show ?thesis
        using True F e bdd_map.map_empty [of "nodes st" 0]
        by (intro exI [of _ mtbdd_false] exI [of _ "Map.empty"]) (simp add: mtbdd_map_isempty_def Let_def word_less_nat_alt)
    next
      case False
      have "\<exists>y m'. skip_map k (nodes st) (mtbddnode_followlow x ?nd) level = Inr y \<and> safe st y \<and> bdd_map (nodes st) 0 y m' \<and>
          (\<forall>i \<in> dom m'. unat level \<le> i) \<and> (\<forall>i. unat level \<le> i \<longrightarrow> t i = m' i)"
        by (rule Suc.IH [OF Suc.prems(1) m(5,4) False]) (use m(2,3) Suc.prems(6) in auto)
      then show ?thesis using True False e by (simp add: mtbdd_map_isempty_def Let_def word_less_nat_alt)
    qed
  next
    case False
    have "\<forall>i \<in> dom t. unat level \<le> i" using False m(6) by (meson less_imp_le linorder_not_less order.trans)
    then have "\<forall>i \<in> dom m. unat level \<le> i" using False by (auto simp: m(1))
    then show ?thesis
      using False Suc.prems(2) bdd_map_mono [OF Suc.prems(3) le0] by (auto simp: Let_def word_less_nat_alt)
  qed
qed simp

text \<open>The value at a level in a later state, when no key is above the level.\<close>

lemma map_value_later:
  assumes ok: "bdd_ok s" "bdd_ok u" and o: "onward s u" and s: "safe s x" and x: "bdd_map (nodes s) v x m" "x \<noteq> mtbdd_false"
    and l: "\<forall>i \<in> dom m. unat level \<le> i"
  shows "getvar s x = level \<longleftrightarrow> unat level \<in> dom m"
    "m (unat level) = Some g \<Longrightarrow> bdd (nodes u) 0 (mtbdd_gethigh (nodes u) x) g \<and> safe u (mtbdd_gethigh (nodes u) x)"
proof -
  have first: "\<exists>g. m (unat (getvar w x)) = Some g \<and> bdd (nodes w) 0 (mtbdd_gethigh (nodes w) x) g \<and>
      safe w (mtbdd_gethigh (nodes w) x) \<and> (\<forall>i \<in> dom m. unat (getvar w x) \<le> i)"
    if w: "bdd_ok w" "safe w x" "bdd_map (nodes w) v x m" for w
  proof -
    let ?k = "unat (mtbddnode_getvariable (MTBDD_GETNODE (nodes w) x))"
    obtain t h where "m = t(?k \<mapsto> h)" "bdd (nodes w) 0 (mtbdd_gethigh (nodes w) x) h"
      "safe w (mtbdd_gethigh (nodes w) x)" "\<forall>i \<in> dom t. ?k < i"
      by (rule map_first [OF w x(2)])
    then show ?thesis unfolding getvar_def by (intro exI [of _ h]) (auto simp: less_imp_le)
  qed
  obtain g0 where a: "m (unat (getvar s x)) = Some g0" "\<forall>i \<in> dom m. unat (getvar s x) \<le> i"
    using first [OF ok(1) s x(1)] by blast
  then show "getvar s x = level \<longleftrightarrow> unat level \<in> dom m"
    using l by (metis domI order.antisym word_unat_eq_iff)
  obtain g1 where b: "m (unat (getvar u x)) = Some g1" "\<forall>i \<in> dom m. unat (getvar u x) \<le> i"
    "bdd (nodes u) 0 (mtbdd_gethigh (nodes u) x) g1" "safe u (mtbdd_gethigh (nodes u) x)"
    using first [OF ok(2) onward_safe [OF o s] onward_map [OF o s x(1)]] by blast
  assume g: "m (unat level) = Some g"
  then have "unat (getvar u x) = unat level" using b(1,2) l by (metis domI order.antisym)
  then show "bdd (nodes u) 0 (mtbdd_gethigh (nodes u) x) g \<and> safe u (mtbdd_gethigh (nodes u) x)"
    using b g by simp
qed

section \<open>Correctness\<close>

lemma op_sem_COMPOSE: "op_sem CACHE_BDD_COMPOSE n a b c r \<longleftrightarrow> compose_sem n a b r"
  by (simp add: op_sem_def op_defs push_bit_eq_mult)

lemma compose_sem_map:
  assumes "bdd n v a f" "bdd_map n u x m"
  shows "compose_sem n a x r \<longleftrightarrow> bdd n 0 r (compose_fun m f)"
  unfolding compose_sem_def
  using bdd_fun [OF assms(1)] bdd_map_fun [OF assms(2)] bdd_mono [OF assms(1) le0] bdd_map_mono [OF assms(2) le0] by metis

lemma ithvar_gives:
  assumes "bdd_ok st" "unat level < 2 ^ 24"
  shows "gives keep st (mtbdd_ithvar level st) (\<lambda>h. h = (\<lambda>\<sigma>. \<sigma> (unat level)))"
proof -
  have "branch (unat level) (\<lambda>_. False) (\<lambda>_. True) = (\<lambda>\<sigma>. \<sigma> (unat level))" by (auto simp: branch_def)
  then show ?thesis
    using gc.mk_gives [OF assms(1) bdd.bdd_false bdd.bdd_true _ _ assms(2)] by (simp add: mtbdd_ithvar_def)
qed

text \<open>The choice by the root, when both branches are done and the results are pushed.\<close>

lemma compose_join:
  assumes ok: "bdd_ok s" and high: "gives keep s mh (\<lambda>h. h = fh)"
    and low: "\<And>u. bdd_ok u \<Longrightarrow> onward s u \<Longrightarrow> gives keep u (ml u) (\<lambda>h. h = fl)"
    and root: "\<And>u. bdd_ok u \<Longrightarrow> onward s u \<Longrightarrow> gives keep u (mr u) (\<lambda>h. h = fr)"
  shows "gives keep s (bindE mh (\<lambda>(high, st). pushed high (\<lambda>st. bindE (ml st) (\<lambda>(low, st).
    pushed low (\<lambda>st. bindE (mr st) (\<lambda>(root, st). pushed root (sylvan_ite set_fuel root high low 0) st)) st)) st))
    (\<lambda>h. h = ite_fun fr fh fl)"
proof (rule gc.gives_bind [OF high], goal_cases)
  case H: (1 high t f)
  show ?case
    unfolding prod.case
  proof (rule gives_with_gives [OF pushed_onward [OF H(1,2,4)]], goal_cases)
    case U: (1 u)
    show ?case
    proof (rule gc.gives_bind [OF low [OF U(1,2)]], goal_cases)
      case L: (1 low w g)
      show ?case
        unfolding prod.case
      proof (rule gives_with_gives [OF pushed_onward [OF L(1,2,4)]], goal_cases)
        case X: (1 x)
        note ux = X(2)
        show ?case
        proof (rule gc.gives_bind [OF root [OF X(1) onward_trans [OF U(2) ux]]], goal_cases)
          case R: (1 root y k)
          note xy = onward_keep [OF R(2)]
          show ?case
            unfolding prod.case
          proof (rule gives_with_gives [OF pushed_onward [OF R(1,2,4)]], goal_cases)
            case (1 z)
            have o: "onward x z" "onward u z" using 1(2) onward_trans [OF ux] by auto
            have "gives keep z (sylvan_ite set_fuel root high low 0 z) (\<lambda>h. h = ite_fun k f g)"
              by (rule sylvan_ite_gives [OF 1(1) 1(3) onward_safe [OF o(2) U(3)] onward_safe [OF o(1) X(3)]
                    bdd_mono [OF 1(4) le0] onward_bdd [OF o(2) U(3,4)] onward_bdd [OF o(1) X(3,4)], where v = 0])
                (use bdd_indep [OF R(4)] bdd_indep [OF H(4)] bdd_indep [OF L(4)] in \<open>auto simp: set_fuel_def\<close>)
            then show ?case using H(3) L(3) R(3) by simp
          qed
        qed
      qed
    qed
  qed
qed

lemma sylvan_compose_gives:
  "bdd_ok st \<Longrightarrow> safe st a \<Longrightarrow> safe st x \<Longrightarrow> bdd (nodes st) 0 a f \<Longrightarrow> bdd_map (nodes st) 0 x m \<Longrightarrow>
   indep v f \<Longrightarrow> v \<le> 2 ^ 24 \<Longrightarrow> 2 ^ 24 < v + fuel \<Longrightarrow>
   gives keep st (sylvan_compose fuel a x p st) (\<lambda>h. h = compose_fun m f)"
proof (induction fuel arbitrary: st a x f m v p)
  case (Suc fuel)
  note ok = Suc.prems(1) and now = gc.gives_now [OF Suc.prems(1)] and tb = bdd_ok_table [OF Suc.prems(1)]
  consider "a = mtbdd_true \<or> a = mtbdd_false" | "a \<noteq> mtbdd_true" "a \<noteq> mtbdd_false" "x = mtbdd_false"
    | "a \<noteq> mtbdd_true" "a \<noteq> mtbdd_false" "x \<noteq> mtbdd_false" by blast
  then show ?case
  proof cases
    case 1
    then have "compose_fun m f = f" using Suc.prems(4) by (auto simp: bdd_true_iff bdd_false_iff)
    then show ?thesis using now [OF Suc.prems(4)] 1 by auto
  next
    case 2
    then have "m = Map.empty" using bdd_map_empty [OF Suc.prems(5)] by simp
    then show ?thesis using now [OF Suc.prems(4)] 2 by (simp add: mtbdd_map_isempty_def)
  next
    case 3
    have nc: "MTBDD_INDEX a \<noteq> 0" by (rule bdd_nonconst [OF Suc.prems(4) 3(1,2)])
    define na where "na = MTBDD_GETNODE (nodes st) a"
    define l where "l = mtbddnode_getvariable na"
    let ?i = "unat l"
    note c = node_cofactors [OF ok Suc.prems(2) bdd_level [OF tb Suc.prems(4,6)] nc, folded na_def, folded l_def]
    obtain y m' where y: "skip_map set_fuel (nodes st) x l = Inr y" "safe st y" "bdd_map (nodes st) 0 y m'"
      "\<forall>i \<in> dom m'. ?i \<le> i" "\<forall>i. ?i \<le> i \<longrightarrow> m i = m' i"
      using skip_map_spec [OF ok Suc.prems(3,5) 3(3), of set_fuel l] by (auto simp: set_fuel_def)
    have same: "compose_fun m f = compose_fun m' f" by (rule compose_indep [OF c(7)]) (use y(5) in simp)
    have f: "Suc ?i \<le> 2 ^ 24" "2 ^ 24 < Suc ?i + fuel" using c(5,6) Suc.prems(8) by auto
    show ?thesis
    proof (cases "y = mtbdd_false")
      case True
      then have "m' = Map.empty" using bdd_map_empty [OF y(3)] by simp
      then show ?thesis
        using now [OF Suc.prems(4)] 3 y(1) True same by (simp add: mtbdd_map_isempty_def Let_def flip: na_def l_def)
    next
      case ne: False
      let ?cn = "cachenow st p l"
      show ?thesis
      proof (cases "try_cache st ?cn CACHE_BDD_COMPOSE a y 0")
        case (Some r)
        have "compose_sem (nodes st) a y r"
          using try_cache_sem [OF ok bdd_dd_word [OF Suc.prems(4)] _ key_nonzero [OF nc] Some] by (simp add: op_sem_COMPOSE)
        then have "bdd (nodes st) 0 r (compose_fun m f)" unfolding compose_sem_map [OF Suc.prems(4) y(3)] same .
        then have "gives keep st (Inr (r, st)) (\<lambda>h. h = compose_fun m f)" by (rule now) (rule refl)
        then show ?thesis using 3 y(1) ne Some by (simp add: mtbdd_map_isempty_def Let_def flip: na_def l_def)
      next
        case None
        define mr where "mr = (\<lambda>st'. if getvar st y = l then Inr (mtbdd_gethigh (nodes st') y, st') else mtbdd_ithvar l st')"
        define body where "body = bindE (sylvan_compose fuel (mtbddnode_followhigh a na) y l st) (\<lambda>(high, st).
             pushed high (\<lambda>st. bindE (sylvan_compose fuel (mtbddnode_followlow a na) y l st) (\<lambda>(low, st).
               pushed low (\<lambda>st. bindE (mr st) (\<lambda>(root, st). pushed root (sylvan_ite set_fuel root high low 0) st)) st)) st)"
        have "gives keep st body (\<lambda>h. h = ite_fun (root_fun m' ?i) (compose_fun m' (cof f ?i True)) (compose_fun m' (cof f ?i False)))"
          unfolding body_def
        proof (rule compose_join [OF ok])
          show "gives keep st (sylvan_compose fuel (mtbddnode_followhigh a na) y l st) (\<lambda>h. h = compose_fun m' (cof f ?i True))"
            by (rule Suc.IH [OF ok c(4) y(2) bdd_mono [OF c(3) le0] y(3) bdd_indep [OF c(3)] f])
          show "gives keep u (sylvan_compose fuel (mtbddnode_followlow a na) y l u) (\<lambda>h. h = compose_fun m' (cof f ?i False))"
            if u: "bdd_ok u" "onward st u" for u
            by (rule Suc.IH [OF u(1) onward_safe [OF u(2) c(2)] onward_safe [OF u(2) y(2)]
                  onward_bdd [OF u(2) c(2,1)] onward_map [OF u(2) y(2,3)] bdd_indep [OF c(1)] f])
          show "gives keep u (mr u) (\<lambda>h. h = root_fun m' ?i)" if u: "bdd_ok u" "onward st u" for u
          proof (cases "m' ?i")
            case N: None
            then have "getvar st y \<noteq> l" using map_value_later(1) [OF ok u y(2,3) ne y(4)] by auto
            then show ?thesis using ithvar_gives [OF u(1) c(6)] N by (simp add: mr_def root_fun_def)
          next
            case (Some g)
            then have "getvar st y = l" using map_value_later(1) [OF ok u y(2,3) ne y(4)] by blast
            moreover have "bdd (nodes u) 0 (mtbdd_gethigh (nodes u) y) g"
              using map_value_later(2) [OF ok u y(2,3) ne y(4) Some] by blast
            ultimately show ?thesis using gc.gives_now [OF u(1)] Some by (simp add: mr_def root_fun_def)
          qed
        qed
        then have "gives keep st body (\<lambda>h. h = compose_fun m f)" unfolding same by (simp only: flip: compose_split [of m' f])
        then have "gives keep st (bindE body (\<lambda>(r, t). Inr (r, put_cache ?cn CACHE_BDD_COMPOSE a y 0 r t))) (\<lambda>h. h = compose_fun m f)"
        proof (rule gc.gives_put)
          show "op_sem CACHE_BDD_COMPOSE (nodes t) a y 0 r"
            if "keep st t" "h = compose_fun m f" "bdd (nodes t) 0 r h" for t r h
            using that compose_sem_map [OF onward_bdd [OF onward_keep [OF that(1)] Suc.prems(2,4)]
                onward_map [OF onward_keep [OF that(1)] y(2,3)]] same by (simp add: op_sem_COMPOSE)
        qed (use bdd_dd_word [OF Suc.prems(4)] in auto)
        moreover have "sylvan_compose (Suc fuel) a x p st = bindE body (\<lambda>(r, t). Inr (r, put_cache ?cn CACHE_BDD_COMPOSE a y 0 r t))"
          using 3 y(1) ne None by (simp add: body_def mr_def mtbdd_map_isempty_def Let_def cong: if_cong flip: na_def l_def)
        ultimately show ?thesis by (simp only:)
      qed
    qed
  qed
qed simp

declare sylvan_compose.simps(2) [simp del]

end
