(* ===== verification/SylvanStart.thy ===== *)
theory SylvanStart
  imports BddIte
begin

text \<open>
  The state after \<open>sylvan_init_package\<close> and \<open>sylvan_init_mtbdd\<close> is well-formed. A small
  instance of it, with the node of one variable, is the example on which the hypotheses of
  the properties are shown to hold.
\<close>

section \<open>Initialisation\<close>

lemma popcount_power2: "popcountll (of_nat n) = 1 \<Longrightarrow> n < 2 ^ 64 \<Longrightarrow> power2 n"
proof -
  assume p: "popcountll (of_nat n) = 1" and n: "n < 2 ^ 64"
  obtain k where k: "k < 64" "(of_nat n :: u64) = of_nat (2 ^ k)" using popcountll_one [OF p] .
  moreover have "(2::nat) ^ k < 2 ^ 64" using k(1) by (intro power_strict_increasing) simp_all
  ultimately have "n = 2 ^ k" using n by (simp only: word_of_nat_inj_64)
  then show "power2 n" using k(1) by (auto simp: power2_def)
qed

lemma callbacks_sel [simp]:
  "live (install_callbacks reg n) d \<longleftrightarrow> live n d" "max_size (install_callbacks reg n) = max_size n"
  "table_size (install_callbacks reg n) = table_size n" "dptr (install_callbacks reg n) d = dptr n d"
  "table (install_callbacks reg n) = table n" "threshold (install_callbacks reg n) = threshold n"
  "slot (install_callbacks reg n) p k = slot n p k" "entry (install_callbacks reg n) d = entry n d"
  by (simp_all add: install_callbacks_def llmsset_set_custom_def live_def dptr_def slot_def hash_of_def entry_def)

lemma table_ok_callbacks [simp]: "table_ok (install_callbacks reg n) \<longleftrightarrow> table_ok n"
proof -
  have "shape_ok (install_callbacks reg n) \<longleftrightarrow> shape_ok n" "threshold_ok (install_callbacks reg n) \<longleftrightarrow> threshold_ok n"
    by (simp_all add: install_callbacks_def llmsset_set_custom_def shape_ok_def threshold_ok_def region_ok_def)
  moreover have "sits_at (install_callbacks reg n) d k \<longleftrightarrow> sits_at n d k" for d k
    by (simp add: sits_at_def)
  then have "placed (install_callbacks reg n) D \<longleftrightarrow> placed n D" for D by (simp add: placed_def)
  ultimately show ?thesis by (simp add: table_ok_def)
qed

lemma empty_lists: "refs_arr tbl = (\<lambda>_. 0) \<Longrightarrow> refs_list tbl = []" "refs_arr tbl = (\<lambda>_. 0) \<Longrightarrow> protect_list tbl = []"
  by (simp_all add: refs_list_eq protect_list_eq used_bucket_def filter_empty_conv)

lemma sylvan_init_ok:
  assumes p: "sylvan_init_package env sz = Inr (n, c)" and m: "sylvan_init_mtbdd n c mem = Inr st"
    and sz: "table_max sz \<le> 2 ^ 40" "cache_max_size sz < 2 ^ 64"
    and env: "my_region env = -1" "0 < lace_n_workers_id env"
  shows "bdd_ok st" "roots st = {}" "\<not> live (nodes st) d"
proof -
  have n: "llmsset_create env (table_min sz) (table_max sz) = Inr n"
    and c: "cache_create (cache_min sz) (cache_max_size sz) = Inr c"
    using p by (auto simp: sylvan_init_package_def bindE_eq_Inr split: if_splits)
  note t = llmsset_create_spec [OF n sz(1) env]
  obtain reg where st: "nodes st = install_callbacks reg n" "ocache st = c"
    and l: "rstack st = []" "pstack st = []" "refs_list (mtbdd_refs st) = []" "protect_list (mtbdd_protected st) = []"
    using m by (auto simp: sylvan_init_mtbdd_def sylvan_init_mt_def bindE_eq_Inr refs_create_def protect_create_def
        empty_lists Let_def split: if_splits)
  show r: "roots st = {}" using l by (simp add: roots_def)
  show nl: "\<not> live (nodes st) d" using t(7) by (simp add: st)
  have f: "cache_fresh c" by (rule cache_create_fresh [OF c])
  have pw: "popcountll (of_nat (cache_min sz)) = 1" "popcountll (of_nat (cache_max_size sz)) = 1" "cache_min sz \<le> cache_max_size sz"
    and cs: "cache_size c = cache_min sz" "cache_max c = cache_max_size sz"
    using c by (auto simp: cache_create_def split: if_splits)
  have "cache_shape c"
    unfolding cache_shape_def cs using pw sz(2) by (auto intro: popcount_power2)
  moreover have "closed_set (nodes st) (live_set (nodes st))"
    using t(7) by (simp add: closed_set_def live_set_def st)
  ultimately have "state_ok st"
    using t oc.fresh_inv [OF f] r by (simp add: state_ok_def st)
  then show "bdd_ok st" using cache_sound_fresh [OF f] by (simp add: bdd_ok_def st)
qed

section \<open>An example\<close>

text \<open>The smallest tables, one worker, and the variable 3 on the stack of references.\<close>

definition example_env :: llmsset where
  "example_env = \<lparr>table = \<lambda>_. 0, data = \<lambda>_. 0, bitmap1 = \<lambda>_. 0, bitmap2 = \<lambda>_. 0, bitmapc = \<lambda>_. 0, max_size = 0,
     table_size = 0, size_mask = 0, hash_cb = None, equals_cb = None, create_cb = None, destroy_cb = False,
     destroyed = [], threshold = 0, my_region = -1, my_worker_id = 0, lace_n_workers_id = 1, tabhash_table = \<lambda>_. 0\<rparr>"

definition example_sizes :: table_sizes where
  "example_sizes = \<lparr>table_min = 512, table_max = 512, cache_min = 512, cache_max_size = 512\<rparr>"

definition example_nodes :: llmsset where
  "example_nodes = (llmsset_set_size (example_env\<lparr>max_size := 512\<rparr>) 512)\<lparr>
     bitmap2 := (\<lambda>_. 0)(0 := 0xc000000000000000), tabhash_table := sylvan_init_hash (\<lambda>_. 0)\<rparr>"

definition example_cache :: opcache where
  "example_cache = \<lparr>cache_table = (\<lambda>_. blank_entry), cache_status = (\<lambda>_. 0), cache_size = 512,
     cache_max = 512, cache_mask = 511, next_opid = push_bit 40 512\<rparr>"

definition example_refs :: "nat \<Rightarrow> refs_table" where
  "example_refs n = \<lparr>refs_arr = (\<lambda>_. 0), refs_size = n, refs_control = 0, refs_resize_table = (\<lambda>_. 0),
     refs_resize_size = 0, refs_resize_part = 0, refs_resize_done = 0\<rparr>"

definition example_start :: sylvan where
  "example_start = \<lparr>nodes = snd (sylvan_init_mt None example_nodes), ocache = example_cache, gc_enabled = True,
     main_hook = sylvan_gc_aggressive_resize, granularity = 1, mtbdd_refs = example_refs 1024,
     mtbdd_protected = example_refs 4096, memory = (\<lambda>_. 0), rstack = [], pstack = [],
     registry = fst (sylvan_init_mt None example_nodes)\<rparr>"

lemma popcounts: "popcountll 512 = 1" "popcountll 1024 = 1" "popcountll 4096 = 1"
proof -
  have p: "power2 512" "power2 1024" "power2 4096"
    unfolding power2_def by (rule exI [of _ 9], simp, rule exI [of _ 10], simp, rule exI [of _ 12], simp)
  show "popcountll 512 = 1" "popcountll 1024 = 1" "popcountll 4096 = 1"
    using p [THEN popcountll_power2] by simp_all
qed

lemma example_package: "sylvan_init_package example_env example_sizes = Inr (example_nodes, example_cache)"
  by (simp add: sylvan_init_package_def example_sizes_def llmsset_create_def popcounts cache_create_def
      example_nodes_def example_cache_def example_env_def llmsset_set_size_def Let_def)

lemma example_mtbdd: "sylvan_init_mtbdd example_nodes example_cache (\<lambda>_. 0) = Inr example_start"
  by (simp add: sylvan_init_mtbdd_def refs_create_def protect_create_def popcounts example_start_def
      example_refs_def sylvan_init_mt_def Let_def)

lemma example_start_ok: "bdd_ok example_start" "roots example_start = {}" "\<not> live (nodes example_start) d"
  using sylvan_init_ok [OF example_package example_mtbdd] by (simp_all add: example_sizes_def example_env_def)

lemma example_create: "llmsset_create example_env 512 512 = Inr example_nodes"
  using example_package by (auto simp: sylvan_init_package_def example_sizes_def bindE_eq_Inr split: if_splits)

text \<open>The first node is entered in data bucket 2.\<close>

lemma clzll_3f: "clzll 0x3fffffffffffffff = 2"
proof -
  have u: "[0..<64] = 0 # 1 # 2 # [3..<64]" by (simp add: upt_conv_Cons numeral_eq_Suc)
  have b: "\<not> bit (0x3fffffffffffffff :: u64) 63" "\<not> bit (0x3fffffffffffffff :: u64) 62" "bit (0x3fffffffffffffff :: u64) 61"
  proof -
    have "(0x3fffffffffffffff :: u64) = mask 62" by (simp add: mask_eq_exp_minus_1)
    then show "\<not> bit (0x3fffffffffffffff :: u64) 63" "\<not> bit (0x3fffffffffffffff :: u64) 62" "bit (0x3fffffffffffffff :: u64) 61"
      by (simp_all only: bit_mask_iff possible_bit_word) simp_all
  qed
  show ?thesis unfolding clzll_def u using b by simp
qed

lemma clzll_not_c0: "clzll (- 13835058055282163713) = 2"
proof -
  have "(- 13835058055282163713 :: u64) = 0x3fffffffffffffff" by simp
  then show ?thesis by (simp only: clzll_3f)
qed

lemma example_sel:
  "my_region (nodes example_start) = -1" "table_size (nodes example_start) = 512"
  "bitmap1 (nodes example_start) = (\<lambda>_. 0)" "bitmap2 (nodes example_start) = (\<lambda>_. 0)(0 := 0xc000000000000000)"
  "my_worker_id (nodes example_start) = 0" "lace_n_workers_id (nodes example_start) = 1"
  "table (nodes example_start) = (\<lambda>_. 0)" "max_size (nodes example_start) = 512"
  by (simp_all add: example_start_def sylvan_init_mt_def Let_def install_callbacks_def llmsset_set_custom_def
      example_nodes_def example_env_def llmsset_set_size_def)

lemma example_claim: "claim_data_bucket (nodes example_start) =
    Inr (2, (nodes example_start)\<lparr>my_region := 0, bitmap1 := bm_set (\<lambda>_. 0) 0,
      bitmap2 := (\<lambda>_. 0)(0 := 0xe000000000000000)\<rparr>)"
proof -
  define s0 where "s0 = nodes example_start"
  define s1 where "s1 = s0\<lparr>my_region := 0, bitmap1 := bm_set (\<lambda>_. 0) 0\<rparr>"
  note sel = example_sel [folded s0_def]
  have c: "claim_data_bucket s0 = claim_loop (Suc (Suc (Suc 0))) s0"
    by (simp add: claim_data_bucket_def sel)
  have n: "next_region (Suc 0) (s0\<lparr>my_region := -1\<rparr>) = Some s1"
    by (simp add: sel Let_def s1_def)
  have "claim_loop (Suc (Suc (Suc 0))) s0 = claim_loop (Suc (Suc 0)) s1"
    unfolding claim_loop.simps(2) [of "Suc (Suc 0)" s0]
    using n by (simp only: sel Let_def if_True if_False option.case simp_thms) (simp add: sel)
  moreover have r: "my_region s1 = 0" "bitmap2 s1 = (\<lambda>_. 0)(0 := 0xc000000000000000)" by (simp_all add: s1_def sel)
  have "scan_region s1 (Suc 7) 0 = Some (0, 2)"
    unfolding scan_region.simps Let_def r by (simp add: clzll_not_c0)
  then have "scan_region s1 8 0 = Some (0, 2)" by simp
  then have "claim_loop (Suc (Suc 0)) s1 = Inr (2, s1\<lparr>bitmap2 := (\<lambda>_. 0)(0 := 0xe000000000000000)\<rparr>)"
    unfolding claim_loop.simps(2) [of "Suc 0" s1] r by (simp add: r drop_bit_eq_div)
  ultimately show ?thesis unfolding s0_def [symmetric] c by (simp add: s1_def)
qed

text \<open>The variable 3.\<close>

definition example_var :: sylvan where
  "example_var = (case mtbdd_ithvar 3 example_start of Inr (_, st) \<Rightarrow> st | Inl _ \<Rightarrow> example_start)"

lemma example_lookup:
  assumes "(a, b) \<noteq> (0, 0)"
  shows "\<exists>t. llmsset_lookup (nodes example_start) a b = Inr (2, True, t)"
proof -
  let ?n = "nodes example_start"
  obtain h where h: "llmsset_hash ?n a b False = Inr h" by (simp add: llmsset_hash_def)
  have z: "table ?n i = 0" for i by (simp add: example_sel)
  have "\<exists>t. probe_slot ?n a b False (h AND MASK_HASH) (h AND size_mask ?n) 0 = Inr (Ret 2 True t)"
    unfolding probe_slot_def Let_def z
    by (simp add: claim_and_write_def example_claim write_data_def example_sel Let_def)
  then show ?thesis
    unfolding llmsset_lookup_def llmsset_lookup2_def h by (auto simp: Let_def)
qed

lemma example_ithvar: "mtbdd_ithvar 3 example_start = Inr (2, example_var)"
proof -
  obtain a b where ab: "mtbddnode_makenode 3 mtbdd_false mtbdd_true = (a, b)" by (metis surj_pair)
  have "(a, b) \<noteq> (0, 0)"
    using makenode_not_blank [of mtbdd_false mtbdd_true 3] ab by (simp add: dd_simps)
  then obtain t where t: "llmsset_lookup (nodes example_start) a b = Inr (2, True, t)" using example_lookup by blast
  have "mtbdd_ithvar 3 example_start = Inr (2, example_start\<lparr>nodes := t\<rparr>)"
    by (simp add: mtbdd_ithvar_def mtbdd_makenode_def mtbdd_makenode'_def dd_simps ab lookup_node_def t)
  then show ?thesis by (simp add: example_var_def)
qed

lemma example_var_ok: "bdd_ok example_var" "bdd (nodes example_var) 0 2 (\<lambda>\<sigma>. \<sigma> 3)" "valid example_var 2"
proof -
  have "results example_start (mtbdd_makenode 3 mtbdd_false mtbdd_true example_start)
      (branch (unat (3 :: u32)) (\<lambda>_. False) (\<lambda>_. True))"
    by (rule mtbdd_makenode_results [OF example_start_ok(1)]) (auto intro: bdd.intros)
  moreover have "branch 3 (\<lambda>_. False) (\<lambda>_. True) = (\<lambda>\<sigma>. \<sigma> 3)" by (auto simp: branch_def)
  ultimately show "bdd_ok example_var" and b: "bdd (nodes example_var) 0 2 (\<lambda>\<sigma>. \<sigma> 3)"
    using example_ithvar by (simp_all add: mtbdd_ithvar_def results_def)
  show "valid example_var 2" by (rule bdd_valid [OF b])
qed

definition example :: sylvan where
  "example = mtbdd_refs_push 2 example_var"

lemma example_ok: "bdd_ok example" "safe example 2" "bdd (nodes example) 0 2 (\<lambda>\<sigma>. \<sigma> 3)"
  "safe example (mtbdd_not 2)" "bdd (nodes example) 0 (mtbdd_not 2) (\<lambda>\<sigma>. \<not> \<sigma> 3)"
proof -
  show "bdd_ok example" unfolding example_def by (rule push_bdd_ok [OF example_var_ok(1,3)])
  show s: "safe example 2" unfolding example_def by (rule push_safe_new [OF bdd_dd_word [OF example_var_ok(2)]])
  show b: "bdd (nodes example) 0 2 (\<lambda>\<sigma>. \<sigma> 3)" using example_var_ok(2) by (simp add: example_def)
  show "safe example (mtbdd_not 2)" by (rule safe_not [OF s])
  show "bdd (nodes example) 0 (mtbdd_not 2) (\<lambda>\<sigma>. \<not> \<sigma> 3)" by (rule bdd_not [OF b])
qed

lemma example_max: "max_size (nodes example) = 512"
proof -
  have "results example_start (mtbdd_makenode 3 mtbdd_false mtbdd_true example_start)
      (branch (unat (3 :: u32)) (\<lambda>_. False) (\<lambda>_. True))"
    by (rule mtbdd_makenode_results [OF example_start_ok(1)]) (auto intro: bdd.intros)
  then have "keep example_start example_var"
    using example_ithvar by (simp add: mtbdd_ithvar_def results_def)
  then show ?thesis by (simp add: keep_def example_sel example_def)
qed

end
