(* ===== verification/TagMap.thy ===== *)
theory TagMap
  imports Prelude
begin

text \<open>
  The taint state of the analysed process (\<open>src/libdft_api.h\<close>, \<open>src/tagmap.h\<close>,
  \<open>src/tagmap.cpp\<close>): for every thread a virtual CPU with one tag for each byte of each
  register, and for the memory a directory of tables of pages of tags that are allocated
  when a byte becomes tainted. The type of the tags is chosen when the program is built; here
  it is the type variable \<open>'a\<close>, and \<open>'s\<close> is the state that its implementation keeps. The
  functions the engine calls on tags are the fields of \<open>tag_ops\<close>, an argument of every
  operation.
\<close>

section \<open>Tags\<close>

record ('a, 's) tag_ops =
  cleared_val :: 'a
  tag_is_empty :: "'a \<Rightarrow> bool"
  tag_combine :: "'a \<Rightarrow> 'a \<Rightarrow> nat \<Rightarrow> 's \<Rightarrow> serror + 'a \<times> 's"
  tag_alloc :: "u32 \<Rightarrow> nat \<Rightarrow> 's \<Rightarrow> serror + 'a \<times> 's"

section \<open>The directory of tags\<close>

definition VIRT2PAGETABLE :: "u64 \<Rightarrow> u64" where
  "VIRT2PAGETABLE addr = drop_bit 24 addr"

definition VIRT2PAGE :: "u64 \<Rightarrow> u64" where
  "VIRT2PAGE addr = drop_bit 12 (addr AND 0x00FFFFFF)"

definition VIRT2OFFSET :: "u64 \<Rightarrow> u64" where
  "VIRT2OFFSET addr = addr AND 0x00000FFF"

record 'a tag_page_t = "tag" :: "u64 \<Rightarrow> 'a"
record 'a tag_table_t = page :: "u64 \<Rightarrow> 'a tag_page_t option"
record 'a tag_dir_t = "table" :: "u64 \<Rightarrow> 'a tag_table_t option"

text \<open>The addresses the directory covers: the 47 bits of the user space.\<close>

definition outside :: "u64 \<Rightarrow> bool" where
  "outside addr = (addr > 0x7fffffffffff)"

definition new_table :: "'a tag_table_t" where
  "new_table = \<lparr>page = \<lambda>_. None\<rparr>"

definition new_page :: "('a, 's) tag_ops \<Rightarrow> 'a tag_page_t" where
  "new_page T = \<lparr>tag = \<lambda>_. cleared_val T\<rparr>"

definition write_page :: "'a tag_dir_t \<Rightarrow> 'a tag_table_t \<Rightarrow> 'a tag_page_t \<Rightarrow> u64 \<Rightarrow> 'a \<Rightarrow> 'a tag_dir_t" where
  "write_page dir tbl pg addr t =
    dir\<lparr>table := (table dir)(VIRT2PAGETABLE addr :=
      Some (tbl\<lparr>page := (page tbl)(VIRT2PAGE addr := Some (pg\<lparr>tag := (tag pg)(VIRT2OFFSET addr := t)\<rparr>))\<rparr>))\<rparr>"

text \<open>\<open>tag_dir_setb\<close>: a store that allocates the table and the page it needs.\<close>

definition tag_dir_setb :: "('a, 's) tag_ops \<Rightarrow> 'a tag_dir_t \<Rightarrow> u64 \<Rightarrow> 'a \<Rightarrow> 'a tag_dir_t" where
  "tag_dir_setb T dir addr t =
    (if outside addr then dir else
      let tbl = case table dir (VIRT2PAGETABLE addr) of None \<Rightarrow> new_table | Some tbl \<Rightarrow> tbl;
          pg = case page tbl (VIRT2PAGE addr) of None \<Rightarrow> new_page T | Some pg \<Rightarrow> pg
      in write_page dir tbl pg addr t)"

text \<open>
  \<open>tag_dir_setb_save_mem\<close>: the same, but an empty tag is not worth a table or a page. A table
  that was allocated before the page turned out to be missing stays.
\<close>

definition tag_dir_setb_save_mem :: "('a, 's) tag_ops \<Rightarrow> 'a tag_dir_t \<Rightarrow> u64 \<Rightarrow> 'a \<Rightarrow> 'a tag_dir_t" where
  "tag_dir_setb_save_mem T dir addr t =
    (if outside addr then dir else
      case table dir (VIRT2PAGETABLE addr) of
        None \<Rightarrow>
          if tag_is_empty T t then dir else write_page dir new_table (new_page T) addr t
      | Some tbl \<Rightarrow>
          (case page tbl (VIRT2PAGE addr) of
            None \<Rightarrow> if tag_is_empty T t then dir else write_page dir tbl (new_page T) addr t
          | Some pg \<Rightarrow> write_page dir tbl pg addr t))"

text \<open>\<open>tag_dir_getb_as_ptr\<close>: the null pointer is \<open>None\<close>.\<close>

definition tag_dir_getb_as_ptr :: "('a, 's) tag_ops \<Rightarrow> 'a tag_dir_t \<Rightarrow> u64 \<Rightarrow> 'a option" where
  "tag_dir_getb_as_ptr T dir addr =
    (if outside addr then None else
      case table dir (VIRT2PAGETABLE addr) of
        None \<Rightarrow> Some (cleared_val T)
      | Some tbl \<Rightarrow>
          (case page tbl (VIRT2PAGE addr) of
            None \<Rightarrow> Some (cleared_val T)
          | Some pg \<Rightarrow> Some (tag pg (VIRT2OFFSET addr))))"

section \<open>The state of the engine\<close>

record 'a vcpu_ctx = gpr :: "nat \<Rightarrow> nat \<Rightarrow> 'a"

record syscall_ctx =
  nr :: int
  arg :: "nat \<Rightarrow> u64"
  ret :: u64

record 'a thread_ctx =
  vcpu :: "'a vcpu_ctx"
  syscall :: syscall_ctx

record ('a, 's) dft =
  threads_ctx :: "nat \<Rightarrow> 'a thread_ctx"
  tag_dir :: "'a tag_dir_t"
  tags :: 's

text \<open>One tag of a register, read and written.\<close>

definition RTAG :: "('a, 's) dft \<Rightarrow> nat \<Rightarrow> nat \<Rightarrow> nat \<Rightarrow> 'a" where
  "RTAG s tid r i = gpr (vcpu (threads_ctx s tid)) r i"

definition set_RTAG :: "nat \<Rightarrow> nat \<Rightarrow> nat \<Rightarrow> 'a \<Rightarrow> ('a, 's) dft \<Rightarrow> ('a, 's) dft" where
  "set_RTAG tid r i t s =
    (let ctx = threads_ctx s tid; cpu = vcpu ctx
     in s\<lparr>threads_ctx := (threads_ctx s)(tid := ctx\<lparr>vcpu := cpu\<lparr>gpr := (gpr cpu)(r := (gpr cpu r)(i := t))\<rparr>\<rparr>)\<rparr>)"

definition tagmap_setb :: "('a, 's) tag_ops \<Rightarrow> u64 \<Rightarrow> 'a \<Rightarrow> ('a, 's) dft \<Rightarrow> ('a, 's) dft" where
  "tagmap_setb T addr t s = s\<lparr>tag_dir := tag_dir_setb_save_mem T (tag_dir s) addr t\<rparr>"

definition tagmap_setb_reg :: "nat \<Rightarrow> nat \<Rightarrow> nat \<Rightarrow> 'a \<Rightarrow> ('a, 's) dft \<Rightarrow> ('a, 's) dft" where
  "tagmap_setb_reg tid reg_idx off t s = set_RTAG tid reg_idx off t s"

text \<open>\<open>tagmap_getb\<close> reads through the pointer it was given, also when that is null.\<close>

definition tagmap_getb :: "('a, 's) tag_ops \<Rightarrow> ('a, 's) dft \<Rightarrow> u64 \<Rightarrow> serror + 'a" where
  "tagmap_getb T s addr =
    (case tag_dir_getb_as_ptr T (tag_dir s) addr of None \<Rightarrow> Inl NullDeref | Some t \<Rightarrow> Inr t)"

definition tagmap_getb_reg :: "('a, 's) dft \<Rightarrow> nat \<Rightarrow> nat \<Rightarrow> nat \<Rightarrow> 'a" where
  "tagmap_getb_reg s tid reg_idx off = RTAG s tid reg_idx off"

definition tagmap_clrb :: "('a, 's) tag_ops \<Rightarrow> u64 \<Rightarrow> ('a, 's) dft \<Rightarrow> ('a, 's) dft" where
  "tagmap_clrb T addr s = tagmap_setb T addr (cleared_val T) s"

text \<open>
  A counting loop \<open>for (i = 0; i < n; i++)\<close> whose body may abort.
\<close>

primrec for_loop :: "nat \<Rightarrow> (nat \<Rightarrow> 'st \<Rightarrow> 'e + 'st) \<Rightarrow> 'st \<Rightarrow> 'e + 'st" where
  "for_loop 0 body s = Inr s"
| "for_loop (Suc n) body s = bindE (for_loop n body s) (body n)"

text \<open>
  The loop of \<open>tagmap_clrn\<close> runs its address from \<open>addr\<close> up to \<open>addr + n\<close>, a sum that can wrap;
  then it does not run at all.
\<close>

definition tagmap_clrn :: "('a, 's) tag_ops \<Rightarrow> u64 \<Rightarrow> u32 \<Rightarrow> ('a, 's) dft \<Rightarrow> serror + ('a, 's) dft" where
  "tagmap_clrn T addr n s =
    for_loop (unat (addr + ucast n) - unat addr) (\<lambda>i s. Inr (tagmap_clrb T (addr + of_nat i) s)) s"

definition combine :: "('a, 's) tag_ops \<Rightarrow> 'a \<Rightarrow> 'a \<Rightarrow> nat \<Rightarrow> ('a, 's) dft \<Rightarrow> serror + 'a \<times> ('a, 's) dft" where
  "combine T x y tid s = bindE (tag_combine T x y tid (tags s)) (\<lambda>(t, g). Inr (t, s\<lparr>tags := g\<rparr>))"

text \<open>The union of the tags of the first \<open>n\<close> bytes from an address, and of a register.\<close>

definition tagmap_getn :: "('a, 's) tag_ops \<Rightarrow> u64 \<Rightarrow> nat \<Rightarrow> ('a, 's) dft \<Rightarrow> serror + 'a \<times> ('a, 's) dft" where
  "tagmap_getn T addr n s =
    for_loop n (\<lambda>i (ts, s). bindE (tagmap_getb T s (addr + of_nat i)) (\<lambda>t.
      if tag_is_empty T t then Inr (ts, s) else combine T ts t 0 s)) (cleared_val T, s)"

definition tagmap_getn_reg :: "('a, 's) tag_ops \<Rightarrow> nat \<Rightarrow> nat \<Rightarrow> nat \<Rightarrow> ('a, 's) dft \<Rightarrow> serror + 'a \<times> ('a, 's) dft" where
  "tagmap_getn_reg T tid reg_idx n s =
    for_loop n (\<lambda>i (ts, s). let t = tagmap_getb_reg s tid reg_idx i in
      if tag_is_empty T t then Inr (ts, s) else combine T ts t 0 s) (cleared_val T, s)"

text \<open>
  The arrays of tags that routines copy before they write (\<open>R16TAG\<close> to \<open>R256TAG\<close> and
  \<open>M16TAG\<close> to \<open>M256TAG\<close> of \<open>ins_helper.h\<close>); the initialisers of the latter run in order.
\<close>

definition RTAGS :: "nat \<Rightarrow> ('a, 's) dft \<Rightarrow> nat \<Rightarrow> nat \<Rightarrow> 'a list" where
  "RTAGS n s tid r = map (RTAG s tid r) [0..<n]"

primrec MTAGS :: "('a, 's) tag_ops \<Rightarrow> nat \<Rightarrow> ('a, 's) dft \<Rightarrow> u64 \<Rightarrow> serror + 'a list" where
  "MTAGS T 0 s a = Inr []"
| "MTAGS T (Suc n) s a = bindE (MTAGS T n s a) (\<lambda>ts. bindE (tagmap_getb T s (a + of_nat n)) (\<lambda>t. Inr (ts @ [t])))"

section \<open>Every address has its own slot, inside the arrays\<close>

lemma slot_bounds:
  "\<not> outside addr \<Longrightarrow> VIRT2PAGETABLE addr < 0x800000" "VIRT2PAGE addr < 0x1000" "VIRT2OFFSET addr < 0x1000"
proof -
  show "VIRT2PAGETABLE addr < 0x800000" if "\<not> outside addr"
  proof -
    have "unat addr < 2 ^ 47" using that by (simp add: outside_def word_le_nat_alt not_less)
    then have "drop_bit 24 (unat addr) < 2 ^ 23" by (simp add: less_mult_imp_div_less drop_bit_eq_div)
    then show ?thesis by (simp add: VIRT2PAGETABLE_def word_less_nat_alt unat_drop_bit_eq flip: drop_bit_eq_div)
  qed
  have "addr AND 0x00FFFFFF = take_bit 24 addr" by (simp add: take_bit_eq_mask mask_eq_exp_minus_1)
  moreover have "drop_bit 12 (unat addr mod 2 ^ 24) < 2 ^ 12" by (simp add: less_mult_imp_div_less drop_bit_eq_div)
  ultimately show "VIRT2PAGE addr < 0x1000"
    by (simp add: VIRT2PAGE_def word_less_nat_alt unat_drop_bit_eq unat_take_bit flip: drop_bit_eq_div)
  have "addr AND 0x00000FFF = take_bit 12 addr" by (simp add: take_bit_eq_mask mask_eq_exp_minus_1)
  then show "VIRT2OFFSET addr < 0x1000"
    by (simp add: VIRT2OFFSET_def word_less_nat_alt unat_take_bit)
qed

lemma slots_inj:
  assumes "VIRT2PAGETABLE a = VIRT2PAGETABLE b" "VIRT2PAGE a = VIRT2PAGE b" "VIRT2OFFSET a = VIRT2OFFSET b"
  shows "a = b"
proof -
  have m: "x AND 0x00FFFFFF = take_bit 24 x" "x AND 0x00000FFF = take_bit 12 x" for x :: u64
    by (simp_all add: take_bit_eq_mask mask_eq_exp_minus_1)
  have "bit a n = bit b n" for n
  proof -
    consider "n < 12" | "12 \<le> n" "n < 24" | "24 \<le> n" by linarith
    then show ?thesis
    proof cases
      case 1
      then show ?thesis using arg_cong [OF assms(3), of "\<lambda>w. bit w n"] by (simp add: VIRT2OFFSET_def m bit_take_bit_iff)
    next
      case 2
      then show ?thesis using arg_cong [OF assms(2), of "\<lambda>w. bit w (n - 12)"]
        by (simp add: VIRT2PAGE_def m bit_drop_bit_eq bit_take_bit_iff)
    next
      case 3
      then show ?thesis using arg_cong [OF assms(1), of "\<lambda>w. bit w (n - 24)"]
        by (simp add: VIRT2PAGETABLE_def bit_drop_bit_eq)
    qed
  qed
  then show ?thesis by (simp add: bit_eq_iff)
qed

section \<open>The directory refines a function from addresses to tags\<close>

definition mem_tag :: "('a, 's) tag_ops \<Rightarrow> 'a tag_dir_t \<Rightarrow> u64 \<Rightarrow> 'a" where
  "mem_tag T dir addr = (case tag_dir_getb_as_ptr T dir addr of None \<Rightarrow> cleared_val T | Some t \<Rightarrow> t)"

lemma getb_mem: "tag_dir_getb_as_ptr T dir addr = (if outside addr then None else Some (mem_tag T dir addr))"
  by (simp add: mem_tag_def tag_dir_getb_as_ptr_def split: option.split)

lemma mem_tag_write_page:
  assumes "\<not> outside a" "\<And>b. outside b \<Longrightarrow> M b = cleared_val T"
    and "\<And>b. \<not> outside b \<Longrightarrow> VIRT2PAGETABLE b \<noteq> VIRT2PAGETABLE a \<Longrightarrow> mem_tag T dir b = M b"
    and "\<And>b. \<not> outside b \<Longrightarrow> VIRT2PAGETABLE b = VIRT2PAGETABLE a \<Longrightarrow> VIRT2PAGE b \<noteq> VIRT2PAGE a \<Longrightarrow>
      (case page tbl (VIRT2PAGE b) of None \<Rightarrow> cleared_val T | Some pg \<Rightarrow> tag pg (VIRT2OFFSET b)) = M b"
    and "\<And>b. \<not> outside b \<Longrightarrow> VIRT2PAGETABLE b = VIRT2PAGETABLE a \<Longrightarrow> VIRT2PAGE b = VIRT2PAGE a \<Longrightarrow>
      tag pg (VIRT2OFFSET b) = M b"
  shows "mem_tag T (write_page dir tbl pg a t) b = (if b = a then t else M b)"
proof (cases "outside b")
  case True
  then show ?thesis using assms(1,2) by (auto simp: mem_tag_def tag_dir_getb_as_ptr_def)
next
  case False
  consider "VIRT2PAGETABLE b = VIRT2PAGETABLE a" "VIRT2PAGE b = VIRT2PAGE a"
    | "VIRT2PAGETABLE b = VIRT2PAGETABLE a" "VIRT2PAGE b \<noteq> VIRT2PAGE a"
    | "VIRT2PAGETABLE b \<noteq> VIRT2PAGETABLE a" by blast
  then show ?thesis
  proof cases
    case 1
    then show ?thesis
      using assms(1) assms(5) [OF False 1] slots_inj [OF 1] False
      by (auto simp: mem_tag_def tag_dir_getb_as_ptr_def write_page_def)
  next
    case 2
    then show ?thesis
      using assms(4) [OF False 2] False
      by (auto simp: mem_tag_def tag_dir_getb_as_ptr_def write_page_def split: option.splits)
  next
    case 3
    then show ?thesis
      using assms(3) [OF False 3] False by (auto simp: mem_tag_def tag_dir_getb_as_ptr_def write_page_def)
  qed
qed

lemma mem_tag_setb:
  assumes "\<not> outside a"
  shows "mem_tag T (tag_dir_setb T dir a t) b = (if b = a then t else mem_tag T dir b)"
  unfolding tag_dir_setb_def Let_def if_not_P [OF assms]
  by (rule mem_tag_write_page [OF assms])
    (auto simp: mem_tag_def tag_dir_getb_as_ptr_def new_table_def new_page_def split: option.splits)

text \<open>
  With the saving of memory this holds because an empty tag is the cleared one, which is
  what a missing page reads as.
\<close>

lemma mem_tag_setb_save_mem:
  assumes "\<not> outside a" "tag_is_empty T t \<Longrightarrow> t = cleared_val T"
  shows "mem_tag T (tag_dir_setb_save_mem T dir a t) b = (if b = a then t else mem_tag T dir b)"
proof -
  have "tag_dir_setb_save_mem T dir a t = tag_dir_setb T dir a t \<or>
      tag_dir_setb_save_mem T dir a t = dir \<and> mem_tag T dir a = t"
    using assms
    by (auto simp: tag_dir_setb_save_mem_def tag_dir_setb_def mem_tag_def tag_dir_getb_as_ptr_def new_table_def
        split: option.split if_splits)
  then show ?thesis by (auto simp: mem_tag_setb [OF assms(1)])
qed

lemma setb_outside [simp]: "outside a \<Longrightarrow> tag_dir_setb_save_mem T dir a t = dir"
  by (simp add: tag_dir_setb_save_mem_def)

end
