(* ===== verification/TaintFlow.thy ===== *)
theory TaintFlow
  imports TagMap
begin

text \<open>
  What the analysis routines promise. The taint of a byte is a set of offsets of the input.
  A \<open>tag_sem\<close> says what the tags of a build mean: which states of the tag implementation are
  sound, which tags are valid in a state, and the taint that a valid tag stands for. The
  locale \<open>tag_type\<close> is the contract of a tag implementation; from it follows, once and for all
  implementations, how the building blocks of the routines move taint between bytes.
\<close>

section \<open>Locations and flows\<close>

datatype loc = Reg nat nat nat | Mem u64

record ('a, 's) tag_sem =
  sound :: "'s \<Rightarrow> bool"
  valid_tag :: "'s \<Rightarrow> 'a \<Rightarrow> bool"
  taint :: "'s \<Rightarrow> 'a \<Rightarrow> nat set"
  failures :: "serror set"

definition look :: "('a, 's) tag_ops \<Rightarrow> ('a, 's) dft \<Rightarrow> loc \<Rightarrow> 'a" where
  "look T s l = (case l of Reg tid r i \<Rightarrow> RTAG s tid r i | Mem a \<Rightarrow> mem_tag T (tag_dir s) a)"

definition put :: "('a, 's) tag_ops \<Rightarrow> loc \<Rightarrow> 'a \<Rightarrow> ('a, 's) dft \<Rightarrow> ('a, 's) dft" where
  "put T l t s = (case l of Reg tid r i \<Rightarrow> set_RTAG tid r i t s | Mem a \<Rightarrow> tagmap_setb T a t s)"

definition in_range :: "loc \<Rightarrow> bool" where
  "in_range l = (case l of Reg tid r i \<Rightarrow> True | Mem a \<Rightarrow> \<not> outside a)"

definition taint_at :: "('a, 's) tag_ops \<Rightarrow> ('a, 's) tag_sem \<Rightarrow> ('a, 's) dft \<Rightarrow> loc \<Rightarrow> nat set" where
  "taint_at T S s l = taint S (tags s) (look T s l)"

definition wf_dft :: "('a, 's) tag_ops \<Rightarrow> ('a, 's) tag_sem \<Rightarrow> ('a, 's) dft \<Rightarrow> bool" where
  "wf_dft T S s \<longleftrightarrow> sound S (tags s) \<and> (\<forall>l. valid_tag S (tags s) (look T s l))"

text \<open>
  \<open>flows T S h F\<close>: run in any well-formed state, the routine \<open>h\<close> fails only where the tag
  implementation may fail; otherwise it ends in a well-formed state in which the taint of each
  location is the union of what was the taint of the locations \<open>F\<close> names for it.
\<close>

definition flows ::
  "('a, 's) tag_ops \<Rightarrow> ('a, 's) tag_sem \<Rightarrow> (('a, 's) dft \<Rightarrow> serror + ('a, 's) dft) \<Rightarrow> (loc \<Rightarrow> loc set) \<Rightarrow> bool" where
  "flows T S h F \<longleftrightarrow> (\<forall>s. wf_dft T S s \<longrightarrow> (case h s of
      Inl e \<Rightarrow> e \<in> failures S
    | Inr s' \<Rightarrow> wf_dft T S s' \<and> (\<forall>l. taint_at T S s' l = (\<Union>m \<in> F l. taint_at T S s m))))"

text \<open>
  A flow given as a list of assignments, of which a later one for the same location counts:
  each destination gets the union of its sources as they were before.
\<close>

definition moves :: "(loc \<times> loc set) list \<Rightarrow> loc \<Rightarrow> loc set" where
  "moves ps = fold (\<lambda>(l, M) F. F(l := M)) ps (\<lambda>l. {l})"

text \<open>The operands of the routines: \<open>n\<close> bytes that are copied, merged into, or cleared.\<close>

definition bytes :: "u64 \<Rightarrow> nat \<Rightarrow> loc" where
  "bytes a i = Mem (a + of_nat i)"

definition copy :: "nat \<Rightarrow> (nat \<Rightarrow> loc) \<Rightarrow> (nat \<Rightarrow> loc) \<Rightarrow> (loc \<times> loc set) list" where
  "copy n d s = map (\<lambda>i. (d i, {s i})) [0..<n]"

definition merge :: "nat \<Rightarrow> (nat \<Rightarrow> loc) \<Rightarrow> (nat \<Rightarrow> loc) \<Rightarrow> (loc \<times> loc set) list" where
  "merge n d s = map (\<lambda>i. (d i, {d i, s i})) [0..<n]"

definition wipe :: "nat \<Rightarrow> (nat \<Rightarrow> loc) \<Rightarrow> (loc \<times> loc set) list" where
  "wipe n d = map (\<lambda>i. (d i, {})) [0..<n]"

lemmas flow_lists = copy_def merge_def wipe_def

lemma moves_Nil [simp]: "moves [] = (\<lambda>l. {l})"
  by (simp add: moves_def)

lemma moves_snoc [simp]: "moves (ps @ [(l, M)]) = (moves ps)(l := M)"
  by (simp add: moves_def)

lemma moves_other: "l \<notin> fst ` set ps \<Longrightarrow> moves ps l = {l}"
proof (induction ps rule: rev_induct)
  case (snoc p ps)
  then show ?case by (cases p) (auto simp: fun_upd_other)
qed simp

lemma moves_self: "(\<And>M. (l, M) \<in> set ps \<Longrightarrow> M = {l}) \<Longrightarrow> moves ps l = {l}"
proof (induction ps rule: rev_induct)
  case (snoc p ps)
  then show ?case by (cases p) (auto simp: fun_upd_other)
qed simp

lemma moves_map_of: "moves ps l = (case map_of (rev ps) l of None \<Rightarrow> {l} | Some M \<Rightarrow> M)"
proof (induction ps rule: rev_induct)
  case (snoc p ps)
  then show ?case by (cases p) simp
qed simp

lemma moves_in:
  assumes "distinct (map fst ps)" "(l, M) \<in> set ps"
  shows "moves ps l = M"
proof -
  have "map_of (rev ps) l = Some M" using assms by (intro map_of_is_SomeI) (simp_all add: rev_map [symmetric])
  then show ?thesis by (simp add: moves_map_of)
qed

lemma moves_cong_set:
  assumes "distinct (map fst ps)" "distinct (map fst qs)" "set ps = set qs"
  shows "moves ps = moves qs"
proof -
  have "map_of (rev ps) = map_of (rev qs)"
    using assms map_of_inject_set [of "rev ps" "rev qs"] by (simp add: rev_map [symmetric])
  then show ?thesis by (simp add: moves_map_of fun_eq_iff)
qed

lemma moves_append: "moves (ps @ qs) l = (if l \<in> fst ` set qs then moves qs l else moves ps l)"
proof (induction qs rule: rev_induct)
  case (snoc p qs)
  then show ?case by (cases p) (auto simp: fun_upd_apply simp flip: append_assoc)
qed simp

lemma moves_copy_reg:
  "moves (copy n (Reg tid r) g) l =
    (case l of Reg t r' i \<Rightarrow> if t = tid \<and> r' = r \<and> i < n then {g i} else {l} | Mem a \<Rightarrow> {l})"
proof (cases l)
  case (Reg t r' i)
  show ?thesis
  proof (cases "t = tid \<and> r' = r \<and> i < n")
    case True
    then show ?thesis using Reg by (simp, intro moves_in) (auto simp: copy_def distinct_map comp_def inj_on_def)
  next
    case False
    then show ?thesis using Reg by (simp, intro conjI impI moves_other) (auto simp: copy_def)
  qed
qed (simp add: moves_other copy_def image_iff)

lemma fst_copy: "fst ` set (copy n d g) = d ` {..<n}"
  by (force simp: copy_def)

lemma moves_append_copy:
  "moves (ps @ copy n (Reg tid r) g) l =
    (case l of Reg t r' i \<Rightarrow> if t = tid \<and> r' = r \<and> i < n then {g i} else moves ps l | Mem a \<Rightarrow> moves ps l)"
  by (cases l) (auto simp: moves_append fst_copy moves_copy_reg)

section \<open>The contract of a tag implementation\<close>

definition extends_tags :: "('a, 's) tag_sem \<Rightarrow> 's \<Rightarrow> 's \<Rightarrow> bool" where
  "extends_tags S g g' \<longleftrightarrow> (\<forall>t. valid_tag S g t \<longrightarrow> valid_tag S g' t \<and> taint S g' t = taint S g t)"

lemma extends_tags_refl [simp]: "extends_tags S g g"
  by (simp add: extends_tags_def)

lemma extends_tags_trans: "extends_tags S g g' \<Longrightarrow> extends_tags S g' g'' \<Longrightarrow> extends_tags S g g''"
  by (simp add: extends_tags_def)

locale tag_type =
  fixes T :: "('a, 's) tag_ops" and S :: "('a, 's) tag_sem"
  assumes cleared: "valid_tag S g (cleared_val T)" "taint S g (cleared_val T) = {}"
    and empty_tag: "tag_is_empty T t \<Longrightarrow> t = cleared_val T"
    and combine_fails: "sound S g \<Longrightarrow> valid_tag S g x \<Longrightarrow> valid_tag S g y \<Longrightarrow>
      tag_combine T x y tid g = Inl e \<Longrightarrow> e \<in> failures S"
    and combine_ok: "sound S g \<Longrightarrow> valid_tag S g x \<Longrightarrow> valid_tag S g y \<Longrightarrow>
      tag_combine T x y tid g = Inr (z, g') \<Longrightarrow>
      sound S g' \<and> extends_tags S g g' \<and> valid_tag S g' z \<and> taint S g' z = taint S g x \<union> taint S g y"

text \<open>
  A tag type that also makes tags for bytes of the input: \<open>label\<close> gives the taint of the tag for
  an offset.
\<close>

locale tag_source = tag_type +
  fixes label :: "u32 \<Rightarrow> nat set"
  assumes alloc_fails: "sound S g \<Longrightarrow> tag_alloc T offset tid g = Inl e \<Longrightarrow> e \<in> failures S"
    and alloc_ok: "sound S g \<Longrightarrow> tag_alloc T offset tid g = Inr (t, g') \<Longrightarrow>
      sound S g' \<and> extends_tags S g g' \<and> valid_tag S g' t \<and> taint S g' t = label offset"

section \<open>Locations are independent\<close>

lemma RTAG_set [simp]:
  "RTAG (set_RTAG tid r i t s) tid' r' i' = (if tid' = tid \<and> r' = r \<and> i' = i then t else RTAG s tid' r' i')"
  by (simp add: RTAG_def set_RTAG_def Let_def)

lemma set_RTAG_sel [simp]: "tag_dir (set_RTAG tid r i t s) = tag_dir s" "tags (set_RTAG tid r i t s) = tags s"
  by (simp_all add: set_RTAG_def Let_def)

lemma tagmap_setb_sel [simp]: "RTAG (tagmap_setb T a t s) = RTAG s" "tags (tagmap_setb T a t s) = tags s"
  by (simp_all add: tagmap_setb_def RTAG_def fun_eq_iff)

lemma tag_dir_setb_sel [simp]: "tag_dir (tagmap_setb T a t s) = tag_dir_setb_save_mem T (tag_dir s) a t"
  by (simp add: tagmap_setb_def)

lemma RTAG_tags [simp]: "RTAG (s\<lparr>tags := g\<rparr>) = RTAG s"
  by (simp add: RTAG_def fun_eq_iff)

lemma tags_put [simp]: "tags (put T l t s) = tags s"
  by (simp add: put_def split: loc.split)

lemma look_tags [simp]: "look T (s\<lparr>tags := g\<rparr>) l = look T s l"
  by (simp add: look_def split: loc.split)

context tag_type
begin

lemma look_put: "in_range l \<Longrightarrow> look T (put T l t s) m = (if m = l then t else look T s m)"
  using empty_tag mem_tag_setb_save_mem [of _ T t]
  by (cases l; cases m) (auto simp: look_def put_def in_range_def)

text \<open>
  \<open>inv s0 A s\<close>: \<open>s\<close> is well-formed, has the taint \<open>A\<close>, and a tag that was valid in \<open>s0\<close>
  means in \<open>s\<close> what it meant there.
\<close>

definition inv :: "('a, 's) dft \<Rightarrow> (loc \<Rightarrow> nat set) \<Rightarrow> ('a, 's) dft \<Rightarrow> bool" where
  "inv s0 A s \<longleftrightarrow> wf_dft T S s \<and> extends_tags S (tags s0) (tags s) \<and> taint_at T S s = A"

definition post :: "('a, 's) dft \<Rightarrow> (loc \<Rightarrow> nat set) \<Rightarrow> serror + ('a, 's) dft \<Rightarrow> bool" where
  "post s0 A m \<longleftrightarrow> (case m of Inl e \<Rightarrow> e \<in> failures S | Inr s \<Rightarrow> inv s0 A s)"

lemma post_Inr [simp]: "post s0 A (Inr s) = inv s0 A s"
  by (simp add: post_def)

lemma inv_start: "wf_dft T S s \<Longrightarrow> inv s (taint_at T S s) s"
  by (simp add: inv_def)

lemma post_bind:
  assumes "post s0 A m" "\<And>s. inv s0 A s \<Longrightarrow> post s0 B (f s)"
  shows "post s0 B (bindE m f)"
  using assms by (cases m) (auto simp: post_def)

lemma post_loop:
  assumes "inv s0 A s" "\<And>i s A. i < n \<Longrightarrow> inv s0 A s \<Longrightarrow> post s0 (upd i A) (body i s)"
  shows "post s0 (fold upd [0..<n] A) (for_loop n body s)"
  using assms(2) by (induction n) (auto intro: assms(1) post_bind)

text \<open>What a tag read from a location, before or now, means.\<close>

definition holds :: "('a, 's) dft \<Rightarrow> 'a \<Rightarrow> nat set \<Rightarrow> bool" where
  "holds s t X \<longleftrightarrow> valid_tag S (tags s) t \<and> taint S (tags s) t = X"

lemma holds_now: "inv s0 A s \<Longrightarrow> holds s (look T s l) (A l)"
  by (auto simp: inv_def holds_def wf_dft_def taint_at_def)

lemma holds_saved: "holds s0 t X \<Longrightarrow> inv s0 A s \<Longrightarrow> holds s t X"
  by (auto simp: inv_def holds_def extends_tags_def)

lemma holds_cleared: "holds s (cleared_val T) {}"
  by (simp add: holds_def cleared)

lemma inv_put:
  assumes "inv s0 A s" "holds s t X" "in_range l"
  shows "inv s0 (A(l := X)) (put T l t s)"
proof -
  have "look T (put T l t s) m = (if m = l then t else look T s m)" for m
    by (rule look_put [OF assms(3)])
  then show ?thesis using assms(1,2) by (auto simp: inv_def holds_def wf_dft_def taint_at_def fun_eq_iff)
qed

lemma post_combine:
  assumes "inv s0 A s" "holds s x X" "holds s y Y"
    and "\<And>t s'. inv s0 A s' \<Longrightarrow> holds s' t (X \<union> Y) \<Longrightarrow> (\<And>u U. holds s u U \<Longrightarrow> holds s' u U) \<Longrightarrow> post s0 B (f (t, s'))"
  shows "post s0 B (bindE (combine T x y tid s) f)"
proof (cases "tag_combine T x y tid (tags s)")
  case (Inl e)
  then show ?thesis
    using combine_fails [of "tags s" x y tid e] assms(1-3) by (auto simp: combine_def post_def inv_def holds_def wf_dft_def)
next
  case (Inr p)
  obtain t g where p: "p = (t, g)" by fastforce
  have g: "sound S g \<and> extends_tags S (tags s) g \<and> valid_tag S g t \<and> taint S g t = X \<union> Y"
    using combine_ok [of "tags s" x y tid t g] Inr p assms(1-3) by (auto simp: inv_def holds_def wf_dft_def)
  have i: "inv s0 A (s\<lparr>tags := g\<rparr>)"
    using assms(1) g by (auto simp: inv_def wf_dft_def taint_at_def extends_tags_def fun_eq_iff)
  have "post s0 B (f (t, s\<lparr>tags := g\<rparr>))"
    by (rule assms(4) [OF i]) (use g in \<open>auto simp: holds_def extends_tags_def\<close>)
  then show ?thesis by (simp add: combine_def Inr p)
qed

lemma post_getb:
  assumes "inv s0 A s" "\<not> outside a" "\<And>t. t = look T s (Mem a) \<Longrightarrow> holds s t (A (Mem a)) \<Longrightarrow> post s0 B (f t)"
  shows "post s0 B (bindE (tagmap_getb T s a) f)"
  using assms(2) assms(3) [OF refl holds_now [OF assms(1)]] by (simp add: tagmap_getb_def getb_mem look_def)

lemma post_merge:
  assumes "inv s0 A s" "holds s x X" "holds s y Y" "in_range l"
  shows "post s0 (A(l := X \<union> Y)) (bindE (combine T x y tid s) (\<lambda>(t, s). Inr (put T l t s)))"
  by (rule post_combine [OF assms(1-3)]) (simp add: inv_put assms(4))

text \<open>The same, with the rest of the routine after it.\<close>

lemma post_merge_then:
  assumes "inv s0 A s" "holds s x X" "holds s y Y" "in_range l"
    and "\<And>s. inv s0 (A(l := X \<union> Y)) s \<Longrightarrow> post s0 B (f s)"
  shows "post s0 B (bindE (combine T x y tid s) (\<lambda>(t, s). f (put T l t s)))"
  by (rule post_combine [OF assms(1-3)]) (simp add: inv_put assms(4,5))

text \<open>The taint after assignments to \<open>ps\<close> whose sources are read in the taint \<open>A\<close>.\<close>

definition after :: "(loc \<Rightarrow> nat set) \<Rightarrow> (loc \<times> loc set) list \<Rightarrow> loc \<Rightarrow> nat set" where
  "after A ps = (\<lambda>l. \<Union>m \<in> moves ps l. A m)"

lemma after_Nil [simp]: "after A [] = A"
  by (simp add: after_def)

lemma after_snoc [simp]: "after A (ps @ [(l, M)]) = (after A ps)(l := (\<Union>m \<in> M. A m))"
  by (simp add: after_def fun_eq_iff)

lemma after_two: "after A [(l, M), (l', M')] = A(l := (\<Union>m \<in> M. A m), l' := (\<Union>m \<in> M'. A m))"
  using after_snoc [of A "[(l, M)]" l' M'] after_snoc [of A "[]" l M] by simp

lemma after_self: "(\<And>M. (l, M) \<in> set ps \<Longrightarrow> M = {l}) \<Longrightarrow> after A ps l = A l"
  by (simp add: after_def moves_self)

lemma after_other: "l \<notin> fst ` set ps \<Longrightarrow> after A ps l = A l"
  by (simp add: after_def moves_other)

lemma flowsI:
  assumes "\<And>s. wf_dft T S s \<Longrightarrow> inv s (taint_at T S s) s \<Longrightarrow> post s (after (taint_at T S s) ps) (h s)"
  shows "flows T S h (moves ps)"
  unfolding flows_def
proof (intro allI impI)
  fix s assume "wf_dft T S s"
  from assms [OF this inv_start [OF this]]
  show "case h s of Inl e \<Rightarrow> e \<in> failures S
      | Inr s' \<Rightarrow> wf_dft T S s' \<and> (\<forall>l. taint_at T S s' l = (\<Union>m \<in> moves ps l. taint_at T S s m))"
    by (auto simp: post_def inv_def after_def split: sum.split)
qed

text \<open>
  A loop that makes the assignments \<open>q i\<close> in its turn \<open>i\<close>, after those of \<open>ps\<close>.
\<close>

lemma post_turns:
  assumes "inv s0 (after A ps) s"
    and "\<And>i s. i < n \<Longrightarrow> inv s0 (after A (ps @ concat (map q [0..<i]))) s \<Longrightarrow>
      post s0 (after A (ps @ concat (map q [0..<i]) @ q i)) (body i s)"
  shows "post s0 (after A (ps @ concat (map q [0..<n]))) (for_loop n body s)"
  using assms(2) by (induction n) (auto intro: assms(1) post_bind)

lemma post_turns1:
  assumes "inv s0 (after A ps) s"
    and "\<And>i s. i < n \<Longrightarrow> inv s0 (after A (ps @ map q [0..<i])) s \<Longrightarrow>
      post s0 (after A ((ps @ map q [0..<i]) @ [q i])) (body i s)"
  shows "post s0 (after A (ps @ map q [0..<n])) (for_loop n body s)"
  using assms(2) by (induction n) (auto intro: assms(1) post_bind)

text \<open>
  A loop that reads each source when it comes to it: no source has changed by then, or it
  was only copied to itself.
\<close>

lemma flows_loop:
  assumes "\<And>i s0 A s. i < n \<Longrightarrow> inv s0 A s \<Longrightarrow> post s0 (A(d i := (\<Union>m \<in> M i. A m))) (body i s)"
    and "\<And>i j. i < n \<Longrightarrow> j < i \<Longrightarrow> d j \<in> M i \<Longrightarrow> M j = {d j}"
  shows "flows T S (for_loop n body) (moves (map (\<lambda>i. (d i, M i)) [0..<n]))"
proof (rule flowsI)
  fix s assume i: "inv s (taint_at T S s) s"
  let ?A = "taint_at T S s" and ?q = "\<lambda>i. (d i, M i)"
  have "post s (after ?A ([] @ map ?q [0..<n])) (for_loop n body s)"
  proof (rule post_turns1)
    fix i s' assume "i < n" and *: "inv s (after ?A ([] @ map ?q [0..<i])) s'"
    have "after ?A ([] @ map ?q [0..<i]) m = ?A m" if "m \<in> M i" for m
      using assms(2) [OF \<open>i < n\<close>] that by (intro after_self) auto
    then show "post s (after ?A (([] @ map ?q [0..<i]) @ [?q i])) (body i s')"
      using assms(1) [OF \<open>i < n\<close> *] by (simp cong: SUP_cong)
  qed (simp add: i)
  then show "post s (after ?A (map ?q [0..<n])) (for_loop n body s)" by simp
qed

text \<open>Reading an array of tags.\<close>

lemma holds_RTAGS: "inv s0 A s \<Longrightarrow> i < n \<Longrightarrow> holds s (RTAGS n s tid r ! i) (A (Reg tid r i))"
  using holds_now [of s0 A s "Reg tid r i"] by (simp add: RTAGS_def look_def)

lemma post_MTAGS:
  assumes "inv s0 A s" "\<And>i. i < n \<Longrightarrow> \<not> outside (a + of_nat i)"
    and "\<And>ts. length ts = n \<Longrightarrow> (\<And>i. i < n \<Longrightarrow> holds s (ts ! i) (A (bytes a i))) \<Longrightarrow> post s0 B (f ts)"
  shows "post s0 B (bindE (MTAGS T n s a) f)"
proof -
  have "\<exists>ts. MTAGS T n s a = Inr ts \<and> length ts = n \<and> (\<forall>i < n. holds s (ts ! i) (A (bytes a i)))"
    using assms(2)
  proof (induction n)
    case (Suc n)
    then obtain ts where ts: "MTAGS T n s a = Inr ts" "length ts = n" "\<forall>i < n. holds s (ts ! i) (A (bytes a i))"
      by auto
    have "holds s (look T s (bytes a n)) (A (bytes a n))" by (rule holds_now [OF assms(1)])
    then show ?case using ts Suc.prems [of n]
      by (auto simp: tagmap_getb_def getb_mem look_def bytes_def nth_append less_Suc_eq)
  qed simp
  then show ?thesis using assms(3) by auto
qed

section \<open>Sequencing\<close>

lemma flows_seq:
  assumes "flows T S h F" "flows T S k G"
  shows "flows T S (\<lambda>s. bindE (h s) k) (\<lambda>l. \<Union>m \<in> G l. F m)"
  unfolding flows_def
proof (intro allI impI)
  fix s assume w: "wf_dft T S s"
  show "case bindE (h s) k of Inl e \<Rightarrow> e \<in> failures S
      | Inr s' \<Rightarrow> wf_dft T S s' \<and> (\<forall>l. taint_at T S s' l = (\<Union>m \<in> \<Union>m \<in> G l. F m. taint_at T S s m))"
  proof (cases "h s")
    case (Inl e)
    then show ?thesis using assms(1) w by (auto simp: flows_def dest: spec [of _ s])
  next
    case (Inr s1)
    then have 1: "wf_dft T S s1" "\<And>l. taint_at T S s1 l = (\<Union>m \<in> F l. taint_at T S s m)"
      using assms(1) w by (auto simp: flows_def dest!: spec [of _ s])
    have "case k s1 of Inl e \<Rightarrow> e \<in> failures S
        | Inr s' \<Rightarrow> wf_dft T S s' \<and> (\<forall>l. taint_at T S s' l = (\<Union>m \<in> G l. taint_at T S s1 m))"
      using assms(2) 1(1) unfolding flows_def by blast
    then show ?thesis using Inr 1(2) by (simp add: UN_UN_flatten split: sum.splits)
  qed
qed

lemma flows_Inr: "flows T S Inr (\<lambda>l. {l})"
  by (simp add: flows_def)

end

lemma in_range_simps [simp]: "in_range (Reg tid r i)" "in_range (Mem a) \<longleftrightarrow> \<not> outside a"
  by (simp_all add: in_range_def)

text \<open>The state operations of the routines, as reads and writes of locations.\<close>

lemma as_put: "set_RTAG tid r i t s = put T (Reg tid r i) t s" "tagmap_setb T a t s = put T (Mem a) t s"
  by (simp_all add: put_def)

lemma as_look: "RTAG s tid r i = look T s (Reg tid r i)"
  by (simp add: look_def)

text \<open>Distinct offsets of less than \<open>2^64\<close> from one address are distinct bytes.\<close>

lemma bytes_inj: "i < 2 ^ 64 \<Longrightarrow> j < 2 ^ 64 \<Longrightarrow> bytes a i = bytes a j \<longleftrightarrow> i = j"
  by (auto simp: bytes_def word_of_nat_inj_64)

lemma bytes_reg [simp]: "bytes a i \<noteq> Reg tid r j" "Reg tid r j \<noteq> bytes a i"
  by (simp_all add: bytes_def)

end
