(* ===== verification/TagTypes.thy ===== *)
theory TagTypes
  imports TaintFlow
begin

text \<open>
  The tag types that are plain values (\<open>src/tag_trait.cpp\<close>): a byte of flags and a set of
  offsets. Neither keeps a state, and neither can fail.
\<close>

section \<open>One byte of flags\<close>

definition uint8_combine :: "u8 \<Rightarrow> u8 \<Rightarrow> nat \<Rightarrow> u8" where
  "uint8_combine lhs rhs tid = lhs OR rhs"

definition uint8_alloc :: "u32 \<Rightarrow> nat \<Rightarrow> u8" where
  "uint8_alloc offset tid = of_bool (offset > 0)"

definition uint8_ops :: "(u8, unit) tag_ops" where
  "uint8_ops = \<lparr>cleared_val = 0, tag_is_empty = (\<lambda>t. t = 0),
    tag_combine = (\<lambda>x y tid g. Inr (uint8_combine x y tid, g)),
    tag_alloc = (\<lambda>offset tid g. Inr (uint8_alloc offset tid, g))\<rparr>"

text \<open>The taint of a byte of flags is the set of its flags.\<close>

definition uint8_sem :: "(u8, unit) tag_sem" where
  "uint8_sem = \<lparr>sound = (\<lambda>_. True), valid_tag = (\<lambda>_ _. True), taint = (\<lambda>_ t. {n. bit t n}), failures = {}\<rparr>"

interpretation uint8: tag_type uint8_ops uint8_sem
  by unfold_locales
    (auto simp: uint8_ops_def uint8_sem_def uint8_combine_def extends_tags_def bit_or_iff)

section \<open>Sets of offsets\<close>

definition set_combine :: "u32 set \<Rightarrow> u32 set \<Rightarrow> nat \<Rightarrow> u32 set" where
  "set_combine lhs rhs tid = lhs \<union> rhs"

definition set_alloc :: "u32 \<Rightarrow> nat \<Rightarrow> u32 set" where
  "set_alloc offset tid = insert offset {}"

definition set_ops :: "(u32 set, unit) tag_ops" where
  "set_ops = \<lparr>cleared_val = {}, tag_is_empty = (\<lambda>t. t = {}),
    tag_combine = (\<lambda>x y tid g. Inr (set_combine x y tid, g)),
    tag_alloc = (\<lambda>offset tid g. Inr (set_alloc offset tid, g))\<rparr>"

definition set_sem :: "(u32 set, unit) tag_sem" where
  "set_sem = \<lparr>sound = (\<lambda>_. True), valid_tag = (\<lambda>_ _. True), taint = (\<lambda>_ t. unat ` t), failures = {}\<rparr>"

interpretation sets: tag_type set_ops set_sem
  by unfold_locales (auto simp: set_ops_def set_sem_def set_combine_def extends_tags_def)

text \<open>A fresh tag marks its offset; the flag of a byte does so only for offsets other than 0.\<close>

interpretation sets: tag_source set_ops set_sem "\<lambda>offset. {unat offset}"
  by unfold_locales (auto simp: set_ops_def set_sem_def set_alloc_def extends_tags_def)

interpretation uint8: tag_source uint8_ops uint8_sem "\<lambda>offset. if offset = 0 then {} else {0}"
  by unfold_locales
    (auto simp: uint8_ops_def uint8_sem_def uint8_alloc_def extends_tags_def word_gt_0 bit_1_iff)

end
