(* ===== verification/TableRoom.thy ===== *)
theory TableRoom
  imports BddStore
begin

text \<open>
  When the table does not report that it is full. \<open>room dbs k\<close> says that the region of the
  worker has \<open>k\<close> free buckets and that \<open>k\<close> more entries leave the hash array within the limit
  of probes. Then \<open>k\<close> lookups in a row succeed, and so do the constructors of nodes that use
  them, without a collection.
\<close>

definition free_here :: "llmsset \<Rightarrow> nat set" where
  "free_here dbs = {j. j div 512 = unat (my_region dbs) \<and> \<not> bm_test (bitmap2 dbs) j}"

definition used_slots :: "llmsset \<Rightarrow> nat set" where
  "used_slots dbs = {p. p < table_size dbs \<and> table dbs p \<noteq> 0}"

definition room :: "llmsset \<Rightarrow> nat \<Rightarrow> bool" where
  "room dbs k \<longleftrightarrow> my_region dbs \<noteq> -1 \<and> k \<le> card (free_here dbs) \<and> card (used_slots dbs) + k \<le> table_size dbs \<and>
     (0 < sint (threshold dbs) \<longrightarrow> int (card (used_slots dbs) + k) \<le> 8 * sint (threshold dbs))"

lemma room_mono: "room dbs k \<Longrightarrow> j \<le> k \<Longrightarrow> room dbs j"
  by (auto simp: room_def)

lemma finite_room [simp]: "finite (free_here dbs)" "finite (used_slots dbs)"
proof -
  have "free_here dbs \<subseteq> {..<512 * Suc (unat (my_region dbs))}"
  proof
    fix j assume "j \<in> free_here dbs"
    then have "j div 512 < Suc (unat (my_region dbs))" by (simp add: free_here_def)
    then show "j \<in> {..<512 * Suc (unat (my_region dbs))}" by (simp add: div_less_iff_less_mult mult.commute)
  qed
  then show "finite (free_here dbs)" by (rule finite_subset) simp
  show "finite (used_slots dbs)" by (rule finite_subset [of _ "{..<table_size dbs}"]) (auto simp: used_slots_def)
qed

lemma claim_here:
  assumes sh: "shape_ok dbs" and r: "my_region dbs \<noteq> -1" and j: "j \<in> free_here dbs"
  shows "\<exists>n. claim_data_bucket dbs = Inr (of_nat n, dbs\<lparr>bitmap2 := bm_set (bitmap2 dbs) n\<rparr>) \<and>
    n < table_size dbs \<and> \<not> bm_test (bitmap2 dbs) n"
proof -
  let ?r = "unat (my_region dbs)"
  have ok: "region_ok dbs" using sh by (simp add: shape_ok_def)
  have "scan_region dbs 8 0 \<noteq> None"
  proof
    assume n: "scan_region dbs 8 0 = None"
    have "(j div 64) div 8 = ?r" using j by (simp add: free_here_def flip: div_mult2_eq)
    then have "j div 64 < ?r * 8 + 8" "?r * 8 \<le> j div 64" by linarith+
    then have "bitmap2 dbs (j div 64) = 0xffffffffffffffff"
      using scan_region_None [OF n, of "j div 64 - ?r * 8"] by simp
    then have "bitmap2 dbs (j div 64) = -1" by simp
    then have "bm_test (bitmap2 dbs) j" by (simp only: bm_test_bit) simp
    then show False using j by (simp add: free_here_def)
  qed
  then obtain i k where sc: "scan_region dbs 8 0 = Some (i, k)" by auto
  let ?c = "of_nat ((8 * ?r + i) * 64 + k) :: u64"
  let ?t = "dbs\<lparr>bitmap2 := (bitmap2 dbs)(?r * 8 + i := bitmap2 dbs (?r * 8 + i) OR drop_bit k 0x8000000000000000)\<rparr>"
  have cl: "claim_data_bucket dbs = Inr (?c, ?t)"
    using r sc by (simp add: claim_data_bucket_def Let_def)
  have n: "\<not> bit (bitmap2 dbs (?r * 8 + i)) (63 - k)" "i < 8" "k < 64" using scan_region_Some [OF sc] by auto
  have "?t \<noteq> dbs\<lparr>my_region := x, bitmap1 := y\<rparr>" for x y
  proof
    assume "?t = dbs\<lparr>my_region := x, bitmap1 := y\<rparr>"
    then have "bitmap2 ?t = bitmap2 dbs" by simp
    then have "bitmap2 ?t (?r * 8 + i) = bitmap2 dbs (?r * 8 + i)" by simp
    then have "bit (bitmap2 dbs (?r * 8 + i) OR drop_bit k 0x8000000000000000) (63 - k) =
      bit (bitmap2 dbs (?r * 8 + i)) (63 - k)" by simp
    moreover have "bit (drop_bit k (0x8000000000000000 :: u64)) (63 - k)"
      using n(3) by (simp add: bit_drop_bit_eq)
    ultimately show False using n(1) by (simp add: bit_or_iff)
  qed
  then obtain m s where m: "m < table_size dbs" "?c = of_nat m" "\<not> bm_test (bitmap2 dbs) m" "same_but_region dbs s"
      "?t = s\<lparr>bitmap2 := bm_set (bitmap2 dbs) m\<rparr>"
    using claims_from_region [OF ok r sc] unfolding claims_def same_but_region_def by blast
  obtain x y where s: "s = dbs\<lparr>my_region := x, bitmap1 := y\<rparr>" using m(4) by (auto simp: same_but_region_def)
  have "my_region ?t = x" "bitmap1 ?t = y" "bitmap2 ?t = bm_set (bitmap2 dbs) m" unfolding m(5) s by simp_all
  then have "?t = dbs\<lparr>bitmap2 := bm_set (bitmap2 dbs) m\<rparr>" by simp
  then show ?thesis using cl m(1-3) by auto
qed

lemma room_step:
  assumes r: "room dbs (Suc k)"
    and t: "my_region t = my_region dbs" "bitmap2 t = bm_set (bitmap2 dbs) n" "table_size t = table_size dbs"
      "threshold t = threshold dbs" "\<And>q. q \<noteq> p \<Longrightarrow> table t q = table dbs q"
  shows "room t k"
proof -
  have "free_here t = free_here dbs - {n}" using t(1,2) by (auto simp: free_here_def)
  then have f: "card (free_here dbs) - 1 \<le> card (free_here t)" by (simp add: card_Diff_singleton_if)
  have "used_slots t \<subseteq> insert p (used_slots dbs)" using t(3,5) by (auto simp: used_slots_def)
  then have "card (used_slots t) \<le> card (insert p (used_slots dbs))" by (rule card_mono [rotated]) simp
  also have "\<dots> \<le> Suc (card (used_slots dbs))" by (rule card_insert_le_m1) simp_all
  finally show ?thesis using r f t(1,3,4) by (auto simp: room_def)
qed

theorem room_lookup:
  assumes ok: "table_ok dbs" and ab: "(a, b) \<noteq> (0, 0)" and rm: "room dbs (Suc k)"
  shows "\<exists>r c t. llmsset_lookup dbs a b = Inr (r, c, t) \<and> r \<noteq> 0 \<and> room t k"
proof -
  note sh = table_ok_shape [OF ok]
  define h where "h = hash_of dbs (a, b)"
  have "\<exists>j. probe_stops dbs a b h j"
  proof -
    have "card (used_slots dbs) < table_size dbs" using rm by (simp add: room_def)
    then have "used_slots dbs \<noteq> {..<table_size dbs}" by (metis card_lessThan less_irrefl)
    then obtain p where p: "p < table_size dbs" "table dbs p = 0" by (auto simp: used_slots_def)
    obtain j where "slot dbs (a, b) j = p" using slot_surj [OF sh p(1)] by blast
    then have "probe_stops dbs a b h j" using p(2) by (auto simp: probe_stops_def slot_def h_def Let_def)
    then show ?thesis by blast
  qed
  then obtain k0 where k0: "k0 < table_size dbs" "probe_stops dbs a b h k0" "\<And>j. j < k0 \<Longrightarrow> \<not> probe_stops dbs a b h j"
    using lookup_first_stop [OF sh] unfolding h_def by blast
  have "table dbs (slot dbs (a, b) j) \<noteq> 0" if "j < k0" for j
    using k0(3) [OF that] by (auto simp: probe_stops_def slot_def h_def Let_def)
  then have "slot dbs (a, b) ` {..<k0} \<subseteq> used_slots dbs" using slot_less [OF sh] by (auto simp: used_slots_def)
  then have "card (slot dbs (a, b) ` {..<k0}) \<le> card (used_slots dbs)" by (rule card_mono [rotated]) simp
  moreover have "inj_on (slot dbs (a, b)) {..<k0}"
    by (rule inj_onI) (use slot_inj [OF sh] k0(1) in auto)
  ultimately have "k0 \<le> card (used_slots dbs)" by (simp add: card_image)
  then have soon: "\<not> (0 < sint (threshold dbs) \<and> 8 * sint (threshold dbs) \<le> int k0)" using rm by (auto simp: room_def)
  have run: "llmsset_lookup dbs a b = Inr (r, c, d)"
    if "probe_slot dbs a b False (h AND MASK_HASH) (probe_path h (size_mask dbs) k0) 0 = Inr (Ret r c d)" for r c d
    using lookup_run [of k0 dbs a b r c d] k0 that soon unfolding h_def by (simp add: if_not_P)
  show ?thesis
  proof (cases "table dbs (slot dbs (a, b) k0) = 0")
    case False
    obtain d where d: "live dbs d"
      and ps: "probe_slot dbs a b False (h AND MASK_HASH) (probe_path h (size_mask dbs) k0) 0 = Inr (Ret (of_nat d) False dbs)"
      using stop_hit [OF ok ab k0(2) [unfolded h_def] False] unfolding h_def by blast
    have "2 \<le> d" "d < 2 ^ 40" using live_less [OF sh d] by auto
    then have "(of_nat d :: u64) \<noteq> 0" using unat_index [of d] by (auto dest: arg_cong [of _ _ unat])
    then show ?thesis using run [OF ps] room_mono [OF rm, of k] by auto
  next
    case True
    have "free_here dbs \<noteq> {}" using rm by (auto simp: room_def)
    then obtain j where "j \<in> free_here dbs" by blast
    then obtain n where n: "claim_data_bucket dbs = Inr (of_nat n, dbs\<lparr>bitmap2 := bm_set (bitmap2 dbs) n\<rparr>)"
      "n < table_size dbs" "\<not> bm_test (bitmap2 dbs) n"
      using claim_here [OF sh] rm by (auto simp: room_def)
    have "n \<noteq> 0" using n(3) sh unfolding shape_ok_def by metis
    have n40: "n < 2 ^ 40" using shape_table_size [OF sh] n(2) by linarith
    then have nz: "(of_nat n :: u64) \<noteq> 0" using unat_index [of n] \<open>n \<noteq> 0\<close> by (auto dest: arg_cong [of _ _ unat])
    have n1: "(of_nat n :: u64) \<noteq> -1" using minus_one_not_index [OF sh n(2)] by metis
    let ?t = "(write_data (dbs\<lparr>bitmap2 := bm_set (bitmap2 dbs) n\<rparr>) n a b)\<lparr>table := (table dbs)(slot dbs (a, b) k0 :=
         (h AND MASK_HASH) OR of_nat n)\<rparr>"
    have "table dbs (unat (probe_path h (size_mask dbs) k0)) = 0" using True by (simp add: slot_def h_def)
    then have "probe_slot dbs a b False (h AND MASK_HASH) (probe_path h (size_mask dbs) k0) 0 = Inr (Ret (of_nat n) True ?t)"
      using n(1) n1 by (simp add: probe_slot_def claim_and_write_def Let_def unat_index [OF n40] slot_def h_def)
    moreover have "room ?t k"
      by (rule room_step [OF rm, where n = n and p = "slot dbs (a, b) k0"]) (simp_all add: write_data_def)
    ultimately show ?thesis using run nz by blast
  qed
qed

section \<open>Constructors\<close>

lemma lookup_node_room:
  assumes "table_ok (nodes st)" "n \<noteq> (0, 0)" "room (nodes st) (Suc k)"
  shows "\<exists>r t. lookup_node n st = Inr (r, t) \<and> r \<noteq> 0 \<and> room (nodes t) k"
  using room_lookup [OF assms(1), of "fst n" "snd n" k] assms(2,3) by (auto simp: lookup_node_def)

lemma lookup_node_cache: "lookup_node n st = Inr (r, t) \<Longrightarrow> ocache t = ocache st"
  by (auto simp: lookup_node_def bindE_eq_Inr)

text \<open>Without a collection the constructor leaves the operation cache alone.\<close>

lemma makenode_room_cache:
  assumes ok: "bdd_ok st" and rm: "room (nodes st) (Suc k)"
    and b: "dd_word low" "dd_word high" "unat var < 2 ^ 24"
  shows "\<exists>r t. mtbdd_makenode var low high st = Inr (r, t) \<and> room (nodes t) k \<and> ocache t = ocache st"
proof (cases "low = high")
  case True
  then show ?thesis using room_mono [OF rm, of k] by (simp add: mtbdd_makenode_def)
next
  case False
  define l h where "l = (if MTBDD_HASMARK low then MTBDD_TOGGLEMARK low else low)"
    and "h = (if MTBDD_HASMARK low then MTBDD_TOGGLEMARK high else high)"
  have "mtbddnode_makenode var l h \<noteq> (0, 0)"
    by (rule makenode_not_blank) (use b False in \<open>auto simp: l_def h_def dd_simps\<close>)
  from lookup_node_room [OF bdd_ok_table [OF ok] this rm]
  obtain r t where r: "lookup_node (mtbddnode_makenode var l h) st = Inr (r, t)" "r \<noteq> 0" "room (nodes t) k" by blast
  then show ?thesis using False lookup_node_cache [OF r(1)]
    by (auto simp: mtbdd_makenode_def mtbdd_makenode'_def Let_def l_def h_def)
qed

lemma makenode_room:
  assumes "bdd_ok st" "room (nodes st) (Suc k)" "dd_word low" "dd_word high" "unat var < 2 ^ 24"
  shows "\<exists>r t. mtbdd_makenode var low high st = Inr (r, t) \<and> room (nodes t) k"
  using makenode_room_cache [OF assms] by blast

end
