(* ===== verification/Ssa.thy ===== *)
theory Ssa
  imports MtbddEnum SylvanStart TagTypes TableRoom
begin

text \<open>
  Tags that are diagrams, in the build without collection (\<open>src/ssa_tag_nogc.cpp\<close>). A tag is
  a diagram of the bits of an offset; the taint worker (\<open>lace_steal_loop_ex\<close> of
  \<open>lace.cpp\<close>) makes the cube of an offset, and the union of two diagrams as the complement
  of a conjunction. Each thread remembers its last union. The tags meet the contract of a tag
  type, a fresh tag stands for its offset, and printing a tag lists its taint.
\<close>

section \<open>The tasks of the worker\<close>

text \<open>A variable has 24 bits, so no recursion is deeper than this.\<close>

definition bdd_fuel :: nat where
  "bdd_fuel = 2 ^ 24 + 1"

definition ssa_alloc_task :: "u64 \<Rightarrow> u8 list \<Rightarrow> sylvan \<Rightarrow> serror + (u64 \<times> sylvan)" where
  "ssa_alloc_task arg1 arg2 st = mtbdd_cube_nogc arg1 arg2 mtbdd_true st"

definition ssa_combine_task :: "u64 \<Rightarrow> u64 \<Rightarrow> sylvan \<Rightarrow> serror + (u64 \<times> sylvan)" where
  "ssa_combine_task arg1 arg2 st =
    bindE (sylvan_and_nogc_alone bdd_fuel (mtbdd_not arg1) (mtbdd_not arg2) 0 st) (\<lambda>(res, st).
      Inr (mtbdd_not res, st))"

section \<open>Tags\<close>

definition TAG_WIDTH :: nat where
  "TAG_WIDTH = 24"

record ssa_tls_t =
  cb_cache_l :: u64
  cb_cache_r :: u64
  cb_cache_v :: u64

record ssa_state =
  bdds :: sylvan
  var_set :: u64
  ssa_tls :: "nat \<Rightarrow> ssa_tls_t"

definition offset_array :: "u32 \<Rightarrow> u8 list" where
  "offset_array offset = map (\<lambda>i. if push_bit i 1 AND offset \<noteq> 0 then 1 else 0) [0..<TAG_WIDTH]"

definition ssa_tag_alloc :: "u32 \<Rightarrow> nat \<Rightarrow> ssa_state \<Rightarrow> serror + (u64 \<times> ssa_state)" where
  "ssa_tag_alloc offset tid g =
    bindE (ssa_alloc_task (var_set g) (offset_array offset) (bdds g)) (\<lambda>(res, st). Inr (res, g\<lparr>bdds := st\<rparr>))"

definition ssa_tag_combine :: "u64 \<Rightarrow> u64 \<Rightarrow> nat \<Rightarrow> ssa_state \<Rightarrow> serror + (u64 \<times> ssa_state)" where
  "ssa_tag_combine lhs rhs tid g =
    (if lhs = 0 then Inr (rhs, g)
     else if rhs = 0 \<or> lhs = rhs then Inr (lhs, g)
     else
       let tls = ssa_tls g tid
       in if cb_cache_l tls = lhs \<and> cb_cache_r tls = rhs then Inr (cb_cache_v tls, g)
          else bindE (ssa_combine_task lhs rhs (bdds g)) (\<lambda>(res, st).
            Inr (res, g\<lparr>bdds := st,
              ssa_tls := (ssa_tls g)(tid := \<lparr>cb_cache_l = lhs, cb_cache_r = rhs, cb_cache_v = res\<rparr>)\<rparr>)))"

text \<open>
  Printing enumerates the assignments of a tag and turns each into an offset. The result is
  the sorted array of offsets that is then formatted.
\<close>

definition array_offset :: "u8 list \<Rightarrow> u32" where
  "array_offset res = sum_list (map (\<lambda>i. if res ! i \<noteq> 0 then push_bit i 1 else 0) [0..<TAG_WIDTH])"

fun print_loop :: "nat \<Rightarrow> llmsset \<Rightarrow> u64 \<Rightarrow> u64 \<Rightarrow> u64 \<Rightarrow> u8 list \<Rightarrow> u32 list \<Rightarrow> serror + u32 list" where
  "print_loop 0 n tag' vars leaf res offset_buf = Inl OutOfFuel"
| "print_loop (Suc fuel) n tag' vars leaf res offset_buf =
    (if leaf = mtbdd_false then Inr offset_buf
     else bindE (mtbdd_enum_all_next n None tag' vars res) (\<lambda>(leaf, res').
       print_loop fuel n tag' vars leaf res' (offset_buf @ [array_offset res])))"

definition ssa_tag_print :: "u64 \<Rightarrow> u8 list \<Rightarrow> ssa_state \<Rightarrow> serror + u32 list" where
  "ssa_tag_print tag' res g =
    bindE (if tag' = 0 then Inr []
           else bindE (mtbdd_enum_all_first (nodes (bdds g)) None tag' (var_set g) res) (\<lambda>(leaf, res).
             print_loop bdd_fuel (nodes (bdds g)) tag' (var_set g) leaf res []))
      (\<lambda>offset_buf. Inr (sort offset_buf))"

text \<open>
  Start-up. \<open>env\<close> and \<open>mem\<close> are what the start of Sylvan reads, \<open>blk\<close> the block of memory for
  the threads, which a thread clears when it starts.
\<close>

definition SYLVAN_MEMORY_LIMIT :: u64 where
  "SYLVAN_MEMORY_LIMIT = 512 * 1024 * 1024"

definition ssa_init :: "llmsset \<Rightarrow> (u64 \<Rightarrow> u64) \<Rightarrow> (nat \<Rightarrow> ssa_tls_t) \<Rightarrow> serror + ssa_state" where
  "ssa_init env mem blk =
    bindE (sylvan_set_limits SYLVAN_MEMORY_LIMIT 1 5) (\<lambda>sz.
    bindE (sylvan_init_package env sz) (\<lambda>(dbs, cs).
    bindE (sylvan_init_mtbdd dbs cs mem) (\<lambda>st.
    bindE (mtbdd_set_from_array bdd_fuel (map of_nat [0..<TAG_WIDTH]) (sylvan_gc_disable st)) (\<lambda>(vs, st).
      Inr \<lparr>bdds = st, var_set = vs, ssa_tls = blk\<rparr>))))"

definition ssa_thread_start :: "nat \<Rightarrow> ssa_state \<Rightarrow> ssa_state" where
  "ssa_thread_start tid g = g\<lparr>ssa_tls := (ssa_tls g)(tid := \<lparr>cb_cache_l = 0, cb_cache_r = 0, cb_cache_v = 0\<rparr>)\<rparr>"

definition ssa_ops :: "(u64, ssa_state) tag_ops" where
  "ssa_ops = \<lparr>cleared_val = 0, tag_is_empty = (\<lambda>t. t = 0), tag_combine = ssa_tag_combine, tag_alloc = ssa_tag_alloc\<rparr>"

section \<open>What a tag means\<close>

definition holds_offset :: "bfun \<Rightarrow> nat \<Rightarrow> bool" where
  "holds_offset f n \<longleftrightarrow> n < 2 ^ TAG_WIDTH \<and> f (bit n)"

definition tag_fun :: "ssa_state \<Rightarrow> u64 \<Rightarrow> bfun \<Rightarrow> bool" where
  "tag_fun g t f \<longleftrightarrow> bdd (nodes (bdds g)) 0 t f \<and> depends_on f {..<TAG_WIDTH}"

definition remembers :: "ssa_state \<Rightarrow> ssa_tls_t \<Rightarrow> bool" where
  "remembers g c \<longleftrightarrow> cb_cache_l c = 0 \<or> (\<exists>f h. tag_fun g (cb_cache_l c) f \<and> tag_fun g (cb_cache_r c) h \<and>
     tag_fun g (cb_cache_v c) (\<lambda>\<sigma>. f \<sigma> \<or> h \<sigma>))"

definition ssa_sound :: "ssa_state \<Rightarrow> bool" where
  "ssa_sound g \<longleftrightarrow> bdd_ok (bdds g) \<and> is_set (nodes (bdds g)) [0..<TAG_WIDTH] (var_set g) \<and>
     (\<forall>tid. remembers g (ssa_tls g tid))"

definition ssa_sem :: "(u64, ssa_state) tag_sem" where
  "ssa_sem = \<lparr>sound = ssa_sound, valid_tag = (\<lambda>g t. \<exists>f. tag_fun g t f),
    taint = (\<lambda>g t. {n. \<exists>f. tag_fun g t f \<and> holds_offset f n}), failures = {TableFull, OutOfFuel}\<rparr>"

lemma tag_fun_unique: "tag_fun g t f \<Longrightarrow> tag_fun g t f' \<Longrightarrow> f = f'"
  using bdd_fun [of "nodes (bdds g)" 0 t f 0 f'] by (simp add: tag_fun_def)

lemma ssa_taint: "tag_fun g t f \<Longrightarrow> taint ssa_sem g t = {n. holds_offset f n}"
proof -
  assume t: "tag_fun g t f"
  have "(\<exists>k. tag_fun g t k \<and> holds_offset k n) \<longleftrightarrow> holds_offset f n" for n
    using t tag_fun_unique [OF t] by blast
  then show ?thesis by (simp add: ssa_sem_def)
qed

lemma ssa_valid: "valid_tag ssa_sem g t \<longleftrightarrow> (\<exists>f. tag_fun g t f)"
  by (simp add: ssa_sem_def)

lemma tag_fun_grows: "grows (bdds g) (bdds g') \<Longrightarrow> tag_fun g t f \<Longrightarrow> tag_fun g' t f"
  by (auto simp: tag_fun_def grows_def intro: bdd_extends)

lemma tag_fun_cong: "bdds g' = bdds g \<Longrightarrow> tag_fun g' = tag_fun g"
  by (simp add: tag_fun_def fun_eq_iff)

lemma remembers_grows: "grows (bdds g) (bdds g') \<Longrightarrow> remembers g c \<Longrightarrow> remembers g' c"
  unfolding remembers_def using tag_fun_grows by blast

lemma ssa_extends: "grows (bdds g) (bdds g') \<Longrightarrow> extends_tags ssa_sem g g'"
  unfolding extends_tags_def ssa_valid
proof (intro allI impI)
  fix t assume gr: "grows (bdds g) (bdds g')" and "\<exists>f. tag_fun g t f"
  then obtain f where f: "tag_fun g t f" by blast
  note f' = tag_fun_grows [OF gr f]
  show "(\<exists>f. tag_fun g' t f) \<and> taint ssa_sem g' t = taint ssa_sem g t"
    using f' ssa_taint [OF f] ssa_taint [OF f'] by auto
qed

lemma ssa_sound_grows:
  assumes g: "ssa_sound g" and gr: "grows (bdds g) (bdds g')" and ok: "bdd_ok (bdds g')" and v: "var_set g' = var_set g"
    and c: "\<And>tid. ssa_tls g' tid = ssa_tls g tid \<or> remembers g' (ssa_tls g' tid)"
  shows "ssa_sound g'"
proof -
  have "is_set (nodes (bdds g')) [0..<TAG_WIDTH] (var_set g')"
    using g gr v by (auto simp: ssa_sound_def is_set_def grows_def intro: bdd_extends)
  moreover have "remembers g' (ssa_tls g' tid)" for tid
    using g c [of tid] remembers_grows [OF gr] by (auto simp: ssa_sound_def)
  ultimately show ?thesis using ok by (simp add: ssa_sound_def)
qed

lemma depends_const [simp]: "depends_on (\<lambda>_. b) S"
  by (simp add: depends_on_def)

lemma depends_or: "depends_on f S \<Longrightarrow> depends_on h S \<Longrightarrow> depends_on (\<lambda>\<sigma>. f \<sigma> \<or> h \<sigma>) S"
  unfolding depends_on_def by blast

lemma tag_fun_cleared: "tag_fun g 0 (\<lambda>_. False)"
  using bdd.bdd_false [of "nodes (bdds g)" 0] by (simp add: tag_fun_def mtbdd_false_def)

section \<open>Union\<close>

lemma combine_task_gives:
  assumes "bdd_ok st" "bdd (nodes st) 0 a f" "bdd (nodes st) 0 b h"
  shows "gives grows st (ssa_combine_task a b st) (\<lambda>u. u = (\<lambda>\<sigma>. f \<sigma> \<or> h \<sigma>))"
proof -
  have n: "bdd (nodes st) 0 (mtbdd_not a) (\<lambda>\<sigma>. \<not> f \<sigma>)" "bdd (nodes st) 0 (mtbdd_not b) (\<lambda>\<sigma>. \<not> h \<sigma>)"
    using assms(2,3) by (auto intro: bdd_not)
  have "gives grows st (sylvan_and_nogc_alone bdd_fuel (mtbdd_not a) (mtbdd_not b) 0 st)
      (\<lambda>u. u = (\<lambda>\<sigma>. \<not> f \<sigma> \<and> \<not> h \<sigma>))"
    by (rule sylvan_and_nogc_alone_gives [OF assms(1) n, of 0])
      (use n in \<open>auto simp: bdd_fuel_def intro: bdd_indep\<close>)
  from gives_mark [OF this, of True] show ?thesis
    unfolding ssa_combine_task_def mark_result_def if_True
    by (rule gives_mono) (auto simp: fun_eq_iff)
qed

text \<open>A task that succeeds, or fails as it may.\<close>

lemma gives_cases:
  assumes "gives R st m P"
  obtains (stop) e where "m = Inl e" "e \<in> {TableFull, OutOfFuel}"
    | (result) r t f where "m = Inr (r, t)" "bdd_ok t" "R st t" "P f" "bdd (nodes t) 0 r f"
proof (cases m)
  case (Inl e)
  then show ?thesis using assms stop by (auto simp: gives_def stops_def)
next
  case (Inr rt)
  obtain r t where rt: "rt = (r, t)" by (cases rt)
  show ?thesis using assms that(2) unfolding Inr rt gives_def yields_Inr by blast
qed

lemma ssa_combine_cases:
  assumes g: "ssa_sound g" and x: "tag_fun g x f" and y: "tag_fun g y h"
  obtains (stop) e where "ssa_tag_combine x y tid g = Inl e" "e \<in> {TableFull, OutOfFuel}"
    | (result) z g' where "ssa_tag_combine x y tid g = Inr (z, g')" "ssa_sound g'" "extends_tags ssa_sem g g'"
      "tag_fun g' z (\<lambda>\<sigma>. f \<sigma> \<or> h \<sigma>)"
proof -
  consider "x = 0" | "x \<noteq> 0" "y = 0 \<or> x = y" | "x \<noteq> 0" "y \<noteq> 0" "x \<noteq> y" by blast
  then show thesis
  proof cases
    case 1
    then have "f = (\<lambda>_. False)" using tag_fun_unique [OF x] tag_fun_cleared by blast
    then show thesis using 1 that(2) [of y g] g y by (simp add: ssa_tag_combine_def)
  next
    case 2
    then have "h = f \<or> h = (\<lambda>_. False)" using tag_fun_unique [OF y] x tag_fun_cleared by blast
    then have "f = (\<lambda>\<sigma>. f \<sigma> \<or> h \<sigma>)" by auto
    then show thesis using 2 that(2) [of x g] g x by (simp add: ssa_tag_combine_def)
  next
    case 3
    let ?c = "ssa_tls g tid"
    show thesis
    proof (cases "cb_cache_l ?c = x \<and> cb_cache_r ?c = y")
      case True
      have "remembers g ?c" using g by (simp add: ssa_sound_def)
      then obtain f' h' where "tag_fun g x f'" "tag_fun g y h'" "tag_fun g (cb_cache_v ?c) (\<lambda>\<sigma>. f' \<sigma> \<or> h' \<sigma>)"
        using True 3(1) by (auto simp: remembers_def)
      moreover from this have "f' = f" "h' = h" using tag_fun_unique [OF _ x] tag_fun_unique [OF _ y] by blast+
      ultimately show thesis using 3 True that(2) [of "cb_cache_v ?c" g] g by (simp add: ssa_tag_combine_def)
    next
      case False
      have "bdd_ok (bdds g)" "bdd (nodes (bdds g)) 0 x f" "bdd (nodes (bdds g)) 0 y h"
        using g x y by (auto simp: ssa_sound_def tag_fun_def)
      from combine_task_gives [OF this] show thesis
      proof (cases rule: gives_cases)
        case (stop e)
        then show thesis using 3 False that(1) by (simp add: ssa_tag_combine_def Let_def)
      next
        case (result r t u)
        define g' where "g' = g\<lparr>bdds := t,
          ssa_tls := (ssa_tls g)(tid := \<lparr>cb_cache_l = x, cb_cache_r = y, cb_cache_v = r\<rparr>)\<rparr>"
        have gr: "grows (bdds g) (bdds g')" using result by (simp add: g'_def)
        note xy = tag_fun_grows [OF gr x] tag_fun_grows [OF gr y]
        have z: "tag_fun g' r (\<lambda>\<sigma>. f \<sigma> \<or> h \<sigma>)"
          using result x y by (simp add: tag_fun_def g'_def depends_or)
        have "ssa_sound g'"
        proof (rule ssa_sound_grows [OF g gr])
          show "bdd_ok (bdds g')" "var_set g' = var_set g" using result by (simp_all add: g'_def)
          have "remembers g' \<lparr>cb_cache_l = x, cb_cache_r = y, cb_cache_v = r\<rparr>"
            unfolding remembers_def using xy z by auto
          then show "ssa_tls g' t' = ssa_tls g t' \<or> remembers g' (ssa_tls g' t')" for t'
            by (simp add: g'_def)
        qed
        moreover have "ssa_tag_combine x y tid g = Inr (r, g')"
          using 3 False result(1) by (auto simp: ssa_tag_combine_def g'_def Let_def)
        ultimately show thesis using that(2) z ssa_extends [OF gr] by blast
      qed
    qed
  qed
qed

interpretation ssa: tag_type ssa_ops ssa_sem
proof unfold_locales
  show "valid_tag ssa_sem g (cleared_val ssa_ops)" "taint ssa_sem g (cleared_val ssa_ops) = {}" for g
    using tag_fun_cleared [of g] ssa_taint [OF tag_fun_cleared]
    by (auto simp: ssa_valid ssa_ops_def holds_offset_def)
  show "tag_is_empty ssa_ops t \<Longrightarrow> t = cleared_val ssa_ops" for t by (simp add: ssa_ops_def)
next
  fix g x y tid e
  assume "sound ssa_sem g" "valid_tag ssa_sem g x" "valid_tag ssa_sem g y" "tag_combine ssa_ops x y tid g = Inl e"
  then obtain f h where "ssa_sound g" "tag_fun g x f" "tag_fun g y h" "ssa_tag_combine x y tid g = Inl e"
    unfolding ssa_valid by (auto simp: ssa_sem_def ssa_ops_def)
  then show "e \<in> failures ssa_sem"
    by (cases rule: ssa_combine_cases [where tid = tid, consumes 3]) (auto simp: ssa_sem_def)
next
  fix g x y tid z g'
  assume "sound ssa_sem g" "valid_tag ssa_sem g x" "valid_tag ssa_sem g y" "tag_combine ssa_ops x y tid g = Inr (z, g')"
  then obtain f h where a: "ssa_sound g" "tag_fun g x f" "tag_fun g y h" and c: "ssa_tag_combine x y tid g = Inr (z, g')"
    unfolding ssa_valid by (auto simp: ssa_sem_def ssa_ops_def)
  then show "sound ssa_sem g' \<and> extends_tags ssa_sem g g' \<and> valid_tag ssa_sem g' z \<and>
    taint ssa_sem g' z = taint ssa_sem g x \<union> taint ssa_sem g y"
  proof (cases rule: ssa_combine_cases [where tid = tid, consumes 3])
    case (result z' h')
    then have "sound ssa_sem g'" "extends_tags ssa_sem g g'" "tag_fun g' z (\<lambda>\<sigma>. f \<sigma> \<or> h \<sigma>)"
      using c by (auto simp: ssa_sem_def)
    then show ?thesis
      using ssa_taint [OF a(2)] ssa_taint [OF a(3)] ssa_taint [of g' z] by (auto simp: ssa_valid holds_offset_def)
  qed (use c in simp)
qed

section \<open>Fresh tags\<close>

lemma offset_array_bits: "offset_array offset = map (\<lambda>i. if bit offset i then 1 else 0) [0..<TAG_WIDTH]"
  unfolding offset_array_def by (rule map_cong [OF refl]) (simp add: bit_iff_and_push_bit_not_eq_0 and.commute)

lemma cube_sem_bits:
  "cube_sem vs (map (\<lambda>i. if b i then 1 else 0) vs) h \<sigma> \<longleftrightarrow> (\<forall>i \<in> set vs. \<sigma> i = b i) \<and> h \<sigma>"
  by (induction vs) auto

lemma literals_bits: "literals (map (\<lambda>i. if b i then 1 else 0) vs) vs"
  by (auto simp: literals_def)

definition offset_fun :: "u32 \<Rightarrow> bfun" where
  "offset_fun offset = (\<lambda>\<sigma>. \<forall>i < TAG_WIDTH. \<sigma> i = bit offset i)"

lemma holds_offset_fun: "holds_offset (offset_fun offset) n \<longleftrightarrow> n = unat offset mod 2 ^ TAG_WIDTH"
proof
  assume h: "holds_offset (offset_fun offset) n"
  have "take_bit TAG_WIDTH n = take_bit TAG_WIDTH (unat offset)"
    by (rule bit_eqI) (use h in \<open>auto simp: bit_take_bit_iff holds_offset_def offset_fun_def bit_unsigned_iff\<close>)
  then show "n = unat offset mod 2 ^ TAG_WIDTH" using h by (simp add: holds_offset_def take_bit_eq_mod)
next
  assume "n = unat offset mod 2 ^ TAG_WIDTH"
  then have "n = take_bit TAG_WIDTH (unat offset)" by (simp add: take_bit_eq_mod)
  then show "holds_offset (offset_fun offset) n"
    by (auto simp: holds_offset_def offset_fun_def bit_take_bit_iff bit_unsigned_iff)
qed

lemma ssa_alloc_cases:
  assumes g: "ssa_sound g"
  obtains (stop) e where "ssa_tag_alloc offset tid g = Inl e" "e \<in> {TableFull, OutOfFuel}"
    | (result) t g' where "ssa_tag_alloc offset tid g = Inr (t, g')" "ssa_sound g'" "extends_tags ssa_sem g g'"
      "tag_fun g' t (offset_fun offset)"
proof -
  have ok: "bdd_ok (bdds g)" and v: "is_set (nodes (bdds g)) [0..<TAG_WIDTH] (var_set g)" using g by (simp_all add: ssa_sound_def)
  have "cube_sem [0..<TAG_WIDTH] (offset_array offset) (\<lambda>_. True) = offset_fun offset"
    unfolding offset_array_bits fun_eq_iff cube_sem_bits by (auto simp: offset_fun_def)
  then have "gives grows (bdds g) (ssa_alloc_task (var_set g) (offset_array offset) (bdds g)) (\<lambda>f. f = offset_fun offset)"
    using cube_nogc_gives [OF ok v _ bdd.bdd_true, of "offset_array offset"] literals_bits
    by (simp add: ssa_alloc_task_def offset_array_bits)
  then show thesis
  proof (cases rule: gives_cases)
    case (stop e)
    then show thesis using that(1) by (simp add: ssa_tag_alloc_def)
  next
    case (result t st f)
    define g' where "g' = g\<lparr>bdds := st\<rparr>"
    have gr: "grows (bdds g) (bdds g')" using result by (simp add: g'_def)
    have "tag_fun g' t (offset_fun offset)"
      using result by (auto simp: tag_fun_def g'_def offset_fun_def depends_on_def)
    moreover have "ssa_sound g'" by (rule ssa_sound_grows [OF g gr]) (use result in \<open>simp_all add: g'_def\<close>)
    moreover have "ssa_tag_alloc offset tid g = Inr (t, g')" using result by (simp add: ssa_tag_alloc_def g'_def)
    ultimately show thesis using that(2) ssa_extends [OF gr] by blast
  qed
qed

interpretation ssa: tag_source ssa_ops ssa_sem "\<lambda>offset. {unat offset mod 2 ^ TAG_WIDTH}"
proof unfold_locales
  fix g offset tid e
  assume "sound ssa_sem g" "tag_alloc ssa_ops offset tid g = Inl e"
  then have "ssa_sound g" "ssa_tag_alloc offset tid g = Inl e" by (simp_all add: ssa_sem_def ssa_ops_def)
  then show "e \<in> failures ssa_sem"
    by (cases rule: ssa_alloc_cases [where offset = offset and tid = tid, consumes 1]) (auto simp: ssa_sem_def)
next
  fix g offset tid t g'
  assume "sound ssa_sem g" "tag_alloc ssa_ops offset tid g = Inr (t, g')"
  then have a: "ssa_sound g" and c: "ssa_tag_alloc offset tid g = Inr (t, g')" by (simp_all add: ssa_sem_def ssa_ops_def)
  from a show "sound ssa_sem g' \<and> extends_tags ssa_sem g g' \<and> valid_tag ssa_sem g' t \<and>
    taint ssa_sem g' t = {unat offset mod 2 ^ TAG_WIDTH}"
  proof (cases rule: ssa_alloc_cases [where offset = offset and tid = tid, consumes 1])
    case (result t' h')
    then have "sound ssa_sem g'" "extends_tags ssa_sem g g'" "tag_fun g' t (offset_fun offset)"
      using c by (auto simp: ssa_sem_def)
    then show ?thesis using ssa_taint [of g' t] by (auto simp: ssa_valid holds_offset_fun)
  qed (use c in simp)
qed

section \<open>Printing\<close>

text \<open>The taint of a tag and the assignments that the enumeration visits are the same offsets.\<close>

lemma array_offset_nat:
  assumes "length a = TAG_WIDTH"
  shows "array_offset a = of_nat (horner_sum of_bool 2 (map (\<lambda>c. c \<noteq> 0) a))"
proof -
  have "array_offset a = (\<Sum>i = 0..<TAG_WIDTH. if a ! i \<noteq> 0 then push_bit i 1 else 0)"
    unfolding array_offset_def by (simp add: sum_list_distinct_conv_sum_set)
  also have "\<dots> = (\<Sum>i = 0..<TAG_WIDTH. of_nat (of_bool (a ! i \<noteq> 0) * 2 ^ i))"
    by (rule sum.cong) (auto simp: push_bit_eq_mult)
  also have "\<dots> = of_nat (horner_sum of_bool 2 (map (\<lambda>c. c \<noteq> 0) a))"
    using assms by (simp add: horner_sum_eq_sum)
  finally show ?thesis .
qed

lemma horner_bits: "bit (horner_sum of_bool (2::nat) bs) i \<longleftrightarrow> i < length bs \<and> bs ! i"
  by (simp add: bit_horner_sum_bit_iff possible_bit_def)

lemma horner_less: "length bs = n \<Longrightarrow> horner_sum of_bool (2::nat) bs < 2 ^ n"
  using horner_sum_of_bool_2_less [of bs] by simp

lemma array_offset_bit: "length a = TAG_WIDTH \<Longrightarrow> bit (unat (array_offset a)) i \<longleftrightarrow> i < TAG_WIDTH \<and> a ! i \<noteq> 0"
  and array_offset_less: "length a = TAG_WIDTH \<Longrightarrow> unat (array_offset a) < 2 ^ TAG_WIDTH"
proof -
  assume l: "length a = TAG_WIDTH"
  have lt: "horner_sum of_bool (2::nat) (map (\<lambda>c. c \<noteq> 0) a) < 2 ^ TAG_WIDTH" by (rule horner_less) (simp add: l)
  then have u: "unat (array_offset a) = horner_sum of_bool 2 (map (\<lambda>c. c \<noteq> 0) a)"
    unfolding array_offset_nat [OF l] by (simp add: unat_of_nat TAG_WIDTH_def)
  show "bit (unat (array_offset a)) i \<longleftrightarrow> i < TAG_WIDTH \<and> a ! i \<noteq> 0" unfolding u horner_bits using l by auto
  show "unat (array_offset a) < 2 ^ TAG_WIDTH" unfolding u by (rule lt)
qed

lemma assign_width: "length a = TAG_WIDTH \<Longrightarrow> assign [0..<TAG_WIDTH] a i \<longleftrightarrow> i < TAG_WIDTH \<and> a ! i = 1"
  unfolding assign_def in_set_zip by (auto intro!: exI [of _ i])

lemma nth_01: "set a \<subseteq> {0, 1} \<Longrightarrow> i < length a \<Longrightarrow> a ! i = 0 \<or> a ! i = 1"
  using nth_mem [of i a] by blast

lemma offsets_of_sats:
  assumes "depends_on f {..<TAG_WIDTH}"
  shows "(\<lambda>a. unat (array_offset a)) ` set (sats f [0..<TAG_WIDTH]) = {n. holds_offset f n}"
proof -
  have mem: "a \<in> set (sats f [0..<TAG_WIDTH]) \<longleftrightarrow> length a = TAG_WIDTH \<and> set a \<subseteq> {0, 1} \<and> f (assign [0..<TAG_WIDTH] a)" for a
    using sats_iff [of "[0..<TAG_WIDTH]" f a] assms by (simp add: atLeast0LessThan)
  have eq: "f (assign [0..<TAG_WIDTH] a) = f (bit (unat (array_offset a)))" if "length a = TAG_WIDTH" "set a \<subseteq> {0, 1}" for a
  proof (rule depends_onD [OF assms])
    fix i assume "i \<in> {..<TAG_WIDTH}"
    then have "i < TAG_WIDTH" "a ! i = 0 \<or> a ! i = 1" using that nth_01 [OF that(2)] by auto
    then show "assign [0..<TAG_WIDTH] a i = bit (unat (array_offset a)) i"
      unfolding assign_width [OF that(1)] array_offset_bit [OF that(1)] by auto
  qed
  show ?thesis
  proof (intro set_eqI iffI)
    fix n assume "n \<in> (\<lambda>a. unat (array_offset a)) ` set (sats f [0..<TAG_WIDTH])"
    then show "n \<in> {n. holds_offset f n}" using mem eq array_offset_less by (auto simp: holds_offset_def)
  next
    fix n assume n: "n \<in> {n. holds_offset f n}"
    define a :: "u8 list" where "a = map (\<lambda>i. if bit n i then 1 else 0) [0..<TAG_WIDTH]"
    have l: "length a = TAG_WIDTH" "set a \<subseteq> {0, 1}" by (auto simp: a_def)
    have "unat (array_offset a) = n"
    proof (rule bit_eqI)
      fix i
      show "bit (unat (array_offset a)) i = bit n i"
      proof (cases "i < TAG_WIDTH")
        case False
        have "take_bit TAG_WIDTH n = n" using n by (simp add: holds_offset_def take_bit_nat_eq_self)
        then have "\<not> bit n i" using False bit_take_bit_iff [of TAG_WIDTH n i] by simp
        then show ?thesis using False unfolding array_offset_bit [OF l(1)] by simp
      qed (simp add: array_offset_bit [OF l(1)], simp add: a_def)
    qed
    moreover have "a \<in> set (sats f [0..<TAG_WIDTH])" using mem eq [OF l] l n calculation by (simp add: holds_offset_def)
    ultimately show "n \<in> (\<lambda>a. unat (array_offset a)) ` set (sats f [0..<TAG_WIDTH])" by force
  qed
qed

lemma inj_array_offset: "inj_on array_offset (set (sats f [0..<TAG_WIDTH]))" if "depends_on f {..<TAG_WIDTH}"
proof (rule inj_onI)
  fix a b assume ab: "a \<in> set (sats f [0..<TAG_WIDTH])" "b \<in> set (sats f [0..<TAG_WIDTH])" and e: "array_offset a = array_offset b"
  have "length c = TAG_WIDTH \<and> set c \<subseteq> {0, 1}" if "c \<in> set (sats f [0..<TAG_WIDTH])" for c
    using sats_iff [of "[0..<TAG_WIDTH]" f c] that \<open>depends_on f {..<TAG_WIDTH}\<close> by (simp add: atLeast0LessThan)
  then have l: "length a = TAG_WIDTH" "set a \<subseteq> {0, 1}" "length b = TAG_WIDTH" "set b \<subseteq> {0, 1}" using ab by auto
  show "a = b"
  proof (rule nth_equalityI)
    fix i assume i: "i < length a"
    then have "a ! i = 0 \<or> a ! i = 1" "b ! i = 0 \<or> b ! i = 1" using l nth_01 [OF l(2)] nth_01 [OF l(4)] by auto
    then show "a ! i = b ! i"
      using array_offset_bit [OF l(1), of i] array_offset_bit [OF l(3), of i] e i l by auto
  qed (use l in simp)
qed

lemma print_loop_correct:
  assumes n: "table_ok n" "is_set n vs x" "bdd n 0 dd f" "depends_on f (set vs)"
  shows "sats f vs = as @ bs \<Longrightarrow> length bs < fuel \<Longrightarrow> bs = [] \<or> leaf = mtbdd_true \<and> res = hd bs \<Longrightarrow>
    (bs = [] \<Longrightarrow> leaf = mtbdd_false) \<Longrightarrow>
    print_loop fuel n dd x leaf res buf = Inr (buf @ map array_offset bs)"
proof (induction fuel arbitrary: as bs leaf res buf)
  case (Suc fuel)
  show ?case
  proof (cases bs)
    case Nil
    then show ?thesis using Suc.prems(4) by simp
  next
    case (Cons b bs')
    have s: "sats f vs = as @ b # bs'" using Suc.prems(1) Cons by simp
    obtain l r where nx: "mtbdd_enum_all_next n None dd x b = Inr (l, r)" "(l, r) = answer bs' b"
      using enum_next_correct [OF n s] by (metis surj_pair)
    have "print_loop fuel n dd x l r (buf @ [array_offset b]) = Inr ((buf @ [array_offset b]) @ map array_offset bs')"
      by (rule Suc.IH [of "as @ [b]"]) (use s nx(2) Suc.prems(2) Cons in \<open>auto simp: answer_def split: list.splits\<close>)
    then show ?thesis using Suc.prems(3) Cons nx(1) by simp
  qed
qed simp

lemma length_sats_less: "length (sats f [0..<TAG_WIDTH]) < bdd_fuel" if "depends_on f {..<TAG_WIDTH}"
proof -
  have "length (sats f [0..<TAG_WIDTH]) = card (set (sats f [0..<TAG_WIDTH]))" by (simp add: distinct_card distinct_sats)
  also have "\<dots> \<le> card {a :: u8 list. set a \<subseteq> {0, 1} \<and> length a = TAG_WIDTH}"
    by (rule card_mono) (use sats_iff [of "[0..<TAG_WIDTH]" f] that in \<open>auto simp: atLeast0LessThan finite_lists_length_eq\<close>)
  also have "\<dots> = 2 ^ TAG_WIDTH" by (simp add: card_lists_length_eq numeral_2_eq_2)
  finally show ?thesis by (simp add: bdd_fuel_def TAG_WIDTH_def)
qed

theorem ssa_print_correct:
  assumes g: "ssa_sound g" and t: "tag_fun g t f" and res: "length res = TAG_WIDTH"
  shows "\<exists>os. ssa_tag_print t res g = Inr os \<and> sorted os \<and> distinct os \<and> unat ` set os = taint ssa_sem g t"
proof -
  have d: "depends_on f {..<TAG_WIDTH}" and b: "bdd (nodes (bdds g)) 0 t f" using t by (simp_all add: tag_fun_def)
  note tb = bdd_ok_table and n = g [unfolded ssa_sound_def]
  have n: "table_ok (nodes (bdds g))" "is_set (nodes (bdds g)) [0..<TAG_WIDTH] (var_set g)"
    using g by (auto simp: ssa_sound_def intro: bdd_ok_table)
  have d': "depends_on f (set [0..<TAG_WIDTH])" using d by (simp add: atLeast0LessThan)
  let ?s = "sats f [0..<TAG_WIDTH]"
  have "ssa_tag_print t res g = Inr (sort (map array_offset ?s))"
  proof (cases "t = 0")
    case True
    then have "f = (\<lambda>_. False)" using tag_fun_unique [OF t] tag_fun_cleared by blast
    then show ?thesis using True by (simp add: ssa_tag_print_def)
  next
    case False
    obtain l r where f: "mtbdd_enum_all_first (nodes (bdds g)) None t (var_set g) res = Inr (l, r)" "(l, r) = answer ?s res"
      using enum_first_correct [OF n b d', of res] res by (metis length_upt minus_nat.diff_0 surj_pair)
    have "print_loop bdd_fuel (nodes (bdds g)) t (var_set g) l r [] = Inr ([] @ map array_offset ?s)"
      by (rule print_loop_correct [OF n b d', of "[]"])
        (use length_sats_less [OF d] f(2) in \<open>auto simp: answer_def split: list.splits\<close>)
    then show ?thesis using False f(1) by (simp add: ssa_tag_print_def)
  qed
  moreover have "distinct (map array_offset ?s)" by (simp add: distinct_map distinct_sats inj_array_offset [OF d])
  moreover have "unat ` set (map array_offset ?s) = taint ssa_sem g t"
    using offsets_of_sats [OF d] ssa_taint [OF t] by (simp add: image_image)
  ultimately show ?thesis by simp
qed

end
