(* ===== verification/SsaStart.thy ===== *)
theory SsaStart
  imports Ssa
begin

text \<open>
  The start of the tags that are diagrams: \<open>ssa_init\<close> with the sizes that the memory limit
  gives, and a small instance of its result, in which the set of the 24 variables has been
  built, as the example for the theorems about these tags.
\<close>

section \<open>The sizes\<close>

lemma limits_numeral:
  "limits_grow (numeral k) memorycap cur max_t max_c =
    (if 2 * cur < memorycap \<and> max_t < 0x0000040000000000
     then limits_grow (pred_numeral k) memorycap (cur * 2) (max_t * 2) (max_c * 2) else (max_t, max_c))"
  "limits_shrink (numeral k) min_t min_c =
    (if min_t > 0x1000 \<and> min_c > 0x1000
     then limits_shrink (pred_numeral k) (drop_bit 1 min_t) (drop_bit 1 min_c) else (min_t, min_c))"
  by (simp_all add: numeral_eq_Suc)

definition ssa_sizes :: table_sizes where
  "ssa_sizes = \<lparr>table_min = 2 ^ 18, table_max = 2 ^ 23, cache_min = 2 ^ 17, cache_max_size = 2 ^ 22\<rparr>"

lemma ssa_limits: "sylvan_set_limits SYLVAN_MEMORY_LIMIT 1 5 = Inr ssa_sizes"
  by (simp add: sylvan_set_limits_def SYLVAN_MEMORY_LIMIT_def Let_def limits_numeral drop_bit_eq_div ssa_sizes_def)

lemma power2_popcount: "n < 64 \<Longrightarrow> popcountll (of_nat (2 ^ n)) = 1"
  by (rule popcountll_power2) (auto simp: power2_def)

lemma ssa_package: "\<exists>dbs cs. sylvan_init_package env ssa_sizes = Inr (dbs, cs)"
  using power2_popcount [of 18] power2_popcount [of 23] power2_popcount [of 17] power2_popcount [of 22]
  by (auto simp: sylvan_init_package_def llmsset_create_def cache_create_def ssa_sizes_def Let_def)

lemma ssa_mtbdd: "\<exists>st. sylvan_init_mtbdd dbs cs mem = Inr st"
  by (auto simp: sylvan_init_mtbdd_def refs_create_def protect_create_def popcounts Let_def split_def)

section \<open>Initialisation\<close>

lemma bdd_ok_gc: "bdd_ok (st\<lparr>gc_enabled := b\<rparr>) \<longleftrightarrow> bdd_ok st"
  by (simp add: bdd_ok_def state_ok_def roots_def)

abbreviation variables :: "u32 list" where
  "variables \<equiv> map of_nat [0..<TAG_WIDTH]"

lemma variables_facts:
  "map unat variables = [0..<TAG_WIDTH]" "ascending (map unat variables)" "\<forall>v \<in> set variables. unat v < 2 ^ 24"
proof -
  show m: "map unat variables = [0..<TAG_WIDTH]"
    by (simp add: list_eq_iff_nth_eq TAG_WIDTH_def unat_of_nat)
  then show "ascending (map unat variables)" by (simp only: sorted_wrt_upt)
  have "unat ` set variables = {0..<TAG_WIDTH}" using m by (metis list.set_map set_upt)
  then have "unat v < 24" if "v \<in> set variables" for v
    using imageI [OF that, of unat] by (simp only: atLeastLessThan_iff TAG_WIDTH_def)
  then have "unat v < 2 ^ 24" if "v \<in> set variables" for v
    by (rule less_trans [OF _ _]) (use that in simp_all)
  then show "\<forall>v \<in> set variables. unat v < 2 ^ 24" by blast
qed

lemma variables_set: "gives keep st (mtbdd_set_from_array bdd_fuel variables st) (\<lambda>f. f = cube_fun {0..<TAG_WIDTH})"
  if "bdd_ok st"
proof -
  have "unat ` set variables = {0..<TAG_WIDTH}" using variables_facts(1) by (metis list.set_map set_upt)
  then show ?thesis
    using set_from_array_gives [OF that variables_facts(2,3), of bdd_fuel] by (simp add: bdd_fuel_def)
qed

lemma ssa_sound_start:
  assumes "bdd_ok st" "bdd (nodes st) 0 vs (cube_fun {0..<TAG_WIDTH})" "\<And>tid. cb_cache_l (blk tid) = 0"
  shows "ssa_sound \<lparr>bdds = st, var_set = vs, ssa_tls = blk\<rparr>"
  using assms by (simp add: ssa_sound_def is_set_def remembers_def)

lemma ssa_thread_start_sound: "ssa_sound g \<Longrightarrow> ssa_sound (ssa_thread_start tid g)"
proof -
  assume g: "ssa_sound g"
  have "tag_fun (ssa_thread_start tid g) = tag_fun g" by (rule tag_fun_cong) (simp add: ssa_thread_start_def)
  then have r: "remembers (ssa_thread_start tid g) = remembers g" by (simp add: remembers_def fun_eq_iff)
  show ?thesis using g r by (auto simp: ssa_sound_def ssa_thread_start_def remembers_def)
qed

theorem ssa_init_sound:
  assumes "my_region env = -1" "0 < lace_n_workers_id env" "\<And>tid. cb_cache_l (blk tid) = 0"
  shows "case ssa_init env mem blk of Inl e \<Rightarrow> e \<in> failures ssa_sem | Inr g \<Rightarrow> ssa_sound g"
proof -
  obtain dbs cs where p: "sylvan_init_package env ssa_sizes = Inr (dbs, cs)" using ssa_package by blast
  obtain st where m: "sylvan_init_mtbdd dbs cs mem = Inr st" using ssa_mtbdd by blast
  have ok: "bdd_ok (sylvan_gc_disable st)"
    using sylvan_init_ok(1) [OF p m _ _ assms(1,2)] by (simp add: sylvan_gc_disable_def bdd_ok_gc ssa_sizes_def)
  from variables_set [OF ok] show ?thesis
  proof (cases rule: gives_cases)
    case (stop e)
    then show ?thesis by (simp add: ssa_init_def ssa_limits p m ssa_sem_def)
  next
    case (result vs t f)
    then show ?thesis using ssa_sound_start [of t vs blk] assms(3) by (simp add: ssa_init_def ssa_limits p m)
  qed
qed

section \<open>A small example\<close>

text \<open>An ascending array is entered without a report that the table is full, if there is room.\<close>

lemma set_from_array_room:
  "bdd_ok st \<Longrightarrow> ascending (map unat arr) \<Longrightarrow> \<forall>v \<in> set arr. unat v < 2 ^ 24 \<Longrightarrow> 0 < fuel \<Longrightarrow>
   room (nodes st) (k + length arr) \<Longrightarrow>
   \<exists>r t. mtbdd_set_from_array fuel arr st = Inr (r, t) \<and> room (nodes t) k"
proof (induction fuel arr st arbitrary: k rule: mtbdd_set_from_array.induct)
  case (2 fuel v st)
  then show ?case using makenode_room [OF 2(1), of k mtbdd_false mtbdd_true v] by (simp add: dd_simps)
next
  case (3 fuel v w arr st)
  obtain r t where rt: "mtbdd_set_from_array fuel (w # arr) st = Inr (r, t)" "room (nodes t) (Suc k)"
    using 3(1) [of "Suc k"] 3(2-) by (auto simp: add.assoc)
  have g: "gives keep st (mtbdd_set_from_array fuel (w # arr) st) (\<lambda>f. f = cube_fun (unat ` set (w # arr)))"
    using set_from_array_gives [OF 3(2), of "w # arr" fuel] 3 by simp
  then have t: "bdd_ok t" "bdd (nodes t) 0 r (cube_fun (unat ` set (w # arr)))"
    unfolding rt(1) gives_def by auto
  obtain n where n: "fuel = Suc n" using 3(5) by (cases fuel) auto
  have s: "is_set (nodes t) (map unat (w # arr)) r" using t(2) 3(3) by (simp add: is_set_def)
  note sn = set_node [OF bdd_ok_table [OF t(1)] s [unfolded list.map]]
  have "mtbdd_set_add fuel r v t = mtbdd_makenode v mtbdd_false r t"
    using sn(2,3) 3(3) by (simp add: n Let_def word_less_nat_alt)
  then show ?case
    using makenode_room [OF t(1) rt(2), of mtbdd_false r v] bdd_dd_word [OF t(2)] 3(4) rt(1) by (simp add: dd_simps)
qed auto

text \<open>The smallest table, after the worker has claimed its region.\<close>

definition example_region :: sylvan where
  "example_region = example_start\<lparr>nodes := (nodes example_start)\<lparr>my_region := 0, bitmap1 := bm_set (\<lambda>_. 0) 0\<rparr>\<rparr>"

lemma example_region_nodes: "same_but_region (nodes example_start) (nodes example_region)"
  unfolding same_but_region_def example_region_def by auto

lemma example_region_ok: "bdd_ok example_region"
proof -
  note st = bdd_ok_state [OF example_start_ok(1)]
  have "region_ok (nodes example_region)"
    using table_ok_shape [OF bdd_ok_table [OF example_start_ok(1)]]
    by (auto simp: shape_ok_def region_ok_def example_region_def example_sel)
  then have t: "table_ok (nodes example_region)"
    by (rule table_ok_same_but_region [OF bdd_ok_table [OF example_start_ok(1)] example_region_nodes])
  note sel = same_but_region_sel [OF example_region_nodes]
  have lv: "\<not> live (nodes example_region) d" for d
    using example_start_ok(3) by (simp add: live_def sel)
  have r: "roots example_region = {}" using example_start_ok(2) by (simp add: roots_def example_region_def)
  have o: "ocache example_region = ocache example_start" by (simp add: example_region_def)
  have "cache_sound (nodes example_region) (ocache example_start)"
  proof (rule cache_sound_fresh)
    show "cache_fresh (ocache example_start)"
      using example_package unfolding sylvan_init_package_def example_sizes_def
      by (auto simp: bindE_eq_Inr example_start_def intro: cache_create_fresh split: if_splits)
  qed
  moreover have "state_ok example_region"
    using st t lv r by (simp add: state_ok_def o sel closed_set_def live_set_def)
  ultimately show ?thesis by (simp add: bdd_ok_def o)
qed

lemma example_threshold: "threshold (nodes example_region) = 84"
proof -
  have u: "[0..<64] = [0..<54] @ [54..<64]" by (simp add: upt_add_eq_append [of 0 54 10, simplified])
  have "(512 :: u64) = push_bit 9 1" by (simp add: push_bit_eq_mult)
  then have "bit (512 :: u64) i \<longleftrightarrow> i = 9" for i
    by (simp only: bit_push_bit_iff) (auto simp: bit_1_iff possible_bit_word)
  then have "clzll 512 = length (takeWhile (\<lambda>j. 63 - j \<noteq> 9) [0..<64])" by (simp add: clzll_def)
  also have "\<dots> = 54" by (simp add: upt_conv_Cons)
  finally show ?thesis
    by (simp add: example_region_def example_start_def sylvan_init_mt_def Let_def install_callbacks_def
        llmsset_set_custom_def example_nodes_def llmsset_set_size_def)
qed

lemma example_room: "room (nodes example_region) 400"
proof -
  have sel: "my_region (nodes example_region) = 0" "table_size (nodes example_region) = 512"
    "llmsset.table (nodes example_region) = (\<lambda>_. 0)" "bitmap2 (nodes example_region) = (\<lambda>_. 0)(0 := 0xc000000000000000)"
    by (simp_all add: example_region_def example_sel)
  have "j < 512" if "j div 512 = 0" for j :: nat using that by simp
  then have "free_here (nodes example_region) = {2..<512}"
    unfolding free_here_def sel bm_test_forbidden by auto
  then have f: "card (free_here (nodes example_region)) = 510" by simp
  have u: "used_slots (nodes example_region) = {}" by (simp add: used_slots_def sel)
  show ?thesis unfolding room_def by (simp add: f u sel example_threshold)
qed

definition example_ssa :: ssa_state where
  "example_ssa = (case mtbdd_set_from_array bdd_fuel variables example_region of
      Inr (vs, st) \<Rightarrow> \<lparr>bdds = st, var_set = vs, ssa_tls = (\<lambda>_. \<lparr>cb_cache_l = 0, cb_cache_r = 0, cb_cache_v = 0\<rparr>)\<rparr>
    | Inl _ \<Rightarrow> \<lparr>bdds = example_region, var_set = 0, ssa_tls = (\<lambda>_. \<lparr>cb_cache_l = 0, cb_cache_r = 0, cb_cache_v = 0\<rparr>)\<rparr>)"

lemma example_ssa_built:
  "\<exists>vs st. mtbdd_set_from_array bdd_fuel variables example_region = Inr (vs, st) \<and> room (nodes st) 100"
proof (rule set_from_array_room [OF example_region_ok variables_facts(2,3)])
  show "0 < bdd_fuel" by (simp add: bdd_fuel_def)
  show "room (nodes example_region) (100 + length variables)"
    by (rule room_mono [OF example_room]) (simp add: TAG_WIDTH_def)
qed

lemma example_ssa_sound: "ssa_sound example_ssa"
proof -
  obtain vs st where b: "mtbdd_set_from_array bdd_fuel variables example_region = Inr (vs, st)"
    using example_ssa_built by blast
  have "bdd_ok st" "bdd (nodes st) 0 vs (cube_fun {0..<TAG_WIDTH})"
    using variables_set [OF example_region_ok] unfolding b gives_def by auto
  then show ?thesis by (simp add: example_ssa_def b ssa_sound_start)
qed

end
