(* ===== verification/BddExample.thy ===== *)
theory BddExample
  imports BddCompose BddClosure SsaStart
begin

text \<open>
  A state with the diagram of a variable and a map that sends the variable to its negation, for
  the witnesses: in a table with room the constructors cannot fail.
\<close>

lemma makemapnode_room:
  assumes ok: "bdd_ok st" and rm: "room (nodes st) (Suc k)" and l: "bdd_map (nodes st) v low m"
    and h: "bdd (nodes st) 0 high g" and key: "unat key < 2 ^ 24"
  shows "\<exists>r t. mtbdd_makemapnode key low high st = Inr (r, t) \<and> room (nodes t) k"
proof -
  note w = bdd_map_word [OF l]
  have "mtbddnode_makemapnode key low high \<noteq> (0, 0)"
    by (rule makemapnode_fields(6) [OF conjunct1 [OF w] conjunct2 [OF w] bdd_dd_word [OF h] key])
  from lookup_node_room [OF bdd_ok_table [OF ok] this rm]
  obtain r t where "lookup_node (mtbddnode_makemapnode key low high) st = Inr (r, t)" "r \<noteq> 0" "room (nodes t) k" by blast
  then show ?thesis using w by (auto simp: mtbdd_makemapnode_def Let_def)
qed

lemma map_example:
  "\<exists>st x m. bdd_ok st \<and> safe st x \<and> safe st m \<and> bdd (nodes st) 0 x (\<lambda>\<sigma>. \<sigma> 3) \<and> bdd_map (nodes st) 0 m [3 \<mapsto> \<lambda>\<sigma>. \<not> \<sigma> 3]"
proof -
  obtain x t where x: "mtbdd_ithvar 3 example_region = Inr (x, t)" "room (nodes t) (Suc 0)"
    using makenode_room [OF example_region_ok room_mono [OF example_room, of "Suc (Suc 0)"], of mtbdd_false mtbdd_true 3]
    by (auto simp: mtbdd_ithvar_def dd_simps)
  have t: "bdd_ok t" "bdd (nodes t) 0 x (\<lambda>\<sigma>. \<sigma> 3)"
    using ithvar_gives [OF example_region_ok, of 3] by (auto simp: gives_def x(1))
  define s where "s = mtbdd_refs_push x t"
  have s: "bdd_ok s" "safe s x" "bdd (nodes s) 0 x (\<lambda>\<sigma>. \<sigma> 3)"
    unfolding s_def using push_bdd_ok [OF t(1) bdd_valid [OF t(2)]] push_safe_new [OF bdd_dd_word [OF t(2)]] t(2) by simp_all
  note n = bdd_not [OF s(3)]
  obtain m u where m: "mtbdd_makemapnode 3 mtbdd_false (mtbdd_not x) s = Inr (m, u)"
    using makemapnode_room [OF s(1) _ bdd_map.map_empty n, of 0 3] x(2) by (auto simp: s_def)
  have "map_gives s (mtbdd_makemapnode 3 mtbdd_false (mtbdd_not x) s) [unat (3 :: u32) \<mapsto> \<lambda>\<sigma>. \<not> \<sigma> 3]"
    by (rule makemapnode_gives [OF s(1) bdd_map.map_empty n]) simp
  then have u: "bdd_ok u" "keep s u" "bdd_map (nodes u) 0 m [3 \<mapsto> \<lambda>\<sigma>. \<not> \<sigma> 3]" by (simp_all add: map_gives_def m)
  let ?w = "mtbdd_refs_push m u"
  have "bdd_ok ?w" by (rule push_bdd_ok [OF u(1) bdd_map_valid [OF u(3)]])
  moreover have "safe ?w x" by (rule push_safe [OF keep_safe [OF u(2) s(2)]])
  moreover have "safe ?w m" using push_safe_new bdd_map_word [OF u(3)] by blast
  moreover have "bdd (nodes ?w) 0 x (\<lambda>\<sigma>. \<sigma> 3)" using keep_bdd [OF u(2) s(2,3)] by simp
  ultimately show ?thesis using u(3) by (intro exI [of _ ?w] exI [of _ x] exI [of _ m]) simp
qed

text \<open>A state with the diagram of the relation that has \<open>x\<close> below \<open>y\<close> in their first bit.\<close>

lemma below_example: "\<exists>st a. bdd_ok st \<and> safe st a \<and> bdd (nodes st) 0 a (\<lambda>\<sigma>. \<sigma> 0 \<longrightarrow> \<sigma> 1)"
proof -
  obtain y t where y: "mtbdd_ithvar 1 example_region = Inr (y, t)" "room (nodes t) (Suc 0)"
    using makenode_room [OF example_region_ok room_mono [OF example_room, of "Suc (Suc 0)"], of mtbdd_false mtbdd_true 1]
    by (auto simp: mtbdd_ithvar_def dd_simps)
  have t: "bdd_ok t" "bdd (nodes t) 0 y (\<lambda>\<sigma>. \<sigma> 1)"
    using ithvar_gives [OF example_region_ok, of 1] by (auto simp: gives_def y(1))
  obtain a u where a: "mtbdd_makenode 0 mtbdd_true y t = Inr (a, u)"
    using makenode_room [OF t(1) y(2), of mtbdd_true y 0] bdd_dd_word [OF t(2)] by (auto simp: dd_simps)
  have i: "indep (Suc (unat (0 :: u32))) (\<lambda>_. True)" "indep (Suc (unat (0 :: u32))) (\<lambda>\<sigma>. \<sigma> 1)" by (simp_all add: indep_def)
  have "branch 0 (\<lambda>_. True) (\<lambda>\<sigma>. \<sigma> 1) = (\<lambda>\<sigma>. \<sigma> 0 \<longrightarrow> \<sigma> 1)" by (auto simp: branch_def)
  then have u: "bdd_ok u" "bdd (nodes u) 0 a (\<lambda>\<sigma>. \<sigma> 0 \<longrightarrow> \<sigma> 1)"
    using gc.mk_gives [OF t(1) bdd.bdd_true t(2) i] by (auto simp: gives_def a)
  let ?w = "mtbdd_refs_push a u"
  have "bdd_ok ?w" "safe ?w a" "bdd (nodes ?w) 0 a (\<lambda>\<sigma>. \<sigma> 0 \<longrightarrow> \<sigma> 1)"
    using push_bdd_ok [OF u(1) bdd_valid [OF u(2)]] push_safe_new [OF bdd_dd_word [OF u(2)]] u(2) by simp_all
  then show ?thesis by blast
qed

section \<open>A product that comes out wrong\<close>

text \<open>
  Where both operands have a variable outside the pairs, \<open>sylvan_relprev\<close> goes on with
  \<open>sylvan_relnext\<close>. Here the variable 0 is in both and the pair is that of 2 and 3: the product is
  \<open>\<sigma> 0 \<and> \<sigma> 4\<close>, and the answer is \<open>\<sigma> 0\<close>.
\<close>

lemma top_level:
  assumes ok: "bdd_ok st" and b: "bdd (nodes st) 0 x f" and f: "indep v f" "\<not> indep (Suc v) f"
  shows "\<not> sylvan_isconst x" "unat (getvar st x) = v"
proof -
  show nc: "\<not> sylvan_isconst x"
    using b f(2) by (auto simp: sylvan_isconst_def bdd_true_iff bdd_false_iff)
  note i = bdd_getvar [OF bdd_level [OF bdd_ok_table [OF ok] b f(1)] nonconst_index [OF nc b]]
  have "v \<le> unat (getvar st x)" using i by blast
  moreover have "\<not> Suc v \<le> unat (getvar st x)" using i f(2) indep_mono by blast
  ultimately show "unat (getvar st x) = v" by simp
qed

lemma needs_var: "\<not> indep (Suc v) (\<lambda>\<sigma>. \<sigma> v)" "\<not> indep (Suc 0) (\<lambda>\<sigma>. \<sigma> 0 \<and> \<sigma> 4)"
proof (rule_tac [!] notI)
  assume "indep (Suc v) (\<lambda>\<sigma>. \<sigma> v)"
  from indepD [OF this, of "\<lambda>_. True" "\<lambda>i. v < i"] show False by simp
next
  assume "indep (Suc 0) (\<lambda>\<sigma>. \<sigma> 0 \<and> \<sigma> 4)"
  from indepD [OF this, of "\<lambda>_. True" "\<lambda>i. 0 < i"] show False by simp
qed

text \<open>The set of the pair, at a level above it and at one below.\<close>

lemma pair_of_two:
  assumes ok: "bdd_ok st" and x: "is_set (nodes st) [2] x"
  shows "x \<noteq> mtbdd_true" "x \<noteq> mtbdd_false" "rel_pairs (nodes st) x 0 = Inr (False, x)"
    "rel_pairs (nodes st) x 4 = Inr (False, mtbdd_true)"
proof -
  obtain k where k: "set_fuel = Suc k" using set_fuel_Suc by blast
  note tb = bdd_ok_table [OF ok] and n = set_node [OF bdd_ok_table [OF ok] x]
  show "x \<noteq> mtbdd_true" by (rule n(2))
  show f: "x \<noteq> mtbdd_false" using n(1) by (auto simp: dd_simps)
  have v: "mtbddnode_getvariable (MTBDD_GETNODE (nodes st) x) = 2" using n(3) by (intro unat_eqI) simp
  have h: "mtbddnode_followhigh x (MTBDD_GETNODE (nodes st) x) = mtbdd_true" using is_set_true [OF tb n(6)] by simp
  show "rel_pairs (nodes st) x 0 = Inr (False, x)" "rel_pairs (nodes st) x 4 = Inr (False, mtbdd_true)"
    using f v h by (simp_all add: rel_pairs_def k Let_def mtbdd_set_isempty_def)
qed

lemma relnext_drops:
  assumes ok: "bdd_ok st" and b: "bdd (nodes st) 0 b (\<lambda>\<sigma>. \<sigma> 4)" and x: "is_set (nodes st) [2] x"
  shows "sylvan_relnext (Suc k) mtbdd_true b x p st = Inr (mtbdd_true, st)"
proof -
  have "indep 4 (\<lambda>\<sigma>. \<sigma> 4)" by (simp add: indep_def)
  note c = top_level [OF ok b this needs_var(1)]
  have "getvar st b = 4" using c(2) by (intro unat_eqI) simp
  then have l: "min_level (rel_var st mtbdd_true) (rel_var st b) = 4"
    using c(1) by (simp add: rel_var_def min_level_def sylvan_isconst_def)
  show ?thesis
    using pair_of_two [OF ok x] c(1) unfolding sylvan_relnext.simps(2) Let_def l
    by (simp add: sylvan_isconst_def mtbdd_set_isempty_def dd_simps)
qed

lemma relprev_takes_successors:
  assumes ok: "bdd_ok st" and s: "safe st a" "safe st b" and a: "bdd (nodes st) 0 a (\<lambda>\<sigma>. \<sigma> 0)"
    and b: "bdd (nodes st) 0 b (\<lambda>\<sigma>. \<sigma> 0 \<and> \<sigma> 4)" and x: "is_set (nodes st) [2] x"
    and fresh: "\<And>a b c. cache_get3 (ocache st) CACHE_BDD_RELPREV a b c = None" and rm: "room (nodes st) (Suc k)"
  shows "\<exists>r t. sylvan_relprev (Suc (Suc fuel)) a b x p st = Inr (r, t) \<and> bdd (nodes t) 0 r (\<lambda>\<sigma>. \<sigma> 0)"
proof -
  note tb = bdd_ok_table [OF ok]
  obtain m where m: "set_fuel = Suc m" using set_fuel_Suc by blast
  note ca = top_level [OF ok a indep_zero needs_var(1)] and cb = top_level [OF ok b indep_zero needs_var(2)]
  have "getvar st a = 0" "getvar st b = 0" using ca(2) cb(2) by (simp_all add: unat_eq_0)
  then have l: "min_level (rel_var st a) (rel_var st b) = 0" using ca(1) cb(1) by (simp add: rel_var_def min_level_def)
  obtain a0 a1 b0 b1 where c: "(a0, a1) = rel_cofactors st 0 a" "(b0, b1) = rel_cofactors st 0 b" by (metis surj_pair)
  note fa = rel_cofactors_bdd [OF ok s(1) a _ c(1), unfolded unat_0, OF indep_zero]
    and fb = rel_cofactors_bdd [OF ok s(2) b _ c(2), unfolded unat_0, OF indep_zero]
  have v: "a0 = mtbdd_false" "a1 = mtbdd_true" "b0 = mtbdd_false" and b1: "bdd (nodes st) 0 b1 (\<lambda>\<sigma>. \<sigma> 4)"
    using fa(1,3) fb(1) bdd_mono [OF fb(3) le0] by (auto simp: cof_def intro: bdd_canonical [OF tb] bdd.intros)
  have nz: "b1 \<noteq> mtbdd_false" "b1 \<noteq> mtbdd_true"
    using b1 by (auto simp: bdd_true_iff bdd_false_iff fun_eq_iff)
  note px = pair_of_two [OF ok x]
  have n: "try_cache st q CACHE_BDD_RELPREV a b x = None" for q using fresh by (simp add: try_cache_def)
  obtain r t where r: "mtbdd_makenode 0 mtbdd_false mtbdd_true st = Inr (r, t)"
    using makenode_room [OF ok rm, of mtbdd_false mtbdd_true 0] by (auto simp: dd_simps)
  have "branch (unat (0 :: u32)) (\<lambda>_. False) (\<lambda>_. True) = (\<lambda>\<sigma>. \<sigma> 0)" by (auto simp: branch_def)
  then have t: "bdd (nodes t) 0 r (\<lambda>\<sigma>. \<sigma> 0)"
    using gc.mk_gives [OF ok bdd.bdd_false bdd.bdd_true indep_const indep_const, of 0] by (auto simp: gives_def r)
  have dead: "sylvan_relnext (Suc fuel) mtbdd_false y x q u = Inr (mtbdd_false, u)"
    "sylvan_relnext (Suc fuel) mtbdd_true mtbdd_false x q u = Inr (mtbdd_false, u)" for y q u
    by (simp_all add: dd_simps)
  have ite: "sylvan_ite set_fuel mtbdd_false y z q u = Inr (z, u)" for y z q u
    unfolding m sylvan_ite.simps(2) by (simp add: dd_simps)
  have pop: "mtbdd_refs_pop 5 (mtbdd_refs_push e (mtbdd_refs_push d (mtbdd_refs_push f (mtbdd_refs_push g (mtbdd_refs_push h st))))) = st"
    for d e f g h by (simp add: mtbdd_refs_pop_def mtbdd_refs_push_def)
  have j: "rel_join 0 (sylvan_relnext (Suc fuel) mtbdd_true b1 x 0) (sylvan_relnext (Suc fuel) mtbdd_false b1 x 0)
      (sylvan_relnext (Suc fuel) mtbdd_true mtbdd_false x 0) (sylvan_relnext (Suc fuel) mtbdd_false mtbdd_false x 0) st = Inr (r, t)"
    unfolding rel_join_def relnext_drops [OF ok b1 x] bindE_simps prod.case dead ite pop r ..
  have go: "\<not> (a = mtbdd_true \<and> b = mtbdd_true)" "a \<noteq> mtbdd_false" "b \<noteq> mtbdd_false" "\<not> mtbdd_set_isempty x"
    using ca(1) cb(1) px(1) by (auto simp: sylvan_isconst_def mtbdd_set_isempty_def)
  have tf: "mtbdd_false \<noteq> mtbdd_true" "(mtbdd_false = b1) = False" using nz by (auto simp: dd_simps)
  show ?thesis
    unfolding sylvan_relprev.simps(2) if_not_P [OF go(1)] if_not_P [OF go(2)] if_not_P [OF go(3)] if_not_P [OF go(4)]
      Let_def l px(3) bindE_simps prod.case n option.case c [symmetric] v
    using t by (simp add: j tf)
qed

text \<open>A state with these diagrams: each node made, and pushed.\<close>

definition blank_room :: "nat \<Rightarrow> sylvan \<Rightarrow> bool" where
  "blank_room k st \<longleftrightarrow> bdd_ok st \<and> room (nodes st) k \<and> ocache st = example_cache"

lemma blank_start: "k \<le> 400 \<Longrightarrow> blank_room k example_region"
  using example_region_ok room_mono [OF example_room] by (simp add: blank_room_def example_region_def example_start_def)

lemma blank_fresh: "blank_room k st \<Longrightarrow> cache_get3 (ocache st) CACHE_BDD_RELPREV a b c = None"
proof -
  assume "blank_room k st"
  moreover have "b' OR CACHE_BDD_RELPREV \<noteq> 0" for b' :: u64 using rel_op_nonzero(2) by (simp add: or_eq_0_iff)
  ultimately show ?thesis
    by (simp add: blank_room_def cache_get3_def cache_get_def example_cache_def blank_entry_def Let_def)
qed

lemma blank_node:
  fixes v :: u32
  assumes r: "blank_room (Suc k) st" and low: "bdd (nodes st) 0 low f" "indep (Suc (unat v)) f"
    and high: "bdd (nodes st) 0 high g" "indep (Suc (unat v)) g" and v: "unat v < 2 ^ 24"
  shows "\<exists>x t. blank_room k t \<and> keep st (mtbdd_refs_pop 1 t) \<and> safe t x \<and> bdd (nodes t) 0 x (branch (unat v) f g) \<and>
    (\<forall>y h. safe st y \<longrightarrow> bdd (nodes st) 0 y h \<longrightarrow> safe t y \<and> bdd (nodes t) 0 y h)"
proof -
  have ok: "bdd_ok st" using r by (simp add: blank_room_def)
  obtain x u where x: "mtbdd_makenode v low high st = Inr (x, u)" "room (nodes u) k" "ocache u = ocache st"
    using makenode_room_cache [OF ok _ bdd_dd_word [OF low(1)] bdd_dd_word [OF high(1)] v, of k] r by (auto simp: blank_room_def)
  have u: "bdd_ok u" "keep st u" "bdd (nodes u) 0 x (branch (unat v) f g)"
    using gc.mk_gives [OF ok low(1) high(1) low(2) high(2) v] by (simp_all add: gives_def x(1))
  let ?t = "mtbdd_refs_push x u"
  have "mtbdd_refs_pop 1 ?t = u" by (simp add: mtbdd_refs_pop_def mtbdd_refs_push_def)
  moreover have "blank_room k ?t" using r x(2,3) push_bdd_ok [OF u(1) bdd_valid [OF u(3)]] by (simp add: blank_room_def)
  moreover have "safe ?t x" by (rule push_safe_new [OF bdd_dd_word [OF u(3)]])
  ultimately show ?thesis using u(2,3) push_safe [OF keep_safe [OF u(2)]] keep_bdd [OF u(2)]
    by (intro exI [of _ x] exI [of _ ?t]) simp
qed

lemma relprev_example:
  "\<exists>st a b x. bdd_ok st \<and> safe st a \<and> safe st b \<and> safe st x \<and> bdd (nodes st) 0 a (\<lambda>\<sigma>. \<sigma> 0) \<and>
     bdd (nodes st) 0 b (\<lambda>\<sigma>. \<sigma> 0 \<and> \<sigma> 4) \<and> is_set (nodes st) [2] x \<and>
     (\<exists>r t. sylvan_relprev (Suc (Suc fuel)) a b x 0 st = Inr (r, t) \<and> bdd (nodes t) 0 r (\<lambda>\<sigma>. \<sigma> 0))"
proof -
  have br: "branch 4 (\<lambda>_. False) (\<lambda>_. True) = (\<lambda>\<sigma>. \<sigma> 4)" "branch 0 (\<lambda>_. False) (\<lambda>\<sigma>. \<sigma> 4) = (\<lambda>\<sigma>. \<sigma> 0 \<and> \<sigma> 4)"
    "branch 0 (\<lambda>_. False) (\<lambda>_. True) = (\<lambda>\<sigma>. \<sigma> 0)" "branch 2 (\<lambda>_. False) (\<lambda>_. True) = cube_fun (set [2])"
    by (auto simp: branch_def cube_fun_def)
  have i4: "indep (Suc 0) (\<lambda>\<sigma>. \<sigma> 4)" by (simp add: indep_def)
  obtain v s1 where 1: "blank_room 4 s1" "safe s1 v" "bdd (nodes s1) 0 v (\<lambda>\<sigma>. \<sigma> 4)"
    using blank_node [OF blank_start bdd.bdd_false indep_const bdd.bdd_true indep_const, of 4 4] by (auto simp: br)
  obtain b s2 where 2: "blank_room 3 s2" "safe s2 b" "bdd (nodes s2) 0 b (\<lambda>\<sigma>. \<sigma> 0 \<and> \<sigma> 4)"
    using blank_node [OF _ bdd.bdd_false indep_const 1(3), of 3 0] 1(1) i4 by (auto simp: br)
  obtain a s3 where 3: "blank_room (Suc 1) s3" "safe s3 a" "bdd (nodes s3) 0 a (\<lambda>\<sigma>. \<sigma> 0)"
    "safe s3 b" "bdd (nodes s3) 0 b (\<lambda>\<sigma>. \<sigma> 0 \<and> \<sigma> 4)"
    using blank_node [OF _ bdd.bdd_false indep_const bdd.bdd_true indep_const, of 2 s2 0] 2 by (auto simp: br numeral_2_eq_2 [symmetric])
  obtain x s4 where 4: "blank_room 1 s4" "safe s4 x" "bdd (nodes s4) 0 x (cube_fun (set [2]))"
    "safe s4 a" "bdd (nodes s4) 0 a (\<lambda>\<sigma>. \<sigma> 0)" "safe s4 b" "bdd (nodes s4) 0 b (\<lambda>\<sigma>. \<sigma> 0 \<and> \<sigma> 4)"
    using blank_node [OF _ bdd.bdd_false indep_const bdd.bdd_true indep_const, of 1 s3 2] 3
    by (auto simp: br simp del: set_simps)
  have x: "is_set (nodes s4) [2] x" using 4(3) by (simp add: is_set_def)
  have ok: "bdd_ok s4" "room (nodes s4) (Suc 0)" using 4(1) by (simp_all add: blank_room_def)
  from relprev_takes_successors [OF ok(1) 4(4,6,5,7) x blank_fresh [OF 4(1)] ok(2)]
  show ?thesis using ok(1) 4 x by blast
qed

end
