(* ===== verification/RefsSpec.thy ===== *)
theory RefsSpec
  imports GcSpec "HOL-Library.Multiset"
begin

text \<open>
  The table of protected addresses (\<open>protect_up\<close>, \<open>protect_down\<close> and \<open>protect_resize\<close> of
  \<open>sylvan_refs.c\<close>) is a multiset of addresses: the abstraction is \<open>protect_bag\<close>, the
  invariant that every address lies within the 128 buckets that a search from its hash
  visits. Protecting adds one occurrence and unprotecting removes one, across rebuilds and
  growth of the table.
\<close>

section \<open>The abstraction and the invariant\<close>

definition contents :: "nat \<Rightarrow> (nat \<Rightarrow> u64) \<Rightarrow> u64 multiset" where
  "contents n arr = image_mset arr (filter_mset (used_bucket arr) (mset_set {0..<n}))"

definition protect_bag :: "refs_table \<Rightarrow> u64 multiset" where
  "protect_bag tbl = contents (refs_size tbl) (refs_arr tbl)"

definition first_bucket :: "nat \<Rightarrow> u64 \<Rightarrow> nat" where
  "first_bucket size' v = unat (fnvhash8 v) mod size'"

definition placed :: "nat \<Rightarrow> (nat \<Rightarrow> u64) \<Rightarrow> bool" where
  "placed size' arr \<longleftrightarrow> (\<forall>b < size'. used_bucket arr b \<longrightarrow> (\<exists>i < 128. b = (first_bucket size' (arr b) + i) mod size'))"

definition protect_ok :: "refs_table \<Rightarrow> bool" where
  "protect_ok tbl \<longleftrightarrow> power2 (refs_size tbl) \<and> 128 \<le> refs_size tbl \<and> refs_size tbl \<le> 2 ^ 47 \<and>
     refs_control tbl = 0 \<and> placed (refs_size tbl) (refs_arr tbl)"

lemma protect_bag_list: "protect_bag tbl = mset (protect_list tbl)"
proof -
  have "mset [0..<refs_size tbl] = mset_set {0..<refs_size tbl}" by simp
  then show ?thesis
    unfolding protect_bag_def contents_def protect_list_eq mset_map mset_filter by simp
qed

lemma protect_set: "set (protect_list tbl) = set_mset (protect_bag tbl)"
  by (simp add: protect_bag_list)

lemma protect_count_bag: "protect_count tbl = size (protect_bag tbl)"
  by (simp add: protect_count_eq protect_bag_list)

lemma hash_mask: "power2 n \<Longrightarrow> unat (fnvhash8 a AND (of_nat n - 1)) = first_bucket n a"
proof -
  assume "power2 n"
  then obtain k where k: "k < 64" "n = 2 ^ k" by (auto simp: power2_def)
  have "(of_nat n - 1 :: u64) = mask k" by (simp add: k(2) mask_eq_exp_minus_1)
  then show ?thesis
    unfolding first_bucket_def k(2) take_bit_eq_mask [symmetric]
    by (simp add: unat_take_bit flip: take_bit_eq_mask)
qed

text \<open>Writing one bucket.\<close>

lemma contents_other:
  assumes "b < n"
  shows "contents n (arr(b := v)) =
    (if v \<noteq> 0 \<and> v \<noteq> refs_ts then {#v#} else {#}) + image_mset arr (filter_mset (used_bucket arr) (mset_set ({0..<n} - {b})))"
proof -
  have n: "mset_set {0..<n} = add_mset b (mset_set ({0..<n} - {b}))"
    using assms by (metis atLeastLessThan_iff finite_atLeastLessThan le0 mset_set.remove)
  have "filter_mset (used_bucket (arr(b := v))) (mset_set ({0..<n} - {b})) =
    filter_mset (used_bucket arr) (mset_set ({0..<n} - {b}))"
    by (rule filter_mset_cong) (auto simp: used_bucket_def)
  moreover have "image_mset (arr(b := v)) (filter_mset (used_bucket arr) (mset_set ({0..<n} - {b}))) =
    image_mset arr (filter_mset (used_bucket arr) (mset_set ({0..<n} - {b})))"
    by (rule image_mset_cong) auto
  ultimately have "image_mset (arr(b := v)) (filter_mset (used_bucket (arr(b := v))) (mset_set ({0..<n} - {b}))) =
    image_mset arr (filter_mset (used_bucket arr) (mset_set ({0..<n} - {b})))" by simp
  moreover have "used_bucket (arr(b := v)) b \<longleftrightarrow> v \<noteq> 0 \<and> v \<noteq> refs_ts" by (simp add: used_bucket_def)
  ultimately show ?thesis
    unfolding contents_def n filter_mset_add_mset
    by (cases "v \<noteq> 0 \<and> v \<noteq> refs_ts") (simp_all only: if_True if_False image_mset_add_mset fun_upd_same union_mset_add_mset_left add_0 simp_thms)
qed

lemma contents_add:
  "b < n \<Longrightarrow> \<not> used_bucket arr b \<Longrightarrow> v \<noteq> 0 \<Longrightarrow> v \<noteq> refs_ts \<Longrightarrow> contents n (arr(b := v)) = add_mset v (contents n arr)"
  using contents_other [of b n arr v] contents_other [of b n arr "arr b"] by (auto simp: used_bucket_def)

lemma contents_remove:
  "b < n \<Longrightarrow> arr b = v \<Longrightarrow> v \<noteq> 0 \<Longrightarrow> v \<noteq> refs_ts \<Longrightarrow> contents n (arr(b := refs_ts)) = contents n arr - {#v#} \<and>
   v \<in># contents n arr"
  using contents_other [of b n arr refs_ts] contents_other [of b n arr "arr b"] by (auto simp: used_bucket_def)

lemma contents_empty: "contents n (\<lambda>_. 0) = {#}"
  by (simp add: contents_def used_bucket_def)

lemma placed_add:
  "placed n arr \<Longrightarrow> i < 128 \<Longrightarrow> b = (first_bucket n v + i) mod n \<Longrightarrow> placed n (arr(b := v))"
  unfolding placed_def used_bucket_def by auto

lemma placed_remove: "placed n arr \<Longrightarrow> placed n (arr(b := refs_ts))"
  unfolding placed_def used_bucket_def by auto

section \<open>Probing\<close>

lemma next_bucket_mod: "0 < n \<Longrightarrow> next_bucket n (k mod n) = Suc k mod n"
  unfolding next_bucket_def by (simp add: mod_Suc)

lemma probe_empty_Some:
  "0 < n \<Longrightarrow> probe_empty m arr n (k mod n) = Some b \<Longrightarrow> arr b = 0 \<and> (\<exists>i < m. b = (k + i) mod n)"
proof (induction m arbitrary: k)
  case (Suc m)
  show ?case
  proof (cases "arr (k mod n) = 0")
    case True
    then show ?thesis using Suc.prems(2) by (auto intro!: exI [of _ 0])
  next
    case False
    then have "probe_empty m arr n (Suc k mod n) = Some b" using Suc.prems next_bucket_mod by simp
    from Suc.IH [OF Suc.prems(1) this] obtain i where "arr b = 0" "i < m" "b = (Suc k + i) mod n" by blast
    then show ?thesis by (auto intro!: exI [of _ "Suc i"])
  qed
qed simp

lemma protect_probe_Some:
  "0 < n \<Longrightarrow> (\<And>t. ts = Some t \<Longrightarrow> arr t = refs_ts \<and> (\<exists>i < 128. t = (h + i) mod n)) \<Longrightarrow> j + m = 128 \<Longrightarrow>
   protect_probe m arr n ((h + j) mod n) ts = Some b \<Longrightarrow> \<not> used_bucket arr b \<and> (\<exists>i < 128. b = (h + i) mod n)"
proof (induction m arbitrary: j ts)
  case 0
  then show ?case by (auto simp: used_bucket_def)
next
  case (Suc m)
  let ?v = "arr ((h + j) mod n)" and ?here = "(h + j) mod n"
  have here: "\<exists>i < 128. ?here = (h + i) mod n" using Suc.prems(3) by (auto intro!: exI [of _ j])
  have nx: "next_bucket n ?here = (h + Suc j) mod n" using next_bucket_mod [OF Suc.prems(1), of "h + j"] by simp
  consider "?v = refs_ts" | "?v = 0" | "?v \<noteq> refs_ts" "?v \<noteq> 0" by blast
  then show ?case
  proof cases
    case 1
    show ?thesis
      by (rule Suc.IH [where j = "Suc j" and ts = "if ts = None then Some ?here else ts"])
        (use 1 Suc.prems here nx in \<open>auto split: if_splits\<close>)
  next
    case 2
    then show ?thesis using Suc.prems here by (auto simp: used_bucket_def refs_ts_def split: option.splits)
  next
    case 3
    show ?thesis
      by (rule Suc.IH [where j = "Suc j" and ts = ts]) (use 3 Suc.prems nx in auto)
  qed
qed

lemma protect_find_Some:
  "0 < n \<Longrightarrow> protect_find m arr n a (k mod n) = Some b \<Longrightarrow> arr b = a \<and> b < n"
proof (induction m arbitrary: k)
  case (Suc m)
  then show ?case using next_bucket_mod [of n k] by (auto split: if_splits)
qed simp

lemma protect_find_None:
  "0 < n \<Longrightarrow> protect_find m arr n a (k mod n) = None \<Longrightarrow> i < m \<Longrightarrow> arr ((k + i) mod n) \<noteq> a"
proof (induction m arbitrary: k i)
  case (Suc m)
  then show ?case using next_bucket_mod [of n k] Suc.IH [of "Suc k" "i - 1"] by (cases i) (auto split: if_splits)
qed simp

section \<open>Rebuilding\<close>

definition part_contents :: "(nat \<Rightarrow> u64) \<Rightarrow> nat \<Rightarrow> nat \<Rightarrow> u64 multiset" where
  "part_contents old a b = image_mset old (filter_mset (used_bucket old) (mset_set {a..<b}))"

lemma part_contents_all: "part_contents old 0 n = contents n old"
  by (simp add: part_contents_def contents_def)

lemma part_contents_empty: "part_contents old a a = {#}"
  by (simp add: part_contents_def)

lemma part_contents_Cons:
  "a < b \<Longrightarrow> part_contents old a b = (if used_bucket old a then {#old a#} else {#}) + part_contents old (Suc a) b"
proof -
  assume "a < b"
  then have "{a..<b} = insert a {Suc a..<b}" by auto
  then have "mset_set {a..<b} = add_mset a (mset_set {Suc a..<b})" by simp
  then show ?thesis unfolding part_contents_def by (simp only: filter_mset_add_mset image_mset_add_mset if_split simp_thms) auto
qed

lemma part_contents_append: "a \<le> b \<Longrightarrow> b \<le> c \<Longrightarrow> part_contents old a c = part_contents old a b + part_contents old b c"
proof (induction "b - a" arbitrary: a)
  case (Suc k)
  then have "part_contents old (Suc a) c = part_contents old (Suc a) b + part_contents old b c" by simp
  then show ?case using Suc.hyps(2) Suc.prems by (simp add: part_contents_Cons [of a b] part_contents_Cons [of a c] add.assoc)
qed (simp add: part_contents_empty)

definition rebuilt :: "refs_table \<Rightarrow> u64 multiset \<Rightarrow> serror + refs_table \<Rightarrow> bool" where
  "rebuilt tbl M r \<longleftrightarrow> r = Inl AssertFail \<or> (\<exists>arr. r = Inr (tbl\<lparr>refs_arr := arr\<rparr>) \<and> placed (refs_size tbl) arr \<and>
     contents (refs_size tbl) arr = contents (refs_size tbl) (refs_arr tbl) + M)"

lemma protect_rehash_rebuilt:
  assumes "placed (refs_size tbl) (refs_arr tbl)" "0 < refs_size tbl"
  shows "rebuilt tbl (if v \<noteq> 0 \<and> v \<noteq> refs_ts then {#v#} else {#}) (protect_rehash tbl v)"
proof (cases "v \<noteq> 0 \<and> v \<noteq> refs_ts")
  case True
  show ?thesis
  proof (cases "probe_empty 128 (refs_arr tbl) (refs_size tbl) (first_bucket (refs_size tbl) v)")
    case None
    then show ?thesis using True by (simp add: rebuilt_def protect_rehash_def first_bucket_def)
  next
    case (Some b)
    have fb: "first_bucket (refs_size tbl) v mod refs_size tbl = first_bucket (refs_size tbl) v"
      by (simp add: first_bucket_def)
    obtain i where b: "refs_arr tbl b = 0" "i < 128" "b = (first_bucket (refs_size tbl) v + i) mod refs_size tbl"
      using probe_empty_Some [OF assms(2), of 128 "refs_arr tbl" "first_bucket (refs_size tbl) v" b] Some fb by auto
    then have "b < refs_size tbl" "\<not> used_bucket (refs_arr tbl) b" using assms(2) by (simp_all add: used_bucket_def)
    then have "contents (refs_size tbl) ((refs_arr tbl)(b := v)) = add_mset v (contents (refs_size tbl) (refs_arr tbl))"
      using True contents_add by blast
    moreover have "placed (refs_size tbl) ((refs_arr tbl)(b := v))" by (rule placed_add [OF assms(1) b(2,3)])
    moreover have "protect_rehash tbl v = Inr (tbl\<lparr>refs_arr := (refs_arr tbl)(b := v)\<rparr>)"
      using True Some by (simp add: protect_rehash_def first_bucket_def)
    ultimately show ?thesis using True by (auto simp: rebuilt_def)
  qed
next
  case False
  then have "protect_rehash tbl v = Inr tbl" by (auto simp: protect_rehash_def)
  then show ?thesis using False assms(1) by (auto simp: rebuilt_def intro!: exI [of _ "refs_arr tbl"])
qed

lemma rehash_part_rebuilt:
  "placed (refs_size tbl) (refs_arr tbl) \<Longrightarrow> 0 < refs_size tbl \<Longrightarrow>
   rebuilt tbl (part_contents (refs_resize_table tbl) b (b + n)) (rehash_part protect_rehash n b tbl)"
proof (induction n arbitrary: b tbl)
  case 0
  then show ?case by (auto simp: rebuilt_def part_contents_empty intro!: exI [of _ "refs_arr tbl"])
next
  case (Suc n)
  let ?old = "refs_resize_table tbl" and ?n = "refs_size tbl"
  have p: "part_contents ?old b (b + Suc n) =
      (if ?old b \<noteq> 0 \<and> ?old b \<noteq> refs_ts then {#?old b#} else {#}) + part_contents ?old (Suc b) (Suc b + n)"
    using part_contents_Cons [of b "b + Suc n" ?old] by (simp add: used_bucket_def)
  from protect_rehash_rebuilt [OF Suc.prems, of "?old b"] consider "protect_rehash tbl (?old b) = Inl AssertFail"
    | arr where "protect_rehash tbl (?old b) = Inr (tbl\<lparr>refs_arr := arr\<rparr>)" "placed ?n arr"
      "contents ?n arr = contents ?n (refs_arr tbl) + (if ?old b \<noteq> 0 \<and> ?old b \<noteq> refs_ts then {#?old b#} else {#})"
    unfolding rebuilt_def by blast
  then show ?case
  proof cases
    case 1
    then show ?thesis by (simp add: rebuilt_def)
  next
    case 2
    have "rebuilt (tbl\<lparr>refs_arr := arr\<rparr>) (part_contents ?old (Suc b) (Suc b + n))
        (rehash_part protect_rehash n (Suc b) (tbl\<lparr>refs_arr := arr\<rparr>))"
      using Suc.IH [of "tbl\<lparr>refs_arr := arr\<rparr>" "Suc b"] 2(2) Suc.prems(2) by simp
    then show ?thesis unfolding rebuilt_def p using 2 by (auto simp: add.assoc)
  qed
qed

text \<open>
  The loop of a resize has \<open>d\<close> parts behind it; each round rebuilds one more, so one round
  per part and one for the test are enough.
\<close>

lemma resize_help_part:
  assumes "refs_control tbl = 0x40000000" "refs_resize_part tbl = d" "refs_resize_done tbl = d"
    and "d < refs_resize_size tbl div 128"
  shows "resize_help rh tbl = bindE (rehash_part rh 128 (d * 128) (tbl\<lparr>refs_resize_part := d + 1\<rparr>)) (\<lambda>tbl.
    Inr (True, tbl\<lparr>refs_resize_done := refs_resize_done tbl + 1\<rparr>))"
  using assms by (simp add: resize_help_def)

lemma resize_loop_rebuilds:
  "placed (refs_size tbl) (refs_arr tbl) \<Longrightarrow> 0 < refs_size tbl \<Longrightarrow> refs_control tbl = 0x40000000 \<Longrightarrow>
   refs_resize_part tbl = d \<Longrightarrow> refs_resize_done tbl = d \<Longrightarrow> refs_resize_size tbl = 128 * k \<Longrightarrow> d + n = k \<Longrightarrow>
   n < fuel \<Longrightarrow>
   resize_loop protect_rehash fuel tbl = Inl AssertFail \<or>
   (\<exists>arr. resize_loop protect_rehash fuel tbl =
        Inr (tbl\<lparr>refs_arr := arr, refs_resize_part := k, refs_resize_done := k\<rparr>) \<and>
      placed (refs_size tbl) arr \<and> contents (refs_size tbl) arr =
        contents (refs_size tbl) (refs_arr tbl) + part_contents (refs_resize_table tbl) (128 * d) (128 * k))"
proof (induction n arbitrary: d tbl fuel)
  case 0
  then obtain f where f: "fuel = Suc f" by (cases fuel) auto
  have "resize_loop protect_rehash fuel tbl = Inr tbl" using 0 f by simp
  moreover have "tbl = tbl\<lparr>refs_arr := refs_arr tbl, refs_resize_part := k, refs_resize_done := k\<rparr>" using 0 by simp
  ultimately show ?case using 0 by (metis add.right_neutral part_contents_empty)
next
  case (Suc n)
  then obtain f where f: "fuel = Suc f" "n < f" by (cases fuel) auto
  let ?n = "refs_size tbl" and ?old = "refs_resize_table tbl"
  let ?t = "tbl\<lparr>refs_resize_part := d + 1\<rparr>"
  have less: "d < refs_resize_size tbl div 128" using Suc.prems by simp
  have ne: "refs_resize_done tbl \<noteq> refs_resize_size tbl div 128" using Suc.prems by simp
  note step = resize_help_part [OF Suc.prems(3-5) less, of protect_rehash]
  have app: "part_contents ?old (128 * d) (128 * k) = part_contents ?old (d * 128) (d * 128 + 128) +
      part_contents ?old (128 * (d + 1)) (128 * k)"
    using part_contents_append [of "128 * d" "128 * (d + 1)" "128 * k" ?old] Suc.prems(7) by (simp add: mult.commute algebra_simps)
  have "rebuilt ?t (part_contents ?old (d * 128) (d * 128 + 128)) (rehash_part protect_rehash 128 (d * 128) ?t)"
    using rehash_part_rebuilt [of ?t "d * 128" 128] Suc.prems(1,2) by simp
  then consider "rehash_part protect_rehash 128 (d * 128) ?t = Inl AssertFail"
    | arr where "rehash_part protect_rehash 128 (d * 128) ?t = Inr (?t\<lparr>refs_arr := arr\<rparr>)" "placed ?n arr"
      "contents ?n arr = contents ?n (refs_arr tbl) + part_contents ?old (d * 128) (d * 128 + 128)"
    unfolding rebuilt_def by auto
  then show ?case
  proof cases
    case 1
    then show ?thesis using step ne f by simp
  next
    case 2
    let ?u = "?t\<lparr>refs_arr := arr, refs_resize_done := d + 1\<rparr>"
    have r: "resize_loop protect_rehash fuel tbl = resize_loop protect_rehash f ?u"
      using 2(1) step ne f Suc.prems(5) by simp
    have "resize_loop protect_rehash f ?u = Inl AssertFail \<or>
      (\<exists>arr'. resize_loop protect_rehash f ?u = Inr (?u\<lparr>refs_arr := arr', refs_resize_part := k, refs_resize_done := k\<rparr>) \<and>
        placed (refs_size ?u) arr' \<and> contents (refs_size ?u) arr' =
          contents (refs_size ?u) (refs_arr ?u) + part_contents (refs_resize_table ?u) (128 * (d + 1)) (128 * k))"
      by (rule Suc.IH) (use 2 Suc.prems f in simp_all)
    then show ?thesis unfolding r app using 2(3) by (auto simp: add.assoc)
  qed
qed

text \<open>A resize keeps the bag. It doubles the table only when a quarter of it is in use.\<close>

lemma power2_128: "power2 n \<Longrightarrow> 128 \<le> n \<Longrightarrow> n = 128 * (n div 128)"
proof -
  assume "power2 n" "128 \<le> n"
  then obtain k where k: "n = 2 ^ k" by (auto simp: power2_def)
  have "(2::nat) ^ 7 \<le> 2 ^ k" using \<open>128 \<le> n\<close> k by simp
  then have "7 \<le> k" by (simp only: power_increasing_iff one_less_numeral_iff semiring_norm)
  then have "(2::nat) ^ k = 2 ^ 7 * 2 ^ (k - 7)" by (metis le_add_diff_inverse power_add)
  then show ?thesis using k by simp
qed

lemma protect_resize_spec:
  assumes ok: "protect_ok tbl" and room: "size (protect_bag tbl) < 2 ^ 44"
  shows "protect_resize tbl = Inl AssertFail \<or>
    (\<exists>tbl'. protect_resize tbl = Inr tbl' \<and> protect_ok tbl' \<and> protect_bag tbl' = protect_bag tbl)"
proof -
  let ?s = "refs_size tbl"
  define new where "new = (if refs_count tbl * 4 > ?s then ?s * 2 else ?s)"
  have s: "power2 ?s" "128 \<le> ?s" "?s \<le> 2 ^ 47" "refs_control tbl = 0" using ok by (simp_all add: protect_ok_def)
  have count: "refs_count tbl = size (protect_bag tbl)"
    using protect_count_bag by (simp add: protect_count_def refs_count_def)
  have n: "power2 new \<and> 128 \<le> new \<and> new \<le> 2 ^ 47"
  proof (cases "refs_count tbl * 4 > ?s")
    case True
    then have "?s < 2 ^ 46" using room count by simp
    moreover have "power2 (2 ^ 47)" unfolding power2_def by (intro exI [of _ 47]) simp
    ultimately have "power2 (?s * 2) \<and> ?s * 2 \<le> 2 ^ 47" using power2_double [OF s(1)] by simp
    then show ?thesis using True s(2) by (simp add: new_def)
  qed (use s in \<open>simp add: new_def\<close>)
  define t where "t = tbl\<lparr>refs_resize_table := refs_arr tbl, refs_resize_size := ?s, refs_resize_part := 0,
    refs_resize_done := 0, refs_arr := (\<lambda>_. 0), refs_size := new, refs_control := 0x40000000\<rparr>"
  have r: "protect_resize tbl = bindE (resize_loop protect_rehash (Suc (?s div 128)) t) (\<lambda>tbl. Inr (tbl\<lparr>refs_control := 0\<rparr>))"
    using s(4) by (simp add: protect_resize_def resize_table_def Let_def t_def new_def refs_count_def)
  have pl: "placed new (\<lambda>_. 0)" by (simp add: placed_def used_bucket_def)
  have "resize_loop protect_rehash (Suc (?s div 128)) t = Inl AssertFail \<or>
   (\<exists>arr. resize_loop protect_rehash (Suc (?s div 128)) t =
        Inr (t\<lparr>refs_arr := arr, refs_resize_part := ?s div 128, refs_resize_done := ?s div 128\<rparr>) \<and>
      placed (refs_size t) arr \<and> contents (refs_size t) arr =
        contents (refs_size t) (refs_arr t) + part_contents (refs_resize_table t) (128 * 0) (128 * (?s div 128)))"
    by (rule resize_loop_rebuilds [where n = "?s div 128"]) (use pl n power2_128 [OF s(1,2)] in \<open>simp_all add: t_def\<close>)
  then consider "protect_resize tbl = Inl AssertFail" | arr where "protect_resize tbl =
      Inr (t\<lparr>refs_arr := arr, refs_resize_part := ?s div 128, refs_resize_done := ?s div 128, refs_control := 0\<rparr>)"
      "placed new arr" "contents new arr = contents ?s (refs_arr tbl)"
    unfolding r using power2_128 [OF s(1,2)] by (auto simp: t_def contents_empty part_contents_all)
  then show ?thesis
  proof cases
    case 2
    then show ?thesis using n by (auto simp: t_def protect_ok_def protect_bag_def)
  qed simp
qed

section \<open>Protecting and unprotecting\<close>

lemma refs_enter_sel [simp]:
  "refs_arr (refs_enter tbl) = refs_arr tbl" "refs_size (refs_enter tbl) = refs_size tbl"
  "refs_leave (refs_enter tbl\<lparr>refs_arr := arr\<rparr>) = tbl\<lparr>refs_arr := arr\<rparr>" "refs_leave (refs_enter tbl) = tbl"
  by (simp_all add: refs_enter_def refs_leave_def)

lemma protect_up_loop_spec:
  "protect_ok tbl \<Longrightarrow> size (protect_bag tbl) < 2 ^ 44 \<Longrightarrow> a \<noteq> 0 \<Longrightarrow> a \<noteq> refs_ts \<Longrightarrow>
   (\<exists>e \<in> {AssertFail, OutOfFuel}. protect_up_loop fuel (refs_enter tbl) a = Inl e) \<or>
   (\<exists>tbl'. protect_up_loop fuel (refs_enter tbl) a = Inr tbl' \<and> protect_ok tbl' \<and>
      protect_bag tbl' = add_mset a (protect_bag tbl))"
proof (induction fuel arbitrary: tbl)
  case (Suc fuel)
  let ?n = "refs_size tbl" and ?arr = "refs_arr tbl"
  have n: "0 < ?n" "power2 ?n" using Suc.prems(1) by (auto simp: protect_ok_def)
  show ?case
  proof (cases "protect_probe 128 ?arr ?n (first_bucket ?n a) None")
    case None
    have r: "protect_up_loop (Suc fuel) (refs_enter tbl) a =
        bindE (protect_resize tbl) (\<lambda>tbl. protect_up_loop fuel (refs_enter tbl) a)"
      using None by (simp add: hash_mask [OF n(2)])
    show ?thesis
      unfolding r using protect_resize_spec [OF Suc.prems(1,2)] Suc.IH Suc.prems(2-4) by fastforce
  next
    case (Some b)
    have "first_bucket ?n a mod ?n = first_bucket ?n a" by (simp add: first_bucket_def)
    then have "\<not> used_bucket ?arr b \<and> (\<exists>i < 128. b = (first_bucket ?n a + i) mod ?n)"
      using protect_probe_Some [of ?n None ?arr "first_bucket ?n a" 0 128 b] n(1) Some by simp
    then obtain i where b: "\<not> used_bucket ?arr b" "i < 128" "b = (first_bucket ?n a + i) mod ?n" by blast
    then have "contents ?n (?arr(b := a)) = add_mset a (contents ?n ?arr)"
      using contents_add [of b ?n ?arr a] n(1) Suc.prems(3,4) by simp
    moreover have "placed ?n (?arr(b := a))"
      by (rule placed_add [OF _ b(2,3)]) (use Suc.prems(1) in \<open>simp add: protect_ok_def\<close>)
    moreover have "protect_up_loop (Suc fuel) (refs_enter tbl) a = Inr (tbl\<lparr>refs_arr := ?arr(b := a)\<rparr>)"
      using Some by (simp add: hash_mask [OF n(2)])
    ultimately show ?thesis using Suc.prems(1) by (simp add: protect_ok_def protect_bag_def)
  qed
qed simp

lemma protect_up_spec:
  assumes "protect_ok tbl" "size (protect_bag tbl) < 2 ^ 44" "a \<noteq> 0" "a \<noteq> refs_ts"
  obtains (stop) e where "protect_up tbl a = Inl e" "e \<in> {AssertFail, OutOfFuel}"
    | (result) tbl' where "protect_up tbl a = Inr tbl'" "protect_ok tbl'" "protect_bag tbl' = add_mset a (protect_bag tbl)"
  using protect_up_loop_spec [OF assms, of refs_fuel] that unfolding protect_up_def by blast

lemma bag_bucket:
  assumes "a \<in># protect_bag tbl"
  obtains b where "b < refs_size tbl" "refs_arr tbl b = a" "used_bucket (refs_arr tbl) b"
  using assms that by (auto simp: protect_bag_def contents_def)

lemma protect_down_spec:
  assumes ok: "protect_ok tbl" and a: "a \<in># protect_bag tbl"
  shows "\<exists>tbl'. protect_down tbl a = Inr tbl' \<and> protect_ok tbl' \<and> protect_bag tbl' = protect_bag tbl - {#a#}"
proof -
  let ?n = "refs_size tbl" and ?arr = "refs_arr tbl"
  have n: "0 < ?n" "power2 ?n" using ok by (auto simp: protect_ok_def)
  obtain b where b: "b < ?n" "?arr b = a" "used_bucket ?arr b" using a by (rule bag_bucket)
  then obtain i where i: "i < 128" "b = (first_bucket ?n a + i) mod ?n" using ok by (auto simp: protect_ok_def placed_def)
  have fb: "first_bucket ?n a mod ?n = first_bucket ?n a" by (simp add: first_bucket_def)
  obtain c where c: "protect_find 128 ?arr ?n a (first_bucket ?n a) = Some c"
    using protect_find_None [of ?n 128 ?arr a "first_bucket ?n a" i] n(1) i b fb by fastforce
  then have "?arr c = a" "c < ?n" using protect_find_Some [of ?n 128 ?arr a "first_bucket ?n a"] n(1) fb by auto
  then have "contents ?n (?arr(c := refs_ts)) = contents ?n ?arr - {#a#}"
    using contents_remove [of c ?n ?arr a] b by (auto simp: used_bucket_def)
  moreover have "placed ?n (?arr(c := refs_ts))" by (rule placed_remove) (use ok in \<open>simp add: protect_ok_def\<close>)
  moreover have "protect_down tbl a = Inr (tbl\<lparr>refs_arr := ?arr(c := refs_ts)\<rparr>)"
    using c by (simp add: protect_down_def hash_mask [OF n(2)])
  ultimately show ?thesis using ok by (simp add: protect_ok_def protect_bag_def)
qed

lemma protect_create_spec:
  "protect_create n = Inr tbl \<Longrightarrow> 128 \<le> n \<Longrightarrow> power2 n \<Longrightarrow> n \<le> 2 ^ 47 \<Longrightarrow> protect_ok tbl \<and> protect_bag tbl = {#}"
  by (auto simp: protect_create_def refs_create_def protect_ok_def placed_def used_bucket_def protect_bag_def contents_empty
      split: if_splits)

end
