(* ===== verification/SsaGc.thy ===== *)
theory SsaGc
  imports Ssa RefsSpec
begin

text \<open>
  Tags that are diagrams, in the build with collection (\<open>src/ssa_tag_gc.h\<close>,
  \<open>src/ssa_tag_gc.cpp\<close>). A tag is a pointer to an object \<open>ssa\<close> that holds a reference count
  and a diagram; the address of the diagram is protected in Sylvan while the object is in use.
  Objects come in blocks of \<open>SSA_BLK\<close>; a ring holds objects that are free, and when it is empty
  a collection fills it with objects whose count is zero, or with a new block.

  An object at address \<open>p\<close> has its count at \<open>p\<close>, kept in \<open>ref_count\<close>, and its diagram at
  \<open>p + 8\<close> in the memory that Sylvan reads. The tags themselves, in shadow memory, registers,
  temporaries and the caches of the threads, are the map \<open>tag_at\<close> from locations to pointers;
  0 is the null pointer. One thread runs at a time, so a compare-and-swap sees the value just
  read. \<open>malloc\<close> answers the address of a new block, from the list of the earlier ones.
\<close>

section \<open>State\<close>

datatype tag_loc = Cb_cache_l nat | Cb_cache_r nat | Cb_cache_v nat | Tag u64

record gc_state =
  gbdds :: sylvan
  var_set_ptr :: u64
  ref_count :: "u64 \<Rightarrow> u64"
  ssa_blk_list :: "u64 list"
  free_q :: "nat \<Rightarrow> u64"
  free_h :: nat
  free_t :: nat
  gc_lock :: nat
  tag_at :: "tag_loc \<Rightarrow> u64"

definition SSA_BLK :: nat where
  "SSA_BLK = 0x10000"

definition ssa_at :: "u64 \<Rightarrow> nat \<Rightarrow> u64" where
  "ssa_at sp i = sp + 16 * of_nat i"

definition bdd_field :: "u64 \<Rightarrow> u64" where
  "bdd_field p = p + 8"

definition bdd_of :: "gc_state \<Rightarrow> u64 \<Rightarrow> u64" where
  "bdd_of g p = memory (gbdds g) (bdd_field p)"

definition set_bdd :: "u64 \<Rightarrow> u64 \<Rightarrow> gc_state \<Rightarrow> gc_state" where
  "set_bdd p v g = g\<lparr>gbdds := (gbdds g)\<lparr>memory := (memory (gbdds g))(bdd_field p := v)\<rparr>\<rparr>"

section \<open>Tags\<close>

text \<open>The constructors, the destructor, the assignments and the comparison of \<open>ssa_tag\<close>.\<close>

definition count_up :: "u64 \<Rightarrow> gc_state \<Rightarrow> gc_state" where
  "count_up p g = g\<lparr>ref_count := (ref_count g)(p := ref_count g p + 1)\<rparr>"

definition count_down :: "u64 \<Rightarrow> gc_state \<Rightarrow> gc_state" where
  "count_down p g = g\<lparr>ref_count := (ref_count g)(p := ref_count g p - 1)\<rparr>"

definition set_tag :: "tag_loc \<Rightarrow> u64 \<Rightarrow> gc_state \<Rightarrow> gc_state" where
  "set_tag l p g = g\<lparr>tag_at := (tag_at g)(l := p)\<rparr>"

definition tag_copy :: "tag_loc \<Rightarrow> tag_loc \<Rightarrow> gc_state \<Rightarrow> gc_state" where
  "tag_copy this rhs g =
    (let g = (if tag_at g rhs \<noteq> 0 then count_up (tag_at g rhs) g else g)
     in set_tag this (tag_at g rhs) g)"

definition tag_move :: "tag_loc \<Rightarrow> tag_loc \<Rightarrow> gc_state \<Rightarrow> gc_state" where
  "tag_move this rhs g = set_tag rhs 0 (set_tag this (tag_at g rhs) g)"

definition tag_destroy :: "tag_loc \<Rightarrow> gc_state \<Rightarrow> gc_state" where
  "tag_destroy this g =
    set_tag this 0 (if tag_at g this \<noteq> 0 then count_down (tag_at g this) g else g)"

definition tag_assign :: "tag_loc \<Rightarrow> tag_loc \<Rightarrow> gc_state \<Rightarrow> gc_state" where
  "tag_assign this rhs g =
    (let g = (if tag_at g rhs \<noteq> 0 then count_up (tag_at g rhs) g else g);
         g = (if tag_at g this \<noteq> 0 then count_down (tag_at g this) g else g)
     in set_tag this (tag_at g rhs) g)"

definition tag_move_assign :: "tag_loc \<Rightarrow> tag_loc \<Rightarrow> gc_state \<Rightarrow> gc_state" where
  "tag_move_assign this rhs g =
    (let g = (if tag_at g this \<noteq> 0 then count_down (tag_at g this) g else g)
     in set_tag rhs 0 (set_tag this (tag_at g rhs) g))"

definition tag_eq :: "tag_loc \<Rightarrow> tag_loc \<Rightarrow> gc_state \<Rightarrow> bool" where
  "tag_eq this rhs g =
    (if tag_at g this = tag_at g rhs then True
     else if tag_at g this = 0 \<or> tag_at g rhs = 0 then False
     else if bdd_of g (tag_at g this) = bdd_of g (tag_at g rhs) then True
     else False)"

section \<open>The pool of objects\<close>

definition ring_room :: "gc_state \<Rightarrow> nat" where
  "ring_room g =
    (if free_t g \<ge> free_h g then SSA_BLK - 1 - (free_t g - free_h g) else free_h g - free_t g - 1)"

fun fill_ring :: "nat \<Rightarrow> nat \<Rightarrow> u64 \<Rightarrow> nat \<Rightarrow> (nat \<Rightarrow> u64) \<Rightarrow> nat \<times> (nat \<Rightarrow> u64)" where
  "fill_ring 0 i sp temp_t q = (temp_t, q)"
| "fill_ring (Suc n) i sp temp_t q =
    fill_ring n (Suc i) sp ((temp_t + 1) mod SSA_BLK) (q(temp_t := ssa_at sp i))"

definition blk_cells :: "u64 \<Rightarrow> u64 list" where
  "blk_cells sp = map (ssa_at sp) [0..<SSA_BLK]"

definition add_ssa_blk :: "(u64 list \<Rightarrow> u64) \<Rightarrow> gc_state \<Rightarrow> gc_state" where
  "add_ssa_blk malloc g =
    (let empty_count = ring_room g;
         sp = malloc (ssa_blk_list g);
         g = g\<lparr>ref_count := (\<lambda>p. if p \<in> set (blk_cells sp) then -1 else ref_count g p),
               gbdds := (gbdds g)\<lparr>memory := (\<lambda>a. if a \<in> bdd_field ` set (blk_cells sp) then -1 else memory (gbdds g) a)\<rparr>,
               ssa_blk_list := ssa_blk_list g @ [sp]\<rparr>;
         (temp_t, q) = fill_ring empty_count 0 sp (free_t g) (free_q g)
     in g\<lparr>free_q := q, free_t := temp_t\<rparr>)"

text \<open>
  The loops of a collection. The state has \<open>empty_count\<close> and \<open>temp_t\<close>; the first result says
  whether the ring was filled, which leaves both loops.
\<close>

definition unprotect_bdd :: "u64 \<Rightarrow> gc_state \<Rightarrow> serror + gc_state" where
  "unprotect_bdd p g =
    (if bdd_of g p \<noteq> 0
     then bindE (mtbdd_unprotect (bdd_field p) (gbdds g)) (\<lambda>st. Inr (g\<lparr>gbdds := st\<rparr>))
     else Inr g)"

fun gc_blk :: "nat \<Rightarrow> nat \<Rightarrow> u64 \<Rightarrow> u64 \<times> nat \<times> gc_state \<Rightarrow> serror + (bool \<times> u64 \<times> nat \<times> gc_state)" where
  "gc_blk 0 i sp s = Inr (False, s)"
| "gc_blk (Suc n) i sp (empty_count, temp_t, g) =
    (let p = ssa_at sp i
     in if ref_count g p = 0 then
          bindE (unprotect_bdd p (g\<lparr>free_q := (free_q g)(temp_t := p)\<rparr>)) (\<lambda>g.
            let temp_t = (temp_t + 1) mod SSA_BLK; empty_count = empty_count - 1
            in if empty_count = 0 then Inr (True, empty_count, temp_t, g)
               else gc_blk n (Suc i) sp (empty_count, temp_t, g))
        else if ref_count g p = -1 then
          (let g = g\<lparr>free_q := (free_q g)(temp_t := p)\<rparr>;
               temp_t = (temp_t + 1) mod SSA_BLK; empty_count = empty_count - 1
           in if empty_count = 0 then Inr (True, empty_count, temp_t, g)
              else gc_blk n (Suc i) sp (empty_count, temp_t, g))
        else gc_blk n (Suc i) sp (empty_count, temp_t, g))"

fun gc_list :: "u64 list \<Rightarrow> u64 \<times> nat \<times> gc_state \<Rightarrow> serror + (bool \<times> u64 \<times> nat \<times> gc_state)" where
  "gc_list [] s = Inr (False, s)"
| "gc_list (sp # blks) s =
    bindE (gc_blk SSA_BLK 0 sp s) (\<lambda>(exit_gc, s). if exit_gc then Inr (True, s) else gc_list blks s)"

definition ssa_gc :: "(u64 list \<Rightarrow> u64) \<Rightarrow> gc_state \<Rightarrow> serror + gc_state" where
  "ssa_gc malloc g =
    bindE (gc_list (ssa_blk_list g) (of_nat (ring_room g), free_t g, g)) (\<lambda>(exit_gc, empty_count, temp_t, g).
      let g = g\<lparr>free_t := temp_t\<rparr>;
          g = (if \<not> exit_gc \<and> empty_count > of_nat SSA_BLK div 2 then add_ssa_blk malloc g else g)
      in Inr (g\<lparr>gc_lock := 0\<rparr>))"

text \<open>
  Waiting for a free object: the head of the ring is read once, and the loop runs while it is
  the tail. One collection is enough (\<open>take_ssa_spec\<close>), so the loop has at most two tests.
\<close>

fun wait_free :: "nat \<Rightarrow> (u64 list \<Rightarrow> u64) \<Rightarrow> nat \<Rightarrow> gc_state \<Rightarrow> serror + gc_state" where
  "wait_free 0 malloc idx g = Inl OutOfFuel"
| "wait_free (Suc fuel) malloc idx g =
    (if idx = free_t g then
       bindE (if gc_lock g = 0 then ssa_gc malloc (g\<lparr>gc_lock := 1\<rparr>) else Inr g) (wait_free fuel malloc idx)
     else Inr g)"

definition take_ssa :: "(u64 list \<Rightarrow> u64) \<Rightarrow> gc_state \<Rightarrow> serror + (u64 \<times> gc_state)" where
  "take_ssa malloc g =
    (let idx = free_h g
     in bindE (wait_free 2 malloc idx g) (\<lambda>g. Inr (free_q g idx, g\<lparr>free_h := (idx + 1) mod SSA_BLK\<rparr>)))"

section \<open>Fresh tags and unions\<close>

definition store_bdd :: "u64 \<Rightarrow> u64 \<Rightarrow> gc_state \<Rightarrow> serror + gc_state" where
  "store_bdd victim res g =
    (let g = set_bdd victim res g
     in bindE (mtbdd_protect (bdd_field victim) (gbdds g)) (\<lambda>st. Inr (g\<lparr>gbdds := st\<rparr>)))"

definition gc_alloc_task :: "u64 \<Rightarrow> u8 list \<Rightarrow> gc_state \<Rightarrow> serror + (u64 \<times> gc_state)" where
  "gc_alloc_task arg1 arg2 g =
    bindE (mtbdd_cube arg1 arg2 mtbdd_true (gbdds g)) (\<lambda>(res, st). Inr (res, g\<lparr>gbdds := st\<rparr>))"

definition gc_combine_task :: "u64 \<Rightarrow> u64 \<Rightarrow> gc_state \<Rightarrow> serror + (u64 \<times> gc_state)" where
  "gc_combine_task arg1 arg2 g =
    bindE (sylvan_and_alone bdd_fuel (mtbdd_not arg1) (mtbdd_not arg2) 0 (gbdds g)) (\<lambda>(res, st).
      Inr (mtbdd_not res, g\<lparr>gbdds := st\<rparr>))"

text \<open>The result is built at \<open>dst\<close>, which holds no tag before.\<close>

definition gc_tag_alloc :: "(u64 list \<Rightarrow> u64) \<Rightarrow> u32 \<Rightarrow> tag_loc \<Rightarrow> gc_state \<Rightarrow> serror + gc_state" where
  "gc_tag_alloc malloc offset dst g =
    bindE (take_ssa malloc g) (\<lambda>(victim, g).
    let g = g\<lparr>ref_count := (ref_count g)(victim := 1)\<rparr> in
    bindE (gc_alloc_task (memory (gbdds g) (var_set_ptr g)) (offset_array offset) g) (\<lambda>(res, g).
    bindE (store_bdd victim res g) (\<lambda>g. Inr (set_tag dst victim g))))"

definition remember :: "nat \<Rightarrow> tag_loc \<Rightarrow> tag_loc \<Rightarrow> tag_loc \<Rightarrow> gc_state \<Rightarrow> gc_state" where
  "remember tid lhs rhs v g =
    tag_assign (Cb_cache_v tid) v (tag_assign (Cb_cache_r tid) rhs (tag_assign (Cb_cache_l tid) lhs g))"

definition gc_tag_combine :: "(u64 list \<Rightarrow> u64) \<Rightarrow> tag_loc \<Rightarrow> tag_loc \<Rightarrow> nat \<Rightarrow> tag_loc \<Rightarrow> gc_state \<Rightarrow> serror + gc_state" where
  "gc_tag_combine malloc lhs rhs tid dst g =
    (if tag_at g lhs = 0 then Inr (tag_copy dst rhs g)
     else if tag_at g rhs = 0 \<or> tag_eq lhs rhs g then Inr (tag_copy dst lhs g)
     else if tag_eq (Cb_cache_l tid) lhs g \<and> tag_eq (Cb_cache_r tid) rhs g then Inr (tag_copy dst (Cb_cache_v tid) g)
     else bindE (gc_combine_task (bdd_of g (tag_at g lhs)) (bdd_of g (tag_at g rhs)) g) (\<lambda>(res, g).
       if res = bdd_of g (tag_at g lhs) then Inr (tag_copy dst lhs (remember tid lhs rhs lhs g))
       else if res = bdd_of g (tag_at g rhs) then Inr (tag_copy dst rhs (remember tid lhs rhs rhs g))
       else bindE (take_ssa malloc g) (\<lambda>(victim, g).
         let g = g\<lparr>ref_count := (ref_count g)(victim := 1)\<rparr> in
         bindE (store_bdd victim res g) (\<lambda>g. Inr (remember tid lhs rhs dst (set_tag dst victim g))))))"

section \<open>Start and end\<close>

text \<open>
  The memory behind the caches of the threads is cleared when a thread starts; \<open>var_ptr\<close> is
  the address of \<open>var_set\<close>.
\<close>

definition gc_ssa_init :: "llmsset \<Rightarrow> (u64 \<Rightarrow> u64) \<Rightarrow> (u64 list \<Rightarrow> u64) \<Rightarrow> u64 \<Rightarrow> (u64 \<Rightarrow> u64) \<Rightarrow> (nat \<Rightarrow> u64) \<Rightarrow> serror + gc_state" where
  "gc_ssa_init env mem malloc var_ptr counts q =
    bindE (sylvan_set_limits SYLVAN_MEMORY_LIMIT 1 5) (\<lambda>sz.
    bindE (sylvan_init_package env sz) (\<lambda>(dbs, cs).
    bindE (sylvan_init_mtbdd dbs cs mem) (\<lambda>st.
    bindE (mtbdd_protect var_ptr st) (\<lambda>st.
    bindE (mtbdd_set_from_array bdd_fuel (map of_nat [0..<TAG_WIDTH]) st) (\<lambda>(vs, st).
      Inr (add_ssa_blk malloc
        \<lparr>gbdds = st\<lparr>memory := (memory st)(var_ptr := vs)\<rparr>, var_set_ptr = var_ptr, ref_count = counts,
         ssa_blk_list = [], free_q = q, free_h = 0, free_t = 0, gc_lock = 0, tag_at = (\<lambda>_. 0)\<rparr>))))))"

definition gc_thread_start :: "nat \<Rightarrow> gc_state \<Rightarrow> gc_state" where
  "gc_thread_start tid g = set_tag (Cb_cache_l tid) 0 (set_tag (Cb_cache_r tid) 0 (set_tag (Cb_cache_v tid) 0 g))"

definition gc_thread_fini :: "nat \<Rightarrow> gc_state \<Rightarrow> gc_state" where
  "gc_thread_fini tid g = tag_destroy (Cb_cache_v tid) (tag_destroy (Cb_cache_r tid) (tag_destroy (Cb_cache_l tid) g))"

end
