(* ===== verification/SsaPool.thy ===== *)
theory SsaPool
  imports SsaGc
begin

text \<open>
  The pool of objects of the collected tags: the ring as a list of free objects, and what one
  pass of the collection does to the ring and to the protected addresses.
\<close>

section \<open>The ring\<close>

text \<open>The entries of a ring of \<open>n\<close> places from the head \<open>h\<close> to the tail \<open>t\<close>; one place stays unused.\<close>

definition ring :: "nat \<Rightarrow> nat \<Rightarrow> nat \<Rightarrow> (nat \<Rightarrow> u64) \<Rightarrow> u64 list" where
  "ring n h t q = map (\<lambda>i. q ((h + i) mod n)) [0..<(t + n - h) mod n]"

lemma ring_empty [simp]: "ring n h h q = []"
  by (simp add: ring_def)

lemma ring_length: "length (ring n h t q) = (t + n - h) mod n"
  by (simp add: ring_def)

lemma ring_size: "h < (n::nat) \<Longrightarrow> t < n \<Longrightarrow> (t + n - h) mod n = (if h \<le> t then t - h else n - h + t)"
proof -
  assume h: "h < n" and t: "t < n"
  show ?thesis
  proof (cases "h \<le> t")
    case True
    then have "t + n - h = (t - h) + n" by simp
    then show ?thesis using True t by (simp only: mod_add_self2 mod_less if_True)
  next
    case False
    then have "t + n - h < n" "t + n - h = n - h + t" using h by simp_all
    then show ?thesis using False by simp
  qed
qed

lemma ring_Nil: "h < n \<Longrightarrow> t < n \<Longrightarrow> ring n h t q = [] \<longleftrightarrow> h = t"
  using ring_length [of n h t q] ring_size [of h n t] by (auto split: if_splits)

lemma ring_snoc:
  assumes "h < n" "t < n" "Suc (length (ring n h t q)) < n"
  shows "ring n h (Suc t mod n) (q(t := p)) = ring n h t q @ [p]"
proof -
  define k where "k = (t + n - h) mod n"
  have k: "Suc k < n" using assms(3) by (simp add: ring_length k_def)
  have ht: "(h + k) mod n = t" using assms by (auto simp: k_def ring_size mod_if)
  have "Suc t mod n < n" using assms by simp
  then have s: "(Suc t mod n + n - h) mod n = Suc k"
    using assms(1,2) k by (auto simp: k_def ring_size mod_Suc split: if_splits)
  have ne: "(h + i) mod n \<noteq> t" if "i < k" for i
    using that k assms(1,2) by (auto simp: k_def ring_size mod_if split: if_splits)
  show ?thesis
    unfolding ring_def s k_def [symmetric] upt_Suc_append [OF le0] map_append
    using ht ne by simp
qed

lemma ring_Cons:
  assumes "h < n" "t < n" "h \<noteq> t"
  shows "ring n h t q = q h # ring n (Suc h mod n) t q"
proof -
  have s: "(t + n - h) mod n = Suc ((t + n - Suc h mod n) mod n)"
    using assms by (auto simp: ring_size mod_Suc split: if_splits)
  have m: "(h + Suc i) mod n = (Suc h mod n + i) mod n" for i by (simp add: mod_simps)
  show ?thesis
    unfolding ring_def s upt_conv_Cons [OF zero_less_Suc] list.map map_Suc_upt [symmetric] map_map
    using assms(1) by (simp only: comp_def m add_0_right mod_less)
qed

abbreviation queued :: "gc_state \<Rightarrow> u64 list" where
  "queued g \<equiv> ring SSA_BLK (free_h g) (free_t g) (free_q g)"

lemma SSA_BLK_pos [simp]: "0 < SSA_BLK" "Suc 0 < SSA_BLK" "SSA_BLK < 2 ^ 32"
  by (simp_all add: SSA_BLK_def)

lemma ring_room_eq:
  assumes "free_h g < SSA_BLK" "free_t g < SSA_BLK"
  shows "ring_room g + length (queued g) = SSA_BLK - 1"
  using assms by (auto simp: ring_room_def ring_length ring_size)

lemma fill_ring_spec:
  "h < SSA_BLK \<Longrightarrow> t < SSA_BLK \<Longrightarrow> length (ring SSA_BLK h t q) + n < SSA_BLK \<Longrightarrow>
   \<exists>t' q'. fill_ring n i sp t q = (t', q') \<and> t' < SSA_BLK \<and>
     ring SSA_BLK h t' q' = ring SSA_BLK h t q @ map (ssa_at sp) [i..<i + n]"
proof (induction n arbitrary: i t q)
  case (Suc n)
  let ?q = "q(t := ssa_at sp i)" and ?t = "Suc t mod SSA_BLK"
  have r: "ring SSA_BLK h ?t ?q = ring SSA_BLK h t q @ [ssa_at sp i]"
    by (rule ring_snoc) (use Suc.prems in simp_all)
  have "\<exists>t' q'. fill_ring n (Suc i) sp ?t ?q = (t', q') \<and> t' < SSA_BLK \<and>
     ring SSA_BLK h t' q' = ring SSA_BLK h ?t ?q @ map (ssa_at sp) [Suc i..<Suc i + n]"
  proof (rule Suc.IH)
    show "length (ring SSA_BLK h ?t ?q) + n < SSA_BLK" unfolding r using Suc.prems(3) by simp
  qed (use Suc.prems in simp_all)
  moreover have "[i..<i + Suc n] = i # [Suc i..<Suc i + n]" by (simp add: upt_conv_Cons del: upt_Suc)
  ultimately show ?case unfolding r by (simp del: upt_Suc)
qed simp

section \<open>One pass\<close>

definition cells :: "gc_state \<Rightarrow> u64 list" where
  "cells g = concat (map blk_cells (ssa_blk_list g))"

definition free_cell :: "gc_state \<Rightarrow> u64 \<Rightarrow> bool" where
  "free_cell g p \<longleftrightarrow> ref_count g p = 0 \<or> ref_count g p = -1"

text \<open>The two nested loops are one loop over all objects.\<close>

fun gc_cells :: "u64 list \<Rightarrow> u64 \<times> nat \<times> gc_state \<Rightarrow> serror + (bool \<times> u64 \<times> nat \<times> gc_state)" where
  "gc_cells [] s = Inr (False, s)"
| "gc_cells (p # ps) (empty_count, temp_t, g) =
    (if free_cell g p then
       bindE (if ref_count g p = 0 then unprotect_bdd p (g\<lparr>free_q := (free_q g)(temp_t := p)\<rparr>)
              else Inr (g\<lparr>free_q := (free_q g)(temp_t := p)\<rparr>)) (\<lambda>g.
         if empty_count - 1 = 0 then Inr (True, empty_count - 1, Suc temp_t mod SSA_BLK, g)
         else gc_cells ps (empty_count - 1, Suc temp_t mod SSA_BLK, g))
     else gc_cells ps (empty_count, temp_t, g))"

lemma gc_blk_cells: "gc_blk n i sp s = gc_cells (map (ssa_at sp) [i..<i + n]) s"
proof (induction n arbitrary: i s)
  case (Suc n)
  obtain e t g where s: "s = (e, t, g)" by (cases s)
  show ?case
    using Suc.IH [of "Suc i"] unfolding s
    by (auto simp: upt_conv_Cons free_cell_def Let_def bindE_def split: sum.splits simp del: upt_Suc)
qed simp

lemma gc_cells_append:
  "gc_cells (xs @ ys) s = bindE (gc_cells xs s) (\<lambda>(exit_gc, s). if exit_gc then Inr (True, s) else gc_cells ys s)"
proof (induction xs arbitrary: s)
  case (Cons p xs)
  obtain e t g where s: "s = (e, t, g)" by (cases s)
  show ?case
    using Cons.IH unfolding s by (auto simp: bindE_def split: sum.splits)
qed simp

lemma gc_list_cells: "gc_list blks s = gc_cells (concat (map blk_cells blks)) s"
proof (induction blks arbitrary: s)
  case (Cons sp blks)
  then show ?case
    by (simp add: gc_blk_cells gc_cells_append blk_cells_def cong: if_cong)
qed simp

text \<open>
  A pass over \<open>ps\<close> with room for \<open>e\<close> objects takes the first \<open>e\<close> free ones in order, and
  unprotects those that had been in use.
\<close>

definition passed :: "nat \<Rightarrow> nat \<Rightarrow> gc_state \<Rightarrow> u64 list \<Rightarrow> nat \<Rightarrow> gc_state \<Rightarrow> bool" where
  "passed h t g taken t' g' \<longleftrightarrow> t' < SSA_BLK \<and>
     (\<exists>q P. g' = g\<lparr>free_q := q, gbdds := (gbdds g)\<lparr>mtbdd_protected := P\<rparr>\<rparr> \<and>
       protect_ok P \<and> protect_bag P = protect_bag (mtbdd_protected (gbdds g)) -
         image_mset bdd_field (mset (filter (\<lambda>p. ref_count g p = 0) taken)) \<and>
       ring SSA_BLK h t' q = ring SSA_BLK h t (free_q g) @ taken)"

definition to_unprotect :: "gc_state \<Rightarrow> u64 list \<Rightarrow> bool" where
  "to_unprotect g ps \<longleftrightarrow> protect_ok (mtbdd_protected (gbdds g)) \<and>
     image_mset bdd_field (mset (filter (\<lambda>p. ref_count g p = 0) ps)) \<subseteq># protect_bag (mtbdd_protected (gbdds g)) \<and>
     (\<forall>p \<in> set ps. ref_count g p = 0 \<longrightarrow> bdd_of g p \<noteq> 0)"

lemma unprotect_bdd_spec:
  assumes "protect_ok (mtbdd_protected (gbdds g))" "bdd_field p \<in># protect_bag (mtbdd_protected (gbdds g))" "bdd_of g p \<noteq> 0"
  obtains P where "unprotect_bdd p g = Inr (g\<lparr>gbdds := (gbdds g)\<lparr>mtbdd_protected := P\<rparr>\<rparr>)" "protect_ok P"
    "protect_bag P = protect_bag (mtbdd_protected (gbdds g)) - {#bdd_field p#}"
  using protect_down_spec [OF assms(1,2)] assms(3) that by (auto simp: unprotect_bdd_def mtbdd_unprotect_def)

text \<open>The step for one free object.\<close>

definition one_taken :: "u64 \<Rightarrow> nat \<Rightarrow> gc_state \<Rightarrow> serror + gc_state" where
  "one_taken p t g =
    (if ref_count g p = 0 then unprotect_bdd p (g\<lparr>free_q := (free_q g)(t := p)\<rparr>)
     else Inr (g\<lparr>free_q := (free_q g)(t := p)\<rparr>))"

lemma one_taken_spec:
  assumes h: "h < SSA_BLK" "t < SSA_BLK" "Suc (length (ring SSA_BLK h t (free_q g))) < SSA_BLK"
    and u: "to_unprotect g (p # ps)"
  obtains g1 where "one_taken p t g = Inr g1" "passed h t g [p] (Suc t mod SSA_BLK) g1" "to_unprotect g1 ps"
proof -
  let ?q = "(free_q g)(t := p)" and ?B = "protect_bag (mtbdd_protected (gbdds g))"
  let ?rest = "image_mset bdd_field (mset (filter (\<lambda>p. ref_count g p = 0) ps))"
  have r: "ring SSA_BLK h (Suc t mod SSA_BLK) ?q = ring SSA_BLK h t (free_q g) @ [p]"
    by (rule ring_snoc [OF h])
  show thesis
  proof (cases "ref_count g p = 0")
    case True
    have B: "add_mset (bdd_field p) ?rest \<subseteq># ?B" using u True by (simp add: to_unprotect_def)
    then have "bdd_field p \<in># ?B" by (meson insert_subset_eq_iff)
    then obtain P where P: "unprotect_bdd p (g\<lparr>free_q := ?q\<rparr>) =
        Inr (g\<lparr>free_q := ?q, gbdds := (gbdds g)\<lparr>mtbdd_protected := P\<rparr>\<rparr>)"
      "protect_ok P" "protect_bag P = ?B - {#bdd_field p#}"
      using unprotect_bdd_spec [of "g\<lparr>free_q := ?q\<rparr>" p thesis] u True by (auto simp: to_unprotect_def bdd_of_def)
    have "?rest \<subseteq># ?B - {#bdd_field p#}" using B by (simp add: insert_subset_eq_iff)
    then show thesis
      using that [of "g\<lparr>free_q := ?q, gbdds := (gbdds g)\<lparr>mtbdd_protected := P\<rparr>\<rparr>"] True P r u
      by (auto simp: one_taken_def passed_def to_unprotect_def bdd_of_def simp del: fun_upd_apply intro!: exI [of _ ?q] exI [of _ P])
  next
    case False
    have "passed h t g [p] (Suc t mod SSA_BLK) (g\<lparr>free_q := ?q\<rparr>)"
      using False r u
      by (auto simp: passed_def to_unprotect_def simp del: fun_upd_apply intro!: exI [of _ ?q] exI [of _ "mtbdd_protected (gbdds g)"])
    then show thesis
      using that [of "g\<lparr>free_q := ?q\<rparr>"] False u by (simp add: one_taken_def to_unprotect_def bdd_of_def)
  qed
qed

lemma passed_sel:
  "passed h t g taken t' g' \<Longrightarrow> ref_count g' = ref_count g \<and> ssa_blk_list g' = ssa_blk_list g \<and> tag_at g' = tag_at g \<and>
   free_h g' = free_h g \<and> free_t g' = free_t g \<and> var_set_ptr g' = var_set_ptr g \<and> gc_lock g' = gc_lock g \<and>
   memory (gbdds g') = memory (gbdds g)"
  by (auto simp: passed_def)

lemma passed_trans:
  "passed h t g xs t1 g1 \<Longrightarrow> passed h t1 g1 ys t' g' \<Longrightarrow> passed h t g (xs @ ys) t' g'"
  unfolding passed_def
  by (elim conjE exE, intro conjI exI) (simp_all add: diff_diff_add)

lemma gc_cells_free:
  "free_cell g p \<Longrightarrow> gc_cells (p # ps) (e, t, g) = bindE (one_taken p t g) (\<lambda>g.
     if e - 1 = 0 then Inr (True, e - 1, Suc t mod SSA_BLK, g) else gc_cells ps (e - 1, Suc t mod SSA_BLK, g))"
  by (simp add: one_taken_def)

lemma gc_cells_spec:
  "h < SSA_BLK \<Longrightarrow> t < SSA_BLK \<Longrightarrow> length (ring SSA_BLK h t (free_q g)) + e < SSA_BLK \<Longrightarrow> 0 < e \<Longrightarrow>
   to_unprotect g ps \<Longrightarrow> fs = filter (free_cell g) ps \<Longrightarrow>
   \<exists>t' g'. gc_cells ps (of_nat e, t, g) = Inr (e \<le> length fs, of_nat (e - length fs), t', g') \<and>
     passed h t g (take e fs) t' g'"
proof (induction ps arbitrary: e t g fs)
  case Nil
  then show ?case
    by (auto simp: passed_def to_unprotect_def intro!: exI [of _ "free_q g"] exI [of _ "mtbdd_protected (gbdds g)"])
next
  case (Cons p ps)
  have e32: "e < 2 ^ 32" using Cons.prems(3) SSA_BLK_pos(3) by linarith
  have e1: "of_nat e - 1 = (of_nat (e - 1) :: u64)" using Cons.prems(4) by (simp add: of_nat_diff)
  have e0: "of_nat (e - 1) = (0 :: u64) \<longleftrightarrow> e = 1"
  proof -
    have "unat (of_nat (e - 1) :: u64) = e - 1" using e32 by (simp only: unat_of_nat) simp
    then show ?thesis using Cons.prems(4) by (auto simp: word_unat_eq_iff simp del: of_nat_diff)
  qed
  show ?case
  proof (cases "free_cell g p")
    case True
    have fs: "fs = p # filter (free_cell g) ps" using Cons.prems(6) True by simp
    have l: "Suc (length (ring SSA_BLK h t (free_q g))) < SSA_BLK" using Cons.prems(3,4) by simp
    obtain g1 where g1: "one_taken p t g = Inr g1" "passed h t g [p] (Suc t mod SSA_BLK) g1" "to_unprotect g1 ps"
      using one_taken_spec [OF Cons.prems(1,2) l Cons.prems(5)] by blast
    have rc: "free_cell g1 = free_cell g" using passed_sel [OF g1(2)] by (simp add: free_cell_def fun_eq_iff)
    have r: "ring SSA_BLK h (Suc t mod SSA_BLK) (free_q g1) = ring SSA_BLK h t (free_q g) @ [p]"
      using g1(2) by (auto simp: passed_def)
    show ?thesis
    proof (cases "e = 1")
      case True
      then show ?thesis using \<open>free_cell g p\<close> g1 fs
        by (auto simp del: gc_cells.simps simp: gc_cells_free)
    next
      case False
      have "\<exists>t' g'. gc_cells ps (of_nat (e - 1), Suc t mod SSA_BLK, g1) =
          Inr (e - 1 \<le> length (filter (free_cell g) ps), of_nat (e - 1 - length (filter (free_cell g) ps)), t', g') \<and>
        passed h (Suc t mod SSA_BLK) g1 (take (e - 1) (filter (free_cell g) ps)) t' g'"
        by (rule Cons.IH) (use Cons.prems False g1(3) r rc in simp_all)
      then obtain t' g' where g': "gc_cells ps (of_nat (e - 1), Suc t mod SSA_BLK, g1) =
          Inr (e - 1 \<le> length (filter (free_cell g) ps), of_nat (e - 1 - length (filter (free_cell g) ps)), t', g')"
        "passed h (Suc t mod SSA_BLK) g1 (take (e - 1) (filter (free_cell g) ps)) t' g'" by blast
      have "take e fs = [p] @ take (e - 1) (filter (free_cell g) ps)" using Cons.prems(4) fs by (cases e) simp_all
      then have "passed h t g (take e fs) t' g'" using passed_trans [OF g1(2) g'(2)] by simp
      moreover have "gc_cells (p # ps) (of_nat e, t, g) = Inr (e \<le> length fs, of_nat (e - length fs), t', g')"
        unfolding gc_cells_free [OF \<open>free_cell g p\<close>] g1(1) bindE_simps e1 e0 g'(1)
        using False Cons.prems(4) fs by auto
      ultimately show ?thesis by blast
    qed
  next
    case False
    have u: "to_unprotect g ps" using Cons.prems(5) False by (auto simp: to_unprotect_def free_cell_def)
    then show ?thesis using Cons.IH [OF Cons.prems(1-4) u refl] Cons.prems(6) False by simp
  qed
qed

end
