(* ===== verification/SsaGcInv.thy ===== *)
theory SsaGcInv
  imports SsaPool
begin

text \<open>
  The invariant of the collected tags and the operations that keep it: the count of an object
  is the number of tags that point to it, an object in the ring is free and appears once, and
  the protected addresses are those of the diagrams that were given out and not yet collected.
  So a tag keeps its diagram through the collections of Sylvan and of the pool.
\<close>

section \<open>The invariant\<close>

text \<open>Objects lie in the address range of user processes, at multiples of 16.\<close>

definition user_cell :: "u64 \<Rightarrow> bool" where
  "user_cell p \<longleftrightarrow> p \<noteq> 0 \<and> unat p < 2 ^ 47 \<and> unat p mod 16 = 0"

text \<open>\<open>X\<close> are the objects that have been taken from the ring and not yet given a tag.\<close>

definition has_bdd :: "u64 set \<Rightarrow> gc_state \<Rightarrow> u64 \<Rightarrow> bool" where
  "has_bdd X g p \<longleftrightarrow> p \<in> set (cells g) \<and> p \<notin> X \<and> p \<notin> set (queued g) \<and> ref_count g p \<noteq> -1"

definition obj_fun :: "gc_state \<Rightarrow> u64 \<Rightarrow> bfun \<Rightarrow> bool" where
  "obj_fun g p f \<longleftrightarrow> bdd (nodes (gbdds g)) 0 (bdd_of g p) f \<and> depends_on f {..<TAG_WIDTH}"

definition pool_shape :: "u64 set \<Rightarrow> gc_state \<Rightarrow> bool" where
  "pool_shape X g \<longleftrightarrow> free_h g < SSA_BLK \<and> free_t g < SSA_BLK \<and> gc_lock g = 0 \<and> distinct (cells g) \<and>
     (\<forall>p \<in> set (cells g). user_cell p \<and> bdd_field p \<noteq> var_set_ptr g) \<and> distinct (queued g) \<and>
     set (queued g) \<subseteq> set (cells g) - X \<and> (\<forall>p \<in> set (queued g). free_cell g p) \<and> X \<subseteq> set (cells g)"

definition protects :: "u64 set \<Rightarrow> gc_state \<Rightarrow> bool" where
  "protects X g \<longleftrightarrow> protect_ok (mtbdd_protected (gbdds g)) \<and> var_set_ptr g \<noteq> 0 \<and> var_set_ptr g \<noteq> refs_ts \<and>
     protect_bag (mtbdd_protected (gbdds g)) =
       add_mset (var_set_ptr g) (image_mset bdd_field (mset (filter (has_bdd X g) (cells g))))"

definition holders :: "gc_state \<Rightarrow> u64 \<Rightarrow> tag_loc set" where
  "holders g p = {l. tag_at g l = p}"

definition count_right :: "gc_state \<Rightarrow> u64 \<Rightarrow> bool" where
  "count_right g p \<longleftrightarrow>
     (if holders g p = {} then free_cell g p else ref_count g p = of_nat (card (holders g p)))"

lemma count_right_cong: "ref_count g' = ref_count g \<Longrightarrow> tag_at g' = tag_at g \<Longrightarrow> count_right g' = count_right g"
  by (simp add: count_right_def holders_def free_cell_def fun_eq_iff)

text \<open>\<open>L\<close> are the locations that can hold a tag; there are fewer than addresses.\<close>

definition counts_ok :: "tag_loc set \<Rightarrow> u64 set \<Rightarrow> gc_state \<Rightarrow> bool" where
  "counts_ok L X g \<longleftrightarrow> finite L \<and> card L < 2 ^ 63 \<and>
     (\<forall>l. tag_at g l \<noteq> 0 \<longrightarrow> l \<in> L \<and> tag_at g l \<in> set (cells g) - X) \<and>
     (\<forall>p \<in> set (cells g) - X. count_right g p)"

definition diagrams_ok :: "u64 set \<Rightarrow> gc_state \<Rightarrow> bool" where
  "diagrams_ok X g \<longleftrightarrow> bdd_ok (gbdds g) \<and> pstack (gbdds g) = [] \<and>
     is_set (nodes (gbdds g)) [0..<TAG_WIDTH] (memory (gbdds g) (var_set_ptr g)) \<and>
     (\<forall>p. has_bdd X g p \<longrightarrow> bdd_of g p \<noteq> 0 \<and> (\<exists>f. obj_fun g p f))"

definition pool_ok :: "tag_loc set \<Rightarrow> u64 set \<Rightarrow> gc_state \<Rightarrow> bool" where
  "pool_ok L X g \<longleftrightarrow> pool_shape X g \<and> protects X g \<and> counts_ok L X g \<and> diagrams_ok X g"

lemma bdd_field_eq [simp]: "bdd_field p = bdd_field p' \<longleftrightarrow> p = p'"
  by (simp add: bdd_field_def)

lemma bdd_field_ok: "user_cell p \<Longrightarrow> bdd_field p \<noteq> 0 \<and> bdd_field p \<noteq> refs_ts"
proof -
  assume "user_cell p"
  then have p: "unat p < 2 ^ 47" by (simp add: user_cell_def)
  then have "unat (bdd_field p) = unat p + 8" by (simp add: bdd_field_def unat_word_ariths)
  then show ?thesis using p by (auto simp: refs_ts_def)
qed

lemma user_cells_few: "distinct ps \<Longrightarrow> \<forall>p \<in> set ps. user_cell p \<Longrightarrow> length ps \<le> 2 ^ 43"
proof -
  assume d: "distinct ps" and u: "\<forall>p \<in> set ps. user_cell p"
  have "length ps = card (set ps)" by (simp add: distinct_card [OF d])
  also have "\<dots> \<le> card ((\<lambda>k. of_nat (16 * k) :: u64) ` {..<2 ^ 43})"
  proof (rule card_mono, simp, rule subsetI)
    fix p assume "p \<in> set ps"
    then have p: "unat p < 2 ^ 47" "unat p mod 16 = 0" using u by (auto simp: user_cell_def)
    then have "unat p div 16 < 2 ^ 43" by simp
    moreover have "p = of_nat (16 * (unat p div 16))" using p(2) by (simp add: mult_div_mod_eq minus_mod_eq_mult_div [symmetric])
    ultimately show "p \<in> (\<lambda>k. of_nat (16 * k)) ` {..<2 ^ 43}" by blast
  qed
  also have "\<dots> \<le> 2 ^ 43" using card_image_le [of "{..<2 ^ 43 :: nat}"] by simp
  finally show ?thesis .
qed

lemma protects_few:
  assumes "pool_shape X g" "protects X g"
  shows "size (protect_bag (mtbdd_protected (gbdds g))) < 2 ^ 44"
proof -
  have "length (filter (has_bdd X g) (cells g)) \<le> length (cells g)" by simp
  moreover have "length (cells g) \<le> 2 ^ 43" by (rule user_cells_few) (use assms(1) in \<open>auto simp: pool_shape_def\<close>)
  ultimately show ?thesis using assms(2) by (simp add: protects_def del: mset_filter length_filter_le)
qed

text \<open>What the parts of the invariant do not read.\<close>

lemma cells_cong: "ssa_blk_list g' = ssa_blk_list g \<Longrightarrow> cells g' = cells g"
  by (simp add: cells_def)

lemma has_bdd_root: "protects X g \<Longrightarrow> has_bdd X g p \<Longrightarrow> bdd_of g p \<in> roots (gbdds g)"
  by (auto simp: protects_def has_bdd_def roots_def protect_set bdd_of_def)

lemma var_set_root: "protects X g \<Longrightarrow> memory (gbdds g) (var_set_ptr g) \<in> roots (gbdds g)"
  by (auto simp: protects_def roots_def protect_set)

lemma root_safe: "x \<in> roots st \<Longrightarrow> bdd (nodes st) v x f \<Longrightarrow> safe st x"
  by (auto simp: safe_def bdd_dd_word intro: reach_root)

section \<open>Steps of Sylvan\<close>

text \<open>Writing memory that is not a root, and changing what is protected.\<close>

lemma bdd_ok_roots:
  assumes ok: "bdd_ok st" and n: "nodes st' = nodes st" "ocache st' = ocache st"
    and r: "\<forall>x \<in> roots st'. x \<in> roots st \<or> valid st x"
  shows "bdd_ok st'"
  using ok r unfolding bdd_ok_def state_ok_def n valid_def by blast

lemma pool_bdd_step:
  assumes ok: "pool_ok L X g" and st: "bdd_ok st" and k: "keep (gbdds g) st"
  shows "pool_ok L X (g\<lparr>gbdds := st\<rparr>)"
    and "has_bdd X g p \<Longrightarrow> obj_fun g p f \<Longrightarrow> obj_fun (g\<lparr>gbdds := st\<rparr>) p f"
    and "bdd_of (g\<lparr>gbdds := st\<rparr>) = bdd_of g" "has_bdd X (g\<lparr>gbdds := st\<rparr>) = has_bdd X g"
proof -
  let ?g = "g\<lparr>gbdds := st\<rparr>"
  have sel: "memory st = memory (gbdds g)" "mtbdd_protected st = mtbdd_protected (gbdds g)" "pstack st = pstack (gbdds g)"
    using k same_but_tables_sel [of "gbdds g" st] by (auto simp: keep_def)
  have c: "cells ?g = cells g" "holders ?g = holders g" "free_cell ?g = free_cell g"
    by (simp_all add: cells_def holders_def free_cell_def fun_eq_iff)
  show b: "bdd_of ?g = bdd_of g" by (simp add: bdd_of_def sel fun_eq_iff)
  show h: "has_bdd X ?g = has_bdd X g" by (simp add: has_bdd_def c fun_eq_iff)
  have pr: "protects X g" and dg: "diagrams_ok X g" using ok by (simp_all add: pool_ok_def)
  show o: "obj_fun ?g p f" if hp: "has_bdd X g p" and f: "obj_fun g p f" for p f
  proof -
    have bd: "bdd (nodes (gbdds g)) 0 (bdd_of g p) f" using f by (simp add: obj_fun_def)
    have "safe (gbdds g) (bdd_of g p)" by (rule root_safe [OF has_bdd_root [OF pr hp] bd])
    then show ?thesis using keep_bdd [OF k _ bd] f by (simp add: obj_fun_def b)
  qed
  have vs: "bdd (nodes (gbdds g)) 0 (memory (gbdds g) (var_set_ptr g)) (cube_fun (set [0..<TAG_WIDTH]))"
    using dg by (simp add: diagrams_ok_def is_set_def)
  then have v: "is_set (nodes st) [0..<TAG_WIDTH] (memory st (var_set_ptr g))"
    using keep_bdd [OF k root_safe [OF var_set_root [OF pr] vs] vs] dg by (simp add: is_set_def diagrams_ok_def sel)
  show "pool_ok L X ?g"
    unfolding pool_ok_def
  proof (intro conjI)
    show "pool_shape X ?g" "protects X ?g" "counts_ok L X ?g"
      using ok by (simp_all add: pool_ok_def pool_shape_def protects_def counts_ok_def count_right_def c h sel)
    have "\<exists>f. obj_fun ?g p f" if "has_bdd X g p" for p using dg o that unfolding diagrams_ok_def by blast
    then show "diagrams_ok X ?g" using dg st v by (simp add: diagrams_ok_def h b sel)
  qed
qed

section \<open>Objects in use\<close>

lemma held_object:
  assumes ok: "pool_ok L X g" and l: "tag_at g l \<noteq> 0"
  shows "has_bdd X g (tag_at g l)" "\<not> free_cell g (tag_at g l)" "tag_at g l \<notin> set (queued g)"
    "tag_at g l \<in> set (cells g) - X" "l \<in> L"
proof -
  let ?p = "tag_at g l"
  have c: "finite L" "card L < 2 ^ 63" "\<forall>l. tag_at g l \<noteq> 0 \<longrightarrow> l \<in> L \<and> tag_at g l \<in> set (cells g) - X"
    "\<forall>p \<in> set (cells g) - X. count_right g p"
    using ok by (simp_all add: pool_ok_def counts_ok_def)
  show p: "?p \<in> set (cells g) - X" "l \<in> L" using c(3) l by blast+
  have h: "l \<in> holders g ?p" "holders g ?p \<subseteq> L" using c(3) l by (auto simp: holders_def)
  then have fin: "finite (holders g ?p)" "card (holders g ?p) \<le> card L"
    using c(1) by (auto intro: finite_subset card_mono)
  have pos: "0 < card (holders g ?p)" using fin(1) h(1) by (auto simp: card_gt_0_iff)
  have rc: "ref_count g ?p = of_nat (card (holders g ?p))" using c(4) p(1) h(1) unfolding count_right_def by (metis empty_iff)
  have small: "card (holders g ?p) < 2 ^ 63" using fin(2) c(2) by simp
  then have "unat (ref_count g ?p) = card (holders g ?p)" by (simp add: rc unat_of_nat)
  then have u: "unat (ref_count g ?p) \<noteq> 0" "unat (ref_count g ?p) \<noteq> 2 ^ 64 - 1" using pos small by auto
  have m: "unat (- 1 :: u64) = 2 ^ 64 - 1" by (simp add: unsigned_minus_1_eq_mask mask_eq_exp_minus_1)
  show f: "\<not> free_cell g ?p" using u m by (auto simp: free_cell_def)
  then show q: "?p \<notin> set (queued g)" using ok by (auto simp: pool_ok_def pool_shape_def)
  have "ref_count g ?p \<noteq> -1" using f by (simp add: free_cell_def)
  then show "has_bdd X g ?p" using p(1) q by (simp add: has_bdd_def)
qed

definition keeps_tags :: "gc_state \<Rightarrow> gc_state \<Rightarrow> bool" where
  "keeps_tags g g' \<longleftrightarrow> tag_at g' = tag_at g \<and> var_set_ptr g' = var_set_ptr g \<and>
     (\<forall>l. tag_at g l \<noteq> 0 \<longrightarrow> bdd_of g' (tag_at g l) = bdd_of g (tag_at g l) \<and>
       (\<forall>f. obj_fun g (tag_at g l) f \<longrightarrow> obj_fun g' (tag_at g l) f))"

lemma keeps_tags_refl: "keeps_tags g g"
  by (simp add: keeps_tags_def)

lemma keeps_tags_trans: "keeps_tags g h \<Longrightarrow> keeps_tags h k \<Longrightarrow> keeps_tags g k"
  unfolding keeps_tags_def by simp

lemma keeps_bdd_step:
  "pool_ok L X g \<Longrightarrow> bdd_ok st \<Longrightarrow> keep (gbdds g) st \<Longrightarrow> keeps_tags g (g\<lparr>gbdds := st\<rparr>)"
  using pool_bdd_step held_object(1) by (simp add: keeps_tags_def)

section \<open>A new block\<close>

definition fresh_blk :: "gc_state \<Rightarrow> u64 \<Rightarrow> bool" where
  "fresh_blk g sp \<longleftrightarrow> (\<forall>p \<in> set (blk_cells sp). user_cell p \<and> p \<notin> set (cells g) \<and> bdd_field p \<noteq> var_set_ptr g)"

lemma blk_cells_distinct: "distinct (blk_cells sp)"
proof -
  have "inj_on (ssa_at sp) {0..<SSA_BLK}"
  proof (rule inj_onI)
    fix i j assume ij: "i \<in> {0..<SSA_BLK}" "j \<in> {0..<SSA_BLK}" and e: "ssa_at sp i = ssa_at sp j"
    have "(of_nat (16 * i) :: u64) = of_nat (16 * j)" using e by (simp add: ssa_at_def)
    then have "unat (of_nat (16 * i) :: u64) = unat (of_nat (16 * j) :: u64)" by (rule arg_cong)
    then have "(16 * i) mod 2 ^ 64 = (16 * j) mod 2 ^ 64" by (simp only: unat_of_nat) simp
    then show "i = j" using ij by (simp add: SSA_BLK_def)
  qed
  then show ?thesis by (simp add: blk_cells_def distinct_map)
qed

definition grown :: "gc_state \<Rightarrow> u64 \<Rightarrow> nat \<Rightarrow> (nat \<Rightarrow> u64) \<Rightarrow> gc_state" where
  "grown g sp t q = g\<lparr>ref_count := (\<lambda>p. if p \<in> set (blk_cells sp) then -1 else ref_count g p),
     gbdds := (gbdds g)\<lparr>memory := (\<lambda>a. if a \<in> bdd_field ` set (blk_cells sp) then -1 else memory (gbdds g) a)\<rparr>,
     ssa_blk_list := ssa_blk_list g @ [sp], free_q := q, free_t := t\<rparr>"

lemma add_ssa_blk_spec:
  assumes h: "free_h g < SSA_BLK" "free_t g < SSA_BLK" and sp: "sp = malloc (ssa_blk_list g)"
  obtains t q where "add_ssa_blk malloc g = grown g sp t q" "t < SSA_BLK"
    "ring SSA_BLK (free_h g) t q = queued g @ take (ring_room g) (blk_cells sp)"
proof -
  have room: "length (queued g) + ring_room g = SSA_BLK - 1" using ring_room_eq [OF h] by simp
  then have less: "length (queued g) + ring_room g < SSA_BLK" using SSA_BLK_pos(1) by linarith
  obtain t q where f: "fill_ring (ring_room g) 0 sp (free_t g) (free_q g) = (t, q)" "t < SSA_BLK"
    "ring SSA_BLK (free_h g) t q = queued g @ map (ssa_at sp) [0..<0 + ring_room g]"
    using fill_ring_spec [OF h less] by blast
  have "map (ssa_at sp) [0..<ring_room g] = take (ring_room g) (blk_cells sp)"
    using room less by (simp add: blk_cells_def take_map)
  then show thesis
    using that [of t q] f by (simp add: add_ssa_blk_def grown_def sp Let_def ring_room_def)
qed

lemma add_blk_ok:
  assumes ok: "pool_ok L X g" and sp: "fresh_blk g (malloc (ssa_blk_list g))"
  shows "pool_ok L X (add_ssa_blk malloc g)" "keeps_tags g (add_ssa_blk malloc g)"
    "length (queued (add_ssa_blk malloc g)) = SSA_BLK - 1"
proof -
  define s where "s = malloc (ssa_blk_list g)"
  note shape = ok [unfolded pool_ok_def, THEN conjunct1, unfolded pool_shape_def]
  have ht: "free_h g < SSA_BLK" "free_t g < SSA_BLK" using shape by simp_all
  obtain t q where a: "add_ssa_blk malloc g = grown g s t q" "t < SSA_BLK"
    and r: "ring SSA_BLK (free_h g) t q = queued g @ take (ring_room g) (blk_cells s)"
    using add_ssa_blk_spec [where malloc = malloc, OF ht s_def] by blast
  let ?g = "grown g s t q" and ?new = "take (ring_room g) (blk_cells s)"
  have fr: "user_cell p \<and> p \<notin> set (cells g) \<and> bdd_field p \<noteq> var_set_ptr g" if "p \<in> set (blk_cells s)" for p
    using that sp by (simp add: fresh_blk_def s_def)
  have c: "cells ?g = cells g @ blk_cells s" by (simp add: cells_def grown_def)
  have qd: "queued ?g = queued g @ ?new" using r by (simp add: grown_def)
  have new: "set ?new \<subseteq> set (blk_cells s)" by (rule set_take_subset)
  have rc: "ref_count ?g p = (if p \<in> set (blk_cells s) then -1 else ref_count g p)" for p by (simp add: grown_def)
  have hb: "has_bdd X ?g = has_bdd X g"
    using new fr by (auto simp: has_bdd_def c qd rc fun_eq_iff)
  have hbc: "filter (has_bdd X ?g) (cells ?g) = filter (has_bdd X g) (cells g)"
  proof -
    have "filter (has_bdd X g) (blk_cells s) = []" using fr by (auto simp: filter_empty_conv has_bdd_def)
    then show ?thesis by (simp add: c hb)
  qed
  have mem: "memory (gbdds ?g) a = memory (gbdds g) a" if "a \<notin> bdd_field ` set (blk_cells s)" for a
    using that by (simp add: grown_def)
  have old: "bdd_of ?g p = bdd_of g p" if "p \<in> set (cells g)" for p
    using that fr by (auto simp: bdd_of_def intro!: mem)
  have vs: "memory (gbdds ?g) (var_set_ptr g) = memory (gbdds g) (var_set_ptr g)" by (rule mem) (metis fr imageE)
  have of: "obj_fun ?g p f \<longleftrightarrow> obj_fun g p f" if "p \<in> set (cells g)" for p f
    using old [OF that] by (simp add: obj_fun_def grown_def)
  have pr: "protects X g" and dg: "diagrams_ok X g" and cn: "counts_ok L X g" using ok by (simp_all add: pool_ok_def)
  have prot: "mtbdd_protected (gbdds ?g) = mtbdd_protected (gbdds g)" "var_set_ptr ?g = var_set_ptr g" by (simp_all add: grown_def)
  have "set (protect_list (mtbdd_protected (gbdds g))) = insert (var_set_ptr g) (bdd_field ` {p \<in> set (cells g). has_bdd X g p})"
    using pr by (auto simp: protects_def protect_set)
  then have "bdd_field p \<notin> set (protect_list (mtbdd_protected (gbdds g)))" if "p \<in> set (blk_cells s)" for p
    using fr [OF that] by auto
  then have "memory (gbdds ?g) a = memory (gbdds g) a" if "a \<in> set (protect_list (mtbdd_protected (gbdds g)))" for a
    by (intro mem) (use that in blast)
  moreover have st: "rstack (gbdds ?g) = rstack (gbdds g)" "pstack (gbdds ?g) = pstack (gbdds g)" "mtbdd_refs (gbdds ?g) = mtbdd_refs (gbdds g)"
    "nodes (gbdds ?g) = nodes (gbdds g)" "ocache (gbdds ?g) = ocache (gbdds g)" by (simp_all add: grown_def)
  ultimately have rts: "roots (gbdds ?g) = roots (gbdds g)"
    using dg by (simp add: roots_def prot diagrams_ok_def)
  have bok: "bdd_ok (gbdds ?g)"
    by (rule bdd_ok_roots [of "gbdds g"]) (use dg in \<open>simp_all only: st rts diagrams_ok_def, blast\<close>)
  have shp: "pool_shape X ?g"
    unfolding pool_shape_def c qd
  proof (intro conjI)
    show "free_h ?g < SSA_BLK" "free_t ?g < SSA_BLK" "gc_lock ?g = 0" using shape a(2) by (simp_all add: grown_def)
    show "distinct (cells g @ blk_cells s)" using shape fr blk_cells_distinct [of s] by auto
    show "distinct (queued g @ ?new)" using shape fr new blk_cells_distinct [of s] by auto
    show "\<forall>p \<in> set (cells g @ blk_cells s). user_cell p \<and> bdd_field p \<noteq> var_set_ptr ?g" using shape fr prot by auto
    show "set (queued g @ ?new) \<subseteq> set (cells g @ blk_cells s) - X"
      using shape new fr unfolding set_append by blast
    show "\<forall>p \<in> set (queued g @ ?new). free_cell ?g p"
      unfolding free_cell_def rc using shape new by (auto simp: free_cell_def)
    show "X \<subseteq> set (cells g @ blk_cells s)" using shape by auto
  qed
  have cnt: "counts_ok L X ?g"
  proof -
    have hold: "holders ?g = holders g" by (simp add: holders_def grown_def fun_eq_iff)
    have "holders g p = {}" if "p \<in> set (blk_cells s)" for p
      using that fr cn by (auto simp: holders_def counts_ok_def user_cell_def)
    then have "count_right ?g p" if "p \<in> set (blk_cells s)" for p
      using that by (simp add: count_right_def hold free_cell_def rc)
    moreover have "count_right ?g p = count_right g p" if "p \<in> set (cells g)" for p
      using that fr by (auto simp: count_right_def hold free_cell_def rc)
    ultimately show ?thesis using cn fr unfolding counts_ok_def c by (auto simp: grown_def)
  qed
  have "pool_ok L X ?g"
    unfolding pool_ok_def
  proof (intro conjI shp cnt)
    show "protects X ?g" using pr unfolding protects_def hbc prot .
    show "diagrams_ok X ?g"
      using dg bok vs old of hb by (auto simp: diagrams_ok_def prot has_bdd_def) (auto simp: grown_def)
  qed
  then show "pool_ok L X (add_ssa_blk malloc g)" by (simp add: a)
  have "tag_at g l \<in> set (cells g)" if "tag_at g l \<noteq> 0" for l using held_object(4) [OF ok that] by simp
  then show "keeps_tags g (add_ssa_blk malloc g)"
    unfolding a keeps_tags_def using old of by (simp add: prot) (simp add: grown_def)
  have "length (queued g) + ring_room g = SSA_BLK - 1" using ring_room_eq [OF ht] by simp
  then show "length (queued (add_ssa_blk malloc g)) = SSA_BLK - 1"
    unfolding a qd by (simp add: blk_cells_def)
qed

section \<open>A collection\<close>

lemma filter_sub: "(\<And>x. x \<in> set xs \<Longrightarrow> P x \<Longrightarrow> Q x) \<Longrightarrow> mset (filter P xs) \<subseteq># mset (filter Q xs)"
proof -
  assume "\<And>x. x \<in> set xs \<Longrightarrow> P x \<Longrightarrow> Q x"
  then have "filter P xs = filter P (filter Q xs)" by (auto intro: filter_cong)
  then show ?thesis by (metis mset_filter multiset_filter_subset)
qed

lemma collect_to_unprotect:
  assumes ok: "pool_ok L {} g" and q: "queued g = []"
  shows "to_unprotect (g\<lparr>gc_lock := n\<rparr>) (cells g)"
proof -
  have hb: "has_bdd {} g p" if "p \<in> set (cells g)" "ref_count g p = 0" for p using that q by (simp add: has_bdd_def)
  have "mset (filter (\<lambda>p. ref_count g p = 0) (cells g)) \<subseteq># mset (filter (has_bdd {} g) (cells g))"
    by (rule filter_sub) (rule hb)
  then have "image_mset bdd_field (mset (filter (\<lambda>p. ref_count g p = 0) (cells g))) \<subseteq>#
      image_mset bdd_field (mset (filter (has_bdd {} g) (cells g)))" by (rule image_mset_subseteq_mono)
  also have "\<dots> \<subseteq># protect_bag (mtbdd_protected (gbdds g))"
    using ok by (simp add: pool_ok_def protects_def)
  finally show ?thesis
    using ok hb by (simp add: to_unprotect_def pool_ok_def protects_def diagrams_ok_def bdd_of_def)
qed

lemma ssa_collect_ok:
  assumes ok: "pool_ok L {} g" and q0: "queued g = []" and sub: "\<exists>e. taken = take e (filter (free_cell g) (cells g))"
    and t: "t < SSA_BLK" and P: "protect_ok P"
    and bag: "protect_bag P = protect_bag (mtbdd_protected (gbdds g)) -
      image_mset bdd_field (mset (filter (\<lambda>p. ref_count g p = 0) taken))"
    and r: "ring SSA_BLK (free_h g) t q = taken"
  defines "g' \<equiv> g\<lparr>free_q := q, free_t := t, gbdds := (gbdds g)\<lparr>mtbdd_protected := P\<rparr>\<rparr>"
  shows "pool_ok L {} g'" "keeps_tags g g'" "queued g' = taken"
proof -
  have pr: "protects {} g" and dg: "diagrams_ok {} g" and shape: "pool_shape {} g" and cn: "counts_ok L {} g"
    using ok by (simp_all add: pool_ok_def)
  show qd: "queued g' = taken" using r by (simp add: g'_def)
  have c: "cells g' = cells g" by (simp add: cells_def g'_def)
  have sel: "ref_count g' = ref_count g" "tag_at g' = tag_at g" "bdd_of g' = bdd_of g" "obj_fun g' = obj_fun g"
    "var_set_ptr g' = var_set_ptr g"
    by (simp_all add: g'_def bdd_of_def obj_fun_def fun_eq_iff)
  have d: "distinct (cells g)" using shape by (simp add: pool_shape_def)
  have tk: "set taken \<subseteq> set (cells g)" "\<forall>p \<in> set taken. free_cell g p" "distinct taken"
    using sub d set_take_subset [of _ "filter (free_cell g) (cells g)"] by auto
  have hb0: "has_bdd {} g p \<longleftrightarrow> p \<in> set (cells g) \<and> ref_count g p \<noteq> -1" for p using q0 by (simp add: has_bdd_def)
  have hb: "has_bdd {} g' p \<longleftrightarrow> has_bdd {} g p \<and> p \<notin> set taken" for p
    by (auto simp: hb0) (auto simp: has_bdd_def qd c sel)
  let ?A = "mset (filter (\<lambda>p. ref_count g p = 0) taken)" and ?B = "mset (filter (has_bdd {} g') (cells g))"
  have "?A = mset (filter (\<lambda>p. p \<in> set taken) (filter (has_bdd {} g) (cells g)))"
    by (rule set_eq_iff_mset_eq_distinct [THEN iffD1]) (use tk d in \<open>auto simp: hb0 free_cell_def\<close>)
  moreover have "mset (filter (has_bdd {} g) (cells g)) =
      mset (filter (\<lambda>p. p \<in> set taken) (filter (has_bdd {} g) (cells g))) +
      mset (filter (\<lambda>p. p \<notin> set taken) (filter (has_bdd {} g) (cells g)))"
    unfolding mset_filter by (rule multiset_partition)
  moreover have "filter (\<lambda>p. p \<notin> set taken) (filter (has_bdd {} g) (cells g)) = filter (has_bdd {} g') (cells g)"
    by (auto simp: hb intro: filter_cong)
  ultimately have "mset (filter (has_bdd {} g) (cells g)) = ?A + ?B" by (simp only:)
  then have "protect_bag (mtbdd_protected (gbdds g)) = image_mset bdd_field ?A + add_mset (var_set_ptr g) (image_mset bdd_field ?B)"
    using pr by (simp only: protects_def image_mset_union union_mset_add_mset_right simp_thms)
  then have "protect_bag P = add_mset (var_set_ptr g) (image_mset bdd_field ?B)"
    unfolding bag by (simp only: add_diff_cancel_left')
  then have pr': "protects {} g'" using pr P by (simp add: protects_def c sel) (simp add: g'_def)
  have "set_mset (protect_bag P) \<subseteq> set_mset (protect_bag (mtbdd_protected (gbdds g)))"
    unfolding bag by (meson in_diffD subsetI)
  then have "roots (gbdds g') \<subseteq> roots (gbdds g)"
    by (auto simp: roots_def protect_set g'_def)
  moreover have st: "nodes (gbdds g') = nodes (gbdds g)" "ocache (gbdds g') = ocache (gbdds g)" by (simp_all add: g'_def)
  ultimately have bok: "bdd_ok (gbdds g')"
    using dg by (intro bdd_ok_roots [of "gbdds g" "gbdds g'"]) (unfold diagrams_ok_def, blast+)
  have dg': "diagrams_ok {} g'"
    using dg bok hb by (auto simp: diagrams_ok_def sel) (auto simp: g'_def)
  have shape': "pool_shape {} g'"
    using shape t tk unfolding pool_shape_def qd c sel by (auto simp: g'_def free_cell_def)
  have cn': "counts_ok L {} g'"
    using cn count_right_cong [OF sel(1,2)] by (simp add: counts_ok_def c sel)
  show "pool_ok L {} g'" unfolding pool_ok_def by (intro conjI shape' pr' cn' dg')
  show "keeps_tags g g'" by (simp add: keeps_tags_def sel)
qed

text \<open>
  A collection when the ring is empty: afterwards the ring holds the first free objects, or all
  of them and those of a new block, and is not empty.
\<close>

lemma ssa_gc_spec:
  assumes ok: "pool_ok L {} g" and q0: "queued g = []" and sp: "fresh_blk g (malloc (ssa_blk_list g))"
  shows "\<exists>g'. ssa_gc malloc (g\<lparr>gc_lock := n\<rparr>) = Inr g' \<and> pool_ok L {} g' \<and> keeps_tags g g' \<and> queued g' \<noteq> [] \<and>
    free_h g' = free_h g \<and> nodes (gbdds g') = nodes (gbdds g) \<and> (queued g' = take (SSA_BLK - 1) (filter (free_cell g) (cells g)) \<and> ssa_blk_list g' = ssa_blk_list g \<or>
      length (queued g') = SSA_BLK - 1 \<and> ssa_blk_list g' = ssa_blk_list g @ [malloc (ssa_blk_list g)] \<and>
      length (filter (free_cell g) (cells g)) < SSA_BLK div 2)"
proof -
  let ?g = "g\<lparr>gc_lock := n\<rparr>" and ?fs = "filter (free_cell g) (cells g)" and ?e = "SSA_BLK - 1"
  have shape: "free_h g < SSA_BLK" "free_t g < SSA_BLK" "gc_lock g = 0" using ok by (simp_all add: pool_ok_def pool_shape_def)
  have "ring_room ?g = ring_room g" by (simp add: ring_room_def)
  then have room: "ring_room ?g = ?e" using ring_room_eq [OF shape(1,2)] q0 by simp
  have fc: "free_cell ?g = free_cell g" by (simp add: free_cell_def fun_eq_iff)
  obtain t' g1 where r: "gc_cells (cells g) (of_nat ?e, free_t g, ?g) = Inr (?e \<le> length ?fs, of_nat (?e - length ?fs), t', g1)"
    and ps: "passed (free_h g) (free_t g) ?g (take ?e ?fs) t' g1"
    using gc_cells_spec [of "free_h g" "free_t g" ?g ?e "cells g" ?fs] shape collect_to_unprotect [OF ok q0] q0 fc
      SSA_BLK_pos(1,2) by auto
  then obtain q P where g1: "t' < SSA_BLK" "g1 = ?g\<lparr>free_q := q, gbdds := (gbdds g)\<lparr>mtbdd_protected := P\<rparr>\<rparr>" "protect_ok P"
    "protect_bag P = protect_bag (mtbdd_protected (gbdds g)) -
       image_mset bdd_field (mset (filter (\<lambda>p. ref_count g p = 0) (take ?e ?fs)))"
    "ring SSA_BLK (free_h g) t' q = take ?e ?fs"
    using q0 by (auto simp: passed_def)
  define g2 where "g2 = g\<lparr>free_q := q, free_t := t', gbdds := (gbdds g)\<lparr>mtbdd_protected := P\<rparr>\<rparr>"
  have g2: "pool_ok L {} g2" "keeps_tags g g2" "queued g2 = take ?e ?fs"
    unfolding g2_def by (rule ssa_collect_ok [OF ok q0 _ g1(1,3-5)], blast)+
  define full where "full \<longleftrightarrow> \<not> ?e \<le> length ?fs \<and> (of_nat (?e - length ?fs) :: u64) > of_nat SSA_BLK div 2"
  have lock: "g2\<lparr>gc_lock := 0\<rparr> = g2" using shape(3) by (simp add: g2_def)
  have add: "(add_ssa_blk malloc (g2\<lparr>gc_lock := n\<rparr>))\<lparr>gc_lock := 0\<rparr> = (add_ssa_blk malloc g2)\<lparr>gc_lock := 0\<rparr>"
    by (simp add: add_ssa_blk_def ring_room_def Let_def split_def cong: if_cong)
  have "add_ssa_blk malloc g2\<lparr>gc_lock := 0\<rparr> = add_ssa_blk malloc g2"
    using shape(3) by (simp add: add_ssa_blk_def g2_def Let_def split_def)
  then have add': "(add_ssa_blk malloc (g2\<lparr>gc_lock := n\<rparr>))\<lparr>gc_lock := 0\<rparr> = add_ssa_blk malloc g2" using add by simp
  have cs: "concat (map blk_cells (ssa_blk_list ?g)) = cells g" "free_t ?g = free_t g" by (simp_all add: cells_def)
  have "g1\<lparr>free_t := t'\<rparr> = g2\<lparr>gc_lock := n\<rparr>" "g2\<lparr>gc_lock := n\<rparr>\<lparr>gc_lock := 0\<rparr> = g2" using shape(3) by (simp_all add: g1(2) g2_def)
  then have res: "ssa_gc malloc ?g = Inr (if full then add_ssa_blk malloc g2 else g2)"
    unfolding ssa_gc_def gc_list_cells room cs r bindE_simps split full_def [symmetric] Let_def using add' by simp
  have full_iff: "full \<longleftrightarrow> length ?fs < SSA_BLK div 2 - 1"
    unfolding full_def by (auto simp: word_less_nat_alt unat_of_nat SSA_BLK_def)
  show ?thesis
  proof (cases full)
    case True
    have sp2: "fresh_blk g2 (malloc (ssa_blk_list g2))" using sp by (simp add: fresh_blk_def cells_def g2_def)
    note ab = add_blk_ok [where malloc = malloc, OF g2(1) sp2]
    have "free_h (add_ssa_blk malloc g2) = free_h g \<and> nodes (gbdds (add_ssa_blk malloc g2)) = nodes (gbdds g) \<and> ssa_blk_list (add_ssa_blk malloc g2) = ssa_blk_list g @ [malloc (ssa_blk_list g)]"
      by (simp add: add_ssa_blk_def Let_def split_def g2_def)
    then show ?thesis using res True ab keeps_tags_trans [OF g2(2)] full_iff
      by (auto simp: SSA_BLK_def dest: arg_cong [of _ _ length])
  next
    case False
    then have "?fs \<noteq> []" using full_iff by (auto simp: SSA_BLK_def)
    then have "take ?e ?fs \<noteq> []" by (simp add: SSA_BLK_def)
    then show ?thesis using res False g2 by (simp add: g2_def)
  qed
qed

text \<open>Waiting ends, and the object that is taken is free and in no tag.\<close>

lemma take_ssa_spec:
  assumes ok: "pool_ok L {} g" and sp: "fresh_blk g (malloc (ssa_blk_list g))"
  obtains p g' where "take_ssa malloc g = Inr (p, g')" "pool_ok L {p} g'" "keeps_tags g g'" "nodes (gbdds g') = nodes (gbdds g)"
proof -
  have shape: "free_h g < SSA_BLK" "free_t g < SSA_BLK" "gc_lock g = 0" using ok by (simp_all add: pool_ok_def pool_shape_def)
  obtain g1 where g1: "wait_free 2 malloc (free_h g) g = Inr g1" "pool_ok L {} g1" "keeps_tags g g1" "queued g1 \<noteq> []"
    "free_h g1 = free_h g" "nodes (gbdds g1) = nodes (gbdds g)"
  proof (cases "free_h g = free_t g")
    case True
    then have "queued g = []" by simp
    from ssa_gc_spec [where malloc = malloc and n = 1, OF ok this sp] obtain g1 where g1: "ssa_gc malloc (g\<lparr>gc_lock := 1\<rparr>) = Inr g1"
      "pool_ok L {} g1" "keeps_tags g g1" "queued g1 \<noteq> []" "free_h g1 = free_h g" "nodes (gbdds g1) = nodes (gbdds g)" by blast
    then have "free_h g \<noteq> free_t g1" by auto
    then have "wait_free 2 malloc (free_h g) g = Inr g1" using True g1(1) shape(3) by (simp add: numeral_2_eq_2)
    then show thesis using that g1 by blast
  next
    case False
    then have "wait_free 2 malloc (free_h g) g = Inr g" by (simp add: numeral_2_eq_2)
    then show thesis using that ok False ring_Nil [OF shape(1,2)] keeps_tags_refl by blast
  qed
  note s1 = g1(2) [unfolded pool_ok_def pool_shape_def]
  let ?h = "free_h g1"
  define p where "p = free_q g1 ?h"
  define g2 where "g2 = g1\<lparr>free_h := Suc ?h mod SSA_BLK\<rparr>"
  have ne: "?h \<noteq> free_t g1" using g1(4) by auto
  have q: "queued g1 = p # queued g2" using ring_Cons [OF _ _ ne] s1 by (simp add: p_def g2_def)
  have c: "cells g2 = cells g1" "free_cell g2 = free_cell g1" "holders g2 = holders g1" "bdd_of g2 = bdd_of g1"
    "obj_fun g2 = obj_fun g1"
    by (simp_all add: g2_def cells_def free_cell_def holders_def bdd_of_def obj_fun_def fun_eq_iff)
  have pq: "p \<in> set (cells g1)" "free_cell g1 p" "p \<notin> set (queued g2)" using s1 unfolding q by auto
  have hb: "has_bdd {p} g2 = has_bdd {} g1" using q by (auto simp: has_bdd_def c fun_eq_iff) (simp_all add: g2_def)
  have "\<forall>l. tag_at g1 l \<noteq> 0 \<longrightarrow> tag_at g1 l \<noteq> p" using held_object(2) [OF g1(2)] pq(2) by blast
  then have "pool_ok L {p} g2"
    unfolding pool_ok_def
  proof (intro conjI)
    show "pool_shape {p} g2" using s1 pq unfolding pool_shape_def c q by (auto simp: g2_def)
    show "protects {p} g2" using g1(2) unfolding pool_ok_def protects_def hb c by (simp add: g2_def)
    show "diagrams_ok {p} g2" using g1(2) unfolding pool_ok_def diagrams_ok_def hb c by (simp add: g2_def)
    have "tag_at g2 = tag_at g1" "count_right g2 = count_right g1"
      by (simp_all add: count_right_def c fun_eq_iff) (simp_all add: g2_def)
    then show "counts_ok L {p} g2"
      using g1(2) \<open>\<forall>l. tag_at g1 l \<noteq> 0 \<longrightarrow> tag_at g1 l \<noteq> p\<close> by (simp add: pool_ok_def counts_ok_def c)
  qed
  moreover have "take_ssa malloc g = Inr (p, g2)" using g1(1,5) by (simp add: take_ssa_def p_def g2_def Let_def)
  moreover have "keeps_tags g g2" by (rule keeps_tags_trans [OF g1(3)]) (simp add: keeps_tags_def c, simp add: g2_def)
  moreover have "nodes (gbdds g2) = nodes (gbdds g)" using g1(6) by (simp add: g2_def)
  ultimately show thesis using that by blast
qed

section \<open>A collection that is not needed\<close>

text \<open>
  The lock is taken after the test for an empty ring, which is not repeated. A thread that was
  overtaken by a whole collection runs another one, on a ring that is not empty, and enters
  again what is there.
\<close>

lemma gc_race:
  assumes ok: "pool_ok L X g" and unused: "\<forall>p \<in> set (queued g). ref_count g p \<noteq> 0" "\<forall>p \<in> X. ref_count g p \<noteq> 0"
    and room: "0 < ring_room g" and first: "hd (filter (free_cell g) (cells g)) \<in> set (queued g)"
  shows "\<exists>g'. ssa_gc malloc (g\<lparr>gc_lock := n\<rparr>) = Inr g' \<and> \<not> distinct (queued g')"
proof -
  let ?g = "g\<lparr>gc_lock := n\<rparr>" and ?fs = "filter (free_cell g) (cells g)" and ?e = "ring_room g"
  have shape: "free_h g < SSA_BLK" "free_t g < SSA_BLK" using ok by (simp_all add: pool_ok_def pool_shape_def)
  have len: "length (queued g) + ?e < SSA_BLK" using ring_room_eq [OF shape] SSA_BLK_pos(1) by linarith
  have u: "to_unprotect ?g (cells g)"
  proof -
    have hb: "has_bdd X g p" if "p \<in> set (cells g)" "ref_count g p = 0" for p using that unused by (auto simp: has_bdd_def)
    have "mset (filter (\<lambda>p. ref_count g p = 0) (cells g)) \<subseteq># mset (filter (has_bdd X g) (cells g))"
      by (rule filter_sub) (rule hb)
    then have "image_mset bdd_field (mset (filter (\<lambda>p. ref_count g p = 0) (cells g))) \<subseteq>#
        image_mset bdd_field (mset (filter (has_bdd X g) (cells g)))" by (rule image_mset_subseteq_mono)
    also have "\<dots> \<subseteq># protect_bag (mtbdd_protected (gbdds g))" using ok by (simp add: pool_ok_def protects_def)
    finally show ?thesis using ok hb by (simp add: to_unprotect_def pool_ok_def protects_def diagrams_ok_def bdd_of_def)
  qed
  have fc: "free_cell ?g = free_cell g" by (simp add: free_cell_def fun_eq_iff)
  obtain t' g1 where r: "gc_cells (cells g) (of_nat ?e, free_t g, ?g) = Inr (?e \<le> length ?fs, of_nat (?e - length ?fs), t', g1)"
    and ps: "passed (free_h g) (free_t g) ?g (take ?e ?fs) t' g1"
    using gc_cells_spec [of "free_h g" "free_t g" ?g ?e "cells g" ?fs] shape u len room fc by auto
  have q: "free_h g1 = free_h g" "t' < SSA_BLK" "ring SSA_BLK (free_h g) t' (free_q g1) = queued g @ take ?e ?fs"
    using ps by (auto simp: passed_def)
  have "set (queued g) \<subseteq> set ?fs" using ok by (auto simp: pool_ok_def pool_shape_def)
  then obtain x xs where fs: "?fs = x # xs" using first by (cases ?fs) auto
  then have "x \<in> set (queued g)" "x \<in> set (take ?e ?fs)" using first room by (cases ?e; simp)+
  then have nd: "\<not> distinct (queued g @ take ?e ?fs)" by auto
  let ?g1 = "g1\<lparr>free_t := t'\<rparr>"
  have cs: "concat (map blk_cells (ssa_blk_list ?g)) = cells g" "free_t ?g = free_t g" "ring_room ?g = ?e"
    by (simp_all add: cells_def ring_room_def)
  have b: "free_h ?g1 < SSA_BLK" "free_t ?g1 < SSA_BLK" using q shape by simp_all
  obtain t'' q'' where a: "add_ssa_blk malloc ?g1 = grown ?g1 (malloc (ssa_blk_list ?g1)) t'' q''"
      "ring SSA_BLK (free_h ?g1) t'' q'' = queued ?g1 @ take (ring_room ?g1) (blk_cells (malloc (ssa_blk_list ?g1)))"
    using add_ssa_blk_spec [where malloc = malloc, OF b refl] by blast
  let ?new = "take (ring_room ?g1) (blk_cells (malloc (ssa_blk_list ?g1)))"
  have "queued (add_ssa_blk malloc ?g1) = (queued g @ take ?e ?fs) @ ?new" using a q by (simp add: grown_def)
  then have "\<not> distinct (queued (add_ssa_blk malloc ?g1))" using nd by (metis distinct_append)
  then show ?thesis
    unfolding ssa_gc_def gc_list_cells cs r bindE_simps split Let_def using q nd by simp
qed

end
