(* ===== verification/SsaGcTags.thy ===== *)
theory SsaGcTags
  imports SsaGcInv
begin

text \<open>
  The operations on collected tags: construction, destruction and assignment keep the counts
  exact; a fresh tag stands for its offset and a union for the union, while every other tag
  keeps its meaning.
\<close>

section \<open>Pointing a tag elsewhere\<close>

text \<open>All of copying, destroying, assigning and moving point one or two tags elsewhere.\<close>

definition repoint :: "tag_loc \<Rightarrow> u64 \<Rightarrow> gc_state \<Rightarrow> gc_state" where
  "repoint l p g =
    (let g1 = (if p \<noteq> 0 then count_up p g else g);
         g2 = (if tag_at g l \<noteq> 0 then count_down (tag_at g l) g1 else g1)
     in set_tag l p g2)"

lemma tag_copy_repoint: "tag_at g this = 0 \<Longrightarrow> tag_copy this rhs g = repoint this (tag_at g rhs) g"
  by (simp add: tag_copy_def repoint_def Let_def count_up_def)

lemma tag_destroy_repoint: "tag_destroy this g = repoint this 0 g"
  by (simp add: tag_destroy_def repoint_def)

lemma tag_assign_repoint: "tag_assign this rhs g = repoint this (tag_at g rhs) g"
  by (simp add: tag_assign_def repoint_def Let_def count_up_def count_down_def)

lemma tag_move_assign_repoint: "tag_move_assign this rhs g = repoint rhs 0 (repoint this (tag_at g rhs) g)"
  by (auto simp: tag_move_assign_def repoint_def Let_def count_up_def count_down_def set_tag_def fun_upd_def
      intro!: gc_state.equality ext)

lemma tag_move_repoint:
  "tag_at g this = 0 \<Longrightarrow> this \<noteq> rhs \<Longrightarrow> tag_move this rhs g = repoint rhs 0 (repoint this (tag_at g rhs) g)"
  by (auto simp: tag_move_def repoint_def Let_def count_up_def count_down_def set_tag_def fun_upd_def
      intro!: gc_state.equality ext)

lemma repoint_sel:
  "gbdds (repoint l p g) = gbdds g" "var_set_ptr (repoint l p g) = var_set_ptr g" "ssa_blk_list (repoint l p g) = ssa_blk_list g"
  "free_q (repoint l p g) = free_q g" "free_h (repoint l p g) = free_h g" "free_t (repoint l p g) = free_t g"
  "gc_lock (repoint l p g) = gc_lock g" "tag_at (repoint l p g) = (tag_at g)(l := p)"
  by (simp_all add: repoint_def set_tag_def count_up_def count_down_def Let_def)

lemma repoint_count:
  "ref_count (repoint l p g) r = ref_count g r + (if r = p \<and> p \<noteq> 0 then 1 else 0) -
     (if r = tag_at g l \<and> tag_at g l \<noteq> 0 then 1 else 0)"
  by (auto simp: repoint_def set_tag_def count_up_def count_down_def Let_def)

lemma repoint_derived:
  "cells (repoint l p g) = cells g" "bdd_of (repoint l p g) = bdd_of g" "obj_fun (repoint l p g) = obj_fun g"
  by (simp_all add: cells_def bdd_of_def obj_fun_def repoint_sel fun_eq_iff)

lemma holders_few:
  assumes "pool_ok L X g" "r \<noteq> 0"
  shows "finite (holders g r)" "card (holders g r) < 2 ^ 63"
proof -
  have L: "finite L" "card L < 2 ^ 63" "holders g r \<subseteq> L" using assms by (auto simp: pool_ok_def counts_ok_def holders_def)
  show "finite (holders g r)" using L by (auto intro: finite_subset)
  show "card (holders g r) < 2 ^ 63" using card_mono [OF L(1,3)] L(2) by simp
qed

text \<open>The count of an object in use follows the tags.\<close>

lemma repoint_held:
  assumes ok: "pool_ok L X g" and r: "r \<noteq> 0" "holders g r \<noteq> {}" and l: "l \<in> L"
  shows "ref_count (repoint l p g) r = of_nat (card (holders (repoint l p g) r))"
    "card (holders (repoint l p g) r) < 2 ^ 63"
proof -
  obtain l' where l': "tag_at g l' = r" using r(2) by (auto simp: holders_def)
  then have "r \<in> set (cells g) - X" using held_object(4) [OF ok, of l'] r(1) by simp
  then have "count_right g r" using ok by (auto simp: pool_ok_def counts_ok_def)
  then have c: "ref_count g r = of_nat (card (holders g r))" using r(2) by (simp add: count_right_def)
  note fin = holders_few [OF ok r(1)]
  have h: "holders (repoint l p g) r = (if r = p then insert l (holders g r) else holders g r - {l})"
    by (auto simp: holders_def repoint_sel)
  have old: "l \<in> holders g r \<longleftrightarrow> tag_at g l = r" by (auto simp: holders_def)
  have pos: "0 < card (holders g r)" using fin(1) r(2) by (simp add: card_gt_0_iff)
  have L: "finite L" "card L < 2 ^ 63" "insert l (holders g r) \<subseteq> L"
    using ok l r(1) by (auto simp: pool_ok_def counts_ok_def holders_def)
  have "holders (repoint l p g) r \<subseteq> L" using L(3) h by auto
  then show "card (holders (repoint l p g) r) < 2 ^ 63" using card_mono [OF L(1)] L(2) by (meson le_less_trans)
  show "ref_count (repoint l p g) r = of_nat (card (holders (repoint l p g) r))"
    unfolding h repoint_count c using r(1) old fin(1) pos
    by (auto simp: insert_absorb card_Diff_singleton of_nat_diff)
qed

lemma repoint_other:
  assumes "r \<noteq> 0" "holders g r = {}" "r \<noteq> p"
  shows "ref_count (repoint l p g) r = ref_count g r" "holders (repoint l p g) r = {}"
proof -
  have "tag_at g l \<noteq> r" using assms(2) by (auto simp: holders_def)
  then show "ref_count (repoint l p g) r = ref_count g r" using assms by (auto simp: repoint_count)
  show "holders (repoint l p g) r = {}" using assms by (auto simp: holders_def repoint_sel)
qed

lemma small_count: "n < 2 ^ 63 \<Longrightarrow> (of_nat n :: u64) \<noteq> -1"
proof
  assume n: "n < 2 ^ 63" and "of_nat n = (-1 :: u64)"
  then have "unat (of_nat n :: u64) = unat (-1 :: u64)" by simp
  moreover have "unat (of_nat n :: u64) = n" using n by (simp add: unat_of_nat)
  moreover have "unat (-1 :: u64) = 2 ^ 64 - 1" by (simp add: unsigned_minus_1_eq_mask mask_eq_exp_minus_1)
  ultimately show False using n by simp
qed

lemma repoint_ok:
  assumes ok: "pool_ok L X g" and l: "l \<in> L" and p: "p = 0 \<or> holders g p \<noteq> {}"
  shows "pool_ok L X (repoint l p g)"
proof -
  let ?g = "repoint l p g"
  have shape: "pool_shape X g" and pr: "protects X g" and cn: "counts_ok L X g" and dg: "diagrams_ok X g"
    using ok by (simp_all add: pool_ok_def)
  have cell0: "r \<noteq> 0" if "r \<in> set (cells g)" for r using that shape by (auto simp: pool_shape_def user_cell_def)
  have right: "count_right ?g r \<and> (ref_count ?g r = -1 \<longleftrightarrow> ref_count g r = -1) \<and> (free_cell g r \<longrightarrow> free_cell ?g r)"
    if r: "r \<in> set (cells g) - X" for r
  proof (cases "holders g r = {}")
    case True
    then have "r \<noteq> p" using p cell0 r by auto
    note o = repoint_other [OF cell0 True this, of l] 
    have "count_right g r" using cn r by (simp add: counts_ok_def)
    then show ?thesis using o r True by (simp add: count_right_def free_cell_def)
  next
    case False
    then obtain l' where l': "tag_at g l' = r" by (auto simp: holders_def)
    then have nz: "tag_at g l' \<noteq> 0" using cell0 r by auto
    have nf: "\<not> free_cell g r" using held_object(2) [OF ok nz] l' by simp
    note h = repoint_held [OF ok _ False l, of p]
    have r0: "r \<noteq> 0" using cell0 r by auto
    have "ref_count ?g r \<noteq> -1" using h [OF r0] small_count by simp
    then show ?thesis using nf h(1) [OF r0] by (auto simp: count_right_def free_cell_def)
  qed
  have hb: "has_bdd X ?g = has_bdd X g"
    using right by (auto simp: has_bdd_def repoint_sel repoint_derived fun_eq_iff)
  have qs: "queued ?g = queued g" by (simp add: repoint_sel)
  have "pool_shape X ?g"
    using shape right unfolding pool_shape_def qs repoint_derived repoint_sel by blast
  moreover have "protects X ?g" using pr unfolding protects_def hb repoint_derived repoint_sel .
  moreover have "diagrams_ok X ?g" using dg unfolding diagrams_ok_def hb repoint_derived repoint_sel .
  moreover have "counts_ok L X ?g"
  proof -
    have "l' \<in> L \<and> tag_at ?g l' \<in> set (cells g) - X" if "tag_at ?g l' \<noteq> 0" for l'
    proof (cases "l' = l")
      case True
      then have "holders g p \<noteq> {}" "p \<noteq> 0" using that p by (auto simp: repoint_sel)
      then show ?thesis using True l held_object(4) [OF ok] by (auto simp: holders_def repoint_sel)
    next
      case False
      then show ?thesis using that cn by (simp add: repoint_sel counts_ok_def)
    qed
    then show ?thesis using cn right by (simp add: counts_ok_def repoint_derived)
  qed
  ultimately show ?thesis by (simp add: pool_ok_def)
qed

section \<open>What a tag means\<close>

definition gtag_fun :: "gc_state \<Rightarrow> tag_loc \<Rightarrow> bfun \<Rightarrow> bool" where
  "gtag_fun g l f \<longleftrightarrow> (if tag_at g l = 0 then f = (\<lambda>_. False) else obj_fun g (tag_at g l) f)"

lemma gtag_fun_null: "tag_at g l = 0 \<Longrightarrow> gtag_fun g l f \<longleftrightarrow> f = (\<lambda>_. False)"
  and gtag_fun_obj: "tag_at g l \<noteq> 0 \<Longrightarrow> gtag_fun g l f \<longleftrightarrow> obj_fun g (tag_at g l) f"
  by (simp_all add: gtag_fun_def)

lemma gtag_fun_cong: "tag_at g l = tag_at g l' \<Longrightarrow> gtag_fun g l = gtag_fun g l'"
  by (simp add: gtag_fun_def fun_eq_iff)

lemma gtag_fun_unique: "gtag_fun g l f \<Longrightarrow> gtag_fun g l h \<Longrightarrow> f = h"
  using bdd_fun [of "nodes (gbdds g)" 0 _ f 0 h] by (auto simp: gtag_fun_def obj_fun_def split: if_splits)

lemma gtag_fun_exists:
  assumes ok: "pool_ok L X g"
  shows "\<exists>f. gtag_fun g l f"
proof (cases "tag_at g l = 0")
  case False
  then show ?thesis using held_object(1) [OF ok False] ok by (auto simp: gtag_fun_def pool_ok_def diagrams_ok_def)
qed (simp add: gtag_fun_null)

lemma keeps_gtag: "keeps_tags g g' \<Longrightarrow> gtag_fun g l f \<Longrightarrow> gtag_fun g' l f"
  by (simp add: keeps_tags_def gtag_fun_def split: if_splits)

lemma gtag_fun_repoint: "gtag_fun (repoint l p g) l' f \<longleftrightarrow>
  (if l' = l then if p = 0 then f = (\<lambda>_. False) else obj_fun g p f else gtag_fun g l' f)"
  by (simp add: gtag_fun_def repoint_sel repoint_derived)

lemma gtag_fun_false:
  assumes ok: "pool_ok L X g" and f: "gtag_fun g l f"
  shows "tag_at g l = 0 \<longleftrightarrow> f = (\<lambda>_. False)"
proof
  assume "f = (\<lambda>_. False)"
  show "tag_at g l = 0"
  proof (rule ccontr)
    assume nz: "tag_at g l \<noteq> 0"
    then have b: "bdd (nodes (gbdds g)) 0 (bdd_of g (tag_at g l)) (\<lambda>_. False)"
      using f \<open>f = (\<lambda>_. False)\<close> by (simp add: gtag_fun_def obj_fun_def)
    have "table_ok (nodes (gbdds g))" "bdd_of g (tag_at g l) \<noteq> 0"
      using ok held_object(1) [OF ok nz] by (auto simp: pool_ok_def diagrams_ok_def intro: bdd_ok_table)
    then show False using bdd_eq_iff [OF _ b bdd.bdd_false [of _ 0]] by (simp add: mtbdd_false_def)
  qed
qed (use f in \<open>simp add: gtag_fun_null\<close>)

lemma tag_eq_fun:
  assumes "tag_eq a b g"
  shows "gtag_fun g a = gtag_fun g b" and "tag_at g a = 0 \<longleftrightarrow> tag_at g b = 0"
  using assms by (auto simp: tag_eq_def gtag_fun_def obj_fun_def fun_eq_iff split: if_splits)

text \<open>Two tags are equal exactly when their meanings are.\<close>

lemma tag_eq_iff:
  assumes ok: "pool_ok L X g" and f: "gtag_fun g a f" and h: "gtag_fun g b h"
  shows "tag_eq a b g \<longleftrightarrow> f = h"
proof
  assume "tag_eq a b g" then show "f = h" using tag_eq_fun(1) gtag_fun_unique f h by metis
next
  assume e: "f = h"
  show "tag_eq a b g"
  proof (cases "tag_at g a = 0")
    case True
    then have "tag_at g b = 0" using gtag_fun_false [OF ok] f h e by metis
    then show ?thesis using True by (simp add: tag_eq_def)
  next
    case False
    then have nz: "tag_at g b \<noteq> 0" using gtag_fun_false [OF ok] f h e by metis
    then have "bdd (nodes (gbdds g)) 0 (bdd_of g (tag_at g a)) f" "bdd (nodes (gbdds g)) 0 (bdd_of g (tag_at g b)) f"
      using False f h e by (simp_all add: gtag_fun_def obj_fun_def)
    moreover have "table_ok (nodes (gbdds g))" using ok by (auto simp: pool_ok_def diagrams_ok_def intro: bdd_ok_table)
    ultimately have "bdd_of g (tag_at g a) = bdd_of g (tag_at g b)" using bdd_eq_iff by blast
    then show ?thesis using False nz by (simp add: tag_eq_def)
  qed
qed

section \<open>Giving out an object\<close>

lemma count_one_ok:
  assumes ok: "pool_ok L {p} g"
  shows "pool_ok L {p} (g\<lparr>ref_count := (ref_count g)(p := 1)\<rparr>)" "keeps_tags g (g\<lparr>ref_count := (ref_count g)(p := 1)\<rparr>)"
proof -
  let ?g = "g\<lparr>ref_count := (ref_count g)(p := 1)\<rparr>"
  have c: "cells ?g = cells g" "bdd_of ?g = bdd_of g" "obj_fun ?g = obj_fun g"
    by (simp_all add: cells_def bdd_of_def obj_fun_def fun_eq_iff)
  have hb: "has_bdd {p} ?g = has_bdd {p} g" by (auto simp: has_bdd_def c fun_eq_iff)
  have "count_right ?g r = count_right g r" if "r \<noteq> p" for r
    using that by (simp add: count_right_def free_cell_def holders_def)
  then have "counts_ok L {p} ?g" using ok by (simp add: pool_ok_def counts_ok_def c)
  moreover have "pool_shape {p} ?g"
    using ok unfolding pool_ok_def pool_shape_def c by (auto simp: free_cell_def)
  moreover have "protects {p} ?g" "diagrams_ok {p} ?g"
    using ok by (simp_all add: pool_ok_def protects_def diagrams_ok_def hb c)
  ultimately show "pool_ok L {p} ?g" by (simp add: pool_ok_def)
  show "keeps_tags g ?g" by (simp add: keeps_tags_def c)
qed

lemma set_bdd_sel:
  "nodes (gbdds (set_bdd p v g)) = nodes (gbdds g)" "ocache (gbdds (set_bdd p v g)) = ocache (gbdds g)"
  "mtbdd_protected (gbdds (set_bdd p v g)) = mtbdd_protected (gbdds g)" "mtbdd_refs (gbdds (set_bdd p v g)) = mtbdd_refs (gbdds g)"
  "rstack (gbdds (set_bdd p v g)) = rstack (gbdds g)" "pstack (gbdds (set_bdd p v g)) = pstack (gbdds g)"
  "memory (gbdds (set_bdd p v g)) = (memory (gbdds g))(bdd_field p := v)"
  by (simp_all add: set_bdd_def)

text \<open>The object \<open>p\<close> gets the diagram \<open>res\<close> and becomes the tag \<open>dst\<close>.\<close>

lemma give_tag:
  assumes ok: "pool_ok L {p} g" and one: "ref_count g p = 1" and dst: "tag_at g dst = 0" "dst \<in> L"
    and res: "bdd (nodes (gbdds g)) 0 res f" "depends_on f {..<TAG_WIDTH}" "res \<noteq> 0"
  obtains (stop) e where "store_bdd p res g = Inl e" "e \<in> {AssertFail, OutOfFuel}"
    | (result) g1 where "store_bdd p res g = Inr g1" "pool_ok L {} (set_tag dst p g1)"
      "tag_at g1 = tag_at g" "gtag_fun (set_tag dst p g1) dst f"
      "\<And>l h. l \<noteq> dst \<Longrightarrow> gtag_fun g l h \<Longrightarrow> gtag_fun (set_tag dst p g1) l h"
proof -
  let ?s = "set_bdd p res g"
  have shape: "pool_shape {p} g" and pr: "protects {p} g" and cn: "counts_ok L {p} g" and dg: "diagrams_ok {p} g"
    using ok by (simp_all add: pool_ok_def)
  have p: "p \<in> set (cells g)" "user_cell p" "bdd_field p \<noteq> var_set_ptr g" "p \<notin> set (queued g)" "p \<noteq> 0"
    using shape by (auto simp: pool_shape_def user_cell_def)
  have prot: "protect_ok (mtbdd_protected (gbdds g))" "size (protect_bag (mtbdd_protected (gbdds g))) < 2 ^ 44"
    using pr protects_few [OF shape pr] by (simp_all add: protects_def)
  have nz: "bdd_field p \<noteq> 0" "bdd_field p \<noteq> refs_ts" using bdd_field_ok [OF p(2)] by simp_all
  let ?B = "protect_bag (mtbdd_protected (gbdds g))"
  consider (stop) e where "protect_up (mtbdd_protected (gbdds g)) (bdd_field p) = Inl e" "e \<in> {AssertFail, OutOfFuel}"
    | (result) P where "protect_up (mtbdd_protected (gbdds g)) (bdd_field p) = Inr P" "protect_ok P"
      "protect_bag P = add_mset (bdd_field p) ?B"
    using protect_up_spec [OF prot nz] by blast
  then show thesis
  proof cases
    case (stop e)
    then show thesis using that(1) by (simp add: store_bdd_def mtbdd_protect_def set_bdd_sel)
  next
    case (result P)
    define st where "st = (gbdds ?s)\<lparr>mtbdd_protected := P\<rparr>"
    define g' where "g' = set_tag dst p (?s\<lparr>gbdds := st\<rparr>)"
    have s: "store_bdd p res g = Inr (?s\<lparr>gbdds := st\<rparr>)"
      using result(1) by (simp add: store_bdd_def mtbdd_protect_def set_bdd_sel st_def Let_def)
    have sel: "cells g' = cells g" "queued g' = queued g" "ref_count g' = ref_count g" "var_set_ptr g' = var_set_ptr g"
      "tag_at g' = (tag_at g)(dst := p)" "nodes (gbdds g') = nodes (gbdds g)" "ocache (gbdds g') = ocache (gbdds g)"
      "pstack (gbdds g') = pstack (gbdds g)" "mtbdd_protected (gbdds g') = P" "free_cell g' = free_cell g"
      "memory (gbdds g') = (memory (gbdds g))(bdd_field p := res)"
      by (simp_all add: g'_def st_def cells_def set_tag_def set_bdd_def free_cell_def fun_eq_iff)
    have bo: "bdd_of g' r = (if r = p then res else bdd_of g r)" for r by (simp add: bdd_of_def sel)
    have ofr: "obj_fun g' r = obj_fun g r" if "r \<noteq> p" for r using that by (simp add: obj_fun_def bo sel fun_eq_iff)
    have ofp: "obj_fun g' p f" using res by (simp add: obj_fun_def bo sel)
    have "(1 :: u64) \<noteq> -1" by simp
    then have hb: "has_bdd {} g' r \<longleftrightarrow> r = p \<or> has_bdd {p} g r" for r
      using p(1,4) one by (auto simp: has_bdd_def sel)
    have bag: "protect_bag P = add_mset (var_set_ptr g) (image_mset bdd_field (mset (filter (has_bdd {} g') (cells g))))"
    proof -
      have d: "distinct (cells g)" using shape by (simp add: pool_shape_def)
      have "mset (filter (has_bdd {} g') (cells g)) = mset (p # filter (has_bdd {p} g) (cells g))"
        by (rule set_eq_iff_mset_eq_distinct [THEN iffD1]) (use d p(1) hb in \<open>auto simp: has_bdd_def\<close>)
      then have m: "mset (filter (has_bdd {} g') (cells g)) = add_mset p (mset (filter (has_bdd {p} g) (cells g)))" by simp
      show ?thesis using result(3) pr unfolding m by (simp add: protects_def add_mset_commute del: mset_filter)
    qed
    have rts: "roots (gbdds g') \<subseteq> insert res (roots (gbdds g))"
    proof -
      have "memory (gbdds g') a \<in> insert res (memory (gbdds g) ` set (protect_list (mtbdd_protected (gbdds g))))"
        if "a \<in> set (protect_list P)" for a
        using that result(3) by (auto simp: protect_set sel)
      moreover have "rstack (gbdds g') = rstack (gbdds g)" "mtbdd_refs (gbdds g') = mtbdd_refs (gbdds g)"
        by (simp_all add: g'_def st_def set_tag_def set_bdd_def)
      ultimately show ?thesis using dg by (auto simp: roots_def diagrams_ok_def sel simp del: fun_upd_apply)
    qed
    have bok: "bdd_ok (gbdds g')"
      using dg rts bdd_valid [OF res(1)] by (intro bdd_ok_roots [OF _ sel(6,7)]) (auto simp: diagrams_ok_def)
    have "pool_shape {} g'"
      using shape unfolding pool_shape_def sel by (auto simp: g'_def st_def set_tag_def set_bdd_def)
    moreover have "protects {} g'" using pr result(2) bag by (simp add: protects_def sel)
    moreover have "diagrams_ok {} g'"
    proof -
      have "bdd_of g' r \<noteq> 0 \<and> (\<exists>f. obj_fun g' r f)" if "has_bdd {} g' r" for r
      proof (cases "r = p")
        case True
        then show ?thesis using ofp res(3) bo by auto
      next
        case False
        then have "has_bdd {p} g r" using that hb by simp
        then show ?thesis using False dg by (auto simp: diagrams_ok_def bo ofr)
      qed
      then show ?thesis using dg bok p(3) by (simp add: diagrams_ok_def sel)
    qed
    moreover have "counts_ok L {} g'"
    proof -
      have no: "holders g p = {}" using cn p(5) by (auto simp: counts_ok_def holders_def)
      have hp: "holders g' r = (if r = p then {dst} else holders g r)" if "r \<noteq> 0" for r
        using that no dst(1) by (auto simp: holders_def sel)
      have "r \<noteq> 0" if "r \<in> set (cells g)" for r using that shape by (auto simp: pool_shape_def user_cell_def)
      then have "count_right g' r" if "r \<in> set (cells g)" for r
        using that cn hp one by (auto simp: count_right_def sel counts_ok_def)
      then show ?thesis using cn dst p(1) by (auto simp: counts_ok_def sel)
    qed
    ultimately have "pool_ok L {} g'" by (simp add: pool_ok_def)
    moreover have "gtag_fun g' dst f" using ofp p(5) by (simp add: gtag_fun_def sel)
    moreover have "gtag_fun g' l h" if "l \<noteq> dst" "gtag_fun g l h" for l h
    proof (cases "tag_at g l = 0")
      case False
      then have "tag_at g l \<noteq> p" using cn by (auto simp: counts_ok_def)
      then show ?thesis using that ofr by (simp add: gtag_fun_def sel)
    qed (use that in \<open>simp add: gtag_fun_def sel\<close>)
    ultimately show thesis using that(2) [OF s] unfolding g'_def by (simp add: set_bdd_def)
  qed
qed

end
