(* ===== verification/SsaGcRun.thy ===== *)
theory SsaGcRun
  imports SsaGcTags SsaStart
begin

text \<open>
  Runs of a program with collected tags: the caches of the threads, fresh tags and unions with
  what they mean, the start, and the invariant of every reachable state.
\<close>

section \<open>Caches\<close>

definition cache_locs :: "nat \<Rightarrow> tag_loc set" where
  "cache_locs tid = {Cb_cache_l tid, Cb_cache_r tid, Cb_cache_v tid}"

definition caches_ok :: "gc_state \<Rightarrow> nat \<Rightarrow> bool" where
  "caches_ok g tid \<longleftrightarrow> (tag_at g (Cb_cache_l tid) \<noteq> 0 \<longrightarrow>
     (\<exists>f h. gtag_fun g (Cb_cache_l tid) f \<and> gtag_fun g (Cb_cache_r tid) h \<and>
       gtag_fun g (Cb_cache_v tid) (\<lambda>\<sigma>. f \<sigma> \<or> h \<sigma>)))"

definition gc_ok :: "tag_loc set \<Rightarrow> gc_state \<Rightarrow> bool" where
  "gc_ok L g \<longleftrightarrow> pool_ok L {} g \<and> (\<forall>tid. caches_ok g tid)"

text \<open>Tags outside \<open>D\<close> are where they were and mean what they did.\<close>

definition others_keep :: "tag_loc set \<Rightarrow> gc_state \<Rightarrow> gc_state \<Rightarrow> bool" where
  "others_keep D g g' \<longleftrightarrow> (\<forall>l. l \<notin> D \<longrightarrow> tag_at g' l = tag_at g l \<and> (\<forall>f. gtag_fun g l f \<longrightarrow> gtag_fun g' l f))"

lemma others_keep_refl: "others_keep D g g"
  by (simp add: others_keep_def)

lemma others_keep_trans: "others_keep D g h \<Longrightarrow> others_keep E h k \<Longrightarrow> D \<union> E \<subseteq> F \<Longrightarrow> others_keep F g k"
  unfolding others_keep_def by (metis Un_iff subsetD)

lemma keeps_others: "keeps_tags g g' \<Longrightarrow> others_keep D g g'"
  using keeps_gtag by (auto simp: others_keep_def) (simp add: keeps_tags_def)

lemma repoint_others: "others_keep {l} g (repoint l p g)"
  by (simp add: others_keep_def gtag_fun_repoint repoint_sel)

lemma caches_keep: "others_keep D g g' \<Longrightarrow> cache_locs tid \<inter> D = {} \<Longrightarrow> caches_ok g tid \<Longrightarrow> caches_ok g' tid"
  unfolding caches_ok_def others_keep_def cache_locs_def by fastforce

lemma repoint_gc_ok:
  "gc_ok L g \<Longrightarrow> Tag a \<in> L \<Longrightarrow> p = 0 \<or> holders g p \<noteq> {} \<Longrightarrow> gc_ok L (repoint (Tag a) p g)"
  using repoint_ok [of L "{}" g "Tag a" p] caches_keep [OF repoint_others [of "Tag a" g p]]
  by (auto simp: gc_ok_def cache_locs_def)

lemma held_or_null: "tag_at g l = 0 \<or> holders g (tag_at g l) \<noteq> {}"
  by (auto simp: holders_def)

section \<open>Tags of the program\<close>

text \<open>Copies, moves, assignments and the end of a tag.\<close>

inductive tag_op :: "tag_loc set \<Rightarrow> tag_loc set \<Rightarrow> gc_state \<Rightarrow> gc_state \<Rightarrow> bool" for L where
  op_copy: "Tag a \<in> L \<Longrightarrow> tag_at g (Tag a) = 0 \<Longrightarrow> tag_op L {Tag a} g (tag_copy (Tag a) l g)"
| op_move: "Tag a \<in> L \<Longrightarrow> Tag b \<in> L \<Longrightarrow> tag_at g (Tag a) = 0 \<Longrightarrow> a \<noteq> b \<Longrightarrow>
    tag_op L {Tag a, Tag b} g (tag_move (Tag a) (Tag b) g)"
| op_destroy: "Tag a \<in> L \<Longrightarrow> tag_op L {Tag a} g (tag_destroy (Tag a) g)"
| op_assign: "Tag a \<in> L \<Longrightarrow> tag_op L {Tag a} g (tag_assign (Tag a) l g)"
| op_move_assign: "Tag a \<in> L \<Longrightarrow> Tag b \<in> L \<Longrightarrow> tag_op L {Tag a, Tag b} g (tag_move_assign (Tag a) (Tag b) g)"

lemma repoint_twice:
  assumes "gc_ok L g" "Tag a \<in> L" "Tag b \<in> L"
  shows "gc_ok L (repoint (Tag b) 0 (repoint (Tag a) (tag_at g l) g))"
  by (intro repoint_gc_ok assms held_or_null) simp

lemma repoint_twice_others: "others_keep {l, l'} g (repoint l' p' (repoint l p g))"
  by (rule others_keep_trans [OF repoint_others repoint_others]) auto

lemma tag_op_ok: "tag_op L D g g' \<Longrightarrow> gc_ok L g \<Longrightarrow> gc_ok L g' \<and> others_keep D g g'"
proof (induction rule: tag_op.induct)
  case (op_copy a g l)
  then show ?case using repoint_gc_ok held_or_null repoint_others by (simp add: tag_copy_repoint)
next
  case (op_move a b g)
  then show ?case using repoint_twice repoint_twice_others by (simp add: tag_move_repoint)
next
  case (op_destroy a g)
  then show ?case using repoint_gc_ok repoint_others by (simp add: tag_destroy_repoint)
next
  case (op_assign a g l)
  then show ?case using repoint_gc_ok held_or_null repoint_others by (simp add: tag_assign_repoint)
next
  case (op_move_assign a b g)
  then show ?case using repoint_twice repoint_twice_others by (simp add: tag_move_assign_repoint)
qed

section \<open>Remembering a union\<close>

lemma remember_ok:
  assumes ok: "pool_ok L {} g" and c: "\<forall>t. t \<noteq> tid \<longrightarrow> caches_ok g t" and L: "cache_locs tid \<subseteq> L"
    and f: "gtag_fun g (Tag a) f" "gtag_fun g (Tag b) h" "gtag_fun g (Tag v) (\<lambda>\<sigma>. f \<sigma> \<or> h \<sigma>)"
  shows "gc_ok L (remember tid (Tag a) (Tag b) (Tag v) g)"
    "others_keep (cache_locs tid) g (remember tid (Tag a) (Tag b) (Tag v) g)"
proof -
  let ?g1 = "repoint (Cb_cache_l tid) (tag_at g (Tag a)) g"
  let ?g2 = "repoint (Cb_cache_r tid) (tag_at g (Tag b)) ?g1"
  let ?g3 = "repoint (Cb_cache_v tid) (tag_at g (Tag v)) ?g2"
  have r: "remember tid (Tag a) (Tag b) (Tag v) g = ?g3"
    by (simp add: remember_def tag_assign_repoint repoint_sel)
  have h: "tag_at ?g1 (Tag b) = tag_at g (Tag b)" "tag_at ?g2 (Tag v) = tag_at g (Tag v)" by (simp_all add: repoint_sel)
  have in_L: "Cb_cache_l tid \<in> L" "Cb_cache_r tid \<in> L" "Cb_cache_v tid \<in> L" using L by (simp_all add: cache_locs_def)
  have ok1: "pool_ok L {} ?g1" by (rule repoint_ok [OF ok in_L(1) held_or_null])
  have ok2: "pool_ok L {} ?g2" using repoint_ok [OF ok1 in_L(2) held_or_null [of ?g1 "Tag b"]] by (simp add: h)
  have ok3: "pool_ok L {} ?g3" using repoint_ok [OF ok2 in_L(3) held_or_null [of ?g2 "Tag v"]] by (simp add: h)
  show o: "others_keep (cache_locs tid) g (remember tid (Tag a) (Tag b) (Tag v) g)"
    unfolding r
    by (rule others_keep_trans [OF others_keep_trans [OF repoint_others repoint_others subset_refl] repoint_others])
      (auto simp: cache_locs_def)
  have m: "gtag_fun ?g3 (Cb_cache_l tid) f" "gtag_fun ?g3 (Cb_cache_r tid) h" "gtag_fun ?g3 (Cb_cache_v tid) (\<lambda>\<sigma>. f \<sigma> \<or> h \<sigma>)"
    using f by (simp_all add: gtag_fun_repoint repoint_derived) (simp_all add: gtag_fun_def)
  have "caches_ok ?g3 t" for t
  proof (cases "t = tid")
    case True
    then show ?thesis using m by (auto simp: caches_ok_def)
  next
    case False
    then show ?thesis using c caches_keep [OF o [unfolded r], of t] by (auto simp: cache_locs_def)
  qed
  then show "gc_ok L (remember tid (Tag a) (Tag b) (Tag v) g)" using ok3 by (simp add: gc_ok_def r)
qed

section \<open>Fresh tags\<close>

text \<open>What a step may answer: it stops for want of room, or does what \<open>Q\<close> says.\<close>

definition gc_gives :: "serror + gc_state \<Rightarrow> (gc_state \<Rightarrow> bool) \<Rightarrow> bool" where
  "gc_gives m Q \<longleftrightarrow> (case m of Inl e \<Rightarrow> e \<in> {TableFull, AssertFail, OutOfFuel} | Inr g \<Rightarrow> Q g)"

lemma gc_gives_simps [simp]: "gc_gives (Inr g) Q \<longleftrightarrow> Q g" "gc_gives (Inl e) Q \<longleftrightarrow> e \<in> {TableFull, AssertFail, OutOfFuel}"
  by (simp_all add: gc_gives_def)

lemma gc_gives_mono: "gc_gives m P \<Longrightarrow> (\<And>g. P g \<Longrightarrow> Q g) \<Longrightarrow> gc_gives m Q"
  by (auto simp: gc_gives_def split: sum.splits)

lemma give_tag_gives:
  assumes ok: "pool_ok L {p} g" and one: "ref_count g p = 1" and dst: "tag_at g dst = 0" "dst \<in> L"
    and res: "bdd (nodes (gbdds g)) 0 res f" "depends_on f {..<TAG_WIDTH}" "res \<noteq> 0"
    and k: "\<And>g1. pool_ok L {} g1 \<Longrightarrow> others_keep {dst} g g1 \<Longrightarrow> gtag_fun g1 dst f \<Longrightarrow> Q (k g1)"
  shows "gc_gives (bindE (store_bdd p res g) (\<lambda>g. Inr (k (set_tag dst p g)))) Q"
  using give_tag [OF ok one dst res, of "gc_gives (bindE (store_bdd p res g) (\<lambda>g. Inr (k (set_tag dst p g)))) Q"] k
  by (fastforce simp: others_keep_def set_tag_def)

lemma res_nonzero: "bdd n v res f \<Longrightarrow> f \<noteq> (\<lambda>_. False) \<Longrightarrow> res \<noteq> 0"
  using bdd_false_iff [of n v f] by (auto simp: mtbdd_false_def)

lemma fresh_blk_keep: "fresh_blk g sp \<Longrightarrow> cells g' = cells g \<Longrightarrow> var_set_ptr g' = var_set_ptr g \<Longrightarrow> fresh_blk g' sp"
  by (simp add: fresh_blk_def)

lemma alloc_task_gives:
  assumes ok: "pool_ok L X g"
  shows "gives keep (gbdds g) (mtbdd_cube (memory (gbdds g) (var_set_ptr g)) (offset_array offset) mtbdd_true (gbdds g))
    (\<lambda>f. f = offset_fun offset)"
proof -
  have dg: "diagrams_ok X g" and pr: "protects X g" using ok by (simp_all add: pool_ok_def)
  then have ok: "bdd_ok (gbdds g)" and v: "is_set (nodes (gbdds g)) [0..<TAG_WIDTH] (memory (gbdds g) (var_set_ptr g))"
    by (simp_all add: diagrams_ok_def)
  have s: "safe (gbdds g) (memory (gbdds g) (var_set_ptr g))"
    using root_safe [OF var_set_root [OF pr]] v by (auto simp: is_set_def)
  have "cube_sem [0..<TAG_WIDTH] (offset_array offset) (\<lambda>_. True) = offset_fun offset"
    unfolding offset_array_bits fun_eq_iff cube_sem_bits by (auto simp: offset_fun_def)
  then show ?thesis
    using cube_gives [OF ok s v _ bdd.bdd_true, of "offset_array offset"] literals_bits
    by (simp add: offset_array_bits)
qed

lemma offset_fun_facts: "depends_on (offset_fun offset) {..<TAG_WIDTH}" "offset_fun offset \<noteq> (\<lambda>_. False)"
proof -
  show "depends_on (offset_fun offset) {..<TAG_WIDTH}" by (auto simp: offset_fun_def depends_on_def)
  have "offset_fun offset (bit offset)" by (simp add: offset_fun_def)
  then show "offset_fun offset \<noteq> (\<lambda>_. False)" by metis
qed

lemma gc_alloc_gives:
  assumes ok: "gc_ok L g" and dst: "Tag a \<in> L" "tag_at g (Tag a) = 0" and sp: "fresh_blk g (malloc (ssa_blk_list g))"
  shows "gc_gives (gc_tag_alloc malloc offset (Tag a) g) (\<lambda>g'. gc_ok L g' \<and> others_keep {Tag a} g g' \<and>
    gtag_fun g' (Tag a) (offset_fun offset))"
proof -
  have pk: "pool_ok L {} g" using ok by (simp add: gc_ok_def)
  obtain p g1 where g1: "take_ssa malloc g = Inr (p, g1)" "pool_ok L {p} g1" "keeps_tags g g1"
    using take_ssa_spec [where malloc = malloc, OF pk sp] by blast
  define g2 where "g2 = g1\<lparr>ref_count := (ref_count g1)(p := 1)\<rparr>"
  have g2: "pool_ok L {p} g2" "keeps_tags g g2" "ref_count g2 p = 1"
    using count_one_ok [OF g1(2)] keeps_tags_trans [OF g1(3)] by (simp_all add: g2_def)
  note al = alloc_task_gives [OF g2(1), of offset]
  have r: "gc_tag_alloc malloc offset (Tag a) g =
    bindE (gc_alloc_task (memory (gbdds g2) (var_set_ptr g2)) (offset_array offset) g2) (\<lambda>(res, g).
      bindE (store_bdd p res g) (\<lambda>g. Inr (set_tag (Tag a) p g)))"
    using g1(1) by (simp add: gc_tag_alloc_def g2_def Let_def)
  from al show ?thesis
  proof (cases rule: gives_cases)
    case (stop e)
    then show ?thesis by (auto simp: r gc_alloc_task_def)
  next
    case (result res st f)
    let ?g3 = "g2\<lparr>gbdds := st\<rparr>"
    note g3 = pool_bdd_step(1) [OF g2(1) result(2,3)] keeps_tags_trans [OF g2(2) keeps_bdd_step [OF g2(1) result(2,3)]]
    have t: "tag_at ?g3 = tag_at g" using g3(2) by (simp add: keeps_tags_def)
    have "gc_gives (bindE (store_bdd p res ?g3) (\<lambda>g. Inr (set_tag (Tag a) p g))) (\<lambda>g'. gc_ok L g' \<and> others_keep {Tag a} g g' \<and>
      gtag_fun g' (Tag a) (offset_fun offset))"
    proof (rule give_tag_gives [OF g3(1), where k = "\<lambda>g. g" and f = "offset_fun offset"])
      fix g4 assume g4: "pool_ok L {} g4" "others_keep {Tag a} ?g3 g4" "gtag_fun g4 (Tag a) (offset_fun offset)"
      have o: "others_keep {Tag a} g g4" by (rule others_keep_trans [OF keeps_others [OF g3(2)] g4(2)]) auto
      have "caches_ok g4 tid" for tid using caches_keep [OF o] ok by (auto simp: gc_ok_def cache_locs_def)
      then show "gc_ok L g4 \<and> others_keep {Tag a} g g4 \<and> gtag_fun g4 (Tag a) (offset_fun offset)"
        using g4 o by (simp add: gc_ok_def)
    qed (use result g2(3) t dst offset_fun_facts res_nonzero in auto)
    then show ?thesis using result(1) by (simp add: r gc_alloc_task_def)
  qed
qed

section \<open>Unions\<close>

lemma combine_task_keep:
  assumes ok: "pool_ok L X g" and l: "tag_at g l \<noteq> 0" "tag_at g r \<noteq> 0" and f: "gtag_fun g l f" "gtag_fun g r h"
  shows "gives keep (gbdds g) (bindE (sylvan_and_alone bdd_fuel (mtbdd_not (bdd_of g (tag_at g l)))
      (mtbdd_not (bdd_of g (tag_at g r))) 0 (gbdds g)) (\<lambda>(res, st). Inr (mtbdd_not res, st))) (\<lambda>u. u = (\<lambda>\<sigma>. f \<sigma> \<or> h \<sigma>))"
proof -
  have pr: "protects X g" and bok: "bdd_ok (gbdds g)" using ok by (simp_all add: pool_ok_def diagrams_ok_def)
  have b: "bdd (nodes (gbdds g)) 0 (bdd_of g (tag_at g l)) f" "bdd (nodes (gbdds g)) 0 (bdd_of g (tag_at g r)) h"
    using f l by (simp_all add: gtag_fun_def obj_fun_def)
  have s: "safe (gbdds g) (mtbdd_not (bdd_of g (tag_at g l)))" "safe (gbdds g) (mtbdd_not (bdd_of g (tag_at g r)))"
    using held_object(1) [OF ok l(1)] held_object(1) [OF ok l(2)] root_safe [OF has_bdd_root [OF pr] b(1)]
      root_safe [OF has_bdd_root [OF pr] b(2)] by (auto intro: safe_not)
  have n: "bdd (nodes (gbdds g)) 0 (mtbdd_not (bdd_of g (tag_at g l))) (\<lambda>\<sigma>. \<not> f \<sigma>)"
    "bdd (nodes (gbdds g)) 0 (mtbdd_not (bdd_of g (tag_at g r))) (\<lambda>\<sigma>. \<not> h \<sigma>)" using b by (auto intro: bdd_not)
  have "gives keep (gbdds g) (sylvan_and_alone bdd_fuel (mtbdd_not (bdd_of g (tag_at g l)))
      (mtbdd_not (bdd_of g (tag_at g r))) 0 (gbdds g)) (\<lambda>u. u = (\<lambda>\<sigma>. \<not> f \<sigma> \<and> \<not> h \<sigma>))"
    by (rule sylvan_and_alone_gives [OF bok s n, of 0]) (use n in \<open>auto simp: bdd_fuel_def intro: bdd_indep\<close>)
  from gives_mark [OF this, of True] show ?thesis
    unfolding mark_result_def if_True by (rule gives_mono) (auto simp: fun_eq_iff)
qed

definition combined :: "tag_loc set \<Rightarrow> nat \<Rightarrow> u64 \<Rightarrow> bfun \<Rightarrow> gc_state \<Rightarrow> gc_state \<Rightarrow> bool" where
  "combined L tid d u g g' \<longleftrightarrow> gc_ok L g' \<and> others_keep (insert (Tag d) (cache_locs tid)) g g' \<and> gtag_fun g' (Tag d) u"

lemma copy_combined:
  assumes ok: "gc_ok L g" and d: "Tag d \<in> L" "tag_at g (Tag d) = 0" and l: "gtag_fun g l u"
  shows "combined L tid d u g (tag_copy (Tag d) l g)"
  unfolding combined_def tag_copy_repoint [OF d(2)]
  using repoint_gc_ok [OF ok d(1) held_or_null] l
    others_keep_trans [OF repoint_others others_keep_refl [of "{}"], of "Tag d" "insert (Tag d) (cache_locs tid)"]
  by (auto simp: gtag_fun_repoint) (simp_all add: gtag_fun_def)

lemma combined_after: "others_keep (cache_locs tid) g g1 \<Longrightarrow> combined L tid d u g1 g' \<Longrightarrow> combined L tid d u g g'"
  unfolding combined_def by (auto intro: others_keep_trans)

text \<open>When the result is one of the arguments, it is shared.\<close>

lemma shared_combined:
  assumes ok: "pool_ok L {} g" and c: "\<forall>t. caches_ok g t" and L: "cache_locs tid \<subseteq> L" and d: "Tag d \<in> L" "tag_at g (Tag d) = 0"
    and f: "gtag_fun g (Tag a) f" "gtag_fun g (Tag b) h" "gtag_fun g (Tag v) (\<lambda>\<sigma>. f \<sigma> \<or> h \<sigma>)"
  shows "combined L tid d (\<lambda>\<sigma>. f \<sigma> \<or> h \<sigma>) g (tag_copy (Tag d) (Tag v) (remember tid (Tag a) (Tag b) (Tag v) g))"
proof -
  let ?g1 = "remember tid (Tag a) (Tag b) (Tag v) g"
  have "\<forall>t. t \<noteq> tid \<longrightarrow> caches_ok g t" using c by simp
  note r = remember_ok [OF ok this L f]
  have n: "Tag x \<notin> cache_locs tid" for x by (simp add: cache_locs_def)
  have "tag_at ?g1 (Tag d) = 0" "gtag_fun ?g1 (Tag v) (\<lambda>\<sigma>. f \<sigma> \<or> h \<sigma>)"
    using r(2) n d(2) f(3) by (simp_all add: others_keep_def)
  from copy_combined [OF r(1) d(1) this] show ?thesis by (rule combined_after [OF r(2)])
qed

lemma fresh_combined:
  assumes ok: "pool_ok L {p} g" and one: "ref_count g p = 1" and c: "\<forall>t. caches_ok g t" and L: "cache_locs tid \<subseteq> L"
    and d: "Tag d \<in> L" "tag_at g (Tag d) = 0" and ab: "tag_at g (Tag a) \<noteq> 0" "tag_at g (Tag b) \<noteq> 0"
    and f: "gtag_fun g (Tag a) f" "gtag_fun g (Tag b) h"
    and res: "bdd (nodes (gbdds g)) 0 res (\<lambda>\<sigma>. f \<sigma> \<or> h \<sigma>)" "depends_on (\<lambda>\<sigma>. f \<sigma> \<or> h \<sigma>) {..<TAG_WIDTH}" "res \<noteq> 0"
  shows "gc_gives (bindE (store_bdd p res g) (\<lambda>g. Inr (remember tid (Tag a) (Tag b) (Tag d) (set_tag (Tag d) p g))))
    (combined L tid d (\<lambda>\<sigma>. f \<sigma> \<or> h \<sigma>) g)"
proof (rule give_tag_gives [OF ok one d(2,1) res])
  fix g1 assume g1: "pool_ok L {} g1" "others_keep {Tag d} g g1" "gtag_fun g1 (Tag d) (\<lambda>\<sigma>. f \<sigma> \<or> h \<sigma>)"
  have ne: "a \<noteq> d" "b \<noteq> d" using ab d by auto
  then have f1: "gtag_fun g1 (Tag a) f" "gtag_fun g1 (Tag b) h" using f g1(2) by (simp_all add: others_keep_def)
  have "\<forall>t. t \<noteq> tid \<longrightarrow> caches_ok g1 t" using caches_keep [OF g1(2)] c by (auto simp: cache_locs_def)
  note r = remember_ok [OF g1(1) this L f1 g1(3)]
  have "Tag d \<notin> cache_locs tid" by (simp add: cache_locs_def)
  then have "gtag_fun (remember tid (Tag a) (Tag b) (Tag d) g1) (Tag d) (\<lambda>\<sigma>. f \<sigma> \<or> h \<sigma>)"
    using r(2) g1(3) by (simp add: others_keep_def)
  moreover have "others_keep (insert (Tag d) (cache_locs tid)) g (remember tid (Tag a) (Tag b) (Tag d) g1)"
    by (rule others_keep_trans [OF g1(2) r(2)]) auto
  ultimately show "combined L tid d (\<lambda>\<sigma>. f \<sigma> \<or> h \<sigma>) g (remember tid (Tag a) (Tag b) (Tag d) g1)"
    using r(1) by (simp add: combined_def)
qed

lemma gc_combine_gives:
  assumes ok: "gc_ok L g" and L: "cache_locs tid \<subseteq> L" and d: "Tag d \<in> L" "tag_at g (Tag d) = 0"
    and sp: "fresh_blk g (malloc (ssa_blk_list g))" and f: "gtag_fun g (Tag a) f" "gtag_fun g (Tag b) h"
  shows "gc_gives (gc_tag_combine malloc (Tag a) (Tag b) tid (Tag d) g) (combined L tid d (\<lambda>\<sigma>. f \<sigma> \<or> h \<sigma>) g)"
proof -
  let ?u = "\<lambda>\<sigma>. f \<sigma> \<or> h \<sigma>" and ?a = "tag_at g (Tag a)" and ?b = "tag_at g (Tag b)"
  have pk: "pool_ok L {} g" and c: "\<forall>t. caches_ok g t" using ok by (simp_all add: gc_ok_def)
  consider "?a = 0" | "?a \<noteq> 0" "?b = 0 \<or> tag_eq (Tag a) (Tag b) g"
    | "?a \<noteq> 0" "?b \<noteq> 0" "\<not> tag_eq (Tag a) (Tag b) g" "tag_eq (Cb_cache_l tid) (Tag a) g" "tag_eq (Cb_cache_r tid) (Tag b) g"
    | "?a \<noteq> 0" "?b \<noteq> 0" "\<not> tag_eq (Tag a) (Tag b) g" "\<not> (tag_eq (Cb_cache_l tid) (Tag a) g \<and> tag_eq (Cb_cache_r tid) (Tag b) g)"
    by blast
  then show ?thesis
  proof cases
    case 1
    then have "f = (\<lambda>_. False)" using gtag_fun_null f(1) by simp
    then have "gtag_fun g (Tag b) ?u" using f(2) by simp
    then show ?thesis using 1 copy_combined [OF ok d] by (simp add: gc_tag_combine_def)
  next
    case 2
    then have "h = (\<lambda>_. False) \<or> h = f"
      using gtag_fun_null [of g "Tag b" h] tag_eq_fun(1) [of "Tag a" "Tag b" g] gtag_fun_unique f by metis
    then have "?u = f" by auto
    then have "gtag_fun g (Tag a) ?u" using f(1) by simp
    then show ?thesis using 2 copy_combined [OF ok d] by (simp add: gc_tag_combine_def)
  next
    case 3
    note e = tag_eq_fun [OF 3(4)] tag_eq_fun [OF 3(5)]
    have "tag_at g (Cb_cache_l tid) \<noteq> 0" using e(2) 3(1) by simp
    then obtain f' h' where fh: "gtag_fun g (Tag a) f'" "gtag_fun g (Tag b) h'" "gtag_fun g (Cb_cache_v tid) (\<lambda>\<sigma>. f' \<sigma> \<or> h' \<sigma>)"
      using c e(1,3) by (auto simp: caches_ok_def)
    then have "f' = f" "h' = h" using gtag_fun_unique f by blast+
    then have "gtag_fun g (Cb_cache_v tid) ?u" using fh(3) by simp
    then show ?thesis using 3 copy_combined [OF ok d] by (simp add: gc_tag_combine_def)
  next
    case 4
    define rest where "rest = (\<lambda>(res, g).
       if res = bdd_of g (tag_at g (Tag a)) then Inr (tag_copy (Tag d) (Tag a) (remember tid (Tag a) (Tag b) (Tag a) g))
       else if res = bdd_of g (tag_at g (Tag b)) then Inr (tag_copy (Tag d) (Tag b) (remember tid (Tag a) (Tag b) (Tag b) g))
       else bindE (take_ssa malloc g) (\<lambda>(victim, g).
         let g = g\<lparr>ref_count := (ref_count g)(victim := 1)\<rparr> in
         bindE (store_bdd victim res g) (\<lambda>g. Inr (remember tid (Tag a) (Tag b) (Tag d) (set_tag (Tag d) victim g)))))"
    have m: "gc_tag_combine malloc (Tag a) (Tag b) tid (Tag d) g = bindE (gc_combine_task (bdd_of g ?a) (bdd_of g ?b) g) rest"
      by (simp only: gc_tag_combine_def rest_def 4 if_False simp_thms)
    from combine_task_keep [OF pk 4(1,2) f] show ?thesis
    proof (cases rule: gives_cases)
      case (stop e)
      then show ?thesis unfolding m gc_combine_task_def by (auto simp: bindE_eq_Inl)
    next
      case (result res st v)
      let ?g = "g\<lparr>gbdds := st\<rparr>"
      have task: "gc_combine_task (bdd_of g ?a) (bdd_of g ?b) g = Inr (res, ?g)"
        using result(1) unfolding gc_combine_task_def by (auto simp: bindE_eq_Inr)
      note g1 = pool_bdd_step(1) [OF pk result(2,3)] and kt = keeps_bdd_step [OF pk result(2,3)]
      have o: "others_keep {} g ?g" by (rule keeps_others [OF kt])
      have c1: "\<forall>t. caches_ok ?g t" using c caches_keep [OF o] by simp
      have f1: "gtag_fun ?g (Tag a) f" "gtag_fun ?g (Tag b) h" using f keeps_gtag [OF kt] by blast+
      have t: "tag_at ?g = tag_at g" by simp
      have n: "bdd (nodes (gbdds ?g)) 0 res ?u" using result by simp
      have w: "depends_on ?u {..<TAG_WIDTH}" using f 4(1,2) by (auto simp: gtag_fun_def obj_fun_def intro: depends_or)
      have d1: "tag_at ?g (Tag d) = 0" using d(2) by simp
      have after: "gc_gives (rest (res, ?g)) (combined L tid d ?u ?g)"
      proof -
        consider "res = bdd_of ?g ?a" | "res \<noteq> bdd_of ?g ?a" "res = bdd_of ?g ?b" | "res \<noteq> bdd_of ?g ?a" "res \<noteq> bdd_of ?g ?b"
          by blast
        then show ?thesis
        proof cases
          case 1
          then have "gtag_fun ?g (Tag a) ?u" using n w 4(1) by (simp add: gtag_fun_def obj_fun_def)
          from shared_combined [OF g1 c1 L d(1) d1 f1 this] show ?thesis using 1 by (simp add: rest_def)
        next
          case 2
          then have "gtag_fun ?g (Tag b) ?u" using n w 4(2) by (simp add: gtag_fun_def obj_fun_def)
          from shared_combined [OF g1 c1 L d(1) d1 f1 this] show ?thesis using 2 by (simp add: rest_def)
        next
          case 3
          have sp1: "fresh_blk ?g (malloc (ssa_blk_list ?g))"
            using fresh_blk_keep [OF sp, of ?g] by (simp add: cells_def)
          obtain p g2 where g2: "take_ssa malloc ?g = Inr (p, g2)" "pool_ok L {p} g2" "keeps_tags ?g g2"
            "nodes (gbdds g2) = nodes (gbdds ?g)"
            using take_ssa_spec [where malloc = malloc, OF g1 sp1] by blast
          let ?g3 = "g2\<lparr>ref_count := (ref_count g2)(p := 1)\<rparr>"
          note g3 = count_one_ok(1) [OF g2(2)] keeps_tags_trans [OF g2(3) count_one_ok(2) [OF g2(2)]]
          have o3: "others_keep {} ?g ?g3" by (rule keeps_others [OF g3(2)])
          have c3: "\<forall>t. caches_ok ?g3 t" using c1 caches_keep [OF o3] by simp
          have t3: "tag_at ?g3 = tag_at ?g" using g3(2) unfolding keeps_tags_def by blast
          have f3: "gtag_fun ?g3 (Tag a) f" "gtag_fun ?g3 (Tag b) h" using f1 keeps_gtag [OF g3(2)] by blast+
          have n3: "bdd (nodes (gbdds ?g3)) 0 res ?u" using n g2(4) by simp
          have "?u \<noteq> (\<lambda>_. False)" using gtag_fun_false [OF pk f(1)] 4(1) by (metis (full_types))
          then have nz: "res \<noteq> 0" using res_nonzero [OF n] by blast
          have "gc_gives (bindE (store_bdd p res ?g3) (\<lambda>g. Inr (remember tid (Tag a) (Tag b) (Tag d) (set_tag (Tag d) p g))))
            (combined L tid d ?u ?g3)"
            by (rule fresh_combined [OF g3(1) _ c3 L d(1) _ _ _ f3 n3 w nz]) (use t3 d(2) 4(1,2) in simp_all)
          then have "gc_gives (bindE (store_bdd p res ?g3) (\<lambda>g. Inr (remember tid (Tag a) (Tag b) (Tag d) (set_tag (Tag d) p g))))
            (combined L tid d ?u ?g)"
            using others_keep_trans [OF o3] by (auto simp: gc_gives_def combined_def split: sum.splits)
          moreover have "rest (res, ?g) = bindE (store_bdd p res ?g3) (\<lambda>g. Inr (remember tid (Tag a) (Tag b) (Tag d) (set_tag (Tag d) p g)))"
            using 3 g2(1) by (simp add: rest_def Let_def)
          ultimately show ?thesis by simp
        qed
      qed
      then show ?thesis
        unfolding m task bindE_simps using others_keep_trans [OF o] by (auto simp: gc_gives_def combined_def split: sum.splits)
    qed
  qed
qed

section \<open>Threads\<close>

lemma repoint_cache_ok:
  assumes ok: "gc_ok L g" and l: "l \<in> L" and null: "\<forall>t. l \<in> cache_locs t \<longrightarrow> l = Cb_cache_l t \<or> tag_at g (Cb_cache_l t) = 0"
  shows "gc_ok L (repoint l 0 g)"
proof -
  have "pool_ok L {} (repoint l 0 g)" using repoint_ok [of L "{}" g l 0] ok l by (simp add: gc_ok_def)
  moreover have "caches_ok (repoint l 0 g) t" for t
  proof (cases "l \<in> cache_locs t")
    case True
    then have "tag_at (repoint l 0 g) (Cb_cache_l t) = 0" using null by (auto simp: repoint_sel)
    then show ?thesis by (simp add: caches_ok_def)
  next
    case False
    then show ?thesis using ok caches_keep [OF repoint_others [of l g 0]] by (simp add: gc_ok_def)
  qed
  ultimately show ?thesis by (simp add: gc_ok_def)
qed

lemma thread_fini_ok:
  assumes ok: "gc_ok L g" and L: "cache_locs tid \<subseteq> L"
  shows "gc_ok L (gc_thread_fini tid g)" "others_keep (cache_locs tid) g (gc_thread_fini tid g)"
    "\<forall>l \<in> cache_locs tid. tag_at (gc_thread_fini tid g) l = 0"
proof -
  have in_L: "Cb_cache_l tid \<in> L" "Cb_cache_r tid \<in> L" "Cb_cache_v tid \<in> L" using L by (simp_all add: cache_locs_def)
  let ?g1 = "repoint (Cb_cache_l tid) 0 g" and ?g2 = "repoint (Cb_cache_r tid) 0 (repoint (Cb_cache_l tid) 0 g)"
  have f: "gc_thread_fini tid g = repoint (Cb_cache_v tid) 0 ?g2" by (simp add: gc_thread_fini_def tag_destroy_repoint)
  have ok1: "gc_ok L ?g1" by (rule repoint_cache_ok [OF ok in_L(1)]) (auto simp: cache_locs_def)
  have ok2: "gc_ok L ?g2" by (rule repoint_cache_ok [OF ok1 in_L(2)]) (auto simp: cache_locs_def repoint_sel)
  show "gc_ok L (gc_thread_fini tid g)"
    unfolding f by (rule repoint_cache_ok [OF ok2 in_L(3)]) (auto simp: cache_locs_def repoint_sel)
  show "others_keep (cache_locs tid) g (gc_thread_fini tid g)"
    unfolding f by (rule others_keep_trans [OF others_keep_trans [OF repoint_others repoint_others subset_refl] repoint_others])
      (auto simp: cache_locs_def)
  show "\<forall>l \<in> cache_locs tid. tag_at (gc_thread_fini tid g) l = 0" unfolding f by (auto simp: cache_locs_def repoint_sel)
qed

lemma thread_start_same: "\<forall>l \<in> cache_locs tid. tag_at g l = 0 \<Longrightarrow> gc_thread_start tid g = g"
  by (auto simp: gc_thread_start_def set_tag_def cache_locs_def fun_upd_idem)

section \<open>Start\<close>

lemma gc_start_ok:
  assumes st: "bdd_ok st" "pstack st = []" and P: "protect_ok (mtbdd_protected st)" "protect_bag (mtbdd_protected st) = {#var_ptr#}"
    and v: "var_ptr \<noteq> 0" "var_ptr \<noteq> refs_ts" and vs: "bdd (nodes st) 0 vs (cube_fun {0..<TAG_WIDTH})"
    and L: "finite L" "card L < 2 ^ 63" and fresh: "\<forall>p \<in> set (blk_cells (malloc [])). user_cell p \<and> bdd_field p \<noteq> var_ptr"
  shows "gc_ok L (add_ssa_blk malloc \<lparr>gbdds = st\<lparr>memory := (memory st)(var_ptr := vs)\<rparr>, var_set_ptr = var_ptr, ref_count = counts,
         ssa_blk_list = [], free_q = q, free_h = 0, free_t = 0, gc_lock = 0, tag_at = (\<lambda>_. 0)\<rparr>)"
proof -
  let ?g = "\<lparr>gbdds = st\<lparr>memory := (memory st)(var_ptr := vs)\<rparr>, var_set_ptr = var_ptr, ref_count = counts,
         ssa_blk_list = [], free_q = q, free_h = 0, free_t = 0, gc_lock = 0, tag_at = (\<lambda>_. 0)\<rparr>"
  have c: "cells ?g = []" by (simp add: cells_def)
  have "roots (gbdds ?g) \<subseteq> insert vs (roots st)" using st(2) by (auto simp: roots_def)
  then have bok: "bdd_ok (gbdds ?g)"
    using bdd_valid [OF vs] by (intro bdd_ok_roots [OF st(1)]) auto
  have "pool_ok L {} ?g"
    unfolding pool_ok_def
  proof (intro conjI)
    show "pool_shape {} ?g" by (simp add: pool_shape_def c)
    show "protects {} ?g" using P v by (simp add: protects_def c)
    show "counts_ok L {} ?g" using L by (simp add: counts_ok_def c)
    show "diagrams_ok {} ?g" using bok st(2) vs by (simp add: diagrams_ok_def is_set_def has_bdd_def c)
  qed
  moreover have "fresh_blk ?g (malloc (ssa_blk_list ?g))" using fresh by (simp add: fresh_blk_def c)
  ultimately have "pool_ok L {} (add_ssa_blk malloc ?g)" by (rule add_blk_ok)
  moreover have "tag_at (add_ssa_blk malloc ?g) l = 0" for l by (simp add: add_ssa_blk_def Let_def split_def)
  ultimately show ?thesis by (simp add: gc_ok_def caches_ok_def)
qed

text \<open>\<open>var_set\<close> is a global variable, so it is zero at first.\<close>

lemma gc_init_ok:
  assumes env: "my_region env = -1" "0 < lace_n_workers_id env" and v: "var_ptr \<noteq> 0" "var_ptr \<noteq> refs_ts" "mem var_ptr = 0"
    and L: "finite L" "card L < 2 ^ 63" and fresh: "\<forall>p \<in> set (blk_cells (malloc [])). user_cell p \<and> bdd_field p \<noteq> var_ptr"
  shows "gc_gives (gc_ssa_init env mem malloc var_ptr counts q) (gc_ok L)"
proof -
  obtain dbs cs where p: "sylvan_init_package env ssa_sizes = Inr (dbs, cs)" using ssa_package by blast
  obtain st where m: "sylvan_init_mtbdd dbs cs mem = Inr st" using ssa_mtbdd by blast
  have ok: "bdd_ok st" using sylvan_init_ok(1) [OF p m _ _ env] by (simp add: ssa_sizes_def)
  have sel: "memory st = mem" "pstack st = []" "protect_create 4096 = Inr (mtbdd_protected st)"
    using m by (auto simp: sylvan_init_mtbdd_def split_def bindE_eq_Inr Let_def)
  have "power2 4096" unfolding power2_def by (rule exI [of _ 12]) simp
  then have P: "protect_ok (mtbdd_protected st)" "protect_bag (mtbdd_protected st) = {#}"
    using protect_create_spec [OF sel(3)] by simp_all
  have few: "size (protect_bag (mtbdd_protected st)) < 2 ^ 44" using P(2) by simp
  consider (stop) e where "protect_up (mtbdd_protected st) var_ptr = Inl e" "e \<in> {AssertFail, OutOfFuel}"
    | (result) P' where "protect_up (mtbdd_protected st) var_ptr = Inr P'" "protect_ok P'" "protect_bag P' = {#var_ptr#}"
    using protect_up_spec [OF P(1) few v(1,2)] P(2) by metis
  then show ?thesis
  proof cases
    case stop
    then show ?thesis by (auto simp: gc_ssa_init_def ssa_limits p m mtbdd_protect_def)
  next
    case result
    let ?st = "st\<lparr>mtbdd_protected := P'\<rparr>"
    have z: "valid st 0" using bdd_valid [OF bdd.bdd_false] by (simp add: mtbdd_false_def)
    have "roots ?st \<subseteq> insert 0 (roots st)" using result(3) sel v(3) by (auto simp: roots_def protect_set)
    then have ok1: "bdd_ok ?st" using z by (intro bdd_ok_roots [OF ok]) auto
    from variables_set [OF ok1] show ?thesis
    proof (cases rule: gives_cases)
      case (stop e)
      then show ?thesis using result(1) by (auto simp: gc_ssa_init_def ssa_limits p m mtbdd_protect_def)
    next
      case (result vs t f)
      have k: "mtbdd_protected t = P'" "pstack t = []"
        using same_but_tables_sel [of ?st t] result(3) sel by (simp_all add: keep_def)
      have "gc_ok L (add_ssa_blk malloc \<lparr>gbdds = t\<lparr>memory := (memory t)(var_ptr := vs)\<rparr>, var_set_ptr = var_ptr,
         ref_count = counts, ssa_blk_list = [], free_q = q, free_h = 0, free_t = 0, gc_lock = 0, tag_at = (\<lambda>_. 0)\<rparr>)"
        by (rule gc_start_ok) (use result k \<open>protect_ok P'\<close> \<open>protect_bag P' = {#var_ptr#}\<close> v L fresh in simp_all)
      then show ?thesis
        using result(1) \<open>protect_up _ _ = Inr P'\<close> by (simp add: gc_ssa_init_def ssa_limits p m mtbdd_protect_def)
    qed
  qed
qed

section \<open>Runs\<close>

text \<open>The steps of a program; \<open>malloc\<close> answers memory that is free.\<close>

inductive gc_step :: "(u64 list \<Rightarrow> u64) \<Rightarrow> tag_loc set \<Rightarrow> gc_state \<Rightarrow> gc_state \<Rightarrow> bool" for malloc L where
  step_tag: "tag_op L D g g' \<Longrightarrow> gc_step malloc L g g'"
| step_alloc: "Tag a \<in> L \<Longrightarrow> tag_at g (Tag a) = 0 \<Longrightarrow> fresh_blk g (malloc (ssa_blk_list g)) \<Longrightarrow>
    gc_tag_alloc malloc offset (Tag a) g = Inr g' \<Longrightarrow> gc_step malloc L g g'"
| step_combine: "cache_locs tid \<subseteq> L \<Longrightarrow> Tag d \<in> L \<Longrightarrow> tag_at g (Tag d) = 0 \<Longrightarrow> fresh_blk g (malloc (ssa_blk_list g)) \<Longrightarrow>
    gc_tag_combine malloc (Tag a) (Tag b) tid (Tag d) g = Inr g' \<Longrightarrow> gc_step malloc L g g'"
| step_start: "\<forall>l \<in> cache_locs tid. tag_at g l = 0 \<Longrightarrow> gc_step malloc L g (gc_thread_start tid g)"
| step_fini: "cache_locs tid \<subseteq> L \<Longrightarrow> gc_step malloc L g (gc_thread_fini tid g)"

lemma gc_step_ok: "gc_step malloc L g g' \<Longrightarrow> gc_ok L g \<Longrightarrow> gc_ok L g'"
proof (induction rule: gc_step.induct)
  case (step_tag D g g')
  then show ?case using tag_op_ok by blast
next
  case (step_alloc a g offset g')
  then show ?case using gc_alloc_gives [of L g a malloc offset] by simp
next
  case (step_combine tid d g a b g')
  have "pool_ok L {} g" using step_combine.prems by (simp add: gc_ok_def)
  then obtain f h where "gtag_fun g (Tag a) f" "gtag_fun g (Tag b) h" using gtag_fun_exists by metis
  with step_combine show ?case using gc_combine_gives [of L g tid d malloc a f b h] by (simp add: combined_def)
next
  case (step_start tid g)
  then show ?case by (simp add: thread_start_same)
next
  case (step_fini tid g)
  then show ?case using thread_fini_ok by blast
qed

lemma gc_steps_ok: "(gc_step malloc L)\<^sup>*\<^sup>* g g' \<Longrightarrow> gc_ok L g \<Longrightarrow> gc_ok L g'"
  by (induction rule: rtranclp_induct) (auto intro: gc_step_ok)

text \<open>What the invariant says of one tag.\<close>

lemma gc_ok_held:
  assumes ok: "gc_ok L g" and l: "tag_at g l \<noteq> 0"
  shows "ref_count g (tag_at g l) = of_nat (card (holders g (tag_at g l)))" "tag_at g l \<notin> set (queued g)"
    "bdd_field (tag_at g l) \<in> set (protect_list (mtbdd_protected (gbdds g)))"
proof -
  have pk: "pool_ok L {} g" using ok by (simp add: gc_ok_def)
  note h = held_object [OF pk l]
  have "count_right g (tag_at g l)" using h(4) pk by (simp add: pool_ok_def counts_ok_def)
  moreover have "l \<in> holders g (tag_at g l)" by (simp add: holders_def)
  ultimately show "ref_count g (tag_at g l) = of_nat (card (holders g (tag_at g l)))"
    by (auto simp: count_right_def split: if_splits)
  show "tag_at g l \<notin> set (queued g)" by (rule h(3))
  show "bdd_field (tag_at g l) \<in> set (protect_list (mtbdd_protected (gbdds g)))"
    using h(1) pk by (auto simp: pool_ok_def protects_def protect_set has_bdd_def)
qed

section \<open>Taint and printing\<close>

definition gc_taint :: "gc_state \<Rightarrow> tag_loc \<Rightarrow> nat set" where
  "gc_taint g l = {n. \<exists>f. gtag_fun g l f \<and> holds_offset f n}"

lemma gc_taint_eq: "gtag_fun g l f \<Longrightarrow> gc_taint g l = {n. holds_offset f n}"
  unfolding gc_taint_def using gtag_fun_unique by blast

lemma gc_taint_offset: "gtag_fun g l (offset_fun offset) \<Longrightarrow> gc_taint g l = {unat offset mod 2 ^ TAG_WIDTH}"
  by (auto simp: gc_taint_eq holds_offset_fun)

lemma gc_taint_or: "gtag_fun g a f \<Longrightarrow> gtag_fun g b h \<Longrightarrow> gtag_fun g' d (\<lambda>\<sigma>. f \<sigma> \<or> h \<sigma>) \<Longrightarrow>
  gc_taint g' d = gc_taint g a \<union> gc_taint g b"
  by (auto simp: gc_taint_eq holds_offset_def)

lemma others_keep_taint:
  "pool_ok L X g \<Longrightarrow> others_keep D g g' \<Longrightarrow> l \<notin> D \<Longrightarrow> tag_at g' l = tag_at g l \<and> gc_taint g' l = gc_taint g l"
  using gtag_fun_exists [of L X g l] gc_taint_eq unfolding others_keep_def by metis

definition gc_tag_print :: "tag_loc \<Rightarrow> u8 list \<Rightarrow> gc_state \<Rightarrow> serror + u32 list" where
  "gc_tag_print l res g =
    (let tag_bdd = bdd_of g (tag_at g l); var_set = memory (gbdds g) (var_set_ptr g)
     in bindE (if tag_at g l = 0 then Inr []
               else bindE (mtbdd_enum_all_first (nodes (gbdds g)) None tag_bdd var_set res) (\<lambda>(leaf, res).
                 print_loop bdd_fuel (nodes (gbdds g)) tag_bdd var_set leaf res []))
          (\<lambda>offset_buf. Inr (sort offset_buf)))"

lemma gc_print_correct:
  assumes ok: "gc_ok L g" and res: "length res = TAG_WIDTH"
  shows "\<exists>os. gc_tag_print l res g = Inr os \<and> sorted os \<and> distinct os \<and> unat ` set os = gc_taint g l"
proof (cases "tag_at g l = 0")
  case True
  then have "gtag_fun g l (\<lambda>_. False)" by (simp add: gtag_fun_null)
  then show ?thesis using True by (auto simp: gc_tag_print_def gc_taint_eq holds_offset_def)
next
  case False
  have pk: "pool_ok L {} g" using ok by (simp add: gc_ok_def)
  let ?s = "\<lparr>bdds = gbdds g, var_set = memory (gbdds g) (var_set_ptr g), ssa_tls = (\<lambda>_. \<lparr>cb_cache_l = 0, cb_cache_r = 0, cb_cache_v = 0\<rparr>)\<rparr>"
  obtain f where f: "gtag_fun g l f" using gtag_fun_exists [OF pk] by blast
  have s: "ssa_sound ?s" using pk by (simp add: ssa_sound_def pool_ok_def diagrams_ok_def remembers_def)
  have t: "tag_fun ?s (bdd_of g (tag_at g l)) f" using f False by (simp add: gtag_fun_def obj_fun_def tag_fun_def)
  have nz: "bdd_of g (tag_at g l) \<noteq> 0" using held_object(1) [OF pk False] pk by (simp add: pool_ok_def diagrams_ok_def)
  have "gc_tag_print l res g = ssa_tag_print (bdd_of g (tag_at g l)) res ?s"
    using False nz by (simp add: gc_tag_print_def ssa_tag_print_def Let_def)
  then show ?thesis using ssa_print_correct [OF s t res] ssa_taint [OF t] gc_taint_eq [OF f] by simp
qed

end
