(* ===== verification/SsaGcExample.thy ===== *)
theory SsaGcExample
  imports SsaGcRun
begin

text \<open>
  A small instance of the collected tags: the smallest tables, one block of objects, and two
  fresh tags. Every step succeeds because there is room in the table of nodes and in the table
  of protected addresses.
\<close>

section \<open>Room\<close>

text \<open>A table with fewer than 128 addresses finds a bucket for another one.\<close>

lemma probe_ts: "protect_probe m arr n b (Some t) \<noteq> None"
  by (induction m arbitrary: b) (auto simp: Let_def)

lemma probe_none_full:
  "0 < n \<Longrightarrow> protect_probe m arr n (k mod n) None = None \<Longrightarrow> i < m \<Longrightarrow> used_bucket arr ((k + i) mod n)"
proof (induction m arbitrary: k i)
  case (Suc m)
  have u: "used_bucket arr (k mod n)"
    using Suc.prems(2) probe_ts [of m arr n "next_bucket n (k mod n)" "k mod n"]
    by (auto simp: used_bucket_def Let_def split: if_splits)
  show ?case
  proof (cases i)
    case 0
    then show ?thesis using u by simp
  next
    case (Suc j)
    have "protect_probe m arr n (Suc k mod n) None = None"
      using Suc.prems(2) u next_bucket_mod [OF Suc.prems(1), of k] by (simp add: used_bucket_def)
    from Suc.IH [OF Suc.prems(1) this, of j] show ?thesis using Suc Suc.prems(3) by simp
  qed
qed simp

lemma mod_shift: "(k + i) mod n = (k + j) mod n \<Longrightarrow> i \<le> j \<Longrightarrow> j < (n::nat) \<Longrightarrow> i = j"
  using mod_eq_dvd_iff_nat [of "k + i" "k + j" n] by (cases "i = j") (auto dest!: dvd_imp_le)

lemma mod_shift_inj: "m \<le> (n::nat) \<Longrightarrow> inj_on (\<lambda>i. (k + i) mod n) {..<m}"
  using mod_shift [of k _ n] by (intro inj_onI) (metis lessThan_iff nat_le_linear order_less_le_trans)

lemma probe_room:
  assumes "protect_ok tbl" "size (protect_bag tbl) < 128"
  shows "protect_probe 128 (refs_arr tbl) (refs_size tbl) (first_bucket (refs_size tbl) a) None \<noteq> None"
proof
  let ?n = "refs_size tbl" and ?h = "first_bucket (refs_size tbl) a"
  assume none: "protect_probe 128 (refs_arr tbl) ?n ?h None = None"
  have n: "128 \<le> ?n" "?h mod ?n = ?h" using assms(1) by (simp_all add: protect_ok_def first_bucket_def)
  have "(\<lambda>i. (?h + i) mod ?n) ` {..<128} \<subseteq> {b \<in> {0..<?n}. used_bucket (refs_arr tbl) b}"
    using probe_none_full [of ?n 128 "refs_arr tbl" ?h] none n by auto
  then have "card ((\<lambda>i. (?h + i) mod ?n) ` {..<128}) \<le> card {b \<in> {0..<?n}. used_bucket (refs_arr tbl) b}"
    by (rule card_mono [rotated]) simp
  then have "128 \<le> card {b \<in> {0..<?n}. used_bucket (refs_arr tbl) b}"
    using card_image [OF mod_shift_inj [OF n(1), of ?h]] by simp
  also have "\<dots> = size (protect_bag tbl)"
    by (simp add: protect_bag_def contents_def)
  finally show False using assms(2) by simp
qed

lemma protect_up_room:
  assumes ok: "protect_ok tbl" "size (protect_bag tbl) < 128" and a: "a \<noteq> 0" "a \<noteq> refs_ts"
  shows "\<exists>tbl'. protect_up tbl a = Inr tbl' \<and> protect_bag tbl' = add_mset a (protect_bag tbl)"
proof -
  have "power2 (refs_size tbl)" using ok by (simp add: protect_ok_def)
  moreover have fuel: "refs_fuel = Suc 63" by (simp add: refs_fuel_def)
  ultimately have "protect_up tbl a \<noteq> Inl e" for e
    unfolding protect_up_def fuel protect_up_loop.simps using probe_room [OF ok, of a] by (auto simp: hash_mask)
  moreover have "size (protect_bag tbl) < 2 ^ 44" using ok(2) by simp
  ultimately show ?thesis using protect_up_spec [OF ok(1) _ a] by metis
qed

text \<open>A cube adds at most one node for each variable.\<close>

lemma cube_room:
  "bdd_ok st \<Longrightarrow> safe st x \<Longrightarrow> is_set (nodes st) vs x \<Longrightarrow> literals cs vs \<Longrightarrow> \<forall>c \<in> set cs. c = 0 \<or> c = 1 \<Longrightarrow>
   room (nodes st) (k + length vs) \<Longrightarrow>
   \<exists>r t. mtbdd_cube x cs mtbdd_true st = Inr (r, t) \<and> room (nodes t) k"
proof (induction cs arbitrary: vs x k)
  case Nil
  then show ?case using is_set_true [OF bdd_ok_table] by (auto simp: literals_def)
next
  case (Cons c cs)
  obtain v ws where vs: "vs = v # ws" using Cons.prems(4) by (cases vs) (auto simp: literals_def)
  note x = Cons.prems(3) [unfolded vs]
  note sn = set_node [OF bdd_ok_table [OF Cons.prems(1)] x]
  have l: "literals cs ws" using Cons.prems(4) vs by (auto simp: literals_def)
  let ?y = "mtbddnode_followhigh x (MTBDD_GETNODE (nodes st) x)"
  have s: "safe st ?y" using set_node_held [OF Cons.prems(1,2) x] .
  obtain r t where rt: "mtbdd_cube ?y cs mtbdd_true st = Inr (r, t)" "room (nodes t) (Suc k)"
    using Cons.IH [OF Cons.prems(1) s sn(6) l, of "Suc k"] Cons.prems(5,6) vs by auto
  have g: "gives keep st (mtbdd_cube ?y cs mtbdd_true st) (\<lambda>f. f = cube_sem ws cs (\<lambda>_. True))"
    by (rule cube_gives [OF Cons.prems(1) s sn(6) l bdd.bdd_true]) simp
  then have t: "bdd_ok t" "keep st t" "dd_word r" unfolding rt(1) gives_def by (auto intro: bdd_dd_word)
  have "is_set (nodes t) (v # ws) x" using keep_bdd [OF t(2) Cons.prems(2)] x by (simp add: is_set_def)
  then have u: "unat (getvar t x) < 2 ^ 24" using set_node(3,4) [OF bdd_ok_table [OF t(1)]] by (simp add: getvar_def)
  have "c = 0 \<or> c = 1" using Cons.prems(5) by simp
  then show ?case
    using rt makenode_room [OF t(1) rt(2) t(3) _ u, of mtbdd_false] makenode_room [OF t(1) rt(2) _ t(3) u, of mtbdd_false] sn(2)
    by (auto simp: Let_def dd_simps)
qed

text \<open>An allocation with a free object and room for the nodes and the address succeeds.\<close>

definition example_room_for :: "nat \<Rightarrow> nat \<Rightarrow> gc_state \<Rightarrow> bool" where
  "example_room_for k n g \<longleftrightarrow> room (nodes (gbdds g)) k \<and> n < length (queued g) \<and>
     size (protect_bag (mtbdd_protected (gbdds g))) + n < 128"

lemma alloc_room:
  assumes ok: "gc_ok L g" and dst: "Tag a \<in> L" "tag_at g (Tag a) = 0" and sp: "fresh_blk g (malloc (ssa_blk_list g))"
    and rm: "example_room_for (k + TAG_WIDTH) (Suc n) g"
  obtains g' where "gc_tag_alloc malloc offset (Tag a) g = Inr g'" "gc_ok L g'" "others_keep {Tag a} g g'"
    "gtag_fun g' (Tag a) (offset_fun offset)" "example_room_for k n g'" "ssa_blk_list g' = ssa_blk_list g"
    "var_set_ptr g' = var_set_ptr g"
proof -
  have pk: "pool_ok L {} g" using ok by (simp add: gc_ok_def)
  have shape: "free_h g < SSA_BLK" "free_t g < SSA_BLK" using pk by (simp_all add: pool_ok_def pool_shape_def)
  have ne: "free_h g \<noteq> free_t g" using rm by (auto simp: example_room_for_def)
  let ?p = "free_q g (free_h g)"
  define g1 where "g1 = g\<lparr>free_h := Suc (free_h g) mod SSA_BLK\<rparr>"
  have q: "queued g = ?p # queued g1" unfolding ring_Cons [OF shape ne] by (simp add: g1_def)
  have take: "take_ssa malloc g = Inr (?p, g1)" using ne by (simp add: take_ssa_def numeral_2_eq_2 Let_def g1_def)
  have dg: "diagrams_ok {} g" and pr: "protects {} g" using pk by (simp_all add: pool_ok_def)
  then have bok: "bdd_ok (gbdds g)" and v: "is_set (nodes (gbdds g)) [0..<TAG_WIDTH] (memory (gbdds g) (var_set_ptr g))"
    by (simp_all add: diagrams_ok_def)
  have s: "safe (gbdds g) (memory (gbdds g) (var_set_ptr g))"
    using root_safe [OF var_set_root [OF pr]] v by (auto simp: is_set_def)
  have "\<exists>r t. mtbdd_cube (memory (gbdds g) (var_set_ptr g)) (offset_array offset) mtbdd_true (gbdds g) = Inr (r, t) \<and>
      room (nodes t) k"
    by (rule cube_room [OF bok s v]) (use rm literals_bits in \<open>auto simp: offset_array_bits example_room_for_def\<close>)
  then obtain r t where cube: "mtbdd_cube (memory (gbdds g) (var_set_ptr g)) (offset_array offset) mtbdd_true (gbdds g) = Inr (r, t)"
    "room (nodes t) k" by blast
  then have k: "keep (gbdds g) t" using alloc_task_gives [OF pk, of offset] by (simp add: gives_def)
  then have prot: "mtbdd_protected t = mtbdd_protected (gbdds g)" using same_but_tables_sel(5) by (auto simp: keep_def)
  have "?p \<in> set (queued g)" using q by simp
  then have p: "user_cell ?p" using pk by (auto simp: pool_ok_def pool_shape_def)
  obtain P where P: "protect_up (mtbdd_protected (gbdds g)) (bdd_field ?p) = Inr P"
    "protect_bag P = add_mset (bdd_field ?p) (protect_bag (mtbdd_protected (gbdds g)))"
    using protect_up_room [of "mtbdd_protected (gbdds g)" "bdd_field ?p"] bdd_field_ok [OF p] rm pr
    by (auto simp: example_room_for_def protects_def)
  define g' where "g' = set_tag (Tag a) ?p (g1\<lparr>ref_count := (ref_count g)(?p := 1),
    gbdds := t\<lparr>memory := (memory t)(bdd_field ?p := r), mtbdd_protected := P\<rparr>\<rparr>)"
  have al: "gc_tag_alloc malloc offset (Tag a) g = Inr g'"
    using cube(1) P(1) prot by (simp add: gc_tag_alloc_def take gc_alloc_task_def store_bdd_def set_bdd_def mtbdd_protect_def Let_def g1_def g'_def)
  have "queued g' = queued g1" by (simp add: g'_def set_tag_def)
  then have "example_room_for k n g'"
    using rm cube(2) P(2) q by (simp add: example_room_for_def) (simp add: g'_def set_tag_def)
  moreover have "ssa_blk_list g' = ssa_blk_list g" "var_set_ptr g' = var_set_ptr g" by (simp_all add: g'_def g1_def set_tag_def)
  moreover have "gc_ok L g' \<and> others_keep {Tag a} g g' \<and> gtag_fun g' (Tag a) (offset_fun offset)"
    using gc_alloc_gives [of L g a malloc offset, OF ok dst sp] al by simp
  ultimately show thesis using that al by blast
qed

section \<open>The example\<close>

definition example_malloc :: "u64 list \<Rightarrow> u64" where
  "example_malloc blks = 0x10000 + of_nat (length blks) * 0x100000"

definition example_locs :: "tag_loc set" where
  "example_locs = {Tag 0, Tag 8, Tag 16} \<union> cache_locs 0"

definition example_prot :: refs_table where
  "example_prot = (example_refs 4096)\<lparr>refs_arr := (\<lambda>_. 0)(first_bucket 4096 24 := 24)\<rparr>"

definition example_pool :: gc_state where
  "example_pool = add_ssa_blk example_malloc
    \<lparr>gbdds = (bdds example_ssa)\<lparr>mtbdd_protected := example_prot, memory := (memory (bdds example_ssa))(24 := var_set example_ssa)\<rparr>,
     var_set_ptr = 24, ref_count = (\<lambda>_. 0), ssa_blk_list = [], free_q = (\<lambda>_. 0), free_h = 0, free_t = 0, gc_lock = 0,
     tag_at = (\<lambda>_. 0)\<rparr>"

lemma example_prot_ok: "protect_ok example_prot" "protect_bag example_prot = {#24#}"
proof -
  have "power2 4096" unfolding power2_def by (rule exI [of _ 12]) simp
  moreover have f: "first_bucket 4096 24 < 4096" by (simp add: first_bucket_def)
  moreover have "placed 4096 ((\<lambda>_. 0)(first_bucket 4096 24 := 24))"
    by (rule placed_add [of _ _ 0]) (use f in \<open>simp_all add: placed_def used_bucket_def\<close>)
  ultimately show "protect_ok example_prot" by (simp add: protect_ok_def example_prot_def example_refs_def)
  have "\<not> used_bucket (\<lambda>_. 0) (first_bucket 4096 24)" by (simp add: used_bucket_def)
  from contents_add [OF f this, of 24] show "protect_bag example_prot = {#24#}"
    by (simp add: protect_bag_def example_prot_def example_refs_def contents_empty refs_ts_def)
qed

lemma example_blk: "p \<in> set (blk_cells (example_malloc blks)) \<Longrightarrow> length blks < 2 ^ 20 \<Longrightarrow>
  unat p \<ge> 0x10000 + length blks * 0x100000 \<and> unat p < 0x10000 + length blks * 0x100000 + 0x100000 \<and> unat p mod 16 = 0"
proof -
  assume "p \<in> set (blk_cells (example_malloc blks))" and l: "length blks < 2 ^ 20"
  then obtain i where i: "i < 65536" "p = of_nat (0x10000 + length blks * 0x100000 + 16 * i)"
    by (auto simp: blk_cells_def ssa_at_def example_malloc_def SSA_BLK_def)
  have "0x10000 + length blks * 0x100000 + 16 * i < 2 ^ 64" using i(1) l by simp
  then have u: "unat p = 0x10000 + length blks * 0x100000 + 16 * i" unfolding i(2) by (simp only: unat_of_nat) simp
  have "0x10000 + length blks * 0x100000 + 16 * i = 16 * (0x1000 + length blks * 0x10000 + i)" by simp
  then have "(0x10000 + length blks * 0x100000 + 16 * i) mod 16 = 0" by (simp only: mod_mult_self1_is_0)
  then show ?thesis using i(1) u by simp
qed

lemma example_sylvan:
  "bdd_ok (bdds example_ssa)" "bdd (nodes (bdds example_ssa)) 0 (var_set example_ssa) (cube_fun {0..<TAG_WIDTH})"
  "memory (bdds example_ssa) = (\<lambda>_. 0)" "pstack (bdds example_ssa) = []" "room (nodes (bdds example_ssa)) 100"
  "mtbdd_refs (bdds example_ssa) = example_refs 1024" "rstack (bdds example_ssa) = []"
proof -
  obtain vs st where b: "mtbdd_set_from_array bdd_fuel variables example_region = Inr (vs, st)" "room (nodes st) 100"
    using example_ssa_built by blast
  have st: "bdd_ok st" "bdd (nodes st) 0 vs (cube_fun {0..<TAG_WIDTH})" "keep example_region st"
    using variables_set [OF example_region_ok] unfolding b gives_def by auto
  have e: "bdds example_ssa = st" "var_set example_ssa = vs" by (simp_all add: example_ssa_def b)
  have "same_but_tables example_region st" using st(3) by (simp add: keep_def)
  from same_but_tables_sel [OF this] show "memory (bdds example_ssa) = (\<lambda>_. 0)" "pstack (bdds example_ssa) = []"
    "mtbdd_refs (bdds example_ssa) = example_refs 1024" "rstack (bdds example_ssa) = []"
    by (simp_all add: e example_region_def example_start_def)
  show "bdd_ok (bdds example_ssa)" "room (nodes (bdds example_ssa)) 100"
    "bdd (nodes (bdds example_ssa)) 0 (var_set example_ssa) (cube_fun {0..<TAG_WIDTH})" using st b(2) by (simp_all add: e)
qed

lemma example_locs_ok: "finite example_locs" "card example_locs < 2 ^ 63" "cache_locs 0 \<subseteq> example_locs"
  "Tag 0 \<in> example_locs" "Tag 8 \<in> example_locs" "Tag 16 \<in> example_locs"
proof -
  let ?ls = "[Tag 0, Tag 8, Tag 16, Cb_cache_l 0, Cb_cache_r 0, Cb_cache_v 0]"
  have ls: "example_locs = set ?ls" by (auto simp: example_locs_def cache_locs_def)
  show "finite example_locs" unfolding ls by (rule List.finite_set)
  have e: "card example_locs \<le> 6" unfolding ls by (rule order_trans [OF card_length]) simp
  show "card example_locs < 2 ^ 63" by (rule le_less_trans [OF e]) simp
qed (auto simp: example_locs_def)

lemma example_cell: "p \<in> set (blk_cells (example_malloc blks)) \<Longrightarrow> length blks < 2 ^ 20 \<Longrightarrow> user_cell p \<and> bdd_field p \<noteq> 24"
proof -
  assume p: "p \<in> set (blk_cells (example_malloc blks))" "length blks < 2 ^ 20"
  note b = example_blk [OF p]
  have less: "unat p < 2 ^ 47" using b p(2) by simp
  then have "unat (bdd_field p) = unat p + 8" by (simp add: bdd_field_def unat_word_ariths)
  then show ?thesis using b less by (auto simp: user_cell_def)
qed

lemma example_pool_ok: "gc_ok example_locs example_pool"
  unfolding example_pool_def
proof -
  let ?st = "(bdds example_ssa)\<lparr>mtbdd_protected := example_prot\<rparr>"
  note s = example_sylvan
  have z: "valid (bdds example_ssa) 0" using bdd_valid [OF bdd.bdd_false] by (simp add: mtbdd_false_def)
  have "roots ?st \<subseteq> insert 0 (roots (bdds example_ssa))"
    using s(3) by (auto simp: roots_def)
  then have "bdd_ok ?st" using z by (intro bdd_ok_roots [OF s(1)]) auto
  then have "gc_ok example_locs (add_ssa_blk example_malloc \<lparr>gbdds = ?st\<lparr>memory := (memory ?st)(24 := var_set example_ssa)\<rparr>,
     var_set_ptr = 24, ref_count = (\<lambda>_. 0), ssa_blk_list = [], free_q = (\<lambda>_. 0), free_h = 0, free_t = 0, gc_lock = 0,
     tag_at = (\<lambda>_. 0)\<rparr>)"
    by (rule gc_start_ok) (use s example_prot_ok example_locs_ok example_cell [of _ "[]"] in \<open>auto simp: refs_ts_def\<close>)
  then show "gc_ok example_locs (add_ssa_blk example_malloc
    \<lparr>gbdds = (bdds example_ssa)\<lparr>mtbdd_protected := example_prot, memory := (memory (bdds example_ssa))(24 := var_set example_ssa)\<rparr>,
     var_set_ptr = 24, ref_count = (\<lambda>_. 0), ssa_blk_list = [], free_q = (\<lambda>_. 0), free_h = 0, free_t = 0, gc_lock = 0,
     tag_at = (\<lambda>_. 0)\<rparr>)" by simp
qed

lemma example_pool_sel: "ssa_blk_list example_pool = [example_malloc []]" "var_set_ptr example_pool = 24" "tag_at example_pool l = 0"
  "nodes (gbdds example_pool) = nodes (bdds example_ssa)" "mtbdd_protected (gbdds example_pool) = example_prot"
  by (simp_all add: example_pool_def add_ssa_blk_def Let_def split_def)

lemma example_fresh:
  assumes "ssa_blk_list g = [example_malloc []]" "var_set_ptr g = 24"
  shows "fresh_blk g (example_malloc (ssa_blk_list g))"
proof -
  have "p \<notin> set (blk_cells (example_malloc []))" if "p \<in> set (blk_cells (example_malloc [x]))" for p x
    using example_blk [of p "[]"] example_blk [of p "[x]"] that by auto
  then show ?thesis using example_cell [of _ "[example_malloc []]"] by (auto simp: fresh_blk_def cells_def assms)
qed

lemma example_pool_room: "example_room_for 100 2 example_pool"
proof -
  have "length (queued example_pool) = SSA_BLK - 1"
    using example_pool_ok unfolding gc_ok_def
  proof -
    let ?g = "\<lparr>gbdds = (bdds example_ssa)\<lparr>mtbdd_protected := example_prot, memory := (memory (bdds example_ssa))(24 := var_set example_ssa)\<rparr>,
     var_set_ptr = 24, ref_count = (\<lambda>_. 0), ssa_blk_list = [], free_q = (\<lambda>_. 0), free_h = 0, free_t = 0, gc_lock = 0,
     tag_at = (\<lambda>_. 0)\<rparr>"
    have b: "free_h ?g < SSA_BLK" "free_t ?g < SSA_BLK" by simp_all
    obtain t q where "add_ssa_blk example_malloc ?g = grown ?g (example_malloc (ssa_blk_list ?g)) t q"
      "ring SSA_BLK (free_h ?g) t q = queued ?g @ take (ring_room ?g) (blk_cells (example_malloc (ssa_blk_list ?g)))"
      using add_ssa_blk_spec [where malloc = example_malloc, OF b refl] by blast
    then show ?thesis by (simp add: example_pool_def grown_def blk_cells_def ring_room_def)
  qed
  then show ?thesis using example_sylvan(5) example_prot_ok(2)
    by (simp add: example_room_for_def example_pool_sel SSA_BLK_def)
qed

text \<open>The tags of the offsets 5 and 9.\<close>

definition example_tag :: gc_state where
  "example_tag = (case gc_tag_alloc example_malloc 5 (Tag 0) example_pool of Inr g \<Rightarrow> g | Inl _ \<Rightarrow> example_pool)"

definition example_tags :: gc_state where
  "example_tags = (case gc_tag_alloc example_malloc 9 (Tag 8) example_tag of Inr g \<Rightarrow> g | Inl _ \<Rightarrow> example_pool)"

lemma example_tag_ok:
  "gc_tag_alloc example_malloc 5 (Tag 0) example_pool = Inr example_tag" "gc_ok example_locs example_tag"
  "gtag_fun example_tag (Tag 0) (offset_fun 5)" "tag_at example_tag (Tag 8) = 0" "tag_at example_tag (Tag 16) = 0"
  "example_room_for 70 1 example_tag" "ssa_blk_list example_tag = [example_malloc []]" "var_set_ptr example_tag = 24"
proof -
  have "fresh_blk example_pool (example_malloc (ssa_blk_list example_pool))"
    by (rule example_fresh) (simp_all only: example_pool_sel)
  moreover have "example_room_for (70 + TAG_WIDTH) (Suc 1) example_pool"
    using example_pool_room room_mono by (auto simp: example_room_for_def TAG_WIDTH_def numeral_2_eq_2)
  ultimately obtain g' where g': "gc_tag_alloc example_malloc 5 (Tag 0) example_pool = Inr g'" "gc_ok example_locs g'"
    "others_keep {Tag 0} example_pool g'" "gtag_fun g' (Tag 0) (offset_fun 5)" "example_room_for 70 1 g'"
    "ssa_blk_list g' = ssa_blk_list example_pool" "var_set_ptr g' = var_set_ptr example_pool"
    using alloc_room [where malloc = example_malloc and offset = 5, OF example_pool_ok example_locs_ok(4) example_pool_sel(3)] by blast
  then have e: "example_tag = g'" by (simp add: example_tag_def)
  show "gc_tag_alloc example_malloc 5 (Tag 0) example_pool = Inr example_tag" "gc_ok example_locs example_tag"
    "gtag_fun example_tag (Tag 0) (offset_fun 5)" "example_room_for 70 1 example_tag"
    "ssa_blk_list example_tag = [example_malloc []]" "var_set_ptr example_tag = 24"
    using g' by (simp_all add: e example_pool_sel)
  show "tag_at example_tag (Tag 8) = 0" "tag_at example_tag (Tag 16) = 0"
    using g'(3) by (simp_all add: e others_keep_def example_pool_sel)
qed

lemma example_tags_ok:
  "gc_tag_alloc example_malloc 9 (Tag 8) example_tag = Inr example_tags" "gc_ok example_locs example_tags"
  "gtag_fun example_tags (Tag 0) (offset_fun 5)" "gtag_fun example_tags (Tag 8) (offset_fun 9)"
  "tag_at example_tags (Tag 16) = 0" "fresh_blk example_tags (example_malloc (ssa_blk_list example_tags))"
proof -
  note t = example_tag_ok
  have f: "fresh_blk example_tag (example_malloc (ssa_blk_list example_tag))" by (rule example_fresh [OF t(7,8)])
  have "example_room_for (0 + TAG_WIDTH) (Suc 0) example_tag"
    using t(6) room_mono by (auto simp: example_room_for_def TAG_WIDTH_def)
  then obtain g' where g': "gc_tag_alloc example_malloc 9 (Tag 8) example_tag = Inr g'" "gc_ok example_locs g'"
    "others_keep {Tag 8} example_tag g'" "gtag_fun g' (Tag 8) (offset_fun 9)"
    "ssa_blk_list g' = ssa_blk_list example_tag" "var_set_ptr g' = var_set_ptr example_tag"
    using alloc_room [where malloc = example_malloc and offset = 9, OF t(2) example_locs_ok(5) t(4) f] by blast
  then have e: "example_tags = g'" by (simp add: example_tags_def)
  show "gc_tag_alloc example_malloc 9 (Tag 8) example_tag = Inr example_tags" "gc_ok example_locs example_tags"
    "gtag_fun example_tags (Tag 8) (offset_fun 9)" using g' by (simp_all add: e)
  show "gtag_fun example_tags (Tag 0) (offset_fun 5)" "tag_at example_tags (Tag 16) = 0"
    using g'(3) t(3,5) by (simp_all add: e others_keep_def)
  show "fresh_blk example_tags (example_malloc (ssa_blk_list example_tags))"
    by (rule example_fresh) (simp_all add: e g'(5,6) t(7,8))
qed

text \<open>The first object has been taken from the ring.\<close>

definition example_taken :: gc_state where
  "example_taken = example_pool\<lparr>free_h := 1, ref_count := (ref_count example_pool)(0x10000 := 1)\<rparr>"

lemma example_queued: "queued example_pool = take (SSA_BLK - 1) (blk_cells 0x10000)" "free_h example_pool = 0"
  "ref_count example_pool p = (if p \<in> set (blk_cells 0x10000) then -1 else 0)" "cells example_pool = blk_cells 0x10000"
proof -
  let ?g = "\<lparr>gbdds = (bdds example_ssa)\<lparr>mtbdd_protected := example_prot, memory := (memory (bdds example_ssa))(24 := var_set example_ssa)\<rparr>,
     var_set_ptr = 24, ref_count = (\<lambda>_. 0), ssa_blk_list = [], free_q = (\<lambda>_. 0), free_h = 0, free_t = 0, gc_lock = 0,
     tag_at = (\<lambda>_. 0)\<rparr>"
  have b: "free_h ?g < SSA_BLK" "free_t ?g < SSA_BLK" by simp_all
  obtain t q where "add_ssa_blk example_malloc ?g = grown ?g (example_malloc (ssa_blk_list ?g)) t q"
    "ring SSA_BLK (free_h ?g) t q = queued ?g @ take (ring_room ?g) (blk_cells (example_malloc (ssa_blk_list ?g)))"
    using add_ssa_blk_spec [where malloc = example_malloc, OF b refl] by blast
  moreover have "example_malloc [] = 0x10000" by (simp add: example_malloc_def)
  ultimately show "queued example_pool = take (SSA_BLK - 1) (blk_cells 0x10000)" "free_h example_pool = 0"
    "ref_count example_pool p = (if p \<in> set (blk_cells 0x10000) then -1 else 0)" "cells example_pool = blk_cells 0x10000"
    by (simp_all add: example_pool_def grown_def ring_room_def cells_def)
qed

lemma blk_cells_two: "blk_cells sp = sp # ssa_at sp 1 # map (ssa_at sp) [2..<SSA_BLK]"
proof -
  have "[0..<SSA_BLK] = 0 # [Suc 0..<SSA_BLK]" "[Suc 0..<SSA_BLK] = Suc 0 # [Suc (Suc 0)..<SSA_BLK]"
    by (rule upt_conv_Cons, rule SSA_BLK_pos)+
  then show ?thesis by (simp add: blk_cells_def ssa_at_def numeral_2_eq_2)
qed

lemma example_taken_ok: "pool_ok example_locs {0x10000} example_taken" "0 < ring_room example_taken"
  "hd (filter (free_cell example_taken) (cells example_taken)) \<in> set (queued example_taken)"
  "\<forall>p \<in> set (queued example_taken). ref_count example_taken p \<noteq> 0"
proof -
  have pk: "pool_ok example_locs {} example_pool" using example_pool_ok by (simp add: gc_ok_def)
  have shape: "free_h example_pool < SSA_BLK" "free_t example_pool < SSA_BLK" using pk by (simp_all add: pool_ok_def pool_shape_def)
  have q0: "queued example_pool = 0x10000 # ssa_at 0x10000 1 # take (SSA_BLK - 3) (map (ssa_at 0x10000) [2..<SSA_BLK])"
  proof -
    have "SSA_BLK - 1 = Suc (Suc (SSA_BLK - 3))" by (simp add: SSA_BLK_def)
    then show ?thesis unfolding example_queued(1) blk_cells_two by (simp only: take_Suc_Cons)
  qed
  then have ne: "free_h example_pool \<noteq> free_t example_pool" by auto
  have f: "fresh_blk example_pool (example_malloc (ssa_blk_list example_pool))"
    by (rule example_fresh) (simp_all only: example_pool_sel)
  note q1 = ring_Cons [OF shape ne]
  have hd: "free_q example_pool 0 = 0x10000" using q0 q1 by (simp add: example_queued(2))
  have blk: "SSA_BLK \<noteq> Suc 0" by (simp add: SSA_BLK_def)
  define g1 where "g1 = example_pool\<lparr>free_h := 1\<rparr>"
  have "take_ssa example_malloc example_pool = Inr (0x10000, g1)"
    using ne hd blk by (simp add: take_ssa_def numeral_2_eq_2 Let_def example_queued(2) g1_def)
  then have "pool_ok example_locs {0x10000} g1"
    using take_ssa_spec [where malloc = example_malloc, OF pk f] by (metis Inr_inject prod.inject)
  from count_one_ok(1) [OF this] show "pool_ok example_locs {0x10000} example_taken"
    by (simp add: g1_def example_taken_def)
  have q: "queued example_taken = ssa_at 0x10000 1 # take (SSA_BLK - 3) (map (ssa_at 0x10000) [2..<SSA_BLK])"
    using q0 q1 blk by (simp add: example_queued(2) example_taken_def)
  have b: "free_h example_taken < SSA_BLK" "free_t example_taken < SSA_BLK" using shape(2) by (simp_all add: example_taken_def)
  have "3 < SSA_BLK" by (simp add: SSA_BLK_def)
  moreover from this have "length (queued example_taken) = SSA_BLK - 2" unfolding q by simp
  ultimately show "0 < ring_room example_taken" using ring_room_eq [OF b] by linarith
  have rc: "ref_count example_taken p = (if p = 0x10000 then 1 else if p \<in> set (blk_cells 0x10000) then -1 else 0)" for p
    by (simp add: example_taken_def example_queued(3))
  have c: "cells example_taken = blk_cells 0x10000" using example_queued(4) by (simp add: example_taken_def cells_def)
  have "ssa_at 0x10000 1 \<noteq> 0x10000" by (simp add: ssa_at_def)
  then have "filter (free_cell example_taken) (cells example_taken) =
      ssa_at 0x10000 1 # filter (free_cell example_taken) (map (ssa_at 0x10000) [2..<SSA_BLK])"
    unfolding c blk_cells_two [of "0x10000"] using rc blk_cells_two [of "0x10000"] by (simp add: free_cell_def)
  then show "hd (filter (free_cell example_taken) (cells example_taken)) \<in> set (queued example_taken)" by (simp add: q)
  have "set (queued example_taken) \<subseteq> set (cells example_taken)"
    using \<open>pool_ok example_locs {0x10000} example_taken\<close> by (auto simp: pool_ok_def pool_shape_def)
  then show "\<forall>p \<in> set (queued example_taken). ref_count example_taken p \<noteq> 0" using c rc by auto
qed

end
