(* ===== verification/BddTag.thy ===== *)
theory BddTag
  imports TaintFlow
begin

text \<open>
  The segment tree tags (\<open>src/bdd_tag.h\<close>, \<open>src/bdd_tag.cpp\<close>). A tag is a label, the index of a
  node. The nodes form a tree over the input: the left child of a node is the run of offsets
  after it that are not in the set, the right child a segment that is. A node that ends a
  segment in the set stands for the set of the segments on the chain of its \<open>parent\<close> links.
  Labels and offsets are natural numbers; what the code computes in 32 bits is taken modulo
  \<open>2 ^ 32\<close>. Labels stay below \<open>2 ^ 24\<close>, where the table of nodes is full. An index into the nodes
  is not checked, neither here nor in the code: the theorems are about labels that exist.
\<close>

section \<open>Nodes\<close>

record tag_seg =
  seg_sign :: bool
  seg_begin :: nat
  seg_end :: nat

record TagNode =
  left_lb :: nat
  right_lb :: nat
  parent_lb :: nat
  seg :: tag_seg

definition MAX_LB :: nat where "MAX_LB = 2 ^ 24 - 1"
definition LB_MASK :: u32 where "LB_MASK = 2 ^ 24 - 1"
definition LEN_LB :: u32 where "LEN_LB = 0xF0000000"

definition BDD_HAS_LEN_LB :: "u32 \<Rightarrow> bool" where
  "BDD_HAS_LEN_LB lb = (lb \<ge> LEN_LB)"

definition tag_node :: "nat \<Rightarrow> nat \<Rightarrow> nat \<Rightarrow> TagNode" where
  "tag_node p b e = \<lparr>left_lb = 0, right_lb = 0, parent_lb = p, seg = \<lparr>seg_sign = False, seg_begin = b, seg_end = e\<rparr>\<rparr>"

definition get_seg_size :: "TagNode \<Rightarrow> nat" where
  "get_seg_size n = (seg_end (seg n) + 2 ^ 32 - seg_begin (seg n)) mod 2 ^ 32"

text \<open>The constructor: the root, which stands for the empty set.\<close>

definition BDDTag :: "TagNode list" where
  "BDDTag = [tag_node 0 0 0]"

text \<open>A full table ends the tool by a division by zero.\<close>

definition alloc_node :: "nat \<Rightarrow> nat \<Rightarrow> nat \<Rightarrow> TagNode list \<Rightarrow> serror + nat \<times> TagNode list" where
  "alloc_node parent b e nodes =
    (let lb = length nodes in
      if lb < MAX_LB then Inr (lb, nodes @ [tag_node parent b e]) else Inl DivZero)"

definition set_left :: "nat \<Rightarrow> nat \<Rightarrow> TagNode list \<Rightarrow> TagNode list" where
  "set_left i x nodes = nodes[i := (nodes ! i)\<lparr>left_lb := x\<rparr>]"

definition set_right :: "nat \<Rightarrow> nat \<Rightarrow> TagNode list \<Rightarrow> TagNode list" where
  "set_right i x nodes = nodes[i := (nodes ! i)\<lparr>right_lb := x\<rparr>]"

definition set_parent :: "nat \<Rightarrow> nat \<Rightarrow> TagNode list \<Rightarrow> TagNode list" where
  "set_parent i x nodes = nodes[i := (nodes ! i)\<lparr>parent_lb := x\<rparr>]"

definition set_begin :: "nat \<Rightarrow> nat \<Rightarrow> TagNode list \<Rightarrow> TagNode list" where
  "set_begin i x nodes = nodes[i := (nodes ! i)\<lparr>seg := (seg (nodes ! i))\<lparr>seg_begin := x\<rparr>\<rparr>]"

definition set_sign :: "nat \<Rightarrow> TagNode list \<Rightarrow> TagNode list" where
  "set_sign lb nodes = nodes[lb := (nodes ! lb)\<lparr>seg := (seg (nodes ! lb))\<lparr>seg_sign := True\<rparr>\<rparr>]"

definition get_sign :: "nat \<Rightarrow> TagNode list \<Rightarrow> bool" where
  "get_sign lb nodes = seg_sign (seg (nodes ! lb))"

definition set_size :: "nat \<Rightarrow> nat \<Rightarrow> TagNode list \<Rightarrow> TagNode list" where
  "set_size lb sz nodes =
    nodes[lb := (nodes ! lb)\<lparr>seg := (seg (nodes ! lb))\<lparr>seg_end := (seg_end (seg (nodes ! lb)) + sz + (2 ^ 32 - 1)) mod 2 ^ 32\<rparr>\<rparr>]"

section \<open>Insertion\<close>

text \<open>
  The two loops that walk down, or extend, the runs of zeros and of ones. Each turn either ends
  the loop or uses up a part of \<open>num\<close>, so that \<open>num + 1\<close> units of fuel are enough as long as no
  run is empty.
\<close>

primrec insert_n_zeros :: "nat \<Rightarrow> nat \<Rightarrow> nat \<Rightarrow> nat \<Rightarrow> TagNode list \<Rightarrow> serror + nat \<times> TagNode list" where
  "insert_n_zeros 0 cur_lb num last_one_lb nodes = Inl OutOfFuel"
| "insert_n_zeros (Suc fuel) cur_lb num last_one_lb nodes =
    (if num = 0 then Inr (cur_lb, nodes)
     else
      let next_lb = left_lb (nodes ! cur_lb);
          next_size = get_seg_size (nodes ! next_lb);
          off = seg_end (seg (nodes ! cur_lb))
      in
        if next_lb = 0 then
          bindE (alloc_node last_one_lb off ((off + num) mod 2 ^ 32) nodes) (\<lambda>(new_lb, nodes).
            Inr (new_lb, set_left cur_lb new_lb nodes))
        else if next_size > num then
          bindE (alloc_node last_one_lb off ((off + num) mod 2 ^ 32) nodes) (\<lambda>(new_lb, nodes).
            Inr (new_lb, set_begin next_lb ((off + num) mod 2 ^ 32) (set_left cur_lb new_lb nodes)))
        else insert_n_zeros fuel next_lb (num - next_size) last_one_lb nodes)"

primrec insert_n_ones :: "nat \<Rightarrow> nat \<Rightarrow> nat \<Rightarrow> nat \<Rightarrow> TagNode list \<Rightarrow> serror + nat \<times> TagNode list" where
  "insert_n_ones 0 cur_lb num last_one_lb nodes = Inl OutOfFuel"
| "insert_n_ones (Suc fuel) cur_lb num last_one_lb nodes =
    (if num = 0 then Inr (cur_lb, nodes)
     else
      let next_lb = right_lb (nodes ! cur_lb);
          last_end = seg_end (seg (nodes ! cur_lb))
      in
        if next_lb = 0 then
          bindE (alloc_node last_one_lb last_end ((last_end + num) mod 2 ^ 32) nodes) (\<lambda>(new_lb, nodes).
            Inr (new_lb, set_right cur_lb new_lb nodes))
        else
          let next_end = seg_end (seg (nodes ! next_lb));
              next_size = (next_end + 2 ^ 32 - last_end) mod 2 ^ 32
          in
            if next_size > num then
              bindE (alloc_node last_one_lb last_end ((last_end + num) mod 2 ^ 32) nodes) (\<lambda>(new_lb, nodes).
                Inr (new_lb, set_begin next_lb ((last_end + num) mod 2 ^ 32) (set_parent next_lb new_lb
                  (set_right new_lb next_lb (set_right cur_lb new_lb nodes)))))
            else insert_n_ones fuel next_lb (num - next_size) last_one_lb nodes)"

definition insert_pos :: "nat \<Rightarrow> TagNode list \<Rightarrow> serror + nat \<times> TagNode list" where
  "insert_pos pos nodes =
    bindE (insert_n_zeros (pos + 1) 0 pos 0 nodes) (\<lambda>(cur_lb, nodes). insert_n_ones 2 cur_lb 1 0 nodes)"

section \<open>Union\<close>

text \<open>
  Walking up both chains, the label with the later segment first; each segment is pushed once.
  A unit of fuel for each node that the two labels can have above them is enough.
\<close>

primrec collect :: "nat \<Rightarrow> nat \<Rightarrow> nat \<Rightarrow> nat list \<Rightarrow> nat \<Rightarrow> TagNode list \<Rightarrow> serror + nat \<times> nat list" where
  "collect 0 l1 l2 lb_st last_begin nodes = Inl OutOfFuel"
| "collect (Suc fuel) l1 l2 lb_st last_begin nodes =
    (if l1 > 0 \<and> l1 \<noteq> l2 then
      let b1 = seg_begin (seg (nodes ! l1)); b2 = seg_begin (seg (nodes ! l2)) in
      if b1 < b2 then
        (if b2 < last_begin then collect fuel l1 (parent_lb (nodes ! l2)) (l2 # lb_st) b2 nodes
         else collect fuel l1 (parent_lb (nodes ! l2)) lb_st last_begin nodes)
      else
        (if b1 < last_begin then collect fuel (parent_lb (nodes ! l1)) l2 (l1 # lb_st) b1 nodes
         else collect fuel (parent_lb (nodes ! l1)) l2 lb_st last_begin nodes)
    else Inr (if l1 > 0 then l1 else l2, lb_st))"

text \<open>Going down again from the common part, along or beside the existing branches.\<close>

primrec rebuild :: "nat \<Rightarrow> nat list \<Rightarrow> TagNode list \<Rightarrow> serror + nat \<times> TagNode list" where
  "rebuild cur_lb [] nodes = Inr (cur_lb, nodes)"
| "rebuild cur_lb (next_lb # lb_st) nodes =
    (let cur_seg = seg (nodes ! cur_lb); next_seg = seg (nodes ! next_lb) in
      bindE
        (if seg_end cur_seg \<ge> seg_begin next_seg then
          (if seg_end next_seg > seg_end cur_seg then
            let sz = seg_end next_seg - seg_end cur_seg in insert_n_ones (sz + 1) cur_lb sz cur_lb nodes
           else Inr (cur_lb, nodes))
         else
          let last_lb = cur_lb; gap = seg_begin next_seg - seg_end cur_seg in
          bindE (insert_n_zeros (gap + 1) cur_lb gap last_lb nodes) (\<lambda>(cur_lb, nodes).
            let sz = (seg_end next_seg + 2 ^ 32 - seg_begin next_seg) mod 2 ^ 32
            in insert_n_ones (sz + 1) cur_lb sz last_lb nodes))
        (\<lambda>(cur_lb, nodes). rebuild cur_lb lb_st (if seg_sign next_seg then set_sign cur_lb nodes else nodes)))"

definition bdd_combine :: "u32 \<Rightarrow> u32 \<Rightarrow> TagNode list \<Rightarrow> serror + u32 \<times> TagNode list" where
  "bdd_combine l1 l2 nodes =
    (if l1 = 0 then Inr (l2, nodes)
     else if l2 = 0 \<or> l1 = l2 then Inr (l1, nodes)
     else
      let has_len_lb = BDD_HAS_LEN_LB l1 \<or> BDD_HAS_LEN_LB l2;
          l1 = unat (l1 AND LB_MASK); l2 = unat (l2 AND LB_MASK);
          (l1, l2) = (if l1 > l2 then (l2, l1) else (l1, l2))
      in
        bindE (collect (l1 + l2 + 1) l1 l2 [] MAX_LB nodes) (\<lambda>(cur_lb, lb_st).
        bindE (rebuild cur_lb lb_st nodes) (\<lambda>(cur_lb, nodes).
        Inr (if has_len_lb then of_nat cur_lb OR LEN_LB else of_nat cur_lb, nodes))))"

section \<open>Listing\<close>

primrec find_loop :: "nat \<Rightarrow> nat \<Rightarrow> nat \<Rightarrow> tag_seg list \<Rightarrow> TagNode list \<Rightarrow> serror + tag_seg list" where
  "find_loop 0 lb last_begin tag_list nodes = Inl OutOfFuel"
| "find_loop (Suc fuel) lb last_begin tag_list nodes =
    (if lb > 0 then
      let s = seg (nodes ! lb) in
      if seg_begin s < last_begin then find_loop fuel (parent_lb (nodes ! lb)) (seg_begin s) (tag_list @ [s]) nodes
      else find_loop fuel (parent_lb (nodes ! lb)) last_begin tag_list nodes
    else Inr tag_list)"

definition bdd_find :: "u32 \<Rightarrow> TagNode list \<Rightarrow> serror + tag_seg list" where
  "bdd_find lb nodes =
    (let lb = unat (lb AND LB_MASK) in
      bindE (find_loop (lb + 1) lb MAX_LB [] nodes) (\<lambda>tag_list.
        Inr (if length tag_list > 1 then rev tag_list else tag_list)))"

section \<open>As a tag type\<close>

definition bdd_tag_ops :: "(u32, TagNode list) tag_ops" where
  "bdd_tag_ops = \<lparr>cleared_val = 0, tag_is_empty = (\<lambda>t. t = 0),
    tag_combine = (\<lambda>x y tid nodes. bdd_combine x y nodes),
    tag_alloc = (\<lambda>offset tid nodes. bindE (insert_pos (unat offset) nodes) (\<lambda>(lb, nodes). Inr (of_nat lb, nodes)))\<rparr>"

section \<open>The tree\<close>

abbreviation lft :: "TagNode list \<Rightarrow> nat \<Rightarrow> nat" where "lft ns i \<equiv> left_lb (ns ! i)"
abbreviation rgt :: "TagNode list \<Rightarrow> nat \<Rightarrow> nat" where "rgt ns i \<equiv> right_lb (ns ! i)"
abbreviation par :: "TagNode list \<Rightarrow> nat \<Rightarrow> nat" where "par ns i \<equiv> parent_lb (ns ! i)"
abbreviation beg :: "TagNode list \<Rightarrow> nat \<Rightarrow> nat" where "beg ns i \<equiv> seg_begin (seg (ns ! i))"
abbreviation fin :: "TagNode list \<Rightarrow> nat \<Rightarrow> nat" where "fin ns i \<equiv> seg_end (seg (ns ! i))"

text \<open>The nodes that end a segment of a set are the right children.\<close>

definition is_one :: "TagNode list \<Rightarrow> nat \<Rightarrow> bool" where
  "is_one ns l \<longleftrightarrow> l \<noteq> 0 \<and> (\<exists>c < length ns. rgt ns c = l)"

text \<open>The last of them on the way down to a node, itself included, or the root.\<close>

definition last_one :: "TagNode list \<Rightarrow> nat \<Rightarrow> nat" where
  "last_one ns c = (if is_one ns c then c else par ns c)"

text \<open>
  The invariant. A right child is one offset wide and follows its node; a left child is a run of
  zeros that is not empty and follows its node, which is the only one that it is the left child
  of. The \<open>parent\<close> of both is the last one above them, an older node with an earlier segment.
\<close>

definition right_ok :: "TagNode list \<Rightarrow> nat \<Rightarrow> bool" where
  "right_ok ns c \<longleftrightarrow> rgt ns c \<noteq> 0 \<longrightarrow> rgt ns c < length ns \<and> beg ns (rgt ns c) = fin ns c \<and>
    fin ns (rgt ns c) = (fin ns c + 1) mod 2 ^ 32 \<and> par ns (rgt ns c) = last_one ns c"

definition left_ok :: "TagNode list \<Rightarrow> nat \<Rightarrow> bool" where
  "left_ok ns c \<longleftrightarrow> lft ns c \<noteq> 0 \<longrightarrow> lft ns c < length ns \<and> \<not> is_one ns (lft ns c) \<and> beg ns (lft ns c) = fin ns c \<and>
    beg ns (lft ns c) < fin ns (lft ns c) \<and> par ns (lft ns c) = last_one ns c"

definition node_ok :: "TagNode list \<Rightarrow> nat \<Rightarrow> bool" where
  "node_ok ns i \<longleftrightarrow> beg ns i < 2 ^ 32 \<and> fin ns i < 2 ^ 32 \<and>
    (i \<noteq> 0 \<longrightarrow> par ns i < i \<and> (par ns i \<noteq> 0 \<longrightarrow> is_one ns (par ns i) \<and> (is_one ns i \<longrightarrow> beg ns (par ns i) < beg ns i)))"

definition tree_ok :: "TagNode list \<Rightarrow> bool" where
  "tree_ok ns \<longleftrightarrow> 0 < length ns \<and> length ns \<le> MAX_LB \<and> par ns 0 = 0 \<and> beg ns 0 = 0 \<and> fin ns 0 = 0 \<and>
    (\<forall>c < length ns. right_ok ns c \<and> left_ok ns c \<and> node_ok ns c) \<and>
    (\<forall>c < length ns. \<forall>c' < length ns. lft ns c \<noteq> 0 \<longrightarrow> lft ns c = lft ns c' \<longrightarrow> c = c')"

text \<open>What an operation keeps of the nodes that were there.\<close>

definition tree_grows :: "TagNode list \<Rightarrow> TagNode list \<Rightarrow> bool" where
  "tree_grows ns ns' \<longleftrightarrow> length ns \<le> length ns' \<and>
    (\<forall>i < length ns. par ns' i = par ns i \<and> fin ns' i = fin ns i \<and> is_one ns' i = is_one ns i \<and>
      (is_one ns i \<or> i = 0 \<longrightarrow> beg ns' i = beg ns i))"

lemma tree_grows_refl [simp]: "tree_grows ns ns"
  by (simp add: tree_grows_def)

lemma tree_growsD:
  assumes "tree_grows ns ns'" "i < length ns"
  shows "i < length ns'" "par ns' i = par ns i" "fin ns' i = fin ns i" "is_one ns' i = is_one ns i"
    "is_one ns i \<or> i = 0 \<Longrightarrow> beg ns' i = beg ns i"
  using assms by (auto simp: tree_grows_def)

lemma tree_grows_trans:
  assumes "tree_grows ns ns'" "tree_grows ns' ns''"
  shows "tree_grows ns ns''"
  unfolding tree_grows_def
proof (intro conjI allI impI)
  show "length ns \<le> length ns''" using assms by (simp add: tree_grows_def)
  fix i assume "i < length ns"
  note 1 = tree_growsD [OF assms(1) this] and 2 = tree_growsD [OF assms(2) tree_growsD(1) [OF assms(1) this]]
  show "par ns'' i = par ns i" "fin ns'' i = fin ns i" "is_one ns'' i = is_one ns i" by (simp_all add: 1 2)
  show "beg ns'' i = beg ns i" if "is_one ns i \<or> i = 0" using that 1(4,5) 2(5) by auto
qed

lemma is_one_less: "tree_ok ns \<Longrightarrow> is_one ns i \<Longrightarrow> i < length ns"
  by (auto simp: tree_ok_def is_one_def right_ok_def)

lemma tree_okD:
  assumes "tree_ok ns" "c < length ns"
  shows "right_ok ns c" "left_ok ns c" "node_ok ns c"
  using assms by (auto simp: tree_ok_def)

lemma last_one_grows: "tree_grows ns ns' \<Longrightarrow> i < length ns \<Longrightarrow> last_one ns' i = last_one ns i"
  by (simp add: tree_grows_def last_one_def)

lemma last_one_less:
  assumes "tree_ok ns" "c < length ns"
  shows "last_one ns c < length ns" "last_one ns c = 0 \<or> is_one ns (last_one ns c)" "last_one ns c \<le> c"
  using tree_okD(3) [OF assms] assms by (auto simp: last_one_def node_ok_def tree_ok_def)

section \<open>New nodes\<close>

text \<open>A new run of zeros becomes the left child; the one that was there, if any, has none above it then.\<close>

lemma add_left:
  assumes "tree_ok ns" "c < length ns" "length ns < MAX_LB" "fin ns c < e" "e < 2 ^ 32"
  defines "ns' \<equiv> set_left c (length ns) (ns @ [tag_node (last_one ns c) (fin ns c) e])"
  shows "tree_ok ns'" "tree_grows ns ns'" "length ns' = Suc (length ns)" "\<not> is_one ns' (length ns)" "fin ns' (length ns) = e"
    "par ns' (length ns) = last_one ns c" "\<And>d. d < length ns' \<Longrightarrow> lft ns c \<noteq> 0 \<Longrightarrow> lft ns' d \<noteq> lft ns c"
proof -
  let ?n = "length ns"
  have len: "length ns' = Suc ?n" by (simp add: ns'_def set_left_def)
  have old: "par ns' i = par ns i" "beg ns' i = beg ns i" "fin ns' i = fin ns i" "rgt ns' i = rgt ns i"
    "lft ns' i = (if i = c then ?n else lft ns i)" if "i < ?n" for i
    using that assms(2) by (auto simp: ns'_def set_left_def nth_list_update nth_append)
  have new: "par ns' ?n = last_one ns c" "beg ns' ?n = fin ns c" "fin ns' ?n = e" "rgt ns' ?n = 0" "lft ns' ?n = 0"
    using assms(2) by (auto simp: ns'_def set_left_def nth_list_update nth_append tag_node_def)
  have one: "is_one ns' i \<longleftrightarrow> is_one ns i" for i
    by (auto simp: is_one_def len less_Suc_eq old new)
  have no: "\<not> is_one ns ?n" using is_one_less [OF assms(1)] by blast
  have lo: "last_one ns' i = last_one ns i" if "i < ?n" for i using that by (simp add: last_one_def one old)
  note ok = tree_okD [OF assms(1)]
  have r: "right_ok ns' i" if "i < Suc ?n" for i
    using that ok(1) [of i] by (cases "i = ?n") (auto simp: right_ok_def len new old lo)
  have l: "left_ok ns' i" if "i < Suc ?n" for i
    using that ok(2) [of i] assms(2,4) no by (cases "i = ?n") (auto simp: left_ok_def len new old lo one)
  have k: "node_ok ns' i" if "i < Suc ?n" for i
  proof (cases "i = ?n")
    case True
    then show ?thesis using last_one_less [OF assms(1,2)] ok(3) [OF assms(2)] assms(2,5) no by (auto simp: node_ok_def new one)
  next
    case False
    then have i: "i < ?n" using that by simp
    have "par ns i < ?n" using ok(3) [OF i] i assms(1) by (cases "i = 0") (auto simp: node_ok_def tree_ok_def)
    then show ?thesis using ok(3) [OF i] i by (auto simp: node_ok_def old one)
  qed
  have pos: "0 < ?n" using assms(2) by linarith
  have inj: "d = d'" if "d < Suc ?n" "d' < Suc ?n" "lft ns' d \<noteq> 0" "lft ns' d = lft ns' d'" for d d'
  proof -
    have lt: "lft ns i \<noteq> ?n" if "i < ?n" for i using ok(2) [OF that] pos by (auto simp: left_ok_def)
    have "d < ?n" "d' < ?n" using that by (auto simp: less_Suc_eq new)
    then show ?thesis using that(3,4) assms(1) lt by (auto simp: old tree_ok_def split: if_splits)
  qed
  show "tree_ok ns'"
    using r l k inj assms(1,3) pos unfolding tree_ok_def len by (auto simp: old)
  show "tree_grows ns ns'" by (simp add: tree_grows_def len old one)
  show "length ns' = Suc ?n" by (rule len)
  show "\<not> is_one ns' ?n" by (simp add: one no)
  show "fin ns' ?n = e" "par ns' ?n = last_one ns c" by (rule new)+
  show "lft ns' d \<noteq> lft ns c" if "d < length ns'" "lft ns c \<noteq> 0" for d
  proof
    assume e: "lft ns' d = lft ns c"
    have "lft ns c < ?n" using ok(2) [OF assms(2)] that(2) by (simp add: left_ok_def)
    then have "d < ?n" "d \<noteq> c" using e that by (auto simp: len less_Suc_eq new old)
    then show False using e that(2) assms(1,2) by (auto simp: old tree_ok_def)
  qed
qed

text \<open>The begin of a run of zeros that nothing points to is free.\<close>

lemma set_begin_ok:
  assumes "tree_ok ns" "x < length ns" "x \<noteq> 0" "\<not> is_one ns x" "\<And>c. c < length ns \<Longrightarrow> lft ns c \<noteq> x" "b < 2 ^ 32"
  shows "tree_ok (set_begin x b ns)" "tree_grows ns (set_begin x b ns)" "length (set_begin x b ns) = length ns"
proof -
  let ?m = "set_begin x b ns"
  show len: "length ?m = length ns" by (simp add: set_begin_def)
  have old: "par ?m i = par ns i" "fin ?m i = fin ns i" "rgt ?m i = rgt ns i" "lft ?m i = lft ns i"
    "beg ?m i = (if i = x then b else beg ns i)" if "i < length ns" for i
    using that assms(2) by (auto simp: set_begin_def nth_list_update)
  have one: "is_one ?m i \<longleftrightarrow> is_one ns i" for i by (auto simp: is_one_def len old)
  have lo: "last_one ?m i = last_one ns i" if "i < length ns" for i using that by (simp add: last_one_def one old)
  note ok = tree_okD [OF assms(1)]
  have r: "right_ok ?m i" if "i < length ns" for i
  proof -
    have "rgt ns i \<noteq> x" using assms(3,4) that by (auto simp: is_one_def)
    then show ?thesis using that ok(1) [OF that] by (auto simp: right_ok_def len old lo)
  qed
  have l: "left_ok ?m i" if "i < length ns" for i
    using that ok(2) [OF that] assms(5) [OF that] by (auto simp: left_ok_def len old lo one)
  have k: "node_ok ?m i" if "i < length ns" for i
  proof -
    have "par ns i < length ns" using ok(3) [OF that] that assms(1) by (cases "i = 0") (auto simp: node_ok_def tree_ok_def)
    then show ?thesis using ok(3) [OF that] that assms(4,6) by (auto simp: node_ok_def old one)
  qed
  show "tree_ok ?m" using r l k assms(1,3) unfolding tree_ok_def len by (auto simp: old)
  show "tree_grows ns ?m" using assms(3,4) by (auto simp: tree_grows_def len old one)
qed

text \<open>A new segment of width one.\<close>

lemma add_right:
  assumes "tree_ok ns" "c < length ns" "length ns < MAX_LB" "rgt ns c = 0"
    and "last_one ns c \<noteq> 0 \<longrightarrow> beg ns (last_one ns c) < fin ns c"
  defines "ns' \<equiv> set_right c (length ns) (ns @ [tag_node (last_one ns c) (fin ns c) ((fin ns c + 1) mod 2 ^ 32)])"
  shows "tree_ok ns'" "tree_grows ns ns'" "length ns' = Suc (length ns)" "is_one ns' (length ns)" "beg ns' (length ns) = fin ns c"
    "par ns' (length ns) = last_one ns c"
proof -
  let ?n = "length ns"
  have len: "length ns' = Suc ?n" by (simp add: ns'_def set_right_def)
  have old: "par ns' i = par ns i" "beg ns' i = beg ns i" "fin ns' i = fin ns i" "lft ns' i = lft ns i"
    "rgt ns' i = (if i = c then ?n else rgt ns i)" if "i < ?n" for i
    using that assms(2) by (auto simp: ns'_def set_right_def nth_list_update nth_append)
  have new: "par ns' ?n = last_one ns c" "beg ns' ?n = fin ns c" "fin ns' ?n = (fin ns c + 1) mod 2 ^ 32" "rgt ns' ?n = 0" "lft ns' ?n = 0"
    using assms(2) by (auto simp: ns'_def set_right_def nth_list_update nth_append tag_node_def)
  note ok = tree_okD [OF assms(1)]
  have pos: "0 < ?n" using assms(2) by linarith
  have no: "\<not> is_one ns ?n" using is_one_less [OF assms(1)] by blast
  have one: "is_one ns' i \<longleftrightarrow> is_one ns i \<or> i = ?n" for i
  proof -
    have "(\<exists>d < Suc ?n. rgt ns' d = i) \<longleftrightarrow> i = 0 \<or> i = ?n \<or> (\<exists>d < ?n. rgt ns d = i \<and> i \<noteq> 0)"
    proof
      assume "\<exists>d < Suc ?n. rgt ns' d = i"
      then show "i = 0 \<or> i = ?n \<or> (\<exists>d < ?n. rgt ns d = i \<and> i \<noteq> 0)"
        by (auto simp: less_Suc_eq new old split: if_splits)
    next
      assume "i = 0 \<or> i = ?n \<or> (\<exists>d < ?n. rgt ns d = i \<and> i \<noteq> 0)"
      then consider "i = 0" | "i = ?n" | d where "d < ?n" "rgt ns d = i" "i \<noteq> 0" by blast
      then show "\<exists>d < Suc ?n. rgt ns' d = i"
      proof cases
        case 1
        then show ?thesis using new(4) by blast
      next
        case 2
        then show ?thesis using old(5) [OF assms(2)] assms(2) by (auto intro!: exI [of _ c])
      next
        case 3
        then show ?thesis using old(5) [OF 3(1)] assms(4) by (auto intro!: exI [of _ d])
      qed
    qed
    then show ?thesis using pos by (auto simp: is_one_def len)
  qed
  have lo: "last_one ns' i = last_one ns i" if "i < ?n" for i using that by (simp add: last_one_def one old)
  have r: "right_ok ns' i" if "i < Suc ?n" for i
    using that ok(1) [of i] pos by (cases "i = ?n") (auto simp: right_ok_def len new old lo)
  have l: "left_ok ns' i" if "i < Suc ?n" for i
    using that ok(2) [of i] by (cases "i = ?n") (auto simp: left_ok_def len new old lo one)
  have k: "node_ok ns' i" if "i < Suc ?n" for i
  proof (cases "i = ?n")
    case True
    then show ?thesis using last_one_less [OF assms(1,2)] ok(3) [OF assms(2)] assms(2,5)
      by (auto simp: node_ok_def new one old)
  next
    case False
    then have i: "i < ?n" using that by simp
    have "par ns i < ?n" using ok(3) [OF i] i assms(1) by (cases "i = 0") (auto simp: node_ok_def tree_ok_def)
    then show ?thesis using ok(3) [OF i] i by (auto simp: node_ok_def old one)
  qed
  show "tree_ok ns'"
    using r l k assms(1,3) pos unfolding tree_ok_def len by (auto simp: old less_Suc_eq new)
  show "tree_grows ns ns'" by (auto simp: tree_grows_def len old one)
  show "length ns' = Suc ?n" by (rule len)
  show "is_one ns' ?n" by (simp add: one)
  show "beg ns' ?n = fin ns c" "par ns' ?n = last_one ns c" by (rule new)+
qed

section \<open>The loops of the insertion\<close>

lemma sub_mod_32:
  assumes "b \<le> e" "e < 2 ^ 32"
  shows "(e + 2 ^ 32 - b) mod 2 ^ 32 = (e - b :: nat)"
proof -
  have "e + 2 ^ 32 - b = (e - b) + 2 ^ 32" using assms(1) by simp
  then show ?thesis using assms(2) by (simp only: mod_add_self2) simp
qed

lemma insert_n_zeros_ok:
  "tree_ok ns \<Longrightarrow> c < length ns \<Longrightarrow> last_one ns c = lst \<Longrightarrow> fin ns c + num < 2 ^ 32 \<Longrightarrow> num < fuel \<Longrightarrow>
    case insert_n_zeros fuel c num lst ns of
      Inl e \<Rightarrow> e = DivZero
    | Inr (c', ns') \<Rightarrow> tree_ok ns' \<and> tree_grows ns ns' \<and> c' < length ns' \<and> last_one ns' c' = lst \<and> fin ns' c' = fin ns c + num"
proof (induction fuel arbitrary: c num)
  case (Suc fuel)
  let ?x = "lft ns c" and ?e = "fin ns c + num"
  show ?case
  proof (cases "num = 0")
    case True
    then show ?thesis using Suc.prems by simp
  next
    case False
    note l = tree_okD(2) [OF Suc.prems(1,2)]
    show ?thesis
    proof (cases "?x \<noteq> 0 \<and> get_seg_size (ns ! ?x) \<le> num")
      case deeper: True
      have x: "?x < length ns" "last_one ns ?x = lst" "beg ns ?x = fin ns c" "fin ns c < fin ns ?x"
        using l deeper Suc.prems(3) by (auto simp: left_ok_def last_one_def)
      have "fin ns ?x < 2 ^ 32" using tree_okD(3) [OF Suc.prems(1) x(1)] by (simp add: node_ok_def)
      then have s: "get_seg_size (ns ! ?x) = fin ns ?x - fin ns c" using x(3,4) sub_mod_32 [of "fin ns c" "fin ns ?x"] by (simp add: get_seg_size_def)
      then have "fin ns ?x + (num - get_seg_size (ns ! ?x)) = ?e" "num - get_seg_size (ns ! ?x) < fuel"
        using x(4) deeper Suc.prems(5) by auto
      then show ?thesis using Suc.IH [OF Suc.prems(1) x(1,2), of "num - get_seg_size (ns ! ?x)"] False deeper Suc.prems(4)
        by (simp add: Let_def not_less split: sum.splits prod.splits)
    next
      case here: False
      show ?thesis
      proof (cases "length ns < MAX_LB")
        case True
        have e: "fin ns c < ?e" "?e < 2 ^ 32" using False Suc.prems(4) by auto
        note a = add_left [OF Suc.prems(1,2) True e, unfolded Suc.prems(3)]
        let ?m = "set_left c (length ns) (ns @ [tag_node lst (fin ns c) ?e])"
        have lo: "last_one ?m (length ns) = lst" using a(4,6) by (simp add: last_one_def)
        show ?thesis
        proof (cases "?x = 0")
          case True
          then show ?thesis using False a(1-3,5) lo e(2) \<open>length ns < MAX_LB\<close> by (simp add: alloc_node_def Let_def)
        next
          case 2: False
          have x: "?x < length ns" "\<not> is_one ns ?x" using l 2 by (auto simp: left_ok_def)
          have b: "tree_ok (set_begin ?x ?e ?m)" "tree_grows ?m (set_begin ?x ?e ?m)" "length (set_begin ?x ?e ?m) = length ?m"
            using set_begin_ok [OF a(1), of ?x ?e] x 2 a(3,7) tree_growsD(4) [OF a(2) x(1)] e(2) by auto
          have n: "length ns < length ?m" using a(3) by simp
          have "last_one (set_begin ?x ?e ?m) (length ns) = lst" using last_one_grows [OF b(2) n] lo by simp
          moreover have "fin (set_begin ?x ?e ?m) (length ns) = ?e" using tree_growsD(3) [OF b(2) n] a(5) by simp
          ultimately show ?thesis using False 2 here b tree_grows_trans [OF a(2) b(2)] e(2) True n by (simp add: alloc_node_def Let_def)
        qed
      qed (use False here in \<open>auto simp: alloc_node_def Let_def\<close>)
    qed
  qed
qed simp

lemma insert_n_ones_2: "insert_n_ones 2 = insert_n_ones (Suc (Suc 0))"
  by (simp add: numeral_2_eq_2)

lemma insert_one_ok:
  assumes "tree_ok ns" "c < length ns" "last_one ns c = lst" "lst \<noteq> 0 \<longrightarrow> beg ns lst < fin ns c"
  shows "case insert_n_ones 2 c 1 lst ns of
      Inl e \<Rightarrow> e = DivZero
    | Inr (r, ns') \<Rightarrow> tree_ok ns' \<and> tree_grows ns ns' \<and> is_one ns' r \<and> beg ns' r = fin ns c \<and> par ns' r = lst"
proof (cases "rgt ns c = 0")
  case True
  note a = add_right [OF assms(1,2) _ True, unfolded assms(3), OF _ assms(4)]
  show ?thesis using True a by (simp add: insert_n_ones_2 alloc_node_def Let_def)
next
  case False
  have r: "rgt ns c < length ns" "beg ns (rgt ns c) = fin ns c" "fin ns (rgt ns c) = (fin ns c + 1) mod 2 ^ 32" "par ns (rgt ns c) = lst"
    using tree_okD(1) [OF assms(1,2)] False assms(3) by (auto simp: right_ok_def)
  have f: "fin ns c < 2 ^ 32" using tree_okD(3) [OF assms(1,2)] by (simp add: node_ok_def)
  have "((fin ns c + 1) mod 2 ^ 32 + 2 ^ 32 - fin ns c) mod 2 ^ 32 = 1"
  proof (cases "fin ns c + 1 = 2 ^ 32")
    case False
    then have "(fin ns c + 1) mod 2 ^ 32 = fin ns c + 1" using f by simp
    then show ?thesis by simp
  qed simp
  then have s: "(fin ns (rgt ns c) + 2 ^ 32 - fin ns c) mod 2 ^ 32 = 1" by (simp add: r(3))
  have "is_one ns (rgt ns c)" using False assms(2) by (auto simp: is_one_def)
  then show ?thesis using False s r assms(1) by (simp add: insert_n_ones_2 Let_def)
qed

section \<open>The set of a label\<close>

primrec lb_chain :: "nat \<Rightarrow> TagNode list \<Rightarrow> nat \<Rightarrow> nat list" where
  "lb_chain 0 ns l = []"
| "lb_chain (Suc fuel) ns l = (if l = 0 then [] else l # lb_chain fuel ns (par ns l))"

text \<open>Offsets from \<open>MAX_LB\<close> on are lost: the loops that read a chain start with it as the last begin.\<close>

definition offsets :: "TagNode list \<Rightarrow> nat \<Rightarrow> nat set" where
  "offsets ns l = {beg ns i |i. i \<in> set (lb_chain l ns l) \<and> beg ns i < MAX_LB}"

definition label_ok :: "TagNode list \<Rightarrow> nat \<Rightarrow> bool" where
  "label_ok ns l \<longleftrightarrow> l = 0 \<or> is_one ns l"

lemma tree_pos: "tree_ok ns \<Longrightarrow> 0 < length ns"
  by (simp add: tree_ok_def)

lemma label_less: "tree_ok ns \<Longrightarrow> label_ok ns l \<Longrightarrow> l < length ns"
  by (metis label_ok_def is_one_less tree_pos)

lemma label_bound:
  assumes "tree_ok ns" "label_ok ns l"
  shows "l < 2 ^ 24"
proof -
  have "length ns \<le> MAX_LB" using assms(1) by (simp add: tree_ok_def)
  then show ?thesis using label_less [OF assms] by (simp add: MAX_LB_def)
qed

lemma par_facts:
  assumes "tree_ok ns" "is_one ns l"
  shows "l \<noteq> 0" "par ns l < l" "label_ok ns (par ns l)" "beg ns (par ns l) \<le> beg ns l" "beg ns l < 2 ^ 32"
    "fin ns l = (beg ns l + 1) mod 2 ^ 32"
proof -
  have l: "l < length ns" "node_ok ns l" using is_one_less [OF assms] tree_okD(3) [OF assms(1)] by auto
  show "l \<noteq> 0" using assms(2) by (simp add: is_one_def)
  then show "par ns l < l" "label_ok ns (par ns l)" "beg ns l < 2 ^ 32" using l(2) by (auto simp: node_ok_def label_ok_def)
  show "beg ns (par ns l) \<le> beg ns l"
    using l(2) assms \<open>l \<noteq> 0\<close> by (cases "par ns l = 0") (auto simp: node_ok_def tree_ok_def)
  obtain c where "c < length ns" "rgt ns c = l" using assms(2) by (auto simp: is_one_def)
  then show "fin ns l = (beg ns l + 1) mod 2 ^ 32"
    using tree_okD(1) [OF assms(1), of c] \<open>l \<noteq> 0\<close> by (auto simp: right_ok_def)
qed

lemma one_fin: "tree_ok ns \<Longrightarrow> is_one ns l \<Longrightarrow> beg ns l < MAX_LB \<Longrightarrow> fin ns l = beg ns l + 1"
  using par_facts(6) [of ns l] by (simp add: MAX_LB_def)

lemma lb_chain_fuel:
  assumes "tree_ok ns"
  shows "label_ok ns l \<Longrightarrow> l \<le> f \<Longrightarrow> lb_chain f ns l = lb_chain l ns l"
proof (induction l arbitrary: f rule: less_induct)
  case (less l)
  show ?case
  proof (cases "l = 0")
    case False
    then have "is_one ns l" using less.prems by (simp add: label_ok_def)
    note p = par_facts(2,3) [OF assms this]
    have "lb_chain g ns (par ns l) = lb_chain (par ns l) ns (par ns l)" if "l \<le> Suc g" for g
      by (rule less.IH [OF p(1,2)]) (use that p(1) in linarith)
    moreover obtain g h where "f = Suc g" "l = Suc h" using False less.prems(2) by (cases f; cases l) auto
    ultimately show ?thesis using less.prems(2) False by simp
  qed (cases f; simp)
qed

lemma offsets_0 [simp]: "offsets ns 0 = {}"
  by (simp add: offsets_def)

lemma offsets_step:
  assumes "tree_ok ns" "is_one ns l"
  shows "offsets ns l = (if beg ns l < MAX_LB then {beg ns l} else {}) \<union> offsets ns (par ns l)"
proof -
  note p = par_facts(1-3) [OF assms]
  obtain h where h: "l = Suc h" using p(1) by (cases l) auto
  have "lb_chain l ns l = l # lb_chain h ns (par ns l)" using h by simp
  also have "lb_chain h ns (par ns l) = lb_chain (par ns l) ns (par ns l)"
    by (rule lb_chain_fuel [OF assms(1) p(3)]) (use p(2) h in linarith)
  finally show ?thesis by (auto simp: offsets_def)
qed

lemma offsets_grows:
  assumes "tree_ok ns" "tree_ok ns'" "tree_grows ns ns'"
  shows "label_ok ns l \<Longrightarrow> label_ok ns' l \<and> offsets ns' l = offsets ns l"
proof (induction l rule: less_induct)
  case (less l)
  show ?case
  proof (cases "l = 0")
    case False
    then have o: "is_one ns l" using less.prems by (simp add: label_ok_def)
    note g = tree_growsD [OF assms(3) is_one_less [OF assms(1) o]] and p = par_facts(2,3) [OF assms(1) o]
    then show ?thesis using o less.IH [of "par ns l"]
      by (simp add: offsets_step [OF assms(1) o] offsets_step [OF assms(2)] label_ok_def)
  qed (simp add: label_ok_def)
qed

lemma offsets_le:
  assumes "tree_ok ns"
  shows "label_ok ns l \<Longrightarrow> x \<in> offsets ns l \<Longrightarrow> x \<le> beg ns l \<and> l \<noteq> 0"
proof (induction l rule: less_induct)
  case (less l)
  show ?case
  proof (cases "l = 0")
    case False
    then have o: "is_one ns l" using less.prems by (simp add: label_ok_def)
    then show ?thesis using less offsets_step [OF assms o] par_facts [OF assms o] by (fastforce split: if_splits)
  qed (use less.prems in simp)
qed

section \<open>Chains\<close>

text \<open>
  What the walk up keeps: the pushed labels have ever earlier segments, the last one pushed
  not earlier than those of the two labels that are left.
\<close>

definition stack_ok :: "TagNode list \<Rightarrow> nat list \<Rightarrow> bool" where
  "stack_ok ns st \<longleftrightarrow> (\<forall>i \<in> set st. is_one ns i \<and> beg ns i < MAX_LB) \<and> sorted_wrt (\<lambda>i j. beg ns i < beg ns j) st"

definition walk_ok :: "TagNode list \<Rightarrow> nat \<Rightarrow> nat \<Rightarrow> nat list \<Rightarrow> nat \<Rightarrow> bool" where
  "walk_ok ns l1 l2 st last_b \<longleftrightarrow> label_ok ns l1 \<and> label_ok ns l2 \<and> stack_ok ns st \<and>
    (case st of [] \<Rightarrow> last_b = MAX_LB | i # st' \<Rightarrow> last_b = beg ns i \<and> beg ns l1 \<le> last_b \<and> beg ns l2 \<le> last_b)"

lemma walk_ok_comm: "walk_ok ns l1 l2 st b \<longleftrightarrow> walk_ok ns l2 l1 st b"
  by (auto simp: walk_ok_def split: list.splits)

lemma walk_step:
  assumes "tree_ok ns" "walk_ok ns l o' st b" "is_one ns l" "beg ns o' \<le> beg ns l"
  shows "beg ns l < b \<Longrightarrow> walk_ok ns (par ns l) o' (l # st) (beg ns l) \<and>
      offsets ns (par ns l) \<union> beg ns ` set (l # st) = offsets ns l \<union> beg ns ` set st"
    "\<not> beg ns l < b \<Longrightarrow> walk_ok ns (par ns l) o' st b \<and>
      offsets ns (par ns l) \<union> beg ns ` set st = offsets ns l \<union> beg ns ` set st"
proof -
  note p = par_facts [OF assms(1,3)] and s = offsets_step [OF assms(1,3)]
  have m: "b \<le> MAX_LB" using assms(2) by (auto simp: walk_ok_def stack_ok_def split: list.splits)
  have h: "b \<le> beg ns i" if "i \<in> set st" for i
    using assms(2) that by (fastforce simp: walk_ok_def stack_ok_def split: list.splits)
  show "walk_ok ns (par ns l) o' (l # st) (beg ns l) \<and>
      offsets ns (par ns l) \<union> beg ns ` set (l # st) = offsets ns l \<union> beg ns ` set st" if "beg ns l < b"
    using that m p(3,4) assms(2,3,4) s by (auto simp: walk_ok_def stack_ok_def dest: h split: list.splits)
  show "walk_ok ns (par ns l) o' st b \<and> offsets ns (par ns l) \<union> beg ns ` set st = offsets ns l \<union> beg ns ` set st"
    if "\<not> beg ns l < b"
  proof (cases st)
    case Nil
    then show ?thesis using that p(3) assms(2) s by (auto simp: walk_ok_def)
  next
    case (Cons i st')
    then have "beg ns l = beg ns i" "b = beg ns i" using that assms(2) by (auto simp: walk_ok_def)
    then show ?thesis using p(3,4) assms(2) s Cons by (auto simp: walk_ok_def)
  qed
qed

lemma collect_ok:
  assumes "tree_ok ns"
  shows "walk_ok ns l1 l2 st b \<Longrightarrow> l1 + l2 < fuel \<Longrightarrow>
    \<exists>cur st'. collect fuel l1 l2 st b ns = Inr (cur, st') \<and> label_ok ns cur \<and> stack_ok ns st' \<and>
      (st' \<noteq> [] \<longrightarrow> beg ns cur \<le> beg ns (hd st')) \<and>
      offsets ns cur \<union> beg ns ` set st' = offsets ns l1 \<union> offsets ns l2 \<union> beg ns ` set st"
proof (induction fuel arbitrary: l1 l2 st b)
  case (Suc fuel)
  have z: "beg ns 0 = 0" using assms by (simp add: tree_ok_def)
  show ?case
  proof (cases "l1 > 0 \<and> l1 \<noteq> l2")
    case False
    then show ?thesis using Suc.prems(1) by (auto simp: walk_ok_def split: list.splits)
  next
    case go: True
    show ?thesis
    proof (cases "beg ns l1 < beg ns l2")
      case True
      then have o: "is_one ns l2" using Suc.prems(1) z by (auto simp: walk_ok_def label_ok_def)
      have w: "walk_ok ns l2 l1 st b" using Suc.prems(1) by (simp add: walk_ok_comm)
      note st = walk_step [OF assms w o less_imp_le [OF True]]
      have f: "l1 + par ns l2 < fuel" using par_facts(2) [OF assms o] Suc.prems(2) by simp
      show ?thesis
      proof (cases "beg ns l2 < b")
        case below: True
        have e: "offsets ns l1 \<union> offsets ns (par ns l2) \<union> beg ns ` set (l2 # st) =
            offsets ns l1 \<union> offsets ns l2 \<union> beg ns ` set st"
          using conjunct2 [OF st(1) [OF below]] by (simp only: Un_assoc Un_left_commute)
        note ih = Suc.IH [OF iffD1 [OF walk_ok_comm conjunct1 [OF st(1) [OF below]]] f]
        from ih [unfolded e]
        show ?thesis using go True below by simp
      next
        case above: False
        have e: "offsets ns l1 \<union> offsets ns (par ns l2) \<union> beg ns ` set st =
            offsets ns l1 \<union> offsets ns l2 \<union> beg ns ` set st"
          using conjunct2 [OF st(2) [OF above]] by (simp only: Un_assoc Un_left_commute)
        note ih = Suc.IH [OF iffD1 [OF walk_ok_comm conjunct1 [OF st(2) [OF above]]] f]
        from ih [unfolded e]
        show ?thesis using go True above by simp
      qed
    next
      case ge: False
      have o: "is_one ns l1" using Suc.prems(1) go by (auto simp: walk_ok_def label_ok_def)
      note st = walk_step [OF assms Suc.prems(1) o leI [OF ge]]
      have f: "par ns l1 + l2 < fuel" using par_facts(2) [OF assms o] Suc.prems(2) by simp
      show ?thesis
      proof (cases "beg ns l1 < b")
        case below: True
        have e: "offsets ns (par ns l1) \<union> offsets ns l2 \<union> beg ns ` set (l1 # st) =
            offsets ns l1 \<union> offsets ns l2 \<union> beg ns ` set st"
          using conjunct2 [OF st(1) [OF below]] by (simp only: Un_assoc Un_left_commute)
        note ih = Suc.IH [OF conjunct1 [OF st(1) [OF below]] f]
        from ih [unfolded e]
        show ?thesis using go ge below by simp
      next
        case above: False
        have e: "offsets ns (par ns l1) \<union> offsets ns l2 \<union> beg ns ` set st =
            offsets ns l1 \<union> offsets ns l2 \<union> beg ns ` set st"
          using conjunct2 [OF st(2) [OF above]] by (simp only: Un_assoc Un_left_commute)
        note ih = Suc.IH [OF conjunct1 [OF st(2) [OF above]] f]
        from ih [unfolded e]
        show ?thesis using go ge above by simp
      qed
    qed
  qed
qed simp

lemma set_sign_ok:
  assumes "tree_ok ns"
  shows "tree_ok (set_sign x ns)" "tree_grows ns (set_sign x ns)" "beg (set_sign x ns) i = beg ns i"
proof -
  let ?m = "set_sign x ns"
  have len: "length ?m = length ns" by (simp add: set_sign_def)
  have nth: "?m ! i = (if i = x \<and> x < length ns then (ns ! x)\<lparr>seg := (seg (ns ! x))\<lparr>seg_sign := True\<rparr>\<rparr> else ns ! i)" for i
    by (cases "x < length ns") (auto simp: set_sign_def nth_list_update list_update_beyond)
  have eq: "par ?m i = par ns i" "fin ?m i = fin ns i" "rgt ?m i = rgt ns i" "lft ?m i = lft ns i" "beg ?m i = beg ns i" for i
    by (simp_all add: nth)
  have "is_one ?m = is_one ns" by (simp add: is_one_def fun_eq_iff eq len)
  moreover from this have "last_one ?m = last_one ns" by (simp add: last_one_def fun_eq_iff eq)
  ultimately have "right_ok ?m = right_ok ns" "left_ok ?m = left_ok ns" "node_ok ?m = node_ok ns" and g: "tree_grows ns ?m"
    by (simp_all add: right_ok_def left_ok_def node_ok_def tree_grows_def fun_eq_iff eq len)
  then show "tree_ok ?m" using assms by (simp add: tree_ok_def eq len)
  show "tree_grows ns ?m" by (rule g)
  show "beg ?m i = beg ns i" by (rule eq)
qed

text \<open>One turn of the rebuilding: the next segment is added to the set of the current label.\<close>

definition rebuild_step :: "nat \<Rightarrow> nat \<Rightarrow> TagNode list \<Rightarrow> serror + nat \<times> TagNode list" where
  "rebuild_step cur_lb next_lb nodes =
    (let cur_seg = seg (nodes ! cur_lb); next_seg = seg (nodes ! next_lb) in
      if seg_end cur_seg \<ge> seg_begin next_seg then
        (if seg_end next_seg > seg_end cur_seg then
          let sz = seg_end next_seg - seg_end cur_seg in insert_n_ones (sz + 1) cur_lb sz cur_lb nodes
         else Inr (cur_lb, nodes))
       else
        let last_lb = cur_lb; gap = seg_begin next_seg - seg_end cur_seg in
        bindE (insert_n_zeros (gap + 1) cur_lb gap last_lb nodes) (\<lambda>(cur_lb, nodes).
          let sz = (seg_end next_seg + 2 ^ 32 - seg_begin next_seg) mod 2 ^ 32
          in insert_n_ones (sz + 1) cur_lb sz last_lb nodes))"

lemma rebuild_Cons:
  "rebuild cur_lb (next_lb # lb_st) nodes =
    bindE (rebuild_step cur_lb next_lb nodes)
      (\<lambda>(c, ns). rebuild c lb_st (if seg_sign (seg (nodes ! next_lb)) then set_sign c ns else ns))"
  by (simp only: rebuild.simps rebuild_step_def Let_def)

lemma rebuild_step_ok:
  assumes "tree_ok ns" "label_ok ns c" "is_one ns n" "beg ns n < MAX_LB" "beg ns c \<le> beg ns n"
  shows "case rebuild_step c n ns of
      Inl e \<Rightarrow> e = DivZero
    | Inr (r, ns') \<Rightarrow> tree_ok ns' \<and> tree_grows ns ns' \<and> is_one ns' r \<and> beg ns' r = beg ns n \<and>
        offsets ns' r = insert (beg ns n) (offsets ns c)"
proof -
  have c: "c < length ns" "last_one ns c = c"
    using label_less [OF assms(1,2)] assms(1,2) by (auto simp: label_ok_def last_one_def tree_ok_def is_one_def)
  have fn: "fin ns n = beg ns n + 1" by (rule one_fin [OF assms(1,3,4)])
  have fc: "c \<noteq> 0 \<longrightarrow> fin ns c = beg ns c + 1" "c = 0 \<longrightarrow> fin ns c = 0 \<and> beg ns c = 0"
    using one_fin [OF assms(1), of c] assms by (auto simp: label_ok_def tree_ok_def)
  have new: "offsets ns' r = insert (beg ns n) (offsets ns c)"
    if "tree_ok ns'" "tree_grows ns ns'" "is_one ns' r" "beg ns' r = beg ns n" "par ns' r = c" for ns' r
    using offsets_step [OF that(1,3)] offsets_grows [OF assms(1) that(1,2) assms(2)] that(4,5) assms(4) by simp
  consider "fin ns c = beg ns n" | "c \<noteq> 0" "beg ns c = beg ns n" | "fin ns c < beg ns n"
    using fc assms(5) by (cases "c = 0") force+
  then show ?thesis
  proof cases
    case 1
    have "c \<noteq> 0 \<longrightarrow> beg ns c < fin ns c" using fc by simp
    note i = insert_one_ok [OF assms(1) c this]
    have "rebuild_step c n ns = insert_n_ones 2 c 1 c ns"
      using 1 fn by (simp add: rebuild_step_def Let_def insert_n_ones_2 del: insert_n_ones.simps)
    then show ?thesis using i 1 new by (auto split: sum.splits)
  next
    case 2
    then have o: "is_one ns c" using assms(2) by (simp add: label_ok_def)
    have "insert (beg ns n) (offsets ns c) = offsets ns c"
      using offsets_step [OF assms(1) o] 2(2) assms(4) by auto
    then show ?thesis using 2 o fc fn assms(1) by (simp add: rebuild_step_def Let_def)
  next
    case 3
    let ?g = "beg ns n - fin ns c"
    have s: "(fin ns n + 2 ^ 32 - beg ns n) mod 2 ^ 32 = 1"
      using sub_mod_32 [of "beg ns n" "fin ns n"] fn assms(4) by (simp add: MAX_LB_def)
    have z: "case insert_n_zeros (?g + 1) c ?g c ns of
        Inl e \<Rightarrow> e = DivZero
      | Inr (c', ns') \<Rightarrow> tree_ok ns' \<and> tree_grows ns ns' \<and> c' < length ns' \<and> last_one ns' c' = c \<and> fin ns' c' = fin ns c + ?g"
      by (rule insert_n_zeros_ok [OF assms(1) c]) (use 3 assms(4) in \<open>auto simp: MAX_LB_def\<close>)
    have r: "rebuild_step c n ns = bindE (insert_n_zeros (?g + 1) c ?g c ns) (\<lambda>(c', ns'). insert_n_ones 2 c' 1 c ns')"
      using 3 s by (simp add: rebuild_step_def Let_def insert_n_ones_2 del: insert_n_zeros.simps insert_n_ones.simps)
    show ?thesis
    proof (cases "insert_n_zeros (?g + 1) c ?g c ns")
      case (Inl e)
      then show ?thesis using z by (simp only: r Inl bindE_simps sum.case)
    next
      case (Inr q)
      obtain c' ns1 where q: "q = (c', ns1)" by fastforce
      have 1: "tree_ok ns1" "tree_grows ns ns1" "c' < length ns1" "last_one ns1 c' = c" "fin ns1 c' = beg ns n"
        using z [unfolded Inr q] 3 by auto
      have "c \<noteq> 0 \<longrightarrow> beg ns1 c < fin ns1 c'"
        using tree_growsD(5) [OF 1(2) c(1)] assms(2) fc 3 1(5) by (auto simp: label_ok_def)
      note i = insert_one_ok [OF 1(1,3,4) this]
      have "rebuild_step c n ns = insert_n_ones 2 c' 1 c ns1" by (simp only: r Inr q bindE_simps prod.case)
      then show ?thesis using i tree_grows_trans [OF 1(2)] new 1(5) by (auto split: sum.splits)
    qed
  qed
qed

lemma rebuild_ok:
  "tree_ok ns \<Longrightarrow> label_ok ns c \<Longrightarrow> stack_ok ns st \<Longrightarrow> st \<noteq> [] \<longrightarrow> beg ns c \<le> beg ns (hd st) \<Longrightarrow>
    case rebuild c st ns of
      Inl e \<Rightarrow> e = DivZero
    | Inr (r, ns') \<Rightarrow> tree_ok ns' \<and> tree_grows ns ns' \<and> label_ok ns' r \<and> offsets ns' r = offsets ns c \<union> beg ns ` set st"
proof (induction st arbitrary: c ns)
  case (Cons n st)
  have n: "is_one ns n" "beg ns n < MAX_LB" "beg ns c \<le> beg ns n" using Cons.prems(3,4) by (auto simp: stack_ok_def)
  note s = rebuild_step_ok [OF Cons.prems(1,2) n]
  show ?case
  proof (cases "rebuild_step c n ns")
    case (Inl e)
    then show ?thesis using s by (simp add: rebuild_Cons del: rebuild.simps)
  next
    case (Inr q)
    obtain r ns1 where q: "q = (r, ns1)" by fastforce
    have 1: "tree_ok ns1" "tree_grows ns ns1" "is_one ns1 r" "beg ns1 r = beg ns n" "offsets ns1 r = insert (beg ns n) (offsets ns c)"
      using s by (auto simp: Inr q)
    define ns2 where "ns2 = (if seg_sign (seg (ns ! n)) then set_sign r ns1 else ns1)"
    have 2: "tree_ok ns2" "tree_grows ns1 ns2" "beg ns2 i = beg ns1 i" for i
      using set_sign_ok [OF 1(1)] 1(1) by (auto simp: ns2_def)
    have g: "tree_grows ns ns2" by (rule tree_grows_trans [OF 1(2) 2(2)])
    have l: "label_ok ns1 r" using 1(3) by (simp add: label_ok_def)
    have b: "beg ns2 i = beg ns i" "is_one ns2 i" if "i \<in> set (n # st)" for i
      using tree_growsD(4,5) [OF g is_one_less [OF Cons.prems(1)], of i] Cons.prems(3) that by (auto simp: stack_ok_def)
    have st: "stack_ok ns2 st"
      using Cons.prems(3) b unfolding stack_ok_def by (auto intro: sorted_wrt_mono_rel [of st "\<lambda>i j. beg ns i < beg ns j"])
    have h: "st \<noteq> [] \<longrightarrow> beg ns2 r \<le> beg ns2 (hd st)"
      using Cons.prems(3) b(1) [of "hd st"] 2(3) 1(4) by (cases st) (auto simp: stack_ok_def)
    from Cons.IH [OF 2(1) conjunct1 [OF offsets_grows [OF 1(1) 2(1,2) l]] st h]
    have "case rebuild r st ns2 of
      Inl e \<Rightarrow> e = DivZero
    | Inr (r', ns') \<Rightarrow> tree_ok ns' \<and> tree_grows ns ns' \<and> label_ok ns' r' \<and>
        offsets ns' r' = insert (beg ns n) (offsets ns c) \<union> beg ns2 ` set st"
      using tree_grows_trans [OF g] offsets_grows [OF 1(1) 2(1,2) l] by (auto simp: 1(5) split: sum.splits)
    moreover have "beg ns2 ` set st = beg ns ` set st" using b(1) by (intro image_cong) auto
    ultimately show ?thesis by (simp add: rebuild_Cons Inr q ns2_def [symmetric] del: rebuild.simps split: sum.splits prod.splits)
  qed
qed (simp add: stack_ok_def)

section \<open>Labels as tags\<close>

lemma mask_lb: "(x :: u32) AND LB_MASK = take_bit 24 x"
  by (simp add: LB_MASK_def take_bit_eq_mask mask_eq_exp_minus_1)

text \<open>A label of the tree is a word that the masks leave alone.\<close>

definition tag_ok :: "TagNode list \<Rightarrow> u32 \<Rightarrow> bool" where
  "tag_ok ns t \<longleftrightarrow> label_ok ns (unat t)"

lemma tag_word:
  assumes "tree_ok ns" "tag_ok ns t"
  shows "unat (t AND LB_MASK) = unat t" "\<not> BDD_HAS_LEN_LB t"
proof -
  have l: "unat t < 2 ^ 24" using label_bound [OF assms(1)] assms(2) by (simp add: tag_ok_def)
  then show "unat (t AND LB_MASK) = unat t" by (simp add: mask_lb unat_take_bit)
  show "\<not> BDD_HAS_LEN_LB t" using l by (simp add: BDD_HAS_LEN_LB_def LEN_LB_def word_le_nat_alt)
qed

lemma word_label:
  assumes "tree_ok ns" "label_ok ns l"
  shows "unat (of_nat l :: u32) = l" "tag_ok ns (of_nat l)"
proof -
  have "l < 2 ^ 24" by (rule label_bound [OF assms])
  then show "unat (of_nat l :: u32) = l" by (simp add: unsigned_of_nat take_bit_nat_eq_self)
  then show "tag_ok ns (of_nat l)" using assms(2) by (simp add: tag_ok_def)
qed

lemma bdd_combine_ok:
  assumes "tree_ok ns" "tag_ok ns x" "tag_ok ns y"
  shows "case bdd_combine x y ns of
      Inl e \<Rightarrow> e = DivZero
    | Inr (z, ns') \<Rightarrow> tree_ok ns' \<and> tree_grows ns ns' \<and> tag_ok ns' z \<and>
        offsets ns' (unat z) = offsets ns (unat x) \<union> offsets ns (unat y)"
proof (cases "x = 0 \<or> y = 0 \<or> x = y")
  case True
  then show ?thesis using assms by (auto simp: bdd_combine_def)
next
  case False
  note m = tag_word [OF assms(1,2)] tag_word [OF assms(1,3)]
  define a where "a = (if unat x > unat y then unat y else unat x)"
  define b where "b = (if unat x > unat y then unat x else unat y)"
  have ab: "label_ok ns a" "label_ok ns b" "offsets ns a \<union> offsets ns b = offsets ns (unat x) \<union> offsets ns (unat y)"
    using assms(2,3) by (auto simp: a_def b_def tag_ok_def)
  have "walk_ok ns a b [] MAX_LB" using ab by (simp add: walk_ok_def stack_ok_def)
  from collect_ok [OF assms(1) this, of "a + b + 1"] obtain c st where
    c: "collect (a + b + 1) a b [] MAX_LB ns = Inr (c, st)" "label_ok ns c" "stack_ok ns st"
      "st \<noteq> [] \<longrightarrow> beg ns c \<le> beg ns (hd st)" "offsets ns c \<union> beg ns ` set st = offsets ns a \<union> offsets ns b"
    by auto
  have sw: "(if unat y < unat x then (unat y, unat x) else (unat x, unat y)) = (a, b)"
    by (simp add: a_def b_def)
  have e: "bdd_combine x y ns = bindE (rebuild c st ns) (\<lambda>(r, ns'). Inr (of_nat r, ns'))"
    using False c(1) by (simp add: bdd_combine_def Let_def m sw del: collect.simps)
  from rebuild_ok [OF assms(1) c(2-4)] show ?thesis
    using word_label c(5) ab(3) by (auto simp: e split: sum.splits)
qed

lemma insert_pos_ok:
  assumes "tree_ok ns" "pos < 2 ^ 32"
  shows "case insert_pos pos ns of
      Inl e \<Rightarrow> e = DivZero
    | Inr (l, ns') \<Rightarrow> tree_ok ns' \<and> tree_grows ns ns' \<and> is_one ns' l \<and>
        offsets ns' l = (if pos < MAX_LB then {pos} else {})"
proof -
  have root: "last_one ns 0 = 0" "fin ns 0 = 0" "0 < length ns"
    using assms(1) by (auto simp: last_one_def is_one_def tree_ok_def)
  note z = insert_n_zeros_ok [OF assms(1) root(3,1), of pos "pos + 1"]
  show ?thesis
  proof (cases "insert_n_zeros (pos + 1) 0 pos 0 ns")
    case (Inl e)
    then show ?thesis using z assms(2) root(2) by (simp add: insert_pos_def del: insert_n_zeros.simps)
  next
    case (Inr q)
    obtain c ns1 where q: "q = (c, ns1)" by fastforce
    have 1: "tree_ok ns1" "tree_grows ns ns1" "c < length ns1" "last_one ns1 c = 0" "fin ns1 c = pos"
      using z [unfolded Inr q] assms(2) root(2) by auto
    have e: "insert_pos pos ns = insert_n_ones 2 c 1 0 ns1"
      using Inr by (simp add: insert_pos_def q del: insert_n_zeros.simps insert_n_ones.simps)
    have "offsets ns' l = (if pos < MAX_LB then {pos} else {})"
      if "tree_ok ns'" "is_one ns' l" "beg ns' l = pos" "par ns' l = 0" for ns' l
      using offsets_step [OF that(1,2)] that(3,4) by simp
    then show ?thesis using insert_one_ok [OF 1(1,3,4)] tree_grows_trans [OF 1(2)] 1(5)
      by (auto simp: e split: sum.splits)
  qed
qed

section \<open>Listing a set\<close>

lemma find_loop_ok:
  assumes "tree_ok ns"
  shows "label_ok ns l \<Longrightarrow> l < fuel \<Longrightarrow> b \<le> MAX_LB \<Longrightarrow> b < MAX_LB \<longrightarrow> l = 0 \<or> beg ns l < b \<Longrightarrow>
    \<exists>ts. find_loop fuel l b acc ns = Inr (acc @ ts) \<and> seg_begin ` set ts = offsets ns l \<and>
      (\<forall>s \<in> set ts. seg_end s = seg_begin s + 1) \<and> sorted_wrt (\<lambda>s t. seg_begin t < seg_begin s) ts"
proof (induction fuel arbitrary: l b acc)
  case (Suc fuel)
  show ?case
  proof (cases "l = 0")
    case False
    then have o: "is_one ns l" using Suc.prems(1) by (simp add: label_ok_def)
    note p = par_facts [OF assms o]
    have lt: "par ns l = 0 \<or> beg ns (par ns l) < beg ns l"
      using tree_okD(3) [OF assms is_one_less [OF assms o]] o p(1) by (auto simp: node_ok_def)
    show ?thesis
    proof (cases "beg ns l < b")
      case True
      obtain ts where ts: "find_loop fuel (par ns l) (beg ns l) (acc @ [seg (ns ! l)]) ns = Inr ((acc @ [seg (ns ! l)]) @ ts)"
        "seg_begin ` set ts = offsets ns (par ns l)" "\<forall>s \<in> set ts. seg_end s = seg_begin s + 1"
        "sorted_wrt (\<lambda>s t. seg_begin t < seg_begin s) ts"
        using Suc.IH [OF p(3), of "beg ns l" "acc @ [seg (ns ! l)]"] p(2) Suc.prems(2,3) True lt by auto
      have m: "beg ns l < MAX_LB" using True Suc.prems(3) by simp
      have lts: "seg_begin s < beg ns l" if "s \<in> set ts" for s
      proof -
        have "seg_begin s \<in> offsets ns (par ns l)" using that ts(2) by blast
        then show ?thesis using offsets_le [OF assms p(3)] lt by fastforce
      qed
      show ?thesis
        using False True ts one_fin [OF assms o m] offsets_step [OF assms o] m lts
        by (intro exI [of _ "seg (ns ! l) # ts"]) (auto simp: Let_def)
    next
      case 2: False
      then have m: "b = MAX_LB" using Suc.prems(3,4) False by auto
      show ?thesis
        using Suc.IH [OF p(3), of b acc] p(2) Suc.prems(2) False 2 m offsets_step [OF assms o] by (simp add: Let_def)
    qed
  qed simp
qed simp

text \<open>
  The list that \<open>find\<close> returns: one segment of width one for each offset of the set, in
  ascending order.
\<close>

lemma bdd_find_ok:
  assumes "tree_ok ns" "tag_ok ns t"
  shows "\<exists>ts. bdd_find t ns = Inr ts \<and> (\<Union>s \<in> set ts. {seg_begin s ..< seg_end s}) = offsets ns (unat t) \<and>
    sorted_wrt (\<lambda>s t. seg_begin s < seg_begin t) ts"
proof -
  have "MAX_LB < MAX_LB \<longrightarrow> unat t = 0 \<or> beg ns (unat t) < MAX_LB" by simp
  from find_loop_ok [OF assms(1) assms(2) [unfolded tag_ok_def] less_add_one order_refl this, of "[]"]
  obtain ts where ts: "find_loop (unat t + 1) (unat t) MAX_LB [] ns = Inr ts" "seg_begin ` set ts = offsets ns (unat t)"
    "\<forall>s \<in> set ts. seg_end s = seg_begin s + 1" "sorted_wrt (\<lambda>s t. seg_begin t < seg_begin s) ts"
    by auto
  have "(if length ts > 1 then rev ts else ts) = rev ts"
    by (cases ts rule: list.exhaust; cases "tl ts") auto
  then have "bdd_find t ns = Inr (rev ts)"
    by (simp only: bdd_find_def Let_def tag_word [OF assms] ts(1) bindE_simps)
  moreover have "(\<Union>s \<in> set ts. {seg_begin s ..< seg_end s}) = seg_begin ` set ts" using ts(3) by auto
  ultimately show ?thesis using ts(2,4) by (simp add: sorted_wrt_rev)
qed

section \<open>The contract\<close>

definition bdd_sem :: "(u32, TagNode list) tag_sem" where
  "bdd_sem = \<lparr>sound = tree_ok, valid_tag = tag_ok, taint = (\<lambda>ns t. offsets ns (unat t)), failures = {DivZero}\<rparr>"

lemma extends_grows: "tree_ok ns \<Longrightarrow> tree_ok ns' \<Longrightarrow> tree_grows ns ns' \<Longrightarrow> extends_tags bdd_sem ns ns'"
  using offsets_grows [of ns ns'] by (simp add: extends_tags_def bdd_sem_def tag_ok_def)

interpretation bdd: tag_source bdd_tag_ops bdd_sem "\<lambda>offset. if unat offset < MAX_LB then {unat offset} else {}"
proof unfold_locales
  show "valid_tag bdd_sem g (cleared_val bdd_tag_ops)" "taint bdd_sem g (cleared_val bdd_tag_ops) = {}" for g
    by (simp_all add: bdd_sem_def bdd_tag_ops_def tag_ok_def label_ok_def)
  show "t = cleared_val bdd_tag_ops" if "tag_is_empty bdd_tag_ops t" for t
    using that by (simp add: bdd_tag_ops_def)
next
  fix g x y tid
  assume "sound bdd_sem g" "valid_tag bdd_sem g x" "valid_tag bdd_sem g y"
  then have a: "tree_ok g" "tag_ok g x" "tag_ok g y" by (simp_all add: bdd_sem_def)
  note c = bdd_combine_ok [OF a]
  show "e \<in> failures bdd_sem" if "tag_combine bdd_tag_ops x y tid g = Inl e" for e
    using that c by (simp add: bdd_tag_ops_def bdd_sem_def)
  show "sound bdd_sem g' \<and> extends_tags bdd_sem g g' \<and> valid_tag bdd_sem g' z \<and>
      taint bdd_sem g' z = taint bdd_sem g x \<union> taint bdd_sem g y"
    if "tag_combine bdd_tag_ops x y tid g = Inr (z, g')" for z g'
    using that c extends_grows [OF a(1)] by (simp add: bdd_tag_ops_def) (simp add: bdd_sem_def)
next
  fix g :: "TagNode list" and offset :: u32 and tid
  assume "sound bdd_sem g"
  then have a: "tree_ok g" by (simp add: bdd_sem_def)
  have "unat offset < 2 ^ 32" using unsigned_less [of offset, where ?'a = nat] by simp
  note i = insert_pos_ok [OF a this]
  show "e \<in> failures bdd_sem" if "tag_alloc bdd_tag_ops offset tid g = Inl e" for e
    using that i by (auto simp: bdd_tag_ops_def bdd_sem_def bindE_eq_Inl)
  show "sound bdd_sem g' \<and> extends_tags bdd_sem g g' \<and> valid_tag bdd_sem g' t \<and>
      taint bdd_sem g' t = (if unat offset < MAX_LB then {unat offset} else {})"
    if alloc: "tag_alloc bdd_tag_ops offset tid g = Inr (t, g')" for t g'
  proof -
    obtain l where l: "insert_pos (unat offset) g = Inr (l, g')" "t = of_nat l"
      using alloc by (auto simp: bdd_tag_ops_def bindE_eq_Inr)
    then have 1: "tree_ok g'" "tree_grows g g'" "is_one g' l" "offsets g' l = (if unat offset < MAX_LB then {unat offset} else {})"
      using i by auto
    have "label_ok g' l" using 1(3) by (simp add: label_ok_def)
    note w = word_label [OF 1(1) this]
    show ?thesis using 1 w l(2) extends_grows [OF a 1(1,2)] by (simp add: bdd_sem_def)
  qed
qed

section \<open>The empty tree\<close>

lemma BDDTag_ok: "tree_ok BDDTag"
  by (simp add: tree_ok_def BDDTag_def tag_node_def right_ok_def left_ok_def node_ok_def MAX_LB_def)

text \<open>The tree after offset 2 was inserted.\<close>

definition example_tree :: "TagNode list" where
  "example_tree = [(tag_node 0 0 0)\<lparr>left_lb := 1\<rparr>, (tag_node 0 0 2)\<lparr>right_lb := 2\<rparr>, tag_node 0 2 3]"

lemma insert_n_zeros_3: "insert_n_zeros 3 = insert_n_zeros (Suc (Suc (Suc 0)))"
  by (simp add: numeral_3_eq_3)

lemma example_insert: "insert_pos 2 BDDTag = Inr (2, example_tree)"
  by (simp add: insert_pos_def BDDTag_def example_tree_def alloc_node_def set_left_def set_right_def tag_node_def MAX_LB_def
      Let_def insert_n_zeros_3 insert_n_ones_2)

lemma example_tree_ok: "tree_ok example_tree" "tag_ok example_tree 2" "offsets example_tree 2 = {2}"
  using insert_pos_ok [OF BDDTag_ok, of 2] by (auto simp: example_insert tag_ok_def label_ok_def MAX_LB_def)

end
