(* ===== verification/XferOps.thy ===== *)
theory XferOps
  imports TaintFlow
begin

text \<open>
  The analysis routines that copy tags (\<open>src/ins_xfer_op.cpp\<close>), one definition for each. The
  suffix of a name gives the width: \<open>b\<close>, \<open>w\<close>, \<open>l\<close>, \<open>q\<close>, \<open>x\<close>, \<open>y\<close> for 1, 2, 4, 8, 16, 32 bytes;
  \<open>_l\<close> and \<open>_u\<close> name the low and the high byte of a word register. The loops are shared.
\<close>

definition DFT_REG_HELPER1 :: nat where "DFT_REG_HELPER1 = 0"
definition DFT_REG_RDI :: nat where "DFT_REG_RDI = 3"
definition DFT_REG_RSP :: nat where "DFT_REG_RSP = 6"
definition DFT_REG_RBX :: nat where "DFT_REG_RBX = 7"
definition DFT_REG_RDX :: nat where "DFT_REG_RDX = 8"
definition DFT_REG_RCX :: nat where "DFT_REG_RCX = 9"
definition DFT_REG_RAX :: nat where "DFT_REG_RAX = 10"
definition DFT_REG_XMM0 :: nat where "DFT_REG_XMM0 = 19"

section \<open>Register to register\<close>

definition r2r_xfer :: "nat \<Rightarrow> nat \<Rightarrow> nat \<Rightarrow> nat \<Rightarrow> ('a, 's) dft \<Rightarrow> serror + ('a, 's) dft" where
  "r2r_xfer n tid dst src = for_loop n (\<lambda>i s. Inr (set_RTAG tid dst i (RTAG s tid src i) s))"

definition r2r_xfer_opb_ul :: "nat \<Rightarrow> nat \<Rightarrow> nat \<Rightarrow> ('a, 's) dft \<Rightarrow> serror + ('a, 's) dft" where
  "r2r_xfer_opb_ul tid dst src s = (let src_tag = RTAG s tid src 0 in Inr (set_RTAG tid dst 1 src_tag s))"

definition r2r_xfer_opb_lu :: "nat \<Rightarrow> nat \<Rightarrow> nat \<Rightarrow> ('a, 's) dft \<Rightarrow> serror + ('a, 's) dft" where
  "r2r_xfer_opb_lu tid dst src s = (let src_tag = RTAG s tid src 1 in Inr (set_RTAG tid dst 0 src_tag s))"

definition r2r_xfer_opb_u :: "nat \<Rightarrow> nat \<Rightarrow> nat \<Rightarrow> ('a, 's) dft \<Rightarrow> serror + ('a, 's) dft" where
  "r2r_xfer_opb_u tid dst src s = (let src_tag = RTAG s tid src 1 in Inr (set_RTAG tid dst 1 src_tag s))"

definition r2r_xfer_opb_l :: "nat \<Rightarrow> nat \<Rightarrow> nat \<Rightarrow> ('a, 's) dft \<Rightarrow> serror + ('a, 's) dft" where
  "r2r_xfer_opb_l tid dst src s = (let src_tag = RTAG s tid src 0 in Inr (set_RTAG tid dst 0 src_tag s))"

definition r2r_xfer_opw :: "nat \<Rightarrow> nat \<Rightarrow> nat \<Rightarrow> ('a, 's) dft \<Rightarrow> serror + ('a, 's) dft" where
  "r2r_xfer_opw = r2r_xfer 2"

definition r2r_xfer_opl :: "nat \<Rightarrow> nat \<Rightarrow> nat \<Rightarrow> ('a, 's) dft \<Rightarrow> serror + ('a, 's) dft" where
  "r2r_xfer_opl = r2r_xfer 4"

definition r2r_xfer_opq :: "nat \<Rightarrow> nat \<Rightarrow> nat \<Rightarrow> ('a, 's) dft \<Rightarrow> serror + ('a, 's) dft" where
  "r2r_xfer_opq = r2r_xfer 8"

definition r2r_xfer_opx :: "nat \<Rightarrow> nat \<Rightarrow> nat \<Rightarrow> ('a, 's) dft \<Rightarrow> serror + ('a, 's) dft" where
  "r2r_xfer_opx = r2r_xfer 16"

definition r2r_xfer_opy :: "nat \<Rightarrow> nat \<Rightarrow> nat \<Rightarrow> ('a, 's) dft \<Rightarrow> serror + ('a, 's) dft" where
  "r2r_xfer_opy = r2r_xfer 32"

section \<open>Memory to register\<close>

definition m2r_xfer :: "nat \<Rightarrow> ('a, 's) tag_ops \<Rightarrow> nat \<Rightarrow> nat \<Rightarrow> u64 \<Rightarrow> ('a, 's) dft \<Rightarrow> serror + ('a, 's) dft" where
  "m2r_xfer n T tid dst src = for_loop n (\<lambda>i s.
    bindE (tagmap_getb T s (src + of_nat i)) (\<lambda>t. Inr (set_RTAG tid dst i t s)))"

definition m2r_xfer_opb_u :: "('a, 's) tag_ops \<Rightarrow> nat \<Rightarrow> nat \<Rightarrow> u64 \<Rightarrow> ('a, 's) dft \<Rightarrow> serror + ('a, 's) dft" where
  "m2r_xfer_opb_u T tid dst src s = bindE (tagmap_getb T s src) (\<lambda>src_tag. Inr (set_RTAG tid dst 1 src_tag s))"

definition m2r_xfer_opb_l :: "('a, 's) tag_ops \<Rightarrow> nat \<Rightarrow> nat \<Rightarrow> u64 \<Rightarrow> ('a, 's) dft \<Rightarrow> serror + ('a, 's) dft" where
  "m2r_xfer_opb_l T tid dst src s = bindE (tagmap_getb T s src) (\<lambda>src_tag. Inr (set_RTAG tid dst 0 src_tag s))"

definition m2r_xfer_opw :: "('a, 's) tag_ops \<Rightarrow> nat \<Rightarrow> nat \<Rightarrow> u64 \<Rightarrow> ('a, 's) dft \<Rightarrow> serror + ('a, 's) dft" where
  "m2r_xfer_opw = m2r_xfer 2"

definition m2r_xfer_opl :: "('a, 's) tag_ops \<Rightarrow> nat \<Rightarrow> nat \<Rightarrow> u64 \<Rightarrow> ('a, 's) dft \<Rightarrow> serror + ('a, 's) dft" where
  "m2r_xfer_opl = m2r_xfer 4"

definition m2r_xfer_opq :: "('a, 's) tag_ops \<Rightarrow> nat \<Rightarrow> nat \<Rightarrow> u64 \<Rightarrow> ('a, 's) dft \<Rightarrow> serror + ('a, 's) dft" where
  "m2r_xfer_opq = m2r_xfer 8"

definition m2r_xfer_opx :: "('a, 's) tag_ops \<Rightarrow> nat \<Rightarrow> nat \<Rightarrow> u64 \<Rightarrow> ('a, 's) dft \<Rightarrow> serror + ('a, 's) dft" where
  "m2r_xfer_opx = m2r_xfer 16"

definition m2r_xfer_opy :: "('a, 's) tag_ops \<Rightarrow> nat \<Rightarrow> nat \<Rightarrow> u64 \<Rightarrow> ('a, 's) dft \<Rightarrow> serror + ('a, 's) dft" where
  "m2r_xfer_opy = m2r_xfer 32"

text \<open>The high half of a vector register, and the routines of \<open>movbe\<close> that reverse the bytes.\<close>

definition m2r_xfer_opq_h :: "('a, 's) tag_ops \<Rightarrow> nat \<Rightarrow> nat \<Rightarrow> u64 \<Rightarrow> ('a, 's) dft \<Rightarrow> serror + ('a, 's) dft" where
  "m2r_xfer_opq_h T tid dst src = for_loop 8 (\<lambda>i s.
    bindE (tagmap_getb T s (src + of_nat i)) (\<lambda>t. Inr (set_RTAG tid dst (i + 8) t s)))"

definition m2r_xfer_rev :: "nat \<Rightarrow> ('a, 's) tag_ops \<Rightarrow> nat \<Rightarrow> nat \<Rightarrow> u64 \<Rightarrow> ('a, 's) dft \<Rightarrow> serror + ('a, 's) dft" where
  "m2r_xfer_rev n T tid dst src = for_loop n (\<lambda>i s.
    bindE (tagmap_getb T s (src + of_nat (n - 1 - i))) (\<lambda>t. Inr (set_RTAG tid dst i t s)))"

definition m2r_xfer_opw_rev :: "('a, 's) tag_ops \<Rightarrow> nat \<Rightarrow> nat \<Rightarrow> u64 \<Rightarrow> ('a, 's) dft \<Rightarrow> serror + ('a, 's) dft" where
  "m2r_xfer_opw_rev = m2r_xfer_rev 2"

definition m2r_xfer_opl_rev :: "('a, 's) tag_ops \<Rightarrow> nat \<Rightarrow> nat \<Rightarrow> u64 \<Rightarrow> ('a, 's) dft \<Rightarrow> serror + ('a, 's) dft" where
  "m2r_xfer_opl_rev = m2r_xfer_rev 4"

definition m2r_xfer_opq_rev :: "('a, 's) tag_ops \<Rightarrow> nat \<Rightarrow> nat \<Rightarrow> u64 \<Rightarrow> ('a, 's) dft \<Rightarrow> serror + ('a, 's) dft" where
  "m2r_xfer_opq_rev = m2r_xfer_rev 8"

section \<open>Register to memory\<close>

definition r2m_xfer :: "nat \<Rightarrow> ('a, 's) tag_ops \<Rightarrow> nat \<Rightarrow> u64 \<Rightarrow> nat \<Rightarrow> ('a, 's) dft \<Rightarrow> serror + ('a, 's) dft" where
  "r2m_xfer n T tid dst src = for_loop n (\<lambda>i s. Inr (tagmap_setb T (dst + of_nat i) (RTAG s tid src i) s))"

definition r2m_xfer_opb_u :: "('a, 's) tag_ops \<Rightarrow> nat \<Rightarrow> u64 \<Rightarrow> nat \<Rightarrow> ('a, 's) dft \<Rightarrow> serror + ('a, 's) dft" where
  "r2m_xfer_opb_u T tid dst src s = (let src_tag = RTAG s tid src 1 in Inr (tagmap_setb T dst src_tag s))"

definition r2m_xfer_opb_l :: "('a, 's) tag_ops \<Rightarrow> nat \<Rightarrow> u64 \<Rightarrow> nat \<Rightarrow> ('a, 's) dft \<Rightarrow> serror + ('a, 's) dft" where
  "r2m_xfer_opb_l T tid dst src s = (let src_tag = RTAG s tid src 0 in Inr (tagmap_setb T dst src_tag s))"

definition r2m_xfer_opw :: "('a, 's) tag_ops \<Rightarrow> nat \<Rightarrow> u64 \<Rightarrow> nat \<Rightarrow> ('a, 's) dft \<Rightarrow> serror + ('a, 's) dft" where
  "r2m_xfer_opw T tid dst src s =
    (let s1 = tagmap_setb T dst (RTAG s tid src 0) s in Inr (tagmap_setb T (dst + 1) (RTAG s1 tid src 1) s1))"

definition r2m_xfer_opl :: "('a, 's) tag_ops \<Rightarrow> nat \<Rightarrow> u64 \<Rightarrow> nat \<Rightarrow> ('a, 's) dft \<Rightarrow> serror + ('a, 's) dft" where
  "r2m_xfer_opl = r2m_xfer 4"

definition r2m_xfer_opq :: "('a, 's) tag_ops \<Rightarrow> nat \<Rightarrow> u64 \<Rightarrow> nat \<Rightarrow> ('a, 's) dft \<Rightarrow> serror + ('a, 's) dft" where
  "r2m_xfer_opq = r2m_xfer 8"

definition r2m_xfer_opx :: "('a, 's) tag_ops \<Rightarrow> nat \<Rightarrow> u64 \<Rightarrow> nat \<Rightarrow> ('a, 's) dft \<Rightarrow> serror + ('a, 's) dft" where
  "r2m_xfer_opx = r2m_xfer 16"

definition r2m_xfer_opy :: "('a, 's) tag_ops \<Rightarrow> nat \<Rightarrow> u64 \<Rightarrow> nat \<Rightarrow> ('a, 's) dft \<Rightarrow> serror + ('a, 's) dft" where
  "r2m_xfer_opy = r2m_xfer 32"

definition r2m_xfer_opq_h :: "('a, 's) tag_ops \<Rightarrow> nat \<Rightarrow> u64 \<Rightarrow> nat \<Rightarrow> ('a, 's) dft \<Rightarrow> serror + ('a, 's) dft" where
  "r2m_xfer_opq_h T tid dst src = for_loop 8 (\<lambda>i s. Inr (tagmap_setb T (dst + of_nat i) (RTAG s tid src (i + 8)) s))"

definition r2m_xfer_rev :: "nat \<Rightarrow> ('a, 's) tag_ops \<Rightarrow> nat \<Rightarrow> u64 \<Rightarrow> nat \<Rightarrow> ('a, 's) dft \<Rightarrow> serror + ('a, 's) dft" where
  "r2m_xfer_rev n T tid dst src =
    for_loop n (\<lambda>i s. Inr (tagmap_setb T (dst + of_nat (n - 1 - i)) (RTAG s tid src i) s))"

definition r2m_xfer_opw_rev :: "('a, 's) tag_ops \<Rightarrow> nat \<Rightarrow> u64 \<Rightarrow> nat \<Rightarrow> ('a, 's) dft \<Rightarrow> serror + ('a, 's) dft" where
  "r2m_xfer_opw_rev T tid dst src s =
    (let s1 = tagmap_setb T dst (RTAG s tid src 1) s in Inr (tagmap_setb T (dst + 1) (RTAG s1 tid src 0) s1))"

definition r2m_xfer_opl_rev :: "('a, 's) tag_ops \<Rightarrow> nat \<Rightarrow> u64 \<Rightarrow> nat \<Rightarrow> ('a, 's) dft \<Rightarrow> serror + ('a, 's) dft" where
  "r2m_xfer_opl_rev = r2m_xfer_rev 4"

definition r2m_xfer_opq_rev :: "('a, 's) tag_ops \<Rightarrow> nat \<Rightarrow> u64 \<Rightarrow> nat \<Rightarrow> ('a, 's) dft \<Rightarrow> serror + ('a, 's) dft" where
  "r2m_xfer_opq_rev = r2m_xfer_rev 8"

section \<open>Memory to memory\<close>

definition m2m_xfer :: "nat \<Rightarrow> ('a, 's) tag_ops \<Rightarrow> u64 \<Rightarrow> u64 \<Rightarrow> ('a, 's) dft \<Rightarrow> serror + ('a, 's) dft" where
  "m2m_xfer n T dst src = for_loop n (\<lambda>i s.
    bindE (tagmap_getb T s (src + of_nat i)) (\<lambda>t. Inr (tagmap_setb T (dst + of_nat i) t s)))"

definition m2m_xfer_opb :: "('a, 's) tag_ops \<Rightarrow> u64 \<Rightarrow> u64 \<Rightarrow> ('a, 's) dft \<Rightarrow> serror + ('a, 's) dft" where
  "m2m_xfer_opb T dst src s = bindE (tagmap_getb T s src) (\<lambda>src_tag. Inr (tagmap_setb T dst src_tag s))"

definition m2m_xfer_opw :: "('a, 's) tag_ops \<Rightarrow> u64 \<Rightarrow> u64 \<Rightarrow> ('a, 's) dft \<Rightarrow> serror + ('a, 's) dft" where
  "m2m_xfer_opw = m2m_xfer 2"

definition m2m_xfer_opl :: "('a, 's) tag_ops \<Rightarrow> u64 \<Rightarrow> u64 \<Rightarrow> ('a, 's) dft \<Rightarrow> serror + ('a, 's) dft" where
  "m2m_xfer_opl = m2m_xfer 4"

definition m2m_xfer_opq :: "('a, 's) tag_ops \<Rightarrow> u64 \<Rightarrow> u64 \<Rightarrow> ('a, 's) dft \<Rightarrow> serror + ('a, 's) dft" where
  "m2m_xfer_opq = m2m_xfer 8"

section \<open>Repeated stores\<close>

text \<open>
  The whole of a repeated \<open>stos\<close> at once: the \<open>nbytes\<close> bytes from \<open>dst\<close> on, or up to \<open>dst\<close> when
  the direction flag is set, get the tags of \<open>w\<close> bytes of the accumulator in turn.
\<close>

definition EFLAGS_DF :: "u64 \<Rightarrow> u64" where
  "EFLAGS_DF eflags = eflags AND 0x0400"

definition r2m_fill :: "nat \<Rightarrow> u64 \<Rightarrow> ('a, 's) tag_ops \<Rightarrow> nat \<Rightarrow> u64 \<Rightarrow> u64 \<Rightarrow> ('a, 's) dft \<Rightarrow> serror + ('a, 's) dft" where
  "r2m_fill w nbytes T tid dst eflags s =
    (let src_tag = RTAGS w s tid DFT_REG_RAX in
      if EFLAGS_DF eflags = 0
      then for_loop (unat nbytes) (\<lambda>i s. Inr (tagmap_setb T (dst + of_nat i) (src_tag ! (i mod w)) s)) s
      else for_loop (unat nbytes) (\<lambda>i s. Inr (tagmap_setb T (dst - nbytes + 1 + of_nat i) (src_tag ! (i mod w)) s)) s)"

definition r2m_xfer_opbn :: "('a, 's) tag_ops \<Rightarrow> nat \<Rightarrow> u64 \<Rightarrow> u64 \<Rightarrow> u64 \<Rightarrow> ('a, 's) dft \<Rightarrow> serror + ('a, 's) dft" where
  "r2m_xfer_opbn T tid dst count eflags = r2m_fill 1 count T tid dst eflags"

definition r2m_xfer_opwn :: "('a, 's) tag_ops \<Rightarrow> nat \<Rightarrow> u64 \<Rightarrow> u64 \<Rightarrow> u64 \<Rightarrow> ('a, 's) dft \<Rightarrow> serror + ('a, 's) dft" where
  "r2m_xfer_opwn T tid dst count eflags = r2m_fill 2 (push_bit 1 count) T tid dst eflags"

definition r2m_xfer_opln :: "('a, 's) tag_ops \<Rightarrow> nat \<Rightarrow> u64 \<Rightarrow> u64 \<Rightarrow> u64 \<Rightarrow> ('a, 's) dft \<Rightarrow> serror + ('a, 's) dft" where
  "r2m_xfer_opln T tid dst count eflags = r2m_fill 4 (push_bit 2 count) T tid dst eflags"

text \<open>The quad-word form shifts by 2, as the double-word form does.\<close>

definition r2m_xfer_opqn :: "('a, 's) tag_ops \<Rightarrow> nat \<Rightarrow> u64 \<Rightarrow> u64 \<Rightarrow> u64 \<Rightarrow> ('a, 's) dft \<Rightarrow> serror + ('a, 's) dft" where
  "r2m_xfer_opqn T tid dst count eflags = r2m_fill 8 (push_bit 2 count) T tid dst eflags"

section \<open>Address computation\<close>

definition lea_op :: "nat \<Rightarrow> ('a, 's) tag_ops \<Rightarrow> nat \<Rightarrow> nat \<Rightarrow> nat \<Rightarrow> nat \<Rightarrow> ('a, 's) dft \<Rightarrow> serror + ('a, 's) dft" where
  "lea_op n T tid dst base index = for_loop n (\<lambda>i s.
    bindE (combine T (RTAG s tid base i) (RTAG s tid index i) tid s) (\<lambda>(t, s). Inr (set_RTAG tid dst i t s)))"

definition lea_opw :: "('a, 's) tag_ops \<Rightarrow> nat \<Rightarrow> nat \<Rightarrow> nat \<Rightarrow> nat \<Rightarrow> ('a, 's) dft \<Rightarrow> serror + ('a, 's) dft" where
  "lea_opw = lea_op 2"

definition lea_opl :: "('a, 's) tag_ops \<Rightarrow> nat \<Rightarrow> nat \<Rightarrow> nat \<Rightarrow> nat \<Rightarrow> ('a, 's) dft \<Rightarrow> serror + ('a, 's) dft" where
  "lea_opl = lea_op 4"

definition lea_opq :: "('a, 's) tag_ops \<Rightarrow> nat \<Rightarrow> nat \<Rightarrow> nat \<Rightarrow> nat \<Rightarrow> ('a, 's) dft \<Rightarrow> serror + ('a, 's) dft" where
  "lea_opq = lea_op 8"

section \<open>The flows of the shared loops\<close>

definition user :: "u64 \<Rightarrow> nat \<Rightarrow> bool" where
  "user a n \<longleftrightarrow> (\<forall>i < n. \<not> outside (a + of_nat i))"

lemma userD: "user a n \<Longrightarrow> i < n \<Longrightarrow> \<not> outside (a + of_nat i)"
  by (simp add: user_def)

lemma user_0: "user a n \<Longrightarrow> 0 < n \<Longrightarrow> \<not> outside a"
  using userD [of a n 0] by simp

context tag_type
begin

lemma inv_copy: "inv s0 A s \<Longrightarrow> in_range l \<Longrightarrow> inv s0 (A(l := A m)) (put T l (look T s m) s)"
  by (rule inv_put [OF _ holds_now])

text \<open>One assignment.\<close>

lemma flows_one:
  assumes "\<And>s0 A s. inv s0 A s \<Longrightarrow> post s0 (A(l := (\<Union>m \<in> M. A m))) (h s)"
  shows "flows T S h (moves [(l, M)])"
proof (rule flowsI)
  fix s assume "inv s (taint_at T S s) s"
  from assms [OF this] show "post s (after (taint_at T S s) [(l, M)]) (h s)"
    using after_snoc [of "taint_at T S s" "[]" l M] by simp
qed

lemma r2r_xfer_flows: "flows T S (r2r_xfer n tid dst src) (moves (copy n (Reg tid dst) (Reg tid src)))"
  unfolding r2r_xfer_def copy_def
  by (rule flows_loop) (simp_all add: as_put [where T = T] as_look [where T = T] inv_copy)

lemma m2r_xfer_flows:
  assumes "user src n"
  shows "flows T S (m2r_xfer n T tid dst src) (moves (copy n (Reg tid dst) (bytes src)))"
  unfolding m2r_xfer_def copy_def
proof (rule flows_loop)
  fix i s0 A s
  assume "i < n" "inv s0 A s"
  then show "post s0 (A(Reg tid dst i := (\<Union>m \<in> {bytes src i}. A m)))
      (bindE (tagmap_getb T s (src + of_nat i)) (\<lambda>t. Inr (set_RTAG tid dst i t s)))"
    using userD [OF assms] by (intro post_getb) (simp_all add: as_put [where T = T] bytes_def inv_copy)
qed simp

lemma r2m_xfer_flows:
  assumes "user dst n"
  shows "flows T S (r2m_xfer n T tid dst src) (moves (copy n (bytes dst) (Reg tid src)))"
  unfolding r2m_xfer_def copy_def
  by (rule flows_loop) (simp_all add: as_put [where T = T] as_look [where T = T] bytes_def inv_copy userD [OF assms])

text \<open>Copying in memory is as if at once when no byte is written before it is read.\<close>

lemma m2m_xfer_flows:
  assumes "user src n" "user dst n" "\<And>i j. i < n \<Longrightarrow> j < i \<Longrightarrow> dst + of_nat j \<noteq> src + of_nat i"
  shows "flows T S (m2m_xfer n T dst src) (moves (copy n (bytes dst) (bytes src)))"
  unfolding m2m_xfer_def copy_def
proof (rule flows_loop)
  fix i s0 A s
  assume "i < n" "inv s0 A s"
  then show "post s0 (A(bytes dst i := (\<Union>m \<in> {bytes src i}. A m)))
      (bindE (tagmap_getb T s (src + of_nat i)) (\<lambda>t. Inr (tagmap_setb T (dst + of_nat i) t s)))"
    using userD [OF assms(1)] userD [OF assms(2)]
    by (intro post_getb) (simp_all add: as_put [where T = T] bytes_def inv_copy)
qed (use assms(3) in \<open>simp add: bytes_def\<close>)

lemma m2r_h_flows:
  assumes "user src 8"
  shows "flows T S (m2r_xfer_opq_h T tid dst src) (moves (copy 8 (\<lambda>i. Reg tid dst (i + 8)) (bytes src)))"
  unfolding m2r_xfer_opq_h_def copy_def
proof (rule flows_loop)
  fix i s0 A s
  assume "i < (8 :: nat)" "inv s0 A s"
  then show "post s0 (A(Reg tid dst (i + 8) := (\<Union>m \<in> {bytes src i}. A m)))
      (bindE (tagmap_getb T s (src + of_nat i)) (\<lambda>t. Inr (set_RTAG tid dst (i + 8) t s)))"
    using userD [OF assms] by (intro post_getb) (simp_all add: as_put [where T = T] bytes_def inv_copy)
qed simp

lemma r2m_h_flows:
  assumes "user dst 8"
  shows "flows T S (r2m_xfer_opq_h T tid dst src) (moves (copy 8 (bytes dst) (\<lambda>i. Reg tid src (i + 8))))"
  unfolding r2m_xfer_opq_h_def copy_def
  by (rule flows_loop) (simp_all add: as_put [where T = T] as_look [where T = T] bytes_def inv_copy userD [OF assms])

lemma m2r_rev_flows:
  assumes "user src n"
  shows "flows T S (m2r_xfer_rev n T tid dst src) (moves (copy n (Reg tid dst) (\<lambda>i. bytes src (n - 1 - i))))"
  unfolding m2r_xfer_rev_def copy_def
proof (rule flows_loop)
  fix i s0 A s
  assume "i < n" "inv s0 A s"
  then show "post s0 (A(Reg tid dst i := (\<Union>m \<in> {bytes src (n - 1 - i)}. A m)))
      (bindE (tagmap_getb T s (src + of_nat (n - 1 - i))) (\<lambda>t. Inr (set_RTAG tid dst i t s)))"
    using userD [OF assms, of "n - 1 - i"]
    by (intro post_getb) (simp_all add: as_put [where T = T] bytes_def inv_copy del: of_nat_diff)
qed simp

lemma r2m_rev_flows:
  assumes "user dst n"
    and "n < 2 ^ 64"
  shows "flows T S (r2m_xfer_rev n T tid dst src) (moves (copy n (bytes dst) (\<lambda>i. Reg tid src (n - 1 - i))))"
proof -
  have "flows T S (r2m_xfer_rev n T tid dst src) (moves (copy n (\<lambda>i. bytes dst (n - 1 - i)) (Reg tid src)))"
    unfolding r2m_xfer_rev_def copy_def
    by (rule flows_loop)
      (simp_all add: as_put [where T = T] as_look [where T = T] bytes_def inv_copy userD [OF assms(1)] del: of_nat_diff)
  also have "moves (copy n (\<lambda>i. bytes dst (n - 1 - i)) (Reg tid src)) =
      moves (copy n (bytes dst) (\<lambda>i. Reg tid src (n - 1 - i)))"
  proof (rule moves_cong_set)
    show "distinct (map fst (copy n (\<lambda>i. bytes dst (n - 1 - i)) (Reg tid src)))"
      using assms(2) by (auto simp: copy_def distinct_map comp_def inj_on_def bytes_inj)
    show "distinct (map fst (copy n (bytes dst) (\<lambda>i. Reg tid src (n - 1 - i))))"
      using assms(2) by (auto simp: copy_def distinct_map comp_def inj_on_def bytes_inj)
    show "set (copy n (\<lambda>i. bytes dst (n - 1 - i)) (Reg tid src)) =
        set (copy n (bytes dst) (\<lambda>i. Reg tid src (n - 1 - i)))" (is "?L = ?R")
    proof
      show "?L \<subseteq> ?R"
      proof
        fix x assume "x \<in> ?L"
        then obtain i where "i < n" "x = (bytes dst (n - 1 - i), {Reg tid src i})" by (auto simp: copy_def)
        then show "x \<in> ?R" by (auto simp: copy_def intro!: image_eqI [where x = "n - 1 - i"])
      qed
      show "?R \<subseteq> ?L"
      proof
        fix x assume "x \<in> ?R"
        then obtain i where "i < n" "x = (bytes dst i, {Reg tid src (n - 1 - i)})" by (auto simp: copy_def)
        then show "x \<in> ?L" by (auto simp: copy_def intro!: image_eqI [where x = "n - 1 - i"])
      qed
    qed
  qed
  finally show ?thesis .
qed

lemma r2m_opw_rev_flows:
  assumes "user dst 2"
  shows "flows T S (r2m_xfer_opw_rev T tid dst src) (moves (copy 2 (bytes dst) (\<lambda>i. Reg tid src (1 - i))))"
proof -
  have "flows T S (for_loop 2 (\<lambda>i s. Inr (tagmap_setb T (dst + of_nat i) (RTAG s tid src (1 - i)) s)))
      (moves (copy 2 (bytes dst) (\<lambda>i. Reg tid src (1 - i))))"
    unfolding copy_def
    by (rule flows_loop)
      (simp_all add: as_put [where T = T] as_look [where T = T] bytes_def inv_copy userD [OF assms])
  moreover have "r2m_xfer_opw_rev T tid dst src =
      for_loop 2 (\<lambda>i s. Inr (tagmap_setb T (dst + of_nat i) (RTAG s tid src (1 - i)) s))"
    by (simp add: fun_eq_iff r2m_xfer_opw_rev_def numeral_2_eq_2 Let_def)
  ultimately show ?thesis by simp
qed

lemma lea_flows:
  "flows T S (lea_op n T tid dst base index)
    (moves (map (\<lambda>i. (Reg tid dst i, {Reg tid base i, Reg tid index i})) [0..<n]))"
  unfolding lea_op_def
proof (rule flows_loop)
  fix i s0 A s
  assume i: "inv s0 A s"
  have "post s0 (A(Reg tid dst i := A (Reg tid base i) \<union> A (Reg tid index i)))
      (bindE (combine T (RTAG s tid base i) (RTAG s tid index i) tid s) (\<lambda>(t, s). Inr (put T (Reg tid dst i) t s)))"
    unfolding as_look [where T = T] by (rule post_merge [OF i holds_now [OF i] holds_now [OF i]]) simp
  then show "post s0 (A(Reg tid dst i := (\<Union>m \<in> {Reg tid base i, Reg tid index i}. A m)))
      (bindE (combine T (RTAG s tid base i) (RTAG s tid index i) tid s) (\<lambda>(t, s). Inr (set_RTAG tid dst i t s)))"
    by (simp add: as_put(1) [where T = T])
qed simp

lemma fill_flows:
  assumes "0 < w" "EFLAGS_DF eflags = 0 \<Longrightarrow> user dst (unat nbytes)"
    and "EFLAGS_DF eflags \<noteq> 0 \<Longrightarrow> user (dst - nbytes + 1) (unat nbytes)"
  shows "flows T S (r2m_fill w nbytes T tid dst eflags)
    (moves (copy (unat nbytes) (bytes (if EFLAGS_DF eflags = 0 then dst else dst - nbytes + 1))
      (\<lambda>i. Reg tid DFT_REG_RAX (i mod w))))"
proof (rule flowsI)
  fix s assume s: "inv s (taint_at T S s) s"
  define a where "a = (if EFLAGS_DF eflags = 0 then dst else dst - nbytes + 1)"
  let ?xs = "RTAGS w s tid DFT_REG_RAX" and ?A = "taint_at T S s"
  let ?q = "\<lambda>i. (bytes a i, {Reg tid DFT_REG_RAX (i mod w)})"
  have u: "user a (unat nbytes)" using assms(2,3) by (auto simp: a_def)
  have "post s (after ?A ([] @ map ?q [0..<unat nbytes]))
      (for_loop (unat nbytes) (\<lambda>i s. Inr (tagmap_setb T (a + of_nat i) (?xs ! (i mod w)) s)) s)"
  proof (rule post_turns1)
    fix i s' assume "i < unat nbytes" and s': "inv s (after ?A ([] @ map ?q [0..<i])) s'"
    have "holds s' (?xs ! (i mod w)) (?A (Reg tid DFT_REG_RAX (i mod w)))"
      by (rule holds_saved [OF holds_RTAGS [OF s] s']) (use assms(1) in simp)
    then show "post s (after ?A (([] @ map ?q [0..<i]) @ [?q i]))
        (Inr (tagmap_setb T (a + of_nat i) (?xs ! (i mod w)) s'))"
      using userD [OF u \<open>i < unat nbytes\<close>] inv_put [OF s', of _ _ "bytes a i"]
      by (simp add: as_put [where T = T] bytes_def)
  qed (simp add: s)
  then show "post s (after ?A (copy (unat nbytes) (bytes (if EFLAGS_DF eflags = 0 then dst else dst - nbytes + 1))
        (\<lambda>i. Reg tid DFT_REG_RAX (i mod w)))) (r2m_fill w nbytes T tid dst eflags s)"
    by (simp add: r2m_fill_def copy_def Let_def a_def split: if_splits)
qed

text \<open>The routines of one byte, and those that are unrolled.\<close>

lemma xfer_byte_flows:
  "flows T S (r2r_xfer_opb_ul tid dst src) (moves [(Reg tid dst 1, {Reg tid src 0})])"
  "flows T S (r2r_xfer_opb_lu tid dst src) (moves [(Reg tid dst 0, {Reg tid src 1})])"
  "flows T S (r2r_xfer_opb_u tid dst src) (moves [(Reg tid dst 1, {Reg tid src 1})])"
  "flows T S (r2r_xfer_opb_l tid dst src) (moves [(Reg tid dst 0, {Reg tid src 0})])"
  "\<not> outside a \<Longrightarrow> flows T S (m2r_xfer_opb_u T tid dst a) (moves [(Reg tid dst 1, {Mem a})])"
  "\<not> outside a \<Longrightarrow> flows T S (m2r_xfer_opb_l T tid dst a) (moves [(Reg tid dst 0, {Mem a})])"
  "\<not> outside a \<Longrightarrow> flows T S (r2m_xfer_opb_u T tid a src) (moves [(Mem a, {Reg tid src 1})])"
  "\<not> outside a \<Longrightarrow> flows T S (r2m_xfer_opb_l T tid a src) (moves [(Mem a, {Reg tid src 0})])"
  "\<not> outside a \<Longrightarrow> \<not> outside b \<Longrightarrow> flows T S (m2m_xfer_opb T a b) (moves [(Mem a, {Mem b})])"
  by (rule flows_one; simp add: r2r_xfer_opb_ul_def r2r_xfer_opb_lu_def r2r_xfer_opb_u_def r2r_xfer_opb_l_def
      m2r_xfer_opb_u_def m2r_xfer_opb_l_def r2m_xfer_opb_u_def r2m_xfer_opb_l_def m2m_xfer_opb_def
      as_put [where T = T] as_look [where T = T] inv_copy post_getb)+

end

lemma r2m_word: "r2m_xfer_opw = r2m_xfer 2"
  by (simp add: fun_eq_iff r2m_xfer_opw_def r2m_xfer_def numeral_2_eq_2 Let_def)

end
