(* ===== verification/BinaryOps.thy ===== *)
theory BinaryOps
  imports XferOps
begin

text \<open>
  The analysis routines of binary operations (\<open>src/ins_binary_op.cpp\<close>), of multiplication and
  division (\<open>ins_unitary_op.cpp\<close>), of clearing (\<open>ins_clear_op.cpp\<close>), of sign extension
  (\<open>ins_movsx_op.cpp\<close>) and of the conversions of the accumulator (\<open>libdft_core.cpp\<close>), with the
  flow of taint that each of them has.
\<close>

section \<open>Binary operations\<close>

definition r2r_binary :: "nat \<Rightarrow> ('a, 's) tag_ops \<Rightarrow> nat \<Rightarrow> nat \<Rightarrow> nat \<Rightarrow> ('a, 's) dft \<Rightarrow> serror + ('a, 's) dft" where
  "r2r_binary n T tid dst src = for_loop n (\<lambda>i s.
    bindE (combine T (RTAG s tid dst i) (RTAG s tid src i) tid s) (\<lambda>(t, s). Inr (set_RTAG tid dst i t s)))"

definition r2r_binary_byte :: "nat \<Rightarrow> nat \<Rightarrow> ('a, 's) tag_ops \<Rightarrow> nat \<Rightarrow> nat \<Rightarrow> nat \<Rightarrow> ('a, 's) dft \<Rightarrow> serror + ('a, 's) dft" where
  "r2r_binary_byte i j T tid dst src s = (let src_tag = RTAG s tid src j; dst_tag = RTAG s tid dst i
     in bindE (combine T dst_tag src_tag tid s) (\<lambda>(t, s). Inr (set_RTAG tid dst i t s)))"

definition r2r_binary_opb_ul :: "('a, 's) tag_ops \<Rightarrow> nat \<Rightarrow> nat \<Rightarrow> nat \<Rightarrow> ('a, 's) dft \<Rightarrow> serror + ('a, 's) dft" where
  "r2r_binary_opb_ul = r2r_binary_byte 1 0"

definition r2r_binary_opb_lu :: "('a, 's) tag_ops \<Rightarrow> nat \<Rightarrow> nat \<Rightarrow> nat \<Rightarrow> ('a, 's) dft \<Rightarrow> serror + ('a, 's) dft" where
  "r2r_binary_opb_lu = r2r_binary_byte 0 1"

definition r2r_binary_opb_u :: "('a, 's) tag_ops \<Rightarrow> nat \<Rightarrow> nat \<Rightarrow> nat \<Rightarrow> ('a, 's) dft \<Rightarrow> serror + ('a, 's) dft" where
  "r2r_binary_opb_u = r2r_binary_byte 1 1"

definition r2r_binary_opb_l :: "('a, 's) tag_ops \<Rightarrow> nat \<Rightarrow> nat \<Rightarrow> nat \<Rightarrow> ('a, 's) dft \<Rightarrow> serror + ('a, 's) dft" where
  "r2r_binary_opb_l = r2r_binary_byte 0 0"

definition r2r_binary_opw :: "('a, 's) tag_ops \<Rightarrow> nat \<Rightarrow> nat \<Rightarrow> nat \<Rightarrow> ('a, 's) dft \<Rightarrow> serror + ('a, 's) dft" where
  "r2r_binary_opw = r2r_binary 2"

definition r2r_binary_opl :: "('a, 's) tag_ops \<Rightarrow> nat \<Rightarrow> nat \<Rightarrow> nat \<Rightarrow> ('a, 's) dft \<Rightarrow> serror + ('a, 's) dft" where
  "r2r_binary_opl = r2r_binary 4"

definition r2r_binary_opq :: "('a, 's) tag_ops \<Rightarrow> nat \<Rightarrow> nat \<Rightarrow> nat \<Rightarrow> ('a, 's) dft \<Rightarrow> serror + ('a, 's) dft" where
  "r2r_binary_opq = r2r_binary 8"

definition r2r_binary_opx :: "('a, 's) tag_ops \<Rightarrow> nat \<Rightarrow> nat \<Rightarrow> nat \<Rightarrow> ('a, 's) dft \<Rightarrow> serror + ('a, 's) dft" where
  "r2r_binary_opx = r2r_binary 16"

definition r2r_binary_opy :: "('a, 's) tag_ops \<Rightarrow> nat \<Rightarrow> nat \<Rightarrow> nat \<Rightarrow> ('a, 's) dft \<Rightarrow> serror + ('a, 's) dft" where
  "r2r_binary_opy = r2r_binary 32"

definition m2r_binary :: "nat \<Rightarrow> ('a, 's) tag_ops \<Rightarrow> nat \<Rightarrow> nat \<Rightarrow> u64 \<Rightarrow> ('a, 's) dft \<Rightarrow> serror + ('a, 's) dft" where
  "m2r_binary n T tid dst src = for_loop n (\<lambda>i s. bindE (tagmap_getb T s (src + of_nat i)) (\<lambda>m.
    bindE (combine T (RTAG s tid dst i) m tid s) (\<lambda>(t, s). Inr (set_RTAG tid dst i t s))))"

definition m2r_binary_byte :: "nat \<Rightarrow> ('a, 's) tag_ops \<Rightarrow> nat \<Rightarrow> nat \<Rightarrow> u64 \<Rightarrow> ('a, 's) dft \<Rightarrow> serror + ('a, 's) dft" where
  "m2r_binary_byte i T tid dst src s = bindE (tagmap_getb T s src) (\<lambda>src_tag.
    let dst_tag = RTAG s tid dst i
    in bindE (combine T src_tag dst_tag tid s) (\<lambda>(t, s). Inr (set_RTAG tid dst i t s)))"

definition m2r_binary_opb_u :: "('a, 's) tag_ops \<Rightarrow> nat \<Rightarrow> nat \<Rightarrow> u64 \<Rightarrow> ('a, 's) dft \<Rightarrow> serror + ('a, 's) dft" where
  "m2r_binary_opb_u = m2r_binary_byte 1"

definition m2r_binary_opb_l :: "('a, 's) tag_ops \<Rightarrow> nat \<Rightarrow> nat \<Rightarrow> u64 \<Rightarrow> ('a, 's) dft \<Rightarrow> serror + ('a, 's) dft" where
  "m2r_binary_opb_l = m2r_binary_byte 0"

definition m2r_binary_opw :: "('a, 's) tag_ops \<Rightarrow> nat \<Rightarrow> nat \<Rightarrow> u64 \<Rightarrow> ('a, 's) dft \<Rightarrow> serror + ('a, 's) dft" where
  "m2r_binary_opw = m2r_binary 2"

definition m2r_binary_opl :: "('a, 's) tag_ops \<Rightarrow> nat \<Rightarrow> nat \<Rightarrow> u64 \<Rightarrow> ('a, 's) dft \<Rightarrow> serror + ('a, 's) dft" where
  "m2r_binary_opl = m2r_binary 4"

definition m2r_binary_opq :: "('a, 's) tag_ops \<Rightarrow> nat \<Rightarrow> nat \<Rightarrow> u64 \<Rightarrow> ('a, 's) dft \<Rightarrow> serror + ('a, 's) dft" where
  "m2r_binary_opq = m2r_binary 8"

definition m2r_binary_opx :: "('a, 's) tag_ops \<Rightarrow> nat \<Rightarrow> nat \<Rightarrow> u64 \<Rightarrow> ('a, 's) dft \<Rightarrow> serror + ('a, 's) dft" where
  "m2r_binary_opx = m2r_binary 16"

definition m2r_binary_opy :: "('a, 's) tag_ops \<Rightarrow> nat \<Rightarrow> nat \<Rightarrow> u64 \<Rightarrow> ('a, 's) dft \<Rightarrow> serror + ('a, 's) dft" where
  "m2r_binary_opy = m2r_binary 32"

definition r2m_binary :: "nat \<Rightarrow> ('a, 's) tag_ops \<Rightarrow> nat \<Rightarrow> u64 \<Rightarrow> nat \<Rightarrow> ('a, 's) dft \<Rightarrow> serror + ('a, 's) dft" where
  "r2m_binary n T tid dst src = for_loop n (\<lambda>i s. bindE (tagmap_getb T s (dst + of_nat i)) (\<lambda>m.
    bindE (combine T m (RTAG s tid src i) tid s) (\<lambda>(t, s). Inr (tagmap_setb T (dst + of_nat i) t s))))"

definition r2m_binary_byte :: "nat \<Rightarrow> ('a, 's) tag_ops \<Rightarrow> nat \<Rightarrow> u64 \<Rightarrow> nat \<Rightarrow> ('a, 's) dft \<Rightarrow> serror + ('a, 's) dft" where
  "r2m_binary_byte j T tid dst src s = (let src_tag = RTAG s tid src j in
    bindE (tagmap_getb T s dst) (\<lambda>dst_tag.
      bindE (combine T dst_tag src_tag tid s) (\<lambda>(res_tag, s). Inr (tagmap_setb T dst res_tag s))))"

definition r2m_binary_opb_u :: "('a, 's) tag_ops \<Rightarrow> nat \<Rightarrow> u64 \<Rightarrow> nat \<Rightarrow> ('a, 's) dft \<Rightarrow> serror + ('a, 's) dft" where
  "r2m_binary_opb_u = r2m_binary_byte 1"

definition r2m_binary_opb_l :: "('a, 's) tag_ops \<Rightarrow> nat \<Rightarrow> u64 \<Rightarrow> nat \<Rightarrow> ('a, 's) dft \<Rightarrow> serror + ('a, 's) dft" where
  "r2m_binary_opb_l = r2m_binary_byte 0"

definition r2m_binary_opw :: "('a, 's) tag_ops \<Rightarrow> nat \<Rightarrow> u64 \<Rightarrow> nat \<Rightarrow> ('a, 's) dft \<Rightarrow> serror + ('a, 's) dft" where
  "r2m_binary_opw = r2m_binary 2"

definition r2m_binary_opl :: "('a, 's) tag_ops \<Rightarrow> nat \<Rightarrow> u64 \<Rightarrow> nat \<Rightarrow> ('a, 's) dft \<Rightarrow> serror + ('a, 's) dft" where
  "r2m_binary_opl = r2m_binary 4"

definition r2m_binary_opq :: "('a, 's) tag_ops \<Rightarrow> nat \<Rightarrow> u64 \<Rightarrow> nat \<Rightarrow> ('a, 's) dft \<Rightarrow> serror + ('a, 's) dft" where
  "r2m_binary_opq = r2m_binary 8"

definition r2m_binary_opx :: "('a, 's) tag_ops \<Rightarrow> nat \<Rightarrow> u64 \<Rightarrow> nat \<Rightarrow> ('a, 's) dft \<Rightarrow> serror + ('a, 's) dft" where
  "r2m_binary_opx = r2m_binary 16"

definition r2m_binary_opy :: "('a, 's) tag_ops \<Rightarrow> nat \<Rightarrow> u64 \<Rightarrow> nat \<Rightarrow> ('a, 's) dft \<Rightarrow> serror + ('a, 's) dft" where
  "r2m_binary_opy = r2m_binary 32"

section \<open>Multiplication and division\<close>

text \<open>The byte routines merge one tag into the two low bytes of the accumulator; the wider ones
  copy the tags of the operand and of the two registers of the result, then merge.\<close>

definition unitary_byte :: "('a, 's) tag_ops \<Rightarrow> nat \<Rightarrow> 'a \<Rightarrow> ('a, 's) dft \<Rightarrow> serror + ('a, 's) dft" where
  "unitary_byte T tid tmp_tag s = bindE (combine T (RTAG s tid DFT_REG_RAX 0) tmp_tag tid s) (\<lambda>(t, s).
    let s = set_RTAG tid DFT_REG_RAX 0 t s in
    bindE (combine T (RTAG s tid DFT_REG_RAX 1) tmp_tag tid s) (\<lambda>(t, s). Inr (set_RTAG tid DFT_REG_RAX 1 t s)))"

definition r2r_unitary_opb_u :: "('a, 's) tag_ops \<Rightarrow> nat \<Rightarrow> nat \<Rightarrow> ('a, 's) dft \<Rightarrow> serror + ('a, 's) dft" where
  "r2r_unitary_opb_u T tid src s = unitary_byte T tid (RTAG s tid src 1) s"

definition r2r_unitary_opb_l :: "('a, 's) tag_ops \<Rightarrow> nat \<Rightarrow> nat \<Rightarrow> ('a, 's) dft \<Rightarrow> serror + ('a, 's) dft" where
  "r2r_unitary_opb_l T tid src s = unitary_byte T tid (RTAG s tid src 0) s"

definition unitary_wide :: "nat \<Rightarrow> ('a, 's) tag_ops \<Rightarrow> nat \<Rightarrow> 'a list \<Rightarrow> ('a, 's) dft \<Rightarrow> serror + ('a, 's) dft" where
  "unitary_wide n T tid tmp_tag s = (let dst1_tag = RTAGS n s tid DFT_REG_RDX; dst2_tag = RTAGS n s tid DFT_REG_RAX
     in for_loop n (\<lambda>i s.
      bindE (combine T (dst1_tag ! i) (tmp_tag ! i) tid s) (\<lambda>(t, s).
        let s = set_RTAG tid DFT_REG_RDX i t s in
        bindE (combine T (dst2_tag ! i) (tmp_tag ! i) tid s) (\<lambda>(t, s). Inr (set_RTAG tid DFT_REG_RAX i t s)))) s)"

text \<open>The word routine writes the two bytes of \<open>rdx\<close> before those of \<open>rax\<close>.\<close>

definition r2r_unitary_opw :: "('a, 's) tag_ops \<Rightarrow> nat \<Rightarrow> nat \<Rightarrow> ('a, 's) dft \<Rightarrow> serror + ('a, 's) dft" where
  "r2r_unitary_opw T tid src s = (let tmp_tag = RTAGS 2 s tid src; dst1_tag = RTAGS 2 s tid DFT_REG_RDX; dst2_tag = RTAGS 2 s tid DFT_REG_RAX
     in bindE (combine T (dst1_tag ! 0) (tmp_tag ! 0) tid s) (\<lambda>(t, s). let s = set_RTAG tid DFT_REG_RDX 0 t s in
        bindE (combine T (dst1_tag ! 1) (tmp_tag ! 1) tid s) (\<lambda>(t, s). let s = set_RTAG tid DFT_REG_RDX 1 t s in
        bindE (combine T (dst2_tag ! 0) (tmp_tag ! 0) tid s) (\<lambda>(t, s). let s = set_RTAG tid DFT_REG_RAX 0 t s in
        bindE (combine T (dst2_tag ! 1) (tmp_tag ! 1) tid s) (\<lambda>(t, s). Inr (set_RTAG tid DFT_REG_RAX 1 t s))))))"

definition r2r_unitary_opq :: "('a, 's) tag_ops \<Rightarrow> nat \<Rightarrow> nat \<Rightarrow> ('a, 's) dft \<Rightarrow> serror + ('a, 's) dft" where
  "r2r_unitary_opq T tid src s = unitary_wide 8 T tid (RTAGS 8 s tid src) s"

definition r2r_unitary_opl :: "('a, 's) tag_ops \<Rightarrow> nat \<Rightarrow> nat \<Rightarrow> ('a, 's) dft \<Rightarrow> serror + ('a, 's) dft" where
  "r2r_unitary_opl T tid src s = unitary_wide 4 T tid (RTAGS 4 s tid src) s"

definition m2r_unitary_opb :: "('a, 's) tag_ops \<Rightarrow> nat \<Rightarrow> u64 \<Rightarrow> ('a, 's) dft \<Rightarrow> serror + ('a, 's) dft" where
  "m2r_unitary_opb T tid src s = bindE (tagmap_getb T s src) (\<lambda>tmp_tag.
    let dst_tag = RTAGS 2 s tid DFT_REG_RAX in
    bindE (combine T (dst_tag ! 0) tmp_tag tid s) (\<lambda>(t, s).
      let s = set_RTAG tid DFT_REG_RAX 0 t s in
      bindE (combine T (dst_tag ! 1) tmp_tag tid s) (\<lambda>(t, s). Inr (set_RTAG tid DFT_REG_RAX 1 t s))))"

definition m2r_unitary_opw :: "('a, 's) tag_ops \<Rightarrow> nat \<Rightarrow> u64 \<Rightarrow> ('a, 's) dft \<Rightarrow> serror + ('a, 's) dft" where
  "m2r_unitary_opw T tid src s = bindE (MTAGS T 2 s src) (\<lambda>tmp_tag. unitary_wide 2 T tid tmp_tag s)"

definition m2r_unitary_opq :: "('a, 's) tag_ops \<Rightarrow> nat \<Rightarrow> u64 \<Rightarrow> ('a, 's) dft \<Rightarrow> serror + ('a, 's) dft" where
  "m2r_unitary_opq T tid src s = bindE (MTAGS T 8 s src) (\<lambda>tmp_tag. unitary_wide 8 T tid tmp_tag s)"

definition m2r_unitary_opl :: "('a, 's) tag_ops \<Rightarrow> nat \<Rightarrow> u64 \<Rightarrow> ('a, 's) dft \<Rightarrow> serror + ('a, 's) dft" where
  "m2r_unitary_opl T tid src s = bindE (MTAGS T 4 s src) (\<lambda>tmp_tag. unitary_wide 4 T tid tmp_tag s)"

section \<open>Clearing\<close>

definition clear_reg :: "nat \<Rightarrow> ('a, 's) tag_ops \<Rightarrow> nat \<Rightarrow> nat \<Rightarrow> ('a, 's) dft \<Rightarrow> serror + ('a, 's) dft" where
  "clear_reg n T tid reg = for_loop n (\<lambda>i s. Inr (set_RTAG tid reg i (cleared_val T) s))"

definition r_clrl4 :: "('a, 's) tag_ops \<Rightarrow> nat \<Rightarrow> ('a, 's) dft \<Rightarrow> serror + ('a, 's) dft" where
  "r_clrl4 T tid = for_loop 8 (\<lambda>i s. Inr
    (set_RTAG tid DFT_REG_RAX i (cleared_val T) (set_RTAG tid DFT_REG_RBX i (cleared_val T)
      (set_RTAG tid DFT_REG_RCX i (cleared_val T) (set_RTAG tid DFT_REG_RDX i (cleared_val T) s)))))"

definition r_clrl2 :: "('a, 's) tag_ops \<Rightarrow> nat \<Rightarrow> ('a, 's) dft \<Rightarrow> serror + ('a, 's) dft" where
  "r_clrl2 T tid = for_loop 8 (\<lambda>i s. Inr
    (set_RTAG tid DFT_REG_RAX i (cleared_val T) (set_RTAG tid DFT_REG_RDX i (cleared_val T) s)))"

definition r_clrb_l :: "('a, 's) tag_ops \<Rightarrow> nat \<Rightarrow> nat \<Rightarrow> ('a, 's) dft \<Rightarrow> serror + ('a, 's) dft" where
  "r_clrb_l T tid reg s = Inr (set_RTAG tid reg 0 (cleared_val T) s)"

definition r_clrb_u :: "('a, 's) tag_ops \<Rightarrow> nat \<Rightarrow> nat \<Rightarrow> ('a, 's) dft \<Rightarrow> serror + ('a, 's) dft" where
  "r_clrb_u T tid reg s = Inr (set_RTAG tid reg 1 (cleared_val T) s)"

definition r_clrw :: "('a, 's) tag_ops \<Rightarrow> nat \<Rightarrow> nat \<Rightarrow> ('a, 's) dft \<Rightarrow> serror + ('a, 's) dft" where
  "r_clrw = clear_reg 2"

definition r_clrl :: "('a, 's) tag_ops \<Rightarrow> nat \<Rightarrow> nat \<Rightarrow> ('a, 's) dft \<Rightarrow> serror + ('a, 's) dft" where
  "r_clrl = clear_reg 4"

definition r_clrq :: "('a, 's) tag_ops \<Rightarrow> nat \<Rightarrow> nat \<Rightarrow> ('a, 's) dft \<Rightarrow> serror + ('a, 's) dft" where
  "r_clrq = clear_reg 8"

definition r_clrx :: "('a, 's) tag_ops \<Rightarrow> nat \<Rightarrow> nat \<Rightarrow> ('a, 's) dft \<Rightarrow> serror + ('a, 's) dft" where
  "r_clrx = clear_reg 16"

text \<open>The routine for 32 byte registers clears 16 bytes.\<close>

definition r_clry :: "('a, 's) tag_ops \<Rightarrow> nat \<Rightarrow> nat \<Rightarrow> ('a, 's) dft \<Rightarrow> serror + ('a, 's) dft" where
  "r_clry = clear_reg 16"

section \<open>Sign and zero extension\<close>

definition movsx_r2r_byte :: "nat \<Rightarrow> nat \<Rightarrow> nat \<Rightarrow> nat \<Rightarrow> nat \<Rightarrow> ('a, 's) dft \<Rightarrow> serror + ('a, 's) dft" where
  "movsx_r2r_byte n j tid dst src s = (let src_tag = RTAG s tid src j in for_loop n (\<lambda>i s. Inr (set_RTAG tid dst i src_tag s)) s)"

definition movsx_r2r_opwb_u :: "nat \<Rightarrow> nat \<Rightarrow> nat \<Rightarrow> ('a, 's) dft \<Rightarrow> serror + ('a, 's) dft" where
  "movsx_r2r_opwb_u = movsx_r2r_byte 2 1"

definition movsx_r2r_opwb_l :: "nat \<Rightarrow> nat \<Rightarrow> nat \<Rightarrow> ('a, 's) dft \<Rightarrow> serror + ('a, 's) dft" where
  "movsx_r2r_opwb_l = movsx_r2r_byte 2 0"

definition movsx_r2r_oplb_u :: "nat \<Rightarrow> nat \<Rightarrow> nat \<Rightarrow> ('a, 's) dft \<Rightarrow> serror + ('a, 's) dft" where
  "movsx_r2r_oplb_u = movsx_r2r_byte 4 1"

definition movsx_r2r_oplb_l :: "nat \<Rightarrow> nat \<Rightarrow> nat \<Rightarrow> ('a, 's) dft \<Rightarrow> serror + ('a, 's) dft" where
  "movsx_r2r_oplb_l = movsx_r2r_byte 4 0"

definition movsx_r2r_opqb_u :: "nat \<Rightarrow> nat \<Rightarrow> nat \<Rightarrow> ('a, 's) dft \<Rightarrow> serror + ('a, 's) dft" where
  "movsx_r2r_opqb_u = movsx_r2r_byte 8 1"

definition movsx_r2r_opqb_l :: "nat \<Rightarrow> nat \<Rightarrow> nat \<Rightarrow> ('a, 's) dft \<Rightarrow> serror + ('a, 's) dft" where
  "movsx_r2r_opqb_l = movsx_r2r_byte 8 0"

definition movsx_r2r :: "nat \<Rightarrow> nat \<Rightarrow> nat \<Rightarrow> nat \<Rightarrow> nat \<Rightarrow> ('a, 's) dft \<Rightarrow> serror + ('a, 's) dft" where
  "movsx_r2r n w tid dst src = for_loop n (\<lambda>i s. Inr (set_RTAG tid dst i (RTAG s tid src (i mod w)) s))"

definition movsx_r2r_oplw :: "nat \<Rightarrow> nat \<Rightarrow> nat \<Rightarrow> ('a, 's) dft \<Rightarrow> serror + ('a, 's) dft" where
  "movsx_r2r_oplw = movsx_r2r 4 2"

definition movsx_r2r_opqw :: "nat \<Rightarrow> nat \<Rightarrow> nat \<Rightarrow> ('a, 's) dft \<Rightarrow> serror + ('a, 's) dft" where
  "movsx_r2r_opqw = movsx_r2r 8 2"

definition movsx_r2r_opql :: "nat \<Rightarrow> nat \<Rightarrow> nat \<Rightarrow> ('a, 's) dft \<Rightarrow> serror + ('a, 's) dft" where
  "movsx_r2r_opql = movsx_r2r 8 4"

definition movsx_m2r_byte :: "nat \<Rightarrow> ('a, 's) tag_ops \<Rightarrow> nat \<Rightarrow> nat \<Rightarrow> u64 \<Rightarrow> ('a, 's) dft \<Rightarrow> serror + ('a, 's) dft" where
  "movsx_m2r_byte n T tid dst src s = bindE (tagmap_getb T s src) (\<lambda>src_tag. for_loop n (\<lambda>i s. Inr (set_RTAG tid dst i src_tag s)) s)"

definition movsx_m2r_opwb :: "('a, 's) tag_ops \<Rightarrow> nat \<Rightarrow> nat \<Rightarrow> u64 \<Rightarrow> ('a, 's) dft \<Rightarrow> serror + ('a, 's) dft" where
  "movsx_m2r_opwb = movsx_m2r_byte 2"

definition movsx_m2r_oplb :: "('a, 's) tag_ops \<Rightarrow> nat \<Rightarrow> nat \<Rightarrow> u64 \<Rightarrow> ('a, 's) dft \<Rightarrow> serror + ('a, 's) dft" where
  "movsx_m2r_oplb = movsx_m2r_byte 4"

definition movsx_m2r_opqb :: "('a, 's) tag_ops \<Rightarrow> nat \<Rightarrow> nat \<Rightarrow> u64 \<Rightarrow> ('a, 's) dft \<Rightarrow> serror + ('a, 's) dft" where
  "movsx_m2r_opqb = movsx_m2r_byte 8"

definition movsx_m2r :: "nat \<Rightarrow> nat \<Rightarrow> ('a, 's) tag_ops \<Rightarrow> nat \<Rightarrow> nat \<Rightarrow> u64 \<Rightarrow> ('a, 's) dft \<Rightarrow> serror + ('a, 's) dft" where
  "movsx_m2r n w T tid dst src s = bindE (MTAGS T w s src) (\<lambda>src_tags. for_loop n (\<lambda>i s. Inr (set_RTAG tid dst i (src_tags ! (i mod w)) s)) s)"

definition movsx_m2r_oplw :: "('a, 's) tag_ops \<Rightarrow> nat \<Rightarrow> nat \<Rightarrow> u64 \<Rightarrow> ('a, 's) dft \<Rightarrow> serror + ('a, 's) dft" where
  "movsx_m2r_oplw = movsx_m2r 4 2"

definition movsx_m2r_opqw :: "('a, 's) tag_ops \<Rightarrow> nat \<Rightarrow> nat \<Rightarrow> u64 \<Rightarrow> ('a, 's) dft \<Rightarrow> serror + ('a, 's) dft" where
  "movsx_m2r_opqw = movsx_m2r 8 2"

definition movsx_m2r_opql :: "('a, 's) tag_ops \<Rightarrow> nat \<Rightarrow> nat \<Rightarrow> u64 \<Rightarrow> ('a, 's) dft \<Rightarrow> serror + ('a, 's) dft" where
  "movsx_m2r_opql = movsx_m2r 8 4"

section \<open>Conversions of the accumulator\<close>

definition cbw :: "nat \<Rightarrow> ('a, 's) dft \<Rightarrow> serror + ('a, 's) dft" where
  "cbw tid s = Inr (set_RTAG tid DFT_REG_RAX 1 (RTAG s tid DFT_REG_RAX 0) s)"

definition cwde :: "nat \<Rightarrow> ('a, 's) dft \<Rightarrow> serror + ('a, 's) dft" where
  "cwde tid s = (let s = set_RTAG tid DFT_REG_RAX 2 (RTAG s tid DFT_REG_RAX 0) s
     in Inr (set_RTAG tid DFT_REG_RAX 3 (RTAG s tid DFT_REG_RAX 1) s))"

definition cdqe :: "nat \<Rightarrow> ('a, 's) dft \<Rightarrow> serror + ('a, 's) dft" where
  "cdqe tid = for_loop 4 (\<lambda>i s. Inr (set_RTAG tid DFT_REG_RAX (i + 4) (RTAG s tid DFT_REG_RAX i) s))"

definition cwd :: "nat \<Rightarrow> ('a, 's) dft \<Rightarrow> serror + ('a, 's) dft" where
  "cwd tid s = (let s = set_RTAG tid DFT_REG_RDX 0 (RTAG s tid DFT_REG_RAX 0) s
     in Inr (set_RTAG tid DFT_REG_RDX 1 (RTAG s tid DFT_REG_RAX 1) s))"

definition cdq :: "nat \<Rightarrow> ('a, 's) dft \<Rightarrow> serror + ('a, 's) dft" where
  "cdq tid = r2r_xfer 4 tid DFT_REG_RDX DFT_REG_RAX"

definition cqo :: "nat \<Rightarrow> ('a, 's) dft \<Rightarrow> serror + ('a, 's) dft" where
  "cqo tid = r2r_xfer 8 tid DFT_REG_RDX DFT_REG_RAX"

section \<open>Flows\<close>

context tag_type
begin

lemma step_merge:
  assumes "inv s0 A s" "in_range l"
  shows "post s0 (A(l := A m1 \<union> A m2))
    (bindE (combine T (look T s m1) (look T s m2) tid s) (\<lambda>(t, s). Inr (put T l t s)))"
  using post_merge [OF assms(1) holds_now [OF assms(1)] holds_now [OF assms(1)] assms(2)] by simp

lemma r2r_binary_flows: "flows T S (r2r_binary n T tid dst src) (moves (merge n (Reg tid dst) (Reg tid src)))"
  unfolding r2r_binary_def merge_def as_look [where T = T] as_put [where T = T]
  by (rule flows_loop) (simp_all add: step_merge)

lemma r2r_binary_byte_flows:
  "flows T S (r2r_binary_byte i j T tid dst src) (moves [(Reg tid dst i, {Reg tid dst i, Reg tid src j})])"
  unfolding r2r_binary_byte_def Let_def as_look [where T = T] as_put [where T = T]
  by (rule flows_one) (simp add: step_merge)

lemma m2r_binary_flows:
  assumes "user src n"
  shows "flows T S (m2r_binary n T tid dst src) (moves (merge n (Reg tid dst) (bytes src)))"
  unfolding m2r_binary_def merge_def as_look [where T = T] as_put [where T = T]
proof (rule flows_loop)
  fix i s0 A s
  assume "i < n" and s: "inv s0 A s"
  show "post s0 (A(Reg tid dst i := (\<Union>m \<in> {Reg tid dst i, bytes src i}. A m)))
      (bindE (tagmap_getb T s (src + of_nat i)) (\<lambda>m.
        bindE (combine T (look T s (Reg tid dst i)) m tid s) (\<lambda>(t, s). Inr (put T (Reg tid dst i) t s))))"
    by (rule post_getb [OF s userD [OF assms \<open>i < n\<close>]])
      (auto simp: bytes_def intro!: step_merge s)
qed simp

lemma m2r_binary_byte_flows:
  assumes "\<not> outside src"
  shows "flows T S (m2r_binary_byte i T tid dst src) (moves [(Reg tid dst i, {Mem src, Reg tid dst i})])"
  unfolding m2r_binary_byte_def Let_def as_look [where T = T] as_put [where T = T]
proof (rule flows_one)
  fix s0 A s
  assume s: "inv s0 A s"
  show "post s0 (A(Reg tid dst i := (\<Union>m \<in> {Mem src, Reg tid dst i}. A m)))
      (bindE (tagmap_getb T s src) (\<lambda>m.
        bindE (combine T m (look T s (Reg tid dst i)) tid s) (\<lambda>(t, s). Inr (put T (Reg tid dst i) t s))))"
    by (rule post_getb [OF s assms]) (auto intro!: step_merge s)
qed

lemma r2m_binary_flows:
  assumes "user dst n" "n < 2 ^ 64"
  shows "flows T S (r2m_binary n T tid dst src) (moves (merge n (bytes dst) (Reg tid src)))"
  unfolding r2m_binary_def merge_def as_look [where T = T] as_put [where T = T]
proof (rule flows_loop)
  fix i s0 A s
  assume "i < n" and s: "inv s0 A s"
  show "post s0 (A(bytes dst i := (\<Union>m \<in> {bytes dst i, Reg tid src i}. A m)))
      (bindE (tagmap_getb T s (dst + of_nat i)) (\<lambda>m.
        bindE (combine T m (look T s (Reg tid src i)) tid s) (\<lambda>(t, s). Inr (put T (Mem (dst + of_nat i)) t s))))"
    by (rule post_getb [OF s userD [OF assms(1) \<open>i < n\<close>]])
      (use userD [OF assms(1) \<open>i < n\<close>] in
        \<open>auto simp: bytes_def intro!: step_merge s\<close>)
qed (use assms(2) in \<open>auto simp: bytes_inj\<close>)

lemma r2m_binary_byte_flows:
  assumes "\<not> outside dst"
  shows "flows T S (r2m_binary_byte j T tid dst src) (moves [(Mem dst, {Mem dst, Reg tid src j})])"
  unfolding r2m_binary_byte_def Let_def as_look [where T = T] as_put [where T = T]
proof (rule flows_one)
  fix s0 A s
  assume s: "inv s0 A s"
  show "post s0 (A(Mem dst := (\<Union>m \<in> {Mem dst, Reg tid src j}. A m)))
      (bindE (tagmap_getb T s dst) (\<lambda>m.
        bindE (combine T m (look T s (Reg tid src j)) tid s) (\<lambda>(t, s). Inr (put T (Mem dst) t s))))"
    by (rule post_getb [OF s assms])
      (use assms in \<open>auto intro!: step_merge s\<close>)
qed

text \<open>Multiplication and division.\<close>

lemma post_unitary_byte:
  assumes s: "inv s0 A s" and x: "holds s0 x X"
  shows "post s0 (A(Reg tid DFT_REG_RAX 0 := A (Reg tid DFT_REG_RAX 0) \<union> X,
    Reg tid DFT_REG_RAX 1 := A (Reg tid DFT_REG_RAX 1) \<union> X)) (unitary_byte T tid x s)"
  unfolding unitary_byte_def Let_def as_look [where T = T] as_put [where T = T]
proof (rule post_merge_then [OF s holds_now [OF s] holds_saved [OF x s]])
  fix s' assume s': "inv s0 (A(Reg tid DFT_REG_RAX 0 := A (Reg tid DFT_REG_RAX 0) \<union> X)) s'"
  show "post s0 (A(Reg tid DFT_REG_RAX 0 := A (Reg tid DFT_REG_RAX 0) \<union> X,
        Reg tid DFT_REG_RAX 1 := A (Reg tid DFT_REG_RAX 1) \<union> X))
      (bindE (combine T (look T s' (Reg tid DFT_REG_RAX 1)) x tid s')
        (\<lambda>(t, s). Inr (put T (Reg tid DFT_REG_RAX 1) t s)))"
    using post_merge [OF s' holds_now [OF s', of "Reg tid DFT_REG_RAX 1"] holds_saved [OF x s'],
        of "Reg tid DFT_REG_RAX 1"] by simp
qed simp

lemma r2r_unitary_byte_flows:
  "flows T S (\<lambda>s. unitary_byte T tid (RTAG s tid src j) s)
    (moves [(Reg tid DFT_REG_RAX 0, {Reg tid DFT_REG_RAX 0, Reg tid src j}),
      (Reg tid DFT_REG_RAX 1, {Reg tid DFT_REG_RAX 1, Reg tid src j})])"
proof (rule flowsI)
  fix s assume s: "inv s (taint_at T S s) s"
  show "post s (after (taint_at T S s) [(Reg tid DFT_REG_RAX 0, {Reg tid DFT_REG_RAX 0, Reg tid src j}),
      (Reg tid DFT_REG_RAX 1, {Reg tid DFT_REG_RAX 1, Reg tid src j})]) (unitary_byte T tid (RTAG s tid src j) s)"
    using post_unitary_byte [OF s holds_now [OF s, of "Reg tid src j"]] by (simp add: after_two as_look [where T = T])
qed

lemma post_pair:
  assumes s: "inv s0 A s" and x: "holds s0 x X" and y: "holds s0 y Y" and z: "holds s0 z Z"
  shows "post s0 (A(Reg tid r i := X \<union> Z, Reg tid r' i' := Y \<union> Z))
    (bindE (combine T x z tid s) (\<lambda>(t, s). let s = set_RTAG tid r i t s in
      bindE (combine T y z tid s) (\<lambda>(t, s). Inr (set_RTAG tid r' i' t s))))"
  unfolding Let_def as_put [where T = T]
proof (rule post_merge_then [OF s holds_saved [OF x s] holds_saved [OF z s]])
  fix s' assume s': "inv s0 (A(Reg tid r i := X \<union> Z)) s'"
  show "post s0 (A(Reg tid r i := X \<union> Z, Reg tid r' i' := Y \<union> Z))
      (bindE (combine T y z tid s') (\<lambda>(t, s). Inr (put T (Reg tid r' i') t s)))"
    by (rule post_merge [OF s' holds_saved [OF y s'] holds_saved [OF z s']]) simp
qed simp

end

text \<open>The two registers of the result take up the taint of the operand byte by byte.\<close>

definition product :: "nat \<Rightarrow> nat \<Rightarrow> (nat \<Rightarrow> loc) \<Rightarrow> (loc \<times> loc set) list" where
  "product n tid src = concat (map (\<lambda>i. [(Reg tid DFT_REG_RDX i, {Reg tid DFT_REG_RDX i, src i}),
    (Reg tid DFT_REG_RAX i, {Reg tid DFT_REG_RAX i, src i})]) [0..<n])"

context tag_type
begin

lemma post_product:
  assumes s: "inv s (taint_at T S s) s" and z: "\<And>i. i < n \<Longrightarrow> holds s (tmp ! i) (taint_at T S s (src i))"
  shows "post s (after (taint_at T S s) (product n tid src)) (unitary_wide n T tid tmp s)"
proof -
  let ?A = "taint_at T S s"
  let ?q = "\<lambda>i. [(Reg tid DFT_REG_RDX i, {Reg tid DFT_REG_RDX i, src i}),
    (Reg tid DFT_REG_RAX i, {Reg tid DFT_REG_RAX i, src i})]"
  have two: "after A (ps @ [(l, M), (l', M')]) =
      (after A ps)(l := (\<Union>m \<in> M. A m), l' := (\<Union>m \<in> M'. A m))" for A ps l M l' M'
    using after_snoc [of A "ps @ [(l, M)]" l' M'] by simp
  have "post s (after ?A ([] @ concat (map ?q [0..<n]))) (unitary_wide n T tid tmp s)"
    unfolding unitary_wide_def Let_def
  proof (rule post_turns)
    fix i s' assume "i < n" and s': "inv s (after ?A ([] @ concat (map ?q [0..<i]))) s'"
    show "post s (after ?A ([] @ concat (map ?q [0..<i]) @ ?q i))
        (bindE (combine T (RTAGS n s tid DFT_REG_RDX ! i) (tmp ! i) tid s') (\<lambda>(t, s').
          bindE (combine T (RTAGS n s tid DFT_REG_RAX ! i) (tmp ! i) tid (set_RTAG tid DFT_REG_RDX i t s'))
            (\<lambda>(t, s). Inr (set_RTAG tid DFT_REG_RAX i t s))))"
      using post_pair [OF s' holds_RTAGS [OF s \<open>i < n\<close>] holds_RTAGS [OF s \<open>i < n\<close>] z [OF \<open>i < n\<close>]]
      by (simp add: two)
  qed (simp add: s)
  then show ?thesis by (simp add: product_def)
qed

lemma r2r_unitary_wide_flows:
  "flows T S (\<lambda>s. unitary_wide n T tid (RTAGS n s tid src) s) (moves (product n tid (Reg tid src)))"
proof (rule flowsI)
  fix s assume s: "inv s (taint_at T S s) s"
  show "post s (after (taint_at T S s) (product n tid (Reg tid src))) (unitary_wide n T tid (RTAGS n s tid src) s)"
    by (rule post_product [OF s holds_RTAGS [OF s]])
qed

lemma m2r_unitary_wide_flows:
  assumes "user src n"
  shows "flows T S (\<lambda>s. bindE (MTAGS T n s src) (\<lambda>tmp. unitary_wide n T tid tmp s)) (moves (product n tid (bytes src)))"
proof (rule flowsI)
  fix s assume s: "inv s (taint_at T S s) s"
  show "post s (after (taint_at T S s) (product n tid (bytes src)))
      (bindE (MTAGS T n s src) (\<lambda>tmp. unitary_wide n T tid tmp s))"
    by (rule post_MTAGS [OF s userD [OF assms]]) (simp_all add: post_product [OF s])
qed

text \<open>Clearing.\<close>

lemma clear_reg_flows: "flows T S (clear_reg n T tid reg) (moves (wipe n (Reg tid reg)))"
  unfolding clear_reg_def wipe_def as_put [where T = T]
  by (rule flows_loop) (simp_all add: inv_put holds_cleared)

text \<open>Extension: each byte of the destination gets the tag of a byte of the source in turn.\<close>

lemma movsx_r2r_byte_flows:
  "flows T S (movsx_r2r_byte n j tid dst src) (moves (copy n (Reg tid dst) (\<lambda>_. Reg tid src j)))"
proof (rule flowsI)
  fix s assume s: "inv s (taint_at T S s) s"
  let ?q = "\<lambda>i. (Reg tid dst i, {Reg tid src j})" and ?A = "taint_at T S s"
  have "post s (after ?A ([] @ map ?q [0..<n])) (movsx_r2r_byte n j tid dst src s)"
    unfolding movsx_r2r_byte_def Let_def as_put [where T = T] as_look [where T = T]
  proof (rule post_turns1)
    fix i s' assume s': "inv s (after ?A ([] @ map ?q [0..<i])) s'"
    show "post s (after ?A (([] @ map ?q [0..<i]) @ [?q i])) (Inr (put T (Reg tid dst i) (look T s (Reg tid src j)) s'))"
      using inv_put [OF s' holds_saved [OF holds_now [OF s] s']] by simp
  qed (simp add: s)
  then show "post s (after ?A (copy n (Reg tid dst) (\<lambda>_. Reg tid src j))) (movsx_r2r_byte n j tid dst src s)"
    by (simp add: copy_def)
qed

lemma movsx_r2r_flows:
  "flows T S (movsx_r2r n w tid dst src) (moves (copy n (Reg tid dst) (\<lambda>i. Reg tid src (i mod w))))"
  unfolding movsx_r2r_def copy_def as_put [where T = T] as_look [where T = T]
  by (rule flows_loop) (auto simp: inv_copy)

lemma post_spread:
  assumes s: "inv s (taint_at T S s) s" and ts: "\<And>i. i < n \<Longrightarrow> holds s (f i) (taint_at T S s (src i))"
  shows "post s (after (taint_at T S s) (copy n (Reg tid dst) src))
    (for_loop n (\<lambda>i s. Inr (set_RTAG tid dst i (f i) s)) s)"
proof -
  let ?q = "\<lambda>i. (Reg tid dst i, {src i})" and ?A = "taint_at T S s"
  have "post s (after ?A ([] @ map ?q [0..<n])) (for_loop n (\<lambda>i s. Inr (set_RTAG tid dst i (f i) s)) s)"
    unfolding as_put [where T = T]
  proof (rule post_turns1)
    fix i s' assume "i < n" and s': "inv s (after ?A ([] @ map ?q [0..<i])) s'"
    show "post s (after ?A (([] @ map ?q [0..<i]) @ [?q i])) (Inr (put T (Reg tid dst i) (f i) s'))"
      using inv_put [OF s' holds_saved [OF ts [OF \<open>i < n\<close>] s']] by simp
  qed (simp add: s)
  then show ?thesis by (simp add: copy_def)
qed

lemma movsx_m2r_flows:
  assumes "user src w" "0 < w"
  shows "flows T S (movsx_m2r n w T tid dst src) (moves (copy n (Reg tid dst) (\<lambda>i. bytes src (i mod w))))"
proof (rule flowsI)
  fix s assume s: "inv s (taint_at T S s) s"
  show "post s (after (taint_at T S s) (copy n (Reg tid dst) (\<lambda>i. bytes src (i mod w)))) (movsx_m2r n w T tid dst src s)"
    unfolding movsx_m2r_def
    by (rule post_MTAGS [OF s userD [OF assms(1)]]) (simp_all add: post_spread [OF s] assms(2))
qed

lemma movsx_m2r_byte_flows:
  assumes "\<not> outside src"
  shows "flows T S (movsx_m2r_byte n T tid dst src) (moves (copy n (Reg tid dst) (\<lambda>_. Mem src)))"
proof (rule flowsI)
  fix s assume s: "inv s (taint_at T S s) s"
  show "post s (after (taint_at T S s) (copy n (Reg tid dst) (\<lambda>_. Mem src))) (movsx_m2r_byte n T tid dst src s)"
    unfolding movsx_m2r_byte_def by (rule post_getb [OF s assms]) (simp add: post_spread [OF s])
qed

text \<open>The word routine, which writes the two registers one after the other.\<close>

lemma r2r_unitary_opw_flows: "flows T S (r2r_unitary_opw T tid src) (moves (product 2 tid (Reg tid src)))"
proof -
  let ?rd = "Reg tid DFT_REG_RDX" and ?ra = "Reg tid DFT_REG_RAX" and ?s = "Reg tid src"
  let ?ps = "[(?rd 0, {?rd 0, ?s 0}), (?rd 1, {?rd 1, ?s 1}), (?ra 0, {?ra 0, ?s 0}), (?ra 1, {?ra 1, ?s 1})]"
  have four: "after A ?ps = A(?rd 0 := A (?rd 0) \<union> A (?s 0), ?rd 1 := A (?rd 1) \<union> A (?s 1),
      ?ra 0 := A (?ra 0) \<union> A (?s 0), ?ra 1 := A (?ra 1) \<union> A (?s 1))" for A
    using after_snoc [of A "take 3 ?ps" "?ra 1" "{?ra 1, ?s 1}"] after_snoc [of A "take 2 ?ps" "?ra 0" "{?ra 0, ?s 0}"]
    by (simp add: after_two)
  have "flows T S (r2r_unitary_opw T tid src) (moves ?ps)"
  proof (rule flowsI)
    fix s assume s: "inv s (taint_at T S s) s"
    note h = holds_RTAGS [OF s, of _ 2]
    show "post s (after (taint_at T S s) ?ps) (r2r_unitary_opw T tid src s)"
      unfolding four r2r_unitary_opw_def Let_def as_put [where T = T]
    proof (rule post_merge_then [OF s h h _ post_merge_then [OF _ holds_saved [OF h] holds_saved [OF h] _
          post_merge_then [OF _ holds_saved [OF h] holds_saved [OF h] _ post_merge [OF _ holds_saved [OF h] holds_saved [OF h]]]]])
    qed (assumption | simp)+
  qed
  also have "moves ?ps = moves (product 2 tid (Reg tid src))"
    by (rule moves_cong_set)
      (auto simp: product_def numeral_2_eq_2 DFT_REG_RDX_def DFT_REG_RAX_def)
  finally show ?thesis .
qed

end

end
