(* ===== verification/XchgOps.thy ===== *)
theory XchgOps
  imports BinaryOps
begin

text \<open>
  The analysis routines of exchanging instructions (\<open>src/ins_xchg_op.cpp\<close>): \<open>xchg\<close>, \<open>xadd\<close>
  and the two halves of \<open>cmpxchg\<close>. The fast half of the latter saves the tags of the
  accumulator in a scratch register, gives it those of the operand and compares the values;
  when they are equal the slow half restores the accumulator and writes the operand.
\<close>

section \<open>Compare and exchange\<close>

text \<open>
  \<open>m\<close> bytes are saved and \<open>n\<close> bytes are moved; the values are compared at the width of the
  parameters, 32 bits for the two wide forms.
\<close>

definition write_reg :: "nat \<Rightarrow> nat \<Rightarrow> nat \<Rightarrow> 'a list \<Rightarrow> ('a, 's) dft \<Rightarrow> serror + ('a, 's) dft" where
  "write_reg n tid r ts = for_loop n (\<lambda>i s. Inr (set_RTAG tid r i (ts ! i) s))"

definition write_mem :: "nat \<Rightarrow> ('a, 's) tag_ops \<Rightarrow> u64 \<Rightarrow> 'a list \<Rightarrow> ('a, 's) dft \<Rightarrow> serror + ('a, 's) dft" where
  "write_mem n T a ts = for_loop n (\<lambda>i s. Inr (tagmap_setb T (a + of_nat i) (ts ! i) s))"

definition cmpxchg_r2r_fast ::
  "nat \<Rightarrow> nat \<Rightarrow> nat \<Rightarrow> 'v \<Rightarrow> nat \<Rightarrow> 'v \<Rightarrow> ('a, 's) dft \<Rightarrow> serror + bool \<times> ('a, 's) dft" where
  "cmpxchg_r2r_fast m n tid dst_val src src_val s =
    (let save_tags = RTAGS m s tid DFT_REG_RAX in
      bindE (write_reg m tid DFT_REG_HELPER1 save_tags s) (\<lambda>s.
        let src_tags = RTAGS n s tid src in
        bindE (write_reg n tid DFT_REG_RAX src_tags s) (\<lambda>s. Inr (dst_val = src_val, s))))"

definition cmpxchg_r2r_slow :: "nat \<Rightarrow> nat \<Rightarrow> nat \<Rightarrow> nat \<Rightarrow> nat \<Rightarrow> ('a, 's) dft \<Rightarrow> serror + ('a, 's) dft" where
  "cmpxchg_r2r_slow m n tid dst src s =
    (let saved_tags = RTAGS m s tid DFT_REG_HELPER1 in
      bindE (write_reg m tid DFT_REG_RAX saved_tags s) (\<lambda>s.
        let src_tags = RTAGS n s tid src in write_reg n tid dst src_tags s))"

definition cmpxchg_r2r_opq_fast :: "nat \<Rightarrow> u32 \<Rightarrow> nat \<Rightarrow> u32 \<Rightarrow> ('a, 's) dft \<Rightarrow> serror + bool \<times> ('a, 's) dft" where
  "cmpxchg_r2r_opq_fast = cmpxchg_r2r_fast 8 8"

definition cmpxchg_r2r_opl_fast :: "nat \<Rightarrow> u32 \<Rightarrow> nat \<Rightarrow> u32 \<Rightarrow> ('a, 's) dft \<Rightarrow> serror + bool \<times> ('a, 's) dft" where
  "cmpxchg_r2r_opl_fast = cmpxchg_r2r_fast 4 4"

definition cmpxchg_r2r_opw_fast :: "nat \<Rightarrow> u16 \<Rightarrow> nat \<Rightarrow> u16 \<Rightarrow> ('a, 's) dft \<Rightarrow> serror + bool \<times> ('a, 's) dft" where
  "cmpxchg_r2r_opw_fast = cmpxchg_r2r_fast 4 2"

definition cmpxchg_r2r_opq_slow :: "nat \<Rightarrow> nat \<Rightarrow> nat \<Rightarrow> ('a, 's) dft \<Rightarrow> serror + ('a, 's) dft" where
  "cmpxchg_r2r_opq_slow = cmpxchg_r2r_slow 8 8"

definition cmpxchg_r2r_opl_slow :: "nat \<Rightarrow> nat \<Rightarrow> nat \<Rightarrow> ('a, 's) dft \<Rightarrow> serror + ('a, 's) dft" where
  "cmpxchg_r2r_opl_slow = cmpxchg_r2r_slow 4 4"

definition cmpxchg_r2r_opw_slow :: "nat \<Rightarrow> nat \<Rightarrow> nat \<Rightarrow> ('a, 's) dft \<Rightarrow> serror + ('a, 's) dft" where
  "cmpxchg_r2r_opw_slow = cmpxchg_r2r_slow 4 2"

text \<open>In memory the compared value is what the program has at the address, \<open>src_val\<close>.\<close>

definition cmpxchg_m2r_fast ::
  "nat \<Rightarrow> nat \<Rightarrow> ('a, 's) tag_ops \<Rightarrow> nat \<Rightarrow> 'v \<Rightarrow> u64 \<Rightarrow> 'v \<Rightarrow> ('a, 's) dft \<Rightarrow> serror + bool \<times> ('a, 's) dft" where
  "cmpxchg_m2r_fast m n T tid dst_val src src_val s =
    (let save_tags = RTAGS m s tid DFT_REG_RAX in
      bindE (write_reg m tid DFT_REG_HELPER1 save_tags s) (\<lambda>s.
        bindE (MTAGS T n s src) (\<lambda>src_tags.
          bindE (write_reg n tid DFT_REG_RAX src_tags s) (\<lambda>s. Inr (dst_val = src_val, s)))))"

definition cmpxchg_r2m_slow :: "nat \<Rightarrow> nat \<Rightarrow> ('a, 's) tag_ops \<Rightarrow> nat \<Rightarrow> u64 \<Rightarrow> nat \<Rightarrow> ('a, 's) dft \<Rightarrow> serror + ('a, 's) dft" where
  "cmpxchg_r2m_slow m n T tid dst src s =
    (let saved_tags = RTAGS m s tid DFT_REG_HELPER1 in
      bindE (write_reg m tid DFT_REG_RAX saved_tags s) (\<lambda>s.
        let src_tags = RTAGS n s tid src in write_mem n T dst src_tags s))"

definition cmpxchg_m2r_opq_fast :: "('a, 's) tag_ops \<Rightarrow> nat \<Rightarrow> u32 \<Rightarrow> u64 \<Rightarrow> u32 \<Rightarrow> ('a, 's) dft \<Rightarrow> serror + bool \<times> ('a, 's) dft" where
  "cmpxchg_m2r_opq_fast = cmpxchg_m2r_fast 8 8"

definition cmpxchg_m2r_opl_fast :: "('a, 's) tag_ops \<Rightarrow> nat \<Rightarrow> u32 \<Rightarrow> u64 \<Rightarrow> u32 \<Rightarrow> ('a, 's) dft \<Rightarrow> serror + bool \<times> ('a, 's) dft" where
  "cmpxchg_m2r_opl_fast = cmpxchg_m2r_fast 4 4"

definition cmpxchg_m2r_opw_fast :: "('a, 's) tag_ops \<Rightarrow> nat \<Rightarrow> u16 \<Rightarrow> u64 \<Rightarrow> u16 \<Rightarrow> ('a, 's) dft \<Rightarrow> serror + bool \<times> ('a, 's) dft" where
  "cmpxchg_m2r_opw_fast = cmpxchg_m2r_fast 4 2"

definition cmpxchg_r2m_opq_slow :: "('a, 's) tag_ops \<Rightarrow> nat \<Rightarrow> u64 \<Rightarrow> nat \<Rightarrow> ('a, 's) dft \<Rightarrow> serror + ('a, 's) dft" where
  "cmpxchg_r2m_opq_slow = cmpxchg_r2m_slow 8 8"

definition cmpxchg_r2m_opl_slow :: "('a, 's) tag_ops \<Rightarrow> nat \<Rightarrow> u64 \<Rightarrow> nat \<Rightarrow> ('a, 's) dft \<Rightarrow> serror + ('a, 's) dft" where
  "cmpxchg_r2m_opl_slow = cmpxchg_r2m_slow 4 4"

definition cmpxchg_r2m_opw_slow :: "('a, 's) tag_ops \<Rightarrow> nat \<Rightarrow> u64 \<Rightarrow> nat \<Rightarrow> ('a, 's) dft \<Rightarrow> serror + ('a, 's) dft" where
  "cmpxchg_r2m_opw_slow = cmpxchg_r2m_slow 4 2"

section \<open>Exchange\<close>

definition xchg_r2r_byte :: "nat \<Rightarrow> nat \<Rightarrow> nat \<Rightarrow> nat \<Rightarrow> nat \<Rightarrow> ('a, 's) dft \<Rightarrow> serror + ('a, 's) dft" where
  "xchg_r2r_byte i j tid dst src s =
    (let tmp_tag = RTAG s tid dst i; src_tag = RTAG s tid src j;
         s = set_RTAG tid dst i src_tag s
     in Inr (set_RTAG tid src j tmp_tag s))"

definition xchg_r2r_opb_ul :: "nat \<Rightarrow> nat \<Rightarrow> nat \<Rightarrow> ('a, 's) dft \<Rightarrow> serror + ('a, 's) dft" where
  "xchg_r2r_opb_ul = xchg_r2r_byte 1 0"

definition xchg_r2r_opb_lu :: "nat \<Rightarrow> nat \<Rightarrow> nat \<Rightarrow> ('a, 's) dft \<Rightarrow> serror + ('a, 's) dft" where
  "xchg_r2r_opb_lu = xchg_r2r_byte 0 1"

definition xchg_r2r_opb_u :: "nat \<Rightarrow> nat \<Rightarrow> nat \<Rightarrow> ('a, 's) dft \<Rightarrow> serror + ('a, 's) dft" where
  "xchg_r2r_opb_u = xchg_r2r_byte 1 1"

definition xchg_r2r_opb_l :: "nat \<Rightarrow> nat \<Rightarrow> nat \<Rightarrow> ('a, 's) dft \<Rightarrow> serror + ('a, 's) dft" where
  "xchg_r2r_opb_l = xchg_r2r_byte 0 0"

definition xchg_r2r_opw :: "nat \<Rightarrow> nat \<Rightarrow> nat \<Rightarrow> ('a, 's) dft \<Rightarrow> serror + ('a, 's) dft" where
  "xchg_r2r_opw tid dst src s =
    (let dst_tag = RTAGS 2 s tid dst; src_tag = RTAGS 2 s tid src
     in bindE (write_reg 2 tid dst src_tag s) (write_reg 2 tid src dst_tag))"

definition xchg_m2r_byte :: "nat \<Rightarrow> ('a, 's) tag_ops \<Rightarrow> nat \<Rightarrow> nat \<Rightarrow> u64 \<Rightarrow> ('a, 's) dft \<Rightarrow> serror + ('a, 's) dft" where
  "xchg_m2r_byte i T tid dst src s =
    (let tmp_tag = RTAG s tid dst i in
      bindE (tagmap_getb T s src) (\<lambda>src_tag.
        let s = set_RTAG tid dst i src_tag s in Inr (tagmap_setb T src tmp_tag s)))"

definition xchg_m2r_opb_u :: "('a, 's) tag_ops \<Rightarrow> nat \<Rightarrow> nat \<Rightarrow> u64 \<Rightarrow> ('a, 's) dft \<Rightarrow> serror + ('a, 's) dft" where
  "xchg_m2r_opb_u = xchg_m2r_byte 1"

definition xchg_m2r_opb_l :: "('a, 's) tag_ops \<Rightarrow> nat \<Rightarrow> nat \<Rightarrow> u64 \<Rightarrow> ('a, 's) dft \<Rightarrow> serror + ('a, 's) dft" where
  "xchg_m2r_opb_l = xchg_m2r_byte 0"

definition xchg_m2r :: "nat \<Rightarrow> ('a, 's) tag_ops \<Rightarrow> nat \<Rightarrow> nat \<Rightarrow> u64 \<Rightarrow> ('a, 's) dft \<Rightarrow> serror + ('a, 's) dft" where
  "xchg_m2r n T tid dst src s =
    (let tmp_tag = RTAGS n s tid dst in
      bindE (MTAGS T n s src) (\<lambda>src_tag.
        bindE (write_reg n tid dst src_tag s) (write_mem n T src tmp_tag)))"

definition xchg_m2r_opw :: "('a, 's) tag_ops \<Rightarrow> nat \<Rightarrow> nat \<Rightarrow> u64 \<Rightarrow> ('a, 's) dft \<Rightarrow> serror + ('a, 's) dft" where
  "xchg_m2r_opw = xchg_m2r 2"

definition xchg_m2r_opl :: "('a, 's) tag_ops \<Rightarrow> nat \<Rightarrow> nat \<Rightarrow> u64 \<Rightarrow> ('a, 's) dft \<Rightarrow> serror + ('a, 's) dft" where
  "xchg_m2r_opl = xchg_m2r 4"

definition xchg_m2r_opq :: "('a, 's) tag_ops \<Rightarrow> nat \<Rightarrow> nat \<Rightarrow> u64 \<Rightarrow> ('a, 's) dft \<Rightarrow> serror + ('a, 's) dft" where
  "xchg_m2r_opq = xchg_m2r 8"

section \<open>Exchange and add\<close>

definition xadd_r2r_byte :: "nat \<Rightarrow> nat \<Rightarrow> ('a, 's) tag_ops \<Rightarrow> nat \<Rightarrow> nat \<Rightarrow> nat \<Rightarrow> ('a, 's) dft \<Rightarrow> serror + ('a, 's) dft" where
  "xadd_r2r_byte i j T tid dst src s =
    (let tmp_tag = RTAG s tid dst i in
      bindE (combine T (RTAG s tid dst i) (RTAG s tid src j) tid s) (\<lambda>(t, s).
        let s = set_RTAG tid dst i t s in Inr (set_RTAG tid src j tmp_tag s)))"

definition xadd_r2r_opb_ul :: "('a, 's) tag_ops \<Rightarrow> nat \<Rightarrow> nat \<Rightarrow> nat \<Rightarrow> ('a, 's) dft \<Rightarrow> serror + ('a, 's) dft" where
  "xadd_r2r_opb_ul = xadd_r2r_byte 1 0"

definition xadd_r2r_opb_lu :: "('a, 's) tag_ops \<Rightarrow> nat \<Rightarrow> nat \<Rightarrow> nat \<Rightarrow> ('a, 's) dft \<Rightarrow> serror + ('a, 's) dft" where
  "xadd_r2r_opb_lu = xadd_r2r_byte 0 1"

definition xadd_r2r_opb_u :: "('a, 's) tag_ops \<Rightarrow> nat \<Rightarrow> nat \<Rightarrow> nat \<Rightarrow> ('a, 's) dft \<Rightarrow> serror + ('a, 's) dft" where
  "xadd_r2r_opb_u = xadd_r2r_byte 1 1"

definition xadd_r2r_opb_l :: "('a, 's) tag_ops \<Rightarrow> nat \<Rightarrow> nat \<Rightarrow> nat \<Rightarrow> ('a, 's) dft \<Rightarrow> serror + ('a, 's) dft" where
  "xadd_r2r_opb_l = xadd_r2r_byte 0 0"

text \<open>The word form merges both bytes before it writes back; the wider ones alternate.\<close>

definition xadd_r2r_opw :: "('a, 's) tag_ops \<Rightarrow> nat \<Rightarrow> nat \<Rightarrow> nat \<Rightarrow> ('a, 's) dft \<Rightarrow> serror + ('a, 's) dft" where
  "xadd_r2r_opw T tid dst src s =
    (let dst_tag = RTAGS 2 s tid dst; src_tag = RTAGS 2 s tid src
     in bindE (for_loop 2 (\<lambda>i s. bindE (combine T (dst_tag ! i) (src_tag ! i) tid s)
          (\<lambda>(t, s). Inr (set_RTAG tid dst i t s))) s) (write_reg 2 tid src dst_tag))"

definition xadd_r2r :: "nat \<Rightarrow> ('a, 's) tag_ops \<Rightarrow> nat \<Rightarrow> nat \<Rightarrow> nat \<Rightarrow> ('a, 's) dft \<Rightarrow> serror + ('a, 's) dft" where
  "xadd_r2r n T tid dst src s =
    (let dst_tag = RTAGS n s tid dst; src_tag = RTAGS n s tid src
     in for_loop n (\<lambda>i s. bindE (combine T (dst_tag ! i) (src_tag ! i) tid s)
          (\<lambda>(t, s). let s = set_RTAG tid dst i t s in Inr (set_RTAG tid src i (dst_tag ! i) s))) s)"

definition xadd_r2r_opl :: "('a, 's) tag_ops \<Rightarrow> nat \<Rightarrow> nat \<Rightarrow> nat \<Rightarrow> ('a, 's) dft \<Rightarrow> serror + ('a, 's) dft" where
  "xadd_r2r_opl = xadd_r2r 4"

definition xadd_r2r_opq :: "('a, 's) tag_ops \<Rightarrow> nat \<Rightarrow> nat \<Rightarrow> nat \<Rightarrow> ('a, 's) dft \<Rightarrow> serror + ('a, 's) dft" where
  "xadd_r2r_opq = xadd_r2r 8"

definition xadd_r2m_byte :: "nat \<Rightarrow> ('a, 's) tag_ops \<Rightarrow> nat \<Rightarrow> u64 \<Rightarrow> nat \<Rightarrow> ('a, 's) dft \<Rightarrow> serror + ('a, 's) dft" where
  "xadd_r2m_byte j T tid dst src s =
    (let src_tag = RTAG s tid src j in
      bindE (tagmap_getb T s dst) (\<lambda>dst_tag.
        let s = set_RTAG tid src j dst_tag s in
        bindE (combine T dst_tag src_tag tid s) (\<lambda>(t, s). Inr (tagmap_setb T dst t s))))"

definition xadd_r2m_opb_u :: "('a, 's) tag_ops \<Rightarrow> nat \<Rightarrow> u64 \<Rightarrow> nat \<Rightarrow> ('a, 's) dft \<Rightarrow> serror + ('a, 's) dft" where
  "xadd_r2m_opb_u = xadd_r2m_byte 1"

definition xadd_r2m_opb_l :: "('a, 's) tag_ops \<Rightarrow> nat \<Rightarrow> u64 \<Rightarrow> nat \<Rightarrow> ('a, 's) dft \<Rightarrow> serror + ('a, 's) dft" where
  "xadd_r2m_opb_l = xadd_r2m_byte 0"

definition xadd_r2m_opw :: "('a, 's) tag_ops \<Rightarrow> nat \<Rightarrow> u64 \<Rightarrow> nat \<Rightarrow> ('a, 's) dft \<Rightarrow> serror + ('a, 's) dft" where
  "xadd_r2m_opw T tid dst src s =
    (let src_tag = RTAGS 2 s tid src in
      bindE (MTAGS T 2 s dst) (\<lambda>dst_tag.
        bindE (write_reg 2 tid src dst_tag s)
          (for_loop 2 (\<lambda>i s. bindE (combine T (dst_tag ! i) (src_tag ! i) tid s)
            (\<lambda>(t, s). Inr (tagmap_setb T (dst + of_nat i) t s))))))"

definition xadd_r2m :: "nat \<Rightarrow> ('a, 's) tag_ops \<Rightarrow> nat \<Rightarrow> u64 \<Rightarrow> nat \<Rightarrow> ('a, 's) dft \<Rightarrow> serror + ('a, 's) dft" where
  "xadd_r2m n T tid dst src s =
    (let src_tag = RTAGS n s tid src in
      bindE (MTAGS T n s dst) (\<lambda>dst_tag.
        for_loop n (\<lambda>i s. bindE (combine T (dst_tag ! i) (src_tag ! i) tid s)
          (\<lambda>(t, s). let s = tagmap_setb T (dst + of_nat i) t s in Inr (set_RTAG tid src i (dst_tag ! i) s))) s))"

definition xadd_r2m_opl :: "('a, 's) tag_ops \<Rightarrow> nat \<Rightarrow> u64 \<Rightarrow> nat \<Rightarrow> ('a, 's) dft \<Rightarrow> serror + ('a, 's) dft" where
  "xadd_r2m_opl = xadd_r2m 4"

definition xadd_r2m_opq :: "('a, 's) tag_ops \<Rightarrow> nat \<Rightarrow> u64 \<Rightarrow> nat \<Rightarrow> ('a, 's) dft \<Rightarrow> serror + ('a, 's) dft" where
  "xadd_r2m_opq = xadd_r2m 8"

section \<open>Flows\<close>

context tag_type
begin

text \<open>Writing an array of tags that mean the taint of the locations \<open>M\<close> at the start.\<close>

lemma post_write:
  assumes "inv s0 (after A ps) s" "\<And>i. i < n \<Longrightarrow> holds s (f i) (\<Union>m \<in> M i. A m)" "\<And>i. i < n \<Longrightarrow> in_range (d i)"
  shows "post s0 (after A (ps @ map (\<lambda>i. (d i, M i)) [0..<n])) (for_loop n (\<lambda>i s. Inr (put T (d i) (f i) s)) s)"
proof -
  let ?L = "\<lambda>n. for_loop n (\<lambda>i s. Inr (put T (d i) (f i) s)) s :: serror + ('a, 's) dft"
  have "\<exists>s'. ?L n = Inr s' \<and> tags s' = tags s \<and>
      inv s0 (after A (ps @ map (\<lambda>i. (d i, M i)) [0..<n])) s'"
    using assms(2,3)
  proof (induction n)
    case (Suc n)
    have "\<exists>s'. ?L n = Inr s' \<and> tags s' = tags s \<and>
        inv s0 (after A (ps @ map (\<lambda>i. (d i, M i)) [0..<n])) s'"
      by (rule Suc.IH) (use Suc.prems in simp_all)
    then obtain s' where s': "?L n = Inr s'" "tags s' = tags s"
      "inv s0 (after A (ps @ map (\<lambda>i. (d i, M i)) [0..<n])) s'" by (elim exE conjE)
    have "holds s' (f n) (\<Union>m \<in> M n. A m)" using Suc.prems(1) [of n] s'(2) by (simp add: holds_def)
    from inv_put [OF s'(3) this, of "d n"] show ?case
      using s'(1,2) Suc.prems(2) [of n] by (simp add: fun_upd_def flip: append_assoc)
  qed (simp add: assms(1))
  then show ?thesis by auto
qed

lemma post_write_reg:
  assumes "inv s0 (after A ps) s" "\<And>i. i < n \<Longrightarrow> holds s (ts ! i) (\<Union>m \<in> M i. A m)"
  shows "post s0 (after A (ps @ map (\<lambda>i. (Reg tid r i, M i)) [0..<n])) (write_reg n tid r ts s)"
  unfolding write_reg_def as_put [where T = T] by (rule post_write [OF assms]) simp_all

lemma post_move_reg:
  assumes "inv s0 (after A ps) s" "\<And>i. i < n \<Longrightarrow> after A ps (Reg tid src i) = (\<Union>m \<in> M i. A m)"
  shows "post s0 (after A (ps @ map (\<lambda>i. (Reg tid r i, M i)) [0..<n])) (write_reg n tid r (RTAGS n s tid src) s)"
proof (rule post_write_reg [OF assms(1)])
  fix i assume "i < n"
  from holds_RTAGS [OF assms(1) this, of tid src] assms(2) [OF this]
  show "holds s (RTAGS n s tid src ! i) (\<Union>m \<in> M i. A m)" by simp
qed

lemma post_write_mem:
  assumes "inv s0 (after A ps) s" "\<And>i. i < n \<Longrightarrow> holds s (ts ! i) (\<Union>m \<in> M i. A m)" "user a n"
  shows "post s0 (after A (ps @ map (\<lambda>i. (bytes a i, M i)) [0..<n])) (write_mem n T a ts s)"
  using post_write [OF assms(1,2), where d = "bytes a"] userD [OF assms(3)]
  by (simp add: write_mem_def as_put [where T = T] bytes_def)

text \<open>Reading an array in the middle: the locations have not been assigned, or only to themselves.\<close>

lemma holds_mid:
  assumes "inv s0 (after A ps) s" "i < n" "\<And>N. (Reg tid r i, N) \<in> set ps \<Longrightarrow> N = {Reg tid r i}"
  shows "holds s (RTAGS n s tid r ! i) (A (Reg tid r i))"
  using holds_RTAGS [OF assms(1,2), of tid r] after_self [OF assms(3)] by simp

lemma xchg_r2r_byte_flows:
  "flows T S (xchg_r2r_byte i j tid dst src) (moves [(Reg tid dst i, {Reg tid src j}), (Reg tid src j, {Reg tid dst i})])"
proof (rule flowsI)
  fix s assume s: "inv s (taint_at T S s) s"
  let ?A = "taint_at T S s"
  have 1: "inv s (?A(Reg tid dst i := ?A (Reg tid src j))) (put T (Reg tid dst i) (look T s (Reg tid src j)) s)"
    by (rule inv_copy [OF s]) simp
  from inv_put [OF 1 holds_saved [OF holds_now [OF s, of "Reg tid dst i"] 1], of "Reg tid src j"]
  show "post s (after ?A [(Reg tid dst i, {Reg tid src j}), (Reg tid src j, {Reg tid dst i})])
      (xchg_r2r_byte i j tid dst src s)"
    by (simp add: xchg_r2r_byte_def Let_def after_two as_put [where T = T] as_look [where T = T])
qed

lemma xchg_r2r_opw_flows:
  "flows T S (xchg_r2r_opw tid dst src) (moves (copy 2 (Reg tid dst) (Reg tid src) @ copy 2 (Reg tid src) (Reg tid dst)))"
proof (rule flowsI)
  fix s assume s: "inv s (taint_at T S s) s"
  let ?A = "taint_at T S s"
  have "post s (after ?A ([] @ copy 2 (Reg tid dst) (Reg tid src))) (write_reg 2 tid dst (RTAGS 2 s tid src) s)"
    unfolding copy_def by (rule post_write_reg) (use s holds_RTAGS [OF s] in auto)
  then show "post s (after ?A (copy 2 (Reg tid dst) (Reg tid src) @ copy 2 (Reg tid src) (Reg tid dst)))
      (xchg_r2r_opw tid dst src s)"
    unfolding xchg_r2r_opw_def Let_def
  proof (rule post_bind)
    fix s' assume s': "inv s (after ?A ([] @ copy 2 (Reg tid dst) (Reg tid src))) s'"
    show "post s (after ?A (copy 2 (Reg tid dst) (Reg tid src) @ copy 2 (Reg tid src) (Reg tid dst)))
        (write_reg 2 tid src (RTAGS 2 s tid dst) s')"
      unfolding copy_def [of 2 "Reg tid src"]
      by (rule post_write_reg) (use s' holds_saved [OF holds_RTAGS [OF s] s'] in auto)
  qed
qed

lemma xchg_m2r_flows:
  assumes "user src n"
  shows "flows T S (xchg_m2r n T tid dst src) (moves (copy n (Reg tid dst) (bytes src) @ copy n (bytes src) (Reg tid dst)))"
proof (rule flowsI)
  fix s assume s: "inv s (taint_at T S s) s"
  let ?A = "taint_at T S s"
  show "post s (after ?A (copy n (Reg tid dst) (bytes src) @ copy n (bytes src) (Reg tid dst))) (xchg_m2r n T tid dst src s)"
    unfolding xchg_m2r_def Let_def
  proof (rule post_MTAGS [OF s userD [OF assms]])
    fix ts assume ts: "\<And>i. i < n \<Longrightarrow> holds s (ts ! i) (?A (bytes src i))"
    have "post s (after ?A ([] @ copy n (Reg tid dst) (bytes src))) (write_reg n tid dst ts s)"
      unfolding copy_def by (rule post_write_reg) (use s ts in auto)
    then show "post s (after ?A (copy n (Reg tid dst) (bytes src) @ copy n (bytes src) (Reg tid dst)))
        (bindE (write_reg n tid dst ts s) (write_mem n T src (RTAGS n s tid dst)))"
    proof (rule post_bind)
      fix s' assume s': "inv s (after ?A ([] @ copy n (Reg tid dst) (bytes src))) s'"
      show "post s (after ?A (copy n (Reg tid dst) (bytes src) @ copy n (bytes src) (Reg tid dst)))
          (write_mem n T src (RTAGS n s tid dst) s')"
        unfolding copy_def [of n "bytes src"]
        by (rule post_write_mem) (use s' holds_saved [OF holds_RTAGS [OF s] s'] assms in auto)
    qed
  qed
qed

lemma xchg_m2r_byte_flows:
  assumes "\<not> outside src"
  shows "flows T S (xchg_m2r_byte i T tid dst src) (moves [(Reg tid dst i, {Mem src}), (Mem src, {Reg tid dst i})])"
proof (rule flowsI)
  fix s assume s: "inv s (taint_at T S s) s"
  let ?A = "taint_at T S s"
  have 1: "inv s (?A(Reg tid dst i := ?A (Mem src))) (put T (Reg tid dst i) (look T s (Mem src)) s)"
    by (rule inv_copy [OF s]) simp
  from inv_put [OF 1 holds_saved [OF holds_now [OF s, of "Reg tid dst i"] 1], of "Mem src"] assms
  show "post s (after ?A [(Reg tid dst i, {Mem src}), (Mem src, {Reg tid dst i})]) (xchg_m2r_byte i T tid dst src s)"
    unfolding xchg_m2r_byte_def Let_def
    by (intro post_getb [OF s assms]) (simp add: after_two as_put [where T = T] as_look [where T = T])
qed

text \<open>Merging saved arrays.\<close>

lemma post_merge_turns:
  assumes "inv s0 (after A ps) s" "\<And>i. i < n \<Longrightarrow> holds s0 (x i) (A (l i))" "\<And>i. i < n \<Longrightarrow> holds s0 (y i) (A (l' i))"
    and "\<And>i. i < n \<Longrightarrow> in_range (d i)"
  shows "post s0 (after A (ps @ map (\<lambda>i. (d i, {l i, l' i})) [0..<n]))
    (for_loop n (\<lambda>i s. bindE (combine T (x i) (y i) tid s) (\<lambda>(t, s). Inr (put T (d i) t s))) s)"
proof (rule post_turns1 [OF assms(1)])
  fix i s' assume i: "i < n" and s': "inv s0 (after A (ps @ map (\<lambda>i. (d i, {l i, l' i})) [0..<i])) s'"
  show "post s0 (after A ((ps @ map (\<lambda>i. (d i, {l i, l' i})) [0..<i]) @ [(d i, {l i, l' i})]))
      (bindE (combine T (x i) (y i) tid s') (\<lambda>(t, s). Inr (put T (d i) t s)))"
    using post_merge [OF s' holds_saved [OF assms(2) [OF i] s'] holds_saved [OF assms(3) [OF i] s'] assms(4) [OF i]]
    unfolding after_snoc by simp
qed

lemma xadd_r2r_byte_flows:
  "flows T S (xadd_r2r_byte i j T tid dst src)
    (moves [(Reg tid dst i, {Reg tid dst i, Reg tid src j}), (Reg tid src j, {Reg tid dst i})])"
proof (rule flowsI)
  fix s assume s: "inv s (taint_at T S s) s"
  let ?A = "taint_at T S s"
  show "post s (after ?A [(Reg tid dst i, {Reg tid dst i, Reg tid src j}), (Reg tid src j, {Reg tid dst i})])
      (xadd_r2r_byte i j T tid dst src s)"
    unfolding xadd_r2r_byte_def Let_def as_look [where T = T] as_put [where T = T]
  proof (rule post_merge_then [OF s holds_now [OF s] holds_now [OF s]])
    fix s' assume s': "inv s (?A(Reg tid dst i := ?A (Reg tid dst i) \<union> ?A (Reg tid src j))) s'"
    from inv_put [OF s' holds_saved [OF holds_now [OF s, of "Reg tid dst i"] s'], of "Reg tid src j"]
    show "post s (after ?A [(Reg tid dst i, {Reg tid dst i, Reg tid src j}), (Reg tid src j, {Reg tid dst i})])
        (Inr (put T (Reg tid src j) (look T s (Reg tid dst i)) s'))" by (simp add: after_two)
  qed simp
qed

lemma xadd_r2r_opw_flows:
  "flows T S (xadd_r2r_opw T tid dst src)
    (moves (merge 2 (Reg tid dst) (Reg tid src) @ copy 2 (Reg tid src) (Reg tid dst)))"
proof (rule flowsI)
  fix s assume s: "inv s (taint_at T S s) s"
  let ?A = "taint_at T S s" and ?m = "merge 2 (Reg tid dst) (Reg tid src)" and ?c = "copy 2 (Reg tid src) (Reg tid dst)"
  show "post s (after ?A (?m @ ?c)) (xadd_r2r_opw T tid dst src s)"
    unfolding xadd_r2r_opw_def Let_def
  proof (rule post_bind)
    show "post s (after ?A ([] @ ?m)) (for_loop 2 (\<lambda>i s'. bindE (combine T (RTAGS 2 s tid dst ! i) (RTAGS 2 s tid src ! i) tid s')
        (\<lambda>(t, s). Inr (set_RTAG tid dst i t s))) s)"
      unfolding merge_def as_put [where T = T]
      by (rule post_merge_turns [where l = "Reg tid dst" and l' = "Reg tid src" and d = "Reg tid dst"])
        (use s holds_RTAGS [OF s] in auto)
    fix s' assume s': "inv s (after ?A ([] @ ?m)) s'"
    show "post s (after ?A (?m @ ?c)) (write_reg 2 tid src (RTAGS 2 s tid dst) s')"
      unfolding copy_def by (rule post_write_reg) (use s' holds_saved [OF holds_RTAGS [OF s] s'] in auto)
  qed
qed

text \<open>The assignments of a turn of the wider forms.\<close>

lemma after_turn:
  "after A (ps @ [(l, M), (l', M')]) = (after A ps)(l := (\<Union>m \<in> M. A m), l' := (\<Union>m \<in> M'. A m))"
  using after_snoc [of A "ps @ [(l, M)]" l' M'] by simp

lemma post_swap_turns:
  assumes s: "inv s0 A s" and "\<And>i. i < n \<Longrightarrow> holds s0 (x i) (A (d i))" "\<And>i. i < n \<Longrightarrow> holds s0 (y i) (A (r i))"
    and "\<And>i. i < n \<Longrightarrow> in_range (d i)" "\<And>i. i < n \<Longrightarrow> in_range (r i)"
  shows "post s0 (after A (concat (map (\<lambda>i. [(d i, {d i, r i}), (r i, {d i})]) [0..<n])))
    (for_loop n (\<lambda>i s. bindE (combine T (x i) (y i) tid s) (\<lambda>(t, s). Inr (put T (r i) (x i) (put T (d i) t s)))) s)"
proof -
  let ?q = "\<lambda>i. [(d i, {d i, r i}), (r i, {d i})]"
  have "post s0 (after A ([] @ concat (map ?q [0..<n])))
    (for_loop n (\<lambda>i s. bindE (combine T (x i) (y i) tid s) (\<lambda>(t, s). Inr (put T (r i) (x i) (put T (d i) t s)))) s)"
  proof (rule post_turns)
    fix i s' assume i: "i < n" and s': "inv s0 (after A ([] @ concat (map ?q [0..<i]))) s'"
    show "post s0 (after A ([] @ concat (map ?q [0..<i]) @ ?q i))
        (bindE (combine T (x i) (y i) tid s') (\<lambda>(t, s). Inr (put T (r i) (x i) (put T (d i) t s))))"
    proof (rule post_merge_then [OF s' holds_saved [OF assms(2) [OF i] s'] holds_saved [OF assms(3) [OF i] s'] assms(4) [OF i]])
      fix s'' assume s'': "inv s0 ((after A ([] @ concat (map ?q [0..<i])))(d i := A (d i) \<union> A (r i))) s''"
      from inv_put [OF s'' holds_saved [OF assms(2) [OF i] s''] assms(5) [OF i]]
      show "post s0 (after A ([] @ concat (map ?q [0..<i]) @ ?q i)) (Inr (put T (r i) (x i) s''))"
        by (simp add: after_turn)
    qed
  qed (simp add: s)
  then show ?thesis by simp
qed

lemma xadd_r2r_flows:
  "flows T S (xadd_r2r n T tid dst src)
    (moves (concat (map (\<lambda>i. [(Reg tid dst i, {Reg tid dst i, Reg tid src i}), (Reg tid src i, {Reg tid dst i})]) [0..<n])))"
proof (rule flowsI)
  fix s assume s: "inv s (taint_at T S s) s"
  show "post s (after (taint_at T S s)
      (concat (map (\<lambda>i. [(Reg tid dst i, {Reg tid dst i, Reg tid src i}), (Reg tid src i, {Reg tid dst i})]) [0..<n])))
      (xadd_r2r n T tid dst src s)"
    unfolding xadd_r2r_def Let_def as_put [where T = T]
    by (rule post_swap_turns [OF s holds_RTAGS [OF s] holds_RTAGS [OF s]]) simp_all
qed

lemma xadd_r2m_flows:
  assumes "user dst n"
  shows "flows T S (xadd_r2m n T tid dst src)
    (moves (concat (map (\<lambda>i. [(bytes dst i, {bytes dst i, Reg tid src i}), (Reg tid src i, {bytes dst i})]) [0..<n])))"
proof (rule flowsI)
  fix s assume s: "inv s (taint_at T S s) s"
  show "post s (after (taint_at T S s)
      (concat (map (\<lambda>i. [(bytes dst i, {bytes dst i, Reg tid src i}), (Reg tid src i, {bytes dst i})]) [0..<n])))
      (xadd_r2m n T tid dst src s)"
    unfolding xadd_r2m_def Let_def as_put [where T = T] bytes_def [symmetric]
    by (rule post_MTAGS [OF s userD [OF assms]], simp, rule post_swap_turns [OF s _ holds_RTAGS [OF s]])
      (use userD [OF assms] in \<open>simp_all add: bytes_def\<close>)
qed

lemma xadd_r2m_byte_flows:
  assumes "\<not> outside dst"
  shows "flows T S (xadd_r2m_byte j T tid dst src) (moves [(Reg tid src j, {Mem dst}), (Mem dst, {Mem dst, Reg tid src j})])"
proof (rule flowsI)
  fix s assume s: "inv s (taint_at T S s) s"
  let ?A = "taint_at T S s"
  have 1: "inv s (?A(Reg tid src j := ?A (Mem dst))) (put T (Reg tid src j) (look T s (Mem dst)) s)"
    by (rule inv_copy [OF s]) simp
  show "post s (after ?A [(Reg tid src j, {Mem dst}), (Mem dst, {Mem dst, Reg tid src j})]) (xadd_r2m_byte j T tid dst src s)"
    unfolding xadd_r2m_byte_def Let_def as_look [where T = T] as_put [where T = T]
    by (rule post_getb [OF s assms])
      (use post_merge [OF 1 holds_saved [OF holds_now [OF s, of "Mem dst"] 1]
        holds_saved [OF holds_now [OF s, of "Reg tid src j"] 1], of "Mem dst"] assms in \<open>simp add: after_two\<close>)
qed

lemma xadd_r2m_opw_flows:
  assumes "user dst 2"
  shows "flows T S (xadd_r2m_opw T tid dst src)
    (moves (copy 2 (Reg tid src) (bytes dst) @ merge 2 (bytes dst) (Reg tid src)))"
proof (rule flowsI)
  fix s assume s: "inv s (taint_at T S s) s"
  let ?A = "taint_at T S s" and ?c = "copy 2 (Reg tid src) (bytes dst)" and ?m = "merge 2 (bytes dst) (Reg tid src)"
  show "post s (after ?A (?c @ ?m)) (xadd_r2m_opw T tid dst src s)"
    unfolding xadd_r2m_opw_def Let_def
  proof (rule post_MTAGS [OF s userD [OF assms]])
    fix ts assume ts: "\<And>i. i < 2 \<Longrightarrow> holds s (ts ! i) (?A (bytes dst i))"
    show "post s (after ?A (?c @ ?m)) (bindE (write_reg 2 tid src ts s)
        (for_loop 2 (\<lambda>i s'. bindE (combine T (ts ! i) (RTAGS 2 s tid src ! i) tid s')
          (\<lambda>(t, s). Inr (tagmap_setb T (dst + of_nat i) t s)))))"
    proof (rule post_bind)
      show "post s (after ?A ([] @ ?c)) (write_reg 2 tid src ts s)"
        unfolding copy_def by (rule post_write_reg) (use s ts in auto)
      fix s' assume s': "inv s (after ?A ([] @ ?c)) s'"
      show "post s (after ?A (?c @ ?m)) (for_loop 2 (\<lambda>i s'. bindE (combine T (ts ! i) (RTAGS 2 s tid src ! i) tid s')
          (\<lambda>(t, s). Inr (tagmap_setb T (dst + of_nat i) t s))) s')"
        unfolding merge_def as_put [where T = T] bytes_def [symmetric]
        by (rule post_merge_turns [where l = "bytes dst" and l' = "Reg tid src" and d = "bytes dst"])
          (use s' ts holds_RTAGS [OF s] userD [OF assms] in \<open>auto simp: bytes_def\<close>)
    qed
  qed
qed

text \<open>
  Compare and exchange, as the two halves run: the scratch register keeps the accumulator,
  and then either the operand gets the tags of the source, or the accumulator gets those of
  the operand.
\<close>

lemma post_cmpxchg_fast:
  assumes s: "inv s A s" and dst: "dst \<noteq> DFT_REG_HELPER1"
    and rest: "\<And>s'. inv s (after A (copy m (Reg tid DFT_REG_HELPER1) (Reg tid DFT_REG_RAX) @
      copy n (Reg tid DFT_REG_RAX) (Reg tid dst))) s' \<Longrightarrow> post s B (f (v = w, s'))"
  shows "post s B (bindE (cmpxchg_r2r_fast m n tid v dst w s) f)"
proof -
  let ?h = "copy m (Reg tid DFT_REG_HELPER1) (Reg tid DFT_REG_RAX)" and ?d = "copy n (Reg tid DFT_REG_RAX) (Reg tid dst)"
  have 1: "post s (after A ([] @ ?h)) (write_reg m tid DFT_REG_HELPER1 (RTAGS m s tid DFT_REG_RAX) s)"
    unfolding copy_def by (rule post_write_reg) (use s holds_RTAGS [OF s] in auto)
  have 2: "post s (after A (?h @ ?d)) (write_reg n tid DFT_REG_RAX (RTAGS n s' tid dst) s')"
    if "inv s (after A ([] @ ?h)) s'" for s'
    unfolding copy_def [of n "Reg tid DFT_REG_RAX"]
    by (rule post_write_reg) (use that holds_mid [of s A ?h s'] dst in \<open>auto simp: copy_def\<close>)
  have 3: "post s B (bindE (Inr (v = w, s')) f)" if "inv s (after A (?h @ ?d)) s'" for s'
    using rest [OF that] by simp
  show ?thesis
    unfolding cmpxchg_r2r_fast_def Let_def bindE_assoc by (rule post_bind [OF 1 post_bind [OF 2 3]])
qed

lemma cmpxchg_r2r_flows:
  assumes "dst \<noteq> DFT_REG_HELPER1" "src \<noteq> DFT_REG_HELPER1" "n \<le> m"
  shows "flows T S (\<lambda>s. bindE (cmpxchg_r2r_fast m n tid v dst w s)
      (\<lambda>(eq, s). if eq then cmpxchg_r2r_slow m n tid dst src s else Inr s))
    (moves (copy m (Reg tid DFT_REG_HELPER1) (Reg tid DFT_REG_RAX) @
      (if v = w then copy n (Reg tid dst) (Reg tid src) else copy n (Reg tid DFT_REG_RAX) (Reg tid dst))))"
proof (rule flowsI)
  fix s assume s: "inv s (taint_at T S s) s"
  let ?A = "taint_at T S s"
  let ?h = "copy m (Reg tid DFT_REG_HELPER1) (Reg tid DFT_REG_RAX)" and ?d = "copy n (Reg tid DFT_REG_RAX) (Reg tid dst)"
    and ?r = "copy m (Reg tid DFT_REG_RAX) (Reg tid DFT_REG_RAX)" and ?w = "copy n (Reg tid dst) (Reg tid src)"
  have H: "DFT_REG_RAX \<noteq> DFT_REG_HELPER1" by (simp add: DFT_REG_RAX_def DFT_REG_HELPER1_def)
  have slow: "post s (after ?A (?h @ ?w)) (cmpxchg_r2r_slow m n tid dst src s')" if s': "inv s (after ?A (?h @ ?d)) s'" for s'
  proof -
    have h: "after ?A (?h @ ?d) (Reg tid DFT_REG_HELPER1 i) = ?A (Reg tid DFT_REG_RAX i)" if "i < m" for i
      using that H unfolding after_def by (simp add: moves_append_copy moves_copy_reg)
    have 3: "post s (after ?A ((?h @ ?d) @ ?r)) (write_reg m tid DFT_REG_RAX (RTAGS m s' tid DFT_REG_HELPER1) s')"
      unfolding copy_def [of m "Reg tid DFT_REG_RAX"]
      by (rule post_move_reg [OF s']) (simp add: h)
    have 4: "post s (after ?A (((?h @ ?d) @ ?r) @ ?w)) (write_reg n tid dst (RTAGS n s'' tid src) s'')"
      if s'': "inv s (after ?A ((?h @ ?d) @ ?r)) s''" for s''
    proof -
      have "after ?A ((?h @ ?d) @ ?r) (Reg tid src i) = ?A (Reg tid src i)" if "i < n" for i
        using that assms unfolding after_def moves_append_copy moves_copy_reg by auto
      then show ?thesis unfolding copy_def [of n "Reg tid dst"] by (intro post_move_reg [OF s'']) simp
    qed
    have "moves (((?h @ ?d) @ ?r) @ ?w) l = moves (?h @ ?w) l" for l
    proof (cases l)
      case (Reg t r i)
      have "i < n \<Longrightarrow> i < m" using assms(3) by simp
      then show ?thesis using H assms(1,2) unfolding Reg moves_append_copy moves_copy_reg loc.case by (auto simp only: split: if_splits)
    qed (simp only: moves_append_copy moves_copy_reg loc.case)
    then have e: "after ?A (((?h @ ?d) @ ?r) @ ?w) = after ?A (?h @ ?w)" by (simp only: after_def)
    have "post s (after ?A (((?h @ ?d) @ ?r) @ ?w)) (cmpxchg_r2r_slow m n tid dst src s')"
      unfolding cmpxchg_r2r_slow_def Let_def
    proof (rule post_bind)
      show "post s (after ?A ((?h @ ?d) @ ?r)) (write_reg m tid DFT_REG_RAX (RTAGS m s' tid DFT_REG_HELPER1) s')"
        by (rule 3)
    qed (rule 4)
    then show ?thesis unfolding e .
  qed
  show "post s (after ?A (?h @ (if v = w then ?w else ?d))) (bindE (cmpxchg_r2r_fast m n tid v dst w s)
      (\<lambda>(eq, s). if eq then cmpxchg_r2r_slow m n tid dst src s else Inr s))"
  proof (rule post_cmpxchg_fast [OF s assms(1)])
    fix s' assume s': "inv s (after ?A (?h @ ?d)) s'"
    show "post s (after ?A (?h @ (if v = w then ?w else ?d)))
        (case (v = w, s') of (eq, s) \<Rightarrow> if eq then cmpxchg_r2r_slow m n tid dst src s else Inr s)"
    proof (cases "v = w")
      case True
      with slow [OF s'] show ?thesis unfolding prod.case if_P [OF True] by argo
    next
      case False
      then show ?thesis using s' unfolding prod.case if_not_P [OF False] post_Inr by argo
    qed
  qed
qed

lemma cmpxchg_m2r_flows:
  assumes "user a n" "src \<noteq> DFT_REG_HELPER1" "n \<le> m"
  shows "flows T S (\<lambda>s. bindE (cmpxchg_m2r_fast m n T tid v a w s)
      (\<lambda>(eq, s). if eq then cmpxchg_r2m_slow m n T tid a src s else Inr s))
    (moves (copy m (Reg tid DFT_REG_HELPER1) (Reg tid DFT_REG_RAX) @
      (if v = w then copy n (bytes a) (Reg tid src) else copy n (Reg tid DFT_REG_RAX) (bytes a))))"
proof (rule flowsI)
  fix s assume s: "inv s (taint_at T S s) s"
  let ?A = "taint_at T S s"
  let ?h = "copy m (Reg tid DFT_REG_HELPER1) (Reg tid DFT_REG_RAX)" and ?d = "copy n (Reg tid DFT_REG_RAX) (bytes a)"
    and ?r = "copy m (Reg tid DFT_REG_RAX) (Reg tid DFT_REG_RAX)" and ?w = "copy n (bytes a) (Reg tid src)"
  have H: "DFT_REG_RAX \<noteq> DFT_REG_HELPER1" by (simp add: DFT_REG_RAX_def DFT_REG_HELPER1_def)
  have slow: "post s (after ?A (?h @ ?w)) (cmpxchg_r2m_slow m n T tid a src s')" if s': "inv s (after ?A (?h @ ?d)) s'" for s'
  proof -
    have h: "after ?A (?h @ ?d) (Reg tid DFT_REG_HELPER1 i) = ?A (Reg tid DFT_REG_RAX i)" if "i < m" for i
      using that H unfolding after_def by (simp add: moves_append_copy moves_copy_reg)
    have 3: "post s (after ?A ((?h @ ?d) @ ?r)) (write_reg m tid DFT_REG_RAX (RTAGS m s' tid DFT_REG_HELPER1) s')"
      unfolding copy_def [of m "Reg tid DFT_REG_RAX"] by (rule post_move_reg [OF s']) (simp add: h)
    have 4: "post s (after ?A (((?h @ ?d) @ ?r) @ ?w)) (write_mem n T a (RTAGS n s'' tid src) s'')"
      if s'': "inv s (after ?A ((?h @ ?d) @ ?r)) s''" for s''
    proof -
      have "after ?A ((?h @ ?d) @ ?r) (Reg tid src i) = ?A (Reg tid src i)" if "i < n" for i
        using that assms unfolding after_def moves_append_copy moves_copy_reg by auto
      then show ?thesis
        unfolding copy_def [of n "bytes a"] using holds_RTAGS [OF s'', of _ n tid src] assms(1)
        by (intro post_write_mem [OF s'']) simp_all
    qed
    have e: "moves (((?h @ ?d) @ ?r) @ ?w) l = moves (?h @ ?w) l" for l
    proof (cases "l \<in> fst ` set ?w")
      case True
      then show ?thesis by (simp only: moves_append if_True)
    next
      case False
      have "moves ((?h @ ?d) @ ?r) l = moves ?h l"
        using H assms(3) unfolding moves_append_copy moves_copy_reg by (cases l) (auto simp only: loc.case split: if_splits)
      with False show ?thesis by (simp only: moves_append [of _ ?w] if_False)
    qed
    have "post s (after ?A (((?h @ ?d) @ ?r) @ ?w)) (cmpxchg_r2m_slow m n T tid a src s')"
      unfolding cmpxchg_r2m_slow_def Let_def
    proof (rule post_bind)
      show "post s (after ?A ((?h @ ?d) @ ?r)) (write_reg m tid DFT_REG_RAX (RTAGS m s' tid DFT_REG_HELPER1) s')"
        by (rule 3)
    qed (rule 4)
    then show ?thesis unfolding after_def e .
  qed
  show "post s (after ?A (?h @ (if v = w then ?w else ?d))) (bindE (cmpxchg_m2r_fast m n T tid v a w s)
      (\<lambda>(eq, s). if eq then cmpxchg_r2m_slow m n T tid a src s else Inr s))"
    unfolding cmpxchg_m2r_fast_def Let_def bindE_assoc
  proof (rule post_bind)
    show "post s (after ?A ([] @ ?h)) (write_reg m tid DFT_REG_HELPER1 (RTAGS m s tid DFT_REG_RAX) s)"
      unfolding copy_def by (rule post_write_reg) (use s holds_RTAGS [OF s] in auto)
    fix s1 assume s1: "inv s (after ?A ([] @ ?h)) s1"
    have "after ?A ([] @ ?h) (bytes a i) = ?A (bytes a i)" for i
      by (rule after_self) (auto simp: copy_def)
    then have m: "post s (after ?A (([] @ ?h) @ ?d)) (write_reg n tid DFT_REG_RAX ts s1)"
      if "\<And>i. i < n \<Longrightarrow> holds s1 (ts ! i) (after ?A ([] @ ?h) (bytes a i))" for ts
      using that unfolding copy_def [of n "Reg tid DFT_REG_RAX"] by (intro post_write_reg [OF s1]) simp
    show "post s (after ?A (?h @ (if v = w then ?w else ?d)))
        (bindE (MTAGS T n s1 a) (\<lambda>src_tags. bindE (write_reg n tid DFT_REG_RAX src_tags s1) (\<lambda>s. bindE (Inr (v = w, s))
          (\<lambda>(eq, s). if eq then cmpxchg_r2m_slow m n T tid a src s else Inr s))))"
    proof (rule post_MTAGS [OF s1 userD [OF assms(1)]], assumption, rule post_bind [OF m], assumption)
      fix s' assume "inv s (after ?A (([] @ ?h) @ ?d)) s'"
      then have s': "inv s (after ?A (?h @ ?d)) s'" by simp
      show "post s (after ?A (?h @ (if v = w then ?w else ?d))) (bindE (Inr (v = w, s'))
          (\<lambda>(eq, s). if eq then cmpxchg_r2m_slow m n T tid a src s else Inr s))"
        using slow [OF s'] s' by (cases "v = w") (simp_all only: bindE_simps prod.case if_True if_False post_Inr refl simp_thms)
    qed
  qed
qed

end

end
