(* ===== verification/Instrument.thy ===== *)
theory Instrument
  imports XchgOps
begin

text \<open>
  The choice of the analysis routines for an instruction: the register numbers and the
  insertion macros of \<open>src/ins_helper.h\<close>, the \<open>ins_*\<close> functions of the instruction files and
  \<open>ins_inspect\<close> of \<open>src/libdft_core.cpp\<close>. What the Pin framework tells about an instruction and
  about registers is the record \<open>pin\<close>, an argument; what it passes when the instruction runs is
  the record \<open>rt\<close>. An inserted call is a function of the latter.
\<close>

section \<open>Registers\<close>

text \<open>
  Pin's enumerators: \<open>GP RDI Q\<close> is \<open>REG_RDI\<close>, \<open>GP RDI D\<close> is \<open>REG_EDI\<close>, \<open>GP RAX H\<close> is \<open>REG_AH\<close>,
  and so on; \<open>REG_OTHER\<close> are the ones the code does not name.
\<close>

datatype gp = RDI | RSI | RBP | RSP | RAX | RBX | RCX | RDX | R8 | R9 | R10 | R11 | R12 | R13 | R14 | R15

datatype part = Q | D | W | H | L

datatype REG = REG_INVALID | GP gp part | XMM nat | YMM nat | ZMM nat | MM nat | ST nat | REG_OTHER nat

definition GRP_NUM :: nat where "GRP_NUM = 43"

primrec gp_indx :: "gp \<Rightarrow> nat" where
  "gp_indx RDI = 3" | "gp_indx RSI = 4" | "gp_indx RBP = 5" | "gp_indx RSP = 6"
| "gp_indx RBX = 7" | "gp_indx RDX = 8" | "gp_indx RCX = 9" | "gp_indx RAX = 10"
| "gp_indx R8 = 11" | "gp_indx R9 = 12" | "gp_indx R10 = 13" | "gp_indx R11 = 14"
| "gp_indx R12 = 15" | "gp_indx R13 = 16" | "gp_indx R14 = 17" | "gp_indx R15 = 18"

fun REG_INDX :: "REG \<Rightarrow> nat" where
  "REG_INDX REG_INVALID = GRP_NUM"
| "REG_INDX (GP g p) = (if p = H \<and> g \<notin> {RAX, RBX, RCX, RDX} then GRP_NUM else gp_indx g)"
| "REG_INDX (XMM n) = (if n \<le> 15 then 19 + n else GRP_NUM)"
| "REG_INDX (YMM n) = (if n \<le> 15 then 19 + n else GRP_NUM)"
| "REG_INDX (ZMM n) = GRP_NUM"
| "REG_INDX (MM n) = (if n \<le> 7 then 35 + n else GRP_NUM)"
| "REG_INDX (ST n) = (if n \<le> 7 then 35 + n else GRP_NUM)"
| "REG_INDX (REG_OTHER n) = GRP_NUM"

section \<open>What Pin says\<close>

record pin =
  REG_is_gr64 :: "REG \<Rightarrow> bool"
  REG_is_gr32 :: "REG \<Rightarrow> bool"
  REG_is_gr16 :: "REG \<Rightarrow> bool"
  REG_is_gr8 :: "REG \<Rightarrow> bool"
  REG_is_xmm :: "REG \<Rightarrow> bool"
  REG_is_ymm :: "REG \<Rightarrow> bool"
  REG_is_mm :: "REG \<Rightarrow> bool"
  REG_is_seg :: "REG \<Rightarrow> bool"
  REG_is_Lower8 :: "REG \<Rightarrow> bool"
  REG_is_Upper8 :: "REG \<Rightarrow> bool"

record ins =
  INS_Opcode :: string
  INS_OperandIsImmediate :: "nat \<Rightarrow> bool"
  INS_OperandIsMemory :: "nat \<Rightarrow> bool"
  INS_OperandIsReg :: "nat \<Rightarrow> bool"
  INS_OperandIsImplicit :: "nat \<Rightarrow> bool"
  INS_OperandReg :: "nat \<Rightarrow> REG"
  INS_OperandWidth :: "nat \<Rightarrow> u32"
  INS_MemoryOperandCount :: nat
  INS_MemoryWriteSize :: nat
  INS_MemoryBaseReg :: REG
  INS_MemoryIndexReg :: REG
  INS_RepPrefix :: bool
  INS_RepCountRegister :: REG

record rt =
  THREAD_ID :: nat
  MEMORYREAD_EA :: u64
  MEMORYWRITE_EA :: u64
  executing :: bool
  FIRST_REP_ITERATION :: bool
  REG_VALUE :: "REG \<Rightarrow> u64"
  mem_val :: "u64 \<Rightarrow> u32"

type_synonym ('a, 's) call = "rt \<Rightarrow> ('a, 's) dft \<Rightarrow> serror + ('a, 's) dft"

section \<open>Inserting calls\<close>

definition CALL :: "(nat \<Rightarrow> ('a, 's) dft \<Rightarrow> serror + ('a, 's) dft) \<Rightarrow> ('a, 's) call" where
  "CALL fn = (\<lambda>rt. fn (THREAD_ID rt))"

definition R_CALL :: "(nat \<Rightarrow> nat \<Rightarrow> ('a, 's) dft \<Rightarrow> serror + ('a, 's) dft) \<Rightarrow> REG \<Rightarrow> ('a, 's) call" where
  "R_CALL fn dst = (\<lambda>rt. fn (THREAD_ID rt) (REG_INDX dst))"

definition M_CALL_W :: "(nat \<Rightarrow> u64 \<Rightarrow> ('a, 's) dft \<Rightarrow> serror + ('a, 's) dft) \<Rightarrow> ('a, 's) call" where
  "M_CALL_W fn = (\<lambda>rt. fn (THREAD_ID rt) (MEMORYWRITE_EA rt))"

definition M_CALL_R :: "(nat \<Rightarrow> u64 \<Rightarrow> ('a, 's) dft \<Rightarrow> serror + ('a, 's) dft) \<Rightarrow> ('a, 's) call" where
  "M_CALL_R fn = (\<lambda>rt. fn (THREAD_ID rt) (MEMORYREAD_EA rt))"

definition R2R_CALL :: "(nat \<Rightarrow> nat \<Rightarrow> nat \<Rightarrow> ('a, 's) dft \<Rightarrow> serror + ('a, 's) dft) \<Rightarrow> REG \<Rightarrow> REG \<Rightarrow> ('a, 's) call" where
  "R2R_CALL fn dst src = (\<lambda>rt. fn (THREAD_ID rt) (REG_INDX dst) (REG_INDX src))"

definition predicated :: "('a, 's) call \<Rightarrow> ('a, 's) call" where
  "predicated c = (\<lambda>rt s. if executing rt then c rt s else Inr s)"

definition R2R_CALL_P :: "(nat \<Rightarrow> nat \<Rightarrow> nat \<Rightarrow> ('a, 's) dft \<Rightarrow> serror + ('a, 's) dft) \<Rightarrow> REG \<Rightarrow> REG \<Rightarrow> ('a, 's) call" where
  "R2R_CALL_P fn dst src = predicated (R2R_CALL fn dst src)"

definition M2R_CALL :: "(nat \<Rightarrow> nat \<Rightarrow> u64 \<Rightarrow> ('a, 's) dft \<Rightarrow> serror + ('a, 's) dft) \<Rightarrow> REG \<Rightarrow> ('a, 's) call" where
  "M2R_CALL fn dst = (\<lambda>rt. fn (THREAD_ID rt) (REG_INDX dst) (MEMORYREAD_EA rt))"

definition M2R_CALL_P :: "(nat \<Rightarrow> nat \<Rightarrow> u64 \<Rightarrow> ('a, 's) dft \<Rightarrow> serror + ('a, 's) dft) \<Rightarrow> REG \<Rightarrow> ('a, 's) call" where
  "M2R_CALL_P fn dst = predicated (M2R_CALL fn dst)"

definition R2M_CALL :: "(nat \<Rightarrow> u64 \<Rightarrow> nat \<Rightarrow> ('a, 's) dft \<Rightarrow> serror + ('a, 's) dft) \<Rightarrow> REG \<Rightarrow> ('a, 's) call" where
  "R2M_CALL fn src = (\<lambda>rt. fn (THREAD_ID rt) (MEMORYWRITE_EA rt) (REG_INDX src))"

definition M2M_CALL :: "(u64 \<Rightarrow> u64 \<Rightarrow> ('a, 's) dft \<Rightarrow> serror + ('a, 's) dft) \<Rightarrow> ('a, 's) call" where
  "M2M_CALL fn = predicated (\<lambda>rt. fn (MEMORYWRITE_EA rt) (MEMORYREAD_EA rt))"

definition M_CLEAR_N :: "('a, 's) tag_ops \<Rightarrow> u32 \<Rightarrow> ('a, 's) call" where
  "M_CLEAR_N T n = (\<lambda>rt. tagmap_clrn T (MEMORYWRITE_EA rt) n)"

definition RR2R_CALL :: "(nat \<Rightarrow> nat \<Rightarrow> nat \<Rightarrow> nat \<Rightarrow> ('a, 's) dft \<Rightarrow> serror + ('a, 's) dft) \<Rightarrow> REG \<Rightarrow> REG \<Rightarrow> REG \<Rightarrow> ('a, 's) call" where
  "RR2R_CALL fn dst src1 src2 = (\<lambda>rt. fn (THREAD_ID rt) (REG_INDX dst) (REG_INDX src1) (REG_INDX src2))"

text \<open>The calls inserted before an instruction run in the order of their insertion.\<close>

primrec run_calls :: "('a, 's) call list \<Rightarrow> rt \<Rightarrow> ('a, 's) dft \<Rightarrow> serror + ('a, 's) dft" where
  "run_calls [] rt s = Inr s"
| "run_calls (c # cs) rt s = bindE (c rt s) (run_calls cs rt)"

section \<open>Binary operations\<close>

definition ins_binary_op :: "pin \<Rightarrow> ('a, 's) tag_ops \<Rightarrow> ins \<Rightarrow> ('a, 's) call list" where
  "ins_binary_op pin T ins =
    (if INS_OperandIsImmediate ins 1 then [] else
     if INS_MemoryOperandCount ins = 0 then
      (let reg_dst = INS_OperandReg ins 0; reg_src = INS_OperandReg ins 1 in
        if REG_is_gr64 pin reg_dst then [R2R_CALL (r2r_binary_opq T) reg_dst reg_src]
        else if REG_is_gr32 pin reg_dst then [R2R_CALL (r2r_binary_opl T) reg_dst reg_src]
        else if REG_is_gr16 pin reg_dst then [R2R_CALL (r2r_binary_opw T) reg_dst reg_src]
        else if REG_is_xmm pin reg_dst then [R2R_CALL (r2r_binary_opx T) reg_dst reg_src]
        else if REG_is_ymm pin reg_dst then [R2R_CALL (r2r_binary_opy T) reg_dst reg_src]
        else if REG_is_mm pin reg_dst then [R2R_CALL (r2r_binary_opq T) reg_dst reg_src]
        else if REG_is_Lower8 pin reg_dst \<and> REG_is_Lower8 pin reg_src then [R2R_CALL (r2r_binary_opb_l T) reg_dst reg_src]
        else if REG_is_Upper8 pin reg_dst \<and> REG_is_Upper8 pin reg_src then [R2R_CALL (r2r_binary_opb_u T) reg_dst reg_src]
        else if REG_is_Lower8 pin reg_dst then [R2R_CALL (r2r_binary_opb_lu T) reg_dst reg_src]
        else [R2R_CALL (r2r_binary_opb_ul T) reg_dst reg_src])
     else if INS_OperandIsMemory ins 1 then
      (let reg_dst = INS_OperandReg ins 0 in
        if REG_is_gr64 pin reg_dst then [M2R_CALL (m2r_binary_opq T) reg_dst]
        else if REG_is_gr32 pin reg_dst then [M2R_CALL (m2r_binary_opl T) reg_dst]
        else if REG_is_gr16 pin reg_dst then [M2R_CALL (m2r_binary_opw T) reg_dst]
        else if REG_is_xmm pin reg_dst then [M2R_CALL (m2r_binary_opx T) reg_dst]
        else if REG_is_ymm pin reg_dst then [M2R_CALL (m2r_binary_opy T) reg_dst]
        else if REG_is_mm pin reg_dst then [M2R_CALL (m2r_binary_opq T) reg_dst]
        else if REG_is_Upper8 pin reg_dst then [M2R_CALL (m2r_binary_opb_u T) reg_dst]
        else [M2R_CALL (m2r_binary_opb_l T) reg_dst])
     else
      (let reg_src = INS_OperandReg ins 1 in
        if REG_is_gr64 pin reg_src then [R2M_CALL (r2m_binary_opq T) reg_src]
        else if REG_is_gr32 pin reg_src then [R2M_CALL (r2m_binary_opl T) reg_src]
        else if REG_is_gr16 pin reg_src then [R2M_CALL (r2m_binary_opw T) reg_src]
        else if REG_is_xmm pin reg_src then [R2M_CALL (r2m_binary_opx T) reg_src]
        else if REG_is_ymm pin reg_src then [R2M_CALL (r2m_binary_opy T) reg_src]
        else if REG_is_mm pin reg_src then [R2M_CALL (r2m_binary_opq T) reg_src]
        else if REG_is_Upper8 pin reg_src then [R2M_CALL (r2m_binary_opb_u T) reg_src]
        else [R2M_CALL (r2m_binary_opb_l T) reg_src]))"

section \<open>Multiplication, division and clearing\<close>

definition ins_unitary_op :: "pin \<Rightarrow> ('a, 's) tag_ops \<Rightarrow> ins \<Rightarrow> ('a, 's) call list" where
  "ins_unitary_op pin T ins =
    (if INS_OperandIsMemory ins 0 then
      (if INS_MemoryWriteSize ins = 8 then [M_CALL_R (m2r_unitary_opq T)]
       else if INS_MemoryWriteSize ins = 4 then [M_CALL_R (m2r_unitary_opl T)]
       else if INS_MemoryWriteSize ins = 2 then [M_CALL_R (m2r_unitary_opw T)]
       else [M_CALL_R (m2r_unitary_opb T)])
     else
      (let reg_src = INS_OperandReg ins 0 in
        if REG_is_gr64 pin reg_src then [R_CALL (r2r_unitary_opq T) reg_src]
        else if REG_is_gr32 pin reg_src then [R_CALL (r2r_unitary_opl T) reg_src]
        else if REG_is_gr16 pin reg_src then [R_CALL (r2r_unitary_opw T) reg_src]
        else if REG_is_Upper8 pin reg_src then [R_CALL (r2r_unitary_opb_u T) reg_src]
        else [R_CALL (r2r_unitary_opb_l T) reg_src]))"

definition ins_clear_op :: "pin \<Rightarrow> ('a, 's) tag_ops \<Rightarrow> ins \<Rightarrow> ('a, 's) call list" where
  "ins_clear_op pin T ins =
    (if INS_OperandIsMemory ins 0 then [M_CLEAR_N T (INS_OperandWidth ins 0 div 8)]
     else
      (let reg_dst = INS_OperandReg ins 0 in
        if REG_is_gr64 pin reg_dst then [R_CALL (r_clrq T) reg_dst]
        else if REG_is_gr32 pin reg_dst then [R_CALL (r_clrl T) reg_dst]
        else if REG_is_gr16 pin reg_dst then [R_CALL (r_clrw T) reg_dst]
        else if REG_is_xmm pin reg_dst then [R_CALL (r_clrx T) reg_dst]
        else if REG_is_mm pin reg_dst then [R_CALL (r_clrq T) reg_dst]
        else if REG_is_ymm pin reg_dst then [R_CALL (r_clry T) reg_dst]
        else if REG_is_Upper8 pin reg_dst then [R_CALL (r_clrb_u T) reg_dst]
        else [R_CALL (r_clrb_l T) reg_dst]))"

definition ins_clear_op_predicated :: "pin \<Rightarrow> ('a, 's) tag_ops \<Rightarrow> ins \<Rightarrow> ('a, 's) call list" where
  "ins_clear_op_predicated pin T ins =
    (if INS_MemoryOperandCount ins = 0 then
      (let reg_dst = INS_OperandReg ins 0 in
        if REG_is_Upper8 pin reg_dst then [predicated (R_CALL (r_clrb_u T) reg_dst)]
        else [predicated (R_CALL (r_clrb_l T) reg_dst)])
     else [predicated (M_CLEAR_N T 1)])"

definition ins_clear_op_l2 :: "('a, 's) tag_ops \<Rightarrow> ('a, 's) call list" where
  "ins_clear_op_l2 T = [CALL (r_clrl2 T)]"

definition ins_clear_op_l4 :: "('a, 's) tag_ops \<Rightarrow> ('a, 's) call list" where
  "ins_clear_op_l4 T = [CALL (r_clrl4 T)]"

section \<open>Copies\<close>

definition ins_xfer_op :: "pin \<Rightarrow> ('a, 's) tag_ops \<Rightarrow> ins \<Rightarrow> ('a, 's) call list" where
  "ins_xfer_op pin T ins =
    (if INS_MemoryOperandCount ins = 0 then
      (let reg_dst = INS_OperandReg ins 0; reg_src = INS_OperandReg ins 1 in
        if REG_is_gr64 pin reg_dst then [R2R_CALL r2r_xfer_opq reg_dst reg_src]
        else if REG_is_gr32 pin reg_dst then [R2R_CALL r2r_xfer_opl reg_dst reg_src]
        else if REG_is_gr16 pin reg_dst then [R2R_CALL r2r_xfer_opw reg_dst reg_src]
        else if REG_is_xmm pin reg_dst then [R2R_CALL r2r_xfer_opx reg_dst reg_src]
        else if REG_is_ymm pin reg_dst then [R2R_CALL r2r_xfer_opy reg_dst reg_src]
        else if REG_is_mm pin reg_dst then [R2R_CALL r2r_xfer_opq reg_dst reg_src]
        else if REG_is_Lower8 pin reg_dst \<and> REG_is_Lower8 pin reg_src then [R2R_CALL r2r_xfer_opb_l reg_dst reg_src]
        else if REG_is_Upper8 pin reg_dst \<and> REG_is_Upper8 pin reg_src then [R2R_CALL r2r_xfer_opb_u reg_dst reg_src]
        else if REG_is_Lower8 pin reg_dst then [R2R_CALL r2r_xfer_opb_lu reg_dst reg_src]
        else [R2R_CALL r2r_xfer_opb_ul reg_dst reg_src])
     else if INS_OperandIsMemory ins 1 then
      (let reg_dst = INS_OperandReg ins 0 in
        if REG_is_gr64 pin reg_dst then [M2R_CALL (m2r_xfer_opq T) reg_dst]
        else if REG_is_gr32 pin reg_dst then [M2R_CALL (m2r_xfer_opl T) reg_dst]
        else if REG_is_gr16 pin reg_dst then [M2R_CALL (m2r_xfer_opw T) reg_dst]
        else if REG_is_xmm pin reg_dst then [M2R_CALL (m2r_xfer_opx T) reg_dst]
        else if REG_is_ymm pin reg_dst then [M2R_CALL (m2r_xfer_opy T) reg_dst]
        else if REG_is_mm pin reg_dst then [M2R_CALL (m2r_xfer_opq T) reg_dst]
        else if REG_is_Upper8 pin reg_dst then [M2R_CALL (m2r_xfer_opb_u T) reg_dst]
        else [M2R_CALL (m2r_xfer_opb_l T) reg_dst])
     else
      (let reg_src = INS_OperandReg ins 1 in
        if REG_is_gr64 pin reg_src then [R2M_CALL (r2m_xfer_opq T) reg_src]
        else if REG_is_gr32 pin reg_src then [R2M_CALL (r2m_xfer_opl T) reg_src]
        else if REG_is_gr16 pin reg_src then [R2M_CALL (r2m_xfer_opw T) reg_src]
        else if REG_is_xmm pin reg_src then [R2M_CALL (r2m_xfer_opx T) reg_src]
        else if REG_is_ymm pin reg_src then [R2M_CALL (r2m_xfer_opy T) reg_src]
        else if REG_is_mm pin reg_src then [R2M_CALL (r2m_xfer_opq T) reg_src]
        else if REG_is_Upper8 pin reg_src then [R2M_CALL (r2m_xfer_opb_u T) reg_src]
        else [R2M_CALL (r2m_xfer_opb_l T) reg_src]))"

definition ins_xfer_op_predicated :: "pin \<Rightarrow> ('a, 's) tag_ops \<Rightarrow> ins \<Rightarrow> ('a, 's) call list" where
  "ins_xfer_op_predicated pin T ins =
    (let reg_dst = INS_OperandReg ins 0 in
     if INS_MemoryOperandCount ins = 0 then
      (let reg_src = INS_OperandReg ins 1 in
        if REG_is_gr64 pin reg_dst then [R2R_CALL_P r2r_xfer_opq reg_dst reg_src]
        else if REG_is_gr32 pin reg_dst then [R2R_CALL_P r2r_xfer_opl reg_dst reg_src]
        else [R2R_CALL_P r2r_xfer_opw reg_dst reg_src])
     else if REG_is_gr64 pin reg_dst then [M2R_CALL_P (m2r_xfer_opq T) reg_dst]
     else if REG_is_gr32 pin reg_dst then [M2R_CALL_P (m2r_xfer_opl T) reg_dst]
     else [M2R_CALL_P (m2r_xfer_opw T) reg_dst])"

definition ins_push_op :: "pin \<Rightarrow> ('a, 's) tag_ops \<Rightarrow> ins \<Rightarrow> ('a, 's) call list" where
  "ins_push_op pin T ins =
    (if INS_OperandIsReg ins 0 then
      (let reg_src = INS_OperandReg ins 0 in
        if REG_is_gr64 pin reg_src then [R2M_CALL (r2m_xfer_opq T) reg_src]
        else if REG_is_gr32 pin reg_src then [R2M_CALL (r2m_xfer_opl T) reg_src]
        else [R2M_CALL (r2m_xfer_opw T) reg_src])
     else if INS_OperandIsMemory ins 0 then
      (if INS_MemoryWriteSize ins = 8 then [M2M_CALL (m2m_xfer_opq T)]
       else if INS_MemoryWriteSize ins = 4 then [M2M_CALL (m2m_xfer_opl T)]
       else [M2M_CALL (m2m_xfer_opw T)])
     else [M_CLEAR_N T (INS_OperandWidth ins 0 div 8)])"

definition ins_pop_op :: "pin \<Rightarrow> ('a, 's) tag_ops \<Rightarrow> ins \<Rightarrow> ('a, 's) call list" where
  "ins_pop_op pin T ins =
    (if INS_OperandIsReg ins 0 then
      (let reg_dst = INS_OperandReg ins 0 in
        if REG_is_gr64 pin reg_dst then [M2R_CALL (m2r_xfer_opq T) reg_dst]
        else if REG_is_gr32 pin reg_dst then [M2R_CALL (m2r_xfer_opl T) reg_dst]
        else [M2R_CALL (m2r_xfer_opw T) reg_dst])
     else if INS_OperandIsMemory ins 0 then
      (if INS_MemoryWriteSize ins = 8 then [M2M_CALL (m2m_xfer_opq T)]
       else if INS_MemoryWriteSize ins = 4 then [M2M_CALL (m2m_xfer_opl T)]
       else [M2M_CALL (m2m_xfer_opw T)])
     else [])"

text \<open>A repeated store runs its routine once, on the first iteration of an executing instruction.\<close>

definition rep_predicate :: "bool \<Rightarrow> bool" where
  "rep_predicate first_iteration = first_iteration"

definition ins_stos_ins ::
  "ins \<Rightarrow> (nat \<Rightarrow> u64 \<Rightarrow> u64 \<Rightarrow> u64 \<Rightarrow> ('a, 's) dft \<Rightarrow> serror + ('a, 's) dft) \<Rightarrow> ('a, 's) call list" where
  "ins_stos_ins ins fn = [predicated (\<lambda>rt s.
    if rep_predicate (FIRST_REP_ITERATION rt)
    then fn (THREAD_ID rt) (MEMORYWRITE_EA rt) (REG_VALUE rt (INS_RepCountRegister ins)) (REG_VALUE rt (INS_OperandReg ins 4)) s
    else Inr s)]"

definition ins_stosb :: "('a, 's) tag_ops \<Rightarrow> ins \<Rightarrow> ('a, 's) call list" where
  "ins_stosb T ins = (if INS_RepPrefix ins then ins_stos_ins ins (r2m_xfer_opbn T) else [R2M_CALL (r2m_xfer_opb_l T) (GP RAX L)])"

definition ins_stosw :: "('a, 's) tag_ops \<Rightarrow> ins \<Rightarrow> ('a, 's) call list" where
  "ins_stosw T ins = (if INS_RepPrefix ins then ins_stos_ins ins (r2m_xfer_opwn T) else [R2M_CALL (r2m_xfer_opw T) (GP RAX W)])"

definition ins_stosd :: "('a, 's) tag_ops \<Rightarrow> ins \<Rightarrow> ('a, 's) call list" where
  "ins_stosd T ins = (if INS_RepPrefix ins then ins_stos_ins ins (r2m_xfer_opln T) else [R2M_CALL (r2m_xfer_opw T) (GP RAX D)])"

definition ins_stosq :: "('a, 's) tag_ops \<Rightarrow> ins \<Rightarrow> ('a, 's) call list" where
  "ins_stosq T ins = (if INS_RepPrefix ins then ins_stos_ins ins (r2m_xfer_opqn T) else [R2M_CALL (r2m_xfer_opw T) (GP RAX Q)])"

definition ins_movlp :: "('a, 's) tag_ops \<Rightarrow> ins \<Rightarrow> ('a, 's) call list" where
  "ins_movlp T ins = (if INS_OperandIsMemory ins 0 then [R2M_CALL (r2m_xfer_opq T) (INS_OperandReg ins 1)]
    else [M2R_CALL (m2r_xfer_opq T) (INS_OperandReg ins 0)])"

definition ins_movhp :: "('a, 's) tag_ops \<Rightarrow> ins \<Rightarrow> ('a, 's) call list" where
  "ins_movhp T ins = (if INS_OperandIsMemory ins 0 then [R2M_CALL (r2m_xfer_opq_h T) (INS_OperandReg ins 1)]
    else [M2R_CALL (m2r_xfer_opq_h T) (INS_OperandReg ins 0)])"

text \<open>\<open>lea\<close>: the four tests of the code are exclusive.\<close>

definition lea_one :: "pin \<Rightarrow> REG \<Rightarrow> REG \<Rightarrow> ('a, 's) call list" where
  "lea_one pin reg_dst reg =
    (if REG_is_gr64 pin reg_dst then [R2R_CALL r2r_xfer_opq reg_dst reg]
     else if REG_is_gr32 pin reg_dst then [R2R_CALL r2r_xfer_opl reg_dst reg]
     else if REG_is_gr16 pin reg_dst then [R2R_CALL r2r_xfer_opw reg_dst reg]
     else [])"

definition ins_lea :: "pin \<Rightarrow> ('a, 's) tag_ops \<Rightarrow> ins \<Rightarrow> ('a, 's) call list" where
  "ins_lea pin T ins =
    (let reg_base = INS_MemoryBaseReg ins; reg_indx = INS_MemoryIndexReg ins; reg_dst = INS_OperandReg ins 0 in
      (if reg_base = REG_INVALID \<and> reg_indx = REG_INVALID then ins_clear_op pin T ins else []) @
      (if reg_base \<noteq> REG_INVALID \<and> reg_indx = REG_INVALID then lea_one pin reg_dst reg_base else []) @
      (if reg_base = REG_INVALID \<and> reg_indx \<noteq> REG_INVALID then lea_one pin reg_dst reg_indx else []) @
      (if reg_base \<noteq> REG_INVALID \<and> reg_indx \<noteq> REG_INVALID then
        (if REG_is_gr64 pin reg_dst then [RR2R_CALL (lea_opq T) reg_dst reg_base reg_indx]
         else if REG_is_gr32 pin reg_dst then [RR2R_CALL (lea_opl T) reg_dst reg_base reg_indx]
         else if REG_is_gr16 pin reg_dst then [RR2R_CALL (lea_opw T) reg_dst reg_base reg_indx]
         else [])
       else []))"

definition ins_movbe_op :: "pin \<Rightarrow> ('a, 's) tag_ops \<Rightarrow> ins \<Rightarrow> ('a, 's) call list" where
  "ins_movbe_op pin T ins =
    (if INS_OperandIsMemory ins 1 then
      (let reg_dst = INS_OperandReg ins 0 in
        if REG_is_gr64 pin reg_dst then [M2R_CALL (m2r_xfer_opq_rev T) reg_dst]
        else if REG_is_gr32 pin reg_dst then [M2R_CALL (m2r_xfer_opl_rev T) reg_dst]
        else if REG_is_gr16 pin reg_dst then [M2R_CALL (m2r_xfer_opw_rev T) reg_dst]
        else [])
     else
      (let reg_src = INS_OperandReg ins 1 in
        if REG_is_gr64 pin reg_src then [R2M_CALL (r2m_xfer_opq_rev T) reg_src]
        else if REG_is_gr32 pin reg_src then [R2M_CALL (r2m_xfer_opl_rev T) reg_src]
        else if REG_is_gr16 pin reg_src then [R2M_CALL (r2m_xfer_opw_rev T) reg_src]
        else []))"

end
