(* ===== verification/InsInspect.thy ===== *)
theory InsInspect
  imports Instrument
begin

text \<open>
  The rest of the instrumentation: sign extension, the exchanging instructions, the saving of
  all registers, and \<open>ins_inspect\<close> of \<open>src/libdft_core.cpp\<close>, which selects the calls for an
  instruction from its opcode. An opcode is the name of Pin's \<open>XED_ICLASS_\<close> enumerator.
\<close>

section \<open>Sign extension\<close>

definition ins_movsx_op :: "pin \<Rightarrow> ('a, 's) tag_ops \<Rightarrow> ins \<Rightarrow> ('a, 's) call list" where
  "ins_movsx_op pin T ins =
    (let reg_dst = INS_OperandReg ins 0 in
     if INS_MemoryOperandCount ins = 0 then
      (let reg_src = INS_OperandReg ins 1 in
        if REG_is_gr16 pin reg_dst then
          (if REG_is_Upper8 pin reg_src then [R2R_CALL movsx_r2r_opwb_u reg_dst reg_src]
           else [R2R_CALL movsx_r2r_opwb_l reg_dst reg_src])
        else if REG_is_gr16 pin reg_src then
          (if REG_is_gr64 pin reg_dst then [R2R_CALL movsx_r2r_opqw reg_dst reg_src]
           else if REG_is_gr32 pin reg_dst then [R2R_CALL movsx_r2r_oplw reg_dst reg_src] else [])
        else if REG_is_Upper8 pin reg_src then
          (if REG_is_gr64 pin reg_dst then [R2R_CALL movsx_r2r_opqb_u reg_dst reg_src]
           else if REG_is_gr32 pin reg_dst then [R2R_CALL movsx_r2r_oplb_u reg_dst reg_src] else [])
        else
          (if REG_is_gr64 pin reg_dst then [R2R_CALL movsx_r2r_opqb_l reg_dst reg_src]
           else if REG_is_gr32 pin reg_dst then [R2R_CALL movsx_r2r_oplb_l reg_dst reg_src] else []))
     else if REG_is_gr16 pin reg_dst then [M2R_CALL (movsx_m2r_opwb T) reg_dst]
     else if INS_MemoryWriteSize ins = 2 then
      (if REG_is_gr64 pin reg_dst then [M2R_CALL (movsx_m2r_opqw T) reg_dst]
       else if REG_is_gr32 pin reg_dst then [M2R_CALL (movsx_m2r_oplw T) reg_dst] else [])
     else
      (if REG_is_gr64 pin reg_dst then [M2R_CALL (movsx_m2r_opqb T) reg_dst]
       else if REG_is_gr32 pin reg_dst then [M2R_CALL (movsx_m2r_oplb T) reg_dst] else []))"

text \<open>A narrow destination is copied, and then extended as well: the code does not return.\<close>

definition ins_movsxd_op :: "pin \<Rightarrow> ('a, 's) tag_ops \<Rightarrow> ins \<Rightarrow> ('a, 's) call list" where
  "ins_movsxd_op pin T ins =
    (let reg_dst = INS_OperandReg ins 0 in
      (if \<not> REG_is_gr64 pin reg_dst then ins_xfer_op pin T ins else []) @
      (if INS_MemoryOperandCount ins = 0 then [R2R_CALL movsx_r2r_opql reg_dst (INS_OperandReg ins 1)]
       else [M2R_CALL (movsx_m2r_opql T) reg_dst]))"

section \<open>Exchanges\<close>

text \<open>\<open>INS_InsertIfCall\<close> and \<open>INS_InsertThenCall\<close>: the second routine runs when the first returns true.\<close>

definition if_then_call :: "(rt \<Rightarrow> ('a, 's) dft \<Rightarrow> serror + bool \<times> ('a, 's) dft) \<Rightarrow> ('a, 's) call \<Rightarrow> ('a, 's) call" where
  "if_then_call p c = (\<lambda>rt s. bindE (p rt s) (\<lambda>(b, s). if b then c rt s else Inr s))"

definition ins_cmpxchg_op :: "pin \<Rightarrow> ('a, 's) tag_ops \<Rightarrow> ins \<Rightarrow> ('a, 's) call list" where
  "ins_cmpxchg_op pin T ins =
    (if INS_MemoryOperandCount ins = 0 then
      (let reg_dst = INS_OperandReg ins 0; reg_src = INS_OperandReg ins 1 in
        if REG_is_gr64 pin reg_dst then
          [if_then_call (\<lambda>rt. cmpxchg_r2r_opq_fast (THREAD_ID rt) (ucast (REG_VALUE rt (GP RAX D)))
              (REG_INDX reg_dst) (ucast (REG_VALUE rt reg_dst)))
            (R2R_CALL cmpxchg_r2r_opq_slow reg_dst reg_src)]
        else if REG_is_gr32 pin reg_dst then
          [if_then_call (\<lambda>rt. cmpxchg_r2r_opl_fast (THREAD_ID rt) (ucast (REG_VALUE rt (GP RAX D)))
              (REG_INDX reg_dst) (ucast (REG_VALUE rt reg_dst)))
            (R2R_CALL cmpxchg_r2r_opl_slow reg_dst reg_src)]
        else if REG_is_gr16 pin reg_dst then
          [if_then_call (\<lambda>rt. cmpxchg_r2r_opw_fast (THREAD_ID rt) (ucast (REG_VALUE rt (GP RAX W)))
              (REG_INDX reg_dst) (ucast (REG_VALUE rt reg_dst)))
            (R2R_CALL cmpxchg_r2r_opw_slow reg_dst reg_src)]
        else [])
     else
      (let reg_src = INS_OperandReg ins 1 in
        if REG_is_gr64 pin reg_src then
          [if_then_call (\<lambda>rt. cmpxchg_m2r_opq_fast T (THREAD_ID rt) (ucast (REG_VALUE rt (GP RAX D)))
              (MEMORYREAD_EA rt) (mem_val rt (MEMORYREAD_EA rt)))
            (R2M_CALL (cmpxchg_r2m_opq_slow T) reg_src)]
        else if REG_is_gr32 pin reg_src then
          [if_then_call (\<lambda>rt. cmpxchg_m2r_opl_fast T (THREAD_ID rt) (ucast (REG_VALUE rt (GP RAX D)))
              (MEMORYREAD_EA rt) (mem_val rt (MEMORYREAD_EA rt)))
            (R2M_CALL (cmpxchg_r2m_opl_slow T) reg_src)]
        else if REG_is_gr16 pin reg_src then
          [if_then_call (\<lambda>rt. cmpxchg_m2r_opw_fast T (THREAD_ID rt) (ucast (REG_VALUE rt (GP RAX W)))
              (MEMORYREAD_EA rt) (ucast (mem_val rt (MEMORYREAD_EA rt))))
            (R2M_CALL (cmpxchg_r2m_opw_slow T) reg_src)]
        else []))"

text \<open>The wide exchanges of registers go through the scratch register 0 in three copies.\<close>

definition xchg_three :: "(nat \<Rightarrow> nat \<Rightarrow> nat \<Rightarrow> ('a, 's) dft \<Rightarrow> serror + ('a, 's) dft) \<Rightarrow> REG \<Rightarrow> REG \<Rightarrow> ('a, 's) call list" where
  "xchg_three fn reg_dst reg_src =
    [\<lambda>rt. fn (THREAD_ID rt) 0 (REG_INDX reg_dst),
     \<lambda>rt. fn (THREAD_ID rt) (REG_INDX reg_dst) (REG_INDX reg_src),
     \<lambda>rt. fn (THREAD_ID rt) (REG_INDX reg_src) 0]"

text \<open>
  With a memory operand in the first place the exchanging routines are given the address that
  the instruction writes, which is the one it reads.
\<close>

definition M2R_CALL_W :: "(nat \<Rightarrow> nat \<Rightarrow> u64 \<Rightarrow> ('a, 's) dft \<Rightarrow> serror + ('a, 's) dft) \<Rightarrow> REG \<Rightarrow> ('a, 's) call" where
  "M2R_CALL_W fn dst = (\<lambda>rt. fn (THREAD_ID rt) (REG_INDX dst) (MEMORYWRITE_EA rt))"

definition ins_xchg_op :: "pin \<Rightarrow> ('a, 's) tag_ops \<Rightarrow> ins \<Rightarrow> ('a, 's) call list" where
  "ins_xchg_op pin T ins =
    (if INS_MemoryOperandCount ins = 0 then
      (let reg_dst = INS_OperandReg ins 0; reg_src = INS_OperandReg ins 1 in
        if REG_is_gr64 pin reg_dst then xchg_three r2r_xfer_opq reg_dst reg_src
        else if REG_is_gr32 pin reg_dst then xchg_three r2r_xfer_opl reg_dst reg_src
        else if REG_is_gr16 pin reg_dst then [R2R_CALL xchg_r2r_opw reg_dst reg_src]
        else if REG_is_gr8 pin reg_dst then
          (if REG_is_Lower8 pin reg_dst \<and> REG_is_Lower8 pin reg_src then [R2R_CALL xchg_r2r_opb_l reg_dst reg_src]
           else if REG_is_Upper8 pin reg_dst \<and> REG_is_Upper8 pin reg_src then [R2R_CALL xchg_r2r_opb_u reg_dst reg_src]
           else if REG_is_Lower8 pin reg_dst then [R2R_CALL xchg_r2r_opb_lu reg_dst reg_src]
           else [R2R_CALL xchg_r2r_opb_ul reg_dst reg_src])
        else [])
     else if INS_OperandIsMemory ins 1 then
      (let reg_dst = INS_OperandReg ins 0 in
        if REG_is_gr64 pin reg_dst then [M2R_CALL (xchg_m2r_opq T) reg_dst]
        else if REG_is_gr32 pin reg_dst then [M2R_CALL (xchg_m2r_opl T) reg_dst]
        else if REG_is_gr16 pin reg_dst then [M2R_CALL (xchg_m2r_opw T) reg_dst]
        else if REG_is_Upper8 pin reg_dst then [M2R_CALL (xchg_m2r_opb_u T) reg_dst]
        else [M2R_CALL (xchg_m2r_opb_l T) reg_dst])
     else
      (let reg_src = INS_OperandReg ins 1 in
        if REG_is_gr64 pin reg_src then [M2R_CALL_W (xchg_m2r_opq T) reg_src]
        else if REG_is_gr32 pin reg_src then [M2R_CALL_W (xchg_m2r_opl T) reg_src]
        else if REG_is_gr16 pin reg_src then [M2R_CALL_W (xchg_m2r_opw T) reg_src]
        else if REG_is_Upper8 pin reg_src then [M2R_CALL_W (xchg_m2r_opb_u T) reg_src]
        else [M2R_CALL_W (xchg_m2r_opb_l T) reg_src]))"

definition ins_xadd_op :: "pin \<Rightarrow> ('a, 's) tag_ops \<Rightarrow> ins \<Rightarrow> ('a, 's) call list" where
  "ins_xadd_op pin T ins =
    (if INS_MemoryOperandCount ins = 0 then
      (let reg_dst = INS_OperandReg ins 0; reg_src = INS_OperandReg ins 1 in
        if REG_is_gr64 pin reg_dst then [R2R_CALL (xadd_r2r_opq T) reg_dst reg_src]
        else if REG_is_gr32 pin reg_dst then [R2R_CALL (xadd_r2r_opl T) reg_dst reg_src]
        else if REG_is_gr16 pin reg_dst then [R2R_CALL (xadd_r2r_opw T) reg_dst reg_src]
        else if REG_is_gr8 pin reg_dst then
          (if REG_is_Lower8 pin reg_dst \<and> REG_is_Lower8 pin reg_src then [R2R_CALL (xadd_r2r_opb_l T) reg_dst reg_src]
           else if REG_is_Upper8 pin reg_dst \<and> REG_is_Upper8 pin reg_src then [R2R_CALL (xadd_r2r_opb_u T) reg_dst reg_src]
           else if REG_is_Lower8 pin reg_dst then [R2R_CALL (xadd_r2r_opb_lu T) reg_dst reg_src]
           else [R2R_CALL (xadd_r2r_opb_ul T) reg_dst reg_src])
        else [])
     else
      (let reg_src = INS_OperandReg ins 1 in
        if REG_is_gr64 pin reg_src then [R2M_CALL (xadd_r2m_opq T) reg_src]
        else if REG_is_gr32 pin reg_src then [R2M_CALL (xadd_r2m_opl T) reg_src]
        else if REG_is_gr16 pin reg_src then [R2M_CALL (xadd_r2m_opw T) reg_src]
        else if REG_is_Upper8 pin reg_src then [R2M_CALL (xadd_r2m_opb_u T) reg_src]
        else [R2M_CALL (xadd_r2m_opb_l T) reg_src]))"

section \<open>Saving and restoring all registers\<close>

text \<open>
  \<open>popa\<close> numbers the registers from \<open>edi\<close> on and skips the number 6; \<open>pusha\<close> runs over the
  indices of the virtual CPU, from that of \<open>edi\<close>, 3, up to the last general purpose register.
\<close>

definition slot_offset :: "nat \<Rightarrow> nat \<Rightarrow> nat" where
  "slot_offset w i = (if i < DFT_REG_RSP then i * w else (i - 1) * w)"

definition m2r_restore :: "nat \<Rightarrow> ('a, 's) tag_ops \<Rightarrow> nat \<Rightarrow> u64 \<Rightarrow> ('a, 's) dft \<Rightarrow> serror + ('a, 's) dft" where
  "m2r_restore w T tid src = for_loop 8 (\<lambda>i s.
    if i = DFT_REG_RSP then Inr s else
    bindE (MTAGS T w s (src + of_nat (slot_offset w i))) (\<lambda>src_tag. write_reg w tid (DFT_REG_RDI + i) src_tag s))"

definition m2r_restore_opw :: "('a, 's) tag_ops \<Rightarrow> nat \<Rightarrow> u64 \<Rightarrow> ('a, 's) dft \<Rightarrow> serror + ('a, 's) dft" where
  "m2r_restore_opw = m2r_restore 2"

definition m2r_restore_opl :: "('a, 's) tag_ops \<Rightarrow> nat \<Rightarrow> u64 \<Rightarrow> ('a, 's) dft \<Rightarrow> serror + ('a, 's) dft" where
  "m2r_restore_opl = m2r_restore 4"

definition r2m_save :: "nat \<Rightarrow> ('a, 's) tag_ops \<Rightarrow> nat \<Rightarrow> u64 \<Rightarrow> ('a, 's) dft \<Rightarrow> serror + ('a, 's) dft" where
  "r2m_save w T tid dst = for_loop (DFT_REG_XMM0 - DFT_REG_RDI) (\<lambda>k s.
    let i = DFT_REG_RDI + k in
    if i = DFT_REG_RSP then Inr s else write_mem w T (dst + of_nat (slot_offset w i)) (RTAGS w s tid i) s)"

definition r2m_save_opw :: "('a, 's) tag_ops \<Rightarrow> nat \<Rightarrow> u64 \<Rightarrow> ('a, 's) dft \<Rightarrow> serror + ('a, 's) dft" where
  "r2m_save_opw = r2m_save 2"

definition r2m_save_opl :: "('a, 's) tag_ops \<Rightarrow> nat \<Rightarrow> u64 \<Rightarrow> ('a, 's) dft \<Rightarrow> serror + ('a, 's) dft" where
  "r2m_save_opl = r2m_save 4"

section \<open>Selection by opcode\<close>

definition reg_eq :: "ins \<Rightarrow> bool" where
  "reg_eq ins \<longleftrightarrow> \<not> INS_OperandIsImmediate ins 1 \<and> INS_MemoryOperandCount ins = 0 \<and>
    INS_OperandReg ins 0 = INS_OperandReg ins 1"

text \<open>A move of an immediate or of a segment register clears, any other one copies.\<close>

definition ins_mov :: "pin \<Rightarrow> ('a, 's) tag_ops \<Rightarrow> ins \<Rightarrow> ('a, 's) call list" where
  "ins_mov pin T ins =
    (if INS_OperandIsImmediate ins 1 \<or> INS_OperandIsReg ins 1 \<and> REG_is_seg pin (INS_OperandReg ins 1)
     then ins_clear_op pin T ins else ins_xfer_op pin T ins)"

definition binary_ops :: "string list" where
  "binary_ops = [''ADC'', ''ADD'', ''ADD_LOCK'', ''ADDPD'', ''ADDSD'', ''ADDSS'', ''AND'', ''OR'',
    ''POR'']"

definition cancel_ops :: "string list" where
  "cancel_ops = [''XOR'', ''SBB'', ''SUB'', ''PXOR'', ''SUBSD'', ''PSUBB'', ''PSUBW'', ''PSUBD'',
    ''XORPS'', ''XORPD'']"

definition unitary_ops :: "string list" where
  "unitary_ops = [''DIV'', ''IDIV'', ''MUL'']"

definition float_ops :: "string list" where
  "float_ops = [''MULSD'', ''MULPD'', ''DIVSD'']"

definition mov_ops :: "string list" where
  "mov_ops = [''BSF'', ''BSR'', ''TZCNT'', ''MOV'']"

definition vector_moves :: "string list" where
  "vector_moves = [''MOVD'', ''MOVQ'', ''MOVAPS'', ''MOVAPD'', ''MOVDQU'', ''MOVDQA'', ''MOVUPS'', ''MOVUPD'',
    ''MOVSS'', ''VMOVD'', ''VMOVQ'', ''VMOVAPS'', ''VMOVAPD'', ''VMOVDQU'', ''VMOVDQA'', ''VMOVUPS'',
    ''VMOVUPD'', ''VMOVSS'', ''MOVSD_XMM'', ''CVTSI2SD'', ''CVTSD2SI'']"

definition cmov_ops :: "string list" where
  "cmov_ops = [''CMOVB'', ''CMOVBE'', ''CMOVL'', ''CMOVLE'', ''CMOVNB'', ''CMOVNBE'', ''CMOVNL'', ''CMOVNLE'',
    ''CMOVNO'', ''CMOVNP'', ''CMOVNS'', ''CMOVNZ'', ''CMOVO'', ''CMOVP'', ''CMOVS'', ''CMOVZ'']"

definition setcc_ops :: "string list" where
  "setcc_ops = [''SETB'', ''SETBE'', ''SETL'', ''SETLE'', ''SETNB'', ''SETNBE'', ''SETNL'', ''SETNLE'',
    ''SETNO'', ''SETNP'', ''SETNS'', ''SETNZ'', ''SETO'', ''SETP'', ''SETS'', ''SETZ'']"

text \<open>
  \<open>ins_inspect\<close>. After the multiplications and divisions of vector registers the code falls
  through into the moves. Opcodes that the code ignores or does not know insert nothing.
\<close>

definition ins_inspect :: "pin \<Rightarrow> ('a, 's) tag_ops \<Rightarrow> ins \<Rightarrow> ('a, 's) call list" where
  "ins_inspect pin T ins = (let opc = INS_Opcode ins in
      if opc \<in> set binary_ops then ins_binary_op pin T ins
      else if opc \<in> set cancel_ops then (if reg_eq ins then ins_clear_op pin T ins else ins_binary_op pin T ins)
      else if opc \<in> set unitary_ops then ins_unitary_op pin T ins
      else if opc = ''IMUL'' then (if INS_OperandIsImplicit ins 1 then ins_unitary_op pin T ins else ins_binary_op pin T ins)
      else if opc \<in> set float_ops then ins_binary_op pin T ins @ ins_mov pin T ins
      else if opc \<in> set mov_ops then ins_mov pin T ins
      else if opc \<in> set vector_moves then ins_xfer_op pin T ins
      else if opc \<in> {''MOVLPD'', ''MOVLPS''} then ins_movlp T ins
      else if opc \<in> {''MOVHPD'', ''MOVHPS''} then ins_movhp T ins
      else if opc \<in> set cmov_ops then ins_xfer_op_predicated pin T ins
      else if opc = ''MOVBE'' then ins_movbe_op pin T ins
      else if opc \<in> {''MOVSX'', ''MOVZX''} then ins_movsx_op pin T ins
      else if opc = ''MOVSXD'' then ins_movsxd_op pin T ins
      else if opc = ''CBW'' then [CALL cbw]
      else if opc = ''CWD'' then [CALL cwd]
      else if opc = ''CWDE'' then [CALL cwde]
      else if opc = ''CDQ'' then [CALL cdq]
      else if opc = ''CDQE'' then [CALL cdqe]
      else if opc = ''CQO'' then [CALL cqo]
      else if opc \<in> set setcc_ops then ins_clear_op_predicated pin T ins
      else if opc = ''STMXCSR'' then ins_clear_op pin T ins
      else if opc \<in> {''SMSW'', ''STR'', ''LAR''} then ins_clear_op pin T ins
      else if opc \<in> {''RDPMC'', ''RDTSC''} then ins_clear_op_l2 T
      else if opc = ''CPUID'' then ins_clear_op_l4 T
      else if opc = ''LAHF'' then ins_clear_op pin T ins
      else if opc \<in> {''CMPXCHG'', ''CMPXCHG_LOCK''} then ins_cmpxchg_op pin T ins
      else if opc = ''XCHG'' then ins_xchg_op pin T ins
      else if opc \<in> {''XADD'', ''XADD_LOCK''} then ins_xadd_op pin T ins
      else if opc = ''XLAT'' then [M2R_CALL (m2r_xfer_opb_l T) (GP RAX L)]
      else if opc = ''LODSB'' then [M2R_CALL_P (m2r_xfer_opb_l T) (GP RAX L)]
      else if opc = ''LODSW'' then [M2R_CALL_P (m2r_xfer_opw T) (GP RAX W)]
      else if opc = ''LODSD'' then [M2R_CALL_P (m2r_xfer_opl T) (GP RAX D)]
      else if opc = ''LODSQ'' then [M2R_CALL_P (m2r_xfer_opq T) (GP RAX Q)]
      else if opc = ''STOSB'' then ins_stosb T ins
      else if opc = ''STOSW'' then ins_stosw T ins
      else if opc = ''STOSD'' then ins_stosd T ins
      else if opc = ''STOSQ'' then ins_stosq T ins
      else if opc = ''MOVSQ'' then [M2M_CALL (m2m_xfer_opq T)]
      else if opc = ''MOVSD'' then [M2M_CALL (m2m_xfer_opl T)]
      else if opc = ''MOVSW'' then [M2M_CALL (m2m_xfer_opw T)]
      else if opc = ''MOVSB'' then [M2M_CALL (m2m_xfer_opb T)]
      else if opc = ''SALC'' then ins_clear_op pin T ins
      else if opc = ''POP'' then ins_pop_op pin T ins
      else if opc = ''PUSH'' then ins_push_op pin T ins
      else if opc = ''POPA'' then [M_CALL_R (m2r_restore_opw T)]
      else if opc = ''POPAD'' then [M_CALL_R (m2r_restore_opl T)]
      else if opc = ''PUSHA'' then [M_CALL_W (r2m_save_opw T)]
      else if opc = ''PUSHAD'' then [M_CALL_W (r2m_save_opl T)]
      else if opc = ''PUSHF'' then [M_CLEAR_N T 2]
      else if opc = ''PUSHFD'' then [M_CLEAR_N T 4]
      else if opc = ''PUSHFQ'' then [M_CLEAR_N T 8]
      else if opc = ''LEA'' then ins_lea pin T ins
      else if opc = ''PCMPEQB'' then ins_binary_op pin T ins
      else [])"

section \<open>Traces\<close>

text \<open>
  \<open>trace_inspect\<close>: the instructions of the basic blocks of a trace are inspected in order. The
  callbacks that a tool can register for an opcode, before and after, are \<open>pre\<close> and \<open>post\<close>.
\<close>

definition trace_inspect ::
  "pin \<Rightarrow> ('a, 's) tag_ops \<Rightarrow> (string \<Rightarrow> (ins \<Rightarrow> ('a, 's) call list) option) \<Rightarrow>
    (string \<Rightarrow> (ins \<Rightarrow> ('a, 's) call list) option) \<Rightarrow> ins list list \<Rightarrow> ('a, 's) call list list" where
  "trace_inspect pin T pre post bbls =
    map (\<lambda>ins. (case pre (INS_Opcode ins) of None \<Rightarrow> [] | Some f \<Rightarrow> f ins) @ ins_inspect pin T ins @
      (case post (INS_Opcode ins) of None \<Rightarrow> [] | Some f \<Rightarrow> f ins)) (concat bbls)"

text \<open>The calls of each instruction run with what Pin passes at that instruction.\<close>

fun run_trace :: "('a, 's) call list list \<Rightarrow> rt list \<Rightarrow> ('a, 's) dft \<Rightarrow> serror + ('a, 's) dft" where
  "run_trace (c # cs) (r # rs) s = bindE (run_calls c r s) (run_trace cs rs)"
| "run_trace cs rs s = Inr s"

end
