(* ===== verification/InsFlows.thy ===== *)
theory InsFlows
  imports InsInspect
begin

text \<open>
  What the inserted calls do to the operands of an instruction. The bytes of a register
  operand are given by its class alone, independently of the routines; the lemmas say that
  for every combination of operands the selected routine moves the taint of exactly those
  bytes.
\<close>

section \<open>Operands\<close>

definition wide :: "pin \<Rightarrow> REG \<Rightarrow> bool" where
  "wide pin r \<longleftrightarrow> REG_is_gr64 pin r \<or> REG_is_gr32 pin r \<or> REG_is_gr16 pin r \<or>
    REG_is_xmm pin r \<or> REG_is_ymm pin r \<or> REG_is_mm pin r"

text \<open>A register that is not wide is the low or the high byte of a word register.\<close>

definition byte_classes :: "pin \<Rightarrow> REG \<Rightarrow> bool" where
  "byte_classes pin r \<longleftrightarrow> wide pin r \<or> (REG_is_Lower8 pin r \<longleftrightarrow> \<not> REG_is_Upper8 pin r)"

definition reg_bytes :: "pin \<Rightarrow> nat \<Rightarrow> REG \<Rightarrow> loc list" where
  "reg_bytes pin tid r =
    (let low = \<lambda>n. map (Reg tid (REG_INDX r)) [0..<n] in
      if REG_is_gr64 pin r then low 8 else if REG_is_gr32 pin r then low 4
      else if REG_is_gr16 pin r then low 2 else if REG_is_xmm pin r then low 16
      else if REG_is_ymm pin r then low 32 else if REG_is_mm pin r then low 8
      else if REG_is_Upper8 pin r then [Reg tid (REG_INDX r) 1] else [Reg tid (REG_INDX r) 0])"

definition mem_bytes :: "u64 \<Rightarrow> nat \<Rightarrow> loc list" where
  "mem_bytes a n = map (bytes a) [0..<n]"

definition assign_all :: "loc list \<Rightarrow> loc list \<Rightarrow> (loc \<times> loc set) list" where
  "assign_all ds ss = map2 (\<lambda>d s. (d, {s})) ds ss"

definition merge_all :: "loc list \<Rightarrow> loc list \<Rightarrow> (loc \<times> loc set) list" where
  "merge_all ds ss = map2 (\<lambda>d s. (d, {d, s})) ds ss"

definition clear_all :: "loc list \<Rightarrow> (loc \<times> loc set) list" where
  "clear_all ds = map (\<lambda>d. (d, {})) ds"

lemma zip_maps: "zip (map f [0..<n]) (map g [0..<n]) = map (\<lambda>i. (f i, g i)) [0..<n]"
  by (induction n) auto

lemma copy_eq: "copy n d s = assign_all (map d [0..<n]) (map s [0..<n])"
  by (simp add: copy_def assign_all_def zip_maps comp_def)

lemma merge_eq: "merge n d s = merge_all (map d [0..<n]) (map s [0..<n])"
  by (simp add: merge_def merge_all_def zip_maps comp_def)

lemma wipe_eq: "wipe n d = clear_all (map d [0..<n])"
  by (simp add: wipe_def clear_all_def comp_def)

lemma byte_pairs [simp]:
  "assign_all [d] [s] = [(d, {s})]" "merge_all [d] [s] = [(d, {d, s})]" "clear_all [d] = [(d, {})]"
  by (simp_all add: assign_all_def merge_all_def clear_all_def)

lemma reg_bytes_wide:
  assumes "length (reg_bytes pin tid r) = n" "1 < n"
  shows "reg_bytes pin tid r = map (Reg tid (REG_INDX r)) [0..<n]"
  using assms by (auto simp: reg_bytes_def Let_def split: if_splits)

lemma reg_bytes_byte:
  assumes "length (reg_bytes pin tid r) = 1"
  shows "reg_bytes pin tid r = [Reg tid (REG_INDX r) (if REG_is_Upper8 pin r then 1 else 0)]" "\<not> wide pin r"
  using assms by (auto simp: reg_bytes_def Let_def wide_def split: if_splits)

lemma wide_cases:
  obtains (gr64) "REG_is_gr64 pin r" "length (reg_bytes pin tid r) = 8"
  | (gr32) "\<not> REG_is_gr64 pin r" "REG_is_gr32 pin r" "length (reg_bytes pin tid r) = 4"
  | (gr16) "\<not> REG_is_gr64 pin r" "\<not> REG_is_gr32 pin r" "REG_is_gr16 pin r" "length (reg_bytes pin tid r) = 2"
  | (xmm) "\<not> REG_is_gr64 pin r" "\<not> REG_is_gr32 pin r" "\<not> REG_is_gr16 pin r" "REG_is_xmm pin r"
      "length (reg_bytes pin tid r) = 16"
  | (ymm) "\<not> REG_is_gr64 pin r" "\<not> REG_is_gr32 pin r" "\<not> REG_is_gr16 pin r" "\<not> REG_is_xmm pin r" "REG_is_ymm pin r"
      "length (reg_bytes pin tid r) = 32"
  | (mm) "\<not> REG_is_gr64 pin r" "\<not> REG_is_gr32 pin r" "\<not> REG_is_gr16 pin r" "\<not> REG_is_xmm pin r" "\<not> REG_is_ymm pin r"
      "REG_is_mm pin r" "length (reg_bytes pin tid r) = 8"
  | (byte) "\<not> wide pin r" "length (reg_bytes pin tid r) = 1"
  by (cases "REG_is_Upper8 pin r") (auto simp: reg_bytes_def Let_def wide_def)

lemma not_wide:
  "\<not> wide pin r \<Longrightarrow> \<not> REG_is_gr64 pin r \<and> \<not> REG_is_gr32 pin r \<and> \<not> REG_is_gr16 pin r \<and>
    \<not> REG_is_xmm pin r \<and> \<not> REG_is_ymm pin r \<and> \<not> REG_is_mm pin r"
  by (simp add: wide_def)

lemma run_calls_one [simp]: "run_calls [c] rt = c rt"
proof
  fix s show "run_calls [c] rt s = c rt s" by (cases "c rt s") simp_all
qed

lemmas call_defs = R2R_CALL_def M2R_CALL_def R2M_CALL_def R_CALL_def M_CALL_R_def M_CALL_W_def CALL_def
  R2R_CALL_P_def M2R_CALL_P_def M2M_CALL_def M_CLEAR_N_def RR2R_CALL_def predicated_def

lemmas width_defs = r2r_xfer_opw_def r2r_xfer_opl_def r2r_xfer_opq_def r2r_xfer_opx_def r2r_xfer_opy_def
  m2r_xfer_opw_def m2r_xfer_opl_def m2r_xfer_opq_def m2r_xfer_opx_def m2r_xfer_opy_def
  r2m_word r2m_xfer_opl_def r2m_xfer_opq_def r2m_xfer_opx_def r2m_xfer_opy_def
  m2m_xfer_opw_def m2m_xfer_opl_def m2m_xfer_opq_def
  r2r_binary_opw_def r2r_binary_opl_def r2r_binary_opq_def r2r_binary_opx_def r2r_binary_opy_def
  m2r_binary_opw_def m2r_binary_opl_def m2r_binary_opq_def m2r_binary_opx_def m2r_binary_opy_def
  r2m_binary_opw_def r2m_binary_opl_def r2m_binary_opq_def r2m_binary_opx_def r2m_binary_opy_def
  r2r_binary_opb_ul_def r2r_binary_opb_lu_def r2r_binary_opb_u_def r2r_binary_opb_l_def
  m2r_binary_opb_u_def m2r_binary_opb_l_def r2m_binary_opb_u_def r2m_binary_opb_l_def
  r_clrw_def r_clrl_def r_clrq_def r_clrx_def r_clry_def

section \<open>Copies and binary operations\<close>

context tag_type
begin

lemma xfer_r2r_flows:
  assumes "INS_MemoryOperandCount ins = 0" "byte_classes pin (INS_OperandReg ins 0)" "byte_classes pin (INS_OperandReg ins 1)"
    and len: "length (reg_bytes pin (THREAD_ID rt) (INS_OperandReg ins 0)) = length (reg_bytes pin (THREAD_ID rt) (INS_OperandReg ins 1))"
  shows "flows T S (run_calls (ins_xfer_op pin T ins) rt)
    (moves (assign_all (reg_bytes pin (THREAD_ID rt) (INS_OperandReg ins 0)) (reg_bytes pin (THREAD_ID rt) (INS_OperandReg ins 1))))"
proof -
  let ?d = "INS_OperandReg ins 0" and ?s = "INS_OperandReg ins 1" and ?t = "THREAD_ID rt"
  note wide = reg_bytes_wide [of pin ?t ?d, OF refl] reg_bytes_wide [of pin ?t ?s, OF len [symmetric]]
  show ?thesis
  proof (cases rule: wide_cases [of pin ?d ?t])
    case byte
    from byte(2) len have s: "length (reg_bytes pin ?t ?s) = 1" by simp
    show ?thesis
      using assms(1-3) not_wide [OF byte(1)] reg_bytes_byte [OF byte(2)] reg_bytes_byte [OF s] xfer_byte_flows(1-4)
      by (auto simp: ins_xfer_op_def Let_def R2R_CALL_def byte_classes_def)
  qed (use assms(1) wide r2r_xfer_flows in
      \<open>simp_all add: ins_xfer_op_def Let_def R2R_CALL_def width_defs copy_eq\<close>)
qed

lemma xfer_m2r_flows:
  assumes "INS_MemoryOperandCount ins \<noteq> 0" "INS_OperandIsMemory ins 1" "length (reg_bytes pin (THREAD_ID rt) (INS_OperandReg ins 0)) = n"
    and u: "user (MEMORYREAD_EA rt) n"
  shows "flows T S (run_calls (ins_xfer_op pin T ins) rt)
    (moves (assign_all (reg_bytes pin (THREAD_ID rt) (INS_OperandReg ins 0)) (mem_bytes (MEMORYREAD_EA rt) n)))"
proof -
  let ?d = "INS_OperandReg ins 0" and ?t = "THREAD_ID rt"
  show ?thesis
  proof (cases rule: wide_cases [of pin ?d ?t])
    case byte
    then show ?thesis
      using assms not_wide [OF byte(1)] reg_bytes_byte [OF byte(2)] xfer_byte_flows(5,6) user_0 [OF u]
      by (auto simp: ins_xfer_op_def Let_def M2R_CALL_def mem_bytes_def bytes_def)
  qed (use assms reg_bytes_wide [OF assms(3)] m2r_xfer_flows [of "MEMORYREAD_EA rt" n] in
      \<open>simp_all add: ins_xfer_op_def Let_def M2R_CALL_def width_defs copy_eq mem_bytes_def\<close>)
qed

lemma xfer_r2m_flows:
  assumes "INS_MemoryOperandCount ins \<noteq> 0" "\<not> INS_OperandIsMemory ins 1" "length (reg_bytes pin (THREAD_ID rt) (INS_OperandReg ins 1)) = n"
    and u: "user (MEMORYWRITE_EA rt) n"
  shows "flows T S (run_calls (ins_xfer_op pin T ins) rt)
    (moves (assign_all (mem_bytes (MEMORYWRITE_EA rt) n) (reg_bytes pin (THREAD_ID rt) (INS_OperandReg ins 1))))"
proof -
  let ?d = "INS_OperandReg ins 1" and ?t = "THREAD_ID rt"
  show ?thesis
  proof (cases rule: wide_cases [of pin ?d ?t])
    case byte
    then show ?thesis
      using assms not_wide [OF byte(1)] reg_bytes_byte [OF byte(2)] xfer_byte_flows(7,8) user_0 [OF u]
      by (auto simp: ins_xfer_op_def Let_def R2M_CALL_def mem_bytes_def bytes_def)
  qed (use assms reg_bytes_wide [OF assms(3)] r2m_xfer_flows [of "MEMORYWRITE_EA rt" n] in
      \<open>simp_all add: ins_xfer_op_def Let_def R2M_CALL_def width_defs copy_eq mem_bytes_def\<close>)
qed

lemma binary_r2r_flows:
  assumes "\<not> INS_OperandIsImmediate ins 1" "INS_MemoryOperandCount ins = 0"
    and "byte_classes pin (INS_OperandReg ins 0)" "byte_classes pin (INS_OperandReg ins 1)"
    and len: "length (reg_bytes pin (THREAD_ID rt) (INS_OperandReg ins 0)) = length (reg_bytes pin (THREAD_ID rt) (INS_OperandReg ins 1))"
  shows "flows T S (run_calls (ins_binary_op pin T ins) rt)
    (moves (merge_all (reg_bytes pin (THREAD_ID rt) (INS_OperandReg ins 0)) (reg_bytes pin (THREAD_ID rt) (INS_OperandReg ins 1))))"
proof -
  let ?d = "INS_OperandReg ins 0" and ?s = "INS_OperandReg ins 1" and ?t = "THREAD_ID rt"
  note wide = reg_bytes_wide [of pin ?t ?d, OF refl] reg_bytes_wide [of pin ?t ?s, OF len [symmetric]]
  show ?thesis
  proof (cases rule: wide_cases [of pin ?d ?t])
    case byte
    from byte(2) len have s: "length (reg_bytes pin ?t ?s) = 1" by simp
    show ?thesis
      using assms(1-4) not_wide [OF byte(1)] reg_bytes_byte [OF byte(2)] reg_bytes_byte [OF s] r2r_binary_byte_flows
      by (auto simp: ins_binary_op_def Let_def R2R_CALL_def byte_classes_def width_defs)
  qed (use assms(1,2) wide r2r_binary_flows in
      \<open>simp_all add: ins_binary_op_def Let_def R2R_CALL_def width_defs merge_eq\<close>)
qed

lemma binary_m2r_flows:
  assumes "\<not> INS_OperandIsImmediate ins 1" "INS_MemoryOperandCount ins \<noteq> 0" "INS_OperandIsMemory ins 1"
    and "length (reg_bytes pin (THREAD_ID rt) (INS_OperandReg ins 0)) = n" and u: "user (MEMORYREAD_EA rt) n"
  shows "flows T S (run_calls (ins_binary_op pin T ins) rt)
    (moves (merge_all (reg_bytes pin (THREAD_ID rt) (INS_OperandReg ins 0)) (mem_bytes (MEMORYREAD_EA rt) n)))"
proof -
  let ?d = "INS_OperandReg ins 0" and ?t = "THREAD_ID rt"
  show ?thesis
  proof (cases rule: wide_cases [of pin ?d ?t])
    case byte
    then show ?thesis
      using assms not_wide [OF byte(1)] reg_bytes_byte [OF byte(2)] m2r_binary_byte_flows user_0 [OF u]
      by (auto simp: ins_binary_op_def Let_def M2R_CALL_def mem_bytes_def bytes_def width_defs insert_commute)
  qed (use assms reg_bytes_wide [OF assms(4)] m2r_binary_flows [of "MEMORYREAD_EA rt" n] in
      \<open>simp_all add: ins_binary_op_def Let_def M2R_CALL_def width_defs merge_eq mem_bytes_def\<close>)
qed

lemma binary_r2m_flows:
  assumes "\<not> INS_OperandIsImmediate ins 1" "INS_MemoryOperandCount ins \<noteq> 0" "\<not> INS_OperandIsMemory ins 1"
    and "length (reg_bytes pin (THREAD_ID rt) (INS_OperandReg ins 1)) = n" and u: "user (MEMORYWRITE_EA rt) n"
  shows "flows T S (run_calls (ins_binary_op pin T ins) rt)
    (moves (merge_all (mem_bytes (MEMORYWRITE_EA rt) n) (reg_bytes pin (THREAD_ID rt) (INS_OperandReg ins 1))))"
proof -
  let ?d = "INS_OperandReg ins 1" and ?t = "THREAD_ID rt"
  show ?thesis
  proof (cases rule: wide_cases [of pin ?d ?t])
    case byte
    then show ?thesis
      using assms not_wide [OF byte(1)] reg_bytes_byte [OF byte(2)] r2m_binary_byte_flows user_0 [OF u]
      by (auto simp: ins_binary_op_def Let_def R2M_CALL_def mem_bytes_def bytes_def width_defs)
  qed (use assms reg_bytes_wide [OF assms(4)] r2m_binary_flows [of "MEMORYWRITE_EA rt" n] in
      \<open>simp_all add: ins_binary_op_def Let_def R2M_CALL_def width_defs merge_eq mem_bytes_def\<close>)
qed

section \<open>Clearing\<close>

lemma clear_reg_op_flows:
  assumes "\<not> INS_OperandIsMemory ins 0" "byte_classes pin (INS_OperandReg ins 0)"
    and "REG_is_ymm pin (INS_OperandReg ins 0) \<Longrightarrow> length (reg_bytes pin (THREAD_ID rt) (INS_OperandReg ins 0)) < 32"
    and "\<not> (REG_is_mm pin (INS_OperandReg ins 0) \<and> REG_is_ymm pin (INS_OperandReg ins 0))"
  shows "flows T S (run_calls (ins_clear_op pin T ins) rt)
    (moves (clear_all (reg_bytes pin (THREAD_ID rt) (INS_OperandReg ins 0))))"
proof -
  let ?d = "INS_OperandReg ins 0" and ?t = "THREAD_ID rt"
  note wide = reg_bytes_wide [of pin ?t ?d, OF refl]
  show ?thesis
  proof (cases rule: wide_cases [of pin ?d ?t])
    case byte
    have one: "flows T S (\<lambda>s. Inr (set_RTAG tid r i (cleared_val T) s)) (moves [(Reg tid r i, {})])" for tid r i
      by (rule flows_one) (simp add: as_put [where T = T] inv_put holds_cleared)
    show ?thesis
      using assms not_wide [OF byte(1)] reg_bytes_byte [OF byte(2)] one
      by (auto simp: ins_clear_op_def Let_def R_CALL_def r_clrb_l_def r_clrb_u_def byte_classes_def)
  qed (use assms wide clear_reg_flows in
      \<open>simp_all add: ins_clear_op_def Let_def R_CALL_def width_defs wipe_eq\<close>)
qed

text \<open>Clearing \<open>n\<close> bytes of memory; the end of a range of user addresses does not wrap.\<close>

lemma clrn_flows:
  assumes "user addr (unat n)"
  shows "flows T S (tagmap_clrn T addr n) (moves (wipe (unat n) (bytes addr)))"
proof -
  have "unat (addr + ucast n) - unat addr = unat n"
  proof (cases "unat n = 0")
    case True
    then have "n = 0" by (simp add: unat_eq_0)
    then show ?thesis by simp
  next
    case False
    then have "\<not> outside addr" using user_0 [OF assms] by simp
    then have "unat addr \<le> 0x7fffffffffff" by (simp add: outside_def word_le_nat_alt not_less)
    moreover have n: "unat n < 2 ^ 32" using unsigned_less [of n, where ?'a = nat] by simp
    moreover have "unat (ucast n :: u64) = unat n"
      using n by (simp add: unsigned_ucast_eq take_bit_nat_eq_self)
    ultimately have "unat (addr + ucast n) = unat addr + unat n" by (subst unat_plus_simple [THEN iffD1]) (auto simp: no_olen_add_nat)
    then show ?thesis by simp
  qed
  moreover have "flows T S (for_loop (unat n) (\<lambda>i s. Inr (tagmap_clrb T (addr + of_nat i) s))) (moves (wipe (unat n) (bytes addr)))"
    unfolding wipe_def tagmap_clrb_def as_put [where T = T]
    by (rule flows_loop) (simp_all add: bytes_def inv_put holds_cleared userD [OF assms])
  ultimately show ?thesis by (simp add: tagmap_clrn_def [abs_def])
qed

section \<open>Exchanges\<close>

lemma xchg_three_flows:
  assumes "d \<noteq> 0" "s \<noteq> 0"
  shows "flows T S (\<lambda>st. bindE (r2r_xfer n tid 0 d st) (\<lambda>st. bindE (r2r_xfer n tid d s st) (r2r_xfer n tid s 0)))
    (moves (copy n (Reg tid 0) (Reg tid d) @ copy n (Reg tid d) (Reg tid s) @ copy n (Reg tid s) (Reg tid d)))"
proof -
  let ?c = "\<lambda>a b. moves (copy n (Reg tid a) (Reg tid b))"
  have "flows T S (\<lambda>st. bindE (r2r_xfer n tid 0 d st) (\<lambda>st. bindE (r2r_xfer n tid d s st) (r2r_xfer n tid s 0)))
      (\<lambda>l. \<Union>m \<in> (\<Union>m \<in> ?c s 0 l. ?c d s m). ?c 0 d m)"
    by (rule flows_seq [OF r2r_xfer_flows flows_seq [OF r2r_xfer_flows r2r_xfer_flows]])
  moreover have "(\<Union>m \<in> (\<Union>m \<in> ?c s 0 l. ?c d s m). ?c 0 d m) =
      moves ((copy n (Reg tid 0) (Reg tid d) @ copy n (Reg tid d) (Reg tid s)) @ copy n (Reg tid s) (Reg tid d)) l" for l
    using assms unfolding moves_append_copy moves_copy_reg by (cases l) auto
  ultimately show ?thesis by simp
qed

end

text \<open>No register has the index of a scratch register, or one outside the array.\<close>

lemma REG_INDX_range: "3 \<le> REG_INDX r \<and> REG_INDX r \<le> GRP_NUM"
proof (cases r)
  case (GP g p)
  have "3 \<le> gp_indx g \<and> gp_indx g \<le> 18" by (cases g) simp_all
  then show ?thesis using GP by (auto simp: GRP_NUM_def)
qed (auto simp: GRP_NUM_def)

section \<open>Instructions on registers\<close>

definition scratch :: "loc \<Rightarrow> bool" where
  "scratch l = (case l of Reg tid r i \<Rightarrow> r < 3 | Mem a \<Rightarrow> False)"

lemma REG_INDX_scratch: "REG_INDX r \<noteq> 0" "\<not> REG_INDX r < 3" "REG_INDX r \<noteq> DFT_REG_HELPER1"
  using REG_INDX_range [of r] by (auto simp: DFT_REG_HELPER1_def)

lemma moves_scratch: "\<not> scratch l \<Longrightarrow> r < 3 \<Longrightarrow> moves (copy n (Reg tid r) g @ ps) l = moves ps l"
proof -
  assume l: "\<not> scratch l" and r: "r < 3"
  have "moves (copy n (Reg tid r) g) l = {l}" using l r by (cases l) (auto simp: moves_copy_reg scratch_def)
  then show ?thesis by (auto simp: moves_append moves_other)
qed

lemma run_calls_three: "run_calls [c, c', c''] rt = (\<lambda>s. bindE (c rt s) (\<lambda>s. bindE (c' rt s) (c'' rt)))"
proof
  fix s
  show "run_calls [c, c', c''] rt s = bindE (c rt s) (\<lambda>s. bindE (c' rt s) (c'' rt))"
    by (cases "c rt s") simp_all
qed

context tag_type
begin

lemma xchg_r2r_flows:
  assumes "INS_MemoryOperandCount ins = 0" "byte_classes pin (INS_OperandReg ins 0)" "byte_classes pin (INS_OperandReg ins 1)"
    and len: "length (reg_bytes pin (THREAD_ID rt) (INS_OperandReg ins 0)) = length (reg_bytes pin (THREAD_ID rt) (INS_OperandReg ins 1))"
    and gr: "\<not> REG_is_xmm pin (INS_OperandReg ins 0)" "\<not> REG_is_ymm pin (INS_OperandReg ins 0)"
      "\<not> REG_is_mm pin (INS_OperandReg ins 0)" "\<not> wide pin (INS_OperandReg ins 0) \<Longrightarrow> REG_is_gr8 pin (INS_OperandReg ins 0)"
  shows "\<exists>F. flows T S (run_calls (ins_xchg_op pin T ins) rt) F \<and> (\<forall>l. \<not> scratch l \<longrightarrow> F l =
    moves (assign_all (reg_bytes pin (THREAD_ID rt) (INS_OperandReg ins 0)) (reg_bytes pin (THREAD_ID rt) (INS_OperandReg ins 1)) @
      assign_all (reg_bytes pin (THREAD_ID rt) (INS_OperandReg ins 1)) (reg_bytes pin (THREAD_ID rt) (INS_OperandReg ins 0))) l)"
proof -
  let ?d = "INS_OperandReg ins 0" and ?s = "INS_OperandReg ins 1" and ?t = "THREAD_ID rt"
  note wide = reg_bytes_wide [of pin ?t ?d, OF refl] reg_bytes_wide [of pin ?t ?s, OF len [symmetric]]
  have three: "\<exists>F. flows T S (run_calls (xchg_three (r2r_xfer n) ?d ?s) rt) F \<and> (\<forall>l. \<not> scratch l \<longrightarrow> F l =
      moves (copy n (Reg ?t (REG_INDX ?d)) (Reg ?t (REG_INDX ?s)) @ copy n (Reg ?t (REG_INDX ?s)) (Reg ?t (REG_INDX ?d))) l)" for n
  proof (intro exI conjI allI impI)
    show "flows T S (run_calls (xchg_three (r2r_xfer n) ?d ?s) rt) (moves (copy n (Reg ?t 0) (Reg ?t (REG_INDX ?d)) @
        copy n (Reg ?t (REG_INDX ?d)) (Reg ?t (REG_INDX ?s)) @ copy n (Reg ?t (REG_INDX ?s)) (Reg ?t (REG_INDX ?d))))"
      unfolding xchg_three_def run_calls_three by (rule xchg_three_flows [OF REG_INDX_scratch(1) REG_INDX_scratch(1)])
  qed (simp add: moves_scratch)
  have exact: "\<exists>F. flows T S h F \<and> (\<forall>l. \<not> scratch l \<longrightarrow> F l = moves ps l)" if "flows T S h (moves ps)" for h ps
    using that by blast
  show ?thesis
  proof (cases rule: wide_cases [of pin ?d ?t])
    case byte
    from byte(2) len have s: "length (reg_bytes pin ?t ?s) = 1" by simp
    show ?thesis
      by (rule exact) (use assms(1-3) gr(4) not_wide [OF byte(1)] byte(1) reg_bytes_byte [OF byte(2)] reg_bytes_byte [OF s] xchg_r2r_byte_flows in
        \<open>auto simp: ins_xchg_op_def Let_def R2R_CALL_def byte_classes_def xchg_r2r_opb_l_def xchg_r2r_opb_u_def
          xchg_r2r_opb_ul_def xchg_r2r_opb_lu_def\<close>)
  next
    case gr16
    then show ?thesis
      by (intro exact) (use assms(1) wide xchg_r2r_opw_flows in \<open>simp add: ins_xchg_op_def Let_def R2R_CALL_def copy_eq\<close>)
  qed (use assms(1) gr wide three in \<open>auto simp: ins_xchg_op_def Let_def width_defs copy_eq\<close>)
qed

end

end
