(* ===== verification/InsSpecs.thy ===== *)
theory InsSpecs
  imports InsFlows TagTypes
begin

text \<open>
  The remaining instructions, the union of the tags of a range, the selection by opcode and
  the composition of the instructions of a trace; and example instructions on which the
  theorems are applied.
\<close>

section \<open>Multiplication, extension, compare and exchange, exchange and add\<close>

text \<open>
  The operand of a multiplication flows into the two registers of the product; a byte operand
  flows into both bytes of the accumulator.
\<close>

definition product_moves :: "nat \<Rightarrow> loc list \<Rightarrow> (loc \<times> loc set) list" where
  "product_moves tid src =
    (if length src = 1 then map (\<lambda>i. (Reg tid DFT_REG_RAX i, {Reg tid DFT_REG_RAX i, src ! 0})) [0..<2]
     else product (length src) tid (\<lambda>i. src ! i))"

lemma product_cong: "(\<And>i. i < n \<Longrightarrow> f i = g i) \<Longrightarrow> product n tid f = product n tid g"
  unfolding product_def by (intro arg_cong [where f = concat] map_cong) simp_all

lemma two_upt: "[0..<2] = [0, 1::nat]"
  by (simp add: numeral_2_eq_2)

text \<open>The comparison of the values in compare and exchange, at the widths of the routines.\<close>

definition cmpxchg_equal :: "pin \<Rightarrow> rt \<Rightarrow> REG \<Rightarrow> bool" where
  "cmpxchg_equal pin rt d =
    (if REG_is_gr64 pin d \<or> REG_is_gr32 pin d
     then (ucast (REG_VALUE rt (GP RAX D)) :: u32) = ucast (REG_VALUE rt d)
     else (ucast (REG_VALUE rt (GP RAX W)) :: u16) = ucast (REG_VALUE rt d))"

context tag_type
begin

lemma unitary_reg_flows:
  assumes "\<not> INS_OperandIsMemory ins 0"
    and gr: "\<not> REG_is_xmm pin (INS_OperandReg ins 0)" "\<not> REG_is_ymm pin (INS_OperandReg ins 0)" "\<not> REG_is_mm pin (INS_OperandReg ins 0)"
  shows "flows T S (run_calls (ins_unitary_op pin T ins) rt)
    (moves (product_moves (THREAD_ID rt) (reg_bytes pin (THREAD_ID rt) (INS_OperandReg ins 0))))"
proof -
  let ?s = "INS_OperandReg ins 0" and ?t = "THREAD_ID rt"
  have p: "product n ?t ((!) (map (Reg ?t (REG_INDX ?s)) [0..<n])) = product n ?t (Reg ?t (REG_INDX ?s))" for n
    by (rule product_cong) simp
  note wide = reg_bytes_wide [of pin ?t ?s, OF refl]
  show ?thesis
  proof (cases rule: wide_cases [of pin ?s ?t])
    case byte
    show ?thesis
      using assms not_wide [OF byte(1)] reg_bytes_byte [OF byte(2)] r2r_unitary_byte_flows
      by (auto simp: ins_unitary_op_def Let_def R_CALL_def r2r_unitary_opb_u_def [abs_def] r2r_unitary_opb_l_def [abs_def]
          product_moves_def two_upt)
  next
    case gr16
    then show ?thesis
      using assms(1) wide p [of 2] r2r_unitary_opw_flows [of ?t "REG_INDX ?s"]
      by (simp add: ins_unitary_op_def Let_def R_CALL_def product_moves_def)
  qed (use assms wide p r2r_unitary_wide_flows in
      \<open>simp_all add: ins_unitary_op_def Let_def R_CALL_def product_moves_def r2r_unitary_opq_def [abs_def] r2r_unitary_opl_def [abs_def]\<close>)
qed

text \<open>
  Extension: the bytes of the destination get the taint of those of the source in turn. The
  destination is of one of the three wide general purpose classes, and of only one.
\<close>

lemma movsx_r2r_op_flows:
  assumes "INS_MemoryOperandCount ins = 0"
    and d: "(REG_is_gr64 pin d, REG_is_gr32 pin d, REG_is_gr16 pin d) \<in> {(True, False, False), (False, True, False), (False, False, True)}"
    and s: "\<not> wide pin s \<or> REG_is_gr16 pin s \<and> length (reg_bytes pin t s) = 2 \<and> \<not> REG_is_gr16 pin d"
    and "d = INS_OperandReg ins 0" "s = INS_OperandReg ins 1" "t = THREAD_ID rt"
  shows "flows T S (run_calls (ins_movsx_op pin T ins) rt)
    (moves (assign_all (reg_bytes pin t d)
      (map (\<lambda>i. reg_bytes pin t s ! (i mod length (reg_bytes pin t s))) [0..<length (reg_bytes pin t d)])))"
proof -
  have c: "copy n f (\<lambda>_. l) = assign_all (map f [0..<n]) (map (\<lambda>_. l) [0..<n])" for n f and l :: loc by (rule copy_eq)
  have len_d: "length (reg_bytes pin t d) = (if REG_is_gr64 pin d then 8 else if REG_is_gr32 pin d then 4 else 2)"
    using d by (auto simp: reg_bytes_def Let_def)
  note wide_d = reg_bytes_wide [of pin t d, OF refl]
  note ops = movsx_r2r_opwb_u_def movsx_r2r_opwb_l_def movsx_r2r_oplb_u_def movsx_r2r_oplb_l_def movsx_r2r_opqb_u_def
    movsx_r2r_opqb_l_def movsx_r2r_oplw_def movsx_r2r_opqw_def
  show ?thesis
  proof (cases "wide pin s")
    case False
    then have "length (reg_bytes pin t s) = 1" by (simp add: reg_bytes_def Let_def wide_def)
    note b = reg_bytes_byte [OF this]
    show ?thesis
      using assms(1) d not_wide [OF False] b(1) len_d wide_d movsx_r2r_byte_flows assms(4-6)
      by (auto simp: ins_movsx_op_def Let_def R2R_CALL_def ops c)
  next
    case True
    with s have s': "REG_is_gr16 pin s" "length (reg_bytes pin t s) = 2" "\<not> REG_is_gr16 pin d" by auto
    note b = reg_bytes_wide [OF s'(2)]
    show ?thesis
      using assms(1) d s' b len_d wide_d movsx_r2r_flows [unfolded copy_eq] assms(4-6)
      by (auto simp: ins_movsx_op_def Let_def R2R_CALL_def ops)
  qed
qed

text \<open>
  Compare and exchange of registers, outside the scratch register: when the compared values
  are equal the destination gets the taint of the source, otherwise the accumulator that of
  the destination. The 64 bit form compares 32 bits.
\<close>

lemma cmpxchg_r2r_op_flows:
  assumes "INS_MemoryOperandCount ins = 0" "REG_is_gr64 pin d \<or> REG_is_gr32 pin d \<or> REG_is_gr16 pin d"
    and len: "length (reg_bytes pin t d) = length (reg_bytes pin t s)"
    and eqs: "d = INS_OperandReg ins 0" "s = INS_OperandReg ins 1" "t = THREAD_ID rt"
  shows "\<exists>F. flows T S (run_calls (ins_cmpxchg_op pin T ins) rt) F \<and> (\<forall>l. \<not> scratch l \<longrightarrow> F l =
    moves (if cmpxchg_equal pin rt d then assign_all (reg_bytes pin t d) (reg_bytes pin t s)
      else assign_all (map (Reg t DFT_REG_RAX) [0..<length (reg_bytes pin t d)]) (reg_bytes pin t d)) l)"
proof -
  note wide = reg_bytes_wide [of pin t d, OF refl] reg_bytes_wide [of pin t s, OF len [symmetric]]
  let ?m = "\<lambda>n E. moves (if E then copy n (Reg t (REG_INDX d)) (Reg t (REG_INDX s))
      else copy n (Reg t DFT_REG_RAX) (Reg t (REG_INDX d)))"
  have run: "\<exists>F. flows T S (if_then_call (\<lambda>rt. cmpxchg_r2r_fast m n (THREAD_ID rt) (v rt) (REG_INDX d) (w rt))
      (R2R_CALL (cmpxchg_r2r_slow m n) d s) rt) F \<and> (\<forall>l. \<not> scratch l \<longrightarrow> F l = ?m n (v rt = w rt) l)"
    if "n \<le> m" for m n and v w :: "rt \<Rightarrow> 'c"
  proof (intro exI conjI allI impI)
    show "flows T S (if_then_call (\<lambda>rt. cmpxchg_r2r_fast m n (THREAD_ID rt) (v rt) (REG_INDX d) (w rt))
        (R2R_CALL (cmpxchg_r2r_slow m n) d s) rt) (moves (copy m (Reg t DFT_REG_HELPER1) (Reg t DFT_REG_RAX) @
          (if v rt = w rt then copy n (Reg t (REG_INDX d)) (Reg t (REG_INDX s)) else copy n (Reg t DFT_REG_RAX) (Reg t (REG_INDX d)))))"
      unfolding if_then_call_def R2R_CALL_def eqs(3) by (rule cmpxchg_r2r_flows [OF REG_INDX_scratch(3) REG_INDX_scratch(3) that])
  qed (simp add: moves_scratch DFT_REG_HELPER1_def)
  note ops = cmpxchg_r2r_opq_fast_def cmpxchg_r2r_opq_slow_def cmpxchg_r2r_opl_fast_def cmpxchg_r2r_opl_slow_def
    cmpxchg_r2r_opw_fast_def cmpxchg_r2r_opw_slow_def
  show ?thesis
  proof (cases rule: wide_cases [of pin d t])
    case gr64
    then show ?thesis using assms(1) wide eqs
        run [of 8 8 "\<lambda>rt. ucast (REG_VALUE rt (GP RAX D)) :: u32" "\<lambda>rt. ucast (REG_VALUE rt d)"]
      by (simp add: ins_cmpxchg_op_def Let_def ops cmpxchg_equal_def copy_eq cong: if_cong split del: if_split)
  next
    case gr32
    then show ?thesis using assms(1) wide eqs
        run [of 4 4 "\<lambda>rt. ucast (REG_VALUE rt (GP RAX D)) :: u32" "\<lambda>rt. ucast (REG_VALUE rt d)"]
      by (simp add: ins_cmpxchg_op_def Let_def ops cmpxchg_equal_def copy_eq cong: if_cong split del: if_split)
  next
    case gr16
    then show ?thesis using assms(1) wide eqs
        run [of 2 4 "\<lambda>rt. ucast (REG_VALUE rt (GP RAX W)) :: u16" "\<lambda>rt. ucast (REG_VALUE rt d)"]
      by (simp add: ins_cmpxchg_op_def Let_def ops cmpxchg_equal_def copy_eq cong: if_cong split del: if_split)
  qed (use assms(2) in \<open>simp_all add: wide_def\<close>)
qed

end

text \<open>The flow of a trace is the composition of the flows of its instructions.\<close>

fun trace_flow :: "(loc \<Rightarrow> loc set) list \<Rightarrow> loc \<Rightarrow> loc set" where
  "trace_flow [] l = {l}"
| "trace_flow (F # Fs) l = (\<Union>m \<in> trace_flow Fs l. F m)"

context tag_type
begin

text \<open>The union of the tags of a range.\<close>

lemma getn_loop:
  assumes s: "inv s0 A s" and "user a n"
  shows "case for_loop n (\<lambda>i (ts, s). bindE (tagmap_getb T s (a + of_nat i)) (\<lambda>t.
      if tag_is_empty T t then Inr (ts, s) else combine T ts t 0 s)) (cleared_val T, s) of
    Inl e \<Rightarrow> e \<in> failures S
  | Inr (t, s') \<Rightarrow> inv s0 A s' \<and> holds s' t (\<Union>i < n. A (bytes a i))"
  using assms(2)
proof (induction n)
  case 0
  then show ?case using s holds_cleared by simp
next
  case (Suc n)
  let ?body = "\<lambda>i (ts, s). bindE (tagmap_getb T s (a + of_nat i)) (\<lambda>t.
      if tag_is_empty T t then Inr (ts, s) else combine T ts t 0 s)"
  have IH: "case for_loop n ?body (cleared_val T, s) of Inl e \<Rightarrow> e \<in> failures S
      | Inr (t, s') \<Rightarrow> inv s0 A s' \<and> holds s' t (\<Union>i < n. A (bytes a i))"
    by (rule Suc.IH) (use Suc.prems in \<open>simp add: user_def\<close>)
  show ?case
  proof (cases "for_loop n ?body (cleared_val T, s)")
    case (Inl e)
    then show ?thesis using IH by simp
  next
    case (Inr p)
    obtain ts s1 where p: "p = (ts, s1)" by fastforce
    have s1: "inv s0 A s1" "holds s1 ts (\<Union>i < n. A (bytes a i))" using IH Inr p by auto
    let ?t = "look T s1 (bytes a n)"
    have g: "tagmap_getb T s1 (a + of_nat n) = Inr ?t"
      using userD [OF Suc.prems, of n] by (simp add: tagmap_getb_def getb_mem look_def bytes_def)
    have t: "holds s1 ?t (A (bytes a n))" by (rule holds_now [OF s1(1)])
    have U: "(\<Union>i < Suc n. A (bytes a i)) = (\<Union>i < n. A (bytes a i)) \<union> A (bytes a n)" by (auto simp: less_Suc_eq)
    show ?thesis
    proof (cases "tag_is_empty T ?t")
      case True
      then have "A (bytes a n) = {}" using t holds_cleared [of s1] empty_tag [OF True] by (simp add: holds_def)
      then show ?thesis using Inr p g s1 True U by simp
    next
      case False
      show ?thesis
      proof (cases "tag_combine T ts ?t 0 (tags s1)")
        case (Inl e)
        then show ?thesis using Inr p g False combine_fails [of "tags s1" ts ?t 0 e] s1 t
          by (auto simp: combine_def inv_def holds_def wf_dft_def)
      next
        case c: (Inr q)
        obtain z g' where q: "q = (z, g')" by fastforce
        have z: "sound S g' \<and> extends_tags S (tags s1) g' \<and> valid_tag S g' z \<and>
            taint S g' z = (\<Union>i < n. A (bytes a i)) \<union> A (bytes a n)"
          using combine_ok [of "tags s1" ts ?t 0 z g'] c q s1 t by (auto simp: inv_def holds_def wf_dft_def)
        then show ?thesis using Inr p g False c q s1(1) U
          by (auto simp: combine_def inv_def holds_def wf_dft_def taint_at_def extends_tags_def fun_eq_iff)
      qed
    qed
  qed
qed

lemma tagmap_getn_spec:
  assumes "inv s0 A s" "user a n"
  shows "case tagmap_getn T a n s of
    Inl e \<Rightarrow> e \<in> failures S
  | Inr (t, s') \<Rightarrow> inv s0 A s' \<and> holds s' t (\<Union>i < n. A (bytes a i))"
  unfolding tagmap_getn_def by (rule getn_loop [OF assms])

lemma flows_trace:
  assumes "length cs = length rs" "length Fs = length rs"
    and "\<And>i. i < length rs \<Longrightarrow> flows T S (run_calls (cs ! i) (rs ! i)) (Fs ! i)"
  shows "flows T S (run_trace cs rs) (trace_flow Fs)"
  using assms
proof (induction cs rs arbitrary: Fs rule: list_induct2')
  case 1
  then show ?case using flows_Inr by simp
next
  case (4 c cs r rs)
  then obtain F Fs' where Fs: "Fs = F # Fs'" by (cases Fs) auto
  have "flows T S (run_trace cs rs) (trace_flow Fs')"
  proof (rule "4.IH")
    show "flows T S (run_calls (cs ! i) (rs ! i)) (Fs' ! i)" if "i < length rs" for i
      using "4.prems"(3) [of "Suc i"] that Fs by simp
  qed (use "4.prems" Fs in simp_all)
  moreover have "flows T S (run_calls c r) F" using "4.prems"(3) [of 0] Fs by simp
  ultimately have "flows T S (\<lambda>s. bindE (run_calls c r s) (run_trace cs rs)) (\<lambda>l. \<Union>m \<in> trace_flow Fs' l. F m)"
    by (rule flows_seq [rotated])
  then show ?case by (simp add: Fs)
qed simp_all

end

end
