(* ===== verification/InsSafe.thy ===== *)
theory InsSafe
  imports InsSpecs
begin

text \<open>
  Every instruction only moves taint. Whatever the opcode and the operands, the calls that
  \<open>ins_inspect\<close> selects run without a null dereference when the accessed memory lies in the
  user space, keep the state well-formed, and leave at each location a union of taints that
  were in the state before: no taint comes from nowhere. The routines are treated one by
  one, the selection by its cases.
\<close>

definition moves_taint ::
  "('a, 's) tag_ops \<Rightarrow> ('a, 's) tag_sem \<Rightarrow> (('a, 's) dft \<Rightarrow> serror + ('a, 's) dft) \<Rightarrow> bool" where
  "moves_taint T S h \<longleftrightarrow> (\<exists>F. flows T S h F)"

named_theorems moving "routines that only move taint"

lemma moves_taintI: "flows T S h F \<Longrightarrow> moves_taint T S h"
  by (auto simp: moves_taint_def)

lemma user_less: "user a 128 \<Longrightarrow> n \<le> 128 \<Longrightarrow> user a n"
  by (simp add: user_def)

lemma user_one: "user a 128 \<Longrightarrow> \<not> outside a"
  by (erule user_0) simp

lemma user_slot: "user a 128 \<Longrightarrow> k + n \<le> 128 \<Longrightarrow> user (a + of_nat k) n"
  unfolding user_def
proof (intro allI impI)
  fix i assume u: "\<forall>i<128. \<not> outside (a + of_nat i)" and i: "k + n \<le> 128" "i < n"
  have "\<not> outside (a + of_nat (k + i))" by (rule u [rule_format]) (use i in simp)
  then show "\<not> outside (a + of_nat k + of_nat i)" by (simp add: add.assoc [symmetric])
qed

context tag_type
begin

section \<open>Composition\<close>

lemma moving_Inr [moving]: "moves_taint T S Inr"
  by (rule moves_taintI [OF flows_Inr])

lemma moving_Inr' [moving]: "moves_taint T S (\<lambda>s. Inr s)"
  by (rule moving_Inr)

lemma moving_seq: "moves_taint T S h \<Longrightarrow> moves_taint T S k \<Longrightarrow> moves_taint T S (\<lambda>s. bindE (h s) k)"
  unfolding moves_taint_def by (blast intro: flows_seq)

lemma moving_calls:
  assumes "\<And>c. c \<in> set cs \<Longrightarrow> moves_taint T S (c rt)"
  shows "moves_taint T S (run_calls cs rt)"
  using assms
proof (induction cs)
  case (Cons c cs)
  have "moves_taint T S (\<lambda>s. bindE (c rt s) (run_calls cs rt))" by (rule moving_seq) (simp_all add: Cons)
  moreover have "run_calls (c # cs) rt = (\<lambda>s. bindE (c rt s) (run_calls cs rt))" by (rule ext) simp
  ultimately show ?case by simp
next
  case Nil
  have "run_calls [] rt = Inr" by (rule ext) simp
  then show ?case by (simp add: moving_Inr)
qed

lemma moving_loop:
  assumes "\<And>i. i < n \<Longrightarrow> moves_taint T S (body i)"
  shows "moves_taint T S (for_loop n body)"
  using assms
proof (induction n)
  case (Suc n)
  have "moves_taint T S (\<lambda>s. bindE (for_loop n body s) (body n))" by (rule moving_seq) (simp_all add: Suc)
  moreover have "for_loop (Suc n) body = (\<lambda>s. bindE (for_loop n body s) (body n))" by (rule ext) simp
  ultimately show ?case by simp
next
  case 0
  have "for_loop 0 body = Inr" by (rule ext) simp
  then show ?case by (simp add: moving_Inr)
qed

lemma moving_if: "(b \<Longrightarrow> moves_taint T S h) \<Longrightarrow> (\<not> b \<Longrightarrow> moves_taint T S k) \<Longrightarrow> moves_taint T S (\<lambda>s. if b then h s else k s)"
  by (cases b) simp_all

section \<open>Routines\<close>

lemmas moving_routines = r2r_xfer_flows m2r_xfer_flows r2m_xfer_flows m2r_h_flows r2m_h_flows m2r_rev_flows r2m_rev_flows
  r2m_opw_rev_flows lea_flows xfer_byte_flows r2r_binary_flows r2r_binary_byte_flows m2r_binary_flows m2r_binary_byte_flows
  r2m_binary_flows r2m_binary_byte_flows r2r_unitary_byte_flows r2r_unitary_wide_flows m2r_unitary_wide_flows
  clear_reg_flows movsx_r2r_byte_flows movsx_r2r_flows movsx_m2r_flows movsx_m2r_byte_flows r2r_unitary_opw_flows
  xchg_r2r_byte_flows xchg_r2r_opw_flows xchg_m2r_flows xchg_m2r_byte_flows xadd_r2r_byte_flows xadd_r2r_opw_flows
  xadd_r2r_flows xadd_r2m_flows xadd_r2m_byte_flows xadd_r2m_opw_flows

lemmas moving_routine [moving] = moving_routines [THEN moves_taintI]

text \<open>A store of a tag that was just read, and one to an address that may lie outside.\<close>

lemma moving_put [moving]:
  "in_range l \<Longrightarrow> moves_taint T S (\<lambda>s. Inr (put T l (look T s m) s))"
  "in_range l \<Longrightarrow> moves_taint T S (\<lambda>s. Inr (put T l (cleared_val T) s))"
  by (rule moves_taintI [OF flows_one [where M = "{m}" and l = l]], simp add: inv_put holds_now)
    (rule moves_taintI [OF flows_one [where M = "{}" and l = l]], simp add: inv_put holds_cleared)

lemma put_outside: "\<not> in_range l \<Longrightarrow> put T l t s = s"
  by (cases l) (simp_all add: put_def tagmap_setb_def)

lemma moving_clrn [moving]: "moves_taint T S (tagmap_clrn T a n)"
proof -
  have "moves_taint T S (\<lambda>s. Inr (put T (Mem b) (cleared_val T) s))" for b
    by (cases "outside b") (simp_all add: moving put_outside)
  then show ?thesis
    unfolding tagmap_clrn_def [abs_def] tagmap_clrb_def as_put [where T = T] by (intro moving_loop)
qed

lemma moving_m2m [moving]:
  assumes "user dst n" "user src n"
  shows "moves_taint T S (m2m_xfer n T dst src)"
  unfolding m2m_xfer_def
proof (rule moving_loop)
  fix i assume "i < n"
  then have "\<not> outside (dst + of_nat i)" "\<not> outside (src + of_nat i)" using userD [OF assms(1)] userD [OF assms(2)] by auto
  then have "moves_taint T S (m2m_xfer_opb T (dst + of_nat i) (src + of_nat i))" by (simp add: moving)
  then show "moves_taint T S (\<lambda>s. bindE (tagmap_getb T s (src + of_nat i)) (\<lambda>t. Inr (tagmap_setb T (dst + of_nat i) t s)))"
    by (simp add: m2m_xfer_opb_def [abs_def])
qed

lemma moving_fill [moving]:
  assumes "0 < w"
  shows "moves_taint T S (r2m_fill w nbytes T tid dst eflags)"
proof (rule moves_taintI, rule flowsI)
  fix s assume s: "inv s (taint_at T S s) s"
  let ?A = "taint_at T S s" and ?a = "if EFLAGS_DF eflags = 0 then dst else dst - nbytes + 1"
  let ?q = "\<lambda>i. (bytes ?a i, if in_range (bytes ?a i) then {Reg tid DFT_REG_RAX (i mod w)} else {bytes ?a i})"
  let ?src = "RTAGS w s tid DFT_REG_RAX"
  have "post s (after ?A ([] @ map ?q [0..<unat nbytes]))
      (for_loop (unat nbytes) (\<lambda>i s. Inr (put T (bytes ?a i) (?src ! (i mod w)) s)) s)"
  proof (rule post_turns1)
    fix i s' assume s': "inv s (after ?A ([] @ map ?q [0..<i])) s'"
    have h: "holds s' (?src ! (i mod w)) (?A (Reg tid DFT_REG_RAX (i mod w)))"
      by (rule holds_saved [OF _ s']) (use assms s in \<open>simp add: holds_RTAGS\<close>)
    show "post s (after ?A (([] @ map ?q [0..<i]) @ [?q i])) (Inr (put T (bytes ?a i) (?src ! (i mod w)) s'))"
    proof (cases "in_range (bytes ?a i)")
      case True
      then show ?thesis using inv_put [OF s' h] by simp
    next
      case False
      have "after ?A ([] @ map ?q [0..<i]) (bytes ?a i) = ?A (bytes ?a i)"
        by (rule after_self) (use False in auto)
      then have "after ?A (([] @ map ?q [0..<i]) @ [?q i]) = after ?A ([] @ map ?q [0..<i])"
        using False by (simp only: after_snoc) (simp add: fun_upd_idem)
      then show ?thesis using s' False by (simp add: put_outside)
    qed
  qed (simp add: s)
  then show "post s (after ?A (map ?q [0..<unat nbytes])) (r2m_fill w nbytes T tid dst eflags s)"
    by (cases "EFLAGS_DF eflags = 0") (simp_all add: r2m_fill_def Let_def as_put [where T = T] bytes_def)
qed

lemma moving_clear_all [moving]: "moves_taint T S (r_clrl4 T tid)" "moves_taint T S (r_clrl2 T tid)"
proof -
  have w: "moves_taint T S (\<lambda>s. Inr (put T (Reg tid r i) (cleared_val T) s))" for r i by (simp add: moving)
  show "moves_taint T S (r_clrl4 T tid)" "moves_taint T S (r_clrl2 T tid)"
    unfolding r_clrl4_def r_clrl2_def as_put [where T = T]
    using moving_seq [OF w moving_seq [OF w moving_seq [OF w w]]] moving_seq [OF w w] by (auto intro!: moving_loop)
qed

lemma moving_conversions [moving]:
  "moves_taint T S (cbw tid)" "moves_taint T S (cwde tid)" "moves_taint T S (cdqe tid)"
  "moves_taint T S (cwd tid)" "moves_taint T S (cdq tid)" "moves_taint T S (cqo tid)"
proof -
  have w: "moves_taint T S (\<lambda>s. Inr (put T (Reg tid r i) (look T s l) s))" for r i l by (simp add: moving)
  show "moves_taint T S (cbw tid)" unfolding cbw_def [abs_def] as_put [where T = T] as_look [where T = T] by (rule w)
  show "moves_taint T S (cwde tid)" "moves_taint T S (cwd tid)"
    unfolding cwde_def [abs_def] cwd_def [abs_def] as_put [where T = T] as_look [where T = T] Let_def
    using moving_seq [OF w w] by auto
  show "moves_taint T S (cdqe tid)"
    unfolding cdqe_def as_put [where T = T] as_look [where T = T] by (rule moving_loop) (rule w)
  show "moves_taint T S (cdq tid)" "moves_taint T S (cqo tid)" by (simp_all add: cdq_def cqo_def moving)
qed

text \<open>The pieces of the routines that write arrays of tags.\<close>

lemma moving_write [moving]:
  "moves_taint T S (\<lambda>s. write_reg n tid r (RTAGS n s tid src) s)"
  "user a n \<Longrightarrow> moves_taint T S (\<lambda>s. write_mem n T a (RTAGS n s tid src) s)"
  "user a n \<Longrightarrow> moves_taint T S (\<lambda>s. bindE (MTAGS T n s a) (\<lambda>ts. write_reg n tid r ts s))"
proof -
  show "moves_taint T S (\<lambda>s. write_reg n tid r (RTAGS n s tid src) s)"
  proof (rule moves_taintI [OF flowsI])
    fix s assume s: "inv s (taint_at T S s) s"
    show "post s (after (taint_at T S s) ([] @ map (\<lambda>k. (Reg tid r k, {Reg tid src k})) [0..<n]))
        (write_reg n tid r (RTAGS n s tid src) s)"
      by (rule post_write_reg) (use s holds_RTAGS [OF s] in auto)
  qed
  assume u: "user a n"
  show "moves_taint T S (\<lambda>s. write_mem n T a (RTAGS n s tid src) s)"
  proof (rule moves_taintI [OF flowsI])
    fix s assume s: "inv s (taint_at T S s) s"
    show "post s (after (taint_at T S s) ([] @ map (\<lambda>k. (bytes a k, {Reg tid src k})) [0..<n]))
        (write_mem n T a (RTAGS n s tid src) s)"
      by (rule post_write_mem [OF _ _ u]) (use s holds_RTAGS [OF s] in auto)
  qed
  show "moves_taint T S (\<lambda>s. bindE (MTAGS T n s a) (\<lambda>ts. write_reg n tid r ts s))"
  proof (rule moves_taintI [OF flowsI])
    fix s assume s: "inv s (taint_at T S s) s"
    show "post s (after (taint_at T S s) ([] @ map (\<lambda>k. (Reg tid r k, {bytes a k})) [0..<n]))
        (bindE (MTAGS T n s a) (\<lambda>ts. write_reg n tid r ts s))"
    proof (rule post_MTAGS [OF s userD [OF u]])
      fix ts assume "length ts = n" "\<And>i. i < n \<Longrightarrow> holds s (ts ! i) (taint_at T S s (bytes a i))"
      then show "post s (after (taint_at T S s) ([] @ map (\<lambda>k. (Reg tid r k, {bytes a k})) [0..<n])) (write_reg n tid r ts s)"
        using s by (intro post_write_reg) simp_all
    qed simp
  qed
qed

lemma moving_restore [moving]:
  assumes "user src 128" "w \<le> 4"
  shows "moves_taint T S (m2r_restore w T tid src)"
  unfolding m2r_restore_def
proof (rule moving_loop, rule moving_if)
  fix i :: nat assume "i < 8"
  then have "slot_offset w i \<le> 7 * w" by (auto simp: slot_offset_def intro: mult_le_mono1)
  then have "user (src + of_nat (slot_offset w i)) w" using assms by (intro user_slot) auto
  then show "moves_taint T S (\<lambda>s. bindE (MTAGS T w s (src + of_nat (slot_offset w i)))
      (\<lambda>src_tag. write_reg w tid (DFT_REG_RDI + i) src_tag s))" by (rule moving_write(3))
qed (rule moving_Inr)

lemma moving_save [moving]:
  assumes "user dst 128" "w \<le> 4"
  shows "moves_taint T S (r2m_save w T tid dst)"
  unfolding r2m_save_def Let_def
proof (rule moving_loop, rule moving_if)
  fix k assume k: "k < DFT_REG_XMM0 - DFT_REG_RDI"
  let ?r = "DFT_REG_RDI + k"
  have "slot_offset w ?r \<le> 18 * w"
    using k by (auto simp: slot_offset_def DFT_REG_XMM0_def DFT_REG_RDI_def intro: mult_le_mono1)
  then have "user (dst + of_nat (slot_offset w ?r)) w" using assms by (intro user_slot) auto
  then show "moves_taint T S (\<lambda>s. write_mem w T (dst + of_nat (slot_offset w ?r)) (RTAGS w s tid ?r) s)"
    by (rule moving_write(2))
qed (rule moving_Inr)

section \<open>Instructions\<close>

lemma moving_predicated [moving]: "moves_taint T S (c rt) \<Longrightarrow> moves_taint T S (predicated c rt)"
  by (cases "executing rt") (simp_all add: predicated_def moving)

lemma moving_if_then:
  assumes "p rt = (\<lambda>s. bindE (h s) (\<lambda>s. Inr (b, s)))" "moves_taint T S h" "moves_taint T S (c rt)"
  shows "moves_taint T S (if_then_call p c rt)"
proof -
  have "if_then_call p c rt = (\<lambda>s. bindE (h s) (if b then c rt else Inr))"
    by (rule ext) (simp add: if_then_call_def assms(1) bindE_assoc)
  then show ?thesis using assms(2,3) by (simp add: moving_seq moving)
qed

lemma moving_cmpxchg [moving]:
  "moves_taint T S (if_then_call (\<lambda>rt. cmpxchg_r2r_fast m n (THREAD_ID rt) (v rt) (REG_INDX d) (w rt))
      (R2R_CALL (cmpxchg_r2r_slow m n) d s) rt)"
proof (rule moving_if_then)
  let ?t = "THREAD_ID rt"
  show "moves_taint T S (\<lambda>s. bindE (write_reg m ?t DFT_REG_HELPER1 (RTAGS m s ?t DFT_REG_RAX) s)
      (\<lambda>s. write_reg n ?t DFT_REG_RAX (RTAGS n s ?t (REG_INDX d)) s))" (is "moves_taint T S ?h")
    by (intro moving_seq moving_write)
  show "cmpxchg_r2r_fast m n ?t (v rt) (REG_INDX d) (w rt) = (\<lambda>s. bindE (?h s) (\<lambda>s. Inr (v rt = w rt, s)))"
    by (rule ext) (simp add: cmpxchg_r2r_fast_def bindE_assoc)
  show "moves_taint T S (R2R_CALL (cmpxchg_r2r_slow m n) d s rt)"
    unfolding R2R_CALL_def cmpxchg_r2r_slow_def [abs_def] Let_def by (intro moving_seq moving_write)
qed

lemma moving_cmpxchg_mem [moving]:
  assumes "user (MEMORYREAD_EA rt) n" "user (MEMORYWRITE_EA rt) n"
  shows "moves_taint T S (if_then_call (\<lambda>rt. cmpxchg_m2r_fast m n T (THREAD_ID rt) (v rt) (MEMORYREAD_EA rt) (w rt))
      (R2M_CALL (cmpxchg_r2m_slow m n T) s) rt)"
proof (rule moving_if_then)
  let ?t = "THREAD_ID rt" and ?a = "MEMORYREAD_EA rt"
  show "moves_taint T S (\<lambda>s. bindE (write_reg m ?t DFT_REG_HELPER1 (RTAGS m s ?t DFT_REG_RAX) s)
      (\<lambda>s. bindE (MTAGS T n s ?a) (\<lambda>ts. write_reg n ?t DFT_REG_RAX ts s)))" (is "moves_taint T S ?h")
    by (intro moving_seq moving_write assms)
  show "cmpxchg_m2r_fast m n T ?t (v rt) ?a (w rt) = (\<lambda>s. bindE (?h s) (\<lambda>s. Inr (v rt = w rt, s)))"
    by (rule ext) (simp add: cmpxchg_m2r_fast_def bindE_assoc)
  show "moves_taint T S (R2M_CALL (cmpxchg_r2m_slow m n T) s rt)"
    unfolding R2M_CALL_def cmpxchg_r2m_slow_def [abs_def] Let_def by (intro moving_seq moving_write assms)
qed

end

lemmas routine_defs = width_defs r2m_xfer_opl_rev_def r2m_xfer_opq_rev_def m2r_xfer_opw_rev_def m2r_xfer_opl_rev_def
  m2r_xfer_opq_rev_def r2m_xfer_opbn_def [abs_def] r2m_xfer_opwn_def [abs_def] r2m_xfer_opln_def [abs_def] r2m_xfer_opqn_def [abs_def]
  lea_opw_def lea_opl_def lea_opq_def
  r2r_unitary_opb_u_def [abs_def] r2r_unitary_opb_l_def [abs_def] r2r_unitary_opl_def [abs_def] r2r_unitary_opq_def [abs_def]
  m2r_unitary_opw_def [abs_def] m2r_unitary_opl_def [abs_def] m2r_unitary_opq_def [abs_def]
  movsx_r2r_opwb_u_def movsx_r2r_opwb_l_def movsx_r2r_oplb_u_def movsx_r2r_oplb_l_def movsx_r2r_opqb_u_def
  movsx_r2r_opqb_l_def movsx_r2r_oplw_def movsx_r2r_opqw_def movsx_r2r_opql_def movsx_m2r_opwb_def movsx_m2r_oplb_def
  movsx_m2r_opqb_def movsx_m2r_oplw_def movsx_m2r_opqw_def movsx_m2r_opql_def
  cmpxchg_r2r_opq_fast_def cmpxchg_r2r_opl_fast_def cmpxchg_r2r_opw_fast_def cmpxchg_r2r_opq_slow_def
  cmpxchg_r2r_opl_slow_def cmpxchg_r2r_opw_slow_def cmpxchg_m2r_opq_fast_def cmpxchg_m2r_opl_fast_def
  cmpxchg_m2r_opw_fast_def cmpxchg_r2m_opq_slow_def cmpxchg_r2m_opl_slow_def cmpxchg_r2m_opw_slow_def
  xchg_r2r_opb_ul_def xchg_r2r_opb_lu_def xchg_r2r_opb_u_def xchg_r2r_opb_l_def xchg_m2r_opb_u_def xchg_m2r_opb_l_def
  xchg_m2r_opw_def xchg_m2r_opl_def xchg_m2r_opq_def xadd_r2r_opb_ul_def xadd_r2r_opb_lu_def xadd_r2r_opb_u_def
  xadd_r2r_opb_l_def xadd_r2r_opl_def xadd_r2r_opq_def xadd_r2m_opb_u_def xadd_r2m_opb_l_def xadd_r2m_opl_def xadd_r2m_opq_def
  m2r_restore_opw_def m2r_restore_opl_def r2m_save_opw_def r2m_save_opl_def

context tag_type
begin

text \<open>The calls that an \<open>ins_*\<close> function inserts, for an access inside the user space.\<close>

definition safe_calls :: "rt \<Rightarrow> ('a, 's) call list \<Rightarrow> bool" where
  "safe_calls rt cs \<longleftrightarrow> (user (MEMORYREAD_EA rt) 128 \<longrightarrow> user (MEMORYWRITE_EA rt) 128 \<longrightarrow>
    (\<forall>c \<in> set cs. moves_taint T S (c rt)))"

lemma safe_calls_simps [simp]:
  "safe_calls rt []"
  "safe_calls rt (c # cs) \<longleftrightarrow> (user (MEMORYREAD_EA rt) 128 \<longrightarrow> user (MEMORYWRITE_EA rt) 128 \<longrightarrow> moves_taint T S (c rt)) \<and> safe_calls rt cs"
  "safe_calls rt (cs @ ds) \<longleftrightarrow> safe_calls rt cs \<and> safe_calls rt ds"
  by (auto simp: safe_calls_def)

lemma safe_xfer: "safe_calls rt (ins_xfer_op pin T ins)"
  by (simp add: ins_xfer_op_def Let_def call_defs routine_defs moving user_less user_one)

lemma safe_binary: "safe_calls rt (ins_binary_op pin T ins)"
  by (simp add: ins_binary_op_def Let_def call_defs routine_defs moving user_less user_one)

lemma m2r_unitary_byte:
  "m2r_unitary_opb T tid src s = bindE (tagmap_getb T s src) (\<lambda>x. unitary_byte T tid x s)"
proof (cases "tagmap_getb T s src")
  case (Inr x)
  show ?thesis
    using Inr by (cases "tag_combine T (RTAG s tid DFT_REG_RAX 0) x tid (tags s)")
      (auto simp: m2r_unitary_opb_def unitary_byte_def combine_def RTAGS_def upt_rec)
qed (simp add: m2r_unitary_opb_def)

lemma moving_m2r_unitary_byte [moving]:
  assumes "\<not> outside src"
  shows "moves_taint T S (m2r_unitary_opb T tid src)"
proof (rule moves_taintI [OF flowsI])
  fix s assume s: "inv s (taint_at T S s) s"
  show "post s (after (taint_at T S s) [(Reg tid DFT_REG_RAX 0, {Reg tid DFT_REG_RAX 0, Mem src}),
      (Reg tid DFT_REG_RAX 1, {Reg tid DFT_REG_RAX 1, Mem src})]) (m2r_unitary_opb T tid src s)"
    unfolding m2r_unitary_byte
    by (rule post_getb [OF s assms]) (use post_unitary_byte [OF s] in \<open>simp add: after_two\<close>)
qed

lemma safe_unitary: "safe_calls rt (ins_unitary_op pin T ins)"
  by (simp add: ins_unitary_op_def Let_def call_defs routine_defs moving user_less user_one)

lemma safe_clear: "safe_calls rt (ins_clear_op pin T ins)" "safe_calls rt (ins_clear_op_predicated pin T ins)"
  "safe_calls rt (ins_clear_op_l2 T)" "safe_calls rt (ins_clear_op_l4 T)"
proof -
  have b: "moves_taint T S (r_clrb_l T tid r)" "moves_taint T S (r_clrb_u T tid r)" for tid r
    unfolding r_clrb_l_def [abs_def] r_clrb_u_def [abs_def] as_put [where T = T] by (simp_all add: moving)
  show "safe_calls rt (ins_clear_op pin T ins)" "safe_calls rt (ins_clear_op_l2 T)" "safe_calls rt (ins_clear_op_l4 T)"
    by (simp_all add: ins_clear_op_def ins_clear_op_l2_def ins_clear_op_l4_def Let_def R_CALL_def CALL_def M_CLEAR_N_def
        routine_defs moving b)
  show "safe_calls rt (ins_clear_op_predicated pin T ins)"
    by (simp add: ins_clear_op_predicated_def Let_def moving_predicated R_CALL_def M_CLEAR_N_def moving b)
qed

lemma safe_mov: "safe_calls rt (ins_mov pin T ins)"
  by (simp add: ins_mov_def safe_clear safe_xfer)

lemma safe_predicated: "safe_calls rt (ins_xfer_op_predicated pin T ins)"
  by (simp add: ins_xfer_op_predicated_def Let_def R2R_CALL_P_def M2R_CALL_P_def moving_predicated
      R2R_CALL_def M2R_CALL_def routine_defs moving user_less)

lemma safe_stack: "safe_calls rt (ins_push_op pin T ins)" "safe_calls rt (ins_pop_op pin T ins)"
  by (simp_all add: ins_push_op_def ins_pop_op_def Let_def M2M_CALL_def moving_predicated
      R2M_CALL_def M2R_CALL_def M_CLEAR_N_def routine_defs moving user_less)

lemma safe_stos: "safe_calls rt (ins_stosb T ins)" "safe_calls rt (ins_stosw T ins)"
  "safe_calls rt (ins_stosd T ins)" "safe_calls rt (ins_stosq T ins)"
proof -
  have rep: "safe_calls rt (ins_stos_ins ins fn)"
    if "\<And>tid dst count eflags. moves_taint T S (fn tid dst count eflags)" for fn
    using that by (cases "rep_predicate (FIRST_REP_ITERATION rt)")
      (simp_all add: ins_stos_ins_def moving_predicated moving)
  show "safe_calls rt (ins_stosb T ins)" "safe_calls rt (ins_stosw T ins)"
    "safe_calls rt (ins_stosd T ins)" "safe_calls rt (ins_stosq T ins)"
    by (simp_all add: ins_stosb_def ins_stosw_def ins_stosd_def ins_stosq_def rep R2M_CALL_def routine_defs moving
        user_less user_one)
qed

lemma safe_moves: "safe_calls rt (ins_movlp T ins)" "safe_calls rt (ins_movhp T ins)"
  "safe_calls rt (ins_lea pin T ins)" "safe_calls rt (ins_movbe_op pin T ins)"
  by (simp_all add: ins_movlp_def ins_movhp_def ins_lea_def lea_one_def ins_movbe_op_def Let_def safe_clear
      R2R_CALL_def R2M_CALL_def M2R_CALL_def RR2R_CALL_def routine_defs moving user_less)

lemma safe_movsx: "safe_calls rt (ins_movsx_op pin T ins)" "safe_calls rt (ins_movsxd_op pin T ins)"
  by (simp_all add: ins_movsx_op_def ins_movsxd_op_def Let_def R2R_CALL_def M2R_CALL_def routine_defs moving user_less
      user_one safe_xfer)

lemma safe_cmpxchg: "safe_calls rt (ins_cmpxchg_op pin T ins)"
  by (simp add: ins_cmpxchg_op_def Let_def routine_defs moving user_less)

lemma safe_xchg: "safe_calls rt (ins_xchg_op pin T ins)" "safe_calls rt (ins_xadd_op pin T ins)"
  by (simp_all add: ins_xchg_op_def ins_xadd_op_def xchg_three_def Let_def R2R_CALL_def R2M_CALL_def M2R_CALL_def
      M2R_CALL_W_def routine_defs moving user_less user_one)

section \<open>The selection by opcode, and traces\<close>

lemma safe_if: "safe_calls rt x \<Longrightarrow> safe_calls rt y \<Longrightarrow> safe_calls rt (if b then x else y)"
  by simp

lemma safe_inspect: "safe_calls rt (ins_inspect pin T ins)"
  unfolding ins_inspect_def Let_def
  by (intro safe_if)
    (simp_all add: safe_binary safe_clear safe_unitary safe_mov safe_xfer safe_moves safe_predicated safe_movsx
      safe_cmpxchg safe_xchg safe_stos safe_stack CALL_def M2R_CALL_def M2R_CALL_P_def M2M_CALL_def M_CALL_R_def M_CALL_W_def
      M_CLEAR_N_def moving_predicated routine_defs moving user_less user_one)

lemma moving_inspect:
  assumes "user (MEMORYREAD_EA rt) 128" "user (MEMORYWRITE_EA rt) 128"
  shows "moves_taint T S (run_calls (ins_inspect pin T ins) rt)"
  using safe_inspect [of rt pin ins] assms by (intro moving_calls) (simp add: safe_calls_def)

lemma moving_trace:
  assumes "\<And>i. i < length cs \<Longrightarrow> i < length rs \<Longrightarrow> moves_taint T S (run_calls (cs ! i) (rs ! i))"
  shows "moves_taint T S (run_trace cs rs)"
  using assms
proof (induction cs rs rule: list_induct2')
  case (4 c cs r rs)
  have "moves_taint T S (run_trace cs rs)"
  proof (rule "4.IH")
    fix i assume "i < length cs" "i < length rs"
    then show "moves_taint T S (run_calls (cs ! i) (rs ! i))" using "4.prems" [of "Suc i"] by simp
  qed
  moreover have "moves_taint T S (run_calls c r)" using "4.prems" [of 0] by simp
  moreover have "run_trace (c # cs) (r # rs) = (\<lambda>s. bindE (run_calls c r s) (run_trace cs rs))" by (rule ext) simp
  ultimately show ?case by (simp add: moving_seq)
next
  case 1
  have "run_trace [] [] = Inr" by (rule ext) simp
  then show ?case by (simp add: moving_Inr)
next
  case (2 c cs)
  have "run_trace (c # cs) [] = Inr" by (rule ext) simp
  then show ?case by (simp add: moving_Inr)
next
  case (3 r rs)
  have "run_trace [] (r # rs) = Inr" by (rule ext) simp
  then show ?case by (simp add: moving_Inr)
qed

lemma moves_taint_result:
  assumes "moves_taint T S h" "wf_dft T S s"
  shows "case h s of Inl e \<Rightarrow> e \<in> failures S
    | Inr s' \<Rightarrow> wf_dft T S s' \<and> (\<forall>l. \<exists>M. taint_at T S s' l = (\<Union>m \<in> M. taint_at T S s m))"
proof -
  obtain F where "flows T S h F" using assms(1) by (auto simp: moves_taint_def)
  then have "case h s of Inl e \<Rightarrow> e \<in> failures S
      | Inr s' \<Rightarrow> wf_dft T S s' \<and> (\<forall>l. taint_at T S s' l = (\<Union>m \<in> F l. taint_at T S s m))"
    using assms(2) by (auto simp: flows_def)
  then show ?thesis by (auto split: sum.splits)
qed

end

end
