(* ===== verification/InsStray.thy ===== *)
theory InsStray
  imports InsSafe
begin

text \<open>
  Instructions whose addresses may lie anywhere. A read outside the user space follows a null
  pointer, a store there is dropped. So the calls that \<open>ins_inspect\<close> selects still only move
  taint, but they may fail on a null pointer. The statement is closed under the steps of a
  routine: \<open>clean X s\<close> says that every location of \<open>s\<close> has a taint of the family \<open>X\<close>, which is
  closed under unions, and each construct of the routines has a rule.
\<close>

definition union_closed :: "nat set set \<Rightarrow> bool" where
  "union_closed X \<longleftrightarrow> (\<forall>Y \<subseteq> X. \<Union>Y \<in> X)"

definition clean :: "('a, 's) tag_ops \<Rightarrow> ('a, 's) tag_sem \<Rightarrow> nat set set \<Rightarrow> ('a, 's) dft \<Rightarrow> bool" where
  "clean T S X s \<longleftrightarrow> wf_dft T S s \<and> (\<forall>l. taint_at T S s l \<in> X)"

definition strays :: "('a, 's) tag_ops \<Rightarrow> ('a, 's) tag_sem \<Rightarrow> (('a, 's) dft \<Rightarrow> serror + ('a, 's) dft) \<Rightarrow> bool" where
  "strays T S h \<longleftrightarrow> (\<forall>X s. union_closed X \<longrightarrow> clean T S X s \<longrightarrow> (case h s of
      Inl e \<Rightarrow> e = NullDeref \<or> e \<in> failures S
    | Inr s' \<Rightarrow> clean T S X s'))"

named_theorems straying "routines that only move taint, or fail on a null pointer"

lemma union_closed_two: "union_closed X \<Longrightarrow> A \<in> X \<Longrightarrow> B \<in> X \<Longrightarrow> A \<union> B \<in> X"
  by (drule union_closed_def [THEN iffD1, rule_format, of X "{A, B}"]) simp_all

lemma union_closed_empty: "union_closed X \<Longrightarrow> {} \<in> X"
  by (drule union_closed_def [THEN iffD1, rule_format, of X "{}"]) simp_all

text \<open>The taints that are unions of those of a state.\<close>

lemma union_closed_unions: "union_closed {\<Union>m \<in> M. f m | M. True}"
  unfolding union_closed_def
proof (intro allI impI)
  fix Y assume Y: "Y \<subseteq> {\<Union>m \<in> M. f m | M. True}"
  have "\<Union>Y \<subseteq> (\<Union>m \<in> {m. f m \<subseteq> \<Union>Y}. f m)"
  proof
    fix x assume "x \<in> \<Union>Y"
    then obtain y where y: "y \<in> Y" "x \<in> y" by blast
    obtain M where M: "y = (\<Union>m \<in> M. f m)" using y(1) Y by blast
    with y(2) obtain m where m: "m \<in> M" "x \<in> f m" by blast
    have "f m \<subseteq> \<Union>Y" using m(1) M y(1) by blast
    then show "x \<in> (\<Union>m \<in> {m. f m \<subseteq> \<Union>Y}. f m)" using m(2) by blast
  qed
  then have "\<Union>Y = (\<Union>m \<in> {m. f m \<subseteq> \<Union>Y}. f m)" by blast
  then show "\<Union>Y \<in> {\<Union>m \<in> M. f m | M. True}" by blast
qed

context tag_type
begin

section \<open>Rules for the constructs of the routines\<close>

text \<open>
  \<open>held X g t\<close>: the tag \<open>t\<close> is valid in the state \<open>g\<close> of the tag implementation, with a taint
  of \<open>X\<close>. \<open>fine X g m\<close>: the outcome \<open>m\<close> is clean, and tags held in \<open>g\<close> are still held in it.
\<close>

definition held :: "nat set set \<Rightarrow> 's \<Rightarrow> 'a \<Rightarrow> bool" where
  "held X g t \<longleftrightarrow> union_closed X \<and> valid_tag S g t \<and> taint S g t \<in> X"

definition at :: "nat set set \<Rightarrow> 's \<Rightarrow> ('a, 's) dft \<Rightarrow> bool" where
  "at X g s \<longleftrightarrow> union_closed X \<and> clean T S X s \<and> extends_tags S g (tags s)"

definition fine :: "nat set set \<Rightarrow> 's \<Rightarrow> serror + ('a, 's) dft \<Rightarrow> bool" where
  "fine X g m \<longleftrightarrow> (case m of Inl e \<Rightarrow> e = NullDeref \<or> e \<in> failures S | Inr s \<Rightarrow> at X g s)"

lemma straysI: "(\<And>X s. at X (tags s) s \<Longrightarrow> fine X (tags s) (h s)) \<Longrightarrow> strays T S h"
  by (force simp: strays_def fine_def at_def split: sum.splits)

lemma at_self: "at X g s \<Longrightarrow> at X (tags s) s"
  by (simp add: at_def)

lemma held_now: "at X g s \<Longrightarrow> held X (tags s) (look T s l)"
  by (simp add: at_def held_def clean_def wf_dft_def taint_at_def)

lemma held_RTAG: "at X g s \<Longrightarrow> held X (tags s) (RTAG s tid r i)"
  unfolding as_look [where T = T] by (rule held_now)

lemma held_RTAGS: "at X g s \<Longrightarrow> i < n \<Longrightarrow> held X (tags s) (RTAGS n s tid r ! i)"
  by (simp add: RTAGS_def held_RTAG)

lemma held_later: "held X g t \<Longrightarrow> at X g s \<Longrightarrow> held X (tags s) t"
  by (simp add: held_def at_def extends_tags_def)

lemma held_cleared: "at X g s \<Longrightarrow> held X (tags s) (cleared_val T)"
  by (simp add: at_def held_def cleared union_closed_empty)

lemma at_put:
  assumes "at X g s" "held X (tags s) t"
  shows "at X g (put T l t s)"
proof (cases "in_range l")
  case True
  show ?thesis
    using assms look_put [OF True, of t s] by (simp add: at_def clean_def wf_dft_def taint_at_def held_def)
qed (simp add: put_outside assms(1))

lemma at_set: "at X g s \<Longrightarrow> held X (tags s) t \<Longrightarrow> at X g (set_RTAG tid r i t s)"
  "at X g s \<Longrightarrow> held X (tags s) t \<Longrightarrow> at X g (tagmap_setb T a t s)"
  unfolding as_put [where T = T] by (rule at_put; assumption)+

lemma fine_Inr [simp]: "fine X g (Inr s) = at X g s"
  by (simp add: fine_def)

lemma fine_bind: "fine X g m \<Longrightarrow> (\<And>s. at X g s \<Longrightarrow> fine X g (f s)) \<Longrightarrow> fine X g (bindE m f)"
  by (cases m) (simp_all add: fine_def)

lemma fine_loop:
  assumes "at X g s" "\<And>i s. i < n \<Longrightarrow> at X g s \<Longrightarrow> fine X g (body i s)"
  shows "fine X g (for_loop n body s)"
  using assms(2) by (induction n) (auto intro: assms(1) fine_bind)

lemma fine_getb:
  assumes "at X g s" "\<And>t. held X (tags s) t \<Longrightarrow> fine X g (f t)"
  shows "fine X g (bindE (tagmap_getb T s a) f)"
  using assms(2) [OF held_now [OF assms(1), of "Mem a"]] by (simp add: tagmap_getb_def getb_mem look_def fine_def)

lemma fine_MTAGS:
  assumes s: "at X g s" and f: "\<And>ts. length ts = n \<Longrightarrow> (\<And>i. i < n \<Longrightarrow> held X (tags s) (ts ! i)) \<Longrightarrow> fine X g (f ts)"
  shows "fine X g (bindE (MTAGS T n s a) f)"
proof -
  have "MTAGS T n s a = Inl NullDeref \<or>
      (\<exists>ts. MTAGS T n s a = Inr ts \<and> length ts = n \<and> (\<forall>i < n. held X (tags s) (ts ! i)))"
  proof (induction n)
    case (Suc n)
    have "held X (tags s) (look T s (bytes a n))" by (rule held_now [OF s])
    then show ?case using Suc
      by (auto simp: tagmap_getb_def getb_mem look_def bytes_def nth_append less_Suc_eq)
  qed simp
  then show ?thesis using f by (auto simp: fine_def)
qed

lemma fine_combine:
  assumes "at X g s" "held X (tags s) x" "held X (tags s) y"
    and "\<And>t s'. at X g s' \<Longrightarrow> at X (tags s) s' \<Longrightarrow> held X (tags s') t \<Longrightarrow> fine X g (f (t, s'))"
  shows "fine X g (bindE (combine T x y tid s) f)"
proof (cases "tag_combine T x y tid (tags s)")
  case (Inl e)
  then show ?thesis
    using combine_fails [of "tags s" x y tid e] assms(1-3)
    by (auto simp: combine_def fine_def at_def held_def clean_def wf_dft_def)
next
  case (Inr p)
  obtain t g' where p: "p = (t, g')" by fastforce
  have g': "sound S g' \<and> extends_tags S (tags s) g' \<and> valid_tag S g' t \<and> taint S g' t = taint S (tags s) x \<union> taint S (tags s) y"
    using combine_ok [of "tags s" x y tid t g'] Inr p assms(1-3) by (auto simp: at_def held_def clean_def wf_dft_def)
  let ?s = "s\<lparr>tags := g'\<rparr>"
  have c: "clean T S X ?s"
    using assms(1) g' by (simp add: at_def clean_def wf_dft_def taint_at_def extends_tags_def)
  have "fine X g (f (t, ?s))"
  proof (rule assms(4))
    show "at X g ?s" using assms(1) c g' extends_tags_trans [of S g "tags s" g'] by (simp add: at_def)
    show "at X (tags s) ?s" using assms(1) c g' by (simp add: at_def)
    show "held X (tags ?s) t" using assms(2,3) g' by (simp add: held_def union_closed_two)
  qed
  then show ?thesis by (simp add: combine_def Inr p)
qed

lemma fine_write_reg:
  assumes "at X g s" "\<And>i. i < n \<Longrightarrow> held X g (ts ! i)"
  shows "fine X g (write_reg n tid r ts s)"
  unfolding write_reg_def
  by (rule fine_loop [OF assms(1)]) (auto intro: at_set held_later assms(2))

lemma fine_write_mem:
  assumes "at X g s" "\<And>i. i < n \<Longrightarrow> held X g (ts ! i)"
  shows "fine X g (write_mem n T a ts s)"
  unfolding write_mem_def
  by (rule fine_loop [OF assms(1)]) (auto intro: at_set held_later assms(2))

section \<open>Composition\<close>

lemma straying_flow:
  assumes "moves_taint T S h"
  shows "strays T S h"
  unfolding strays_def
proof (intro allI impI)
  fix X s assume X: "union_closed X" and c: "clean T S X s"
  obtain F where "flows T S h F" using assms by (auto simp: moves_taint_def)
  then have "case h s of Inl e \<Rightarrow> e \<in> failures S
      | Inr s' \<Rightarrow> wf_dft T S s' \<and> (\<forall>l. taint_at T S s' l = (\<Union>m \<in> F l. taint_at T S s m))"
    using c by (simp add: flows_def clean_def)
  moreover have "(\<Union>m \<in> F l. taint_at T S s m) \<in> X" for l
    by (rule X [unfolded union_closed_def, rule_format]) (use c in \<open>auto simp: clean_def\<close>)
  ultimately show "case h s of Inl e \<Rightarrow> e = NullDeref \<or> e \<in> failures S | Inr s' \<Rightarrow> clean T S X s'"
    by (auto simp: clean_def split: sum.splits)
qed

lemmas straying_moving [straying] = moving_Inr [THEN straying_flow] r2r_xfer_flows [THEN moves_taintI, THEN straying_flow]
  lea_flows [THEN moves_taintI, THEN straying_flow] xfer_byte_flows(1-4) [THEN moves_taintI, THEN straying_flow]
  r2r_binary_flows [THEN moves_taintI, THEN straying_flow] r2r_binary_byte_flows [THEN moves_taintI, THEN straying_flow]
  r2r_unitary_byte_flows [THEN moves_taintI, THEN straying_flow] r2r_unitary_wide_flows [THEN moves_taintI, THEN straying_flow]
  r2r_unitary_opw_flows [THEN moves_taintI, THEN straying_flow] clear_reg_flows [THEN moves_taintI, THEN straying_flow]
  movsx_r2r_byte_flows [THEN moves_taintI, THEN straying_flow] movsx_r2r_flows [THEN moves_taintI, THEN straying_flow]
  xchg_r2r_byte_flows [THEN moves_taintI, THEN straying_flow] xchg_r2r_opw_flows [THEN moves_taintI, THEN straying_flow]
  xadd_r2r_byte_flows [THEN moves_taintI, THEN straying_flow] xadd_r2r_opw_flows [THEN moves_taintI, THEN straying_flow]
  xadd_r2r_flows [THEN moves_taintI, THEN straying_flow] moving_put [THEN straying_flow] moving_clrn [THEN straying_flow]
  moving_fill [THEN straying_flow] moving_clear_all [THEN straying_flow] moving_conversions [THEN straying_flow]
  moving_cmpxchg [THEN straying_flow]

lemma straying_seq:
  assumes "strays T S h" "strays T S k"
  shows "strays T S (\<lambda>s. bindE (h s) k)"
  unfolding strays_def
proof (intro allI impI)
  fix X s assume X: "union_closed X" and c: "clean T S X s"
  note h = assms(1) [unfolded strays_def, rule_format, OF X c]
  show "case bindE (h s) k of Inl e \<Rightarrow> e = NullDeref \<or> e \<in> failures S | Inr s' \<Rightarrow> clean T S X s'"
  proof (cases "h s")
    case (Inr s')
    then show ?thesis using assms(2) [unfolded strays_def, rule_format, OF X, of s'] h by simp
  qed (use h in simp)
qed

lemma straying_loop:
  assumes "\<And>i. i < n \<Longrightarrow> strays T S (body i)"
  shows "strays T S (for_loop n body)"
  using assms
proof (induction n)
  case (Suc n)
  have "strays T S (\<lambda>s. bindE (for_loop n body s) (body n))" by (rule straying_seq) (simp_all add: Suc)
  moreover have "for_loop (Suc n) body = (\<lambda>s. bindE (for_loop n body s) (body n))" by (rule ext) simp
  ultimately show ?case by simp
qed (simp add: strays_def)

lemma straying_if: "(b \<Longrightarrow> strays T S h) \<Longrightarrow> (\<not> b \<Longrightarrow> strays T S k) \<Longrightarrow> strays T S (\<lambda>s. if b then h s else k s)"
  by (cases b) simp_all

lemma straying_calls:
  assumes "\<And>c. c \<in> set cs \<Longrightarrow> strays T S (c rt)"
  shows "strays T S (run_calls cs rt)"
  using assms
proof (induction cs)
  case (Cons c cs)
  have "strays T S (\<lambda>s. bindE (c rt s) (run_calls cs rt))" by (rule straying_seq) (simp_all add: Cons)
  moreover have "run_calls (c # cs) rt = (\<lambda>s. bindE (c rt s) (run_calls cs rt))" by (rule ext) simp
  ultimately show ?case by simp
qed (simp add: strays_def)

lemma straying_trace:
  assumes "\<And>i. i < length cs \<Longrightarrow> i < length rs \<Longrightarrow> strays T S (run_calls (cs ! i) (rs ! i))"
  shows "strays T S (run_trace cs rs)"
  using assms
proof (induction cs rs rule: list_induct2')
  case (4 c cs r rs)
  have "strays T S (run_trace cs rs)"
  proof (rule "4.IH")
    fix i assume "i < length cs" "i < length rs"
    then show "strays T S (run_calls (cs ! i) (rs ! i))" using "4.prems" [of "Suc i"] by simp
  qed
  moreover have "strays T S (run_calls c r)" using "4.prems" [of 0] by simp
  moreover have "run_trace (c # cs) (r # rs) = (\<lambda>s. bindE (run_calls c r s) (run_trace cs rs))" by (rule ext) simp
  ultimately show ?case by (simp add: straying_seq)
qed (simp_all add: strays_def)

lemma strays_result:
  assumes "strays T S h" "wf_dft T S s"
  shows "case h s of Inl e \<Rightarrow> e = NullDeref \<or> e \<in> failures S
    | Inr s' \<Rightarrow> wf_dft T S s' \<and> (\<forall>l. \<exists>M. taint_at T S s' l = (\<Union>m \<in> M. taint_at T S s m))"
proof -
  let ?X = "{\<Union>m \<in> M. taint_at T S s m | M. True}"
  have "taint_at T S s l \<in> ?X" for l by (rule CollectI) (rule exI [of _ "{l}"], simp)
  then have "clean T S ?X s" using assms(2) by (simp add: clean_def)
  from assms(1) [unfolded strays_def, rule_format, OF union_closed_unions this]
  show ?thesis by (auto simp: clean_def split: sum.splits)
qed

section \<open>Routines that access memory\<close>

lemmas fine_rules = fine_loop fine_getb fine_MTAGS fine_combine at_set held_RTAG held_RTAGS fine_Inr [THEN iffD2]

lemma straying_copies [straying]:
  "strays T S (m2r_xfer n T tid dst a)" "strays T S (m2r_xfer_opq_h T tid dst a)" "strays T S (m2r_xfer_rev n T tid dst a)"
  "strays T S (m2r_xfer_opb_u T tid dst a)" "strays T S (m2r_xfer_opb_l T tid dst a)"
  "strays T S (r2m_xfer n T tid a src)" "strays T S (r2m_xfer_opq_h T tid a src)" "strays T S (r2m_xfer_rev n T tid a src)"
  "strays T S (r2m_xfer_opb_u T tid a src)" "strays T S (r2m_xfer_opb_l T tid a src)"
  "strays T S (r2m_xfer_opw_rev T tid a src)"
  "strays T S (m2m_xfer n T b a)" "strays T S (m2m_xfer_opb T b a)"
  unfolding m2r_xfer_def m2r_xfer_opq_h_def m2r_xfer_rev_def m2r_xfer_opb_u_def [abs_def] m2r_xfer_opb_l_def [abs_def]
    r2m_xfer_def r2m_xfer_opq_h_def r2m_xfer_rev_def r2m_xfer_opb_u_def [abs_def] r2m_xfer_opb_l_def [abs_def]
    r2m_xfer_opw_rev_def [abs_def] m2m_xfer_def m2m_xfer_opb_def [abs_def] Let_def
  by (rule straysI, (assumption | rule fine_rules | simp only: prod.case)+)+

lemma straying_merges [straying]:
  "strays T S (m2r_binary n T tid dst a)" "strays T S (m2r_binary_byte i T tid dst a)"
  "strays T S (r2m_binary n T tid a src)" "strays T S (r2m_binary_byte j T tid a src)"
  unfolding m2r_binary_def m2r_binary_byte_def [abs_def] r2m_binary_def r2m_binary_byte_def [abs_def] Let_def
  by (rule straysI, (assumption | rule fine_rules | simp only: prod.case)+)+

text \<open>Routines that hold a tag while they write: what is held stays so.\<close>

lemma straying_products [straying]:
  "strays T S (\<lambda>s. bindE (MTAGS T n s a) (\<lambda>ts. unitary_wide n T tid ts s))"
  "strays T S (m2r_unitary_opb T tid a)"
proof -
  show "strays T S (m2r_unitary_opb T tid a)"
    unfolding m2r_unitary_byte [abs_def] unitary_byte_def Let_def
  proof (rule straysI, rule fine_getb, assumption, rule fine_combine, assumption, rule held_RTAG, assumption, assumption)
    fix X s x t s' assume s: "at X (tags s) s" and x: "held X (tags s) x" and s': "at X (tags s) s'" and t: "held X (tags s') t"
    have u: "at X (tags s) (set_RTAG tid DFT_REG_RAX 0 t s')" using s' t by (rule at_set)
    show "fine X (tags s) (case (t, s') of (t, s) \<Rightarrow>
        bindE (combine T (RTAG (set_RTAG tid DFT_REG_RAX 0 t s) tid DFT_REG_RAX 1) x tid (set_RTAG tid DFT_REG_RAX 0 t s))
          (\<lambda>(t, s). Inr (set_RTAG tid DFT_REG_RAX 1 t s)))"
      unfolding prod.case by (rule fine_combine [OF u held_RTAG [OF u] held_later [OF x u]]) (simp add: at_set)
  qed
  show "strays T S (\<lambda>s. bindE (MTAGS T n s a) (\<lambda>ts. unitary_wide n T tid ts s))"
    unfolding unitary_wide_def Let_def
  proof (rule straysI, rule fine_MTAGS, assumption, rule fine_loop, assumption)
    fix X s ts i s'
    assume s: "at X (tags s) s" and ts: "\<And>i. i < n \<Longrightarrow> held X (tags s) (ts ! i)" and i: "i < n" and s': "at X (tags s) s'"
    have r: "held X (tags s) (RTAGS n s tid r ! i)" for r by (rule held_RTAGS [OF s i])
    note later = held_later [OF r] held_later [OF ts [OF i]]
    show "fine X (tags s) (bindE (combine T (RTAGS n s tid DFT_REG_RDX ! i) (ts ! i) tid s') (\<lambda>(t, s').
        bindE (combine T (RTAGS n s tid DFT_REG_RAX ! i) (ts ! i) tid (set_RTAG tid DFT_REG_RDX i t s'))
          (\<lambda>(t, s). Inr (set_RTAG tid DFT_REG_RAX i t s))))"
    proof (rule fine_combine [OF s' later(1) [OF s'] later(2) [OF s']], unfold prod.case)
      fix t s1 assume "at X (tags s) s1" "held X (tags s1) t"
      then have u: "at X (tags s) (set_RTAG tid DFT_REG_RDX i t s1)" by (rule at_set)
      show "fine X (tags s) (bindE (combine T (RTAGS n s tid DFT_REG_RAX ! i) (ts ! i) tid (set_RTAG tid DFT_REG_RDX i t s1))
          (\<lambda>(t, s). Inr (set_RTAG tid DFT_REG_RAX i t s)))"
        by (rule fine_combine [OF u later(1) [OF u] later(2) [OF u]]) (simp add: at_set)
    qed
  qed
qed

lemma straying_extensions [straying]:
  "strays T S (movsx_m2r_byte n T tid dst a)" "0 < w \<Longrightarrow> strays T S (movsx_m2r n w T tid dst a)"
proof -
  show "strays T S (movsx_m2r_byte n T tid dst a)"
    unfolding movsx_m2r_byte_def [abs_def]
    by (rule straysI, rule fine_getb, assumption, rule fine_loop, assumption) (auto intro: at_set held_later)
  assume w: "0 < w"
  show "strays T S (movsx_m2r n w T tid dst a)"
    unfolding movsx_m2r_def [abs_def]
  proof (rule straysI, rule fine_MTAGS, assumption, rule fine_loop, assumption)
    fix X s ts i s' assume ts: "\<And>i. i < w \<Longrightarrow> held X (tags s) (ts ! i)" and s': "at X (tags s) s'"
    have "held X (tags s) (ts ! (i mod w))" by (rule ts) (use w in simp)
    then show "fine X (tags s) (Inr (set_RTAG tid dst i (ts ! (i mod w)) s'))" using s' by (simp add: at_set held_later)
  qed
qed

lemma straying_writes [straying]:
  "strays T S (\<lambda>s. write_reg n tid r (RTAGS n s tid src) s)"
  "strays T S (\<lambda>s. write_mem n T a (RTAGS n s tid src) s)"
  "strays T S (\<lambda>s. bindE (MTAGS T n s a) (\<lambda>ts. write_reg n tid r ts s))"
  by (intro straysI fine_write_reg fine_write_mem fine_MTAGS; (assumption | rule held_RTAGS | blast)+)+

lemma straying_exchanges [straying]:
  "strays T S (xchg_m2r_byte i T tid dst a)" "strays T S (xchg_m2r n T tid dst a)"
proof -
  show "strays T S (xchg_m2r_byte i T tid dst a)"
    unfolding xchg_m2r_byte_def [abs_def] Let_def
  proof (rule straysI, rule fine_getb, assumption)
    fix X s t assume s: "at X (tags s) s" and t: "held X (tags s) t"
    have "at X (tags s) (set_RTAG tid dst i t s)" using s t by (rule at_set)
    then show "fine X (tags s) (Inr (tagmap_setb T a (RTAG s tid dst i) (set_RTAG tid dst i t s)))"
      using held_RTAG [OF s] by (simp add: at_set held_later)
  qed
  show "strays T S (xchg_m2r n T tid dst a)"
    unfolding xchg_m2r_def [abs_def] Let_def
  proof (rule straysI, rule fine_MTAGS, assumption, rule fine_bind)
    fix X s ts assume s: "at X (tags s) s" and ts: "\<And>i. i < n \<Longrightarrow> held X (tags s) (ts ! i)"
    show "fine X (tags s) (write_reg n tid dst ts s)" by (rule fine_write_reg [OF s ts])
    show "fine X (tags s) (write_mem n T a (RTAGS n s tid dst) s')" if "at X (tags s) s'" for s'
      by (rule fine_write_mem [OF that held_RTAGS [OF s]])
  qed
qed

lemma straying_adds [straying]:
  "strays T S (xadd_r2m_byte j T tid a src)" "strays T S (xadd_r2m_opw T tid a src)" "strays T S (xadd_r2m n T tid a src)"
proof -
  show "strays T S (xadd_r2m_byte j T tid a src)"
    unfolding xadd_r2m_byte_def [abs_def] Let_def
  proof (rule straysI, rule fine_getb, assumption)
    fix X s t assume s: "at X (tags s) s" and t: "held X (tags s) t"
    have s': "at X (tags s) (set_RTAG tid src j t s)" using s t by (rule at_set)
    show "fine X (tags s) (bindE (combine T t (RTAG s tid src j) tid (set_RTAG tid src j t s))
        (\<lambda>(t, s). Inr (tagmap_setb T a t s)))"
      by (rule fine_combine [OF s' held_later [OF t s'] held_later [OF held_RTAG [OF s] s']]) (simp add: at_set)
  qed
  show "strays T S (xadd_r2m_opw T tid a src)"
    unfolding xadd_r2m_opw_def [abs_def] Let_def
  proof (rule straysI, rule fine_MTAGS, assumption, rule fine_bind)
    fix X s ts assume s: "at X (tags s) s" and ts: "\<And>i. i < 2 \<Longrightarrow> held X (tags s) (ts ! i)"
    show "fine X (tags s) (write_reg 2 tid src ts s)" by (rule fine_write_reg [OF s ts])
    show "fine X (tags s) (for_loop 2 (\<lambda>i s1. bindE (combine T (ts ! i) (RTAGS 2 s tid src ! i) tid s1)
        (\<lambda>(t, s). Inr (tagmap_setb T (a + of_nat i) t s))) s')" if "at X (tags s) s'" for s'
    proof (rule fine_loop [OF that])
      fix i :: nat and s1 assume "i < 2" and s1: "at X (tags s) s1"
      then show "fine X (tags s) (bindE (combine T (ts ! i) (RTAGS 2 s tid src ! i) tid s1)
          (\<lambda>(t, s). Inr (tagmap_setb T (a + of_nat i) t s)))"
        by (intro fine_combine [OF s1 held_later [OF ts s1] held_later [OF held_RTAGS [OF s] s1]]) (simp_all add: at_set)
    qed
  qed
  show "strays T S (xadd_r2m n T tid a src)"
    unfolding xadd_r2m_def [abs_def] Let_def
  proof (rule straysI, rule fine_MTAGS, assumption, rule fine_loop, assumption)
    fix X s ts i s1 assume s: "at X (tags s) s" and ts: "\<And>i. i < n \<Longrightarrow> held X (tags s) (ts ! i)" and i: "i < n" and s1: "at X (tags s) s1"
    show "fine X (tags s) (bindE (combine T (ts ! i) (RTAGS n s tid src ! i) tid s1)
        (\<lambda>(t, s). Inr (set_RTAG tid src i (ts ! i) (tagmap_setb T (a + of_nat i) t s))))"
    proof (rule fine_combine [OF s1 held_later [OF ts [OF i] s1] held_later [OF held_RTAGS [OF s i] s1]], unfold prod.case fine_Inr)
      fix t s2 assume s2: "at X (tags s) s2" "held X (tags s2) t"
      then have u: "at X (tags s) (tagmap_setb T (a + of_nat i) t s2)" by (rule at_set)
      show "at X (tags s) (set_RTAG tid src i (ts ! i) (tagmap_setb T (a + of_nat i) t s2))"
        using u held_later [OF ts [OF i] u] by (rule at_set)
    qed
  qed
qed

lemma straying_restore [straying]: "strays T S (m2r_restore w T tid a)" "strays T S (r2m_save w T tid a)"
  unfolding m2r_restore_def r2m_save_def Let_def
  by (rule straying_loop, rule straying_if, rule straying_flow [OF moving_Inr'], rule straying_writes)+

lemma straying_if_then:
  assumes "p rt = (\<lambda>s. bindE (h s) (\<lambda>s. Inr (b, s)))" "strays T S h" "strays T S (c rt)"
  shows "strays T S (if_then_call p c rt)"
proof -
  have "if_then_call p c rt = (\<lambda>s. bindE (h s) (if b then c rt else Inr))"
    by (rule ext) (simp add: if_then_call_def assms(1) bindE_assoc)
  then show ?thesis using assms(2,3) by (simp add: straying_seq straying)
qed

lemma straying_cmpxchg_mem [straying]:
  "strays T S (if_then_call (\<lambda>rt. cmpxchg_m2r_fast m n T (THREAD_ID rt) (v rt) (MEMORYREAD_EA rt) (w rt))
      (R2M_CALL (cmpxchg_r2m_slow m n T) s) rt)"
proof (rule straying_if_then)
  let ?t = "THREAD_ID rt" and ?a = "MEMORYREAD_EA rt"
  show "strays T S (\<lambda>s. bindE (write_reg m ?t DFT_REG_HELPER1 (RTAGS m s ?t DFT_REG_RAX) s)
      (\<lambda>s. bindE (MTAGS T n s ?a) (\<lambda>ts. write_reg n ?t DFT_REG_RAX ts s)))" (is "strays T S ?h")
    by (intro straying_seq straying_writes)
  show "cmpxchg_m2r_fast m n T ?t (v rt) ?a (w rt) = (\<lambda>s. bindE (?h s) (\<lambda>s. Inr (v rt = w rt, s)))"
    by (rule ext) (simp add: cmpxchg_m2r_fast_def bindE_assoc)
  show "strays T S (R2M_CALL (cmpxchg_r2m_slow m n T) s rt)"
    unfolding R2M_CALL_def cmpxchg_r2m_slow_def [abs_def] Let_def by (intro straying_seq straying_writes)
qed

lemma straying_predicated [straying]: "strays T S (c rt) \<Longrightarrow> strays T S (predicated c rt)"
  by (cases "executing rt") (simp_all add: predicated_def straying)

section \<open>Instructions\<close>

definition stray_calls :: "rt \<Rightarrow> ('a, 's) call list \<Rightarrow> bool" where
  "stray_calls rt cs \<longleftrightarrow> (\<forall>c \<in> set cs. strays T S (c rt))"

lemma stray_calls_simps [simp]:
  "stray_calls rt []"
  "stray_calls rt (c # cs) \<longleftrightarrow> strays T S (c rt) \<and> stray_calls rt cs"
  "stray_calls rt (cs @ ds) \<longleftrightarrow> stray_calls rt cs \<and> stray_calls rt ds"
  by (auto simp: stray_calls_def)

lemma stray_xfer: "stray_calls rt (ins_xfer_op pin T ins)"
  by (simp add: ins_xfer_op_def Let_def call_defs routine_defs straying)

lemma stray_binary: "stray_calls rt (ins_binary_op pin T ins)"
  by (simp add: ins_binary_op_def Let_def call_defs routine_defs straying)

lemma stray_unitary: "stray_calls rt (ins_unitary_op pin T ins)"
  by (simp add: ins_unitary_op_def Let_def call_defs routine_defs straying)

lemma stray_clear: "stray_calls rt (ins_clear_op pin T ins)" "stray_calls rt (ins_clear_op_predicated pin T ins)"
  "stray_calls rt (ins_clear_op_l2 T)" "stray_calls rt (ins_clear_op_l4 T)"
proof -
  have b: "strays T S (r_clrb_l T tid r)" "strays T S (r_clrb_u T tid r)" for tid r
    unfolding r_clrb_l_def [abs_def] r_clrb_u_def [abs_def] as_put [where T = T] by (simp_all add: straying)
  show "stray_calls rt (ins_clear_op pin T ins)" "stray_calls rt (ins_clear_op_l2 T)" "stray_calls rt (ins_clear_op_l4 T)"
    by (simp_all add: ins_clear_op_def ins_clear_op_l2_def ins_clear_op_l4_def Let_def R_CALL_def CALL_def M_CLEAR_N_def
        routine_defs straying b)
  show "stray_calls rt (ins_clear_op_predicated pin T ins)"
    by (simp add: ins_clear_op_predicated_def Let_def straying_predicated R_CALL_def M_CLEAR_N_def straying b)
qed

lemma stray_mov: "stray_calls rt (ins_mov pin T ins)"
  by (simp add: ins_mov_def stray_clear stray_xfer)

lemma stray_predicated: "stray_calls rt (ins_xfer_op_predicated pin T ins)"
  by (simp add: ins_xfer_op_predicated_def Let_def R2R_CALL_P_def M2R_CALL_P_def straying_predicated
      R2R_CALL_def M2R_CALL_def routine_defs straying)

lemma stray_stack: "stray_calls rt (ins_push_op pin T ins)" "stray_calls rt (ins_pop_op pin T ins)"
  by (simp_all add: ins_push_op_def ins_pop_op_def Let_def M2M_CALL_def straying_predicated
      R2M_CALL_def M2R_CALL_def M_CLEAR_N_def routine_defs straying)

lemma stray_stos: "stray_calls rt (ins_stosb T ins)" "stray_calls rt (ins_stosw T ins)"
  "stray_calls rt (ins_stosd T ins)" "stray_calls rt (ins_stosq T ins)"
proof -
  have rep: "stray_calls rt (ins_stos_ins ins fn)"
    if "\<And>tid dst count eflags. strays T S (fn tid dst count eflags)" for fn
    using that by (cases "rep_predicate (FIRST_REP_ITERATION rt)")
      (simp_all add: ins_stos_ins_def straying_predicated straying)
  show "stray_calls rt (ins_stosb T ins)" "stray_calls rt (ins_stosw T ins)"
    "stray_calls rt (ins_stosd T ins)" "stray_calls rt (ins_stosq T ins)"
    by (simp_all add: ins_stosb_def ins_stosw_def ins_stosd_def ins_stosq_def rep R2M_CALL_def routine_defs straying)
qed

lemma stray_moves: "stray_calls rt (ins_movlp T ins)" "stray_calls rt (ins_movhp T ins)"
  "stray_calls rt (ins_lea pin T ins)" "stray_calls rt (ins_movbe_op pin T ins)"
  by (simp_all add: ins_movlp_def ins_movhp_def ins_lea_def lea_one_def ins_movbe_op_def Let_def stray_clear
      R2R_CALL_def R2M_CALL_def M2R_CALL_def RR2R_CALL_def routine_defs straying)

lemma stray_movsx: "stray_calls rt (ins_movsx_op pin T ins)" "stray_calls rt (ins_movsxd_op pin T ins)"
  by (simp_all add: ins_movsx_op_def ins_movsxd_op_def Let_def R2R_CALL_def M2R_CALL_def routine_defs straying stray_xfer)

lemma stray_cmpxchg: "stray_calls rt (ins_cmpxchg_op pin T ins)"
  by (simp add: ins_cmpxchg_op_def Let_def routine_defs straying)

lemma stray_xchg: "stray_calls rt (ins_xchg_op pin T ins)" "stray_calls rt (ins_xadd_op pin T ins)"
  by (simp_all add: ins_xchg_op_def ins_xadd_op_def xchg_three_def Let_def R2R_CALL_def R2M_CALL_def M2R_CALL_def
      M2R_CALL_W_def routine_defs straying)

lemma stray_if: "stray_calls rt x \<Longrightarrow> stray_calls rt y \<Longrightarrow> stray_calls rt (if b then x else y)"
  by simp

lemma stray_inspect: "stray_calls rt (ins_inspect pin T ins)"
  unfolding ins_inspect_def Let_def
  by (intro stray_if)
    (simp_all add: stray_binary stray_clear stray_unitary stray_mov stray_xfer stray_moves stray_predicated stray_movsx
      stray_cmpxchg stray_xchg stray_stos stray_stack CALL_def M2R_CALL_def M2R_CALL_P_def M2M_CALL_def M_CALL_R_def M_CALL_W_def
      M_CLEAR_N_def straying_predicated routine_defs straying)

end

end
