(* ===== verification/InsExamples.thy ===== *)
theory InsExamples
  imports InsStray
begin

text \<open>
  The selection of \<open>ins_inspect\<close> for the groups of opcodes, and concrete register classes,
  instructions and operands on which the theorems about instructions are applied.
\<close>

section \<open>Groups of opcodes\<close>

text \<open>The groups are disjoint, so the order in which the code lists them does not matter.\<close>

lemma groups_disjoint:
  "list_all (\<lambda>x. x \<notin> set binary_ops) (cancel_ops @ unitary_ops @ float_ops @ mov_ops @ vector_moves)"
  "list_all (\<lambda>x. x \<notin> set cancel_ops) (unitary_ops @ float_ops @ mov_ops @ vector_moves)"
  "list_all (\<lambda>x. x \<notin> set unitary_ops \<and> x \<noteq> ''IMUL'') (float_ops @ mov_ops @ vector_moves)"
  "list_all (\<lambda>x. x \<notin> set float_ops) (mov_ops @ vector_moves)" "list_all (\<lambda>x. x \<notin> set mov_ops) vector_moves"
  by code_simp+

lemma inspect_groups:
  "INS_Opcode ins \<in> set binary_ops \<Longrightarrow> ins_inspect pin T ins = ins_binary_op pin T ins"
  "INS_Opcode ins \<in> set cancel_ops \<Longrightarrow> ins_inspect pin T ins = (if reg_eq ins then ins_clear_op pin T ins else ins_binary_op pin T ins)"
  "INS_Opcode ins \<in> set unitary_ops \<Longrightarrow> ins_inspect pin T ins = ins_unitary_op pin T ins"
  "INS_Opcode ins \<in> set float_ops \<Longrightarrow> ins_inspect pin T ins = ins_binary_op pin T ins @ ins_mov pin T ins"
  "INS_Opcode ins \<in> set mov_ops \<Longrightarrow> ins_inspect pin T ins = ins_mov pin T ins"
  "INS_Opcode ins \<in> set vector_moves \<Longrightarrow> ins_inspect pin T ins = ins_xfer_op pin T ins"
  using groups_disjoint unfolding list_all_append list_all_iff ins_inspect_def Let_def by simp_all

lemmas opcode_lists = binary_ops_def cancel_ops_def unitary_ops_def float_ops_def mov_ops_def vector_moves_def
  cmov_ops_def setcc_ops_def

lemma inspect_single:
  "INS_Opcode ins = ''XCHG'' \<Longrightarrow> ins_inspect pin T ins = ins_xchg_op pin T ins"
  "INS_Opcode ins = ''STOSB'' \<Longrightarrow> ins_inspect pin T ins = ins_stosb T ins"
  "INS_Opcode ins = ''MOVZX'' \<Longrightarrow> ins_inspect pin T ins = ins_movsx_op pin T ins"
  "INS_Opcode ins = ''MOVSX'' \<Longrightarrow> ins_inspect pin T ins = ins_movsx_op pin T ins"
  "INS_Opcode ins = ''CMPXCHG'' \<Longrightarrow> ins_inspect pin T ins = ins_cmpxchg_op pin T ins"
  "INS_Opcode ins = ''CMPXCHG_LOCK'' \<Longrightarrow> ins_inspect pin T ins = ins_cmpxchg_op pin T ins"
  by (simp_all add: ins_inspect_def opcode_lists)

lemma mov_copies:
  "\<not> INS_OperandIsImmediate ins 1 \<Longrightarrow> \<not> REG_is_seg pin (INS_OperandReg ins 1) \<Longrightarrow> ins_mov pin T ins = ins_xfer_op pin T ins"
  by (simp add: ins_mov_def)

section \<open>Examples\<close>

definition example_pin :: pin where
  "example_pin = \<lparr>REG_is_gr64 = (\<lambda>r. case r of GP g p \<Rightarrow> p = Q | _ \<Rightarrow> False),
    REG_is_gr32 = (\<lambda>r. case r of GP g p \<Rightarrow> p = D | _ \<Rightarrow> False),
    REG_is_gr16 = (\<lambda>r. case r of GP g p \<Rightarrow> p = W | _ \<Rightarrow> False),
    REG_is_gr8 = (\<lambda>r. case r of GP g p \<Rightarrow> p \<in> {H, L} | _ \<Rightarrow> False),
    REG_is_xmm = (\<lambda>r. case r of XMM n \<Rightarrow> True | _ \<Rightarrow> False),
    REG_is_ymm = (\<lambda>r. case r of YMM n \<Rightarrow> True | _ \<Rightarrow> False),
    REG_is_mm = (\<lambda>r. case r of MM n \<Rightarrow> True | _ \<Rightarrow> False),
    REG_is_seg = (\<lambda>r. False),
    REG_is_Lower8 = (\<lambda>r. case r of GP g p \<Rightarrow> p = L | _ \<Rightarrow> False),
    REG_is_Upper8 = (\<lambda>r. case r of GP g p \<Rightarrow> p = H | _ \<Rightarrow> False)\<rparr>"

text \<open>An instruction on two operands, each a register or memory.\<close>

definition example_ins :: "string \<Rightarrow> REG \<Rightarrow> REG \<Rightarrow> bool \<Rightarrow> bool \<Rightarrow> ins" where
  "example_ins opc d s m0 m1 = \<lparr>INS_Opcode = opc, INS_OperandIsImmediate = (\<lambda>_. False),
    INS_OperandIsMemory = (\<lambda>i. i = 0 \<and> m0 \<or> i = 1 \<and> m1), INS_OperandIsReg = (\<lambda>i. \<not> (i = 0 \<and> m0 \<or> i = 1 \<and> m1)),
    INS_OperandIsImplicit = (\<lambda>_. False), INS_OperandReg = (\<lambda>i. if i = 0 then d else s), INS_OperandWidth = (\<lambda>_. 64),
    INS_MemoryOperandCount = of_bool m0 + of_bool m1, INS_MemoryWriteSize = 8, INS_MemoryBaseReg = REG_INVALID,
    INS_MemoryIndexReg = REG_INVALID, INS_RepPrefix = True, INS_RepCountRegister = GP RCX Q\<rparr>"

definition example_rt :: rt where
  "example_rt = \<lparr>THREAD_ID = 1, MEMORYREAD_EA = 0x1000, MEMORYWRITE_EA = 0x2000, executing = True,
    FIRST_REP_ITERATION = True, REG_VALUE = (\<lambda>r. if r = GP RCX Q then 3 else 0), mem_val = (\<lambda>_. 0)\<rparr>"

lemma example_ins_sel [simp]:
  "INS_Opcode (example_ins opc d s m0 m1) = opc" "INS_OperandIsImmediate (example_ins opc d s m0 m1) i = False"
  "INS_OperandIsMemory (example_ins opc d s m0 m1) i = (i = 0 \<and> m0 \<or> i = 1 \<and> m1)"
  "INS_OperandIsReg (example_ins opc d s m0 m1) i = (\<not> (i = 0 \<and> m0 \<or> i = 1 \<and> m1))"
  "INS_OperandReg (example_ins opc d s m0 m1) i = (if i = 0 then d else s)"
  "INS_MemoryOperandCount (example_ins opc d s m0 m1) = of_bool m0 + of_bool m1"
  "INS_RepPrefix (example_ins opc d s m0 m1)" "INS_RepCountRegister (example_ins opc d s m0 m1) = GP RCX Q"
  "INS_OperandIsImplicit (example_ins opc d s m0 m1) i = False"
  by (simp_all add: example_ins_def)

lemma example_rt_sel [simp]:
  "THREAD_ID example_rt = 1" "MEMORYREAD_EA example_rt = 0x1000" "MEMORYWRITE_EA example_rt = 0x2000" "executing example_rt"
  "FIRST_REP_ITERATION example_rt" "REG_VALUE example_rt r = (if r = GP RCX Q then 3 else 0)"
  by (simp_all add: example_rt_def)

lemma example_pin_sel [simp]:
  "REG_is_gr64 example_pin (GP g p) = (p = Q)" "REG_is_gr32 example_pin (GP g p) = (p = D)"
  "REG_is_gr16 example_pin (GP g p) = (p = W)" "REG_is_gr8 example_pin (GP g p) = (p \<in> {H, L})"
  "\<not> REG_is_xmm example_pin (GP g p)" "\<not> REG_is_ymm example_pin (GP g p)" "\<not> REG_is_mm example_pin (GP g p)"
  "\<not> REG_is_seg example_pin r" "REG_is_Lower8 example_pin (GP g p) = (p = L)" "REG_is_Upper8 example_pin (GP g p) = (p = H)"
  "REG_is_xmm example_pin (XMM n)" "\<not> REG_is_gr64 example_pin (XMM n)" "\<not> REG_is_gr32 example_pin (XMM n)"
  "\<not> REG_is_gr16 example_pin (XMM n)"
  by (simp_all add: example_pin_def)

lemma example_classes [simp]:
  "byte_classes example_pin (GP g p)" "byte_classes example_pin (XMM n)" "wide example_pin (GP g p) = (p \<in> {Q, D, W})"
  by (cases p; simp add: byte_classes_def wide_def)+

lemma example_bytes [simp]:
  "reg_bytes example_pin tid (GP g Q) = map (Reg tid (gp_indx g)) [0..<8]"
  "reg_bytes example_pin tid (GP g D) = map (Reg tid (gp_indx g)) [0..<4]"
  "reg_bytes example_pin tid (GP g W) = map (Reg tid (gp_indx g)) [0..<2]"
  "reg_bytes example_pin tid (GP g L) = [Reg tid (gp_indx g) 0]"
  "g \<in> {RAX, RBX, RCX, RDX} \<Longrightarrow> reg_bytes example_pin tid (GP g H) = [Reg tid (gp_indx g) 1]"
  "n \<le> 15 \<Longrightarrow> reg_bytes example_pin tid (XMM n) = map (Reg tid (19 + n)) [0..<16]"
  by (auto simp: reg_bytes_def)

lemma user_low: "a < 0x10000 \<Longrightarrow> n \<le> 128 \<Longrightarrow> user a n"
  unfolding user_def
proof (intro allI impI)
  fix i assume "a < 0x10000" "n \<le> 128" "i < n"
  then have "unat a < 65536" "i < 128" by (simp_all add: word_less_nat_alt)
  then have "unat (a + of_nat i) = unat a + i" by (simp add: unat_word_ariths unat_of_nat)
  then show "\<not> outside (a + of_nat i)" using \<open>unat a < 65536\<close> \<open>i < 128\<close> by (simp add: outside_def word_less_nat_alt)
qed

definition example_dft :: "(u32 set, unit) dft" where
  "example_dft = \<lparr>threads_ctx = (\<lambda>_. \<lparr>vcpu = \<lparr>gpr = (\<lambda>_ _. {})\<rparr>, syscall = \<lparr>nr = 0, arg = (\<lambda>_. 0), ret = 0\<rparr>\<rparr>),
    tag_dir = \<lparr>table = (\<lambda>_. None)\<rparr>, tags = ()\<rparr>"

lemma example_dft_ok: "wf_dft set_ops set_sem example_dft"
  by (simp add: wf_dft_def set_sem_def)

end
