(* ===== verification/InsTrace.thy ===== *)
theory InsTrace
  imports InsExamples
begin

text \<open>
  The taint that a trace of ordinary instructions moves. \<open>transfers\<close> says which bytes an
  instruction moves to which, from its opcode and operands alone; \<open>plain_ins\<close> are the
  instructions of which the calls of \<open>ins_inspect\<close> do exactly this: moves, arithmetic, cancelling,
  extension, multiplication and division by a register, pushing and popping a register, and what the
  code lists as not moving data.
\<close>

section \<open>What an instruction should move\<close>

text \<open>The opcodes that \<open>ins_inspect\<close> lists without inserting a call.\<close>

definition untracked_ops :: "string list" where
  "untracked_ops = [''XGETBV'', ''PMOVMSKB'', ''VPMOVMSKB'', ''PUNPCKLBW'', ''PUNPCKLWD'', ''PSHUFD'', ''PMINUB'', ''PSLLDQ'',
    ''PSRLDQ'', ''VPCMPEQB'', ''VPBROADCASTB'', ''VZEROUPPER'', ''BSWAP'', ''UNPCKLPD'', ''PSHUFB'', ''VPTEST'', ''VMULSD'',
    ''VDIVSD'', ''VPOR'', ''VPXOR'', ''VPSUBB'', ''VPSUBW'', ''VPSUBD'', ''VPXORD'', ''VPXORQ'', ''VPAND'', ''VPANDN'',
    ''VPSLLDQ'', ''VPCMPGTB'', ''VPALIGNR'', ''VPCMPISTRI'', ''CMP'', ''CMPSB'', ''CMPSW'', ''CMPSD'', ''CMPSQ'', ''CMPSS'',
    ''UCOMISS'', ''UCOMISD'', ''VPMINUB'', ''PCMPISTRI'', ''JMP'', ''JZ'', ''JNZ'', ''JB'', ''JNB'', ''JBE'', ''JNBE'', ''JL'',
    ''JNL'', ''JLE'', ''JNLE'', ''JS'', ''JNS'', ''JP'', ''JNP'', ''RET_FAR'', ''RET_NEAR'', ''CALL_FAR'', ''CALL_NEAR'',
    ''LEAVE'', ''SYSCALL'', ''TEST'', ''RCL'', ''RCR'', ''ROL'', ''ROR'', ''SHL'', ''SAR'', ''SHR'', ''SHLD'', ''SHRD'', ''NEG'',
    ''NOT'', ''NOP'', ''BT'', ''DEC'', ''DEC_LOCK'', ''INC'', ''INC_LOCK'', ''XSAVEC'', ''XRSTOR'']"

text \<open>A memory operand is as long as the register that is the other operand.\<close>

definition operand_bytes :: "pin \<Rightarrow> ins \<Rightarrow> rt \<Rightarrow> nat \<Rightarrow> loc list" where
  "operand_bytes pin ins rt k =
    (if INS_OperandIsMemory ins k
     then mem_bytes (if k = 0 then MEMORYWRITE_EA rt else MEMORYREAD_EA rt)
       (length (reg_bytes pin (THREAD_ID rt) (INS_OperandReg ins (1 - k))))
     else reg_bytes pin (THREAD_ID rt) (INS_OperandReg ins k))"

definition cleared_bytes :: "pin \<Rightarrow> ins \<Rightarrow> rt \<Rightarrow> loc list" where
  "cleared_bytes pin ins rt =
    (if INS_OperandIsMemory ins 0 then mem_bytes (MEMORYWRITE_EA rt) (unat (INS_OperandWidth ins 0 div 8))
     else reg_bytes pin (THREAD_ID rt) (INS_OperandReg ins 0))"

text \<open>Instructions whose result does not depend on data: cancelling, and loads of constants.\<close>

definition constant_result :: "pin \<Rightarrow> ins \<Rightarrow> bool" where
  "constant_result pin ins \<longleftrightarrow> INS_Opcode ins \<in> set cancel_ops \<and> reg_eq ins \<or>
    INS_Opcode ins \<in> set mov_ops \<and> (INS_OperandIsImmediate ins 1 \<or> INS_OperandIsReg ins 1 \<and> REG_is_seg pin (INS_OperandReg ins 1))"

definition transfers :: "pin \<Rightarrow> ins \<Rightarrow> rt \<Rightarrow> (loc \<times> loc set) list" where
  "transfers pin ins rt =
    (let opc = INS_Opcode ins; r = \<lambda>k. reg_bytes pin (THREAD_ID rt) (INS_OperandReg ins k) in
      if constant_result pin ins then clear_all (cleared_bytes pin ins rt)
      else if opc \<in> set (binary_ops @ cancel_ops) then
        (if INS_OperandIsImmediate ins 1 then [] else merge_all (operand_bytes pin ins rt 0) (operand_bytes pin ins rt 1))
      else if opc \<in> set (mov_ops @ vector_moves) then assign_all (operand_bytes pin ins rt 0) (operand_bytes pin ins rt 1)
      else if opc \<in> {''MOVSX'', ''MOVZX''} then assign_all (r 0) (map (\<lambda>i. r 1 ! (i mod length (r 1))) [0..<length (r 0)])
      else if opc \<in> set unitary_ops then product_moves (THREAD_ID rt) (r 0)
      else if opc = ''PUSH'' then assign_all (mem_bytes (MEMORYWRITE_EA rt) (length (r 0))) (r 0)
      else if opc = ''POP'' then assign_all (r 0) (mem_bytes (MEMORYREAD_EA rt) (length (r 0)))
      else [])"

text \<open>
  The conditions: one memory operand at most, in the user space; register operands of the
  classes that Pin has, of the same width; no clearing of a \<open>ymm\<close> register, of which the routine
  clears only the lower half.
\<close>

definition plain_operands :: "pin \<Rightarrow> ins \<Rightarrow> rt \<Rightarrow> bool" where
  "plain_operands pin ins rt \<longleftrightarrow>
    (let m = INS_OperandIsMemory ins; r = INS_OperandReg ins; n = \<lambda>k. length (reg_bytes pin (THREAD_ID rt) (r k)) in
      INS_MemoryOperandCount ins = of_bool (m 0) + of_bool (m 1) \<and> \<not> (m 0 \<and> m 1) \<and> (\<not> m 0 \<longrightarrow> byte_classes pin (r 0)) \<and>
      (if constant_result pin ins then (if m 0 then user (MEMORYWRITE_EA rt) (unat (INS_OperandWidth ins 0 div 8)) else \<not> REG_is_ymm pin (r 0))
       else INS_OperandIsImmediate ins 1 \<and> INS_Opcode ins \<in> set (binary_ops @ cancel_ops) \<or>
        (if m 0 then user (MEMORYWRITE_EA rt) (n 1) else if m 1 then user (MEMORYREAD_EA rt) (n 0) else n 0 = n 1 \<and> byte_classes pin (r 1))))"

definition plain_ins :: "pin \<Rightarrow> ins \<Rightarrow> rt \<Rightarrow> bool" where
  "plain_ins pin ins rt \<longleftrightarrow>
    (let opc = INS_Opcode ins; r = INS_OperandReg ins; n = \<lambda>k. length (reg_bytes pin (THREAD_ID rt) (r k));
         gr = \<lambda>r. (REG_is_gr64 pin r, REG_is_gr32 pin r, REG_is_gr16 pin r) \<in> {(True, False, False), (False, True, False), (False, False, True)} in
      if opc \<in> set (binary_ops @ cancel_ops @ mov_ops @ vector_moves) then plain_operands pin ins rt
      else if opc \<in> {''MOVSX'', ''MOVZX''} then
        INS_MemoryOperandCount ins = 0 \<and> gr (r 0) \<and> (\<not> wide pin (r 1) \<or> REG_is_gr16 pin (r 1) \<and> n 1 = 2 \<and> \<not> REG_is_gr16 pin (r 0))
      else if opc \<in> set unitary_ops then
        \<not> INS_OperandIsMemory ins 0 \<and> \<not> REG_is_xmm pin (r 0) \<and> \<not> REG_is_ymm pin (r 0) \<and> \<not> REG_is_mm pin (r 0)
      else if opc = ''PUSH'' then INS_OperandIsReg ins 0 \<and> gr (r 0) \<and> user (MEMORYWRITE_EA rt) (n 0)
      else if opc = ''POP'' then INS_OperandIsReg ins 0 \<and> gr (r 0) \<and> user (MEMORYREAD_EA rt) (n 0)
      else opc \<in> set untracked_ops)"

section \<open>The calls do this\<close>

lemma untracked_disjoint:
  "list_all (\<lambda>x. x \<notin> set (binary_ops @ cancel_ops @ unitary_ops @ float_ops @ mov_ops @ vector_moves @ cmov_ops @ setcc_ops)) untracked_ops"
  "list_all (\<lambda>x. x \<notin> set [''IMUL'', ''MOVLPD'', ''MOVLPS'', ''MOVHPD'', ''MOVHPS'', ''MOVBE'', ''MOVSX'', ''MOVZX'', ''MOVSXD'',
    ''CBW'', ''CWD'', ''CWDE'', ''CDQ'', ''CDQE'', ''CQO'', ''STMXCSR'', ''SMSW'', ''STR'', ''LAR'', ''RDPMC'', ''RDTSC'', ''CPUID'',
    ''LAHF'', ''CMPXCHG'', ''CMPXCHG_LOCK'', ''XCHG'', ''XADD'', ''XADD_LOCK'', ''XLAT'', ''LODSB'', ''LODSW'', ''LODSD'', ''LODSQ'',
    ''STOSB'', ''STOSW'', ''STOSD'', ''STOSQ'', ''MOVSQ'', ''MOVSD'', ''MOVSW'', ''MOVSB'', ''SALC'', ''POP'', ''PUSH'', ''POPA'',
    ''POPAD'', ''PUSHA'', ''PUSHAD'', ''PUSHF'', ''PUSHFD'', ''PUSHFQ'', ''LEA'', ''PCMPEQB'']) untracked_ops"
  by code_simp+

lemma inspect_untracked:
  assumes "INS_Opcode ins \<in> set untracked_ops"
  shows "ins_inspect pin T ins = []"
proof -
  note u = untracked_disjoint(1) [unfolded list_all_iff, rule_format, OF assms]
    untracked_disjoint(2) [unfolded list_all_iff, rule_format, OF assms]
  show ?thesis unfolding ins_inspect_def Let_def using u by simp
qed

lemma inspect_stack:
  "INS_Opcode ins = ''PUSH'' \<Longrightarrow> ins_inspect pin T ins = ins_push_op pin T ins"
  "INS_Opcode ins = ''POP'' \<Longrightarrow> ins_inspect pin T ins = ins_pop_op pin T ins"
  by (simp_all add: ins_inspect_def opcode_lists)

lemma run_no_calls: "run_calls [] rt = Inr"
  by (rule ext) simp

lemma plain_count:
  assumes "plain_operands pin ins rt"
  shows "INS_MemoryOperandCount ins = of_bool (INS_OperandIsMemory ins 0) + of_bool (INS_OperandIsMemory ins 1)"
    "\<not> (INS_OperandIsMemory ins 0 \<and> INS_OperandIsMemory ins 1)"
    "\<not> INS_OperandIsMemory ins 0 \<Longrightarrow> byte_classes pin (INS_OperandReg ins 0)"
  using assms unfolding plain_operands_def Let_def by blast+

context tag_type
begin

lemma plain_clear:
  assumes "plain_operands pin ins rt" "constant_result pin ins"
  shows "flows T S (run_calls (ins_clear_op pin T ins) rt) (moves (clear_all (cleared_bytes pin ins rt)))"
proof (cases "INS_OperandIsMemory ins 0")
  case True
  have "user (MEMORYWRITE_EA rt) (unat (INS_OperandWidth ins 0 div 8))"
    using assms True by (simp add: plain_operands_def Let_def)
  from clrn_flows [OF this] True show ?thesis
    by (simp add: ins_clear_op_def M_CLEAR_N_def cleared_bytes_def wipe_eq mem_bytes_def)
next
  case False
  have "\<not> REG_is_ymm pin (INS_OperandReg ins 0)" using assms False by (simp add: plain_operands_def Let_def)
  then show ?thesis
    using clear_reg_op_flows [OF False plain_count(3) [OF assms(1) False]] False by (simp add: cleared_bytes_def)
qed

text \<open>The three kinds of operands of an instruction that reads its second one.\<close>

lemma plain_two:
  assumes p: "plain_operands pin ins rt" "\<not> constant_result pin ins"
    and "\<not> (INS_OperandIsImmediate ins 1 \<and> INS_Opcode ins \<in> set (binary_ops @ cancel_ops))"
  obtains (r2r) "\<not> INS_OperandIsMemory ins 0" "\<not> INS_OperandIsMemory ins 1" "INS_MemoryOperandCount ins = 0"
      "byte_classes pin (INS_OperandReg ins 0)" "byte_classes pin (INS_OperandReg ins 1)"
      "length (reg_bytes pin (THREAD_ID rt) (INS_OperandReg ins 0)) = length (reg_bytes pin (THREAD_ID rt) (INS_OperandReg ins 1))"
  | (m2r) "\<not> INS_OperandIsMemory ins 0" "INS_OperandIsMemory ins 1" "INS_MemoryOperandCount ins \<noteq> 0"
      "user (MEMORYREAD_EA rt) (length (reg_bytes pin (THREAD_ID rt) (INS_OperandReg ins 0)))"
  | (r2m) "INS_OperandIsMemory ins 0" "\<not> INS_OperandIsMemory ins 1" "INS_MemoryOperandCount ins \<noteq> 0"
      "user (MEMORYWRITE_EA rt) (length (reg_bytes pin (THREAD_ID rt) (INS_OperandReg ins 1)))"
  using assms plain_count [OF p(1)] that unfolding plain_operands_def Let_def
  by (cases "INS_OperandIsMemory ins 0"; cases "INS_OperandIsMemory ins 1") (auto simp del: One_nat_def)

lemma plain_xfer:
  assumes "plain_operands pin ins rt" "\<not> constant_result pin ins" "INS_Opcode ins \<notin> set (binary_ops @ cancel_ops)"
  shows "flows T S (run_calls (ins_xfer_op pin T ins) rt)
    (moves (assign_all (operand_bytes pin ins rt 0) (operand_bytes pin ins rt 1)))"
proof (rule plain_two [OF assms(1,2)])
  show "\<not> (INS_OperandIsImmediate ins 1 \<and> INS_Opcode ins \<in> set (binary_ops @ cancel_ops))" using assms(3) by blast
qed (simp_all add: operand_bytes_def xfer_r2r_flows xfer_m2r_flows xfer_r2m_flows del: One_nat_def)

lemma plain_binary:
  assumes "plain_operands pin ins rt" "\<not> constant_result pin ins" "\<not> INS_OperandIsImmediate ins 1"
  shows "flows T S (run_calls (ins_binary_op pin T ins) rt)
    (moves (merge_all (operand_bytes pin ins rt 0) (operand_bytes pin ins rt 1)))"
  by (rule plain_two [OF assms(1,2)])
    (simp_all add: operand_bytes_def binary_r2r_flows binary_m2r_flows binary_r2m_flows assms(3) del: One_nat_def)

lemma push_flows:
  assumes "INS_OperandIsReg ins 0" "r = INS_OperandReg ins 0" "REG_is_gr64 pin r \<or> REG_is_gr32 pin r \<or> REG_is_gr16 pin r"
    and "n = length (reg_bytes pin (THREAD_ID rt) r)" "user (MEMORYWRITE_EA rt) n"
  shows "flows T S (run_calls (ins_push_op pin T ins) rt)
    (moves (assign_all (mem_bytes (MEMORYWRITE_EA rt) n) (reg_bytes pin (THREAD_ID rt) r)))"
  by (cases rule: wide_cases [of pin r "THREAD_ID rt"])
    (use assms r2m_xfer_flows [of "MEMORYWRITE_EA rt" n] reg_bytes_wide [of pin "THREAD_ID rt" r, OF refl] in
      \<open>simp_all add: ins_push_op_def Let_def R2M_CALL_def width_defs copy_eq mem_bytes_def wide_def\<close>)

lemma pop_flows:
  assumes "INS_OperandIsReg ins 0" "r = INS_OperandReg ins 0" "REG_is_gr64 pin r \<or> REG_is_gr32 pin r \<or> REG_is_gr16 pin r"
    and "n = length (reg_bytes pin (THREAD_ID rt) r)" "user (MEMORYREAD_EA rt) n"
  shows "flows T S (run_calls (ins_pop_op pin T ins) rt)
    (moves (assign_all (reg_bytes pin (THREAD_ID rt) r) (mem_bytes (MEMORYREAD_EA rt) n)))"
  by (cases rule: wide_cases [of pin r "THREAD_ID rt"])
    (use assms m2r_xfer_flows [of "MEMORYREAD_EA rt" n] reg_bytes_wide [of pin "THREAD_ID rt" r, OF refl] in
      \<open>simp_all add: ins_pop_op_def Let_def M2R_CALL_def width_defs copy_eq mem_bytes_def wide_def\<close>)

lemma skip_flows: "flows T S (run_calls [] rt) (moves [])"
  using flows_Inr by (simp add: run_no_calls moves_def)

lemma plain_two_flows:
  assumes "INS_Opcode ins \<in> set (binary_ops @ cancel_ops @ mov_ops @ vector_moves)" "plain_operands pin ins rt"
  shows "flows T S (run_calls (ins_inspect pin T ins) rt) (moves (transfers pin ins rt))"
proof -
  let ?op = "INS_Opcode ins"
  have i: "ins_inspect pin T ins =
      (if constant_result pin ins then ins_clear_op pin T ins
       else if ?op \<in> set (binary_ops @ cancel_ops) then ins_binary_op pin T ins else ins_xfer_op pin T ins)"
    using assms(1) inspect_groups(1,2,5,6) [of ins pin T] groups_disjoint [unfolded list_all_append list_all_iff]
    by (auto simp: constant_result_def ins_mov_def)
  show ?thesis
  proof (cases "constant_result pin ins")
    case True
    then show ?thesis using plain_clear [OF assms(2) True] by (simp add: i transfers_def Let_def)
  next
    case no: False
    show ?thesis
    proof (cases "?op \<in> set (binary_ops @ cancel_ops)")
      case True
      show ?thesis
      proof (cases "INS_OperandIsImmediate ins 1")
        case imm: True
        then have "ins_binary_op pin T ins = []" by (simp add: ins_binary_op_def)
        then show ?thesis using skip_flows True no imm by (simp add: i transfers_def Let_def)
      next
        case False
        then show ?thesis using plain_binary [OF assms(2) no False] True no by (simp add: i transfers_def Let_def)
      qed
    next
      case False
      then have "?op \<in> set (mov_ops @ vector_moves)" using assms(1) by auto
      then show ?thesis
        using plain_xfer [OF assms(2) no False] False no unfolding i transfers_def Let_def by simp
    qed
  qed
qed

lemma plain_extend_flows:
  assumes "plain_ins pin ins rt" "INS_Opcode ins \<in> {''MOVSX'', ''MOVZX''}"
  shows "flows T S (run_calls (ins_inspect pin T ins) rt) (moves (transfers pin ins rt))"
proof -
  let ?op = "INS_Opcode ins" and ?r = "INS_OperandReg ins"
  have n: "?op \<notin> set (binary_ops @ cancel_ops @ mov_ops @ vector_moves)" using assms(2) by (auto simp: opcode_lists)
  have p: "INS_MemoryOperandCount ins = 0"
    "(REG_is_gr64 pin (?r 0), REG_is_gr32 pin (?r 0), REG_is_gr16 pin (?r 0)) \<in> {(True, False, False), (False, True, False), (False, False, True)}"
    "\<not> wide pin (?r 1) \<or> REG_is_gr16 pin (?r 1) \<and> length (reg_bytes pin (THREAD_ID rt) (?r 1)) = 2 \<and> \<not> REG_is_gr16 pin (?r 0)"
    using n assms unfolding plain_ins_def Let_def by (simp_all only: if_False if_True)
  have "ins_inspect pin T ins = ins_movsx_op pin T ins" using assms(2) inspect_single(3,4) by auto
  moreover have "transfers pin ins rt = assign_all (reg_bytes pin (THREAD_ID rt) (?r 0))
      (map (\<lambda>i. reg_bytes pin (THREAD_ID rt) (?r 1) ! (i mod length (reg_bytes pin (THREAD_ID rt) (?r 1)))) [0..<length (reg_bytes pin (THREAD_ID rt) (?r 0))])"
    using n assms(2) by (simp add: transfers_def Let_def constant_result_def)
  ultimately show ?thesis using movsx_r2r_op_flows [OF p refl refl refl] by simp
qed

lemma plain_unitary_flows:
  assumes "plain_ins pin ins rt" "INS_Opcode ins \<in> set unitary_ops"
  shows "flows T S (run_calls (ins_inspect pin T ins) rt) (moves (transfers pin ins rt))"
proof -
  let ?op = "INS_Opcode ins" and ?r = "INS_OperandReg ins"
  have n: "?op \<notin> set (binary_ops @ cancel_ops @ mov_ops @ vector_moves)" "?op \<notin> {''MOVSX'', ''MOVZX''}"
    using assms(2) by (auto simp: opcode_lists)
  have p: "\<not> INS_OperandIsMemory ins 0" "\<not> REG_is_xmm pin (?r 0)" "\<not> REG_is_ymm pin (?r 0)" "\<not> REG_is_mm pin (?r 0)"
    using assms n unfolding plain_ins_def Let_def by (simp_all only: if_False if_True) blast+
  have "transfers pin ins rt = product_moves (THREAD_ID rt) (reg_bytes pin (THREAD_ID rt) (?r 0))"
    using n assms(2) by (simp add: transfers_def Let_def constant_result_def)
  then show ?thesis using unitary_reg_flows [OF p] by (simp add: inspect_groups(3) [OF assms(2)])
qed

lemma plain_push_flows:
  assumes "plain_ins pin ins rt" "INS_Opcode ins = ''PUSH''"
  shows "flows T S (run_calls (ins_inspect pin T ins) rt) (moves (transfers pin ins rt))"
proof -
  let ?op = "INS_Opcode ins" and ?r = "INS_OperandReg ins"
  have n: "?op \<notin> set (binary_ops @ cancel_ops @ mov_ops @ vector_moves)" "?op \<notin> {''MOVSX'', ''MOVZX''}" "?op \<notin> set unitary_ops"
    using assms(2) by (auto simp: opcode_lists)
  have p: "INS_OperandIsReg ins 0" "REG_is_gr64 pin (?r 0) \<or> REG_is_gr32 pin (?r 0) \<or> REG_is_gr16 pin (?r 0)"
    "user (MEMORYWRITE_EA rt) (length (reg_bytes pin (THREAD_ID rt) (?r 0)))"
    using assms n unfolding plain_ins_def Let_def by auto
  show ?thesis
    using push_flows [OF p(1) refl p(2) refl p(3)] n assms(2) by (simp add: transfers_def Let_def constant_result_def inspect_stack)
qed

lemma plain_pop_flows:
  assumes "plain_ins pin ins rt" "INS_Opcode ins = ''POP''"
  shows "flows T S (run_calls (ins_inspect pin T ins) rt) (moves (transfers pin ins rt))"
proof -
  let ?op = "INS_Opcode ins" and ?r = "INS_OperandReg ins"
  have n: "?op \<notin> set (binary_ops @ cancel_ops @ mov_ops @ vector_moves)" "?op \<notin> {''MOVSX'', ''MOVZX''}" "?op \<notin> set unitary_ops"
    using assms(2) by (auto simp: opcode_lists)
  have p: "INS_OperandIsReg ins 0" "REG_is_gr64 pin (?r 0) \<or> REG_is_gr32 pin (?r 0) \<or> REG_is_gr16 pin (?r 0)"
    "user (MEMORYREAD_EA rt) (length (reg_bytes pin (THREAD_ID rt) (?r 0)))"
    using assms n unfolding plain_ins_def Let_def by auto
  show ?thesis
    using pop_flows [OF p(1) refl p(2) refl p(3)] n assms(2) by (simp add: transfers_def Let_def constant_result_def inspect_stack)
qed

lemma plain_other_flows:
  assumes "INS_Opcode ins \<in> set untracked_ops"
  shows "flows T S (run_calls (ins_inspect pin T ins) rt) (moves (transfers pin ins rt))"
proof -
  have "transfers pin ins rt = []"
    using untracked_disjoint(1) [unfolded list_all_iff, rule_format, OF assms]
      untracked_disjoint(2) [unfolded list_all_iff, rule_format, OF assms] by (simp add: transfers_def Let_def constant_result_def)
  then show ?thesis using skip_flows by (simp add: inspect_untracked [OF assms])
qed

lemma plain_flows:
  assumes "plain_ins pin ins rt"
  shows "flows T S (run_calls (ins_inspect pin T ins) rt) (moves (transfers pin ins rt))"
proof -
  let ?op = "INS_Opcode ins"
  consider "?op \<in> set (binary_ops @ cancel_ops @ mov_ops @ vector_moves)" "plain_operands pin ins rt"
    | "?op \<in> {''MOVSX'', ''MOVZX''}" | "?op \<in> set unitary_ops" | "?op = ''PUSH''" | "?op = ''POP''"
    | "?op \<in> set untracked_ops"
    using assms by (auto simp: plain_ins_def Let_def split: if_splits)
  then show ?thesis
    using assms plain_two_flows plain_extend_flows plain_unitary_flows plain_push_flows plain_pop_flows plain_other_flows
    by cases blast+
qed

text \<open>A trace of them: the flows compose.\<close>

lemma plain_trace:
  assumes "list_all2 (plain_ins pin) (concat bbls) rs"
    and "\<And>ins. ins \<in> set (concat bbls) \<Longrightarrow> before (INS_Opcode ins) = None \<and> behind (INS_Opcode ins) = None"
  shows "flows T S (run_trace (trace_inspect pin T before behind bbls) rs)
    (trace_flow (map2 (\<lambda>ins rt. moves (transfers pin ins rt)) (concat bbls) rs))"
proof (rule flows_trace)
  have len: "length (concat bbls) = length rs" using assms(1) by (rule list_all2_lengthD)
  then show "length (trace_inspect pin T before behind bbls) = length rs"
    "length (map2 (\<lambda>ins rt. moves (transfers pin ins rt)) (concat bbls) rs) = length rs" by (simp_all add: trace_inspect_def)
  fix i assume i: "i < length rs"
  then have "before (INS_Opcode (concat bbls ! i)) = None \<and> behind (INS_Opcode (concat bbls ! i)) = None"
    using assms(2) len by (metis nth_mem)
  then have "trace_inspect pin T before behind bbls ! i = ins_inspect pin T (concat bbls ! i)"
    using i len by (simp add: trace_inspect_def)
  moreover have "plain_ins pin (concat bbls ! i) (rs ! i)" using assms(1) i len by (simp add: list_all2_conv_all_nth)
  ultimately show "flows T S (run_calls (trace_inspect pin T before behind bbls ! i) (rs ! i))
      (map2 (\<lambda>ins rt. moves (transfers pin ins rt)) (concat bbls) rs ! i)"
    using plain_flows i len by simp
qed

end

end
