(* ===== verification/SyscallDesc.thy ===== *)
theory SyscallDesc
  imports TaintFlow
begin

text \<open>
  The table of system calls (\<open>src/syscall_desc.h\<close>, \<open>src/syscall_desc.cpp\<close>,
  \<open>src/syscall_struct.h\<close>). For every system call it says how many arguments it has, which
  of them point to memory that the kernel fills with data that is not tainted, and which
  function runs afterwards where that does not depend on the arguments alone. Here are the
  descriptor and the functions that register callbacks, the layout of the structures the
  sources declare, and the callbacks; \<open>SyscallTable\<close> holds the table itself.

  What the sources take from the headers of the system and from the running application is the
  parameter \<open>os\<close>: the sizes and layouts of the kernel's structures, the memory that
  callbacks read, and the positions of open files. The numbers of commands and flags are those of the x86-64 kernel.
\<close>

section \<open>Structures\<close>

datatype cty = Scalar nat | Arr nat cty | Struct "cty list"

text \<open>The size and the alignment the ABI gives a type, and the rounding between fields.\<close>

definition align_up :: "nat \<Rightarrow> nat \<Rightarrow> nat" where
  "align_up off a = (off + a - 1) div a * a"

fun cty_align :: "cty \<Rightarrow> nat" where
  "cty_align (Scalar n) = n"
| "cty_align (Arr n t) = cty_align t"
| "cty_align (Struct fs) = foldr max (map cty_align fs) 1"

fun cty_size :: "cty \<Rightarrow> nat" where
  "cty_size (Scalar n) = n"
| "cty_size (Arr n t) = n * cty_size t"
| "cty_size (Struct fs) =
    align_up (fold (\<lambda>(a, n) off. align_up off a + n) (map (\<lambda>f. (cty_align f, cty_size f)) fs) 0)
      (foldr max (map cty_align fs) 1)"

definition getcpu_cache :: cty where
  "getcpu_cache = Struct [Arr (128 div 8) (Scalar 8)]"

definition sched_attr :: cty where
  "sched_attr = Struct [Scalar 4, Scalar 4, Scalar 8, Scalar 4, Scalar 4, Scalar 8, Scalar 8, Scalar 8]"

definition if_dqinfo :: cty where
  "if_dqinfo = Struct [Scalar 8, Scalar 8, Scalar 4, Scalar 4]"

definition if_dqblk :: cty where
  "if_dqblk = Struct [Scalar 8, Scalar 8, Scalar 8, Scalar 8, Scalar 8, Scalar 8, Scalar 8, Scalar 8, Scalar 4]"

definition fs_qfilestat_t :: cty where
  "fs_qfilestat_t = Struct [Scalar 8, Scalar 8, Scalar 4]"

definition fs_quota_stat :: cty where
  "fs_quota_stat = Struct [Scalar 1, Scalar 2, Scalar 1, fs_qfilestat_t, fs_qfilestat_t, Scalar 4, Scalar 4, Scalar 4,
    Scalar 4, Scalar 2, Scalar 2]"

definition fs_disk_quota :: cty where
  "fs_disk_quota = Struct [Scalar 1, Scalar 1, Scalar 2, Scalar 4, Scalar 8, Scalar 8, Scalar 8, Scalar 8, Scalar 8,
    Scalar 8, Scalar 4, Scalar 4, Scalar 2, Scalar 2, Scalar 4, Scalar 8, Scalar 8, Scalar 8, Scalar 4, Scalar 2,
    Scalar 2, Arr 8 (Scalar 1)]"

definition file_handle :: cty where
  "file_handle = Struct [Scalar 4, Scalar 4, Arr 0 (Scalar 1)]"

definition git_t :: cty where
  "git_t = Scalar 8"

definition sizeof_src :: "cty \<Rightarrow> u64" where
  "sizeof_src t = of_nat (cty_size t)"

section \<open>The system\<close>

record os =
  sizeof :: "string \<Rightarrow> u64"
  offsetof :: "string \<Rightarrow> string \<Rightarrow> u64"
  peek64 :: "u64 \<Rightarrow> u64 option"
  peek32 :: "u64 \<Rightarrow> u32 option"
  peek_str :: "u64 \<Rightarrow> string option"
  lseek_cur :: "u32 \<Rightarrow> u64"

definition load64 :: "os \<Rightarrow> u64 \<Rightarrow> serror + u64" where
  "load64 os a = (case peek64 os a of None \<Rightarrow> Inl BadRead | Some v \<Rightarrow> Inr v)"

definition load32 :: "os \<Rightarrow> u64 \<Rightarrow> serror + u32" where
  "load32 os a = (case peek32 os a of None \<Rightarrow> Inl BadRead | Some v \<Rightarrow> Inr v)"

definition PAGE_SZ :: u64 where "PAGE_SZ = 4096"
definition MAP_GROWSDOWN :: u32 where "MAP_GROWSDOWN = 0x100"
definition MPOL_F_NODE :: u64 where "MPOL_F_NODE = 1"
definition MPOL_F_ADDR :: u64 where "MPOL_F_ADDR = 2"
definition MPOL_F_MEMS_ALLOWED :: u64 where "MPOL_F_MEMS_ALLOWED = 4"
definition Q_GETFMT :: u32 where "Q_GETFMT = 0x800004"
definition Q_GETINFO :: u32 where "Q_GETINFO = 0x800005"
definition Q_GETQUOTA :: u32 where "Q_GETQUOTA = 0x800007"
definition XQM_CMD :: "u32 \<Rightarrow> u32" where "XQM_CMD x = push_bit 8 88 + x"
definition Q_XGETQUOTA :: u32 where "Q_XGETQUOTA = XQM_CMD 3"
definition Q_XGETQSTAT :: u32 where "Q_XGETQSTAT = XQM_CMD 5"
definition F_GETLK :: u32 where "F_GETLK = 5"
definition F_GETOWN_EX :: u32 where "F_GETOWN_EX = 16"
definition IPC_STAT :: u32 where "IPC_STAT = 2"
definition IPC_INFO :: u32 where "IPC_INFO = 3"
definition MSG_STAT :: u32 where "MSG_STAT = 11"
definition MSG_INFO :: u32 where "MSG_INFO = 12"
definition SHM_STAT :: u32 where "SHM_STAT = 13"
definition SHM_INFO :: u32 where "SHM_INFO = 14"
definition SEM_STAT :: u32 where "SEM_STAT = 18"
definition SEM_INFO :: u32 where "SEM_INFO = 19"

definition load_str :: "os \<Rightarrow> u64 \<Rightarrow> serror + string" where
  "load_str os a = (case peek_str os a of None \<Rightarrow> Inl BadRead | Some v \<Rightarrow> Inr v)"

section \<open>State and descriptors\<close>

text \<open>
  The state of the tool: that of the engine, and what the callbacks for the tainted file
  keep (\<open>src/syscall_hook.cpp\<close>).
\<close>

record ('a, 's) sys =
  engine :: "('a, 's) dft"
  fuzzing_fd_set :: "int set"
  stdin_read_off :: u32
  tainted :: bool

definition on_engine :: "(('a, 's) dft \<Rightarrow> serror + ('a, 's) dft) \<Rightarrow> ('a, 's) sys \<Rightarrow> serror + ('a, 's) sys" where
  "on_engine f s = bindE (f (engine s)) (\<lambda>d. Inr (s\<lparr>engine := d\<rparr>))"

definition syscall_ctx_of :: "('a, 's) sys \<Rightarrow> nat \<Rightarrow> syscall_ctx" where
  "syscall_ctx_of s tid = syscall (threads_ctx (engine s) tid)"

definition set_syscall_ctx :: "nat \<Rightarrow> syscall_ctx \<Rightarrow> ('a, 's) sys \<Rightarrow> ('a, 's) sys" where
  "set_syscall_ctx tid ctx s =
    (let d = engine s in
      s\<lparr>engine := d\<lparr>threads_ctx := (threads_ctx d)(tid := (threads_ctx d tid)\<lparr>syscall := ctx\<rparr>)\<rparr>\<rparr>)"

text \<open>A callback gets the number of the thread and the context saved for its system call.\<close>

type_synonym 'x hook = "nat \<Rightarrow> syscall_ctx \<Rightarrow> 'x \<Rightarrow> serror + 'x"

record 'x syscall_desc_t =
  nargs :: nat
  save_args :: nat
  retval_args :: nat
  map_args :: "u64 list"
  desc_pre :: "'x hook option"
  desc_post :: "'x hook option"

definition SYSCALL_MAX :: nat where "SYSCALL_MAX = 315 + 1"

text \<open>
  The functions that register and remove callbacks; a null pointer is \<open>None\<close>. The first
  component is the value returned.
\<close>

definition syscall_set_pre :: "'x syscall_desc_t option \<Rightarrow> 'x hook option \<Rightarrow> nat \<times> 'x syscall_desc_t option" where
  "syscall_set_pre desc h =
    (case (desc, h) of
      (Some d, Some f) \<Rightarrow> (0, Some (d\<lparr>desc_pre := Some f, save_args := 1\<rparr>))
    | _ \<Rightarrow> (1, desc))"

definition syscall_set_post :: "'x syscall_desc_t option \<Rightarrow> 'x hook option \<Rightarrow> nat \<times> 'x syscall_desc_t option" where
  "syscall_set_post desc h =
    (case (desc, h) of
      (Some d, Some f) \<Rightarrow> (0, Some (d\<lparr>desc_post := Some f, save_args := 1\<rparr>))
    | _ \<Rightarrow> (1, desc))"

definition syscall_clr_pre :: "'x syscall_desc_t option \<Rightarrow> nat \<times> 'x syscall_desc_t option" where
  "syscall_clr_pre desc =
    (case desc of
      None \<Rightarrow> (1, None)
    | Some d \<Rightarrow> (let d = d\<lparr>desc_pre := None\<rparr> in (0, Some (if desc_post d = None then d\<lparr>save_args := 0\<rparr> else d))))"

definition syscall_clr_post :: "'x syscall_desc_t option \<Rightarrow> nat \<times> 'x syscall_desc_t option" where
  "syscall_clr_post desc =
    (case desc of
      None \<Rightarrow> (1, None)
    | Some d \<Rightarrow> (let d = d\<lparr>desc_post := None\<rparr> in (0, Some (if desc_pre d = None then d\<lparr>save_args := 0\<rparr> else d))))"

end
