(* ===== verification/SyscallPost.thy ===== *)
theory SyscallPost
  imports SyscallDesc
begin

text \<open>
  The callbacks of \<open>src/syscall_desc.cpp\<close>, which run after system calls that fill memory
  whose place or length the arguments alone do not tell, and what they do to the taint: they
  clear the bytes that the kernel wrote and touch nothing else.
\<close>

section \<open>The callbacks\<close>

text \<open>
  \<open>tagmap_clrn\<close> takes a length of 32 bits, to which a longer one is cut.
\<close>

definition clrn :: "('a, 's) tag_ops \<Rightarrow> u64 \<Rightarrow> u32 \<Rightarrow> ('a, 's) sys \<Rightarrow> serror + ('a, 's) sys" where
  "clrn T a n = on_engine (tagmap_clrn T a n)"

definition post_read_hook :: "os \<Rightarrow> ('a, 's) tag_ops \<Rightarrow> ('a, 's) sys hook" where
  "post_read_hook os T tid ctx s =
    (if sint (ret ctx) \<le> 0 then Inr s else clrn T (arg ctx 1) (ucast (ret ctx)) s)"

definition post_getgroups_hook :: "os \<Rightarrow> ('a, 's) tag_ops \<Rightarrow> ('a, 's) sys hook" where
  "post_getgroups_hook os T tid ctx s =
    (if sint (ret ctx) \<le> 0 \<or> arg ctx 1 = 0 then Inr s else clrn T (arg ctx 1) (ucast (sizeof os ''gid_t'' * ret ctx)) s)"

definition post_readlinkat_hook :: "os \<Rightarrow> ('a, 's) tag_ops \<Rightarrow> ('a, 's) sys hook" where
  "post_readlinkat_hook os T tid ctx s =
    (if sint (ret ctx) \<le> 0 then Inr s else clrn T (arg ctx 2) (ucast (ret ctx)) s)"

text \<open>The callback that changes the context it was given.\<close>

definition post_mmap_hook :: "os \<Rightarrow> ('a, 's) tag_ops \<Rightarrow> ('a, 's) sys hook" where
  "post_mmap_hook os T tid ctx s =
    (if ret ctx = -1 then Inr s else
      let offset = arg ctx 1;
          offset = (if offset < PAGE_SZ then PAGE_SZ else offset + PAGE_SZ - offset mod PAGE_SZ);
          ctx = (if ucast (arg ctx 3) AND MAP_GROWSDOWN \<noteq> 0 then ctx\<lparr>ret := ret ctx - offset\<rparr> else ctx)
      in clrn T (ret ctx) (ucast offset) (set_syscall_ctx tid ctx s))"

text \<open>
  The vectors of \<open>readv\<close>: \<open>tot\<close> counts the bytes that the vectors so far do not account for. The
  last argument of the loop is the number of vectors left.
\<close>

primrec readv_iovs :: "os \<Rightarrow> ('a, 's) tag_ops \<Rightarrow> u64 \<Rightarrow> nat \<Rightarrow> nat \<Rightarrow> u64 \<Rightarrow> ('a, 's) sys \<Rightarrow> serror + ('a, 's) sys" where
  "readv_iovs os T iovs i 0 tot s = Inr s"
| "readv_iovs os T iovs i (Suc n) tot s =
    (if tot > 0 then
      let iov = iovs + of_nat i * sizeof os ''struct iovec'' in
      bindE (load64 os (iov + offsetof os ''struct iovec'' ''iov_len'')) (\<lambda>iov_len.
      let iov_tot = (if tot \<ge> iov_len then iov_len else tot) in
      bindE (load64 os (iov + offsetof os ''struct iovec'' ''iov_base'')) (\<lambda>iov_base.
      bindE (clrn T iov_base (ucast iov_tot) s) (readv_iovs os T iovs (Suc i) n (tot - iov_tot))))
    else Inr s)"

definition post_readv_hook :: "os \<Rightarrow> ('a, 's) tag_ops \<Rightarrow> ('a, 's) sys hook" where
  "post_readv_hook os T tid ctx s =
    (if sint (ret ctx) \<le> 0 then Inr s else readv_iovs os T (arg ctx 1) 0 (nat (sint (ucast (arg ctx 2) :: u32))) (ret ctx) s)"

definition post_epoll_wait_hook :: "os \<Rightarrow> ('a, 's) tag_ops \<Rightarrow> ('a, 's) sys hook" where
  "post_epoll_wait_hook os T tid ctx s =
    (if sint (ret ctx) \<le> 0 then Inr s else clrn T (arg ctx 1) (ucast (sizeof os ''struct epoll_event'' * ret ctx)) s)"

definition post_poll_hook :: "os \<Rightarrow> ('a, 's) tag_ops \<Rightarrow> ('a, 's) sys hook" where
  "post_poll_hook os T tid ctx s =
    (if sint (ret ctx) \<le> 0 then Inr s else
      for_loop (unat (arg ctx 1)) (\<lambda>i.
        let pfd = arg ctx 0 + of_nat i * sizeof os ''struct pollfd''
        in clrn T (pfd + offsetof os ''struct pollfd'' ''revents'') 2) s)"

definition post_mq_timedreceive_hook :: "os \<Rightarrow> ('a, 's) tag_ops \<Rightarrow> ('a, 's) sys hook" where
  "post_mq_timedreceive_hook os T tid ctx s =
    (if sint (ret ctx) \<le> 0 then Inr s else
      bindE (clrn T (arg ctx 1) (ucast (ret ctx)) s) (\<lambda>s.
      if arg ctx 3 \<noteq> 0 then clrn T (arg ctx 3) 8 s else Inr s))"

definition post_get_mempolicy_hook :: "os \<Rightarrow> ('a, 's) tag_ops \<Rightarrow> ('a, 's) sys hook" where
  "post_get_mempolicy_hook os T tid ctx s =
    (if sint (ret ctx) < 0 then Inr s
    else if arg ctx 4 = 0 then
      bindE (clrn T (arg ctx 0) 4 s) (clrn T (arg ctx 1) 8)
    else if arg ctx 4 AND MPOL_F_MEMS_ALLOWED \<noteq> 0 then clrn T (arg ctx 1) 8 s
    else if arg ctx 4 AND MPOL_F_ADDR \<noteq> 0 \<and> arg ctx 4 AND MPOL_F_NODE = 0 then
      bindE (if arg ctx 0 \<noteq> 0 then clrn T (arg ctx 0) 4 s else Inr s) (\<lambda>s.
      if arg ctx 1 \<noteq> 0 then clrn T (arg ctx 1) 8 s else Inr s)
    else if arg ctx 4 AND MPOL_F_ADDR \<noteq> 0 \<and> arg ctx 4 AND MPOL_F_NODE \<noteq> 0 then clrn T (arg ctx 0) 4 s
    else if arg ctx 4 AND MPOL_F_NODE \<noteq> 0 then clrn T (arg ctx 0) 4 s
    else Inr s)"

definition post_lookup_dcookie_hook :: "os \<Rightarrow> ('a, 's) tag_ops \<Rightarrow> ('a, 's) sys hook" where
  "post_lookup_dcookie_hook os T tid ctx s =
    (if sint (ret ctx) \<le> 0 then Inr s else clrn T (arg ctx 1) (ucast (ret ctx)) s)"

definition post_io_getevents_hook :: "os \<Rightarrow> ('a, 's) tag_ops \<Rightarrow> ('a, 's) sys hook" where
  "post_io_getevents_hook os T tid ctx s =
    (if sint (ret ctx) \<le> 0 then Inr s else
      bindE (clrn T (arg ctx 3) (ucast (sizeof os ''struct io_event'' * ret ctx)) s) (\<lambda>s.
      if arg ctx 4 \<noteq> 0 then clrn T (arg ctx 4) (ucast (sizeof os ''struct timespec'')) s else Inr s))"

definition post_listxattr_hook :: "os \<Rightarrow> ('a, 's) tag_ops \<Rightarrow> ('a, 's) sys hook" where
  "post_listxattr_hook os T tid ctx s =
    (if sint (ret ctx) \<le> 0 \<or> arg ctx 1 = 0 then Inr s else clrn T (arg ctx 1) (ucast (ret ctx)) s)"

definition post_getxattr_hook :: "os \<Rightarrow> ('a, 's) tag_ops \<Rightarrow> ('a, 's) sys hook" where
  "post_getxattr_hook os T tid ctx s =
    (if sint (ret ctx) \<le> 0 \<or> arg ctx 2 = 0 then Inr s else clrn T (arg ctx 2) (ucast (ret ctx)) s)"

definition post_getdents_hook :: "os \<Rightarrow> ('a, 's) tag_ops \<Rightarrow> ('a, 's) sys hook" where
  "post_getdents_hook os T tid ctx s =
    (if sint (ret ctx) \<le> 0 then Inr s else clrn T (arg ctx 1) (ucast (ret ctx)) s)"

definition post_mincore_hook :: "os \<Rightarrow> ('a, 's) tag_ops \<Rightarrow> ('a, 's) sys hook" where
  "post_mincore_hook os T tid ctx s =
    (if sint (ret ctx) < 0 then Inr s else clrn T (arg ctx 2) (ucast ((arg ctx 1 + PAGE_SZ - 1) div PAGE_SZ)) s)"

definition post_getcwd_hook :: "os \<Rightarrow> ('a, 's) tag_ops \<Rightarrow> ('a, 's) sys hook" where
  "post_getcwd_hook os T tid ctx s =
    (if sint (ret ctx) \<le> 0 then Inr s else clrn T (arg ctx 0) (ucast (ret ctx)) s)"

definition post_rt_sigpending_hook :: "os \<Rightarrow> ('a, 's) tag_ops \<Rightarrow> ('a, 's) sys hook" where
  "post_rt_sigpending_hook os T tid ctx s =
    (if sint (ret ctx) < 0 then Inr s else clrn T (arg ctx 0) (ucast (arg ctx 1)) s)"

definition post_quotactl_hook :: "os \<Rightarrow> ('a, 's) tag_ops \<Rightarrow> ('a, 's) sys hook" where
  "post_quotactl_hook os T tid ctx s =
    (if sint (ret ctx) < 0 then Inr s else
      let cmd = ucast (arg ctx 0) :: u32;
          off = (if cmd = Q_GETFMT then Some 4
            else if cmd = Q_GETINFO then Some (sizeof_src if_dqinfo)
            else if cmd = Q_GETQUOTA then Some (sizeof_src if_dqblk)
            else if cmd = Q_XGETQSTAT then Some (sizeof_src fs_quota_stat)
            else if cmd = Q_XGETQUOTA then Some (sizeof_src fs_disk_quota)
            else None)
      in case off of None \<Rightarrow> Inr s | Some off \<Rightarrow> clrn T (arg ctx 3) (ucast off) s)"

definition post_modify_ldt_hook :: "os \<Rightarrow> ('a, 's) tag_ops \<Rightarrow> ('a, 's) sys hook" where
  "post_modify_ldt_hook os T tid ctx s =
    (if sint (ret ctx) \<le> 0 then Inr s else clrn T (arg ctx 1) (ucast (ret ctx)) s)"

definition post_fcntl_hook :: "os \<Rightarrow> ('a, 's) tag_ops \<Rightarrow> ('a, 's) sys hook" where
  "post_fcntl_hook os T tid ctx s =
    (if sint (ret ctx) < 0 then Inr s else
      let cmd = ucast (arg ctx 1) :: u32 in
      if cmd = F_GETLK then clrn T (arg ctx 2) (ucast (sizeof os ''struct flock'')) s
      else if cmd = F_GETOWN_EX then clrn T (arg ctx 2) (ucast (sizeof os ''struct f_owner_ex'')) s
      else Inr s)"

definition post_syslog_hook :: "os \<Rightarrow> ('a, 's) tag_ops \<Rightarrow> ('a, 's) sys hook" where
  "post_syslog_hook os T tid ctx s =
    (if sint (ret ctx) \<le> 0 then Inr s
    else if ucast (arg ctx 0) \<in> {2, 3, 4 :: u32} then clrn T (arg ctx 1) (ucast (ret ctx)) s
    else Inr s)"

definition post_sysctl_hook :: "os \<Rightarrow> ('a, 's) tag_ops \<Rightarrow> ('a, 's) sys hook" where
  "post_sysctl_hook os T tid ctx s =
    (if sint (ret ctx) < 0 then Inr s else
      let sa = arg ctx 0; fld = (\<lambda>f. load64 os (sa + offsetof os ''struct __sysctl_args'' f)) in
      bindE (fld ''newval'') (\<lambda>newval.
      bindE (fld ''newlen'') (\<lambda>newlen.
      bindE (clrn T newval (ucast newlen) s) (\<lambda>s.
      bindE (fld ''oldval'') (\<lambda>oldval.
      if oldval \<noteq> 0 then
        bindE (fld ''oldlenp'') (\<lambda>oldlenp.
        bindE (load64 os oldlenp) (\<lambda>oldlen.
        bindE (clrn T oldval (ucast oldlen) s)
          (clrn T oldlenp 8)))
      else Inr s)))))"

text \<open>
  What \<open>recvmsg\<close> and \<open>recvmmsg\<close> do for one message header: the address of the sender, the
  ancillary data, and the flags, each with the length the kernel wrote.
\<close>

definition msghdr_field :: "os \<Rightarrow> u64 \<Rightarrow> string \<Rightarrow> u64" where
  "msghdr_field os m f = m + offsetof os ''struct msghdr'' f"

definition clear_msghdr :: "os \<Rightarrow> ('a, 's) tag_ops \<Rightarrow> u64 \<Rightarrow> ('a, 's) sys \<Rightarrow> serror + ('a, 's) sys" where
  "clear_msghdr os T m s =
    bindE (load64 os (msghdr_field os m ''msg_name'')) (\<lambda>msg_name.
    bindE (if msg_name \<noteq> 0 then
        bindE (load32 os (msghdr_field os m ''msg_namelen'')) (\<lambda>len.
        bindE (clrn T msg_name len s)
          (clrn T (msghdr_field os m ''msg_namelen'') 4))
      else Inr s) (\<lambda>s.
    bindE (load64 os (msghdr_field os m ''msg_control'')) (\<lambda>msg_control.
    bindE (if msg_control \<noteq> 0 then
        bindE (load64 os (msghdr_field os m ''msg_controllen'')) (\<lambda>len.
        bindE (clrn T msg_control (ucast len) s)
          (clrn T (msghdr_field os m ''msg_controllen'') 4))
      else Inr s)
      (clrn T (msghdr_field os m ''msg_flags'') 4))))"

primrec recv_iovs :: "os \<Rightarrow> ('a, 's) tag_ops \<Rightarrow> u64 \<Rightarrow> nat \<Rightarrow> nat \<Rightarrow> u64 \<Rightarrow> ('a, 's) sys \<Rightarrow> serror + ('a, 's) sys" where
  "recv_iovs os T m i 0 tot s = Inr s"
| "recv_iovs os T m i (Suc n) tot s =
    (if tot > 0 then
      bindE (load64 os (msghdr_field os m ''msg_iov'')) (\<lambda>iovs.
      let iov = iovs + of_nat i * sizeof os ''struct iovec'' in
      bindE (load64 os (iov + offsetof os ''struct iovec'' ''iov_len'')) (\<lambda>iov_len.
      let iov_tot = (if tot > iov_len then iov_len else tot) in
      bindE (load64 os (iov + offsetof os ''struct iovec'' ''iov_base'')) (\<lambda>iov_base.
      bindE (clrn T iov_base (ucast iov_tot) s) (recv_iovs os T m (Suc i) n (tot - iov_tot)))))
    else Inr s)"

definition clear_iovs :: "os \<Rightarrow> ('a, 's) tag_ops \<Rightarrow> u64 \<Rightarrow> u64 \<Rightarrow> ('a, 's) sys \<Rightarrow> serror + ('a, 's) sys" where
  "clear_iovs os T m tot s =
    bindE (load64 os (msghdr_field os m ''msg_iovlen'')) (\<lambda>n.
    recv_iovs os T m 0 (unat n) tot s)"

text \<open>The test for a null pointer before the last call has an empty statement as its body.\<close>

definition post_recvmmsg_hook :: "os \<Rightarrow> ('a, 's) tag_ops \<Rightarrow> ('a, 's) sys hook" where
  "post_recvmmsg_hook os T tid ctx s =
    (if sint (ret ctx) < 0 then Inr s else
      bindE (for_loop (unat (ret ctx)) (\<lambda>i s.
        let msg = arg ctx 1 + of_nat i * sizeof os ''struct mmsghdr'';
            m = msg + offsetof os ''struct mmsghdr'' ''msg_hdr'';
            len = msg + offsetof os ''struct mmsghdr'' ''msg_len''
        in bindE (clear_msghdr os T m s) (\<lambda>s.
           bindE (load32 os len) (\<lambda>tot.
           bindE (clrn T len 4 s)
             (clear_iovs os T m (ucast tot))))) s)
        (clrn T (arg ctx 4) (ucast (sizeof os ''struct timespec''))))"

definition post_msgctl_hook :: "os \<Rightarrow> ('a, 's) tag_ops \<Rightarrow> ('a, 's) sys hook" where
  "post_msgctl_hook os T tid ctx s =
    (if sint (ret ctx) < 0 then Inr s else
      let cmd = ucast (arg ctx 1) :: u32 in
      if cmd = IPC_STAT \<or> cmd = MSG_STAT then clrn T (arg ctx 2) (ucast (sizeof os ''struct msqid_ds'')) s
      else if cmd = IPC_INFO \<or> cmd = MSG_INFO then clrn T (arg ctx 2) (ucast (sizeof os ''struct msginfo'')) s
      else Inr s)"

definition post_shmctl_hook :: "os \<Rightarrow> ('a, 's) tag_ops \<Rightarrow> ('a, 's) sys hook" where
  "post_shmctl_hook os T tid ctx s =
    (if sint (ret ctx) < 0 then Inr s else
      let cmd = ucast (arg ctx 1) :: u32 in
      if cmd = IPC_STAT \<or> cmd = SHM_STAT then clrn T (arg ctx 2) (ucast (sizeof os ''struct shmid_ds'')) s
      else if cmd = IPC_INFO \<or> cmd = SHM_INFO then clrn T (arg ctx 2) (ucast (sizeof os ''struct shminfo'')) s
      else Inr s)"

definition post_semctl_hook :: "os \<Rightarrow> ('a, 's) tag_ops \<Rightarrow> ('a, 's) sys hook" where
  "post_semctl_hook os T tid ctx s =
    (if sint (ret ctx) < 0 then Inr s else
      let su = arg ctx 4; cmd = ucast (arg ctx 2) :: u32 in
      if cmd = IPC_STAT \<or> cmd = SEM_STAT then
        bindE (load64 os su) (\<lambda>buf. clrn T buf (ucast (sizeof os ''struct semid_ds'')) s)
      else if cmd = IPC_INFO \<or> cmd = SEM_INFO then
        bindE (load64 os su) (\<lambda>buf. clrn T buf (ucast (sizeof os ''struct seminfo'')) s)
      else Inr s)"

definition post_msgrcv_hook :: "os \<Rightarrow> ('a, 's) tag_ops \<Rightarrow> ('a, 's) sys hook" where
  "post_msgrcv_hook os T tid ctx s =
    (if sint (ret ctx) \<le> 0 then Inr s else clrn T (arg ctx 1) (ucast (ret ctx + 8)) s)"

definition post_accept_hook :: "os \<Rightarrow> ('a, 's) tag_ops \<Rightarrow> ('a, 's) sys hook" where
  "post_accept_hook os T tid ctx s =
    (if sint (ret ctx) < 0 then Inr s
    else if arg ctx 1 \<noteq> 0 then
      bindE (load32 os (arg ctx 2)) (\<lambda>len.
      bindE (clrn T (arg ctx 1) len s) (clrn T (arg ctx 2) 4))
    else Inr s)"

definition post_recvfrom_hook :: "os \<Rightarrow> ('a, 's) tag_ops \<Rightarrow> ('a, 's) sys hook" where
  "post_recvfrom_hook os T tid ctx s =
    (if sint (ret ctx) \<le> 0 then Inr s else
      bindE (clrn T (arg ctx 1) (ucast (ret ctx)) s) (\<lambda>s.
      if arg ctx 4 \<noteq> 0 then
        bindE (load32 os (arg ctx 5)) (\<lambda>len.
        bindE (clrn T (arg ctx 4) len s) (clrn T (arg ctx 5) 4))
      else Inr s))"

definition post_getsockopt_hook :: "os \<Rightarrow> ('a, 's) tag_ops \<Rightarrow> ('a, 's) sys hook" where
  "post_getsockopt_hook os T tid ctx s =
    (if sint (ret ctx) < 0 then Inr s else
      bindE (load32 os (arg ctx 4)) (\<lambda>len.
      bindE (clrn T (arg ctx 3) len s) (clrn T (arg ctx 4) 4)))"

definition post_recvmsg_hook :: "os \<Rightarrow> ('a, 's) tag_ops \<Rightarrow> ('a, 's) sys hook" where
  "post_recvmsg_hook os T tid ctx s =
    (if sint (ret ctx) \<le> 0 then Inr s else
      bindE (clear_msghdr os T (arg ctx 1) s) (clear_iovs os T (arg ctx 1) (ret ctx)))"

section \<open>What a callback clears\<close>

text \<open>
  \<open>cleared_in T A s s'\<close>: from \<open>s\<close> to \<open>s'\<close> the bytes at the addresses \<open>A\<close> lost their tags, and
  all else that is visible of the taint and of the tainted file is as before.
\<close>

definition cleared_in :: "('a, 's) tag_ops \<Rightarrow> u64 set \<Rightarrow> ('a, 's) sys \<Rightarrow> ('a, 's) sys \<Rightarrow> bool" where
  "cleared_in T A s s' \<longleftrightarrow>
    (\<forall>tid. vcpu (threads_ctx (engine s') tid) = vcpu (threads_ctx (engine s) tid)) \<and>
    tags (engine s') = tags (engine s) \<and>
    fuzzing_fd_set s' = fuzzing_fd_set s \<and> stdin_read_off s' = stdin_read_off s \<and> tainted s' = tainted s \<and>
    (\<forall>a. mem_tag T (tag_dir (engine s')) a = (if a \<in> A then cleared_val T else mem_tag T (tag_dir (engine s)) a))"

definition clears :: "('a, 's) tag_ops \<Rightarrow> u64 set \<Rightarrow> ('a, 's) sys \<Rightarrow> serror + ('a, 's) sys \<Rightarrow> bool" where
  "clears T A s m \<longleftrightarrow> (\<exists>s'. m = Inr s' \<and> cleared_in T A s s')"

text \<open>The addresses that the loop of \<open>tagmap_clrn\<close> runs over.\<close>

definition range_of :: "u64 \<Rightarrow> u32 \<Rightarrow> u64 set" where
  "range_of a n = {a ..< a + ucast n}"

lemma cleared_in_refl [simp]: "cleared_in T {} s s"
  by (simp add: cleared_in_def)

lemma cleared_in_trans: "cleared_in T A s s' \<Longrightarrow> cleared_in T B s' s'' \<Longrightarrow> cleared_in T (A \<union> B) s s''"
  by (simp add: cleared_in_def)

lemma cleared_in_set_ctx [simp]: "cleared_in T A (set_syscall_ctx tid ctx s) s' \<longleftrightarrow> cleared_in T A s s'"
  "cleared_in T A s (set_syscall_ctx tid ctx s') \<longleftrightarrow> cleared_in T A s s'"
  by (auto simp: cleared_in_def set_syscall_ctx_def Let_def)

lemma mem_tag_clrb:
  "mem_tag T (tag_dir_setb_save_mem T dir a (cleared_val T)) b = (if b = a then cleared_val T else mem_tag T dir b)"
proof (cases "outside a")
  case True
  then show ?thesis by (simp add: mem_tag_def tag_dir_getb_as_ptr_def)
qed (simp add: mem_tag_setb_save_mem)

lemma tagmap_clrb_sel [simp]: "threads_ctx (tagmap_clrb T a d) = threads_ctx d" "tags (tagmap_clrb T a d) = tags d"
  "tag_dir (tagmap_clrb T a d) = tag_dir_setb_save_mem T (tag_dir d) a (cleared_val T)"
  by (simp_all add: tagmap_clrb_def tagmap_setb_def)

lemma clrb_loop:
  fixes T :: "('a, 's) tag_ops"
  shows "\<exists>d'. for_loop n (\<lambda>i d. Inr (tagmap_clrb T (a + of_nat i) d)) d = (Inr d' :: serror + ('a, 's) dft) \<and>
    threads_ctx d' = threads_ctx d \<and> tags d' = tags d \<and>
    (\<forall>b. mem_tag T (tag_dir d') b = (if \<exists>i < n. b = a + of_nat i then cleared_val T else mem_tag T (tag_dir d) b))"
proof (induction n)
  case (Suc n)
  then obtain d' where "for_loop n (\<lambda>i d. Inr (tagmap_clrb T (a + of_nat i) d)) d = (Inr d' :: serror + ('a, 's) dft)"
    "threads_ctx d' = threads_ctx d" "tags d' = tags d"
    "\<forall>b. mem_tag T (tag_dir d') b = (if \<exists>i < n. b = a + of_nat i then cleared_val T else mem_tag T (tag_dir d) b)"
    by blast
  then show ?case
    by (auto simp: less_Suc_eq mem_tag_clrb simp del: of_nat_Suc)
qed simp

lemma interval_as_offsets: "(\<exists>i < unat e - unat a. b = a + of_nat i) \<longleftrightarrow> b \<in> {a ..< (e :: u64)}"
proof
  assume "\<exists>i < unat e - unat a. b = a + of_nat i"
  then obtain i where i: "i < unat e - unat a" "b = a + of_nat i" by blast
  have "unat a + i < 2 ^ 64" using i(1) unsigned_less [of e, where ?'a = nat] by simp
  then have "unat b = unat a + i"
    using i(2) by (simp add: unat_word_ariths unat_of_nat_64)
  then show "b \<in> {a ..< e}" using i(1) by (simp add: word_le_nat_alt word_less_nat_alt)
next
  assume b: "b \<in> {a ..< e}"
  then have "unat b - unat a < unat e - unat a"
    unfolding atLeastLessThan_iff word_le_nat_alt word_less_nat_alt by linarith
  moreover have "b = a + of_nat (unat b - unat a)" using b by (simp add: word_le_nat_alt of_nat_diff)
  ultimately show "\<exists>i < unat e - unat a. b = a + of_nat i" by blast
qed

lemma clrn_clears: "clears T (range_of a n) s (clrn T a n s)"
proof -
  obtain d' where "tagmap_clrn T a n (engine s) = Inr d'" "threads_ctx d' = threads_ctx (engine s)" "tags d' = tags (engine s)"
    "\<forall>b. mem_tag T (tag_dir d') b =
      (if b \<in> {a ..< a + ucast n} then cleared_val T else mem_tag T (tag_dir (engine s)) b)"
    using clrb_loop [of "unat (a + ucast n) - unat a" T a "engine s"]
    unfolding tagmap_clrn_def interval_as_offsets by blast
  then show ?thesis by (simp add: clears_def cleared_in_def clrn_def on_engine_def range_of_def)
qed

section \<open>Every callback only clears\<close>

text \<open>
  Whatever its arguments and whatever it reads, a callback either stops at memory that is not
  mapped or only clears tags of memory.
\<close>

definition only_clears :: "('a, 's) tag_ops \<Rightarrow> ('a, 's) sys \<Rightarrow> serror + ('a, 's) sys \<Rightarrow> bool" where
  "only_clears T s m \<longleftrightarrow> m = Inl BadRead \<or> (\<exists>A. clears T A s m)"

named_theorems clearing \<open>outcomes that only clear\<close>

lemma only_clears_Inr [clearing]: "only_clears T s (Inr s)"
  by (auto simp: only_clears_def clears_def intro: cleared_in_refl)

lemma only_clears_clrn [clearing]: "only_clears T s (clrn T a n s)"
  using clrn_clears [of T a n s] by (auto simp: only_clears_def)

lemma only_clears_bind:
  assumes "only_clears T s m" "\<And>s'. only_clears T s' (f s')"
  shows "only_clears T s (bindE m f)"
proof (cases m)
  case (Inr s')
  then obtain A where A: "cleared_in T A s s'" using assms(1) by (auto simp: only_clears_def clears_def)
  show ?thesis using assms(2) [of s'] A Inr
    by (auto simp: only_clears_def clears_def intro: cleared_in_trans)
qed (use assms(1) in \<open>simp add: only_clears_def clears_def\<close>)

lemma only_clears_load [clearing]:
  "(\<And>v. only_clears T s (f v)) \<Longrightarrow> only_clears T s (bindE (load64 os a) f)"
  "(\<And>w. only_clears T s (g w)) \<Longrightarrow> only_clears T s (bindE (load32 os a) g)"
  by (auto simp: load64_def load32_def only_clears_def split: option.split)

lemma only_clears_if [clearing]:
  "(b \<Longrightarrow> only_clears T s m) \<Longrightarrow> (\<not> b \<Longrightarrow> only_clears T s m') \<Longrightarrow> only_clears T s (if b then m else m')"
  by simp

lemma only_clears_loop [clearing]: "(\<And>i s. only_clears T s (f i s)) \<Longrightarrow> only_clears T s (for_loop n f s)"
  by (induction n) (auto intro: only_clears_bind only_clears_Inr)

lemma only_clears_ctx [clearing]: "only_clears T s (clrn T a n (set_syscall_ctx tid ctx s))"
  using only_clears_clrn [of T "set_syscall_ctx tid ctx s" a n] by (simp add: only_clears_def clears_def)

lemma only_clears_option [clearing]:
  "only_clears T s m \<Longrightarrow> (\<And>x. only_clears T s (f x)) \<Longrightarrow> only_clears T s (case v of None \<Rightarrow> m | Some x \<Rightarrow> f x)"
  by (simp split: option.split)

lemma readv_iovs_clears [clearing]: "only_clears T s (readv_iovs os T iovs i n tot s)"
  by (induction n arbitrary: i tot s) (auto simp: Let_def intro!: clearing only_clears_bind)

lemma recv_iovs_clears [clearing]: "only_clears T s (recv_iovs os T m i n tot s)"
  by (induction n arbitrary: i tot s) (auto simp: Let_def intro!: clearing only_clears_bind)

lemma clear_msghdr_clears [clearing]: "only_clears T s (clear_msghdr os T m s)"
  unfolding clear_msghdr_def by (intro clearing only_clears_bind)

lemma clear_iovs_clears [clearing]: "only_clears T s (clear_iovs os T m tot s)"
  unfolding clear_iovs_def by (intro clearing)

lemmas post_hook_defs = post_read_hook_def post_getgroups_hook_def post_readlinkat_hook_def post_mmap_hook_def
  post_readv_hook_def post_epoll_wait_hook_def post_poll_hook_def post_mq_timedreceive_hook_def
  post_get_mempolicy_hook_def post_lookup_dcookie_hook_def post_io_getevents_hook_def post_listxattr_hook_def
  post_getxattr_hook_def post_getdents_hook_def post_mincore_hook_def post_getcwd_hook_def
  post_rt_sigpending_hook_def post_quotactl_hook_def post_modify_ldt_hook_def post_fcntl_hook_def
  post_syslog_hook_def post_sysctl_hook_def post_recvmmsg_hook_def post_msgctl_hook_def post_shmctl_hook_def
  post_semctl_hook_def post_msgrcv_hook_def post_accept_hook_def post_recvfrom_hook_def post_getsockopt_hook_def
  post_recvmsg_hook_def

lemma callbacks_clear:
  "only_clears T s (post_read_hook os T tid ctx s)" "only_clears T s (post_getgroups_hook os T tid ctx s)"
  "only_clears T s (post_readlinkat_hook os T tid ctx s)" "only_clears T s (post_mmap_hook os T tid ctx s)"
  "only_clears T s (post_readv_hook os T tid ctx s)" "only_clears T s (post_epoll_wait_hook os T tid ctx s)"
  "only_clears T s (post_poll_hook os T tid ctx s)" "only_clears T s (post_mq_timedreceive_hook os T tid ctx s)"
  "only_clears T s (post_get_mempolicy_hook os T tid ctx s)" "only_clears T s (post_lookup_dcookie_hook os T tid ctx s)"
  "only_clears T s (post_io_getevents_hook os T tid ctx s)" "only_clears T s (post_listxattr_hook os T tid ctx s)"
  "only_clears T s (post_getxattr_hook os T tid ctx s)" "only_clears T s (post_getdents_hook os T tid ctx s)"
  "only_clears T s (post_mincore_hook os T tid ctx s)" "only_clears T s (post_getcwd_hook os T tid ctx s)"
  "only_clears T s (post_rt_sigpending_hook os T tid ctx s)" "only_clears T s (post_quotactl_hook os T tid ctx s)"
  "only_clears T s (post_modify_ldt_hook os T tid ctx s)" "only_clears T s (post_fcntl_hook os T tid ctx s)"
  "only_clears T s (post_syslog_hook os T tid ctx s)" "only_clears T s (post_sysctl_hook os T tid ctx s)"
  "only_clears T s (post_recvmmsg_hook os T tid ctx s)" "only_clears T s (post_msgctl_hook os T tid ctx s)"
  "only_clears T s (post_shmctl_hook os T tid ctx s)" "only_clears T s (post_semctl_hook os T tid ctx s)"
  "only_clears T s (post_msgrcv_hook os T tid ctx s)" "only_clears T s (post_accept_hook os T tid ctx s)"
  "only_clears T s (post_recvfrom_hook os T tid ctx s)" "only_clears T s (post_getsockopt_hook os T tid ctx s)"
  "only_clears T s (post_recvmsg_hook os T tid ctx s)"
  unfolding post_hook_defs Let_def
  by (intro clearing only_clears_bind)+

section \<open>Vectors of buffers\<close>

text \<open>
  The addresses that a list of vectors (base and length) names, in the order in which the
  kernel fills them, and what it means that the memory holds that list.
\<close>

definition iov_addrs :: "(u64 \<times> u64) list \<Rightarrow> u64 list" where
  "iov_addrs vs = concat (map (\<lambda>(b, l). map (\<lambda>j. b + of_nat j) [0..<unat l]) vs)"

primrec iovs_at :: "os \<Rightarrow> u64 \<Rightarrow> nat \<Rightarrow> (u64 \<times> u64) list \<Rightarrow> bool" where
  "iovs_at os iovs i [] \<longleftrightarrow> True"
| "iovs_at os iovs i (v # vs) \<longleftrightarrow>
    (let iov = iovs + of_nat i * sizeof os ''struct iovec'' in
      peek64 os (iov + offsetof os ''struct iovec'' ''iov_base'') = Some (fst v) \<and>
      peek64 os (iov + offsetof os ''struct iovec'' ''iov_len'') = Some (snd v)) \<and>
    iovs_at os iovs (Suc i) vs"

text \<open>A vector that ends inside the address space and is shorter than 4 gigabytes.\<close>

definition iov_fits :: "u64 \<times> u64 \<Rightarrow> bool" where
  "iov_fits v \<longleftrightarrow> unat (fst v) + unat (snd v) < 2 ^ 64 \<and> unat (snd v) < 2 ^ 32"

lemma clears_Inr: "clears T {} s (Inr s)"
  by (simp add: clears_def)

lemma clears_bind: "clears T A s m \<Longrightarrow> (\<And>s'. clears T B s' (f s')) \<Longrightarrow> clears T (A \<union> B) s (bindE m f)"
  by (fastforce simp: clears_def intro: cleared_in_trans)

lemma ucast_fits: "unat (l :: u64) < 2 ^ 32 \<Longrightarrow> (ucast (ucast l :: u32) :: u64) = l"
  by (simp add: word_unat_eq_iff unsigned_ucast_eq unat_take_bit)

lemma range_of_fits:
  fixes b l :: u64
  assumes "unat b + unat l < 2 ^ 64" "unat l < 2 ^ 32"
  shows "range_of b (ucast l) = set (map (\<lambda>j. b + of_nat j) [0..<unat l])"
proof -
  have "unat (b + l) = unat b + unat l" using assms(1) by (simp add: unat_word_ariths)
  then have "x \<in> {b ..< b + l} \<longleftrightarrow> (\<exists>i < unat l. x = b + of_nat i)" for x
    using interval_as_offsets [of "b + l" b x] by simp
  then show ?thesis unfolding range_of_def ucast_fits [OF assms(2)] by auto
qed

lemma take_upt_min: "take t [0..<n] = [0..<min t n]"
  by (cases "t \<le> n") (simp_all add: min_def)

lemma take_iov:
  "take t (iov_addrs (v # vs)) =
    map (\<lambda>j. fst v + of_nat j) [0..<min t (unat (snd v))] @ take (t - unat (snd v)) (iov_addrs vs)"
  by (simp add: iov_addrs_def case_prod_beta take_map take_upt_min)

lemma iov_step:
  assumes "iov_fits v" "l = (if tot < snd v then tot else snd v)"
    and "\<And>s. clears T (set (take (unat (tot - l)) (iov_addrs vs))) s (f s)"
  shows "clears T (set (take (unat tot) (iov_addrs (v # vs)))) s (bindE (clrn T (fst v) (ucast l) s) f)"
proof -
  have l: "unat l = min (unat tot) (unat (snd v))" by (simp add: assms(2) word_less_nat_alt)
  then have "unat (fst v) + unat l < 2 ^ 64" "unat l < 2 ^ 32" using assms(1) by (auto simp: iov_fits_def)
  note r = range_of_fits [OF this]
  have "unat (tot - l) = unat tot - unat (snd v)"
    using l by (subst unat_sub) (auto simp: word_le_nat_alt)
  then have e: "set (take (unat tot) (iov_addrs (v # vs))) =
      range_of (fst v) (ucast l) \<union> set (take (unat (tot - l)) (iov_addrs vs))"
    by (simp add: take_iov r l)
  show ?thesis unfolding e by (rule clears_bind [OF clrn_clears assms(3)])
qed

lemma readv_iovs_exact:
  "iovs_at os iovs i vs \<Longrightarrow> list_all iov_fits vs \<Longrightarrow>
    clears T (set (take (unat tot) (iov_addrs vs))) s (readv_iovs os T iovs i (length vs) tot s)"
proof (induction vs arbitrary: i tot s)
  case (Cons v vs)
  show ?case
  proof (cases "tot > 0")
    case True
    let ?l = "if tot < snd v then tot else snd v"
    have "clears T (set (take (unat tot) (iov_addrs (v # vs)))) s
        (bindE (clrn T (fst v) (ucast ?l) s) (readv_iovs os T iovs (Suc i) (length vs) (tot - ?l)))"
      using Cons by (intro iov_step) auto
    then show ?thesis using True Cons.prems by (simp add: Let_def load64_def not_le if_distrib cong: if_cong)
  qed (simp add: clears_Inr word_gt_0)
qed (simp add: clears_Inr iov_addrs_def)

lemma recv_iovs_exact:
  assumes "peek64 os (msghdr_field os m ''msg_iov'') = Some iovs"
  shows "iovs_at os iovs i vs \<Longrightarrow> list_all iov_fits vs \<Longrightarrow>
    clears T (set (take (unat tot) (iov_addrs vs))) s (recv_iovs os T m i (length vs) tot s)"
proof (induction vs arbitrary: i tot s)
  case (Cons v vs)
  show ?case
  proof (cases "tot > 0")
    case True
    let ?l = "if tot < snd v then tot else snd v"
    have "clears T (set (take (unat tot) (iov_addrs (v # vs)))) s
        (bindE (clrn T (fst v) (ucast ?l) s) (recv_iovs os T m (Suc i) (length vs) (tot - ?l)))"
      using Cons by (intro iov_step) auto
    moreover have "(if snd v < tot then snd v else tot) = ?l" by auto
    ultimately show ?thesis using True Cons.prems assms by (simp add: Let_def load64_def)
  qed (simp add: clears_Inr word_gt_0)
qed (simp add: clears_Inr iov_addrs_def)

text \<open>
  \<open>readv\<close> has cleared the first \<open>ret\<close> bytes of the concatenation of its buffers, whatever the
  way they are cut into vectors.
\<close>

lemma post_readv_exact:
  assumes "0 < sint (ret ctx)" "iovs_at os (arg ctx 1) 0 vs" "list_all iov_fits vs"
    and "length vs = nat (sint (ucast (arg ctx 2) :: u32))"
  shows "clears T (set (take (unat (ret ctx)) (iov_addrs vs))) s (post_readv_hook os T tid ctx s)"
  using assms readv_iovs_exact [of os "arg ctx 1" 0 vs T "ret ctx" s] by (simp add: post_readv_hook_def)

end
