(* ===== verification/SyscallTable.thy ===== *)
theory SyscallTable
  imports SyscallPost
begin

text \<open>
  The table of the system calls 0 to 315 (\<open>syscall_desc\<close> of \<open>src/syscall_desc.cpp\<close>) in pieces of
  40, and the two functions that the tool runs around a system call (\<open>sysenter_save\<close> and
  \<open>sysexit_save\<close> of \<open>src/libdft_api.cpp\<close>).
\<close>

section \<open>The table\<close>

definition desc_entry ::
  "nat \<Rightarrow> nat \<Rightarrow> nat \<Rightarrow> u64 list \<Rightarrow> 'x hook option \<Rightarrow> 'x hook option \<Rightarrow> 'x syscall_desc_t" where
  "desc_entry n sa ra ma p q =
    \<lparr>nargs = n, save_args = sa, retval_args = ra, map_args = ma, desc_pre = p, desc_post = q\<rparr>"

definition syscalls_0_39 :: "os \<Rightarrow> ('a, 's) tag_ops \<Rightarrow> ('a, 's) sys syscall_desc_t list" where
  "syscalls_0_39 os T = [
    desc_entry 3 1 0 [0, 0, 0, 0, 0, 0] None (Some (post_read_hook os T)),
    desc_entry 3 0 0 [0, 0, 0, 0, 0, 0] None None,
    desc_entry 3 0 0 [0, 0, 0, 0, 0, 0] None None,
    desc_entry 1 0 0 [0, 0, 0, 0, 0, 0] None None,
    desc_entry 2 0 1 [0, sizeof os ''struct stat'', 0, 0, 0, 0] None None,
    desc_entry 2 0 1 [0, sizeof os ''struct stat'', 0, 0, 0, 0] None None,
    desc_entry 2 0 1 [0, sizeof os ''struct stat'', 0, 0, 0, 0] None None,
    desc_entry 3 1 0 [0, 0, 0, 0, 0, 0] None (Some (post_poll_hook os T)),
    desc_entry 3 0 0 [0, 0, 0, 0, 0, 0] None None,
    desc_entry 6 1 0 [0, 0, 0, 0, 0, 0] None (Some (post_mmap_hook os T)),
    desc_entry 3 0 0 [0, 0, 0, 0, 0, 0] None None,
    desc_entry 2 0 0 [0, 0, 0, 0, 0, 0] None None,
    desc_entry 1 0 0 [0, 0, 0, 0, 0, 0] None None,
    desc_entry 3 0 1 [0, 0, sizeof os ''struct sigaction'', 0, 0, 0] None None,
    desc_entry 4 0 1 [0, sizeof os ''sigset_t'', sizeof os ''sigset_t'', 0, 0, 0] None None,
    desc_entry 1 0 0 [0, 0, 0, 0, 0, 0] None None,
    desc_entry 3 1 0 [0, 0, 0, 0, 0, 0] None None,
    desc_entry 4 1 0 [0, 0, 0, 0, 0, 0] None (Some (post_read_hook os T)),
    desc_entry 4 0 0 [0, 0, 0, 0, 0, 0] None None,
    desc_entry 3 1 0 [0, 0, 0, 0, 0, 0] None (Some (post_readv_hook os T)),
    desc_entry 3 0 0 [0, 0, 0, 0, 0, 0] None None,
    desc_entry 2 0 0 [0, 0, 0, 0, 0, 0] None None,
    desc_entry 1 0 1 [8, 0, 0, 0, 0, 0] None None,
    desc_entry 5 0 1 [0, sizeof os ''fd_set'', sizeof os ''fd_set'', sizeof os ''fd_set'', sizeof os ''struct timeval'', 0] None None,
    desc_entry 0 0 0 [0, 0, 0, 0, 0, 0] None None,
    desc_entry 5 0 0 [0, 0, 0, 0, 0, 0] None None,
    desc_entry 3 0 0 [0, 0, 0, 0, 0, 0] None None,
    desc_entry 3 1 0 [0, 0, 0, 0, 0, 0] None (Some (post_mincore_hook os T)),
    desc_entry 3 0 0 [0, 0, 0, 0, 0, 0] None None,
    desc_entry 3 0 0 [0, 0, 0, 0, 0, 0] None None,
    desc_entry 3 0 0 [0, 0, 0, 0, 0, 0] None None,
    desc_entry 3 1 0 [0, 0, 0, 0, 0, 0] None (Some (post_shmctl_hook os T)),
    desc_entry 1 0 0 [0, 0, 0, 0, 0, 0] None None,
    desc_entry 2 0 0 [0, 0, 0, 0, 0, 0] None None,
    desc_entry 0 0 0 [0, 0, 0, 0, 0, 0] None None,
    desc_entry 2 0 1 [sizeof os ''struct timespec'', sizeof os ''struct timespec'', 0, 0, 0, 0] None None,
    desc_entry 2 0 1 [0, sizeof os ''struct itimerval'', 0, 0, 0, 0] None None,
    desc_entry 1 0 0 [0, 0, 0, 0, 0, 0] None None,
    desc_entry 3 0 1 [0, 0, sizeof os ''struct itimerval'', 0, 0, 0] None None,
    desc_entry 0 0 0 [0, 0, 0, 0, 0, 0] None None]"

definition syscalls_40_79 :: "os \<Rightarrow> ('a, 's) tag_ops \<Rightarrow> ('a, 's) sys syscall_desc_t list" where
  "syscalls_40_79 os T = [
    desc_entry 4 0 1 [0, 0, sizeof os ''off_t'', 0, 0, 0] None None,
    desc_entry 3 0 0 [0, 0, 0, 0, 0, 0] None None,
    desc_entry 3 0 1 [0, sizeof os ''struct sockaddr'', 0, 0, 0, 0] None None,
    desc_entry 3 1 0 [0, 0, 0, 0, 0, 0] None (Some (post_accept_hook os T)),
    desc_entry 6 0 1 [0, 0, 0, 0, sizeof os ''struct sockaddr'', 0] None None,
    desc_entry 6 1 0 [0, 0, 0, 0, 0, 0] None (Some (post_recvfrom_hook os T)),
    desc_entry 3 0 1 [0, sizeof os ''struct msghdr'', 0, 0, 0, 0] None None,
    desc_entry 3 1 0 [0, 0, 0, 0, 0, 0] None (Some (post_recvmsg_hook os T)),
    desc_entry 2 0 0 [0, 0, 0, 0, 0, 0] None None,
    desc_entry 3 0 1 [0, sizeof os ''struct sockaddr'', 0, 0, 0, 0] None None,
    desc_entry 2 0 0 [0, 0, 0, 0, 0, 0] None None,
    desc_entry 3 1 0 [0, 0, 0, 0, 0, 0] None (Some (post_accept_hook os T)),
    desc_entry 3 1 0 [0, 0, 0, 0, 0, 0] None (Some (post_accept_hook os T)),
    desc_entry 4 0 1 [0, 0, 0, 8, 0, 0] None None,
    desc_entry 5 0 1 [0, 0, 0, 0, 0, 0] None None,
    desc_entry 5 1 0 [0, 0, 0, 0, 0, 0] None (Some (post_getsockopt_hook os T)),
    desc_entry 4 0 1 [0, 0, 0, 0, 0, 0] None None,
    desc_entry 0 0 0 [0, 0, 0, 0, 0, 0] None None,
    desc_entry 0 0 0 [0, 0, 0, 0, 0, 0] None None,
    desc_entry 3 0 0 [0, 0, 0, 0, 0, 0] None None,
    desc_entry 1 0 0 [0, 0, 0, 0, 0, 0] None None,
    desc_entry 4 0 1 [0, 4, 0, sizeof os ''struct rusage'', 0, 0] None None,
    desc_entry 2 0 0 [0, 0, 0, 0, 0, 0] None None,
    desc_entry 1 0 1 [sizeof os ''struct utsname'', 0, 0, 0, 0, 0] None None,
    desc_entry 3 0 0 [0, 0, 0, 0, 0, 0] None None,
    desc_entry 3 0 0 [0, 0, 0, 0, 0, 0] None None,
    desc_entry 4 1 0 [0, 0, 0, 0, 0, 0] None (Some (post_semctl_hook os T)),
    desc_entry 1 0 1 [0, 0, 0, 0, 0, 0] None None,
    desc_entry 2 0 0 [0, 0, 0, 0, 0, 0] None None,
    desc_entry 4 0 0 [0, 0, 0, 0, 0, 0] None None,
    desc_entry 5 1 0 [0, 0, 0, 0, 0, 0] None (Some (post_msgrcv_hook os T)),
    desc_entry 3 1 0 [0, 0, 0, 0, 0, 0] None (Some (post_msgctl_hook os T)),
    desc_entry 3 1 0 [0, 0, 0, 0, 0, 0] None (Some (post_fcntl_hook os T)),
    desc_entry 2 0 0 [0, 0, 0, 0, 0, 0] None None,
    desc_entry 1 0 0 [0, 0, 0, 0, 0, 0] None None,
    desc_entry 1 0 0 [0, 0, 0, 0, 0, 0] None None,
    desc_entry 2 0 0 [0, 0, 0, 0, 0, 0] None None,
    desc_entry 2 0 0 [0, 0, 0, 0, 0, 0] None None,
    desc_entry 3 1 0 [0, 0, 0, 0, 0, 0] None (Some (post_getdents_hook os T)),
    desc_entry 2 1 0 [0, 0, 0, 0, 0, 0] None (Some (post_getcwd_hook os T))]"

definition syscalls_80_119 :: "os \<Rightarrow> ('a, 's) tag_ops \<Rightarrow> ('a, 's) sys syscall_desc_t list" where
  "syscalls_80_119 os T = [
    desc_entry 1 0 0 [0, 0, 0, 0, 0, 0] None None,
    desc_entry 1 0 0 [0, 0, 0, 0, 0, 0] None None,
    desc_entry 2 0 0 [0, 0, 0, 0, 0, 0] None None,
    desc_entry 2 0 0 [0, 0, 0, 0, 0, 0] None None,
    desc_entry 1 0 0 [0, 0, 0, 0, 0, 0] None None,
    desc_entry 2 0 0 [0, 0, 0, 0, 0, 0] None None,
    desc_entry 2 0 0 [0, 0, 0, 0, 0, 0] None None,
    desc_entry 1 0 0 [0, 0, 0, 0, 0, 0] None None,
    desc_entry 2 0 0 [0, 0, 0, 0, 0, 0] None None,
    desc_entry 3 0 1 [0, 0, 0, 0, 0, 0] None None,
    desc_entry 2 0 0 [0, 0, 0, 0, 0, 0] None None,
    desc_entry 2 0 0 [0, 0, 0, 0, 0, 0] None None,
    desc_entry 3 0 0 [0, 0, 0, 0, 0, 0] None None,
    desc_entry 3 0 0 [0, 0, 0, 0, 0, 0] None None,
    desc_entry 3 0 0 [0, 0, 0, 0, 0, 0] None None,
    desc_entry 1 0 0 [0, 0, 0, 0, 0, 0] None None,
    desc_entry 2 0 1 [sizeof os ''struct timeval'', sizeof os ''struct timezone'', 0, 0, 0, 0] None None,
    desc_entry 2 0 1 [0, sizeof os ''struct rlimit'', 0, 0, 0, 0] None None,
    desc_entry 2 0 1 [0, sizeof os ''struct rusage'', 0, 0, 0, 0] None None,
    desc_entry 1 0 1 [sizeof os ''struct sysinfo'', 0, 0, 0, 0, 0] None None,
    desc_entry 1 0 1 [sizeof os ''struct sysinfo'', 0, 0, 0, 0, 0] None None,
    desc_entry 4 0 0 [0, 0, 0, 0, 0, 0] None None,
    desc_entry 0 0 0 [0, 0, 0, 0, 0, 0] None None,
    desc_entry 3 1 0 [0, 0, 0, 0, 0, 0] None (Some (post_syslog_hook os T)),
    desc_entry 0 0 0 [0, 0, 0, 0, 0, 0] None None,
    desc_entry 1 0 0 [0, 0, 0, 0, 0, 0] None None,
    desc_entry 1 0 0 [0, 0, 0, 0, 0, 0] None None,
    desc_entry 0 0 0 [0, 0, 0, 0, 0, 0] None None,
    desc_entry 0 0 0 [0, 0, 0, 0, 0, 0] None None,
    desc_entry 2 0 0 [0, 0, 0, 0, 0, 0] None None,
    desc_entry 0 0 0 [0, 0, 0, 0, 0, 0] None None,
    desc_entry 0 0 0 [0, 0, 0, 0, 0, 0] None None,
    desc_entry 0 0 0 [0, 0, 0, 0, 0, 0] None None,
    desc_entry 2 0 0 [0, 0, 0, 0, 0, 0] None None,
    desc_entry 2 0 0 [0, 0, 0, 0, 0, 0] None None,
    desc_entry 2 1 0 [0, 0, 0, 0, 0, 0] None (Some (post_getgroups_hook os T)),
    desc_entry 2 0 0 [0, 0, 0, 0, 0, 0] None None,
    desc_entry 3 0 0 [0, 0, 0, 0, 0, 0] None None,
    desc_entry 3 0 1 [sizeof os ''uid_t'', sizeof os ''uid_t'', sizeof os ''uid_t'', 0, 0, 0] None None,
    desc_entry 3 0 0 [0, 0, 0, 0, 0, 0] None None]"

definition syscalls_120_159 :: "os \<Rightarrow> ('a, 's) tag_ops \<Rightarrow> ('a, 's) sys syscall_desc_t list" where
  "syscalls_120_159 os T = [
    desc_entry 3 0 1 [sizeof_src git_t, sizeof_src git_t, sizeof_src git_t, 0, 0, 0] None None,
    desc_entry 1 0 0 [0, 0, 0, 0, 0, 0] None None,
    desc_entry 1 0 0 [0, 0, 0, 0, 0, 0] None None,
    desc_entry 1 0 0 [0, 0, 0, 0, 0, 0] None None,
    desc_entry 1 0 0 [0, 0, 0, 0, 0, 0] None None,
    desc_entry 2 0 0 [0, 0, 0, 0, 0, 0] None None,
    desc_entry 2 0 0 [0, 0, 0, 0, 0, 0] None None,
    desc_entry 2 1 0 [0, 0, 0, 0, 0, 0] None (Some (post_rt_sigpending_hook os T)),
    desc_entry 4 0 1 [0, sizeof os ''siginfo_t'', 0, 0, 0, 0] None None,
    desc_entry 3 0 1 [0, 0, sizeof os ''siginfo_t'', 0, 0, 0] None None,
    desc_entry 1 0 0 [0, 0, 0, 0, 0, 0] None None,
    desc_entry 2 0 1 [0, sizeof os ''stack_t'', 0, 0, 0, 0] None None,
    desc_entry 2 0 0 [0, 0, 0, 0, 0, 0] None None,
    desc_entry 3 0 0 [0, 0, 0, 0, 0, 0] None None,
    desc_entry 1 0 0 [0, 0, 0, 0, 0, 0] None None,
    desc_entry 1 0 0 [0, 0, 0, 0, 0, 0] None None,
    desc_entry 2 0 1 [0, sizeof os ''struct ustat'', 0, 0, 0, 0] None None,
    desc_entry 2 0 1 [0, sizeof os ''struct statfs'', 0, 0, 0, 0] None None,
    desc_entry 2 0 1 [0, sizeof os ''struct statfs'', 0, 0, 0, 0] None None,
    desc_entry 3 0 0 [0, 0, 0, 0, 0, 0] None None,
    desc_entry 2 0 0 [0, 0, 0, 0, 0, 0] None None,
    desc_entry 3 0 0 [0, 0, 0, 0, 0, 0] None None,
    desc_entry 2 0 0 [0, 0, 0, 0, 0, 0] None None,
    desc_entry 2 0 1 [0, sizeof os ''struct sched_param'', 0, 0, 0, 0] None None,
    desc_entry 3 0 0 [0, 0, 0, 0, 0, 0] None None,
    desc_entry 1 0 0 [0, 0, 0, 0, 0, 0] None None,
    desc_entry 1 0 0 [0, 0, 0, 0, 0, 0] None None,
    desc_entry 1 0 0 [0, 0, 0, 0, 0, 0] None None,
    desc_entry 2 0 1 [0, sizeof os ''struct timespec'', 0, 0, 0, 0] None None,
    desc_entry 2 0 0 [0, 0, 0, 0, 0, 0] None None,
    desc_entry 2 0 0 [0, 0, 0, 0, 0, 0] None None,
    desc_entry 1 0 0 [0, 0, 0, 0, 0, 0] None None,
    desc_entry 0 0 0 [0, 0, 0, 0, 0, 0] None None,
    desc_entry 0 0 0 [0, 0, 0, 0, 0, 0] None None,
    desc_entry 3 1 0 [0, 0, 0, 0, 0, 0] None (Some (post_modify_ldt_hook os T)),
    desc_entry 2 0 0 [0, 0, 0, 0, 0, 0] None None,
    desc_entry 1 1 0 [0, 0, 0, 0, 0, 0] None (Some (post_sysctl_hook os T)),
    desc_entry 5 0 0 [0, 0, 0, 0, 0, 0] None None,
    desc_entry 2 0 1 [0, 0, 0, 0, 0, 0] None None,
    desc_entry 1 0 1 [sizeof os ''struct timex'', 0, 0, 0, 0, 0] None None]"

definition syscalls_160_199 :: "os \<Rightarrow> ('a, 's) tag_ops \<Rightarrow> ('a, 's) sys syscall_desc_t list" where
  "syscalls_160_199 os T = [
    desc_entry 2 0 0 [0, 0, 0, 0, 0, 0] None None,
    desc_entry 1 0 0 [0, 0, 0, 0, 0, 0] None None,
    desc_entry 0 0 0 [0, 0, 0, 0, 0, 0] None None,
    desc_entry 1 0 0 [0, 0, 0, 0, 0, 0] None None,
    desc_entry 2 0 0 [0, 0, 0, 0, 0, 0] None None,
    desc_entry 5 0 0 [0, 0, 0, 0, 0, 0] None None,
    desc_entry 2 0 0 [0, 0, 0, 0, 0, 0] None None,
    desc_entry 2 0 0 [0, 0, 0, 0, 0, 0] None None,
    desc_entry 1 0 0 [0, 0, 0, 0, 0, 0] None None,
    desc_entry 4 0 0 [0, 0, 0, 0, 0, 0] None None,
    desc_entry 2 0 0 [0, 0, 0, 0, 0, 0] None None,
    desc_entry 2 0 0 [0, 0, 0, 0, 0, 0] None None,
    desc_entry 1 0 0 [0, 0, 0, 0, 0, 0] None None,
    desc_entry 3 0 0 [0, 0, 0, 0, 0, 0] None None,
    desc_entry 1 0 0 [0, 0, 0, 0, 0, 0] None None,
    desc_entry 3 0 0 [0, 0, 0, 0, 0, 0] None None,
    desc_entry 2 0 0 [0, 0, 0, 0, 0, 0] None None,
    desc_entry 1 0 0 [0, 0, 0, 0, 0, 0] None None,
    desc_entry 1 0 0 [0, 0, 0, 0, 0, 0] None None,
    desc_entry 4 1 0 [0, 0, 0, 0, 0, 0] None (Some (post_quotactl_hook os T)),
    desc_entry 1 0 0 [0, 0, 0, 0, 0, 0] None None,
    desc_entry 1 0 0 [0, 0, 0, 0, 0, 0] None None,
    desc_entry 1 0 0 [0, 0, 0, 0, 0, 0] None None,
    desc_entry 1 0 0 [0, 0, 0, 0, 0, 0] None None,
    desc_entry 1 0 0 [0, 0, 0, 0, 0, 0] None None,
    desc_entry 1 0 0 [0, 0, 0, 0, 0, 0] None None,
    desc_entry 0 0 0 [0, 0, 0, 0, 0, 0] None None,
    desc_entry 3 0 0 [0, 0, 0, 0, 0, 0] None None,
    desc_entry 5 0 0 [0, 0, 0, 0, 0, 0] None None,
    desc_entry 5 0 0 [0, 0, 0, 0, 0, 0] None None,
    desc_entry 5 0 0 [0, 0, 0, 0, 0, 0] None None,
    desc_entry 4 1 0 [0, 0, 0, 0, 0, 0] None (Some (post_getxattr_hook os T)),
    desc_entry 4 1 0 [0, 0, 0, 0, 0, 0] None (Some (post_getxattr_hook os T)),
    desc_entry 4 1 0 [0, 0, 0, 0, 0, 0] None (Some (post_getxattr_hook os T)),
    desc_entry 3 1 0 [0, 0, 0, 0, 0, 0] None (Some (post_listxattr_hook os T)),
    desc_entry 3 1 0 [0, 0, 0, 0, 0, 0] None (Some (post_listxattr_hook os T)),
    desc_entry 3 1 0 [0, 0, 0, 0, 0, 0] None (Some (post_listxattr_hook os T)),
    desc_entry 2 0 0 [0, 0, 0, 0, 0, 0] None None,
    desc_entry 2 0 0 [0, 0, 0, 0, 0, 0] None None,
    desc_entry 2 0 0 [0, 0, 0, 0, 0, 0] None None]"

definition syscalls_200_239 :: "os \<Rightarrow> ('a, 's) tag_ops \<Rightarrow> ('a, 's) sys syscall_desc_t list" where
  "syscalls_200_239 os T = [
    desc_entry 2 0 0 [0, 0, 0, 0, 0, 0] None None,
    desc_entry 1 0 1 [sizeof os ''time_t'', 0, 0, 0, 0, 0] None None,
    desc_entry 6 0 0 [0, 0, 0, 0, 0, 0] None None,
    desc_entry 3 0 0 [0, 0, 0, 0, 0, 0] None None,
    desc_entry 3 0 1 [0, 0, sizeof os ''cpu_set_t'', 0, 0, 0] None None,
    desc_entry 1 0 0 [0, 0, 0, 0, 0, 0] None None,
    desc_entry 2 0 1 [0, sizeof os ''aio_context_t'', 0, 0, 0, 0] None None,
    desc_entry 1 0 0 [0, 0, 0, 0, 0, 0] None None,
    desc_entry 4 1 0 [0, 0, 0, 0, 0, 0] None (Some (post_io_getevents_hook os T)),
    desc_entry 3 0 0 [0, 0, 0, 0, 0, 0] None None,
    desc_entry 3 0 1 [0, 0, sizeof os ''struct io_event'', 0, 0, 0] None None,
    desc_entry 1 0 0 [0, 0, 0, 0, 0, 0] None None,
    desc_entry 3 1 0 [0, 0, 0, 0, 0, 0] None (Some (post_lookup_dcookie_hook os T)),
    desc_entry 1 0 0 [0, 0, 0, 0, 0, 0] None None,
    desc_entry 1 0 0 [0, 0, 0, 0, 0, 0] None None,
    desc_entry 1 0 0 [0, 0, 0, 0, 0, 0] None None,
    desc_entry 5 0 0 [0, 0, 0, 0, 0, 0] None None,
    desc_entry 3 1 0 [0, 0, 0, 0, 0, 0] None (Some (post_getdents_hook os T)),
    desc_entry 1 0 0 [0, 0, 0, 0, 0, 0] None None,
    desc_entry 0 0 0 [0, 0, 0, 0, 0, 0] None None,
    desc_entry 4 0 0 [0, 0, 0, 0, 0, 0] None None,
    desc_entry 4 0 0 [0, 0, 0, 0, 0, 0] None None,
    desc_entry 3 0 1 [0, 0, sizeof os ''timer_t'', 0, 0, 0] None None,
    desc_entry 4 0 1 [0, 0, 0, sizeof os ''struct itimerspec'', 0, 0] None None,
    desc_entry 2 0 1 [0, sizeof os ''struct itimerspec'', 0, 0, 0, 0] None None,
    desc_entry 1 0 0 [0, 0, 0, 0, 0, 0] None None,
    desc_entry 1 0 0 [0, 0, 0, 0, 0, 0] None None,
    desc_entry 2 0 0 [0, 0, 0, 0, 0, 0] None None,
    desc_entry 2 0 1 [0, sizeof os ''struct timespec'', 0, 0, 0, 0] None None,
    desc_entry 2 0 1 [0, sizeof os ''struct timespec'', 0, 0, 0, 0] None None,
    desc_entry 4 0 1 [0, 0, 0, sizeof os ''struct timespec'', 0, 0] None None,
    desc_entry 1 0 0 [0, 0, 0, 0, 0, 0] None None,
    desc_entry 4 1 0 [0, 0, 0, 0, 0, 0] None (Some (post_epoll_wait_hook os T)),
    desc_entry 4 0 0 [0, 0, 0, 0, 0, 0] None None,
    desc_entry 3 0 0 [0, 0, 0, 0, 0, 0] None None,
    desc_entry 2 0 0 [0, 0, 0, 0, 0, 0] None None,
    desc_entry 1 0 0 [0, 0, 0, 0, 0, 0] None None,
    desc_entry 6 0 0 [0, 0, 0, 0, 0, 0] None None,
    desc_entry 3 0 0 [0, 0, 0, 0, 0, 0] None None,
    desc_entry 5 1 0 [0, 0, 0, 0, 0, 0] None (Some (post_get_mempolicy_hook os T))]"

definition syscalls_240_279 :: "os \<Rightarrow> ('a, 's) tag_ops \<Rightarrow> ('a, 's) sys syscall_desc_t list" where
  "syscalls_240_279 os T = [
    desc_entry 4 0 0 [0, 0, 0, 0, 0, 0] None None,
    desc_entry 1 0 0 [0, 0, 0, 0, 0, 0] None None,
    desc_entry 5 0 0 [0, 0, 0, 0, 0, 0] None None,
    desc_entry 5 1 0 [0, 0, 0, 0, 0, 0] None (Some (post_mq_timedreceive_hook os T)),
    desc_entry 2 0 0 [0, 0, 0, 0, 0, 0] None None,
    desc_entry 3 0 1 [0, 0, sizeof os ''struct mq_attr'', 0, 0, 0] None None,
    desc_entry 4 0 0 [0, 0, 0, 0, 0, 0] None None,
    desc_entry 5 0 1 [0, 0, sizeof os ''siginfo_t'', 0, sizeof os ''struct rusage'', 0] None None,
    desc_entry 4 0 0 [0, 0, 0, 0, 0, 0] None None,
    desc_entry 4 0 0 [0, 0, 0, 0, 0, 0] None None,
    desc_entry 5 0 0 [0, 0, 0, 0, 0, 0] None None,
    desc_entry 3 0 0 [0, 0, 0, 0, 0, 0] None None,
    desc_entry 2 0 0 [0, 0, 0, 0, 0, 0] None None,
    desc_entry 0 0 0 [0, 0, 0, 0, 0, 0] None None,
    desc_entry 3 0 0 [0, 0, 0, 0, 0, 0] None None,
    desc_entry 2 0 0 [0, 0, 0, 0, 0, 0] None None,
    desc_entry 4 0 0 [0, 0, 0, 0, 0, 0] None None,
    desc_entry 4 0 0 [0, 0, 0, 0, 0, 0] None None,
    desc_entry 3 0 0 [0, 0, 0, 0, 0, 0] None None,
    desc_entry 4 0 0 [0, 0, 0, 0, 0, 0] None None,
    desc_entry 5 0 0 [0, 0, 0, 0, 0, 0] None None,
    desc_entry 3 0 0 [0, 0, 0, 0, 0, 0] None None,
    desc_entry 4 0 1 [0, 0, sizeof os ''struct stat'', 0, 0, 0] None None,
    desc_entry 3 0 0 [0, 0, 0, 0, 0, 0] None None,
    desc_entry 4 0 0 [0, 0, 0, 0, 0, 0] None None,
    desc_entry 5 0 0 [0, 0, 0, 0, 0, 0] None None,
    desc_entry 3 0 0 [0, 0, 0, 0, 0, 0] None None,
    desc_entry 4 1 0 [0, 0, 0, 0, 0, 0] None (Some (post_readlinkat_hook os T)),
    desc_entry 3 0 0 [0, 0, 0, 0, 0, 0] None None,
    desc_entry 3 0 0 [0, 0, 0, 0, 0, 0] None None,
    desc_entry 6 0 1 [0, sizeof os ''fd_set'', sizeof os ''fd_set'', sizeof os ''fd_set'', 0, 0] None None,
    desc_entry 5 1 0 [0, 0, 0, 0, 0, 0] None (Some (post_poll_hook os T)),
    desc_entry 1 0 0 [0, 0, 0, 0, 0, 0] None None,
    desc_entry 2 0 0 [0, 0, 0, 0, 0, 0] None None,
    desc_entry 3 0 1 [0, 8, 8, 0, 0, 0] None None,
    desc_entry 6 0 1 [0, sizeof os ''loff_t'', 0, sizeof os ''loff_t'', 0, 0] None None,
    desc_entry 4 0 0 [0, 0, 0, 0, 0, 0] None None,
    desc_entry 4 0 0 [0, 0, 0, 0, 0, 0] None None,
    desc_entry 4 0 0 [0, 0, 0, 0, 0, 0] None None,
    desc_entry 6 0 1 [0, 0, 0, 0, 4, 0] None None]"

definition syscalls_280_315 :: "os \<Rightarrow> ('a, 's) tag_ops \<Rightarrow> ('a, 's) sys syscall_desc_t list" where
  "syscalls_280_315 os T = [
    desc_entry 4 0 0 [0, 0, 0, 0, 0, 0] None None,
    desc_entry 6 1 0 [0, 0, 0, 0, 0, 0] None None,
    desc_entry 3 0 1 [0, sizeof os ''sigset_t'', 0, 0, 0, 0] None (Some (post_epoll_wait_hook os T)),
    desc_entry 2 0 0 [0, 0, 0, 0, 0, 0] None None,
    desc_entry 1 0 0 [0, 0, 0, 0, 0, 0] None None,
    desc_entry 4 0 0 [0, 0, 0, 0, 0, 0] None None,
    desc_entry 4 0 1 [0, 0, 0, sizeof os ''struct itimerspec'', 0, 0] None None,
    desc_entry 2 0 1 [0, sizeof os ''struct itimerspec'', 0, 0, 0, 0] None None,
    desc_entry 4 1 0 [0, 0, 0, 0, 0, 0] None (Some (post_accept_hook os T)),
    desc_entry 4 0 0 [0, 0, 0, 0, 0, 0] None None,
    desc_entry 2 0 0 [0, 0, 0, 0, 0, 0] None None,
    desc_entry 1 0 0 [0, 0, 0, 0, 0, 0] None None,
    desc_entry 3 1 0 [0, 0, 0, 0, 0, 0] None None,
    desc_entry 2 0 1 [8, 0, 0, 0, 0, 0] None None,
    desc_entry 1 0 0 [0, 0, 0, 0, 0, 0] None None,
    desc_entry 5 0 0 [0, 0, 0, 0, 0, 0] None None,
    desc_entry 5 0 0 [0, 0, 0, 0, 0, 0] None None,
    desc_entry 4 0 1 [0, 0, 0, sizeof os ''siginfo_t'', 0, 0] None None,
    desc_entry 5 0 1 [sizeof os ''struct perf_event_attr'', 0, 0, 0, 0, 0] None None,
    desc_entry 5 1 0 [0, 0, 0, 0, 0, 0] None (Some (post_recvmmsg_hook os T)),
    desc_entry 2 0 0 [0, 0, 0, 0, 0, 0] None None,
    desc_entry 5 0 0 [0, 0, 0, 0, 0, 0] None None,
    desc_entry 4 0 1 [0, 0, 0, sizeof os ''struct rlimit'', 0, 0] None None,
    desc_entry 5 0 1 [0, 0, sizeof_src file_handle, 4, 0, 0] None None,
    desc_entry 3 0 1 [0, 0, sizeof_src file_handle, 0, 0, 0] None None,
    desc_entry 2 0 1 [0, sizeof os ''struct timex'', 0, 0, 0, 0] None None,
    desc_entry 1 0 0 [0, 0, 0, 0, 0, 0] None None,
    desc_entry 4 0 0 [0, 0, 0, 0, 0, 0] None None,
    desc_entry 2 0 0 [0, 0, 0, 0, 0, 0] None None,
    desc_entry 3 0 1 [4, 4, sizeof_src getcpu_cache, 0, 0, 0] None None,
    desc_entry 6 0 0 [0, 0, 0, 0, 0, 0] None None,
    desc_entry 6 0 0 [0, 0, 0, 0, 0, 0] None None,
    desc_entry 5 0 0 [0, 0, 0, 0, 0, 0] None None,
    desc_entry 3 0 0 [0, 0, 0, 0, 0, 0] None None,
    desc_entry 3 0 0 [0, 0, 0, 0, 0, 0] None None,
    desc_entry 4 0 1 [0, sizeof_src sched_attr, 0, 0, 0, 0] None None]"

definition syscall_desc :: "os \<Rightarrow> ('a, 's) tag_ops \<Rightarrow> ('a, 's) sys syscall_desc_t list" where
  "syscall_desc os T = syscalls_0_39 os T @ syscalls_40_79 os T @ syscalls_80_119 os T @
    syscalls_120_159 os T @ syscalls_160_199 os T @ syscalls_200_239 os T @
    syscalls_240_279 os T @ syscalls_280_315 os T"

section \<open>Around a system call\<close>

text \<open>
  What Pin reports of a system call is passed in: its number, its arguments and its return
  value. The fallthrough of the \<open>switch\<close> saves the arguments below \<open>nargs\<close>, and none when there are
  more than six.
\<close>

definition saved_arguments :: "nat \<Rightarrow> (nat \<Rightarrow> u64) \<Rightarrow> (nat \<Rightarrow> u64) \<Rightarrow> nat \<Rightarrow> u64" where
  "saved_arguments n args old = (if 1 \<le> n \<and> n \<le> 6 then \<lambda>i. if i < n then args i else old i else old)"

definition keeps_context :: "'x syscall_desc_t \<Rightarrow> bool" where
  "keeps_context d \<longleftrightarrow> save_args d \<noteq> 0 \<or> retval_args d \<noteq> 0"

definition sysenter_save ::
  "('a, 's) sys syscall_desc_t list \<Rightarrow> u64 \<Rightarrow> (nat \<Rightarrow> u64) \<Rightarrow> nat \<Rightarrow> ('a, 's) sys \<Rightarrow> serror + ('a, 's) sys" where
  "sysenter_save descs syscall_nr args tid s =
    (let ctx = syscall_ctx_of s tid in
      if unat syscall_nr \<ge> SYSCALL_MAX then Inr (set_syscall_ctx tid (ctx\<lparr>nr := -1\<rparr>) s)
      else
        let ctx = ctx\<lparr>nr := int (unat syscall_nr)\<rparr>; d = descs ! unat syscall_nr in
        if keeps_context d then
          let ctx = ctx\<lparr>arg := saved_arguments (nargs d) args (arg ctx)\<rparr>;
              s = set_syscall_ctx tid ctx s
          in case desc_pre d of None \<Rightarrow> Inr s | Some h \<Rightarrow> h tid ctx s
        else Inr (set_syscall_ctx tid ctx s))"

text \<open>The arguments that the kernel fills are cleared, unless they are null.\<close>

definition clear_map_args :: "('a, 's) tag_ops \<Rightarrow> nat \<Rightarrow> u64 list \<Rightarrow> (nat \<Rightarrow> u64) \<Rightarrow> ('a, 's) sys \<Rightarrow> serror + ('a, 's) sys" where
  "clear_map_args T n ma args =
    for_loop n (\<lambda>i s. if ma ! i > 0 then (if args i \<noteq> 0 then clrn T (args i) (ucast (ma ! i)) s else Inr s) else Inr s)"

definition sysexit_save ::
  "('a, 's) tag_ops \<Rightarrow> ('a, 's) sys syscall_desc_t list \<Rightarrow> u64 \<Rightarrow> nat \<Rightarrow> ('a, 's) sys \<Rightarrow> serror + ('a, 's) sys" where
  "sysexit_save T descs retval tid s =
    (let syscall_nr = nr (syscall_ctx_of s tid) in
      if syscall_nr < 0 then Inr s
      else
        let d = descs ! nat syscall_nr in
        if keeps_context d then
          let ctx = (syscall_ctx_of s tid)\<lparr>ret := retval\<rparr>; s = set_syscall_ctx tid ctx s in
          case desc_post d of
            Some h \<Rightarrow> h tid ctx s
          | None \<Rightarrow> if ret ctx < 0 then Inr s else clear_map_args T (nargs d) (map_args d) (arg ctx) s
        else Inr s)"

lemma syscall_ctx_set [simp]:
  "syscall_ctx_of (set_syscall_ctx tid ctx s) tid' = (if tid' = tid then ctx else syscall_ctx_of s tid')"
  by (simp add: syscall_ctx_of_def set_syscall_ctx_def Let_def)

section \<open>The shape of the table\<close>

text \<open>
  An entry is sound when the arguments it clears are arguments of its system call and are
  saved, and when the context that its callback reads is saved.
\<close>

definition desc_ok :: "'x syscall_desc_t \<Rightarrow> bool" where
  "desc_ok d \<longleftrightarrow> nargs d \<le> 6 \<and> length (map_args d) = 6 \<and>
    list_all (\<lambda>i. map_args d ! i \<noteq> 0 \<longrightarrow> i < nargs d \<and> retval_args d \<noteq> 0) [0..<6] \<and>
    (desc_post d \<noteq> None \<longrightarrow> keeps_context d) \<and> desc_pre d = None"

text \<open>An entry whose callback, if it has one, only clears.\<close>

definition post_clears :: "('a, 's) tag_ops \<Rightarrow> ('a, 's) sys syscall_desc_t \<Rightarrow> bool" where
  "post_clears T d \<longleftrightarrow> (case desc_post d of None \<Rightarrow> True | Some h \<Rightarrow> \<forall>tid ctx s. only_clears T s (h tid ctx s))"

lemmas table_defs = syscalls_0_39_def syscalls_40_79_def syscalls_80_119_def syscalls_120_159_def syscalls_160_199_def
  syscalls_200_239_def syscalls_240_279_def syscalls_280_315_def

lemma length_pieces [simp]:
  "length (syscalls_0_39 os T) = 40" "length (syscalls_40_79 os T) = 40" "length (syscalls_80_119 os T) = 40"
  "length (syscalls_120_159 os T) = 40" "length (syscalls_160_199 os T) = 40" "length (syscalls_200_239 os T) = 40"
  "length (syscalls_240_279 os T) = 40" "length (syscalls_280_315 os T) = 36"
  by (simp_all add: table_defs)

lemma length_table [simp]: "length (syscall_desc os T) = SYSCALL_MAX"
  by (simp add: syscall_desc_def SYSCALL_MAX_def)

lemma upt_6: "[0..<6] = [0, 1, 2, 3, 4, 5 :: nat]"
  by (simp add: upt_rec)

lemma desc_ok_entry:
  "desc_ok (desc_entry n sa ra [a, b, c, d, e, f] p q) \<longleftrightarrow>
    n \<le> 6 \<and> (a \<noteq> 0 \<longrightarrow> 0 < n \<and> ra \<noteq> 0) \<and> (b \<noteq> 0 \<longrightarrow> 1 < n \<and> ra \<noteq> 0) \<and> (c \<noteq> 0 \<longrightarrow> 2 < n \<and> ra \<noteq> 0) \<and>
    (d \<noteq> 0 \<longrightarrow> 3 < n \<and> ra \<noteq> 0) \<and> (e \<noteq> 0 \<longrightarrow> 4 < n \<and> ra \<noteq> 0) \<and> (f \<noteq> 0 \<longrightarrow> 5 < n \<and> ra \<noteq> 0) \<and>
    (q \<noteq> None \<longrightarrow> sa \<noteq> 0 \<or> ra \<noteq> 0) \<and> p = None"
  unfolding desc_ok_def upt_6 list.pred_inject desc_entry_def keeps_context_def by simp

lemma pieces_ok:
  "list_all desc_ok (syscalls_0_39 os T)" "list_all desc_ok (syscalls_40_79 os T)"
  "list_all desc_ok (syscalls_80_119 os T)" "list_all desc_ok (syscalls_120_159 os T)"
  "list_all desc_ok (syscalls_160_199 os T)" "list_all desc_ok (syscalls_200_239 os T)"
  "list_all desc_ok (syscalls_240_279 os T)" "list_all desc_ok (syscalls_280_315 os T)"
  by (simp_all add: table_defs desc_ok_entry)

lemma table_ok: "list_all desc_ok (syscall_desc os T)"
  by (simp add: syscall_desc_def pieces_ok)

lemma post_clears_entry:
  "post_clears T (desc_entry n sa ra ma p q) \<longleftrightarrow>
    (case q of None \<Rightarrow> True | Some h \<Rightarrow> \<forall>tid ctx s. only_clears T s (h tid ctx s))"
  by (simp add: post_clears_def desc_entry_def)

lemma pieces_clear:
  "list_all (post_clears T) (syscalls_0_39 os T)" "list_all (post_clears T) (syscalls_40_79 os T)"
  "list_all (post_clears T) (syscalls_80_119 os T)" "list_all (post_clears T) (syscalls_120_159 os T)"
  "list_all (post_clears T) (syscalls_160_199 os T)" "list_all (post_clears T) (syscalls_200_239 os T)"
  "list_all (post_clears T) (syscalls_240_279 os T)" "list_all (post_clears T) (syscalls_280_315 os T)"
  by (simp_all add: table_defs post_clears_entry callbacks_clear)

lemma table_clears: "list_all (post_clears T) (syscall_desc os T)"
  by (simp add: syscall_desc_def pieces_clear)

section \<open>The default treatment\<close>

lemma clear_map_args_exact:
  "clears T (\<Union>i \<in> {i. i < n \<and> ma ! i \<noteq> 0 \<and> args i \<noteq> 0}. range_of (args i) (ucast (ma ! i))) s (clear_map_args T n ma args s)"
proof (induction n)
  case (Suc n)
  let ?A = "\<lambda>n. \<Union>i \<in> {i. i < n \<and> ma ! i \<noteq> 0 \<and> args i \<noteq> 0}. range_of (args i) (ucast (ma ! i))"
  let ?B = "if ma ! n \<noteq> 0 \<and> args n \<noteq> 0 then range_of (args n) (ucast (ma ! n)) else {}"
  have "clears T (?A n \<union> ?B) s (clear_map_args T (Suc n) ma args s)"
    unfolding clear_map_args_def for_loop.simps
    by (rule clears_bind [OF Suc.IH [unfolded clear_map_args_def]]) (simp add: clrn_clears clears_Inr word_gt_0)
  moreover have "?A (Suc n) = ?A n \<union> ?B" by (auto simp: less_Suc_eq split: if_splits)
  ultimately show ?case by simp
qed (simp add: clear_map_args_def clears_Inr)

lemma clears_only: "clears T A s m \<Longrightarrow> only_clears T s m"
  by (auto simp: only_clears_def)

text \<open>
  Before a system call nothing of the taint changes. After it, with the table as it is
  initialised, tags of memory are cleared and nothing else.
\<close>

lemma sysenter_keeps:
  assumes "list_all desc_ok descs" "length descs = SYSCALL_MAX"
  shows "clears T {} s (sysenter_save descs n args tid s)"
proof (cases "unat n < SYSCALL_MAX")
  case True
  then have "desc_pre (descs ! unat n) = None" using assms by (simp add: list_all_length desc_ok_def)
  then show ?thesis using True by (simp add: sysenter_save_def Let_def clears_def)
qed (simp add: sysenter_save_def Let_def clears_def)

lemma sysexit_only_clears:
  assumes "list_all (post_clears T) descs" "nr (syscall_ctx_of s tid) < int (length descs)"
  shows "only_clears T s (sysexit_save T descs retval tid s)"
proof -
  let ?n = "nr (syscall_ctx_of s tid)" and ?s = "set_syscall_ctx tid ((syscall_ctx_of s tid)\<lparr>ret := retval\<rparr>) s"
  have *: "only_clears T s m" if "only_clears T ?s m" for m
    using that by (auto simp: only_clears_def clears_def)
  show ?thesis
  proof (cases "?n < 0")
    case False
    then have "post_clears T (descs ! nat ?n)" using assms by (simp add: list_all_length)
    then show ?thesis using False
      by (auto simp: sysexit_save_def Let_def post_clears_def only_clears_Inr
          intro!: * clears_only [OF clear_map_args_exact] split: option.splits)
  qed (simp add: sysexit_save_def only_clears_Inr)
qed

lemma sysexit_default:
  assumes "0 \<le> nr (syscall_ctx_of s tid)" "d = descs ! nat (nr (syscall_ctx_of s tid))" "keeps_context d" "desc_post d = None"
  shows "clears T (\<Union>i \<in> {i. i < nargs d \<and> map_args d ! i \<noteq> 0 \<and> arg (syscall_ctx_of s tid) i \<noteq> 0}.
      range_of (arg (syscall_ctx_of s tid) i) (ucast (map_args d ! i))) s (sysexit_save T descs retval tid s)"
proof -
  let ?s = "set_syscall_ctx tid ((syscall_ctx_of s tid)\<lparr>ret := retval\<rparr>) s"
  have e: "sysexit_save T descs retval tid s = clear_map_args T (nargs d) (map_args d) (arg (syscall_ctx_of s tid)) ?s"
    using assms by (simp add: sysexit_save_def Let_def)
  have "clears T A s m" if "clears T A ?s m" for A m
    using that by (simp add: clears_def)
  from this [OF clear_map_args_exact] show ?thesis unfolding e .
qed

end
