(* ===== verification/SyscallFile.thy ===== *)
theory SyscallFile
  imports SyscallTable
begin

text \<open>
  Where taint comes from (\<open>src/syscall_hook.cpp\<close>). The tool follows the descriptors of the
  input, which are the standard input and every file whose name contains a given text; after a
  read from one of them each byte of the buffer gets the tag of its offset in the file.
\<close>

section \<open>Descriptors of the input\<close>

definition FUZZING_INPUT_FILE :: string where
  "FUZZING_INPUT_FILE = ''cur_input''"

primrec strstr :: "string \<Rightarrow> string \<Rightarrow> bool" where
  "strstr [] pat \<longleftrightarrow> pat = []"
| "strstr (c # s) pat \<longleftrightarrow> take (length pat) (c # s) = pat \<or> strstr s pat"

definition is_fuzzing_fd :: "int \<Rightarrow> ('a, 's) sys \<Rightarrow> bool" where
  "is_fuzzing_fd fd s \<longleftrightarrow> fd = 0 \<or> fd \<in> fuzzing_fd_set s"

definition add_fuzzing_fd :: "int \<Rightarrow> ('a, 's) sys \<Rightarrow> ('a, 's) sys" where
  "add_fuzzing_fd fd s = (if fd > 0 then s\<lparr>fuzzing_fd_set := insert fd (fuzzing_fd_set s)\<rparr> else s)"

definition remove_fuzzing_fd :: "int \<Rightarrow> ('a, 's) sys \<Rightarrow> ('a, 's) sys" where
  "remove_fuzzing_fd fd s = s\<lparr>fuzzing_fd_set := fuzzing_fd_set s - {fd}\<rparr>"

text \<open>A word that the source keeps in an \<open>int\<close>.\<close>

definition as_int :: "u64 \<Rightarrow> int" where
  "as_int w = sint (ucast w :: u32)"

definition post_open_hook :: "os \<Rightarrow> ('a, 's) sys hook" where
  "post_open_hook os tid ctx s =
    (let fd = as_int (ret ctx) in
      if fd < 0 then Inr s
      else bindE (load_str os (arg ctx 0)) (\<lambda>file_name.
        Inr (if strstr file_name FUZZING_INPUT_FILE then add_fuzzing_fd fd s else s)))"

definition post_openat_hook :: "os \<Rightarrow> ('a, 's) sys hook" where
  "post_openat_hook os tid ctx s =
    (let fd = as_int (ret ctx) in
      bindE (load_str os (arg ctx 1)) (\<lambda>file_name.
        Inr (if strstr file_name FUZZING_INPUT_FILE then add_fuzzing_fd fd s else s)))"

definition post_dup_hook :: "('a, 's) sys hook" where
  "post_dup_hook tid ctx s =
    (let new_fd = as_int (ret ctx) in
      if new_fd < 0 then Inr s
      else Inr (if is_fuzzing_fd (as_int (arg ctx 0)) s then add_fuzzing_fd new_fd s else s))"

definition post_dup2_hook :: "('a, 's) sys hook" where
  "post_dup2_hook tid ctx s =
    (if as_int (ret ctx) < 0 then Inr s
      else let old_fd = as_int (arg ctx 0); new_fd = as_int (arg ctx 1)
        in Inr (if is_fuzzing_fd old_fd s then add_fuzzing_fd new_fd s else s))"

definition post_close_hook :: "('a, 's) sys hook" where
  "post_close_hook tid ctx s =
    (if sint (ret ctx) < 0 then Inr s
      else let fd = as_int (arg ctx 0) in Inr (if is_fuzzing_fd fd s then remove_fuzzing_fd fd s else s))"

section \<open>Reading the input\<close>

text \<open>
  The loops that set the tags count in 32 bits up to a limit of 64 bits. A limit of \<open>2 ^ 32\<close> or
  more is never reached: after \<open>2 ^ 32\<close> turns the counter is 0 again and the loop goes on for
  ever, which is the outcome \<open>OutOfFuel\<close>.
\<close>

definition set_label :: "('a, 's) tag_ops \<Rightarrow> u32 \<Rightarrow> u64 \<Rightarrow> nat \<Rightarrow> ('a, 's) dft \<Rightarrow> serror + ('a, 's) dft" where
  "set_label T offset addr tid d =
    bindE (tag_alloc T offset tid (tags d)) (\<lambda>(t, g). Inr (tagmap_setb T addr t (d\<lparr>tags := g\<rparr>)))"

primrec label_loop :: "('a, 's) tag_ops \<Rightarrow> (u32 \<Rightarrow> u32) \<Rightarrow> u64 \<Rightarrow> u64 \<Rightarrow> nat \<Rightarrow> nat \<Rightarrow> u32 \<Rightarrow> ('a, 's) dft \<Rightarrow> serror + ('a, 's) dft" where
  "label_loop T off buf count tid 0 i d = Inl OutOfFuel"
| "label_loop T off buf count tid (Suc fuel) i d =
    (if ucast i < count then
      bindE (set_label T (off i) (buf + ucast i) tid d) (label_loop T off buf count tid fuel (i + 1))
    else Inr d)"

definition label_bytes :: "('a, 's) tag_ops \<Rightarrow> (u32 \<Rightarrow> u32) \<Rightarrow> u64 \<Rightarrow> u64 \<Rightarrow> nat \<Rightarrow> ('a, 's) sys \<Rightarrow> serror + ('a, 's) sys" where
  "label_bytes T off buf count tid = on_engine (label_loop T off buf count tid (2 ^ 32) 0)"

definition post_read_hook_file :: "os \<Rightarrow> ('a, 's) tag_ops \<Rightarrow> ('a, 's) sys hook" where
  "post_read_hook_file os T tid ctx s =
    (let nr = ret ctx in
      if nr \<le> 0 then Inr s
      else
        let fd = as_int (arg ctx 0); buf = arg ctx 1; count = arg ctx 2 in
        if is_fuzzing_fd fd s then
          let s = s\<lparr>tainted := True\<rparr>;
              (read_off, s) =
                (if fd = 0 then (stdin_read_off s, s\<lparr>stdin_read_off := stdin_read_off s + ucast nr\<rparr>)
                 else (ucast (lseek_cur os (ucast (arg ctx 0))) - ucast nr, s));
              count = (if count > nr + 32 then nr + 32 else count)
          in label_bytes T (\<lambda>i. read_off + i) buf count tid s
        else clrn T buf (ucast nr) s)"

definition post_pread64_hook :: "('a, 's) tag_ops \<Rightarrow> ('a, 's) sys hook" where
  "post_pread64_hook T tid ctx s =
    (let nr = ret ctx in
      if nr \<le> 0 then Inr s
      else
        let fd = as_int (arg ctx 0); buf = arg ctx 1; count = arg ctx 2; read_off = ucast (arg ctx 3) in
        if is_fuzzing_fd fd s then
          let count = (if count > nr + 32 then nr + 32 else count)
          in label_bytes T (\<lambda>i. read_off + i) buf count tid (s\<lparr>tainted := True\<rparr>)
        else clrn T buf (ucast count) s)"

definition post_mmap_hook_file :: "('a, 's) tag_ops \<Rightarrow> ('a, 's) sys hook" where
  "post_mmap_hook_file T tid ctx s =
    (let fd = as_int (arg ctx 4); prot = ucast (arg ctx 2) :: u32 in
      if ret ctx = -1 \<or> prot AND 0x1 = 0 then Inr s
      else
        let buf = arg ctx 0; nr = arg ctx 1; read_off = arg ctx 5 in
        if is_fuzzing_fd fd s then
          label_bytes T (\<lambda>i. ucast (read_off + ucast i)) buf nr tid (s\<lparr>tainted := True\<rparr>)
        else clrn T buf (ucast nr) s)"

definition post_munmap_hook :: "('a, 's) tag_ops \<Rightarrow> ('a, 's) sys hook" where
  "post_munmap_hook T tid ctx s =
    (if ret ctx = -1 then Inr s else clrn T (arg ctx 0) (ucast (arg ctx 1)) s)"

section \<open>Registration\<close>

definition set_post_of :: "nat \<Rightarrow> 'x hook \<Rightarrow> 'x syscall_desc_t list \<Rightarrow> 'x syscall_desc_t list" where
  "set_post_of n h descs =
    (case syscall_set_post (Some (descs ! n)) (Some h) of (r, Some d) \<Rightarrow> descs[n := d] | (r, None) \<Rightarrow> descs)"

definition hook_file_syscall :: "os \<Rightarrow> ('a, 's) tag_ops \<Rightarrow> ('a, 's) sys syscall_desc_t list \<Rightarrow> ('a, 's) sys syscall_desc_t list" where
  "hook_file_syscall os T descs =
    (let descs = set_post_of 2 (post_open_hook os) descs;
         descs = set_post_of 257 (post_openat_hook os) descs;
         descs = set_post_of 32 post_dup_hook descs;
         descs = set_post_of 33 post_dup2_hook descs;
         descs = set_post_of 292 post_dup2_hook descs;
         descs = set_post_of 3 post_close_hook descs;
         descs = set_post_of 0 (post_read_hook_file os T) descs;
         descs = set_post_of 17 (post_pread64_hook T) descs;
         descs = set_post_of 9 (post_mmap_hook_file T) descs
     in set_post_of 11 (post_munmap_hook T) descs)"

section \<open>The loop ends\<close>

lemma label_loop_from:
  assumes "unat count < 2 ^ 32" "k \<le> unat count" "unat count - k < fuel"
  shows "bindE (for_loop k (\<lambda>i. set_label T (off (of_nat i)) (buf + of_nat i) tid) d)
      (label_loop T off buf count tid fuel (of_nat k)) =
    for_loop (unat count) (\<lambda>i. set_label T (off (of_nat i)) (buf + of_nat i) tid) d"
  using assms(2,3)
proof (induction "unat count - k" arbitrary: k fuel)
  case 0
  then have k: "k = unat count" and f: "fuel = Suc (fuel - 1)" by auto
  have u: "(ucast (of_nat k :: u32) :: u64) = of_nat k"
    using assms(1) k by (simp add: word_unat_eq_iff unsigned_ucast_eq unat_take_bit unsigned_of_nat take_bit_nat_eq_self)
  have "(of_nat k :: u64) = count" using k by simp
  then have nl: "\<not> ucast (of_nat k :: u32) < count" by (simp only: u)
  have e: "label_loop T off buf count tid fuel (of_nat k) = Inr"
    by (subst f) (simp add: fun_eq_iff nl)
  have "bindE m Inr = m" for m :: "serror + 'zz" by (cases m) simp_all
  then show ?case unfolding e by (simp only: k)
next
  case (Suc n)
  then have k: "k < unat count" and f: "fuel = Suc (fuel - 1)" by auto
  have u: "(ucast (of_nat k :: u32) :: u64) = of_nat k"
    using assms(1) k by (simp add: word_unat_eq_iff unsigned_ucast_eq unat_take_bit unsigned_of_nat take_bit_nat_eq_self)
  have "(of_nat k :: u64) < count"
    using k unsigned_less [of count, where ?'a = nat] by (simp add: word_less_nat_alt unat_of_nat_64)
  then have e: "label_loop T off buf count tid fuel (of_nat k) =
      (\<lambda>d. bindE (set_label T (off (of_nat k)) (buf + of_nat k) tid d) (label_loop T off buf count tid (fuel - 1) (of_nat (Suc k))))"
    by (subst f) (simp add: fun_eq_iff u add.commute)
  show ?case using Suc.hyps(1) [of "Suc k" "fuel - 1"] Suc.hyps(2) Suc.prems k
    by (simp add: e bindE_assoc del: of_nat_Suc)
qed

text \<open>Up to \<open>2 ^ 32\<close> bytes the loop sets the tags one by one and ends.\<close>

lemma label_loop_for:
  assumes "unat count < 2 ^ 32"
  shows "label_loop T off buf count tid (2 ^ 32) 0 d =
    for_loop (unat count) (\<lambda>i. set_label T (off (of_nat i)) (buf + of_nat i) tid) d"
  using label_loop_from [of count 0 "2 ^ 32" T off buf tid d] assms by simp

section \<open>The taint that a read leaves\<close>

text \<open>The taint of a location after the first \<open>n\<close> bytes of a buffer got their labels.\<close>

definition labelled :: "(u32 \<Rightarrow> nat set) \<Rightarrow> (u32 \<Rightarrow> u32) \<Rightarrow> u64 \<Rightarrow> nat \<Rightarrow> (loc \<Rightarrow> nat set) \<Rightarrow> loc \<Rightarrow> nat set" where
  "labelled lb off buf n A l =
    (case l of
      Mem a \<Rightarrow> if unat (a - buf) < n then lb (off (ucast (a - buf))) else A l
    | Reg tid r i \<Rightarrow> A l)"

lemma labelled_Suc:
  assumes "n < 2 ^ 32"
  shows "labelled lb off buf (Suc n) A = (labelled lb off buf n A)(Mem (buf + of_nat n) := lb (off (of_nat n)))"
proof
  fix l
  show "labelled lb off buf (Suc n) A l =
      ((labelled lb off buf n A)(Mem (buf + of_nat n) := lb (off (of_nat n)))) l"
  proof (cases l)
    case (Mem a)
    have u: "unat (of_nat n :: u64) = n" using assms by (simp add: unat_of_nat_64)
    have "(ucast (of_nat n :: u64) :: u32) = of_nat n"
      using assms by (simp add: word_unat_eq_iff unsigned_ucast_eq unsigned_of_nat take_bit_nat_eq_self)
    moreover have "unat (a - buf) = n \<longleftrightarrow> a = buf + of_nat n"
      using u by (metis add.commute diff_add_cancel add_diff_cancel_left' word_unat_eq_iff)
    ultimately show ?thesis using Mem u by (auto simp: labelled_def less_Suc_eq)
  qed (simp add: labelled_def)
qed

text \<open>What a callback that labels \<open>n\<close> bytes of a buffer must reach.\<close>

definition labels_input ::
  "('a, 's) tag_ops \<Rightarrow> ('a, 's) tag_sem \<Rightarrow> (u32 \<Rightarrow> nat set) \<Rightarrow> ('a, 's) sys \<Rightarrow> (u32 \<Rightarrow> u32) \<Rightarrow> u64 \<Rightarrow> nat \<Rightarrow>
    serror + ('a, 's) sys \<Rightarrow> bool" where
  "labels_input T S lb s off buf n m \<longleftrightarrow>
    (case m of
      Inl e \<Rightarrow> e \<in> failures S
    | Inr s' \<Rightarrow> tainted s' \<and> wf_dft T S (engine s') \<and>
        taint_at T S (engine s') = labelled lb off buf n (taint_at T S (engine s)))"

context tag_source
begin

lemma post_label:
  assumes "inv s0 A d" "\<not> outside a"
  shows "tag_type.post T S s0 (A(Mem a := label offset)) (set_label T offset a tid d)"
proof (cases "tag_alloc T offset tid (tags d)")
  case (Inl e)
  then show ?thesis using alloc_fails [of "tags d" offset tid e] assms(1)
    by (simp add: set_label_def post_def inv_def wf_dft_def)
next
  case (Inr p)
  obtain t g where p: "p = (t, g)" by fastforce
  have g: "sound S g \<and> extends_tags S (tags d) g \<and> valid_tag S g t \<and> taint S g t = label offset"
    using alloc_ok [of "tags d" offset tid t g] Inr p assms(1) by (simp add: inv_def wf_dft_def)
  have i: "inv s0 A (d\<lparr>tags := g\<rparr>)"
    using assms(1) g by (auto simp: inv_def wf_dft_def taint_at_def extends_tags_def fun_eq_iff)
  have "inv s0 (A(Mem a := label offset)) (put T (Mem a) t (d\<lparr>tags := g\<rparr>))"
    by (rule inv_put [OF i]) (use g assms(2) in \<open>simp_all add: holds_def\<close>)
  then show ?thesis by (simp add: set_label_def Inr p put_def)
qed

lemma post_label_loop:
  assumes "wf_dft T S d" "unat count < 2 ^ 32" "\<And>i. i < unat count \<Longrightarrow> \<not> outside (buf + of_nat i)"
  shows "tag_type.post T S d (labelled label off buf (unat count) (taint_at T S d))
    (label_loop T off buf count tid (2 ^ 32) 0 d)"
proof -
  have "tag_type.post T S d (labelled label off buf n (taint_at T S d))
      (for_loop n (\<lambda>i. set_label T (off (of_nat i)) (buf + of_nat i) tid) d)" if "n \<le> unat count" for n
    using that
  proof (induction n)
    case 0
    have "labelled label off buf 0 (taint_at T S d) = taint_at T S d" by (simp add: labelled_def fun_eq_iff split: loc.split)
    then show ?case using inv_start [OF assms(1)] by (simp add: post_def)
  next
    case (Suc n)
    then have "n < 2 ^ 32" "\<not> outside (buf + of_nat n)" using assms(2,3) by auto
    then show ?case unfolding for_loop.simps labelled_Suc [OF \<open>n < 2 ^ 32\<close>]
      using Suc by (intro post_bind [OF Suc.IH] post_label) auto
  qed
  from this [OF order_refl] show ?thesis unfolding label_loop_for [OF assms(2)] .
qed

lemma label_bytes_labels:
  assumes "wf_dft T S (engine s)" "engine s1 = engine s" "tainted s1"
    and "unat count < 2 ^ 32" "\<And>i. i < unat count \<Longrightarrow> \<not> outside (buf + of_nat i)"
  shows "labels_input T S label s off buf (unat count) (label_bytes T off buf count tid s1)"
  using post_label_loop [of "engine s" count buf off tid] assms
  by (auto simp: labels_input_def label_bytes_def on_engine_def post_def inv_def bindE_def split: sum.splits)

end

text \<open>The number of bytes that are labelled: what was asked for, but at most 32 more than were read.\<close>

definition labelled_count :: "syscall_ctx \<Rightarrow> u64" where
  "labelled_count ctx = (if arg ctx 2 > ret ctx + 32 then ret ctx + 32 else arg ctx 2)"

text \<open>The offset in the input of the first byte of a buffer that was just read.\<close>

definition read_offset :: "os \<Rightarrow> ('a, 's) sys \<Rightarrow> syscall_ctx \<Rightarrow> u32" where
  "read_offset os s ctx =
    (if as_int (arg ctx 0) = 0 then stdin_read_off s
     else ucast (lseek_cur os (ucast (arg ctx 0))) - ucast (ret ctx))"

context tag_source
begin

lemma post_read_labels:
  assumes "wf_dft T S (engine s)" "is_fuzzing_fd (as_int (arg ctx 0)) s" "0 < ret ctx"
    and "unat (labelled_count ctx) < 2 ^ 32"
    and "\<And>i. i < unat (labelled_count ctx) \<Longrightarrow> \<not> outside (arg ctx 1 + of_nat i)"
  shows "labels_input T S label s (\<lambda>i. read_offset os s ctx + i) (arg ctx 1) (unat (labelled_count ctx))
    (post_read_hook_file os T tid ctx s)"
proof -
  let ?s = "if as_int (arg ctx 0) = 0
    then s\<lparr>tainted := True, stdin_read_off := stdin_read_off s + ucast (ret ctx)\<rparr> else s\<lparr>tainted := True\<rparr>"
  have "post_read_hook_file os T tid ctx s =
      label_bytes T (\<lambda>i. read_offset os s ctx + i) (arg ctx 1) (labelled_count ctx) tid ?s"
    using assms(2,3) by (auto simp: post_read_hook_file_def Let_def read_offset_def labelled_count_def not_le)
  then show ?thesis using assms(1,4,5) by (simp add: label_bytes_labels)
qed

lemma post_pread_labels:
  assumes "wf_dft T S (engine s)" "is_fuzzing_fd (as_int (arg ctx 0)) s" "0 < ret ctx"
    and "unat (labelled_count ctx) < 2 ^ 32"
    and "\<And>i. i < unat (labelled_count ctx) \<Longrightarrow> \<not> outside (arg ctx 1 + of_nat i)"
  shows "labels_input T S label s (\<lambda>i. ucast (arg ctx 3) + i) (arg ctx 1) (unat (labelled_count ctx))
    (post_pread64_hook T tid ctx s)"
proof -
  have "post_pread64_hook T tid ctx s =
      label_bytes T (\<lambda>i. ucast (arg ctx 3) + i) (arg ctx 1) (labelled_count ctx) tid (s\<lparr>tainted := True\<rparr>)"
    using assms(2,3) by (auto simp: post_pread64_hook_def Let_def labelled_count_def not_le)
  then show ?thesis using assms(1,4,5) by (simp add: label_bytes_labels)
qed

lemma post_mmap_labels:
  assumes "wf_dft T S (engine s)" "is_fuzzing_fd (as_int (arg ctx 4)) s" "ret ctx \<noteq> -1"
    and "(ucast (arg ctx 2) :: u32) AND 1 \<noteq> 0" "unat (arg ctx 1) < 2 ^ 32"
    and "\<And>i. i < unat (arg ctx 1) \<Longrightarrow> \<not> outside (arg ctx 0 + of_nat i)"
  shows "labels_input T S label s (\<lambda>i. ucast (arg ctx 5 + ucast i)) (arg ctx 0) (unat (arg ctx 1))
    (post_mmap_hook_file T tid ctx s)"
  using assms by (simp add: post_mmap_hook_file_def Let_def label_bytes_labels)

end

text \<open>A read from any other descriptor clears the bytes that arrived.\<close>

lemma post_read_clears:
  assumes "\<not> is_fuzzing_fd (as_int (arg ctx 0)) s"
  shows "clears T (if ret ctx = 0 then {} else range_of (arg ctx 1) (ucast (ret ctx))) s (post_read_hook_file os T tid ctx s)"
  using assms by (simp add: post_read_hook_file_def Let_def clrn_clears clears_Inr)

section \<open>Through the table\<close>

text \<open>The callbacks of the tool replace those of the table.\<close>

lemma set_post_of_simps [simp]:
  "length (set_post_of n h descs) = length descs"
  "m < length descs \<Longrightarrow> set_post_of n h descs ! m =
    (if m = n then (descs ! m)\<lparr>desc_post := Some h, save_args := 1\<rparr> else descs ! m)"
  by (simp_all add: set_post_of_def syscall_set_post_def nth_list_update)

lemma hook_file_syscall_nth:
  assumes "length descs = SYSCALL_MAX"
  shows "length (hook_file_syscall os T descs) = SYSCALL_MAX"
    "desc_post (hook_file_syscall os T descs ! 0) = Some (post_read_hook_file os T)"
    "desc_post (hook_file_syscall os T descs ! 2) = Some (post_open_hook os)"
    "desc_post (hook_file_syscall os T descs ! 3) = Some post_close_hook"
    "desc_post (hook_file_syscall os T descs ! 9) = Some (post_mmap_hook_file T)"
    "desc_post (hook_file_syscall os T descs ! 17) = Some (post_pread64_hook T)"
    "desc_post (hook_file_syscall os T descs ! 32) = Some post_dup_hook"
    "desc_post (hook_file_syscall os T descs ! 33) = Some post_dup2_hook"
    "desc_post (hook_file_syscall os T descs ! 292) = Some post_dup2_hook"
    "n < SYSCALL_MAX \<Longrightarrow> nargs (hook_file_syscall os T descs ! n) = nargs (descs ! n)"
    "n < SYSCALL_MAX \<Longrightarrow> desc_pre (hook_file_syscall os T descs ! n) = desc_pre (descs ! n)"
    "n \<in> {0, 2, 3, 9, 11, 17, 32, 33, 257, 292} \<Longrightarrow> keeps_context (hook_file_syscall os T descs ! n)"
  using assms by (auto simp: hook_file_syscall_def Let_def SYSCALL_MAX_def keeps_context_def)

lemma set_syscall_ctx_idem [simp]: "set_syscall_ctx tid c (set_syscall_ctx tid c' s) = set_syscall_ctx tid c s"
  by (simp add: set_syscall_ctx_def Let_def)

text \<open>The context that a callback gets when its table entry has it saved.\<close>

definition call_context :: "'x syscall_desc_t \<Rightarrow> nat \<Rightarrow> (nat \<Rightarrow> u64) \<Rightarrow> u64 \<Rightarrow> syscall_ctx \<Rightarrow> syscall_ctx" where
  "call_context d n args r old = old\<lparr>nr := int n, arg := saved_arguments (nargs d) args (arg old), ret := r\<rparr>"

text \<open>Entry and exit of a system call together run its callback on the arguments it was called with.\<close>

lemma through_table:
  assumes "n < SYSCALL_MAX" "keeps_context (descs ! n)" "desc_pre (descs ! n) = None" "desc_post (descs ! n) = Some h"
  shows "bindE (sysenter_save descs (of_nat n) args tid s) (sysexit_save T descs r tid) =
    (let ctx = call_context (descs ! n) n args r (syscall_ctx_of s tid) in h tid ctx (set_syscall_ctx tid ctx s))"
proof -
  have "unat (of_nat n :: u64) = n" using assms(1) by (simp add: unat_of_nat_64 SYSCALL_MAX_def)
  then show ?thesis using assms
    by (simp add: sysenter_save_def sysexit_save_def Let_def call_context_def)
qed

lemma set_syscall_ctx_sel [simp]:
  "fuzzing_fd_set (set_syscall_ctx tid c s) = fuzzing_fd_set s" "stdin_read_off (set_syscall_ctx tid c s) = stdin_read_off s"
  "tainted (set_syscall_ctx tid c s) = tainted s" "tags (engine (set_syscall_ctx tid c s)) = tags (engine s)"
  "tag_dir (engine (set_syscall_ctx tid c s)) = tag_dir (engine s)"
  by (simp_all add: set_syscall_ctx_def Let_def)

lemma look_set_ctx [simp]: "look T (engine (set_syscall_ctx tid c s)) l = look T (engine s) l"
  by (cases l) (simp_all add: look_def RTAG_def set_syscall_ctx_def Let_def)

lemma taint_set_ctx [simp]:
  "taint_at T S (engine (set_syscall_ctx tid c s)) = taint_at T S (engine s)"
  "wf_dft T S (engine (set_syscall_ctx tid c s)) = wf_dft T S (engine s)"
  by (simp_all add: taint_at_def fun_eq_iff wf_dft_def)

lemma labels_input_set_ctx [simp]:
  "labels_input T S lb (set_syscall_ctx tid c s) off buf n m = labels_input T S lb s off buf n m"
  by (simp add: labels_input_def cong: sum.case_cong)

section \<open>The descriptors of the input are followed\<close>

text \<open>
  The abstract side: what the kernel's table of descriptors holds for each of them, the input
  or another file. \<open>fd_run os sl k s\<close> says that the process can have the table \<open>k\<close> and the tool
  the state \<open>s\<close>, after system calls that open, duplicate and close descriptors, or fail; sockets,
  pipes and the like are other files. \<open>sl\<close> tells whether one of the calls took the standard input
  away or put another file over a descriptor of the input: of neither does the tool take notice.
\<close>

datatype opened = Input | Other

definition file_named :: "string \<Rightarrow> opened" where
  "file_named name = (if strstr name FUZZING_INPUT_FILE then Input else Other)"

inductive fd_run :: "os \<Rightarrow> bool \<Rightarrow> (int \<Rightarrow> opened option) \<Rightarrow> ('a, 's) sys \<Rightarrow> bool" for os where
  start: "fuzzing_fd_set s = {} \<Longrightarrow> k 0 = Some Input \<Longrightarrow> (\<And>fd. 0 < fd \<Longrightarrow> k fd \<noteq> Some Input) \<Longrightarrow> fd_run os False k s"
| opened_file: "fd_run os sl k s \<Longrightarrow> load_str os (arg ctx 0) = Inr name \<Longrightarrow> as_int (ret ctx) = fd \<Longrightarrow> 0 \<le> fd \<Longrightarrow> k fd = None \<Longrightarrow>
    post_open_hook os tid ctx s = Inr s' \<Longrightarrow> fd_run os sl (k(fd \<mapsto> file_named name)) s'"
| openat: "fd_run os sl k s \<Longrightarrow> load_str os (arg ctx 1) = Inr name \<Longrightarrow> as_int (ret ctx) = fd \<Longrightarrow> 0 \<le> fd \<Longrightarrow> k fd = None \<Longrightarrow>
    post_openat_hook os tid ctx s = Inr s' \<Longrightarrow> fd_run os sl (k(fd \<mapsto> file_named name)) s'"
| other: "fd_run os sl k s \<Longrightarrow> 0 \<le> fd \<Longrightarrow> k fd = None \<Longrightarrow> fd_run os sl (k(fd \<mapsto> Other)) s"
| open_fails: "fd_run os sl k s \<Longrightarrow> as_int (ret ctx) < 0 \<Longrightarrow> post_open_hook os tid ctx s = Inr s' \<Longrightarrow> fd_run os sl k s'"
| openat_fails: "fd_run os sl k s \<Longrightarrow> as_int (ret ctx) < 0 \<Longrightarrow> post_openat_hook os tid ctx s = Inr s' \<Longrightarrow> fd_run os sl k s'"
| dup: "fd_run os sl k s \<Longrightarrow> 0 \<le> as_int (arg ctx 0) \<Longrightarrow> as_int (ret ctx) = fd \<Longrightarrow> 0 \<le> fd \<Longrightarrow> k fd = None \<Longrightarrow>
    post_dup_hook tid ctx s = Inr s' \<Longrightarrow> fd_run os sl (k(fd := k (as_int (arg ctx 0)))) s'"
| dup2: "fd_run os sl k s \<Longrightarrow> 0 \<le> as_int (arg ctx 0) \<Longrightarrow> 0 \<le> as_int (ret ctx) \<Longrightarrow> as_int (arg ctx 1) = fd \<Longrightarrow> 0 \<le> fd \<Longrightarrow>
    post_dup2_hook tid ctx s = Inr s' \<Longrightarrow>
    fd_run os (sl \<or> k fd = Some Input \<and> k (as_int (arg ctx 0)) \<noteq> Some Input) (k(fd := k (as_int (arg ctx 0)))) s'"
| dup_fails: "fd_run os sl k s \<Longrightarrow> as_int (ret ctx) < 0 \<Longrightarrow> post_dup_hook tid ctx s = Inr s' \<Longrightarrow> fd_run os sl k s'"
| dup2_fails: "fd_run os sl k s \<Longrightarrow> as_int (ret ctx) < 0 \<Longrightarrow> post_dup2_hook tid ctx s = Inr s' \<Longrightarrow> fd_run os sl k s'"
| close: "fd_run os sl k s \<Longrightarrow> 0 \<le> sint (ret ctx) \<Longrightarrow> as_int (arg ctx 0) = fd \<Longrightarrow> 0 \<le> fd \<Longrightarrow>
    post_close_hook tid ctx s = Inr s' \<Longrightarrow> fd_run os (sl \<or> fd = 0) (k(fd := None)) s'"
| close_fails: "fd_run os sl k s \<Longrightarrow> sint (ret ctx) < 0 \<Longrightarrow> post_close_hook tid ctx s = Inr s' \<Longrightarrow> fd_run os sl k s'"

lemmas fd_hook_defs = post_open_hook_def post_openat_hook_def post_dup_hook_def post_dup2_hook_def post_close_hook_def
  Let_def add_fuzzing_fd_def remove_fuzzing_fd_def is_fuzzing_fd_def

text \<open>No descriptor of the input is missed, in any run.\<close>

definition misses_none :: "(int \<Rightarrow> opened option) \<Rightarrow> ('a, 's) sys \<Rightarrow> bool" where
  "misses_none k s \<longleftrightarrow> (\<forall>fd \<ge> 0. k fd = Some Input \<longrightarrow> is_fuzzing_fd fd s)"

lemma misses_none_rules:
  "misses_none k s \<Longrightarrow> 0 \<le> fd \<Longrightarrow> misses_none (k(fd \<mapsto> Input)) (add_fuzzing_fd fd s)"
  "misses_none k s \<Longrightarrow> f \<noteq> Some Input \<Longrightarrow> misses_none (k(fd := f)) s"
  "misses_none k s \<Longrightarrow> misses_none k (add_fuzzing_fd fd s)"
  "misses_none k s \<Longrightarrow> misses_none (k(fd := None)) (remove_fuzzing_fd fd s)"
  by (auto simp: misses_none_def add_fuzzing_fd_def remove_fuzzing_fd_def is_fuzzing_fd_def)

lemma misses_none_copy:
  assumes "misses_none k s" "0 \<le> fd" "0 \<le> old"
  shows "misses_none (k(fd := k old)) (if is_fuzzing_fd old s then add_fuzzing_fd fd s else s)"
proof (cases "k old = Some Input")
  case True
  then have "is_fuzzing_fd old s" using assms by (simp add: misses_none_def)
  then show ?thesis using True misses_none_rules(1) [OF assms(1,2)] by simp
next
  case False
  then have "misses_none (k(fd := k old)) s" by (rule misses_none_rules(2) [OF assms(1)])
  then show ?thesis by (simp add: misses_none_rules(3))
qed

lemma misses_none_named:
  assumes "misses_none k s" "0 \<le> fd"
  shows "misses_none (k(fd \<mapsto> file_named name)) (if strstr name FUZZING_INPUT_FILE then add_fuzzing_fd fd s else s)"
  using misses_none_rules(1) [OF assms] misses_none_rules(2) [OF assms(1)] by (simp add: file_named_def)

text \<open>A failed call leaves the tool as it was.\<close>

lemma failed_call:
  "as_int (ret ctx) < 0 \<Longrightarrow> post_open_hook os tid ctx s = Inr s' \<Longrightarrow> s' = s"
  "as_int (ret ctx) < 0 \<Longrightarrow> post_openat_hook os tid ctx s = Inr s' \<Longrightarrow> s' = s"
  "as_int (ret ctx) < 0 \<Longrightarrow> post_dup_hook tid ctx s = Inr s' \<Longrightarrow> s' = s"
  "as_int (ret ctx) < 0 \<Longrightarrow> post_dup2_hook tid ctx s = Inr s' \<Longrightarrow> s' = s"
  "sint (ret ctx) < 0 \<Longrightarrow> post_close_hook tid ctx s = Inr s' \<Longrightarrow> s' = s"
  by (auto simp: fd_hook_defs bindE_eq_Inr split: if_splits)

text \<open>A call that succeeds, as an operation on the set.\<close>

lemma done_call:
  "load_str os (arg ctx 0) = Inr name \<Longrightarrow> 0 \<le> as_int (ret ctx) \<Longrightarrow> post_open_hook os tid ctx s =
    Inr (if strstr name FUZZING_INPUT_FILE then add_fuzzing_fd (as_int (ret ctx)) s else s)"
  "load_str os (arg ctx 1) = Inr name \<Longrightarrow> post_openat_hook os tid ctx s =
    Inr (if strstr name FUZZING_INPUT_FILE then add_fuzzing_fd (as_int (ret ctx)) s else s)"
  "0 \<le> as_int (ret ctx) \<Longrightarrow> post_dup_hook tid ctx s =
    Inr (if is_fuzzing_fd (as_int (arg ctx 0)) s then add_fuzzing_fd (as_int (ret ctx)) s else s)"
  "0 \<le> as_int (ret ctx) \<Longrightarrow> post_dup2_hook tid ctx s =
    Inr (if is_fuzzing_fd (as_int (arg ctx 0)) s then add_fuzzing_fd (as_int (arg ctx 1)) s else s)"
  "0 \<le> sint (ret ctx) \<Longrightarrow> post_close_hook tid ctx s =
    Inr (if is_fuzzing_fd (as_int (arg ctx 0)) s then remove_fuzzing_fd (as_int (arg ctx 0)) s else s)"
  by (auto simp: post_open_hook_def post_openat_hook_def post_dup_hook_def post_dup2_hook_def post_close_hook_def Let_def)

lemma fd_run_misses_none: "fd_run os sl k s \<Longrightarrow> misses_none k s"
proof (induction rule: fd_run.induct)
  case (start s k)
  then show ?case by (force simp: misses_none_def is_fuzzing_fd_def)
next
  case (close sl k s ctx fd tid s')
  then show ?case using misses_none_rules(2) [OF close.IH, of None fd] misses_none_rules(4) [OF close.IH, of fd]
    by (auto simp: done_call fun_upd_def)
next
  case (opened_file sl k s ctx name fd tid s')
  then show ?case using misses_none_named [OF opened_file.IH, of fd name] by (auto simp: done_call fun_upd_def)
next
  case (openat sl k s ctx name fd tid s')
  then show ?case using misses_none_named [OF openat.IH, of fd name] by (auto simp: done_call fun_upd_def)
next
  case (dup sl k s ctx fd tid s')
  then show ?case using misses_none_copy [OF dup.IH, of fd "as_int (arg ctx 0)"] by (auto simp: done_call fun_upd_def)
next
  case (dup2 sl k s ctx fd tid s')
  then show ?case using misses_none_copy [OF dup2.IH, of fd "as_int (arg ctx 0)"] by (auto simp: done_call fun_upd_def)
next
  case (other sl k s fd)
  then show ?case using misses_none_rules(2) [OF other.IH] by (simp add: fun_upd_def)
qed (auto dest: failed_call)

text \<open>Unless a descriptor of the input was lost in one of the two ways, the set is exact.\<close>

definition tracks :: "(int \<Rightarrow> opened option) \<Rightarrow> ('a, 's) sys \<Rightarrow> bool" where
  "tracks k s \<longleftrightarrow> k 0 = Some Input \<and> (\<forall>fd. fd \<in> fuzzing_fd_set s \<longleftrightarrow> 0 < fd \<and> k fd = Some Input)"

lemma tracks_add: "tracks k s \<Longrightarrow> 0 \<le> fd \<Longrightarrow> tracks (k(fd \<mapsto> Input)) (add_fuzzing_fd fd s)"
  by (auto simp: tracks_def add_fuzzing_fd_def)

lemma tracks_other: "tracks k s \<Longrightarrow> k fd \<noteq> Some Input \<Longrightarrow> f \<noteq> Some Input \<Longrightarrow> tracks (k(fd := f)) s"
  by (auto simp: tracks_def)

lemma tracks_remove: "tracks k s \<Longrightarrow> 0 < fd \<Longrightarrow> tracks (k(fd := None)) (remove_fuzzing_fd fd s)"
  by (simp add: tracks_def remove_fuzzing_fd_def)

lemma tracks_answers: "tracks k s \<Longrightarrow> 0 \<le> fd \<Longrightarrow> is_fuzzing_fd fd s \<longleftrightarrow> k fd = Some Input"
  by (cases "fd = 0") (simp_all add: tracks_def is_fuzzing_fd_def)

lemma tracks_copy:
  assumes "tracks k s" "0 \<le> fd" "0 \<le> old" "k fd = Some Input \<longrightarrow> k old = Some Input"
  shows "tracks (k(fd := k old)) (if is_fuzzing_fd old s then add_fuzzing_fd fd s else s)"
  using assms tracks_answers [OF assms(1,3)] tracks_add [OF assms(1,2)] by (auto intro: tracks_other)

lemma tracks_named:
  assumes "tracks k s" "0 \<le> fd" "k fd = None"
  shows "tracks (k(fd \<mapsto> file_named name)) (if strstr name FUZZING_INPUT_FILE then add_fuzzing_fd fd s else s)"
  using assms by (simp add: file_named_def tracks_add tracks_other)

lemma fd_run_tracks: "fd_run os sl k s \<Longrightarrow> \<not> sl \<Longrightarrow> tracks k s"
proof (induction rule: fd_run.induct)
  case (start s k)
  then show ?case by (auto simp: tracks_def)
next
  case (close sl k s ctx fd tid s')
  then have t: "tracks k s" "0 < fd" by auto
  then show ?case using close tracks_remove [OF t] tracks_other [OF t(1), of fd None] tracks_answers [OF t(1), of fd]
    by (auto simp: done_call fun_upd_def)
next
  case (opened_file sl k s ctx name fd tid s')
  then show ?case using tracks_named [of k s fd name] by (auto simp: done_call fun_upd_def)
next
  case (openat sl k s ctx name fd tid s')
  then show ?case using tracks_named [of k s fd name] by (auto simp: done_call fun_upd_def)
next
  case (dup sl k s ctx fd tid s')
  then show ?case using tracks_copy [of k s fd "as_int (arg ctx 0)"] by (auto simp: done_call fun_upd_def)
next
  case (dup2 sl k s ctx fd tid s')
  then show ?case using tracks_copy [of k s fd "as_int (arg ctx 0)"] by (auto simp: done_call fun_upd_def)
next
  case (other sl k s fd)
  then show ?case using tracks_other [of k s fd "Some Other"] by (simp add: fun_upd_def)
qed (auto dest: failed_call)

text \<open>
  A run after which the answer is wrong: a duplicate of the standard input is replaced by
  another file.
\<close>

lemma fd_run_slips: "\<exists>k (s' :: ('a, 's) sys). fd_run os True k s' \<and> is_fuzzing_fd 3 s' \<and> k 3 = Some Other"
proof -
  define s0 :: "('a, 's) sys" where "s0 = undefined\<lparr>fuzzing_fd_set := {}\<rparr>"
  let ?k = "[0 \<mapsto> Input, 4 \<mapsto> Other] :: int \<Rightarrow> opened option" and ?s = "add_fuzzing_fd 3 s0"
  let ?dup = "\<lparr>nr = 32, arg = (\<lambda>_. 0), ret = 3\<rparr>" and ?dup2 = "\<lparr>nr = 33, arg = (\<lambda>i. if i = 0 then 4 else 3), ret = 3\<rparr>"
  have w: "as_int 0 = 0" "as_int 3 = 3" "as_int 4 = 4" by (simp_all add: as_int_def)
  have "fd_run os False ?k s0" by (rule fd_run.start) (auto simp: s0_def)
  then have r: "fd_run os False (?k(3 \<mapsto> Input)) ?s"
    using fd_run.dup [of os False ?k s0 ?dup 3 1 ?s] by (simp add: w done_call is_fuzzing_fd_def)
  have n: "\<not> is_fuzzing_fd 4 ?s" by (simp add: is_fuzzing_fd_def add_fuzzing_fd_def s0_def)
  have "fd_run os True (?k(3 \<mapsto> Other)) ?s"
    using fd_run.dup2 [OF r, of ?dup2 3 1 ?s] n by (simp add: w done_call)
  moreover have "is_fuzzing_fd 3 ?s" by (simp add: is_fuzzing_fd_def add_fuzzing_fd_def)
  ultimately show ?thesis by (intro exI [of _ "?k(3 \<mapsto> Other)"] exI [of _ ?s]) simp
qed

section \<open>The table of the tool\<close>

lemma table_pre [simp]: "n < SYSCALL_MAX \<Longrightarrow> desc_pre (syscall_desc os T ! n) = None"
  using table_ok [of os T] by (simp add: list_all_length desc_ok_def)

lemma read_nargs [simp]: "nargs (syscall_desc os T ! 0) = 3"
  by (simp add: syscall_desc_def nth_append syscalls_0_39_def desc_entry_def)

text \<open>The number that the entry leaves for the exit.\<close>

lemma sysenter_nr:
  assumes "sysenter_save descs n args tid s = Inr s'" "list_all desc_ok descs" "length descs = SYSCALL_MAX"
  shows "nr (syscall_ctx_of s' tid) < int SYSCALL_MAX"
proof (cases "unat n < SYSCALL_MAX")
  case True
  then have "int (unat n) < int SYSCALL_MAX" by (simp only: of_nat_less_iff)
  moreover have "desc_pre (descs ! unat n) = None" using True assms by (simp add: list_all_length desc_ok_def)
  ultimately show ?thesis using True assms(1) by (auto simp: sysenter_save_def Let_def split: if_splits)
next
  case False
  then show ?thesis using assms(1) by (auto simp: sysenter_save_def Let_def SYSCALL_MAX_def)
qed

lemma through_table_default:
  assumes "n < SYSCALL_MAX" "length descs = SYSCALL_MAX" "list_all desc_ok descs" "keeps_context (descs ! n)" "desc_post (descs ! n) = None"
  shows "clears T (\<Union>i \<in> {i. i < nargs (descs ! n) \<and> map_args (descs ! n) ! i \<noteq> 0 \<and> args i \<noteq> 0}.
      range_of (args i) (ucast (map_args (descs ! n) ! i))) s
    (bindE (sysenter_save descs (of_nat n) args tid s) (sysexit_save T descs r tid))"
proof -
  let ?d = "descs ! n"
  let ?ctx = "(syscall_ctx_of s tid)\<lparr>nr := int n, arg := saved_arguments (nargs ?d) args (arg (syscall_ctx_of s tid))\<rparr>"
  have d: "desc_ok ?d" using assms by (simp add: list_all_length)
  have u: "unat (of_nat n :: u64) = n" using assms(1) by (simp add: unat_of_nat_64 SYSCALL_MAX_def)
  have e: "sysenter_save descs (of_nat n) args tid s = Inr (set_syscall_ctx tid ?ctx s)"
    using d assms(1,4) by (simp add: sysenter_save_def Let_def u desc_ok_def)
  have a: "arg ?ctx i = args i" if "i < nargs ?d" for i
    using that d by (auto simp: saved_arguments_def desc_ok_def)
  have "clears T (\<Union>i \<in> {i. i < nargs ?d \<and> map_args ?d ! i \<noteq> 0 \<and> arg ?ctx i \<noteq> 0}. range_of (arg ?ctx i) (ucast (map_args ?d ! i)))
      (set_syscall_ctx tid ?ctx s) (sysexit_save T descs r tid (set_syscall_ctx tid ?ctx s))"
    using sysexit_default [of "set_syscall_ctx tid ?ctx s" tid ?d descs T r] assms(4,5) by simp
  moreover have "(\<Union>i \<in> {i. i < nargs ?d \<and> map_args ?d ! i \<noteq> 0 \<and> arg ?ctx i \<noteq> 0}. range_of (arg ?ctx i) (ucast (map_args ?d ! i))) =
      (\<Union>i \<in> {i. i < nargs ?d \<and> map_args ?d ! i \<noteq> 0 \<and> args i \<noteq> 0}. range_of (args i) (ucast (map_args ?d ! i)))"
    using a by auto
  ultimately show ?thesis unfolding e bindE_simps by (simp add: clears_def)
qed

text \<open>An error number as a result, seen as an unsigned number, and cut to 32 bits.\<close>

lemma error_word:
  assumes "1 \<le> e" "e \<le> 4095"
  shows "- of_nat e \<noteq> (0 :: u64)" "sint (- of_nat e :: u64) \<le> 0"
    "(ucast (ucast (- of_nat e :: u64) :: u32) :: u64) = 2 ^ 32 - of_nat e"
proof -
  have w: "(- of_nat e :: u64) = word_of_int (- int e)" by simp
  have s: "sint (- of_nat e :: u64) = - int e"
    unfolding w using assms by (simp only: signed_of_int) (simp add: signed_take_bit_int_eq_self)
  show "- of_nat e \<noteq> (0 :: u64)" "sint (- of_nat e :: u64) \<le> 0" using s assms by auto
  have up: "uint (ucast x :: u64) = uint x" for x :: u32
    using unsigned_less [of x, where ?'a = int] by (simp add: unsigned_ucast_eq take_bit_eq_mod)
  have u: "uint (- of_nat e :: u64) = (- int e) mod 2 ^ 64"
    by (simp only: w uint_word_of_int) simp
  have "uint (ucast (- of_nat e :: u64) :: u32) = (- int e) mod 2 ^ 32"
    by (simp add: unsigned_ucast_eq u take_bit_eq_mod mod_mod_cancel)
  moreover have "(- int e) mod 2 ^ 32 = 2 ^ 32 - int e" using assms by (simp add: zmod_zminus1_eq_if)
  moreover have "uint (2 ^ 32 - of_nat e :: u64) = 2 ^ 32 - int e"
    using assms by (simp add: uint_word_ariths unsigned_of_nat take_bit_eq_mod)
  ultimately show "(ucast (ucast (- of_nat e :: u64) :: u32) :: u64) = 2 ^ 32 - of_nat e"
    unfolding word_uint_eq_iff up by (simp only:)
qed

section \<open>An example\<close>

text \<open>
  A system where the memory at \<open>0x1000\<close> holds two vectors and at \<open>0x4000\<close> the name of the
  input, and the state in which that file is open as descriptor 3.
\<close>

definition example_os :: os where
  "example_os = \<lparr>sizeof = (\<lambda>t. if t = ''struct iovec'' then 16 else 0x90),
    offsetof = (\<lambda>t f. if f = ''iov_len'' then 8 else 0),
    peek64 = (\<lambda>a. if a = 0x1000 then Some 0x2000 else if a = 0x1008 then Some 2
      else if a = 0x1010 then Some 0x3000 else if a = 0x1018 then Some 4 else None),
    peek32 = (\<lambda>_. None), peek_str = (\<lambda>a. if a = 0x4000 then Some ''/tmp/cur_input'' else None),
    lseek_cur = (\<lambda>_. 100)\<rparr>"

definition example_sys :: "(u32 set, unit) sys" where
  "example_sys = \<lparr>engine = \<lparr>threads_ctx = \<lambda>_. \<lparr>vcpu = \<lparr>gpr = \<lambda>_ _. {}\<rparr>, syscall = \<lparr>nr = 0, arg = \<lambda>_. 0, ret = 0\<rparr>\<rparr>,
      tag_dir = \<lparr>table = \<lambda>_. None\<rparr>, tags = ()\<rparr>,
    fuzzing_fd_set = {3}, stdin_read_off = 0, tainted = False\<rparr>"

lemma example_fd_run: "fd_run example_os False [0 \<mapsto> Input, 3 \<mapsto> Input] example_sys"
proof -
  let ?s = "example_sys\<lparr>fuzzing_fd_set := {}\<rparr>" and ?ctx = "\<lparr>nr = 2, arg = (\<lambda>i. 0x4000), ret = 3\<rparr>"
  have n: "file_named ''/tmp/cur_input'' = Input" by (simp add: file_named_def FUZZING_INPUT_FILE_def)
  have "fd_run example_os False [0 \<mapsto> Input] ?s" by (rule fd_run.start) auto
  then have "fd_run example_os False ([0 \<mapsto> Input](3 \<mapsto> file_named ''/tmp/cur_input'')) example_sys"
    by (rule fd_run.opened_file [where ctx = ?ctx and tid = 1])
      (simp_all add: load_str_def example_os_def as_int_def post_open_hook_def add_fuzzing_fd_def example_sys_def
        FUZZING_INPUT_FILE_def)
  then show ?thesis by (simp add: n)
qed

end
