(* ===== verification/Spec2Isabelle.thy ===== *)
theory Spec2Isabelle
  imports BddCare BddClosure BddExample SsaGcExample BddTag InsTrace SyscallFile
begin

text \<open>
  A model of the taint analysis of this repository and of the decision diagrams it is built
  on, with the theorems that make them correct.

  \<^bold>\<open>The program.\<close> The tool runs a process under Pin. For every instruction \<open>ins_inspect\<close>
  (\<open>src/src/libdft_core.cpp\<close>) inserts calls to analysis routines (\<open>ins_*_op.cpp\<close>), which move
  tags between the virtual CPU of the thread and the tag directory of the memory
  (\<open>tagmap.cpp\<close>). What a tag is depends on the build (\<open>tag_trait.cpp\<close>, \<open>ssa_tag_*.cpp\<close>): a
  tag stands for a set of input offsets, and a routine either copies tags or combines two of
  them into a tag of the union. The diagram-backed tags are nodes of the vendored and
  modified Sylvan (\<open>src/sylvan/src\<close>): a set of offsets is a Boolean function of the bits of
  the offset, and a union is a disjunction computed by the task \<open>sylvan_and_alone\<close>.

  \<^bold>\<open>Theories, from the bottom.\<close>
  \<^item> \<open>Prelude\<close>: machine-word types, the outcome type \<open>error + 'a\<close> with its sequencing, bitmaps.
  \<^item> \<open>SylvanHash\<close> (\<open>sylvan_hash.c\<close>): the hash functions; the limb arithmetic is arithmetic
    modulo \<open>2^89 - 1\<close>.
  \<^item> \<open>NodeTable\<close>, \<open>NodeTableLoops\<close>, \<open>NodeTableInv\<close>, \<open>NodeTableGC\<close> (\<open>sylvan_table.c\<close>): the
    record \<open>llmsset\<close> is the struct of the same name, hash array, data array and the three
    bitmaps. First the operations; then the order of probes and the claim of a bucket; then
    the invariant \<open>table_ok\<close> and the outcome of a lookup; then marking, resizing, rehashing.
    \<open>UniqueTable\<close> states as a locale what the node constructors rely on, and interprets it.
  \<^item> \<open>OpCache\<close> (\<open>sylvan_cache.c\<close>): the operation cache, with the contract that a cache whose
    writes are sound answers soundly. \<open>RefsTable\<close> (\<open>sylvan_refs.c\<close>): the tables of external
    references. \<open>SylvanMt\<close> (\<open>sylvan_mt.c\<close>): the registry of leaf types.
  \<^item> \<open>MtbddNode\<close> (\<open>sylvan_mtbdd_int.h\<close>): nodes and edges as pairs of words.
  \<^item> \<open>SylvanState\<close> (\<open>sylvan_common.c\<close> and the collector of \<open>sylvan_mtbdd.c\<close>): the record
    \<open>sylvan\<close> holds the globals of the library; \<open>mtbdd_makenode\<close>, \<open>sylvan_gc\<close>. \<open>GcSpec\<close>: a
    collection keeps what is reachable from the roots, nothing else, and the invariant.
  \<^item> \<open>BddSem\<close>: the function of a diagram, canonicity. \<open>BddStore\<close>: the contract \<open>gives\<close> and
    \<open>results\<close> of an operation that may collect. \<open>BddOps\<close>, \<open>BddAnd\<close>, \<open>BddIte\<close>
    (\<open>sylvan_bdd.c\<close>): the operations on Boolean diagrams, in the locale \<open>store_world\<close> that is
    interpreted once with and once without collection. \<open>SylvanStart\<close>: initialisation, and a
    small well-formed state for the witnesses.
  \<^item> \<open>TagMap\<close> (\<open>tagmap.cpp\<close>, \<open>libdft_api.h\<close>): the record \<open>dft\<close> is the virtual CPUs, the tag
    directory and the state of the tag implementation. \<open>TaintFlow\<close>: the locale \<open>tag_type\<close>
    is what the engine needs of a tag type, and its lemmas say how the building blocks of the
    routines move taint. \<open>TagTypes\<close> (\<open>tag_trait.cpp\<close>): two tag types that satisfy it.
  \<^item> \<open>XferOps\<close>, \<open>BinaryOps\<close>, \<open>XchgOps\<close> (\<open>ins_*_op.cpp\<close>): the analysis routines, each with
    the flow of taint that it has. \<open>Instrument\<close>, \<open>InsInspect\<close> (\<open>ins_helper.h\<close>,
    \<open>libdft_core.cpp\<close>, \<open>trace_inspect\<close> of \<open>libdft_api.cpp\<close>): the choice of the routines.
    \<open>InsFlows\<close>, \<open>InsSpecs\<close>: for each kind of operands the chosen routine moves the taint of
    exactly the bytes of the operands. \<open>InsSafe\<close>: every instruction that accesses
    the user space runs, stays in the invariant and only moves taint; \<open>InsStray\<close>: elsewhere it may
    also fail on a null pointer. \<open>InsExamples\<close>: groups of opcodes and concrete operands.
    \<open>InsTrace\<close>: what ordinary instructions move, from opcode and operands alone, and traces of them.
  \<^item> \<open>MtbddSets\<close>, \<open>MtbddEnum\<close> (\<open>sylvan_mtbdd.c\<close>): sets of variables, cubes, and the enumeration of
    satisfying assignments. \<open>TableRoom\<close>: when a lookup cannot fail. \<open>Ssa\<close>, \<open>SsaStart\<close>
    (\<open>ssa_tag_nogc.cpp\<close>): tags that are diagrams, as a tag type, and their start-up.
  \<^item> \<open>RefsSpec\<close>: the protection table of \<open>RefsTable\<close> refines a multiset of addresses. \<open>SsaGc\<close>
    (\<open>ssa_tag_gc.cpp\<close>, \<open>ssa_tag_gc.h\<close>): tags that are pointers to counted diagrams, the ring of
    free objects and its collection. \<open>SsaPool\<close>: the ring, and what a collection enters.
    \<open>SsaGcInv\<close>: the invariant \<open>pool_ok\<close> and that taking an object keeps it. \<open>SsaGcTags\<close>: copies,
    assignments and results. \<open>SsaGcRun\<close>: the caches of the threads, fresh tags, unions, printing,
    start-up and runs. \<open>SsaGcExample\<close>: a concrete pool with tags, for the witnesses.
  \<^item> \<open>BddTag\<close> (\<open>bdd_tag.cpp\<close>): tags that are labels of a segment tree, as a tag type.
  \<^item> \<open>SyscallDesc\<close>, \<open>SyscallPost\<close>, \<open>SyscallTable\<close> (\<open>syscall_desc.cpp\<close>, \<open>syscall_struct.h\<close>,
    \<open>sysenter_save\<close> and \<open>sysexit_save\<close> of \<open>libdft_api.cpp\<close>): descriptors of system calls, their
    callbacks, the table, and what runs around a call. \<open>SyscallFile\<close> (\<open>syscall_hook.cpp\<close>): the
    callbacks that follow the descriptors of the input and label what is read from them. The
    record \<open>sys\<close> is the engine with their globals; the record \<open>os\<close> is what the sources take
    from the system: sizes and layouts of structures, memory, positions of files.

  \<^item> \<open>BddQuant\<close>, \<open>BddCare\<close> (\<open>sylvan_bdd.c\<close>): quantification and projection over sets of
    variables, and simplification under a care function, with the contract of \<open>BddOps\<close>.
  \<^item> \<open>MtbddMaps\<close> (\<open>sylvan_mtbdd.c\<close>): maps from variables to diagrams. \<open>BddCompose\<close>,
    \<open>BddSat\<close> (\<open>sylvan_bdd.c\<close>): composition; the search for satisfying assignments, cubes, unions
    with a cube. \<open>BddExample\<close>: states with a map and with relations, for
    the witnesses, and the product that comes out wrong.
    \<open>BddRel\<close>, \<open>BddClosure\<close> (\<open>sylvan_bdd.c\<close>): relational products and the transitive closure.
    Both are proved with the states of a run that has references pushed (\<open>run_at\<close>).

  \<^bold>\<open>How state and operations correspond.\<close> A C struct is a record with the fields of the
  struct, a global is a field of the record of its component. A word has its width. An array
  is a list, or a function of the index where the size is fixed by the address space. An
  operation takes the state and returns it, in a sum type where the code can abort, call
  \<open>exit\<close>, or dereference null: \<open>Inl\<close> names the failure. One worker runs, so that an atomic
  compare-and-swap is an assignment that succeeds, and a task that is spawned runs when it is
  synchronised. An \<open>assert\<close> of the sources is a branch that ends in \<open>AssertFail\<close>; a build that
  defines \<open>NDEBUG\<close>, as an optimised build of Sylvan may, goes on instead, and an entry of a table of
  references whose probes have all failed is then lost without a notice. \<open>sylvan_mt_from_node\<close> leaves
  out its assertion, which \<open>sylvan_mt_has_custom_hash\<close> has checked before a leaf is entered. Pin is
  an argument: the record \<open>pin\<close> has what Pin says of an instruction and of register classes, \<open>rt\<close>
  what it passes when an instruction runs.

  \<^bold>\<open>What the properties show.\<close> C1 to C12: the operations on diagrams compute their Boolean
  functions, in canonical form, or report that the table is full; C4 is the one that computes
  more than it should. C7: maps of diagrams. C8: satisfying assignments. C9 and C10: relations,
  and where they come out wrong. C13 to C18: nodes, table and collector, with C27: a table with
  room is never full. C19: the cache. The tag types: C21 and C22 segment trees, C35 and C20
  diagrams. C28: the tag directory. C23 to C26: system calls, where taint enters, and where it is
  cleared. C29 to C31: each kind of instruction moves the taint of its operands as it should; C32:
  so do traces of ordinary instructions; C33: every trace only moves taint; C34: an opcode group
  that drops taint. The counted tags: C36 the invariant of every run, C37 the taint of fresh tags
  and unions, C38 that taking an object ends, C40 what a second collection does; under them, C39:
  the protection table is a multiset. The
  theorems without a number complete these: start-up of the diagram
  tags, cancelling and exchanging registers, \<open>readv\<close>, system calls without a callback.

  A property that an operation gives its result allows the failures of its contract: \<open>TableFull\<close>,
  and \<open>OutOfFuel\<close> where the tables are so large that a probe sequence does not end. When these occur
  is the matter of C15 and C27: a lookup finds a full table, or one with no room along its probes.

  \<^bold>\<open>Fuel and bounds.\<close> The recursive operations on diagrams take fuel, one unit for each
  level: a variable has 24 bits and a recursive call goes to a higher one, so that
  \<open>2^24 + 1\<close> units are enough for each of them, which the theorems prove. Marking takes a
  unit for each live bucket. A probe sequence visits each slot once in \<open>table_size\<close>
  steps (C17), and a claim of a bucket looks at each region once, so these loops end with a
  result, except that a lookup in a full table of more than \<open>2^17\<close> buckets may go round for ever:
  the threshold that stops it has 16 bits and a sign, and \<open>OutOfFuel\<close> says so (C15). The loops of the
  segment tree take as many units as there is to insert, or nodes above a label, and one more (C21).
  The loops that label a buffer count in 32 bits: \<open>2^32\<close> units decide whether they end. A walk over a trace is structural.

  \<^bold>\<open>Not modelled.\<close> The work-stealing scheduler (\<open>lace.h\<close>): its result is that of one
  worker; interleavings of several workers are not in the model. List decision diagrams
  (\<open>sylvan_ldd.c\<close>), multi-terminal arithmetic, the writers and readers of files and the skip
  list they use: the engine does not call them. EWAH bitmaps, sha2, avl: third-party code.
  Of \<open>sylvan_bdd.c\<close>, counting in floating point is not modelled, nor reading and writing files. The command line and output of the sample tool are pure I/O.
\<close>

section \<open>The operations of the taint engine\<close>

text \<open>
  C1. The task that the taint worker runs for a union, \<open>sylvan_and_alone\<close>: started in a
  well-formed state on two protected diagrams of \<open>f\<close> and \<open>g\<close>, with fuel for as many levels
  as there are variables, it returns a diagram of \<open>f \<and> g\<close> in a well-formed state that keeps
  everything protected before, or it stops because the table is full.
\<close>

theorem and_alone_correct:
  assumes "bdd_ok st" "safe st a" "safe st b" "bdd (nodes st) 0 a f" "bdd (nodes st) 0 b g" "2 ^ 24 < fuel"
  shows "results st (sylvan_and_alone fuel a b prev_level st) (\<lambda>\<sigma>. f \<sigma> \<and> g \<sigma>)"
  unfolding results_gives using assms by (intro sylvan_and_alone_gives [where v = 0]) (auto intro: bdd_indep)

theorem and_alone_correct_witness:
  "results example (sylvan_and_alone (2 ^ 24 + 1) 2 (mtbdd_not 2) 0 example) (\<lambda>\<sigma>. \<sigma> 3 \<and> \<not> \<sigma> 3)"
  by (rule and_alone_correct [OF example_ok(1,2,4,3,5)]) simp

text \<open>
  The same for the task \<open>sylvan_and\<close>, which spawns its high branch and runs it when it
  is synchronised, with the low result on the stack of references.
\<close>

theorem and_correct:
  assumes "bdd_ok st" "safe st a" "safe st b" "bdd (nodes st) 0 a f" "bdd (nodes st) 0 b g" "2 ^ 24 < fuel"
  shows "results st (sylvan_and fuel a b prev_level st) (\<lambda>\<sigma>. f \<sigma> \<and> g \<sigma>)"
  unfolding results_gives using assms by (intro sylvan_and_gives [where v = 0]) (auto intro: bdd_indep)

theorem and_correct_witness:
  "results example (sylvan_and (2 ^ 24 + 1) 2 (mtbdd_not 2) 0 example) (\<lambda>\<sigma>. \<sigma> 3 \<and> \<not> \<sigma> 3)"
  by (rule and_correct [OF example_ok(1,2,4,3,5)]) simp

text \<open>
  The two forms without collection need no protection of their arguments, and keep
  every node of the table, not only the protected ones.
\<close>

theorem and_nogc_correct:
  assumes "bdd_ok st" "bdd (nodes st) 0 a f" "bdd (nodes st) 0 b g" "2 ^ 24 < fuel"
    and "m \<in> {sylvan_and_nogc fuel a b prev_level st, sylvan_and_nogc_alone fuel a b prev_level st}"
  shows "gives grows st m (\<lambda>h. h = (\<lambda>\<sigma>. f \<sigma> \<and> g \<sigma>))"
proof -
  have i: "indep 0 f" "indep 0 g" using assms(2,3) by (auto intro: bdd_indep)
  have fu: "(0::nat) \<le> 2 ^ 24" "2 ^ 24 < 0 + fuel" using assms(4) by auto
  show ?thesis
    using assms(5) sylvan_and_nogc_gives [OF assms(1-3) i fu] sylvan_and_nogc_alone_gives [OF assms(1-3) i fu] by blast
qed

theorem and_nogc_correct_witness:
  "gives grows example (sylvan_and_nogc_alone (2 ^ 24 + 1) 2 (mtbdd_not 2) 0 example) (\<lambda>h. h = (\<lambda>\<sigma>. \<sigma> 3 \<and> \<not> \<sigma> 3))"
  by (rule and_nogc_correct [OF example_ok(1,3,5), where fuel = "2 ^ 24 + 1" and prev_level = 0]) simp_all

text \<open>
  The form that counts its calls computes exactly what the form without the counter
  does, for every value of the counter.
\<close>

theorem and_profile_same:
  "sylvan_and_alone fuel a b prev_level st =
    bindE (sylvan_and_alone_profile fuel a b prev_level cb_count st) (\<lambda>((c, r), t). Inr (r, t))"
  by (rule sylvan_and_alone_profile_eq)

text \<open>Exclusive or.\<close>

theorem xor_correct:
  assumes "bdd_ok st" "safe st a" "safe st b" "bdd (nodes st) 0 a f" "bdd (nodes st) 0 b g" "2 ^ 24 < fuel"
  shows "results st (sylvan_xor fuel a b prev_level st) (\<lambda>\<sigma>. f \<sigma> \<noteq> g \<sigma>)"
  unfolding results_gives using assms by (intro sylvan_xor_gives [where v = 0]) (auto intro: bdd_indep)

theorem xor_correct_witness:
  "results example (sylvan_xor (2 ^ 24 + 1) 2 (mtbdd_not 2) 0 example) (\<lambda>\<sigma>. \<sigma> 3 \<noteq> (\<not> \<sigma> 3))"
  by (rule xor_correct [OF example_ok(1,2,4,3,5)]) simp

text \<open>
  C2. If-then-else, through all of its reductions to conjunction and exclusive or, its
  canonical form for the cache and its fast case.
\<close>

theorem ite_correct:
  assumes "bdd_ok st" "safe st a" "safe st b" "safe st c"
    and "bdd (nodes st) 0 a f" "bdd (nodes st) 0 b g" "bdd (nodes st) 0 c h" "2 ^ 24 < fuel"
  shows "results st (sylvan_ite fuel a b c prev_level st) (\<lambda>\<sigma>. if f \<sigma> then g \<sigma> else h \<sigma>)"
  unfolding results_gives ite_fun_def [symmetric] using assms
  by (intro sylvan_ite_gives [where v = 0]) (auto intro: bdd_indep)

theorem ite_correct_witness:
  "results example (sylvan_ite (2 ^ 24 + 1) 2 mtbdd_false (mtbdd_not 2) 0 example)
     (\<lambda>\<sigma>. if \<sigma> 3 then False else \<not> \<sigma> 3)"
  by (rule ite_correct [OF example_ok(1,2) safe_const(2) example_ok(4,3) bdd_false example_ok(5)]) simp

text \<open>
  The operators that the header derives: equivalence, disjunction, negated conjunction
  and disjunction, both implications, difference and its converse.
\<close>

theorem derived_correct:
  assumes "bdd_ok st" "safe st a" "safe st b" "bdd (nodes st) 0 a f" "bdd (nodes st) 0 b g" "2 ^ 24 < fuel"
  shows "results st (sylvan_equiv fuel a b st) (\<lambda>\<sigma>. f \<sigma> = g \<sigma>) \<and>
    results st (sylvan_or fuel a b st) (\<lambda>\<sigma>. f \<sigma> \<or> g \<sigma>) \<and>
    results st (sylvan_nand fuel a b st) (\<lambda>\<sigma>. \<not> (f \<sigma> \<and> g \<sigma>)) \<and>
    results st (sylvan_nor fuel a b st) (\<lambda>\<sigma>. \<not> (f \<sigma> \<or> g \<sigma>)) \<and>
    results st (sylvan_imp fuel a b st) (\<lambda>\<sigma>. f \<sigma> \<longrightarrow> g \<sigma>) \<and>
    results st (sylvan_invimp fuel a b st) (\<lambda>\<sigma>. g \<sigma> \<longrightarrow> f \<sigma>) \<and>
    results st (sylvan_diff fuel a b st) (\<lambda>\<sigma>. f \<sigma> \<and> \<not> g \<sigma>) \<and>
    results st (sylvan_less fuel a b st) (\<lambda>\<sigma>. \<not> f \<sigma> \<and> g \<sigma>)"
  using derived_gives [OF assms] by blast

theorem derived_correct_witness:
  "results example (sylvan_or (2 ^ 24 + 1) 2 (mtbdd_not 2) example) (\<lambda>\<sigma>. \<sigma> 3 \<or> \<not> \<sigma> 3)"
  using derived_correct [OF example_ok(1,2,4,3,5), of "2 ^ 24 + 1"] by simp

text \<open>
  C3. Quantification: \<open>sylvan_exists\<close> quantifies the variables of a set, \<open>sylvan_project\<close> all
  others, and \<open>sylvan_and_exists\<close> those of a conjunction. Here \<open>ex_quant S f\<close> holds where the
  function holds for some values of the variables in \<open>S\<close>.
\<close>

theorem quantify_correct:
  assumes "bdd_ok st" "safe st a" "safe st b" "safe st v" "bdd (nodes st) 0 a f" "bdd (nodes st) 0 b g"
    and "is_set (nodes st) vs v" "2 ^ 24 < fuel"
  shows "results st (sylvan_exists fuel a v prev_level st) (ex_quant (set vs) f) \<and>
    results st (sylvan_project fuel a v st) (ex_quant (- set vs) f) \<and>
    results st (sylvan_and_exists fuel a b v prev_level st) (ex_quant (set vs) (\<lambda>\<sigma>. f \<sigma> \<and> g \<sigma>))"
proof -
  note i = bdd_indep [OF assms(5)] bdd_indep [OF assms(6)]
  have fu: "(0::nat) \<le> 2 ^ 24" "2 ^ 24 < 0 + fuel" using assms(8) by auto
  show ?thesis
    unfolding results_gives
    using sylvan_exists_gives [OF assms(1,2,4,5,7) i(1) fu] sylvan_project_gives [OF assms(1,2,4,5,7) i(1) fu]
      sylvan_and_exists_gives [OF assms(1-7) i fu] by blast
qed

theorem quantify_correct_witness:
  "results example (sylvan_exists (2 ^ 24 + 1) 2 2 0 example) (ex_quant {3} (\<lambda>\<sigma>. \<sigma> 3)) \<and>
   results example (sylvan_project (2 ^ 24 + 1) 2 2 example) (ex_quant (- {3}) (\<lambda>\<sigma>. \<sigma> 3))"
proof -
  have "is_set (nodes example) [3] 2" using example_ok(3) by (simp add: is_set_def cube_fun_def)
  from quantify_correct [OF example_ok(1,2,4,2,3,5) this, of "2 ^ 24 + 1"] show ?thesis by simp
qed

text \<open>
  C4. The projection of a conjunction onto a set of variables. Its result depends on no other
  variable and is true wherever the projection is, but it can be larger: with \<open>true\<close> as the
  second argument the first is forgotten, and the result is \<open>true\<close>.
\<close>

theorem and_project_covers:
  assumes "bdd_ok st" "safe st a" "safe st b" "safe st v" "bdd (nodes st) 0 a f" "bdd (nodes st) 0 b g"
    and "is_set (nodes st) vs v" "2 ^ 24 \<le> fuel"
  shows "gives keep st (sylvan_and_project (Suc fuel) a b v st)
      (\<lambda>h. (\<forall>\<sigma>. ex_quant (- set vs) (\<lambda>\<sigma>. f \<sigma> \<and> g \<sigma>) \<sigma> \<longrightarrow> h \<sigma>) \<and> depends_on h (set vs)) \<and>
    (a \<noteq> mtbdd_false \<and> a \<noteq> mtbdd_true \<and> b = mtbdd_true \<and> vs \<noteq> [] \<longrightarrow>
      sylvan_and_project (Suc fuel) a b v st = Inr (mtbdd_true, st))"
proof -
  note i = bdd_indep [OF assms(5)] bdd_indep [OF assms(6)]
  have fu: "(0::nat) \<le> 2 ^ 24" "2 ^ 24 < 0 + Suc fuel" using assms(8) by auto
  have "mtbdd_set_isempty v \<longleftrightarrow> vs = []"
    using is_set_true [OF bdd_ok_table [OF assms(1)] assms(7)] by (simp add: mtbdd_set_isempty_def)
  then show ?thesis
    using gives_mono [OF sylvan_and_project_gives [OF assms(1-7) i fu]] and_project_true [of a v fuel st]
    by (auto simp: covers_def)
qed

theorem and_project_covers_witness:
  "sylvan_and_project (Suc (2 ^ 24)) 2 mtbdd_true 2 example = Inr (mtbdd_true, example) \<and>
   \<not> ex_quant (- {3}) (\<lambda>\<sigma>. \<sigma> 3 \<and> True) (\<lambda>_. False)"
proof -
  have "is_set (nodes example) [3] 2" using example_ok(3) by (simp add: is_set_def cube_fun_def)
  from and_project_covers [OF example_ok(1,2) safe_const(1) example_ok(2,3) bdd_true this, of "2 ^ 24"]
  show ?thesis by (simp add: mtbdd_false_def mtbdd_true_def ex_quant_def)
qed

text \<open>
  C5. Simplification under a care function \<open>c\<close>: both results agree with the function wherever
  \<open>c\<close> holds; that of \<open>sylvan_restrict\<close> depends on no variable that the function does not
  depend on, that of \<open>sylvan_constrain\<close> on none above both.
\<close>

theorem care_correct:
  assumes "bdd_ok st" "safe st a" "safe st b" "bdd (nodes st) 0 a f" "bdd (nodes st) 0 b c" "2 ^ 24 < fuel"
  shows "gives keep st (sylvan_constrain fuel a b prev_level st)
      (\<lambda>h. (\<forall>\<sigma>. c \<sigma> \<longrightarrow> h \<sigma> = f \<sigma>) \<and> (\<forall>v. indep v f \<longrightarrow> indep v c \<longrightarrow> indep v h)) \<and>
    gives keep st (sylvan_restrict fuel a b prev_level st)
      (\<lambda>h. (\<forall>\<sigma>. c \<sigma> \<longrightarrow> h \<sigma> = f \<sigma>) \<and> (\<forall>S. depends_on f S \<longrightarrow> depends_on h S))"
proof -
  note i = bdd_indep [OF assms(4)] bdd_indep [OF assms(5)]
  have fu: "(0::nat) \<le> 2 ^ 24" "2 ^ 24 < 0 + fuel" using assms(6) by auto
  show ?thesis
    using sylvan_constrain_gives [OF assms(1-5) i fu] sylvan_restrict_gives [OF assms(1-5) i fu]
    by (simp add: constrained_def [abs_def] restricted_def [abs_def])
qed

theorem care_correct_witness:
  "gives keep example (sylvan_restrict (2 ^ 24 + 1) 2 (mtbdd_not 2) 0 example)
     (\<lambda>h. (\<forall>\<sigma>. \<not> \<sigma> 3 \<longrightarrow> h \<sigma> = \<sigma> 3) \<and> (\<forall>S. depends_on (\<lambda>\<sigma>. \<sigma> 3) S \<longrightarrow> depends_on h S))"
  using care_correct [OF example_ok(1,2,4,3,5), of "2 ^ 24 + 1"] by simp

text \<open>
  C6. Composition: the diagram that replaces, all at once, every variable which is a key of the
  map by the diagram the map has for it. The diagrams of the map may use any variable.
\<close>

theorem compose_correct:
  assumes "bdd_ok st" "safe st a" "safe st m" "bdd (nodes st) 0 a f" "bdd_map (nodes st) 0 m g" "2 ^ 24 < fuel"
  shows "results st (sylvan_compose fuel a m prev_level st)
    (\<lambda>\<sigma>. f (\<lambda>i. case g i of None \<Rightarrow> \<sigma> i | Some h \<Rightarrow> h \<sigma>))"
  unfolding results_gives compose_fun_def [symmetric] using assms
  by (intro sylvan_compose_gives [where v = 0]) (auto intro: bdd_indep)

theorem compose_correct_witness:
  "\<exists>st a m. results st (sylvan_compose (2 ^ 24 + 1) a m 0 st) (\<lambda>\<sigma>. \<not> \<sigma> 3)"
proof -
  obtain st a m where s: "bdd_ok st" "safe st a" "safe st m" "bdd (nodes st) 0 a (\<lambda>\<sigma>. \<sigma> 3)"
    "bdd_map (nodes st) 0 m [3 \<mapsto> \<lambda>\<sigma>. \<not> \<sigma> 3]"
    using map_example by blast
  from compose_correct [OF s, of "2 ^ 24 + 1" 0] have "results st (sylvan_compose (2 ^ 24 + 1) a m 0 st) (\<lambda>\<sigma>. \<not> \<sigma> 3)"
    by simp
  then show ?thesis by blast
qed

text \<open>
  C7. The operations on maps: adding overwrites, an update takes the second map where both have
  a key, keys are removed one by one or by a set, and the tests answer what was entered.
\<close>

theorem map_operations:
  assumes "bdd_ok st" "safe st x" "safe st z" "safe st v" "bdd_map (nodes st) 0 x m" "bdd_map (nodes st) 0 z m'"
    and "bdd (nodes st) 0 y g" "is_set (nodes st) vs v" "unat key < 2 ^ 24" "2 ^ 24 < fuel"
  shows "map_gives st (mtbdd_map_add fuel x key y st) (m(unat key \<mapsto> g)) \<and>
    map_gives st (mtbdd_map_update fuel x z st) (m ++ m') \<and>
    map_gives st (mtbdd_map_remove fuel x key st) (m(unat key := None)) \<and>
    map_gives st (mtbdd_map_removeall fuel x v st) (m |` (- set vs)) \<and>
    mtbdd_map_contains fuel (nodes st) x key = Inr (unat key \<in> dom m) \<and>
    mtbdd_map_count fuel (nodes st) x 0 = Inr (card (dom m))"
proof -
  have fu: "(0::nat) \<le> 2 ^ 24" "2 ^ 24 < 0 + fuel" using assms(10) by auto
  show ?thesis
    using map_add_gives [OF assms(1,2,5,7,9) fu] map_update_gives [OF assms(1,2,3,5,6) fu]
      map_remove_gives [OF assms(1,2,5) fu] map_removeall_gives [OF assms(1,2,4,5,8) _ fu]
      map_contains_correct [OF assms(1,2,5) fu] map_count_correct [OF assms(1,2,5) fu, of 0] by simp
qed

theorem map_operations_witness:
  "map_gives example (mtbdd_map_add (2 ^ 24 + 1) mtbdd_false 5 2 example) [5 \<mapsto> \<lambda>\<sigma>. \<sigma> 3]"
proof -
  have "is_set (nodes example) [3] 2" using example_ok(3) by (simp add: is_set_def cube_fun_def)
  from map_operations [OF example_ok(1) safe_const(2,2) example_ok(2) map_empty map_empty example_ok(3) this, of 5 "2 ^ 24 + 1"]
  show ?thesis by simp
qed

text \<open>
  C8. The search for assignments of a set of variables that the diagram depends on: the callback
  of \<open>sylvan_enum\<close> is called for exactly the satisfying assignments, in lexicographic order,
  whatever it does as long as it keeps what is protected, and \<open>sylvan_sat_one\<close> finds the first.
\<close>

theorem enum_correct:
  assumes "bdd_ok st" "safe st a" "safe st v" "bdd (nodes st) 0 a f" "is_set (nodes st) vs v" "depends_on f (set vs)"
    and "cb_keeps cb" "vs \<noteq> []" "length vs < fuel" "length arr = length vs"
  shows "sylvan_enum fuel a v cb (c, st) = call_all cb (map of_nat vs) (sats f vs) (c, st) \<and>
    set (sats f vs) = {ys. length ys = length vs \<and> set ys \<subseteq> {0, 1} \<and> f (assign vs ys)} \<and> distinct (sats f vs) \<and>
    sylvan_sat_one (nodes st) a v (Some arr) =
      (case sats f vs of [] \<Rightarrow> Inr (0, Some arr) | ys # _ \<Rightarrow> Inr (1, Some ys))"
proof -
  have d: "distinct vs" using assms(5) by (auto simp: is_set_def strict_sorted_iff)
  note one = sat_one_correct [OF bdd_ok_table [OF assms(1)] assms(5,4,6), of arr]
  have "(@) [] = (\<lambda>ys :: u8 list. ys)" by (rule ext) simp
  then have "sylvan_enum fuel a v cb (c, st) = call_all cb (map of_nat vs) (sats f vs) (c, st)"
    using enum_do_calls [of "(c, st)" a v vs f cb "[]" fuel] assms by (simp add: sylvan_enum_def)
  moreover have "sylvan_sat_one (nodes st) a v (Some arr) =
      (case sats f vs of [] \<Rightarrow> Inr (0, Some arr) | ys # _ \<Rightarrow> Inr (1, Some ys))"
    using one sats_Nil_iff [OF assms(6)] assms(10) by (auto split: list.split)
  moreover have "set (sats f vs) = {ys. length ys = length vs \<and> set ys \<subseteq> {0, 1} \<and> f (assign vs ys)}"
    by (rule set_eqI) (simp add: sats_iff [OF d assms(6)])
  ultimately show ?thesis using distinct_sats by simp
qed

theorem enum_correct_witness:
  "sylvan_enum 2 2 2 (\<lambda>vars ys (c, s). Inr (c @ [(vars, ys)], s)) ([], example) = Inr ([([3], [1])], example) \<and>
   sylvan_sat_one (nodes example) 2 2 (Some [7]) = Inr (1, Some [1])"
proof -
  have s: "is_set (nodes example) [3] 2" using example_ok(3) by (simp add: is_set_def cube_fun_def)
  have d: "depends_on (\<lambda>\<sigma>. \<sigma> 3) (set [3])" by (simp add: depends_on_def)
  have k: "cb_keeps (\<lambda>vars ys (c, s). Inr (c @ [(vars, ys)], s))"
    unfolding cb_keeps_def using keep_refl [OF bdd_ok_state] by auto
  have "sats (\<lambda>\<sigma>. \<sigma> 3) [3] = [[1]]" by (simp add: cof_def)
  with enum_correct [OF example_ok(1,2,2,3) s d k, of 2 "[7]" "[]"] show ?thesis by simp
qed

text \<open>
  C9. Relational products, for the pairs of variables of a set or for all of them; \<open>S\<close> are the
  source variables of the pairs, each with its target variable next to it. The successors of a
  set of states \<open>f\<close> in the relation \<open>g\<close> are right when \<open>f\<close> has no target variables, which
  \<open>sylvan_bdd.h\<close> asks for. The product, in which the other variables of the first operand are
  quantified and those of the second kept, is right when no variable outside the pairs is in both:
  \<open>A\<close> are those of the first. The header does not ask for that, and where one is in both the
  answer is wrong: in the third part, with the pair of 2 and 3, the product is \<open>\<sigma> 0 \<and> \<sigma> 4\<close> and
  the answer is \<open>\<sigma> 0\<close>.
\<close>

theorem relations_correct:
  assumes "bdd_ok st" "safe st a" "safe st b" "safe st x" "bdd (nodes st) 0 a f" "bdd (nodes st) 0 b g"
    and "x = mtbdd_false \<and> S = {i. even i} \<or> (\<exists>vs. is_set (nodes st) vs x \<and> S = (\<lambda>i. i - i mod 2) ` set vs)" "2 ^ 24 < fuel"
  shows "(depends_on f (- Suc ` S) \<longrightarrow> results st (sylvan_relnext fuel a b x prev_level st)
      (\<lambda>\<sigma>. \<exists>\<rho>. f (\<lambda>i. if i \<in> S then \<rho> i else \<sigma> i) \<and> g (\<lambda>i. if odd i \<and> i - 1 \<in> S then \<sigma> (i - 1) else \<rho> i))) \<and>
    (depends_on f (S \<union> Suc ` S \<union> A) \<longrightarrow> depends_on g (S \<union> Suc ` S \<union> - A) \<longrightarrow>
      results st (sylvan_relprev fuel a b x prev_level st)
      (\<lambda>\<sigma>. \<exists>\<rho>. f (\<lambda>i. if i \<in> S then \<sigma> i else \<rho> i) \<and> g (\<lambda>i. if i \<in> S then \<rho> (i + 1) else \<sigma> i))) \<and>
    (\<exists>st a b x. bdd_ok st \<and> safe st a \<and> safe st b \<and> safe st x \<and> bdd (nodes st) 0 a (\<lambda>\<sigma>. \<sigma> 0) \<and>
      bdd (nodes st) 0 b (\<lambda>\<sigma>. \<sigma> 0 \<and> \<sigma> 4) \<and> is_set (nodes st) [2] x \<and>
      (\<exists>r t. sylvan_relprev fuel a b x 0 st = Inr (r, t) \<and> bdd (nodes t) 0 r (\<lambda>\<sigma>. \<sigma> 0)))"
proof -
  have "Suc (Suc (fuel - 2)) = fuel" using assms(8) by simp
  then have third: "\<exists>st a b x. bdd_ok st \<and> safe st a \<and> safe st b \<and> safe st x \<and> bdd (nodes st) 0 a (\<lambda>\<sigma>. \<sigma> 0) \<and>
      bdd (nodes st) 0 b (\<lambda>\<sigma>. \<sigma> 0 \<and> \<sigma> 4) \<and> is_set (nodes st) [2] x \<and>
      (\<exists>r t. sylvan_relprev fuel a b x 0 st = Inr (r, t) \<and> bdd (nodes t) 0 r (\<lambda>\<sigma>. \<sigma> 0))"
    using relprev_example [of "fuel - 2"] by simp
  have x: "rel_vars (nodes st) x S" using assms(7) rel_vars_true rel_vars_set by blast
  have fu: "(0::nat) \<le> 2 ^ 24" "2 ^ 24 < 0 + fuel" using assms(8) by auto
  show ?thesis
    unfolding results_gives rel_next_def [symmetric] rel_prev_def [symmetric]
    using sylvan_relnext_gives [OF assms(1-6) x _ indep_zero indep_zero fu]
      sylvan_relprev_gives [OF assms(1-6) x _ _ indep_zero indep_zero fu] third by blast
qed

theorem relations_correct_witness:
  "results example (sylvan_relnext (2 ^ 24 + 1) mtbdd_true 2 mtbdd_false 0 example) (\<lambda>\<sigma>. \<sigma> 2) \<and>
   results example (sylvan_relprev (2 ^ 24 + 1) 2 (mtbdd_not 2) mtbdd_false 0 example) (\<lambda>\<sigma>. \<not> \<sigma> 3)"
proof -
  have all: "depends_on h UNIV" for h using indep_depends [of 0 h] by simp
  have U: "{i :: nat. even i} \<union> Suc ` {i. even i} \<union> X = UNIV" for X
  proof (intro equalityI subsetI)
    fix i :: nat
    show "i \<in> {i. even i} \<union> Suc ` {i. even i} \<union> X" by (cases "even i"; cases i) auto
  qed simp
  have "\<exists>\<rho> :: nat \<Rightarrow> bool. \<rho> 3" by (rule exI [of _ "\<lambda>_. True"]) simp
  then show ?thesis
    using relations_correct [OF example_ok(1) safe_const(1) example_ok(2) safe_const(2) bdd_true example_ok(3), of "{i. even i}" "2 ^ 24 + 1" 0 UNIV]
      relations_correct [OF example_ok(1,2,4) safe_const(2) example_ok(3,5), of "{i. even i}" "2 ^ 24 + 1" 0 UNIV] all
    by (simp add: U U [of "{}", simplified])
qed

text \<open>
  C10. The transitive closure. A diagram is a relation between the states in the even and in the
  odd variables (\<open>states\<close>). If the relation is reflexive, the result is its closure. For other
  relations it is not (\<open>closure_not_reflexive\<close>), though the description does not ask for this.
\<close>

theorem closure_correct:
  assumes "bdd_ok st" "safe st a" "bdd (nodes st) 0 a f" "2 ^ 24 < fuel" "reflp (states f)"
  shows "gives keep st (sylvan_closure fuel a prev_level st) (\<lambda>h. states h = (states f)\<^sup>+\<^sup>+)"
proof -
  have "(0::nat) \<le> 2 ^ 24" "2 ^ 24 < 0 + fuel" using assms(4) by auto
  from sylvan_closure_gives [OF assms(1-3) indep_zero this] show ?thesis
    by (rule gives_mono) (rule closed_states [OF _ assms(5)])
qed

theorem closure_correct_witness:
  "\<exists>st a. gives keep st (sylvan_closure (2 ^ 24 + 1) a 0 st) (\<lambda>h. \<forall>x y. states h x y \<longleftrightarrow> (x 0 \<longrightarrow> y 0))"
proof -
  obtain st a where s: "bdd_ok st" "safe st a" "bdd (nodes st) 0 a (\<lambda>\<sigma>. \<sigma> 0 \<longrightarrow> \<sigma> 1)" using below_example by blast
  let ?R = "states (\<lambda>\<sigma>. \<sigma> 0 \<longrightarrow> \<sigma> 1)"
  have R: "?R x y \<longleftrightarrow> (x 0 \<longrightarrow> y 0)" for x y by (simp add: states_def)
  have r: "reflp ?R" "transp ?R" unfolding reflp_def transp_def R by blast+
  have "?R\<^sup>+\<^sup>+ x y \<Longrightarrow> ?R x y" for x y by (induction rule: tranclp_induct) (use r(2) in \<open>auto dest: transpD\<close>)
  then have t: "?R\<^sup>+\<^sup>+ x y \<longleftrightarrow> (x 0 \<longrightarrow> y 0)" for x y using R by blast
  have "gives keep st (sylvan_closure (2 ^ 24 + 1) a 0 st) (\<lambda>h. states h = ?R\<^sup>+\<^sup>+)"
    by (rule closure_correct [OF s _ r(1)]) simp
  then have "gives keep st (sylvan_closure (2 ^ 24 + 1) a 0 st) (\<lambda>h. \<forall>x y. states h x y \<longleftrightarrow> (x 0 \<longrightarrow> y 0))"
    by (rule gives_mono) (simp only: t, blast)
  then show ?thesis by blast
qed

section \<open>Nodes\<close>

text \<open>
  C11. The constructor of nodes: the diagram it returns decides on \<open>var\<close> between the
  functions of the two branches, which do not depend on variables up to \<open>var\<close>; when the
  table is full it collects, with the two branches protected, and tries again.
\<close>

theorem makenode_correct:
  assumes "bdd_ok st" "bdd (nodes st) 0 low fl" "bdd (nodes st) 0 high fh"
    and "indep (Suc (unat var)) fl" "indep (Suc (unat var)) fh" "unat var < 2 ^ 24"
  shows "results st (mtbdd_makenode var low high st) (\<lambda>\<sigma>. if \<sigma> (unat var) then fh \<sigma> else fl \<sigma>)"
  using mtbdd_makenode_results [OF assms] by (simp add: branch_def)

theorem makenode_correct_witness:
  "results example (mtbdd_makenode 2 2 (mtbdd_not 2) example) (\<lambda>\<sigma>. if \<sigma> 2 then \<not> \<sigma> 3 else \<sigma> 3)"
proof -
  have "indep (Suc (unat (2 :: u32))) (\<lambda>\<sigma>. \<sigma> 3)" "indep (Suc (unat (2 :: u32))) (\<lambda>\<sigma>. \<not> \<sigma> 3)"
    by (simp_all add: indep_def)
  from makenode_correct [OF example_ok(1,3,5) this] show ?thesis by simp
qed

text \<open>
  C12. Canonicity: in a well-formed table two diagrams are the same word if and only if
  they have the same function, whatever the levels at which they are read.
\<close>

theorem canonical:
  assumes "table_ok n" "bdd n v x f" "bdd n u y g"
  shows "x = y \<longleftrightarrow> f = g"
  by (rule bdd_eq_iff [OF assms])

theorem canonical_witness: "(2 = mtbdd_not 2) \<longleftrightarrow> ((\<lambda>\<sigma> :: nat \<Rightarrow> bool. \<sigma> 3) = (\<lambda>\<sigma>. \<not> \<sigma> 3))"
  by (rule canonical [OF bdd_ok_table [OF example_ok(1)] example_ok(3,5)])

text \<open>
  C13. The fields of a node are what it was made of, for a variable of 24 bits, an
  unmarked low edge and well-formed edges; and such a node is never the blank pair that
  the table forbids, unless its edges are equal.
\<close>

theorem node_roundtrip:
  assumes "dd_word low" "\<not> MTBDD_HASMARK low" "dd_word high" "unat var < 2 ^ 24"
  shows "\<not> mtbddnode_isleaf (mtbddnode_makenode var low high) \<and>
    mtbddnode_getvariable (mtbddnode_makenode var low high) = var \<and>
    mtbddnode_getlow (mtbddnode_makenode var low high) = low \<and>
    mtbddnode_gethigh (mtbddnode_makenode var low high) = high \<and>
    (low \<noteq> high \<longrightarrow> mtbddnode_makenode var low high \<noteq> (0, 0))"
  using makenode_fields [OF assms] makenode_not_blank [OF assms] by blast

theorem node_roundtrip_witness: "mtbddnode_getlow (mtbddnode_makenode 7 5 mtbdd_true) = 5"
proof -
  have "dd_word 5" "\<not> MTBDD_HASMARK 5" by (simp_all add: dd_word_def MTBDD_HASMARK_def mtbdd_complement_def)
  then show ?thesis using node_roundtrip [of 5 mtbdd_true 7] by (simp add: dd_simps)
qed

section \<open>Garbage collection\<close>

text \<open>
  C14. A collection returns (it never fails to rehash a node), keeps the state well-formed,
  empties the cache and leaves in the table exactly the nodes that are reachable from the
  roots: the two stacks of references, the protected variables and the reference counts.
\<close>

theorem gc_keeps_reachable:
  assumes "state_ok st"
  shows "\<exists>st'. sylvan_gc_go st = Inr st' \<and> state_ok st' \<and> same_but_tables st st' \<and>
    cache_fresh (ocache st') \<and> max_size (nodes st') = max_size (nodes st) \<and>
    (\<forall>d. live (nodes st') d \<longleftrightarrow> reach (nodes st) (roots st) d) \<and>
    (\<forall>d. dptr (nodes st') d = dptr (nodes st) d)"
  by (rule sylvan_gc_go_spec [OF assms])

theorem gc_keeps_reachable_witness: "\<exists>st'. sylvan_gc_go example = Inr st' \<and> state_ok st'"
  using gc_keeps_reachable [OF bdd_ok_state [OF example_ok(1)]] by blast

text \<open>
  Marking from a root in a closed set of buckets marks every bucket it meets once and
  stays in the set: it ends within as much fuel as there are unmarked buckets, and the
  newly marked buckets are reachable and have marked children.
\<close>

theorem mark_rec_correct:
  assumes "closed_set n ls" "root_in ls x" "card (unmarked n) < fuel"
  shows "\<exists>n'. mtbdd_gc_mark_rec fuel n x = Inr n' \<and> marks ls n {x} n'"
  by (rule mark_rec_spec [OF assms])

theorem mark_rec_correct_witness:
  "\<exists>n'. mtbdd_gc_mark_rec (Suc (card (unmarked (nodes example)))) (nodes example) 2 = Inr n' \<and>
     marks (live_set (nodes example)) (nodes example) {2} n'"
proof (rule mark_rec_correct)
  show "closed_set (nodes example) (live_set (nodes example))"
    using bdd_ok_state [OF example_ok(1)] by (simp add: state_ok_def)
  show "root_in (live_set (nodes example)) 2" using bdd_valid [OF example_ok(3)] by (simp add: valid_def)
qed simp

section \<open>The unique table\<close>

text \<open>
  C15. A lookup of a pair other than the blank one returns, unless every slot is taken in a
  table of more than \<open>2^17\<close> buckets: then it answers the bucket that holds the pair, or a
  fresh bucket in which it has put the pair, or 0 and changes nothing but the region.
\<close>

theorem lookup_outcome_correct:
  assumes "table_ok dbs" "(a, b) \<noteq> (0, 0)"
  shows "(\<exists>r c dbs'. llmsset_lookup dbs a b = Inr (r, c, dbs') \<and> table_ok dbs' \<and> lookup_outcome dbs a b r c dbs') \<or>
    llmsset_lookup dbs a b = Inl OutOfFuel \<and> full dbs \<and> 2 ^ 17 < max_size dbs"
  using llmsset_lookup_outcome [OF assms] by blast

theorem lookup_outcome_correct_witness:
  "\<exists>r c dbs'. llmsset_lookup (nodes example) 1 2 = Inr (r, c, dbs') \<and> table_ok dbs'"
  using lookup_outcome_correct [OF bdd_ok_table [OF example_ok(1)], of 1 2] example_max by auto

text \<open>
  C16. Sharing: two lookups that succeed, one after the other, answer the same index
  exactly when they look for the same pair; and the first answer is repeated without
  creating anything.
\<close>

theorem lookup_shares:
  assumes "table_ok s" "(a, b) \<noteq> (0, 0)" "(a', b') \<noteq> (0, 0)"
    and "llmsset_lookup s a b = Inr (r, c, t)" "r \<noteq> 0" "llmsset_lookup t a' b' = Inr (r', c', u)" "r' \<noteq> 0"
  shows "(r = r' \<longleftrightarrow> (a, b) = (a', b')) \<and> llmsset_lookup t a b = Inr (r, False, t)"
  using ut.look_inj [OF assms] ut.look_again [OF assms(1,2,4,5)] by blast

theorem lookup_shares_witness:
  "\<exists>t. llmsset_lookup (nodes example_start) 1 2 = Inr (2, True, t) \<and> llmsset_lookup t 1 2 = Inr (2, False, t)"
proof -
  have ok: "table_ok (nodes example_start)" by (rule bdd_ok_table [OF example_start_ok(1)])
  obtain t where t: "llmsset_lookup (nodes example_start) 1 2 = Inr (2, True, t)" using example_lookup [of 1 2] by auto
  have again: "llmsset_lookup t 1 2 = Inr (2, False, t)" using ut.look_again [OF ok _ t] by simp
  from lookup_shares [OF ok _ _ t _ again] t show ?thesis by simp
qed



text \<open>
  C18. A rehash of a table whose marked buckets hold distinct pairs succeeds for all of
  them, changes only the hash array and the threshold, and makes the table well-formed.
\<close>

theorem rehash_total:
  assumes "rehashable dbs"
  shows "\<exists>dbs'. llmsset_rehash (llmsset_clear_hashes dbs) = Inr (0, dbs') \<and> same_but_hashes dbs dbs' \<and> table_ok dbs'"
  by (rule llmsset_rehash_spec [OF assms])

theorem rehash_total_witness: "\<exists>dbs'. llmsset_rehash (llmsset_clear_hashes (nodes example)) = Inr (0, dbs') \<and> table_ok dbs'"
  using rehash_total [OF table_ok_rehashable [OF bdd_ok_table [OF example_ok(1)]]] by blast

text \<open>
  A table that \<open>llmsset_create\<close> made is well-formed and holds no node, and the sizes it
  accepts are powers of two of at least 512.
\<close>

theorem create_ok:
  assumes "llmsset_create env i m = Inr dbs" "m \<le> 2 ^ 40" "my_region env = -1" "0 < lace_n_workers_id env"
  shows "table_ok dbs \<and> size_ok i \<and> size_ok m \<and> i \<le> m \<and> table_size dbs = i \<and> max_size dbs = m \<and> (\<forall>d. \<not> live dbs d)"
  using llmsset_create_spec [OF assms] by blast

theorem create_ok_witness: "\<exists>dbs. llmsset_create example_env 512 512 = Inr dbs \<and> table_ok dbs"
  using create_ok [of example_env 512 512 example_nodes] example_create by (simp add: example_env_def)

text \<open>
  C27. A table in which the worker's region has free buckets, and with fewer used slots than a
  probe sequence visits, never reports that it is full: a lookup returns an index, and leaves
  room for one lookup less.
\<close>

theorem lookup_with_room:
  assumes "table_ok dbs" "(a, b) \<noteq> (0, 0)" "room dbs (Suc k)"
  shows "\<exists>index created dbs'. llmsset_lookup dbs a b = Inr (index, created, dbs') \<and> index \<noteq> 0 \<and> room dbs' k"
  by (rule room_lookup [OF assms])

theorem lookup_with_room_witness:
  "\<exists>index created dbs'. llmsset_lookup (nodes example_region) 5 7 = Inr (index, created, dbs') \<and> index \<noteq> 0 \<and> room dbs' 399"
  by (rule lookup_with_room [OF bdd_ok_table [OF example_region_ok]]) (use example_room in simp_all)

text \<open>The number of marked buckets is the number of nodes, and the two forbidden ones.\<close>

theorem count_marked_correct:
  assumes "shape_ok dbs"
  shows "llmsset_count_marked dbs = card {d. live dbs d} + 2"
  by (rule llmsset_count_marked_spec [OF assms])

theorem count_marked_correct_witness: "llmsset_count_marked (nodes example_start) = 2"
  using count_marked_correct [OF table_ok_shape [OF bdd_ok_table [OF example_start_ok(1)]]] example_start_ok(3)
  by simp

section \<open>The operation cache\<close>

text \<open>
  C19. After any sequence of puts into a fresh cache, an answer for a key is the value of
  the last put under that key: an entry may be lost, but never answers for another key.
\<close>

theorem cache_answers:
  assumes "cache_fresh cs" "a \<noteq> 0"
    and "cache_get (fold (\<lambda>((a, b, c), v) cs. snd (cache_put cs a b c v)) kvs cs) a b c = Some r"
  shows "map_of (rev kvs) (a, b, c) = Some r"
proof -
  have "(\<lambda>((a, b, c), v) cs. snd (cache_put cs a b c v)) = (\<lambda>(k, v) s. store3 s k v)"
    by (auto simp: store3_def fun_eq_iff)
  then show ?thesis
    using oc.find_after_stores [OF assms(1), of "(a, b, c)" kvs r] assms(2,3) by (simp add: good_key_def find3_def)
qed

theorem cache_answers_witness: "map_of (rev [((1 :: u64, 2 :: u64, 3 :: u64), 7 :: u64)]) (1, 2, 3) = Some 7"
proof (rule cache_answers)
  show f: "cache_fresh example_cache" by (simp add: cache_fresh_def example_cache_def)
  show "cache_get (fold (\<lambda>((a, b, c), v) cs. snd (cache_put cs a b c v)) [((1, 2, 3), 7)] example_cache) 1 2 3 = Some 7"
    using oc.find_store_same [OF oc.fresh_inv [OF f], of "(1, 2, 3)" 7] by (simp add: find3_def store3_def)
qed simp

text \<open>
  The two packed words of a four-argument key determine the three diagrams that they
  hold.
\<close>

theorem pack_injective:
  assumes "dd_word d2" "dd_word d3" "dd_word d4" "dd_word d2'" "dd_word d3'" "dd_word d4'"
    and "pack_p2 d2 d4 = pack_p2 d2' d4'" "pack_p3 d3 d4 = pack_p3 d3' d4'"
  shows "d2 = d2' \<and> d3 = d3' \<and> d4 = d4'"
  by (rule key4_inj [OF assms])

theorem pack_injective_witness: "(5 :: u64) = 5 \<and> mtbdd_true = mtbdd_true \<and> mtbdd_false = mtbdd_false"
proof -
  have "dd_word 5" by (simp add: dd_word_def)
  then show ?thesis using pack_injective [of 5 mtbdd_true mtbdd_false 5 mtbdd_true mtbdd_false] by (simp add: dd_simps)
qed

section \<open>References\<close>

text \<open>
  An iteration over the table of reference counts, as the collector runs it, returns
  the key of every bucket in use, in order, and as many keys as \<open>refs_count\<close> counts.
\<close>

theorem refs_iteration:
  "refs_list tbl = map (refs_key \<circ> refs_arr tbl) (filter (used_bucket (refs_arr tbl)) [0..<refs_size tbl]) \<and>
   refs_count tbl = length (refs_list tbl)"
  using refs_list_eq refs_count_eq by blast

section \<open>Initialisation\<close>

text \<open>
  The state after \<open>sylvan_init_package\<close> and \<open>sylvan_init_mtbdd\<close> is well-formed, holds
  no node and has no roots.
\<close>

theorem init_ok:
  assumes "sylvan_init_package env sz = Inr (n, c)" "sylvan_init_mtbdd n c mem = Inr st"
    and "table_max sz \<le> 2 ^ 40" "cache_max_size sz < 2 ^ 64" "my_region env = -1" "0 < lace_n_workers_id env"
  shows "bdd_ok st \<and> roots st = {} \<and> (\<forall>d. \<not> live (nodes st) d)"
  using sylvan_init_ok [OF assms] by blast

theorem init_ok_witness: "bdd_ok example_start \<and> roots example_start = {}"
  using init_ok [OF example_package example_mtbdd] by (simp add: example_sizes_def example_env_def)

section \<open>Tags that are diagrams\<close>

text \<open>
  C35. The diagram tags of the build without collection meet the contract of a tag type: in
  a sound state a union is a valid tag for the union of the taints, keeps the meaning of all
  other tags, and fails only for lack of room; a fresh tag stands for its offset, of which
  only the low 24 bits count.
\<close>

theorem ssa_tags_contract: "tag_source ssa_ops ssa_sem (\<lambda>offset. {unat offset mod 2 ^ 24})"
  using ssa.tag_source_axioms by (simp add: TAG_WIDTH_def)

text \<open>
  C21. The segment tree tags meet the contract of a tag type: a union is a valid tag for the
  union of the taints, all other tags keep their meaning, and the only failure is the
  division by zero when the table of nodes is full. The loops end. A fresh tag stands for its
  offset, except that offsets from \<open>2 ^ 24 - 1\<close> on leave no taint.
\<close>

theorem bdd_tags_contract:
  "tag_source bdd_tag_ops bdd_sem (\<lambda>offset. if unat offset < 2 ^ 24 - 1 then {unat offset} else {})"
  using bdd.tag_source_axioms by (simp add: MAX_LB_def)

text \<open>
  C22. Listing a valid label of the segment tree returns, in ascending order, segments whose
  offsets are those of the set that the label stands for.
\<close>

theorem bdd_find_lists:
  assumes "tree_ok ns" "tag_ok ns t"
  shows "\<exists>ts. bdd_find t ns = Inr ts \<and> (\<Union>s \<in> set ts. {seg_begin s ..< seg_end s}) = taint bdd_sem ns t \<and>
    sorted_wrt (\<lambda>s t. seg_begin s < seg_begin t) ts"
  using bdd_find_ok [OF assms] by (simp add: bdd_sem_def)

theorem bdd_find_lists_witness:
  "\<exists>ts. bdd_find 2 example_tree = Inr ts \<and> (\<Union>s \<in> set ts. {seg_begin s ..< seg_end s}) = {2}"
  using bdd_find_lists [OF example_tree_ok(1,2)] example_tree_ok(3) by (auto simp: bdd_sem_def)

text \<open>
  C20. Printing a valid tag returns: the offsets that it lists are those of its taint, each
  once and in ascending order.
\<close>

theorem ssa_prints_taint:
  assumes "sound ssa_sem g" "valid_tag ssa_sem g t" "length res = TAG_WIDTH"
  shows "\<exists>os. ssa_tag_print t res g = Inr os \<and> sorted os \<and> distinct os \<and> unat ` set os = taint ssa_sem g t"
proof -
  obtain f where "tag_fun g t f" using assms(2) by (auto simp: ssa_valid)
  then show ?thesis using ssa_print_correct [of g t f res] assms(1,3) by (simp add: ssa_sem_def)
qed

theorem ssa_prints_taint_witness: "ssa_tag_print 0 (replicate TAG_WIDTH 0) example_ssa = Inr []"
proof -
  have "\<exists>os. ssa_tag_print 0 (replicate TAG_WIDTH 0) example_ssa = Inr os \<and> sorted os \<and> distinct os \<and>
      unat ` set os = taint ssa_sem example_ssa 0"
    by (rule ssa_prints_taint) (use example_ssa_sound tag_fun_cleared in \<open>auto simp: ssa_sem_def\<close>)
  moreover have "taint ssa_sem example_ssa 0 = {}" using ssa.cleared by (simp add: ssa_ops_def)
  ultimately show ?thesis by auto
qed

text \<open>
  \<open>ssa_init\<close> accepts the sizes that it computes from the memory limit, and ends in a sound
  state, also after threads have started, or reports that the table has no room.
\<close>

theorem ssa_init_ok:
  assumes "my_region env = -1" "0 < lace_n_workers_id env" "\<And>tid. cb_cache_l (blk tid) = 0"
  shows "case ssa_init env mem blk of Inl e \<Rightarrow> e \<in> failures ssa_sem
    | Inr g \<Rightarrow> sound ssa_sem g \<and> sound ssa_sem (ssa_thread_start tid g)"
  using ssa_init_sound [of env blk mem] assms ssa_thread_start_sound by (auto simp: ssa_sem_def split: sum.splits)

theorem ssa_init_ok_witness:
  "case ssa_init example_env (\<lambda>_. 0) (\<lambda>_. \<lparr>cb_cache_l = 0, cb_cache_r = 0, cb_cache_v = 0\<rparr>) of
     Inl e \<Rightarrow> e \<in> failures ssa_sem | Inr g \<Rightarrow> sound ssa_sem g \<and> sound ssa_sem (ssa_thread_start 1 g)"
  by (rule ssa_init_ok) (simp_all add: example_env_def)

text \<open>
  C28. The directory of pages is a map from addresses to tags: after any sequence of stores
  that save memory, the tag of a byte of the user space is the last one stored there, or what
  it was before; other addresses have none, and stores to them are ignored. This needs that
  only the cleared tag counts as empty.
\<close>

theorem tag_dir_is_map:
  assumes "\<And>t. tag_is_empty T t \<Longrightarrow> t = cleared_val T"
  shows "tag_dir_getb_as_ptr T (fold (\<lambda>(a, t) dir. tag_dir_setb_save_mem T dir a t) ws dir) b =
    (if outside b then None else case map_of (rev ws) b of Some t \<Rightarrow> Some t | None \<Rightarrow> tag_dir_getb_as_ptr T dir b)"
proof (induction ws rule: rev_induct)
  case (snoc w ws)
  obtain a t where w: "w = (a, t)" by fastforce
  show ?case
  proof (cases "outside a")
    case True
    then show ?thesis using snoc by (auto simp: w)
  next
    case False
    from mem_tag_setb_save_mem [OF this assms] show ?thesis using snoc False by (auto simp: w getb_mem)
  qed
qed (simp add: getb_mem)

theorem tag_dir_is_map_witness:
  "tag_dir_getb_as_ptr uint8_ops (fold (\<lambda>(a, t) dir. tag_dir_setb_save_mem uint8_ops dir a t)
     [(0x7fff00000000, 1), (5, 1), (5, 0)] \<lparr>table = \<lambda>_. None\<rparr>) 0x7fff00000000 = Some 1"
  by (subst tag_dir_is_map) (auto simp: uint8_ops_def outside_def)

text \<open>
  The three indices of a byte lie inside the arrays they index, for every address of
  the user space, and two addresses never share a slot.
\<close>

theorem slots_ok:
  assumes "\<not> outside a"
  shows "VIRT2PAGETABLE a < 0x800000 \<and> VIRT2PAGE a < 0x1000 \<and> VIRT2OFFSET a < 0x1000 \<and>
    ((VIRT2PAGETABLE a, VIRT2PAGE a, VIRT2OFFSET a) = (VIRT2PAGETABLE b, VIRT2PAGE b, VIRT2OFFSET b) \<longleftrightarrow> a = b)"
  using slot_bounds [of a] slots_inj [of a b] assms by auto

theorem slots_ok_witness: "VIRT2PAGETABLE 0x7fffffffffff < 0x800000"
  using slots_ok [of "0x7fffffffffff"] by (simp add: outside_def)

section \<open>Instructions\<close>

text \<open>
  C29. A move between registers of the same width, for every opcode that moves: the taint
  of each byte of the destination becomes that of the byte of the source in the same place,
  and nothing else changes.
\<close>

theorem move_registers:
  assumes "tag_type T S" "INS_Opcode ins \<in> set (mov_ops @ vector_moves)" "INS_MemoryOperandCount ins = 0"
    and "\<not> INS_OperandIsImmediate ins 1" "\<not> REG_is_seg pin src"
    and "dst = INS_OperandReg ins 0" "src = INS_OperandReg ins 1" "byte_classes pin dst" "byte_classes pin src"
    and "length (reg_bytes pin (THREAD_ID rt) dst) = length (reg_bytes pin (THREAD_ID rt) src)"
  shows "flows T S (run_calls (ins_inspect pin T ins) rt)
    (moves (assign_all (reg_bytes pin (THREAD_ID rt) dst) (reg_bytes pin (THREAD_ID rt) src)))"
proof -
  have "ins_inspect pin T ins = ins_xfer_op pin T ins"
    using assms(2,4,5,7) inspect_groups(5,6) [of ins pin T] mov_copies [of ins pin T] by auto
  then show ?thesis using tag_type.xfer_r2r_flows [OF assms(1)] assms by simp
qed

theorem move_registers_witness:
  "flows set_ops set_sem (run_calls (ins_inspect example_pin set_ops (example_ins ''MOV'' (GP RAX Q) (GP RBX Q) False False)) example_rt) (moves (assign_all (map (Reg 1 10) [0..<8]) (map (Reg 1 7) [0..<8])))"
proof -
  have "flows set_ops set_sem (run_calls (ins_inspect example_pin set_ops (example_ins ''MOV'' (GP RAX Q) (GP RBX Q) False False)) example_rt)
    (moves (assign_all (reg_bytes example_pin (THREAD_ID example_rt) (GP RAX Q)) (reg_bytes example_pin (THREAD_ID example_rt) (GP RBX Q))))"
    by (rule move_registers [OF sets.tag_type_axioms]) (simp_all add: mov_ops_def)
  then show ?thesis by simp
qed

text \<open>
  C30. A load gives each byte of the register the taint of a byte of memory, and a store
  the reverse, when the accessed bytes lie in the user space.
\<close>

theorem move_memory:
  assumes "tag_type T S" "INS_Opcode ins \<in> set (mov_ops @ vector_moves)" "INS_MemoryOperandCount ins = 1"
    and "\<not> INS_OperandIsImmediate ins 1" "\<not> REG_is_seg pin (INS_OperandReg ins 1)"
    and "r = INS_OperandReg ins (if INS_OperandIsMemory ins 1 then 0 else 1)" "bs = reg_bytes pin (THREAD_ID rt) r"
    and "a = (if INS_OperandIsMemory ins 1 then MEMORYREAD_EA rt else MEMORYWRITE_EA rt)" "user a (length bs)"
  shows "flows T S (run_calls (ins_inspect pin T ins) rt)
    (moves (if INS_OperandIsMemory ins 1 then assign_all bs (mem_bytes a (length bs)) else assign_all (mem_bytes a (length bs)) bs))"
proof -
  have "ins_inspect pin T ins = ins_xfer_op pin T ins"
    using assms(2,4,5) inspect_groups(5,6) [of ins pin T] mov_copies [of ins pin T] by auto
  then show ?thesis
    using tag_type.xfer_m2r_flows [OF assms(1)] tag_type.xfer_r2m_flows [OF assms(1)] assms(3,6-9)
    by (cases "INS_OperandIsMemory ins 1") simp_all
qed

theorem move_memory_witness:
  "flows set_ops set_sem (run_calls (ins_inspect example_pin set_ops (example_ins ''MOV'' (GP RAX D) (GP RAX D) False True)) example_rt)
     (moves (assign_all (map (Reg 1 10) [0..<4]) (mem_bytes 0x1000 4)))"
proof -
  let ?i = "example_ins ''MOV'' (GP RAX D) (GP RAX D) False True"
  have "flows set_ops set_sem (run_calls (ins_inspect example_pin set_ops ?i) example_rt)
    (moves (if INS_OperandIsMemory ?i 1 then assign_all (map (Reg 1 10) [0..<4]) (mem_bytes 0x1000 (length (map (Reg 1 10) [0..<4])))
      else assign_all (mem_bytes 0x1000 (length (map (Reg 1 10) [0..<4]))) (map (Reg 1 10) [0..<4])))"
    by (rule move_memory [OF sets.tag_type_axioms, where r = "GP RAX D"]) (simp_all add: mov_ops_def user_low)
  then show ?thesis by simp
qed

text \<open>
  C31. A binary operation between registers of the same width adds the taint of the source
  to that of the destination, byte by byte; for the operations that cancel, when the
  registers differ.
\<close>

theorem binary_registers:
  assumes "tag_type T S" "INS_Opcode ins \<in> set binary_ops \<or> INS_Opcode ins \<in> set cancel_ops \<and> dst \<noteq> src"
    and "INS_MemoryOperandCount ins = 0" "\<not> INS_OperandIsImmediate ins 1"
    and "dst = INS_OperandReg ins 0" "src = INS_OperandReg ins 1" "byte_classes pin dst" "byte_classes pin src"
    and "length (reg_bytes pin (THREAD_ID rt) dst) = length (reg_bytes pin (THREAD_ID rt) src)"
  shows "flows T S (run_calls (ins_inspect pin T ins) rt)
    (moves (merge_all (reg_bytes pin (THREAD_ID rt) dst) (reg_bytes pin (THREAD_ID rt) src)))"
proof -
  have "ins_inspect pin T ins = ins_binary_op pin T ins"
    using assms(2,5,6) inspect_groups(1,2) [of ins pin T] by (auto simp: reg_eq_def)
  then show ?thesis using tag_type.binary_r2r_flows [OF assms(1)] assms by simp
qed

theorem binary_registers_witness:
  "flows set_ops set_sem (run_calls (ins_inspect example_pin set_ops (example_ins ''XOR'' (GP RAX L) (GP RBX H) False False)) example_rt) (moves ([(Reg 1 10 0, {Reg 1 10 0, Reg 1 7 1})]))"
proof -
  have "flows set_ops set_sem (run_calls (ins_inspect example_pin set_ops (example_ins ''XOR'' (GP RAX L) (GP RBX H) False False)) example_rt)
    (moves (merge_all (reg_bytes example_pin (THREAD_ID example_rt) (GP RAX L)) (reg_bytes example_pin (THREAD_ID example_rt) (GP RBX H))))"
    by (rule binary_registers [OF sets.tag_type_axioms]) (simp_all add: cancel_ops_def)
  then show ?thesis by simp
qed

text \<open>
  A binary operation with memory merges byte by byte in the direction of the operands.
\<close>

theorem binary_memory:
  assumes "tag_type T S" "INS_Opcode ins \<in> set (binary_ops @ cancel_ops)" "INS_MemoryOperandCount ins = 1"
    and "\<not> INS_OperandIsImmediate ins 1"
    and "r = INS_OperandReg ins (if INS_OperandIsMemory ins 1 then 0 else 1)" "bs = reg_bytes pin (THREAD_ID rt) r"
    and "a = (if INS_OperandIsMemory ins 1 then MEMORYREAD_EA rt else MEMORYWRITE_EA rt)" "user a (length bs)"
  shows "flows T S (run_calls (ins_inspect pin T ins) rt)
    (moves (if INS_OperandIsMemory ins 1 then merge_all bs (mem_bytes a (length bs)) else merge_all (mem_bytes a (length bs)) bs))"
proof -
  have "ins_inspect pin T ins = ins_binary_op pin T ins"
    using assms(2,3) inspect_groups(1,2) [of ins pin T] by (auto simp: reg_eq_def)
  then show ?thesis
    using tag_type.binary_m2r_flows [OF assms(1)] tag_type.binary_r2m_flows [OF assms(1)] assms(3-8)
    by (cases "INS_OperandIsMemory ins 1") simp_all
qed

theorem binary_memory_witness:
  "flows set_ops set_sem (run_calls (ins_inspect example_pin set_ops (example_ins ''ADD'' (GP RAX W) (GP RBX W) True False)) example_rt)
     (moves (merge_all (mem_bytes 0x2000 2) (map (Reg 1 7) [0..<2])))"
proof -
  let ?i = "example_ins ''ADD'' (GP RAX W) (GP RBX W) True False"
  have "flows set_ops set_sem (run_calls (ins_inspect example_pin set_ops ?i) example_rt)
    (moves (if INS_OperandIsMemory ?i 1 then merge_all (map (Reg 1 7) [0..<2]) (mem_bytes 0x2000 (length (map (Reg 1 7) [0..<2])))
      else merge_all (mem_bytes 0x2000 (length (map (Reg 1 7) [0..<2]))) (map (Reg 1 7) [0..<2])))"
    by (rule binary_memory [OF sets.tag_type_axioms, where r = "GP RBX W"]) (simp_all add: binary_ops_def user_low)
  then show ?thesis by simp
qed

text \<open>
  The operations that cancel (exclusive or and subtraction, also of vector registers)
  clear the taint of a register that is combined with itself.
\<close>

theorem cancel_clears:
  assumes "tag_type T S" "INS_Opcode ins \<in> set cancel_ops" "reg_eq ins" "\<not> INS_OperandIsMemory ins 0"
    and "r = INS_OperandReg ins 0" "byte_classes pin r" "\<not> REG_is_ymm pin r"
  shows "flows T S (run_calls (ins_inspect pin T ins) rt) (moves (clear_all (reg_bytes pin (THREAD_ID rt) r)))"
proof -
  have i: "ins_inspect pin T ins = ins_clear_op pin T ins" using inspect_groups(2) [OF assms(2)] assms(3) by simp
  show ?thesis
    unfolding i assms(5) by (rule tag_type.clear_reg_op_flows [OF assms(1,4)]) (use assms in simp_all)
qed

theorem cancel_clears_witness:
  "flows set_ops set_sem (run_calls (ins_inspect example_pin set_ops (example_ins ''XOR'' (GP RAX D) (GP RAX D) False False)) example_rt)
     (moves (clear_all (map (Reg 1 10) [0..<4])))"
proof -
  have "flows set_ops set_sem (run_calls (ins_inspect example_pin set_ops (example_ins ''XOR'' (GP RAX D) (GP RAX D) False False)) example_rt)
    (moves (clear_all (reg_bytes example_pin (THREAD_ID example_rt) (GP RAX D))))"
    by (rule cancel_clears [OF sets.tag_type_axioms]) (simp_all add: cancel_ops_def reg_eq_def)
  then show ?thesis by simp
qed

text \<open>
  An exchange of two registers swaps their taint and touches nothing else but scratch
  registers, also when both are parts of the same register.
\<close>

theorem exchange_swaps:
  assumes "tag_type T S" "INS_Opcode ins = ''XCHG''" "INS_MemoryOperandCount ins = 0"
    and "dst = INS_OperandReg ins 0" "src = INS_OperandReg ins 1" "byte_classes pin dst" "byte_classes pin src"
    and "length (reg_bytes pin (THREAD_ID rt) dst) = length (reg_bytes pin (THREAD_ID rt) src)"
    and "\<not> REG_is_xmm pin dst" "\<not> REG_is_ymm pin dst" "\<not> REG_is_mm pin dst" "wide pin dst \<or> REG_is_gr8 pin dst"
  shows "\<exists>F. flows T S (run_calls (ins_inspect pin T ins) rt) F \<and> (\<forall>l. \<not> scratch l \<longrightarrow> F l =
    moves (assign_all (reg_bytes pin (THREAD_ID rt) dst) (reg_bytes pin (THREAD_ID rt) src) @
      assign_all (reg_bytes pin (THREAD_ID rt) src) (reg_bytes pin (THREAD_ID rt) dst)) l)"
proof -
  from tag_type.xchg_r2r_flows [OF assms(1,3), of pin rt] assms(4-12)
  obtain F where "flows T S (run_calls (ins_xchg_op pin T ins) rt) F" "\<forall>l. \<not> scratch l \<longrightarrow> F l =
      moves (assign_all (reg_bytes pin (THREAD_ID rt) dst) (reg_bytes pin (THREAD_ID rt) src) @
        assign_all (reg_bytes pin (THREAD_ID rt) src) (reg_bytes pin (THREAD_ID rt) dst)) l" by auto
  then show ?thesis unfolding inspect_single(1) [OF assms(2)] by blast
qed

theorem exchange_swaps_witness:
  "\<exists>F. flows set_ops set_sem (run_calls (ins_inspect example_pin set_ops (example_ins ''XCHG'' (GP RAX L) (GP RAX H) False False)) example_rt) F \<and>
     F (Reg 1 10 0) = {Reg 1 10 1} \<and> F (Reg 1 10 1) = {Reg 1 10 0}"
proof -
  have "\<exists>F. flows set_ops set_sem (run_calls (ins_inspect example_pin set_ops (example_ins ''XCHG'' (GP RAX L) (GP RAX H) False False)) example_rt) F \<and>
    (\<forall>l. \<not> scratch l \<longrightarrow> F l = moves (assign_all (reg_bytes example_pin (THREAD_ID example_rt) (GP RAX L)) (reg_bytes example_pin (THREAD_ID example_rt) (GP RAX H)) @
      assign_all (reg_bytes example_pin (THREAD_ID example_rt) (GP RAX H)) (reg_bytes example_pin (THREAD_ID example_rt) (GP RAX L))) l)"
    by (rule exchange_swaps [OF sets.tag_type_axioms]) simp_all
  then obtain F where F: "flows set_ops set_sem (run_calls (ins_inspect example_pin set_ops (example_ins ''XCHG'' (GP RAX L) (GP RAX H) False False)) example_rt) F"
    "\<And>l. \<not> scratch l \<longrightarrow> F l = moves [(Reg 1 10 0, {Reg 1 10 1}), (Reg 1 10 1, {Reg 1 10 0})] l" by auto
  have "F (Reg 1 10 0) = {Reg 1 10 1}" "F (Reg 1 10 1) = {Reg 1 10 0}"
    using F(2) [of "Reg 1 10 0"] F(2) [of "Reg 1 10 1"] by (simp_all add: moves_def scratch_def)
  with F(1) show ?thesis by blast
qed

text \<open>
  Compare and exchange of registers: if the compared values are equal the destination
  gets the taint of the source, otherwise the accumulator gets that of the destination;
  nothing else but scratch registers changes.
\<close>

theorem compare_exchange:
  assumes "tag_type T S" "INS_Opcode ins \<in> {''CMPXCHG'', ''CMPXCHG_LOCK''}" "INS_MemoryOperandCount ins = 0"
    and "dst = INS_OperandReg ins 0" "src = INS_OperandReg ins 1"
    and "REG_is_gr64 pin dst \<or> REG_is_gr32 pin dst \<or> REG_is_gr16 pin dst"
    and "length (reg_bytes pin (THREAD_ID rt) dst) = length (reg_bytes pin (THREAD_ID rt) src)"
  shows "\<exists>F. flows T S (run_calls (ins_inspect pin T ins) rt) F \<and> (\<forall>l. \<not> scratch l \<longrightarrow> F l =
    moves (if cmpxchg_equal pin rt dst then assign_all (reg_bytes pin (THREAD_ID rt) dst) (reg_bytes pin (THREAD_ID rt) src)
      else assign_all (map (Reg (THREAD_ID rt) DFT_REG_RAX) [0..<length (reg_bytes pin (THREAD_ID rt) dst)])
        (reg_bytes pin (THREAD_ID rt) dst)) l)"
proof -
  have i: "ins_inspect pin T ins = ins_cmpxchg_op pin T ins" using assms(2) inspect_single(5,6) by auto
  from tag_type.cmpxchg_r2r_op_flows [OF assms(1,3,6,7,4,5) refl]
  show ?thesis unfolding i .
qed

theorem compare_exchange_witness:
  "\<exists>F. flows set_ops set_sem (run_calls (ins_inspect example_pin set_ops (example_ins ''CMPXCHG'' (GP RDX D) (GP RCX D) False False)) example_rt) F"
proof -
  have "\<exists>F. flows set_ops set_sem (run_calls (ins_inspect example_pin set_ops (example_ins ''CMPXCHG'' (GP RDX D) (GP RCX D) False False)) example_rt) F \<and>
    (\<forall>l. \<not> scratch l \<longrightarrow> F l =
    moves (if cmpxchg_equal example_pin example_rt (GP RDX D) then assign_all (reg_bytes example_pin (THREAD_ID example_rt) (GP RDX D)) (reg_bytes example_pin (THREAD_ID example_rt) (GP RCX D))
      else assign_all (map (Reg (THREAD_ID example_rt) DFT_REG_RAX) [0..<length (reg_bytes example_pin (THREAD_ID example_rt) (GP RDX D))])
        (reg_bytes example_pin (THREAD_ID example_rt) (GP RDX D))) l)"
    by (rule compare_exchange [OF sets.tag_type_axioms]) simp_all
  then show ?thesis by blast
qed

text \<open>
  A multiplication or division by a register adds the taint of the operand to the two
  registers of the result, or to the two low bytes of the accumulator for a byte operand.
\<close>

theorem multiply_registers:
  assumes "tag_type T S" "INS_Opcode ins \<in> set unitary_ops" "\<not> INS_OperandIsMemory ins 0" "r = INS_OperandReg ins 0"
    and "\<not> REG_is_xmm pin r" "\<not> REG_is_ymm pin r" "\<not> REG_is_mm pin r"
  shows "flows T S (run_calls (ins_inspect pin T ins) rt) (moves (product_moves (THREAD_ID rt) (reg_bytes pin (THREAD_ID rt) r)))"
  unfolding inspect_groups(3) [OF assms(2)] assms(4)
  by (rule tag_type.unitary_reg_flows [OF assms(1,3)]) (use assms(4-7) in simp_all)

theorem multiply_registers_witness:
  "flows set_ops set_sem (run_calls (ins_inspect example_pin set_ops (example_ins ''MUL'' (GP RBX Q) (GP RBX Q) False False)) example_rt)
    (moves (product_moves 1 (map (Reg 1 7) [0..<8])))"
proof -
  have "flows set_ops set_sem (run_calls (ins_inspect example_pin set_ops (example_ins ''MUL'' (GP RBX Q) (GP RBX Q) False False)) example_rt)
    (moves (product_moves (THREAD_ID example_rt) (reg_bytes example_pin (THREAD_ID example_rt) (GP RBX Q))))"
    by (rule multiply_registers [OF sets.tag_type_axioms]) (simp_all add: unitary_ops_def)
  then show ?thesis by simp
qed

text \<open>
  Sign and zero extension between registers repeat the taint of the bytes of the source
  over the whole destination.
\<close>

theorem extend_registers:
  assumes "tag_type T S" "INS_Opcode ins \<in> {''MOVSX'', ''MOVZX''}" "INS_MemoryOperandCount ins = 0"
    and "dst = INS_OperandReg ins 0" "src = INS_OperandReg ins 1"
    and "(REG_is_gr64 pin dst, REG_is_gr32 pin dst, REG_is_gr16 pin dst) \<in> {(True, False, False), (False, True, False), (False, False, True)}"
    and "\<not> wide pin src \<or> REG_is_gr16 pin src \<and> length (reg_bytes pin (THREAD_ID rt) src) = 2 \<and> \<not> REG_is_gr16 pin dst"
  shows "flows T S (run_calls (ins_inspect pin T ins) rt)
    (moves (assign_all (reg_bytes pin (THREAD_ID rt) dst)
      (map (\<lambda>i. reg_bytes pin (THREAD_ID rt) src ! (i mod length (reg_bytes pin (THREAD_ID rt) src)))
        [0..<length (reg_bytes pin (THREAD_ID rt) dst)])))"
proof -
  have i: "ins_inspect pin T ins = ins_movsx_op pin T ins" using assms(2) inspect_single(3,4) by auto
  show ?thesis unfolding i by (rule tag_type.movsx_r2r_op_flows [OF assms(1,3,6,7,4,5) refl])
qed

theorem extend_registers_witness:
  "flows set_ops set_sem (run_calls (ins_inspect example_pin set_ops (example_ins ''MOVSX'' (GP RAX D) (GP RBX H) False False)) example_rt)
    (moves (assign_all (map (Reg 1 10) [0..<4]) [Reg 1 7 1, Reg 1 7 1, Reg 1 7 1, Reg 1 7 1]))"
proof -
  have "flows set_ops set_sem (run_calls (ins_inspect example_pin set_ops (example_ins ''MOVSX'' (GP RAX D) (GP RBX H) False False)) example_rt)
    (moves (assign_all (reg_bytes example_pin (THREAD_ID example_rt) (GP RAX D))
      (map (\<lambda>i. reg_bytes example_pin (THREAD_ID example_rt) (GP RBX H) ! (i mod length (reg_bytes example_pin (THREAD_ID example_rt) (GP RBX H))))
        [0..<length (reg_bytes example_pin (THREAD_ID example_rt) (GP RAX D))])))"
    by (rule extend_registers [OF sets.tag_type_axioms]) simp_all
  moreover have "map (\<lambda>i. Reg 1 7 1) [0..<4] = [Reg 1 7 1, Reg 1 7 1, Reg 1 7 1, Reg 1 7 1]" by (simp add: upt_rec)
  ultimately show ?thesis by simp
qed

text \<open>
  A repeated byte store gives as many bytes of memory as the count register says the
  taint of the low byte of the accumulator, upwards from the address or downwards to it by the
  direction flag; later iterations, and instructions that do not execute, do nothing.
\<close>

theorem repeated_store:
  assumes "tag_type T S" "INS_Opcode ins = ''STOSB''" "INS_RepPrefix ins"
    and "n = REG_VALUE rt (INS_RepCountRegister ins)" "up \<longleftrightarrow> EFLAGS_DF (REG_VALUE rt (INS_OperandReg ins 4)) = 0"
    and "a = (if up then MEMORYWRITE_EA rt else MEMORYWRITE_EA rt - n + 1)" "user a (unat n)"
  shows "flows T S (run_calls (ins_inspect pin T ins) rt)
    (moves (if executing rt \<and> FIRST_REP_ITERATION rt
      then copy (unat n) (bytes a) (\<lambda>_. Reg (THREAD_ID rt) DFT_REG_RAX 0) else []))"
proof (cases "executing rt \<and> FIRST_REP_ITERATION rt")
  case True
  have "flows T S (r2m_fill 1 n T (THREAD_ID rt) (MEMORYWRITE_EA rt) (REG_VALUE rt (INS_OperandReg ins 4)))
      (moves (copy (unat n) (bytes a) (\<lambda>i. Reg (THREAD_ID rt) DFT_REG_RAX (i mod 1))))"
    using tag_type.fill_flows [OF assms(1), of 1 "REG_VALUE rt (INS_OperandReg ins 4)" "MEMORYWRITE_EA rt" n "THREAD_ID rt"] assms(5-7)
    by (cases up) simp_all
  then show ?thesis
    using True assms(3,4) inspect_single(2) [OF assms(2), of pin T]
    by (simp add: ins_stosb_def ins_stos_ins_def predicated_def rep_predicate_def r2m_xfer_opbn_def [abs_def])
next
  case False
  have "run_calls (ins_inspect pin T ins) rt = Inr"
    using False assms(3) inspect_single(2) [OF assms(2), of pin T]
    by (auto simp: ins_stosb_def ins_stos_ins_def predicated_def rep_predicate_def)
  then show ?thesis unfolding if_not_P [OF False] using tag_type.flows_Inr [OF assms(1)] by simp
qed

theorem repeated_store_witness:
  "flows set_ops set_sem (run_calls (ins_inspect example_pin set_ops (example_ins ''STOSB'' (GP RAX L) (GP RAX L) True False)) example_rt)
    (moves (copy 3 (bytes 0x2000) (\<lambda>_. Reg 1 DFT_REG_RAX 0)))"
proof -
  have "flows set_ops set_sem (run_calls (ins_inspect example_pin set_ops (example_ins ''STOSB'' (GP RAX L) (GP RAX L) True False)) example_rt)
    (moves (if executing example_rt \<and> FIRST_REP_ITERATION example_rt
      then copy (unat (3 :: u64)) (bytes 0x2000) (\<lambda>_. Reg (THREAD_ID example_rt) DFT_REG_RAX 0) else []))"
    by (rule repeated_store [OF sets.tag_type_axioms, where up = True]) (simp_all add: EFLAGS_DF_def user_low)
  then show ?thesis by simp
qed

section \<open>Ranges and traces\<close>

text \<open>
  The tag of a range of memory holds the union of the taints of its bytes, and asking
  for it changes no taint.
\<close>

theorem getn_union:
  assumes "tag_type T S" "wf_dft T S s" "user a n"
  shows "case tagmap_getn T a n s of
    Inl e \<Rightarrow> e \<in> failures S
  | Inr (t, s') \<Rightarrow> wf_dft T S s' \<and> (\<forall>l. taint_at T S s' l = taint_at T S s l) \<and>
      valid_tag S (tags s') t \<and> taint S (tags s') t = (\<Union>i < n. taint_at T S s (bytes a i))"
proof -
  from tag_type.tagmap_getn_spec [OF assms(1) tag_type.inv_start [OF assms(1,2)] assms(3)]
  show ?thesis by (auto simp: tag_type.inv_def [OF assms(1)] tag_type.holds_def [OF assms(1)] split: sum.splits)
qed

theorem getn_union_witness:
  "case tagmap_getn set_ops 0x1000 4 example_dft of Inl e \<Rightarrow> False | Inr (t, s') \<Rightarrow> unat ` t = (\<Union>i < 4. taint_at set_ops set_sem example_dft (bytes 0x1000 i))"
proof -
  have "user 0x1000 4" by (simp add: user_low)
  from getn_union [OF sets.tag_type_axioms example_dft_ok this]
  show ?thesis by (auto simp: set_sem_def split: sum.splits)
qed



text \<open>
  C33. Any trace, whatever its opcodes, operands and addresses, only moves taint: unless the tags
  run out, it runs to its end, the state stays well-formed, and the taint of every location is a union
  of taints that were there before. An access outside the user space is the only other failure: its
  routine reads through a null pointer, as the second part of the witness shows. Callbacks that a tool
  registers for opcodes must do the same; the sources here register none.
\<close>

theorem traces_only_move_taint:
  assumes "tag_type T S" "wf_dft T S s"
    and "\<And>rt f ins c. f \<in> ran pre \<union> ran post \<Longrightarrow> c \<in> set (f ins) \<Longrightarrow> moves_taint T S (c rt)"
  shows "case run_trace (trace_inspect pin T pre post bbls) rs s of
    Inl e \<Rightarrow> e \<in> failures S \<or> e = NullDeref \<and> (\<exists>rt \<in> set rs. \<not> (user (MEMORYREAD_EA rt) 128 \<and> user (MEMORYWRITE_EA rt) 128))
  | Inr s' \<Rightarrow> wf_dft T S s' \<and> (\<forall>l. \<exists>M. taint_at T S s' l = (\<Union>m \<in> M. taint_at T S s m))"
proof -
  have calls: "c \<in> set (ins_inspect pin T (concat bbls ! i)) \<or> (\<forall>rt. moves_taint T S (c rt))"
    if ic: "i < length (trace_inspect pin T pre post bbls)" "c \<in> set (trace_inspect pin T pre post bbls ! i)" for i c
  proof -
    consider f where "f \<in> ran pre \<union> ran post" "c \<in> set (f (concat bbls ! i))" | "c \<in> set (ins_inspect pin T (concat bbls ! i))"
      using ic by (cases "pre (INS_Opcode (concat bbls ! i))"; cases "post (INS_Opcode (concat bbls ! i))")
        (auto simp: trace_inspect_def intro: ranI)
    then show ?thesis using assms(3) by cases blast+
  qed
  show ?thesis
  proof (cases "\<forall>rt \<in> set rs. user (MEMORYREAD_EA rt) 128 \<and> user (MEMORYWRITE_EA rt) 128")
    case True
    have "moves_taint T S (run_trace (trace_inspect pin T pre post bbls) rs)"
    proof (rule tag_type.moving_trace [OF assms(1) tag_type.moving_calls [OF assms(1)]])
      fix i c assume i: "i < length (trace_inspect pin T pre post bbls)" "i < length rs" "c \<in> set (trace_inspect pin T pre post bbls ! i)"
      then have "user (MEMORYREAD_EA (rs ! i)) 128" "user (MEMORYWRITE_EA (rs ! i)) 128" using True by auto
      then show "moves_taint T S (c (rs ! i))"
        using calls [OF i(1,3)] tag_type.safe_inspect [OF assms(1)] tag_type.safe_calls_def [OF assms(1)] by blast
    qed
    from tag_type.moves_taint_result [OF assms(1) this assms(2)] show ?thesis by (simp split: sum.splits)
  next
    case False
    have "strays T S (run_trace (trace_inspect pin T pre post bbls) rs)"
      using calls tag_type.stray_inspect [OF assms(1)] tag_type.stray_calls_def [OF assms(1)] tag_type.straying_flow [OF assms(1)]
      by (intro tag_type.straying_trace [OF assms(1)] tag_type.straying_calls [OF assms(1)]) blast
    from tag_type.strays_result [OF assms(1) this assms(2)] False show ?thesis by (auto split: sum.splits)
  qed
qed

theorem traces_only_move_taint_witness:
  "(case run_trace (trace_inspect example_pin set_ops [''MOV'' \<mapsto> \<lambda>_. [CALL cbw]] Map.empty
      [[example_ins ''MOV'' (GP RAX Q) (GP RBX Q) False True]]) [example_rt] example_dft of
    Inl e \<Rightarrow> False | Inr s' \<Rightarrow> (\<forall>l. \<exists>M. taint_at set_ops set_sem s' l = (\<Union>m \<in> M. taint_at set_ops set_sem example_dft m))) \<and>
   run_trace (trace_inspect example_pin set_ops Map.empty Map.empty [[example_ins ''MOV'' (GP RAX Q) (GP RBX Q) False True]])
      [example_rt\<lparr>MEMORYREAD_EA := 0x800000000000\<rparr>] example_dft = Inl NullDeref"
proof (rule conjI)
  let ?pre = "[''MOV'' \<mapsto> \<lambda>_ :: ins. [CALL cbw]] :: string \<Rightarrow> (ins \<Rightarrow> (u32 set, unit) call list) option"
  let ?run = "run_trace (trace_inspect example_pin set_ops ?pre Map.empty
      [[example_ins ''MOV'' (GP RAX Q) (GP RBX Q) False True]]) [example_rt] example_dft"
  have "case ?run of
    Inl e \<Rightarrow> e \<in> failures set_sem \<or> e = NullDeref \<and> (\<exists>rt \<in> set [example_rt]. \<not> (user (MEMORYREAD_EA rt) 128 \<and> user (MEMORYWRITE_EA rt) 128))
  | Inr s' \<Rightarrow> wf_dft set_ops set_sem s' \<and> (\<forall>l. \<exists>M. taint_at set_ops set_sem s' l = (\<Union>m \<in> M. taint_at set_ops set_sem example_dft m))"
    by (rule traces_only_move_taint [OF sets.tag_type_axioms example_dft_ok])
      (auto simp: CALL_def ran_def sets.moving_conversions split: if_splits)
  then show "case ?run of Inl e \<Rightarrow> False
    | Inr s' \<Rightarrow> (\<forall>l. \<exists>M. taint_at set_ops set_sem s' l = (\<Union>m \<in> M. taint_at set_ops set_sem example_dft m))"
    by (simp add: user_low set_sem_def split: sum.splits)
next
  let ?i = "example_ins ''MOV'' (GP RAX Q) (GP RBX Q) False True"
  have "tagmap_getb set_ops example_dft 0x800000000000 = Inl NullDeref"
    by (simp add: tagmap_getb_def tag_dir_getb_as_ptr_def outside_def)
  moreover have "ins_inspect example_pin set_ops ?i = [M2R_CALL (m2r_xfer_opq set_ops) (GP RAX Q)]"
    using inspect_groups(5) [of ?i example_pin set_ops] by (simp add: mov_ops_def ins_mov_def ins_xfer_op_def)
  ultimately show "run_trace (trace_inspect example_pin set_ops Map.empty Map.empty [[?i]])
      [example_rt\<lparr>MEMORYREAD_EA := 0x800000000000\<rparr>] example_dft = Inl NullDeref"
    by (simp add: trace_inspect_def M2R_CALL_def m2r_xfer_opq_def m2r_xfer_def eval_nat_numeral)
qed

text \<open>
  C34. After a vector multiplication or division the code falls through into the moves, so
  the destination keeps only the taint of the source and loses its own.
\<close>

theorem float_ops_lose_taint:
  assumes "tag_type T S" "INS_Opcode ins \<in> set float_ops" "INS_MemoryOperandCount ins = 0" "\<not> INS_OperandIsImmediate ins 1"
    and "XMM d = INS_OperandReg ins 0" "XMM s = INS_OperandReg ins 1" "d \<noteq> s" "d \<le> 15" "s \<le> 15" "\<not> REG_is_seg pin (XMM s)"
    and "reg_bytes pin (THREAD_ID rt) (XMM d) = map (Reg (THREAD_ID rt) (19 + d)) [0..<16]"
    and "reg_bytes pin (THREAD_ID rt) (XMM s) = map (Reg (THREAD_ID rt) (19 + s)) [0..<16]"
    and "byte_classes pin (XMM d)" "byte_classes pin (XMM s)"
  shows "flows T S (run_calls (ins_inspect pin T ins) rt)
    (moves (assign_all (reg_bytes pin (THREAD_ID rt) (XMM d)) (reg_bytes pin (THREAD_ID rt) (XMM s))))"
proof -
  let ?t = "THREAD_ID rt"
  let ?d = "Reg ?t (19 + d)" and ?s = "Reg ?t (19 + s)"
  have b: "flows T S (run_calls (ins_binary_op pin T ins) rt) (moves (merge 16 ?d ?s))"
    using tag_type.binary_r2r_flows [OF assms(1), of ins pin rt] assms(3-6,11-14) by (simp add: merge_eq)
  have m: "flows T S (run_calls (ins_mov pin T ins) rt) (moves (copy 16 ?d ?s))"
    using tag_type.xfer_r2r_flows [OF assms(1), of ins pin rt] assms(3-6,10-14) mov_copies [of ins pin T] by (simp add: copy_eq)
  have app: "run_calls (cs @ ds) rt s = bindE (run_calls cs rt s) (run_calls ds rt)" for cs ds :: "('a, 'b) call list" and s
  proof (induction cs arbitrary: s)
    case (Cons c cs)
    then show ?case by (cases "c rt s") simp_all
  qed simp
  have i: "run_calls (ins_inspect pin T ins) rt = (\<lambda>s. bindE (run_calls (ins_binary_op pin T ins) rt s) (run_calls (ins_mov pin T ins) rt))"
    unfolding inspect_groups(4) [OF assms(2)] by (rule ext) (rule app)
  have "(\<Union>m \<in> moves (copy 16 ?d ?s) l. moves (merge 16 ?d ?s) m) = moves (copy 16 ?d ?s) l" for l
  proof (cases "\<exists>i < 16. l = ?d i")
    case True
    then obtain k where "k < 16" "l = ?d k" by blast
    moreover have "moves (merge 16 ?d ?s) (?s k) = {?s k}"
      using assms(7) by (intro moves_other) (auto simp: merge_def)
    ultimately show ?thesis by (simp add: moves_copy_reg)
  next
    case False
    then have "l \<notin> ?d ` {..<16}" by auto
    moreover have "fst ` set (merge 16 ?d ?s) = ?d ` {..<16}" by (force simp: merge_def)
    ultimately have "moves (copy 16 ?d ?s) l = {l}" "moves (merge 16 ?d ?s) l = {l}"
      by (simp_all add: moves_other fst_copy)
    then show ?thesis by simp
  qed
  then show ?thesis using tag_type.flows_seq [OF assms(1) b m] assms(11,12) by (simp add: i copy_eq)
qed

theorem float_ops_lose_taint_witness:
  "flows set_ops set_sem (run_calls (ins_inspect example_pin set_ops (example_ins ''MULSD'' (XMM 0) (XMM 1) False False)) example_rt)
    (moves (assign_all (map (Reg 1 19) [0..<16]) (map (Reg 1 20) [0..<16])))"
proof -
  have "flows set_ops set_sem (run_calls (ins_inspect example_pin set_ops (example_ins ''MULSD'' (XMM 0) (XMM 1) False False)) example_rt)
    (moves (assign_all (reg_bytes example_pin (THREAD_ID example_rt) (XMM 0)) (reg_bytes example_pin (THREAD_ID example_rt) (XMM 1))))"
    by (rule float_ops_lose_taint [OF sets.tag_type_axioms]) (simp_all add: float_ops_def)
  then show ?thesis by simp
qed

section \<open>System calls\<close>

text \<open>
  C23. A read from a descriptor of the input, run through the entry and the exit of the system
  call with the callbacks of the tool in the table: byte \<open>i\<close> of the buffer gets the taint of
  offset \<open>off + i\<close> of the input, for as many bytes as were asked for but at most 32 more than
  were read; all other locations keep their taint.
\<close>

theorem read_labels_input:
  assumes "tag_source T S lb" "wf_dft T S (engine s)" "descs = hook_file_syscall os T (syscall_desc os T)"
    and "is_fuzzing_fd (as_int (args 0)) s" "0 < r"
    and "len = (if args 2 > r + 32 then r + 32 else args 2)" "unat len < 2 ^ 32" "user (args 1) (unat len)"
    and "off = (if as_int (args 0) = 0 then stdin_read_off s else ucast (lseek_cur os (ucast (args 0))) - ucast r)"
  shows "labels_input T S lb s (\<lambda>i. off + i) (args 1) (unat len)
    (bindE (sysenter_save descs 0 args tid s) (sysexit_save T descs r tid))"
proof -
  let ?ctx = "call_context (descs ! 0) 0 args r (syscall_ctx_of s tid)"
  have h: "nargs (descs ! 0) = 3" "desc_pre (descs ! 0) = None" "keeps_context (descs ! 0)" "desc_post (descs ! 0) = Some (post_read_hook_file os T)"
    unfolding assms(3) by (simp_all add: hook_file_syscall_nth table_pre SYSCALL_MAX_def)
  have c: "arg ?ctx 0 = args 0" "arg ?ctx 1 = args 1" "arg ?ctx 2 = args 2" "ret ?ctx = r"
    by (simp_all add: call_context_def saved_arguments_def h(1))
  have k: "labelled_count ?ctx = len" "read_offset os (set_syscall_ctx tid ?ctx s) ?ctx = off"
    by (simp_all only: labelled_count_def read_offset_def c set_syscall_ctx_sel assms(6,9))
  have "labels_input T S lb (set_syscall_ctx tid ?ctx s)
      (\<lambda>i. read_offset os (set_syscall_ctx tid ?ctx s) ?ctx + i) (arg ?ctx 1) (unat (labelled_count ?ctx))
      (post_read_hook_file os T tid ?ctx (set_syscall_ctx tid ?ctx s))"
    by (rule tag_source.post_read_labels [OF assms(1)])
      (use assms(2,4,5,7,8) in \<open>simp_all only: taint_set_ctx is_fuzzing_fd_def set_syscall_ctx_sel c k userD not_False_eq_True\<close>)
  then show ?thesis using through_table [of 0 descs "post_read_hook_file os T" args tid s T r] h(2-4)
    by (simp add: SYSCALL_MAX_def Let_def c(2) [simplified] k)
qed

theorem read_labels_input_witness:
  "case bindE (sysenter_save (hook_file_syscall example_os set_ops (syscall_desc example_os set_ops)) 0 (\<lambda>i. if i = 0 then 3 else if i = 1 then 0x2000 else 2) 1 example_sys)
      (sysexit_save set_ops (hook_file_syscall example_os set_ops (syscall_desc example_os set_ops)) 2 1) of
    Inl e \<Rightarrow> False | Inr s' \<Rightarrow> taint_at set_ops set_sem (engine s') (Mem 0x2001) = {99}"
proof -
  let ?descs = "hook_file_syscall example_os set_ops (syscall_desc example_os set_ops)"
  have w: "wf_dft set_ops set_sem (engine example_sys)" by (simp add: wf_dft_def set_sem_def)
  have "labels_input set_ops set_sem (\<lambda>offset. {unat offset}) example_sys (\<lambda>i. 98 + i) 0x2000 (unat (2 :: u64))
      (bindE (sysenter_save ?descs 0 (\<lambda>i. if i = 0 then 3 else if i = 1 then 0x2000 else 2) 1 example_sys) (sysexit_save set_ops ?descs 2 1))"
    using read_labels_input [OF sets.tag_source_axioms w refl, of "\<lambda>i. if i = 0 then 3 else if i = 1 then 0x2000 else 2" 2 2 98 example_os 1]
    by (simp add: is_fuzzing_fd_def as_int_def example_sys_def example_os_def user_low)
  then show ?thesis by (auto simp: labels_input_def labelled_def set_sem_def split: sum.splits)
qed

text \<open>
  C24. With the table as it is initialised, no system call makes taint: whatever its number,
  arguments and result, entry and exit together clear tags of memory and change nothing else
  of the taint, or stop at memory that is not mapped.
\<close>

theorem syscalls_only_clear:
  "only_clears T s (bindE (sysenter_save (syscall_desc os T) n args tid s) (sysexit_save T (syscall_desc os T) r tid))"
proof -
  let ?D = "syscall_desc os T"
  obtain s1 where s1: "sysenter_save ?D n args tid s = Inr s1" "cleared_in T {} s s1"
    using sysenter_keeps [of ?D T s n args tid] by (auto simp: table_ok clears_def)
  have "only_clears T s1 (sysexit_save T ?D r tid s1)"
    by (rule sysexit_only_clears [OF table_clears]) (simp add: sysenter_nr [OF s1(1)] table_ok)
  then show ?thesis using s1(2) by (auto simp: s1(1) only_clears_def clears_def dest: cleared_in_trans)
qed

text \<open>
  After a system call without a callback exactly the arguments that the table marks are
  cleared, each for the size the table gives, unless they are null. The result of the call
  does not matter: the test for failure never succeeds, so a call that failed clears them too.
\<close>

theorem default_clears:
  assumes "n < SYSCALL_MAX" "d = syscall_desc os T ! n" "keeps_context d" "desc_post d = None"
  shows "clears T (\<Union>i \<in> {i. i < nargs d \<and> map_args d ! i \<noteq> 0 \<and> args i \<noteq> 0}. range_of (args i) (ucast (map_args d ! i))) s
    (bindE (sysenter_save (syscall_desc os T) (of_nat n) args tid s) (sysexit_save T (syscall_desc os T) r tid))"
  using through_table_default [of n "syscall_desc os T" T args s tid r] assms table_ok [of os T] by simp

theorem default_clears_witness:
  "clears set_ops {0x2000 ..< 0x2090} example_sys
    (bindE (sysenter_save (syscall_desc example_os set_ops) 5 (\<lambda>i. if i = 1 then 0x2000 else 3) 1 example_sys)
      (sysexit_save set_ops (syscall_desc example_os set_ops) 0 1))"
proof -
  let ?d = "syscall_desc example_os set_ops ! 5" and ?args = "\<lambda>i. if i = 1 then 0x2000 else 3 :: u64"
  have d: "?d = desc_entry 2 0 1 [0, 0x90, 0, 0, 0, 0] None None"
    by (simp add: syscall_desc_def nth_append syscalls_0_39_def example_os_def)
  have "clears set_ops (\<Union>i \<in> {i. i < nargs ?d \<and> map_args ?d ! i \<noteq> 0 \<and> ?args i \<noteq> 0}. range_of (?args i) (ucast (map_args ?d ! i)))
      example_sys (bindE (sysenter_save (syscall_desc example_os set_ops) (of_nat 5) ?args 1 example_sys)
        (sysexit_save set_ops (syscall_desc example_os set_ops) 0 1))"
    by (rule default_clears) (simp_all add: SYSCALL_MAX_def d desc_entry_def keeps_context_def)
  moreover have "{i. i < nargs ?d \<and> map_args ?d ! i \<noteq> 0 \<and> ?args i \<noteq> 0} = {1}"
    by (auto simp: d desc_entry_def less_2_cases_iff)
  ultimately show ?thesis by (simp add: d desc_entry_def range_of_def)
qed

text \<open>
  After \<open>readv\<close> the first \<open>ret\<close> bytes of the concatenation of its buffers are clear, in
  whatever way they are cut into vectors, and no other byte has changed.
\<close>

theorem readv_clears:
  assumes "0 < sint (ret ctx)" "iovs_at os (arg ctx 1) 0 vs" "list_all iov_fits vs"
    and "length vs = nat (sint (ucast (arg ctx 2) :: u32))"
  shows "clears T (set (take (unat (ret ctx)) (iov_addrs vs))) s (post_readv_hook os T tid ctx s)"
  by (rule post_readv_exact [OF assms])

theorem readv_clears_witness:
  "clears set_ops {0x2000, 0x2001, 0x3000} example_sys
    (post_readv_hook example_os set_ops 1 \<lparr>nr = 19, arg = (\<lambda>i. if i = 1 then 0x1000 else 2), ret = 3\<rparr> example_sys)"
proof -
  let ?ctx = "\<lparr>nr = 19, arg = (\<lambda>i. if i = 1 then 0x1000 else 2), ret = 3\<rparr>"
  have "clears set_ops (set (take (unat (ret ?ctx)) (iov_addrs [(0x2000, 2), (0x3000, 4)]))) example_sys
      (post_readv_hook example_os set_ops 1 ?ctx example_sys)"
    by (rule readv_clears) (simp_all add: iovs_at.simps iov_fits_def example_os_def Let_def)
  then show ?thesis by (simp add: iov_addrs_def upt_rec insert_commute)
qed

text \<open>
  C25. In every run of system calls that open, duplicate and close descriptors, or fail, the tool
  takes for the input every descriptor that the kernel has open on it. It takes exactly these,
  unless the standard input was taken away or \<open>dup2\<close> put another file over a descriptor of the
  input (\<open>slipped\<close>): of that the callbacks take no notice, and there is a run after which the tool
  takes another file for the input.
\<close>

theorem input_descriptors:
  assumes "fd_run os slipped k s"
  shows "(\<forall>fd \<ge> 0. k fd = Some Input \<longrightarrow> is_fuzzing_fd fd s) \<and>
    (\<not> slipped \<longrightarrow> fuzzing_fd_set s = {fd. 0 < fd \<and> k fd = Some Input} \<and> (\<forall>fd \<ge> 0. is_fuzzing_fd fd s \<longleftrightarrow> k fd = Some Input)) \<and>
    (\<exists>k (s' :: ('a, 's) sys). fd_run os True k s' \<and> is_fuzzing_fd 3 s' \<and> k 3 = Some Other)"
proof (intro conjI impI)
  show "\<forall>fd \<ge> 0. k fd = Some Input \<longrightarrow> is_fuzzing_fd fd s"
    using fd_run_misses_none [OF assms] by (simp add: misses_none_def)
  show "\<exists>k (s' :: ('a, 's) sys). fd_run os True k s' \<and> is_fuzzing_fd 3 s' \<and> k 3 = Some Other" by (rule fd_run_slips)
  assume "\<not> slipped"
  then have t: "tracks k s" by (rule fd_run_tracks [OF assms])
  then show "fuzzing_fd_set s = {fd. 0 < fd \<and> k fd = Some Input}" by (auto simp: tracks_def)
  show "\<forall>fd \<ge> 0. is_fuzzing_fd fd s \<longleftrightarrow> k fd = Some Input" using tracks_answers [OF t] by blast
qed

theorem input_descriptors_witness: "is_fuzzing_fd 3 example_sys"
  using input_descriptors [OF example_fd_run, THEN conjunct1, rule_format, of 3] by simp

text \<open>
  C26. A read that fails is not recognised by the callback of the tool, which tests an unsigned
  number: with the error \<open>e\<close> it clears \<open>2 ^ 32 - e\<close> bytes from the buffer on, where the callback
  of the table leaves all as it is.
\<close>

theorem failed_read:
  assumes "1 \<le> e" "e \<le> 4095" "ret ctx = - of_nat e" "\<not> is_fuzzing_fd (as_int (arg ctx 0)) s"
  shows "clears T {arg ctx 1 ..< arg ctx 1 + (2 ^ 32 - of_nat e)} s (post_read_hook_file os T tid ctx s) \<and>
    clears T {} s (post_read_hook os T tid ctx s)"
proof -
  have "ret ctx \<noteq> 0" "sint (ret ctx) \<le> 0" "(ucast (ucast (ret ctx) :: u32) :: u64) = 2 ^ 32 - of_nat e"
    using error_word [OF assms(1,2)] by (simp_all add: assms(3))
  then show ?thesis using post_read_clears [OF assms(4), of T os tid]
    by (simp add: range_of_def post_read_hook_def clears_Inr)
qed

theorem failed_read_witness:
  "clears set_ops {0x2000 ..< 0x100001ff7} example_sys
    (post_read_hook_file example_os set_ops 1 \<lparr>nr = 0, arg = (\<lambda>i. if i = 1 then 0x2000 else 7), ret = -9\<rparr> example_sys)"
proof -
  let ?ctx = "\<lparr>nr = 0, arg = (\<lambda>i. if i = 1 then 0x2000 else 7), ret = -9\<rparr>"
  have "clears set_ops {arg ?ctx 1 ..< arg ?ctx 1 + (2 ^ 32 - of_nat 9)} example_sys (post_read_hook_file example_os set_ops 1 ?ctx example_sys) \<and>
      clears set_ops {} example_sys (post_read_hook example_os set_ops 1 ?ctx example_sys)"
    by (rule failed_read) (simp_all add: is_fuzzing_fd_def as_int_def example_sys_def)
  then show ?thesis by simp
qed

section \<open>Counted tags\<close>

text \<open>
  C39. The table of protected addresses is a multiset: protecting an address adds it once, also
  when the table is rebuilt or grown on the way, and then every protected address can be
  released, which takes it out once. The only failures are those of the probes of a rebuild.
\<close>

theorem protection_bag:
  assumes "protect_ok tbl" "protect_count tbl < 2 ^ 44" "a \<noteq> 0" "a \<noteq> refs_ts"
  shows "case protect_up tbl a of Inl e \<Rightarrow> e \<in> {AssertFail, OutOfFuel}
    | Inr tbl' \<Rightarrow> mset (protect_list tbl') = add_mset a (mset (protect_list tbl)) \<and>
       (\<forall>b \<in> set (protect_list tbl'). \<exists>tbl''. protect_down tbl' b = Inr tbl'' \<and> protect_ok tbl'' \<and>
          mset (protect_list tbl'') = mset (protect_list tbl') - {#b#})"
proof -
  have few: "size (protect_bag tbl) < 2 ^ 44" using assms(2) by (simp add: protect_count_bag)
  have down: "\<exists>tbl''. protect_down tbl' b = Inr tbl'' \<and> protect_ok tbl'' \<and> mset (protect_list tbl'') = mset (protect_list tbl') - {#b#}"
    if "protect_ok tbl'" "b \<in> set (protect_list tbl')" for tbl' b
    using protect_down_spec [OF that(1), of b] that(2) by (simp only: protect_bag_list set_mset_mset)
  from assms(1) few assms(3,4) show ?thesis
  proof (cases rule: protect_up_spec)
    case (stop e)
    then show ?thesis by (simp only: sum.case)
  next
    case (result tbl')
    then have "mset (protect_list tbl') = add_mset a (mset (protect_list tbl))" by (simp only: protect_bag_list)
    then show ?thesis unfolding result(1) sum.case using down [OF result(2)] by blast
  qed
qed

theorem protection_bag_witness:
  "\<exists>tbl'. protect_up example_prot 32 = Inr tbl' \<and> mset (protect_list tbl') = {#32, 24#}"
proof -
  have l: "mset (protect_list example_prot) = {#24#}" using example_prot_ok(2) by (simp add: protect_bag_list)
  then have "protect_count example_prot < 2 ^ 44" by (simp add: protect_count_bag protect_bag_list)
  from protection_bag [OF example_prot_ok(1) this, of 32] show ?thesis
    using protect_up_room [OF example_prot_ok(1), of 32] example_prot_ok(2) l by (auto simp: refs_ts_def)
qed

text \<open>
  C36. In every run from a state in the invariant, of copies, moves, assignments, destructions,
  fresh tags, unions, starts and ends of threads, with any number of collections between them:
  the count of an object that a tag points to is the number of tags that do, the object is not
  in the ring of free objects, the ring holds no object twice, and the diagram of the object is
  protected, so that Sylvan does not collect it.
\<close>

theorem counted_tags_safe:
  assumes "gc_ok locs g0" "(gc_step malloc locs)\<^sup>*\<^sup>* g0 g" "tag_at g l \<noteq> 0"
  shows "ref_count g (tag_at g l) = of_nat (card {l'. tag_at g l' = tag_at g l}) \<and>
    tag_at g l \<notin> set (queued g) \<and> distinct (queued g) \<and>
    bdd_field (tag_at g l) \<in> set (protect_list (mtbdd_protected (gbdds g)))"
proof -
  have ok: "gc_ok locs g" by (rule gc_steps_ok [OF assms(2,1)])
  then have "distinct (queued g)" by (simp add: gc_ok_def pool_ok_def pool_shape_def)
  with gc_ok_held [OF ok assms(3)] show ?thesis by (simp add: holders_def)
qed

theorem counted_tags_safe_witness:
  "tag_at example_tags (Tag 0) \<noteq> 0 \<and>
   ref_count example_tags (tag_at example_tags (Tag 0)) = of_nat (card {l. tag_at example_tags l = tag_at example_tags (Tag 0)})"
proof -
  note t1 = example_tag_ok and t2 = example_tags_ok
  have "gc_step example_malloc example_locs example_pool example_tag"
    by (rule step_alloc [OF example_locs_ok(4) example_pool_sel(3) _ t1(1)])
      (rule example_fresh, simp_all only: example_pool_sel)
  moreover have "gc_step example_malloc example_locs example_tag example_tags"
    by (rule step_alloc [OF example_locs_ok(5) t1(4) example_fresh [OF t1(7,8)] t2(1)])
  ultimately have r: "(gc_step example_malloc example_locs)\<^sup>*\<^sup>* example_pool example_tags" by (meson rtranclp.simps)
  have "pool_ok example_locs {} example_tags" using t2(2) by (simp add: gc_ok_def)
  from gtag_fun_false [OF this t2(3)] have nz: "tag_at example_tags (Tag 0) \<noteq> 0" using offset_fun_facts(2) by simp
  from counted_tags_safe [OF example_pool_ok r nz] nz show ?thesis by simp
qed

text \<open>
  C37. A fresh counted tag stands for its offset and a union for the union of the taints, unless
  the step reports that there is no room; the result is in the invariant, and every other tag
  outside the caches of the thread points to what it did and means what it meant, also when the
  step collected diagrams or objects.
\<close>

theorem counted_union:
  assumes "gc_ok locs g" "Tag d \<in> locs" "tag_at g (Tag d) = 0" "fresh_blk g (malloc (ssa_blk_list g))" "cache_locs tid \<subseteq> locs"
  shows "gc_gives (gc_tag_alloc malloc offset (Tag d) g) (\<lambda>g'. gc_ok locs g' \<and>
      gc_taint g' (Tag d) = {unat offset mod 2 ^ TAG_WIDTH} \<and>
      (\<forall>l. l \<noteq> Tag d \<longrightarrow> tag_at g' l = tag_at g l \<and> gc_taint g' l = gc_taint g l)) \<and>
    gc_gives (gc_tag_combine malloc (Tag a) (Tag b) tid (Tag d) g) (\<lambda>g'. gc_ok locs g' \<and>
      gc_taint g' (Tag d) = gc_taint g (Tag a) \<union> gc_taint g (Tag b) \<and>
      (\<forall>l. l \<notin> insert (Tag d) (cache_locs tid) \<longrightarrow> tag_at g' l = tag_at g l \<and> gc_taint g' l = gc_taint g l))"
proof
  have pk: "pool_ok locs {} g" using assms(1) by (simp add: gc_ok_def)
  note others = others_keep_taint [OF pk]
  show "gc_gives (gc_tag_alloc malloc offset (Tag d) g) (\<lambda>g'. gc_ok locs g' \<and>
      gc_taint g' (Tag d) = {unat offset mod 2 ^ TAG_WIDTH} \<and>
      (\<forall>l. l \<noteq> Tag d \<longrightarrow> tag_at g' l = tag_at g l \<and> gc_taint g' l = gc_taint g l))"
    by (rule gc_gives_mono [OF gc_alloc_gives [where malloc = malloc, OF assms(1-4)]])
      (use others gc_taint_offset in blast)
  obtain f h where f: "gtag_fun g (Tag a) f" "gtag_fun g (Tag b) h" using gtag_fun_exists [OF pk] by metis
  show "gc_gives (gc_tag_combine malloc (Tag a) (Tag b) tid (Tag d) g) (\<lambda>g'. gc_ok locs g' \<and>
      gc_taint g' (Tag d) = gc_taint g (Tag a) \<union> gc_taint g (Tag b) \<and>
      (\<forall>l. l \<notin> insert (Tag d) (cache_locs tid) \<longrightarrow> tag_at g' l = tag_at g l \<and> gc_taint g' l = gc_taint g l))"
    by (rule gc_gives_mono [OF gc_combine_gives [where malloc = malloc, OF assms(1,5,2-4) f]])
      (use others gc_taint_or [OF f] in \<open>unfold combined_def, blast\<close>)
qed

theorem counted_union_witness:
  "gc_gives (gc_tag_combine example_malloc (Tag 0) (Tag 8) 0 (Tag 16) example_tags)
    (\<lambda>g'. gc_taint g' (Tag 16) = {5, 9} \<and> gc_taint g' (Tag 0) = {5})"
proof -
  note t = example_tags_ok
  have "gc_taint example_tags (Tag 0) = {5}" "gc_taint example_tags (Tag 8) = {9}"
    using gc_taint_offset [OF t(3)] gc_taint_offset [OF t(4)] by (simp_all add: TAG_WIDTH_def)
  moreover have "Tag 0 \<notin> insert (Tag 16) (cache_locs 0)" by (simp add: cache_locs_def)
  ultimately show ?thesis
    by (intro gc_gives_mono [OF counted_union [where malloc = example_malloc,
          OF t(2) example_locs_ok(6) t(5,6) example_locs_ok(3), THEN conjunct2, of "0" "8"]]) auto
qed

text \<open>
  C38. Taking a free object never waits for ever: when the ring is empty one collection fills it,
  with a new block if too few objects are free. The object is in no tag and no longer in the
  ring, and the objects of all tags keep their diagrams.
\<close>

theorem free_object:
  assumes "gc_ok locs g" "fresh_blk g (malloc (ssa_blk_list g))"
  shows "\<exists>p g'. take_ssa malloc g = Inr (p, g') \<and> p \<in> set (cells g') \<and> (\<forall>l. tag_at g l \<noteq> p) \<and> p \<notin> set (queued g') \<and>
    tag_at g' = tag_at g \<and> (\<forall>l. tag_at g l \<noteq> 0 \<longrightarrow> bdd_of g' (tag_at g l) = bdd_of g (tag_at g l))"
proof -
  have pk: "pool_ok locs {} g" using assms(1) by (simp add: gc_ok_def)
  obtain p g' where g': "take_ssa malloc g = Inr (p, g')" "pool_ok locs {p} g'" "keeps_tags g g'"
    using take_ssa_spec [where malloc = malloc, OF pk assms(2)] by blast
  have "p \<in> set (cells g')" "p \<noteq> 0" "p \<notin> set (queued g')" "\<forall>l. tag_at g' l \<noteq> 0 \<longrightarrow> tag_at g' l \<noteq> p"
    using g'(2) by (auto simp: pool_ok_def pool_shape_def user_cell_def counts_ok_def)
  then show ?thesis using g'(1,3) unfolding keeps_tags_def by metis
qed

theorem free_object_witness:
  "\<exists>p g'. take_ssa example_malloc example_tags = Inr (p, g') \<and> p \<in> set (cells g') \<and> (\<forall>l. tag_at example_tags l \<noteq> p)"
  using free_object [where malloc = example_malloc, OF example_tags_ok(2,6)] by blast

text \<open>
  C40. The lock of the collection is taken after the test that the ring is empty, and the test is
  not repeated. A thread that takes it after another thread has finished a collection collects
  again, with a ring that is not empty: the ring then holds an object twice, as long as
  the first free object is still in it and nothing in it has been used before.
\<close>

theorem late_collection:
  assumes "pool_ok locs X g" "\<forall>p \<in> set (queued g). ref_count g p \<noteq> 0" "\<forall>p \<in> X. ref_count g p \<noteq> 0"
    and "0 < ring_room g" "hd (filter (free_cell g) (cells g)) \<in> set (queued g)"
  shows "\<exists>g'. ssa_gc malloc (g\<lparr>gc_lock := 1\<rparr>) = Inr g' \<and> \<not> distinct (queued g')"
  by (rule gc_race [OF assms])

theorem late_collection_witness:
  "\<exists>g'. ssa_gc example_malloc (example_taken\<lparr>gc_lock := 1\<rparr>) = Inr g' \<and> \<not> distinct (queued g')"
  by (rule late_collection [OF example_taken_ok(1,4) _ example_taken_ok(2,3)]) (simp add: example_taken_def)

end
